(* ===== verification/Prelude.thy ===== *)
theory Prelude
  imports Main "HOL-Library.Word" "HOL-Library.Monad_Syntax" "HOL-Library.List_Lexorder"
    "HOL-Library.Multiset"
begin

text \<open>
  Shared vocabulary of the development: the machine types of the Go sources, the reading of
  a stopped process as \<^const>\<open>None\<close>, the collections of rewrite rules the component
  theories fill, and the facts on lists, words and options that several components need.

  \<^item> A Go function that may stop the process (a panic, or \<open>log.Crit\<close>, which logs and
    exits) returns an \<open>option\<close>: \<^const>\<open>None\<close> is the stopped process.
  \<^item> A Go function that returns an \<open>error\<close> value returns a sum, \<^const>\<open>Inl\<close> the error.
  \<^item> A slice is a list, a slice index a \<open>nat\<close>, \<open>uint8\<close>, \<open>uint32\<close> and \<open>uint64\<close> values
    are words of that width, so \<open>+\<close>, \<open>-\<close> and \<open>*\<close> wrap as in Go.
\<close>

unbundle bit_operations_syntax

type_synonym byte = "8 word"
type_synonym u32 = "32 word"
type_synonym u64 = "64 word"
type_synonym bytes = "byte list"

named_theorems model_defs \<open>definitions of the model that proofs unfold\<close>
named_theorems codec_simps \<open>round trips and lengths of the byte encodings\<close>
named_theorems inv_intros \<open>preservation of the component invariants\<close>

subsection \<open>Slices\<close>

text \<open>Reading and writing \<open>s[i]\<close>: an index out of range panics.\<close>

definition slice_get :: "'a list \<Rightarrow> nat \<Rightarrow> 'a option" where
  "slice_get xs i = (if i < length xs then Some (xs ! i) else None)"

definition slice_set :: "'a list \<Rightarrow> nat \<Rightarrow> 'a \<Rightarrow> 'a list option" where
  "slice_set xs i v = (if i < length xs then Some (xs[i := v]) else None)"

text \<open>The sub-slice \<open>s[i:j]\<close>: it panics unless \<open>i <= j <= len(s)\<close>.\<close>

definition slice_sub :: "'a list \<Rightarrow> nat \<Rightarrow> nat \<Rightarrow> 'a list option" where
  "slice_sub xs i j = (if i \<le> j \<and> j \<le> length xs then Some (take (j - i) (drop i xs)) else None)"

lemma slice_get_Some [simp]: "i < length xs \<Longrightarrow> slice_get xs i = Some (xs ! i)"
  by (simp add: slice_get_def)

lemma slice_get_eq_Some: "slice_get xs i = Some v \<longleftrightarrow> i < length xs \<and> xs ! i = v"
  by (auto simp: slice_get_def)

lemma slice_set_Some [simp]: "i < length xs \<Longrightarrow> slice_set xs i v = Some (xs[i := v])"
  by (simp add: slice_set_def)

lemma slice_set_eq_Some: "slice_set xs i v = Some ys \<longleftrightarrow> i < length xs \<and> ys = xs[i := v]"
  by (auto simp: slice_set_def)

lemma slice_sub_append [simp]:
  "i = length xs \<Longrightarrow> j = length xs + length ys \<Longrightarrow> slice_sub (xs @ ys @ zs) i j = Some ys"
  by (simp add: slice_sub_def)

subsection \<open>Monadic folds\<close>

text \<open>A \<open>for\<close> loop whose body may stop the process.\<close>

fun foldM :: "('s \<Rightarrow> 'a \<Rightarrow> 's option) \<Rightarrow> 's \<Rightarrow> 'a list \<Rightarrow> 's option" where
  "foldM f s [] = Some s"
| "foldM f s (x # xs) = do { s' \<leftarrow> f s x; foldM f s' xs }"

fun mapM :: "('a \<Rightarrow> 'b option) \<Rightarrow> 'a list \<Rightarrow> 'b list option" where
  "mapM f [] = Some []"
| "mapM f (x # xs) = do { y \<leftarrow> f x; ys \<leftarrow> mapM f xs; Some (y # ys) }"

lemma foldM_append: "foldM f s (xs @ ys) = do { s' \<leftarrow> foldM f s xs; foldM f s' ys }"
  by (induction xs arbitrary: s) auto

lemma foldM_cong [fundef_cong]:
  "xs = ys \<Longrightarrow> s = t \<Longrightarrow> (\<And>x u. x \<in> set ys \<Longrightarrow> f u x = g u x) \<Longrightarrow> foldM f s xs = foldM g t ys"
  by (induction xs arbitrary: ys s t) (auto intro!: Option.bind_cong)

lemma foldM_Some:
  assumes "\<And>u x. x \<in> set xs \<Longrightarrow> I u \<Longrightarrow> \<exists>v. f u x = Some v \<and> I v" and "I s"
  shows "\<exists>t. foldM f s xs = Some t \<and> I t"
  using assms
proof (induction xs arbitrary: s)
  case (Cons x xs)
  then obtain v where "f s x = Some v" "I v" by (meson list.set_intros(1))
  with Cons show ?case by (metis bind.bind_lunit foldM.simps(2) list.set_intros(2))
qed auto

lemma foldM_pure: "\<forall>x \<in> set xs. \<forall>s. f s x = Some (f' s x) \<Longrightarrow> foldM f s xs = Some (foldl f' s xs)"
  by (induction xs arbitrary: s) auto

lemma foldM_invariant:
  assumes "foldM f s xs = Some t" and "I s"
    and "\<And>u x v. x \<in> set xs \<Longrightarrow> I u \<Longrightarrow> f u x = Some v \<Longrightarrow> I v"
  shows "I t"
  using assms
  by (induction xs arbitrary: s) (auto simp: Option.bind_eq_Some_conv)

lemma foldM_total: "foldM (\<lambda>s x. Some (f s x)) s xs = Some (foldl f s xs)"
  by (induction xs arbitrary: s) auto

lemma mapM_eq_Some: "mapM f xs = Some ys \<longleftrightarrow> list_all2 (\<lambda>x y. f x = Some y) xs ys"
  by (induction xs arbitrary: ys) (auto simp: Option.bind_eq_Some_conv list_all2_Cons1)

lemma mapM_Some: "(\<And>x. x \<in> set xs \<Longrightarrow> f x = Some (g x)) \<Longrightarrow> mapM f xs = Some (map g xs)"
  by (induction xs) auto

subsection \<open>Results with an error value\<close>

text \<open>Sequencing of calls that return an \<open>error\<close>, and a panic read as an error by a \<open>recover\<close>.\<close>

definition res_bind :: "'e + 'a \<Rightarrow> ('a \<Rightarrow> 'e + 'b) \<Rightarrow> 'e + 'b" where
  "res_bind m f = (case m of Inl e \<Rightarrow> Inl e | Inr x \<Rightarrow> f x)"

definition or_error :: "'e \<Rightarrow> 'a option \<Rightarrow> 'e + 'a" where
  "or_error e x = (case x of None \<Rightarrow> Inl e | Some y \<Rightarrow> Inr y)"

lemma res_bind_simps [simp]: "res_bind (Inl e) f = Inl e" "res_bind (Inr x) f = f x"
  by (simp_all add: res_bind_def)

lemma or_error_simps [simp]: "or_error e None = Inl e" "or_error e (Some y) = Inr y"
  by (simp_all add: or_error_def)

lemma res_bind_eq_Inr: "res_bind m f = Inr y \<longleftrightarrow> (\<exists>x. m = Inr x \<and> f x = Inr y)"
  by (cases m) auto

text \<open>Code that may both stop the process and return an error: the error ends the computation as a value.\<close>

definition try_bind :: "('e + 'a) option \<Rightarrow> ('a \<Rightarrow> ('e + 'b) option) \<Rightarrow> ('e + 'b) option" where
  "try_bind m f = (case m of None \<Rightarrow> None | Some (Inl e) \<Rightarrow> Some (Inl e) | Some (Inr x) \<Rightarrow> f x)"

lemma try_bind_simps [simp]:
  "try_bind None f = None" "try_bind (Some (Inl e)) f = Some (Inl e)" "try_bind (Some (Inr x)) f = f x"
  by (simp_all add: try_bind_def)

lemma try_bind_eq_Inr: "try_bind m f = Some (Inr y) \<longleftrightarrow> (\<exists>x. m = Some (Inr x) \<and> f x = Some (Inr y))"
  by (auto simp: try_bind_def split: option.splits sum.splits)

fun foldE :: "('s \<Rightarrow> 'a \<Rightarrow> ('e + 's) option) \<Rightarrow> 's \<Rightarrow> 'a list \<Rightarrow> ('e + 's) option" where
  "foldE f s [] = Some (Inr s)"
| "foldE f s (x # xs) = try_bind (f s x) (\<lambda>s'. foldE f s' xs)"

lemma foldE_append: "foldE f s (xs @ ys) = try_bind (foldE f s xs) (\<lambda>s'. foldE f s' ys)"
  by (induction xs arbitrary: s) (auto simp: try_bind_def split: option.splits sum.splits)

lemma foldE_invariant:
  assumes "foldE f s xs = Some (Inr s')" "I s" "\<And>s x s'. x \<in> set xs \<Longrightarrow> I s \<Longrightarrow> f s x = Some (Inr s') \<Longrightarrow> I s'"
  shows "I s'"
  using assms by (induction xs arbitrary: s) (auto simp: try_bind_eq_Inr)

lemma foldE_total:
  assumes "I s" "\<And>s x. x \<in> set xs \<Longrightarrow> I s \<Longrightarrow> \<exists>s'. f s x = Some (Inr s') \<and> I s'"
  shows "\<exists>s'. foldE f s xs = Some (Inr s') \<and> I s'"
  using assms
proof (induction xs arbitrary: s)
  case (Cons x xs)
  then obtain s1 where "f s x = Some (Inr s1)" "I s1" by (meson list.set_intros(1))
  with Cons.IH [of s1] Cons.prems(2) show ?case by auto
qed simp

subsection \<open>Sums over index sets\<close>

text \<open>The weight of a set of positions of a list, and what two heavy sets share.\<close>

definition weight :: "nat list \<Rightarrow> nat set \<Rightarrow> nat" where
  "weight ws A = (\<Sum>i | i \<in> A \<and> i < length ws. ws ! i)"

lemma weight_code [code]:
  "weight ws A = sum_list (map (\<lambda>i. if i \<in> A then ws ! i else 0) [0..<length ws])"
proof -
  have "{i. i \<in> A \<and> i < length ws} = {i \<in> {0..<length ws}. i \<in> A}" by auto
  then show ?thesis
    by (simp add: weight_def interv_sum_list_conv_sum_set_nat sum.If_cases Int_def conj_commute)
qed

lemma weight_empty [simp]: "weight ws {} = 0"
  by (simp add: weight_def)

lemma weight_insert:
  assumes "i < length ws" and "i \<notin> A"
  shows "weight ws (insert i A) = ws ! i + weight ws A"
proof -
  have "{j. j \<in> insert i A \<and> j < length ws} = insert i {j. j \<in> A \<and> j < length ws}"
    using assms by auto
  with assms show ?thesis by (simp add: weight_def)
qed

lemma weight_UNIV: "weight ws UNIV = sum_list ws"
  by (simp add: weight_def sum_list_sum_nth atLeast0LessThan lessThan_def)

lemma weight_mono: "A \<subseteq> B \<Longrightarrow> weight ws A \<le> weight ws B"
  unfolding weight_def by (rule sum_mono2) auto

lemma weight_le_sum_list: "weight ws A \<le> sum_list ws"
  using weight_mono [of A UNIV ws] by (simp add: weight_UNIV)

lemma weight_Un_Int: "weight ws (A \<union> B) + weight ws (A \<inter> B) = weight ws A + weight ws B"
proof -
  let ?S = "\<lambda>A. {i. i \<in> A \<and> i < length ws}"
  have "?S (A \<union> B) = ?S A \<union> ?S B" and "?S (A \<inter> B) = ?S A \<inter> ?S B" by auto
  then show ?thesis unfolding weight_def by (simp add: sum.union_inter)
qed

lemma weight_overlap: "weight ws A + weight ws B \<le> weight ws (A \<inter> B) + sum_list ws"
  using weight_Un_Int [of ws A B] weight_le_sum_list [of ws "A \<union> B"] by simp

lemma weight_pos_ex: "0 < weight ws A \<Longrightarrow> \<exists>i \<in> A. i < length ws"
  unfolding weight_def by (metis (mono_tags, lifting) mem_Collect_eq sum.neutral not_less0)

subsection \<open>Words\<close>

lemma unat_sum_list_word:
  fixes ws :: "'a::len word list"
  shows "sum_list (map unat ws) < 2 ^ LENGTH('a) \<Longrightarrow> unat (sum_list ws) = sum_list (map unat ws)"
proof (induction ws)
  case (Cons w ws)
  then show ?case by (simp add: unat_word_ariths)
qed simp

lemma unat_Suc_word:
  fixes x :: "'a::len word"
  shows "unat x + 1 < 2 ^ LENGTH('a) \<Longrightarrow> unat (x + 1) = unat x + 1"
  by (simp add: unat_word_ariths)

end
