(* ===== verification/Byte_Codec.thy ===== *)
theory Byte_Codec
  imports Prelude
begin

text \<open>
  Fixed-width integer encodings: \<open>common/bigendian\<close>, \<open>common/littleendian\<close> and the
  \<open>Bytes\<close>/\<open>BytesTo...\<close> pairs of \<open>inter/idx\<close> built on them. The generic little-endian
  functions \<open>le_bytes\<close> and \<open>le_word\<close> stand for the byte shuffling of Go's
  \<open>encoding/binary\<close>; the round trips and the order lemma below are what the vector
  clocks, the event serializer and the database keys rest on.
\<close>

subsection \<open>Little-endian digits\<close>

fun le_bytes :: "nat \<Rightarrow> 'a::len word \<Rightarrow> bytes" where
  "le_bytes 0 n = []"
| "le_bytes (Suc k) n = ucast n # le_bytes k (drop_bit 8 n)"

fun le_word :: "bytes \<Rightarrow> 'a::len word" where
  "le_word [] = 0"
| "le_word (b # bs) = ucast b OR push_bit 8 (le_word bs)"

lemma length_le_bytes [simp]: "length (le_bytes k n) = k"
  by (induction k arbitrary: n) auto

lemma split_low_byte:
  "ucast (ucast n :: byte) OR push_bit 8 (take_bit m (drop_bit 8 n)) = take_bit (8 + m) (n :: 'a::len word)"
  by (rule bit_eqI) (auto simp: bit_simps)

lemma le_word_le_bytes: "le_word (le_bytes k n) = take_bit (8 * k) n"
proof (induction k arbitrary: n)
  case (Suc k)
  then show ?case using split_low_byte [of n "8 * k"] by simp
qed simp

lemma le_word_le_bytes_id [codec_simps]:
  "LENGTH('a) \<le> 8 * k \<Longrightarrow> le_word (le_bytes k n) = (n :: 'a::len word)"
  by (simp add: le_word_le_bytes take_bit_word_eq_self)

lemma bit_le_word: "bit (le_word bs :: 'a::len word) n \<Longrightarrow> n < 8 * length bs"
proof (induction bs arbitrary: n)
  case (Cons x xs)
  then show ?case
    by (auto simp: bit_simps dest: bit_imp_le_length) (use Cons.IH in fastforce)
qed simp

lemma le_bytes_le_word [codec_simps]:
  "k = length bs \<Longrightarrow> 8 * k \<le> LENGTH('a) \<Longrightarrow> le_bytes k (le_word bs :: 'a::len word) = bs"
proof (induction bs arbitrary: k)
  case (Cons x xs)
  let ?w = "ucast x OR push_bit 8 (le_word xs) :: 'a word"
  have low: "ucast ?w = x"
    using Cons.prems by (intro bit_eqI) (auto simp: bit_simps)
  have "drop_bit 8 ?w = le_word xs"
    using Cons.prems
    by (intro bit_eqI)
      (auto simp: bit_simps dest: bit_le_word [where 'a = 'a] bit_imp_le_length)
  with low Cons show ?case by simp
qed simp

lemma le_bytes_zero: "le_bytes k 0 = replicate k 0"
  by (induction k) auto

subsection \<open>\<open>encoding/binary\<close>: fixed widths\<close>

text \<open>
  \<open>binary.BigEndian.Uint32(b)\<close> reads the first four bytes and panics on a shorter
  slice; likewise the other three readers.
\<close>

definition Int64ToBytes_BE :: "u64 \<Rightarrow> bytes" where
  "Int64ToBytes_BE n = rev (le_bytes 8 n)"

definition BytesToInt64_BE :: "bytes \<Rightarrow> u64 option" where
  "BytesToInt64_BE b = (if length b < 8 then None else Some (le_word (rev (take 8 b))))"

definition Int32ToBytes_BE :: "u32 \<Rightarrow> bytes" where
  "Int32ToBytes_BE n = rev (le_bytes 4 n)"

definition BytesToInt32_BE :: "bytes \<Rightarrow> u32 option" where
  "BytesToInt32_BE b = (if length b < 4 then None else Some (le_word (rev (take 4 b))))"

definition Int64ToBytes_LE :: "u64 \<Rightarrow> bytes" where
  "Int64ToBytes_LE n = le_bytes 8 n"

definition BytesToInt64_LE :: "bytes \<Rightarrow> u64 option" where
  "BytesToInt64_LE b = (if length b < 8 then None else Some (le_word (take 8 b)))"

definition Int32ToBytes_LE :: "u32 \<Rightarrow> bytes" where
  "Int32ToBytes_LE n = le_bytes 4 n"

definition BytesToInt32_LE :: "bytes \<Rightarrow> u32 option" where
  "BytesToInt32_LE b = (if length b < 4 then None else Some (le_word (take 4 b)))"

lemmas codec_defs = Int64ToBytes_BE_def BytesToInt64_BE_def Int32ToBytes_BE_def BytesToInt32_BE_def
  Int64ToBytes_LE_def BytesToInt64_LE_def Int32ToBytes_LE_def BytesToInt32_LE_def

lemma length_IntToBytes [simp]:
  "length (Int64ToBytes_BE n) = 8" "length (Int32ToBytes_BE m) = 4"
  "length (Int64ToBytes_LE n) = 8" "length (Int32ToBytes_LE m) = 4"
  by (simp_all add: codec_defs)

lemma BytesToInt_IntToBytes [simp]:
  "BytesToInt64_BE (Int64ToBytes_BE n @ bs) = Some n" "BytesToInt32_BE (Int32ToBytes_BE m @ bs) = Some m"
  "BytesToInt64_LE (Int64ToBytes_LE n @ bs) = Some n" "BytesToInt32_LE (Int32ToBytes_LE m @ bs) = Some m"
  by (simp_all add: codec_defs codec_simps)

lemma BytesToInt_IntToBytes_exact [simp]:
  "BytesToInt64_BE (Int64ToBytes_BE n) = Some n" "BytesToInt32_BE (Int32ToBytes_BE m) = Some m"
  "BytesToInt64_LE (Int64ToBytes_LE n) = Some n" "BytesToInt32_LE (Int32ToBytes_LE m) = Some m"
  using BytesToInt_IntToBytes [where bs = "[]"] by simp_all

lemma IntToBytes_BytesToInt:
  "length b = 8 \<Longrightarrow> BytesToInt64_BE b = Some n \<Longrightarrow> Int64ToBytes_BE n = b"
  "length c = 4 \<Longrightarrow> BytesToInt32_BE c = Some m \<Longrightarrow> Int32ToBytes_BE m = c"
  by (auto simp: codec_defs codec_simps)

lemma Int32ToBytes_BE_inj: "Int32ToBytes_BE m = Int32ToBytes_BE n \<longleftrightarrow> m = n"
  by (metis BytesToInt_IntToBytes_exact(2) option.inject)

subsection \<open>Big-endian keys sort like the numbers\<close>

text \<open>
  Key-value iteration visits keys in the order of \<open>bytes.Compare\<close>, which is the list
  order on bytes. Reading a byte string as a number in base 256 turns that order, on
  strings of one length, into the order of numbers.
\<close>

fun be_nat :: "bytes \<Rightarrow> nat" where
  "be_nat [] = 0"
| "be_nat (b # bs) = unat b * 256 ^ length bs + be_nat bs"

lemma byte_le_255: "unat (b :: byte) \<le> 255"
  using unsigned_less [of b, where 'a = nat] by simp

lemma be_nat_less_pow: "be_nat bs < 256 ^ length bs"
proof (induction bs)
  case (Cons b bs)
  have "unat b * 256 ^ length bs \<le> 255 * 256 ^ length bs"
    using byte_le_255 [of b] by (rule mult_right_mono) simp
  with Cons have "be_nat (b # bs) < 255 * 256 ^ length bs + 256 ^ length bs"
    unfolding be_nat.simps by linarith
  then show ?case by simp
qed simp

lemma be_nat_Cons_less:
  assumes "a < b" and "length xs = length ys"
  shows "be_nat (a # xs) < be_nat (b # ys)"
proof -
  have "Suc (unat a) * 256 ^ length xs \<le> unat b * 256 ^ length xs"
    using assms by (intro mult_right_mono) (auto simp: word_less_nat_alt)
  then show ?thesis using be_nat_less_pow [of xs] assms(2) by simp
qed

lemma less_bytes_iff_be_nat: "length xs = length ys \<Longrightarrow> xs < ys \<longleftrightarrow> be_nat xs < be_nat ys"
proof (induction xs ys rule: list_induct2)
  case (Cons x xs y ys)
  show ?case
  proof (cases x y rule: linorder_cases)
    case less
    with Cons be_nat_Cons_less [of x y xs ys] show ?thesis by simp
  next
    case equal
    with Cons show ?thesis by simp
  next
    case greater
    with Cons be_nat_Cons_less [of y x ys xs] show ?thesis by auto
  qed
qed simp

lemma be_nat_append: "be_nat (xs @ ys) = be_nat xs * 256 ^ length ys + be_nat ys"
  by (induction xs) (auto simp: algebra_simps power_add)

lemma unat_drop_bit_byte: "unat (drop_bit 8 n :: 'a::len word) = unat n div 256"
  unfolding unat_drop_bit_eq by (simp add: drop_bit_eq_div)

lemma be_nat_rev_le_bytes: "be_nat (rev (le_bytes k n)) = unat (n :: 'a::len word) mod 256 ^ k"
proof (induction k arbitrary: n)
  case (Suc k)
  have low: "unat (ucast n :: byte) = unat n mod 256"
    by (simp add: unsigned_ucast_eq take_bit_eq_mod)
  have "be_nat (rev (le_bytes (Suc k) n)) = (unat n div 256) mod 256 ^ k * 256 + unat n mod 256"
    by (simp add: be_nat_append Suc low unat_drop_bit_byte)
  also have "\<dots> = unat n mod 256 ^ Suc k"
    by (simp add: mod_mult2_eq mult.commute)
  finally show ?case .
qed simp

lemma be_nat_Int32ToBytes_BE: "be_nat (Int32ToBytes_BE n) = unat n"
  using unsigned_less [of n, where 'a = nat] by (simp add: codec_defs be_nat_rev_le_bytes)

lemma be_nat_Int64ToBytes_BE: "be_nat (Int64ToBytes_BE n) = unat n"
  using unsigned_less [of n, where 'a = nat] by (simp add: codec_defs be_nat_rev_le_bytes)

lemma Int32ToBytes_BE_mono: "Int32ToBytes_BE m < Int32ToBytes_BE n \<longleftrightarrow> m < n"
  by (simp add: less_bytes_iff_be_nat be_nat_Int32ToBytes_BE word_less_nat_alt)

lemma bytes_prefix_less [simp]: "xs @ ys < xs @ zs \<longleftrightarrow> ys < zs" for xs :: bytes
  by (induction xs) (auto simp: Cons_less_Cons)

lemma bytes_append_less: "length xs = length xs' \<Longrightarrow> xs < xs' \<Longrightarrow> xs @ ys < xs' @ zs" for xs :: bytes
  by (induction xs xs' rule: list_induct2) (auto simp: Cons_less_Cons)

end
