(* ===== verification/Idx.thy ===== *)
theory Idx
  imports Byte_Codec
begin

text \<open>
  The index types of \<open>inter/idx\<close> and \<open>inter/time.go\<close>. All but \<open>Block\<close> and \<open>Timestamp\<close> are
  \<open>uint32\<close>. A validator's position in the sorted group (\<open>idx.Validator\<close>) and a branch number
  only ever index slices, so they are \<open>nat\<close> here; every other index keeps its width, because
  sequence numbers, frames and Lamport times are added and subtracted.
\<close>

type_synonym Epoch = u32
type_synonym EventSeq = u32
type_synonym Txn = u32
type_synonym Block = u64
type_synonym Lamport = u32
type_synonym Frame = u32
type_synonym Pack = u32
type_synonym StakerID = u32
type_synonym Validator = nat
type_synonym Timestamp = u64

text \<open>\<open>Bytes\<close> of the seven \<open>uint32\<close> indexes, and of \<open>Block\<close>.\<close>

definition Idx_Bytes :: "u32 \<Rightarrow> bytes" where
  "Idx_Bytes i = Int32ToBytes_BE i"

definition Block_Bytes :: "Block \<Rightarrow> bytes" where
  "Block_Bytes b = Int64ToBytes_BE b"

definition BytesToIdx :: "bytes \<Rightarrow> u32 option" where
  "BytesToIdx b = BytesToInt32_BE b"

definition BytesToBlock :: "bytes \<Rightarrow> Block option" where
  "BytesToBlock b = BytesToInt64_BE b"

text \<open>
  \<open>idx.Validator\<close> is stored through \<open>uint32\<close>; the conversion of a position to \<open>uint32\<close>
  keeps it below \<open>2 ^ 32\<close> positions.
\<close>

definition Validator_Bytes :: "Validator \<Rightarrow> bytes" where
  "Validator_Bytes v = Int32ToBytes_BE (of_nat v)"

definition BytesToValidator :: "bytes \<Rightarrow> Validator option" where
  "BytesToValidator b = map_option unat (BytesToInt32_BE b)"

definition MaxLamport :: "Lamport \<Rightarrow> Lamport \<Rightarrow> Lamport" where
  "MaxLamport x y = (if x > y then x else y)"

definition Timestamp_Bytes :: "Timestamp \<Rightarrow> bytes" where
  "Timestamp_Bytes t = Int64ToBytes_BE t"

definition BytesToTimestamp :: "bytes \<Rightarrow> Timestamp option" where
  "BytesToTimestamp b = BytesToInt64_BE b"

definition MaxTimestamp :: "Timestamp \<Rightarrow> Timestamp \<Rightarrow> Timestamp" where
  "MaxTimestamp x y = (if x > y then x else y)"

lemma MaxLamport_max [simp]: "MaxLamport x y = max x y"
  by (auto simp: MaxLamport_def max_def)

lemma MaxTimestamp_max [simp]: "MaxTimestamp x y = max x y"
  by (auto simp: MaxTimestamp_def max_def)

lemma length_Idx_Bytes [simp]: "length (Idx_Bytes i) = 4" "length (Validator_Bytes v) = 4"
  by (simp_all add: Idx_Bytes_def Validator_Bytes_def)

lemma BytesToIdx_append [simp]: "BytesToIdx (Idx_Bytes i @ bs) = Some i"
  by (simp add: BytesToIdx_def Idx_Bytes_def)

lemma BytesToIdx_Idx_Bytes [simp]: "BytesToIdx (Idx_Bytes i) = Some i"
  by (simp add: BytesToIdx_def Idx_Bytes_def)

lemma Idx_Bytes_BytesToIdx: "length b = 4 \<Longrightarrow> BytesToIdx b = Some i \<Longrightarrow> Idx_Bytes i = b"
  unfolding BytesToIdx_def Idx_Bytes_def by (rule IntToBytes_BytesToInt(2))

lemma BytesToIdx_Some: "length b = 4 \<Longrightarrow> \<exists>i. BytesToIdx b = Some i"
  by (simp add: BytesToIdx_def BytesToInt32_BE_def)

lemma Idx_Bytes_inj [simp]: "Idx_Bytes i = Idx_Bytes j \<longleftrightarrow> i = j"
  by (simp add: Idx_Bytes_def Int32ToBytes_BE_inj)

lemma BytesToValidator_Validator_Bytes [simp]:
  "v < 2 ^ 32 \<Longrightarrow> BytesToValidator (Validator_Bytes v) = Some v"
  by (simp add: BytesToValidator_def Validator_Bytes_def unat_of_nat take_bit_eq_mod)

lemma Idx_Bytes_less [simp]: "Idx_Bytes i < Idx_Bytes j \<longleftrightarrow> i < j"
  by (simp add: Idx_Bytes_def Int32ToBytes_BE_mono)

end
