(* ===== verification/Pos.thy ===== *)
theory Pos
  imports Idx "HOL-Library.AList"
begin

text \<open>
  The package \<open>inter/pos\<close>: the validator group of an epoch with its stakes, the caches that
  order it deterministically, the quorum, and the stake counter every vote of the consensus
  goes through.

  A Go map is an association list with distinct keys: the list order is the order in which a
  \<open>range\<close> loop happens to visit the map, which Go leaves open. What the code computes from a
  map must not depend on it, and \<open>sortedArray_cong\<close> shows that it does not.
\<close>

subsection \<open>\<open>sort.go\<close>: the order of validators\<close>

type_synonym Stake = u64

datatype validator = Validator (vID: StakerID) (vStake: Stake)

text \<open>\<open>validators.Less\<close>: the greater stake first, then the lower id.\<close>

definition validators_Less :: "validator \<Rightarrow> validator \<Rightarrow> bool" where
  "validators_Less a b =
     (if vStake a \<noteq> vStake b then vStake a > vStake b else vID a < vID b)"

text \<open>It is a linear order, the one the library's \<^const>\<open>sort\<close> uses below.\<close>

instantiation validator :: linorder
begin

definition less_validator :: "validator \<Rightarrow> validator \<Rightarrow> bool" where
  "less_validator = validators_Less"

definition less_eq_validator :: "validator \<Rightarrow> validator \<Rightarrow> bool" where
  "less_eq_validator a b \<longleftrightarrow> a < b \<or> a = b"

instance
proof
  fix x y z :: validator
  show "(x < y) = (x \<le> y \<and> \<not> y \<le> x)" and "x \<le> x" and "x \<le> y \<or> y \<le> x"
    by (auto simp: less_validator_def validators_Less_def less_eq_validator_def intro: validator.expand)
  show "x \<le> y \<Longrightarrow> y \<le> z \<Longrightarrow> x \<le> z" and "x \<le> y \<Longrightarrow> y \<le> x \<Longrightarrow> x = y"
    by (auto simp: less_validator_def validators_Less_def less_eq_validator_def split: if_splits)
qed

end

subsection \<open>\<open>validators.go\<close>: builder and group\<close>

type_synonym ValidatorsBuilder = "(StakerID \<times> Stake) list"

record cache =
  indexes :: "StakerID \<rightharpoonup> Validator"
  stakes :: "Stake list"
  ids :: "StakerID list"
  totalStake :: Stake

record Validators =
  vvalues :: ValidatorsBuilder
  vcache :: cache

definition NewBuilder :: ValidatorsBuilder where
  "NewBuilder = []"

definition Builder_Set :: "ValidatorsBuilder \<Rightarrow> StakerID \<Rightarrow> Stake \<Rightarrow> ValidatorsBuilder" where
  "Builder_Set vv sid stake = (if stake = 0 then AList.delete sid vv else AList.update sid stake vv)"

definition Validators_Len :: "Validators \<Rightarrow> nat" where
  "Validators_Len vv = length (vvalues vv)"

text \<open>
  \<open>sort.Sort\<close> may use any algorithm; the order is total and ids are distinct, so the result
  is the sorted list of the pairs.
\<close>

definition sortedArray :: "ValidatorsBuilder \<Rightarrow> validator list" where
  "sortedArray vs = sort (map (\<lambda>(sid, s). Validator sid s) vs)"

definition calcCaches_step :: "cache \<Rightarrow> nat \<times> validator \<Rightarrow> cache" where
  "calcCaches_step c iv = (case iv of (i, v) \<Rightarrow>
     c\<lparr>indexes := (indexes c)(vID v \<mapsto> i),
       stakes := (stakes c)[i := vStake v],
       ids := (ids c)[i := vID v],
       totalStake := totalStake c + vStake v\<rparr>)"

definition calcCaches :: "ValidatorsBuilder \<Rightarrow> cache" where
  "calcCaches vs = foldl calcCaches_step
     \<lparr>indexes = Map.empty, stakes = replicate (length vs) 0, ids = replicate (length vs) 0, totalStake = 0\<rparr>
     (enumerate 0 (sortedArray vs))"

definition newValidators :: "ValidatorsBuilder \<Rightarrow> Validators" where
  "newValidators vals =
     (let valuesCopy = foldl (\<lambda>c (sid, s). Builder_Set c sid s) [] vals
      in \<lparr>vvalues = valuesCopy, vcache = calcCaches valuesCopy\<rparr>)"

definition Build :: "ValidatorsBuilder \<Rightarrow> Validators" where
  "Build vv = newValidators vv"

definition EqualStakeValidators :: "StakerID list \<Rightarrow> Stake \<Rightarrow> Validators" where
  "EqualStakeValidators is stake = Build (foldl (\<lambda>b sid. Builder_Set b sid stake) NewBuilder is)"

text \<open>\<open>stakes[i]\<close> panics when there are fewer stakes than ids.\<close>

definition ArrayToValidators :: "StakerID list \<Rightarrow> Stake list \<Rightarrow> Validators option" where
  "ArrayToValidators is ss = do {
     b \<leftarrow> foldM (\<lambda>b (i, sid). do { s \<leftarrow> slice_get ss i; Some (Builder_Set b sid s) })
            NewBuilder (enumerate 0 is);
     Some (Build b) }"

definition Validators_Get :: "Validators \<Rightarrow> StakerID \<Rightarrow> Stake" where
  "Validators_Get vv sid = (case map_of (vvalues vv) sid of Some s \<Rightarrow> s | None \<Rightarrow> 0)"

text \<open>A missing key of a Go map reads as the zero value: an unknown id has index 0.\<close>

definition GetIdx :: "Validators \<Rightarrow> StakerID \<Rightarrow> Validator" where
  "GetIdx vv sid = (case indexes (vcache vv) sid of Some i \<Rightarrow> i | None \<Rightarrow> 0)"

definition GetStakeByIdx :: "Validators \<Rightarrow> Validator \<Rightarrow> Stake option" where
  "GetStakeByIdx vv i = slice_get (stakes (vcache vv)) i"

definition Exists :: "Validators \<Rightarrow> StakerID \<Rightarrow> bool" where
  "Exists vv sid = (map_of (vvalues vv) sid \<noteq> None)"

definition IDs :: "Validators \<Rightarrow> StakerID list" where
  "IDs vv = ids (vcache vv)"

definition SortedIDs :: "Validators \<Rightarrow> StakerID list" where
  "SortedIDs vv = ids (vcache vv)"

definition SortedStakes :: "Validators \<Rightarrow> Stake list" where
  "SortedStakes vv = stakes (vcache vv)"

definition Idxs :: "Validators \<Rightarrow> (StakerID \<rightharpoonup> Validator)" where
  "Idxs vv = indexes (vcache vv)"

definition Validators_Copy :: "Validators \<Rightarrow> Validators" where
  "Validators_Copy vv = newValidators (vvalues vv)"

definition Validators_Builder :: "Validators \<Rightarrow> ValidatorsBuilder" where
  "Validators_Builder vv = vvalues (Validators_Copy vv)"

definition TotalStake :: "Validators \<Rightarrow> Stake" where
  "TotalStake vv = totalStake (vcache vv)"

definition Quorum :: "Validators \<Rightarrow> Stake" where
  "Quorum vv = TotalStake vv * 2 div 3 + 1"

text \<open>
  RLP is a third-party codec: \<open>enc\<close> and \<open>dec\<close> stand for \<open>rlp.Encode\<close> and \<open>rlp.Stream.Decode\<close>
  on a list of validators.
\<close>

definition EncodeRLP_Validators :: "(validator list \<Rightarrow> bytes) \<Rightarrow> Validators \<Rightarrow> bytes" where
  "EncodeRLP_Validators enc vv = enc (sortedArray (vvalues vv))"

definition DecodeRLP_Validators ::
    "(bytes \<Rightarrow> 'err + validator list) \<Rightarrow> bytes \<Rightarrow> 'err + Validators" where
  "DecodeRLP_Validators dec b = (case dec b of
     Inl err \<Rightarrow> Inl err
   | Inr arr \<Rightarrow> Inr (Build (foldl (\<lambda>c w. Builder_Set c (vID w) (vStake w)) NewBuilder arr)))"

subsection \<open>\<open>stake.go\<close>: balances and the stake counter\<close>

text \<open>
  \<open>params.Ether / 1e3\<close> is a constant of go-ethereum, the argument \<open>ratio\<close>. \<open>big.Int\<close> is
  \<open>int\<close>; \<open>Div\<close> on a positive divisor is Isabelle's \<open>div\<close>, and \<open>BitLen() >= 64\<close> says the
  absolute value is at least \<open>2 ^ 63\<close>.
\<close>

definition BalanceToStake :: "int \<Rightarrow> int \<Rightarrow> Stake" where
  "BalanceToStake ratio balance =
     (let stakeBig = balance div ratio
      in if stakeBig < 0 \<or> \<bar>stakeBig\<bar> \<ge> 2 ^ 63 then 0 else of_int stakeBig)"

definition StakeToBalance :: "int \<Rightarrow> Stake \<Rightarrow> int" where
  "StakeToBalance ratio stake = sint stake * ratio"

record StakeCounter =
  sc_validators :: Validators
  already :: "bool list"
  quorum :: Stake
  sc_sum :: Stake

definition NewCounter :: "Validators \<Rightarrow> StakeCounter" where
  "NewCounter vv = \<lparr>sc_validators = vv, already = replicate (Validators_Len vv) False, quorum = Quorum vv, sc_sum = 0\<rparr>"

definition CountByIdx :: "StakeCounter \<Rightarrow> Validator \<Rightarrow> (bool \<times> StakeCounter) option" where
  "CountByIdx s i = do {
     done \<leftarrow> slice_get (already s) i;
     if done then Some (False, s)
     else do {
       stake \<leftarrow> GetStakeByIdx (sc_validators s) i;
       Some (True, s\<lparr>already := (already s)[i := True], sc_sum := sc_sum s + stake\<rparr>) } }"

definition Count :: "StakeCounter \<Rightarrow> StakerID \<Rightarrow> (bool \<times> StakeCounter) option" where
  "Count s v = CountByIdx s (GetIdx (sc_validators s) v)"

definition HasQuorum :: "StakeCounter \<Rightarrow> bool" where
  "HasQuorum s \<longleftrightarrow> sc_sum s \<ge> quorum s"

definition Counter_Sum :: "StakeCounter \<Rightarrow> Stake" where
  "Counter_Sum s = sc_sum s"

text \<open>Genesis validators: addresses are opaque, balances are big integers.\<close>

record 'addr GenesisValidator =
  gID :: StakerID
  gAddress :: 'addr
  gStake :: int

definition GValidators_Validators :: "int \<Rightarrow> 'addr GenesisValidator list \<Rightarrow> Validators" where
  "GValidators_Validators ratio gv =
     Build (foldl (\<lambda>b v. Builder_Set b (gID v) (BalanceToStake ratio (gStake v))) NewBuilder gv)"

definition GValidators_TotalStake :: "'addr GenesisValidator list \<Rightarrow> int" where
  "GValidators_TotalStake gv = foldl (\<lambda>t v. t + gStake v) 0 gv"

definition GValidators_Map :: "'addr GenesisValidator list \<Rightarrow> (StakerID \<rightharpoonup> 'addr GenesisValidator)" where
  "GValidators_Map gv = foldl (\<lambda>m v. m(gID v \<mapsto> v)) Map.empty gv"

definition GValidators_Addresses :: "'addr GenesisValidator list \<Rightarrow> 'addr list" where
  "GValidators_Addresses gv = foldl (\<lambda>r v. r @ [gAddress v]) [] gv"


subsection \<open>The builder\<close>

text \<open>What a builder map satisfies at any moment: distinct keys and no zero stake.\<close>

definition builder_ok :: "ValidatorsBuilder \<Rightarrow> bool" where
  "builder_ok b \<longleftrightarrow> distinct (map fst b) \<and> 0 \<notin> snd ` set b"

lemma builder_ok_NewBuilder [simp]: "builder_ok NewBuilder" "builder_ok []"
  by (simp_all add: builder_ok_def NewBuilder_def)

lemma snd_set_update: "snd ` set (AList.update k v al) \<subseteq> insert v (snd ` set al)"
  by (induction al) auto

lemma builder_ok_Set [simp, inv_intros]:
  assumes "builder_ok b" shows "builder_ok (Builder_Set b sid s)"
proof (cases "s = 0")
  case True
  with assms show ?thesis
    by (auto simp: builder_ok_def Builder_Set_def AList.delete_eq distinct_map_filter)
next
  case False
  with assms snd_set_update [of sid s b] show ?thesis
    by (auto simp: builder_ok_def Builder_Set_def distinct_update)
qed

lemma map_of_Builder_Set:
  "map_of (Builder_Set b sid s) = (map_of b)(sid := if s = 0 then None else Some s)"
  by (simp add: Builder_Set_def update_conv' delete_conv')

lemma builder_ok_foldl_Set:
  "builder_ok b \<Longrightarrow> builder_ok (foldl (\<lambda>c x. Builder_Set c (f x) (g x)) b xs)"
  by (induction xs arbitrary: b) auto

lemma update_fresh: "k \<notin> fst ` set al \<Longrightarrow> AList.update k v al = al @ [(k, v)]"
  by (induction al) auto

text \<open>Copying a builder through \<open>Set\<close> gives the same pairs in the order visited.\<close>

lemma foldl_Set_append:
  "builder_ok (b @ c) \<Longrightarrow> foldl (\<lambda>c (sid, s). Builder_Set c sid s) b c = b @ c"
proof (induction c arbitrary: b)
  case (Cons x xs)
  obtain k v where x: "x = (k, v)" by (cases x)
  with Cons.prems have "Builder_Set b k v = b @ [(k, v)]"
    by (auto simp: Builder_Set_def builder_ok_def image_iff intro!: update_fresh)
  moreover have "builder_ok ((b @ [x]) @ xs)" using Cons.prems by simp
  ultimately show ?case using Cons.IH [of "b @ [x]"] x by simp
qed simp

lemma vvalues_newValidators [simp]: "builder_ok b \<Longrightarrow> vvalues (newValidators b) = b"
  using foldl_Set_append [of "[]" b] by (simp add: newValidators_def Let_def)

subsection \<open>The sorted array does not depend on the map's order\<close>

lemma set_sortedArray: "set (sortedArray b) = (\<lambda>(sid, s). Validator sid s) ` set b"
  by (simp add: sortedArray_def)

lemma length_sortedArray [simp]: "length (sortedArray b) = length b"
  by (simp add: sortedArray_def)

lemma distinct_ids_sortedArray: "builder_ok b \<Longrightarrow> distinct (map vID (sortedArray b))"
proof -
  assume "builder_ok b"
  then have "distinct (map vID (map (\<lambda>(sid, s). Validator sid s) b))"
    by (simp add: builder_ok_def comp_def case_prod_beta)
  moreover have "mset (map vID (sortedArray b)) = mset (map vID (map (\<lambda>(sid, s). Validator sid s) b))"
    unfolding sortedArray_def mset_map mset_sort ..
  ultimately show ?thesis using mset_eq_imp_distinct_iff by blast
qed

lemma sortedArray_cong:
  assumes "builder_ok a" "builder_ok b" "map_of a = map_of b"
  shows "sortedArray a = sortedArray b"
proof -
  have "set a = set b"
    using assms by (simp add: builder_ok_def map_of_inject_set)
  then have "mset a = mset b"
    using assms by (auto simp: builder_ok_def distinct_map set_eq_iff_mset_eq_distinct)
  then show ?thesis
    unfolding sortedArray_def by (metis mset_map properties_for_sort mset_sort sorted_sort)
qed

subsection \<open>Caches\<close>

lemma calcCaches_fold:
  fixes c :: cache
  assumes "length (stakes c) = n + length vs" and "length (ids c) = n + length vs"
  shows "foldl calcCaches_step c (enumerate n vs) =
     \<lparr>indexes = indexes c ++ map_of (rev (zip (map vID vs) [n..<n + length vs])),
      stakes = take n (stakes c) @ map vStake vs,
      ids = take n (ids c) @ map vID vs,
      totalStake = totalStake c + sum_list (map vStake vs)\<rparr>"
  using assms
proof (induction vs arbitrary: c n)
  case (Cons v vs)
  let ?c = "calcCaches_step c (n, v)"
  have len: "length (stakes ?c) = Suc n + length vs" "length (ids ?c) = Suc n + length vs"
    using Cons.prems by (simp_all add: calcCaches_step_def)
  have upt: "[n..<Suc (n + length vs)] = n # [Suc n..<Suc (n + length vs)]"
    by (simp add: upt_rec [of n] del: upt_Suc)
  show ?case
    using Cons.prems unfolding enumerate_simps foldl_Cons Cons.IH [OF len]
    by (simp add: calcCaches_step_def upt take_Suc_conv_app_nth list_update_append del: upt_Suc)
qed simp

lemma calcCaches_eq:
  "calcCaches b =
     \<lparr>indexes = map_of (rev (zip (map vID (sortedArray b)) [0..<length b])),
      stakes = map vStake (sortedArray b), ids = map vID (sortedArray b),
      totalStake = sum_list (map vStake (sortedArray b))\<rparr>"
  unfolding calcCaches_def by (subst calcCaches_fold) simp_all


subsection \<open>A built group\<close>

text \<open>
  The invariant of a \<open>Validators\<close> value: its map has distinct keys and positive stakes, and
  its caches are those of its map. Every constructor establishes it.
\<close>

definition valid_group :: "Validators \<Rightarrow> bool" where
  "valid_group vv \<longleftrightarrow> builder_ok (vvalues vv) \<and> vcache vv = calcCaches (vvalues vv)"

lemma valid_group_newValidators [simp, inv_intros]: "builder_ok b \<Longrightarrow> valid_group (newValidators b)"
  using foldl_Set_append [of "[]" b] by (simp add: valid_group_def newValidators_def Let_def)

lemma valid_group_Build [simp, inv_intros]: "builder_ok b \<Longrightarrow> valid_group (Build b)"
  by (simp add: Build_def)

lemma valid_group_Copy [simp]: "valid_group vv \<Longrightarrow> Validators_Copy vv = vv"
  using foldl_Set_append [of "[]" "vvalues vv"]
  by (simp add: Validators_Copy_def valid_group_def newValidators_def Let_def)

lemma valid_group_EqualStakeValidators [inv_intros]: "valid_group (EqualStakeValidators is s)"
  using builder_ok_foldl_Set [of NewBuilder "\<lambda>i. i" "\<lambda>_. s" "is"]
  by (simp add: EqualStakeValidators_def)

lemma valid_group_GValidators [inv_intros]: "valid_group (GValidators_Validators ratio gv)"
  using builder_ok_foldl_Set [of NewBuilder gID "\<lambda>v. BalanceToStake ratio (gStake v)" gv]
  by (simp add: GValidators_Validators_def)

lemma ids_eq: "valid_group vv \<Longrightarrow> SortedIDs vv = map vID (sortedArray (vvalues vv))"
  by (simp add: SortedIDs_def valid_group_def calcCaches_eq)

lemma stakes_eq: "valid_group vv \<Longrightarrow> SortedStakes vv = map vStake (sortedArray (vvalues vv))"
  by (simp add: SortedStakes_def valid_group_def calcCaches_eq)

lemma IDs_eq [simp]: "IDs vv = SortedIDs vv"
  by (simp add: IDs_def SortedIDs_def)

lemma length_SortedIDs [simp]: "valid_group vv \<Longrightarrow> length (SortedIDs vv) = Validators_Len vv"
  by (simp add: ids_eq Validators_Len_def)

lemma length_SortedStakes [simp]: "valid_group vv \<Longrightarrow> length (SortedStakes vv) = Validators_Len vv"
  by (simp add: stakes_eq Validators_Len_def)

lemma distinct_SortedIDs [simp]: "valid_group vv \<Longrightarrow> distinct (SortedIDs vv)"
  by (simp add: ids_eq distinct_ids_sortedArray valid_group_def)

lemma set_SortedIDs: "valid_group vv \<Longrightarrow> set (SortedIDs vv) = {i. Exists vv i}"
  by (force simp: ids_eq set_sortedArray Exists_def map_of_eq_None_iff image_image case_prod_beta)

lemma map_of_rev_zip_distinct:
  "distinct xs \<Longrightarrow> i < length xs \<Longrightarrow> map_of (rev (zip xs [0..<length xs])) (xs ! i) = Some i"
  by (subst map_of_eq_Some_iff) (auto simp: rev_map [symmetric] in_set_zip)

lemma GetIdx_nth:
  assumes "valid_group vv" "i < Validators_Len vv"
  shows "GetIdx vv (SortedIDs vv ! i) = i"
proof -
  have "indexes (vcache vv) = map_of (rev (zip (SortedIDs vv) [0..<length (SortedIDs vv)]))"
    using assms by (simp add: ids_eq valid_group_def calcCaches_eq)
  with map_of_rev_zip_distinct [of "SortedIDs vv" i] assms show ?thesis
    by (simp add: GetIdx_def)
qed

lemma GetIdx_Exists:
  assumes "valid_group vv" "Exists vv v"
  shows "GetIdx vv v < Validators_Len vv" "SortedIDs vv ! GetIdx vv v = v"
proof -
  from assms have "v \<in> set (SortedIDs vv)" by (simp add: set_SortedIDs)
  then obtain i where "i < Validators_Len vv" "SortedIDs vv ! i = v"
    using assms(1) by (metis in_set_conv_nth length_SortedIDs)
  with GetIdx_nth [OF assms(1)] show "GetIdx vv v < Validators_Len vv" "SortedIDs vv ! GetIdx vv v = v"
    by auto
qed

lemma GetIdx_inj:
  "valid_group vv \<Longrightarrow> Exists vv v \<Longrightarrow> Exists vv w \<Longrightarrow> GetIdx vv v = GetIdx vv w \<Longrightarrow> v = w"
  by (metis GetIdx_Exists(2))

lemma GetStakeByIdx_nth:
  "valid_group vv \<Longrightarrow> i < Validators_Len vv \<Longrightarrow> GetStakeByIdx vv i = Some (SortedStakes vv ! i)"
  by (simp add: GetStakeByIdx_def flip: SortedStakes_def)


text \<open>The stake found by position is the stake of the map.\<close>

lemma GetStakeByIdx_GetIdx:
  assumes "valid_group vv" "Exists vv v"
  shows "GetStakeByIdx vv (GetIdx vv v) = Some (Validators_Get vv v)"
proof -
  let ?i = "GetIdx vv v" and ?a = "sortedArray (vvalues vv)"
  note i = GetIdx_Exists [OF assms]
  then have "vID (?a ! ?i) = v" and "?a ! ?i \<in> set ?a"
    using assms(1) by (simp_all add: ids_eq Validators_Len_def)
  then have "(v, vStake (?a ! ?i)) \<in> set (vvalues vv)"
    by (auto simp: set_sortedArray)
  then have "map_of (vvalues vv) v = Some (vStake (?a ! ?i))"
    using assms(1) by (simp add: valid_group_def builder_ok_def)
  with i assms(1) show ?thesis
    by (simp add: GetStakeByIdx_nth Validators_Get_def stakes_eq Validators_Len_def)
qed

subsection \<open>Stakes as natural numbers, and the quorum\<close>

definition stake_weights :: "Validators \<Rightarrow> nat list" where
  "stake_weights vv = map unat (SortedStakes vv)"

definition stake_weight :: "Validators \<Rightarrow> Validator set \<Rightarrow> nat" where
  "stake_weight vv A = weight (stake_weights vv) A"

definition stake_total :: "Validators \<Rightarrow> nat" where
  "stake_total vv = sum_list (stake_weights vv)"

text \<open>A set of positions is quorate when its stake reaches \<open>Quorum()\<close>.\<close>

definition quorate :: "Validators \<Rightarrow> Validator set \<Rightarrow> bool" where
  "quorate vv A \<longleftrightarrow> unat (Quorum vv) \<le> stake_weight vv A"

text \<open>
  \<open>TotalStake()*2/3 + 1\<close> is computed in \<open>uint64\<close>: the group is sane when the doubled total
  fits.
\<close>

definition sane_group :: "Validators \<Rightarrow> bool" where
  "sane_group vv \<longleftrightarrow> valid_group vv \<and> stake_total vv < 2 ^ 63"

lemma sane_groupD [dest]: "sane_group vv \<Longrightarrow> valid_group vv"
  by (simp add: sane_group_def)

lemma TotalStake_eq: "valid_group vv \<Longrightarrow> TotalStake vv = sum_list (SortedStakes vv)"
  by (simp add: TotalStake_def SortedStakes_def valid_group_def calcCaches_eq)

lemma unat_TotalStake: "sane_group vv \<Longrightarrow> unat (TotalStake vv) = stake_total vv"
  by (simp add: TotalStake_eq sane_groupD unat_sum_list_word sane_group_def stake_total_def stake_weights_def)

lemma unat_Quorum:
  assumes "sane_group vv" shows "unat (Quorum vv) = stake_total vv * 2 div 3 + 1"
proof -
  have tot: "stake_total vv < 2 ^ 63" using assms by (simp add: sane_group_def)
  then have two: "unat (TotalStake vv * 2) = stake_total vv * 2"
    using unat_TotalStake [OF assms] by (simp add: unat_word_ariths)
  have "unat (TotalStake vv * 2 div 3) = stake_total vv * 2 div 3"
    by (simp add: unat_div two)
  moreover have "stake_total vv * 2 div 3 + 1 < 2 ^ 64" using tot by simp
  ultimately show ?thesis
    unfolding Quorum_def by (subst unat_Suc_word) simp_all
qed

lemma quorate_iff: "sane_group vv \<Longrightarrow> quorate vv A \<longleftrightarrow> 2 * stake_total vv < 3 * stake_weight vv A"
  unfolding quorate_def unat_Quorum by linarith

text \<open>
  The contract the votes of the consensus rely on, apart from how stakes are stored: weights
  of sets of validators, and which sets are quorate.
\<close>

locale weighted_quorums =
  fixes ok :: "'g \<Rightarrow> bool" and wt :: "'g \<Rightarrow> nat set \<Rightarrow> nat" and total :: "'g \<Rightarrow> nat"
    and qrt :: "'g \<Rightarrow> nat set \<Rightarrow> bool"
  assumes wt_modular: "wt g (A \<union> B) + wt g (A \<inter> B) = wt g A + wt g B"
    and wt_mono: "A \<subseteq> B \<Longrightarrow> wt g A \<le> wt g B"
    and wt_empty: "wt g {} = 0"
    and wt_total: "wt g A \<le> total g"
    and qrt_iff: "ok g \<Longrightarrow> qrt g A \<longleftrightarrow> 2 * total g < 3 * wt g A"
begin

lemma qrt_mono: "ok g \<Longrightarrow> qrt g A \<Longrightarrow> A \<subseteq> B \<Longrightarrow> qrt g B"
  using wt_mono [of A B g] by (simp add: qrt_iff)

lemma overlap_heavy:
  assumes "ok g" "qrt g A" "qrt g B" shows "total g < 3 * wt g (A \<inter> B)"
  using assms wt_modular [of g A B] wt_total [of g "A \<union> B"] by (simp add: qrt_iff)

text \<open>Two quorums meet outside any set that holds at most a third of the stake.\<close>

lemma overlap_honest:
  assumes "ok g" "qrt g A" "qrt g B" "3 * wt g C \<le> total g"
  shows "\<exists>v \<in> A \<inter> B. v \<notin> C"
proof (rule ccontr)
  assume "\<not> ?thesis"
  then have "wt g (A \<inter> B) \<le> wt g C" by (intro wt_mono) auto
  with overlap_heavy [OF assms(1-3)] assms(4) show False by simp
qed

lemma complement_light: "ok g \<Longrightarrow> qrt g A \<Longrightarrow> A \<inter> B = {} \<Longrightarrow> \<not> qrt g B"
  using overlap_heavy [of g A B] wt_empty [of g] by auto

end

interpretation sq: weighted_quorums sane_group stake_weight stake_total quorate
  by unfold_locales
    (simp_all add: stake_weight_def stake_total_def weight_Un_Int weight_mono weight_le_sum_list
      quorate_iff [unfolded stake_weight_def stake_total_def])


subsection \<open>The stake counter\<close>

definition counted :: "StakeCounter \<Rightarrow> Validator set" where
  "counted s = {i. i < length (already s) \<and> already s ! i}"

definition counter_inv :: "Validators \<Rightarrow> StakeCounter \<Rightarrow> bool" where
  "counter_inv vv s \<longleftrightarrow> sc_validators s = vv \<and> quorum s = Quorum vv \<and>
     length (already s) = Validators_Len vv \<and> unat (sc_sum s) = stake_weight vv (counted s)"

lemma counter_inv_NewCounter [simp, inv_intros]:
  "counter_inv vv (NewCounter vv)" "counted (NewCounter vv) = {}"
  by (auto simp: counter_inv_def NewCounter_def counted_def stake_weight_def weight_def)

lemma HasQuorum_iff: "counter_inv vv s \<Longrightarrow> HasQuorum s \<longleftrightarrow> quorate vv (counted s)"
  by (simp add: counter_inv_def HasQuorum_def quorate_def word_le_nat_alt)

lemma counted_update:
  "i < length (already s) \<Longrightarrow> counted (s\<lparr>already := (already s)[i := True], sc_sum := x\<rparr>) = insert i (counted s)"
  by (auto simp: counted_def nth_list_update)

lemma CountByIdx_Some:
  assumes "sane_group vv" "counter_inv vv s" "i < Validators_Len vv"
  shows "\<exists>s'. CountByIdx s i = Some (i \<notin> counted s, s') \<and> counter_inv vv s' \<and>
           counted s' = insert i (counted s)"
proof (cases "i \<in> counted s")
  case True
  with assms show ?thesis
    by (auto simp: CountByIdx_def counter_inv_def counted_def insert_absorb)
next
  case False
  let ?st = "SortedStakes vv ! i"
  let ?s' = "s\<lparr>already := (already s)[i := True], sc_sum := sc_sum s + ?st\<rparr>"
  have len: "i < length (already s)" "sc_validators s = vv" "i < length (stake_weights vv)"
    using assms by (auto simp: counter_inv_def stake_weights_def sane_groupD)
  have cnt: "counted ?s' = insert i (counted s)" using len by (simp add: counted_update)
  have "stake_weight vv (insert i (counted s)) = unat ?st + unat (sc_sum s)"
    using False assms len
    by (simp add: counter_inv_def stake_weight_def weight_insert) (simp add: stake_weights_def)
  moreover have "stake_weight vv (insert i (counted s)) < 2 ^ 63"
    using sq.wt_total [of vv "insert i (counted s)"] assms(1) by (simp add: sane_group_def)
  ultimately have "unat (sc_sum s + ?st) = stake_weight vv (insert i (counted s))"
    by (simp add: unat_word_ariths)
  with cnt assms len have "counter_inv vv ?s'" by (simp add: counter_inv_def)
  moreover have "CountByIdx s i = Some (True, ?s')"
    using False assms len by (simp add: CountByIdx_def counted_def GetStakeByIdx_nth sane_groupD)
  ultimately show ?thesis using False cnt by (intro exI [of _ ?s']) simp
qed

text \<open>Counting a list of positions, as the loops of the callers do.\<close>

definition count_all :: "StakeCounter \<Rightarrow> Validator list \<Rightarrow> StakeCounter option" where
  "count_all s is = foldM (\<lambda>c i. map_option snd (CountByIdx c i)) s is"

lemma count_all_Some:
  assumes "sane_group vv" "counter_inv vv s" "set is \<subseteq> {..<Validators_Len vv}"
  shows "\<exists>s'. count_all s is = Some s' \<and> counter_inv vv s' \<and> counted s' = counted s \<union> set is"
  using assms(2,3)
proof (induction "is" arbitrary: s)
  case (Cons i "is")
  then obtain s1 where "CountByIdx s i = Some (i \<notin> counted s, s1)" "counter_inv vv s1"
      "counted s1 = insert i (counted s)"
    using CountByIdx_Some [OF assms(1), of s i] by auto
  with Cons.IH [of s1] Cons.prems show ?case by (auto simp: count_all_def)
qed (auto simp: count_all_def)

text \<open>
  Counting any list of positions of a sane group from a fresh counter never panics, and
  the counter has a quorum exactly when the distinct positions counted hold more than two
  thirds of the total stake: repetitions do not count twice and no addition wraps.
\<close>

theorem count_all_HasQuorum:
  assumes "sane_group vv" "set is \<subseteq> {..<Validators_Len vv}"
  shows "\<exists>s. count_all (NewCounter vv) is = Some s \<and>
           (HasQuorum s \<longleftrightarrow> 2 * stake_total vv < 3 * stake_weight vv (set is))"
proof -
  obtain s where "count_all (NewCounter vv) is = Some s" "counter_inv vv s" "counted s = set is"
    using count_all_Some [OF assms(1) _ assms(2), of "NewCounter vv"] by auto
  with assms(1) show ?thesis by (auto simp: HasQuorum_iff quorate_iff)
qed

text \<open>
  C20. Two counters over one sane group that both reach the quorum have a validator in common
  outside every set of positions that holds at most a third of the stake.
\<close>

theorem quorum_intersection:
  assumes "sane_group vv" "set is \<subseteq> {..<Validators_Len vv}" "set js \<subseteq> {..<Validators_Len vv}"
    and "count_all (NewCounter vv) is = Some s" "HasQuorum s"
    and "count_all (NewCounter vv) js = Some t" "HasQuorum t"
    and "3 * stake_weight vv byz \<le> stake_total vv"
  shows "\<exists>v \<in> set is \<inter> set js. v \<notin> byz"
proof -
  have "counter_inv vv s \<and> counted s = set is" "counter_inv vv t \<and> counted t = set js"
    using count_all_Some [OF assms(1) _ assms(2), of "NewCounter vv"]
      count_all_Some [OF assms(1) _ assms(3), of "NewCounter vv"] assms(4,6) by auto
  then have "quorate vv (set is)" "quorate vv (set js)"
    using assms(5,7) HasQuorum_iff by metis+
  then show ?thesis by (rule sq.overlap_honest [OF assms(1) _ _ assms(8)])
qed


text \<open>A group of four equal validators, for the witnesses of this and later theories.\<close>

definition group4 :: Validators where
  "group4 = EqualStakeValidators [1, 2, 3, 4] 1"

lemma group4_facts [simp]:
  "valid_group group4" "SortedIDs group4 = [1, 2, 3, 4]" "SortedStakes group4 = [1, 1, 1, 1]"
  "Validators_Len group4 = 4" 
proof -
  show "valid_group group4" unfolding group4_def by (rule valid_group_EqualStakeValidators)
  show "SortedIDs group4 = [1, 2, 3, 4]" by code_simp
  show "SortedStakes group4 = [1, 1, 1, 1]" by code_simp
  show "Validators_Len group4 = 4" by code_simp
qed

lemma stake_total_group4 [simp]: "stake_total group4 = 4"
  by code_simp

lemma sane_group4 [simp]: "sane_group group4"
  by (simp add: sane_group_def)

theorem count_all_HasQuorum_witness:
  "\<exists>s. count_all (NewCounter group4) [0, 1, 1, 3] = Some s \<and> HasQuorum s"
proof -
  have "2 * stake_total group4 < 3 * stake_weight group4 (set [0, 1, 1, 3])" by code_simp
  with count_all_HasQuorum [of group4 "[0, 1, 1, 3]"] show ?thesis by auto
qed

theorem quorum_intersection_witness: "\<exists>v \<in> set [0, 1, 2] \<inter> set [1, 2, 3]. v \<notin> {1 :: nat}"
proof -
  let ?c = "count_all (NewCounter group4)"
  have some: "?c [0, 1, 2] \<noteq> None" "?c [1, 2, 3] \<noteq> None" by code_simp+
  have q: "HasQuorum (the (?c [0, 1, 2]))" "HasQuorum (the (?c [1, 2, 3]))" by code_simp+
  have byz: "3 * stake_weight group4 {1} \<le> stake_total group4" by code_simp
  from some obtain s t where "?c [0, 1, 2] = Some s" "?c [1, 2, 3] = Some t" by blast
  with q byz show ?thesis
    by (intro quorum_intersection [of group4 "[0, 1, 2]" "[1, 2, 3]" s t]) simp_all
qed

text \<open>
  The order in which a Go map is visited is invisible: two builders with the same
  content, in whatever order their pairs come, build groups with the same sorted ids, stakes,
  index, total and quorum; the group is well-formed and holds exactly the builder's pairs.
\<close>

theorem Build_deterministic:
  assumes "builder_ok a" "builder_ok b" "map_of a = map_of b"
  shows "vcache (Build a) = vcache (Build b) \<and> Quorum (Build a) = Quorum (Build b) \<and>
         valid_group (Build a) \<and> map_of (vvalues (Build a)) = map_of a"
proof -
  have "length a = length b"
    using sortedArray_cong [OF assms] by (metis length_sortedArray)
  then have "calcCaches a = calcCaches b"
    by (simp add: calcCaches_eq sortedArray_cong [OF assms])
  with assms(1,2) have "vcache (Build a) = vcache (Build b)"
    using valid_group_newValidators by (simp add: Build_def valid_group_def)
  with assms(1) show ?thesis
    by (simp add: Quorum_def TotalStake_def Build_def)
qed

theorem Build_deterministic_witness:
  "builder_ok [(1, 5), (2, 7)] \<and> vcache (Build [(1, 5), (2, 7)]) = vcache (Build [(2, 7), (1, 5)])"
proof -
  have "map_of [(1, 5), (2, 7)] = map_of [(2, 7), (1 :: StakerID, 5 :: Stake)]"
    by (auto simp: fun_upd_twist)
  then show ?thesis
    using Build_deterministic [of "[(1, 5), (2, 7)]" "[(2, 7), (1, 5)]"] by (simp add: builder_ok_def)
qed

text \<open>
  Storing a group and reading it back gives a group with the same content and the same
  caches, for any codec whose decoder inverts its encoder.
\<close>

theorem Validators_RLP_roundtrip:
  assumes "valid_group vv" and rlp: "\<And>arr. dec (enc arr) = Inr arr"
  shows "\<exists>ww. DecodeRLP_Validators dec (EncodeRLP_Validators enc vv) = Inr ww \<and> valid_group ww \<and>
           map_of (vvalues ww) = map_of (vvalues vv) \<and> vcache ww = vcache vv"
proof -
  let ?arr = "sortedArray (vvalues vv)"
  let ?b = "map (\<lambda>w. (vID w, vStake w)) ?arr"
  have fold: "foldl (\<lambda>c w. Builder_Set c (vID w) (vStake w)) b xs
      = foldl (\<lambda>c (sid, s). Builder_Set c sid s) b (map (\<lambda>w. (vID w, vStake w)) xs)" for b xs
    by (induction xs arbitrary: b) auto
  have set_b: "set ?b = set (vvalues vv)" by (force simp: set_sortedArray)
  have ok: "builder_ok ?b"
    using assms(1) distinct_ids_sortedArray [of "vvalues vv"] set_b
    unfolding builder_ok_def valid_group_def by (simp add: comp_def)
  moreover have eq: "map_of ?b = map_of (vvalues vv)"
    using ok assms(1) set_b by (simp add: map_of_inject_set builder_ok_def valid_group_def)
  moreover have "calcCaches ?b = calcCaches (vvalues vv)"
    using sortedArray_cong [OF ok _ eq] assms(1) by (simp add: calcCaches_eq valid_group_def)
  ultimately show ?thesis
    using foldl_Set_append [of "[]" ?b] assms
    by (simp add: EncodeRLP_Validators_def DecodeRLP_Validators_def fold NewBuilder_def Build_def
        newValidators_def Let_def valid_group_def)
qed


text \<open>A fixed-width codec, to show that the hypothesis on the codec can hold.\<close>

definition fixed_enc :: "validator list \<Rightarrow> bytes" where
  "fixed_enc arr = concat (map (\<lambda>w. Int32ToBytes_BE (vID w) @ Int64ToBytes_BE (vStake w)) arr)"

function fixed_dec :: "bytes \<Rightarrow> unit + validator list" where
  "fixed_dec b =
     (if b = [] then Inr []
      else case (BytesToInt32_BE b, BytesToInt64_BE (drop 4 b)) of
        (Some i, Some s) \<Rightarrow> (case fixed_dec (drop 12 b) of Inl e \<Rightarrow> Inl e | Inr arr \<Rightarrow> Inr (Validator i s # arr))
      | _ \<Rightarrow> Inl ())"
  by pat_completeness auto
termination
  by (relation "measure length") auto

declare fixed_dec.simps [simp del]

lemma fixed_dec_enc: "fixed_dec (fixed_enc arr) = Inr arr"
proof (induction arr)
  case Nil
  then show ?case by (simp add: fixed_enc_def fixed_dec.simps [of "[]"])
next
  case (Cons w arr)
  let ?b = "fixed_enc (w # arr)"
  have b: "?b = Int32ToBytes_BE (vID w) @ Int64ToBytes_BE (vStake w) @ fixed_enc arr"
    by (simp add: fixed_enc_def)
  then have "?b \<noteq> []" "drop 4 ?b = Int64ToBytes_BE (vStake w) @ fixed_enc arr" "drop 12 ?b = fixed_enc arr"
    by (auto simp flip: length_0_conv)
  with b Cons show ?case by (subst fixed_dec.simps) simp
qed

theorem Validators_RLP_roundtrip_witness:
  "\<exists>ww. DecodeRLP_Validators fixed_dec (EncodeRLP_Validators fixed_enc group4) = Inr ww \<and> valid_group ww"
  using Validators_RLP_roundtrip [of group4 fixed_dec fixed_enc] fixed_dec_enc by auto

text \<open>
  \<open>Quorum\<close> doubles the total in \<open>uint64\<close>. Stakes below \<open>2 ^ 63\<close> pass \<open>BalanceToStake\<close>,
  yet two of \<open>2 ^ 62\<close> already make the doubled total wrap to 0, and a single unit of stake is
  then a quorum.
\<close>

theorem Quorum_overflow:
  "BalanceToStake 1 (2 ^ 62) = 2 ^ 62 \<and>
   TotalStake (EqualStakeValidators [1, 2] (2 ^ 62)) = 2 ^ 63 \<and>
   Quorum (EqualStakeValidators [1, 2] (2 ^ 62)) = 1"
proof -
  have "BalanceToStake 1 (2 ^ 62) = 2 ^ 62" by (simp add: BalanceToStake_def)
  moreover have "TotalStake (EqualStakeValidators [1, 2] (2 ^ 62)) = 2 ^ 63" by code_simp
  moreover have "Quorum (EqualStakeValidators [1, 2] (2 ^ 62)) = 1" by code_simp
  ultimately show ?thesis by blast
qed

lemma StakeToBalance_roundtrip:
  assumes "0 < ratio" "stake < 2 ^ 63"
  shows "BalanceToStake ratio (StakeToBalance ratio stake) = stake"
proof -
  have u: "uint stake < 2 ^ 63" using assms(2) by (simp add: word_less_alt)
  moreover have "- (2 ^ 63) \<le> uint stake" by (rule order_trans [OF _ uint_ge_0]) simp
  ultimately have "sint stake = uint stake"
    using signed_take_bit_int_eq_self [of 63 "uint stake"] by (simp add: sint_uint)
  with u assms(1) show ?thesis
    by (simp add: BalanceToStake_def StakeToBalance_def)
qed

end
