(* ===== verification/Vector_Clock.thy ===== *)
theory Vector_Clock
  imports Idx
begin

text \<open>
  \<open>vector/vector.go\<close>: the three vector clocks kept per event, stored in binary form. The
  functions below work on the bytes as the code does; the locale \<open>cell_vector\<close> is what the
  index relies on (a vector of cells, zero where nothing was written, that grows on demand),
  interpreted for each of the three layouts. \<open>i*4\<close> and \<open>i*8\<close> are computed in \<open>uint32\<close> by
  the code and stay below \<open>2 ^ 32\<close> for any vector that fits in memory, so positions are \<open>nat\<close>.
\<close>

type_synonym LowestAfterSeq = bytes
type_synonym HighestBeforeSeq = bytes
type_synonym HighestBeforeTime = bytes

record BranchSeq =
  Seq :: EventSeq
  MinSeq :: EventSeq

record allVecs =
  after :: LowestAfterSeq
  beforeSeq :: HighestBeforeSeq
  beforeTime :: HighestBeforeTime

subsection \<open>Cells of a byte vector\<close>

text \<open>The loop \<open>for int(i) >= b.Size() { append zeros }\<close>, for cells of \<open>w\<close> bytes.\<close>

function extend :: "nat \<Rightarrow> bytes \<Rightarrow> nat \<Rightarrow> bytes" where
  "extend w b i = (if 0 < w \<and> length b div w \<le> i then extend w (b @ replicate w 0) i else b)"
  by pat_completeness auto
termination
  by (relation "measure (\<lambda>(w, b, i). Suc i - length b div w)") (auto simp: div_add_self2)

declare extend.simps [simp del]

text \<open>Overwriting the bytes \<open>b[i*w : (i+1)*w]\<close>.\<close>

definition put_cell :: "nat \<Rightarrow> bytes \<Rightarrow> nat \<Rightarrow> bytes \<Rightarrow> bytes" where
  "put_cell w b i v = take (i * w) b @ v @ drop ((i + 1) * w) b"

definition cell :: "nat \<Rightarrow> bytes \<Rightarrow> nat \<Rightarrow> bytes" where
  "cell w b i = take w (drop (i * w) b)"

subsection \<open>The three layouts\<close>

definition NewLowestAfterSeq :: "nat \<Rightarrow> LowestAfterSeq" where
  "NewLowestAfterSeq n = replicate (n * 4) 0"

definition NewHighestBeforeTime :: "nat \<Rightarrow> HighestBeforeTime" where
  "NewHighestBeforeTime n = replicate (n * 8) 0"

definition NewHighestBeforeSeq :: "nat \<Rightarrow> HighestBeforeSeq" where
  "NewHighestBeforeSeq n = replicate (n * 8) 0"

definition LowestAfterSeq_Size :: "LowestAfterSeq \<Rightarrow> nat" where
  "LowestAfterSeq_Size b = length b div 4"

definition LowestAfterSeq_Get :: "LowestAfterSeq \<Rightarrow> Validator \<Rightarrow> EventSeq" where
  "LowestAfterSeq_Get b i = (if i \<ge> LowestAfterSeq_Size b then 0 else le_word (cell 4 b i))"

definition LowestAfterSeq_Set :: "LowestAfterSeq \<Rightarrow> Validator \<Rightarrow> EventSeq \<Rightarrow> LowestAfterSeq" where
  "LowestAfterSeq_Set b i s = put_cell 4 (extend 4 b i) i (Int32ToBytes_LE s)"

definition HighestBeforeTime_Size :: "HighestBeforeTime \<Rightarrow> nat" where
  "HighestBeforeTime_Size b = length b div 8"

definition HighestBeforeTime_Get :: "HighestBeforeTime \<Rightarrow> Validator \<Rightarrow> Timestamp" where
  "HighestBeforeTime_Get b i = (if i \<ge> HighestBeforeTime_Size b then 0 else le_word (cell 8 b i))"

definition HighestBeforeTime_Set :: "HighestBeforeTime \<Rightarrow> Validator \<Rightarrow> Timestamp \<Rightarrow> HighestBeforeTime" where
  "HighestBeforeTime_Set b i t = put_cell 8 (extend 8 b i) i (Int64ToBytes_LE t)"

definition HighestBeforeSeq_Size :: "HighestBeforeSeq \<Rightarrow> nat" where
  "HighestBeforeSeq_Size b = length b div 8"

definition HighestBeforeSeq_Get :: "HighestBeforeSeq \<Rightarrow> Validator \<Rightarrow> BranchSeq" where
  "HighestBeforeSeq_Get b i =
     (if i \<ge> HighestBeforeSeq_Size b then \<lparr>Seq = 0, MinSeq = 0\<rparr>
      else \<lparr>Seq = le_word (take 4 (cell 8 b i)), MinSeq = le_word (drop 4 (cell 8 b i))\<rparr>)"

definition HighestBeforeSeq_Set :: "HighestBeforeSeq \<Rightarrow> Validator \<Rightarrow> BranchSeq \<Rightarrow> HighestBeforeSeq" where
  "HighestBeforeSeq_Set b i s =
     put_cell 8 (extend 8 b i) i (Int32ToBytes_LE (Seq s) @ Int32ToBytes_LE (MinSeq s))"

text \<open>The marker of an observed fork: \<open>MinSeq\<close> is \<open>math.MaxInt32\<close>.\<close>

definition forkDetectedSeq :: BranchSeq where
  "forkDetectedSeq = \<lparr>Seq = 0, MinSeq = 2 ^ 31 - 1\<rparr>"

definition IsForkDetected :: "BranchSeq \<Rightarrow> bool" where
  "IsForkDetected s \<longleftrightarrow> s = forkDetectedSeq"

subsection \<open>Laws of cells\<close>

lemma extend_eq:
  assumes "0 < w" "length b = n * w"
  shows "extend w b i = b @ replicate ((Suc i - n) * w) 0"
  using assms
proof (induction w b i arbitrary: n rule: extend.induct)
  case (1 w b i)
  show ?case
  proof (cases "n \<le> i")
    case True
    then have "extend w b i = (b @ replicate w 0) @ replicate ((Suc i - Suc n) * w) 0"
      using "1.IH" [of "Suc n"] "1.prems" by (simp add: extend.simps [of w b i])
    also have "\<dots> = b @ replicate ((Suc i - n) * w) 0"
      using True by (simp add: Suc_diff_le flip: replicate_add)
    finally show ?thesis .
  next
    case False
    with "1.prems" show ?thesis by (simp add: extend.simps [of w b i])
  qed
qed

lemma length_put_cell:
  "length v = w \<Longrightarrow> i < n \<Longrightarrow> length b = n * w \<Longrightarrow> length (put_cell w b i v) = n * w"
proof -
  assume *: "length v = w" "i < n" "length b = n * w"
  then have "(i + 1) * w \<le> n * w" by (intro mult_right_mono) auto
  with * show ?thesis by (simp add: put_cell_def algebra_simps)
qed

lemma cell_put_cell_same:
  assumes "length v = w" "i * w \<le> length b"
  shows "cell w (put_cell w b i v) i = v"
  using assms by (simp add: cell_def put_cell_def)

lemma cell_put_cell_other:
  assumes v: "length v = w" and b: "(i + 1) * w \<le> length b" and ij: "i \<noteq> j"
  shows "cell w (put_cell w b i v) j = cell w b j"
proof (cases "j < i")
  case True
  then have "(j + 1) * w \<le> i * w" by (intro mult_right_mono) auto
  with b have "j * w + w \<le> i * w" "i * w \<le> length b" by simp_all
  then show ?thesis by (simp add: cell_def put_cell_def take_drop min_def)
next
  case False
  with ij have "(i + 1) * w \<le> j * w" by (intro mult_right_mono) auto
  then obtain d where "j * w = (i + 1) * w + d" using le_Suc_ex by blast
  with v b show ?thesis
    by (simp add: cell_def put_cell_def algebra_simps)
qed

lemma cell_zeros: "set b \<subseteq> {0} \<Longrightarrow> set (cell w b i) \<subseteq> {0}"
  by (auto simp: cell_def dest!: in_set_takeD in_set_dropD)

lemma le_word_zeros: "set b \<subseteq> {0} \<Longrightarrow> le_word b = 0"
  by (induction b) auto

lemma cell_append_left: "(i + 1) * w \<le> length b \<Longrightarrow> cell w (b @ c) i = cell w b i"
  by (simp add: cell_def algebra_simps)

lemma cell_append_right: "length b = n * w \<Longrightarrow> n \<le> i \<Longrightarrow> cell w (b @ c) i = cell w c (i - n)"
  by (simp add: cell_def diff_mult_distrib)

text \<open>
  What a layout of cells of \<open>w\<close> bytes promises, once for the three of them: \<open>put\<close> writes a
  cell, \<open>rd\<close> decodes one, and all-zero bytes decode to \<open>zero\<close>.
\<close>

locale cell_layout =
  fixes w :: nat and enc :: "'v \<Rightarrow> bytes" and rd :: "bytes \<Rightarrow> 'v" and zero :: 'v
  assumes w_pos: "0 < w" and len_enc: "length (enc v) = w" and rd_enc: "rd (enc v) = v"
    and rd_zeros: "set b \<subseteq> {0} \<Longrightarrow> rd b = zero"
begin

definition vget :: "bytes \<Rightarrow> nat \<Rightarrow> 'v" where
  "vget b i = (if i \<ge> length b div w then zero else rd (cell w b i))"

definition vset :: "bytes \<Rightarrow> nat \<Rightarrow> 'v \<Rightarrow> bytes" where
  "vset b i v = put_cell w (extend w b i) i (enc v)"

definition wf :: "bytes \<Rightarrow> bool" where
  "wf b \<longleftrightarrow> w dvd length b"

lemma wfE: "wf b \<Longrightarrow> \<exists>n. length b = n * w"
  unfolding wf_def by (metis dvd_def mult.commute)

lemma vset_len:
  assumes "wf b"
  shows "wf (vset b i v)" "length (vset b i v) div w = max (length b div w) (Suc i)"
proof -
  obtain n where n: "length b = n * w" using wfE [OF assms] by blast
  have "length (extend w b i) = max n (Suc i) * w"
    using extend_eq [OF w_pos n, of i] n by (simp add: max_def add_mult_distrib [symmetric])
  then have "length (vset b i v) = max n (Suc i) * w"
    unfolding vset_def using len_enc by (intro length_put_cell) auto
  then show "wf (vset b i v)" "length (vset b i v) div w = max (length b div w) (Suc i)"
    using n w_pos by (simp_all add: wf_def)
qed

lemma vget_extend: "wf b \<Longrightarrow> vget (extend w b i) j = vget b j"
proof -
  assume "wf b"
  then obtain n where n: "length b = n * w" using wfE by blast
  have e: "extend w b i = b @ replicate ((Suc i - n) * w) 0" using extend_eq [OF w_pos n] .
  show ?thesis
  proof (cases "j < n")
    case True
    then have "(j + 1) * w \<le> length b" unfolding n by (intro mult_right_mono) auto
    with True n w_pos show ?thesis
      by (auto simp: vget_def e cell_append_left div_add1_eq)
  next
    case False
    then have "set (cell w (b @ replicate ((Suc i - n) * w) 0) j) \<subseteq> {0}"
      using cell_append_right [OF n, of j] cell_zeros [of "replicate ((Suc i - n) * w) 0" w "j - n"]
      by (simp add: subset_iff)
    with False n w_pos show ?thesis by (auto simp: vget_def e rd_zeros)
  qed
qed

lemma vget_vset:
  assumes "wf b" shows "vget (vset b i v) j = (if j = i then v else vget b j)"
proof -
  obtain n where n: "length b = n * w" using wfE [OF assms] by blast
  let ?e = "extend w b i"
  have le: "length ?e = max n (Suc i) * w"
    using extend_eq [OF w_pos n, of i] n by (simp add: max_def add_mult_distrib [symmetric])
  have room: "(i + 1) * w \<le> length ?e" unfolding le by (intro mult_right_mono) auto
  show ?thesis
  proof (cases "j = i")
    case True
    with room show ?thesis
      using vset_len(2) [OF assms, of i v] cell_put_cell_same [of "enc v" w i ?e] len_enc
      by (simp add: vget_def vset_def rd_enc)
  next
    case False
    have "length (vset b i v) div w = length ?e div w"
      using vset_len(2) [OF assms] le n w_pos by simp
    then have "vget (vset b i v) j = vget ?e j"
      using cell_put_cell_other [OF len_enc room, of j] False by (simp add: vget_def vset_def)
    with False assms show ?thesis by (simp add: vget_extend)
  qed
qed

lemma vget_beyond: "length b div w \<le> i \<Longrightarrow> vget b i = zero"
  by (simp add: vget_def)

lemma vget_new: "vget (replicate (n * w) 0) i = zero"
  using cell_zeros [of "replicate (n * w) 0" w i] by (auto simp: vget_def rd_zeros)

lemma wf_new: "wf (replicate (n * w) 0)"
  by (simp add: wf_def)

end


text \<open>The interface of a vector clock, apart from its bytes.\<close>

locale cell_vector =
  fixes vnew :: "nat \<Rightarrow> bytes" and vsize :: "bytes \<Rightarrow> nat" and vread :: "bytes \<Rightarrow> nat \<Rightarrow> 'v"
    and vwrite :: "bytes \<Rightarrow> nat \<Rightarrow> 'v \<Rightarrow> bytes" and vwf :: "bytes \<Rightarrow> bool" and vzero :: 'v
  assumes new_wf: "vwf (vnew n)" and new_size: "vsize (vnew n) = n" and new_read: "vread (vnew n) i = vzero"
    and write_wf: "vwf b \<Longrightarrow> vwf (vwrite b i v)"
    and write_size: "vwf b \<Longrightarrow> vsize (vwrite b i v) = max (vsize b) (Suc i)"
    and read_write: "vwf b \<Longrightarrow> vread (vwrite b i v) j = (if j = i then v else vread b j)"
    and read_beyond: "vsize b \<le> i \<Longrightarrow> vread b i = vzero"
begin

text \<open>A sequence of writes reads back as the last write of each cell.\<close>

lemma read_writes:
  "vwf b \<Longrightarrow> vread (foldl (\<lambda>b (i, v). vwrite b i v) b ws) j =
     (case map_of (rev ws) j of Some v \<Rightarrow> v | None \<Rightarrow> vread b j)"
proof (induction ws arbitrary: b)
  case (Cons x ws)
  obtain i v where "x = (i, v)" by (cases x)
  with Cons show ?case by (auto simp: write_wf read_write map_add_def split: option.splits)
qed simp

lemma writes_wf: "vwf b \<Longrightarrow> vwf (foldl (\<lambda>b (i, v). vwrite b i v) b ws)"
  by (induction ws arbitrary: b) (auto simp: write_wf)

text \<open>Two writes to different cells commute, as far as any reader can tell.\<close>

lemma write_commute:
  "vwf b \<Longrightarrow> i \<noteq> j \<Longrightarrow> vread (vwrite (vwrite b i v) j u) k = vread (vwrite (vwrite b j u) i v) k"
  by (simp add: read_write write_wf)

end

definition wf_la :: "LowestAfterSeq \<Rightarrow> bool" where
  "wf_la b \<longleftrightarrow> 4 dvd length b"

definition wf_hb :: "bytes \<Rightarrow> bool" where
  "wf_hb b \<longleftrightarrow> 8 dvd length b"

interpretation la_cells: cell_layout 4 Int32ToBytes_LE "le_word :: bytes \<Rightarrow> u32" 0
  by unfold_locales (auto simp: Int32ToBytes_LE_def codec_simps le_word_zeros)

interpretation ht_cells: cell_layout 8 Int64ToBytes_LE "le_word :: bytes \<Rightarrow> u64" 0
  by unfold_locales (auto simp: Int64ToBytes_LE_def codec_simps le_word_zeros)

interpretation hb_cells: cell_layout 8
    "\<lambda>s. Int32ToBytes_LE (Seq s) @ Int32ToBytes_LE (MinSeq s)"
    "\<lambda>c. \<lparr>Seq = le_word (take 4 c), MinSeq = le_word (drop 4 c)\<rparr>" "\<lparr>Seq = 0, MinSeq = 0\<rparr>"
proof unfold_locales
  fix b :: bytes assume "set b \<subseteq> {0}"
  then have "set (take 4 b) \<subseteq> {0}" "set (drop 4 b) \<subseteq> {0}"
    by (auto dest: in_set_takeD in_set_dropD)
  then show "\<lparr>Seq = le_word (take 4 b), MinSeq = le_word (drop 4 b)\<rparr> = \<lparr>Seq = 0, MinSeq = 0\<rparr>"
    by (simp add: le_word_zeros)
qed (auto simp: Int32ToBytes_LE_def codec_simps)

interpretation la: cell_vector NewLowestAfterSeq LowestAfterSeq_Size LowestAfterSeq_Get LowestAfterSeq_Set wf_la 0
proof -
  have eqs: "wf_la = la_cells.wf" "LowestAfterSeq_Get = la_cells.vget" "LowestAfterSeq_Set = la_cells.vset"
    by (auto simp: fun_eq_iff wf_la_def la_cells.wf_def LowestAfterSeq_Get_def la_cells.vget_def
        LowestAfterSeq_Size_def LowestAfterSeq_Set_def la_cells.vset_def)
  show "cell_vector NewLowestAfterSeq LowestAfterSeq_Size LowestAfterSeq_Get LowestAfterSeq_Set wf_la 0"
    unfolding eqs
    by unfold_locales
      (simp_all add: NewLowestAfterSeq_def LowestAfterSeq_Size_def la_cells.wf_new la_cells.vget_new
        la_cells.vset_len la_cells.vget_vset la_cells.vget_beyond)
qed

interpretation ht: cell_vector NewHighestBeforeTime HighestBeforeTime_Size HighestBeforeTime_Get HighestBeforeTime_Set wf_hb 0
proof -
  have eqs: "wf_hb = ht_cells.wf" "HighestBeforeTime_Get = ht_cells.vget" "HighestBeforeTime_Set = ht_cells.vset"
    by (auto simp: fun_eq_iff wf_hb_def ht_cells.wf_def HighestBeforeTime_Get_def ht_cells.vget_def
        HighestBeforeTime_Size_def HighestBeforeTime_Set_def ht_cells.vset_def)
  show "cell_vector NewHighestBeforeTime HighestBeforeTime_Size HighestBeforeTime_Get HighestBeforeTime_Set wf_hb 0"
    unfolding eqs
    by unfold_locales
      (simp_all add: NewHighestBeforeTime_def HighestBeforeTime_Size_def ht_cells.wf_new ht_cells.vget_new
        ht_cells.vset_len ht_cells.vget_vset ht_cells.vget_beyond)
qed

interpretation hb: cell_vector NewHighestBeforeSeq HighestBeforeSeq_Size HighestBeforeSeq_Get HighestBeforeSeq_Set wf_hb
    "\<lparr>Seq = 0, MinSeq = 0\<rparr>"
proof -
  have eqs: "wf_hb = hb_cells.wf" "HighestBeforeSeq_Get = hb_cells.vget" "HighestBeforeSeq_Set = hb_cells.vset"
    by (auto simp: fun_eq_iff wf_hb_def hb_cells.wf_def HighestBeforeSeq_Get_def hb_cells.vget_def
        HighestBeforeSeq_Size_def HighestBeforeSeq_Set_def hb_cells.vset_def)
  show "cell_vector NewHighestBeforeSeq HighestBeforeSeq_Size HighestBeforeSeq_Get HighestBeforeSeq_Set wf_hb
      \<lparr>Seq = 0, MinSeq = 0\<rparr>"
    unfolding eqs
    by unfold_locales
      (simp_all add: NewHighestBeforeSeq_def HighestBeforeSeq_Size_def hb_cells.wf_new hb_cells.vget_new
        hb_cells.vset_len hb_cells.vget_vset hb_cells.vget_beyond)
qed

text \<open>The laws the index proofs rewrite with.\<close>

lemmas vec_simps = la.new_wf la.new_size la.new_read la.write_wf la.write_size la.read_write
  ht.new_wf ht.new_size ht.new_read ht.write_wf ht.write_size ht.read_write
  hb.new_wf hb.new_size hb.new_read hb.write_wf hb.write_size hb.read_write

text \<open>
  Reading a \<open>HighestBeforeSeq\<close> vector after any sequence of writes, in whatever order and
  beyond whatever size, gives for each cell the last value written to it, and zero where none
  was: the binary form loses nothing and no write disturbs another cell.
\<close>

theorem HighestBeforeSeq_read_writes:
  "HighestBeforeSeq_Get (foldl (\<lambda>b (i, v). HighestBeforeSeq_Set b i v) (NewHighestBeforeSeq n) ws) j =
     (case map_of (rev ws) j of Some v \<Rightarrow> v | None \<Rightarrow> \<lparr>Seq = 0, MinSeq = 0\<rparr>)"
  using hb.read_writes [OF hb.new_wf, of n ws j] by (simp add: hb.new_read cong: option.case_cong)

end
