(* ===== verification/Fast.thy ===== *)
theory Fast
  imports Byte_Codec
begin

text \<open>
  \<open>utils/fast\<close>: the bit array that packs small numbers into bytes and the fixed-size byte
  buffer, the two tools of the event serializer. A writer is given a sub-slice of one larger
  array; the sub-slices are disjoint, so each is a list of its own. A slice is taken to have
  no spare capacity, as the slices the codec is given have none.
\<close>

subsection \<open>\<open>bits.go\<close>\<close>

record BitArray =
  ba_bits :: nat
  ba_count :: nat
  ba_offset :: nat
  ba_size :: nat

text \<open>\<open>BitArrayWriter\<close> and \<open>BitArrayReader\<close> embed the array and hold the bytes.\<close>

record BitArrayIO = BitArray +
  raw :: bytes

definition calcSize :: "nat \<Rightarrow> nat \<Rightarrow> nat" where
  "calcSize b c = (let n = b * c; s = n div 8 in if n mod 8 > 0 then s + 1 else s)"

definition NewBitArray :: "nat \<Rightarrow> nat \<Rightarrow> BitArray option" where
  "NewBitArray b c =
     (if b \<noteq> 1 \<and> b \<noteq> 2 \<and> b \<noteq> 4 then None
      else Some \<lparr>ba_bits = b, ba_count = c, ba_offset = 0, ba_size = calcSize b c\<rparr>)"

definition BitArray_Writer :: "BitArray \<Rightarrow> bytes \<Rightarrow> BitArrayIO option" where
  "BitArray_Writer a w =
     (if length w \<noteq> ba_size a then None else Some (BitArray.extend a \<lparr>raw = w\<rparr>))"

definition BitArray_Reader :: "BitArray \<Rightarrow> bytes \<Rightarrow> BitArrayIO option" where
  "BitArray_Reader a r =
     (if length r \<noteq> ba_size a then None else Some (BitArray.extend a \<lparr>raw = r\<rparr>))"

text \<open>\<open>nextPart\<close>: byte offset and offset of the part in the byte, then one step on.\<close>

definition nextPart :: "BitArrayIO \<Rightarrow> (nat \<times> nat) \<times> BitArrayIO" where
  "nextPart a =
     (let bitsOffset = ba_offset a * ba_bits a
      in ((bitsOffset div 8, bitsOffset mod 8), a\<lparr>ba_offset := ba_offset a + 1\<rparr>))"

definition Push :: "BitArrayIO \<Rightarrow> int \<Rightarrow> BitArrayIO option" where
  "Push a v =
     (if v < 0 then None
      else if v \<ge> 2 ^ ba_bits a then None
      else let ((byteOffset, bytePartOffset), a') = nextPart a in do {
        old \<leftarrow> slice_get (raw a') byteOffset;
        r \<leftarrow> slice_set (raw a') byteOffset (old OR of_int (push_bit bytePartOffset v));
        Some (a'\<lparr>raw := r\<rparr>) })"

definition Pop :: "BitArrayIO \<Rightarrow> (nat \<times> BitArrayIO) option" where
  "Pop a =
     (let ((byteOffset, bytePartOffset), a') = nextPart a;
          mask = of_int (2 ^ ba_bits a' - 1) :: byte
      in do {
        b \<leftarrow> slice_get (raw a') byteOffset;
        Some (unat (drop_bit bytePartOffset b AND mask), a') })"

subsection \<open>\<open>buffer.go\<close>\<close>

record Buffer =
  buf :: bytes
  boffset :: nat

definition NewBuffer :: "bytes \<Rightarrow> Buffer" where
  "NewBuffer bb = \<lparr>buf = bb, boffset = 0\<rparr>"

definition WriteByte :: "Buffer \<Rightarrow> byte \<Rightarrow> Buffer option" where
  "WriteByte b v = do {
     bb \<leftarrow> slice_set (buf b) (boffset b) v;
     Some (b\<lparr>buf := bb, boffset := boffset b + 1\<rparr>) }"

text \<open>\<open>copy\<close> writes as many bytes as fit; a short copy is a buffer overflow and panics.\<close>

definition Buffer_Write :: "Buffer \<Rightarrow> bytes \<Rightarrow> Buffer option" where
  "Buffer_Write b v =
     (if boffset b > length (buf b) then None
      else let n = min (length (buf b) - boffset b) (length v)
        in if n \<noteq> length v then None
        else Some (b\<lparr>buf := take (boffset b) (buf b) @ take n v @ drop (boffset b + n) (buf b),
                     boffset := boffset b + n\<rparr>))"

definition Buffer_Read :: "Buffer \<Rightarrow> nat \<Rightarrow> (bytes \<times> Buffer) option" where
  "Buffer_Read b n = do {
     res \<leftarrow> slice_sub (buf b) (boffset b) (boffset b + n);
     Some (res, b\<lparr>boffset := boffset b + n\<rparr>) }"

definition Position :: "Buffer \<Rightarrow> nat" where
  "Position b = boffset b"

subsection \<open>Packed numbers read back\<close>

text \<open>The number stored at place \<open>k\<close> of a packed byte string.\<close>

definition part :: "nat \<Rightarrow> bytes \<Rightarrow> nat \<Rightarrow> byte" where
  "part w r k = take_bit w (drop_bit (k * w mod 8) (r ! (k * w div 8)))"

lemma mask_and: "x AND (2 ^ w - 1) = take_bit w (x :: byte)"
  by (simp add: take_bit_eq_mask mask_eq_exp_minus_1)

lemma place_bound:
  assumes "w \<in> {1, 2, 4}" "k < c"
  shows "k * w div 8 < calcSize w c"
proof -
  have "k * w + w \<le> c * w" using assms(2) by (metis Suc_leI add.commute mult_Suc mult_le_mono1)
  then show ?thesis using assms unfolding calcSize_def Let_def
    by (auto simp: mult.commute split: if_splits)
qed


lemma places_apart:
  assumes "j \<noteq> k" "j * w div 8 = k * w div 8"
  shows "j * w mod 8 + w \<le> k * w mod 8 \<or> k * w mod 8 + w \<le> j * w mod (8 :: nat)"
proof -
  have "j * w + w \<le> k * w \<or> k * w + w \<le> j * w"
    using assms(1) by (metis add.commute linorder_neqE_nat mult_Suc mult_le_mono1 Suc_leI)
  then show ?thesis
    using assms(2) div_mult_mod_eq [of "j * w" 8] div_mult_mod_eq [of "k * w" 8] by linarith
qed

lemma place_fits: "w \<in> {1, 2, 4} \<Longrightarrow> k * w mod 8 + w \<le> (8 :: nat)"
  by (elim insertE emptyE) presburger+

lemma bit_part: "bit (part w r k) n \<longleftrightarrow> n < w \<and> bit (r ! (k * w div 8)) (k * w mod 8 + n)"
  by (auto simp: part_def bit_simps)

lemma bit_of_small:
  assumes "v < 2 ^ w" "bit (of_nat v :: byte) n" shows "n < w"
proof (rule ccontr)
  assume "\<not> n < w"
  then have "v < 2 ^ n" using assms(1) by (meson less_le_trans not_less one_le_numeral power_increasing)
  then have "\<not> bit v n" by (simp add: bit_iff_odd)
  with assms(2) show False by (simp add: bit_simps)
qed

definition put_part :: "nat \<Rightarrow> bytes \<Rightarrow> nat \<Rightarrow> nat \<Rightarrow> bytes" where
  "put_part w r k v =
     r[k * w div 8 := r ! (k * w div 8) OR push_bit (k * w mod 8) (of_nat v)]"

lemma part_put_part_other:
  assumes "w \<in> {1, 2, 4}" "v < 2 ^ w" "j \<noteq> k" "k * w div 8 < length r"
  shows "part w (put_part w r k v) j = part w r j"
proof (rule bit_eqI)
  fix n
  show "bit (part w (put_part w r k v) j) n \<longleftrightarrow> bit (part w r j) n"
  proof (cases "j * w div 8 = k * w div 8 \<and> n < w")
    case True
    then have "\<not> (k * w mod 8 \<le> j * w mod 8 + n \<and> j * w mod 8 + n - k * w mod 8 < w)"
      using places_apart [OF assms(3), of w] by linarith
    then have "\<not> bit (push_bit (k * w mod 8) (of_nat v :: byte)) (j * w mod 8 + n)"
      using bit_of_small [OF assms(2)] by (auto simp: bit_simps)
    with True assms(4) show ?thesis
      by (simp only: bit_part put_part_def) (simp add: bit_or_iff)
  next
    case False
    then show ?thesis by (auto simp: bit_part put_part_def nth_list_update)
  qed
qed

lemma part_put_part_same:
  assumes "w \<in> {1, 2, 4}" "v < 2 ^ w" "part w r k = 0" "k * w div 8 < length r"
  shows "part w (put_part w r k v) k = of_nat v"
proof (rule bit_eqI)
  fix n
  show "bit (part w (put_part w r k v) k) n \<longleftrightarrow> bit (of_nat v :: byte) n"
  proof (cases "n < w")
    case True
    then have "\<not> bit (r ! (k * w div 8)) (k * w mod 8 + n)"
      using assms(3) bit_part [of w r k n] by simp
    moreover have "k * w mod 8 + n < 8" using place_fits [OF assms(1), of k] True by linarith
    ultimately show ?thesis
      using True assms(4) by (simp add: bit_part put_part_def bit_or_iff bit_push_bit_iff)
  next
    case False
    then show ?thesis using bit_of_small [OF assms(2)] by (auto simp: bit_part)
  qed
qed

lemma Push_Some:
  assumes "ba_bits a = w" "w \<in> {1, 2, 4}" "v < 2 ^ w" "ba_offset a * w div 8 < length (raw a)"
  shows "Push a (int v) = Some (a\<lparr>ba_offset := ba_offset a + 1, raw := put_part w (raw a) (ba_offset a) v\<rparr>)"
proof -
  have "of_int (push_bit n (int v)) = push_bit n (of_nat v :: byte)" for n
    by (simp add: push_bit_eq_mult)
  then show ?thesis using assms
    by (simp add: Push_def nextPart_def put_part_def Let_def)
qed

lemma Pop_Some:
  assumes "ba_bits a = w" "w \<in> {1, 2, 4}" "ba_offset a * w div 8 < length (raw a)"
  shows "Pop a = Some (unat (part w (raw a) (ba_offset a)), a\<lparr>ba_offset := ba_offset a + 1\<rparr>)"
  using assms(1,3) by (simp add: Pop_def nextPart_def part_def Let_def mask_and)

text \<open>Pushing a list of numbers, and the bytes that result.\<close>

fun put_parts :: "nat \<Rightarrow> bytes \<Rightarrow> nat \<Rightarrow> nat list \<Rightarrow> bytes" where
  "put_parts w r k [] = r"
| "put_parts w r k (v # vs) = put_parts w (put_part w r k v) (Suc k) vs"

lemma length_put_part [simp]: "length (put_part w r k v) = length r"
  by (simp add: put_part_def)

lemma length_put_parts [simp]: "length (put_parts w r k vs) = length r"
  by (induction vs arbitrary: r k) auto

lemma part_put_parts:
  assumes "w \<in> {1, 2, 4}" "\<forall>v \<in> set vs. v < 2 ^ w" "length r = calcSize w (k + length vs)"
    and "\<forall>i < length vs. part w r (k + i) = 0"
  shows "part w (put_parts w r k vs) j =
     (if k \<le> j \<and> j < k + length vs then of_nat (vs ! (j - k)) else part w r j)"
  using assms(2-)
proof (induction vs arbitrary: r k)
  case (Cons v vs)
  have room: "k * w div 8 < length r"
    using place_bound [OF assms(1), of k "k + length (v # vs)"] Cons.prems(2) by simp
  let ?r = "put_part w r k v"
  have zero: "\<forall>i < length vs. part w ?r (Suc k + i) = 0"
    using Cons.prems part_put_part_other [OF assms(1) _ _ room, of v] by auto
  have IH: "part w (put_parts w ?r (Suc k) vs) j =
      (if Suc k \<le> j \<and> j < Suc k + length vs then of_nat (vs ! (j - Suc k)) else part w ?r j)"
    using Cons.prems zero by (intro Cons.IH) auto
  have "part w r k = 0" using Cons.prems(3) by force
  with Cons.prems IH room show ?case
    using part_put_part_same [OF assms(1), of v r k] part_put_part_other [OF assms(1), of v j k r]
    by (cases "j = k") (auto simp: nth_Cons')
qed auto

lemma part_zeros: "k * w div 8 < n \<Longrightarrow> part w (replicate n 0) k = 0"
  by (simp add: part_def)

lemma part_fresh:
  assumes "w \<in> {1, 2, 4}" "\<forall>v \<in> set vs. v < 2 ^ w" "n = calcSize w (length vs)" "i < length vs"
  shows "unat (part w (put_parts w (replicate n 0) 0 vs) i) = vs ! i"
proof -
  have zero: "part w (replicate n 0) j = 0" if "j < length vs" for j
    using place_bound [OF assms(1) that] assms(3) by (simp add: part_zeros)
  have "vs ! i < 2 ^ w" using assms(2,4) by simp
  then have small: "vs ! i < 256" using assms(1) by auto
  have "part w (put_parts w (replicate n 0) 0 vs) i = of_nat (vs ! i)"
    using part_put_parts [of w vs "replicate n 0" 0 i] assms zero by simp
  with small show ?thesis by (simp add: unat_of_nat take_bit_eq_mod)
qed

lemma foldM_Push:
  assumes "ba_bits a = w" "w \<in> {1, 2, 4}" "\<forall>v \<in> set vs. v < 2 ^ w"
    and "length (raw a) = calcSize w c" "ba_offset a + length vs \<le> c"
  shows "foldM Push a (map int vs) =
     Some (a\<lparr>ba_offset := ba_offset a + length vs, raw := put_parts w (raw a) (ba_offset a) vs\<rparr>)"
  using assms(1,3-)
proof (induction vs arbitrary: a)
  case (Cons v vs)
  have "ba_offset a * w div 8 < length (raw a)"
    using place_bound [OF assms(2), of "ba_offset a" c] Cons.prems by simp
  with Cons show ?case by (simp add: Push_Some [OF _ assms(2)])
qed simp

text \<open>Popping \<open>n\<close> numbers one after another.\<close>

fun pops :: "BitArrayIO \<Rightarrow> nat \<Rightarrow> (nat list \<times> BitArrayIO) option" where
  "pops a 0 = Some ([], a)"
| "pops a (Suc n) = do { (v, a') \<leftarrow> Pop a; (vs, a'') \<leftarrow> pops a' n; Some (v # vs, a'') }"

lemma pops_Some:
  assumes "ba_bits a = w" "w \<in> {1, 2, 4}" "length (raw a) = calcSize w c" "ba_offset a + n \<le> c"
  shows "pops a n = Some (map (\<lambda>i. unat (part w (raw a) (ba_offset a + i))) [0..<n],
           a\<lparr>ba_offset := ba_offset a + n\<rparr>)"
  using assms(1,3,4)
proof (induction n arbitrary: a)
  case (Suc n)
  have "ba_offset a * w div 8 < length (raw a)"
    using place_bound [OF assms(2), of "ba_offset a" c] Suc.prems by simp
  moreover have "[0..<Suc n] = 0 # map Suc [0..<n]"
    by (simp add: map_Suc_upt upt_conv_Cons del: upt_Suc)
  ultimately show ?case
    using Suc by (simp add: Pop_Some [OF _ assms(2)] comp_def del: upt_Suc)
qed simp

text \<open>
  Numbers below \<open>2 ^ bits\<close> packed into a fresh bit array are read back unchanged and in
  order, for each of the widths 1, 2 and 4 the array accepts: neighbours in a byte never
  disturb each other, and no access is out of range.
\<close>

theorem BitArray_roundtrip:
  assumes "w \<in> {1, 2, 4}" "\<forall>v \<in> set vs. v < 2 ^ w"
  shows "\<exists>a wr wr' rd rd'. NewBitArray w (length vs) = Some a \<and>
     BitArray_Writer a (replicate (ba_size a) 0) = Some wr \<and> foldM Push wr (map int vs) = Some wr' \<and>
     BitArray_Reader a (raw wr') = Some rd \<and> pops rd (length vs) = Some (vs, rd')"
proof -
  let ?c = "calcSize w (length vs)" and ?z = "replicate (calcSize w (length vs)) (0 :: byte)"
  let ?a = "\<lparr>ba_bits = w, ba_count = length vs, ba_offset = 0, ba_size = ?c\<rparr>"
  let ?wr = "BitArray.extend ?a \<lparr>raw = ?z\<rparr>"
  let ?r = "put_parts w ?z 0 vs"
  let ?rd = "BitArray.extend ?a \<lparr>raw = ?r\<rparr>"
  have new: "NewBitArray w (length vs) = Some ?a" using assms(1) by (auto simp: NewBitArray_def)
  have push: "foldM Push ?wr (map int vs) = Some (?wr\<lparr>ba_offset := length vs, raw := ?r\<rparr>)"
    using foldM_Push [of ?wr w vs "length vs"] assms by (simp add: BitArray.defs)
  have "pops ?rd (length vs) =
      Some (map (\<lambda>i. unat (part w ?r i)) [0..<length vs], ?rd\<lparr>ba_offset := length vs\<rparr>)"
    using pops_Some [of ?rd w "length vs" "length vs"] assms(1) by (simp add: BitArray.defs)
  moreover have "map (\<lambda>i. unat (part w ?r i)) [0..<length vs] = vs"
    using part_fresh [OF assms refl] by (intro nth_equalityI) simp_all
  ultimately show ?thesis
    using new push by (auto simp: BitArray_Writer_def BitArray_Reader_def)
qed

theorem BitArray_roundtrip_witness:
  "\<exists>a wr wr' rd rd'. NewBitArray 2 3 = Some a \<and>
     BitArray_Writer a (replicate (ba_size a) 0) = Some wr \<and> foldM Push wr [3, 0, 1] = Some wr' \<and>
     BitArray_Reader a (raw wr') = Some rd \<and> pops rd 3 = Some ([3, 0, 1], rd')"
  using BitArray_roundtrip [of 2 "[3, 0, 1]"] by (simp add: numeral_3_eq_3 del: pops.simps)

end
