(* ===== verification/Event.thy ===== *)
theory Event
  imports Idx Fast
begin

text \<open>
  \<open>inter/event.go\<close> and \<open>inter/event_serializer.go\<close>: the event header, its binary form and its
  identifier. Go's struct embedding is record extension. Keccak over RLP and the hash of the
  empty transaction list come from go-ethereum, so they are the fields of a record \<open>hash_lib\<close>
  passed as an argument. A hash is a list of 32 bytes.
\<close>

subsection \<open>Data\<close>

type_synonym hash = bytes
type_synonym hash_event = bytes

record hash_lib =
  keccakOfRlp :: "bytes \<Rightarrow> hash" \<comment> \<open>legacy Keccak-256 of the RLP encoding of a byte string\<close>
  EmptyTxHash :: hash \<comment> \<open>\<open>types.DeriveSha\<close> of no transactions\<close>

definition hash_Zero :: hash where
  "hash_Zero = replicate 32 0"

datatype GasPowerLeft = GasPowerLeft (Gas0: u64) (Gas1: u64)

record EventHeaderData =
  eVersion :: u32
  eEpoch :: Epoch
  eSeq :: EventSeq
  eFrame :: Frame
  eIsRoot :: bool
  eCreator :: StakerID
  ePrevEpochHash :: hash
  eParents :: "hash_event list"
  eGasPowerLeft :: GasPowerLeft
  eGasPowerUsed :: u64
  eLamport :: Lamport
  eClaimedTime :: Timestamp
  eMedianTime :: Timestamp
  eTxHash :: hash
  eExtra :: bytes
  eHash :: "hash_event option" \<comment> \<open>the cached id, \<open>atomic.Value\<close>\<close>

record EventHeader = EventHeaderData +
  eSig :: bytes

record 'tx Event = EventHeader +
  eTransactions :: "'tx list"

definition NoTransactions :: "hash_lib \<Rightarrow> 'a EventHeaderData_scheme \<Rightarrow> bool" where
  "NoTransactions env e \<longleftrightarrow> eTxHash e = EmptyTxHash env"

definition SelfParent :: "'a EventHeaderData_scheme \<Rightarrow> hash_event option" where
  "SelfParent e = (if eSeq e \<le> 1 \<or> length (eParents e) = 0 then None else Some (eParents e ! 0))"

definition IsSelfParent :: "'a EventHeaderData_scheme \<Rightarrow> hash_event \<Rightarrow> bool" where
  "IsSelfParent e h = (case SelfParent e of None \<Rightarrow> False | Some p \<Rightarrow> p = h)"

definition GasPowerLeft_Add :: "GasPowerLeft \<Rightarrow> u64 \<Rightarrow> GasPowerLeft" where
  "GasPowerLeft_Add g diff = GasPowerLeft (Gas0 g + diff) (Gas1 g + diff)"

definition GasPowerLeft_Sub :: "GasPowerLeft \<Rightarrow> u64 \<Rightarrow> GasPowerLeft" where
  "GasPowerLeft_Sub g diff = GasPowerLeft (Gas0 g - diff) (Gas1 g - diff)"

definition GasPowerLeft_Min :: "GasPowerLeft \<Rightarrow> u64" where
  "GasPowerLeft_Min g = foldl (\<lambda>m gas. if m > gas then gas else m) (Gas0 g) [Gas0 g, Gas1 g]"

definition GasPowerLeft_Max :: "GasPowerLeft \<Rightarrow> u64" where
  "GasPowerLeft_Max g = foldl (\<lambda>m gas. if m < gas then gas else m) (Gas0 g) [Gas0 g, Gas1 g]"

text \<open>\<open>Gas[i]\<close>: an index other than 0 and 1 panics.\<close>

definition gas_at :: "GasPowerLeft \<Rightarrow> nat \<Rightarrow> u64 option" where
  "gas_at g i = slice_get [Gas0 g, Gas1 g] i"

lemma GasPowerLeft_Max_eq [simp]: "GasPowerLeft_Max g = max (Gas0 g) (Gas1 g)"
  by (auto simp: GasPowerLeft_Max_def max_def)

lemma GasPowerLeft_Min_eq [simp]: "GasPowerLeft_Min g = min (Gas0 g) (Gas1 g)"
  by (auto simp: GasPowerLeft_Min_def min_def)

subsection \<open>Binary form\<close>

datatype codec_err = ErrNonCanonicalEncoding | ErrInvalidEncoding

fun writeUintCompact :: "Buffer \<Rightarrow> u64 \<Rightarrow> nat \<Rightarrow> (nat \<times> Buffer) option" where
  "writeUintCompact b v 0 = Some (0, b)"
| "writeUintCompact b v (Suc k) = do {
     b' \<leftarrow> WriteByte b (ucast v);
     let v' = drop_bit 8 v;
     if v' = 0 then Some (1, b')
     else do { (n, b'') \<leftarrow> writeUintCompact b' v' k; Some (n + 1, b'') } }"

definition event_fields64 :: "'a EventHeaderData_scheme \<Rightarrow> u64 list" where
  "event_fields64 e = [Gas0 (eGasPowerLeft e), Gas1 (eGasPowerLeft e), eGasPowerUsed e, eClaimedTime e, eMedianTime e]"

definition event_fields32 :: "'a EventHeaderData_scheme \<Rightarrow> u32 list" where
  "event_fields32 e = [eVersion e, eEpoch e, eSeq e, eFrame e, eCreator e, eLamport e, of_nat (length (eParents e))]"

definition event_fieldsBool :: "hash_lib \<Rightarrow> 'a EventHeaderData_scheme \<Rightarrow> bool list" where
  "event_fieldsBool env e = [eIsRoot e, ePrevEpochHash e = hash_Zero, eTxHash e = EmptyTxHash env]"

text \<open>Writing one integer and pushing its size, the body of the first two loops.\<close>

definition write_sized :: "nat \<Rightarrow> Buffer \<times> BitArrayIO \<Rightarrow> u64 \<Rightarrow> (Buffer \<times> BitArrayIO) option" where
  "write_sized sz st v = (case st of (b, w) \<Rightarrow> do {
     (n, b') \<leftarrow> writeUintCompact b v sz;
     w' \<leftarrow> Push w (int n - 1);
     Some (b', w') })"

text \<open>The part after the flags: parents without their epoch, the hashes that are not default, the extra data.\<close>

definition marshalTail :: "hash_lib \<Rightarrow> 'a EventHeaderData_scheme \<Rightarrow> Buffer \<Rightarrow> Buffer option" where
  "marshalTail env e b = do {
     b \<leftarrow> foldM (\<lambda>b p. Buffer_Write b (drop 4 p)) b (eParents e);
     b \<leftarrow> (if ePrevEpochHash e \<noteq> hash_Zero then Buffer_Write b (ePrevEpochHash e) else Some b);
     b \<leftarrow> (if eTxHash e \<noteq> EmptyTxHash env then Buffer_Write b (eTxHash e) else Some b);
     Buffer_Write b (eExtra e) }"

definition MarshalBinary :: "hash_lib \<Rightarrow> 'a EventHeaderData_scheme \<Rightarrow> bytes option" where
  "MarshalBinary env e = do {
     let fields64 = event_fields64 e;
     let fields32 = event_fields32 e;
     let fieldsBool = event_fieldsBool env e;
     header3 \<leftarrow> NewBitArray 4 (length fields64);
     header2 \<leftarrow> NewBitArray 2 (length fields32 + length fieldsBool);
     let maxBytes = ba_size header3 + ba_size header2 + length fields64 * 8 + length fields32 * 4 +
           length (eParents e) * (32 - 4) + 32 + 32 + length (eExtra e);
     header3w \<leftarrow> BitArray_Writer header3 (replicate (ba_size header3) 0);
     header2w \<leftarrow> BitArray_Writer header2 (replicate (ba_size header2) 0);
     let b = NewBuffer (replicate (maxBytes - (ba_size header3 + ba_size header2)) 0);
     (b, header3w) \<leftarrow> foldM (write_sized 8) (b, header3w) fields64;
     (b, header2w) \<leftarrow> foldM (write_sized 4) (b, header2w) (map ucast fields32);
     header2w \<leftarrow> foldM (\<lambda>w f. Push w (if f then 1 else 0)) header2w fieldsBool;
     b \<leftarrow> marshalTail env e b;
     slice_sub (raw header3w @ raw header2w @ buf b) 0 (ba_size header3 + ba_size header2 + Position b) }"

text \<open>
  The reader. A panic anywhere is recovered into \<open>ErrInvalidEncoding\<close>. The sum of shifted
  bytes starts at shift \<open>8 * i\<close>; a shift of 64 or more yields 0, as in Go.
\<close>

fun sum_shifted :: "nat \<Rightarrow> bytes \<Rightarrow> u64" where
  "sum_shifted i [] = 0"
| "sum_shifted i (b # bs) = push_bit (8 * i) (ucast b) + sum_shifted (Suc i) bs"

definition readUintCompact :: "Buffer \<Rightarrow> nat \<Rightarrow> codec_err + (u64 \<times> Buffer)" where
  "readUintCompact b n =
     res_bind (or_error ErrInvalidEncoding (Buffer_Read b n)) (\<lambda>(bs, b').
       if n > 1 \<and> last bs = 0 then Inl ErrNonCanonicalEncoding else Inr (sum_shifted 0 bs, b'))"

fun readFields :: "nat \<Rightarrow> BitArrayIO \<Rightarrow> Buffer \<Rightarrow> codec_err + (u64 list \<times> BitArrayIO \<times> Buffer)" where
  "readFields 0 r b = Inr ([], r, b)"
| "readFields (Suc k) r b =
     res_bind (or_error ErrInvalidEncoding (Pop r)) (\<lambda>(n, r').
     res_bind (readUintCompact b (n + 1)) (\<lambda>(x, b').
     res_bind (readFields k r' b') (\<lambda>(xs, r'', b''). Inr (x # xs, r'', b''))))"

fun readParents :: "nat \<Rightarrow> bytes \<Rightarrow> Buffer \<Rightarrow> codec_err + (hash_event list \<times> Buffer)" where
  "readParents 0 ep b = Inr ([], b)"
| "readParents (Suc k) ep b =
     res_bind (or_error ErrInvalidEncoding (Buffer_Read b (32 - 4))) (\<lambda>(p, b').
     res_bind (readParents k ep b') (\<lambda>(ps, b''). Inr ((ep @ p) # ps, b'')))"

text \<open>An optional hash field: read only when its flag is off, refused when it is the default.\<close>

definition readHash :: "bool \<Rightarrow> hash \<Rightarrow> hash \<Rightarrow> Buffer \<Rightarrow> codec_err + (hash \<times> Buffer)" where
  "readHash isEmpty deflt forbidden b =
     (if \<not> isEmpty
      then res_bind (or_error ErrInvalidEncoding (Buffer_Read b 32)) (\<lambda>(h, b').
             if h = forbidden then Inl ErrNonCanonicalEncoding else Inr (h, b'))
      else Inr (deflt, b))"

definition UnmarshalBinary ::
    "hash_lib \<Rightarrow> 'a EventHeaderData_scheme \<Rightarrow> bytes \<Rightarrow> codec_err + 'a EventHeaderData_scheme" where
  "UnmarshalBinary env e rw =
     res_bind (or_error ErrInvalidEncoding (NewBitArray 4 5)) (\<lambda>header3.
     res_bind (or_error ErrInvalidEncoding (NewBitArray 2 (7 + 3))) (\<lambda>header2.
     res_bind (or_error ErrInvalidEncoding (do {
         s \<leftarrow> slice_sub rw 0 (ba_size header3); BitArray_Reader header3 s })) (\<lambda>header3r.
     res_bind (or_error ErrInvalidEncoding (do {
         s \<leftarrow> slice_sub rw (ba_size header3) (ba_size header3 + ba_size header2);
         BitArray_Reader header2 s })) (\<lambda>header2r.
     let rest = drop (ba_size header3 + ba_size header2) rw in
     res_bind (readFields 5 header3r (NewBuffer rest)) (\<lambda>(f64, header3r, b).
     res_bind (readFields 7 header2r b) (\<lambda>(f32, header2r, b).
     res_bind (or_error ErrInvalidEncoding (pops header2r 3)) (\<lambda>(fb, header2r).
     let f32 = map ucast f32 :: u32 list in
     res_bind (readParents (unat (f32 ! 6)) (Idx_Bytes (f32 ! 1)) b) (\<lambda>(parents, b).
     res_bind (readHash (fb ! 1 \<noteq> 0) (ePrevEpochHash e) hash_Zero b) (\<lambda>(prev, b).
     res_bind (readHash (fb ! 2 \<noteq> 0) (EmptyTxHash env) (EmptyTxHash env) b) (\<lambda>(tx, b).
     res_bind (or_error ErrInvalidEncoding (Buffer_Read b (length rest - Position b))) (\<lambda>(extra, b).
     Inr (e\<lparr>eGasPowerLeft := GasPowerLeft (f64 ! 0) (f64 ! 1), eGasPowerUsed := f64 ! 2,
            eClaimedTime := f64 ! 3, eMedianTime := f64 ! 4,
            eVersion := f32 ! 0, eEpoch := f32 ! 1, eSeq := f32 ! 2, eFrame := f32 ! 3,
            eCreator := f32 ! 4, eLamport := f32 ! 5, eIsRoot := (fb ! 0 \<noteq> 0),
            eParents := parents, ePrevEpochHash := prev, eTxHash := tx, eExtra := extra\<rparr>))))))))))))"

subsection \<open>Identifier\<close>

text \<open>\<open>calcHash\<close> panics when the header cannot be encoded.\<close>

definition calcHash :: "hash_lib \<Rightarrow> 'a EventHeaderData_scheme \<Rightarrow> hash_event option" where
  "calcHash env e = map_option (keccakOfRlp env) (MarshalBinary env e)"

definition CalcHash :: "hash_lib \<Rightarrow> 'a EventHeaderData_scheme \<Rightarrow> hash_event option" where
  "CalcHash env e = map_option
     (\<lambda>i. Idx_Bytes (eEpoch e) @ Idx_Bytes (eLamport e) @ drop 8 i) (calcHash env e)"

text \<open>\<open>Hash\<close>: the cached id, or a fresh computation.\<close>

definition Hash :: "hash_lib \<Rightarrow> 'a EventHeaderData_scheme \<Rightarrow> hash_event option" where
  "Hash env e = (case eHash e of Some h \<Rightarrow> Some h | None \<Rightarrow> CalcHash env e)"

definition RecacheHash :: "hash_lib \<Rightarrow> 'a EventHeaderData_scheme \<Rightarrow> 'a EventHeaderData_scheme option" where
  "RecacheHash env e = map_option (\<lambda>i. e\<lparr>eHash := Some i\<rparr>) (CalcHash env e)"

text \<open>\<open>hash.Event.Epoch\<close> and \<open>hash.Event.Lamport\<close>: bytes 0-3 and 4-7 of the id.\<close>

definition Event_Epoch :: "hash_event \<Rightarrow> Epoch option" where
  "Event_Epoch h = do { s \<leftarrow> slice_sub h 0 4; BytesToIdx s }"

definition Event_Lamport :: "hash_event \<Rightarrow> Lamport option" where
  "Event_Lamport h = do { s \<leftarrow> slice_sub h 4 8; BytesToIdx s }"


subsection \<open>Compact integers\<close>

fun compact :: "nat \<Rightarrow> u64 \<Rightarrow> bytes" where
  "compact 0 v = []"
| "compact (Suc k) v = ucast v # (if drop_bit 8 v = 0 then [] else compact k (drop_bit 8 v))"

lemma le_word_compact: "le_word (compact k v) = take_bit (8 * k) v"
proof (induction k arbitrary: v)
  case (Suc k)
  show ?case
  proof (cases "drop_bit 8 v = 0")
    case True
    then have "take_bit (8 * k) (drop_bit 8 v) = 0" by simp
    with True show ?thesis using split_low_byte [of v "8 * k"] by simp
  next
    case False
    with Suc show ?thesis using split_low_byte [of v "8 * k"] by simp
  qed
qed simp

lemma length_compact: "length (compact k v) \<le> k" "0 < k \<Longrightarrow> 0 < length (compact k v)"
proof -
  show "length (compact k v) \<le> k" by (induction k arbitrary: v) auto
  show "0 < k \<Longrightarrow> 0 < length (compact k v)" by (cases k) auto
qed

lemma low_byte_nonzero: "drop_bit 8 v = 0 \<Longrightarrow> v \<noteq> 0 \<Longrightarrow> (ucast v :: byte) \<noteq> 0" for v :: u64
proof
  assume d: "drop_bit 8 v = 0" "v \<noteq> 0" and u: "(ucast v :: byte) = 0"
  have "v = 0"
  proof (rule bit_eqI)
    fix n
    have "\<not> bit v n"
    proof (cases "n < 8")
      case True
      then have "bit v n = bit (ucast v :: byte) n" by (simp add: bit_simps)
      with u show ?thesis by simp
    next
      case False
      then have "bit v n = bit (drop_bit 8 v) (n - 8)" by (simp add: bit_simps)
      with d show ?thesis by simp
    qed
    then show "bit v n \<longleftrightarrow> bit 0 n" by simp
  qed
  with d show False by simp
qed

lemma last_compact: "v \<noteq> 0 \<Longrightarrow> take_bit (8 * k) v = v \<Longrightarrow> last (compact k v) \<noteq> 0"
proof (induction k arbitrary: v)
  case (Suc k)
  show ?case
  proof (cases "drop_bit 8 v = 0")
    case True
    with Suc.prems show ?thesis by (simp add: low_byte_nonzero)
  next
    case False
    have fits: "take_bit (8 * k) (drop_bit 8 v) = drop_bit 8 v"
      using Suc.prems(2) by (metis add.commute drop_bit_take_bit diff_add_inverse2 mult_Suc_right)
    then have "k \<noteq> 0" using False by (cases k) auto
    then have "compact k (drop_bit 8 v) \<noteq> []" using length_compact(2) by (metis length_0_conv neq0_conv)
    with False Suc.IH [OF False fits] show ?thesis by simp
  qed
qed simp

lemma sum_shifted_eq: "sum_shifted i bs = push_bit (8 * i) (le_word bs)"
proof (induction bs arbitrary: i)
  case (Cons b bs)
  have "(ucast b :: u64) + push_bit 8 (le_word bs) = ucast b OR push_bit 8 (le_word bs)"
    by (rule disjunctive_add) (auto simp: bit_simps dest: bit_imp_le_length)
  then have "push_bit (8 * i) (ucast b OR push_bit 8 (le_word bs) :: u64) =
      push_bit (8 * i) (ucast b) + push_bit (8 * i) (push_bit 8 (le_word bs))"
    by (metis push_bit_add)
  then show ?case using Cons [of "Suc i"] by (simp add: add.commute)
qed simp

subsection \<open>Buffers as streams\<close>

text \<open>A write buffer that holds \<open>pre\<close> out of \<open>n\<close> bytes, and what a reader has left.\<close>

definition wrote :: "Buffer \<Rightarrow> bytes \<Rightarrow> nat \<Rightarrow> bool" where
  "wrote b pre n \<longleftrightarrow> take (boffset b) (buf b) = pre \<and> boffset b = length pre \<and> length (buf b) = n"

definition left :: "Buffer \<Rightarrow> bytes" where
  "left b = drop (boffset b) (buf b)"

lemma Buffer_Write_wrote:
  assumes "wrote b pre n" "length pre + length v \<le> n"
  shows "\<exists>b'. Buffer_Write b v = Some b' \<and> wrote b' (pre @ v) n"
  using assms by (auto simp: wrote_def Buffer_Write_def Let_def min_def)

lemma WriteByte_wrote:
  assumes "wrote b pre n" "length pre < n"
  shows "\<exists>b'. WriteByte b v = Some b' \<and> wrote b' (pre @ [v]) n"
  using assms by (auto simp: wrote_def WriteByte_def take_Suc_conv_app_nth list_update_append)

lemma writeUintCompact_wrote:
  assumes "wrote b pre n" "length pre + length (compact k v) \<le> n"
  shows "\<exists>b'. writeUintCompact b v k = Some (length (compact k v), b') \<and> wrote b' (pre @ compact k v) n"
  using assms
proof (induction k arbitrary: b pre v)
  case (Suc k)
  obtain b1 where b1: "WriteByte b (ucast v) = Some b1" "wrote b1 (pre @ [ucast v]) n"
    using WriteByte_wrote [OF Suc.prems(1), of "ucast v"] Suc.prems(2) by auto
  show ?case
  proof (cases "drop_bit 8 v = 0")
    case True
    with b1 show ?thesis by (simp add: Let_def)
  next
    case False
    with Suc.prems Suc.IH [OF b1(2), of "drop_bit 8 v"] b1 show ?thesis by (auto simp: Let_def)
  qed
qed (auto simp: wrote_def)

lemma Buffer_Read_left:
  assumes "left b = v @ rest" "boffset b \<le> length (buf b)"
  shows "\<exists>b'. Buffer_Read b (length v) = Some (v, b') \<and> left b' = rest \<and>
     boffset b' = boffset b + length v \<and> buf b' = buf b \<and> boffset b' \<le> length (buf b')"
proof -
  have len: "length (buf b) = boffset b + length v + length rest"
    using assms by (metis add.assoc left_def length_append length_drop le_add_diff_inverse)
  have "drop (boffset b + length v) (buf b) = rest"
    using assms(1) by (metis append_eq_conv_conj drop_drop add.commute left_def)
  with assms len show ?thesis by (auto simp: Buffer_Read_def slice_sub_def left_def)
qed


subsection \<open>What the writer produces\<close>

lemma write_sized_fold:
  assumes "ba_bits w = k" "k \<in> {1, 2, 4}" "length (raw w) = calcSize k c" "ba_offset w + length vs \<le> c"
    and "sz \<le> 2 ^ k" "0 < sz"
    and "wrote b pre n" "length pre + length (concat (map (compact sz) vs)) \<le> n"
  shows "\<exists>b'. foldM (write_sized sz) (b, w) vs = Some (b',
      w\<lparr>ba_offset := ba_offset w + length vs,
        raw := put_parts k (raw w) (ba_offset w) (map (\<lambda>v. length (compact sz v) - 1) vs)\<rparr>) \<and>
    wrote b' (pre @ concat (map (compact sz) vs)) n"
  using assms(1,3,4,7,8)
proof (induction vs arbitrary: b w pre)
  case (Cons v vs)
  let ?l = "length (compact sz v)"
  obtain b1 where b1: "writeUintCompact b v sz = Some (?l, b1)" "wrote b1 (pre @ compact sz v) n"
    using writeUintCompact_wrote [OF Cons.prems(4), of sz v] Cons.prems(5) by auto
  have l: "0 < ?l" "?l \<le> sz" using length_compact assms(6) by auto
  then have "?l - 1 < 2 ^ k" using assms(5) by linarith
  moreover have "ba_offset w * k div 8 < length (raw w)"
    using place_bound [OF assms(2), of "ba_offset w" c] Cons.prems by simp
  ultimately have "Push w (int (?l - 1)) = Some (w\<lparr>ba_offset := ba_offset w + 1,
      raw := put_part k (raw w) (ba_offset w) (?l - 1)\<rparr>)"
    using Cons.prems(1) assms(2) by (intro Push_Some) auto
  moreover have "int (?l - 1) = int ?l - 1" using l by linarith
  ultimately have ws: "write_sized sz (b, w) v = Some (b1, w\<lparr>ba_offset := ba_offset w + 1,
      raw := put_part k (raw w) (ba_offset w) (?l - 1)\<rparr>)"
    using b1 by (simp add: write_sized_def)
  let ?w = "w\<lparr>ba_offset := ba_offset w + 1, raw := put_part k (raw w) (ba_offset w) (?l - 1)\<rparr>"
  have "\<exists>b'. foldM (write_sized sz) (b1, ?w) vs = Some (b', ?w\<lparr>ba_offset := ba_offset ?w + length vs,
        raw := put_parts k (raw ?w) (ba_offset ?w) (map (\<lambda>v. length (compact sz v) - 1) vs)\<rparr>) \<and>
    wrote b' ((pre @ compact sz v) @ concat (map (compact sz) vs)) n"
    using Cons.prems b1 by (intro Cons.IH) auto
  then show ?case by (auto simp: ws)
qed (auto simp: wrote_def)

lemma write_parents_fold:
  assumes "wrote b pre n" "length pre + length (concat (map (drop 4) ps)) \<le> n"
  shows "\<exists>b'. foldM (\<lambda>b p. Buffer_Write b (drop 4 p)) b ps = Some b' \<and>
     wrote b' (pre @ concat (map (drop 4) ps)) n"
  using assms
proof (induction ps arbitrary: b pre)
  case (Cons p ps)
  obtain b1 where "Buffer_Write b (drop 4 p) = Some b1" "wrote b1 (pre @ drop 4 p) n"
    using Buffer_Write_wrote [OF Cons.prems(1), of "drop 4 p"] Cons.prems(2) by auto
  with Cons.IH [of b1 "pre @ drop 4 p"] Cons.prems(2) show ?case by auto
qed (auto simp: wrote_def)

lemma write_optional:
  assumes "wrote b pre n" "length pre + length v \<le> n"
  shows "\<exists>b'. (if c then Buffer_Write b v else Some b) = Some b' \<and> wrote b' (pre @ (if c then v else [])) n"
  using assms Buffer_Write_wrote by (cases c) auto

text \<open>A header as Go's types have it: 32-byte hashes, and parents of the header's epoch.\<close>

definition wf_header :: "'a EventHeaderData_scheme \<Rightarrow> bool" where
  "wf_header e \<longleftrightarrow> (\<forall>p \<in> set (eParents e). length p = 32 \<and> take 4 p = Idx_Bytes (eEpoch e)) \<and>
     length (ePrevEpochHash e) = 32 \<and> length (eTxHash e) = 32 \<and> length (eParents e) < 2 ^ 32"

definition header3_bytes :: "'a EventHeaderData_scheme \<Rightarrow> bytes" where
  "header3_bytes e = put_parts 4 (replicate 3 0) 0 (map (\<lambda>v. length (compact 8 v) - 1) (event_fields64 e))"

definition header2_bytes :: "hash_lib \<Rightarrow> 'a EventHeaderData_scheme \<Rightarrow> bytes" where
  "header2_bytes env e = put_parts 2 (replicate 3 0) 0
     (map (\<lambda>v. length (compact 4 (ucast v)) - 1) (event_fields32 e) @ map of_bool (event_fieldsBool env e))"

definition body_bytes :: "hash_lib \<Rightarrow> 'a EventHeaderData_scheme \<Rightarrow> bytes" where
  "body_bytes env e = concat (map (compact 8) (event_fields64 e)) @
     concat (map (compact 4) (map ucast (event_fields32 e))) @ concat (map (drop 4) (eParents e)) @
     (if ePrevEpochHash e \<noteq> hash_Zero then ePrevEpochHash e else []) @
     (if eTxHash e \<noteq> EmptyTxHash env then eTxHash e else []) @ eExtra e"

lemma length_concat_compact: "length (concat (map (compact k) vs)) \<le> length vs * k"
proof (induction vs)
  case (Cons v vs)
  then show ?case using length_compact(1) [of k v] by simp
qed simp

lemma put_parts_append: "put_parts w r k (xs @ ys) = put_parts w (put_parts w r k xs) (k + length xs) ys"
  by (induction xs arbitrary: r k) auto

lemma length_concat_drop4:
  "\<forall>p \<in> set ps. length p = 32 \<Longrightarrow> length (concat (map (drop 4) ps)) = 28 * length ps"
  by (induction ps) auto

lemma event_field_lengths [simp]:
  "length (event_fields64 e) = 5" "length (event_fields32 e) = 7" "length (event_fieldsBool env e) = 3"
  by (simp_all add: event_fields64_def event_fields32_def event_fieldsBool_def)

abbreviation io_array :: "nat \<Rightarrow> nat \<Rightarrow> nat \<Rightarrow> bytes \<Rightarrow> BitArrayIO" where
  "io_array w c k r \<equiv> \<lparr>ba_bits = w, ba_count = c, ba_offset = k, ba_size = 3, raw = r\<rparr>"

lemma header_arrays:
  "NewBitArray 4 5 = Some \<lparr>ba_bits = 4, ba_count = 5, ba_offset = 0, ba_size = 3\<rparr>"
  "NewBitArray 2 10 = Some \<lparr>ba_bits = 2, ba_count = 10, ba_offset = 0, ba_size = 3\<rparr>"
  "length r = 3 \<Longrightarrow> BitArray_Writer \<lparr>ba_bits = w, ba_count = c, ba_offset = 0, ba_size = 3\<rparr> r = Some (io_array w c 0 r)"
  "length r = 3 \<Longrightarrow> BitArray_Reader \<lparr>ba_bits = w, ba_count = c, ba_offset = 0, ba_size = 3\<rparr> r = Some (io_array w c 0 r)"
  by (simp_all add: NewBitArray_def calcSize_def BitArray_Writer_def BitArray_Reader_def BitArray.defs)

lemma write_fields64:
  assumes "wrote b [] n" "40 \<le> n"
  shows "\<exists>b'. foldM (write_sized 8) (b, io_array 4 5 0 (replicate 3 0)) (event_fields64 e) =
       Some (b', io_array 4 5 5 (header3_bytes e)) \<and> wrote b' (concat (map (compact 8) (event_fields64 e))) n"
  using write_sized_fold [of "io_array 4 5 0 (replicate 3 0)" 4 5 "event_fields64 e" 8 b "[]" n]
    length_concat_compact [of 8 "event_fields64 e"] assms
  by (auto simp: calcSize_def header3_bytes_def)

lemma write_fields32:
  assumes "wrote b pre n" "length pre + 28 \<le> n"
  shows "\<exists>b'. foldM (write_sized 4) (b, io_array 2 10 0 (replicate 3 0)) (map ucast (event_fields32 e)) =
       Some (b', io_array 2 10 7
         (put_parts 2 (replicate 3 0) 0 (map (\<lambda>v. length (compact 4 (ucast v)) - 1) (event_fields32 e)))) \<and>
       wrote b' (pre @ concat (map (compact 4) (map ucast (event_fields32 e)))) n"
  using write_sized_fold [of "io_array 2 10 0 (replicate 3 0)" 2 10 "map ucast (event_fields32 e)" 4 b pre n]
    length_concat_compact [of 4 "map ucast (event_fields32 e)"] assms
  by (simp add: calcSize_def comp_def)

lemma push_flags:
  "foldM (\<lambda>w f. Push w (if f then 1 else 0)) (io_array 2 10 7
      (put_parts 2 (replicate 3 0) 0 (map (\<lambda>v. length (compact 4 (ucast v)) - 1) (event_fields32 e))))
      (event_fieldsBool env e) = Some (io_array 2 10 10 (header2_bytes env e))"
proof -
  have ints: "foldM (\<lambda>w f. Push w (if f then 1 else 0)) w fs = foldM Push w (map int (map of_bool fs))" for w fs
    by (induction fs arbitrary: w) auto
  show ?thesis
    unfolding ints by (subst foldM_Push [where w = 2 and c = 10])
      (auto simp: calcSize_def header2_bytes_def put_parts_append)
qed

text \<open>The length of everything written fits the buffer the code allocates.\<close>

lemma body_length:
  assumes "wf_header e"
  shows "length (concat (map (compact 8) (event_fields64 e))) \<le> 40"
    "length (concat (map (compact 4) (map ucast (event_fields32 e)))) \<le> 28"
    "length (concat (map (drop 4) (eParents e))) = length (eParents e) * 28"
    "length (ePrevEpochHash e) = 32" "length (eTxHash e) = 32"
  using assms length_concat_compact [of 8 "event_fields64 e"]
    length_concat_compact [of 4 "map ucast (event_fields32 e)"] length_concat_drop4 [of "eParents e"]
  by (auto simp: wf_header_def)

lemma write_tail:
  assumes "wf_header e" "wrote b pre n"
    and "length pre + length (eParents e) * 28 + 32 + 32 + length (eExtra e) \<le> n"
  shows "\<exists>b'. marshalTail env e b = Some b' \<and>
     wrote b' (pre @ concat (map (drop 4) (eParents e)) @
       (if ePrevEpochHash e \<noteq> hash_Zero then ePrevEpochHash e else []) @
       (if eTxHash e \<noteq> EmptyTxHash env then eTxHash e else []) @ eExtra e) n"
proof -
  note len = body_length [OF assms(1)]
  let ?p = "pre @ concat (map (drop 4) (eParents e))"
  let ?q = "?p @ (if ePrevEpochHash e \<noteq> hash_Zero then ePrevEpochHash e else [])"
  let ?r = "?q @ (if eTxHash e \<noteq> EmptyTxHash env then eTxHash e else [])"
  obtain b1 where b1: "foldM (\<lambda>b p. Buffer_Write b (drop 4 p)) b (eParents e) = Some b1" "wrote b1 ?p n"
    using write_parents_fold [OF assms(2), of "eParents e"] len assms(3) by auto
  have "length ?p + length (ePrevEpochHash e) \<le> n" using len assms(3) by simp
  from write_optional [OF b1(2) this, of "ePrevEpochHash e \<noteq> hash_Zero"] obtain b2
    where b2: "(if ePrevEpochHash e \<noteq> hash_Zero then Buffer_Write b1 (ePrevEpochHash e) else Some b1) = Some b2"
      "wrote b2 ?q n" by blast
  have "length ?q + length (eTxHash e) \<le> n" using len assms(3) by simp
  from write_optional [OF b2(2) this, of "eTxHash e \<noteq> EmptyTxHash env"] obtain b3
    where b3: "(if eTxHash e \<noteq> EmptyTxHash env then Buffer_Write b2 (eTxHash e) else Some b2) = Some b3"
      "wrote b3 ?r n" by blast
  have "length ?r + length (eExtra e) \<le> n" using len assms(3) by simp
  from Buffer_Write_wrote [OF b3(2) this] obtain b4
    where "Buffer_Write b3 (eExtra e) = Some b4" "wrote b4 (?r @ eExtra e) n" by blast
  with b1 b2 b3 show ?thesis unfolding marshalTail_def by (simp split del: if_split)
qed

lemma MarshalBinary_eq:
  assumes "wf_header e"
  shows "MarshalBinary env e = Some (header3_bytes e @ header2_bytes env e @ body_bytes env e)"
proof -
  let ?N = "5 * 8 + 7 * 4 + length (eParents e) * 28 + 32 + 32 + length (eExtra e)"
  let ?c = "concat (map (compact 8) (event_fields64 e))"
  let ?d = "?c @ concat (map (compact 4) (map ucast (event_fields32 e)))"
  note len = body_length [OF assms]
  have "wrote (NewBuffer (replicate ?N 0)) [] ?N" by (simp add: wrote_def NewBuffer_def)
  from write_fields64 [OF this, of e] obtain b1 where b1: "wrote b1 ?c ?N"
    "foldM (write_sized 8) (NewBuffer (replicate ?N 0), io_array 4 5 0 (replicate 3 0)) (event_fields64 e) =
       Some (b1, io_array 4 5 5 (header3_bytes e))" by auto
  from write_fields32 [OF b1(1), of e] obtain b2 where b2: "wrote b2 ?d ?N"
    "foldM (write_sized 4) (b1, io_array 2 10 0 (replicate 3 0)) (map ucast (event_fields32 e)) =
       Some (b2, io_array 2 10 7
         (put_parts 2 (replicate 3 0) 0 (map (\<lambda>v. length (compact 4 (ucast v)) - 1) (event_fields32 e))))"
    using len by auto
  from write_tail [OF assms b2(1), of env] len obtain b3 where b3: "wrote b3 (body_bytes env e) ?N" "marshalTail env e b2 = Some b3"
    by (auto simp: body_bytes_def)
  have "length (body_bytes env e) \<le> length (buf b3)"
    using b3(1) unfolding wrote_def by (metis length_take min.cobounded1)
  then have "slice_sub (header3_bytes e @ header2_bytes env e @ buf b3) 0 (3 + 3 + Position b3) =
      Some (header3_bytes e @ header2_bytes env e @ body_bytes env e)"
    using b3(1) by (auto simp: slice_sub_def wrote_def Position_def header3_bytes_def header2_bytes_def)
  moreover have "NewBitArray 2 (7 + 3) = Some \<lparr>ba_bits = 2, ba_count = 10, ba_offset = 0, ba_size = 3\<rparr>"
    using header_arrays(2) by simp
  moreover have "3 + 3 + 5 * 8 + 7 * 4 + length (eParents e) * (32 - 4) + 32 + 32 + length (eExtra e) - (3 + 3) = ?N"
    by simp
  ultimately show ?thesis
    unfolding MarshalBinary_def Let_def event_field_lengths
    by (simp only: header_arrays b1(2) b2(2) b3(2) push_flags bind.simps prod.case BitArray.select_convs
        BitArrayIO.select_convs length_replicate)
qed

subsection \<open>What the reader makes of it\<close>

text \<open>A reader over \<open>full\<close> with \<open>rest\<close> still to come.\<close>

definition reading :: "Buffer \<Rightarrow> bytes \<Rightarrow> bytes \<Rightarrow> bool" where
  "reading b full rest \<longleftrightarrow> buf b = full \<and> boffset b \<le> length full \<and> left b = rest"

lemma Buffer_Read_reading:
  assumes "reading b full (v @ rest)" "length v = n"
  shows "\<exists>b'. Buffer_Read b n = Some (v, b') \<and> reading b' full rest"
  using Buffer_Read_left [of b v rest] assms by (auto simp: reading_def)

lemma readUintCompact_reading:
  assumes "reading b full (compact k v @ rest)" "take_bit (8 * k) v = v"
  shows "\<exists>b'. readUintCompact b (length (compact k v)) = Inr (v, b') \<and> reading b' full rest"
proof -
  have "last (compact k v) \<noteq> 0" if "1 < length (compact k v)"
    using that last_compact [OF _ assms(2)] by (cases k; cases "v = 0") auto
  moreover have "sum_shifted 0 (compact k v) = v"
    by (simp add: sum_shifted_eq le_word_compact assms(2))
  ultimately show ?thesis
    using Buffer_Read_reading [OF assms(1) refl] by (auto simp: readUintCompact_def)
qed

lemma readFields_reading:
  assumes "w \<in> {1, 2, 4}" "0 < k" "\<forall>v \<in> set vs. take_bit (8 * k) v = v"
    and "ba_bits r = w" "length (raw r) = calcSize w c" "ba_offset r + length vs \<le> c"
    and "\<forall>i < length vs. unat (part w (raw r) (ba_offset r + i)) = length (compact k (vs ! i)) - 1"
    and "reading b full (concat (map (compact k) vs) @ rest)"
  shows "\<exists>b'. readFields (length vs) r b = Inr (vs, r\<lparr>ba_offset := ba_offset r + length vs\<rparr>, b') \<and> reading b' full rest"
  using assms(3-)
proof (induction vs arbitrary: r b)
  case (Cons v vs)
  have pop: "Pop r = Some (length (compact k v) - 1, r\<lparr>ba_offset := ba_offset r + 1\<rparr>)"
    using Cons.prems place_bound [OF assms(1), of "ba_offset r" c] by (subst Pop_Some [OF _ assms(1)]) force+
  obtain b1 where b1: "readUintCompact b (length (compact k v)) = Inr (v, b1)"
      "reading b1 full (concat (map (compact k) vs) @ rest)"
    using readUintCompact_reading [of b full k v "concat (map (compact k) vs) @ rest"] Cons.prems by auto
  have len: "Suc (length (compact k v) - Suc 0) = length (compact k v)" using length_compact(2) [OF assms(2), of v] by simp
  let ?r = "r\<lparr>ba_offset := ba_offset r + 1\<rparr>"
  have "\<forall>i < length vs. unat (part w (raw ?r) (ba_offset ?r + i)) = length (compact k (vs ! i)) - 1"
    using Cons.prems(5) by force
  from Cons.IH [OF _ _ _ _ this b1(2)] Cons.prems(1-4) pop b1(1) show ?case by (auto simp: len)
qed simp

lemma readParents_reading:
  assumes "\<forall>p \<in> set ps. length p = 32 \<and> take 4 p = ep" "reading b full (concat (map (drop 4) ps) @ rest)"
  shows "\<exists>b'. readParents (length ps) ep b = Inr (ps, b') \<and> reading b' full rest"
  using assms
proof (induction ps arbitrary: b)
  case (Cons p ps)
  obtain b1 where "Buffer_Read b 28 = Some (drop 4 p, b1)" "reading b1 full (concat (map (drop 4) ps) @ rest)"
    using Buffer_Read_reading [of b full "drop 4 p" _ 28] Cons.prems by auto
  moreover have "ep @ drop 4 p = p" using Cons.prems(1) by (metis append_take_drop_id list.set_intros(1))
  ultimately show ?case using Cons.IH Cons.prems(1) by fastforce
qed simp

lemma readHash_reading:
  assumes "reading b full ((if h \<noteq> forbidden then h else []) @ rest)" "length h = 32" "h = forbidden \<longrightarrow> deflt = h"
  shows "\<exists>b'. readHash (h = forbidden) deflt forbidden b = Inr (h, b') \<and> reading b' full rest"
  using assms Buffer_Read_reading [of b full h rest 32] by (auto simp: readHash_def)

lemma header3_part:
  assumes "i < 5" shows "unat (part 4 (header3_bytes e) i) = length (compact 8 (event_fields64 e ! i)) - 1"
proof -
  have "length (compact 8 v) - Suc 0 < 16" for v using length_compact(1) [of 8 v] by linarith
  with assms show ?thesis
    unfolding header3_bytes_def by (subst part_fresh) (auto simp: calcSize_def)
qed

lemma header2_part:
  "i < 7 \<Longrightarrow> unat (part 2 (header2_bytes env e) i) = length (compact 4 (ucast (event_fields32 e ! i))) - 1"
  "i < 3 \<Longrightarrow> unat (part 2 (header2_bytes env e) (7 + i)) = of_bool (event_fieldsBool env e ! i)"
proof -
  have small: "length (compact 4 v) - Suc 0 < 4" for v using length_compact(1) [of 4 v] by linarith
  show "i < 7 \<Longrightarrow> unat (part 2 (header2_bytes env e) i) = length (compact 4 (ucast (event_fields32 e ! i))) - 1"
    unfolding header2_bytes_def by (subst part_fresh) (auto simp: calcSize_def small nth_append)
  show "i < 3 \<Longrightarrow> unat (part 2 (header2_bytes env e) (7 + i)) = of_bool (event_fieldsBool env e ! i)"
    unfolding header2_bytes_def by (subst part_fresh) (auto simp: calcSize_def small nth_append)
qed

lemma take_bit_32_ucast: "take_bit 32 (ucast (v :: u32) :: u64) = ucast v"
  by (rule bit_eqI) (auto simp: bit_simps dest: bit_imp_le_length)

lemma ucast_ucast_u32: "(ucast (ucast (v :: u32) :: u64) :: u32) = v"
  by (rule bit_eqI) (auto simp: bit_simps dest: bit_imp_le_length)

lemma read_fields64:
  assumes "reading b full (concat (map (compact 8) (event_fields64 e)) @ rest)"
  shows "\<exists>b'. readFields 5 (io_array 4 5 0 (header3_bytes e)) b = Inr (event_fields64 e, io_array 4 5 5 (header3_bytes e), b') \<and> reading b' full rest"
proof -
  have "length (header3_bytes e) = calcSize 4 5" by (simp add: header3_bytes_def calcSize_def)
  then show ?thesis
    using readFields_reading [of 4 8 "event_fields64 e" "io_array 4 5 0 (header3_bytes e)" 5 b full rest] assms
    by (simp add: header3_part take_bit_word_eq_self)
qed

text \<open>The reader looks at ten places of the second header; what else its bytes hold is ignored.\<close>

definition reads_header2 :: "hash_lib \<Rightarrow> 'a EventHeaderData_scheme \<Rightarrow> bytes \<Rightarrow> bool" where
  "reads_header2 env e r \<longleftrightarrow> length r = 3 \<and> (\<forall>i < 10. part 2 r i = part 2 (header2_bytes env e) i)"

lemma read_fields32:
  assumes "reading b full (concat (map (compact 4) (map ucast (event_fields32 e))) @ rest)" "reads_header2 env e r"
  shows "\<exists>b'. readFields 7 (io_array 2 10 0 r) b = Inr (map ucast (event_fields32 e), io_array 2 10 7 r, b') \<and> reading b' full rest"
proof -
  have "length r = calcSize 2 10" using assms(2) by (simp add: reads_header2_def calcSize_def)
  then show ?thesis
    using readFields_reading [of 2 4 "map ucast (event_fields32 e)" "io_array 2 10 0 r" 10 b full rest] assms
    by (simp add: reads_header2_def header2_part take_bit_32_ucast)
qed

lemma read_flags:
  assumes "reads_header2 env e r"
  shows "pops (io_array 2 10 7 r) 3 = Some (map of_bool (event_fieldsBool env e), io_array 2 10 10 r)"
proof -
  have "length r = calcSize 2 10" using assms by (simp add: reads_header2_def calcSize_def)
  moreover have "map (\<lambda>i. unat (part 2 r (7 + i))) [0..<3] = map of_bool (event_fieldsBool env e)"
    using assms by (intro nth_equalityI) (simp_all add: reads_header2_def header2_part)
  ultimately show ?thesis using pops_Some [of "io_array 2 10 7 r" 2 10 3] by simp
qed

lemma UnmarshalBinary_written:
  fixes e e0 :: EventHeaderData
  assumes "wf_header e" "ePrevEpochHash e0 = hash_Zero" "reads_header2 env e r"
  shows "UnmarshalBinary env e0 (header3_bytes e @ r @ body_bytes env e) = Inr (e\<lparr>eHash := eHash e0\<rparr>)"
proof -
  let ?full = "body_bytes env e"
  let ?x = "eExtra e"
  let ?t = "(if eTxHash e \<noteq> EmptyTxHash env then eTxHash e else []) @ ?x"
  let ?h = "(if ePrevEpochHash e \<noteq> hash_Zero then ePrevEpochHash e else []) @ ?t"
  let ?p = "concat (map (drop 4) (eParents e)) @ ?h"
  let ?f = "concat (map (compact 4) (map ucast (event_fields32 e))) @ ?p"
  have "reading (NewBuffer ?full) ?full (concat (map (compact 8) (event_fields64 e)) @ ?f)"
    by (simp add: reading_def NewBuffer_def left_def body_bytes_def)
  from read_fields64 [OF this] obtain b1 where b1:
    "readFields 5 (io_array 4 5 0 (header3_bytes e)) (NewBuffer ?full) = Inr (event_fields64 e, io_array 4 5 5 (header3_bytes e), b1)"
    "reading b1 ?full ?f" by blast
  from read_fields32 [OF this(2) assms(3)] obtain b2 where b2:
    "readFields 7 (io_array 2 10 0 r) b1 = Inr (map ucast (event_fields32 e), io_array 2 10 7 r, b2)"
    "reading b2 ?full ?p" by blast
  have "\<forall>p \<in> set (eParents e). length p = 32 \<and> take 4 p = Idx_Bytes (eEpoch e)" using assms(1) by (simp add: wf_header_def)
  from readParents_reading [OF this b2(2)] obtain b3 where b3:
    "readParents (length (eParents e)) (Idx_Bytes (eEpoch e)) b2 = Inr (eParents e, b3)" "reading b3 ?full ?h" by blast
  from readHash_reading [OF this(2)] obtain b4 where b4:
    "readHash (ePrevEpochHash e = hash_Zero) (ePrevEpochHash e0) hash_Zero b3 = Inr (ePrevEpochHash e, b4)" "reading b4 ?full ?t"
    using assms by (metis wf_header_def)
  from readHash_reading [OF this(2)] obtain b5 where b5:
    "readHash (eTxHash e = EmptyTxHash env) (EmptyTxHash env) (EmptyTxHash env) b4 = Inr (eTxHash e, b5)" "reading b5 ?full ?x"
    using assms by (metis wf_header_def)
  have "length ?full - Position b5 = length ?x"
    using b5(2) unfolding reading_def left_def Position_def by (metis length_drop)
  then obtain b6 where b6: "Buffer_Read b5 (length ?full - Position b5) = Some (?x, b6)"
    using Buffer_Read_reading [of b5 ?full ?x "[]"] b5(2) by auto
  have len: "length (header3_bytes e) = 3" "length r = 3"
    using assms(3) by (simp_all add: header3_bytes_def reads_header2_def)
  have np: "unat (of_nat (length (eParents e)) :: u32) = length (eParents e)"
    using assms(1) by (simp add: wf_header_def unat_of_nat take_bit_eq_mod)
  show ?thesis
    unfolding UnmarshalBinary_def
    using b1(1) b2(1) b3(1) b4(1) b5(1) b6
    by (simp add: header_arrays len slice_sub_def Let_def read_flags [OF assms(3)] ucast_ucast_u32 np
        event_fields32_def event_fields64_def event_fieldsBool_def del: readFields.simps readParents.simps)
qed

lemma bit_top: "bit (push_bit 7 1 :: byte) n \<longleftrightarrow> n = 7"
  by (simp only: bit_push_bit_iff bit_1_iff) auto

lemma reads_header2_self: "reads_header2 env e (header2_bytes env e)"
  by (simp add: reads_header2_def header2_bytes_def)

subsection \<open>Properties\<close>

definition sample_lib :: hash_lib where
  "sample_lib = \<lparr>keccakOfRlp = (\<lambda>bs. take 32 (bs @ replicate 32 7)), EmptyTxHash = replicate 32 9\<rparr>"

definition sample_header :: EventHeaderData where
  "sample_header = \<lparr>eVersion = 0, eEpoch = 1, eSeq = 2, eFrame = 3, eIsRoot = True, eCreator = 4,
     ePrevEpochHash = replicate 32 0, eParents = [[0, 0, 0, 1] @ replicate 28 5], eGasPowerLeft = GasPowerLeft 0 70000,
     eGasPowerUsed = 6, eLamport = 300, eClaimedTime = 8, eMedianTime = 0, eTxHash = replicate 32 2,
     eExtra = [1, 2], eHash = None\<rparr>"

definition empty_header :: EventHeaderData where
  "empty_header = \<lparr>eVersion = 0, eEpoch = 0, eSeq = 0, eFrame = 0, eIsRoot = False, eCreator = 0,
     ePrevEpochHash = hash_Zero, eParents = [], eGasPowerLeft = GasPowerLeft 0 0,
     eGasPowerUsed = 0, eLamport = 0, eClaimedTime = 0, eMedianTime = 0, eTxHash = hash_Zero,
     eExtra = [], eHash = None\<rparr>"

lemma wf_sample_header: "wf_header sample_header"
  by (simp add: wf_header_def sample_header_def Idx_Bytes_def) code_simp

text \<open>
  C21. Writing a well-formed event header never overruns the buffer the code allocates for it,
  and reading the result into a fresh header gives back every field.
\<close>

theorem MarshalBinary_roundtrip:
  fixes e e0 :: EventHeaderData
  assumes "wf_header e" "ePrevEpochHash e0 = hash_Zero"
  shows "\<exists>bs. MarshalBinary env e = Some bs \<and> UnmarshalBinary env e0 bs = Inr (e\<lparr>eHash := eHash e0\<rparr>)"
  using MarshalBinary_eq UnmarshalBinary_written assms reads_header2_self by blast

theorem MarshalBinary_roundtrip_witness:
  "\<exists>bs. MarshalBinary sample_lib sample_header = Some bs \<and>
     UnmarshalBinary sample_lib empty_header bs = Inr sample_header"
  using MarshalBinary_roundtrip [OF wf_sample_header, of empty_header sample_lib]
  by (simp add: empty_header_def sample_header_def)

text \<open>
  The id of a well-formed event is always computed, has 32 bytes, and carries the event's
  epoch in its first four bytes and its Lamport time in the next four. Within an epoch the ids
  of events compare as byte strings the way their Lamport times compare.
\<close>

theorem CalcHash_carries_time:
  fixes e f :: EventHeaderData
  assumes "wf_header e" "wf_header f" "\<forall>bs. length (keccakOfRlp env bs) = 32"
  shows "\<exists>h i. CalcHash env e = Some h \<and> CalcHash env f = Some i \<and> length h = 32 \<and>
     Event_Epoch h = Some (eEpoch e) \<and> Event_Lamport h = Some (eLamport e) \<and>
     (eEpoch e = eEpoch f \<and> eLamport e < eLamport f \<longrightarrow> h < i)"
proof -
  obtain x y where xy: "calcHash env e = Some x" "calcHash env f = Some y" "length x = 32" "length y = 32"
    using MarshalBinary_eq assms by (metis calcHash_def option.simps(9))
  let ?id = "\<lambda>e x. Idx_Bytes (eEpoch e) @ Idx_Bytes (eLamport e) @ drop 8 x"
  have "?id e x < ?id f y" if "eEpoch e = eEpoch f" "eLamport e < eLamport f"
    using that by (simp add: bytes_append_less)
  with xy show ?thesis
    by (auto simp: CalcHash_def Event_Epoch_def Event_Lamport_def slice_sub_def)
qed

theorem CalcHash_carries_time_witness:
  "\<exists>h i. CalcHash sample_lib sample_header = Some h \<and>
     CalcHash sample_lib (sample_header\<lparr>eLamport := 301\<rparr>) = Some i \<and> length h = 32 \<and>
     Event_Epoch h = Some 1 \<and> Event_Lamport h = Some 300 \<and> h < i"
proof -
  have "wf_header (sample_header\<lparr>eLamport := 301\<rparr>)" using wf_sample_header by (simp add: wf_header_def)
  moreover have "\<forall>bs. length (keccakOfRlp sample_lib bs) = 32" by (auto simp: sample_lib_def min_def)
  ultimately show ?thesis
    using CalcHash_carries_time [OF wf_sample_header, of "sample_header\<lparr>eLamport := 301\<rparr>" sample_lib]
    by (simp add: sample_header_def)
qed

text \<open>
  The binary form is not canonical: besides the bytes the writer produces the reader
  accepts another byte string for the same header, with no \<open>ErrNonCanonicalEncoding\<close>: the
  last four bits of the second header are never looked at.
\<close>

theorem UnmarshalBinary_not_canonical:
  fixes e e0 :: EventHeaderData
  assumes "wf_header e" "ePrevEpochHash e0 = hash_Zero"
  shows "\<exists>bs bs'. MarshalBinary env e = Some bs \<and> bs' \<noteq> bs \<and>
     UnmarshalBinary env e0 bs' = Inr (e\<lparr>eHash := eHash e0\<rparr>)"
proof -
  let ?r = "header2_bytes env e"
  have len: "length ?r = 3" by (simp add: header2_bytes_def)
  define x where "x = ?r ! 2 XOR push_bit 7 1"
  have "bit x 7 \<noteq> bit (?r ! 2) 7" unfolding x_def bit_xor_iff bit_top by blast
  then have "x \<noteq> ?r ! 2" by blast
  then have diff: "?r[2 := x] \<noteq> ?r" using len by (simp add: list_update_same_conv)
  have same: "part 2 (?r[2 := x]) i = part 2 ?r i" if "i < 10" for i
  proof (rule bit_eqI)
    fix n
    have "i * 2 mod 8 + n < 7" if "i * 2 div 8 = 2" "n < 2" using that \<open>i < 10\<close> by presburger
    then show "bit (part 2 (?r[2 := x]) i) n = bit (part 2 ?r i) n"
      using len by (cases "i * 2 div 8 = 2") (auto simp: bit_part x_def bit_xor_iff bit_top simp del: push_bit_of_1)
  qed
  then have "reads_header2 env e (?r[2 := x])" using len by (simp add: reads_header2_def)
  then have "UnmarshalBinary env e0 (header3_bytes e @ ?r[2 := x] @ body_bytes env e) = Inr (e\<lparr>eHash := eHash e0\<rparr>)"
    by (rule UnmarshalBinary_written [OF assms])
  moreover have "header3_bytes e @ ?r[2 := x] @ body_bytes env e \<noteq> header3_bytes e @ ?r @ body_bytes env e"
    using diff by simp
  ultimately show ?thesis using MarshalBinary_eq [OF assms(1), of env] by blast
qed

theorem UnmarshalBinary_not_canonical_witness:
  "\<exists>bs bs'. MarshalBinary sample_lib sample_header = Some bs \<and> bs' \<noteq> bs \<and>
     UnmarshalBinary sample_lib empty_header bs' = Inr sample_header"
  using UnmarshalBinary_not_canonical [OF wf_sample_header, of empty_header sample_lib]
  by (simp add: empty_header_def sample_header_def)

end
