(* ===== verification/Vector_Index.thy ===== *)
theory Vector_Index
  imports Pos Vector_Clock Event
begin

text \<open>
  Package \<open>vector\<close>: the index of vector clocks over the event graph (\<open>index.go\<close>,
  \<open>branches_info.go\<close>, \<open>traversal.go\<close>, \<open>store_vectors.go\<close>, \<open>store_branches_info.go\<close>,
  \<open>forkless_cause.go\<close>, \<open>median_time.go\<close>).

  The state is the record \<open>Index\<close>. Its tables are read through the flushable store: \<open>vi_table\<close>
  is what a read sees (flushed pairs and pending ones), \<open>vi_flushed\<close> what the database below
  holds. The read caches of the three vector tables are written through together with their
  table and purged whenever pending pairs are dropped, so a read through them returns what the
  table holds and they are not part of the state. The cache of \<open>ForklessCause\<close> results is: it
  survives \<open>DropNotFlushed\<close>, and that it stays right is a property to prove. Branch infos are
  stored as values; their RLP form is go-ethereum's.
\<close>

subsection \<open>State\<close>

record branchesInfo =
  BranchIDLastSeq :: "EventSeq list"
  BranchIDCreatorIdxs :: "Validator list"
  BranchIDByCreators :: "Validator list list"

record Tables =
  tHighestBeforeSeq :: "hash_event \<rightharpoonup> HighestBeforeSeq"
  tHighestBeforeTime :: "hash_event \<rightharpoonup> HighestBeforeTime"
  tLowestAfterSeq :: "hash_event \<rightharpoonup> LowestAfterSeq"
  tEventBranch :: "hash_event \<rightharpoonup> bytes"
  tBranchesInfo :: "branchesInfo option"

record Index =
  vi_validators :: Validators
  vi_bi :: "branchesInfo option"
  vi_table :: Tables
  vi_flushed :: Tables
  vi_ForklessCause :: "hash_event \<times> hash_event \<rightharpoonup> bool"

type_synonym getEvent = "hash_event \<Rightarrow> EventHeaderData option"

definition empty_tables :: Tables where
  "empty_tables = \<lparr>tHighestBeforeSeq = Map.empty, tHighestBeforeTime = Map.empty,
     tLowestAfterSeq = Map.empty, tEventBranch = Map.empty, tBranchesInfo = None\<rparr>"

subsection \<open>Stored vectors\<close>

definition GetLowestAfterSeq :: "Index \<Rightarrow> hash_event \<Rightarrow> LowestAfterSeq option" where
  "GetLowestAfterSeq vi h = tLowestAfterSeq (vi_table vi) h"

definition GetHighestBeforeSeq :: "Index \<Rightarrow> hash_event \<Rightarrow> HighestBeforeSeq option" where
  "GetHighestBeforeSeq vi h = tHighestBeforeSeq (vi_table vi) h"

definition GetHighestBeforeTime :: "Index \<Rightarrow> hash_event \<Rightarrow> HighestBeforeTime option" where
  "GetHighestBeforeTime vi h = tHighestBeforeTime (vi_table vi) h"

definition SetLowestAfter :: "Index \<Rightarrow> hash_event \<Rightarrow> LowestAfterSeq \<Rightarrow> Index" where
  "SetLowestAfter vi h v =
     vi\<lparr>vi_table := (vi_table vi)\<lparr>tLowestAfterSeq := (tLowestAfterSeq (vi_table vi))(h \<mapsto> v)\<rparr>\<rparr>"

definition SetHighestBefore ::
    "Index \<Rightarrow> hash_event \<Rightarrow> HighestBeforeSeq \<Rightarrow> HighestBeforeTime \<Rightarrow> Index" where
  "SetHighestBefore vi h s t =
     vi\<lparr>vi_table := (vi_table vi)\<lparr>tHighestBeforeSeq := (tHighestBeforeSeq (vi_table vi))(h \<mapsto> s),
                              tHighestBeforeTime := (tHighestBeforeTime (vi_table vi))(h \<mapsto> t)\<rparr>\<rparr>"

definition setEventBranchID :: "Index \<Rightarrow> hash_event \<Rightarrow> Validator \<Rightarrow> Index" where
  "setEventBranchID vi h b =
     vi\<lparr>vi_table := (vi_table vi)\<lparr>tEventBranch := (tEventBranch (vi_table vi))(h \<mapsto> Validator_Bytes b)\<rparr>\<rparr>"

definition getEventBranchID :: "Index \<Rightarrow> hash_event \<Rightarrow> Validator option" where
  "getEventBranchID vi h = do { b \<leftarrow> tEventBranch (vi_table vi) h; BytesToValidator b }"

definition setBranchesInfo :: "Index \<Rightarrow> branchesInfo \<Rightarrow> Index" where
  "setBranchesInfo vi bi = vi\<lparr>vi_table := (vi_table vi)\<lparr>tBranchesInfo := Some bi\<rparr>\<rparr>"

definition getBranchesInfo :: "Index \<Rightarrow> branchesInfo option" where
  "getBranchesInfo vi = tBranchesInfo (vi_table vi)"

subsection \<open>Branches\<close>

definition newInitialBranchesInfo :: "Validators \<Rightarrow> branchesInfo" where
  "newInitialBranchesInfo vv =
     (let branchIDCreators = SortedIDs vv;
          branchIDCreatorIdxs = [0..<length branchIDCreators]
      in \<lparr>BranchIDLastSeq = replicate (length branchIDCreatorIdxs) 0,
          BranchIDCreatorIdxs = branchIDCreatorIdxs,
          BranchIDByCreators = map (\<lambda>i. [i]) [0..<Validators_Len vv]\<rparr>)"

text \<open>\<open>initBranchesInfo\<close>, which makes \<open>vi.bi\<close> non-nil; the functions below take its value as an argument.\<close>

definition the_bi :: "Index \<Rightarrow> branchesInfo" where
  "the_bi vi = (case vi_bi vi of Some bi \<Rightarrow> bi | None \<Rightarrow>
     (case getBranchesInfo vi of Some bi \<Rightarrow> bi | None \<Rightarrow> newInitialBranchesInfo (vi_validators vi)))"

definition initBranchesInfo :: "Index \<Rightarrow> Index" where
  "initBranchesInfo vi = vi\<lparr>vi_bi := Some (the_bi vi)\<rparr>"

definition atLeastOneFork :: "Validators \<Rightarrow> branchesInfo \<Rightarrow> bool" where
  "atLeastOneFork vv bi \<longleftrightarrow> length (BranchIDCreatorIdxs bi) > Validators_Len vv"

text \<open>The branch created for a fork that is new to the node.\<close>

definition newBranch :: "branchesInfo \<Rightarrow> EventHeaderData \<Rightarrow> Validator \<Rightarrow> (branchesInfo \<times> Validator) option" where
  "newBranch bi e meIdx = do {
     let lastSeq = BranchIDLastSeq bi @ [eSeq e];
     let newBranchID = length lastSeq - 1;
     mine \<leftarrow> slice_get (BranchIDByCreators bi) meIdx;
     byCreators \<leftarrow> slice_set (BranchIDByCreators bi) meIdx (mine @ [newBranchID]);
     Some (\<lparr>BranchIDLastSeq = lastSeq, BranchIDCreatorIdxs = BranchIDCreatorIdxs bi @ [meIdx],
            BranchIDByCreators = byCreators\<rparr>, newBranchID) }"

definition fillGlobalBranchID ::
    "Index \<Rightarrow> branchesInfo \<Rightarrow> EventHeaderData \<Rightarrow> Validator \<Rightarrow> (branchesInfo \<times> Validator) option" where
  "fillGlobalBranchID vi bi e meIdx =
     (if length (BranchIDCreatorIdxs bi) \<noteq> length (BranchIDLastSeq bi) then None
      else if length (BranchIDCreatorIdxs bi) < Validators_Len (vi_validators vi) then None
      else case SelfParent e of
        None \<Rightarrow> do {
          s \<leftarrow> slice_get (BranchIDLastSeq bi) meIdx;
          if s = 0 then Some (bi\<lparr>BranchIDLastSeq := (BranchIDLastSeq bi)[meIdx := eSeq e]\<rparr>, meIdx)
          else newBranch bi e meIdx }
      | Some p \<Rightarrow> do {
          b \<leftarrow> getEventBranchID vi p;
          s \<leftarrow> slice_get (BranchIDLastSeq bi) b;
          if s + 1 = eSeq e then Some (bi\<lparr>BranchIDLastSeq := (BranchIDLastSeq bi)[b := eSeq e]\<rparr>, b)
          else newBranch bi e meIdx })"

subsection \<open>Vectors of a new event\<close>

text \<open>
  \<open>setForkDetected\<close> receives the vector's slice by value and writes it in place; every branch
  has a cell in it by then (\<open>setForkDetected_in_place\<close> below), so the caller sees all writes.
\<close>

definition setForkDetected ::
    "Validators \<Rightarrow> branchesInfo \<Rightarrow> HighestBeforeSeq \<Rightarrow> Validator \<Rightarrow> HighestBeforeSeq option" where
  "setForkDetected vv bi b branchID = do {
     creatorIdx \<leftarrow> slice_get (BranchIDCreatorIdxs bi) branchID;
     branches \<leftarrow> slice_get (BranchIDByCreators bi) creatorIdx;
     let b' = foldl (\<lambda>b branchID. HighestBeforeSeq_Set b branchID forkDetectedSeq) b branches;
     if \<not> atLeastOneFork vv bi then None else Some b' }"

text \<open>The body of the loop over the branches of one parent.\<close>

definition mergeBranch ::
    "Validators \<Rightarrow> branchesInfo \<Rightarrow> HighestBeforeSeq \<Rightarrow> HighestBeforeTime \<Rightarrow>
     HighestBeforeSeq \<times> HighestBeforeTime \<Rightarrow> Validator \<Rightarrow> (HighestBeforeSeq \<times> HighestBeforeTime) option" where
  "mergeBranch vv bi pSeq pTime my branchID = (case my of (mySeqs, myTimes) \<Rightarrow>
     let hisSeq = HighestBeforeSeq_Get pSeq branchID in
     if Seq hisSeq = 0 \<and> \<not> IsForkDetected hisSeq then Some (mySeqs, myTimes)
     else let mySeq = HighestBeforeSeq_Get mySeqs branchID in
     if IsForkDetected mySeq then Some (mySeqs, myTimes)
     else if IsForkDetected hisSeq then do { b \<leftarrow> setForkDetected vv bi mySeqs branchID; Some (b, myTimes) }
     else let (mySeq, mySeqs) =
            (if Seq mySeq = 0 \<or> MinSeq mySeq > MinSeq hisSeq
             then let mySeq = mySeq\<lparr>MinSeq := MinSeq hisSeq\<rparr> in (mySeq, HighestBeforeSeq_Set mySeqs branchID mySeq)
             else (mySeq, mySeqs))
          in if Seq mySeq < Seq hisSeq
             then Some (HighestBeforeSeq_Set mySeqs branchID (mySeq\<lparr>Seq := Seq hisSeq\<rparr>),
                        HighestBeforeTime_Set myTimes branchID (HighestBeforeTime_Get pTime branchID))
             else Some (mySeqs, myTimes))"

definition mergeParent ::
    "Validators \<Rightarrow> branchesInfo \<Rightarrow> HighestBeforeSeq \<times> HighestBeforeTime \<Rightarrow>
     HighestBeforeSeq \<times> HighestBeforeTime \<Rightarrow> (HighestBeforeSeq \<times> HighestBeforeTime) option" where
  "mergeParent vv bi my pVec =
     foldM (mergeBranch vv bi (fst pVec) (snd pVec)) my [0..<length (BranchIDCreatorIdxs bi)]"

text \<open>Two branches of a creator whose observed ranges of \<open>Seq\<close> meet.\<close>

definition branchesFork :: "HighestBeforeSeq \<Rightarrow> Validator \<Rightarrow> Validator \<Rightarrow> bool" where
  "branchesFork v branchID1 branchID2 =
     (if branchID1 = branchID2 then False
      else let a = HighestBeforeSeq_Get v branchID1; b = HighestBeforeSeq_Get v branchID2 in
        if Seq a = 0 \<or> Seq b = 0 then False else MinSeq a \<le> Seq b \<and> MinSeq b \<le> Seq a)"

definition detectFork ::
    "Validators \<Rightarrow> branchesInfo \<Rightarrow> HighestBeforeSeq \<Rightarrow> Validator \<Rightarrow> HighestBeforeSeq option" where
  "detectFork vv bi v n =
     (if IsForkDetected (HighestBeforeSeq_Get v n) then Some v
      else do {
        branches \<leftarrow> slice_get (BranchIDByCreators bi) n;
        if list_ex (\<lambda>branchID1. list_ex (branchesFork v branchID1) branches) branches
        then setForkDetected vv bi v n else Some v })"

definition detectForks :: "Validators \<Rightarrow> branchesInfo \<Rightarrow> HighestBeforeSeq \<Rightarrow> HighestBeforeSeq option" where
  "detectForks vv bi v =
     (if atLeastOneFork vv bi then foldM (detectFork vv bi) v [0..<Validators_Len vv] else Some v)"

subsection \<open>The walk below a new event\<close>

text \<open>
  \<open>dfsSubgraph\<close> with the filter of \<open>fillEventVectors\<close>. The stack pops from its end. An event the
  node does not know ends the walk with an error, which the caller turns into a stopped process.
  The loop is a partial function: that it returns is proved, not assumed.
\<close>

definition onWalk ::
    "Validator \<Rightarrow> EventSeq \<Rightarrow> (hash_event \<rightharpoonup> LowestAfterSeq) \<Rightarrow> hash_event \<Rightarrow> bool \<times> (hash_event \<rightharpoonup> LowestAfterSeq)" where
  "onWalk meBranchID eseq la walk =
     (let wLowestAfterSeq = (case la walk of Some v \<Rightarrow> v | None \<Rightarrow> []);
          godeeper = (LowestAfterSeq_Get wLowestAfterSeq meBranchID = 0)
      in if \<not> godeeper then (False, la)
         else (True, la(walk \<mapsto> LowestAfterSeq_Set wLowestAfterSeq meBranchID eseq)))"

partial_function (option) dfsLoop ::
    "getEvent \<Rightarrow> Validator \<Rightarrow> EventSeq \<Rightarrow> (hash_event \<rightharpoonup> LowestAfterSeq) \<Rightarrow> hash_event list \<Rightarrow>
     (hash_event \<rightharpoonup> LowestAfterSeq) option" where
  [code]: "dfsLoop getEvent meBranchID eseq la stack =
     (if stack = [] then Some la
      else case onWalk meBranchID eseq la (last stack) of
        (godeeper, la') \<Rightarrow>
          if \<not> godeeper then dfsLoop getEvent meBranchID eseq la' (butlast stack)
          else (case getEvent (last stack) of None \<Rightarrow> None
            | Some ev \<Rightarrow> dfsLoop getEvent meBranchID eseq la' (butlast stack @ eParents ev)))"

definition dfsSubgraph ::
    "getEvent \<Rightarrow> Validator \<Rightarrow> EventHeaderData \<Rightarrow> (hash_event \<rightharpoonup> LowestAfterSeq) \<Rightarrow> (hash_event \<rightharpoonup> LowestAfterSeq) option" where
  "dfsSubgraph getEvent meBranchID e la = dfsLoop getEvent meBranchID (eSeq e) la (eParents e)"

subsection \<open>Adding an event\<close>

definition loadParent :: "Index \<Rightarrow> hash_event \<Rightarrow> (HighestBeforeSeq \<times> HighestBeforeTime) option" where
  "loadParent vi p = do {
     _ \<leftarrow> getEventBranchID vi p;
     s \<leftarrow> GetHighestBeforeSeq vi p;
     Some (s, case GetHighestBeforeTime vi p of Some t \<Rightarrow> t | None \<Rightarrow> []) }"

definition fillEventVectors ::
    "getEvent \<Rightarrow> Index \<Rightarrow> branchesInfo \<Rightarrow> hash_event \<Rightarrow> EventHeaderData \<Rightarrow> Index option" where
  "fillEventVectors getEvent vi bi h e = do {
     let vv = vi_validators vi;
     let meIdx = GetIdx vv (eCreator e);
     let size = length (BranchIDCreatorIdxs bi);
     (bi, meBranchID) \<leftarrow> fillGlobalBranchID vi bi e meIdx;
     parentsVecs \<leftarrow> mapM (loadParent vi) (eParents e);
     let myAfter = LowestAfterSeq_Set (NewLowestAfterSeq size) meBranchID (eSeq e);
     let mySeqs = HighestBeforeSeq_Set (NewHighestBeforeSeq size) meBranchID \<lparr>Seq = eSeq e, MinSeq = eSeq e\<rparr>;
     let myTimes = HighestBeforeTime_Set (NewHighestBeforeTime size) meBranchID (eClaimedTime e);
     (mySeqs, myTimes) \<leftarrow> foldM (mergeParent vv bi) (mySeqs, myTimes) parentsVecs;
     mySeqs \<leftarrow> detectForks vv bi mySeqs;
     la \<leftarrow> dfsSubgraph getEvent meBranchID e (tLowestAfterSeq (vi_table vi));
     let vi = vi\<lparr>vi_bi := Some bi, vi_table := (vi_table vi)\<lparr>tLowestAfterSeq := la\<rparr>\<rparr>;
     let vi = SetHighestBefore vi h mySeqs myTimes;
     let vi = SetLowestAfter vi h myAfter;
     Some (setEventBranchID vi h meBranchID) }"

definition Add :: "hash_lib \<Rightarrow> getEvent \<Rightarrow> Index \<Rightarrow> EventHeaderData \<Rightarrow> Index option" where
  "Add env getEvent vi e = do {
     h \<leftarrow> Hash env e;
     if GetHighestBeforeSeq vi h \<noteq> None then Some vi
     else fillEventVectors getEvent vi (the_bi vi) h e }"

subsection \<open>Flushing and resetting\<close>

definition Flush :: "Index \<Rightarrow> Index" where
  "Flush vi =
     (let vi = (case vi_bi vi of Some bi \<Rightarrow> setBranchesInfo vi bi | None \<Rightarrow> vi)
      in vi\<lparr>vi_flushed := vi_table vi\<rparr>)"

text \<open>With no pending pairs the view of the store is the flushed one already.\<close>

definition DropNotFlushed :: "Index \<Rightarrow> Index" where
  "DropNotFlushed vi = vi\<lparr>vi_bi := None, vi_table := vi_flushed vi\<rparr>"

definition Reset :: "Index \<Rightarrow> Validators \<Rightarrow> Tables \<Rightarrow> Index" where
  "Reset vi vv db = \<lparr>vi_validators = Validators_Copy vv, vi_bi = None, vi_table = db, vi_flushed = db,
     vi_ForklessCause = Map.empty\<rparr>"

definition NewIndex :: "Validators \<Rightarrow> Tables \<Rightarrow> Index" where
  "NewIndex vv db = \<lparr>vi_validators = Validators_Copy vv, vi_bi = None, vi_table = db, vi_flushed = db,
     vi_ForklessCause = Map.empty\<rparr>"

subsection \<open>Forkless cause\<close>

definition countBranch ::
    "HighestBeforeSeq \<Rightarrow> LowestAfterSeq \<Rightarrow> StakeCounter \<Rightarrow> Validator \<times> Validator \<Rightarrow> StakeCounter option" where
  "countBranch a b yes x = (case x of (branchID, creatorIdx) \<Rightarrow>
     let bLowestAfter = LowestAfterSeq_Get b branchID;
         aHighestBefore = HighestBeforeSeq_Get a branchID
     in if bLowestAfter \<le> Seq aHighestBefore \<and> bLowestAfter \<noteq> 0 \<and> \<not> IsForkDetected aHighestBefore
        then map_option snd (CountByIdx yes creatorIdx) else Some yes)"

definition forklessCause :: "Index \<Rightarrow> hash_event \<Rightarrow> hash_event \<Rightarrow> bool option" where
  "forklessCause vi aID bID = do {
     let bi = the_bi vi;
     a \<leftarrow> GetHighestBeforeSeq vi aID;
     cheater \<leftarrow> (if atLeastOneFork (vi_validators vi) bi
       then do { bBranchID \<leftarrow> getEventBranchID vi bID; Some (IsForkDetected (HighestBeforeSeq_Get a bBranchID)) }
       else Some False);
     if cheater then Some False
     else do {
       b \<leftarrow> GetLowestAfterSeq vi bID;
       yes \<leftarrow> foldM (countBranch a b) (NewCounter (vi_validators vi)) (enumerate 0 (BranchIDCreatorIdxs bi));
       Some (HasQuorum yes) } }"

text \<open>
  \<open>ForklessCause\<close> with its LRU cache. What the cache evicts after an insertion is the third-party
  package's choice: \<open>evict\<close> stands for it.
\<close>

definition ForklessCause ::
    "((hash_event \<times> hash_event \<rightharpoonup> bool) \<Rightarrow> hash_event \<times> hash_event \<rightharpoonup> bool) \<Rightarrow>
     Index \<Rightarrow> hash_event \<Rightarrow> hash_event \<Rightarrow> (bool \<times> Index) option" where
  "ForklessCause evict vi aID bID = (case vi_ForklessCause vi (aID, bID) of
     Some res \<Rightarrow> Some (res, vi)
   | None \<Rightarrow> do {
       res \<leftarrow> forklessCause vi aID bID;
       Some (res, (initBranchesInfo vi)\<lparr>vi_ForklessCause := evict ((vi_ForklessCause vi)((aID, bID) \<mapsto> res))\<rparr>) })"

definition NoCheaters :: "getEvent \<Rightarrow> Index \<Rightarrow> hash_event option \<Rightarrow> hash_event list \<Rightarrow> hash_event list option" where
  "NoCheaters getEvent vi selfParent options = (case selfParent of
     None \<Rightarrow> Some options
   | Some p \<Rightarrow>
       let highest = (case GetHighestBeforeSeq vi p of Some v \<Rightarrow> v | None \<Rightarrow> []) in
       foldM (\<lambda>filtered h. case getEvent h of
           None \<Rightarrow> None
         | Some header \<Rightarrow>
             if \<not> IsForkDetected (HighestBeforeSeq_Get highest (GetIdx (vi_validators vi) (eCreator header)))
             then Some (filtered @ [h]) else Some filtered) [] options)"

subsection \<open>Merged clocks and the median time\<close>

fun mergeBranches ::
    "HighestBeforeSeq \<Rightarrow> HighestBeforeTime \<Rightarrow> BranchSeq \<Rightarrow> Timestamp \<Rightarrow> Validator list \<Rightarrow> BranchSeq \<times> Timestamp" where
  "mergeBranches s t merged highest [] = (merged, highest)"
| "mergeBranches s t merged highest (branchID # rest) =
     (let branch = HighestBeforeSeq_Get s branchID in
      if IsForkDetected branch then (branch, highest)
      else let (merged, highest) =
             (if Seq merged < Seq branch
              then (merged\<lparr>Seq := Seq branch\<rparr>, HighestBeforeTime_Get t branchID) else (merged, highest));
             merged = (if MinSeq branch \<noteq> 0 \<and> (MinSeq merged = 0 \<or> MinSeq merged > MinSeq branch)
              then merged\<lparr>MinSeq := MinSeq branch\<rparr> else merged)
           in mergeBranches s t merged highest rest)"

definition mergeCreators ::
    "HighestBeforeSeq \<Rightarrow> HighestBeforeTime \<Rightarrow> nat \<Rightarrow> Validator list list \<Rightarrow> HighestBeforeSeq \<times> HighestBeforeTime" where
  "mergeCreators s t n byCreators =
     foldl (\<lambda>(ms, mt) (creatorIdx, branches).
         (case mergeBranches s t \<lparr>Seq = 0, MinSeq = 0\<rparr> 0 branches of (mergedBranchSeq, highestBranchTime) \<Rightarrow>
           (HighestBeforeSeq_Set ms creatorIdx mergedBranchSeq, HighestBeforeTime_Set mt creatorIdx highestBranchTime)))
       (NewHighestBeforeSeq n, NewHighestBeforeTime n) (enumerate 0 byCreators)"

text \<open>A nil vector reads as an empty one when it is merged; without forks it is returned as it is.\<close>

definition getHighestBeforeMerged ::
    "Index \<Rightarrow> hash_event \<Rightarrow> HighestBeforeSeq option \<times> HighestBeforeTime option" where
  "getHighestBeforeMerged vi h =
     (let bi = the_bi vi in
      if \<not> atLeastOneFork (vi_validators vi) bi then (GetHighestBeforeSeq vi h, GetHighestBeforeTime vi h)
      else case mergeCreators (case GetHighestBeforeSeq vi h of Some v \<Rightarrow> v | None \<Rightarrow> [])
             (case GetHighestBeforeTime vi h of Some v \<Rightarrow> v | None \<Rightarrow> [])
             (Validators_Len (vi_validators vi)) (BranchIDByCreators bi)
        of (s, t) \<Rightarrow> (Some s, Some t))"

datatype medianTimeIndex = medianTimeIndex (mt_stake: Stake) (mt_claimedTime: Timestamp)

definition medianEntry ::
    "Validators \<Rightarrow> HighestBeforeSeq \<Rightarrow> HighestBeforeTime \<Rightarrow> Timestamp \<Rightarrow> Validator \<Rightarrow> medianTimeIndex option" where
  "medianEntry vv s t genesisTime creatorIdx = do {
     stake \<leftarrow> GetStakeByIdx vv creatorIdx;
     let seq = HighestBeforeSeq_Get s creatorIdx;
     let time = HighestBeforeTime_Get t creatorIdx;
     Some (if IsForkDetected seq then medianTimeIndex 0 time
           else if Seq seq = 0 then medianTimeIndex stake genesisTime
           else medianTimeIndex stake time) }"

text \<open>The last loop: accumulate stake until half of it is reached.\<close>

fun medianLoop :: "Stake \<Rightarrow> Stake \<Rightarrow> medianTimeIndex list \<Rightarrow> Stake \<times> Timestamp" where
  "medianLoop half cur [] = (cur, 0)"
| "medianLoop half cur (x # xs) =
     (if cur + mt_stake x \<ge> half then (cur + mt_stake x, mt_claimedTime x)
      else medianLoop half (cur + mt_stake x) xs)"

text \<open>
  \<open>sort.Slice\<close> is not stable; entries with equal times may come in any order. The order used
  here is the one of a stable sort, and only the time of an entry is returned.
\<close>

definition MedianTime :: "Index \<Rightarrow> hash_event \<Rightarrow> Timestamp \<Rightarrow> Timestamp option" where
  "MedianTime vi h genesisTime = (case getHighestBeforeMerged vi h of
     (Some s, Some t) \<Rightarrow> do {
       highests \<leftarrow> mapM (medianEntry (vi_validators vi) s t genesisTime) [0..<length (IDs (vi_validators vi))];
       let honestTotalStake = foldl (\<lambda>acc x. acc + mt_stake x) 0 highests;
       let halfStake = honestTotalStake div 2;
       (case medianLoop halfStake 0 (sort_key mt_claimedTime highests) of (currStake, median) \<Rightarrow>
         if currStake < halfStake \<or> currStake > honestTotalStake then None else Some median) }
   | _ \<Rightarrow> Some 0)"

end
