(* ===== verification/Vector_Dag.thy ===== *)
theory Vector_Dag
  imports Vector_Index
begin

text \<open>
  What the vector index means, in terms of the event graph. A \<open>dag\<close> maps the ids of the events
  added so far to their headers. \<open>past D x\<close> is what event \<open>x\<close> observes, itself included. The
  invariant \<open>index_inv\<close> ties every stored vector to this graph, \<open>Add\<close> keeps it, and
  \<open>forklessCause\<close> then computes the relation the consensus papers define on the graph.
\<close>

subsection \<open>The event graph\<close>

type_synonym dag = "hash_event \<rightharpoonup> EventHeaderData"

definition edge :: "dag \<Rightarrow> hash_event rel" where
  "edge D = {(x, y). \<exists>e. D x = Some e \<and> y \<in> set (eParents e)}"

definition past :: "dag \<Rightarrow> hash_event \<Rightarrow> hash_event set" where
  "past D x = {y. (x, y) \<in> (edge D)\<^sup>*}"

definition seq_of :: "dag \<Rightarrow> hash_event \<Rightarrow> EventSeq" where
  "seq_of D x = eSeq (the (D x))"

definition creator_of :: "Validators \<Rightarrow> dag \<Rightarrow> hash_event \<Rightarrow> Validator" where
  "creator_of vv D x = GetIdx vv (eCreator (the (D x)))"

text \<open>Two events of a set by one creator and with one sequence number: a fork.\<close>

definition forked :: "Validators \<Rightarrow> dag \<Rightarrow> hash_event set \<Rightarrow> Validator \<Rightarrow> bool" where
  "forked vv D A c \<longleftrightarrow> (\<exists>y \<in> A. \<exists>z \<in> A. y \<noteq> z \<and> creator_of vv D y = c \<and> creator_of vv D z = c \<and> seq_of D y = seq_of D z)"

text \<open>What the checks before the index ensure of an event whose parents are in \<open>D\<close>.\<close>

definition valid_event :: "Validators \<Rightarrow> dag \<Rightarrow> EventHeaderData \<Rightarrow> bool" where
  "valid_event vv D e \<longleftrightarrow> eSeq e \<noteq> 0 \<and> Exists vv (eCreator e) \<and> set (eParents e) \<subseteq> dom D \<and>
     (case SelfParent e of None \<Rightarrow> eSeq e = 1
      | Some p \<Rightarrow> eCreator (the (D p)) = eCreator e \<and> eSeq e = eSeq (the (D p)) + 1)"

definition valid_dag :: "Validators \<Rightarrow> dag \<Rightarrow> bool" where
  "valid_dag vv D \<longleftrightarrow> finite (dom D) \<and> (\<forall>x e. D x = Some e \<longrightarrow> valid_event vv D e)"

lemma past_self [simp, intro]: "x \<in> past D x"
  by (simp add: past_def)

lemma past_trans: "y \<in> past D x \<Longrightarrow> z \<in> past D y \<Longrightarrow> z \<in> past D x"
  by (auto simp: past_def)

lemma past_unfold: "D x = Some e \<Longrightarrow> past D x = insert x (\<Union>p \<in> set (eParents e). past D p)"
  by (auto simp: past_def edge_def elim: converse_rtranclE intro: converse_rtrancl_into_rtrancl)

lemma past_parent: "D x = Some e \<Longrightarrow> p \<in> set (eParents e) \<Longrightarrow> p \<in> past D x"
  by (auto simp: past_unfold)

lemma valid_dagD:
  assumes "valid_dag vv D" "D x = Some e"
  shows "eSeq e \<noteq> 0" "Exists vv (eCreator e)" "set (eParents e) \<subseteq> dom D" "valid_event vv D e"
  using assms by (auto simp: valid_dag_def valid_event_def)

lemma finite_dag [simp]: "valid_dag vv D \<Longrightarrow> finite (dom D)"
  by (simp add: valid_dag_def)

lemma past_closed: "valid_dag vv D \<Longrightarrow> x \<in> dom D \<Longrightarrow> past D x \<subseteq> dom D"
proof
  fix y assume v: "valid_dag vv D" "x \<in> dom D" and "y \<in> past D x"
  then have "(x, y) \<in> (edge D)\<^sup>*" by (simp add: past_def)
  then show "y \<in> dom D"
  proof induction
    case (step y z)
    then obtain e where "D y = Some e" "z \<in> set (eParents e)" by (auto simp: edge_def)
    with v(1) show ?case by (meson subsetD valid_dagD(3))
  qed (rule v(2))
qed

lemma finite_past: "valid_dag vv D \<Longrightarrow> x \<in> dom D \<Longrightarrow> finite (past D x)"
  using past_closed finite_subset finite_dag by metis

lemma seq_nonzero: "valid_dag vv D \<Longrightarrow> x \<in> dom D \<Longrightarrow> seq_of D x \<noteq> 0"
  by (auto simp: seq_of_def dest: valid_dagD(1))

lemma forked_mono: "forked vv D A c \<Longrightarrow> A \<subseteq> B \<Longrightarrow> forked vv D B c"
  unfolding forked_def by blast

lemma creator_bound: "valid_group vv \<Longrightarrow> valid_dag vv D \<Longrightarrow> x \<in> dom D \<Longrightarrow> creator_of vv D x < Validators_Len vv"
  using GetIdx_Exists by (fastforce simp: creator_of_def dest: valid_dagD(2))

subsection \<open>Growing the graph\<close>

lemma past_grow:
  assumes "valid_dag vv D" "h \<notin> dom D" "x \<in> dom D"
  shows "past (D(h \<mapsto> e)) x = past D x"
proof
  have old: "y \<in> past D x \<and> y \<in> dom D" if "(x, y) \<in> (edge (D(h \<mapsto> e)))\<^sup>*" for y
    using that
  proof induction
    case (step y z)
    have "y \<noteq> h" using step.IH assms(2) by auto
    with step.hyps(2) have "(y, z) \<in> edge D" by (auto simp: edge_def)
    then show ?case using step.IH past_closed [OF assms(1,3)] by (auto simp: past_def intro: rtrancl.rtrancl_into_rtrancl)
  qed (simp add: assms(3))
  then show "past (D(h \<mapsto> e)) x \<subseteq> past D x" by (auto simp: past_def)
  have "edge D \<subseteq> edge (D(h \<mapsto> e))" using assms(2) by (auto simp: edge_def)
  then show "past D x \<subseteq> past (D(h \<mapsto> e)) x" unfolding past_def using rtrancl_mono by blast
qed

lemma past_new:
  assumes "valid_dag vv D" "h \<notin> dom D" "valid_event vv D e"
  shows "past (D(h \<mapsto> e)) h = insert h (\<Union>p \<in> set (eParents e). past D p)"
proof -
  have "set (eParents e) \<subseteq> dom D" using assms(3) by (simp add: valid_event_def)
  then have "past (D(h \<mapsto> e)) p = past D p" if "p \<in> set (eParents e)" for p
    using that past_grow [OF assms(1,2)] by blast
  then show ?thesis using past_unfold [of "D(h \<mapsto> e)" h e] by simp
qed

lemma at_old [simp]: "x \<noteq> h \<Longrightarrow> seq_of (D(h \<mapsto> e)) x = seq_of D x" "x \<noteq> h \<Longrightarrow> creator_of vv (D(h \<mapsto> e)) x = creator_of vv D x"
  by (simp_all add: seq_of_def creator_of_def)

lemma at_new [simp]: "seq_of (D(h \<mapsto> e)) h = eSeq e" "creator_of vv (D(h \<mapsto> e)) h = GetIdx vv (eCreator e)"
  by (simp_all add: seq_of_def creator_of_def)

lemma forked_grow: "h \<notin> A \<Longrightarrow> forked vv (D(h \<mapsto> e)) A c = forked vv D A c"
  unfolding forked_def by (metis at_old)

lemma SelfParent_in: "SelfParent e = Some p \<Longrightarrow> p \<in> set (eParents e)"
  by (auto simp: SelfParent_def split: if_splits)

lemma valid_event_grow: "valid_event vv D e \<Longrightarrow> h \<notin> dom D \<Longrightarrow> valid_event vv (D(h \<mapsto> f)) e"
  by (auto simp: valid_event_def split: option.splits dest: SelfParent_in)

lemma valid_dag_grow: "valid_dag vv D \<Longrightarrow> h \<notin> dom D \<Longrightarrow> valid_event vv D e \<Longrightarrow> valid_dag vv (D(h \<mapsto> e))"
  by (auto simp: valid_dag_def valid_event_grow)

subsection \<open>Invariants\<close>

text \<open>The lists of \<open>branchesInfo\<close> agree with each other; branch \<open>c\<close> below the number of validators belongs to validator \<open>c\<close>.\<close>

definition layout_inv :: "Validators \<Rightarrow> branchesInfo \<Rightarrow> bool" where
  "layout_inv vv bi \<longleftrightarrow>
     length (BranchIDLastSeq bi) = length (BranchIDCreatorIdxs bi) \<and>
     Validators_Len vv \<le> length (BranchIDCreatorIdxs bi) \<and>
     length (BranchIDByCreators bi) = Validators_Len vv \<and>
     (\<forall>c < Validators_Len vv. BranchIDCreatorIdxs bi ! c = c) \<and>
     (\<forall>b < length (BranchIDCreatorIdxs bi). BranchIDCreatorIdxs bi ! b < Validators_Len vv) \<and>
     (\<forall>c < Validators_Len vv. set (BranchIDByCreators bi ! c) =
        {b. b < length (BranchIDCreatorIdxs bi) \<and> BranchIDCreatorIdxs bi ! b = c})"

text \<open>A branch is a chain: one event per sequence number, each observing the ones before it, without gaps.\<close>

definition chain_inv :: "dag \<Rightarrow> (hash_event \<Rightarrow> Validator) \<Rightarrow> bool" where
  "chain_inv D br \<longleftrightarrow>
     (\<forall>x \<in> dom D. \<forall>y \<in> dom D. br x = br y \<longrightarrow>
        (seq_of D x \<le> seq_of D y \<longrightarrow> x \<in> past D y) \<and> (seq_of D x = seq_of D y \<longrightarrow> x = y) \<and>
        (\<forall>s. seq_of D x \<le> s \<and> s \<le> seq_of D y \<longrightarrow> (\<exists>z \<in> dom D. br z = br x \<and> seq_of D z = s)))"

definition branch_inv :: "Validators \<Rightarrow> dag \<Rightarrow> (hash_event \<Rightarrow> Validator) \<Rightarrow> branchesInfo \<Rightarrow> bool" where
  "branch_inv vv D br bi \<longleftrightarrow>
     length (BranchIDCreatorIdxs bi) \<le> Validators_Len vv + card (dom D) \<and>
     (\<forall>x \<in> dom D. br x < length (BranchIDCreatorIdxs bi) \<and> BranchIDCreatorIdxs bi ! br x = creator_of vv D x \<and>
        seq_of D x \<le> BranchIDLastSeq bi ! br x) \<and>
     (\<forall>b < length (BranchIDCreatorIdxs bi). BranchIDLastSeq bi ! b \<noteq> 0 \<longrightarrow>
        (\<exists>x \<in> dom D. br x = b \<and> seq_of D x = BranchIDLastSeq bi ! b))"

text \<open>The cell of a set of events of one branch: its highest and lowest sequence number.\<close>

definition summ :: "dag \<Rightarrow> hash_event set \<Rightarrow> BranchSeq" where
  "summ D S = (if S = {} then \<lparr>Seq = 0, MinSeq = 0\<rparr> else \<lparr>Seq = Max (seq_of D ` S), MinSeq = Min (seq_of D ` S)\<rparr>)"

definition on_branch :: "(hash_event \<Rightarrow> Validator) \<Rightarrow> Validator \<Rightarrow> hash_event set \<Rightarrow> hash_event set" where
  "on_branch br b A = {y \<in> A. br y = b}"

text \<open>
  The vectors of an event that observes \<open>A\<close>: creators in \<open>F\<close> are marked on all their branches, the
  others have the summary of each branch and the claimed time of its highest event.
\<close>

definition clocks :: "dag \<Rightarrow> (hash_event \<Rightarrow> Validator) \<Rightarrow> branchesInfo \<Rightarrow> nat \<Rightarrow>
    hash_event set \<Rightarrow> Validator set \<Rightarrow> HighestBeforeSeq \<Rightarrow> HighestBeforeTime \<Rightarrow> bool" where
  "clocks D br bi n A F hbs hbt \<longleftrightarrow> wf_hb hbs \<and> wf_hb hbt \<and> HighestBeforeSeq_Size hbs = n \<and>
     (\<forall>b < n. HighestBeforeSeq_Get hbs b =
        (if BranchIDCreatorIdxs bi ! b \<in> F then forkDetectedSeq else summ D (on_branch br b A))) \<and>
     (\<forall>b < n. BranchIDCreatorIdxs bi ! b \<notin> F \<longrightarrow> on_branch br b A \<noteq> {} \<longrightarrow>
        (\<exists>y \<in> on_branch br b A. seq_of D y = Max (seq_of D ` on_branch br b A) \<and>
           HighestBeforeTime_Get hbt b = eClaimedTime (the (D y))))"

definition before_inv :: "Validators \<Rightarrow> dag \<Rightarrow> (hash_event \<Rightarrow> Validator) \<Rightarrow> branchesInfo \<Rightarrow> Tables \<Rightarrow> bool" where
  "before_inv vv D br bi t \<longleftrightarrow> (\<forall>x. x \<notin> dom D \<longrightarrow> tHighestBeforeSeq t x = None) \<and>
     (\<forall>x \<in> dom D. \<exists>hbs hbt n. tHighestBeforeSeq t x = Some hbs \<and> tHighestBeforeTime t x = Some hbt \<and>
        clocks D br bi n (past D x) {c. forked vv D (past D x) c} hbs hbt \<and>
        Validators_Len vv \<le> n \<and> n \<le> length (BranchIDCreatorIdxs bi) \<and> (\<forall>y \<in> past D x. br y < n))"

text \<open>The lowest event of a branch that observes \<open>x\<close>.\<close>

definition observers :: "dag \<Rightarrow> (hash_event \<Rightarrow> Validator) \<Rightarrow> Validator \<Rightarrow> hash_event \<Rightarrow> hash_event set" where
  "observers D br b x = {y \<in> dom D. br y = b \<and> x \<in> past D y}"

definition lowest :: "dag \<Rightarrow> (hash_event \<Rightarrow> Validator) \<Rightarrow> Validator \<Rightarrow> hash_event \<Rightarrow> EventSeq" where
  "lowest D br b x = (if observers D br b x = {} then 0 else Min (seq_of D ` observers D br b x))"

definition after_inv :: "dag \<Rightarrow> (hash_event \<Rightarrow> Validator) \<Rightarrow> (hash_event \<rightharpoonup> LowestAfterSeq) \<Rightarrow> bool" where
  "after_inv D br la \<longleftrightarrow> (\<forall>x. x \<notin> dom D \<longrightarrow> la x = None) \<and>
     (\<forall>x \<in> dom D. \<exists>v. la x = Some v \<and> wf_la v \<and> (\<forall>b. LowestAfterSeq_Get v b = lowest D br b x))"

definition br_of :: "Index \<Rightarrow> hash_event \<Rightarrow> Validator" where
  "br_of vi x = the (getEventBranchID vi x)"

definition index_inv :: "Index \<Rightarrow> dag \<Rightarrow> bool" where
  "index_inv vi D \<longleftrightarrow>
     (let vv = vi_validators vi; bi = the_bi vi; br = br_of vi in
      sane_group vv \<and> valid_dag vv D \<and> layout_inv vv bi \<and> chain_inv D br \<and> branch_inv vv D br bi \<and>
      (\<forall>x \<in> dom D. getEventBranchID vi x \<noteq> None) \<and>
      before_inv vv D br bi (vi_table vi) \<and> after_inv D br (tLowestAfterSeq (vi_table vi)))"

subsection \<open>Merging the clocks of the parents\<close>

lemma on_branch_Un [simp]: "on_branch br b (A \<union> B) = on_branch br b A \<union> on_branch br b B"
  by (auto simp: on_branch_def)

lemma on_branch_on_branch [simp]: "on_branch br b (on_branch br k P) = (if b = k then on_branch br k P else {})"
  by (auto simp: on_branch_def)

lemma finite_on_branch [simp]: "finite A \<Longrightarrow> finite (on_branch br b A)"
  by (simp add: on_branch_def)

lemma zero_not_marker [simp]: "\<not> IsForkDetected \<lparr>Seq = 0, MinSeq = 0\<rparr>"
  by (simp add: IsForkDetected_def forkDetectedSeq_def)

lemma marker [simp]: "IsForkDetected forkDetectedSeq"
  by (simp add: IsForkDetected_def)

lemma top_event: "finite S \<Longrightarrow> S \<noteq> {} \<Longrightarrow> \<exists>y \<in> S. seq_of D y = Max (seq_of D ` S)"
  using Max_in [of "seq_of D ` S"] by (metis finite_imageI image_iff image_is_empty)

lemma bottom_event: "finite S \<Longrightarrow> S \<noteq> {} \<Longrightarrow> \<exists>y \<in> S. seq_of D y = Min (seq_of D ` S)"
  using Min_in [of "seq_of D ` S"] by (metis finite_imageI image_iff image_is_empty)

lemma Seq_summ_zero: "finite S \<Longrightarrow> \<forall>y \<in> S. seq_of D y \<noteq> 0 \<Longrightarrow> Seq (summ D S) = 0 \<longleftrightarrow> S = {}"
  using top_event [of S D] by (cases "S = {}") (auto simp: summ_def)

lemma summ_not_marker: "finite S \<Longrightarrow> \<forall>y \<in> S. seq_of D y \<noteq> 0 \<Longrightarrow> \<not> IsForkDetected (summ D S)"
  using Seq_summ_zero [of S D] by (cases "S = {}") (auto simp: IsForkDetected_def forkDetectedSeq_def summ_def)

lemma summ_Un:
  assumes "finite S" "finite T" "S \<noteq> {}" "T \<noteq> {}"
  shows "summ D (S \<union> T) = \<lparr>Seq = max (Seq (summ D S)) (Seq (summ D T)), MinSeq = min (MinSeq (summ D S)) (MinSeq (summ D T))\<rparr>"
  using assms by (simp add: summ_def image_Un Max_Un Min_Un)

lemma layout_invD:
  assumes "layout_inv vv bi"
  shows "length (BranchIDLastSeq bi) = length (BranchIDCreatorIdxs bi)"
    "Validators_Len vv \<le> length (BranchIDCreatorIdxs bi)" "length (BranchIDByCreators bi) = Validators_Len vv"
    "c < Validators_Len vv \<Longrightarrow> BranchIDCreatorIdxs bi ! c = c"
    "b < length (BranchIDCreatorIdxs bi) \<Longrightarrow> BranchIDCreatorIdxs bi ! b < Validators_Len vv"
    "c < Validators_Len vv \<Longrightarrow> b \<in> set (BranchIDByCreators bi ! c) \<longleftrightarrow>
       b < length (BranchIDCreatorIdxs bi) \<and> BranchIDCreatorIdxs bi ! b = c"
  using assms by (auto simp: layout_inv_def)

lemma mark_all:
  assumes "wf_hb v" "\<forall>b \<in> set bs. b < HighestBeforeSeq_Size v"
  shows "wf_hb (foldl (\<lambda>v b. HighestBeforeSeq_Set v b m) v bs) \<and>
     HighestBeforeSeq_Size (foldl (\<lambda>v b. HighestBeforeSeq_Set v b m) v bs) = HighestBeforeSeq_Size v \<and>
     (\<forall>b. HighestBeforeSeq_Get (foldl (\<lambda>v b. HighestBeforeSeq_Set v b m) v bs) b =
        (if b \<in> set bs then m else HighestBeforeSeq_Get v b))"
  using assms
proof (induction bs arbitrary: v)
  case (Cons b bs)
  have "wf_hb (HighestBeforeSeq_Set v b m)" "HighestBeforeSeq_Size (HighestBeforeSeq_Set v b m) = HighestBeforeSeq_Size v"
    using Cons.prems by (auto simp: vec_simps)
  with Cons.IH [of "HighestBeforeSeq_Set v b m"] Cons.prems show ?case by (auto simp: vec_simps)
qed simp

text \<open>Marking stays within the cells the vector has.\<close>

lemma setForkDetected_in_place:
  assumes "layout_inv vv bi" "atLeastOneFork vv bi" "wf_hb v" "HighestBeforeSeq_Size v = length (BranchIDCreatorIdxs bi)"
    and "k < length (BranchIDCreatorIdxs bi)"
  shows "\<exists>v'. setForkDetected vv bi v k = Some v' \<and> wf_hb v' \<and> HighestBeforeSeq_Size v' = HighestBeforeSeq_Size v \<and>
     (\<forall>b < length (BranchIDCreatorIdxs bi). HighestBeforeSeq_Get v' b =
        (if BranchIDCreatorIdxs bi ! b = BranchIDCreatorIdxs bi ! k then forkDetectedSeq else HighestBeforeSeq_Get v b))"
proof -
  let ?c = "BranchIDCreatorIdxs bi ! k"
  have c: "?c < Validators_Len vv" using layout_invD(5) assms(1,5) .
  have "\<forall>b \<in> set (BranchIDByCreators bi ! ?c). b < HighestBeforeSeq_Size v"
    using layout_invD(6) [OF assms(1) c] assms(4) by simp
  from mark_all [OF assms(3) this, of forkDetectedSeq] c assms show ?thesis
    by (simp add: setForkDetected_def layout_invD(3) layout_invD(6))
qed

lemma clocks_mark:
  assumes "layout_inv vv bi" "atLeastOneFork vv bi" "n = length (BranchIDCreatorIdxs bi)"
    and "clocks D br bi n A F v t" "k < n"
  shows "\<exists>v'. setForkDetected vv bi v k = Some v' \<and> clocks D br bi n A (insert (BranchIDCreatorIdxs bi ! k) F) v' t"
  using setForkDetected_in_place [of vv bi v k] assms by (auto simp: clocks_def)

lemma clocks_marked_branch:
  assumes "clocks D br bi n A F v t" "BranchIDCreatorIdxs bi ! k \<in> F"
  shows "clocks D br bi n (A \<union> on_branch br k P) F v t"
  using assms by (auto simp: clocks_def)

text \<open>What a parent brings: its own clocks over \<open>P\<close>, possibly shorter than the child's.\<close>

definition parent_clocks :: "Validators \<Rightarrow> dag \<Rightarrow> (hash_event \<Rightarrow> Validator) \<Rightarrow> branchesInfo \<Rightarrow>
    hash_event set \<Rightarrow> Validator set \<Rightarrow> HighestBeforeSeq \<Rightarrow> HighestBeforeTime \<Rightarrow> bool" where
  "parent_clocks vv D br bi P F s t \<longleftrightarrow> (\<exists>m. clocks D br bi m P F s t \<and> Validators_Len vv \<le> m \<and>
     m \<le> length (BranchIDCreatorIdxs bi) \<and> (\<forall>y \<in> P. br y < m)) \<and>
     finite P \<and> (\<forall>y \<in> P. seq_of D y \<noteq> 0) \<and> F \<subseteq> {..<Validators_Len vv} \<and> (F \<noteq> {} \<longrightarrow> atLeastOneFork vv bi)"

lemma parent_cell:
  assumes "parent_clocks vv D br bi P F s t" "layout_inv vv bi" "k < length (BranchIDCreatorIdxs bi)"
  shows "HighestBeforeSeq_Get s k = forkDetectedSeq \<and> BranchIDCreatorIdxs bi ! k \<in> F \<or>
     HighestBeforeSeq_Get s k = summ D (on_branch br k P) \<and> k \<notin> F \<and>
       (on_branch br k P \<noteq> {} \<longrightarrow> BranchIDCreatorIdxs bi ! k \<notin> F \<and>
         (\<exists>y \<in> on_branch br k P. seq_of D y = Max (seq_of D ` on_branch br k P) \<and>
           HighestBeforeTime_Get t k = eClaimedTime (the (D y))))"
proof -
  obtain m where m: "clocks D br bi m P F s t" "Validators_Len vv \<le> m" "\<forall>y \<in> P. br y < m"
    and F: "F \<subseteq> {..<Validators_Len vv}"
    using assms(1) by (auto simp: parent_clocks_def)
  show ?thesis
  proof (cases "k < m")
    case True
    have "k \<in> F \<Longrightarrow> BranchIDCreatorIdxs bi ! k \<in> F" using F layout_invD(4) [OF assms(2)] by auto
    with True m show ?thesis unfolding clocks_def by metis
  next
    case False
    then have "on_branch br k P = {}" "k \<notin> F" using m F by (auto simp: on_branch_def)
    moreover have "HighestBeforeSeq_Get s k = \<lparr>Seq = 0, MinSeq = 0\<rparr>"
      using m False by (intro hb.read_beyond) (simp add: clocks_def)
    ultimately show ?thesis by (simp add: summ_def)
  qed
qed

text \<open>The plain case of the merge: neither side is marked.\<close>

definition merged :: "BranchSeq \<Rightarrow> BranchSeq \<Rightarrow> BranchSeq" where
  "merged my his = \<lparr>Seq = max (Seq my) (Seq his),
     MinSeq = (if Seq my = 0 \<or> MinSeq my > MinSeq his then MinSeq his else MinSeq my)\<rparr>"

lemma merged_summ:
  assumes "finite S" "finite T" "T \<noteq> {}" "\<forall>y \<in> S \<union> T. seq_of D y \<noteq> 0"
  shows "merged (summ D S) (summ D T) = summ D (S \<union> T)"
proof (cases "S = {}")
  case True
  then show ?thesis by (simp add: merged_def summ_def)
next
  case False
  with assms Seq_summ_zero [of S D] show ?thesis by (auto simp: merged_def summ_Un min_def)
qed

lemma mergeBranch_plain:
  assumes "\<not> IsForkDetected (HighestBeforeSeq_Get ps k)" "Seq (HighestBeforeSeq_Get ps k) \<noteq> 0"
    and "\<not> IsForkDetected (HighestBeforeSeq_Get ms k)" "wf_hb ms" "k < HighestBeforeSeq_Size ms" "wf_hb mt"
  shows "\<exists>ms' mt'. mergeBranch vv bi ps pt (ms, mt) k = Some (ms', mt') \<and> wf_hb ms' \<and> wf_hb mt' \<and>
     HighestBeforeSeq_Size ms' = HighestBeforeSeq_Size ms \<and>
     (\<forall>b. HighestBeforeSeq_Get ms' b =
        (if b = k then merged (HighestBeforeSeq_Get ms k) (HighestBeforeSeq_Get ps k) else HighestBeforeSeq_Get ms b)) \<and>
     (\<forall>b. HighestBeforeTime_Get mt' b =
        (if b = k \<and> Seq (HighestBeforeSeq_Get ms k) < Seq (HighestBeforeSeq_Get ps k)
         then HighestBeforeTime_Get pt k else HighestBeforeTime_Get mt b))"
  using assms
  by (auto simp: mergeBranch_def Let_def vec_simps merged_def max_def split: prod.splits if_splits)

lemma clocks_merge_plain:
  assumes my: "clocks D br bi n A F ms mt" and F: "BranchIDCreatorIdxs bi ! k \<notin> F" and k: "k < n"
    and his: "HighestBeforeSeq_Get ps k = summ D (on_branch br k P)" "on_branch br k P \<noteq> {}"
    and top: "\<exists>y \<in> on_branch br k P. seq_of D y = Max (seq_of D ` on_branch br k P) \<and>
       HighestBeforeTime_Get pt k = eClaimedTime (the (D y))"
    and fin: "finite A" "finite P" "\<forall>y \<in> A \<union> P. seq_of D y \<noteq> 0"
  shows "\<exists>ms' mt'. mergeBranch vv bi ps pt (ms, mt) k = Some (ms', mt') \<and>
     clocks D br bi n (A \<union> on_branch br k P) F ms' mt'"
proof -
  let ?A = "on_branch br k A" and ?P = "on_branch br k P"
  have nz: "\<forall>y \<in> ?A \<union> ?P. seq_of D y \<noteq> 0" using fin(3) by (auto simp: on_branch_def)
  have mine: "HighestBeforeSeq_Get ms k = summ D ?A" using my F k by (simp add: clocks_def)
  have "\<not> IsForkDetected (HighestBeforeSeq_Get ps k)" "Seq (HighestBeforeSeq_Get ps k) \<noteq> 0"
    "\<not> IsForkDetected (HighestBeforeSeq_Get ms k)"
    using his mine nz fin summ_not_marker [of ?P D] Seq_summ_zero [of ?P D] summ_not_marker [of ?A D] by auto
  from mergeBranch_plain [OF this, of mt vv bi pt] obtain ms' mt' where
    r: "mergeBranch vv bi ps pt (ms, mt) k = Some (ms', mt')" "wf_hb ms'" "wf_hb mt'" "HighestBeforeSeq_Size ms' = n"
    and s: "\<And>b. HighestBeforeSeq_Get ms' b = (if b = k then merged (summ D ?A) (summ D ?P) else HighestBeforeSeq_Get ms b)"
    and t: "\<And>b. HighestBeforeTime_Get mt' b = (if b = k \<and> Seq (summ D ?A) < Seq (summ D ?P)
         then HighestBeforeTime_Get pt k else HighestBeforeTime_Get mt b)"
    using my k by (auto simp: clocks_def mine his(1))
  have cell: "merged (summ D ?A) (summ D ?P) = summ D (?A \<union> ?P)"
    using fin his(2) nz by (intro merged_summ) auto
  have time: "\<exists>y \<in> ?A \<union> ?P. seq_of D y = Max (seq_of D ` (?A \<union> ?P)) \<and> HighestBeforeTime_Get mt' k = eClaimedTime (the (D y))"
  proof (cases "Seq (summ D ?A) < Seq (summ D ?P)")
    case True
    then have "Max (seq_of D ` (?A \<union> ?P)) = Max (seq_of D ` ?P)"
      using fin his(2) by (cases "?A = {}") (auto simp: summ_def image_Un Max_Un)
    with top True show ?thesis by (auto simp: t)
  next
    case False
    then have ne: "?A \<noteq> {}" using Seq_summ_zero [of ?P D] fin nz his(2) by (auto simp: summ_def word_gt_0)
    with False have "Max (seq_of D ` ?P) \<le> Max (seq_of D ` ?A)"
      using his(2) unfolding summ_def by (simp only: if_False BranchSeq.select_convs not_less)
    then have "Max (seq_of D ` (?A \<union> ?P)) = Max (seq_of D ` ?A)"
      using fin his(2) ne by (simp only: image_Un) (subst Max_Un; simp add: max_absorb1 del: Max_le_iff)
    moreover have "\<exists>y \<in> ?A. seq_of D y = Max (seq_of D ` ?A) \<and> HighestBeforeTime_Get mt k = eClaimedTime (the (D y))"
      using my F k ne by (simp add: clocks_def)
    ultimately show ?thesis using False by (auto simp: t)
  qed
  have "clocks D br bi n (A \<union> ?P) F ms' mt'"
    unfolding clocks_def
  proof (intro conjI allI impI)
    fix b assume b: "b < n"
    show "HighestBeforeSeq_Get ms' b = (if BranchIDCreatorIdxs bi ! b \<in> F then forkDetectedSeq else summ D (on_branch br b (A \<union> ?P)))"
      using my F b by (cases "b = k") (simp_all add: clocks_def s cell)
    assume "BranchIDCreatorIdxs bi ! b \<notin> F" "on_branch br b (A \<union> ?P) \<noteq> {}"
    with my b time show "\<exists>y \<in> on_branch br b (A \<union> ?P). seq_of D y = Max (seq_of D ` on_branch br b (A \<union> ?P)) \<and>
        HighestBeforeTime_Get mt' b = eClaimedTime (the (D y))"
      by (cases "b = k") (simp_all add: clocks_def t)
  qed (use r in simp_all)
  with r(1) show ?thesis by blast
qed

lemma mergeBranch_clocks:
  assumes lay: "layout_inv vv bi" and n: "n = length (BranchIDCreatorIdxs bi)" and k: "k < n"
    and my: "clocks D br bi n A F ms mt" "finite A" "\<forall>y \<in> A. seq_of D y \<noteq> 0"
    and his: "parent_clocks vv D br bi P Fp ps pt" and prior: "{c \<in> Fp. c < k} \<subseteq> F"
  shows "\<exists>ms' mt'. mergeBranch vv bi ps pt (ms, mt) k = Some (ms', mt') \<and>
     clocks D br bi n (A \<union> on_branch br k P) (F \<union> {c \<in> Fp. c = k}) ms' mt'"
proof -
  let ?c = "BranchIDCreatorIdxs bi ! k" and ?his = "HighestBeforeSeq_Get ps k" and ?my = "HighestBeforeSeq_Get ms k"
  have P: "finite P" "\<forall>y \<in> P. seq_of D y \<noteq> 0" "Fp \<subseteq> {..<Validators_Len vv}" "Fp \<noteq> {} \<longrightarrow> atLeastOneFork vv bi"
    using his by (auto simp: parent_clocks_def)
  have my_marked: "IsForkDetected ?my \<longleftrightarrow> ?c \<in> F"
    using my k summ_not_marker [of "on_branch br k A" D] by (auto simp: clocks_def on_branch_def)
  have own: "k \<in> Fp \<Longrightarrow> ?c = k" using P(3) layout_invD(4) [OF lay] by auto
  from parent_cell [OF his lay] k n consider
      (mark) "?his = forkDetectedSeq" "?c \<in> Fp"
    | (none) "?his = summ D (on_branch br k P)" "k \<notin> Fp" "on_branch br k P = {}"
    | (plain) "?his = summ D (on_branch br k P)" "k \<notin> Fp" "on_branch br k P \<noteq> {}"
        "\<exists>y \<in> on_branch br k P. seq_of D y = Max (seq_of D ` on_branch br k P) \<and> HighestBeforeTime_Get pt k = eClaimedTime (the (D y))"
    by blast
  then show ?thesis
  proof cases
    case mark
    show ?thesis
    proof (cases "?c \<in> F")
      case True
      have "F \<union> {c \<in> Fp. c = k} = F" using True own by auto
      with True my(1) mark my_marked show ?thesis
        using clocks_marked_branch [OF my(1) True] by (simp add: mergeBranch_def Let_def)
    next
      case False
      have "?c = k" using prior mark(2) False P(3) layout_invD(4,5) [OF lay] k n by (metis (no_types, lifting) linorder_neqE_nat less_le_trans mem_Collect_eq nat_less_le not_less subsetD)
      then have F: "F \<union> {c \<in> Fp. c = k} = insert ?c F" using mark(2) by auto
      have "atLeastOneFork vv bi" using P(4) mark(2) by blast
      from clocks_mark [OF lay this n my(1) k] obtain v where "setForkDetected vv bi ms k = Some v"
        "clocks D br bi n A (insert ?c F) v mt" by blast
      moreover from this(2) have "clocks D br bi n (A \<union> on_branch br k P) (insert ?c F) v mt"
        by (rule clocks_marked_branch) simp
      ultimately show ?thesis using False mark my_marked F by (simp add: mergeBranch_def Let_def)
    qed
  next
    case none
    then have "F \<union> {c \<in> Fp. c = k} = F" by auto
    with none my(1) show ?thesis by (simp add: mergeBranch_def Let_def summ_def)
  next
    case plain
    then have F: "F \<union> {c \<in> Fp. c = k} = F" by auto
    show ?thesis
    proof (cases "?c \<in> F")
      case True
      with my(1) my_marked F show ?thesis
        using clocks_marked_branch [OF my(1) True] by (simp add: mergeBranch_def Let_def)
    next
      case False
      have "\<forall>y \<in> A \<union> P. seq_of D y \<noteq> 0" using my(3) P(2) by blast
      from clocks_merge_plain [OF my(1) False k plain(1,3,4) my(2) P(1) this] show ?thesis unfolding F .
    qed
  qed
qed

lemma mergeParent_clocks:
  assumes lay: "layout_inv vv bi" and n: "n = length (BranchIDCreatorIdxs bi)"
    and my: "clocks D br bi n A F ms mt" "finite A" "\<forall>y \<in> A. seq_of D y \<noteq> 0"
    and his: "parent_clocks vv D br bi P Fp ps pt"
  shows "\<exists>ms' mt'. mergeParent vv bi (ms, mt) (ps, pt) = Some (ms', mt') \<and> clocks D br bi n (A \<union> P) (F \<union> Fp) ms' mt'"
proof -
  have P: "finite P" "\<forall>y \<in> P. seq_of D y \<noteq> 0" "\<forall>y \<in> P. br y < n" "\<forall>c \<in> Fp. c < n"
    using his layout_invD(2) [OF lay] n by (auto simp: parent_clocks_def dest!: bspec subsetD intro: less_le_trans)
  have loop: "\<exists>ms' mt'. foldM (mergeBranch vv bi ps pt) (ms, mt) [0..<j] = Some (ms', mt') \<and>
      clocks D br bi n (A \<union> {y \<in> P. br y < j}) (F \<union> {c \<in> Fp. c < j}) ms' mt'" if "j \<le> n" for j
    using that
  proof (induction j)
    case (Suc j)
    then obtain m1 t1 where 1: "foldM (mergeBranch vv bi ps pt) (ms, mt) [0..<j] = Some (m1, t1)"
      "clocks D br bi n (A \<union> {y \<in> P. br y < j}) (F \<union> {c \<in> Fp. c < j}) m1 t1" by auto
    have "finite (A \<union> {y \<in> P. br y < j})" "\<forall>y \<in> A \<union> {y \<in> P. br y < j}. seq_of D y \<noteq> 0" using my P by auto
    from mergeBranch_clocks [OF lay n _ 1(2) this his, of j] Suc.prems obtain m2 t2 where
      "mergeBranch vv bi ps pt (m1, t1) j = Some (m2, t2)"
      "clocks D br bi n (A \<union> {y \<in> P. br y < j} \<union> on_branch br j P) (F \<union> {c \<in> Fp. c < j} \<union> {c \<in> Fp. c = j}) m2 t2" by auto
    moreover have "A \<union> {y \<in> P. br y < j} \<union> on_branch br j P = A \<union> {y \<in> P. br y < Suc j}"
      "F \<union> {c \<in> Fp. c < j} \<union> {c \<in> Fp. c = j} = F \<union> {c \<in> Fp. c < Suc j}" by (auto simp: on_branch_def less_Suc_eq)
    ultimately show ?case using 1(1) by (simp add: foldM_append)
  qed (use my(1) in simp)
  moreover have "{y \<in> P. br y < n} = P" "{c \<in> Fp. c < n} = Fp" using P by auto
  ultimately show ?thesis using loop [of n] n by (simp add: mergeParent_def)
qed

lemma mergeParents_clocks:
  assumes lay: "layout_inv vv bi" and n: "n = length (BranchIDCreatorIdxs bi)"
    and his: "\<forall>q \<in> set qs. parent_clocks vv D br bi (P q) (Fp q) (fst (vec q)) (snd (vec q))"
    and my: "clocks D br bi n A F ms mt" "finite A" "\<forall>y \<in> A. seq_of D y \<noteq> 0"
  shows "\<exists>ms' mt'. foldM (mergeParent vv bi) (ms, mt) (map vec qs) = Some (ms', mt') \<and>
     clocks D br bi n (A \<union> \<Union> (P ` set qs)) (F \<union> \<Union> (Fp ` set qs)) ms' mt'"
  using his my
proof (induction qs arbitrary: A F ms mt)
  case (Cons q qs)
  have q: "parent_clocks vv D br bi (P q) (Fp q) (fst (vec q)) (snd (vec q))" using Cons.prems by simp
  from mergeParent_clocks [OF lay n Cons.prems(2-4) q] obtain m1 t1 where
    1: "mergeParent vv bi (ms, mt) (vec q) = Some (m1, t1)" "clocks D br bi n (A \<union> P q) (F \<union> Fp q) m1 t1" by auto
  have "finite (A \<union> P q)" "\<forall>y \<in> A \<union> P q. seq_of D y \<noteq> 0" using Cons.prems q by (auto simp: parent_clocks_def)
  from Cons.IH [OF _ 1(2) this] Cons.prems(1) 1(1) show ?case by (simp add: Un_assoc)
qed simp

subsection \<open>Detecting forks\<close>

lemma branch_range:
  assumes "chain_inv D br" "A \<subseteq> dom D" "finite A" "\<forall>y \<in> A. past D y \<subseteq> A" "on_branch br b A \<noteq> {}"
    and "MinSeq (summ D (on_branch br b A)) \<le> s" "s \<le> Seq (summ D (on_branch br b A))"
  shows "\<exists>z \<in> on_branch br b A. seq_of D z = s"
proof -
  let ?S = "on_branch br b A"
  obtain x y where xy: "x \<in> ?S" "y \<in> ?S" "seq_of D x = MinSeq (summ D ?S)" "seq_of D y = Seq (summ D ?S)"
    using top_event [of ?S D] bottom_event [of ?S D] assms(3,5) by (auto simp: summ_def)
  then have "x \<in> dom D" "y \<in> dom D" "br x = b" "br y = b" "y \<in> A" using assms(2) by (auto simp: on_branch_def)
  then obtain z where z: "z \<in> dom D" "br z = b" "seq_of D z = s"
    using assms(1,6,7) xy unfolding chain_inv_def by metis
  then have "z \<in> past D y" using assms(1,7) xy \<open>y \<in> dom D\<close> \<open>br y = b\<close> unfolding chain_inv_def by metis
  with z assms(4) \<open>y \<in> A\<close> show ?thesis by (auto simp: on_branch_def)
qed

lemma summ_bounds: "finite S \<Longrightarrow> y \<in> S \<Longrightarrow> MinSeq (summ D S) \<le> seq_of D y \<and> seq_of D y \<le> Seq (summ D S)"
  by (auto simp: summ_def)

text \<open>An observed past: closed under parents, on branches that are chains of single creators.\<close>

definition observed :: "Validators \<Rightarrow> dag \<Rightarrow> (hash_event \<Rightarrow> Validator) \<Rightarrow> branchesInfo \<Rightarrow> hash_event set \<Rightarrow> bool" where
  "observed vv D br bi A \<longleftrightarrow> chain_inv D br \<and> A \<subseteq> dom D \<and> finite A \<and>
     (\<forall>y \<in> A. past D y \<subseteq> A \<and> seq_of D y \<noteq> 0 \<and> br y < length (BranchIDCreatorIdxs bi) \<and>
        BranchIDCreatorIdxs bi ! br y = creator_of vv D y)"

lemma fork_pair:
  assumes obs: "observed vv D br bi A" and cells: "\<forall>b \<in> B. HighestBeforeSeq_Get v b = summ D (on_branch br b A)"
    and B: "B = {b. b < length (BranchIDCreatorIdxs bi) \<and> BranchIDCreatorIdxs bi ! b = c}"
  shows "(\<exists>b1 \<in> B. \<exists>b2 \<in> B. branchesFork v b1 b2) \<longleftrightarrow> forked vv D A c"
proof
  note o = obs [unfolded observed_def]
  assume "\<exists>b1 \<in> B. \<exists>b2 \<in> B. branchesFork v b1 b2"
  then obtain b1 b2 where b: "b1 \<in> B" "b2 \<in> B" "b1 \<noteq> b2" and
    r: "Seq (summ D (on_branch br b1 A)) \<noteq> 0" "Seq (summ D (on_branch br b2 A)) \<noteq> 0"
      "MinSeq (summ D (on_branch br b1 A)) \<le> Seq (summ D (on_branch br b2 A))"
      "MinSeq (summ D (on_branch br b2 A)) \<le> Seq (summ D (on_branch br b1 A))"
    using cells by (auto simp: branchesFork_def Let_def split: if_splits)
  define s where "s = max (MinSeq (summ D (on_branch br b1 A))) (MinSeq (summ D (on_branch br b2 A)))"
  have ne: "on_branch br b1 A \<noteq> {}" "on_branch br b2 A \<noteq> {}" using r(1,2) by (auto simp: summ_def)
  have le: "MinSeq (summ D S) \<le> Seq (summ D S)" if "S \<noteq> {}" "finite S" for S
    using that summ_bounds [of S _ D] by (meson ex_in_conv order_trans)
  obtain y z where "y \<in> on_branch br b1 A" "seq_of D y = s" "z \<in> on_branch br b2 A" "seq_of D z = s"
    using branch_range [of D br A b1 s] branch_range [of D br A b2 s] o ne le r(3,4) by (auto simp: s_def)
  then have "y \<in> A" "z \<in> A" "y \<noteq> z" "seq_of D y = seq_of D z" "creator_of vv D y = c" "creator_of vv D z = c"
    using b B o by (auto simp: on_branch_def)
  then show "forked vv D A c" unfolding forked_def by blast
next
  note o = obs [unfolded observed_def]
  assume "forked vv D A c"
  then obtain y z where yz: "y \<in> A" "z \<in> A" "y \<noteq> z" "creator_of vv D y = c" "creator_of vv D z = c" "seq_of D y = seq_of D z"
    by (auto simp: forked_def)
  then have "br y \<noteq> br z" using o unfolding chain_inv_def by (metis subsetD)
  have B2: "br y \<in> B" "br z \<in> B" using yz o B by auto
  have in_b: "y \<in> on_branch br (br y) A" "z \<in> on_branch br (br z) A" using yz by (auto simp: on_branch_def)
  then have "Seq (summ D (on_branch br (br y) A)) \<noteq> 0" "Seq (summ D (on_branch br (br z) A)) \<noteq> 0"
    using o by (auto simp: on_branch_def Seq_summ_zero)
  then have "branchesFork v (br y) (br z)"
    using \<open>br y \<noteq> br z\<close> cells B2 summ_bounds [OF _ in_b(1), of D] summ_bounds [OF _ in_b(2), of D] o yz(6)
    by (auto simp: branchesFork_def Let_def intro: order_trans)
  with B2 show "\<exists>b1 \<in> B. \<exists>b2 \<in> B. branchesFork v b1 b2" by blast
qed

lemma no_branch_no_fork:
  assumes obs: "observed vv D br bi A" and lay: "layout_inv vv bi" and "\<not> atLeastOneFork vv bi"
  shows "\<not> forked vv D A c"
proof
  note o = obs [unfolded observed_def]
  assume "forked vv D A c"
  then obtain y z where yz: "y \<in> A" "z \<in> A" "y \<noteq> z" "creator_of vv D y = creator_of vv D z" "seq_of D y = seq_of D z"
    by (auto simp: forked_def)
  have "BranchIDCreatorIdxs bi ! br x = br x" if "x \<in> A" for x
    using that o layout_invD(4) [OF lay] assms(3) unfolding atLeastOneFork_def by (metis not_less order.strict_trans2)
  then have "br y = br z" using yz o by metis
  with yz o show False unfolding chain_inv_def by (metis subsetD)
qed

lemma detectFork_clocks:
  assumes obs: "observed vv D br bi A" and lay: "layout_inv vv bi" and fork: "atLeastOneFork vv bi"
    and n: "n = length (BranchIDCreatorIdxs bi)" and j: "j < Validators_Len vv"
    and clk: "clocks D br bi n A F v t" and F: "j \<in> F \<longrightarrow> forked vv D A j"
  shows "\<exists>v'. detectFork vv bi v j = Some v' \<and> clocks D br bi n A (F \<union> {c. c = j \<and> forked vv D A c}) v' t"
proof (cases "j \<in> F")
  case True
  have "HighestBeforeSeq_Get v j = forkDetectedSeq"
    using clk j True n layout_invD(2,4) [OF lay] by (simp add: clocks_def)
  moreover have "F \<union> {c. c = j \<and> forked vv D A c} = F" using True by auto
  ultimately show ?thesis using clk by (simp add: detectFork_def)
next
  case False
  have c: "BranchIDCreatorIdxs bi ! j = j" "j < n" using layout_invD(2,4) [OF lay] j n by auto
  have "\<not> IsForkDetected (HighestBeforeSeq_Get v j)"
    using clk c False obs summ_not_marker [of "on_branch br j A" D] by (auto simp: clocks_def observed_def on_branch_def)
  moreover have "list_ex (\<lambda>b1. list_ex (branchesFork v b1) (BranchIDByCreators bi ! j)) (BranchIDByCreators bi ! j)
      \<longleftrightarrow> forked vv D A j"
    using clk False n layout_invD(6) [OF lay j]
    by (subst fork_pair [OF obs, of "set (BranchIDByCreators bi ! j)" v, symmetric]) (auto simp: clocks_def list_ex_iff)
  moreover have "F \<union> {c. c = j \<and> forked vv D A c} = (if forked vv D A j then insert j F else F)" by auto
  ultimately show ?thesis
    using clk clocks_mark [OF lay fork n clk c(2)] layout_invD(3) [OF lay] j c
    by (auto simp: detectFork_def)
qed

lemma detectForks_clocks:
  assumes obs: "observed vv D br bi A" and lay: "layout_inv vv bi"
    and n: "n = length (BranchIDCreatorIdxs bi)"
    and clk: "clocks D br bi n A F v t" and F: "\<forall>c \<in> F. forked vv D A c" and L: "\<And>c. forked vv D A c \<Longrightarrow> c < Validators_Len vv"
  shows "\<exists>v'. detectForks vv bi v = Some v' \<and> clocks D br bi n A {c. forked vv D A c} v' t"
proof (cases "atLeastOneFork vv bi")
  case True
  have loop: "\<exists>v'. foldM (detectFork vv bi) v [0..<j] = Some v' \<and> clocks D br bi n A (F \<union> {c. c < j \<and> forked vv D A c}) v' t"
    if "j \<le> Validators_Len vv" for j
    using that
  proof (induction j)
    case (Suc j)
    then obtain v1 where 1: "foldM (detectFork vv bi) v [0..<j] = Some v1"
      "clocks D br bi n A (F \<union> {c. c < j \<and> forked vv D A c}) v1 t" by auto
    have "F \<union> {c. c < j \<and> forked vv D A c} \<union> {c. c = j \<and> forked vv D A c} = F \<union> {c. c < Suc j \<and> forked vv D A c}"
      by (auto simp: less_Suc_eq)
    with detectFork_clocks [OF obs lay True n _ 1(2), of j] Suc.prems F 1(1) show ?case by (auto simp: foldM_append)
  qed (use clk in simp)
  moreover have "F \<union> {c. c < Validators_Len vv \<and> forked vv D A c} = {c. forked vv D A c}" using F L by auto
  ultimately show ?thesis using True loop [of "Validators_Len vv"] by (simp add: detectForks_def)
next
  case False
  then have "F = {c. forked vv D A c}" using no_branch_no_fork [OF obs lay False] F by auto
  with clk False show ?thesis by (auto simp: detectForks_def)
qed

subsection \<open>The branch of a new event\<close>

lemma less_plus_one: "b + 1 \<noteq> 0 \<Longrightarrow> s < b + 1 \<longleftrightarrow> s \<le> b" for b s :: u32
  by unat_arith

text \<open>Putting event \<open>h\<close> on top of branch \<open>b\<close>.\<close>

definition extends :: "dag \<Rightarrow> (hash_event \<Rightarrow> Validator) \<Rightarrow> hash_event \<Rightarrow> EventHeaderData \<Rightarrow> Validator \<Rightarrow> bool" where
  "extends D br h e b \<longleftrightarrow> (\<forall>x \<in> dom D. br x = b \<longrightarrow> seq_of D x < eSeq e \<and> x \<in> past (D(h \<mapsto> e)) h \<and>
     (\<exists>z \<in> dom D. br z = b \<and> seq_of D z + 1 = eSeq e))"

lemma chain_inv_grow:
  assumes v: "valid_dag vv D" and h: "h \<notin> dom D" and chain: "chain_inv D br" and ext: "extends D br h e b" and nz: "eSeq e \<noteq> 0"
  shows "chain_inv (D(h \<mapsto> e)) (br(h := b))"
proof -
  let ?D = "D(h \<mapsto> e)" and ?br = "br(h := b)"
  have old: "x \<noteq> h" "past ?D x = past D x" if "x \<in> dom D" for x using that h past_grow [OF v h] by auto
  have fill: "\<exists>z \<in> dom ?D. ?br z = ?br x \<and> seq_of ?D z = s"
    if x: "x \<in> dom ?D" and y: "y \<in> dom ?D" and b: "?br x = ?br y" and s: "seq_of ?D x \<le> s" "s \<le> seq_of ?D y" for x y s
  proof (cases "y = h")
    case y: True
    show ?thesis
    proof (cases "s = eSeq e")
      case True
      with b y show ?thesis by (intro bexI [of _ h]) auto
    next
      case False
      with s y have "s < eSeq e" by simp
      with s have "x \<noteq> h" by auto
      with x b y obtain z where z: "x \<in> dom D" "br x = b" "z \<in> dom D" "br z = b" "seq_of D z + 1 = eSeq e"
        using ext by (auto simp: extends_def)
      then have "s \<le> seq_of D z" using less_plus_one [of "seq_of D z" s] nz \<open>s < eSeq e\<close> by simp
      with chain z s \<open>x \<noteq> h\<close> obtain w where "w \<in> dom D" "br w = br x" "seq_of D w = s"
        unfolding chain_inv_def by (metis at_old(1))
      with \<open>x \<noteq> h\<close> h show ?thesis by (intro bexI [of _ w]) auto
    qed
  next
    case y: False
    have "x \<noteq> h"
    proof
      assume "x = h"
      with y b that(2) have "seq_of D y < eSeq e" using ext by (auto simp: extends_def)
      with s y \<open>x = h\<close> show False by simp
    qed
    with x y b that(2) s obtain w where "w \<in> dom D" "br w = br x" "seq_of D w = s"
      using chain unfolding chain_inv_def by (simp add: dom_def) (metis (mono_tags, lifting))
    with \<open>x \<noteq> h\<close> h show ?thesis by (intro bexI [of _ w]) auto
  qed
  have order: "(seq_of ?D x \<le> seq_of ?D y \<longrightarrow> x \<in> past ?D y) \<and> (seq_of ?D x = seq_of ?D y \<longrightarrow> x = y)"
    if x: "x \<in> dom ?D" and y: "y \<in> dom ?D" and b: "?br x = ?br y" for x y
  proof -
    consider "x = h" "y = h" | "x \<in> dom D" "y = h" | "x = h" "y \<in> dom D" | "x \<in> dom D" "y \<in> dom D" using x y by auto
    then show ?thesis
    proof cases
      case 4
      with old b chain show ?thesis unfolding chain_inv_def by (metis (no_types, lifting) at_old(1) fun_upd_apply)
    qed (use old b ext in \<open>auto simp: extends_def\<close>)
  qed
  from fill order show ?thesis unfolding chain_inv_def by blast
qed

lemma branch_invD:
  assumes "branch_inv vv D br bi" "x \<in> dom D"
  shows "br x < length (BranchIDCreatorIdxs bi)" "BranchIDCreatorIdxs bi ! br x = creator_of vv D x"
    "seq_of D x \<le> BranchIDLastSeq bi ! br x"
  using assms by (auto simp: branch_inv_def)

lemma branch_last:
  "branch_inv vv D br bi \<Longrightarrow> i < length (BranchIDCreatorIdxs bi) \<Longrightarrow> BranchIDLastSeq bi ! i \<noteq> 0 \<Longrightarrow>
   \<exists>x \<in> dom D. br x = i \<and> seq_of D x = BranchIDLastSeq bi ! i"
  by (simp add: branch_inv_def)

definition fits :: "Validators \<Rightarrow> branchesInfo \<Rightarrow> branchesInfo \<Rightarrow> Validator \<Rightarrow> bool" where
  "fits vv bi bi' b \<longleftrightarrow> max (length (BranchIDCreatorIdxs bi)) (Suc b) = length (BranchIDCreatorIdxs bi') \<and>
     (\<forall>i < length (BranchIDCreatorIdxs bi). BranchIDCreatorIdxs bi' ! i = BranchIDCreatorIdxs bi ! i)"

lemma branch_grow_same:
  assumes lay: "layout_inv vv bi" and inv: "branch_inv vv D br bi" and v: "valid_dag vv D" and h: "h \<notin> dom D"
    and b: "b < length (BranchIDCreatorIdxs bi)" "BranchIDCreatorIdxs bi ! b = GetIdx vv (eCreator e)"
    and top: "\<forall>x \<in> dom D. br x = b \<longrightarrow> seq_of D x < eSeq e"
  shows "layout_inv vv (bi\<lparr>BranchIDLastSeq := (BranchIDLastSeq bi)[b := eSeq e]\<rparr>) \<and>
    branch_inv vv (D(h \<mapsto> e)) (br(h := b)) (bi\<lparr>BranchIDLastSeq := (BranchIDLastSeq bi)[b := eSeq e]\<rparr>)"
proof -
  let ?D = "D(h \<mapsto> e)" and ?br = "br(h := b)" and ?bi = "bi\<lparr>BranchIDLastSeq := (BranchIDLastSeq bi)[b := eSeq e]\<rparr>"
  have len: "b < length (BranchIDLastSeq bi)" using b layout_invD(1) [OF lay] by simp
  have "\<exists>x \<in> dom ?D. ?br x = i \<and> seq_of ?D x = BranchIDLastSeq ?bi ! i"
    if "i < length (BranchIDCreatorIdxs ?bi)" "BranchIDLastSeq ?bi ! i \<noteq> 0" for i
  proof (cases "i = b")
    case True
    with len show ?thesis by (intro bexI [of _ h]) auto
  next
    case False
    with that branch_last [OF inv, of i] obtain x where "x \<in> dom D" "br x = i" "seq_of D x = BranchIDLastSeq bi ! i" by auto
    with False h show ?thesis by (intro bexI [of _ x]) auto
  qed
  moreover have "?br x < length (BranchIDCreatorIdxs ?bi) \<and> BranchIDCreatorIdxs ?bi ! ?br x = creator_of vv ?D x \<and>
      seq_of ?D x \<le> BranchIDLastSeq ?bi ! ?br x" if "x \<in> dom ?D" for x
    using that b top len branch_invD [OF inv, of x] by (cases "x = h"; cases "br x = b") auto
  moreover have "length (BranchIDCreatorIdxs bi) \<le> Validators_Len vv + card (dom ?D)"
    using inv v h by (simp add: branch_inv_def)
  ultimately have "branch_inv vv ?D ?br ?bi" by (simp add: branch_inv_def)
  with lay show ?thesis by (simp add: layout_inv_def)
qed

lemma newBranch_inv:
  assumes lay: "layout_inv vv bi" and inv: "branch_inv vv D br bi" and v: "valid_dag vv D" and h: "h \<notin> dom D"
    and me: "GetIdx vv (eCreator e) < Validators_Len vv"
  shows "\<exists>bi'. newBranch bi e (GetIdx vv (eCreator e)) = Some (bi', length (BranchIDCreatorIdxs bi)) \<and>
    layout_inv vv bi' \<and> branch_inv vv (D(h \<mapsto> e)) (br(h := length (BranchIDCreatorIdxs bi))) bi' \<and>
    fits vv bi bi' (length (BranchIDCreatorIdxs bi)) \<and> extends D br h e (length (BranchIDCreatorIdxs bi))"
proof -
  let ?me = "GetIdx vv (eCreator e)" and ?n = "length (BranchIDCreatorIdxs bi)"
  let ?bi = "\<lparr>BranchIDLastSeq = BranchIDLastSeq bi @ [eSeq e], BranchIDCreatorIdxs = BranchIDCreatorIdxs bi @ [?me],
     BranchIDByCreators = (BranchIDByCreators bi)[?me := BranchIDByCreators bi ! ?me @ [?n]]\<rparr>"
  let ?D = "D(h \<mapsto> e)" and ?br = "br(h := ?n)"
  have len: "length (BranchIDLastSeq bi) = ?n" "length (BranchIDByCreators bi) = Validators_Len vv" "Validators_Len vv \<le> ?n"
    using layout_invD [OF lay] by auto
  then have "newBranch bi e ?me = Some (?bi, ?n)" using me by (simp add: newBranch_def Let_def)
  moreover have "layout_inv vv ?bi"
    using lay me unfolding layout_inv_def by (auto simp: nth_append nth_list_update)
  moreover have "fits vv bi ?bi ?n" by (auto simp: fits_def nth_append)
  moreover have "extends D br h e ?n" using branch_invD(1) [OF inv] by (fastforce simp: extends_def)
  moreover have "branch_inv vv ?D ?br ?bi"
  proof -
    have "\<exists>x \<in> dom ?D. ?br x = i \<and> seq_of ?D x = BranchIDLastSeq ?bi ! i"
      if "i < length (BranchIDCreatorIdxs ?bi)" "BranchIDLastSeq ?bi ! i \<noteq> 0" for i
    proof (cases "i = ?n")
      case True
      with len show ?thesis by (intro bexI [of _ h]) (auto simp: nth_append)
    next
      case False
      with that len branch_last [OF inv, of i] obtain x where "x \<in> dom D" "br x = i" "seq_of D x = BranchIDLastSeq bi ! i"
        by (auto simp: nth_append split: if_splits)
      with False that len h show ?thesis by (intro bexI [of _ x]) (auto simp: nth_append)
    qed
    moreover have "?br x < length (BranchIDCreatorIdxs ?bi) \<and> BranchIDCreatorIdxs ?bi ! ?br x = creator_of vv ?D x \<and>
        seq_of ?D x \<le> BranchIDLastSeq ?bi ! ?br x" if "x \<in> dom ?D" for x
      using that len branch_invD [OF inv, of x] by (cases "x = h") (auto simp: nth_append)
    moreover have "length (BranchIDCreatorIdxs ?bi) \<le> Validators_Len vv + card (dom ?D)"
      using inv v h by (simp add: branch_inv_def)
    ultimately show ?thesis by (simp add: branch_inv_def)
  qed
  ultimately show ?thesis by blast
qed

lemma fillGlobalBranchID_inv:
  assumes vv: "valid_group vv" "vi_validators vi = vv" and lay: "layout_inv vv bi" and inv: "branch_inv vv D br bi"
    and chain: "chain_inv D br" and v: "valid_dag vv D" and h: "h \<notin> dom D" and e: "valid_event vv D e"
    and known: "\<forall>x \<in> dom D. getEventBranchID vi x = Some (br x)"
  shows "\<exists>bi' b. fillGlobalBranchID vi bi e (GetIdx vv (eCreator e)) = Some (bi', b) \<and> layout_inv vv bi' \<and>
    branch_inv vv (D(h \<mapsto> e)) (br(h := b)) bi' \<and> fits vv bi bi' b \<and> chain_inv (D(h \<mapsto> e)) (br(h := b)) \<and> extends D br h e b"
proof -
  let ?me = "GetIdx vv (eCreator e)" and ?D = "D(h \<mapsto> e)"
  have nz: "eSeq e \<noteq> 0" and me: "?me < Validators_Len vv" using e vv GetIdx_Exists by (auto simp: valid_event_def)
  have own: "BranchIDCreatorIdxs bi ! ?me = ?me" "?me < length (BranchIDCreatorIdxs bi)"
    using layout_invD(2,4) [OF lay] me by auto
  have same: "layout_inv vv (bi\<lparr>BranchIDLastSeq := (BranchIDLastSeq bi)[b := eSeq e]\<rparr>) \<and>
      branch_inv vv ?D (br(h := b)) (bi\<lparr>BranchIDLastSeq := (BranchIDLastSeq bi)[b := eSeq e]\<rparr>) \<and>
      fits vv bi (bi\<lparr>BranchIDLastSeq := (BranchIDLastSeq bi)[b := eSeq e]\<rparr>) b"
    if "b < length (BranchIDCreatorIdxs bi)" "BranchIDCreatorIdxs bi ! b = ?me" "extends D br h e b" for b
    using branch_grow_same [OF lay inv v h that(1,2)] that by (auto simp: extends_def fits_def)
  note new = newBranch_inv [OF lay inv v h me]
  have "\<exists>bi' b. fillGlobalBranchID vi bi e ?me = Some (bi', b) \<and> layout_inv vv bi' \<and>
    branch_inv vv ?D (br(h := b)) bi' \<and> fits vv bi bi' b \<and> extends D br h e b"
  proof (cases "SelfParent e")
    case None
    show ?thesis
    proof (cases "BranchIDLastSeq bi ! ?me = 0")
      case True
      have "extends D br h e ?me"
        using branch_invD(3) [OF inv] True seq_nonzero [OF v] by (fastforce simp: extends_def)
      with same [of ?me] own True None layout_invD [OF lay] vv show ?thesis by (simp add: fillGlobalBranchID_def)
    next
      case False
      with new None own layout_invD [OF lay] vv show ?thesis by (auto simp: fillGlobalBranchID_def)
    qed
  next
    case (Some p)
    then have p: "p \<in> set (eParents e)" "p \<in> dom D" "creator_of vv D p = ?me" "eSeq e = seq_of D p + 1"
      using e SelfParent_in [OF Some] by (auto simp: valid_event_def creator_of_def seq_of_def)
    note bp = branch_invD [OF inv p(2)]
    show ?thesis
    proof (cases "BranchIDLastSeq bi ! br p + 1 = eSeq e")
      case True
      then have last: "BranchIDLastSeq bi ! br p = seq_of D p" using p(4) by simp
      have "x \<in> past ?D h \<and> seq_of D x < eSeq e" if "x \<in> dom D" "br x = br p" for x
      proof -
        have "seq_of D x \<le> seq_of D p" using branch_invD(3) [OF inv that(1)] that(2) last by simp
        moreover from this have "x \<in> past D p" using chain that p(2) by (auto simp: chain_inv_def)
        ultimately show ?thesis using past_new [OF v h e] p nz less_plus_one [of "seq_of D p"] by auto
      qed
      then have "extends D br h e (br p)" using p(2,4) unfolding extends_def by (metis)
      with same [of "br p"] bp p True Some known layout_invD [OF lay] vv show ?thesis by (auto simp: fillGlobalBranchID_def)
    next
      case False
      with new bp p Some known layout_invD [OF lay] vv show ?thesis by (auto simp: fillGlobalBranchID_def)
    qed
  qed
  with chain_inv_grow [OF v h chain _ nz] show ?thesis by blast
qed

subsection \<open>The walk returns and visits the past\<close>

definition la_cell :: "(hash_event \<rightharpoonup> LowestAfterSeq) \<Rightarrow> hash_event \<Rightarrow> Validator \<Rightarrow> EventSeq" where
  "la_cell la x b = LowestAfterSeq_Get (case la x of Some v \<Rightarrow> v | None \<Rightarrow> []) b"

definition la_table :: "dag \<Rightarrow> (hash_event \<rightharpoonup> LowestAfterSeq) \<Rightarrow> bool" where
  "la_table D la \<longleftrightarrow> (\<forall>x. x \<notin> dom D \<longrightarrow> la x = None) \<and> (\<forall>x \<in> dom D. \<exists>v. la x = Some v \<and> wf_la v)"

lemma after_inv_cells: "after_inv D br la \<longleftrightarrow> la_table D la \<and> (\<forall>x \<in> dom D. \<forall>b. la_cell la x b = lowest D br b x)"
proof
  assume a: "after_inv D br la"
  have row: "\<exists>v. la x = Some v \<and> wf_la v \<and> (\<forall>b. LowestAfterSeq_Get v b = lowest D br b x)" if "x \<in> dom D" for x
    using a that by (simp add: after_inv_def)
  have "la_table D la"
    unfolding la_table_def using a row by (auto simp: after_inv_def simp del: not_None_eq) (metis domI)
  moreover have "la_cell la x b = lowest D br b x" if "x \<in> dom D" for x b
    using row [OF that] by (auto simp: la_cell_def)
  ultimately show "la_table D la \<and> (\<forall>x \<in> dom D. \<forall>b. la_cell la x b = lowest D br b x)" by blast
next
  assume r: "la_table D la \<and> (\<forall>x \<in> dom D. \<forall>b. la_cell la x b = lowest D br b x)"
  show "after_inv D br la"
    unfolding after_inv_def
  proof (intro conjI ballI)
    fix x assume x: "x \<in> dom D"
    with r have "\<exists>v. la x = Some v \<and> wf_la v" unfolding la_table_def by blast
    then obtain v where "la x = Some v" "wf_la v" by blast
    moreover have "\<forall>b. la_cell la x b = lowest D br b x" using r x by blast
    ultimately show "\<exists>v. la x = Some v \<and> wf_la v \<and> (\<forall>b. LowestAfterSeq_Get v b = lowest D br b x)"
      by (simp add: la_cell_def)
  qed (use r in \<open>simp add: la_table_def\<close>)
qed

lemma onWalk_eq:
  assumes "la_table D la" "c \<in> dom D"
  shows "la_cell la c me \<noteq> 0 \<Longrightarrow> onWalk me s la c = (False, la)"
    "la_cell la c me = 0 \<Longrightarrow> \<exists>la'. onWalk me s la c = (True, la') \<and> la_table D la' \<and>
       (\<forall>x b. la_cell la' x b = (if x = c \<and> b = me then s else la_cell la x b))"
proof -
  obtain v where "la c = Some v" "wf_la v" using assms by (auto simp: la_table_def)
  with assms show "la_cell la c me \<noteq> 0 \<Longrightarrow> onWalk me s la c = (False, la)"
    "la_cell la c me = 0 \<Longrightarrow> \<exists>la'. onWalk me s la c = (True, la') \<and> la_table D la' \<and>
       (\<forall>x b. la_cell la' x b = (if x = c \<and> b = me then s else la_cell la x b))"
    by (auto simp: onWalk_def Let_def la_cell_def la_table_def vec_simps)
qed

lemma leave_set:
  assumes "(c, x) \<in> (edge D)\<^sup>*" "c \<in> V" "x \<notin> V" "\<And>u w. u \<in> V \<Longrightarrow> (u, w) \<in> edge D \<Longrightarrow> w \<in> V \<union> S"
  shows "\<exists>w \<in> S. w \<notin> V \<and> x \<in> past D w"
  using assms(1-3)
proof (induction rule: converse_rtrancl_induct)
  case (step y z)
  then show ?case using assms(4) [of y z] by (auto simp: past_def)
qed simp

abbreviation reach :: "dag \<Rightarrow> hash_event list \<Rightarrow> hash_event set" where
  "reach D stack \<equiv> \<Union> (past D ` set stack)"

text \<open>Events visited for branch \<open>me\<close> before or now have their parents visited or on the stack.\<close>

definition walk_inv :: "dag \<Rightarrow> Validator \<Rightarrow> (hash_event \<rightharpoonup> LowestAfterSeq) \<Rightarrow> hash_event list \<Rightarrow> bool" where
  "walk_inv D me la stack \<longleftrightarrow> la_table D la \<and> set stack \<subseteq> dom D \<and>
     (\<forall>x e. D x = Some e \<longrightarrow> la_cell la x me \<noteq> 0 \<longrightarrow> (\<forall>p \<in> set (eParents e). la_cell la p me \<noteq> 0 \<or> p \<in> set stack))"

definition walk_result :: "dag \<Rightarrow> Validator \<Rightarrow> EventSeq \<Rightarrow> hash_event set \<Rightarrow>
    (hash_event \<rightharpoonup> LowestAfterSeq) \<Rightarrow> (hash_event \<rightharpoonup> LowestAfterSeq) \<Rightarrow> bool" where
  "walk_result D me s R la la' \<longleftrightarrow> la_table D la' \<and>
     (\<forall>x b. la_cell la' x b = (if b = me \<and> la_cell la x me = 0 \<and> x \<in> R then s else la_cell la x b))"

lemma set_last_butlast: "xs \<noteq> [] \<Longrightarrow> set xs = insert (last xs) (set (butlast xs))"
  by (metis append_butlast_last_id list.simps(15) rotate1.simps(2) set_rotate1 Un_insert_right append_Nil2 set_append list.set(1))

lemma dfsLoop_walks:
  assumes v: "valid_dag vv D" and ev: "D \<subseteq>\<^sub>m getEvent" and s: "s \<noteq> 0"
  shows "walk_inv D me la stack \<Longrightarrow> \<exists>la'. dfsLoop getEvent me s la stack = Some la' \<and> walk_result D me s (reach D stack) la la'"
proof (induction "(card {x \<in> dom D. la_cell la x me = 0}, length stack)" arbitrary: la stack
    rule: wf_induct_rule [OF wf_lex_prod [OF wf_less_than wf_less_than]])
  case (1 la stack)
  note inv = 1(2) [unfolded walk_inv_def]
  show ?case
  proof (cases "stack = []")
    case True
    then show ?thesis using inv by (auto simp: dfsLoop.simps walk_result_def)
  next
    case False
    let ?c = "last stack"
    have stk: "set stack = insert ?c (set (butlast stack))" using set_last_butlast [OF False] .
    then obtain ec where c: "D ?c = Some ec" "?c \<in> dom D" using inv by auto
    then have get: "getEvent ?c = Some ec" using ev by (auto simp: map_le_def)
    show ?thesis
    proof (cases "la_cell la ?c me = 0")
      case False
      have inv1: "walk_inv D me la (butlast stack)" using inv False stk unfolding walk_inv_def by (metis insert_iff insert_subset)
      have "length (butlast stack) < length stack" using \<open>stack \<noteq> []\<close> by simp
      with 1(1) [OF _ inv1] obtain la' where la': "dfsLoop getEvent me s la (butlast stack) = Some la'"
        "walk_result D me s (reach D (butlast stack)) la la'" by auto
      have "x \<in> reach D (butlast stack)" if x: "x \<in> past D ?c" "la_cell la x me = 0" for x
      proof -
        have "w \<in> {y. la_cell la y me \<noteq> 0} \<union> set (butlast stack)" if "u \<in> {y. la_cell la y me \<noteq> 0}" "(u, w) \<in> edge D" for u w
          using that inv1 by (auto simp: walk_inv_def edge_def)
        then show ?thesis
          using leave_set [of ?c x D "{y. la_cell la y me \<noteq> 0}" "set (butlast stack)"] x False by (auto simp: past_def)
      qed
      then have "la_cell la x me = 0 \<and> x \<in> reach D stack \<longleftrightarrow> la_cell la x me = 0 \<and> x \<in> reach D (butlast stack)" for x
        unfolding stk by blast
      then have "walk_result D me s (reach D stack) la la'" using la'(2) unfolding walk_result_def by metis
      with la'(1) \<open>stack \<noteq> []\<close> onWalk_eq(1) [of D la ?c me s] inv c False show ?thesis by (simp add: dfsLoop.simps [of _ _ _ _ stack])
    next
      case True
      from onWalk_eq(2) [of D la ?c me s] inv c True obtain la1 where w: "onWalk me s la ?c = (True, la1)" "la_table D la1"
        "\<And>x b. la_cell la1 x b = (if x = ?c \<and> b = me then s else la_cell la x b)" by auto
      have "la_cell la1 p me \<noteq> 0 \<or> p \<in> set (butlast stack @ eParents ec)"
        if "D x = Some e" "la_cell la1 x me \<noteq> 0" "p \<in> set (eParents e)" for x e p
      proof (cases "x = ?c")
        case False
        with that have "la_cell la p me \<noteq> 0 \<or> p \<in> set stack" using inv by (simp add: w(3))
        then show ?thesis using stk s by (auto simp: w(3))
      qed (use that c in auto)
      then have inv1: "walk_inv D me la1 (butlast stack @ eParents ec)"
        using inv w(2) stk valid_dagD(3) [OF v c(1)] unfolding walk_inv_def by auto
      have "{x \<in> dom D. la_cell la1 x me = 0} \<subset> {x \<in> dom D. la_cell la x me = 0}" using c True s by (auto simp: w(3))
      then have "card {x \<in> dom D. la_cell la1 x me = 0} < card {x \<in> dom D. la_cell la x me = 0}"
        by (intro psubset_card_mono) (use v in auto)
      with 1(1) [OF _ inv1] obtain la' where la': "dfsLoop getEvent me s la1 (butlast stack @ eParents ec) = Some la'"
        "walk_result D me s (reach D (butlast stack @ eParents ec)) la1 la'" by auto
      have "reach D stack = insert ?c (reach D (butlast stack @ eParents ec))"
        using stk past_unfold [of D ?c ec] c by auto
      then have "walk_result D me s (reach D stack) la la'" using la'(2) True s by (auto simp: walk_result_def w(3))
      with la'(1) \<open>stack \<noteq> []\<close> w(1) get show ?thesis by (simp add: dfsLoop.simps [of _ _ _ _ stack])
    qed
  qed
qed

subsection \<open>The tables after an event is added\<close>

lemma finite_observers: "valid_dag vv D \<Longrightarrow> finite (observers D br b x)"
  by (rule finite_subset [of _ "dom D"]) (auto simp: observers_def)

lemma lowest_zero: "valid_dag vv D \<Longrightarrow> lowest D br b x = 0 \<longleftrightarrow> observers D br b x = {}"
proof (cases "observers D br b x = {}")
  case False
  assume v: "valid_dag vv D"
  obtain y where "y \<in> observers D br b x" "seq_of D y = Min (seq_of D ` observers D br b x)"
    using bottom_event [OF finite_observers [OF v] False] by blast
  then show ?thesis using seq_nonzero [OF v, of y] False by (simp add: lowest_def observers_def)
qed (simp add: lowest_def)

lemma observers_grow:
  assumes "valid_dag vv D" "h \<notin> dom D" "x \<noteq> h"
  shows "observers (D(h \<mapsto> e)) (br(h := b)) i x =
     observers D br i x \<union> (if i = b \<and> x \<in> past (D(h \<mapsto> e)) h then {h} else {})"
  using assms past_grow [OF assms(1,2)] by (auto simp: observers_def split: if_splits)

lemma lowest_grow:
  assumes v: "valid_dag vv D" and h: "h \<notin> dom D" and e: "valid_event vv D e" and ext: "extends D br h e b" and x: "x \<in> dom D"
  shows "lowest (D(h \<mapsto> e)) (br(h := b)) i x =
     (if i = b \<and> lowest D br b x = 0 \<and> x \<in> reach D (eParents e) then eSeq e else lowest D br i x)"
proof -
  let ?O = "observers D br i x"
  have xh: "x \<noteq> h" using x h by auto
  have seqs: "seq_of (D(h \<mapsto> e)) ` ?O = seq_of D ` ?O"
    using h by (intro image_cong refl at_old(1)) (auto simp: observers_def)
  have past: "x \<in> past (D(h \<mapsto> e)) h \<longleftrightarrow> x \<in> reach D (eParents e)" using past_new [OF v h e] xh by auto
  show ?thesis
  proof (cases "i = b \<and> x \<in> reach D (eParents e)")
    case True
    have "Min (insert (eSeq e) (seq_of D ` ?O)) = Min (seq_of D ` ?O)" if ne: "?O \<noteq> {}"
    proof -
      obtain y where y: "y \<in> ?O" "seq_of D y = Min (seq_of D ` ?O)" using bottom_event [OF finite_observers [OF v] ne] by blast
      then have "seq_of D y < eSeq e" using ext True by (auto simp: extends_def observers_def)
      with y(2) ne finite_observers [OF v, of br i x] show ?thesis by (subst Min_insert) (auto simp del: Min_le_iff Min_less_iff)
    qed
    moreover have "lowest D br b x = 0 \<longleftrightarrow> ?O = {}" using lowest_zero [OF v] True by simp
    ultimately show ?thesis
      using True seqs past by (simp add: lowest_def observers_grow [OF v h xh])
  next
    case False
    then show ?thesis using seqs past by (auto simp: lowest_def observers_grow [OF v h xh])
  qed
qed

lemma lowest_new:
  assumes v: "valid_dag vv D" and h: "h \<notin> dom D"
  shows "lowest (D(h \<mapsto> e)) (br(h := b)) i h = (if i = b then eSeq e else 0)"
proof -
  have "h \<notin> past D y" if "y \<in> dom D" for y using past_closed [OF v that] h by auto
  then have "observers (D(h \<mapsto> e)) (br(h := b)) i h = (if i = b then {h} else {})"
    using h past_grow [OF v h] by (auto simp: observers_def split: if_splits)
  then show ?thesis by (cases "i = b") (simp_all add: lowest_def)
qed

lemma walk_inv_start:
  assumes v: "valid_dag vv D" and after: "after_inv D br la" and e: "valid_event vv D e"
  shows "walk_inv D b la (eParents e)"
proof -
  note cells = after [unfolded after_inv_cells]
  have "la_cell la p b \<noteq> 0" if x: "D x = Some ex" "la_cell la x b \<noteq> 0" and p: "p \<in> set (eParents ex)" for x ex p
  proof -
    have "p \<in> dom D" using valid_dagD(3) [OF v x(1)] p by blast
    have "lowest D br b x \<noteq> 0" using x cells by (metis domI)
    then obtain y where "y \<in> observers D br b x" using lowest_zero [OF v] by blast
    then have "y \<in> observers D br b p" using past_parent [of D x ex p] x p past_trans by (auto simp: observers_def)
    then show ?thesis using lowest_zero [OF v, of br b p] cells \<open>p \<in> dom D\<close> by auto
  qed
  then show ?thesis using cells e by (auto simp: walk_inv_def valid_event_def)
qed

lemma after_inv_grow:
  assumes v: "valid_dag vv D" and h: "h \<notin> dom D" and e: "valid_event vv D e" and ext: "extends D br h e b"
    and after: "after_inv D br la" and ev: "D \<subseteq>\<^sub>m getEvent"
    and vec: "wf_la vec" "\<forall>i. LowestAfterSeq_Get vec i = (if i = b then eSeq e else 0)"
  shows "\<exists>la'. dfsSubgraph getEvent b e la = Some la' \<and> after_inv (D(h \<mapsto> e)) (br(h := b)) (la'(h \<mapsto> vec))"
proof -
  have nz: "eSeq e \<noteq> 0" using e by (simp add: valid_event_def)
  from dfsLoop_walks [OF v ev nz walk_inv_start [OF v after e, of b]] obtain la' where
    la': "dfsSubgraph getEvent b e la = Some la'" "walk_result D b (eSeq e) (reach D (eParents e)) la la'"
    by (auto simp: dfsSubgraph_def)
  have "la_table (D(h \<mapsto> e)) (la'(h \<mapsto> vec))" using la'(2) vec(1) by (auto simp: walk_result_def la_table_def)
  moreover have "la_cell (la'(h \<mapsto> vec)) x i = lowest (D(h \<mapsto> e)) (br(h := b)) i x" if "x \<in> dom (D(h \<mapsto> e))" for x i
  proof (cases "x = h")
    case True
    then show ?thesis using vec lowest_new [OF v h, of e br b i] by (simp add: la_cell_def)
  next
    case False
    with that have x: "x \<in> dom D" by auto
    have old: "la_cell la x j = lowest D br j x" for j using after [unfolded after_inv_cells] x by blast
    have "la_cell (la'(h \<mapsto> vec)) x i = la_cell la' x i" using False by (simp add: la_cell_def)
    also have "\<dots> = (if i = b \<and> la_cell la x b = 0 \<and> x \<in> reach D (eParents e) then eSeq e else la_cell la x i)"
      using la'(2) unfolding walk_result_def by blast
    finally show ?thesis unfolding old lowest_grow [OF v h e ext x, of i] .
  qed
  ultimately show ?thesis using la'(1) after_inv_cells by blast
qed

lemma clocks_grow:
  assumes clk: "clocks D br bi n A F s t" and h: "h \<notin> A" and fit: "fits vv bi bi' b" and n: "n \<le> length (BranchIDCreatorIdxs bi)"
  shows "clocks (D(h \<mapsto> e)) (br(h := b)) bi' n A F s t"
proof -
  have br: "on_branch (br(h := b)) i A = on_branch br i A" for i using h by (auto simp: on_branch_def)
  have sq: "seq_of (D(h \<mapsto> e)) ` on_branch br i A = seq_of D ` on_branch br i A" for i
    using h by (intro image_cong refl at_old(1)) (auto simp: on_branch_def)
  have sm: "summ (D(h \<mapsto> e)) (on_branch br i A) = summ D (on_branch br i A)" for i by (simp add: summ_def sq)
  have at: "seq_of (D(h \<mapsto> e)) y = seq_of D y" "the ((D(h \<mapsto> e)) y) = the (D y)" if "y \<in> on_branch br i A" for y i
  proof -
    have "y \<noteq> h" using that h by (auto simp: on_branch_def)
    then show "seq_of (D(h \<mapsto> e)) y = seq_of D y" "the ((D(h \<mapsto> e)) y) = the (D y)" by simp_all
  qed
  have cr: "BranchIDCreatorIdxs bi' ! i = BranchIDCreatorIdxs bi ! i" if "i < n" for i
    using fit n that by (simp add: fits_def)
  show ?thesis
    using clk unfolding clocks_def br sm sq by (simp add: cr at del: fun_upd_apply cong: bex_cong conj_cong)
qed

lemma before_inv_row:
  assumes "before_inv vv D br bi t" "x \<in> dom D"
  obtains hbs hbt n where "tHighestBeforeSeq t x = Some hbs" "tHighestBeforeTime t x = Some hbt"
    "clocks D br bi n (past D x) {c. forked vv D (past D x) c} hbs hbt" "Validators_Len vv \<le> n"
    "n \<le> length (BranchIDCreatorIdxs bi)" "\<forall>y \<in> past D x. br y < n"
  using assms unfolding before_inv_def by blast

lemma before_row_grow:
  assumes v: "valid_dag vv D" and h: "h \<notin> dom D" and fit: "fits vv bi bi' b"
    and inv: "before_inv vv D br bi t" and x: "x \<in> dom D"
  shows "\<exists>hbs hbt n. tHighestBeforeSeq t x = Some hbs \<and> tHighestBeforeTime t x = Some hbt \<and>
     clocks (D(h \<mapsto> e)) (br(h := b)) bi' n (past (D(h \<mapsto> e)) x) {c. forked vv (D(h \<mapsto> e)) (past (D(h \<mapsto> e)) x) c} hbs hbt \<and>
     Validators_Len vv \<le> n \<and> n \<le> length (BranchIDCreatorIdxs bi') \<and> (\<forall>y \<in> past (D(h \<mapsto> e)) x. (br(h := b)) y < n)"
proof -
  have hx: "h \<notin> past D x" using past_closed [OF v x] h by auto
  obtain hbs hbt n where r: "tHighestBeforeSeq t x = Some hbs" "tHighestBeforeTime t x = Some hbt"
    "clocks D br bi n (past D x) {c. forked vv D (past D x) c} hbs hbt" "Validators_Len vv \<le> n"
    "n \<le> length (BranchIDCreatorIdxs bi)" "\<forall>y \<in> past D x. br y < n" using before_inv_row [OF inv x] .
  moreover have "n \<le> length (BranchIDCreatorIdxs bi')" using r(5) fit unfolding fits_def by (metis max.coboundedI1)
  moreover have "\<forall>y \<in> past D x. (br(h := b)) y < n" using r(6) hx by auto
  ultimately show ?thesis
    unfolding past_grow [OF v h x] forked_grow [OF hx] using clocks_grow [OF r(3) hx fit r(5), of e] by blast
qed

lemma before_inv_grow:
  assumes v: "valid_dag vv D" and h: "h \<notin> dom D" and fit: "fits vv bi bi' b" and inv: "before_inv vv D br bi t"
    and t': "tHighestBeforeSeq t' = (tHighestBeforeSeq t)(h \<mapsto> s)" "tHighestBeforeTime t' = (tHighestBeforeTime t)(h \<mapsto> u)"
    and clk: "clocks (D(h \<mapsto> e)) (br(h := b)) bi' (length (BranchIDCreatorIdxs bi')) (past (D(h \<mapsto> e)) h)
       {c. forked vv (D(h \<mapsto> e)) (past (D(h \<mapsto> e)) h) c} s u"
    and n: "Validators_Len vv \<le> length (BranchIDCreatorIdxs bi')"
    and brs: "\<forall>y \<in> past (D(h \<mapsto> e)) h. (br(h := b)) y < length (BranchIDCreatorIdxs bi')"
  shows "before_inv vv (D(h \<mapsto> e)) (br(h := b)) bi' t'"
  unfolding before_inv_def
proof (intro conjI allI impI ballI)
  fix x assume "x \<notin> dom (D(h \<mapsto> e))"
  then show "tHighestBeforeSeq t' x = None" using inv unfolding t' before_inv_def by simp
next
  fix x assume x: "x \<in> dom (D(h \<mapsto> e))"
  show "\<exists>hbs hbt n. tHighestBeforeSeq t' x = Some hbs \<and> tHighestBeforeTime t' x = Some hbt \<and>
     clocks (D(h \<mapsto> e)) (br(h := b)) bi' n (past (D(h \<mapsto> e)) x) {c. forked vv (D(h \<mapsto> e)) (past (D(h \<mapsto> e)) x) c} hbs hbt \<and>
     Validators_Len vv \<le> n \<and> n \<le> length (BranchIDCreatorIdxs bi') \<and> (\<forall>y \<in> past (D(h \<mapsto> e)) x. (br(h := b)) y < n)"
  proof (cases "x = h")
    case True
    with clk n brs show ?thesis unfolding t' by (metis fun_upd_same order_refl)
  next
    case False
    with x before_row_grow [OF v h fit inv, of x e] show ?thesis unfolding t' by simp
  qed
qed

lemma observed_past:
  assumes "valid_dag vv D" "chain_inv D br" "branch_inv vv D br bi" "x \<in> dom D"
  shows "observed vv D br bi (past D x)"
proof -
  have sub: "past D x \<subseteq> dom D" using past_closed assms(1,4) .
  have "past D y \<subseteq> past D x" if "y \<in> past D x" for y using that past_trans by blast
  with sub assms(2) finite_past [OF assms(1,4)] branch_invD [OF assms(3)] seq_nonzero [OF assms(1)] show ?thesis
    unfolding observed_def by (meson subsetD)
qed

lemma forked_bound:
  "valid_group vv \<Longrightarrow> valid_dag vv D \<Longrightarrow> A \<subseteq> dom D \<Longrightarrow> forked vv D A c \<Longrightarrow> c < Validators_Len vv"
  using creator_bound unfolding forked_def by (metis subsetD)

lemma own_clocks:
  assumes "n = length (BranchIDCreatorIdxs bi')" "fits vv bi bi' b" "sz = length (BranchIDCreatorIdxs bi)"
  shows "clocks (D(h \<mapsto> e)) (br(h := b)) bi' n {h} {}
     (HighestBeforeSeq_Set (NewHighestBeforeSeq sz) b \<lparr>Seq = eSeq e, MinSeq = eSeq e\<rparr>)
     (HighestBeforeTime_Set (NewHighestBeforeTime sz) b (eClaimedTime e))"
proof -
  have "on_branch (br(h := b)) i {h} = (if i = b then {h} else {})" for i by (auto simp: on_branch_def)
  then show ?thesis using assms by (simp add: clocks_def fits_def vec_simps summ_def)
qed

lemma new_clocks:
  assumes vv: "valid_group vv" and v: "valid_dag vv D'" and x: "D' h = Some e" and lay: "layout_inv vv bi" and chain: "chain_inv D' br"
    and inv: "branch_inv vv D' br bi" and n: "n = length (BranchIDCreatorIdxs bi)"
    and own: "clocks D' br bi n {h} {} ms mt"
    and rows: "\<forall>p \<in> set (eParents e). \<exists>m. clocks D' br bi m (past D' p) {c. forked vv D' (past D' p) c} (fst (vec p)) (snd (vec p)) \<and>
       Validators_Len vv \<le> m \<and> m \<le> length (BranchIDCreatorIdxs bi) \<and> (\<forall>y \<in> past D' p. br y < m)"
  shows "\<exists>ms' mt' ms''. foldM (mergeParent vv bi) (ms, mt) (map vec (eParents e)) = Some (ms', mt') \<and>
    detectForks vv bi ms' = Some ms'' \<and> clocks D' br bi n (past D' h) {c. forked vv D' (past D' h) c} ms'' mt'"
proof -
  have par: "set (eParents e) \<subseteq> dom D'" using valid_dagD(3) [OF v x] .
  have hd: "h \<in> dom D'" using x by auto
  have "parent_clocks vv D' br bi (past D' p) {c. forked vv D' (past D' p) c} (fst (vec p)) (snd (vec p))" if "p \<in> set (eParents e)" for p
  proof -
    have pd: "p \<in> dom D'" using that par by blast
    note obs = observed_past [OF v chain inv pd]
    then have "{c. forked vv D' (past D' p) c} \<noteq> {} \<longrightarrow> atLeastOneFork vv bi" using no_branch_no_fork [OF obs lay] by blast
    with obs rows that forked_bound [OF vv v past_closed [OF v pd]] show ?thesis
      unfolding parent_clocks_def observed_def by (simp add: subset_iff)
  qed
  then obtain ms' mt' where m: "foldM (mergeParent vv bi) (ms, mt) (map vec (eParents e)) = Some (ms', mt')"
    "clocks D' br bi n ({h} \<union> \<Union> (past D' ` set (eParents e))) ({} \<union> \<Union> ((\<lambda>p. {c. forked vv D' (past D' p) c}) ` set (eParents e))) ms' mt'"
    using mergeParents_clocks [OF lay n _ own, of "eParents e" "past D'" "\<lambda>p. {c. forked vv D' (past D' p) c}" vec] seq_nonzero [OF v hd] by auto
  have A: "{h} \<union> \<Union> (past D' ` set (eParents e)) = past D' h" using past_unfold [of D' h e] x by simp
  have "forked vv D' (past D' h) c" if "p \<in> set (eParents e)" "forked vv D' (past D' p) c" for p c
  proof -
    have "past D' p \<subseteq> past D' h" using that(1) A by blast
    with that(2) show ?thesis by (rule forked_mono)
  qed
  then have "\<forall>c \<in> {} \<union> \<Union> ((\<lambda>p. {c. forked vv D' (past D' p) c}) ` set (eParents e)). forked vv D' (past D' h) c" by blast
  with detectForks_clocks [OF observed_past [OF v chain inv hd] lay n m(2) [unfolded A]] m(1)
    forked_bound [OF vv v past_closed [OF v hd]] show ?thesis by blast
qed

subsection \<open>\<open>Add\<close> keeps the invariant\<close>

lemma index_invD:
  assumes "index_inv vi D"
  shows "sane_group (vi_validators vi)" "valid_dag (vi_validators vi) D" "layout_inv (vi_validators vi) (the_bi vi)"
    "chain_inv D (br_of vi)" "branch_inv (vi_validators vi) D (br_of vi) (the_bi vi)"
    "x \<in> dom D \<Longrightarrow> getEventBranchID vi x = Some (br_of vi x)"
    "before_inv (vi_validators vi) D (br_of vi) (the_bi vi) (vi_table vi)" "after_inv D (br_of vi) (tLowestAfterSeq (vi_table vi))"
  using assms by (auto simp: index_inv_def Let_def br_of_def)

text \<open>The state \<open>fillEventVectors\<close> leaves, given what it computed.\<close>

definition filled :: "Index \<Rightarrow> branchesInfo \<Rightarrow> hash_event \<Rightarrow> Validator \<Rightarrow> HighestBeforeSeq \<Rightarrow> HighestBeforeTime \<Rightarrow>
    (hash_event \<rightharpoonup> LowestAfterSeq) \<Rightarrow> Index" where
  "filled vi bi h b s t la = vi\<lparr>vi_bi := Some bi, vi_table := (vi_table vi)\<lparr>
     tHighestBeforeSeq := (tHighestBeforeSeq (vi_table vi))(h \<mapsto> s), tHighestBeforeTime := (tHighestBeforeTime (vi_table vi))(h \<mapsto> t),
     tLowestAfterSeq := la, tEventBranch := (tEventBranch (vi_table vi))(h \<mapsto> Validator_Bytes b)\<rparr>\<rparr>"

lemma filled_simps:
  "vi_validators (filled vi bi h b s t la) = vi_validators vi" "the_bi (filled vi bi h b s t la) = bi"
  "tHighestBeforeSeq (vi_table (filled vi bi h b s t la)) = (tHighestBeforeSeq (vi_table vi))(h \<mapsto> s)"
  "tHighestBeforeTime (vi_table (filled vi bi h b s t la)) = (tHighestBeforeTime (vi_table vi))(h \<mapsto> t)"
  "tLowestAfterSeq (vi_table (filled vi bi h b s t la)) = la"
  "vi_flushed (filled vi bi h b s t la) = vi_flushed vi" "vi_ForklessCause (filled vi bi h b s t la) = vi_ForklessCause vi"
  "b < 2 ^ 32 \<Longrightarrow> getEventBranchID (filled vi bi h b s t la) x = (if x = h then Some b else getEventBranchID vi x)"
  "b < 2 ^ 32 \<Longrightarrow> br_of (filled vi bi h b s t la) = (br_of vi)(h := b)"
  by (auto simp: filled_def the_bi_def getEventBranchID_def br_of_def)

lemma fillEventVectors_inv:
  assumes inv: "index_inv vi D" and h: "h \<notin> dom D" and e: "valid_event (vi_validators vi) D e" and ev: "D \<subseteq>\<^sub>m getEvent"
    and room: "Validators_Len (vi_validators vi) + card (dom D) < 2 ^ 32"
  shows "\<exists>vi'. fillEventVectors getEvent vi (the_bi vi) h e = Some vi' \<and> index_inv vi' (D(h \<mapsto> e)) \<and>
     vi_validators vi' = vi_validators vi \<and> vi_flushed vi' = vi_flushed vi \<and> vi_ForklessCause vi' = vi_ForklessCause vi"
proof -
  let ?vv = "vi_validators vi" and ?bi = "the_bi vi" and ?br = "br_of vi" and ?D = "D(h \<mapsto> e)"
  note i = index_invD [OF inv]
  have vv: "valid_group ?vv" using i(1) by (rule sane_groupD)
  have v': "valid_dag ?vv ?D" using valid_dag_grow i(2) h e .
  obtain bi b where g: "fillGlobalBranchID vi ?bi e (GetIdx ?vv (eCreator e)) = Some (bi, b)" "layout_inv ?vv bi"
    "branch_inv ?vv ?D (?br(h := b)) bi" "fits ?vv ?bi bi b" "chain_inv ?D (?br(h := b))" "extends D ?br h e b"
    using fillGlobalBranchID_inv [OF vv refl i(3,5,4,2) h e] i(6) by blast
  let ?ms = "HighestBeforeSeq_Set (NewHighestBeforeSeq (length (BranchIDCreatorIdxs ?bi))) b \<lparr>Seq = eSeq e, MinSeq = eSeq e\<rparr>"
  let ?mt = "HighestBeforeTime_Set (NewHighestBeforeTime (length (BranchIDCreatorIdxs ?bi))) b (eClaimedTime e)"
  let ?ma = "LowestAfterSeq_Set (NewLowestAfterSeq (length (BranchIDCreatorIdxs ?bi))) b (eSeq e)"
  let ?vec = "\<lambda>p. (the (tHighestBeforeSeq (vi_table vi) p), the (tHighestBeforeTime (vi_table vi) p))"
  have par: "p \<in> dom D" if "p \<in> set (eParents e)" for p using that e by (auto simp: valid_event_def)
  note rows = before_row_grow [OF i(2) h g(4) i(7), of _ e]
  have load: "mapM (loadParent vi) (eParents e) = Some (map ?vec (eParents e))"
  proof (rule mapM_Some)
    fix p assume "p \<in> set (eParents e)"
    from rows [OF par [OF this]] i(6) [OF par [OF this]] show "loadParent vi p = Some (?vec p)"
      by (auto simp: loadParent_def GetHighestBeforeSeq_def GetHighestBeforeTime_def)
  qed
  have "\<forall>p \<in> set (eParents e). \<exists>m. clocks ?D (?br(h := b)) bi m (past ?D p) {c. forked ?vv ?D (past ?D p) c} (fst (?vec p)) (snd (?vec p)) \<and>
       Validators_Len ?vv \<le> m \<and> m \<le> length (BranchIDCreatorIdxs bi) \<and> (\<forall>y \<in> past ?D p. (?br(h := b)) y < m)"
  proof
    fix p assume "p \<in> set (eParents e)"
    from rows [OF par [OF this]] show "\<exists>m. clocks ?D (?br(h := b)) bi m (past ?D p) {c. forked ?vv ?D (past ?D p) c} (fst (?vec p)) (snd (?vec p)) \<and>
       Validators_Len ?vv \<le> m \<and> m \<le> length (BranchIDCreatorIdxs bi) \<and> (\<forall>y \<in> past ?D p. (?br(h := b)) y < m)" by force
  qed
  from new_clocks [OF vv v' _ g(2,5,3) refl own_clocks [OF refl g(4) refl] this] obtain ms' mt' ms'' where
    m: "foldM (mergeParent ?vv bi) (?ms, ?mt) (map ?vec (eParents e)) = Some (ms', mt')" "detectForks ?vv bi ms' = Some ms''"
    and clk: "clocks ?D (?br(h := b)) bi (length (BranchIDCreatorIdxs bi)) (past ?D h) {c. forked ?vv ?D (past ?D h) c} ms'' mt'" by auto
  have "wf_la ?ma" "\<forall>i. LowestAfterSeq_Get ?ma i = (if i = b then eSeq e else 0)" by (auto simp: vec_simps)
  then obtain la where la: "dfsSubgraph getEvent b e (tLowestAfterSeq (vi_table vi)) = Some la" "after_inv ?D (?br(h := b)) (la(h \<mapsto> ?ma))"
    using after_inv_grow [OF i(2) h e g(6) i(8) ev, of ?ma] by blast
  let ?vi = "filled vi bi h b ms'' mt' (la(h \<mapsto> ?ma))"
  have fill: "fillEventVectors getEvent vi ?bi h e = Some ?vi"
    using g(1) load m la(1)
    by (simp add: fillEventVectors_def Let_def filled_def SetHighestBefore_def SetLowestAfter_def setEventBranchID_def)
  have b: "b < 2 ^ 32" using branch_invD(1) [OF g(3), of h] g(3) room i(2) h by (simp add: branch_inv_def)
  have "\<forall>y \<in> past ?D h. (?br(h := b)) y < length (BranchIDCreatorIdxs bi)"
    using branch_invD(1) [OF g(3)] past_closed [OF v', of h] by (meson domI fun_upd_same subsetD)
  then have "before_inv ?vv ?D (?br(h := b)) bi (vi_table ?vi)"
    by (intro before_inv_grow [OF i(2) h g(4) i(7) _ _ clk layout_invD(2) [OF g(2)]]) (simp_all only: filled_simps)
  then have "index_inv ?vi ?D"
    unfolding index_inv_def Let_def using i(1) v' g la(2) b i(6) by (simp add: filled_simps domIff)
  with fill show ?thesis by (auto simp: filled_simps)
qed

end
