(* ===== verification/Forkless_Cause.thy ===== *)
theory Forkless_Cause
  imports Vector_Dag
begin

text \<open>
  The relation \<open>forklessCause\<close> computes, on the event graph, and what follows for it: it does not
  change as the graph grows (so its cached results stay right across \<open>Add\<close>, \<open>Flush\<close> and
  \<open>DropNotFlushed\<close>), and two forks cannot both be forkless-caused while the cheaters hold at
  most a third of the stake.
\<close>

subsection \<open>Specification\<close>

text \<open>
  The creators whose events let \<open>a\<close> see \<open>b\<close>: not seen as forking by \<open>a\<close>, with an event observed
  by \<open>a\<close> that observes \<open>b\<close>.
\<close>

definition seers :: "Validators \<Rightarrow> dag \<Rightarrow> hash_event \<Rightarrow> hash_event \<Rightarrow> Validator set" where
  "seers vv D a b = {c. \<not> forked vv D (past D a) c \<and> (\<exists>y \<in> past D a. creator_of vv D y = c \<and> b \<in> past D y)}"

definition fc_spec :: "Validators \<Rightarrow> dag \<Rightarrow> hash_event \<Rightarrow> hash_event \<Rightarrow> bool" where
  "fc_spec vv D a b \<longleftrightarrow> \<not> forked vv D (past D a) (creator_of vv D b) \<and> quorate vv (seers vv D a b)"

subsection \<open>The vectors decide it\<close>

lemma past_sub: "y \<in> past D x \<Longrightarrow> past D y \<subseteq> past D x"
  using past_trans by blast

lemma past_nonzero: "valid_dag vv D \<Longrightarrow> a \<in> dom D \<Longrightarrow> y \<in> past D a \<Longrightarrow> seq_of D y \<noteq> 0"
  using seq_nonzero past_closed by (metis subsetD)

text \<open>The condition under which the loop counts the creator of branch \<open>i\<close>.\<close>

definition sees_branch :: "HighestBeforeSeq \<Rightarrow> LowestAfterSeq \<Rightarrow> Validator \<Rightarrow> bool" where
  "sees_branch a b i \<longleftrightarrow> LowestAfterSeq_Get b i \<le> Seq (HighestBeforeSeq_Get a i) \<and> LowestAfterSeq_Get b i \<noteq> 0 \<and>
     \<not> IsForkDetected (HighestBeforeSeq_Get a i)"

lemma branch_sees:
  assumes inv: "index_inv vi D" and a: "a \<in> dom D" and i: "i < length (BranchIDCreatorIdxs (the_bi vi))"
    and vec: "tHighestBeforeSeq (vi_table vi) a = Some va" "tLowestAfterSeq (vi_table vi) b = Some vb" and b: "b \<in> dom D"
  shows "sees_branch va vb i \<longleftrightarrow>
    \<not> forked (vi_validators vi) D (past D a) (BranchIDCreatorIdxs (the_bi vi) ! i) \<and> (\<exists>y \<in> past D a. br_of vi y = i \<and> b \<in> past D y)"
    (is "?code \<longleftrightarrow> ?graph")
proof -
  let ?vv = "vi_validators vi" and ?bi = "the_bi vi" and ?br = "br_of vi"
  note j = index_invD [OF inv]
  let ?S = "on_branch ?br i (past D a)" and ?O = "observers D ?br i b"
  note chain = j(4) [unfolded chain_inv_def]
  have fin: "finite ?S" "finite ?O" using finite_past [OF j(2) a] finite_observers [OF j(2)] by auto
  have nz: "\<forall>y \<in> ?S. seq_of D y \<noteq> 0" using past_nonzero [OF j(2) a] by (auto simp: on_branch_def)
  obtain n where clk: "clocks D ?br ?bi n (past D a) {c. forked ?vv D (past D a) c} va (the (tHighestBeforeTime (vi_table vi) a))"
    and brs: "\<forall>y \<in> past D a. ?br y < n"
    using before_inv_row [OF j(7) a] vec(1) by (metis option.inject option.sel)
  have low: "LowestAfterSeq_Get vb i = lowest D ?br i b"
    using j(8) b vec(2) unfolding after_inv_def by (metis option.inject)
  have cell: "HighestBeforeSeq_Get va i = (if i < n \<and> forked ?vv D (past D a) (BranchIDCreatorIdxs ?bi ! i) then forkDetectedSeq else summ D ?S)"
  proof (cases "i < n")
    case True
    with clk show ?thesis by (simp add: clocks_def)
  next
    case False
    then have "?S = {}" using brs by (auto simp: on_branch_def)
    moreover have "HighestBeforeSeq_Get va i = \<lparr>Seq = 0, MinSeq = 0\<rparr>" using clk False by (intro hb.read_beyond) (simp add: clocks_def)
    ultimately show ?thesis using False by (simp add: summ_def)
  qed
  show ?thesis
  proof
    assume "?code"
    note code = this [unfolded sees_branch_def]
    then have nf: "\<not> (i < n \<and> forked ?vv D (past D a) (BranchIDCreatorIdxs ?bi ! i))" using cell by auto
    with code cell low have c: "lowest D ?br i b \<le> Seq (summ D ?S)" "lowest D ?br i b \<noteq> 0" by auto
    then have ne: "?S \<noteq> {}" by (auto simp: summ_def)
    then have "i < n" using brs by (auto simp: on_branch_def)
    obtain y where y: "y \<in> ?S" "seq_of D y = Seq (summ D ?S)" using top_event [OF fin(1) ne, of D] ne by (auto simp: summ_def)
    have "?O \<noteq> {}" using c(2) lowest_zero [OF j(2)] by blast
    then obtain z where z: "z \<in> ?O" "seq_of D z = lowest D ?br i b" using bottom_event [OF fin(2), of D] by (auto simp: lowest_def)
    have "y \<in> past D a" "br_of vi z = br_of vi y" "z \<in> dom D" using y z by (auto simp: on_branch_def observers_def)
    moreover from this(1) have "y \<in> dom D" using past_closed [OF j(2) a] by (rule subsetD [rotated])
    moreover have "seq_of D z \<le> seq_of D y" using y z c(1) by simp
    ultimately have "z \<in> past D y" using chain by blast
    then have "b \<in> past D y" using z(1) past_trans by (auto simp: observers_def)
    with y(1) nf \<open>i < n\<close> show ?graph by (auto simp: on_branch_def)
  next
    assume graph: ?graph
    then obtain y where y: "y \<in> past D a" "?br y = i" "b \<in> past D y" by blast
    then have yO: "y \<in> ?O" "y \<in> ?S" using past_closed [OF j(2) a] by (auto simp: observers_def on_branch_def)
    then have "lowest D ?br i b \<noteq> 0" "lowest D ?br i b \<le> seq_of D y" using lowest_zero [OF j(2), of ?br i b] fin(2) by (auto simp: lowest_def)
    moreover have "seq_of D y \<le> Seq (summ D ?S)" using summ_bounds [OF fin(1) yO(2), of D] by simp
    ultimately show ?code using low cell graph summ_not_marker [OF fin(1) nz] by (auto simp: sees_branch_def)
  qed
qed

lemma countBranch_fold:
  "foldM (countBranch a b) s xs = count_all s (map snd (filter (sees_branch a b \<circ> fst) xs))"
proof (induction xs arbitrary: s)
  case (Cons x xs)
  obtain i c where x: "x = (i, c)" by (cases x)
  have "countBranch a b s x = (if sees_branch a b i then map_option snd (CountByIdx s c) else Some s)"
    by (simp add: x countBranch_def sees_branch_def Let_def)
  with Cons x show ?case by (simp add: count_all_def)
qed (simp add: count_all_def)

lemma not_quorate_empty: "sane_group vv \<Longrightarrow> \<not> quorate vv {}"
  by (simp add: sq.qrt_iff sq.wt_empty)

lemma forklessCause_spec:
  assumes inv: "index_inv vi D" and a: "a \<in> dom D" and b: "b \<in> dom D"
  shows "forklessCause vi a b = Some (fc_spec (vi_validators vi) D a b)"
proof -
  let ?vv = "vi_validators vi" and ?bi = "the_bi vi" and ?br = "br_of vi"
  note j = index_invD [OF inv]
  obtain va vt n where va: "tHighestBeforeSeq (vi_table vi) a = Some va"
    and clk: "clocks D ?br ?bi n (past D a) {c. forked ?vv D (past D a) c} va vt" and brs: "\<forall>y \<in> past D a. ?br y < n"
    using before_inv_row [OF j(7) a] .
  obtain vb where vb: "tLowestAfterSeq (vi_table vi) b = Some vb" using j(8) b unfolding after_inv_def by blast
  note brb = branch_invD [OF j(5) b]
  have cheat: "IsForkDetected (HighestBeforeSeq_Get va (?br b)) \<longleftrightarrow> ?br b < n \<and> forked ?vv D (past D a) (creator_of ?vv D b)"
  proof (cases "?br b < n")
    case True
    have "finite (on_branch ?br (?br b) (past D a))" "\<forall>y \<in> on_branch ?br (?br b) (past D a). seq_of D y \<noteq> 0"
      using finite_past [OF j(2) a] past_nonzero [OF j(2) a] by (auto simp: on_branch_def)
    with True clk brb summ_not_marker show ?thesis by (auto simp: clocks_def)
  next
    case False
    then have "HighestBeforeSeq_Get va (?br b) = \<lparr>Seq = 0, MinSeq = 0\<rparr>" using clk by (intro hb.read_beyond) (simp add: clocks_def)
    with False show ?thesis by simp
  qed
  define js where "js = map snd (filter (sees_branch va vb \<circ> fst) (enumerate 0 (BranchIDCreatorIdxs ?bi)))"
  have "set js = {BranchIDCreatorIdxs ?bi ! i | i. i < length (BranchIDCreatorIdxs ?bi) \<and>
      \<not> forked ?vv D (past D a) (BranchIDCreatorIdxs ?bi ! i) \<and> (\<exists>y \<in> past D a. ?br y = i \<and> b \<in> past D y)}"
    unfolding js_def using branch_sees [OF inv a _ va vb b] by (auto simp: in_set_enumerate_eq image_iff) force+
  also have "\<dots> = seers ?vv D a b"
    unfolding seers_def using branch_invD(1,2) [OF j(5)] past_closed [OF j(2) a] by (auto simp: subset_iff) metis+
  finally have set_js: "set js = seers ?vv D a b" .
  have "set js \<subseteq> {..<Validators_Len ?vv}"
  proof
    fix c assume "c \<in> set js"
    then obtain y where "y \<in> past D a" "creator_of ?vv D y = c" using set_js by (auto simp: seers_def)
    then show "c \<in> {..<Validators_Len ?vv}"
      using creator_bound [OF sane_groupD [OF j(1)] j(2), of y] past_closed [OF j(2) a] by (metis lessThan_iff subsetD)
  qed
  then obtain yes where yes: "count_all (NewCounter ?vv) js = Some yes" "counter_inv ?vv yes" "counted yes = set js"
    using count_all_Some [OF j(1), of "NewCounter ?vv" js] by auto
  have none: "\<not> ?br b < n \<Longrightarrow> \<not> quorate ?vv (seers ?vv D a b)"
  proof -
    assume "\<not> ?br b < n"
    then have "b \<notin> past D a" using brs by blast
    then have "seers ?vv D a b = {}" using past_sub by (fastforce simp: seers_def)
    then show ?thesis using not_quorate_empty [OF j(1)] by simp
  qed
  have quiet: "\<not> atLeastOneFork ?vv ?bi \<Longrightarrow> \<not> forked ?vv D (past D a) (creator_of ?vv D b)"
    using no_branch_no_fork [OF observed_past [OF j(2,4,5) a] j(3)] .
  show ?thesis
    using cheat none quiet yes set_js j(6) [OF b] unfolding forklessCause_def fc_spec_def GetHighestBeforeSeq_def GetLowestAfterSeq_def
    by (auto simp: va vb Let_def countBranch_fold js_def [symmetric] HasQuorum_iff)
qed

subsection \<open>Histories of the index\<close>

lemma index_inv_Add:
  assumes "index_inv vi D" "Hash env e = Some h" "h \<notin> dom D" "valid_event (vi_validators vi) D e" "D \<subseteq>\<^sub>m getEvent"
    and "Validators_Len (vi_validators vi) + card (dom D) < 2 ^ 32"
  shows "\<exists>vi'. Add env getEvent vi e = Some vi' \<and> index_inv vi' (D(h \<mapsto> e)) \<and>
     vi_validators vi' = vi_validators vi \<and> vi_flushed vi' = vi_flushed vi \<and> vi_ForklessCause vi' = vi_ForklessCause vi"
proof -
  have "tHighestBeforeSeq (vi_table vi) h = None" using index_invD(7) [OF assms(1)] assms(3) by (simp add: before_inv_def)
  with fillEventVectors_inv [OF assms(1,3-6)] assms(2) show ?thesis by (simp add: Add_def GetHighestBeforeSeq_def)
qed

lemma index_inv_NewIndex: "sane_group vv \<Longrightarrow> index_inv (NewIndex vv empty_tables) Map.empty"
proof -
  assume "sane_group vv"
  then have "valid_group vv" by blast
  with \<open>sane_group vv\<close> show ?thesis
    by (auto simp: index_inv_def Let_def NewIndex_def the_bi_def getBranchesInfo_def empty_tables_def
        newInitialBranchesInfo_def layout_inv_def chain_inv_def branch_inv_def before_inv_def after_inv_def valid_dag_def)
qed

text \<open>The graph that a list of events makes, when each is valid and new after the ones before it.\<close>

fun build :: "hash_lib \<Rightarrow> Validators \<Rightarrow> dag \<Rightarrow> EventHeaderData list \<Rightarrow> dag option" where
  "build env vv D [] = Some D"
| "build env vv D (e # es) = (case Hash env e of None \<Rightarrow> None | Some h \<Rightarrow>
     if D h = None \<and> valid_event vv D e then build env vv (D(h \<mapsto> e)) es else None)"

lemma build_grows: "build env vv D es = Some D' \<Longrightarrow> D \<subseteq>\<^sub>m D'"
proof (induction es arbitrary: D)
  case (Cons e es)
  then obtain h where h: "D h = None" "build env vv (D(h \<mapsto> e)) es = Some D'"
    by (auto split: option.splits if_splits)
  from Cons.IH [OF h(2)] h(1) show ?case
    by (auto simp: map_le_def dom_def)
qed simp

lemma card_build: "build env vv D es = Some D' \<Longrightarrow> finite (dom D) \<Longrightarrow> card (dom D') = card (dom D) + length es"
proof (induction es arbitrary: D)
  case (Cons e es)
  then obtain h where h: "h \<notin> dom D" "build env vv (D(h \<mapsto> e)) es = Some D'" by (auto split: option.splits if_splits)
  from Cons.IH [OF h(2)] h(1) Cons.prems(2) show ?case by (simp del: fun_upd_apply)
qed simp

lemma Adds_inv:
  assumes "build env (vi_validators vi) D es = Some D'" "index_inv vi D" "D' \<subseteq>\<^sub>m getEvent"
    and "Validators_Len (vi_validators vi) + card (dom D') \<le> 2 ^ 32"
  shows "\<exists>vi'. foldM (Add env getEvent) vi es = Some vi' \<and> index_inv vi' D' \<and> vi_validators vi' = vi_validators vi"
  using assms
proof (induction es arbitrary: vi D)
  case (Cons e es)
  then obtain h where h: "Hash env e = Some h" "h \<notin> dom D" "valid_event (vi_validators vi) D e"
    "build env (vi_validators vi) (D(h \<mapsto> e)) es = Some D'" by (auto split: option.splits if_splits)
  have fin: "finite (dom D)" using index_invD(2) [OF Cons.prems(2)] by simp
  have D': "D \<subseteq>\<^sub>m getEvent" using build_grows [OF Cons.prems(1)] Cons.prems(3) map_le_trans by blast
  have "Validators_Len (vi_validators vi) + card (dom D) < 2 ^ 32"
    using card_build [OF Cons.prems(1) fin] Cons.prems(4) by simp
  from index_inv_Add [OF Cons.prems(2) h(1-3) D' this] obtain vi1 where
    "Add env getEvent vi e = Some vi1" "index_inv vi1 (D(h \<mapsto> e))" "vi_validators vi1 = vi_validators vi" by blast
  with Cons.IH [of vi1 "D(h \<mapsto> e)"] h(4) Cons.prems(3,4) show ?case by (simp del: fun_upd_apply)
qed auto

lemma Adds_index:
  assumes "sane_group vv" "build env vv Map.empty es = Some D" "D \<subseteq>\<^sub>m getEvent" "Validators_Len vv + length es \<le> 2 ^ 32"
  shows "\<exists>vi. foldM (Add env getEvent) (NewIndex vv empty_tables) es = Some vi \<and> index_inv vi D \<and> vi_validators vi = vv"
proof -
  have vv: "vi_validators (NewIndex vv empty_tables) = vv" using assms(1) by (auto simp: NewIndex_def)
  have "card (dom D) = length es" using card_build [OF assms(2)] by simp
  with Adds_inv [of env "NewIndex vv empty_tables" Map.empty es D getEvent] index_inv_NewIndex [OF assms(1)] assms vv
  show ?thesis by auto
qed

subsection \<open>Forks and quorums\<close>

text \<open>The self-parent chain of an event, itself included.\<close>

definition self_edge :: "dag \<Rightarrow> hash_event rel" where
  "self_edge D = {(x, y). \<exists>e. D x = Some e \<and> SelfParent e = Some y}"

definition self_past :: "dag \<Rightarrow> hash_event \<Rightarrow> hash_event set" where
  "self_past D x = {y. (x, y) \<in> (self_edge D)\<^sup>*}"

lemma self_past_past: "self_past D x \<subseteq> past D x"
proof -
  have "self_edge D \<subseteq> edge D" by (auto simp: self_edge_def edge_def SelfParent_in)
  then show ?thesis unfolding self_past_def past_def using rtrancl_mono by blast
qed

lemma self_past_step: "D y = Some e \<Longrightarrow> SelfParent e = Some p \<Longrightarrow> self_past D p \<subseteq> self_past D y"
  by (auto simp: self_past_def self_edge_def intro: converse_rtrancl_into_rtrancl)

lemma self_ancestor:
  assumes v: "valid_dag vv D"
  shows "y \<in> dom D \<Longrightarrow> s \<noteq> 0 \<Longrightarrow> s \<le> seq_of D y \<Longrightarrow>
     \<exists>z \<in> self_past D y. creator_of vv D z = creator_of vv D y \<and> seq_of D z = s"
proof (induction "unat (seq_of D y)" arbitrary: y rule: less_induct)
  case less
  obtain e where e: "D y = Some e" using less.prems by auto
  note ve = valid_dagD(4) [OF v e, unfolded valid_event_def]
  show ?case
  proof (cases "s = seq_of D y")
    case False
    then have lt: "s < seq_of D y" using less.prems by simp
    have "seq_of D y \<noteq> 1" using lt less.prems(2) by unat_arith
    then have "SelfParent e \<noteq> None" using ve e by (cases "SelfParent e") (auto simp: seq_of_def)
    then obtain p where p: "SelfParent e = Some p" by blast
    have pp: "p \<in> set (eParents e)" "p \<in> dom D" using SelfParent_in [OF p] ve by auto
    have sp: "creator_of vv D p = creator_of vv D y" "seq_of D y = seq_of D p + 1" "seq_of D p + 1 \<noteq> 0"
      using ve p e by (auto simp: creator_of_def seq_of_def)
    then have "s \<le> seq_of D p" "unat (seq_of D p) < unat (seq_of D y)"
      using lt less_plus_one [OF sp(3), of s] less_plus_one [OF sp(3), of "seq_of D p"] by (auto simp: word_less_nat_alt)
    from less.hyps [OF this(2) pp(2) less.prems(2) this(1)] obtain z where
      "z \<in> self_past D p" "creator_of vv D z = creator_of vv D y" "seq_of D z = s" using sp(1) by auto
    then show ?thesis using self_past_step [of D y e p] e p by blast
  qed (auto simp: self_past_def)
qed

lemma honest_comparable:
  assumes v: "valid_dag vv D" and h: "\<not> forked vv D (dom D) c" and y: "y1 \<in> dom D" "y2 \<in> dom D"
    and c: "creator_of vv D y1 = c" "creator_of vv D y2 = c" and le: "seq_of D y1 \<le> seq_of D y2"
  shows "y1 \<in> past D y2"
proof -
  from self_ancestor [OF v y(2) seq_nonzero [OF v y(1)] le] obtain z where
    z: "z \<in> self_past D y2" "creator_of vv D z = c" "seq_of D z = seq_of D y1" using c by auto
  then have zp: "z \<in> past D y2" using self_past_past by blast
  then have "z \<in> dom D" using past_closed [OF v y(2)] by blast
  with z(2,3) have "z = y1" using h y c unfolding forked_def by metis
  with zp show ?thesis by simp
qed

text \<open>
  Two events that no event observes without observing a fork of their creator cannot both
  forkless-cause events, while forking validators hold at most a third of the stake.
\<close>

lemma fc_spec_exclusive:
  assumes sane: "sane_group vv" and v: "valid_dag vv D" and a: "a1 \<in> dom D" "a2 \<in> dom D"
    and same: "creator_of vv D b1 = creator_of vv D b2"
    and clash: "\<And>a. a \<in> dom D \<Longrightarrow> b1 \<in> past D a \<Longrightarrow> b2 \<in> past D a \<Longrightarrow> forked vv D (past D a) (creator_of vv D b1)"
    and byz: "3 * stake_weight vv C \<le> stake_total vv" "\<forall>c. c \<notin> C \<longrightarrow> \<not> forked vv D (dom D) c"
  shows "\<not> (fc_spec vv D a1 b1 \<and> fc_spec vv D a2 b2)"
proof
  assume fc: "fc_spec vv D a1 b1 \<and> fc_spec vv D a2 b2"
  then obtain c where c: "c \<in> seers vv D a1 b1" "c \<in> seers vv D a2 b2" "c \<notin> C"
    using sq.overlap_honest [OF sane, of "seers vv D a1 b1" "seers vv D a2 b2" C] byz(1) by (auto simp: fc_spec_def)
  then obtain y1 y2 where y1: "y1 \<in> past D a1" "creator_of vv D y1 = c" "b1 \<in> past D y1"
    and y2: "y2 \<in> past D a2" "creator_of vv D y2 = c" "b2 \<in> past D y2" by (auto simp: seers_def)
  have d: "y1 \<in> dom D" "y2 \<in> dom D" using y1(1) y2(1) past_closed [OF v] a by blast+
  have h: "\<not> forked vv D (dom D) c" using byz(2) c(3) by blast
  show False
  proof (cases "seq_of D y1 \<le> seq_of D y2")
    case True
    have "b1 \<in> past D a2" "b2 \<in> past D a2" using honest_comparable [OF v h d y1(2) y2(2) True] y1 y2 past_trans by blast+
    with clash [OF a(2)] fc same show False by (auto simp: fc_spec_def)
  next
    case False
    then have "seq_of D y2 \<le> seq_of D y1" by simp
    from honest_comparable [OF v h d(2,1) y2(2) y1(2) this] have "b1 \<in> past D a1" "b2 \<in> past D a1" using y1 y2 past_trans by blast+
    with clash [OF a(1)] fc show False by (auto simp: fc_spec_def)
  qed
qed

lemma fork_clash:
  "b1 \<noteq> b2 \<Longrightarrow> creator_of vv D b1 = creator_of vv D b2 \<Longrightarrow> seq_of D b1 = seq_of D b2 \<Longrightarrow> b1 \<in> A \<Longrightarrow> b2 \<in> A \<Longrightarrow>
   forked vv D A (creator_of vv D b1)"
  unfolding forked_def by metis

text \<open>Neither of the two need have the other's sequence number: they need only be off each other's chain.\<close>

lemma chain_clash:
  assumes v: "valid_dag vv D" and a: "a \<in> dom D" and b: "b1 \<in> past D a" "b2 \<in> past D a" "creator_of vv D b1 = creator_of vv D b2"
    and off: "b1 \<notin> self_past D b2" "b2 \<notin> self_past D b1"
  shows "forked vv D (past D a) (creator_of vv D b1)"
proof -
  have d: "b1 \<in> dom D" "b2 \<in> dom D" using b past_closed [OF v a] by blast+
  have cut: "forked vv D (past D a) (creator_of vv D x)"
    if x: "x \<in> past D a" "x \<in> dom D" and y: "y \<in> past D a" "y \<in> dom D" and xy: "creator_of vv D x = creator_of vv D y" "x \<notin> self_past D y"
      and le: "seq_of D x \<le> seq_of D y" for x y
  proof -
    obtain z where z: "z \<in> self_past D y" "creator_of vv D z = creator_of vv D y" "seq_of D z = seq_of D x"
      using self_ancestor [OF v y(2) seq_nonzero [OF v x(2)] le] by blast
    then have "x \<noteq> z" using xy(2) by blast
    then show ?thesis using fork_clash [of x z vv D "past D a"] z xy(1) x(1) y(1) self_past_past [of D y] past_trans by (metis subsetD)
  qed
  show ?thesis
  proof (cases "seq_of D b1 \<le> seq_of D b2")
    case True
    then show ?thesis using cut [OF b(1) d(1) b(2) d(2) b(3) off(1)] by blast
  next
    case False
    then show ?thesis using cut [OF b(2) d(2) b(1) d(1) b(3) [symmetric] off(2)] b(3) by simp
  qed
qed

subsection \<open>The relation does not depend on later events\<close>

lemma past_submap:
  assumes "valid_dag vv D" "D \<subseteq>\<^sub>m U" "x \<in> dom D"
  shows "past U x = past D x"
proof
  have at: "U y = D y" if "y \<in> dom D" for y using assms(2) that by (simp add: map_le_def)
  have "y \<in> past D x" if "(x, y) \<in> (edge U)\<^sup>*" for y
    using that
  proof induction
    case (step y z)
    then have "y \<in> dom D" using past_closed [OF assms(1,3)] by blast
    with step.hyps(2) have "(y, z) \<in> edge D" using at by (auto simp: edge_def)
    then show ?case using step.IH by (auto simp: past_def intro: rtrancl.rtrancl_into_rtrancl)
  qed simp
  then show "past U x \<subseteq> past D x" by (auto simp: past_def)
  have "edge D \<subseteq> edge U" using at by (auto simp: edge_def dom_def)
  then show "past D x \<subseteq> past U x" unfolding past_def using rtrancl_mono by blast
qed

lemma fc_spec_submap:
  assumes v: "valid_dag vv D" and le: "D \<subseteq>\<^sub>m U" and a: "a \<in> dom D" and b: "b \<in> dom D"
  shows "fc_spec vv U a b = fc_spec vv D a b"
proof -
  have at: "seq_of U y = seq_of D y" "creator_of vv U y = creator_of vv D y" if "y \<in> dom D" for y
    using le that by (simp_all add: map_le_def seq_of_def creator_of_def)
  have sub: "past D a \<subseteq> dom D" using past_closed [OF v a] .
  have fk: "forked vv U (past D a) c = forked vv D (past D a) c" for c
    unfolding forked_def using at sub by (metis subsetD)
  have "past U y = past D y" if "y \<in> past D a" for y using past_submap [OF v le] that sub by blast
  then have "seers vv U a b = seers vv D a b"
    unfolding seers_def past_submap [OF v le a] fk using at sub by (metis (no_types, opaque_lifting) subsetD)
  then show ?thesis using at(2) [OF b] fk by (simp add: fc_spec_def past_submap [OF v le a])
qed

subsection \<open>The cache\<close>

text \<open>
  Everything the node may do with an index between two resets, in any order: add the next valid
  event, ask \<open>ForklessCause\<close> about known events, flush, or drop what was not flushed. The ghost
  parts of a configuration are the graph of added events and the one at the last flush.
  \<open>getEvent\<close> answers with the header an id stands for.
\<close>

inductive index_run ::
    "hash_lib \<Rightarrow> getEvent \<Rightarrow> ((hash_event \<times> hash_event \<rightharpoonup> bool) \<Rightarrow> hash_event \<times> hash_event \<rightharpoonup> bool) \<Rightarrow> Validators \<Rightarrow>
     Index \<Rightarrow> dag \<Rightarrow> dag \<Rightarrow> bool"
  for env getEvent evict vv where
    run_new: "index_run env getEvent evict vv (NewIndex vv empty_tables) Map.empty Map.empty"
  | run_Add: "index_run env getEvent evict vv vi D Df \<Longrightarrow> Hash env e = Some h \<Longrightarrow> h \<notin> dom D \<Longrightarrow> getEvent h = Some e \<Longrightarrow>
      valid_event vv D e \<Longrightarrow> Validators_Len vv + card (dom D) < 2 ^ 32 \<Longrightarrow> Add env getEvent vi e = Some vi' \<Longrightarrow>
      index_run env getEvent evict vv vi' (D(h \<mapsto> e)) Df"
  | run_ForklessCause: "index_run env getEvent evict vv vi D Df \<Longrightarrow> a \<in> dom D \<Longrightarrow> b \<in> dom D \<Longrightarrow>
      ForklessCause evict vi a b = Some (r, vi') \<Longrightarrow> index_run env getEvent evict vv vi' D Df"
  | run_Flush: "index_run env getEvent evict vv vi D Df \<Longrightarrow> index_run env getEvent evict vv (Flush vi) D D"
  | run_Drop: "index_run env getEvent evict vv vi D Df \<Longrightarrow> index_run env getEvent evict vv (DropNotFlushed vi) Df Df"

definition cache_inv :: "Validators \<Rightarrow> getEvent \<Rightarrow> Index \<Rightarrow> bool" where
  "cache_inv vv U vi \<longleftrightarrow> (\<forall>a b r. vi_ForklessCause vi (a, b) = Some r \<longrightarrow> r = fc_spec vv U a b)"

definition run_inv :: "Validators \<Rightarrow> getEvent \<Rightarrow> Index \<Rightarrow> dag \<Rightarrow> dag \<Rightarrow> bool" where
  "run_inv vv U vi D Df \<longleftrightarrow> vi_validators vi = vv \<and> index_inv vi D \<and> index_inv (DropNotFlushed vi) Df \<and>
     D \<subseteq>\<^sub>m U \<and> Df \<subseteq>\<^sub>m U \<and> cache_inv vv U vi"

lemma index_inv_cong:
  assumes "vi_validators vi' = vi_validators vi" "the_bi vi' = the_bi vi"
    "tHighestBeforeSeq (vi_table vi') = tHighestBeforeSeq (vi_table vi)" "tHighestBeforeTime (vi_table vi') = tHighestBeforeTime (vi_table vi)"
    "tLowestAfterSeq (vi_table vi') = tLowestAfterSeq (vi_table vi)" "tEventBranch (vi_table vi') = tEventBranch (vi_table vi)"
  shows "index_inv vi' D = index_inv vi D"
proof -
  have get: "getEventBranchID vi' = getEventBranchID vi" using assms by (auto simp: getEventBranchID_def)
  then have "br_of vi' = br_of vi" by (simp add: br_of_def fun_eq_iff)
  with get show ?thesis using assms by (simp add: index_inv_def Let_def before_inv_def)
qed

lemma index_inv_Flush:
  assumes "index_inv vi D"
  shows "index_inv (Flush vi) D" "index_inv (DropNotFlushed (Flush vi)) D"
proof -
  have "index_inv (Flush vi) D = index_inv vi D"
    by (rule index_inv_cong) (simp_all add: Flush_def setBranchesInfo_def the_bi_def getBranchesInfo_def Let_def split: option.split)
  moreover have "index_inv (DropNotFlushed (Flush vi)) D = index_inv vi D"
    by (rule index_inv_cong)
      (simp_all add: Flush_def DropNotFlushed_def setBranchesInfo_def the_bi_def getBranchesInfo_def Let_def split: option.split)
  ultimately show "index_inv (Flush vi) D" "index_inv (DropNotFlushed (Flush vi)) D" using assms by simp_all
qed

lemma index_inv_query:
  "index_inv ((initBranchesInfo vi)\<lparr>vi_ForklessCause := m\<rparr>) D = index_inv vi D"
  "index_inv (DropNotFlushed ((initBranchesInfo vi)\<lparr>vi_ForklessCause := m\<rparr>)) D = index_inv (DropNotFlushed vi) D"
  by (rule index_inv_cong; simp add: initBranchesInfo_def the_bi_def DropNotFlushed_def getBranchesInfo_def split: option.split)+

lemma run_inv_Add:
  assumes run: "run_inv vv U vi D Df" and e: "Hash env e = Some h" "h \<notin> dom D" "U h = Some e" "valid_event vv D e"
    and room: "Validators_Len vv + card (dom D) < 2 ^ 32" and add: "Add env U vi e = Some vi'"
  shows "run_inv vv U vi' (D(h \<mapsto> e)) Df"
proof -
  note r = run [unfolded run_inv_def]
  obtain vi1 where a: "Add env U vi e = Some vi1" "index_inv vi1 (D(h \<mapsto> e))" "vi_validators vi1 = vi_validators vi"
      "vi_flushed vi1 = vi_flushed vi" "vi_ForklessCause vi1 = vi_ForklessCause vi"
    using index_inv_Add [of vi D env e h U] r e room by auto
  have vi1: "vi1 = vi'" using a(1) add by simp
  have drop: "index_inv (DropNotFlushed vi') Df = index_inv (DropNotFlushed vi) Df"
    by (rule index_inv_cong) (use a vi1 in \<open>simp_all add: DropNotFlushed_def the_bi_def getBranchesInfo_def split: option.split\<close>)
  have "D(h \<mapsto> e) \<subseteq>\<^sub>m U" using r e(3) by (auto simp: map_le_def)
  with r a vi1 drop show ?thesis by (simp add: run_inv_def cache_inv_def del: fun_upd_apply)
qed

lemma ForklessCause_eq:
  assumes run: "run_inv vv U vi D Df" and ev: "\<forall>m. evict m \<subseteq>\<^sub>m m" and ab: "a \<in> dom D" "b \<in> dom D"
  shows "\<exists>vi'. ForklessCause evict vi a b = Some (fc_spec vv D a b, vi') \<and> run_inv vv U vi' D Df"
proof -
  note r = run [unfolded run_inv_def]
  have v: "valid_dag vv D" using r index_invD(2) by blast
  have spec: "fc_spec vv U a b = fc_spec vv D a b" using fc_spec_submap [OF v _ ab] r by blast
  show ?thesis
  proof (cases "vi_ForklessCause vi (a, b)")
    case (Some res)
    then have "res = fc_spec vv D a b" using r spec by (simp add: cache_inv_def)
    with Some run show ?thesis by (simp add: ForklessCause_def)
  next
    case None
    let ?m = "evict ((vi_ForklessCause vi)((a, b) \<mapsto> fc_spec vv D a b))"
    let ?vi = "(initBranchesInfo vi)\<lparr>vi_ForklessCause := ?m\<rparr>"
    have "r' = fc_spec vv U x y" if "?m (x, y) = Some r'" for x y r'
    proof -
      have "((vi_ForklessCause vi)((a, b) \<mapsto> fc_spec vv D a b)) (x, y) = Some r'"
        using ev that unfolding map_le_def by (metis domI)
      with r spec show ?thesis by (auto simp: cache_inv_def split: if_splits)
    qed
    then have "cache_inv vv U ?vi" by (simp add: cache_inv_def)
    then have "run_inv vv U ?vi D Df" using r unfolding run_inv_def index_inv_query by (simp add: initBranchesInfo_def)
    moreover have "forklessCause vi a b = Some (fc_spec vv D a b)" using forklessCause_spec [OF _ ab] r by blast
    ultimately show ?thesis using None by (simp add: ForklessCause_def)
  qed
qed

lemma index_run_inv:
  assumes "index_run env U evict vv vi D Df" "sane_group vv" "\<forall>m. evict m \<subseteq>\<^sub>m m"
  shows "run_inv vv U vi D Df"
  using assms
proof induction
  case run_new
  have "valid_group vv" using run_new by blast
  then have "DropNotFlushed (NewIndex vv empty_tables) = NewIndex vv empty_tables" "vi_validators (NewIndex vv empty_tables) = vv"
    by (simp_all add: DropNotFlushed_def NewIndex_def)
  with index_inv_NewIndex [OF run_new(1)] show ?case by (simp add: run_inv_def cache_inv_def NewIndex_def)
next
  case (run_Add vi D Df e h vi')
  then show ?case by (intro run_inv_Add) auto
next
  case (run_ForklessCause vi D Df a b r vi')
  then show ?case using ForklessCause_eq [of vv U vi D Df evict a b] by auto
next
  case (run_Flush vi D Df)
  then show ?case
    using index_inv_Flush by (simp add: run_inv_def cache_inv_def) (simp add: Flush_def setBranchesInfo_def Let_def split: option.split)
next
  case (run_Drop vi D Df)
  have "DropNotFlushed (DropNotFlushed vi) = DropNotFlushed vi" by (simp add: DropNotFlushed_def)
  with run_Drop show ?case by (simp add: run_inv_def cache_inv_def) (simp add: DropNotFlushed_def)
qed

subsection \<open>\<open>NoCheaters\<close>\<close>

lemma NoCheaters_fold:
  assumes "\<forall>x \<in> set xs. \<exists>e. getEvent x = Some e \<and> (IsForkDetected (HighestBeforeSeq_Get v (GetIdx vv (eCreator e))) \<longleftrightarrow> P x)"
  shows "foldM (\<lambda>filtered x. case getEvent x of None \<Rightarrow> None | Some header \<Rightarrow>
       if \<not> IsForkDetected (HighestBeforeSeq_Get v (GetIdx vv (eCreator header))) then Some (filtered @ [x]) else Some filtered) acc xs =
     Some (acc @ filter (\<lambda>x. \<not> P x) xs)"
  using assms by (induction xs arbitrary: acc) auto

lemma NoCheaters_spec:
  assumes inv: "index_inv vi D" and p: "p \<in> dom D" and opts: "set options \<subseteq> dom D" and ev: "D \<subseteq>\<^sub>m getEvent"
  shows "NoCheaters getEvent vi (Some p) options =
     Some (filter (\<lambda>x. \<not> forked (vi_validators vi) D (past D p) (creator_of (vi_validators vi) D x)) options)"
proof -
  let ?vv = "vi_validators vi" and ?bi = "the_bi vi" and ?br = "br_of vi"
  note j = index_invD [OF inv]
  obtain v t n where v: "tHighestBeforeSeq (vi_table vi) p = Some v" and n: "Validators_Len ?vv \<le> n"
    and clk: "clocks D ?br ?bi n (past D p) {c. forked ?vv D (past D p) c} v t" using before_inv_row [OF j(7) p] .
  have "\<exists>e. getEvent x = Some e \<and> (IsForkDetected (HighestBeforeSeq_Get v (GetIdx ?vv (eCreator e))) \<longleftrightarrow>
      forked ?vv D (past D p) (creator_of ?vv D x))" if x: "x \<in> set options" for x
  proof -
    have xd: "x \<in> dom D" using x opts by blast
    then obtain e where e: "D x = Some e" by blast
    then have "getEvent x = Some e" using ev by (metis domI map_le_def)
    moreover have c: "creator_of ?vv D x < Validators_Len ?vv" using creator_bound [OF sane_groupD [OF j(1)] j(2) xd] .
    have "finite (on_branch ?br i (past D p))" "\<forall>y \<in> on_branch ?br i (past D p). seq_of D y \<noteq> 0" for i
      using finite_past [OF j(2) p] past_nonzero [OF j(2) p] by (auto simp: on_branch_def)
    then have "IsForkDetected (HighestBeforeSeq_Get v (creator_of ?vv D x)) \<longleftrightarrow> forked ?vv D (past D p) (creator_of ?vv D x)"
      using clk n c layout_invD(4) [OF j(3) c] summ_not_marker by (auto simp: clocks_def)
    ultimately show ?thesis using e by (simp add: creator_of_def)
  qed
  then have "\<forall>x \<in> set options. \<exists>e. getEvent x = Some e \<and>
      (IsForkDetected (HighestBeforeSeq_Get v (GetIdx ?vv (eCreator e))) \<longleftrightarrow> forked ?vv D (past D p) (creator_of ?vv D x))" by blast
  from NoCheaters_fold [OF this, of "[]"] show ?thesis by (simp add: NoCheaters_def GetHighestBeforeSeq_def v)
qed

subsection \<open>Properties\<close>

text \<open>
  C6. Adding a sequence of valid events to a fresh index never stops the node: every walk over
  the graph ends, no table lookup fails, and the vectors of every event added so far describe
  the graph (\<open>index_inv\<close>: highest and lowest sequence number and claimed time per observed
  branch, fork marks exactly on the creators whose forks the event observes, and for every
  event and branch the lowest event of the branch observing it).
\<close>

theorem Adds_keep_index:
  assumes "sane_group vv" "build env vv Map.empty es = Some D" "D \<subseteq>\<^sub>m getEvent" "Validators_Len vv + length es \<le> 2 ^ 32"
  shows "\<exists>vi. foldM (Add env getEvent) (NewIndex vv empty_tables) es = Some vi \<and> index_inv vi D"
  using Adds_index [OF assms] by blast

text \<open>
  C5. On the index of any such history, \<open>forklessCause a b\<close> holds exactly when \<open>a\<close> observes no fork
  of \<open>b\<close>'s creator and the validators \<open>a\<close> sees no fork of, through whose events \<open>a\<close> observes \<open>b\<close>,
  have a quorum: comparing vectors is equivalent to searching the graph.
\<close>

theorem forklessCause_correct:
  assumes "sane_group vv" "build env vv Map.empty es = Some D" "D \<subseteq>\<^sub>m getEvent" "Validators_Len vv + length es \<le> 2 ^ 32"
    and "a \<in> dom D" "b \<in> dom D"
  shows "\<exists>vi. foldM (Add env getEvent) (NewIndex vv empty_tables) es = Some vi \<and> forklessCause vi a b = Some (fc_spec vv D a b)"
  using Adds_index [OF assms(1-4)] forklessCause_spec [OF _ assms(5,6)] by blast

text \<open>
  C9. If \<open>b1\<close> and \<open>b2\<close> are forks (same creator, same sequence number), they cannot both
  forkless-cause an event, not even two different events \<open>a1\<close> and \<open>a2\<close>, unless validators holding
  more than a third of the stake have forked.
\<close>

theorem forks_not_both_caused:
  assumes "index_inv vi D" "a1 \<in> dom D" "a2 \<in> dom D" "b1 \<in> dom D" "b2 \<in> dom D"
    and "b1 \<noteq> b2" "creator_of (vi_validators vi) D b1 = creator_of (vi_validators vi) D b2" "seq_of D b1 = seq_of D b2"
    and "forklessCause vi a1 b1 = Some True" "forklessCause vi a2 b2 = Some True"
  shows "stake_total (vi_validators vi) < 3 * stake_weight (vi_validators vi) {c. forked (vi_validators vi) D (dom D) c}"
proof (rule ccontr)
  assume "\<not> ?thesis"
  then have "3 * stake_weight (vi_validators vi) {c. forked (vi_validators vi) D (dom D) c} \<le> stake_total (vi_validators vi)" by simp
  with fc_spec_exclusive [OF index_invD(1,2) [OF assms(1)] assms(2,3,7) fork_clash [OF assms(6-8)]] have
    "\<not> (fc_spec (vi_validators vi) D a1 b1 \<and> fc_spec (vi_validators vi) D a2 b2)" by blast
  then show False using forklessCause_spec [OF assms(1)] assms(2-5,9,10) by force
qed

text \<open>
  C10. The result cache of \<open>ForklessCause\<close> never shows: in every state reached by adding events,
  querying, flushing and dropping unflushed events in any order, with any eviction policy, a
  query about known events returns the value of the graph relation. In particular entries
  cached for an event that was dropped and added again are still right.
\<close>

theorem ForklessCause_cache_transparent:
  assumes "sane_group vv" "\<forall>m. evict m \<subseteq>\<^sub>m m" "index_run env getEvent evict vv vi D Df" "a \<in> dom D" "b \<in> dom D"
  shows "\<exists>vi'. ForklessCause evict vi a b = Some (fc_spec vv D a b, vi') \<and> index_run env getEvent evict vv vi' D Df"
  using ForklessCause_eq [OF index_run_inv [OF assms(3,1,2)] assms(2,4,5)] run_ForklessCause [OF assms(3-5)] by blast

text \<open>
  \<open>NoCheaters\<close> keeps, in order, exactly the options whose creator the self-parent does not
  observe forking.
\<close>

theorem NoCheaters_correct:
  assumes "sane_group vv" "build env vv Map.empty es = Some D" "D \<subseteq>\<^sub>m getEvent" "Validators_Len vv + length es \<le> 2 ^ 32"
    and "p \<in> dom D" "set options \<subseteq> dom D"
  shows "\<exists>vi. foldM (Add env getEvent) (NewIndex vv empty_tables) es = Some vi \<and>
     NoCheaters getEvent vi (Some p) options = Some (filter (\<lambda>x. \<not> forked vv D (past D p) (creator_of vv D x)) options)"
  using Adds_index [OF assms(1-4)] NoCheaters_spec [OF _ assms(5,6,3)] by blast

subsection \<open>A concrete history\<close>

lemma valid_event_code [code]:
  "valid_event vv D e \<longleftrightarrow> eSeq e \<noteq> 0 \<and> Exists vv (eCreator e) \<and> list_all (\<lambda>p. D p \<noteq> None) (eParents e) \<and>
     (case SelfParent e of None \<Rightarrow> eSeq e = 1
      | Some p \<Rightarrow> eCreator (the (D p)) = eCreator e \<and> eSeq e = eSeq (the (D p)) + 1)"
  by (auto simp: valid_event_def list_all_iff)

definition small_event :: "byte \<Rightarrow> StakerID \<Rightarrow> EventSeq \<Rightarrow> byte list \<Rightarrow> Timestamp \<Rightarrow> EventHeaderData" where
  "small_event h c s ps t = empty_header\<lparr>eHash := Some [h], eCreator := c, eSeq := s, eParents := map (\<lambda>p. [p]) ps, eClaimedTime := t\<rparr>"

lemma small_event_simps [simp]:
  "Hash env (small_event h c s ps t) = Some [h]" "eSeq (small_event h c s ps t) = s" "eCreator (small_event h c s ps t) = c"
  "eParents (small_event h c s ps t) = map (\<lambda>p. [p]) ps" "eClaimedTime (small_event h c s ps t) = t"
  by (simp_all add: small_event_def Hash_def)

lemma two_not_le_one [simp]: "\<not> (2 :: u32) \<le> 1"
  by code_simp

definition solo_group :: Validators where
  "solo_group = EqualStakeValidators [1] 1"

lemma solo_group_facts [simp]:
  "sane_group solo_group" "Validators_Len solo_group = 1" "Exists solo_group 1" "stake_total solo_group = 1"
proof -
  have "valid_group solo_group" unfolding solo_group_def by (rule valid_group_EqualStakeValidators)
  moreover show total: "stake_total solo_group = 1" by code_simp
  ultimately show "sane_group solo_group" by (simp add: sane_group_def)
  show "Validators_Len solo_group = 1" "Exists solo_group 1" by code_simp+
qed

text \<open>A single validator whose first two events fork; the third event observes both.\<close>

definition sample_events :: "EventHeaderData list" where
  "sample_events = [small_event 1 1 1 [] 10, small_event 7 1 1 [] 20, small_event 2 1 2 [1, 7] 30]"

definition sample_dag :: dag where
  "sample_dag = [[1] \<mapsto> small_event 1 1 1 [] 10, [7] \<mapsto> small_event 7 1 1 [] 20, [2] \<mapsto> small_event 2 1 2 [1, 7] 30]"

lemma sample_build: "build sample_lib solo_group Map.empty sample_events = Some sample_dag"
  by (simp add: sample_events_def sample_dag_def valid_event_def SelfParent_def)

lemma sample_room: "Validators_Len solo_group + length sample_events \<le> 2 ^ 32"
  by (simp add: sample_events_def)

lemma sample_known: "[1] \<in> dom sample_dag" "[2] \<in> dom sample_dag" "[7] \<in> dom sample_dag"
  by (simp_all add: sample_dag_def)

definition sample_run :: "Index option" where
  "sample_run = foldM (Add sample_lib sample_dag) (NewIndex solo_group empty_tables) sample_events"

lemma sample_run_fc:
  "forklessCause (the sample_run) [1] [1] = Some True" "forklessCause (the sample_run) [7] [7] = Some True"
  "forklessCause (the sample_run) [2] [7] = Some False"
proof -
  show "forklessCause (the sample_run) [1] [1] = Some True" by code_simp
  show "forklessCause (the sample_run) [7] [7] = Some True" by code_simp
  show "forklessCause (the sample_run) [2] [7] = Some False" by code_simp
qed

theorem Adds_keep_index_witness: "\<exists>vi. sample_run = Some vi \<and> index_inv vi sample_dag"
  unfolding sample_run_def by (rule Adds_keep_index [OF _ sample_build map_le_refl sample_room]) simp

theorem forklessCause_correct_witness: "fc_spec solo_group sample_dag [1] [1] \<and> \<not> fc_spec solo_group sample_dag [2] [7]"
proof -
  obtain vi where 1: "sample_run = Some vi" "forklessCause vi [1] [1] = Some (fc_spec solo_group sample_dag [1] [1])"
    using forklessCause_correct [OF _ sample_build map_le_refl sample_room sample_known(1,1)] by (auto simp: sample_run_def)
  obtain vj where 2: "sample_run = Some vj" "forklessCause vj [2] [7] = Some (fc_spec solo_group sample_dag [2] [7])"
    using forklessCause_correct [OF _ sample_build map_le_refl sample_room sample_known(2,3)] by (auto simp: sample_run_def)
  show ?thesis using sample_run_fc(1,3) unfolding 1(1) option.sel using 1(2) 2 unfolding 1(1) by (metis option.inject)
qed

theorem forks_not_both_caused_witness:
  "stake_total solo_group < 3 * stake_weight solo_group {c. forked solo_group sample_dag (dom sample_dag) c}"
proof -
  obtain vi where vi: "sample_run = Some vi" "index_inv vi sample_dag" "vi_validators vi = solo_group"
    using Adds_index [OF _ sample_build map_le_refl sample_room] by (auto simp: sample_run_def)
  have fc: "forklessCause vi [1] [1] = Some True" "forklessCause vi [7] [7] = Some True"
    using sample_run_fc(1,2) unfolding vi(1) option.sel .
  have fk: "creator_of solo_group sample_dag [1] = creator_of solo_group sample_dag [7]" "seq_of sample_dag [1] = seq_of sample_dag [7]"
    by (simp_all add: creator_of_def seq_of_def sample_dag_def)
  have "[1 :: byte] \<noteq> [7]" by simp
  from forks_not_both_caused [OF vi(2) sample_known(1,3,1,3) this, unfolded vi(3), OF fk fc] show ?thesis .
qed

theorem ForklessCause_cache_transparent_witness:
  "\<exists>vi vi'. index_run sample_lib sample_dag (\<lambda>m. m) solo_group vi [[1] \<mapsto> small_event 1 1 1 [] 10] [[1] \<mapsto> small_event 1 1 1 [] 10] \<and>
     ForklessCause (\<lambda>m. m) vi [1] [1] = Some (fc_spec solo_group [[1] \<mapsto> small_event 1 1 1 [] 10] [1] [1], vi')"
proof -
  let ?e = "small_event 1 1 1 [] 10" and ?vi = "NewIndex solo_group empty_tables"
  have ok: "valid_event solo_group Map.empty ?e" by (simp add: valid_event_def SelfParent_def)
  have get: "sample_dag [1] = Some ?e" "Hash sample_lib ?e = Some [1]" by (simp_all add: sample_dag_def)
  have sane: "sane_group solo_group" by simp
  then have vv: "vi_validators ?vi = solo_group" using sane_groupD by (simp add: NewIndex_def)
  obtain vi where add: "Add sample_lib sample_dag ?vi ?e = Some vi"
    using index_inv_Add [OF index_inv_NewIndex [OF sane] get(2), of sample_dag] ok vv by auto
  have "index_run sample_lib sample_dag (\<lambda>m. m) solo_group vi [[1] \<mapsto> ?e] Map.empty"
    by (rule run_Add [OF run_new get(2) _ get(1) ok _ add]) simp_all
  then have run: "index_run sample_lib sample_dag (\<lambda>m. m) solo_group (Flush vi) [[1] \<mapsto> ?e] [[1] \<mapsto> ?e]" by (rule run_Flush)
  have "[1] \<in> dom [[1 :: byte] \<mapsto> ?e]" by simp
  from ForklessCause_cache_transparent [OF sane _ run this this] run show ?thesis by auto
qed

theorem NoCheaters_correct_witness:
  "filter (\<lambda>x. \<not> forked solo_group sample_dag (past sample_dag [1]) (creator_of solo_group sample_dag x)) [[1], [7]] = [[1], [7]] \<and>
   filter (\<lambda>x. \<not> forked solo_group sample_dag (past sample_dag [2]) (creator_of solo_group sample_dag x)) [[1], [7]] = []"
proof -
  let ?kept = "\<lambda>p. filter (\<lambda>x. \<not> forked solo_group sample_dag (past sample_dag p) (creator_of solo_group sample_dag x)) [[1], [7]]"
  have r: "NoCheaters sample_dag (the sample_run) (Some [1]) [[1], [7]] = Some [[1], [7]]" by code_simp
  have s: "NoCheaters sample_dag (the sample_run) (Some [2]) [[1], [7]] = Some []" by code_simp
  have opts: "set [[1], [7]] \<subseteq> dom sample_dag" using sample_known by simp
  have "NoCheaters sample_dag (the sample_run) (Some [1]) [[1], [7]] = Some (?kept [1])"
    using NoCheaters_correct [OF _ sample_build map_le_refl sample_room sample_known(1) opts] by (auto simp: sample_run_def)
  moreover have "NoCheaters sample_dag (the sample_run) (Some [2]) [[1], [7]] = Some (?kept [2])"
    using NoCheaters_correct [OF _ sample_build map_le_refl sample_room sample_known(2) opts] by (auto simp: sample_run_def)
  ultimately show ?thesis using r s by simp
qed

end
