(* ===== verification/Merged_Clock.thy ===== *)
theory Merged_Clock
  imports Forkless_Cause
begin

text \<open>
  What \<open>GetHighestBeforeMerged\<close> and \<open>MedianTime\<close> compute on the event graph. The node numbers the
  branches of a creator as it meets them; the merged vectors no longer depend on that numbering: for a
  creator that the event does not observe forking, they hold the highest sequence number it observes
  and the time claimed there.
\<close>

subsection \<open>Merging the branches of a creator\<close>

definition by_creator :: "Validators \<Rightarrow> dag \<Rightarrow> hash_event set \<Rightarrow> Validator \<Rightarrow> hash_event set" where
  "by_creator vv D A c = {y \<in> A. creator_of vv D y = c}"

definition top_time :: "dag \<Rightarrow> hash_event set \<Rightarrow> Timestamp" where
  "top_time D S = (if S = {} then 0 else eClaimedTime (the (D (inv_into S (seq_of D) (Max (seq_of D ` S))))))"

lemma top_time_eq:
  assumes "finite S" "inj_on (seq_of D) S" "y \<in> S" "seq_of D y = Max (seq_of D ` S)"
  shows "top_time D S = eClaimedTime (the (D y))"
  using assms inv_into_f_f [OF assms(2,3)] by (auto simp: top_time_def)

text \<open>What a cell of the vectors says of the events \<open>S\<close> of a branch.\<close>

definition cell_of :: "dag \<Rightarrow> hash_event set \<Rightarrow> BranchSeq \<Rightarrow> Timestamp \<Rightarrow> bool" where
  "cell_of D S s t \<longleftrightarrow> finite S \<and> (\<forall>y \<in> S. seq_of D y \<noteq> 0) \<and> s = summ D S \<and> (S \<noteq> {} \<longrightarrow> t = top_time D S)"

lemma merge_cells:
  assumes S: "cell_of D S m h" and T: "cell_of D T b t" and inj: "inj_on (seq_of D) (S \<union> T)"
    and m': "(m1, h1) = (if Seq m < Seq b then (m\<lparr>Seq := Seq b\<rparr>, t) else (m, h))"
      "m2 = (if MinSeq b \<noteq> 0 \<and> (MinSeq m1 = 0 \<or> MinSeq m1 > MinSeq b) then m1\<lparr>MinSeq := MinSeq b\<rparr> else m1)"
  shows "cell_of D (S \<union> T) m2 h1"
proof -
  note s = S [unfolded cell_of_def] and t = T [unfolded cell_of_def]
  have min0: "MinSeq (summ D X) = 0 \<longleftrightarrow> X = {}" if X: "finite X" "\<forall>y \<in> X. seq_of D y \<noteq> 0" for X
  proof (cases "X = {}")
    case False
    then obtain y where "y \<in> X" "seq_of D y = Min (seq_of D ` X)" using bottom_event [OF X(1)] by blast
    with False X show ?thesis by (auto simp: summ_def)
  qed (simp add: summ_def)
  consider "T = {}" | "S = {}" "T \<noteq> {}" | "S \<noteq> {}" "T \<noteq> {}" by blast
  then show ?thesis
  proof cases
    case 1
    then have "b = \<lparr>Seq = 0, MinSeq = 0\<rparr>" using t by (simp add: summ_def)
    with m' s 1 show ?thesis by (simp add: cell_of_def)
  next
    case 2
    then have "m = \<lparr>Seq = 0, MinSeq = 0\<rparr>" using s by (simp add: summ_def)
    moreover have "Seq b \<noteq> 0" "MinSeq b \<noteq> 0" using t 2 Seq_summ_zero [of T D] min0 [of T] by auto
    ultimately have "m2 = b" "h1 = t" using m' by (auto simp: word_neq_0_conv)
    with t 2 show ?thesis by (simp add: cell_of_def)
  next
    case 3
    have nz: "MinSeq m \<noteq> 0" "MinSeq b \<noteq> 0" using s t 3 min0 by auto
    have u: "summ D (S \<union> T) = \<lparr>Seq = max (Seq m) (Seq b), MinSeq = min (MinSeq m) (MinSeq b)\<rparr>" using summ_Un s t 3 by blast
    have m2: "m2 = summ D (S \<union> T)" unfolding u using m' nz by (auto simp: max_def min_def split: if_splits)
    obtain x where x: "x \<in> S" "seq_of D x = Max (seq_of D ` S)" using top_event [of S D] s 3 by blast
    obtain y where y: "y \<in> T" "seq_of D y = Max (seq_of D ` T)" using top_event [of T D] t 3 by blast
    have Sq: "Seq m = seq_of D x" "Seq b = seq_of D y" using s t 3 x y by (simp_all add: summ_def)
    have un: "Max (seq_of D ` (S \<union> T)) = max (seq_of D x) (seq_of D y)" using s t 3 x y by (simp add: image_Un Max_Un)
    have fin: "finite (S \<union> T)" using s t by simp
    have "h1 = top_time D (S \<union> T)"
    proof (cases "Seq m < Seq b")
      case True
      have "top_time D (S \<union> T) = eClaimedTime (the (D y))" using True Sq un y(1) by (intro top_time_eq [OF fin inj]) (simp_all add: max_absorb2 less_imp_le)
      moreover have "t = eClaimedTime (the (D y))" using t 3 top_time_eq [of T D y] y inj by (auto simp: inj_on_Un)
      ultimately show ?thesis using m'(1) True by simp
    next
      case False
      have "top_time D (S \<union> T) = eClaimedTime (the (D x))" using False Sq un x(1) by (intro top_time_eq [OF fin inj]) (simp_all add: max_absorb1 not_less)
      moreover have "h = eClaimedTime (the (D x))" using s 3 top_time_eq [of S D x] x inj by (auto simp: inj_on_Un)
      ultimately show ?thesis using m'(1) False by simp
    qed
    with m2 s t show ?thesis by (auto simp: cell_of_def)
  qed
qed

lemma mergeBranches_cells:
  assumes "cell_of D S m h" "\<forall>b \<in> set bs. cell_of D (P b) (HighestBeforeSeq_Get s b) (HighestBeforeTime_Get t b)"
    and "inj_on (seq_of D) (S \<union> \<Union> (P ` set bs))"
  shows "cell_of D (S \<union> \<Union> (P ` set bs)) (fst (mergeBranches s t m h bs)) (snd (mergeBranches s t m h bs))"
  using assms
proof (induction bs arbitrary: S m h)
  case (Cons b bs)
  let ?b = "HighestBeforeSeq_Get s b"
  have b: "cell_of D (P b) ?b (HighestBeforeTime_Get t b)" using Cons.prems(2) by simp
  then have nm: "\<not> IsForkDetected ?b" using summ_not_marker [of "P b" D] by (auto simp: cell_of_def)
  obtain m1 h1 where m1: "(m1, h1) = (if Seq m < Seq ?b then (m\<lparr>Seq := Seq ?b\<rparr>, HighestBeforeTime_Get t b) else (m, h))" by (metis surj_pair)
  define m2 where "m2 = (if MinSeq ?b \<noteq> 0 \<and> (MinSeq m1 = 0 \<or> MinSeq m1 > MinSeq ?b) then m1\<lparr>MinSeq := MinSeq ?b\<rparr> else m1)"
  have "inj_on (seq_of D) (S \<union> P b)" using Cons.prems(3) by (rule inj_on_subset) auto
  then have "cell_of D (S \<union> P b) m2 h1" by (intro merge_cells [OF Cons.prems(1) b _ m1 m2_def])
  from Cons.IH [OF this] Cons.prems have "cell_of D ((S \<union> P b) \<union> \<Union> (P ` set bs)) (fst (mergeBranches s t m2 h1 bs)) (snd (mergeBranches s t m2 h1 bs))"
    by (auto simp: Un_assoc)
  moreover have "mergeBranches s t m h (b # bs) = mergeBranches s t m2 h1 bs"
    using nm m1 unfolding m2_def by (simp add: Let_def split: if_splits)
  ultimately show ?case by (simp add: Un_assoc)
qed simp

lemma mergeBranches_marked: "\<exists>b \<in> set bs. HighestBeforeSeq_Get s b = forkDetectedSeq \<Longrightarrow> fst (mergeBranches s t m h bs) = forkDetectedSeq"
proof (induction bs arbitrary: m h)
  case (Cons b bs)
  then show ?case by (cases "HighestBeforeSeq_Get s b = forkDetectedSeq") (simp_all add: Let_def IsForkDetected_def split: prod.split)
qed simp

lemma mergeCreators_reads:
  assumes "c < length byc"
  shows "HighestBeforeSeq_Get (fst (mergeCreators s t n byc)) c = fst (mergeBranches s t \<lparr>Seq = 0, MinSeq = 0\<rparr> 0 (byc ! c))"
    "HighestBeforeTime_Get (snd (mergeCreators s t n byc)) c = snd (mergeBranches s t \<lparr>Seq = 0, MinSeq = 0\<rparr> 0 (byc ! c))"
proof -
  let ?m = "\<lambda>bs. mergeBranches s t \<lparr>Seq = 0, MinSeq = 0\<rparr> 0 bs"
  let ?f = "\<lambda>(ms, mt) (i, bs). (HighestBeforeSeq_Set ms i (fst (?m bs)), HighestBeforeTime_Set mt i (snd (?m bs)))"
  have eq: "mergeCreators s t n byc = foldl ?f (NewHighestBeforeSeq n, NewHighestBeforeTime n) (enumerate 0 byc)"
    by (simp add: mergeCreators_def case_prod_unfold)
  have "wf_hb (fst (foldl ?f z (enumerate 0 xs))) \<and> wf_hb (snd (foldl ?f z (enumerate 0 xs))) \<and> (\<forall>c < length xs.
      HighestBeforeSeq_Get (fst (foldl ?f z (enumerate 0 xs))) c = fst (?m (xs ! c)) \<and> HighestBeforeTime_Get (snd (foldl ?f z (enumerate 0 xs))) c = snd (?m (xs ! c)))"
    if "wf_hb (fst z)" "wf_hb (snd z)" for z xs
    by (induction xs rule: rev_induct)
      (use that in \<open>auto simp: enumerate_append_eq vec_simps nth_append case_prod_unfold less_Suc_eq\<close>)
  from this [of "(NewHighestBeforeSeq n, NewHighestBeforeTime n)" byc] assms show
    "HighestBeforeSeq_Get (fst (mergeCreators s t n byc)) c = fst (?m (byc ! c))" "HighestBeforeTime_Get (snd (mergeCreators s t n byc)) c = snd (?m (byc ! c))"
    unfolding eq by (simp_all add: vec_simps)
qed

text \<open>The cells of the merged vectors of an event.\<close>

lemma merged_cells:
  assumes inv: "index_inv vi D" and x: "x \<in> dom D"
  obtains s t where "getHighestBeforeMerged vi x = (Some s, Some t)"
    "\<And>c. c < Validators_Len (vi_validators vi) \<Longrightarrow> forked (vi_validators vi) D (past D x) c \<Longrightarrow> HighestBeforeSeq_Get s c = forkDetectedSeq"
    "\<And>c. c < Validators_Len (vi_validators vi) \<Longrightarrow> \<not> forked (vi_validators vi) D (past D x) c \<Longrightarrow>
       cell_of D (by_creator (vi_validators vi) D (past D x) c) (HighestBeforeSeq_Get s c) (HighestBeforeTime_Get t c)"
proof -
  let ?vv = "vi_validators vi" and ?bi = "the_bi vi" and ?br = "br_of vi"
  note j = index_invD [OF inv]
  obtain hbs hbt n where row: "tHighestBeforeSeq (vi_table vi) x = Some hbs" "tHighestBeforeTime (vi_table vi) x = Some hbt"
    and clk: "clocks D ?br ?bi n (past D x) {c. forked ?vv D (past D x) c} hbs hbt"
    and n: "Validators_Len ?vv \<le> n" "n \<le> length (BranchIDCreatorIdxs ?bi)" and brs: "\<forall>y \<in> past D x. ?br y < n"
    using before_inv_row [OF j(7) x] .
  have fin: "finite (past D x)" using finite_past [OF j(2) x] .
  have sub: "past D x \<subseteq> dom D" using past_closed [OF j(2) x] .
  have nz: "\<forall>y \<in> past D x. seq_of D y \<noteq> 0" using past_nonzero [OF j(2) x] by blast
  have creators: "BranchIDCreatorIdxs ?bi ! ?br y = creator_of ?vv D y" if "y \<in> past D x" for y
    using branch_invD(2) [OF j(5)] sub that by blast
  have inj: "inj_on (seq_of D) (by_creator ?vv D (past D x) c)" if "\<not> forked ?vv D (past D x) c" for c
    using that by (auto simp: inj_on_def by_creator_def forked_def)
  have marked: "HighestBeforeSeq_Get hbs b = forkDetectedSeq" if "b < n" "forked ?vv D (past D x) (BranchIDCreatorIdxs ?bi ! b)" for b
    using clk that by (simp add: clocks_def)
  have plain: "cell_of D (on_branch ?br b (past D x)) (HighestBeforeSeq_Get hbs b) (HighestBeforeTime_Get hbt b)"
    if b: "b < length (BranchIDCreatorIdxs ?bi)" "\<not> forked ?vv D (past D x) (BranchIDCreatorIdxs ?bi ! b)" for b
  proof (cases "b < n")
    case True
    let ?S = "on_branch ?br b (past D x)"
    have S: "finite ?S" "\<forall>y \<in> ?S. seq_of D y \<noteq> 0" "?S \<subseteq> by_creator ?vv D (past D x) (BranchIDCreatorIdxs ?bi ! b)"
      using fin nz creators by (auto simp: on_branch_def by_creator_def)
    have "HighestBeforeTime_Get hbt b = top_time D ?S" if ne: "?S \<noteq> {}"
    proof -
      obtain y where y: "y \<in> ?S" "seq_of D y = Max (seq_of D ` ?S)" "HighestBeforeTime_Get hbt b = eClaimedTime (the (D y))"
        using clk b(2) True ne by (auto simp: clocks_def)
      then show ?thesis using top_time_eq [OF S(1) inj_on_subset [OF inj [OF b(2)] S(3)] y(1,2)] by simp
    qed
    then show ?thesis using S clk True b(2) by (simp add: cell_of_def clocks_def)
  next
    case False
    then have "on_branch ?br b (past D x) = {}" using brs by (auto simp: on_branch_def)
    moreover have "HighestBeforeSeq_Get hbs b = \<lparr>Seq = 0, MinSeq = 0\<rparr>" using clk False by (intro hb.read_beyond) (simp add: clocks_def)
    ultimately show ?thesis by (simp add: cell_of_def summ_def)
  qed
  show ?thesis
  proof (cases "atLeastOneFork ?vv ?bi")
    case False
    have quiet: "\<not> forked ?vv D (past D x) c" for c using no_branch_no_fork [OF observed_past [OF j(2,4,5) x] j(3) False] .
    have own: "BranchIDCreatorIdxs ?bi ! b = b" if "b < length (BranchIDCreatorIdxs ?bi)" for b
      using layout_invD(4) [OF j(3), of b] that False by (simp add: atLeastOneFork_def)
    have "by_creator ?vv D (past D x) c = on_branch ?br c (past D x)" for c
    proof -
      have "?br y = creator_of ?vv D y" if "y \<in> past D x" for y using own [of "?br y"] creators [OF that] brs n(2) that by force
      then show ?thesis by (auto simp: by_creator_def on_branch_def)
    qed
    then show ?thesis
      by (intro that [of hbs hbt])
        (use False row quiet plain own n in \<open>simp_all add: getHighestBeforeMerged_def GetHighestBeforeSeq_def GetHighestBeforeTime_def\<close>)
  next
    case True
    let ?m = "mergeCreators hbs hbt (Validators_Len ?vv) (BranchIDByCreators ?bi)"
    have get: "getHighestBeforeMerged vi x = (Some (fst ?m), Some (snd ?m))"
      using True row by (simp add: getHighestBeforeMerged_def GetHighestBeforeSeq_def GetHighestBeforeTime_def Let_def split: prod.split)
    have len: "length (BranchIDByCreators ?bi) = Validators_Len ?vv" using layout_invD(3) [OF j(3)] .
    show ?thesis
    proof (rule that [OF get])
      fix c assume c: "c < Validators_Len ?vv" and f: "forked ?vv D (past D x) c"
      have "c \<in> set (BranchIDByCreators ?bi ! c)" "HighestBeforeSeq_Get hbs c = forkDetectedSeq"
        using layout_invD(4,6) [OF j(3) c] n c f marked [of c] by auto
      then show "HighestBeforeSeq_Get (fst ?m) c = forkDetectedSeq" using mergeBranches_marked mergeCreators_reads(1) c len by metis
    next
      fix c assume c: "c < Validators_Len ?vv" and f: "\<not> forked ?vv D (past D x) c"
      let ?bs = "BranchIDByCreators ?bi ! c" and ?P = "\<lambda>b. on_branch ?br b (past D x)"
      have bs: "b \<in> set ?bs \<longleftrightarrow> b < length (BranchIDCreatorIdxs ?bi) \<and> BranchIDCreatorIdxs ?bi ! b = c" for b using layout_invD(6) [OF j(3) c] .
      have un: "\<Union> (?P ` set ?bs) = by_creator ?vv D (past D x) c"
        using creators brs n(2) by (fastforce simp: on_branch_def by_creator_def bs)
      have "cell_of D ({} \<union> \<Union> (?P ` set ?bs)) (fst (mergeBranches hbs hbt \<lparr>Seq = 0, MinSeq = 0\<rparr> 0 ?bs)) (snd (mergeBranches hbs hbt \<lparr>Seq = 0, MinSeq = 0\<rparr> 0 ?bs))"
      proof (rule mergeBranches_cells)
        show "cell_of D {} \<lparr>Seq = 0, MinSeq = 0\<rparr> 0" by (simp add: cell_of_def summ_def)
        show "\<forall>b \<in> set ?bs. cell_of D (?P b) (HighestBeforeSeq_Get hbs b) (HighestBeforeTime_Get hbt b)" using bs plain f by simp
        show "inj_on (seq_of D) ({} \<union> \<Union> (?P ` set ?bs))" using inj [OF f] un by simp
      qed
      then show "cell_of D (by_creator ?vv D (past D x) c) (HighestBeforeSeq_Get (fst ?m) c) (HighestBeforeTime_Get (snd ?m) c)"
        using mergeCreators_reads [of c "BranchIDByCreators ?bi"] c len un by simp
    qed
  qed
qed

subsection \<open>The median time\<close>

text \<open>The time a validator is taken to claim, and the validators that count.\<close>

definition claimed :: "Validators \<Rightarrow> dag \<Rightarrow> hash_event \<Rightarrow> Timestamp \<Rightarrow> Validator \<Rightarrow> Timestamp" where
  "claimed vv D x g c = (if by_creator vv D (past D x) c = {} then g else top_time D (by_creator vv D (past D x) c))"

definition honest :: "Validators \<Rightarrow> dag \<Rightarrow> hash_event \<Rightarrow> Validator set" where
  "honest vv D x = {c. c < Validators_Len vv \<and> \<not> forked vv D (past D x) c}"

lemma unat_add_list: "unat cur + sum_list (map (\<lambda>x. unat (mt_stake x)) xs) < 2 ^ 64 \<Longrightarrow>
    unat (foldl (\<lambda>acc x. acc + mt_stake x) cur xs) = unat cur + sum_list (map (\<lambda>x. unat (mt_stake x)) xs)" for cur :: u64
proof (induction xs arbitrary: cur)
  case (Cons x xs)
  then have "unat (cur + mt_stake x) = unat cur + unat (mt_stake x)" by (simp add: unat_word_ariths)
  with Cons show ?case by simp
qed simp

lemma medianLoop_splits:
  assumes "unat cur + sum_list (map (\<lambda>x. unat (mt_stake x)) xs) < 2 ^ 64" "xs \<noteq> []"
    and "unat half \<le> unat cur + sum_list (map (\<lambda>x. unat (mt_stake x)) xs)"
  shows "\<exists>ys y zs. xs = ys @ y # zs \<and> snd (medianLoop half cur xs) = mt_claimedTime y \<and>
     unat (fst (medianLoop half cur xs)) = unat cur + sum_list (map (\<lambda>x. unat (mt_stake x)) (ys @ [y])) \<and> half \<le> fst (medianLoop half cur xs) \<and>
     (ys = [] \<or> unat cur + sum_list (map (\<lambda>x. unat (mt_stake x)) ys) < unat half)"
  using assms
proof (induction xs arbitrary: cur)
  case (Cons x xs)
  have u: "unat (cur + mt_stake x) = unat cur + unat (mt_stake x)" using Cons.prems(1) by (simp add: unat_word_ariths)
  show ?case
  proof (cases "half \<le> cur + mt_stake x")
    case True
    then show ?thesis using u by (intro exI [of _ "[]"]) auto
  next
    case False
    then have lt: "unat cur + unat (mt_stake x) < unat half" using u by (simp add: word_le_nat_alt)
    then have "xs \<noteq> []" using Cons.prems(3) by auto
    with Cons.IH [of "cur + mt_stake x"] Cons.prems u obtain ys y zs where
      r: "xs = ys @ y # zs" "snd (medianLoop half (cur + mt_stake x) xs) = mt_claimedTime y"
        "unat (fst (medianLoop half (cur + mt_stake x) xs)) = unat cur + unat (mt_stake x) + sum_list (map (\<lambda>x. unat (mt_stake x)) (ys @ [y]))"
        "half \<le> fst (medianLoop half (cur + mt_stake x) xs)"
        "ys = [] \<or> unat cur + unat (mt_stake x) + sum_list (map (\<lambda>x. unat (mt_stake x)) ys) < unat half" by auto
    then show ?thesis using False lt by (intro exI [of _ "x # ys"] exI [of _ y] exI [of _ zs]) auto
  qed
qed simp

lemma stake_weight_sum:
  assumes "valid_group vv"
  shows "stake_weight vv A = sum_list (map (\<lambda>c. if c \<in> A then unat (SortedStakes vv ! c) else 0) [0..<Validators_Len vv])"
proof -
  have "stake_weights vv ! c = unat (SortedStakes vv ! c)" if "c < Validators_Len vv" for c using assms that by (simp add: stake_weights_def)
  then show ?thesis unfolding stake_weight_def weight_code by (auto simp: stake_weights_def assms intro!: arg_cong [where f = sum_list] map_cong)
qed

lemma sum_list_filter_if: "sum_list (map f (filter P xs)) = sum_list (map (\<lambda>x. if P x then f x else 0) xs)" for f :: "'a \<Rightarrow> nat"
  by (induction xs) auto

text \<open>The stake below and up to the entry the loop stops at, in a list sorted by time.\<close>

lemma sorted_split_weights:
  fixes st :: "medianTimeIndex \<Rightarrow> nat"
  assumes "sorted (map mt_claimedTime (ys @ y # zs))"
  shows "sum_list (map st (filter (\<lambda>e. mt_claimedTime e < mt_claimedTime y) (ys @ y # zs))) \<le> sum_list (map st ys)"
    "sum_list (map st (ys @ [y])) \<le> sum_list (map st (filter (\<lambda>e. mt_claimedTime e \<le> mt_claimedTime y) (ys @ y # zs)))"
proof -
  have "filter (\<lambda>e. mt_claimedTime e < mt_claimedTime y) (y # zs) = []" using assms by (auto simp: sorted_append filter_empty_conv not_less)
  moreover have "sum_list (map st (filter P ys)) \<le> sum_list (map st ys)" for P by (induction ys) auto
  ultimately show "sum_list (map st (filter (\<lambda>e. mt_claimedTime e < mt_claimedTime y) (ys @ y # zs))) \<le> sum_list (map st ys)" by simp
  have "filter (\<lambda>e. mt_claimedTime e \<le> mt_claimedTime y) ys = ys" using assms by (auto simp: sorted_append filter_id_conv)
  then show "sum_list (map st (ys @ [y])) \<le> sum_list (map st (filter (\<lambda>e. mt_claimedTime e \<le> mt_claimedTime y) (ys @ y # zs)))" by simp
qed

lemma medianEntries:
  assumes inv: "index_inv vi D" and x: "x \<in> dom D" and get: "getHighestBeforeMerged vi x = (Some s, Some t)"
  obtains entry where "mapM (medianEntry (vi_validators vi) s t g) [0..<Validators_Len (vi_validators vi)] = Some (map entry [0..<Validators_Len (vi_validators vi)])"
    "\<And>c. c \<in> honest (vi_validators vi) D x \<Longrightarrow> entry c = medianTimeIndex (SortedStakes (vi_validators vi) ! c) (claimed (vi_validators vi) D x g c)"
    "\<And>c. c < Validators_Len (vi_validators vi) \<Longrightarrow> c \<notin> honest (vi_validators vi) D x \<Longrightarrow> mt_stake (entry c) = 0"
proof -
  let ?vv = "vi_validators vi"
  have vv: "valid_group ?vv" using sane_groupD [OF index_invD(1) [OF inv]] .
  obtain s' t' where m: "getHighestBeforeMerged vi x = (Some s', Some t')"
    "\<And>c. c < Validators_Len ?vv \<Longrightarrow> forked ?vv D (past D x) c \<Longrightarrow> HighestBeforeSeq_Get s' c = forkDetectedSeq"
    "\<And>c. c < Validators_Len ?vv \<Longrightarrow> \<not> forked ?vv D (past D x) c \<Longrightarrow>
       cell_of D (by_creator ?vv D (past D x) c) (HighestBeforeSeq_Get s' c) (HighestBeforeTime_Get t' c)" using merged_cells [OF inv x] by blast
  have st: "s' = s" "t' = t" using m(1) get by simp_all
  note cells = m(2,3) [unfolded st]
  define entry where "entry c = (let seq = HighestBeforeSeq_Get s c in if IsForkDetected seq then medianTimeIndex 0 (HighestBeforeTime_Get t c)
     else if Seq seq = 0 then medianTimeIndex (SortedStakes ?vv ! c) g else medianTimeIndex (SortedStakes ?vv ! c) (HighestBeforeTime_Get t c))" for c
  show thesis
  proof (rule that)
    show "mapM (medianEntry ?vv s t g) [0..<Validators_Len ?vv] = Some (map entry [0..<Validators_Len ?vv])"
      by (rule mapM_Some) (simp add: medianEntry_def GetStakeByIdx_nth vv entry_def Let_def)
    show "entry c = medianTimeIndex (SortedStakes ?vv ! c) (claimed ?vv D x g c)" if "c \<in> honest ?vv D x" for c
    proof -
      have c: "cell_of D (by_creator ?vv D (past D x) c) (HighestBeforeSeq_Get s c) (HighestBeforeTime_Get t c)"
        using cells(2) [of c] that by (simp add: honest_def)
      then have "\<not> IsForkDetected (HighestBeforeSeq_Get s c)" "Seq (HighestBeforeSeq_Get s c) = 0 \<longleftrightarrow> by_creator ?vv D (past D x) c = {}"
        using summ_not_marker Seq_summ_zero by (auto simp: cell_of_def)
      with c show ?thesis by (simp add: entry_def claimed_def cell_of_def Let_def)
    qed
    show "mt_stake (entry c) = 0" if "c < Validators_Len ?vv" "c \<notin> honest ?vv D x" for c
      using cells(1) [of c] that by (simp add: entry_def honest_def)
  qed
qed

lemma MedianTime_median:
  assumes "index_inv vi D" "x \<in> dom D"
  shows "\<exists>t. MedianTime vi x g = Some t \<and>
     2 * stake_weight (vi_validators vi) {c \<in> honest (vi_validators vi) D x. claimed (vi_validators vi) D x g c < t} \<le> stake_weight (vi_validators vi) (honest (vi_validators vi) D x) \<and>
     stake_weight (vi_validators vi) (honest (vi_validators vi) D x) div 2 \<le> stake_weight (vi_validators vi) {c \<in> honest (vi_validators vi) D x. claimed (vi_validators vi) D x g c \<le> t} \<and>
     (2 \<le> stake_weight (vi_validators vi) (honest (vi_validators vi) D x) \<longrightarrow> (\<exists>c \<in> honest (vi_validators vi) D x. t = claimed (vi_validators vi) D x g c))"
proof -
  let ?vv = "vi_validators vi" and ?n = "Validators_Len (vi_validators vi)" and ?st = "\<lambda>e. unat (mt_stake e)"
  have sane: "sane_group ?vv" and vv: "valid_group ?vv" using index_invD(1) [OF assms(1)] sane_groupD by blast+
  obtain s u where get: "getHighestBeforeMerged vi x = (Some s, Some u)" by (rule merged_cells [OF assms], rule that)
  obtain entry where e: "mapM (medianEntry ?vv s u g) [0..<?n] = Some (map entry [0..<?n])"
    "\<And>c. c \<in> honest ?vv D x \<Longrightarrow> entry c = medianTimeIndex (SortedStakes ?vv ! c) (claimed ?vv D x g c)"
    "\<And>c. c < ?n \<Longrightarrow> c \<notin> honest ?vv D x \<Longrightarrow> mt_stake (entry c) = 0" by (rule medianEntries [OF assms get], rule that)
  let ?es = "map entry [0..<?n]"
  have weigh: "sum_list (map ?st (filter (\<lambda>e. Q (mt_claimedTime e)) ?es)) = stake_weight ?vv {c \<in> honest ?vv D x. Q (claimed ?vv D x g c)}" for Q
  proof -
    have "sum_list (map ?st (filter (\<lambda>e. Q (mt_claimedTime e)) ?es)) = sum_list (map (\<lambda>c. if Q (mt_claimedTime (entry c)) then ?st (entry c) else 0) [0..<?n])"
      unfolding sum_list_filter_if by (simp add: comp_def)
    also have "\<dots> = stake_weight ?vv {c \<in> honest ?vv D x. Q (claimed ?vv D x g c)}"
    proof -
      have "(if Q (mt_claimedTime (entry c)) then ?st (entry c) else 0) =
          (if c \<in> {c \<in> honest ?vv D x. Q (claimed ?vv D x g c)} then unat (SortedStakes ?vv ! c) else 0)" if "c < ?n" for c
        by (cases "c \<in> honest ?vv D x") (use e(2,3) that in simp_all)
      then show ?thesis unfolding stake_weight_sum [OF vv] by (intro arg_cong [where f = sum_list] map_cong) simp_all
    qed
    finally show ?thesis .
  qed
  have total: "sum_list (map ?st ?es) = stake_weight ?vv (honest ?vv D x)" using weigh [of "\<lambda>_. True"] by (simp add: comp_def)
  have small: "sum_list (map ?st ?es) < 2 ^ 64"
  proof -
    have "stake_weight ?vv (honest ?vv D x) \<le> stake_total ?vv" by (simp add: stake_weight_def stake_total_def weight_le_sum_list)
    moreover have "stake_total ?vv < 2 ^ 63" using sane by (simp add: sane_group_def)
    ultimately show ?thesis unfolding total by simp
  qed
  define es where "es = sort_key mt_claimedTime ?es"
  have perm: "sum_list (map ?st (filter P es)) = sum_list (map ?st (filter P ?es))" for P
    by (simp only: es_def sum_mset_sum_list [symmetric] mset_map mset_filter mset_sort)
  have tot: "sum_list (map ?st es) = sum_list (map ?st ?es)" using perm [of "\<lambda>_. True"] by simp
  let ?H = "foldl (\<lambda>acc e. acc + mt_stake e) 0 ?es"
  have H: "unat ?H = sum_list (map ?st ?es)" using unat_add_list [of 0 ?es] small by simp
  then have half: "unat (?H div 2) = sum_list (map ?st ?es) div 2" by (simp add: unat_div)
  show ?thesis
  proof (cases "?n = 0")
    case True
    have z: "honest ?vv D x = {}" using True by (auto simp: honest_def)
    have "MedianTime vi x g = Some 0" using get True vv by (simp add: MedianTime_def Let_def split: prod.split)
    then show ?thesis unfolding z by (simp add: stake_weight_def)
  next
    case False
    then have "length es \<noteq> 0" by (simp add: es_def)
    then have "es \<noteq> []" by simp
    with medianLoop_splits [of 0 es "?H div 2"] small tot half obtain ys y zs where
      m: "es = ys @ y # zs" "snd (medianLoop (?H div 2) 0 es) = mt_claimedTime y"
        "unat (fst (medianLoop (?H div 2) 0 es)) = sum_list (map ?st (ys @ [y]))" "?H div 2 \<le> fst (medianLoop (?H div 2) 0 es)"
        "ys = [] \<or> sum_list (map ?st ys) < unat (?H div 2)" by auto
    have "sum_list (map ?st (ys @ [y])) \<le> sum_list (map ?st es)" unfolding m(1) by simp
    then have "fst (medianLoop (?H div 2) 0 es) \<le> ?H" using m(3) H tot by (simp add: word_le_nat_alt)
    then have ret: "MedianTime vi x g = Some (mt_claimedTime y)"
      using get e(1) m(2,4) vv by (simp add: MedianTime_def es_def [symmetric] Let_def not_less [symmetric] case_prod_beta)
    have sorted: "sorted (map mt_claimedTime (ys @ y # zs))" unfolding m(1) [symmetric] es_def by simp
    let ?W = "stake_weight ?vv (honest ?vv D x)"
    have W: "unat (?H div 2) = ?W div 2" using half total by simp
    have weigh': "sum_list (map ?st (filter (\<lambda>e. Q (mt_claimedTime e)) (ys @ y # zs))) = stake_weight ?vv {c \<in> honest ?vv D x. Q (claimed ?vv D x g c)}" for Q
      using perm [of "\<lambda>e. Q (mt_claimedTime e)"] weigh [of Q] unfolding m(1) by (rule trans)
    have "sum_list (map ?st ys) \<le> ?W div 2" using m(5) W by auto
    with sorted_split_weights(1) [OF sorted, of ?st, unfolded weigh' [of "\<lambda>z. z < mt_claimedTime y"]]
    have below: "2 * stake_weight ?vv {c \<in> honest ?vv D x. claimed ?vv D x g c < mt_claimedTime y} \<le> ?W" by linarith
    have reach: "?W div 2 \<le> sum_list (map ?st (ys @ [y]))" using m(4) unfolding word_le_nat_alt m(3) W .
    with sorted_split_weights(2) [OF sorted, of ?st, unfolded weigh' [of "\<lambda>z. z \<le> mt_claimedTime y"]]
    have upto: "?W div 2 \<le> stake_weight ?vv {c \<in> honest ?vv D x. claimed ?vv D x g c \<le> mt_claimedTime y}" by linarith
    have "\<exists>c \<in> honest ?vv D x. mt_claimedTime y = claimed ?vv D x g c" if two: "2 \<le> ?W"
    proof -
      have "0 < unat (mt_stake y)" using m(5) reach two unfolding W by auto
      moreover have "y \<in> set ?es" using m(1) by (metis es_def in_set_conv_decomp set_sort)
      then obtain c where "c < ?n" "y = entry c" by auto
      ultimately show ?thesis using e(2,3) by (metis medianTimeIndex.sel(2) unat_0 less_irrefl)
    qed
    with ret below upto show ?thesis by blast
  qed
qed

text \<open>The marked creators have no time in the merged vectors, so that the median is a function of the graph alone.\<close>

lemma mergeBranches_no_time:
  "(\<forall>b \<in> set bs. HighestBeforeSeq_Get s b = forkDetectedSeq \<or> HighestBeforeSeq_Get s b = \<lparr>Seq = 0, MinSeq = 0\<rparr>) \<Longrightarrow>
   snd (mergeBranches s t \<lparr>Seq = 0, MinSeq = 0\<rparr> 0 bs) = 0"
  by (induction bs) (auto simp: Let_def)

lemma merged_time_forked:
  assumes inv: "index_inv vi D" and x: "x \<in> dom D" and get: "getHighestBeforeMerged vi x = (Some s, Some t)"
    and c: "c < Validators_Len (vi_validators vi)" "forked (vi_validators vi) D (past D x) c"
  shows "HighestBeforeTime_Get t c = 0"
proof -
  let ?vv = "vi_validators vi" and ?bi = "the_bi vi" and ?br = "br_of vi"
  note j = index_invD [OF inv]
  obtain hbs hbt n where row: "tHighestBeforeSeq (vi_table vi) x = Some hbs" "tHighestBeforeTime (vi_table vi) x = Some hbt"
    and clk: "clocks D ?br ?bi n (past D x) {c. forked ?vv D (past D x) c} hbs hbt" and n: "n \<le> length (BranchIDCreatorIdxs ?bi)"
    using before_inv_row [OF j(7) x] .
  have fork: "atLeastOneFork ?vv ?bi" using no_branch_no_fork [OF observed_past [OF j(2,4,5) x] j(3)] c(2) by blast
  let ?m = "mergeCreators hbs hbt (Validators_Len ?vv) (BranchIDByCreators ?bi)"
  have "t = snd ?m"
    using get fork row by (simp add: getHighestBeforeMerged_def GetHighestBeforeSeq_def GetHighestBeforeTime_def Let_def split: prod.splits)
  moreover have "HighestBeforeSeq_Get hbs b = forkDetectedSeq \<or> HighestBeforeSeq_Get hbs b = \<lparr>Seq = 0, MinSeq = 0\<rparr>"
    if "b \<in> set (BranchIDByCreators ?bi ! c)" for b
  proof (cases "b < n")
    case True
    then show ?thesis using clk layout_invD(6) [OF j(3) c(1), of b] that c(2) by (simp add: clocks_def)
  next
    case False
    then show ?thesis using clk by (intro disjI2 hb.read_beyond) (simp_all add: clocks_def)
  qed
  ultimately show ?thesis using mergeBranches_no_time mergeCreators_reads(2) [of c] layout_invD(3) [OF j(3)] c(1) by simp
qed

definition median_entry :: "Validators \<Rightarrow> dag \<Rightarrow> hash_event \<Rightarrow> Timestamp \<Rightarrow> Validator \<Rightarrow> medianTimeIndex" where
  "median_entry vv D x g c = (if c \<in> honest vv D x then medianTimeIndex (SortedStakes vv ! c) (claimed vv D x g c) else medianTimeIndex 0 0)"

definition median_of :: "Validators \<Rightarrow> dag \<Rightarrow> hash_event \<Rightarrow> Timestamp \<Rightarrow> Timestamp" where
  "median_of vv D x g = (let es = map (median_entry vv D x g) [0..<Validators_Len vv] in
     snd (medianLoop (foldl (\<lambda>acc e. acc + mt_stake e) 0 es div 2) 0 (sort_key mt_claimedTime es)))"

lemma MedianTime_eq:
  assumes inv: "index_inv vi D" and x: "x \<in> dom D"
  shows "MedianTime vi x g = Some (median_of (vi_validators vi) D x g)"
proof -
  let ?vv = "vi_validators vi"
  have vv: "valid_group ?vv" using sane_groupD [OF index_invD(1) [OF inv]] .
  obtain s u where get: "getHighestBeforeMerged vi x = (Some s, Some u)"
    and mark: "\<And>c. c < Validators_Len ?vv \<Longrightarrow> forked ?vv D (past D x) c \<Longrightarrow> HighestBeforeSeq_Get s c = forkDetectedSeq"
    and cells: "\<And>c. c < Validators_Len ?vv \<Longrightarrow> \<not> forked ?vv D (past D x) c \<Longrightarrow>
      cell_of D (by_creator ?vv D (past D x) c) (HighestBeforeSeq_Get s c) (HighestBeforeTime_Get u c)" by (rule merged_cells [OF inv x]) (rule that)
  have "medianEntry ?vv s u g c = Some (median_entry ?vv D x g c)" if c: "c < Validators_Len ?vv" for c
  proof (cases "forked ?vv D (past D x) c")
    case True
    with mark [OF c] merged_time_forked [OF inv x get c] c show ?thesis
      by (simp add: medianEntry_def median_entry_def honest_def GetStakeByIdx_nth vv)
  next
    case False
    note cell = cells [OF c False, unfolded cell_of_def]
    then have "\<not> IsForkDetected (HighestBeforeSeq_Get s c)" "Seq (HighestBeforeSeq_Get s c) = 0 \<longleftrightarrow> by_creator ?vv D (past D x) c = {}"
      using summ_not_marker Seq_summ_zero by auto
    with False c cell show ?thesis by (simp add: medianEntry_def median_entry_def honest_def claimed_def GetStakeByIdx_nth vv)
  qed
  then have m: "mapM (medianEntry ?vv s u g) [0..<Validators_Len ?vv] = Some (map (median_entry ?vv D x g) [0..<Validators_Len ?vv])"
    by (intro mapM_Some) simp
  obtain t where "MedianTime vi x g = Some t" using MedianTime_median [OF inv x] by blast
  then show ?thesis using get m vv by (auto simp: MedianTime_def median_of_def Let_def split: prod.splits if_splits)
qed



end
