(* ===== verification/Election.thy ===== *)
theory Election
  imports Forkless_Cause "HOL-Library.AList"
begin

text \<open>
  Package \<open>poset/election\<close>: the election of the Atropos of a frame (\<open>election.go\<close>,
  \<open>election_math.go\<close>, \<open>sort_roots.go\<close>). \<open>observe\<close> and \<open>getFrameRoots\<close>, the function fields of the
  Go struct, are arguments. The map of decided roots is an association list, since the code
  asks for its length; the order of its entries is never observed. A call that stops the
  process (\<open>log.Crit\<close>, a nil dereference) returns \<^const>\<open>None\<close>, a returned \<open>error\<close> is an \<open>Inl\<close>.
\<close>

subsection \<open>State\<close>

record Slot =
  sFrame :: Frame
  sValidator :: StakerID

record RootAndSlot =
  rID :: hash_event
  rSlot :: Slot

record voteValue =
  decided :: bool
  yes :: bool
  observedRoot :: hash_event

record Election =
  frameToDecide :: Frame
  el_validators :: Validators
  decidedRoots :: "(StakerID \<times> voteValue) list"
  votes :: "hash_event \<times> StakerID \<rightharpoonup> voteValue"

record Res =
  res_Frame :: Frame
  res_Atropos :: hash_event

datatype elect_err =
    TwoForkRootsSeen hash_event hash_event Frame StakerID
  | TwoForkRootsVoted hash_event Frame StakerID
  | AllRootsNo

type_synonym ForklessCauseFn = "hash_event \<Rightarrow> hash_event \<Rightarrow> bool option"
type_synonym GetFrameRootsFn = "Frame \<Rightarrow> RootAndSlot list option"

definition Election_Reset :: "Validators \<Rightarrow> Frame \<Rightarrow> Election" where
  "Election_Reset vv f = \<lparr>frameToDecide = f, el_validators = vv, decidedRoots = [], votes = Map.empty\<rparr>"

definition Election_New :: "Validators \<Rightarrow> Frame \<Rightarrow> Election" where
  "Election_New vv f = Election_Reset vv f"

subsection \<open>Roots\<close>

definition notDecidedRoots :: "Election \<Rightarrow> StakerID list option" where
  "notDecidedRoots el =
     (let nd = filter (\<lambda>v. map_of (decidedRoots el) v = None) (IDs (el_validators el))
      in if length nd + length (decidedRoots el) \<noteq> Validators_Len (el_validators el) then None else Some nd)"

definition observedRoots :: "ForklessCauseFn \<Rightarrow> GetFrameRootsFn \<Rightarrow> hash_event \<Rightarrow> Frame \<Rightarrow> RootAndSlot list option" where
  "observedRoots observe getFrameRoots root frame = do {
     frameRoots \<leftarrow> getFrameRoots frame;
     foldM (\<lambda>rs fr. do { b \<leftarrow> observe root (rID fr); Some (if b then rs @ [fr] else rs) }) [] frameRoots }"

definition observedRootsMap ::
    "ForklessCauseFn \<Rightarrow> GetFrameRootsFn \<Rightarrow> hash_event \<Rightarrow> Frame \<Rightarrow> (StakerID \<rightharpoonup> RootAndSlot) option" where
  "observedRootsMap observe getFrameRoots root frame = do {
     frameRoots \<leftarrow> getFrameRoots frame;
     foldM (\<lambda>m fr. do { b \<leftarrow> observe root (rID fr); Some (if b then m(sValidator (rSlot fr) \<mapsto> fr) else m) }) Map.empty frameRoots }"

subsection \<open>Choosing the Atropos\<close>

fun chooseAtropos_loop :: "Frame \<Rightarrow> (StakerID \<rightharpoonup> voteValue) \<Rightarrow> StakerID list \<Rightarrow> elect_err + Res option" where
  "chooseAtropos_loop f dr [] = Inl AllRootsNo"
| "chooseAtropos_loop f dr (v # vs) = (case dr v of
     None \<Rightarrow> Inr None
   | Some vote \<Rightarrow> if yes vote then Inr (Some \<lparr>res_Frame = f, res_Atropos = observedRoot vote\<rparr>) else chooseAtropos_loop f dr vs)"

definition chooseAtropos :: "Election \<Rightarrow> elect_err + Res option" where
  "chooseAtropos el = chooseAtropos_loop (frameToDecide el) (map_of (decidedRoots el)) (SortedIDs (el_validators el))"

subsection \<open>Votes\<close>

record tally =
  subjectHash :: "hash_event option"
  yesVotes :: StakeCounter
  noVotes :: StakeCounter
  allVotes :: StakeCounter

text \<open>
  One vote of a root of the previous frame. The second error message prints \<open>subjectHash\<close>, a nil
  pointer when no "yes" vote was met yet: printing it stops the process.
\<close>

definition countVote :: "Election \<Rightarrow> StakerID \<Rightarrow> tally \<Rightarrow> RootAndSlot \<Rightarrow> (elect_err + tally) option" where
  "countVote el subject t root = (case votes el (rID root, subject) of
     None \<Rightarrow> None
   | Some vote \<Rightarrow>
       if yes vote \<and> subjectHash t \<noteq> None \<and> subjectHash t \<noteq> Some (observedRoot vote)
       then Some (Inl (TwoForkRootsSeen (the (subjectHash t)) (observedRoot vote) (frameToDecide el) subject))
       else do {
         t \<leftarrow> (if yes vote
           then do { (_, c) \<leftarrow> Count (yesVotes t) (sValidator (rSlot root));
                     Some (t\<lparr>subjectHash := Some (observedRoot vote), yesVotes := c\<rparr>) }
           else do { (_, c) \<leftarrow> Count (noVotes t) (sValidator (rSlot root)); Some (t\<lparr>noVotes := c\<rparr>) });
         (fresh, c) \<leftarrow> Count (allVotes t) (sValidator (rSlot root));
         if fresh then Some (Inr (t\<lparr>allVotes := c\<rparr>))
         else (case subjectHash t of None \<Rightarrow> None
           | Some h \<Rightarrow> Some (Inl (TwoForkRootsVoted h (frameToDecide el) subject))) })"

definition zero_vote :: voteValue where
  "zero_vote = \<lparr>decided = False, yes = False, observedRoot = replicate 32 0\<rparr>"

text \<open>The first round votes for what the root observes directly.\<close>

definition firstVote :: "(StakerID \<rightharpoonup> RootAndSlot) \<Rightarrow> StakerID \<Rightarrow> voteValue" where
  "firstVote orm subject = (case orm subject of
     None \<Rightarrow> zero_vote
   | Some r \<Rightarrow> zero_vote\<lparr>yes := True, observedRoot := rID r\<rparr>)"

text \<open>Later rounds vote as the majority of the observed roots of the previous frame.\<close>

definition nextVote :: "Election \<Rightarrow> RootAndSlot list \<Rightarrow> StakerID \<Rightarrow> (elect_err + voteValue) option" where
  "nextVote el orts subject =
     (let c = NewCounter (el_validators el) in
      try_bind (foldE (countVote el subject) \<lparr>subjectHash = None, yesVotes = c, noVotes = c, allVotes = c\<rparr> orts) (\<lambda>t.
        if \<not> HasQuorum (allVotes t) then None
        else let y = (Counter_Sum (yesVotes t) \<ge> Counter_Sum (noVotes t)) in
          Some (Inr \<lparr>decided = HasQuorum (yesVotes t) \<or> HasQuorum (noVotes t), yes = y,
            observedRoot = (case subjectHash t of Some h \<Rightarrow> if y then h else replicate 32 0 | None \<Rightarrow> replicate 32 0)\<rparr>)))"

text \<open>The body of the loop over the subjects that are not decided.\<close>

definition voteFor :: "RootAndSlot \<Rightarrow> nat \<Rightarrow> (StakerID \<rightharpoonup> RootAndSlot) \<Rightarrow> RootAndSlot list \<Rightarrow>
    Election \<Rightarrow> StakerID \<Rightarrow> (elect_err + Election) option" where
  "voteFor newRoot rnd orm orts el subject =
     try_bind (if rnd = 1 then Some (Inr (firstVote orm subject)) else nextVote el orts subject) (\<lambda>vote.
       let el = (if rnd \<noteq> 1 \<and> decided vote
                 then el\<lparr>decidedRoots := AList.update subject vote (decidedRoots el)\<rparr> else el)
       in Some (Inr (el\<lparr>votes := (votes el)((rID newRoot, subject) \<mapsto> vote)\<rparr>)))"

definition ProcessRoot :: "ForklessCauseFn \<Rightarrow> GetFrameRootsFn \<Rightarrow> Election \<Rightarrow> RootAndSlot \<Rightarrow>
    (elect_err + Res option \<times> Election) option" where
  "ProcessRoot observe getFrameRoots el newRoot = (case chooseAtropos el of
     Inl err \<Rightarrow> Some (Inl err)
   | Inr (Some res) \<Rightarrow> Some (Inr (Some res, el))
   | Inr None \<Rightarrow>
       if sFrame (rSlot newRoot) \<le> frameToDecide el then Some (Inr (None, el))
       else do {
         let rnd = unat (sFrame (rSlot newRoot) - frameToDecide el);
         if rnd = 0 then Some (Inr (None, el))
         else do {
           nd \<leftarrow> notDecidedRoots el;
           orm \<leftarrow> (if rnd = 1 then observedRootsMap observe getFrameRoots (rID newRoot) (sFrame (rSlot newRoot) - 1) else Some Map.empty);
           orts \<leftarrow> (if rnd = 1 then Some [] else observedRoots observe getFrameRoots (rID newRoot) (sFrame (rSlot newRoot) - 1));
           try_bind (foldE (voteFor newRoot rnd orm orts) el nd) (\<lambda>el.
             (case chooseAtropos el of Inl err \<Rightarrow> Some (Inl err) | Inr r \<Rightarrow> Some (Inr (r, el)))) } })"

lemma case_err_eq:
  "(case m of Inl e \<Rightarrow> Some (Inl e) | Inr x \<Rightarrow> Some (Inr (f x))) = Some (Inr y) \<longleftrightarrow> (\<exists>x. m = Inr x \<and> f x = y)"
  by (cases m) auto

subsection \<open>What a root observes\<close>

text \<open>
  The observed roots and their map, when \<open>observe\<close> answers \<open>ob\<close> and \<open>rs\<close> are the roots of the
  previous frame.
\<close>

definition seen_list :: "(hash_event \<Rightarrow> hash_event \<Rightarrow> bool) \<Rightarrow> RootAndSlot list \<Rightarrow> RootAndSlot \<Rightarrow> RootAndSlot list" where
  "seen_list ob rs r = filter (\<lambda>x. ob (rID r) (rID x)) rs"

definition seen_map :: "(hash_event \<Rightarrow> hash_event \<Rightarrow> bool) \<Rightarrow> RootAndSlot list \<Rightarrow> RootAndSlot \<Rightarrow> (StakerID \<rightharpoonup> RootAndSlot)" where
  "seen_map ob rs r s = (case filter (\<lambda>x. sValidator (rSlot x) = s) (seen_list ob rs r) of [] \<Rightarrow> None | xs \<Rightarrow> Some (last xs))"

definition answers :: "ForklessCauseFn \<Rightarrow> GetFrameRootsFn \<Rightarrow> (hash_event \<Rightarrow> hash_event \<Rightarrow> bool) \<Rightarrow> RootAndSlot list \<Rightarrow> RootAndSlot \<Rightarrow> bool" where
  "answers observe g ob rs r \<longleftrightarrow> g (sFrame (rSlot r) - 1) = Some rs \<and> (\<forall>x \<in> set rs. observe (rID r) (rID x) = Some (ob (rID r) (rID x)))"

lemma observedRoots_eq:
  assumes "answers observe g ob rs r"
  shows "observedRoots observe g (rID r) (sFrame (rSlot r) - 1) = Some (seen_list ob rs r)"
proof -
  have fl: "foldl (\<lambda>rs fr. if P fr then rs @ [fr] else rs) acc xs = acc @ filter P xs" for P acc and xs :: "RootAndSlot list"
    by (induction xs arbitrary: acc) auto
  have "foldM (\<lambda>rs fr. do { b \<leftarrow> observe (rID r) (rID fr); Some (if b then rs @ [fr] else rs) }) [] rs =
      Some (foldl (\<lambda>rs fr. if ob (rID r) (rID fr) then rs @ [fr] else rs) [] rs)"
    by (rule foldM_pure) (use assms in \<open>simp add: answers_def\<close>)
  then show ?thesis using assms unfolding fl by (simp add: seen_list_def observedRoots_def answers_def)
qed

lemma observedRootsMap_eq:
  assumes "answers observe g ob rs r"
  shows "observedRootsMap observe g (rID r) (sFrame (rSlot r) - 1) = Some (seen_map ob rs r)"
proof -
  have fl: "foldl (\<lambda>m fr. if P fr then m(sValidator (rSlot fr) \<mapsto> fr) else m) m xs s =
      (case filter (\<lambda>x. P x \<and> sValidator (rSlot x) = s) xs of [] \<Rightarrow> m s | ys \<Rightarrow> Some (last ys))" for P m xs s
    by (induction xs arbitrary: m) (auto split: list.splits)
  have "foldM (\<lambda>m fr. do { b \<leftarrow> observe (rID r) (rID fr); Some (if b then m(sValidator (rSlot fr) \<mapsto> fr) else m) }) Map.empty rs =
      Some (foldl (\<lambda>m fr. if ob (rID r) (rID fr) then m(sValidator (rSlot fr) \<mapsto> fr) else m) Map.empty rs)"
    by (rule foldM_pure) (use assms in \<open>simp add: answers_def\<close>)
  then show ?thesis using assms
    by (simp add: fun_eq_iff fl seen_map_def seen_list_def conj_commute observedRootsMap_def answers_def)
qed

lemma voteFor_first: "voteFor r 1 m [] = voteFor r 1 m xs"
  by (simp add: voteFor_def fun_eq_iff)

lemma voteFor_later: "n \<noteq> 1 \<Longrightarrow> voteFor r n Map.empty xs = voteFor r n m xs"
  by (simp add: voteFor_def fun_eq_iff)

lemma ProcessRoot_known:
  assumes "answers observe g ob rs r"
  shows "ProcessRoot observe g el r = (case chooseAtropos el of
     Inl err \<Rightarrow> Some (Inl err)
   | Inr (Some res) \<Rightarrow> Some (Inr (Some res, el))
   | Inr None \<Rightarrow>
       if sFrame (rSlot r) \<le> frameToDecide el then Some (Inr (None, el))
       else if unat (sFrame (rSlot r) - frameToDecide el) = 0 then Some (Inr (None, el))
       else do {
         nd \<leftarrow> notDecidedRoots el;
         try_bind (foldE (voteFor r (unat (sFrame (rSlot r) - frameToDecide el)) (seen_map ob rs r) (seen_list ob rs r)) el nd) (\<lambda>el.
           (case chooseAtropos el of Inl err \<Rightarrow> Some (Inl err) | Inr r \<Rightarrow> Some (Inr (r, el)))) })"
proof -
  let ?n = "unat (sFrame (rSlot r) - frameToDecide el)"
  have "voteFor r ?n (if ?n = 1 then seen_map ob rs r else Map.empty) (if ?n = 1 then [] else seen_list ob rs r) =
      voteFor r ?n (seen_map ob rs r) (seen_list ob rs r)"
    using voteFor_first [of r "seen_map ob rs r" "seen_list ob rs r"] voteFor_later [of ?n r "seen_list ob rs r" "seen_map ob rs r"] by (cases "?n = 1") auto
  then show ?thesis unfolding ProcessRoot_def Let_def
    by (cases "?n = 1") (simp_all add: observedRoots_eq [OF assms] observedRootsMap_eq [OF assms] cong: if_cong sum.case_cong option.case_cong)
qed

subsection \<open>Counting votes\<close>

abbreviation root_idx :: "Validators \<Rightarrow> RootAndSlot \<Rightarrow> nat" where
  "root_idx vv r \<equiv> GetIdx vv (sValidator (rSlot r))"

definition tally_inv :: "Validators \<Rightarrow> tally \<Rightarrow> bool" where
  "tally_inv vv t \<longleftrightarrow> counter_inv vv (yesVotes t) \<and> counter_inv vv (noVotes t) \<and> counter_inv vv (allVotes t)"

text \<open>Votes of distinct validators that agree on the subject's root are counted without error.\<close>

lemma countVote_ok:
  assumes sane: "sane_group vv" and inv: "tally_inv vv t" and v: "votes el (rID x, s) = Some v"
    and x: "Exists vv (sValidator (rSlot x))" "root_idx vv x \<notin> counted (allVotes t)"
    and h: "yes v \<longrightarrow> observedRoot v = h" "subjectHash t = None \<or> subjectHash t = Some h"
  shows "\<exists>t'. countVote el s t x = Some (Inr t') \<and> tally_inv vv t' \<and>
     counted (allVotes t') = insert (root_idx vv x) (counted (allVotes t)) \<and>
     counted (yesVotes t') = (if yes v then insert (root_idx vv x) (counted (yesVotes t)) else counted (yesVotes t)) \<and>
     counted (noVotes t') = (if yes v then counted (noVotes t) else insert (root_idx vv x) (counted (noVotes t))) \<and>
     subjectHash t' = (if yes v then Some h else subjectHash t)"
proof -
  have i: "root_idx vv x < Validators_Len vv" using GetIdx_Exists sane_groupD [OF sane] x(1) by blast
  note c = inv [unfolded tally_inv_def]
  obtain cy where cy: "CountByIdx (yesVotes t) (root_idx vv x) = Some (root_idx vv x \<notin> counted (yesVotes t), cy)"
      "counter_inv vv cy" "counted cy = insert (root_idx vv x) (counted (yesVotes t))" using CountByIdx_Some [OF sane _ i] c by blast
  obtain cn where cn: "CountByIdx (noVotes t) (root_idx vv x) = Some (root_idx vv x \<notin> counted (noVotes t), cn)"
      "counter_inv vv cn" "counted cn = insert (root_idx vv x) (counted (noVotes t))" using CountByIdx_Some [OF sane _ i] c by blast
  obtain ca where ca: "CountByIdx (allVotes t) (root_idx vv x) = Some (root_idx vv x \<notin> counted (allVotes t), ca)"
      "counter_inv vv ca" "counted ca = insert (root_idx vv x) (counted (allVotes t))" using CountByIdx_Some [OF sane _ i] c by blast
  have vs: "sc_validators (yesVotes t) = vv" "sc_validators (noVotes t) = vv" "sc_validators (allVotes t) = vv"
    using c by (auto simp: counter_inv_def)
  show ?thesis using cy cn ca vs v x(2) h c by (auto simp: countVote_def Count_def tally_inv_def)
qed

lemma tally_fold:
  assumes sane: "sane_group vv" and v: "\<forall>x \<in> set xs. votes el (rID x, s) = Some (V x) \<and> Exists vv (sValidator (rSlot x)) \<and> (yes (V x) \<longrightarrow> observedRoot (V x) = h)"
    and d: "distinct (map (root_idx vv) xs)" and inv: "tally_inv vv t" and fresh: "root_idx vv ` set xs \<inter> counted (allVotes t) = {}"
    and sh: "subjectHash t = None \<or> subjectHash t = Some h"
  shows "\<exists>t'. foldE (countVote el s) t xs = Some (Inr t') \<and> tally_inv vv t' \<and>
     counted (allVotes t') = counted (allVotes t) \<union> root_idx vv ` set xs \<and>
     counted (yesVotes t') = counted (yesVotes t) \<union> root_idx vv ` {x \<in> set xs. yes (V x)} \<and>
     counted (noVotes t') = counted (noVotes t) \<union> root_idx vv ` {x \<in> set xs. \<not> yes (V x)} \<and>
     subjectHash t' = (if \<exists>x \<in> set xs. yes (V x) then Some h else subjectHash t)"
  using v d inv fresh sh
proof (induction xs arbitrary: t)
  case (Cons x xs)
  have "votes el (rID x, s) = Some (V x)" "Exists vv (sValidator (rSlot x))" "root_idx vv x \<notin> counted (allVotes t)"
      "yes (V x) \<longrightarrow> observedRoot (V x) = h" using Cons.prems by auto
  from countVote_ok [OF sane Cons.prems(3) this Cons.prems(5)] obtain t1 where t1: "countVote el s t x = Some (Inr t1)"
    "tally_inv vv t1" "counted (allVotes t1) = insert (root_idx vv x) (counted (allVotes t))"
    "counted (yesVotes t1) = (if yes (V x) then insert (root_idx vv x) (counted (yesVotes t)) else counted (yesVotes t))"
    "counted (noVotes t1) = (if yes (V x) then counted (noVotes t) else insert (root_idx vv x) (counted (noVotes t)))"
    "subjectHash t1 = (if yes (V x) then Some h else subjectHash t)" by blast
  have "root_idx vv ` set xs \<inter> counted (allVotes t1) = {}" "subjectHash t1 = None \<or> subjectHash t1 = Some h"
    using Cons.prems t1 by auto
  from Cons.IH [OF _ _ t1(2) this] Cons.prems(1,2) obtain t2 where "foldE (countVote el s) t1 xs = Some (Inr t2)" "tally_inv vv t2"
    "counted (allVotes t2) = counted (allVotes t1) \<union> root_idx vv ` set xs"
    "counted (yesVotes t2) = counted (yesVotes t1) \<union> root_idx vv ` {x \<in> set xs. yes (V x)}"
    "counted (noVotes t2) = counted (noVotes t1) \<union> root_idx vv ` {x \<in> set xs. \<not> yes (V x)}"
    "subjectHash t2 = (if \<exists>x \<in> set xs. yes (V x) then Some h else subjectHash t1)" by auto
  with t1 show ?case by (intro exI [of _ t2]) (auto simp: image_iff)
qed auto

lemma countVote_known: "countVote el s t x = Some r \<Longrightarrow> votes el (rID x, s) \<noteq> None"
  by (cases "votes el (rID x, s)") (simp_all add: countVote_def)

lemma foldE_countVote_known: "foldE (countVote el s) t xs = Some (Inr t') \<Longrightarrow> x \<in> set xs \<Longrightarrow> votes el (rID x, s) \<noteq> None"
  by (induction xs arbitrary: t) (auto simp: try_bind_eq_Inr dest: countVote_known)

subsection \<open>Double counting\<close>

lemma weight_sum_if: "weight ws A = (\<Sum>i < length ws. if i \<in> A then ws ! i else 0)"
proof -
  have eq: "{i. i \<in> A \<and> i < length ws} = {i \<in> {..<length ws}. i \<in> A}" by auto
  show ?thesis unfolding weight_def eq by (rule sum.inter_filter) simp
qed

text \<open>If every row of a relation is light, some column is.\<close>

lemma light_column:
  assumes rows: "\<forall>c. 3 * weight ws {s. N c s} < T" and T: "T = sum_list ws" "0 < T"
  shows "\<exists>s < length ws. 3 * weight ws {c. N c s} < T"
proof (rule ccontr)
  assume "\<not> ?thesis"
  then have cols: "T \<le> 3 * weight ws {c. N c s}" if "s < length ws" for s using that by auto
  let ?n = "length ws"
  have sum: "(\<Sum>i < ?n. ws ! i) = T" by (simp add: T sum_list_sum_nth atLeast0LessThan)
  have "T * T = (\<Sum>s < ?n. ws ! s * T)" by (simp add: sum_distrib_right [symmetric] sum)
  also have "\<dots> \<le> (\<Sum>s < ?n. ws ! s * (3 * weight ws {c. N c s}))" using cols by (intro sum_mono mult_left_mono) auto
  also have "\<dots> = (\<Sum>s < ?n. \<Sum>c < ?n. 3 * (if N c s then ws ! s * ws ! c else 0))"
    by (simp add: weight_sum_if sum_distrib_left mult.left_commute if_distrib cong: if_cong)
  also have "\<dots> = (\<Sum>c < ?n. \<Sum>s < ?n. 3 * (if N c s then ws ! s * ws ! c else 0))" by (rule sum.swap)
  also have "\<dots> = (\<Sum>c < ?n. ws ! c * (3 * weight ws {s. N c s}))"
    by (simp add: weight_sum_if sum_distrib_left mult.left_commute mult.commute if_distrib cong: if_cong)
  also have "\<dots> \<le> (\<Sum>c < ?n. ws ! c * (T - 1))"
  proof (intro sum_mono mult_left_mono)
    fix c show "3 * weight ws {s. N c s} \<le> T - 1" using rows [rule_format, of c] by linarith
  qed simp
  also have "\<dots> = T * (T - 1)" by (simp add: sum_distrib_right [symmetric] sum)
  finally show False using T(2) by simp
qed

subsection \<open>Votes on the root graph\<close>

text \<open>
  What the election means, apart from the order in which roots arrive. \<open>rts f\<close> are the roots of
  frame \<open>f\<close>, \<open>who\<close> their validators, \<open>sees a x\<close> says that \<open>x\<close> forkless-causes \<open>a\<close>. \<open>ballot F k r s\<close> is
  the vote of root \<open>r\<close> of frame \<open>F + k + 1\<close> on subject \<open>s\<close>.
\<close>

fun ballot :: "(nat set \<Rightarrow> nat) \<Rightarrow> (nat \<Rightarrow> 'r set) \<Rightarrow> ('r \<Rightarrow> nat) \<Rightarrow> ('r \<Rightarrow> 'r \<Rightarrow> bool) \<Rightarrow> nat \<Rightarrow> nat \<Rightarrow> 'r \<Rightarrow> nat \<Rightarrow> bool" where
  "ballot wt rts who sees F 0 r s = (\<exists>x \<in> rts F. who x = s \<and> sees r x)"
| "ballot wt rts who sees F (Suc k) r s =
     (wt (who ` {x \<in> rts (F + k + 1). sees r x \<and> \<not> ballot wt rts who sees F k x s}) \<le>
      wt (who ` {x \<in> rts (F + k + 1). sees r x \<and> ballot wt rts who sees F k x s}))"

text \<open>
  What the election relies on: of the roots in one slot at most one is ever seen, and a root of
  a later frame sees a quorum of the roots of the frame before.
\<close>

locale root_world = weighted_quorums ok wt total qrt
  for ok :: "'w \<Rightarrow> bool" and wt :: "'w \<Rightarrow> nat set \<Rightarrow> nat" and total :: "'w \<Rightarrow> nat" and qrt :: "'w \<Rightarrow> nat set \<Rightarrow> bool" +
  fixes rts :: "'w \<Rightarrow> nat \<Rightarrow> 'r set" and who :: "'w \<Rightarrow> 'r \<Rightarrow> nat" and sees :: "'w \<Rightarrow> 'r \<Rightarrow> 'r \<Rightarrow> bool"
  assumes slot_unique: "ok w \<Longrightarrow> a \<in> rts w (Suc f) \<Longrightarrow> b \<in> rts w (Suc f) \<Longrightarrow> x \<in> rts w f \<Longrightarrow> y \<in> rts w f \<Longrightarrow>
      who w x = who w y \<Longrightarrow> sees w a x \<Longrightarrow> sees w b y \<Longrightarrow> x = y"
    and root_quorum: "ok w \<Longrightarrow> 0 < f \<Longrightarrow> a \<in> rts w (Suc f) \<Longrightarrow> qrt w (who w ` {x \<in> rts w f. sees w a x})"
begin

abbreviation vote :: "'w \<Rightarrow> nat \<Rightarrow> nat \<Rightarrow> 'r \<Rightarrow> nat \<Rightarrow> bool" where
  "vote w \<equiv> ballot (wt w) (rts w) (who w) (sees w)"

text \<open>The validators whose roots \<open>r\<close> sees voting \<open>v\<close>.\<close>

definition voters :: "'w \<Rightarrow> nat \<Rightarrow> nat \<Rightarrow> 'r \<Rightarrow> nat \<Rightarrow> bool \<Rightarrow> nat set" where
  "voters w F k r s v = who w ` {x \<in> rts w (F + k + 1). sees w r x \<and> vote w F k x s = v}"

lemma vote_Suc: "vote w F (Suc k) r s \<longleftrightarrow> wt w (voters w F k r s False) \<le> wt w (voters w F k r s True)"
  by (simp add: voters_def)

lemma voters_Un: "voters w F k r s True \<union> voters w F k r s False = who w ` {x \<in> rts w (F + k + 1). sees w r x}"
  by (auto simp: voters_def)

text \<open>A validator seen voting \<open>v\<close> by one root is not seen voting otherwise by another.\<close>

lemma voters_consistent:
  assumes "ok w" "r \<in> rts w (F + k + 2)" "r' \<in> rts w (F + k + 2)"
  shows "voters w F k r s v \<inter> voters w F k r' s (\<not> v) = {}"
proof (rule ccontr)
  assume "voters w F k r s v \<inter> voters w F k r' s (\<not> v) \<noteq> {}"
  then obtain x y where x: "x \<in> rts w (F + k + 1)" "sees w r x" "vote w F k x s = v"
    and y: "y \<in> rts w (F + k + 1)" "sees w r' y" "vote w F k y s = (\<not> v)" and xy: "who w x = who w y"
    unfolding voters_def by blast
  have "x = y" by (rule slot_unique [OF assms(1) _ _ x(1) y(1) xy x(2) y(2)]) (use assms in simp_all)
  with x(3) y(3) show False by simp
qed

lemma disjoint_light: "ok w \<Longrightarrow> qrt w A \<Longrightarrow> A \<inter> B = {} \<Longrightarrow> 3 * wt w B < total w"
  using wt_modular [of w A B] wt_total [of w "A \<union> B"] by (simp add: qrt_iff wt_empty)

text \<open>Once one root sees a quorum for \<open>v\<close>, every root of its frame votes \<open>v\<close>.\<close>

lemma quorum_binds:
  assumes w: "ok w" and r: "r \<in> rts w (F + k + 2)" "r' \<in> rts w (F + k + 2)" and q: "qrt w (voters w F k r s v)"
  shows "vote w F (Suc k) r' s = v"
proof -
  let ?O = "who w ` {x \<in> rts w (F + k + 1). sees w r' x}"
  have "qrt w ?O" using root_quorum [OF w, of "F + k + 1" r'] r by simp
  then have "total w < 3 * wt w (?O \<inter> voters w F k r s v)" using overlap_heavy [OF w _ q] by blast
  moreover have dis: "voters w F k r s v \<inter> voters w F k r' s (\<not> v) = {}" using voters_consistent [OF w r] .
  then have "?O \<inter> voters w F k r s v \<subseteq> voters w F k r' s v"
    using voters_Un [of w F k r' s] by (cases v) auto
  then have "wt w (?O \<inter> voters w F k r s v) \<le> wt w (voters w F k r' s v)" by (rule wt_mono)
  ultimately have "wt w (voters w F k r' s (\<not> v)) < wt w (voters w F k r' s v)"
    using disjoint_light [OF w q dis] by simp
  then show ?thesis unfolding vote_Suc by (cases v) auto
qed

text \<open>A unanimous frame stays unanimous.\<close>

lemma unanimous_Suc:
  assumes w: "ok w" and all: "\<forall>x \<in> rts w (F + k + 1). vote w F k x s = v" and r: "r \<in> rts w (F + k + 2)"
  shows "vote w F (Suc k) r s = v"
proof -
  have none: "voters w F k r s (\<not> v) = {}" using all by (auto simp: voters_def)
  have "qrt w (who w ` {x \<in> rts w (F + k + 1). sees w r x})" using root_quorum [OF w, of "F + k + 1" r] r by simp
  then have "qrt w (voters w F k r s v)" using voters_Un [of w F k r s] none by (cases v) auto
  then have "0 < wt w (voters w F k r s v)" using w by (simp add: qrt_iff)
  with none show ?thesis unfolding vote_Suc by (cases v) (auto simp: wt_empty)
qed

lemma unanimous:
  assumes w: "ok w" and r: "r \<in> rts w (F + k + 2)" and q: "qrt w (voters w F k r s v)"
  shows "\<forall>x \<in> rts w (F + k + 2 + j). vote w F (Suc k + j) x s = v"
proof (induction j)
  case 0
  then show ?case using quorum_binds [OF w r _ q] by simp
next
  case (Suc j)
  have "\<forall>x \<in> rts w (F + (Suc k + j) + 1). vote w F (Suc k + j) x s = v" using Suc by (simp add: add_ac)
  then show ?case using unanimous_Suc [OF w, of F "Suc k + j" s v] by (simp add: add_ac)
qed

text \<open>Two decisions about a subject, at whatever rounds, agree.\<close>

lemma decisions_agree_le:
  assumes w: "ok w" and r: "r \<in> rts w (F + k + 2)" "r' \<in> rts w (F + k' + 2)" and le: "k \<le> k'"
    and q: "qrt w (voters w F k r s v)" "qrt w (voters w F k' r' s v')"
  shows "v = v'"
proof (rule ccontr)
  assume "v \<noteq> v'"
  then have v': "v' = (\<not> v)" by auto
  show False
  proof (cases "k = k'")
    case True
    then have "voters w F k r s v \<inter> voters w F k' r' s v' = {}" using voters_consistent [OF w, of r F k r' s v] r v' by simp
    then show False using complement_light [OF w q(1)] q(2) by blast
  next
    case False
    then obtain j where j: "k' = Suc k + j" using le less_imp_Suc_add by (metis add_Suc le_neq_implies_less)
    have "voters w F k' r' s v' = {}"
      using unanimous [OF w r(1) q(1), of j] v' unfolding voters_def j by (auto simp: add_ac)
    then show False using q(2) w by (simp add: qrt_iff wt_empty)
  qed
qed

lemma decisions_agree:
  assumes w: "ok w" and r: "r \<in> rts w (F + k + 2)" "r' \<in> rts w (F + k' + 2)"
    and q: "qrt w (voters w F k r s v)" "qrt w (voters w F k' r' s v')"
  shows "v = v'"
  using decisions_agree_le [OF w r _ q] decisions_agree_le [OF w r(2,1) _ q(2,1)] by (cases "k \<le> k'") auto

end

subsection \<open>The election computes the votes\<close>

locale election_world = root_world ok wt total qrt rts who sees
  for ok :: "'w \<Rightarrow> bool" and wt :: "'w \<Rightarrow> nat set \<Rightarrow> nat" and total :: "'w \<Rightarrow> nat" and qrt :: "'w \<Rightarrow> nat set \<Rightarrow> bool"
    and rts :: "'w \<Rightarrow> nat \<Rightarrow> RootAndSlot set" and who :: "'w \<Rightarrow> RootAndSlot \<Rightarrow> nat" and sees :: "'w \<Rightarrow> RootAndSlot \<Rightarrow> RootAndSlot \<Rightarrow> bool" +
  fixes grp :: "'w \<Rightarrow> Validators" and obsv :: "'w \<Rightarrow> hash_event \<Rightarrow> hash_event \<Rightarrow> bool"
  assumes sane: "ok w \<Longrightarrow> sane_group (grp w)"
    and wt_grp: "wt w = stake_weight (grp w)" and total_grp: "total w = stake_total (grp w)" and qrt_grp: "qrt w = quorate (grp w)"
    and who_grp: "who w r = root_idx (grp w) r" and sees_obsv: "sees w a x = obsv w (rID a) (rID x)"
    and member: "ok w \<Longrightarrow> r \<in> rts w f \<Longrightarrow> Exists (grp w) (sValidator (rSlot r)) \<and> unat (sFrame (rSlot r)) = f"
    and root_id: "ok w \<Longrightarrow> r \<in> rts w f \<Longrightarrow> r' \<in> rts w f' \<Longrightarrow> rID r = rID r' \<Longrightarrow> r = r'"
begin

text \<open>A root of slot \<open>(F, s)\<close> that some root of the next frame sees; there is at most one.\<close>

definition candidate :: "'w \<Rightarrow> nat \<Rightarrow> StakerID \<Rightarrow> hash_event \<Rightarrow> bool" where
  "candidate w F s h \<longleftrightarrow> (\<exists>a x. a \<in> rts w (Suc F) \<and> x \<in> rts w F \<and> sees w a x \<and> rID x = h \<and> sValidator (rSlot x) = s)"

lemma candidate_unique: "ok w \<Longrightarrow> candidate w F s h \<Longrightarrow> candidate w F s h' \<Longrightarrow> h = h'"
  unfolding candidate_def using slot_unique by (metis who_grp)

definition good_vote :: "'w \<Rightarrow> nat \<Rightarrow> nat \<Rightarrow> RootAndSlot \<Rightarrow> StakerID \<Rightarrow> voteValue \<Rightarrow> bool" where
  "good_vote w F k r s v \<longleftrightarrow> yes v = vote w F k r (GetIdx (grp w) s) \<and> (yes v \<longrightarrow> candidate w F s (observedRoot v)) \<and>
     decided v = (case k of 0 \<Rightarrow> False | Suc k' \<Rightarrow> (\<exists>b. qrt w (voters w F k' r (GetIdx (grp w) s) b)))"

definition el_inv :: "'w \<Rightarrow> nat \<Rightarrow> Election \<Rightarrow> bool" where
  "el_inv w F el \<longleftrightarrow> el_validators el = grp w \<and> unat (frameToDecide el) = F \<and> distinct (map fst (decidedRoots el)) \<and>
     (\<forall>h s v. votes el (h, s) = Some v \<longrightarrow> Exists (grp w) s \<and> (\<exists>k r. rID r = h \<and> r \<in> rts w (F + k + 1) \<and> good_vote w F k r s v)) \<and>
     (\<forall>s v. map_of (decidedRoots el) s = Some v \<longrightarrow> Exists (grp w) s \<and>
        (\<exists>k r. r \<in> rts w (F + k + 2) \<and> good_vote w F (Suc k) r s v \<and> decided v))"

lemma el_inv_Reset: "el_inv w (unat f) (Election_Reset (grp w) f)"
  by (simp add: el_inv_def Election_Reset_def)

text \<open>What a node's list of roots of the previous frame must have for the root it processes.\<close>

definition shows_roots :: "'w \<Rightarrow> RootAndSlot list \<Rightarrow> RootAndSlot \<Rightarrow> bool" where
  "shows_roots w rs r \<longleftrightarrow> (let f = sFrame (rSlot r) - 1 in distinct rs \<and> set rs \<subseteq> rts w (unat f) \<and>
     {x \<in> rts w (unat f). sees w r x} \<subseteq> set rs)"

lemma seen_list_set:
  assumes "shows_roots w rs r"
  shows "set (seen_list (obsv w) rs r) = {x \<in> rts w (unat (sFrame (rSlot r) - 1)). sees w r x}" "distinct (seen_list (obsv w) rs r)"
  using assms by (auto simp: shows_roots_def Let_def seen_list_def sees_obsv)

lemma firstVote_good:
  assumes w: "ok w" and r: "r \<in> rts w (Suc F)" and g: "shows_roots w rs r" and s: "Exists (grp w) s"
  shows "good_vote w F 0 r s (firstVote (seen_map (obsv w) rs r) s)"
proof -
  let ?f = "sFrame (rSlot r) - 1"
  let ?xs = "filter (\<lambda>x. sValidator (rSlot x) = s) (seen_list (obsv w) rs r)"
  have "unat (sFrame (rSlot r)) = Suc F" using member [OF w r] by blast
  then have f: "unat ?f = F" by unat_arith
  have mem: "set ?xs = {x \<in> rts w F. sees w r x \<and> sValidator (rSlot x) = s}"
    using seen_list_set [OF g] f by auto
  have idx: "who w x = GetIdx (grp w) s \<longleftrightarrow> sValidator (rSlot x) = s" if "x \<in> rts w F" for x
    using GetIdx_inj [OF sane_groupD [OF sane [OF w]]] member [OF w that] s by (auto simp: who_grp)
  show ?thesis
  proof (cases ?xs)
    case Nil
    then have "\<not> (\<exists>x \<in> rts w F. who w x = GetIdx (grp w) s \<and> sees w r x)" using mem idx by (metis (mono_tags, lifting) empty_iff list.set(1) mem_Collect_eq)
    with Nil show ?thesis by (simp add: good_vote_def firstVote_def seen_map_def zero_vote_def)
  next
    case (Cons y ys)
    have l: "last ?xs \<in> set ?xs" by (rule last_in_set) (use Cons in simp)
    then have x: "last ?xs \<in> rts w F" "sees w r (last ?xs)" "sValidator (rSlot (last ?xs)) = s" using mem by blast+
    then have "candidate w F s (rID (last ?xs))" using r unfolding candidate_def by blast
    moreover have "vote w F 0 r (GetIdx (grp w) s)" using x idx by auto
    moreover have "seen_map (obsv w) rs r s = Some (last ?xs)" unfolding seen_map_def Cons by simp
    ultimately show ?thesis by (simp add: good_vote_def firstVote_def zero_vote_def)
  qed
qed

lemma known_vote_good:
  assumes w: "ok w" and inv: "el_inv w F el" and x: "x \<in> rts w (F + k + 1)" and v: "votes el (rID x, s) = Some v"
  shows "good_vote w F k x s v"
proof -
  obtain k' r' where r': "rID r' = rID x" "r' \<in> rts w (F + k' + 1)" "good_vote w F k' r' s v"
    using inv v unfolding el_inv_def by blast
  then have "r' = x" using root_id [OF w r'(2) x] by simp
  moreover have "k' = k" using member [OF w r'(2)] member [OF w x] \<open>r' = x\<close> by simp
  ultimately show ?thesis using r'(3) by simp
qed

lemma nextVote_good:
  assumes w: "ok w" and inv: "el_inv w F el" and r: "r \<in> rts w (F + k + 2)" and s: "Exists (grp w) s"
    and mem: "set orts = {x \<in> rts w (F + k + 1). sees w r x}" and d: "distinct orts"
    and known: "\<forall>x \<in> set orts. votes el (rID x, s) \<noteq> None"
  shows "\<exists>v. nextVote el orts s = Some (Inr v) \<and> good_vote w F (Suc k) r s v"
proof -
  let ?i = "GetIdx (grp w) s" and ?c = "NewCounter (grp w)"
  let ?t0 = "\<lparr>subjectHash = None, yesVotes = ?c, noVotes = ?c, allVotes = ?c\<rparr>"
  define V where "V x = the (votes el (rID x, s))" for x :: RootAndSlot
  have V: "votes el (rID x, s) = Some (V x)" if "x \<in> set orts" for x using known that by (auto simp: V_def)
  have good: "good_vote w F k x s (V x)" if "x \<in> set orts" for x
    using known_vote_good [OF w inv _ V [OF that]] mem that by blast
  obtain h where h: "\<forall>x \<in> set orts. yes (V x) \<longrightarrow> observedRoot (V x) = h"
    using candidate_unique [OF w] good unfolding good_vote_def by metis
  have same: "x = y" if "x \<in> set orts" "y \<in> set orts" "root_idx (grp w) x = root_idx (grp w) y" for x y
    by (rule slot_unique [OF w, of r "F + k + 1" r]) (use that mem r in \<open>auto simp: who_grp\<close>)
  have "distinct (map (root_idx (grp w)) orts)" using d same by (simp add: distinct_map inj_on_def)
  moreover have "\<forall>x \<in> set orts. votes el (rID x, s) = Some (V x) \<and> Exists (grp w) (sValidator (rSlot x)) \<and> (yes (V x) \<longrightarrow> observedRoot (V x) = h)"
    using V h mem member [OF w] by blast
  moreover have "tally_inv (grp w) ?t0" "counted (allVotes ?t0) = {}" by (simp_all add: tally_inv_def)
  ultimately obtain t where t: "foldE (countVote el s) ?t0 orts = Some (Inr t)" "tally_inv (grp w) t"
    "counted (allVotes t) = root_idx (grp w) ` set orts" "counted (yesVotes t) = root_idx (grp w) ` {x \<in> set orts. yes (V x)}"
    "counted (noVotes t) = root_idx (grp w) ` {x \<in> set orts. \<not> yes (V x)}"
    "subjectHash t = (if \<exists>x \<in> set orts. yes (V x) then Some h else None)"
    using tally_fold [OF sane [OF w], of orts el s V h ?t0] by auto
  have img: "who w = root_idx (grp w)" by (simp add: fun_eq_iff who_grp)
  have yn: "counted (yesVotes t) = voters w F k r ?i True" "counted (noVotes t) = voters w F k r ?i False"
    using t(4,5) good mem unfolding voters_def img good_vote_def by auto
  have all: "counted (allVotes t) = who w ` {x \<in> rts w (F + k + 1). sees w r x}" using t(3) mem img by simp
  have q: "qrt w (counted (allVotes t))" using root_quorum [OF w, of "F + k + 1" r] r all by simp
  note cs = t(2) [unfolded tally_inv_def]
  have sum: "unat (Counter_Sum c) = wt w (counted c)" if "counter_inv (grp w) c" for c
    using that unfolding wt_grp by (simp add: Counter_Sum_def counter_inv_def)
  have le: "Counter_Sum (noVotes t) \<le> Counter_Sum (yesVotes t) \<longleftrightarrow> vote w F (Suc k) r ?i"
    using cs sum unfolding vote_Suc yn [symmetric] word_le_nat_alt by simp
  have "HasQuorum (allVotes t)" "HasQuorum (yesVotes t) \<or> HasQuorum (noVotes t) \<longleftrightarrow> (\<exists>b. qrt w (voters w F k r ?i b))"
    using cs q yn HasQuorum_iff qrt_grp by (auto simp: ex_bool_eq)
  moreover have "\<exists>x \<in> set orts. yes (V x)" if "vote w F (Suc k) r ?i"
  proof (rule ccontr)
    assume "\<not> ?thesis"
    then have "voters w F k r ?i True = {}" using t(4) yn(1) by simp
    then have "wt w (counted (allVotes t)) = 0" using that voters_Un [of w F k r ?i] all unfolding vote_Suc by (simp add: wt_empty)
    then show False using q w by (simp add: qrt_iff)
  qed
  moreover have "candidate w F s h" if "\<exists>x \<in> set orts. yes (V x)" using that good h unfolding good_vote_def by metis
  moreover have "el_validators el = grp w" using inv by (simp add: el_inv_def)
  ultimately show ?thesis using t(1,6) le by (auto simp: nextVote_def Let_def good_vote_def)
qed

lemma el_inv_vote:
  assumes inv: "el_inv w F el" and r: "r \<in> rts w (F + k + 1)" and s: "Exists (grp w) s" and g: "good_vote w F k r s v"
    and dr: "k \<noteq> 0 \<and> decided v \<or> b = False"
  shows "el_inv w F (let el = (if b then el\<lparr>decidedRoots := AList.update s v (decidedRoots el)\<rparr> else el)
     in el\<lparr>votes := (votes el)((rID r, s) \<mapsto> v)\<rparr>)"
proof -
  have "\<exists>k' r'. r' \<in> rts w (F + k' + 2) \<and> good_vote w F (Suc k') r' s v \<and> decided v" if b
    using dr r g that by (cases k) auto
  then show ?thesis using inv s r g
    by (auto simp: el_inv_def Let_def update_conv' distinct_update simp del: map_of_eq_Some_iff split: if_splits)
qed

lemma voteFor_inv:
  assumes w: "ok w" and inv: "el_inv w F el" and r: "r \<in> rts w (F + k + 1)" and g: "shows_roots w rs r" and s: "Exists (grp w) s"
    and vf: "voteFor r (Suc k) (seen_map (obsv w) rs r)
       (seen_list (obsv w) rs r) el s = Some (Inr el')"
  shows "el_inv w F el'"
proof (cases k)
  case 0
  let ?v = "firstVote (seen_map (obsv w) rs r) s"
  have "good_vote w F 0 r s ?v" using firstVote_good [OF w _ g s] r 0 by simp
  moreover have "el' = (let el = (if False then el\<lparr>decidedRoots := AList.update s ?v (decidedRoots el)\<rparr> else el)
     in el\<lparr>votes := (votes el)((rID r, s) \<mapsto> ?v)\<rparr>)" using vf 0 by (simp add: voteFor_def Let_def)
  ultimately show ?thesis using el_inv_vote [OF inv _ s, of r 0 ?v False] r 0 by simp
next
  case (Suc k')
  let ?orts = "seen_list (obsv w) rs r"
  have fr: "unat (sFrame (rSlot r) - 1) = F + k' + 1" using member [OF w r] Suc by simp unat_arith
  have mem: "set ?orts = {x \<in> rts w (F + k' + 1). sees w r x}" "distinct ?orts" using seen_list_set [OF g] fr by auto
  obtain v where v: "nextVote el ?orts s = Some (Inr v)" and el': "el' = (let el = (if decided v then el\<lparr>decidedRoots := AList.update s v (decidedRoots el)\<rparr> else el)
     in el\<lparr>votes := (votes el)((rID r, s) \<mapsto> v)\<rparr>)" using vf Suc by (auto simp: voteFor_def try_bind_eq_Inr Let_def)
  from v obtain t where "foldE (countVote el s) \<lparr>subjectHash = None, yesVotes = NewCounter (el_validators el), noVotes = NewCounter (el_validators el),
      allVotes = NewCounter (el_validators el)\<rparr> ?orts = Some (Inr t)" by (auto simp: nextVote_def try_bind_eq_Inr Let_def)
  then have "\<forall>x \<in> set ?orts. votes el (rID x, s) \<noteq> None" using foldE_countVote_known by blast
  with nextVote_good [OF w inv _ s mem] r Suc v have "good_vote w F (Suc k') r s v" by auto
  then show ?thesis unfolding el' using el_inv_vote [OF inv r s, of v "decided v"] Suc by auto
qed

lemma notDecided_members: "ok w \<Longrightarrow> el_inv w F el \<Longrightarrow> notDecidedRoots el = Some nd \<Longrightarrow> s \<in> set nd \<Longrightarrow> Exists (grp w) s"
  using set_SortedIDs [OF sane_groupD [OF sane]] by (auto simp: notDecidedRoots_def el_inv_def Let_def split: if_splits)

lemma ProcessRoot_inv:
  assumes w: "ok w" and inv: "el_inv w F el" and r: "r \<in> rts w f" and g: "shows_roots w rs r"
    and ob: "answers observe g (obsv w) rs r" and pr: "ProcessRoot observe g el r = Some (Inr (res, el'))"
  shows "el_inv w F el' \<and> chooseAtropos el' = Inr res \<and> frameToDecide el' = frameToDecide el"
proof -
  let ?rnd = "unat (sFrame (rSlot r) - frameToDecide el)"
  consider "el' = el" "chooseAtropos el = Inr res"
    | nd where "frameToDecide el < sFrame (rSlot r)" "notDecidedRoots el = Some nd" "chooseAtropos el' = Inr res"
      "foldE (voteFor r ?rnd (seen_map (obsv w) rs r)
        (seen_list (obsv w) rs r)) el nd = Some (Inr el')"
    using pr unfolding ProcessRoot_known [OF ob] by (auto simp: try_bind_eq_Inr Option.bind_eq_Some_conv not_le case_err_eq
        split: sum.split_asm option.split_asm if_split_asm)
  then show ?thesis
  proof cases
    case (2 nd)
    have fr: "unat (sFrame (rSlot r)) = f" "unat (frameToDecide el) = F" using member [OF w r] inv by (auto simp: el_inv_def)
    then have "?rnd = f - F" "F < f" using 2(1) by (auto simp: word_less_nat_alt unat_sub_if')
    then obtain k where k: "?rnd = Suc k" "f = F + k + 1" by (metis Suc_diff_Suc Suc_eq_plus1 add_Suc_right le_add_diff_inverse less_imp_le_nat diff_Suc_Suc)
    have "el_inv w F el' \<and> frameToDecide el' = frameToDecide el"
    proof (rule foldE_invariant [OF 2(4), where I = "\<lambda>el1. el_inv w F el1 \<and> frameToDecide el1 = frameToDecide el"])
      fix e1 s e2 assume s: "s \<in> set nd" and e1: "el_inv w F e1 \<and> frameToDecide e1 = frameToDecide el"
        and e2: "voteFor r ?rnd (seen_map (obsv w) rs r)
        (seen_list (obsv w) rs r) e1 s = Some (Inr e2)"
      have "el_inv w F e2"
        using voteFor_inv [OF w _ r [unfolded k(2)] g notDecided_members [OF w inv 2(2) s] e2 [unfolded k(1)]] e1 by blast
      then show "el_inv w F e2 \<and> frameToDecide e2 = frameToDecide el"
        using e1 e2 by (auto simp: voteFor_def try_bind_eq_Inr Let_def split: if_splits)
    qed (use inv in simp)
    with 2(3) show ?thesis by simp
  qed (use inv in simp)
qed

lemma decided_agree:
  assumes w: "ok w" and inv: "el_inv w F el1" "el_inv w F el2"
    and d: "map_of (decidedRoots el1) s = Some v1" "map_of (decidedRoots el2) s = Some v2"
  shows "yes v1 = yes v2 \<and> (yes v1 \<longrightarrow> observedRoot v1 = observedRoot v2)"
proof -
  let ?i = "GetIdx (grp w) s"
  have dec: "\<exists>k r. r \<in> rts w (F + k + 2) \<and> qrt w (voters w F k r ?i (yes v)) \<and> (yes v \<longrightarrow> candidate w F s (observedRoot v))"
    if i: "el_inv w F el" and v: "map_of (decidedRoots el) s = Some v" for el v
  proof -
    obtain k r where r: "r \<in> rts w (F + k + 2)" "good_vote w F (Suc k) r s v" "decided v" using i v unfolding el_inv_def by blast
    then obtain b where b: "qrt w (voters w F k r ?i b)" by (auto simp: good_vote_def)
    then have "yes v = b" using quorum_binds [OF w r(1) r(1) b] r(2) by (simp add: good_vote_def)
    with r b show ?thesis unfolding good_vote_def by blast
  qed
  from dec [OF inv(1) d(1)] dec [OF inv(2) d(2)] have "yes v1 = yes v2" using decisions_agree [OF w] by blast
  with dec [OF inv(1) d(1)] dec [OF inv(2) d(2)] candidate_unique [OF w] show ?thesis by blast
qed

lemma atropos_agree:
  assumes w: "ok w" and inv: "el_inv w F el1" "el_inv w F el2"
    and res: "chooseAtropos el1 = Inr (Some a)" "chooseAtropos el2 = Inr (Some b)"
  shows "a = b"
proof -
  have "chooseAtropos_loop f (map_of (decidedRoots el1)) ids = Inr (Some a) \<Longrightarrow> chooseAtropos_loop f (map_of (decidedRoots el2)) ids = Inr (Some b) \<Longrightarrow> a = b" for f ids
  proof (induction ids)
    case (Cons i ids)
    then show ?case using decided_agree [OF w inv, of i] by (auto split: option.splits if_splits)
  qed simp
  moreover have "frameToDecide el1 = frameToDecide el2" "el_validators el1 = el_validators el2"
    using inv by (auto simp: el_inv_def intro: word_unat_eq_iff [THEN iffD2])
  ultimately show ?thesis using res by (simp add: chooseAtropos_def)
qed

subsubsection \<open>Some subject is decided yes\<close>

lemma first_round_light:
  assumes w: "ok w" and F: "0 < F" and x: "x \<in> rts w (F + 1)"
  shows "3 * wt w {s. \<not> vote w F 0 x s} < total w"
proof -
  have "qrt w (who w ` {y \<in> rts w F. sees w x y})" using root_quorum [OF w F] x by simp
  then show ?thesis by (rule disjoint_light [OF w]) auto
qed

lemma some_subject_yes:
  assumes w: "ok w" and F: "0 < F" and T: "0 < total w"
  shows "\<exists>s < Validators_Len (grp w). \<forall>r \<in> rts w (F + 2). vote w F 1 r s"
proof -
  let ?N = "\<lambda>c s. \<exists>r x. r \<in> rts w (F + 2) \<and> x \<in> rts w (F + 1) \<and> sees w r x \<and> who w x = c \<and> \<not> vote w F 0 x s"
  have wt: "wt w A = weight (stake_weights (grp w)) A" for A by (simp add: wt_grp stake_weight_def)
  have "3 * weight (stake_weights (grp w)) {s. ?N c s} < total w" for c
  proof (cases "\<exists>r x. r \<in> rts w (F + 2) \<and> x \<in> rts w (F + 1) \<and> sees w r x \<and> who w x = c")
    case True
    then obtain r x where x: "r \<in> rts w (F + 2)" "x \<in> rts w (F + 1)" "sees w r x" "who w x = c" by blast
    have "y = x" if "r' \<in> rts w (F + 2)" "y \<in> rts w (F + 1)" "sees w r' y" "who w y = c" for r' y
      by (rule slot_unique [OF w, of r' "F + 1" r]) (use x that in auto)
    then have "{s. ?N c s} \<subseteq> {s. \<not> vote w F 0 x s}" by blast
    then have "wt w {s. ?N c s} \<le> wt w {s. \<not> vote w F 0 x s}" by (rule wt_mono)
    with first_round_light [OF w F x(2)] show ?thesis unfolding wt by linarith
  next
    case False
    then have e: "{s. ?N c s} = {}" by blast
    show ?thesis unfolding e using T by simp
  qed
  then obtain s where s: "s < length (stake_weights (grp w))" "3 * weight (stake_weights (grp w)) {c. ?N c s} < total w"
    using light_column [of "stake_weights (grp w)" ?N "total w"] T total_grp [of w] by (auto simp: stake_total_def)
  have "vote w F 1 r s" if r: "r \<in> rts w (F + 2)" for r
  proof -
    have "voters w F 0 r s False \<subseteq> {c. ?N c s}" using r by (auto simp: voters_def)
    then have "wt w (voters w F 0 r s False) \<le> wt w {c. ?N c s}" by (rule wt_mono)
    then have light: "3 * wt w (voters w F 0 r s False) < total w" using s(2) unfolding wt by linarith
    have "qrt w (voters w F 0 r s True \<union> voters w F 0 r s False)" using voters_Un [of w F 0 r s] root_quorum [OF w, of "F + 1" r] r by simp
    then have "2 * total w < 3 * wt w (voters w F 0 r s True \<union> voters w F 0 r s False)" using w by (simp add: qrt_iff)
    also have "\<dots> \<le> 3 * wt w (voters w F 0 r s True) + 3 * wt w (voters w F 0 r s False)" using wt_modular [of w "voters w F 0 r s True" "voters w F 0 r s False"] by simp
    finally show ?thesis using light vote_Suc [of w F 0 r s] by simp
  qed
  moreover have "length (stake_weights (grp w)) = Validators_Len (grp w)" using sane_groupD [OF sane [OF w]] by (simp add: stake_weights_def)
  ultimately show ?thesis using s(1) by auto
qed

lemma yes_stays:
  assumes w: "ok w" and y: "\<forall>r \<in> rts w (F + 2). vote w F 1 r s"
  shows "\<forall>r \<in> rts w (F + 2 + j). vote w F (1 + j) r s"
proof (induction j)
  case (Suc j)
  then have "\<forall>x \<in> rts w (F + Suc j + 1). vote w F (Suc j) x s = True" by simp
  then show ?case using unanimous_Suc [OF w, of F "Suc j" s True] by simp
qed (use y in simp)

lemma not_all_no:
  assumes w: "ok w" and F: "0 < F" and n: "0 < Validators_Len (grp w)" and inv: "el_inv w F el"
  shows "chooseAtropos el \<noteq> Inl err"
proof
  assume err: "chooseAtropos el = Inl err"
  have all: "chooseAtropos_loop f m ids = Inl err \<Longrightarrow> i \<in> set ids \<Longrightarrow> \<exists>v. m i = Some v \<and> \<not> yes v" for f m ids i
    by (induction ids) (auto split: option.splits if_splits)
  have vg: "valid_group (grp w)" using sane_groupD [OF sane [OF w]] .
  have loop: "chooseAtropos_loop (frameToDecide el) (map_of (decidedRoots el)) (SortedIDs (grp w)) = Inl err"
    using err inv by (simp add: chooseAtropos_def el_inv_def)
  have no: "\<exists>k r. r \<in> rts w (F + k + 2) \<and> \<not> vote w F (Suc k) r s \<and> (\<exists>b. qrt w (voters w F k r s b))" if s: "s < Validators_Len (grp w)" for s
  proof -
    let ?i = "SortedIDs (grp w) ! s"
    have i: "?i \<in> set (SortedIDs (grp w))" "GetIdx (grp w) ?i = s" using s vg GetIdx_nth by auto
    from all [OF loop i(1)] obtain v where v: "map_of (decidedRoots el) ?i = Some v" "\<not> yes v" by blast
    then obtain k r where "r \<in> rts w (F + k + 2)" "good_vote w F (Suc k) r ?i v" "decided v" using inv unfolding el_inv_def by blast
    with v(2) i(2) show ?thesis unfolding good_vote_def by auto
  qed
  have T: "0 < total w"
  proof -
    obtain A where "qrt w A" using no [OF n] by blast
    then show ?thesis using w wt_total [of w A] by (simp add: qrt_iff)
  qed
  obtain s where s: "s < Validators_Len (grp w)" "\<forall>r \<in> rts w (F + 2). vote w F 1 r s" using some_subject_yes [OF w F T] by blast
  from no [OF s(1)] obtain k r where r: "r \<in> rts w (F + k + 2)" "\<not> vote w F (Suc k) r s" by blast
  then show False using yes_stays [OF w s(2), of k] by (simp add: add_ac del: ballot.simps)
qed

subsubsection \<open>Progress\<close>

text \<open>While no Atropos is chosen, every processed root has voted on every subject not decided.\<close>

definition all_voted :: "'w \<Rightarrow> nat \<Rightarrow> RootAndSlot set \<Rightarrow> Election \<Rightarrow> bool" where
  "all_voted w F P el \<longleftrightarrow> (chooseAtropos el = Inr None \<longrightarrow>
     (\<forall>f r s. F < f \<longrightarrow> r \<in> P \<inter> rts w f \<longrightarrow> Exists (grp w) s \<longrightarrow> map_of (decidedRoots el) s = None \<longrightarrow> votes el (rID r, s) \<noteq> None))"

lemma notDecidedRoots_total:
  assumes w: "ok w" and inv: "el_inv w F el"
  shows "notDecidedRoots el = Some (filter (\<lambda>v. map_of (decidedRoots el) v = None) (SortedIDs (grp w)))"
proof -
  have vg: "valid_group (grp w)" using sane_groupD [OF sane [OF w]] .
  have i: "el_validators el = grp w" "distinct (map fst (decidedRoots el))" using inv by (auto simp: el_inv_def)
  have sub: "set (map fst (decidedRoots el)) \<subseteq> set (SortedIDs (grp w))"
  proof
    fix s assume "s \<in> set (map fst (decidedRoots el))"
    then obtain v where "map_of (decidedRoots el) s = Some v" by (metis map_of_eq_None_iff not_None_eq set_map)
    then show "s \<in> set (SortedIDs (grp w))" using inv set_SortedIDs [OF vg] unfolding el_inv_def by blast
  qed
  have d: "distinct (SortedIDs (grp w))" using vg by simp
  let ?nd = "filter (\<lambda>v. map_of (decidedRoots el) v = None) (SortedIDs (grp w))"
  have "length ?nd = card (set (SortedIDs (grp w)) - set (map fst (decidedRoots el)))"
    using d by (subst distinct_card [symmetric]) (auto simp: map_of_eq_None_iff intro!: arg_cong [where f = card])
  moreover have "card (set (map fst (decidedRoots el))) = length (decidedRoots el)" using distinct_card [OF i(2)] by simp
  moreover have "card (set (SortedIDs (grp w))) = Validators_Len (grp w)" using distinct_card [OF d] vg by simp
  ultimately have "length ?nd + length (decidedRoots el) = Validators_Len (grp w)"
    using card_Diff_subset [OF _ sub] card_mono [OF _ sub] by simp
  then show ?thesis by (simp add: notDecidedRoots_def Let_def i(1))
qed

lemma voteFor_total:
  assumes w: "ok w" and inv: "el_inv w F el" and r: "r \<in> rts w (F + k + 1)" and g: "shows_roots w rs r" and s: "Exists (grp w) s"
    and known: "\<forall>k' x. k = Suc k' \<longrightarrow> x \<in> rts w (F + k) \<longrightarrow> sees w r x \<longrightarrow> votes el (rID x, s) \<noteq> None"
  shows "\<exists>el'. voteFor r (Suc k) (seen_map (obsv w) rs r)
       (seen_list (obsv w) rs r) el s = Some (Inr el')"
proof (cases k)
  case (Suc k')
  let ?orts = "seen_list (obsv w) rs r"
  have fr: "unat (sFrame (rSlot r) - 1) = F + k' + 1" using member [OF w r] Suc by simp unat_arith
  have mem: "set ?orts = {x \<in> rts w (F + k' + 1). sees w r x}" "distinct ?orts" using seen_list_set [OF g] fr by auto
  have "\<forall>x \<in> set ?orts. votes el (rID x, s) \<noteq> None" using known mem(1) Suc by simp
  from nextVote_good [OF w inv _ s mem this] r Suc show ?thesis by (auto simp: voteFor_def Let_def)
qed (simp add: voteFor_def Let_def)

lemma voteFor_effect:
  assumes "voteFor r rnd orm orts el s = Some (Inr el')"
  shows "dom (votes el') = insert (rID r, s) (dom (votes el)) \<and> frameToDecide el' = frameToDecide el \<and>
    (\<forall>s'. map_of (decidedRoots el') s' = None \<longrightarrow> map_of (decidedRoots el) s' = None) \<and>
    (\<forall>x. x \<noteq> rID r \<longrightarrow> (\<forall>s'. votes el' (x, s') = votes el (x, s')))"
  using assms by (auto simp: voteFor_def try_bind_eq_Inr Let_def update_conv' simp del: map_of_eq_None_iff map_of_eq_Some_iff split: if_splits)

lemma votes_effect:
  assumes "foldE (voteFor r rnd orm orts) el nd = Some (Inr el')"
  shows "dom (votes el') = {rID r} \<times> set nd \<union> dom (votes el) \<and>
    (\<forall>s'. map_of (decidedRoots el') s' = None \<longrightarrow> map_of (decidedRoots el) s' = None)"
  using assms
proof (induction nd arbitrary: el)
  case (Cons s nd)
  then obtain e1 where e1: "voteFor r rnd orm orts el s = Some (Inr e1)" "foldE (voteFor r rnd orm orts) e1 nd = Some (Inr el')"
    by (auto simp: try_bind_eq_Inr)
  show ?case using Cons.IH [OF e1(2)] voteFor_effect [OF e1(1)] by auto
qed simp

lemma votes_total:
  assumes w: "ok w" and inv: "el_inv w F el" and r: "r \<in> rts w (F + k + 1)" and g: "shows_roots w rs r" and nd: "\<forall>s \<in> set nd. Exists (grp w) s"
    and known: "\<forall>k' x. \<forall>s \<in> set nd. k = Suc k' \<longrightarrow> x \<in> rts w (F + k) \<longrightarrow> sees w r x \<longrightarrow> votes el (rID x, s) \<noteq> None"
  shows "\<exists>el'. foldE (voteFor r (Suc k) (seen_map (obsv w) rs r)
       (seen_list (obsv w) rs r)) el nd = Some (Inr el') \<and>
     (el_inv w F el' \<and> dom (votes el) \<subseteq> dom (votes el'))"
proof (rule foldE_total)
  let ?vf = "voteFor r (Suc k) (seen_map (obsv w) rs r) (seen_list (obsv w) rs r)"
  fix e s assume s: "s \<in> set nd" and e: "el_inv w F e \<and> dom (votes el) \<subseteq> dom (votes e)"
  have ex: "Exists (grp w) s" using s nd by blast
  have "\<forall>k' x. k = Suc k' \<longrightarrow> x \<in> rts w (F + k) \<longrightarrow> sees w r x \<longrightarrow> votes e (rID x, s) \<noteq> None"
  proof (intro allI impI)
    fix k' x assume "k = Suc k'" "x \<in> rts w (F + k)" "sees w r x"
    then have "(rID x, s) \<in> dom (votes el)" using known s by blast
    then show "votes e (rID x, s) \<noteq> None" using e by blast
  qed
  from voteFor_total [OF w _ r g ex this] e obtain e' where e': "?vf e s = Some (Inr e')" by blast
  from voteFor_inv [OF w _ r g ex e'] e have "el_inv w F e'" by simp
  moreover have "dom (votes el) \<subseteq> dom (votes e')" using voteFor_effect [OF e'] e by auto
  ultimately show "\<exists>e'. ?vf e s = Some (Inr e') \<and> el_inv w F e' \<and> dom (votes el) \<subseteq> dom (votes e')" using e' by auto
qed (simp add: inv)

text \<open>
  A root whose observed roots were processed before it is processed without error: no sanity
  check of the code fails and no error is returned.
\<close>

lemma ProcessRoot_progress:
  assumes w: "ok w" and F: "0 < F" and inv: "el_inv w F el" and r: "r \<in> rts w f" and g: "shows_roots w rs r"
    and ob: "answers observe g (obsv w) rs r" and av: "all_voted w F P el" and prev: "\<forall>x \<in> rts w (f - 1). F < f - 1 \<longrightarrow> sees w r x \<longrightarrow> x \<in> P"
  shows "\<exists>res el'. ProcessRoot observe g el r = Some (Inr (res, el')) \<and> all_voted w F (insert r P) el'"
proof -
  have n: "0 < Validators_Len (grp w)"
    using member [OF w r] GetIdx_Exists(1) [OF sane_groupD [OF sane [OF w]], of "sValidator (rSlot r)"] by simp
  show ?thesis
proof (cases "chooseAtropos el")
  case (Inr a)
  have fr: "unat (sFrame (rSlot r)) = f" "unat (frameToDecide el) = F" using member [OF w r] inv by (auto simp: el_inv_def)
  consider "a \<noteq> None" | "a = None" "f \<le> F" | "a = None" "F < f" by linarith
  then show ?thesis
  proof cases
    case 1
    then show ?thesis using Inr av by (auto simp: ProcessRoot_known [OF ob] all_voted_def)
  next
    case 2
    then have "sFrame (rSlot r) \<le> frameToDecide el" using fr by (simp add: word_le_nat_alt)
    moreover have "r \<notin> rts w f'" if "F < f'" for f' using member [OF w, of r f'] fr 2 that by auto
    ultimately show ?thesis using Inr 2 av by (auto simp: ProcessRoot_known [OF ob] all_voted_def)
  next
    case 3
    let ?rnd = "unat (sFrame (rSlot r) - frameToDecide el)" and ?nd = "filter (\<lambda>v. map_of (decidedRoots el) v = None) (SortedIDs (grp w))"
    let ?vf = "voteFor r ?rnd (seen_map (obsv w) rs r) (seen_list (obsv w) rs r)"
    have lt: "\<not> sFrame (rSlot r) \<le> frameToDecide el" using 3 fr by (simp add: word_le_nat_alt)
    then have "?rnd = f - F" using 3 fr by (simp add: unat_sub_if' word_le_nat_alt)
    then obtain k where k: "?rnd = Suc k" "f = F + k + 1" using 3(2)
      by (metis Suc_diff_Suc Suc_eq_plus1 add_Suc_right le_add_diff_inverse less_imp_le_nat diff_Suc_Suc)
    have nd: "set ?nd = {s. Exists (grp w) s \<and> map_of (decidedRoots el) s = None}"
      using set_SortedIDs [OF sane_groupD [OF sane [OF w]]] by auto
    have known: "votes el (rID x, s) \<noteq> None" if "k = Suc k'" "x \<in> rts w (F + k)" "sees w r x" "s \<in> set ?nd" for k' x s
    proof -
      have "x \<in> P \<inter> rts w (F + k)" using prev that k(2) by simp
      moreover have "F < F + k" "Exists (grp w) s" "map_of (decidedRoots el) s = None" using that nd by (simp, blast+)
      ultimately show ?thesis using av Inr 3(1) unfolding all_voted_def by blast
    qed
    have "\<forall>s \<in> set ?nd. Exists (grp w) s" using nd by blast
    from votes_total [OF w inv r [unfolded k(2)] g this] known
    obtain el' where el': "foldE ?vf el ?nd = Some (Inr el')" "el_inv w F el'" unfolding k(1) by blast
    then obtain a' where a': "chooseAtropos el' = Inr a'" using not_all_no [OF w F n, of el'] by (cases "chooseAtropos el'") auto
    have "ProcessRoot observe g el r = Some (Inr (a', el'))"
      using Inr 3(1) lt k(1) el'(1) a' notDecidedRoots_total [OF w inv] by (simp add: ProcessRoot_known [OF ob])
    moreover have "all_voted w F (insert r P) el'"
    proof -
      have "votes el' (rID x, s) \<noteq> None" if "F < f'" "x \<in> insert r P \<inter> rts w f'" "Exists (grp w) s" "map_of (decidedRoots el') s = None" for f' x s
      proof -
        have "map_of (decidedRoots el) s = None" using votes_effect [OF el'(1)] that(4) by blast
        moreover have "votes el (rID x, s) \<noteq> None" if "x \<in> P"
          using calculation av Inr 3(1) that \<open>F < f'\<close> \<open>x \<in> insert r P \<inter> rts w f'\<close> \<open>Exists (grp w) s\<close> unfolding all_voted_def by blast
        ultimately have "(rID x, s) \<in> {rID r} \<times> set ?nd \<union> dom (votes el)" using that nd by blast
        then show ?thesis using votes_effect [OF el'(1)] by blast
      qed
      then show ?thesis by (simp add: all_voted_def)
    qed
    ultimately show ?thesis by blast
  qed
qed (use not_all_no [OF w F n inv] in simp)
qed

end

end
