(* ===== verification/Frames.thy ===== *)
theory Frames
  imports Election
begin

text \<open>
  The frames of an event graph and the elections run on it. \<open>frame_rule\<close> is what \<open>calcFrameIdx\<close>
  accepts; on a graph that obeys it, with forking validators holding at most a third of the
  stake, the roots are a world in which the laws of the election locales hold. Their lemmas then
  give the safety of the election for every node, whatever part of the graph it knows and in
  whatever order it met it.
\<close>

subsection \<open>Frames on the graph\<close>

definition frame_of :: "dag \<Rightarrow> hash_event \<Rightarrow> Frame" where
  "frame_of D x = eFrame (the (D x))"

definition self_frame :: "dag \<Rightarrow> 'a EventHeaderData_scheme \<Rightarrow> Frame" where
  "self_frame D e = (case SelfParent e of None \<Rightarrow> 0 | Some p \<Rightarrow> frame_of D p)"

definition roots_at :: "dag \<Rightarrow> Frame \<Rightarrow> hash_event set" where
  "roots_at D f = {x. \<exists>e. D x = Some e \<and> eIsRoot e \<and> eFrame e = f}"

text \<open>The validators with a root of frame \<open>f\<close> that \<open>x\<close> sees.\<close>

definition seen_roots :: "Validators \<Rightarrow> dag \<Rightarrow> hash_event \<Rightarrow> Frame \<Rightarrow> Validator set" where
  "seen_roots vv D x f = creator_of vv D ` {r \<in> roots_at D f. fc_spec vv D x r}"

definition frame_rule :: "Validators \<Rightarrow> dag \<Rightarrow> hash_event \<Rightarrow> EventHeaderData \<Rightarrow> bool" where
  "frame_rule vv D x e \<longleftrightarrow>
     (if eParents e = [] then eFrame e = 1 \<and> eIsRoot e
      else if eIsRoot e then eFrame e = self_frame D e + 1 \<and> (eFrame e \<le> 1 \<or> quorate vv (seen_roots vv D x (eFrame e - 1)))
      else eFrame e = self_frame D e)"

definition frames_ok :: "Validators \<Rightarrow> dag \<Rightarrow> bool" where
  "frames_ok vv D \<longleftrightarrow> (\<forall>x e. D x = Some e \<longrightarrow> frame_rule vv D x e)"

lemma SelfParent_None: "valid_event vv D e \<Longrightarrow> eParents e = [] \<Longrightarrow> SelfParent e = None"
  by (simp add: SelfParent_def)

text \<open>A frame is at most the sequence number, so that \<open>self_frame + 1\<close> does not wrap.\<close>

lemma frame_le_seq:
  assumes v: "valid_dag vv D" and ok: "frames_ok vv D"
  shows "x \<in> dom D \<Longrightarrow> frame_of D x \<le> seq_of D x"
proof (induction "unat (seq_of D x)" arbitrary: x rule: less_induct)
  case less
  obtain e where e: "D x = Some e" using less.prems by auto
  note ve = valid_dagD(4) [OF v e, unfolded valid_event_def]
  have fr: "frame_rule vv D x e" using ok e by (simp add: frames_ok_def)
  show ?case
  proof (cases "SelfParent e")
    case None
    then have "eFrame e \<le> 1" using fr by (auto simp: frame_rule_def self_frame_def split: if_splits)
    moreover have "eSeq e = 1" using ve None by simp
    ultimately show ?thesis using e by (simp add: frame_of_def seq_of_def)
  next
    case (Some p)
    have p: "p \<in> dom D" using SelfParent_in [OF Some] ve by blast
    have sq: "eSeq e = seq_of D p + 1" "eSeq e \<noteq> 0" using ve Some by (auto simp: seq_of_def)
    then have lt: "unat (seq_of D p) < unat (seq_of D x)" using e by (simp add: seq_of_def) unat_arith
    have "frame_of D p \<le> seq_of D p" using less.hyps [OF lt p] .
    moreover have "eFrame e \<le> frame_of D p + 1 \<or> eFrame e = frame_of D p"
      using fr Some by (auto simp: frame_rule_def self_frame_def SelfParent_def split: if_splits)
    ultimately have "eFrame e \<le> eSeq e" using sq by unat_arith
    then show ?thesis using e by (simp add: frame_of_def seq_of_def)
  qed
qed

lemma self_frame_step:
  assumes v: "valid_dag vv D" and ok: "frames_ok vv D" and e: "D x = Some e" "SelfParent e = Some p"
  shows "frame_of D p \<le> frame_of D x" "eIsRoot e \<Longrightarrow> frame_of D p < frame_of D x"
proof -
  note ve = valid_dagD(4) [OF v e(1), unfolded valid_event_def]
  have p: "p \<in> dom D" using SelfParent_in [OF e(2)] ve by blast
  have sq: "eSeq e = seq_of D p + 1" "eSeq e \<noteq> 0" using ve e by (auto simp: seq_of_def)
  have "frame_of D p \<le> seq_of D p" using frame_le_seq [OF v ok p] .
  then have nz: "frame_of D p + 1 \<noteq> 0" using sq by unat_arith
  have ne: "eParents e \<noteq> []" using e(2) by (auto simp: SelfParent_def split: if_splits)
  have fr: "frame_rule vv D x e" using ok e(1) by (simp add: frames_ok_def)
  have up: "frame_of D p < frame_of D p + 1" using less_plus_one [OF nz] by simp
  have self: "self_frame D e = frame_of D p" "frame_of D x = eFrame e" using e by (simp_all add: self_frame_def frame_of_def)
  show "frame_of D p \<le> frame_of D x" using fr ne up less_imp_le [OF up] unfolding self frame_rule_def by (auto simp: self split: if_splits)
  show "frame_of D p < frame_of D x" if "eIsRoot e" using fr ne up that unfolding self frame_rule_def by (auto simp: self split: if_splits)
qed

lemma self_past_frame:
  assumes v: "valid_dag vv D" and ok: "frames_ok vv D" and z: "z \<in> self_past D y"
  shows "frame_of D z \<le> frame_of D y"
proof -
  have "(y, z) \<in> (self_edge D)\<^sup>*" using z by (simp add: self_past_def)
  then show ?thesis
  proof induction
    case (step x z)
    then obtain e where "D x = Some e" "SelfParent e = Some z" by (auto simp: self_edge_def)
    with self_frame_step(1) [OF v ok] step.IH show ?case by force
  qed simp
qed

text \<open>A validator has one root per frame on a chain of self-parents.\<close>

lemma root_not_ancestor:
  assumes v: "valid_dag vv D" and ok: "frames_ok vv D" and y: "y \<in> roots_at D f" and z: "z \<in> roots_at D f" "z \<noteq> y"
  shows "z \<notin> self_past D y"
proof
  assume "z \<in> self_past D y"
  then have "(y, z) \<in> (self_edge D)\<^sup>*" by (simp add: self_past_def)
  with z(2) obtain p where p: "(y, p) \<in> self_edge D" "(p, z) \<in> (self_edge D)\<^sup>*" by (metis converse_rtranclE)
  obtain e where e: "D y = Some e" "SelfParent e = Some p" using p(1) by (auto simp: self_edge_def)
  have "frame_of D p < frame_of D y" using self_frame_step(2) [OF v ok e] y e by (auto simp: roots_at_def)
  moreover have "frame_of D z \<le> frame_of D p" using self_past_frame [OF v ok] p(2) by (simp add: self_past_def)
  ultimately show False using y z by (auto simp: roots_at_def frame_of_def)
qed

lemma slot_fc_unique:
  assumes sane: "sane_group vv" and v: "valid_dag vv D" and ok: "frames_ok vv D"
    and byz: "3 * stake_weight vv {c. forked vv D (dom D) c} \<le> stake_total vv"
    and a: "a \<in> dom D" "b \<in> dom D" and x: "x \<in> roots_at D f" "y \<in> roots_at D f" "creator_of vv D x = creator_of vv D y"
    and fc: "fc_spec vv D a x" "fc_spec vv D b y"
  shows "x = y"
proof (rule ccontr)
  assume ne: "x \<noteq> y"
  have "\<not> (fc_spec vv D a x \<and> fc_spec vv D b y)"
  proof (rule fc_spec_exclusive [OF sane v a x(3) _ byz])
    fix c assume "c \<in> dom D" "x \<in> past D c" "y \<in> past D c"
    then show "forked vv D (past D c) (creator_of vv D x)"
      using chain_clash [OF v _ _ _ x(3)] root_not_ancestor [OF v ok x(2,1) ne] root_not_ancestor [OF v ok x(1,2)] ne by metis
  qed simp
  with fc show False by blast
qed

subsection \<open>The world of roots\<close>

type_synonym world = "Validators \<times> dag"

definition root_of :: "dag \<Rightarrow> hash_event \<Rightarrow> RootAndSlot" where
  "root_of D x = \<lparr>rID = x, rSlot = \<lparr>sFrame = frame_of D x, sValidator = eCreator (the (D x))\<rparr>\<rparr>"

definition world_roots :: "world \<Rightarrow> nat \<Rightarrow> RootAndSlot set" where
  "world_roots w f = root_of (snd w) ` {x. \<exists>g. x \<in> roots_at (snd w) g \<and> unat g = f}"

definition world_ok :: "world \<Rightarrow> bool" where
  "world_ok w \<longleftrightarrow> sane_group (fst w) \<and> valid_dag (fst w) (snd w) \<and> frames_ok (fst w) (snd w) \<and>
     3 * stake_weight (fst w) {c. forked (fst w) (snd w) (dom (snd w)) c} \<le> stake_total (fst w)"

abbreviation world_who :: "world \<Rightarrow> RootAndSlot \<Rightarrow> nat" where
  "world_who w r \<equiv> root_idx (fst w) r"

abbreviation world_sees :: "world \<Rightarrow> RootAndSlot \<Rightarrow> RootAndSlot \<Rightarrow> bool" where
  "world_sees w a x \<equiv> fc_spec (fst w) (snd w) (rID a) (rID x)"

lemma root_of_simps [simp]:
  "rID (root_of D x) = x" "sFrame (rSlot (root_of D x)) = frame_of D x" "sValidator (rSlot (root_of D x)) = eCreator (the (D x))"
  "root_idx vv (root_of D x) = creator_of vv D x"
  by (simp_all add: root_of_def creator_of_def)

lemma world_rootsE:
  assumes "r \<in> world_roots w f"
  obtains x where "r = root_of (snd w) x" "x \<in> roots_at (snd w) (frame_of (snd w) x)" "x \<in> dom (snd w)" "unat (frame_of (snd w) x) = f"
proof -
  obtain x g where x: "r = root_of (snd w) x" "x \<in> roots_at (snd w) g" "unat g = f" using assms by (auto simp: world_roots_def)
  then have "frame_of (snd w) x = g" "x \<in> dom (snd w)" by (auto simp: roots_at_def frame_of_def)
  with x that show thesis by blast
qed

lemma world_rootsI: "x \<in> roots_at D g \<Longrightarrow> root_of D x \<in> world_roots (vv, D) (unat g)"
  by (auto simp: world_roots_def)

lemma world_slot_unique:
  assumes w: "world_ok w" and r: "a \<in> world_roots w (Suc f)" "b \<in> world_roots w (Suc f)" "x \<in> world_roots w f" "y \<in> world_roots w f"
    and s: "world_who w x = world_who w y" "world_sees w a x" "world_sees w b y"
  shows "x = y"
proof -
  obtain vv D where wd: "w = (vv, D)" by (cases w)
  have ab: "rID a \<in> dom D" "rID b \<in> dom D" using r(1,2) by (auto simp: wd elim!: world_rootsE)
  obtain hx where hx: "x = root_of D hx" "hx \<in> roots_at D (frame_of D hx)" "unat (frame_of D hx) = f" using r(3) by (auto simp: wd elim!: world_rootsE)
  obtain hy where hy: "y = root_of D hy" "hy \<in> roots_at D (frame_of D hy)" "unat (frame_of D hy) = f" using r(4) by (auto simp: wd elim!: world_rootsE)
  have "frame_of D hx = frame_of D hy" using hx(3) hy(3) by (simp add: word_unat_eq_iff)
  then have "hx = hy" using slot_fc_unique [of vv D "rID a" "rID b" hx "frame_of D hx" hy] w ab hx hy s by (simp add: world_ok_def wd creator_of_def)
  with hx hy show ?thesis by simp
qed

lemma world_root_quorum:
  assumes w: "world_ok w" and f: "0 < f" and a: "a \<in> world_roots w (Suc f)"
  shows "quorate (fst w) (world_who w ` {x \<in> world_roots w f. world_sees w a x})"
proof -
  obtain vv D where wd: "w = (vv, D)" by (cases w)
  obtain x where x: "a = root_of D x" "x \<in> roots_at D (frame_of D x)" "unat (frame_of D x) = Suc f" using a by (auto simp: wd elim!: world_rootsE)
  then obtain e where e: "D x = Some e" "eIsRoot e" "eFrame e = frame_of D x" by (auto simp: roots_at_def)
  have "frame_rule vv D x e" using w e by (simp add: world_ok_def frames_ok_def wd)
  moreover have "\<not> frame_of D x \<le> 1" using x(3) f by (simp add: word_le_nat_alt)
  ultimately have "quorate vv (seen_roots vv D x (frame_of D x - 1))" using e by (auto simp: frame_rule_def split: if_splits)
  moreover have fr: "unat (frame_of D x - 1) = f" using x(3) by unat_arith
  have "seen_roots vv D x (frame_of D x - 1) = world_who w ` {x \<in> world_roots w f. world_sees w a x}" (is "?L = ?R")
  proof
    show "?L \<subseteq> ?R"
    proof
      fix c assume "c \<in> ?L"
      then obtain y where y: "y \<in> roots_at D (frame_of D x - 1)" "fc_spec vv D x y" "c = creator_of vv D y" by (auto simp: seen_roots_def)
      from world_rootsI [OF y(1), of vv] y(2,3) show "c \<in> ?R" by (intro image_eqI [of _ _ "root_of D y"]) (simp_all add: wd x(1) fr creator_of_def)
    qed
    show "?R \<subseteq> ?L"
    proof
      fix c assume "c \<in> ?R"
      then obtain r where r: "r \<in> world_roots w f" "world_sees w a r" "c = world_who w r" by blast
      then obtain y where y: "r = root_of D y" "y \<in> roots_at D (frame_of D y)" "unat (frame_of D y) = f" by (auto simp: wd elim!: world_rootsE)
      have "frame_of D y = frame_of D x - 1" using y(3) fr by (simp add: word_unat_eq_iff)
      then show "c \<in> ?L" using y r x(1) by (auto simp: seen_roots_def wd creator_of_def)
    qed
  qed
  ultimately show ?thesis by (simp add: wd)
qed

interpretation ew: election_world world_ok "\<lambda>w. stake_weight (fst w)" "\<lambda>w. stake_total (fst w)" "\<lambda>w. quorate (fst w)"
  world_roots world_who world_sees fst "\<lambda>w. fc_spec (fst w) (snd w)"
proof unfold_locales
  fix w :: world and f a b x y
  assume "world_ok w" "a \<in> world_roots w (Suc f)" "b \<in> world_roots w (Suc f)" "x \<in> world_roots w f" "y \<in> world_roots w f"
    "world_who w x = world_who w y" "world_sees w a x" "world_sees w b y"
  then show "x = y" by (rule world_slot_unique)
next
  fix w :: world and f a
  assume "world_ok w" "0 < f" "a \<in> world_roots w (Suc f)"
  then show "quorate (fst w) (world_who w ` {x \<in> world_roots w f. world_sees w a x})" by (rule world_root_quorum)
next
  fix w :: world and r f assume "world_ok w" "r \<in> world_roots w f"
  then show "Exists (fst w) (sValidator (rSlot r)) \<and> unat (sFrame (rSlot r)) = f"
    by (auto simp: world_ok_def elim!: world_rootsE dest: valid_dagD(2))
qed (auto simp: world_ok_def sq.wt_modular sq.wt_empty sq.wt_total sq.qrt_iff intro: sq.wt_mono elim!: world_rootsE)

subsection \<open>Elections of nodes\<close>

text \<open>
  What \<open>getFrameRoots\<close> must list (\<open>rs\<close>) when root \<open>x\<close> is processed: roots of the previous frame, each once,
  and all that \<open>x\<close> sees.
\<close>

definition lists_roots :: "Validators \<Rightarrow> dag \<Rightarrow> RootAndSlot list \<Rightarrow> hash_event \<Rightarrow> bool" where
  "lists_roots vv U rs x \<longleftrightarrow> (let f = frame_of U x - 1 in distinct rs \<and> set rs \<subseteq> root_of U ` roots_at U f \<and>
     (\<forall>y \<in> roots_at U f. fc_spec vv U x y \<longrightarrow> root_of U y \<in> set rs))"

text \<open>
  The elections for frame \<open>F\<close> a node may run on a part of the graph \<open>U\<close>: any roots, in any order
  in which a root comes after the roots of the frame before it that it sees.
\<close>

inductive elect_run :: "Validators \<Rightarrow> dag \<Rightarrow> Frame \<Rightarrow> hash_event set \<Rightarrow> Election \<Rightarrow> bool" for vv U F where
  elect_new: "elect_run vv U F {} (Election_New vv F)"
| elect_root: "elect_run vv U F P el \<Longrightarrow> x \<in> roots_at U f \<Longrightarrow>
    (F < f - 1 \<longrightarrow> (\<forall>y \<in> roots_at U (f - 1). fc_spec vv U x y \<longrightarrow> y \<in> P)) \<Longrightarrow>
    lists_roots vv U rs x \<Longrightarrow> answers observe g (fc_spec vv U) rs (root_of U x) \<Longrightarrow>
    ProcessRoot observe g el (root_of U x) = Some (Inr (res, el')) \<Longrightarrow> elect_run vv U F (insert x P) el'"

lemma world_roots_word: "world_roots (vv, U) (unat f) = root_of U ` roots_at U f"
  by (auto simp: world_roots_def word_unat_eq_iff [symmetric])

lemma shows_roots_iff:
  assumes "x \<in> roots_at U f"
  shows "ew.shows_roots (vv, U) rs (root_of U x) \<longleftrightarrow> lists_roots vv U rs x"
  unfolding ew.shows_roots_def lists_roots_def Let_def by (auto simp: world_roots_word)

lemma roots_frame: "x \<in> roots_at U f \<Longrightarrow> frame_of U x = f"
  by (auto simp: roots_at_def frame_of_def)

lemma seen_before:
  assumes prev: "F < f - 1 \<longrightarrow> (\<forall>y \<in> roots_at U (f - 1). fc_spec vv U x y \<longrightarrow> y \<in> P)"
  shows "\<forall>y \<in> world_roots (vv, U) (unat f - 1). unat F < unat f - 1 \<longrightarrow> world_sees (vv, U) (root_of U x) y \<longrightarrow> y \<in> root_of U ` P"
proof (intro ballI impI)
  fix y assume y: "y \<in> world_roots (vv, U) (unat f - 1)" "unat F < unat f - 1" "world_sees (vv, U) (root_of U x) y"
  have f1: "unat (f - 1) = unat f - 1" "F < f - 1" using y(2) by (unat_arith)+
  obtain z where z: "y = root_of U z" "z \<in> roots_at U (f - 1)" using y(1) unfolding f1(1) [symmetric] world_roots_word by blast
  then have "z \<in> P" using prev f1(2) y(3) by simp
  with z(1) show "y \<in> root_of U ` P" by blast
qed

lemma elect_run_inv:
  assumes w: "world_ok (vv, U)" and F: "F \<noteq> 0"
  shows "elect_run vv U F P el \<Longrightarrow> ew.el_inv (vv, U) (unat F) el \<and> ew.all_voted (vv, U) (unat F) (root_of U ` P) el"
proof (induction rule: elect_run.induct)
  case elect_new
  then show ?case using ew.el_inv_Reset [of "(vv, U)" F] by (simp add: Election_New_def ew.all_voted_def)
next
  case (elect_root P el x f rs observe g res el')
  have r: "root_of U x \<in> world_roots (vv, U) (unat f)" using elect_root.hyps(2) by (simp add: world_roots_word)
  have g: "ew.shows_roots (vv, U) rs (root_of U x)" using shows_roots_iff [OF elect_root.hyps(2)] elect_root.hyps(4) by blast
  have ob: "answers observe g (fc_spec (fst (vv, U)) (snd (vv, U))) rs (root_of U x)" using elect_root.hyps(5) by simp
  from ew.ProcessRoot_inv [OF w _ r g ob elect_root.hyps(6)] elect_root.IH have inv: "ew.el_inv (vv, U) (unat F) el'" by blast
  have "ew.all_voted (vv, U) (unat F) (insert (root_of U x) (root_of U ` P)) el'"
  proof -
    note seen_before [OF elect_root.hyps(3)]
    moreover have "0 < unat F" using F by (simp add: unat_gt_0)
    ultimately show ?thesis
      using ew.ProcessRoot_progress [OF w _ _ r g ob, of "unat F" el "root_of U ` P"] elect_root.IH elect_root.hyps(6) by auto
  qed
  with inv show ?case by simp
qed

lemma elect_run_step:
  assumes w: "world_ok (vv, U)" and F: "F \<noteq> 0" and run: "elect_run vv U F P el" and x: "x \<in> roots_at U f"
    and prev: "F < f - 1 \<longrightarrow> (\<forall>y \<in> roots_at U (f - 1). fc_spec vv U x y \<longrightarrow> y \<in> P)"
    and g: "lists_roots vv U rs x" and ob: "answers observe g (fc_spec vv U) rs (root_of U x)"
  shows "\<exists>res el'. ProcessRoot observe g el (root_of U x) = Some (Inr (res, el')) \<and> elect_run vv U F (insert x P) el'"
proof -
  have r: "root_of U x \<in> world_roots (vv, U) (unat f)" using x by (simp add: world_roots_word)
  have g': "ew.shows_roots (vv, U) rs (root_of U x)" using shows_roots_iff [OF x] g by blast
  have ob': "answers observe g (fc_spec (fst (vv, U)) (snd (vv, U))) rs (root_of U x)" using ob by simp
  have "0 < unat F" using F by (simp add: unat_gt_0)
  from ew.ProcessRoot_progress [OF w this _ r g' ob' _ seen_before [OF prev]] elect_run_inv [OF w F run]
  obtain res el' where "ProcessRoot observe g el (root_of U x) = Some (Inr (res, el'))" by blast
  with elect_root [OF run x prev g ob] show ?thesis by blast
qed

lemma elect_run_atropos:
  assumes w: "world_ok (vv, U)" and F: "F \<noteq> 0" and run: "elect_run vv U F P el" and res: "chooseAtropos el = Inr (Some a)"
  shows "res_Frame a = F \<and> res_Atropos a \<in> roots_at U F"
proof -
  have inv: "ew.el_inv (vv, U) (unat F) el" using elect_run_inv [OF w F run] by blast
  have "res_Frame a = f \<and> (\<exists>s v. m s = Some v \<and> yes v \<and> observedRoot v = res_Atropos a)" if "chooseAtropos_loop f m ids = Inr (Some a)" for f m ids
    using that by (induction ids) (force split: option.splits if_splits)+
  with res obtain s v where a: "res_Frame a = frameToDecide el" "map_of (decidedRoots el) s = Some v" "yes v" "observedRoot v = res_Atropos a"
    unfolding chooseAtropos_def by blast
  then obtain k r where "ew.good_vote (vv, U) (unat F) (Suc k) r s v" using inv unfolding ew.el_inv_def by blast
  then have "ew.candidate (vv, U) (unat F) s (res_Atropos a)" using a by (simp add: ew.good_vote_def)
  then have "res_Atropos a \<in> roots_at U F" by (auto simp: ew.candidate_def world_roots_word)
  moreover have "frameToDecide el = F" using inv by (simp add: ew.el_inv_def word_unat_eq_iff)
  ultimately show ?thesis using a(1) by simp
qed

subsection \<open>Properties\<close>

text \<open>
  C3. Agreement on the Atropos. Two nodes that know any parts of one event graph and process its
  roots in any order their elections allow, with any listing of the known roots, elect the same
  Atropos for a frame, as long as validators holding at most a third of the stake fork: the
  result of \<open>chooseAtropos\<close> is the same event, and it is a root of the frame.
\<close>

theorem atropos_agreement:
  assumes "world_ok (vv, U)" "F \<noteq> 0" "elect_run vv U F P1 el1" "elect_run vv U F P2 el2"
    and "chooseAtropos el1 = Inr (Some a1)" "chooseAtropos el2 = Inr (Some a2)"
  shows "a1 = a2 \<and> res_Frame a1 = F \<and> res_Atropos a1 \<in> roots_at U F"
  using ew.atropos_agree [OF assms(1) _ _ assms(5,6)] elect_run_inv [OF assms(1,2)] assms(3,4)
    elect_run_atropos [OF assms(1-3,5)] by blast

text \<open>
  C4. No step of such an election fails: a root that arrives after the roots it sees is processed
  without any error (no "2 fork roots", no "all roots decided as no") and passes every sanity
  check that would stop the node (every observed root has voted on every undecided subject, a
  quorum of roots of the previous frame is observed, the numbers of decided and undecided
  subjects match).
\<close>

theorem election_never_stuck:
  assumes "world_ok (vv, U)" "F \<noteq> 0" "elect_run vv U F P el" "x \<in> roots_at U f"
    and "F < f - 1 \<longrightarrow> (\<forall>y \<in> roots_at U (f - 1). fc_spec vv U x y \<longrightarrow> y \<in> P)"
    and "lists_roots vv U rs x" "answers observe g (fc_spec vv U) rs (root_of U x)"
  shows "\<exists>res el'. ProcessRoot observe g el (root_of U x) = Some (Inr (res, el')) \<and> elect_run vv U F (insert x P) el'"
  using elect_run_step [OF assms] .

subsection \<open>A concrete election\<close>

definition root_event :: "byte \<Rightarrow> EventSeq \<Rightarrow> byte list \<Rightarrow> Frame \<Rightarrow> EventHeaderData" where
  "root_event h s ps f = (small_event h 1 s ps 10)\<lparr>eFrame := f, eIsRoot := True\<rparr>"

lemma root_event_simps [simp]:
  "Hash env (root_event h s ps f) = Some [h]" "eSeq (root_event h s ps f) = s" "eCreator (root_event h s ps f) = 1" "eIsRoot (root_event h s ps f)"
  "eParents (root_event h s ps f) = map (\<lambda>p. [p]) ps" "eFrame (root_event h s ps f) = f"
  by (simp_all add: root_event_def small_event_def Hash_def)

text \<open>A validator alone: every event is a root of the next frame.\<close>

definition chain_dag :: dag where
  "chain_dag = [[1] \<mapsto> root_event 1 1 [] 1, [2] \<mapsto> root_event 2 2 [1] 2, [3] \<mapsto> root_event 3 3 [2] 3]"

definition chain_list :: GetFrameRootsFn where
  "chain_list f = Some (if f = 1 then [root_of chain_dag [1]] else if f = 2 then [root_of chain_dag [2]] else [])"

lemma SelfParent_root_event [simp]:
  "SelfParent (root_event h s ps f) = (if s \<le> 1 \<or> ps = [] then None else Some [hd ps])"
  by (cases ps) (simp_all add: SelfParent_def)

lemma words_123 [simp]: "\<not> (3 :: u32) \<le> 1" "\<not> (2 :: u32) \<le> 1" "(3 :: u32) - 1 = 2" "(2 :: u32) - 1 = 1" "\<not> (1 :: u32) < 1"
  by code_simp+

lemma chain_at [simp]:
  "chain_dag [1] = Some (root_event 1 1 [] 1)" "chain_dag [2] = Some (root_event 2 2 [1] 2)" "chain_dag [3] = Some (root_event 3 3 [2] 3)"
  by (simp_all add: chain_dag_def)

lemma chain_dom: "chain_dag x = Some e \<longleftrightarrow> x = [1] \<and> e = root_event 1 1 [] 1 \<or> x = [2] \<and> e = root_event 2 2 [1] 2 \<or> x = [3] \<and> e = root_event 3 3 [2] 3"
  by (auto simp: chain_dag_def)

lemma dom_chain: "dom chain_dag = {[1], [2], [3]}"
  by (auto simp: chain_dag_def)

lemma chain_past [simp]: "past chain_dag [1] = {[1]}" "past chain_dag [2] = {[2], [1]}" "past chain_dag [3] = {[3], [2], [1]}"
proof -
  show 1: "past chain_dag [1] = {[1]}" using past_unfold [of chain_dag "[1]"] by simp
  show 2: "past chain_dag [2] = {[2], [1]}" using past_unfold [of chain_dag "[2]"] 1 by simp
  show "past chain_dag [3] = {[3], [2], [1]}" using past_unfold [of chain_dag "[3]"] 2 by simp
qed

lemma solo_idx: "GetIdx solo_group 1 = 0"
  by code_simp

lemma chain_valid: "valid_dag solo_group chain_dag"
  by (auto simp: valid_dag_def valid_event_def chain_dom dom_chain)

lemma chain_not_forked: "A \<subseteq> dom chain_dag \<Longrightarrow> \<not> forked solo_group chain_dag A c"
proof -
  assume sub: "A \<subseteq> dom chain_dag"
  have "y = z" if "y \<in> dom chain_dag" "z \<in> dom chain_dag" "seq_of chain_dag y = seq_of chain_dag z" for y z
    using that by (auto simp: dom_chain seq_of_def)
  with sub show ?thesis unfolding forked_def by blast
qed

lemma solo_quorate: "quorate solo_group {0}"
proof -
  have "stake_weight solo_group {0} = 1" by (simp add: stake_weight_def weight_sum_if) code_simp
  then show ?thesis by (simp add: sq.qrt_iff)
qed

lemma chain_creator [simp]: "x \<in> {[1], [2], [3]} \<Longrightarrow> creator_of solo_group chain_dag x = 0"
  using solo_idx by (auto simp: creator_of_def)

lemma chain_fc: "x \<in> dom chain_dag \<Longrightarrow> y \<in> past chain_dag x \<Longrightarrow> fc_spec solo_group chain_dag x y"
proof -
  assume x: "x \<in> dom chain_dag" and y: "y \<in> past chain_dag x"
  have sub: "past chain_dag x \<subseteq> dom chain_dag" using past_closed [OF chain_valid x] .
  have "seers solo_group chain_dag x y = {0}"
    using sub x y chain_not_forked [OF sub] unfolding seers_def by (auto simp: dom_chain)
  then show ?thesis using chain_not_forked [OF sub] solo_quorate by (simp add: fc_spec_def)
qed

lemma chain_roots: "roots_at chain_dag 1 = {[1]}" "roots_at chain_dag 2 = {[2]}" "roots_at chain_dag 3 = {[3]}"
  by (auto simp: roots_at_def chain_dom)

lemma chain_frames: "frames_ok solo_group chain_dag"
proof -
  have "seen_roots solo_group chain_dag [2] 1 = {0}" "seen_roots solo_group chain_dag [3] 2 = {0}"
    using chain_fc [of "[2]" "[1]"] chain_fc [of "[3]" "[2]"] by (auto simp: seen_roots_def chain_roots dom_chain)
  then show ?thesis using solo_quorate
    by (auto simp: frames_ok_def chain_dom frame_rule_def self_frame_def frame_of_def)
qed

lemma chain_world: "world_ok (solo_group, chain_dag)"
  using chain_valid chain_frames chain_not_forked [of "dom chain_dag"] by (simp add: world_ok_def sq.wt_empty)

abbreviation sees_all :: ForklessCauseFn where
  "sees_all \<equiv> \<lambda>_ _. Some True"

lemma chain_listed:
  "lists_roots solo_group chain_dag [root_of chain_dag [1]] [2]" "lists_roots solo_group chain_dag [root_of chain_dag [2]] [3]"
  "answers sees_all chain_list (fc_spec solo_group chain_dag) [root_of chain_dag [1]] (root_of chain_dag [2])"
  "answers sees_all chain_list (fc_spec solo_group chain_dag) [root_of chain_dag [2]] (root_of chain_dag [3])"
  using chain_fc [of "[2]" "[1]"] chain_fc [of "[3]" "[2]"]
  by (simp_all add: lists_roots_def answers_def frame_of_def chain_list_def chain_roots dom_chain)

definition chain_election :: Election where
  "chain_election = (case ProcessRoot sees_all chain_list (Election_New solo_group 1) (root_of chain_dag [2]) of
     Some (Inr (_, el)) \<Rightarrow> (case ProcessRoot sees_all chain_list el (root_of chain_dag [3]) of Some (Inr (_, el)) \<Rightarrow> el))"

lemma chain_elected: "chooseAtropos chain_election = Inr (Some \<lparr>res_Frame = 1, res_Atropos = [1]\<rparr>)"
  by code_simp

lemma chain_run: "elect_run solo_group chain_dag 1 {[3], [2]} chain_election"
proof -
  note step = elect_run_step [OF chain_world, of 1, simplified]
  obtain r1 el1 where 1: "ProcessRoot sees_all chain_list (Election_New solo_group 1) (root_of chain_dag [2]) = Some (Inr (r1, el1))"
    "elect_run solo_group chain_dag 1 {[2]} el1" using step [OF elect_new, of "[2]" 2 "[root_of chain_dag [1]]" sees_all chain_list] chain_listed chain_roots by auto
  obtain r2 el2 where 2: "ProcessRoot sees_all chain_list el1 (root_of chain_dag [3]) = Some (Inr (r2, el2))"
    "elect_run solo_group chain_dag 1 {[3], [2]} el2" using step [OF 1(2), of "[3]" 3 "[root_of chain_dag [2]]" sees_all chain_list] chain_listed chain_roots by auto
  from 1(1) 2(1) have "chain_election = el2" by (simp add: chain_election_def)
  with 2(2) show ?thesis by simp
qed

theorem atropos_agreement_witness: "[1] \<in> roots_at chain_dag 1"
  using atropos_agreement [OF chain_world _ chain_run chain_run chain_elected chain_elected] by simp

theorem election_never_stuck_witness:
  "\<exists>res el. ProcessRoot sees_all chain_list (Election_New solo_group 1) (root_of chain_dag [2]) = Some (Inr (res, el))"
  using election_never_stuck [OF chain_world _ elect_new, of 1 "[2]" 2 "[root_of chain_dag [1]]" sees_all chain_list] chain_listed chain_roots by auto

end
