(* ===== verification/Kv_Store.thy ===== *)
theory Kv_Store
  imports Byte_Codec "HOL-Library.AList" "HOL-Library.Sublist"
begin

text \<open>
  Package \<open>kvdb\<close>: the key-value store interface, the stores \<open>memorydb\<close> and \<open>devnulldb\<close>, and the
  wrappers \<open>table\<close>, \<open>nokeyiserr\<close>, \<open>skiperrors\<close> and \<open>fallible\<close>. A Go interface value is a record of
  functions over the state of the implementation, so that a wrapper takes the operations of the
  store it wraps. A mutating method returns its error (\<^const>\<open>None\<close> for nil) with the new state, and
  \<^const>\<open>None\<close> when it panics. A value is \<^const>\<open>None\<close> for a nil slice; keys are never nil. An iterator is
  the list of the pairs it yields.
\<close>

subsection \<open>The interface\<close>

datatype kv_err = errMemorydbClosed | errClosed | errNil | errNotFound | errWriteLimit

type_synonym 's eff = "(kv_err option \<times> 's) option"
type_synonym batchWrite = "bytes \<times> bytes option" \<comment> \<open>an entry of a batch, \<^const>\<open>None\<close> for a delete\<close>

record 's kv_ops =
  kvHas :: "'s \<Rightarrow> bytes \<Rightarrow> kv_err + bool"
  kvGet :: "'s \<Rightarrow> bytes \<Rightarrow> kv_err + bytes option"
  kvPut :: "'s \<Rightarrow> bytes \<Rightarrow> bytes option \<Rightarrow> 's eff"
  kvDelete :: "'s \<Rightarrow> bytes \<Rightarrow> 's eff"
  kvStart :: "'s \<Rightarrow> bytes \<Rightarrow> (bytes \<times> bytes) list" \<comment> \<open>\<open>NewIteratorWithStart\<close>\<close>
  kvPrefix :: "'s \<Rightarrow> bytes \<Rightarrow> (bytes \<times> bytes) list" \<comment> \<open>\<open>NewIteratorWithPrefix\<close>\<close>
  kvWrite :: "'s \<Rightarrow> batchWrite list \<Rightarrow> 's eff" \<comment> \<open>\<open>Write\<close> of a batch made by \<open>NewBatch\<close>\<close>
  kvBatchSize :: "batchWrite list \<Rightarrow> nat" \<comment> \<open>\<open>ValueSize\<close> of such a batch\<close>
  kvClose :: "'s \<Rightarrow> 's eff"
  kvDrop :: "'s \<Rightarrow> 's option"

subsection \<open>\<open>memorydb\<close>\<close>

text \<open>The Go map is an association list with distinct keys; \<^const>\<open>None\<close> once closed.\<close>

type_synonym MemDb = "(bytes \<times> bytes option) list option"

definition mem_New :: MemDb where
  "mem_New = Some []"

definition mem_Close :: "MemDb \<Rightarrow> MemDb eff" where
  "mem_Close db = Some (None, None)"

definition mem_Drop :: "MemDb \<Rightarrow> MemDb option" where
  "mem_Drop db = (if db \<noteq> None then None else Some db)"

definition mem_Has :: "MemDb \<Rightarrow> bytes \<Rightarrow> kv_err + bool" where
  "mem_Has db key = (case db of None \<Rightarrow> Inl errMemorydbClosed | Some m \<Rightarrow> Inr (map_of m key \<noteq> None))"

definition mem_Get :: "MemDb \<Rightarrow> bytes \<Rightarrow> kv_err + bytes option" where
  "mem_Get db key = (case db of None \<Rightarrow> Inl errMemorydbClosed
   | Some m \<Rightarrow> Inr (case map_of m key of Some entry \<Rightarrow> entry | None \<Rightarrow> None))"

definition mem_Put :: "MemDb \<Rightarrow> bytes \<Rightarrow> bytes option \<Rightarrow> MemDb eff" where
  "mem_Put db key v = (case db of None \<Rightarrow> Some (Some errMemorydbClosed, None) | Some m \<Rightarrow> Some (None, Some (AList.update key v m)))"

definition mem_Delete :: "MemDb \<Rightarrow> bytes \<Rightarrow> MemDb eff" where
  "mem_Delete db key = (case db of None \<Rightarrow> Some (Some errMemorydbClosed, None) | Some m \<Rightarrow> Some (None, Some (AList.delete key m)))"

definition mem_pairs :: "MemDb \<Rightarrow> (bytes \<Rightarrow> bool) \<Rightarrow> (bytes \<times> bytes) list" where
  "mem_pairs db P = (let m = (case db of None \<Rightarrow> [] | Some m \<Rightarrow> m) in
     map (\<lambda>k. (k, case map_of m k of Some (Some v) \<Rightarrow> v | _ \<Rightarrow> [])) (sort (filter P (map fst m))))"

definition mem_NewIteratorWithStart :: "MemDb \<Rightarrow> bytes \<Rightarrow> (bytes \<times> bytes) list" where
  "mem_NewIteratorWithStart db start = mem_pairs db (\<lambda>key. key \<ge> start)"

definition mem_NewIteratorWithPrefix :: "MemDb \<Rightarrow> bytes \<Rightarrow> (bytes \<times> bytes) list" where
  "mem_NewIteratorWithPrefix db pre = mem_pairs db (\<lambda>key. prefix pre key)"

definition mem_write :: "MemDb \<Rightarrow> batchWrite \<Rightarrow> MemDb option" where
  "mem_write db w = (case w of
     (k, None) \<Rightarrow> Some (map_option (AList.delete k) db)
   | (k, Some v) \<Rightarrow> (case db of None \<Rightarrow> None | Some m \<Rightarrow> Some (Some (AList.update k (Some v) m))))"

definition mem_Write :: "MemDb \<Rightarrow> batchWrite list \<Rightarrow> MemDb eff" where
  "mem_Write db writes = map_option (\<lambda>d. (None, d)) (foldM mem_write db writes)"

definition mem_ValueSize :: "batchWrite list \<Rightarrow> nat" where
  "mem_ValueSize writes = sum_list (map (\<lambda>(k, v). case v of None \<Rightarrow> 1 | Some v \<Rightarrow> length v) writes)"

definition mem_ops :: "MemDb kv_ops" where
  "mem_ops = \<lparr>kvHas = mem_Has, kvGet = mem_Get, kvPut = mem_Put, kvDelete = mem_Delete, kvStart = mem_NewIteratorWithStart,
     kvPrefix = mem_NewIteratorWithPrefix, kvWrite = mem_Write, kvBatchSize = mem_ValueSize, kvClose = mem_Close, kvDrop = mem_Drop\<rparr>"

subsection \<open>\<open>devnulldb\<close>\<close>

definition devnull_ops :: "'s kv_ops" where
  "devnull_ops = \<lparr>kvHas = \<lambda>_ _. Inr False, kvGet = \<lambda>_ _. Inr None, kvPut = \<lambda>s _ _. Some (None, s), kvDelete = \<lambda>s _. Some (None, s),
     kvStart = \<lambda>_ _. [], kvPrefix = \<lambda>_ _. [], kvWrite = \<lambda>s _. Some (None, s), kvBatchSize = \<lambda>_. 0,
     kvClose = \<lambda>s. Some (None, s), kvDrop = \<lambda>s. Some s\<rparr>"

subsection \<open>\<open>table\<close>\<close>

definition prefixed :: "bytes \<Rightarrow> bytes \<Rightarrow> bytes" where
  "prefixed key pre = pre @ key"

definition noPrefix :: "bytes \<Rightarrow> bytes \<Rightarrow> bytes" where
  "noPrefix key pre = (if length key < length pre then key else drop (length pre) key)"

text \<open>The iterator of a table skips the keys without its prefix and strips the prefix of the others.\<close>

fun table_iterator :: "bytes \<Rightarrow> (bytes \<times> bytes) list \<Rightarrow> (bytes \<times> bytes) list" where
  "table_iterator pre [] = []"
| "table_iterator pre ((k, v) # ps) =
     (if \<not> prefix pre k then table_iterator pre ps else (noPrefix k pre, v) # table_iterator pre ps)"

definition table_batch :: "bytes \<Rightarrow> batchWrite list \<Rightarrow> batchWrite list" where
  "table_batch pre writes = map (\<lambda>(k, v). (prefixed k pre, v)) writes"

definition table_replay :: "bytes \<Rightarrow> batchWrite list \<Rightarrow> batchWrite list" where
  "table_replay pre writes = map (\<lambda>(k, v). (noPrefix k pre, v)) writes"

definition table_ops :: "'s kv_ops \<Rightarrow> bytes \<Rightarrow> 's kv_ops" where
  "table_ops db pre = \<lparr>
     kvHas = \<lambda>s key. kvHas db s (prefixed key pre),
     kvGet = \<lambda>s key. kvGet db s (prefixed key pre),
     kvPut = \<lambda>s key v. kvPut db s (prefixed key pre) v,
     kvDelete = \<lambda>s key. kvDelete db s (prefixed key pre),
     kvStart = \<lambda>s start. table_iterator pre (kvStart db s (prefixed start pre)),
     kvPrefix = \<lambda>s p. table_iterator pre (kvPrefix db s (prefixed p pre)),
     kvWrite = \<lambda>s writes. kvWrite db s (table_batch pre writes),
     kvBatchSize = \<lambda>writes. kvBatchSize db (table_batch pre writes),
     kvClose = \<lambda>s. Some (None, s),
     kvDrop = \<lambda>s. Some s\<rparr>"

definition table_NewIterator :: "'s kv_ops \<Rightarrow> bytes \<Rightarrow> 's \<Rightarrow> (bytes \<times> bytes) list" where
  "table_NewIterator db pre s = table_iterator pre (kvPrefix db s pre)"

subsection \<open>\<open>nokeyiserr\<close>, \<open>skiperrors\<close>, \<open>fallible\<close>\<close>

definition nokey_ops :: "'s kv_ops \<Rightarrow> 's kv_ops" where
  "nokey_ops db = db\<lparr>kvGet := \<lambda>s key. (case kvGet db s key of Inr None \<Rightarrow> Inl errNotFound | r \<Rightarrow> r)\<rparr>"

definition skip :: "kv_err list \<Rightarrow> kv_err option \<Rightarrow> bool" where
  "skip errs got = (case got of None \<Rightarrow> False | Some e \<Rightarrow> e \<in> set errs)"

definition skip_eff :: "kv_err list \<Rightarrow> 's eff \<Rightarrow> 's eff" where
  "skip_eff errs r = map_option (\<lambda>(err, s). (if skip errs err then None else err, s)) r"

definition skip_res :: "kv_err list \<Rightarrow> 'a \<Rightarrow> kv_err + 'a \<Rightarrow> kv_err + 'a" where
  "skip_res errs zero r = (case r of Inl e \<Rightarrow> if skip errs (Some e) then Inr zero else Inl e | Inr x \<Rightarrow> Inr x)"

definition skip_ops :: "kv_err list \<Rightarrow> 's kv_ops \<Rightarrow> 's kv_ops" where
  "skip_ops errs db = \<lparr>
     kvHas = \<lambda>s key. skip_res errs False (kvHas db s key),
     kvGet = \<lambda>s key. skip_res errs None (kvGet db s key),
     kvPut = \<lambda>s key v. skip_eff errs (kvPut db s key v),
     kvDelete = \<lambda>s key. skip_eff errs (kvDelete db s key),
     kvStart = kvStart db, kvPrefix = kvPrefix db, kvWrite = kvWrite db, kvBatchSize = kvBatchSize db,
     kvClose = \<lambda>s. skip_eff errs (kvClose db s),
     kvDrop = kvDrop db\<rparr>"

record 's Fallible =
  Underlying :: 's
  writes :: "32 word"

definition SetWriteCount :: "int \<Rightarrow> 's Fallible \<Rightarrow> 's Fallible" where
  "SetWriteCount n f = f\<lparr>writes := of_int n\<rparr>"

definition GetWriteCount :: "'s Fallible \<Rightarrow> int" where
  "GetWriteCount f = sint (writes f)"

definition fallible_count :: "'s Fallible \<Rightarrow> bool \<times> 's Fallible" where
  "fallible_count f = (let c = writes f - 1 in (sint c \<ge> 0, f\<lparr>writes := c\<rparr>))"

text \<open>A write, when the limit is not reached, else a panic.\<close>

definition counted_eff :: "('s \<Rightarrow> 's eff) \<Rightarrow> 's Fallible \<Rightarrow> 's Fallible eff" where
  "counted_eff op f = (let (ok, f) = fallible_count f in
     if \<not> ok then None else map_option (\<lambda>(err, s). (err, f\<lparr>Underlying := s\<rparr>)) (op (Underlying f)))"

definition through :: "('s \<Rightarrow> 's eff) \<Rightarrow> 's Fallible \<Rightarrow> 's Fallible eff" where
  "through op f = map_option (\<lambda>(err, s). (err, f\<lparr>Underlying := s\<rparr>)) (op (Underlying f))"

definition fallible_ops :: "'s kv_ops \<Rightarrow> 's Fallible kv_ops" where
  "fallible_ops db = \<lparr>
     kvHas = \<lambda>f key. kvHas db (Underlying f) key,
     kvGet = \<lambda>f key. kvGet db (Underlying f) key,
     kvPut = \<lambda>f key v. counted_eff (\<lambda>s. kvPut db s key v) f,
     kvDelete = \<lambda>f key. through (\<lambda>s. kvDelete db s key) f,
     kvStart = \<lambda>f. kvStart db (Underlying f), kvPrefix = \<lambda>f. kvPrefix db (Underlying f),
     kvWrite = \<lambda>f ws. through (\<lambda>s. kvWrite db s ws) f, kvBatchSize = kvBatchSize db,
     kvClose = counted_eff (kvClose db),
     kvDrop = \<lambda>f. (let (ok, f) = fallible_count f in
       if \<not> ok then None else map_option (\<lambda>s. f\<lparr>Underlying := s\<rparr>) (kvDrop db (Underlying f)))\<rparr>"

subsection \<open>\<open>Move\<close> and \<open>Copy\<close>\<close>

text \<open>Both stores; \<open>r\<close> is the first error met.\<close>

fun put_all :: "'t kv_ops \<Rightarrow> 't \<Rightarrow> (bytes \<times> bytes) list \<Rightarrow> 't eff" where
  "put_all dst t [] = Some (None, t)"
| "put_all dst t ((k, v) # ps) = (case kvPut dst t k (Some v) of
     None \<Rightarrow> None | Some (Some err, t) \<Rightarrow> Some (Some err, t) | Some (None, t) \<Rightarrow> put_all dst t ps)"

fun delete_all :: "'s kv_ops \<Rightarrow> 's \<Rightarrow> bytes list \<Rightarrow> 's eff" where
  "delete_all src s [] = Some (None, s)"
| "delete_all src s (k # ks) = (case kvDelete src s k of
     None \<Rightarrow> None | Some (Some err, s) \<Rightarrow> Some (Some err, s) | Some (None, s) \<Rightarrow> delete_all src s ks)"

definition Copy :: "'s kv_ops \<Rightarrow> 't kv_ops \<Rightarrow> 's \<Rightarrow> 't \<Rightarrow> bytes \<Rightarrow> 't eff" where
  "Copy src dst s t pre = put_all dst t (kvPrefix src s pre)"

definition Move :: "'s kv_ops \<Rightarrow> 't kv_ops \<Rightarrow> 's \<Rightarrow> 't \<Rightarrow> bytes \<Rightarrow> (kv_err option \<times> 's \<times> 't) option" where
  "Move src dst s t pre = (let pairs = kvPrefix src s pre in
     case put_all dst t pairs of
       None \<Rightarrow> None
     | Some (Some err, t) \<Rightarrow> Some (Some err, s, t)
     | Some (None, t) \<Rightarrow> map_option (\<lambda>(err, s). (err, s, t)) (delete_all src s (map fst pairs)))"

subsection \<open>The contract\<close>

text \<open>The entries of a map whose keys satisfy \<open>P\<close>, in key order: what an iterator must yield.\<close>

definition entries :: "(bytes \<rightharpoonup> bytes) \<Rightarrow> (bytes \<Rightarrow> bool) \<Rightarrow> (bytes \<times> bytes) list \<Rightarrow> bool" where
  "entries m P ps \<longleftrightarrow> sorted_wrt (<) (map fst ps) \<and> (\<forall>k v. (k, v) \<in> set ps \<longleftrightarrow> m k = Some v \<and> P k)"

definition apply_writes :: "batchWrite list \<Rightarrow> (bytes \<rightharpoonup> bytes) \<Rightarrow> (bytes \<rightharpoonup> bytes)" where
  "apply_writes ws m = foldl (\<lambda>m (k, v). m(k := v)) m ws"

lemma apply_writes_simps [simp]: "apply_writes [] m = m" "apply_writes ((k, v) # ws) m = apply_writes ws (m(k := v))"
  "apply_writes (ws @ ws') m = apply_writes ws' (apply_writes ws m)"
  by (simp_all add: apply_writes_def)

locale kv_store =
  fixes ops :: "'s kv_ops" and ok :: "'s \<Rightarrow> bool" and view :: "'s \<Rightarrow> (bytes \<rightharpoonup> bytes)"
  assumes Has_view: "ok s \<Longrightarrow> kvHas ops s k = Inr (view s k \<noteq> None)"
    and Get_view: "ok s \<Longrightarrow> kvGet ops s k = Inr (view s k)"
    and Put_view: "ok s \<Longrightarrow> \<exists>s'. kvPut ops s k (Some v) = Some (None, s') \<and> ok s' \<and> view s' = (view s)(k \<mapsto> v)"
    and Delete_view: "ok s \<Longrightarrow> \<exists>s'. kvDelete ops s k = Some (None, s') \<and> ok s' \<and> view s' = (view s)(k := None)"
    and Start_view: "ok s \<Longrightarrow> entries (view s) (\<lambda>k. k \<ge> p) (kvStart ops s p)"
    and Prefix_view: "ok s \<Longrightarrow> entries (view s) (\<lambda>k. prefix p k) (kvPrefix ops s p)"
    and Write_view: "ok s \<Longrightarrow> \<exists>s'. kvWrite ops s ws = Some (None, s') \<and> ok s' \<and> view s' = apply_writes ws (view s)"
begin

lemma put_all_view: "ok s \<Longrightarrow> \<exists>s'. put_all ops s ps = Some (None, s') \<and> ok s' \<and> view s' = apply_writes (map (\<lambda>(k, v). (k, Some v)) ps) (view s)"
proof (induction ps arbitrary: s)
  case (Cons p ps)
  obtain k v where p: "p = (k, v)" by (cases p)
  obtain s1 where "kvPut ops s k (Some v) = Some (None, s1)" "ok s1" "view s1 = (view s)(k \<mapsto> v)" using Put_view [OF Cons.prems] by blast
  with Cons.IH [of s1] p show ?case by (auto simp del: fun_upd_apply)
qed simp

lemma delete_all_view: "ok s \<Longrightarrow> \<exists>s'. delete_all ops s ks = Some (None, s') \<and> ok s' \<and> view s' = (view s) |` (- set ks)"
proof (induction ks arbitrary: s)
  case (Cons k ks)
  obtain s1 where "kvDelete ops s k = Some (None, s1)" "ok s1" "view s1 = (view s)(k := None)" using Delete_view [OF Cons.prems] by blast
  moreover from Cons.IH [OF this(2)] obtain s2 where "delete_all ops s1 ks = Some (None, s2)" "ok s2" "view s2 = (view s1) |` (- set ks)" by blast
  ultimately show ?case by (auto simp: restrict_map_def fun_eq_iff)
qed (simp add: restrict_map_def)

end

subsection \<open>\<open>memorydb\<close> keeps the contract\<close>

definition mem_ok :: "MemDb \<Rightarrow> bool" where
  "mem_ok db \<longleftrightarrow> (case db of None \<Rightarrow> False | Some m \<Rightarrow> distinct (map fst m) \<and> (\<forall>k. map_of m k \<noteq> Some None))"

definition mem_view :: "MemDb \<Rightarrow> (bytes \<rightharpoonup> bytes)" where
  "mem_view db k = (case db of None \<Rightarrow> None | Some m \<Rightarrow> (case map_of m k of Some v \<Rightarrow> v | None \<Rightarrow> None))"

lemma mem_view_Some: "mem_view (Some m) = (\<lambda>k. case map_of m k of Some v \<Rightarrow> v | None \<Rightarrow> None)"
  by (simp add: mem_view_def fun_eq_iff)

lemma mem_put: "mem_ok (Some m) \<Longrightarrow> mem_ok (Some (AList.update k (Some v) m)) \<and> mem_view (Some (AList.update k (Some v) m)) = (mem_view (Some m))(k \<mapsto> v)"
  by (auto simp: mem_ok_def mem_view_Some distinct_update update_conv' fun_eq_iff simp del: map_of_eq_Some_iff)

lemma mem_del: "mem_ok (Some m) \<Longrightarrow> mem_ok (Some (AList.delete k m)) \<and> mem_view (Some (AList.delete k m)) = (mem_view (Some m))(k := None)"
  by (auto simp: mem_ok_def mem_view_Some distinct_delete delete_conv' fun_eq_iff simp del: map_of_eq_Some_iff)

lemma mem_pairs_entries:
  assumes "mem_ok (Some m)"
  shows "entries (mem_view (Some m)) P (mem_pairs (Some m) P)"
proof -
  let ?ks = "sort (filter P (map fst m))"
  have m: "distinct (map fst m)" "\<And>k. map_of m k \<noteq> Some None" using assms by (auto simp: mem_ok_def)
  have "sorted_wrt (<) ?ks" using m(1) by (simp add: strict_sorted_iff)
  moreover have "(k, v) \<in> set (mem_pairs (Some m) P) \<longleftrightarrow> mem_view (Some m) k = Some v \<and> P k" for k v
  proof -
    have "k \<in> set (map fst m) \<longleftrightarrow> (\<exists>w. map_of m k = Some (Some w))"
      using m(2) [of k] map_of_eq_None_iff [of m k] by (cases "map_of m k") (auto simp del: map_of_eq_Some_iff)
    then show ?thesis by (auto simp: mem_pairs_def mem_view_Some simp del: map_of_eq_Some_iff split: option.splits)
  qed
  ultimately show ?thesis by (simp add: entries_def mem_pairs_def comp_def)
qed

lemma mem_Write_view: "mem_ok (Some m) \<Longrightarrow> \<exists>m'. mem_Write (Some m) ws = Some (None, Some m') \<and> mem_ok (Some m') \<and> mem_view (Some m') = apply_writes ws (mem_view (Some m))"
proof (induction ws arbitrary: m)
  case (Cons w ws)
  obtain k v where w: "w = (k, v)" by (cases w)
  obtain m1 where "mem_write (Some m) w = Some (Some m1)" "mem_ok (Some m1)" "mem_view (Some m1) = (mem_view (Some m))(k := v)"
    using mem_put [OF Cons.prems] mem_del [OF Cons.prems] by (cases v) (auto simp: mem_write_def w simp del: fun_upd_apply)
  with Cons.IH [of m1] w show ?case by (auto simp: mem_Write_def simp del: fun_upd_apply)
qed (simp add: mem_Write_def)

interpretation mem: kv_store mem_ops mem_ok mem_view
proof unfold_locales
  fix s k assume "mem_ok s"
  then obtain m where s: "s = Some m" and m: "mem_ok (Some m)" by (cases s) (auto simp: mem_ok_def)
  have ne: "map_of m k \<noteq> Some None" using m by (simp add: mem_ok_def del: map_of_eq_Some_iff)
  show "kvHas mem_ops s k = Inr (mem_view s k \<noteq> None)" "kvGet mem_ops s k = Inr (mem_view s k)"
    using ne by (auto simp: mem_ops_def mem_Has_def mem_Get_def s mem_view_Some simp del: map_of_eq_Some_iff split: option.split)
  show "\<exists>s'. kvDelete mem_ops s k = Some (None, s') \<and> mem_ok s' \<and> mem_view s' = (mem_view s)(k := None)"
    using mem_del [OF m] by (simp add: mem_ops_def mem_Delete_def s del: fun_upd_apply)
  show "\<exists>s'. kvPut mem_ops s k (Some v) = Some (None, s') \<and> mem_ok s' \<and> mem_view s' = (mem_view s)(k \<mapsto> v)" for v
    using mem_put [OF m] by (simp add: mem_ops_def mem_Put_def s del: fun_upd_apply)
  show "entries (mem_view s) (\<lambda>k. p \<le> k) (kvStart mem_ops s p)" "entries (mem_view s) (prefix p) (kvPrefix mem_ops s p)" for p
    using mem_pairs_entries [OF m] by (simp_all add: mem_ops_def mem_NewIteratorWithStart_def mem_NewIteratorWithPrefix_def s)
  show "\<exists>s'. kvWrite mem_ops s ws = Some (None, s') \<and> mem_ok s' \<and> mem_view s' = apply_writes ws (mem_view s)" for ws
    using mem_Write_view [OF m] by (auto simp: mem_ops_def s)
qed

subsection \<open>Tables\<close>

lemma table_iterator_eq: "table_iterator pre ps = map (\<lambda>(k, v). (drop (length pre) k, v)) (filter (\<lambda>(k, v). prefix pre k) ps)"
  by (induction ps) (auto simp: noPrefix_def prefix_def)

lemma bytes_prefix_le [simp]: "xs @ ys \<le> xs @ zs \<longleftrightarrow> ys \<le> zs" for xs :: bytes
  by (simp add: le_less)

lemma sorted_strip:
  "sorted_wrt (<) (map fst ps) \<Longrightarrow> sorted_wrt (<) (map fst (table_iterator pre ps))" for ps :: "(bytes \<times> bytes) list"
proof (induction ps)
  case (Cons p ps)
  have "x < y" if "prefix pre (fst p)" "x = drop (length pre) (fst p)" "q \<in> set ps" "prefix pre (fst q)" "y = drop (length pre) (fst q)" for q x y
    using Cons.prems that by (auto simp: prefix_def)
  with Cons show ?case by (auto simp: table_iterator_eq)
qed simp

lemma entries_strip:
  assumes e: "entries m Q ps" and Q: "\<And>k. Q (pre @ k) \<longleftrightarrow> P k"
  shows "entries (\<lambda>k. m (pre @ k)) P (table_iterator pre ps)"
proof -
  have "(k, v) \<in> set (table_iterator pre ps) \<longleftrightarrow> (pre @ k, v) \<in> set ps" for k v
    by (auto simp: table_iterator_eq prefix_def image_iff Bex_def)
  then show ?thesis using e Q sorted_strip unfolding entries_def by blast
qed

lemma apply_writes_table: "(\<lambda>k. apply_writes (table_batch pre ws) m (pre @ k)) = apply_writes ws (\<lambda>k. m (pre @ k))"
proof (induction ws arbitrary: m)
  case (Cons w ws)
  obtain k v where w: "w = (k, v)" by (cases w)
  have "(\<lambda>k'. (m(pre @ k := v)) (pre @ k')) = (\<lambda>k'. m (pre @ k'))(k := v)" by (auto simp: fun_eq_iff)
  with Cons.IH [of "m(pre @ k := v)"] w show ?case by (simp add: table_batch_def prefixed_def del: fun_upd_apply)
qed (simp add: table_batch_def)

locale table_over = kv_store ops ok view for ops :: "'s kv_ops" and ok view +
  fixes pre :: bytes

sublocale table_over \<subseteq> tbl: kv_store "table_ops ops pre" ok "\<lambda>s k. view s (pre @ k)"
proof unfold_locales
  fix s k assume s: "ok s"
  show "kvHas (table_ops ops pre) s k = Inr (view s (pre @ k) \<noteq> None)" "kvGet (table_ops ops pre) s k = Inr (view s (pre @ k))"
    using Has_view [OF s] Get_view [OF s] by (simp_all add: table_ops_def prefixed_def)
  show "\<exists>s'. kvPut (table_ops ops pre) s k (Some v) = Some (None, s') \<and> ok s' \<and> (\<lambda>k. view s' (pre @ k)) = (\<lambda>k. view s (pre @ k))(k \<mapsto> v)" for v
    using Put_view [OF s, of "pre @ k" v] by (auto simp: table_ops_def prefixed_def fun_eq_iff)
  show "\<exists>s'. kvDelete (table_ops ops pre) s k = Some (None, s') \<and> ok s' \<and> (\<lambda>k. view s' (pre @ k)) = (\<lambda>k. view s (pre @ k))(k := None)"
    using Delete_view [OF s, of "pre @ k"] by (auto simp: table_ops_def prefixed_def fun_eq_iff)
  show "entries (\<lambda>k. view s (pre @ k)) (\<lambda>k. p \<le> k) (kvStart (table_ops ops pre) s p)" for p
    using entries_strip [OF Start_view [OF s, of "pre @ p"], of pre] by (simp add: table_ops_def prefixed_def)
  show "entries (\<lambda>k. view s (pre @ k)) (prefix p) (kvPrefix (table_ops ops pre) s p)" for p
    using entries_strip [OF Prefix_view [OF s, of "pre @ p"], of pre] by (simp add: table_ops_def prefixed_def)
  show "\<exists>s'. kvWrite (table_ops ops pre) s ws = Some (None, s') \<and> ok s' \<and> (\<lambda>k. view s' (pre @ k)) = apply_writes ws (\<lambda>k. view s (pre @ k))" for ws
    using Write_view [OF s, of "table_batch pre ws"] by (auto simp: table_ops_def apply_writes_table)
qed

text \<open>Tables whose prefixes are not prefixes of each other do not see each other's writes.\<close>

context table_over
begin

lemma Put_elsewhere:
  assumes "ok s" "\<not> prefix pre q" "\<not> prefix q pre"
  shows "\<exists>s'. kvPut (table_ops ops pre) s k (Some v) = Some (None, s') \<and> ok s' \<and> (\<forall>k'. view s' (q @ k') = view s (q @ k'))"
proof -
  obtain s' where s': "kvPut ops s (pre @ k) (Some v) = Some (None, s')" "ok s'" "view s' = (view s)(pre @ k \<mapsto> v)"
    using Put_view [OF assms(1)] by blast
  have "q @ k' \<noteq> pre @ k" for k' using assms(2,3) by (metis append_eq_append_conv2 prefixI)
  with s' show ?thesis by (auto simp: table_ops_def prefixed_def)
qed

end

subsection \<open>The wrappers\<close>

locale skipping = kv_store ops ok view for ops :: "'s kv_ops" and ok view +
  fixes errs :: "kv_err list"

sublocale skipping \<subseteq> skp: kv_store "skip_ops errs ops" ok view
proof unfold_locales
  fix s k assume s: "ok s"
  show "kvHas (skip_ops errs ops) s k = Inr (view s k \<noteq> None)" "kvGet (skip_ops errs ops) s k = Inr (view s k)"
    using Has_view [OF s] Get_view [OF s] by (simp_all add: skip_ops_def skip_res_def)
  show "\<exists>s'. kvPut (skip_ops errs ops) s k (Some v) = Some (None, s') \<and> ok s' \<and> view s' = (view s)(k \<mapsto> v)" for v
    using Put_view [OF s, of k v] by (auto simp: skip_ops_def skip_eff_def)
  show "\<exists>s'. kvDelete (skip_ops errs ops) s k = Some (None, s') \<and> ok s' \<and> view s' = (view s)(k := None)"
    using Delete_view [OF s, of k] by (auto simp: skip_ops_def skip_eff_def)
qed (use Start_view Prefix_view Write_view in \<open>simp_all add: skip_ops_def\<close>)

locale two_stores = src: kv_store src oks views + dst: kv_store dst okt viewt
  for src :: "'s kv_ops" and oks views and dst :: "'t kv_ops" and okt viewt
begin

lemma writes_of_entries:
  assumes "entries m P ps"
  shows "apply_writes (map (\<lambda>(k, v). (k, Some v)) ps) n = n ++ (m |` {k. P k})"
proof -
  have d: "distinct (map fst ps)" using assms strict_sorted_iff [of "map fst ps"] by (simp add: entries_def)
  have "apply_writes (map (\<lambda>(k, v). (k, Some v)) ps) n = n ++ map_of ps" using d
  proof (induction ps arbitrary: n)
    case (Cons p ps)
    then have "map_of ps (fst p) = None" by (auto simp: map_of_eq_None_iff)
    then have "n(fst p \<mapsto> snd p) ++ map_of ps = n ++ (map_of ps)(fst p \<mapsto> snd p)"
      by (auto simp: map_add_def fun_eq_iff split: option.split)
    with Cons show ?case by (simp add: case_prod_unfold del: fun_upd_apply)
  qed simp
  moreover have "map_of ps = m |` {k. P k}"
  proof
    fix k
    have eq: "map_of ps k = Some v \<longleftrightarrow> m k = Some v \<and> P k" for v using assms d by (simp add: entries_def)
    have "map_of ps k = (if P k then m k else None)" using eq by (metis not_None_eq)
    then show "map_of ps k = (m |` {k. P k}) k" by (simp add: restrict_map_def)
  qed
  ultimately show ?thesis by simp
qed

lemma put_all_entries:
  assumes "oks s" "okt t"
  shows "\<exists>t'. put_all dst t (kvPrefix src s pre) = Some (None, t') \<and> okt t' \<and> viewt t' = viewt t ++ (views s |` {k. prefix pre k})"
  using dst.put_all_view [OF assms(2), of "kvPrefix src s pre"] unfolding writes_of_entries [OF src.Prefix_view [OF assms(1)]] .

lemma Copy_view:
  assumes "oks s" "okt t"
  shows "\<exists>t'. Copy src dst s t pre = Some (None, t') \<and> okt t' \<and> viewt t' = viewt t ++ (views s |` {k. prefix pre k})"
  using put_all_entries [OF assms] by (simp add: Copy_def)

lemma Move_view:
  assumes "oks s" "okt t"
  shows "\<exists>s' t'. Move src dst s t pre = Some (None, s', t') \<and> oks s' \<and> okt t' \<and>
     viewt t' = viewt t ++ (views s |` {k. prefix pre k}) \<and> views s' = views s |` {k. \<not> prefix pre k}"
proof -
  let ?ps = "kvPrefix src s pre"
  have e: "entries (views s) (prefix pre) ?ps" using src.Prefix_view [OF assms(1)] .
  obtain t' where t': "put_all dst t ?ps = Some (None, t')" "okt t'" "viewt t' = viewt t ++ (views s |` {k. prefix pre k})"
    using put_all_entries [OF assms] by blast
  obtain s' where s': "delete_all src s (map fst ?ps) = Some (None, s')" "oks s'" "views s' = views s |` (- set (map fst ?ps))"
    using src.delete_all_view [OF assms(1)] by blast
  have "k \<in> set (map fst ?ps) \<longleftrightarrow> views s k \<noteq> None \<and> prefix pre k" for k
    using e unfolding entries_def by (cases "views s k") force+
  then have "views s |` (- set (map fst ?ps)) = views s |` {k. \<not> prefix pre k}"
    by (auto simp: restrict_map_def fun_eq_iff)
  with s' t' show ?thesis by (auto simp: Move_def Let_def)
qed

end

interpretation mem_tables: table_over mem_ops mem_ok mem_view pre for pre
  by unfold_locales

interpretation mem_skips: skipping mem_ops mem_ok mem_view errs for errs
  by unfold_locales

interpretation mem_moves: two_stores "table_ops mem_ops p" mem_ok "\<lambda>s k. mem_view s (p @ k)" mem_ops mem_ok mem_view for p
  by unfold_locales

subsection \<open>Properties\<close>

text \<open>
  A table of a memory database behaves as a map of its own: a read returns what was written
  last under the key, iteration by prefix yields exactly the entries of the table under that
  prefix, with the table's prefix stripped, in increasing key order and each once, and writing
  to it leaves every table with an incomparable prefix as it was.
\<close>

theorem table_is_map:
  assumes "mem_ok s" "\<not> prefix pre q" "\<not> prefix q pre"
  shows "\<exists>s'. kvPut (table_ops mem_ops pre) s k (Some v) = Some (None, s') \<and> mem_ok s' \<and>
     (\<forall>k'. kvGet (table_ops mem_ops pre) s' k' = (if k' = k then Inr (Some v) else kvGet (table_ops mem_ops pre) s k')) \<and>
     (\<forall>p. entries (\<lambda>k'. mem_view s' (pre @ k')) (prefix p) (kvPrefix (table_ops mem_ops pre) s' p)) \<and>
     (\<forall>k'. kvGet (table_ops mem_ops q) s' k' = kvGet (table_ops mem_ops q) s k')"
proof -
  obtain s' where s': "kvPut (table_ops mem_ops pre) s k (Some v) = Some (None, s')" "mem_ok s'"
    "(\<lambda>k'. mem_view s' (pre @ k')) = (\<lambda>k'. mem_view s (pre @ k'))(k \<mapsto> v)" using mem_tables.tbl.Put_view [OF assms(1)] by blast
  have "mem_view s' (pre @ k') = (if k' = k then Some v else mem_view s (pre @ k'))" for k' using fun_cong [OF s'(3), of k'] by simp
  moreover have "mem_view s' (q @ k') = mem_view s (q @ k')" for k'
    using mem_tables.Put_elsewhere [OF assms, of k v] s'(1) by auto
  ultimately have "kvGet (table_ops mem_ops pre) s' k' = (if k' = k then Inr (Some v) else kvGet (table_ops mem_ops pre) s k')"
      "kvGet (table_ops mem_ops q) s' k' = kvGet (table_ops mem_ops q) s k'" for k'
    using mem_tables.tbl.Get_view [OF s'(2)] mem_tables.tbl.Get_view [OF assms(1)] by simp_all
  with s'(1,2) mem_tables.tbl.Prefix_view [OF s'(2)] show ?thesis by blast
qed

text \<open>
  \<open>kvdb.Move\<close> from a table to a database carries over exactly the entries under the prefix,
  keeps what else the destination had, and removes them from the source.
\<close>

theorem Move_moves:
  assumes "mem_ok s" "mem_ok t"
  shows "\<exists>s' t'. Move (table_ops mem_ops p) mem_ops s t pre = Some (None, s', t') \<and>
     mem_view t' = mem_view t ++ ((\<lambda>k. mem_view s (p @ k)) |` {k. prefix pre k}) \<and>
     (\<lambda>k. mem_view s' (p @ k)) = (\<lambda>k. mem_view s (p @ k)) |` {k. \<not> prefix pre k}"
  using mem_moves.Move_view [OF assms] by blast

definition sample_db :: MemDb where
  "sample_db = Some [([1, 7], Some [5]), ([2, 7], Some [6])]"

lemma sample_db_ok: "mem_ok sample_db"
  by (simp add: mem_ok_def sample_db_def)

theorem table_is_map_witness:
  "\<exists>s'. kvPut (table_ops mem_ops [1]) sample_db [8] (Some [9]) = Some (None, s') \<and>
     kvGet (table_ops mem_ops [1]) s' [8] = Inr (Some [9]) \<and> kvGet (table_ops mem_ops [2]) s' [7] = Inr (Some [6])"
proof -
  have "\<not> prefix [1 :: byte] [2]" "\<not> prefix [2 :: byte] [1]" by simp_all
  moreover have "kvGet (table_ops mem_ops [2]) sample_db [7] = Inr (Some [6])" by code_simp
  ultimately show ?thesis using table_is_map [OF sample_db_ok, of "[1]" "[2]" "[8]" "[9]"] by auto
qed

theorem Move_moves_witness:
  "\<exists>s' t'. Move (table_ops mem_ops [1]) mem_ops sample_db mem_New [] = Some (None, s', t') \<and> mem_view t' [7] = Some [5] \<and> mem_view s' [1, 7] = None"
proof -
  have "mem_ok mem_New" by (simp add: mem_ok_def mem_New_def)
  moreover have "mem_view sample_db [1, 7] = Some [5]" by code_simp
  ultimately show ?thesis using Move_moves [OF sample_db_ok, of mem_New "[1]" "[]"] by (auto simp: map_add_def restrict_map_def fun_eq_iff)
qed

end
