(* ===== verification/Flushable_Db.thy ===== *)
theory Flushable_Db
  imports Kv_Store
begin

text \<open>
  Package \<open>kvdb/flushable\<close>: a store that keeps its writes in an ordered tree over an underlying
  store until \<open>Flush\<close> (\<open>flushable.go\<close>), and the one whose underlying store is made at the first
  flush (\<open>lazy_flushable.go\<close>). The tree of modifications, a red-black tree of the library \<open>gods\<close>, is
  the list of its pairs in key order; a deleted key is mapped to \<^const>\<open>None\<close>. The locks are held
  for whole methods, so that methods are atomic.
\<close>

subsection \<open>The tree of modifications\<close>

type_synonym tree = "(bytes \<times> bytes option) list"

fun tree_put :: "bytes \<Rightarrow> bytes option \<Rightarrow> tree \<Rightarrow> tree" where
  "tree_put k v [] = [(k, v)]"
| "tree_put k v ((k', v') # t) = (if k < k' then (k, v) # (k', v') # t else if k = k' then (k, v) # t else (k', v') # tree_put k v t)"

definition tree_ok :: "tree \<Rightarrow> bool" where
  "tree_ok t \<longleftrightarrow> sorted_wrt (<) (map fst t)"

lemma tree_put_set: "set (map fst (tree_put k v t)) = insert k (set (map fst t))"
  by (induction t rule: tree_put.induct) auto

lemma tree_put_ok: "tree_ok t \<Longrightarrow> tree_ok (tree_put k v t)"
  unfolding tree_ok_def
proof (induction k v t rule: tree_put.induct)
  case (2 k v k' v' t)
  have "\<forall>x \<in> set (map fst (tree_put k v t)). k' < x" if "k' < k" using 2(2) that tree_put_set [of k v t] by auto
  with 2 show ?case by auto
qed simp

lemma tree_put_get: "tree_ok t \<Longrightarrow> map_of (tree_put k v t) = (map_of t)(k \<mapsto> v)"
  unfolding tree_ok_def by (induction k v t rule: tree_put.induct) (auto simp: fun_eq_iff simp del: map_of_eq_Some_iff)

lemma tree_ok_distinct: "tree_ok t \<Longrightarrow> distinct (map fst t)"
  by (simp add: tree_ok_def strict_sorted_iff)

subsection \<open>State and operations\<close>

record 's Flushable =
  underlying :: 's
  modified :: "tree option" \<comment> \<open>\<^const>\<open>None\<close> once closed\<close>
  sizeEstimation :: int

definition Wrap :: "'s \<Rightarrow> 's Flushable" where
  "Wrap parent = \<lparr>underlying = parent, modified = Some [], sizeEstimation = 0\<rparr>"

definition fl_put :: "'s Flushable \<Rightarrow> bytes \<Rightarrow> bytes option \<Rightarrow> 's Flushable eff" where
  "fl_put w key v = (case v of None \<Rightarrow> Some (Some errNil, w) | Some b \<Rightarrow>
     (case modified w of None \<Rightarrow> Some (Some errClosed, w)
      | Some t \<Rightarrow> Some (None, w\<lparr>modified := Some (tree_put key (Some b) t), sizeEstimation := sizeEstimation w + int (length key + length b)\<rparr>)))"

definition fl_Has :: "'s kv_ops \<Rightarrow> 's Flushable \<Rightarrow> bytes \<Rightarrow> kv_err + bool" where
  "fl_Has ops w key = (case modified w of None \<Rightarrow> Inl errClosed
   | Some t \<Rightarrow> (case map_of t key of Some v \<Rightarrow> Inr (v \<noteq> None) | None \<Rightarrow> kvHas ops (underlying w) key))"

definition fl_Get :: "'s kv_ops \<Rightarrow> 's Flushable \<Rightarrow> bytes \<Rightarrow> kv_err + bytes option" where
  "fl_Get ops w key = (case modified w of None \<Rightarrow> Inl errClosed
   | Some t \<Rightarrow> (case map_of t key of Some entry \<Rightarrow> Inr entry | None \<Rightarrow> kvGet ops (underlying w) key))"

text \<open>\<open>delete\<close> does not look whether the store is closed; a nil tree panics.\<close>

definition fl_delete :: "'s Flushable \<Rightarrow> bytes \<Rightarrow> 's Flushable eff" where
  "fl_delete w key = (case modified w of None \<Rightarrow> None
   | Some t \<Rightarrow> Some (None, w\<lparr>modified := Some (tree_put key None t), sizeEstimation := sizeEstimation w + int (length key)\<rparr>))"

definition fl_DropNotFlushed :: "'s Flushable \<Rightarrow> 's Flushable option" where
  "fl_DropNotFlushed w = (case modified w of None \<Rightarrow> None | Some t \<Rightarrow> Some (w\<lparr>modified := Some [], sizeEstimation := 0\<rparr>))"

definition fl_Close :: "'s kv_ops \<Rightarrow> 's Flushable \<Rightarrow> 's Flushable eff" where
  "fl_Close ops w = do {
     w \<leftarrow> fl_DropNotFlushed w;
     let w = w\<lparr>modified := None\<rparr>;
     (err, s) \<leftarrow> kvClose ops (underlying w);
     Some (err, w\<lparr>underlying := s\<rparr>) }"

definition fl_Drop :: "'s kv_ops \<Rightarrow> 's Flushable \<Rightarrow> 's Flushable option" where
  "fl_Drop ops w = (if modified w \<noteq> None then None else do { s \<leftarrow> kvDrop ops (underlying w); Some (w\<lparr>underlying := s\<rparr>) })"

definition NotFlushedPairs :: "'s Flushable \<Rightarrow> nat option" where
  "NotFlushedPairs w = map_option length (modified w)"

definition NotFlushedSizeEst :: "'s Flushable \<Rightarrow> int" where
  "NotFlushedSizeEst w = sizeEstimation w"

text \<open>
  The loop of \<open>flush\<close> collects the modifications in a batch of the underlying store, which is
  written whenever it is larger than \<open>ethdb.IdealBatchSize\<close>. An error leaves the loop with the
  store as it is then.
\<close>

fun flush_loop :: "'s kv_ops \<Rightarrow> nat \<Rightarrow> 's \<Rightarrow> batchWrite list \<Rightarrow> tree \<Rightarrow> (kv_err option \<times> 's \<times> batchWrite list) option" where
  "flush_loop ops ideal s batch [] = Some (None, s, batch)"
| "flush_loop ops ideal s batch ((k, v) # t) =
     (let batch = batch @ [(k, v)] in
      if kvBatchSize ops batch > ideal
      then (case kvWrite ops s batch of
              None \<Rightarrow> None
            | Some (Some err, s) \<Rightarrow> Some (Some err, s, batch)
            | Some (None, s) \<Rightarrow> flush_loop ops ideal s [] t)
      else flush_loop ops ideal s batch t)"

definition fl_flush :: "'s kv_ops \<Rightarrow> nat \<Rightarrow> 's Flushable \<Rightarrow> 's Flushable eff" where
  "fl_flush ops ideal w = (case modified w of None \<Rightarrow> Some (Some errClosed, w)
   | Some t \<Rightarrow> (case flush_loop ops ideal (underlying w) [] t of
       None \<Rightarrow> None
     | Some (Some err, s, _) \<Rightarrow> Some (Some err, w\<lparr>underlying := s\<rparr>)
     | Some (None, s, batch) \<Rightarrow>
         map_option (\<lambda>(err, s). (err, w\<lparr>underlying := s, modified := Some [], sizeEstimation := 0\<rparr>)) (kvWrite ops s batch)))"

subsection \<open>Iterators\<close>

text \<open>
  \<open>Next\<close> on what is left of the tree and of the underlying iterator; a source whose keys left the
  prefix is dropped. It returns the pair found with the new \<open>prevKey\<close> and the rest.
\<close>

definition has_prefix :: "bytes option \<Rightarrow> bytes \<Rightarrow> bool" where
  "has_prefix pre key = (case pre of None \<Rightarrow> True | Some p \<Rightarrow> prefix p key)"

definition after :: "bytes option \<Rightarrow> bytes \<Rightarrow> bool" where
  "after prev key = (case prev of None \<Rightarrow> True | Some p \<Rightarrow> key > p)"

function it_Next :: "bytes option \<Rightarrow> bytes option \<Rightarrow> tree \<Rightarrow> (bytes \<times> bytes) list \<Rightarrow>
    ((bytes \<times> bytes) \<times> bytes option \<times> tree \<times> (bytes \<times> bytes) list) option" where
  "it_Next pre prev tree parent =
     (if tree \<noteq> [] \<and> (parent = [] \<or> fst (hd tree) \<le> fst (hd parent)) then
        (case hd tree of
           (k, None) \<Rightarrow> it_Next pre (Some k) (tl tree) parent
         | (k, Some v) \<Rightarrow>
             if \<not> has_prefix pre k then it_Next pre prev [] parent
             else if after prev k then Some ((k, v), Some k, tl tree, parent)
             else it_Next pre prev (tl tree) parent)
      else if parent \<noteq> [] then
        (let (k, v) = hd parent in
         if \<not> has_prefix pre k then it_Next pre prev tree []
         else if after prev k then Some ((k, v), Some k, tree, tl parent)
         else it_Next pre prev tree (tl parent))
      else None)"
  by pat_completeness auto
termination by (relation "measure (\<lambda>(_, _, t, p). length t + length p)") (auto simp: neq_Nil_conv)

declare it_Next.simps [simp del]

lemma it_Next_consumes: "it_Next pre prev tree parent = Some (kv, prev', tree', parent') \<Longrightarrow> length tree' + length parent' < length tree + length parent"
proof (induction pre prev tree parent rule: it_Next.induct)
  case (1 pre prev tree parent)
  show ?case using 1(6) 1(1-5)
    by (subst (asm) it_Next.simps) (cases tree; cases parent; fastforce split: if_splits option.splits prod.splits)
qed

text \<open>All pairs, by calling \<open>Next\<close> until it returns false.\<close>

function it_list :: "bytes option \<Rightarrow> bytes option \<Rightarrow> tree \<Rightarrow> (bytes \<times> bytes) list \<Rightarrow> (bytes \<times> bytes) list" where
  "it_list pre prev tree parent = (case it_Next pre prev tree parent of
     None \<Rightarrow> [] | Some (kv, prev', tree', parent') \<Rightarrow> kv # it_list pre prev' tree' parent')"
  by pat_completeness auto
termination by (relation "measure (\<lambda>(_, _, t, p). length t + length p)") (auto dest: it_Next_consumes)

declare it_list.simps [simp del]

definition fl_NewIteratorWithStart :: "'s kv_ops \<Rightarrow> 's Flushable \<Rightarrow> bytes \<Rightarrow> (bytes \<times> bytes) list" where
  "fl_NewIteratorWithStart ops w start =
     it_list None None (dropWhile (\<lambda>(k, v). k < start) (the (modified w))) (kvStart ops (underlying w) start)"

definition fl_NewIteratorWithPrefix :: "'s kv_ops \<Rightarrow> 's Flushable \<Rightarrow> bytes \<Rightarrow> (bytes \<times> bytes) list" where
  "fl_NewIteratorWithPrefix ops w pre =
     it_list (Some pre) None (dropWhile (\<lambda>(k, v). k < pre) (the (modified w))) (kvPrefix ops (underlying w) pre)"

subsection \<open>Batches\<close>

fun cacheBatch_Write :: "'s Flushable \<Rightarrow> batchWrite list \<Rightarrow> 's Flushable eff" where
  "cacheBatch_Write w [] = Some (None, w)"
| "cacheBatch_Write w ((k, v) # ws) = (case (if v = None then fl_delete w k else fl_put w k v) of
     None \<Rightarrow> None | Some (Some err, w) \<Rightarrow> Some (Some err, w) | Some (None, w) \<Rightarrow> cacheBatch_Write w ws)"

definition cacheBatch_ValueSize :: "batchWrite list \<Rightarrow> nat" where
  "cacheBatch_ValueSize ws = sum_list (map (\<lambda>(k, v). case v of None \<Rightarrow> length k | Some v \<Rightarrow> length v + length k) ws)"

definition flushable_ops :: "'s kv_ops \<Rightarrow> 's Flushable kv_ops" where
  "flushable_ops ops = \<lparr>kvHas = fl_Has ops, kvGet = fl_Get ops, kvPut = fl_put, kvDelete = fl_delete,
     kvStart = fl_NewIteratorWithStart ops, kvPrefix = fl_NewIteratorWithPrefix ops, kvWrite = cacheBatch_Write,
     kvBatchSize = cacheBatch_ValueSize, kvClose = fl_Close ops, kvDrop = fl_Drop ops\<rparr>"

subsection \<open>Lazy stores\<close>

text \<open>
  The underlying store of a lazy one is \<open>devnull\<close> until \<open>producer\<close> (nil once used) has made it.
\<close>

datatype 's lazy_db = devnull | real 's

definition lazy_ops :: "'s kv_ops \<Rightarrow> 's lazy_db kv_ops" where
  "lazy_ops ops = (let lift = (\<lambda>f d. case d of devnull \<Rightarrow> Some (None, devnull) | real s \<Rightarrow> map_option (\<lambda>(e, s). (e, real s)) (f s)) in
    \<lparr>kvHas = \<lambda>d k. (case d of devnull \<Rightarrow> kvHas devnull_ops () k | real s \<Rightarrow> kvHas ops s k),
     kvGet = \<lambda>d k. (case d of devnull \<Rightarrow> kvGet devnull_ops () k | real s \<Rightarrow> kvGet ops s k),
     kvPut = \<lambda>d k v. lift (\<lambda>s. kvPut ops s k v) d, kvDelete = \<lambda>d k. lift (\<lambda>s. kvDelete ops s k) d,
     kvStart = \<lambda>d p. (case d of devnull \<Rightarrow> kvStart devnull_ops () p | real s \<Rightarrow> kvStart ops s p),
     kvPrefix = \<lambda>d p. (case d of devnull \<Rightarrow> kvPrefix devnull_ops () p | real s \<Rightarrow> kvPrefix ops s p),
     kvWrite = \<lambda>d ws. lift (\<lambda>s. kvWrite ops s ws) d, kvBatchSize = kvBatchSize ops,
     kvClose = lift (kvClose ops), kvDrop = \<lambda>d. (case d of devnull \<Rightarrow> Some devnull | real s \<Rightarrow> map_option real (kvDrop ops s))\<rparr>)"

record 's LazyFlushable = "'s lazy_db Flushable" +
  producer :: "'s option" \<comment> \<open>the store it opens, until used\<close>

definition NewLazy :: "'s \<Rightarrow> 's LazyFlushable" where
  "NewLazy db = \<lparr>underlying = devnull, modified = Some [], sizeEstimation = 0, producer = Some db\<rparr>"

definition initUnderlyingDb :: "'s LazyFlushable \<Rightarrow> 's LazyFlushable" where
  "initUnderlyingDb w = (case (underlying w, producer w) of
     (devnull, Some db) \<Rightarrow> w\<lparr>underlying := real db, producer := None\<rparr>
   | _ \<Rightarrow> w)"

definition lazy_Flush :: "'s kv_ops \<Rightarrow> nat \<Rightarrow> 's LazyFlushable \<Rightarrow> 's LazyFlushable eff" where
  "lazy_Flush ops ideal w = (let w = initUnderlyingDb w in
     map_option (\<lambda>(err, f). (err, w\<lparr>underlying := underlying f, modified := modified f, sizeEstimation := sizeEstimation f\<rparr>))
       (fl_flush (lazy_ops ops) ideal (Flushable.truncate w)))"

subsection \<open>Iterators yield the merged entries\<close>

lemma it_list_step:
  "it_list pre prev tree parent =
     (if tree \<noteq> [] \<and> (parent = [] \<or> fst (hd tree) \<le> fst (hd parent)) then
        (case hd tree of
           (k, None) \<Rightarrow> it_list pre (Some k) (tl tree) parent
         | (k, Some v) \<Rightarrow>
             if \<not> has_prefix pre k then it_list pre prev [] parent
             else if after prev k then (k, v) # it_list pre (Some k) (tl tree) parent
             else it_list pre prev (tl tree) parent)
      else if parent \<noteq> [] then
        (let (k, v) = hd parent in
         if \<not> has_prefix pre k then it_list pre prev tree []
         else if after prev k then (k, v) # it_list pre (Some k) tree (tl parent)
         else it_list pre prev tree (tl parent))
      else [])"
  by (subst it_list.simps, subst it_Next.simps) (simp add: it_list.simps [symmetric] split: prod.split option.split)

lemma prefix_interval: "p \<le> k \<Longrightarrow> k \<le> k' \<Longrightarrow> prefix p k' \<Longrightarrow> prefix p k" for p k k' :: bytes
proof (induction p arbitrary: k k')
  case (Cons x p)
  from Cons.prems(3) obtain r where k': "k' = x # r" "prefix p r" by (cases k') auto
  from Cons.prems(1) obtain y q where k: "k = y # q" by (cases k) auto
  with Cons.prems(1,2) k' have "y = x" by (auto simp: Cons_le_Cons)
  with Cons k k' show ?case by (auto simp: Cons_le_Cons)
qed simp

definition merged :: "tree \<Rightarrow> (bytes \<times> bytes) list \<Rightarrow> (bytes \<rightharpoonup> bytes)" where
  "merged tree parent k = (case map_of tree k of Some v \<Rightarrow> v | None \<Rightarrow> map_of parent k)"

lemma entries_cong:
  "entries m' P' ps \<Longrightarrow> (\<And>k v. m k = Some v \<and> P k \<longleftrightarrow> m' k = Some v \<and> P' k) \<Longrightarrow> entries m P ps"
  by (simp add: entries_def)

lemma entries_Cons:
  assumes "entries m' P' ps" "\<And>k' v'. m' k' = Some v' \<Longrightarrow> P' k' \<Longrightarrow> k < k'"
    and "\<And>k' v'. m k' = Some v' \<and> P k' \<longleftrightarrow> k' = k \<and> v' = v \<or> m' k' = Some v' \<and> P' k'"
  shows "entries m P ((k, v) # ps)"
  using assms unfolding entries_def by auto

lemma merged_key: "merged tree parent k = Some v \<Longrightarrow> k \<in> set (map fst tree) \<union> set (map fst parent)"
  by (auto simp: merged_def split: option.splits dest!: map_of_SomeD simp del: map_of_eq_Some_iff) force+

lemma merged_Cons [simp]:
  "merged ((k, x) # t) parent k' = (if k' = k then x else merged t parent k')"
  by (simp add: merged_def)

lemma merged_parent: "k \<notin> set (map fst tree) \<Longrightarrow> merged tree ((k, v) # ps) k' = (if k' = k then Some v else merged tree ps k')"
  by (auto simp: merged_def split: option.split dest: map_of_SomeD simp del: map_of_eq_Some_iff) (force dest: map_of_SomeD)

definition it_inv :: "bytes option \<Rightarrow> bytes option \<Rightarrow> tree \<Rightarrow> (bytes \<times> bytes) list \<Rightarrow> bool" where
  "it_inv pre prev tree parent \<longleftrightarrow> sorted_wrt (<) (map fst tree) \<and> sorted_wrt (<) (map fst parent) \<and>
     (\<forall>p. prev = Some p \<longrightarrow> (\<forall>k \<in> set (map fst tree). p < k) \<and> (\<forall>k \<in> set (map fst parent). p \<le> k)) \<and>
     (\<forall>p. pre = Some p \<longrightarrow> (\<forall>k \<in> set (map fst tree) \<union> set (map fst parent). p \<le> k))"

lemma no_prefix_above:
  "it_inv pre prev tree parent \<Longrightarrow> k \<in> set (map fst tree) \<union> set (map fst parent) \<Longrightarrow> \<not> has_prefix pre k \<Longrightarrow> k \<le> k' \<Longrightarrow> \<not> has_prefix pre k'"
  unfolding has_prefix_def it_inv_def by (cases pre) (use prefix_interval in \<open>simp, metis option.simps(5)\<close>)

text \<open>One step of the iteration, from the tree and from the underlying store.\<close>

lemma it_list_tree:
  assumes inv: "it_inv pre prev tree parent" and tree: "tree = (k, x) # t" "parent = [] \<or> k \<le> fst (hd parent)"
    and IH: "\<And>tree' parent' prev'. length tree' + length parent' < length tree + length parent \<Longrightarrow> it_inv pre prev' tree' parent' \<Longrightarrow>
      entries (merged tree' parent') (\<lambda>k. after prev' k \<and> has_prefix pre k) (it_list pre prev' tree' parent')"
  shows "entries (merged tree parent) (\<lambda>k. after prev k \<and> has_prefix pre k) (it_list pre prev tree parent)"
proof -
  have above: "k < k'" if "k' \<in> set (map fst t)" for k' using inv that by (auto simp: it_inv_def tree(1))
  have pabove: "k \<le> k'" if "k' \<in> set (map fst parent)" for k'
    using inv tree(2) that by (cases parent) (auto simp: it_inv_def)
  have aft: "after prev k" using inv by (cases prev) (auto simp: it_inv_def tree(1) after_def)
  have next_inv: "it_inv pre (Some k) t parent" using inv above pabove by (auto simp: it_inv_def tree(1))
  note IHk = IH [OF _ next_inv]
  have key: "k < k'" if "merged t parent k' = Some v'" "k' \<noteq> k" for k' v'
    using merged_key [OF that(1)] above [of k'] pabove [of k'] that(2) by (auto simp: order.order_iff_strict)
  have later: "after prev k'" if "k < k'" for k' using aft that by (cases prev) (auto simp: after_def)
  have step: "it_list pre prev tree parent = (case x of None \<Rightarrow> it_list pre (Some k) t parent
     | Some v \<Rightarrow> if \<not> has_prefix pre k then it_list pre prev [] parent else (k, v) # it_list pre (Some k) t parent)"
    using tree aft by (subst it_list_step) (auto split: option.split)
  show ?thesis
  proof (cases x)
    case None
    have "entries (merged t parent) (\<lambda>k'. after (Some k) k' \<and> has_prefix pre k') (it_list pre (Some k) t parent)" using IHk tree(1) by simp
    then show ?thesis unfolding step None option.case
      by (rule entries_cong) (use key later in \<open>auto simp: tree(1) None after_def split: if_splits\<close>)
  next
    case (Some v)
    show ?thesis
    proof (cases "has_prefix pre k")
      case True
      have "entries (merged t parent) (\<lambda>k'. after (Some k) k' \<and> has_prefix pre k') (it_list pre (Some k) t parent)" using IHk tree(1) by simp
      then have "entries (merged tree parent) (\<lambda>k. after prev k \<and> has_prefix pre k) ((k, v) # it_list pre (Some k) t parent)"
        by (rule entries_Cons) (use key later aft True in \<open>auto simp: tree(1) Some after_def split: if_splits\<close>)
      then show ?thesis using step Some True by simp
    next
      case False
      have none: "\<not> has_prefix pre k'" if "k \<le> k'" for k' using no_prefix_above [OF inv, of k k'] False that by (simp add: tree(1))
      have "it_inv pre prev [] parent" using inv by (auto simp: it_inv_def)
      then have "entries (merged [] parent) (\<lambda>k. after prev k \<and> has_prefix pre k) (it_list pre prev [] parent)"
        using IH [of "[]" parent prev] tree(1) by simp
      moreover have "merged [] parent k' = Some v' \<and> has_prefix pre k' \<longleftrightarrow> merged tree parent k' = Some v' \<and> has_prefix pre k'" for k' v'
      proof -
        have "\<not> (merged [] parent k' = Some v' \<and> has_prefix pre k')" using merged_key [of "[]" parent k' v'] pabove none by auto
        moreover have "\<not> (merged tree parent k' = Some v' \<and> has_prefix pre k')"
          using key [of k' v'] none [of k'] by (auto simp: tree(1) less_imp_le split: if_splits)
        ultimately show ?thesis by blast
      qed
      ultimately show ?thesis unfolding step Some using False by simp (rule entries_cong, assumption, blast)
    qed
  qed
qed

lemma it_list_parent:
  assumes inv: "it_inv pre prev tree parent" and par: "parent = (k, v) # ps" "tree = [] \<or> k < fst (hd tree)"
    and IH: "\<And>tree' parent' prev'. length tree' + length parent' < length tree + length parent \<Longrightarrow> it_inv pre prev' tree' parent' \<Longrightarrow>
      entries (merged tree' parent') (\<lambda>k. after prev' k \<and> has_prefix pre k) (it_list pre prev' tree' parent')"
  shows "entries (merged tree parent) (\<lambda>k. after prev k \<and> has_prefix pre k) (it_list pre prev tree parent)"
proof -
  have above: "k < k'" if "k' \<in> set (map fst ps)" for k' using inv that by (auto simp: it_inv_def par(1))
  have tabove: "k < k'" if "k' \<in> set (map fst tree)" for k' using inv par(2) that by (cases tree) (auto simp: it_inv_def)
  have fresh: "k \<notin> set (map fst tree)" using tabove by blast
  have nt: "tree = [] \<or> \<not> fst (hd tree) \<le> k" using par(2) by auto
  note mp = merged_parent [OF fresh, of v ps]
  have key: "k < k'" if "merged tree ps k' = Some v'" for k' v' using merged_key [OF that] above tabove by blast
  have step: "it_list pre prev tree parent = (if \<not> has_prefix pre k then it_list pre prev tree []
      else if after prev k then (k, v) # it_list pre (Some k) tree ps else it_list pre prev tree ps)"
    using par(1) nt by (subst it_list_step) auto
  consider "\<not> has_prefix pre k" | "has_prefix pre k" "after prev k" | "has_prefix pre k" "\<not> after prev k" by blast
  then show ?thesis
  proof cases
    case 1
    have none: "\<not> has_prefix pre k'" if "k \<le> k'" for k' using no_prefix_above [OF inv, of k k'] 1 that by (simp add: par(1))
    have "it_inv pre prev tree []" using inv by (auto simp: it_inv_def)
    then have "entries (merged tree []) (\<lambda>k. after prev k \<and> has_prefix pre k) (it_list pre prev tree [])"
      using IH [of tree "[]" prev] par(1) by simp
    moreover have "merged tree [] k' = Some v' \<and> has_prefix pre k' \<longleftrightarrow> merged tree parent k' = Some v' \<and> has_prefix pre k'" for k' v'
    proof -
      have "\<not> (merged tree [] k' = Some v' \<and> has_prefix pre k')" using merged_key [of tree "[]" k' v'] tabove none by (auto simp: less_imp_le)
      moreover have "\<not> (merged tree parent k' = Some v' \<and> has_prefix pre k')"
        using key [of k' v'] none [of k'] by (auto simp: par(1) mp less_imp_le split: if_splits)
      ultimately show ?thesis by blast
    qed
    ultimately show ?thesis unfolding step using 1 by simp (rule entries_cong, assumption, blast)
  next
    case 2
    have "it_inv pre (Some k) tree ps" using inv above tabove by (auto simp: it_inv_def par(1) less_imp_le)
    then have "entries (merged tree ps) (\<lambda>k'. after (Some k) k' \<and> has_prefix pre k') (it_list pre (Some k) tree ps)"
      using IH [of tree ps "Some k"] par(1) by simp
    then have "entries (merged tree parent) (\<lambda>k. after prev k \<and> has_prefix pre k) ((k, v) # it_list pre (Some k) tree ps)"
    proof (rule entries_Cons)
      fix k' v'
      have "after prev k'" if "k < k'" using 2(2) that by (cases prev) (auto simp: after_def)
      then show "merged tree parent k' = Some v' \<and> after prev k' \<and> has_prefix pre k' \<longleftrightarrow>
          k' = k \<and> v' = v \<or> merged tree ps k' = Some v' \<and> after (Some k) k' \<and> has_prefix pre k'"
        using 2 key [of k' v'] by (auto simp: par(1) mp after_def split: if_splits)
    qed (use key in auto)
    then show ?thesis using step 2 by simp
  next
    case 3
    have "it_inv pre prev tree ps" using inv by (auto simp: it_inv_def par(1))
    then have "entries (merged tree ps) (\<lambda>k. after prev k \<and> has_prefix pre k) (it_list pre prev tree ps)"
      using IH [of tree ps prev] par(1) by simp
    then show ?thesis unfolding step using 3 key
      by simp (rule entries_cong, assumption, auto simp: par(1) mp split: if_splits)
  qed
qed

lemma it_list_entries:
  "it_inv pre prev tree parent \<Longrightarrow> entries (merged tree parent) (\<lambda>k. after prev k \<and> has_prefix pre k) (it_list pre prev tree parent)"
proof (induction "length tree + length parent" arbitrary: prev tree parent rule: less_induct)
  case less
  consider (tree) k x t where "tree = (k, x) # t" "parent = [] \<or> k \<le> fst (hd parent)"
    | (par) k v ps where "parent = (k, v) # ps" "tree = [] \<or> k < fst (hd tree)"
    | (empty) "tree = []" "parent = []"
    by (cases tree; cases parent; cases "fst (hd tree) \<le> fst (hd parent)") (auto simp: not_le)
  then show ?case
  proof cases
    case tree
    then show ?thesis using it_list_tree [OF less.prems] less.hyps by blast
  next
    case par
    then show ?thesis using it_list_parent [OF less.prems] less.hyps by blast
  next
    case empty
    then show ?thesis by (subst it_list_step) (simp add: entries_def merged_def)
  qed
qed

subsection \<open>A flushable store keeps the contract of a store\<close>

definition fl_ok :: "('s \<Rightarrow> bool) \<Rightarrow> 's Flushable \<Rightarrow> bool" where
  "fl_ok ok w \<longleftrightarrow> ok (underlying w) \<and> (case modified w of None \<Rightarrow> False | Some t \<Rightarrow> tree_ok t)"

definition overlay :: "tree \<Rightarrow> (bytes \<rightharpoonup> bytes) \<Rightarrow> (bytes \<rightharpoonup> bytes)" where
  "overlay t m k = (case map_of t k of Some v \<Rightarrow> v | None \<Rightarrow> m k)"

definition fl_view :: "('s \<Rightarrow> (bytes \<rightharpoonup> bytes)) \<Rightarrow> 's Flushable \<Rightarrow> (bytes \<rightharpoonup> bytes)" where
  "fl_view view w = overlay (the (modified w)) (view (underlying w))"

lemma fl_okE:
  assumes "fl_ok ok w"
  obtains t where "modified w = Some t" "tree_ok t" "ok (underlying w)"
  using assms by (auto simp: fl_ok_def split: option.splits)

lemma overlay_put: "tree_ok t \<Longrightarrow> overlay (tree_put k v t) m = (overlay t m)(k := v)"
  by (simp add: fun_eq_iff overlay_def tree_put_get)

lemma overlay_writes: "tree_ok t \<Longrightarrow> overlay t m = apply_writes t m"
proof -
  assume "tree_ok t"
  then have "distinct (map fst t)" by (rule tree_ok_distinct)
  then show ?thesis
  proof (induction t arbitrary: m)
    case (Cons p t)
    obtain k v where p: "p = (k, v)" by (cases p)
    with Cons.prems have "map_of t k = None" by (auto simp: map_of_eq_None_iff)
    then have "overlay (p # t) m = overlay t (m(k := v))" by (auto simp: overlay_def p fun_eq_iff simp del: map_of_eq_Some_iff split: option.split)
    with Cons p show ?case by (simp del: fun_upd_apply)
  qed (simp add: overlay_def fun_eq_iff)
qed

lemma prefix_le: "prefix p k \<Longrightarrow> p \<le> k" for p k :: bytes
proof -
  assume "prefix p k"
  then obtain r where r: "k = p @ r" by (auto simp: prefix_def)
  have "[] \<le> r" by (cases r) auto
  then show ?thesis using bytes_prefix_le [of p "[]" r] r by simp
qed

lemma tree_from: "tree_ok t \<Longrightarrow> dropWhile (\<lambda>(k, v). k < p) t = filter (\<lambda>(k, v). p \<le> k) t"
  unfolding tree_ok_def
proof (induction t)
  case (Cons x t)
  show ?case
  proof (cases "fst x < p")
    case False
    then have "\<forall>y \<in> set t. p \<le> fst y" using Cons.prems by (auto simp: not_less)
    then have "filter (\<lambda>(k, v). p \<le> k) t = t" by (simp add: filter_id_conv case_prod_unfold)
    with False show ?thesis by (simp add: case_prod_unfold not_less)
  qed (use Cons in \<open>simp add: case_prod_unfold not_le\<close>)
qed simp

lemma option_eqI: "(\<And>v. x = Some v \<longleftrightarrow> y = Some v) \<Longrightarrow> x = y"
  by (cases x; cases y) auto

lemma map_of_filter_key: "map_of (filter (\<lambda>(k, v). P k) t) k = (if P k then map_of t k else None)"
  by (induction t) auto

lemma merged_entries:
  assumes t: "tree_ok t" and e: "entries m P ps" and P: "\<And>k. P k \<Longrightarrow> p \<le> k"
    and Q: "\<And>k. P k \<longleftrightarrow> p \<le> k \<and> has_prefix pre k" and pre: "pre = None \<or> pre = Some p"
  shows "entries (overlay t m) P (it_list pre None (dropWhile (\<lambda>(k, v). k < p) t) ps)"
proof -
  let ?t = "filter (\<lambda>(k, v). p \<le> k) t"
  have "sorted_wrt (<) (map fst ?t)" using t unfolding tree_ok_def by (simp add: sorted_wrt_map sorted_wrt_filter)
  moreover have "p \<le> k" if "k \<in> set (map fst ps)" for k using e P that by (auto simp: entries_def)
  ultimately have inv: "it_inv pre None ?t ps" using e pre by (auto simp: it_inv_def entries_def)
  have d: "distinct (map fst ps)" using e by (simp add: entries_def strict_sorted_iff)
  have mo: "map_of ps k = (if P k then m k else None)" for k
  proof -
    have "map_of ps k = Some v \<longleftrightarrow> (if P k then m k else None) = Some v" for v
      unfolding map_of_eq_Some_iff [OF d] using e by (simp add: entries_def)
    then show ?thesis by (rule option_eqI)
  qed
  have "merged ?t ps k = (if P k then overlay t m k else merged ?t [] k)" for k
    using Q [of k] unfolding merged_def overlay_def map_of_filter_key mo by (cases "P k") (simp_all split: option.split)
  moreover have "\<not> (merged ?t [] k = Some v \<and> has_prefix pre k)" if "\<not> P k" for k v
    using Q [of k] that unfolding merged_def map_of_filter_key by (cases "p \<le> k") simp_all
  ultimately have iff: "overlay t m k = Some v \<and> P k \<longleftrightarrow> merged ?t ps k = Some v \<and> after None k \<and> has_prefix pre k" for k v
    using Q [of k] by (cases "P k") (simp_all add: after_def)
  show ?thesis unfolding tree_from [OF t] by (rule entries_cong [OF it_list_entries [OF inv]]) (rule iff)
qed

subsection \<open>Sequences of calls\<close>

datatype kv_call = PutCall bytes bytes | DeleteCall bytes | WriteCall "batchWrite list"

fun run_call :: "'s kv_ops \<Rightarrow> kv_call \<Rightarrow> 's \<Rightarrow> 's eff" where
  "run_call ops (PutCall k v) s = kvPut ops s k (Some v)"
| "run_call ops (DeleteCall k) s = kvDelete ops s k"
| "run_call ops (WriteCall ws) s = kvWrite ops s ws"

text \<open>The state after the calls, when none of them fails.\<close>

fun run_calls :: "'s kv_ops \<Rightarrow> 's \<Rightarrow> kv_call list \<Rightarrow> 's option" where
  "run_calls ops s [] = Some s"
| "run_calls ops s (c # cs) = (case run_call ops c s of Some (None, s) \<Rightarrow> run_calls ops s cs | _ \<Rightarrow> None)"

fun call_writes :: "kv_call \<Rightarrow> batchWrite list" where
  "call_writes (PutCall k v) = [(k, Some v)]"
| "call_writes (DeleteCall k) = [(k, None)]"
| "call_writes (WriteCall ws) = ws"

context kv_store
begin

lemma run_calls_view:
  "ok s \<Longrightarrow> \<exists>s'. run_calls ops s cs = Some s' \<and> ok s' \<and> view s' = apply_writes (concat (map call_writes cs)) (view s)"
proof (induction cs arbitrary: s)
  case (Cons c cs)
  have "\<exists>s1. run_call ops c s = Some (None, s1) \<and> ok s1 \<and> view s1 = apply_writes (call_writes c) (view s)"
    using Put_view [OF Cons.prems] Delete_view [OF Cons.prems] Write_view [OF Cons.prems] by (cases c) simp_all
  then obtain s1 where s1: "run_call ops c s = Some (None, s1)" "ok s1" "view s1 = apply_writes (call_writes c) (view s)" by blast
  with Cons.IH [OF s1(2)] show ?case by simp
qed simp

end

lemma entries_unique: "entries m P ps \<Longrightarrow> entries m P qs \<Longrightarrow> ps = qs"
proof -
  assume a: "entries m P ps" "entries m P qs"
  have "set ps = set qs" using a by (auto simp: entries_def)
  moreover have "sorted (map fst ps)" "distinct (map fst ps)" "sorted (map fst qs)" "distinct (map fst qs)"
    using a strict_sorted_iff by (auto simp: entries_def)
  ultimately show ?thesis by (intro map_sorted_distinct_set_unique [of fst]) (auto simp: inj_on_def distinct_map intro: inj_on_subset)
qed

text \<open>Two stores with the same view answer alike.\<close>

locale same_view = a: kv_store aops aok aview + b: kv_store bops bok bview
  for aops :: "'a kv_ops" and aok aview and bops :: "'b kv_ops" and bok bview
begin

lemma answers:
  assumes "aok s" "bok t" "aview s = bview t"
  shows "kvHas aops s k = kvHas bops t k" "kvGet aops s k = kvGet bops t k"
    "kvStart aops s k = kvStart bops t k" "kvPrefix aops s k = kvPrefix bops t k"
  using a.Has_view b.Has_view a.Get_view b.Get_view assms
    entries_unique [OF a.Start_view [OF assms(1), of k]] b.Start_view [OF assms(2), of k]
    entries_unique [OF a.Prefix_view [OF assms(1), of k]] b.Prefix_view [OF assms(2), of k]
  by simp_all

end

lemma fl_put_underlying: "fl_put w k v = Some (e, w') \<Longrightarrow> underlying w' = underlying w"
  by (auto simp: fl_put_def split: option.splits)

lemma fl_delete_underlying: "fl_delete w k = Some (e, w') \<Longrightarrow> underlying w' = underlying w"
  by (auto simp: fl_delete_def split: option.splits)

lemma cacheBatch_underlying: "cacheBatch_Write w ws = Some (e, w') \<Longrightarrow> underlying w' = underlying w"
proof (induction w ws rule: cacheBatch_Write.induct)
  case (2 w k v ws)
  then show ?case by (cases v) (auto split: option.splits dest: fl_put_underlying fl_delete_underlying)
qed simp

lemma run_calls_underlying: "run_calls (flushable_ops ops) w cs = Some w' \<Longrightarrow> underlying w' = underlying w"
proof (induction cs arbitrary: w)
  case (Cons c cs)
  then obtain w1 where w1: "run_call (flushable_ops ops) c w = Some (None, w1)" "run_calls (flushable_ops ops) w1 cs = Some w'"
    by (auto split: option.splits)
  have "underlying w1 = underlying w"
    using w1(1) by (cases c) (auto simp: flushable_ops_def dest: fl_put_underlying fl_delete_underlying cacheBatch_underlying)
  with Cons.IH [OF w1(2)] show ?case by simp
qed simp

locale flushable_over = kv_store ops ok view for ops :: "'s kv_ops" and ok view

sublocale flushable_over \<subseteq> fl: kv_store "flushable_ops ops" "fl_ok ok" "fl_view view"
proof unfold_locales
  fix w k assume "fl_ok ok w"
  then obtain t where t: "modified w = Some t" "tree_ok t" "ok (underlying w)" by (rule fl_okE)
  show "kvHas (flushable_ops ops) w k = Inr (fl_view view w k \<noteq> None)" "kvGet (flushable_ops ops) w k = Inr (fl_view view w k)"
    using t Has_view [OF t(3)] Get_view [OF t(3)]
    by (auto simp: flushable_ops_def fl_Has_def fl_Get_def fl_view_def overlay_def simp del: map_of_eq_Some_iff split: option.split)
  have put: "fl_ok ok (w\<lparr>modified := Some (tree_put k v t), sizeEstimation := n\<rparr>) \<and>
      fl_view view (w\<lparr>modified := Some (tree_put k v t), sizeEstimation := n\<rparr>) = (fl_view view w)(k := v)" for k v n
    using t overlay_put [OF t(2)] by (simp add: fl_ok_def fl_view_def tree_put_ok del: fun_upd_apply)
  show "\<exists>w'. kvPut (flushable_ops ops) w k (Some v) = Some (None, w') \<and> fl_ok ok w' \<and> fl_view view w' = (fl_view view w)(k \<mapsto> v)" for v
    using t put by (simp add: flushable_ops_def fl_put_def del: fun_upd_apply)
  show "\<exists>w'. kvDelete (flushable_ops ops) w k = Some (None, w') \<and> fl_ok ok w' \<and> fl_view view w' = (fl_view view w)(k := None)"
    using t put by (simp add: flushable_ops_def fl_delete_def del: fun_upd_apply)
  show "entries (fl_view view w) (\<lambda>k. p \<le> k) (kvStart (flushable_ops ops) w p)" for p
    using merged_entries [OF t(2) Start_view [OF t(3), of p], of p None] t
    by (simp add: flushable_ops_def fl_NewIteratorWithStart_def fl_view_def has_prefix_def)
  have pre: "prefix p k \<longleftrightarrow> p \<le> k \<and> has_prefix (Some p) k" for p k :: bytes
    using prefix_le by (auto simp: has_prefix_def)
  show "entries (fl_view view w) (prefix p) (kvPrefix (flushable_ops ops) w p)" for p
    using merged_entries [OF t(2) Prefix_view [OF t(3), of p] prefix_le pre] t
    by (simp add: flushable_ops_def fl_NewIteratorWithPrefix_def fl_view_def)
next
  fix w ws assume "fl_ok ok w"
  then show "\<exists>w'. kvWrite (flushable_ops ops) w ws = Some (None, w') \<and> fl_ok ok w' \<and> fl_view view w' = apply_writes ws (fl_view view w)"
  proof (induction ws arbitrary: w)
    case (Cons x ws)
    obtain k v where x: "x = (k, v)" by (cases x)
    obtain t where t: "modified w = Some t" "tree_ok t" "ok (underlying w)" using Cons.prems by (rule fl_okE)
    obtain w1 where w1: "(if v = None then fl_delete w k else fl_put w k v) = Some (None, w1)" "fl_ok ok w1" "fl_view view w1 = (fl_view view w)(k := v)"
      using t overlay_put [OF t(2), of k v] tree_put_ok [OF t(2), of k v]
      by (cases v) (simp_all add: fl_delete_def fl_put_def fl_ok_def fl_view_def del: fun_upd_apply)
    with Cons.IH [OF w1(2)] x show ?case by (simp add: flushable_ops_def del: fun_upd_apply)
  qed (simp add: flushable_ops_def)
qed

context flushable_over
begin

lemma flush_loop_writes:
  "ok s \<Longrightarrow> \<exists>s' rest. flush_loop ops ideal s batch t = Some (None, s', rest) \<and> ok s' \<and> apply_writes rest (view s') = apply_writes (batch @ t) (view s)"
proof (induction t arbitrary: s batch)
  case (Cons p t)
  obtain k v where p: "p = (k, v)" by (cases p)
  show ?case
  proof (cases "kvBatchSize ops (batch @ [(k, v)]) > ideal")
    case True
    obtain s1 where s1: "kvWrite ops s (batch @ [(k, v)]) = Some (None, s1)" "ok s1" "view s1 = apply_writes (batch @ [(k, v)]) (view s)"
      using Write_view [OF Cons.prems] by blast
    from Cons.IH [OF s1(2), of "[]"] s1 True p show ?thesis by (auto simp del: fun_upd_apply)
  next
    case False
    with Cons.IH [OF Cons.prems, of "batch @ [(k, v)]"] p show ?thesis by (auto simp del: fun_upd_apply)
  qed
qed auto

lemma flush_view:
  assumes "fl_ok ok w"
  shows "\<exists>w'. fl_flush ops ideal w = Some (None, w') \<and> fl_ok ok w' \<and> modified w' = Some [] \<and>
     view (underlying w') = fl_view view w \<and> fl_view view w' = fl_view view w"
proof -
  obtain t where t: "modified w = Some t" "tree_ok t" "ok (underlying w)" using assms by (rule fl_okE)
  obtain s rest where s: "flush_loop ops ideal (underlying w) [] t = Some (None, s, rest)" "ok s" "apply_writes rest (view s) = apply_writes t (view (underlying w))"
    using flush_loop_writes [OF t(3), of ideal "[]" t] by auto
  obtain s' where "kvWrite ops s rest = Some (None, s')" "ok s'" "view s' = apply_writes rest (view s)" using Write_view [OF s(2)] by blast
  with s t show ?thesis by (simp add: fl_flush_def fl_ok_def fl_view_def overlay_writes tree_ok_def)
qed

lemma drop_view:
  assumes "fl_ok ok w"
  shows "\<exists>w'. fl_DropNotFlushed w = Some w' \<and> fl_ok ok w' \<and> underlying w' = underlying w \<and> fl_view view w' = view (underlying w)"
  using assms by (elim fl_okE) (simp add: fl_DropNotFlushed_def fl_ok_def fl_view_def tree_ok_def overlay_def fun_eq_iff)

end

interpretation mem_fl: flushable_over mem_ops mem_ok mem_view
  by unfold_locales

interpretation fl_tables: table_over "flushable_ops mem_ops" "fl_ok mem_ok" "fl_view mem_view" pre for pre
  by unfold_locales

interpretation mem_fl_same: same_view "flushable_ops mem_ops" "fl_ok mem_ok" "fl_view mem_view" mem_ops mem_ok mem_view
  by unfold_locales

lemma Wrap_view: "ok s \<Longrightarrow> fl_ok ok (Wrap s)" "fl_view view (Wrap s) = view s"
  by (simp_all add: fl_ok_def fl_view_def Wrap_def tree_ok_def overlay_def fun_eq_iff)

subsection \<open>Properties\<close>

text \<open>
  C14. A flushable store buffers: any sequence of puts, deletes and batch writes through it leaves
  the underlying database untouched, while lookups and both iterators of the flushable store answer
  exactly as the database would had the calls been made on it directly. \<open>Flush\<close> then succeeds and
  gives the underlying database those contents, whatever the size at which batches are cut, and
  \<open>DropNotFlushed\<close> instead returns to the state just after wrapping.
\<close>

theorem flushable_buffers:
  assumes "mem_ok s"
  shows "\<exists>s' w w'. run_calls mem_ops s cs = Some s' \<and> run_calls (flushable_ops mem_ops) (Wrap s) cs = Some w \<and>
     underlying w = s \<and>
     (\<forall>k. kvHas (flushable_ops mem_ops) w k = kvHas mem_ops s' k \<and> kvGet (flushable_ops mem_ops) w k = kvGet mem_ops s' k) \<and>
     (\<forall>p. kvStart (flushable_ops mem_ops) w p = kvStart mem_ops s' p \<and> kvPrefix (flushable_ops mem_ops) w p = kvPrefix mem_ops s' p) \<and>
     fl_flush mem_ops ideal w = Some (None, w') \<and> mem_view (underlying w') = mem_view s' \<and> modified w' = Some [] \<and>
     fl_DropNotFlushed w = Some (Wrap s)"
proof -
  obtain s' where s': "run_calls mem_ops s cs = Some s'" "mem_ok s'" "mem_view s' = apply_writes (concat (map call_writes cs)) (mem_view s)"
    using mem.run_calls_view [OF assms] by blast
  obtain w where w: "run_calls (flushable_ops mem_ops) (Wrap s) cs = Some w" "fl_ok mem_ok w"
      "fl_view mem_view w = apply_writes (concat (map call_writes cs)) (mem_view s)"
    using mem_fl.fl.run_calls_view [OF Wrap_view(1) [of mem_ok, OF assms]] unfolding Wrap_view(2) by blast
  have u: "underlying w = s" using run_calls_underlying [OF w(1)] by (simp add: Wrap_def)
  have v: "fl_view mem_view w = mem_view s'" using w(3) s'(3) by simp
  obtain w' where w': "fl_flush mem_ops ideal w = Some (None, w')" "mem_view (underlying w') = mem_view s'" "modified w' = Some []"
    using mem_fl.flush_view [OF w(2)] v by auto
  have d: "fl_DropNotFlushed w = Some (Wrap s)" using w(2) u by (elim fl_okE) (simp add: fl_DropNotFlushed_def Wrap_def)
  show ?thesis by (intro exI conjI allI; (rule s'(1) w(1) u w' d mem_fl_same.answers [OF w(2) s'(2) v])?)
qed

definition calls_sample :: "kv_call list" where
  "calls_sample = [PutCall [1, 9] [3], DeleteCall [1, 7], WriteCall [([2], Some [4]), ([2], None)]]"

theorem flushable_buffers_witness:
  "\<exists>w w'. run_calls (flushable_ops mem_ops) (Wrap sample_db) calls_sample = Some w \<and> underlying w = sample_db \<and>
     kvPrefix (flushable_ops mem_ops) w [1] = [([1, 9], [3])] \<and> fl_flush mem_ops 1 w = Some (None, w') \<and> mem_view (underlying w') [1, 9] = Some [3]"
proof -
  define s' where "s' = the (run_calls mem_ops sample_db calls_sample)"
  have "kvPrefix mem_ops s' [1] = [([1, 9], [3])]" "mem_view s' [1, 9] = Some [3]" unfolding s'_def by code_simp+
  then show ?thesis using flushable_buffers [OF sample_db_ok, of calls_sample 1] unfolding s'_def by force
qed

text \<open>
  C39. \<open>flush\<close> clears the tree before it writes its last batch. If that write fails and leaves the
  database as it was, the error is returned, but the modifications are gone: every key then reads
  as in the underlying database, and the next \<open>Flush\<close> has nothing to write.
\<close>

theorem failed_flush_loses_writes:
  assumes "modified w = Some t" "\<forall>n. kvBatchSize ops (take n t) \<le> ideal" "kvWrite ops (underlying w) t = Some (Some err, underlying w)"
  shows "\<exists>w'. fl_flush ops ideal w = Some (Some err, w') \<and> modified w' = Some [] \<and> underlying w' = underlying w \<and>
     (\<forall>k. fl_Get ops w' k = kvGet ops (underlying w) k)"
proof -
  have "flush_loop ops ideal s b u = Some (None, s, b @ u)" if "\<forall>n. kvBatchSize ops (b @ take n u) \<le> ideal" for s b u
    using that
  proof (induction u arbitrary: b)
    case (Cons x u)
    have "kvBatchSize ops (b @ [x]) \<le> ideal" using Cons.prems [rule_format, of 1] by simp
    moreover have "\<forall>n. kvBatchSize ops ((b @ [x]) @ take n u) \<le> ideal" using Cons.prems [rule_format, of "Suc n" for n] by simp
    ultimately show ?case using Cons.IH [of "b @ [x]"] by (cases x) simp
  qed simp
  from this [of "[]" t "underlying w"] assms have "flush_loop ops ideal (underlying w) [] t = Some (None, underlying w, t)" by simp
  with assms show ?thesis by (simp add: fl_flush_def fl_Get_def)
qed

definition broken_mem_ops :: "MemDb kv_ops" where
  "broken_mem_ops = mem_ops\<lparr>kvWrite := \<lambda>s _. Some (Some errNil, s)\<rparr>"

theorem failed_flush_loses_writes_witness:
  "\<exists>w'. fl_flush broken_mem_ops 100 ((Wrap sample_db)\<lparr>modified := Some [([2], Some [4])]\<rparr>) = Some (Some errNil, w') \<and>
     fl_Get broken_mem_ops w' [2] = Inr None"
proof -
  have "\<forall>n. kvBatchSize broken_mem_ops (take n [([2], Some [4])]) \<le> 100"
  proof
    fix n show "kvBatchSize broken_mem_ops (take n [([2], Some [4])]) \<le> 100"
      by (cases n) (simp_all add: broken_mem_ops_def mem_ops_def mem_ValueSize_def)
  qed
  moreover have "kvWrite broken_mem_ops sample_db [([2], Some [4])] = Some (Some errNil, sample_db)" by (simp add: broken_mem_ops_def)
  moreover have "kvGet broken_mem_ops sample_db [2] = Inr None" by code_simp
  ultimately show ?thesis
    using failed_flush_loses_writes [of "(Wrap sample_db)\<lparr>modified := Some [([2], Some [4])]\<rparr>" "[([2], Some [4])]" broken_mem_ops 100 errNil]
    by (auto simp: Wrap_def)
qed

end
