(* ===== verification/Roots_Store.thy ===== *)
theory Roots_Store
  imports Frames Flushable_Db
begin

text \<open>
  \<open>poset/store_roots.go\<close>: the table of the roots of the epoch and its LRU cache. A root is a key of
  40 bytes with an empty value; the roots of a frame are read by iterating over a prefix. The cache
  holds lists of roots by frame. What it evicts after an insertion is the choice of the package
  \<open>golang-lru\<close>, and \<open>evict\<close> stands for it.
\<close>

subsection \<open>Records\<close>

definition BytesToEvent :: "bytes \<Rightarrow> hash_event" where
  "BytesToEvent b = (let b = drop (length b - 32) b in replicate (32 - length b) 0 @ b)"

definition rootRecordBytes :: "RootAndSlot \<Rightarrow> bytes" where
  "rootRecordBytes r = Idx_Bytes (sFrame (rSlot r)) @ Idx_Bytes (sValidator (rSlot r)) @ rID r"

definition frameSize :: nat where
  "frameSize = 4"

definition stakerIDSize :: nat where
  "stakerIDSize = 4"

definition eventIDSize :: nat where
  "eventIDSize = 32"

text \<open>A key of the table read back; a wrong length or frame stops the process.\<close>

definition parseRoot :: "Frame \<Rightarrow> bytes \<Rightarrow> RootAndSlot option" where
  "parseRoot f key =
     (if length key \<noteq> frameSize + stakerIDSize + eventIDSize then None
      else do {
        fr \<leftarrow> BytesToIdx (take frameSize key);
        v \<leftarrow> BytesToIdx (take stakerIDSize (drop frameSize key));
        let r = \<lparr>rID = BytesToEvent (drop (frameSize + stakerIDSize) key), rSlot = \<lparr>sFrame = fr, sValidator = v\<rparr>\<rparr>;
        if fr \<noteq> f then None else Some r })"

subsection \<open>State and operations\<close>

type_synonym roots_cache = "Frame \<rightharpoonup> RootAndSlot list"

record 's RootsStore =
  Roots :: 's
  FrameRoots :: "roots_cache option" \<comment> \<open>\<^const>\<open>None\<close> when the cache is switched off\<close>

definition AddRoot :: "'s kv_ops \<Rightarrow> (roots_cache \<Rightarrow> roots_cache) \<Rightarrow> 's RootsStore \<Rightarrow> RootAndSlot \<Rightarrow> 's RootsStore option" where
  "AddRoot ops evict s r = (case kvPut ops (Roots s) (rootRecordBytes r) (Some []) of
     Some (None, db) \<Rightarrow>
       (let s = s\<lparr>Roots := db\<rparr> in
        case FrameRoots s of
          None \<Rightarrow> Some s
        | Some c \<Rightarrow> (case c (sFrame (rSlot r)) of
            None \<Rightarrow> Some s
          | Some rr \<Rightarrow> Some (s\<lparr>FrameRoots := Some (evict (c(sFrame (rSlot r) \<mapsto> rr @ [r])))\<rparr>)))
   | _ \<Rightarrow> None)"

definition GetFrameRoots :: "'s kv_ops \<Rightarrow> (roots_cache \<Rightarrow> roots_cache) \<Rightarrow> 's RootsStore \<Rightarrow> Frame \<Rightarrow> (RootAndSlot list \<times> 's RootsStore) option" where
  "GetFrameRoots ops evict s f =
     (case (case FrameRoots s of None \<Rightarrow> None | Some c \<Rightarrow> c f) of
        Some rr \<Rightarrow> Some (rr, s)
      | None \<Rightarrow> do {
          rr \<leftarrow> mapM (\<lambda>(key, v). parseRoot f key) (kvPrefix ops (Roots s) (Idx_Bytes f));
          Some (rr, case FrameRoots s of None \<Rightarrow> s | Some c \<Rightarrow> s\<lparr>FrameRoots := Some (evict (c(f \<mapsto> rr)))\<rparr>) })"

subsection \<open>Reading back what was added\<close>

lemma rootRecordBytes_inj: "rootRecordBytes r = rootRecordBytes q \<longleftrightarrow> r = q"
proof
  assume "rootRecordBytes r = rootRecordBytes q"
  then have "Idx_Bytes (sFrame (rSlot r)) = Idx_Bytes (sFrame (rSlot q))" "Idx_Bytes (sValidator (rSlot r)) = Idx_Bytes (sValidator (rSlot q))" "rID r = rID q"
    by (simp_all add: rootRecordBytes_def append_eq_append_conv)
  then show "r = q" by simp
qed simp

lemma BytesToEvent_id: "length b = 32 \<Longrightarrow> BytesToEvent b = b"
  by (simp add: BytesToEvent_def)

lemma parseRoot_record: "length (rID r) = 32 \<Longrightarrow> parseRoot f (rootRecordBytes r) = (if sFrame (rSlot r) = f then Some r else None)"
  by (simp add: parseRoot_def rootRecordBytes_def frameSize_def stakerIDSize_def eventIDSize_def BytesToEvent_id)

lemma prefix_record: "prefix (Idx_Bytes f) (rootRecordBytes r) \<longleftrightarrow> sFrame (rSlot r) = f"
proof -
  have "prefix (Idx_Bytes f) (rootRecordBytes r) \<longleftrightarrow> Idx_Bytes f = Idx_Bytes (sFrame (rSlot r))"
    unfolding rootRecordBytes_def by (auto simp: prefix_def append_eq_append_conv)
  then show ?thesis by auto
qed

definition roots_inv :: "('s \<Rightarrow> bool) \<Rightarrow> ('s \<Rightarrow> bytes \<rightharpoonup> bytes) \<Rightarrow> 's RootsStore \<Rightarrow> RootAndSlot set \<Rightarrow> bool" where
  "roots_inv ok view s R \<longleftrightarrow> ok (Roots s) \<and> (\<forall>r \<in> R. length (rID r) = 32) \<and>
     view (Roots s) = (\<lambda>k. if k \<in> rootRecordBytes ` R then Some [] else None) \<and>
     (\<forall>c f rr. FrameRoots s = Some c \<longrightarrow> c f = Some rr \<longrightarrow> distinct rr \<and> set rr = {r \<in> R. sFrame (rSlot r) = f})"

text \<open>The contract of the store of roots: after any additions \<open>R\<close> a frame's roots are listed exactly, each once.\<close>

locale roots_over = kv_store ops ok view for ops :: "'s kv_ops" and ok view +
  fixes evict :: "roots_cache \<Rightarrow> roots_cache"
  assumes evict_shrinks: "evict c \<subseteq>\<^sub>m c"
begin

lemma evicted: "evict c f = Some rr \<Longrightarrow> c f = Some rr"
  using evict_shrinks [of c] by (auto simp: map_le_def dom_def)

lemma read_roots:
  assumes "roots_inv ok view s R"
  shows "\<exists>rr. mapM (\<lambda>(key, v). parseRoot f key) (kvPrefix ops (Roots s) (Idx_Bytes f)) = Some rr \<and>
     distinct rr \<and> set rr = {r \<in> R. sFrame (rSlot r) = f}"
proof -
  let ?ps = "kvPrefix ops (Roots s) (Idx_Bytes f)"
  have "ok (Roots s)" using assms by (simp add: roots_inv_def)
  from Prefix_view [OF this] have "entries (view (Roots s)) (prefix (Idx_Bytes f)) ?ps" .
  then have ps: "distinct (map fst ?ps)" "(k, v) \<in> set ?ps \<longleftrightarrow> k \<in> rootRecordBytes ` R \<and> v = [] \<and> prefix (Idx_Bytes f) k" for k v
    using assms strict_sorted_iff [of "map fst ?ps"] by (auto simp: entries_def roots_inv_def)
  have len: "length (rID r) = 32" if "r \<in> R" for r using assms that by (simp add: roots_inv_def)
  define g where "g = (\<lambda>k. inv_into UNIV rootRecordBytes k)"
  have inj: "inj rootRecordBytes" by (rule injI) (simp add: rootRecordBytes_inj)
  have g: "g (rootRecordBytes r) = r" for r unfolding g_def by (simp add: inj)
  have "mapM (\<lambda>(key, v). parseRoot f key) ?ps = Some (map (\<lambda>(k, v). g k) ?ps)"
    by (rule mapM_Some) (auto simp: ps(2) g parseRoot_record len prefix_record)
  moreover have "set (map (\<lambda>(k, v). g k) ?ps) = {r \<in> R. sFrame (rSlot r) = f}"
  proof -
    have "(k, v) \<in> set ?ps \<longleftrightarrow> (k, v) \<in> (\<lambda>r. (rootRecordBytes r, [])) ` {r \<in> R. sFrame (rSlot r) = f}" for k v
      unfolding ps(2) by (auto simp: prefix_record)
    then have "set ?ps = (\<lambda>r. (rootRecordBytes r, [])) ` {r \<in> R. sFrame (rSlot r) = f}" by (simp only: set_eq_iff split_paired_All simp_thms)
    then show ?thesis by (simp add: image_image g)
  qed
  moreover have "distinct (map (\<lambda>(k, v). g k) ?ps)"
  proof -
    have "inj_on g (set (map fst ?ps))" by (rule inj_onI) (auto simp: ps(2) g)
    then have "distinct (map g (map fst ?ps))" using ps(1) distinct_map by blast
    then show ?thesis by (simp add: comp_def case_prod_unfold)
  qed
  ultimately show ?thesis by blast
qed

lemma GetFrameRoots_lists:
  assumes "roots_inv ok view s R"
  shows "\<exists>rr s'. GetFrameRoots ops evict s f = Some (rr, s') \<and> distinct rr \<and> set rr = {r \<in> R. sFrame (rSlot r) = f} \<and> roots_inv ok view s' R"
proof (cases "case FrameRoots s of None \<Rightarrow> None | Some c \<Rightarrow> c f")
  case (Some rr)
  then show ?thesis using assms by (auto simp: GetFrameRoots_def roots_inv_def split: option.splits)
next
  case None
  obtain rr where rr: "mapM (\<lambda>(key, v). parseRoot f key) (kvPrefix ops (Roots s) (Idx_Bytes f)) = Some rr" "distinct rr" "set rr = {r \<in> R. sFrame (rSlot r) = f}"
    using read_roots [OF assms] by blast
  let ?s = "case FrameRoots s of None \<Rightarrow> s | Some c \<Rightarrow> s\<lparr>FrameRoots := Some (evict (c(f \<mapsto> rr)))\<rparr>"
  have "roots_inv ok view ?s R"
    using assms rr(2,3) by (cases "FrameRoots s") (auto simp: roots_inv_def dest!: evicted split: if_splits)
  with None rr show ?thesis by (simp add: GetFrameRoots_def)
qed

lemma AddRoot_adds:
  assumes "roots_inv ok view s R" "length (rID r) = 32" "r \<notin> R"
  shows "\<exists>s'. AddRoot ops evict s r = Some s' \<and> roots_inv ok view s' (insert r R)"
proof -
  have "ok (Roots s)" using assms(1) by (simp add: roots_inv_def)
  from Put_view [OF this] obtain db where db: "kvPut ops (Roots s) (rootRecordBytes r) (Some []) = Some (None, db)" "ok db" "view db = (view (Roots s))(rootRecordBytes r \<mapsto> [])"
    by blast
  have v: "view db = (\<lambda>k. if k \<in> rootRecordBytes ` insert r R then Some [] else None)"
    using db(3) assms(1) by (auto simp: roots_inv_def fun_eq_iff)
  have same: "{q \<in> insert r R. sFrame (rSlot q) = f} = (if sFrame (rSlot r) = f then insert r {q \<in> R. sFrame (rSlot q) = f} else {q \<in> R. sFrame (rSlot q) = f})" for f
    by auto
  show ?thesis
  proof (cases "FrameRoots s")
    case None
    then show ?thesis using assms db(1,2) v by (simp add: AddRoot_def roots_inv_def)
  next
    case (Some c)
    have c: "distinct rr \<and> set rr = {q \<in> R. sFrame (rSlot q) = f}" if "c f = Some rr" for f rr using assms(1) Some that by (auto simp: roots_inv_def)
    show ?thesis
    proof (cases "c (sFrame (rSlot r))")
      case None
      with Some show ?thesis using assms db(1,2) v c unfolding roots_inv_def same by (auto simp: AddRoot_def)
    next
      case (Some rr)
      have "distinct qq \<and> set qq = {q \<in> insert r R. sFrame (rSlot q) = f}" if "evict (c(sFrame (rSlot r) \<mapsto> rr @ [r])) f = Some qq" for f qq
        using evicted [OF that] c [of f] c [OF Some] assms(3) unfolding same by (auto split: if_splits)
      with Some \<open>FrameRoots s = Some c\<close> show ?thesis using assms db(1,2) v by (simp add: AddRoot_def roots_inv_def)
    qed
  qed
qed

end

text \<open>The table of the roots of an epoch: prefix \<open>r\<close> of a flushable database.\<close>

abbreviation epoch_roots_ops :: "MemDb Flushable kv_ops" where
  "epoch_roots_ops \<equiv> table_ops (flushable_ops mem_ops) [0x72]"

abbreviation epoch_roots_view :: "MemDb Flushable \<Rightarrow> bytes \<rightharpoonup> bytes" where
  "epoch_roots_view s \<equiv> \<lambda>k. fl_view mem_view s ([0x72] @ k)"

interpretation no_evict: roots_over epoch_roots_ops "fl_ok mem_ok" epoch_roots_view "\<lambda>c. c"
  by unfold_locales auto

definition new_roots :: "MemDb Flushable RootsStore" where
  "new_roots = \<lparr>Roots = Wrap mem_New, FrameRoots = Some Map.empty\<rparr>"

text \<open>Any interleaving of additions of new roots and of queries.\<close>

inductive roots_run :: "(roots_cache \<Rightarrow> roots_cache) \<Rightarrow> MemDb Flushable RootsStore \<Rightarrow> RootAndSlot set \<Rightarrow> bool" for evict where
  roots_new: "roots_run evict new_roots {}"
| roots_add: "roots_run evict s R \<Longrightarrow> length (rID r) = 32 \<Longrightarrow> r \<notin> R \<Longrightarrow> AddRoot epoch_roots_ops evict s r = Some s' \<Longrightarrow> roots_run evict s' (insert r R)"
| roots_get: "roots_run evict s R \<Longrightarrow> GetFrameRoots epoch_roots_ops evict s f = Some (rr, s') \<Longrightarrow> roots_run evict s' R"

lemma epoch_roots_over: "(\<And>c. evict c \<subseteq>\<^sub>m c) \<Longrightarrow> roots_over epoch_roots_ops (fl_ok mem_ok) epoch_roots_view evict"
  by unfold_locales

lemma new_roots_inv: "roots_inv (fl_ok mem_ok) epoch_roots_view new_roots {}"
  by (simp add: roots_inv_def new_roots_def Wrap_view mem_ok_def mem_New_def mem_view_def fun_eq_iff)

lemma roots_run_inv:
  assumes "roots_run evict s R" "\<And>c. evict c \<subseteq>\<^sub>m c"
  shows "roots_inv (fl_ok mem_ok) epoch_roots_view s R"
  using assms(1)
proof induction
  case roots_new
  show ?case by (rule new_roots_inv)
next
  case (roots_add s R r s')
  then show ?case using roots_over.AddRoot_adds [OF epoch_roots_over [OF assms(2)]] by (metis option.inject)
next
  case (roots_get s R f rr s')
  then show ?case using roots_over.GetFrameRoots_lists [OF epoch_roots_over [OF assms(2)], of s R f] by auto
qed

text \<open>
  Whatever roots have been added and whatever queries were made before, in any order and with
  any eviction policy of the cache, \<open>GetFrameRoots\<close> lists exactly the roots added for the frame, each
  once; a key of the table never fails to parse.
\<close>

theorem GetFrameRoots_exact:
  assumes "roots_run evict s R" "\<forall>c. evict c \<subseteq>\<^sub>m c"
  shows "\<exists>rr s'. GetFrameRoots epoch_roots_ops evict s f = Some (rr, s') \<and> distinct rr \<and> set rr = {r \<in> R. sFrame (rSlot r) = f} \<and>
     roots_run evict s' R"
proof -
  have ev: "evict c \<subseteq>\<^sub>m c" for c using assms(2) by blast
  from roots_over.GetFrameRoots_lists [OF epoch_roots_over [OF ev] roots_run_inv [OF assms(1) ev], of f]
  show ?thesis using roots_run.roots_get [OF assms(1)] by blast
qed

definition sample_root :: "Frame \<Rightarrow> RootAndSlot" where
  "sample_root f = \<lparr>rID = replicate 32 7, rSlot = \<lparr>sFrame = f, sValidator = 5\<rparr>\<rparr>"

theorem GetFrameRoots_exact_witness:
  "\<exists>s rr s'. AddRoot epoch_roots_ops (\<lambda>c. c) new_roots (sample_root 2) = Some s \<and>
     GetFrameRoots epoch_roots_ops (\<lambda>c. c) s 2 = Some (rr, s') \<and> set rr = {sample_root 2}"
proof -
  have l: "length (rID (sample_root 2)) = 32" by (simp add: sample_root_def)
  obtain s where s: "AddRoot epoch_roots_ops (\<lambda>c. c) new_roots (sample_root 2) = Some s"
    using no_evict.AddRoot_adds [OF new_roots_inv l] by auto
  have "roots_run (\<lambda>c. c) s (insert (sample_root 2) {})"
    by (rule roots_run.roots_add [OF roots_run.roots_new l _ s]) simp
  from GetFrameRoots_exact [OF this, of 2] s show ?thesis by (auto simp: sample_root_def)
qed

end
