(* ===== verification/Consensus_Time.thy ===== *)
theory Consensus_Time
  imports Event "HOL-Library.Product_Lexorder"
begin

text \<open>
  \<open>poset/frame_info.go\<close> and \<open>poset/event_ordering.go\<close>: the consensus time of the events of a decided
  frame, a line through their Lamport times, and the order of the events in a block. An \<open>int64\<close> is
  a word of 64 bits, on which addition and multiplication are those of \<open>uint64\<close>.
\<close>

subsection \<open>Frame info\<close>

record FrameInfo =
  TimeOffset :: u64 \<comment> \<open>\<open>int64\<close>, may be negative\<close>
  TimeRatio :: Timestamp
  LastConsensusTime :: Timestamp

record frameInfoMarshaling =
  m_TimeOffset :: u64
  m_TimeRatio :: u64
  m_LastConsensusTime :: u64

text \<open>\<open>math.MaxInt64/2\<close> is added to the offset before it is stored.\<close>

definition EncodeRLP_FrameInfo :: "FrameInfo \<Rightarrow> frameInfoMarshaling" where
  "EncodeRLP_FrameInfo f = \<lparr>m_TimeOffset = TimeOffset f + 0x3FFFFFFFFFFFFFFF, m_TimeRatio = TimeRatio f, m_LastConsensusTime = LastConsensusTime f\<rparr>"

definition DecodeRLP_FrameInfo :: "frameInfoMarshaling \<Rightarrow> FrameInfo" where
  "DecodeRLP_FrameInfo m = \<lparr>TimeOffset = m_TimeOffset m - 0x3FFFFFFFFFFFFFFF, TimeRatio = m_TimeRatio m, LastConsensusTime = m_LastConsensusTime m\<rparr>"

definition CalcConsensusTime :: "FrameInfo \<Rightarrow> Lamport \<Rightarrow> Timestamp" where
  "CalcConsensusTime f lamport = ucast lamport * TimeRatio f + TimeOffset f"

text \<open>
  \<open>fareTimestamps\<close>, given the consensus time of the previous frame and the median time of the
  Atropos.
\<close>

definition fareTimestamps :: "Timestamp \<Rightarrow> Timestamp \<Rightarrow> Lamport \<Rightarrow> Lamport \<Rightarrow> FrameInfo" where
  "fareTimestamps lastConsensusTime nowMedianTime highestLamport lowestLamport =
     (let frameLamportPeriod = MaxLamport (highestLamport - lowestLamport + 1) 1;
          frameTimePeriod = MaxTimestamp (nowMedianTime - lastConsensusTime) 1;
          frameTimePeriod = (if lastConsensusTime > nowMedianTime then 1 else frameTimePeriod);
          timeRatio = MaxTimestamp (frameTimePeriod div ucast frameLamportPeriod) 1;
          lowestConsensusTime = lastConsensusTime + timeRatio;
          timeOffset = lowestConsensusTime - ucast lowestLamport * timeRatio;
          lastConsensusTime = ucast highestLamport * timeRatio + timeOffset
      in \<lparr>TimeOffset = timeOffset, TimeRatio = timeRatio, LastConsensusTime = lastConsensusTime\<rparr>)"

subsection \<open>Order of the events of a block\<close>

definition fareOrdering :: "(hash_event \<times> EventHeaderData) list \<Rightarrow> hash_event list" where
  "fareOrdering unordered = map fst (sort_key (\<lambda>(h, e). (eLamport e, h)) unordered)"

subsection \<open>Consensus times\<close>

lemma FrameInfo_roundtrip [simp]: "DecodeRLP_FrameInfo (EncodeRLP_FrameInfo f) = f"
  by (simp add: DecodeRLP_FrameInfo_def EncodeRLP_FrameInfo_def)

definition time_ratio :: "nat \<Rightarrow> nat \<Rightarrow> nat \<Rightarrow> nat" where
  "time_ratio prev now period = max (max (now - prev) 1 div period) 1"

lemma unat_period:
  fixes hi lo :: u32
  assumes "lo \<le> hi" "lo \<noteq> 0"
  shows "unat (max (hi - lo + 1) 1) = unat hi - unat lo + 1" "unat hi - unat lo + 1 < 2 ^ 32"
proof -
  have lt: "unat hi < 2 ^ 32" using unsigned_less [of hi, where 'a = nat] by simp
  moreover have "0 < unat lo" "unat lo \<le> unat hi" using assms by (simp_all add: unat_gt_0 word_le_nat_alt)
  ultimately show b: "unat hi - unat lo + 1 < 2 ^ 32" by simp
  have "unat (hi - lo) = unat hi - unat lo" using assms(1) by (rule unat_sub)
  then have "unat (hi - lo + 1) = unat hi - unat lo + 1" using b unat_Suc_word [of "hi - lo"] by simp
  moreover have "(1 :: u32) \<le> hi - lo + 1" using calculation by (simp add: word_le_nat_alt)
  ultimately show "unat (max (hi - lo + 1) 1) = unat hi - unat lo + 1" by (simp add: max_absorb1)
qed

lemma unat_frame_period:
  fixes prev now :: u64
  shows "unat (if prev > now then 1 else max (now - prev) 1) = max (unat now - unat prev) 1"
proof (cases "prev > now")
  case True
  then show ?thesis by (simp add: word_less_nat_alt)
next
  case False
  then have "unat (now - prev) = unat now - unat prev" by (intro unat_sub) simp
  then show ?thesis using False by (auto simp: max_def word_le_nat_alt)
qed

lemma fareTimestamps_ratio:
  assumes "lo \<le> hi" "lo \<noteq> 0"
  shows "unat (TimeRatio (fareTimestamps prev now hi lo)) = time_ratio (unat prev) (unat now) (unat hi - unat lo + 1)"
proof -
  let ?p = "max (hi - lo + 1) 1" and ?t = "if prev > now then 1 else max (now - prev) 1"
  have "unat (ucast ?p :: u64) = unat hi - unat lo + 1"
    using unat_period [OF assms] by (simp add: unsigned_ucast_eq take_bit_eq_mod)
  then have d: "unat (?t div ucast ?p) = max (unat now - unat prev) 1 div (unat hi - unat lo + 1)"
    unfolding unat_div unat_frame_period by simp
  have "TimeRatio (fareTimestamps prev now hi lo) = max (?t div ucast ?p) 1" by (simp add: fareTimestamps_def Let_def)
  moreover have "unat (max (a :: u64) 1) = max (unat a) 1" for a by (simp add: max_def word_le_nat_alt)
  ultimately show ?thesis unfolding time_ratio_def using d by simp
qed

text \<open>The consensus time of Lamport time \<open>l\<close>, as a number, when it fits.\<close>

lemma CalcConsensusTime_exact:
  assumes lo: "lo \<le> l" and room: "unat prev + unat r * (unat l - unat lo + 1) < 2 ^ 64"
    and fi: "TimeRatio fi = r" "TimeOffset fi = prev + r - ucast lo * r"
  shows "unat (CalcConsensusTime fi l) = unat prev + unat r * (unat l - unat lo + 1)"
proof -
  have "CalcConsensusTime fi l = prev + r * (ucast l - ucast lo + 1)" unfolding CalcConsensusTime_def fi by (simp add: algebra_simps)
  also have "ucast l - ucast lo + 1 = (of_nat (unat l - unat lo + 1) :: u64)"
  proof -
    have "unat lo \<le> unat l" using lo by (simp add: word_le_nat_alt)
    then show ?thesis by (simp add: of_nat_diff)
  qed
  finally have "CalcConsensusTime fi l = of_nat (unat prev + unat r * (unat l - unat lo + 1))" by (simp add: distrib_left)
  then show ?thesis using room by (simp add: unat_of_nat take_bit_eq_mod del: of_nat_add of_nat_mult)
qed

lemma time_ratio_bound: "0 < period \<Longrightarrow> prev + time_ratio prev now period * period \<le> max now (prev + period)"
proof -
  assume p: "0 < period"
  let ?q = "max (now - prev) 1 div period"
  have q: "?q * period \<le> max (now - prev) 1" by simp
  show ?thesis
  proof (cases "?q \<le> 1")
    case False
    then have "2 * period \<le> ?q * period" by (intro mult_le_mono1) simp
    with q p have "2 \<le> max (now - prev) 1" by linarith
    then have "max (now - prev) 1 = now - prev" by simp
    with q \<open>2 \<le> max (now - prev) 1\<close> have "?q * period \<le> now - prev" "0 < now - prev" by simp_all
    then have "prev + ?q * period \<le> now" by linarith
    moreover have "time_ratio prev now period = ?q" using False by (simp add: time_ratio_def)
    ultimately show ?thesis by (simp only: max.coboundedI1)
  qed (simp add: time_ratio_def)
qed

text \<open>
  C16. The consensus times of a decided frame: if the previous frame's time leaves room for a step per Lamport
  time (it is more than \<open>2 ^ 32\<close> below the end of the range), then within the frame consensus time grows
  strictly with Lamport time, starts after the consensus time of the previous frame, reaches
  \<open>LastConsensusTime\<close> exactly at the highest Lamport time, and \<open>LastConsensusTime\<close> does not run ahead of
  the Atropos median time, except for the one nanosecond per Lamport time that keeps it growing.
\<close>

theorem consensus_time_grows:
  assumes "lo \<le> hi" "lo \<noteq> 0" "unat prev + 2 ^ 32 \<le> 2 ^ 64"
    and "fi = fareTimestamps prev now hi lo"
  shows "(\<forall>l. lo \<le> l \<and> l \<le> hi \<longrightarrow> prev < CalcConsensusTime fi l \<and> CalcConsensusTime fi l \<le> LastConsensusTime fi) \<and>
     (\<forall>l l'. lo \<le> l \<and> l < l' \<and> l' \<le> hi \<longrightarrow> CalcConsensusTime fi l < CalcConsensusTime fi l') \<and>
     LastConsensusTime fi = CalcConsensusTime fi hi \<and>
     unat (LastConsensusTime fi) \<le> max (unat now) (unat prev + (unat hi - unat lo + 1))"
proof -
  let ?p = "unat hi - unat lo + 1" and ?r = "TimeRatio fi"
  have r: "unat ?r = time_ratio (unat prev) (unat now) ?p" using fareTimestamps_ratio [OF assms(1,2)] assms(4) by simp
  then have r1: "1 \<le> unat ?r" by (simp add: time_ratio_def)
  have le: "unat prev + unat ?r * ?p \<le> max (unat now) (unat prev + ?p)" unfolding r by (rule time_ratio_bound) simp
  have "unat now < 2 ^ 64" using unsigned_less [of now, where 'a = nat] by simp
  then have room: "unat prev + unat ?r * ?p < 2 ^ 64" using le unat_period(2) [OF assms(1,2)] assms(3) by linarith
  have off: "TimeOffset fi = prev + ?r - ucast lo * ?r" by (simp add: assms(4) fareTimestamps_def Let_def)
  have exact: "unat (CalcConsensusTime fi l) = unat prev + unat ?r * (unat l - unat lo + 1)" if "lo \<le> l" "l \<le> hi" for l
  proof (rule CalcConsensusTime_exact [OF that(1) _ refl off])
    have "unat l - unat lo + 1 \<le> ?p" using that(2) by (simp add: word_le_nat_alt)
    then have "unat ?r * (unat l - unat lo + 1) \<le> unat ?r * ?p" by (rule mult_le_mono2)
    with room show "unat prev + unat ?r * (unat l - unat lo + 1) < 2 ^ 64" by linarith
  qed
  have final: "LastConsensusTime fi = CalcConsensusTime fi hi" by (simp add: assms(4) fareTimestamps_def CalcConsensusTime_def Let_def)
  have mono: "CalcConsensusTime fi l < CalcConsensusTime fi l'" if "lo \<le> l" "l < l'" "l' \<le> hi" for l l'
  proof -
    have u: "unat lo \<le> unat l" "unat l < unat l'" using that(1,2) by (simp_all add: word_le_nat_alt word_less_nat_alt)
    then have "unat l - unat lo + 1 < unat l' - unat lo + 1" by linarith
    then have "unat ?r * (unat l - unat lo + 1) < unat ?r * (unat l' - unat lo + 1)" using r1 by (intro mult_strict_left_mono) simp_all
    moreover have "l \<le> hi" "lo \<le> l'" using that by simp_all
    ultimately show ?thesis using exact [OF that(1), of] exact [OF _ that(3)] unfolding word_less_nat_alt by simp
  qed
  have after: "prev < CalcConsensusTime fi l" if "lo \<le> l" "l \<le> hi" for l
    using exact [OF that] r1 by (simp add: word_less_nat_alt)
  have upto: "CalcConsensusTime fi l \<le> LastConsensusTime fi" if "lo \<le> l" "l \<le> hi" for l
    using mono [OF that(1) _ order_refl] that(2) unfolding final by (cases "l = hi") (auto intro: less_imp_le)
  have "unat (LastConsensusTime fi) \<le> max (unat now) (unat prev + ?p)" unfolding final using exact [OF assms(1) order_refl] le by simp
  with after upto mono final show ?thesis by blast
qed

theorem consensus_time_grows_witness:
  "1000 < CalcConsensusTime (fareTimestamps 1000 1700 9 5) 7 \<and> CalcConsensusTime (fareTimestamps 1000 1700 9 5) 7 = 1420 \<and>
   unat (LastConsensusTime (fareTimestamps 1000 1700 9 5)) \<le> 1700"
proof -
  have "(5 :: u32) \<le> 9" "(5 :: u32) \<le> 7" "(7 :: u32) \<le> 9" by simp_all
  moreover have "CalcConsensusTime (fareTimestamps 1000 1700 9 5) 7 = 1420" by code_simp
  moreover have "unat (1000 :: u64) + 2 ^ 32 \<le> 2 ^ 64" "max (unat (1700 :: u64)) (unat (1000 :: u64) + (unat (9 :: u32) - unat (5 :: u32) + 1)) = 1700" by simp_all
  moreover have "(5 :: u32) \<noteq> 0" by simp
  ultimately show ?thesis using consensus_time_grows [of 5 9 1000 "fareTimestamps 1000 1700 9 5" 1700] by (metis (no_types))
qed

subsection \<open>Order\<close>

lemma fareOrdering_props:
  assumes "distinct (map fst xs)"
  shows "(\<forall>ys. mset ys = mset xs \<longrightarrow> fareOrdering ys = fareOrdering xs) \<and> mset (fareOrdering xs) = mset (map fst xs) \<and>
     sorted_wrt (\<lambda>a b. (eLamport (the (map_of xs a)), a) < (eLamport (the (map_of xs b)), b)) (fareOrdering xs)"
proof -
  let ?f = "\<lambda>(h, e). (eLamport e, h)"
  have inj: "inj_on ?f (set xs)"
    by (rule inj_onI) (use assms in \<open>auto simp: eq_key_imp_eq_value\<close>)
  have "fareOrdering ys = fareOrdering xs" if "mset ys = mset xs" for ys
    using sort_key_eq_sort_key [of xs ys ?f] inj that by (simp add: fareOrdering_def)
  moreover have "mset (fareOrdering xs) = mset (map fst xs)" by (simp add: fareOrdering_def)
  moreover have "sorted_wrt (\<lambda>a b. (eLamport (the (map_of xs a)), a) < (eLamport (the (map_of xs b)), b)) (fareOrdering xs)"
  proof -
    have "distinct (map ?f (sort_key ?f xs))" using assms inj by (simp add: distinct_map)
    then have "sorted_wrt (<) (map ?f (sort_key ?f xs))" by (simp add: strict_sorted_iff)
    then have "sorted_wrt (\<lambda>a b. ?f a < ?f b) (sort_key ?f xs)" by (simp add: sorted_wrt_map)
    then have "sorted_wrt (\<lambda>a b. (eLamport (the (map_of xs (fst a))), fst a) < (eLamport (the (map_of xs (fst b))), fst b)) (sort_key ?f xs)"
      by (rule sorted_wrt_mono_rel [rotated]) (use assms in \<open>auto simp: case_prod_unfold\<close>)
    then show ?thesis by (simp add: fareOrdering_def sorted_wrt_map)
  qed
  ultimately show ?thesis by blast
qed

text \<open>
  C17. \<open>fareOrdering\<close> gives the events of a block an order that does not depend on the order in which
  the walk of the graph found them: each event once, by Lamport time and then by id. In particular
  an event comes after every event of lower Lamport time, so after its parents.
\<close>

theorem fareOrdering_canonical:
  assumes "distinct (map fst xs)"
  shows "(\<forall>ys. mset ys = mset xs \<longrightarrow> fareOrdering ys = fareOrdering xs) \<and> mset (fareOrdering xs) = mset (map fst xs) \<and>
     sorted_wrt (\<lambda>a b. (eLamport (the (map_of xs a)), a) < (eLamport (the (map_of xs b)), b)) (fareOrdering xs)"
  using fareOrdering_props [OF assms] .

definition ordering_sample :: "(hash_event \<times> EventHeaderData) list" where
  "ordering_sample = [([9], empty_header\<lparr>eLamport := 2\<rparr>), ([8], empty_header\<lparr>eLamport := 1\<rparr>), ([7], empty_header\<lparr>eLamport := 2\<rparr>)]"

theorem fareOrdering_canonical_witness:
  "fareOrdering (rev ordering_sample) = fareOrdering ordering_sample \<and> fareOrdering ordering_sample = [[8], [7], [9]]"
proof -
  have "distinct (map fst ordering_sample)" by (simp add: ordering_sample_def)
  moreover have "fareOrdering ordering_sample = [[8], [7], [9]]" by (simp add: fareOrdering_def ordering_sample_def)
  ultimately show ?thesis using fareOrdering_canonical [of ordering_sample, THEN conjunct1, rule_format, of "rev ordering_sample"] by simp
qed

end
