(* ===== verification/Event_Checks.thy ===== *)
theory Event_Checks
  imports Frames
begin

text \<open>
  Package \<open>eventcheck\<close>: the checks an event passes before it is connected (\<open>basiccheck\<close>,
  \<open>epochcheck\<close>, \<open>parentscheck\<close>, \<open>gaspowercheck\<close>, \<open>heavycheck\<close>) and \<open>evmcore.IntrinsicGas\<close>. An
  \<open>error\<close> is a \<^typ>\<open>'e option\<close> with \<^const>\<open>None\<close> for nil; a panic is a \<^const>\<open>None\<close> around it. Transactions,
  signatures and the gas schedule are go-ethereum's: a transaction is an opaque value with the
  accessors of \<open>tx_ops\<close>, the schedule a record of its numbers.
\<close>

subsection \<open>Parameters of the program\<close>

record DagConfig =
  MaxParents :: int
  MaxFreeParents :: int
  MaxEpochBlocks :: Frame
  MaxValidatorEventsInBlock :: EventSeq

record 'tx tx_ops =
  txValue :: "'tx \<Rightarrow> int"
  txGasPrice :: "'tx \<Rightarrow> int"
  txGas :: "'tx \<Rightarrow> u64"
  txData :: "'tx \<Rightarrow> bytes"
  txCreates :: "'tx \<Rightarrow> bool" \<comment> \<open>\<open>tx.To() == nil\<close>\<close>

record gas_schedule =
  TxGas :: u64
  TxGasContractCreation :: u64
  TxDataNonZeroGas :: u64
  TxDataZeroGas :: u64

definition EventGas :: u64 where "EventGas = 28000"

definition ParentGas :: u64 where "ParentGas = 2400"

definition ExtraDataGas :: u64 where "ExtraDataGas = 150"

definition MaxGasPowerUsed :: u64 where "MaxGasPowerUsed = 10000000 + EventGas"

definition MaxExtraData :: nat where "MaxExtraData = 128"

definition MinGasPrice :: int where "MinGasPrice = 1000000000"

datatype check_err =
    ErrSigMalformed | ErrVersion | ErrExtraTooLarge | ErrNoParents | ErrTooManyParents | ErrTooBigGasUsed | ErrWrongGasUsed
  | ErrIntrinsicGas | ErrUnderpriced | ErrNotInited | ErrZeroTime | ErrNegativeValue | ErrHugeValue | ErrOutOfGas
  | ErrNotRelevant | ErrAuth
  | ErrWrongSeq | ErrWrongLamport | ErrDoubleParents | ErrWrongSelfParent | ErrPastTime
  | ErrWrongGasPowerLeft
  | ErrWrongEventSig | ErrMalformedTxSig | ErrWrongTxHash
  | ErrAlreadyConnectedEvent

text \<open>\<open>if err := f(); err != nil { return err }\<close>\<close>

definition and_then :: "'e option \<Rightarrow> 'e option \<Rightarrow> 'e option" where
  "and_then a b = (case a of None \<Rightarrow> b | Some e \<Rightarrow> Some e)"

lemma and_then_None [simp]: "and_then a b = None \<longleftrightarrow> a = None \<and> b = None"
  by (cases a) (simp_all add: and_then_def)

definition first_err :: "('a \<Rightarrow> 'e option) \<Rightarrow> 'a list \<Rightarrow> 'e option" where
  "first_err f xs = foldr (\<lambda>x r. and_then (f x) r) xs None"

lemma first_err_None [simp]: "first_err f xs = None \<longleftrightarrow> (\<forall>x \<in> set xs. f x = None)"
  by (induction xs) (simp_all add: first_err_def)

subsection \<open>\<open>basiccheck\<close>\<close>

definition IntrinsicGas :: "gas_schedule \<Rightarrow> bytes \<Rightarrow> bool \<Rightarrow> bool \<Rightarrow> check_err + u64" where
  "IntrinsicGas gs data contractCreation homestead =
     (let gas = (if contractCreation \<and> homestead then TxGasContractCreation gs else TxGas gs) in
      if length data > 0 then
        let nz = foldl (\<lambda>n b. if b \<noteq> 0 then n + 1 else n) (0 :: u64) data in
        if (- 1 - gas) div TxDataNonZeroGas gs < nz then Inl ErrOutOfGas
        else let gas = gas + nz * TxDataNonZeroGas gs; z = of_nat (length data) - nz in
          if (- 1 - gas) div TxDataZeroGas gs < z then Inl ErrOutOfGas
          else Inr (gas + z * TxDataZeroGas gs)
      else Inr gas)"

definition validateTx :: "gas_schedule \<Rightarrow> 'tx tx_ops \<Rightarrow> 'tx \<Rightarrow> check_err option" where
  "validateTx gs to tx =
     (if txValue to tx < 0 \<or> txGasPrice to tx < 0 then Some ErrNegativeValue
      else case IntrinsicGas gs (txData to tx) (txCreates to tx) True of
        Inl err \<Rightarrow> Some err
      | Inr intrGas \<Rightarrow>
          if txGas to tx < intrGas then Some ErrIntrinsicGas
          else if txGasPrice to tx < MinGasPrice then Some ErrUnderpriced
          else None)"

definition checkTxs :: "gas_schedule \<Rightarrow> 'tx tx_ops \<Rightarrow> 'tx Event \<Rightarrow> check_err option" where
  "checkTxs gs to e = first_err (validateTx gs to) (eTransactions e)"

definition CalcGasPowerUsed :: "'tx tx_ops \<Rightarrow> 'tx Event \<Rightarrow> DagConfig \<Rightarrow> u64" where
  "CalcGasPowerUsed to e config =
     (let txsGas = foldl (\<lambda>g tx. g + txGas to tx) 0 (eTransactions e);
          parentsGas = (if int (length (eParents e)) > MaxFreeParents config
                        then of_int (int (length (eParents e)) - MaxFreeParents config) * ParentGas else 0);
          extraGas = of_nat (length (eExtra e)) * ExtraDataGas
      in txsGas + parentsGas + extraGas + EventGas)"

definition checkGas :: "'tx tx_ops \<Rightarrow> DagConfig \<Rightarrow> 'tx Event \<Rightarrow> check_err option" where
  "checkGas to config e =
     (if eGasPowerUsed e > MaxGasPowerUsed then Some ErrTooBigGasUsed
      else if eGasPowerUsed e \<noteq> CalcGasPowerUsed to e config then Some ErrWrongGasUsed
      else None)"

definition checkLimits :: "DagConfig \<Rightarrow> 'tx Event \<Rightarrow> check_err option" where
  "checkLimits config e =
     (if length (eExtra e) > MaxExtraData then Some ErrExtraTooLarge
      else if int (length (eParents e)) > MaxParents config then Some ErrTooManyParents
      else if eSeq e \<ge> 1073741823 \<or> eEpoch e \<ge> 1073741823 \<or> eFrame e \<ge> 1073741823 \<or> eLamport e \<ge> 1073741823 \<or>
        eGasPowerUsed e \<ge> 4611686018427387903 \<or> GasPowerLeft_Max (eGasPowerLeft e) \<ge> 4611686018427387903 then Some ErrHugeValue
      else None)"

definition checkInited :: "'tx Event \<Rightarrow> check_err option" where
  "checkInited e =
     (if eSeq e \<le> 0 \<or> eEpoch e \<le> 0 \<or> eFrame e \<le> 0 \<or> eLamport e \<le> 0 then Some ErrNotInited
      else if eClaimedTime e \<le> 0 then Some ErrZeroTime
      else if eSeq e > 1 \<and> length (eParents e) = 0 then Some ErrNoParents
      else if length (eSig e) \<noteq> 65 then Some ErrSigMalformed
      else None)"

definition Validate_basic :: "gas_schedule \<Rightarrow> 'tx tx_ops \<Rightarrow> DagConfig \<Rightarrow> 'tx Event \<Rightarrow> check_err option" where
  "Validate_basic gs to config e =
     (if eVersion e \<noteq> 0 then Some ErrVersion
      else and_then (checkLimits config e) (and_then (checkInited e) (and_then (checkGas to config e) (checkTxs gs to e))))"

subsection \<open>\<open>epochcheck\<close>\<close>

definition Validate_epoch :: "Validators \<Rightarrow> Epoch \<Rightarrow> 'a EventHeaderData_scheme \<Rightarrow> check_err option" where
  "Validate_epoch validators epoch e =
     (if eEpoch e \<noteq> epoch then Some ErrNotRelevant
      else if \<not> Exists validators (eCreator e) then Some ErrAuth
      else None)"

subsection \<open>\<open>parentscheck\<close>\<close>

definition check_selfParent :: "hash_lib \<Rightarrow> 'a EventHeaderData_scheme \<Rightarrow> EventHeaderData \<Rightarrow> check_err option option" where
  "check_selfParent env e selfParent = do {
     h \<leftarrow> Hash env selfParent;
     Some (if \<not> IsSelfParent e h then Some ErrWrongSelfParent
           else if eSeq e \<noteq> eSeq selfParent + 1 then Some ErrWrongSeq
           else if eClaimedTime e \<le> eClaimedTime selfParent then Some ErrPastTime
           else None) }"

definition Validate_parents :: "hash_lib \<Rightarrow> 'a EventHeaderData_scheme \<Rightarrow> EventHeaderData list \<Rightarrow> check_err option option" where
  "Validate_parents env e parents =
     (if length (eParents e) \<noteq> length parents then None
      else let maxLamport = foldl (\<lambda>m p. MaxLamport m (eLamport p)) 0 parents in
        if eLamport e \<noteq> maxLamport + 1 then Some (Some ErrWrongLamport)
        else if length (remdups (eParents e)) \<noteq> length (eParents e) then Some (Some ErrDoubleParents)
        else if \<not> list_all2 (\<lambda>p h. (eCreator p = eCreator e) = IsSelfParent e h) parents (eParents e) then Some (Some ErrWrongSelfParent)
        else if (eSeq e \<le> 1) \<noteq> (SelfParent e = None) then Some (Some ErrWrongSeq)
        else if SelfParent e \<noteq> None then check_selfParent env e (parents ! 0)
        else Some None)"

subsection \<open>\<open>gaspowercheck\<close>\<close>

record GasConfig =
  gcIdx :: nat
  AllocPerSec :: u64
  MaxAllocPeriod :: Timestamp
  StartupAllocPeriod :: Timestamp
  MinStartupGas :: u64

record ValidationContext =
  vcEpoch :: Epoch
  vcConfigs :: "GasConfig \<times> GasConfig"
  vcValidators :: Validators
  PrevEpochLastHeaders :: "StakerID \<rightharpoonup> EventHeaderData"
  PrevEpochEndTime :: Timestamp
  PrevEpochRefunds :: "StakerID \<rightharpoonup> u64"

definition time_Second :: int where "time_Second = 1000000000"

text \<open>\<open>big.Int\<close> arithmetic is exact, \<open>Uint64()\<close> keeps the low 64 bits.\<close>

definition calcValidatorGasPowerPerSec :: "StakerID \<Rightarrow> Validators \<Rightarrow> GasConfig \<Rightarrow> (u64 \<times> u64 \<times> u64) option" where
  "calcValidatorGasPowerPerSec validator validators gas =
     (let stake = Validators_Get validators validator in
      if stake = 0 then Some (0, 0, 0)
      else if TotalStake validators = 0 then None
      else
        let perSec = of_int (uint (AllocPerSec gas) * uint stake div uint (TotalStake validators));
            maxGasPower = perSec * (MaxAllocPeriod gas div of_int time_Second);
            startup = perSec * (StartupAllocPeriod gas div of_int time_Second)
        in Some (perSec, maxGasPower, if startup < MinStartupGas gas then MinStartupGas gas else startup))"

definition prev_gas :: "'a EventHeaderData_scheme \<Rightarrow> EventHeaderData option \<Rightarrow> ValidationContext \<Rightarrow> GasConfig \<Rightarrow> u64 \<Rightarrow> (u64 \<times> Timestamp) option" where
  "prev_gas e selfParent ctx config startup =
     (let refund = (case PrevEpochRefunds ctx (eCreator e) of None \<Rightarrow> 0 | Some g \<Rightarrow> g) in
      if SelfParent e \<noteq> None then (case selfParent of None \<Rightarrow> None | Some sp \<Rightarrow> do {
        g \<leftarrow> gas_at (eGasPowerLeft sp) (gcIdx config); Some (g, eMedianTime sp) })
      else case PrevEpochLastHeaders ctx (eCreator e) of
        Some h \<Rightarrow> do {
          g \<leftarrow> gas_at (eGasPowerLeft h) (gcIdx config);
          Some (if g + refund < startup then startup else g + refund, eMedianTime h) }
      | None \<Rightarrow> Some (startup + refund, PrevEpochEndTime ctx))"

definition calcGasPower :: "'a EventHeaderData_scheme \<Rightarrow> EventHeaderData option \<Rightarrow> ValidationContext \<Rightarrow> GasConfig \<Rightarrow> u64 option" where
  "calcGasPower e selfParent ctx config = do {
     (gasPowerPerSec, maxGasPower, startup) \<leftarrow> calcValidatorGasPowerPerSec (eCreator e) (vcValidators ctx) config;
     (prevGasPowerLeft, prevMedianTime) \<leftarrow> prev_gas e selfParent ctx config startup;
     let prevMedianTime = (if prevMedianTime > eMedianTime e then eMedianTime e else prevMedianTime);
     let gasPowerAllocated = uint (eMedianTime e - prevMedianTime) * uint gasPowerPerSec div time_Second;
     let gasPower = of_int gasPowerAllocated + prevGasPowerLeft;
     Some (if gasPower > maxGasPower then maxGasPower else gasPower) }"

definition CalcGasPower :: "ValidationContext \<Rightarrow> 'a EventHeaderData_scheme \<Rightarrow> EventHeaderData option \<Rightarrow> (check_err + GasPowerLeft) option" where
  "CalcGasPower ctx e selfParent =
     (if vcEpoch ctx \<noteq> eEpoch e then Some (Inl ErrNotRelevant)
      else do {
        g0 \<leftarrow> calcGasPower e selfParent ctx (fst (vcConfigs ctx));
        g1 \<leftarrow> calcGasPower e selfParent ctx (snd (vcConfigs ctx));
        Some (Inr (GasPowerLeft g0 g1)) })"

definition Validate_gaspower :: "ValidationContext \<Rightarrow> 'a EventHeaderData_scheme \<Rightarrow> EventHeaderData option \<Rightarrow> check_err option option" where
  "Validate_gaspower ctx e selfParent = (case CalcGasPower ctx e selfParent of
     None \<Rightarrow> None
   | Some (Inl err) \<Rightarrow> Some (Some err)
   | Some (Inr gasPowers) \<Rightarrow>
       Some (if Gas0 (eGasPowerLeft e) + eGasPowerUsed e \<noteq> Gas0 gasPowers \<or> Gas1 (eGasPowerLeft e) + eGasPowerUsed e \<noteq> Gas1 gasPowers
             then Some ErrWrongGasPowerLeft else None))"

subsection \<open>\<open>heavycheck\<close>\<close>

text \<open>Signature recovery and the Merkle root of the transactions are go-ethereum's.\<close>

record 'tx crypto_ops =
  VerifySignature :: "'tx Event \<Rightarrow> bytes \<Rightarrow> bool"
  SenderOk :: "'tx \<Rightarrow> bool"
  DeriveSha :: "'tx list \<Rightarrow> hash"

definition Validate_heavy :: "'tx crypto_ops \<Rightarrow> (StakerID \<rightharpoonup> bytes) \<Rightarrow> Epoch \<Rightarrow> 'tx Event \<Rightarrow> check_err option" where
  "Validate_heavy co addrs epoch e =
     (if eEpoch e \<noteq> epoch then Some ErrNotRelevant
      else case addrs (eCreator e) of
        None \<Rightarrow> Some ErrAuth
      | Some addr \<Rightarrow>
          if \<not> VerifySignature co e addr then Some ErrWrongEventSig
          else if \<not> list_all (SenderOk co) (eTransactions e) then Some ErrMalformedTxSig
          else if eTxHash e \<noteq> DeriveSha co (eTransactions e) then Some ErrWrongTxHash
          else None)"

definition maxBatch :: nat where "maxBatch = 4"

text \<open>
  \<open>Enqueue\<close>: the tasks sent before \<open>quit\<close> is chosen at some send, and whether it was. \<open>quit i\<close> says
  that the \<open>i\<close>-th \<open>select\<close> takes the quit branch.
\<close>

function Enqueue_from :: "(nat \<Rightarrow> bool) \<Rightarrow> nat \<Rightarrow> 'e list \<Rightarrow> 'e list list \<times> bool" where
  "Enqueue_from quit i events =
     (if events = [] then ([], False)
      else if quit i then ([], True)
      else let (ts, q) = Enqueue_from quit (Suc i) (drop maxBatch events) in (take maxBatch events # ts, q))"
  by pat_completeness auto
termination by (relation "measure (\<lambda>(_, _, es). length es)") (auto simp: maxBatch_def)

declare Enqueue_from.simps [simp del]

definition Enqueue :: "(nat \<Rightarrow> bool) \<Rightarrow> 'e list \<Rightarrow> 'e list list \<times> bool" where
  "Enqueue quit events = Enqueue_from quit 0 events"

text \<open>What a worker reports for a task.\<close>

definition task_result :: "'tx crypto_ops \<Rightarrow> (StakerID \<rightharpoonup> bytes) \<Rightarrow> Epoch \<Rightarrow> 'tx Event list \<Rightarrow> check_err option list" where
  "task_result co addrs epoch events = map (Validate_heavy co addrs epoch) events"

subsection \<open>All checks\<close>

definition Validate_all :: "hash_lib \<Rightarrow> gas_schedule \<Rightarrow> 'tx tx_ops \<Rightarrow> 'tx crypto_ops \<Rightarrow> DagConfig \<Rightarrow> Validators \<Rightarrow> Epoch \<Rightarrow>
    ValidationContext \<Rightarrow> (StakerID \<rightharpoonup> bytes) \<Rightarrow> Epoch \<Rightarrow> 'tx Event \<Rightarrow> EventHeaderData list \<Rightarrow> check_err option option" where
  "Validate_all env gs to co config validators epoch ctx addrs keysEpoch e parents =
     (case Validate_basic gs to config e of Some err \<Rightarrow> Some (Some err) | None \<Rightarrow>
      case Validate_epoch validators epoch e of Some err \<Rightarrow> Some (Some err) | None \<Rightarrow> do {
        r \<leftarrow> Validate_parents env e parents;
        case r of Some err \<Rightarrow> Some (Some err) | None \<Rightarrow> do {
          let selfParent = (if SelfParent e \<noteq> None then Some (parents ! 0) else None);
          r \<leftarrow> Validate_gaspower ctx e selfParent;
          case r of Some err \<Rightarrow> Some (Some err) | None \<Rightarrow> Some (Validate_heavy co addrs keysEpoch e) } })"

definition IsBan :: "check_err option \<Rightarrow> bool" where
  "IsBan err = (if err = Some ErrNotRelevant \<or> err = Some ErrAlreadyConnectedEvent then False else err \<noteq> None)"

subsection \<open>Lemmas\<close>

lemma foldl_max_start: "m \<le> foldl (\<lambda>m p. max m (f p)) m ps" for m :: "'a :: linorder"
  by (induction ps arbitrary: m) (auto intro: order_trans [OF max.cobounded1])

lemma foldl_max_elem: "p \<in> set ps \<Longrightarrow> f p \<le> foldl (\<lambda>m p. max m (f p)) m ps" for m :: "'a :: linorder"
proof (induction ps arbitrary: m)
  case (Cons q ps)
  have "f q \<le> foldl (\<lambda>m p. max m (f p)) (max m (f q)) ps" by (rule order_trans [OF max.cobounded2 foldl_max_start])
  with Cons show ?case by auto
qed simp

lemma foldl_max_in: "foldl (\<lambda>m p. max m (f p)) m ps \<in> insert m (f ` set ps)" for m :: "'a :: linorder"
proof (induction ps arbitrary: m)
  case (Cons q ps)
  from Cons.IH [of "max m (f q)"] show ?case by (cases "m \<le> f q") (auto simp: max_def)
qed simp

lemma Validate_basic_nil:
  "Validate_basic gs to config e = None \<longleftrightarrow>
     eVersion e = 0 \<and> checkLimits config e = None \<and> checkInited e = None \<and> checkGas to config e = None \<and> checkTxs gs to e = None"
  by (simp add: Validate_basic_def)

lemma Validate_epoch_nil: "Validate_epoch vv ep e = None \<longleftrightarrow> eEpoch e = ep \<and> Exists vv (eCreator e)"
  by (simp add: Validate_epoch_def)

lemma Validate_parents_nil:
  assumes "Validate_parents env e parents = Some None"
  shows "length parents = length (eParents e)" "eLamport e = foldl (\<lambda>m p. max m (eLamport p)) 0 parents + 1" "distinct (eParents e)"
    "list_all2 (\<lambda>p h. (eCreator p = eCreator e) = IsSelfParent e h) parents (eParents e)" "(eSeq e \<le> 1) = (SelfParent e = None)"
    "SelfParent e \<noteq> None \<Longrightarrow> eSeq e = eSeq (parents ! 0) + 1 \<and> eClaimedTime (parents ! 0) < eClaimedTime e"
  using assms
  by (auto simp: Validate_parents_def Let_def length_remdups_card_conv check_selfParent_def Option.bind_eq_Some_conv card_distinct not_le
      split: if_splits)

lemma accepted_event_valid:
  assumes basic: "Validate_basic gs to config e = None" and epoch: "Validate_epoch vv ep e = None"
    and parents: "Validate_parents env e parents = Some None" and known: "map D (eParents e) = map Some parents"
  shows "valid_event vv D (EventHeaderData.truncate e)"
proof -
  note p = Validate_parents_nil [OF parents]
  have sub: "set (eParents e) \<subseteq> dom D"
  proof
    fix h assume "h \<in> set (eParents e)"
    then have "D h \<in> set (map Some parents)" unfolding known [symmetric] by simp
    then show "h \<in> dom D" by auto
  qed
  have seq: "eSeq e \<noteq> 0" using basic by (auto simp: Validate_basic_nil checkInited_def split: if_splits)
  have one: "eSeq e = 1" if "SelfParent e = None" using p(5) that seq by unat_arith
  have own: "D h = Some (parents ! 0) \<and> eCreator (parents ! 0) = eCreator e" if "SelfParent e = Some h" for h
  proof -
    have h: "eParents e \<noteq> []" "h = eParents e ! 0" using that by (auto simp: SelfParent_def split: if_splits)
    then have "D h = Some (parents ! 0)" using known p(1) by (metis length_greater_0_conv nth_map)
    moreover have "(eCreator (parents ! 0) = eCreator e) = IsSelfParent e h" using p(1,4) h by (auto simp: list_all2_conv_all_nth)
    ultimately show ?thesis using that by (simp add: IsSelfParent_def)
  qed
  have sp: "SelfParent (EventHeaderData.truncate e) = SelfParent e" by (simp add: SelfParent_def EventHeaderData.defs)
  show ?thesis unfolding valid_event_def sp
    using epoch seq sub one own p(6) by (auto simp: EventHeaderData.defs Validate_epoch_nil split: option.split)
qed

lemma calcGasPower_le: "calcGasPower e sp ctx config = Some g \<Longrightarrow>
    \<exists>perSec maxGas startup. calcValidatorGasPowerPerSec (eCreator e) (vcValidators ctx) config = Some (perSec, maxGas, startup) \<and> g \<le> maxGas"
  by (auto simp: calcGasPower_def Option.bind_eq_Some_conv Let_def not_less split: if_splits prod.splits)

lemma small_gas_sum: "g < 4611686018427387903 \<Longrightarrow> u \<le> MaxGasPowerUsed \<Longrightarrow> unat (g + u) = unat g + unat u" for g u :: u64
  by (simp add: MaxGasPowerUsed_def EventGas_def word_less_nat_alt word_le_nat_alt unat_word_ariths)

lemma nonzero_count:
  assumes "length data < 2 ^ 64"
  shows "unat (foldl (\<lambda>n b. if b \<noteq> 0 then n + 1 else n) (0 :: u64) data) = length (filter (\<lambda>b. b \<noteq> 0) data)"
proof -
  have "foldl (\<lambda>n b. if b \<noteq> 0 then n + 1 else n) w data = w + of_nat (length (filter (\<lambda>b. b \<noteq> 0) data))" for w :: u64
    by (induction data arbitrary: w) (auto simp: algebra_simps)
  from this [of 0] assms show ?thesis
    by (simp add: unat_of_nat le_less_trans [OF length_filter_le])
qed

text \<open>The guard \<open>(max - gas) / price < n\<close> is exactly the overflow of \<open>gas + n * price\<close>.\<close>

lemma overflow_guard:
  fixes gas price n :: u64
  assumes "price \<noteq> 0"
  shows "(- 1 - gas) div price < n \<longleftrightarrow> 2 ^ 64 \<le> unat gas + unat n * unat price"
proof -
  define M :: nat where "M = 2 ^ 64"
  have "unat (- 1 :: u64) = M - 1" by (simp add: M_def unsigned_minus_1_eq_mask mask_eq_exp_minus_1)
  then have "unat (- 1 - gas) = M - 1 - unat gas" by (simp add: unat_sub)
  moreover have "0 < unat price" using assms by (simp add: unat_gt_0)
  moreover have "unat gas < M" using unsigned_less [of gas, where 'a = nat] by (simp add: M_def)
  ultimately have "(- 1 - gas) div price < n \<longleftrightarrow> M \<le> unat gas + unat n * unat price"
    by (simp add: word_less_nat_alt unat_div div_less_iff_less_mult) linarith
  then show ?thesis by (simp add: M_def)
qed

lemma gas_step: "unat gas + unat n * unat price < 2 ^ 64 \<Longrightarrow> unat (gas + n * price) = unat gas + unat n * unat price" for gas price n :: u64
proof -
  assume lt: "unat gas + unat n * unat price < 2 ^ 64"
  then have "unat (n * price) = unat n * unat price" by (simp add: unat_word_ariths)
  with lt show ?thesis by (simp add: unat_word_ariths)
qed

lemma IntrinsicGas_eq:
  assumes len: "length data < 2 ^ 64" and price: "TxDataNonZeroGas gs \<noteq> 0" "TxDataZeroGas gs \<noteq> 0"
  shows "IntrinsicGas gs data cc hs =
    (let nz = length (filter (\<lambda>b. b \<noteq> 0) data);
         total = unat (if cc \<and> hs then TxGasContractCreation gs else TxGas gs) + nz * unat (TxDataNonZeroGas gs) + (length data - nz) * unat (TxDataZeroGas gs)
     in if total < 2 ^ 64 then Inr (of_nat total) else Inl ErrOutOfGas)"
proof (cases "data = []")
  case False
  define gas where "gas = (if cc \<and> hs then TxGasContractCreation gs else TxGas gs)"
  define nz where "nz = foldl (\<lambda>n b. if b \<noteq> 0 then n + 1 else n) (0 :: u64) data"
  define z where "z = of_nat (length data) - nz"
  have nz: "unat nz = length (filter (\<lambda>b. b \<noteq> 0) data)" unfolding nz_def by (rule nonzero_count [OF len])
  have "unat z = length data - unat nz"
    using len nz by (simp add: z_def unat_sub_if' unat_of_nat)
  note gu = overflow_guard [OF price(1), of gas nz] overflow_guard [OF price(2), of "gas + nz * TxDataNonZeroGas gs" z]
  have "IntrinsicGas gs data cc hs = (if (- 1 - gas) div TxDataNonZeroGas gs < nz then Inl ErrOutOfGas
      else if (- 1 - (gas + nz * TxDataNonZeroGas gs)) div TxDataZeroGas gs < z then Inl ErrOutOfGas
      else Inr (gas + nz * TxDataNonZeroGas gs + z * TxDataZeroGas gs))"
    using False unfolding IntrinsicGas_def gas_def nz_def z_def Let_def by simp
  also have "\<dots> = (let total = unat gas + unat nz * unat (TxDataNonZeroGas gs) + unat z * unat (TxDataZeroGas gs)
     in if total < 2 ^ 64 then Inr (of_nat total) else Inl ErrOutOfGas)"
    using gu gas_step [of gas nz "TxDataNonZeroGas gs"] by (auto simp: Let_def not_less not_le)
  finally show ?thesis using nz \<open>unat z = length data - unat nz\<close> by (simp add: gas_def Let_def)
qed (use unsigned_less [of "TxGasContractCreation gs", where 'a = nat] unsigned_less [of "TxGas gs", where 'a = nat] in \<open>simp add: IntrinsicGas_def Let_def\<close>)

lemma Enqueue_from_spec:
  "Enqueue_from quit i events = (ts, q) \<Longrightarrow>
     (\<exists>rest. events = concat ts @ rest \<and> (rest = [] \<longleftrightarrow> \<not> q)) \<and> (\<forall>t \<in> set ts. t \<noteq> [] \<and> length t \<le> maxBatch)"
proof (induction quit i events arbitrary: ts q rule: Enqueue_from.induct)
  case (1 quit i events)
  show ?case
  proof (cases "events = [] \<or> quit i")
    case True
    then show ?thesis using 1(2) by (auto simp: Enqueue_from.simps [of quit i events] split: if_splits)
  next
    case False
    then obtain ts' where ts': "Enqueue_from quit (Suc i) (drop maxBatch events) = (ts', q)" "ts = take maxBatch events # ts'"
      using 1(2) by (auto simp: Enqueue_from.simps [of quit i events] split: prod.splits)
    from 1(1) [OF _ _ ts'(1)] False obtain rest where rest: "drop maxBatch events = concat ts' @ rest" "rest = [] \<longleftrightarrow> \<not> q"
      "\<forall>t \<in> set ts'. t \<noteq> [] \<and> length t \<le> maxBatch" by auto
    have "events = concat ts @ rest" using append_take_drop_id [of maxBatch events] rest(1) ts'(2) by (metis append.assoc concat.simps(2))
    then show ?thesis using rest ts'(2) False by (auto simp: maxBatch_def)
  qed
qed

subsection \<open>Properties\<close>



text \<open>
  \<open>IntrinsicGas\<close> is the base price plus the price of every byte, computed without overflow:
  it returns that number whenever it fits 64 bits and the out-of-gas error otherwise.
\<close>

theorem IntrinsicGas_exact:
  assumes "length data < 2 ^ 64" "TxDataNonZeroGas gs \<noteq> 0" "TxDataZeroGas gs \<noteq> 0"
  shows "IntrinsicGas gs data cc hs =
    (let nz = length (filter (\<lambda>b. b \<noteq> 0) data);
         total = unat (if cc \<and> hs then TxGasContractCreation gs else TxGas gs) + nz * unat (TxDataNonZeroGas gs) + (length data - nz) * unat (TxDataZeroGas gs)
     in if total < 2 ^ 64 then Inr (of_nat total) else Inl ErrOutOfGas)"
  using IntrinsicGas_eq [OF assms] .

text \<open>
  \<open>heavycheck.Enqueue\<close> hands the events over in order, in batches of one to \<open>maxBatch\<close>, and
  leaves some out only when it reports that the checker was stopped.
\<close>

theorem Enqueue_batches:
  assumes "Enqueue quit events = (tasks, terminated)"
  shows "(\<exists>rest. events = concat tasks @ rest \<and> (rest = [] \<longleftrightarrow> \<not> terminated)) \<and>
     (\<forall>t \<in> set tasks. t \<noteq> [] \<and> length t \<le> maxBatch)"
  using Enqueue_from_spec assms by (simp add: Enqueue_def)

subsection \<open>Concrete events\<close>

definition plain_tx :: "u64 tx_ops" where
  "plain_tx = \<lparr>txValue = \<lambda>_. 0, txGasPrice = \<lambda>_. 1000000000, txGas = \<lambda>g. g, txData = \<lambda>_. [], txCreates = \<lambda>_. False\<rparr>"

definition main_schedule :: gas_schedule where
  "main_schedule = \<lparr>TxGas = 21000, TxGasContractCreation = 53000, TxDataNonZeroGas = 16, TxDataZeroGas = 4\<rparr>"

definition small_config :: DagConfig where
  "small_config = \<lparr>MaxParents = 10, MaxFreeParents = 3, MaxEpochBlocks = 100, MaxValidatorEventsInBlock = 50\<rparr>"

definition full_event :: "EventSeq \<Rightarrow> hash_event list \<Rightarrow> Lamport \<Rightarrow> Timestamp \<Rightarrow> u64 \<Rightarrow> u64 list \<Rightarrow> u64 Event" where
  "full_event s ps l t used txs = EventHeaderData.extend
     (empty_header\<lparr>eEpoch := 1, eSeq := s, eFrame := 1, eCreator := 1, eParents := ps, eLamport := l, eClaimedTime := t, eGasPowerUsed := used\<rparr>)
     \<lparr>eSig = replicate 65 0, eTransactions = txs\<rparr>"

text \<open>
  The gas of an event's transactions is summed in 64 bits without a check: two transactions
  of \<open>2^63\<close> gas each, both accepted by \<open>validateTx\<close>, count as no gas at all, and the event passes
  the basic checks with the gas power of an empty event.
\<close>

theorem gas_power_used_wraps:
  "\<exists>e. Validate_basic main_schedule plain_tx small_config e = None \<and> eGasPowerUsed e = EventGas \<and>
     map (txGas plain_tx) (eTransactions e) = [2 ^ 63, 2 ^ 63]"
proof -
  let ?e = "full_event 1 [] 1 10 28000 [2 ^ 63, 2 ^ 63]"
  have "Validate_basic main_schedule plain_tx small_config ?e = None" by code_simp
  moreover have "eGasPowerUsed ?e = EventGas" by code_simp
  moreover have "map (txGas plain_tx) (eTransactions ?e) = [2 ^ 63, 2 ^ 63]"
    by (simp add: full_event_def plain_tx_def EventHeaderData.extend_def)
  ultimately show ?thesis by (intro exI [of _ ?e] conjI)
qed

definition first_event :: "u64 Event" where
  "first_event = full_event 1 [] 1 10 28000 []"

definition second_event :: "u64 Event" where
  "second_event = full_event 2 [[1]] 2 20 28000 []"

definition parent_header :: EventHeaderData where
  "parent_header = (EventHeaderData.truncate first_event)\<lparr>eHash := Some [1]\<rparr>"


definition flat_gas :: "nat \<Rightarrow> GasConfig" where
  "flat_gas i = \<lparr>gcIdx = i, AllocPerSec = 1000, MaxAllocPeriod = 60000000000, StartupAllocPeriod = 5000000000, MinStartupGas = 30000\<rparr>"

definition first_context :: ValidationContext where
  "first_context = \<lparr>vcEpoch = 1, vcConfigs = (flat_gas 0, flat_gas 1), vcValidators = solo_group,
     PrevEpochLastHeaders = Map.empty, PrevEpochEndTime = 0, PrevEpochRefunds = Map.empty\<rparr>"


theorem IntrinsicGas_exact_witness: "IntrinsicGas main_schedule [0, 1, 2] False True = Inr 21036"
  using IntrinsicGas_exact [of "[0, 1, 2]" main_schedule False True] by (simp add: main_schedule_def)

theorem Enqueue_batches_witness: "\<exists>rest. [1 .. 6 :: int] = concat [[1, 2, 3, 4], [5, 6]] @ rest \<and> rest = []"
proof -
  have "Enqueue (\<lambda>_. False) [1 .. 6 :: int] = ([[1, 2, 3, 4], [5, 6]], False)" by code_simp
  from Enqueue_batches [OF this] show ?thesis by blast
qed

end
