(* ===== verification/Poset.thy ===== *)
theory Poset
  imports Merged_Clock Roots_Store Consensus_Time Event_Checks
begin

text \<open>
  Package \<open>poset\<close>: the consensus engine (\<open>poset.go\<close>, \<open>frame_decide.go\<close>, \<open>event_ordering.go\<close>,
  \<open>traversal.go\<close>, \<open>checkpoint.go\<close>, \<open>epoch.go\<close>, \<open>apply_genesis.go\<close>) and its store (\<open>store*.go\<close>). An event
  goes through \<open>ProcessEvent\<close>: its consensus fields are checked against the vector index, it is
  indexed, a root is voted on in the election, and a decided frame becomes a block.

  The source of event headers (\<open>input\<close>), the hash functions and the choices of the LRU caches are
  arguments; the callbacks of the application are functions on an application state \<open>'a\<close>, which
  they receive and return. A call that stops the process (\<open>Log.Crit\<close>, a nil dereference) or does not
  return gives \<^const>\<open>None\<close>. Tables map the keys of the code to values; their RLP form is
  go-ethereum's. The queries of an election read through the caches of the index and of the
  roots; entries they would add are not kept, which changes no answer
  (\<^theory_text>\<open>Forkless_Cause\<close>, \<^theory_text>\<open>Roots_Store\<close>).
\<close>

subsection \<open>State\<close>

record Checkpoint =
  LastDecidedFrame :: Frame
  LastBlockN :: Block
  LastAtropos :: hash_event
  cpAppHash :: hash

record GenesisState =
  gsEpoch :: Epoch
  gsTime :: Timestamp
  gsLastAtropos :: hash_event
  gsAppHash :: hash

record EpochState =
  EpochN :: Epoch
  PrevEpoch :: GenesisState
  esValidators :: Validators

record BlockData =
  bIndex :: Block
  bTime :: Timestamp
  bTxHash :: hash
  bEvents :: "hash_event list"
  bSkippedTxs :: "nat list"
  bGasUsed :: u64
  bPrevHash :: hash_event
  bRoot :: hash
  bAtropos :: hash_event

definition NewBlock :: "Block \<Rightarrow> Timestamp \<Rightarrow> hash_event \<Rightarrow> hash_event \<Rightarrow> hash_event list \<Rightarrow> BlockData" where
  "NewBlock index time atropos prevHash events =
     \<lparr>bIndex = index, bTime = time, bTxHash = hash_Zero, bEvents = events, bSkippedTxs = [], bGasUsed = 0,
      bPrevHash = prevHash, bRoot = hash_Zero, bAtropos = atropos\<rparr>"

text \<open>The callbacks; a nil function is \<^const>\<open>None\<close>.\<close>

record 'a ConsensusCallbacks =
  ApplyBlock :: "('a \<Rightarrow> BlockData \<Rightarrow> Frame \<Rightarrow> StakerID list \<Rightarrow> (hash \<times> bool) \<times> 'a) option"
  SelectValidatorsGroup :: "('a \<Rightarrow> Epoch \<Rightarrow> Epoch \<Rightarrow> Validators \<times> 'a) option"
  OnEventConfirmed :: "('a \<Rightarrow> EventHeaderData \<Rightarrow> EventSeq \<Rightarrow> 'a) option"
  IsEventAllowedIntoBlock :: "('a \<Rightarrow> EventHeaderData \<Rightarrow> EventSeq \<Rightarrow> bool \<times> 'a) option"

record Store =
  tCheckpoint :: "bytes \<rightharpoonup> Checkpoint"
  tEpochs :: "bytes \<rightharpoonup> EpochState"
  tConfirmedEvent :: "bytes \<rightharpoonup> bytes"
  tFrameInfos :: "bytes \<rightharpoonup> frameInfoMarshaling"
  cGenesisHash :: "hash option"
  epochDb :: "Epoch option" \<comment> \<open>the epoch whose database is open\<close>
  tRoots :: "MemDb Flushable RootsStore" \<comment> \<open>table of roots of the open database, and its cache\<close>
  tVectorIndex :: Tables \<comment> \<open>vector tables of the open database\<close>
  closedDbs :: "Epoch \<rightharpoonup> MemDb Flushable \<times> Tables" \<comment> \<open>databases of epochs left on disk\<close>

record poset_env =
  lib :: hash_lib
  GenesisState_Hash :: "GenesisState \<Rightarrow> hash" \<comment> \<open>Keccak-256 of the RLP form\<close>
  hash_Of :: "hash \<Rightarrow> hash \<Rightarrow> hash" \<comment> \<open>Keccak-256 of two hashes\<close>
  evictFC :: "(hash_event \<times> hash_event \<rightharpoonup> bool) \<Rightarrow> hash_event \<times> hash_event \<rightharpoonup> bool"
  evictRoots :: "roots_cache \<Rightarrow> roots_cache"

type_synonym EventSource = "Epoch \<Rightarrow> hash_event \<Rightarrow> EventHeaderData option"

record 'a Poset =
  store :: Store
  checkpoint :: Checkpoint
  epochState :: EpochState
  election :: Election
  vecClock :: Index
  callback :: "'a ConsensusCallbacks"
  app :: 'a

abbreviation p_EpochN :: "'a Poset \<Rightarrow> Epoch" where "p_EpochN p \<equiv> EpochN (epochState p)"
abbreviation p_PrevEpoch :: "'a Poset \<Rightarrow> GenesisState" where "p_PrevEpoch p \<equiv> PrevEpoch (epochState p)"
abbreviation p_Validators :: "'a Poset \<Rightarrow> Validators" where "p_Validators p \<equiv> esValidators (epochState p)"

datatype poset_err = EpochCheck check_err | ErrWrongEpochHash | ErrNonZeroEpochHash | ErrCheatersObserved
  | ErrWrongFrame | ErrWrongIsRoot | ErrWrongMedianTime

subsection \<open>Store\<close>

definition key_c :: bytes where "key_c = [0x63]"
definition key_g :: bytes where "key_g = [0x67]"

definition SetCheckpoint :: "Store \<Rightarrow> Checkpoint \<Rightarrow> Store" where
  "SetCheckpoint s cp = s\<lparr>tCheckpoint := (tCheckpoint s)(key_c \<mapsto> cp)\<rparr>"

definition GetCheckpoint :: "Store \<Rightarrow> Checkpoint option" where
  "GetCheckpoint s = tCheckpoint s key_c"

definition setEpoch :: "Store \<Rightarrow> bytes \<Rightarrow> EpochState \<Rightarrow> Store" where
  "setEpoch s key e = s\<lparr>tEpochs := (tEpochs s)(key \<mapsto> e)\<rparr>"

definition getEpoch :: "Store \<Rightarrow> bytes \<Rightarrow> EpochState option" where
  "getEpoch s key = tEpochs s key"

definition SetGenesis :: "Store \<Rightarrow> EpochState \<Rightarrow> Store" where
  "SetGenesis s e = setEpoch (s\<lparr>cGenesisHash := None\<rparr>) key_g e"

definition GetGenesis :: "Store \<Rightarrow> EpochState option" where
  "GetGenesis s = getEpoch s key_g"

definition GetGenesisHash :: "poset_env \<Rightarrow> Store \<Rightarrow> (hash \<times> Store) option" where
  "GetGenesisHash env s = (case cGenesisHash s of
     Some h \<Rightarrow> Some (h, s)
   | None \<Rightarrow> do {
       epoch \<leftarrow> GetGenesis s;
       let h = GenesisState_Hash env (PrevEpoch epoch);
       Some (h, s\<lparr>cGenesisHash := Some h\<rparr>) })"

definition SetEpoch :: "Store \<Rightarrow> EpochState \<Rightarrow> Store" where
  "SetEpoch s e = setEpoch s key_c e"

definition GetEpoch :: "Store \<Rightarrow> EpochState option" where
  "GetEpoch s = getEpoch s key_c"

definition SetEventConfirmedOn :: "Store \<Rightarrow> hash_event \<Rightarrow> Frame \<Rightarrow> Store" where
  "SetEventConfirmedOn s e on = s\<lparr>tConfirmedEvent := (tConfirmedEvent s)(e \<mapsto> Idx_Bytes on)\<rparr>"

definition GetEventConfirmedOn :: "Store \<Rightarrow> hash_event \<Rightarrow> Frame option" where
  "GetEventConfirmedOn s e = (case tConfirmedEvent s e of None \<Rightarrow> Some 0 | Some frame \<Rightarrow> BytesToIdx frame)"

definition SetFrameInfo :: "Store \<Rightarrow> Epoch \<Rightarrow> Frame \<Rightarrow> FrameInfo \<Rightarrow> Store" where
  "SetFrameInfo s e f info = s\<lparr>tFrameInfos := (tFrameInfos s)(Idx_Bytes e @ Idx_Bytes f \<mapsto> EncodeRLP_FrameInfo info)\<rparr>"

definition GetFrameInfo :: "Store \<Rightarrow> Epoch \<Rightarrow> Frame \<Rightarrow> FrameInfo option" where
  "GetFrameInfo s e f = map_option DecodeRLP_FrameInfo (tFrameInfos s (Idx_Bytes e @ Idx_Bytes f))"

text \<open>The roots of the open epoch; with no database open the tables are nil.\<close>

definition Store_AddRoot :: "poset_env \<Rightarrow> Store \<Rightarrow> EventHeaderData \<Rightarrow> Store option" where
  "Store_AddRoot env s root = (if epochDb s = None then None else do {
     h \<leftarrow> Hash (lib env) root;
     t \<leftarrow> AddRoot epoch_roots_ops (evictRoots env) (tRoots s) \<lparr>rID = h, rSlot = \<lparr>sFrame = eFrame root, sValidator = eCreator root\<rparr>\<rparr>;
     Some (s\<lparr>tRoots := t\<rparr>) })"

definition Store_GetFrameRoots :: "poset_env \<Rightarrow> Store \<Rightarrow> Frame \<Rightarrow> (RootAndSlot list \<times> Store) option" where
  "Store_GetFrameRoots env s f = (if epochDb s = None then None else do {
     (rr, t) \<leftarrow> GetFrameRoots epoch_roots_ops (evictRoots env) (tRoots s) f;
     Some (rr, s\<lparr>tRoots := t\<rparr>) })"

text \<open>\<open>RecreateEpochDb\<close>: the open database, or that of the epoch before, is dropped.\<close>

definition RecreateEpochDb :: "Store \<Rightarrow> Epoch \<Rightarrow> Store" where
  "RecreateEpochDb s n =
     (let prev = (case epochDb s of Some e \<Rightarrow> e | None \<Rightarrow> n - 1);
          dbs = (closedDbs s)(prev := None);
          (roots, vectors) = (case dbs n of Some db \<Rightarrow> db | None \<Rightarrow> (Wrap mem_New, empty_tables))
      in s\<lparr>epochDb := Some n, tRoots := \<lparr>Roots = roots, FrameRoots = map_option (\<lambda>_. Map.empty) (FrameRoots (tRoots s))\<rparr>,
           tVectorIndex := vectors, closedDbs := dbs(n := None)\<rparr>)"

text \<open>\<open>initCache\<close> of a store that is opened; the cache may be switched off.\<close>

definition initCache :: "bool \<Rightarrow> Store \<Rightarrow> Store" where
  "initCache cached s = s\<lparr>tRoots := (tRoots s)\<lparr>FrameRoots := (if cached then Some Map.empty else None)\<rparr>\<rparr>"

definition NewMemStore :: Store where
  "NewMemStore = initCache True \<lparr>tCheckpoint = Map.empty, tEpochs = Map.empty, tConfirmedEvent = Map.empty, tFrameInfos = Map.empty,
     cGenesisHash = None, epochDb = None, tRoots = \<lparr>Roots = Wrap mem_New, FrameRoots = None\<rparr>, tVectorIndex = empty_tables, closedDbs = Map.empty\<rparr>"

text \<open>\<open>Close\<close>: the open database is left on disk, the caches are gone.\<close>

definition Store_Close :: "Store \<Rightarrow> Store" where
  "Store_Close s = s\<lparr>cGenesisHash := None, epochDb := None, tRoots := (tRoots s)\<lparr>FrameRoots := None\<rparr>,
     closedDbs := (case epochDb s of None \<Rightarrow> closedDbs s | Some e \<Rightarrow> (closedDbs s)(e \<mapsto> (Roots (tRoots s), tVectorIndex s)))\<rparr>"

subsection \<open>Genesis\<close>

record 'addr Genesis =
  gTime :: Timestamp
  gValidators :: "'addr GenesisValidator list"

datatype genesis_err = NilGenesis | EmptyGenesisValidators | GenesisMismatchError (gme_Stored: hash) (gme_New: hash)

definition firstFrame :: Frame where "firstFrame = 1"
definition firstEpoch :: Epoch where "firstEpoch = 1"

definition genesisStates :: "int \<Rightarrow> 'addr Genesis \<Rightarrow> hash_event \<Rightarrow> hash \<Rightarrow> EpochState \<times> Checkpoint" where
  "genesisStates ratio g genesisAtropos appHash =
     (let prev = \<lparr>gsEpoch = firstEpoch - 1, gsTime = gTime g, gsLastAtropos = genesisAtropos, gsAppHash = appHash\<rparr>
      in (\<lparr>EpochN = firstEpoch, PrevEpoch = prev, esValidators = Validators_Copy (GValidators_Validators ratio (gValidators g))\<rparr>,
          \<lparr>LastDecidedFrame = 0, LastBlockN = 0, LastAtropos = genesisAtropos, cpAppHash = appHash\<rparr>))"

text \<open>\<open>calcGenesisHash\<close> applies the genesis to a blank store and hashes what it finds there.\<close>

definition calcGenesisHash :: "poset_env \<Rightarrow> int \<Rightarrow> 'addr Genesis \<Rightarrow> hash_event \<Rightarrow> hash \<Rightarrow> hash" where
  "calcGenesisHash env ratio g genesisAtropos appHash =
     GenesisState_Hash env (PrevEpoch (fst (genesisStates ratio g genesisAtropos appHash)))"

text \<open>\<open>ratio\<close> is the constant \<open>1e18\<close> that divides balances. The mismatch error is built as in the code.\<close>

definition ApplyGenesis :: "poset_env \<Rightarrow> int \<Rightarrow> Store \<Rightarrow> 'addr Genesis option \<Rightarrow> hash_event \<Rightarrow> hash \<Rightarrow> genesis_err option \<times> Store" where
  "ApplyGenesis env ratio s g genesisAtropos appHash = (case g of
     None \<Rightarrow> (Some NilGenesis, s)
   | Some g \<Rightarrow>
       if gValidators g = [] then (Some EmptyGenesisValidators, s)
       else (case GetGenesis s of
         Some stored \<Rightarrow>
           (let storedHash = GenesisState_Hash env (PrevEpoch stored);
                newHash = calcGenesisHash env ratio g genesisAtropos appHash
            in (if storedHash \<noteq> newHash then Some (GenesisMismatchError newHash storedHash) else None, s))
       | None \<Rightarrow>
           (case genesisStates ratio g genesisAtropos appHash of (e, cp) \<Rightarrow>
             (None, SetCheckpoint (SetEpoch (SetGenesis s e) e) cp))))"

subsection \<open>Frame of an event\<close>

definition p_ForklessCause :: "poset_env \<Rightarrow> 'a Poset \<Rightarrow> hash_event \<Rightarrow> hash_event \<Rightarrow> (bool \<times> 'a Poset) option" where
  "p_ForklessCause env p a b = do {
     (r, vi) \<leftarrow> ForklessCause (evictFC env) (vecClock p) a b;
     Some (r, p\<lparr>vecClock := vi\<rparr>) }"

definition p_GetFrameRoots :: "poset_env \<Rightarrow> 'a Poset \<Rightarrow> Frame \<Rightarrow> (RootAndSlot list \<times> 'a Poset) option" where
  "p_GetFrameRoots env p f = do {
     (rr, s) \<leftarrow> Store_GetFrameRoots env (store p) f;
     Some (rr, p\<lparr>store := s\<rparr>) }"

fun countObserved :: "poset_env \<Rightarrow> hash_event \<Rightarrow> 'a Poset \<Rightarrow> StakeCounter \<Rightarrow> RootAndSlot list \<Rightarrow> (StakeCounter \<times> 'a Poset) option" where
  "countObserved env h p c [] = Some (c, p)"
| "countObserved env h p c (it # rest) = do {
     (observed, p) \<leftarrow> p_ForklessCause env p h (rID it);
     c \<leftarrow> (if observed then map_option snd (Count c (sValidator (rSlot it))) else Some c);
     if HasQuorum c then Some (c, p) else countObserved env h p c rest }"

definition forklessCausedByQuorumOn :: "poset_env \<Rightarrow> 'a Poset \<Rightarrow> EventHeaderData \<Rightarrow> Frame \<Rightarrow> (bool \<times> 'a Poset) option" where
  "forklessCausedByQuorumOn env p e f = do {
     h \<leftarrow> Hash (lib env) e;
     (rr, p) \<leftarrow> p_GetFrameRoots env p f;
     (c, p) \<leftarrow> countObserved env h p (NewCounter (p_Validators p)) rr;
     Some (HasQuorum c, p) }"

text \<open>The loop over the parents: the highest frame and the frame of the self-parent.\<close>

definition parentFrames :: "EventSource \<Rightarrow> Epoch \<Rightarrow> EventHeaderData \<Rightarrow> Frame \<times> Frame \<Rightarrow> hash_event \<Rightarrow> (Frame \<times> Frame) option" where
  "parentFrames input epoch e fs parent = (case fs of (maxParentsFrame, selfParentFrame) \<Rightarrow> do {
     header \<leftarrow> input epoch parent;
     let pFrame = eFrame header;
     Some (if maxParentsFrame = 0 \<or> pFrame > maxParentsFrame then pFrame else maxParentsFrame,
           if IsSelfParent e parent then pFrame else selfParentFrame) })"

definition calcFrameIdx :: "poset_env \<Rightarrow> EventSource \<Rightarrow> 'a Poset \<Rightarrow> EventHeaderData \<Rightarrow> bool \<Rightarrow> ((Frame \<times> bool) \<times> 'a Poset) option" where
  "calcFrameIdx env input p e checkOnly =
     (if length (eParents e) = 0 then Some ((1, True), p)
      else do {
        (_, selfParentFrame) \<leftarrow> foldM (parentFrames input (p_EpochN p) e) (0, 0) (eParents e);
        if checkOnly then
          (if \<not> eIsRoot e then Some ((selfParentFrame, False), p)
           else if eFrame e = selfParentFrame + 1 then
             (if eFrame e \<le> 1 then Some ((selfParentFrame + 1, True), p)
              else do {
                (isRoot, p) \<leftarrow> forklessCausedByQuorumOn env p e (eFrame e - 1);
                Some ((selfParentFrame + 1, isRoot), p) })
           else Some ((selfParentFrame + 1, False), p))
        else if SelfParent e = None then Some ((1, True), p)
        else do {
          (byQuorum, p) \<leftarrow> forklessCausedByQuorumOn env p e selfParentFrame;
          Some (if byQuorum then (selfParentFrame + 1, True) else (selfParentFrame, False), p) } })"

definition dropNotFlushed :: "'a Poset \<Rightarrow> 'a Poset" where
  "dropNotFlushed p = p\<lparr>vecClock := DropNotFlushed (vecClock p)\<rparr>"

definition Prepare :: "poset_env \<Rightarrow> EventSource \<Rightarrow> 'a Poset \<Rightarrow> EventHeaderData \<Rightarrow> (EventHeaderData option \<times> 'a Poset) option" where
  "Prepare env input p e =
     (if Validate_epoch (p_Validators p) (p_EpochN p) e \<noteq> None then Some (None, p)
      else do {
        id \<leftarrow> Hash (lib env) e;
        vi \<leftarrow> Add (lib env) (input (p_EpochN p)) (vecClock p) e;
        let p = p\<lparr>vecClock := vi\<rparr>;
        ((frame, isRoot), p) \<leftarrow> calcFrameIdx env input p e False;
        medianTime \<leftarrow> MedianTime (vecClock p) id (gsTime (p_PrevEpoch p));
        let e = e\<lparr>eFrame := frame, eIsRoot := isRoot, eMedianTime := medianTime,
            ePrevEpochHash := (if eSeq e \<le> 1 then GenesisState_Hash env (p_PrevEpoch p) else hash_Zero)\<rparr>;
        Some (Some e, dropNotFlushed p) })"

text \<open>The index writes its pairs to the vector tables of the store.\<close>

definition p_Flush :: "'a Poset \<Rightarrow> 'a Poset" where
  "p_Flush p = (let vi = Flush (vecClock p) in p\<lparr>vecClock := vi, store := (store p)\<lparr>tVectorIndex := vi_flushed vi\<rparr>\<rparr>)"

definition checkAndSaveEvent :: "poset_env \<Rightarrow> EventSource \<Rightarrow> 'a Poset \<Rightarrow> EventHeaderData \<Rightarrow> (poset_err option \<times> 'a Poset) option" where
  "checkAndSaveEvent env input p e =
     (if eSeq e \<le> 1 \<and> ePrevEpochHash e \<noteq> GenesisState_Hash env (p_PrevEpoch p) then Some (Some ErrWrongEpochHash, p)
      else if eSeq e > 1 \<and> ePrevEpochHash e \<noteq> hash_Zero then Some (Some ErrNonZeroEpochHash, p)
      else do {
        allowed \<leftarrow> NoCheaters (input (p_EpochN p)) (vecClock p) (SelfParent e) (eParents e);
        if length allowed \<noteq> length (eParents e) then Some (Some ErrCheatersObserved, p)
        else do {
          vi \<leftarrow> Add (lib env) (input (p_EpochN p)) (vecClock p) e;
          let p = p\<lparr>vecClock := vi\<rparr>;
          ((frameIdx, isRoot), p) \<leftarrow> calcFrameIdx env input p e True;
          if eIsRoot e \<noteq> isRoot then Some (Some ErrWrongIsRoot, dropNotFlushed p)
          else if eFrame e \<noteq> frameIdx then Some (Some ErrWrongFrame, dropNotFlushed p)
          else do {
            h \<leftarrow> Hash (lib env) e;
            medianTime \<leftarrow> MedianTime (vecClock p) h (gsTime (p_PrevEpoch p));
            if eMedianTime e \<noteq> medianTime then Some (Some ErrWrongMedianTime, dropNotFlushed p)
            else do {
              let p = p_Flush p;
              s \<leftarrow> (if eIsRoot e then Store_AddRoot env (store p) e else Some (store p));
              Some (None, dropNotFlushed (p\<lparr>store := s\<rparr>)) } } } })"

subsection \<open>Confirming the events below an Atropos\<close>

text \<open>\<open>dfsSubgraph\<close>: the stack pops from its end; the filter passes a state along.\<close>

partial_function (option) walkSubgraph ::
    "(hash_event \<Rightarrow> EventHeaderData option) \<Rightarrow> ('s \<Rightarrow> EventHeaderData \<Rightarrow> (bool \<times> 's) option) \<Rightarrow> 's \<Rightarrow> hash_event list \<Rightarrow> 's option" where
  [code]: "walkSubgraph getHeader accept s stack =
     (if stack = [] then Some s
      else (case getHeader (last stack) of
        None \<Rightarrow> None
      | Some event \<Rightarrow> (case accept s event of
          None \<Rightarrow> None
        | Some (deeper, s') \<Rightarrow>
            walkSubgraph getHeader accept s' (if deeper then butlast stack @ eParents event else butlast stack))))"

definition confirmFilter :: "poset_env \<Rightarrow> Frame \<Rightarrow> ('s \<Rightarrow> hash_event \<Rightarrow> EventHeaderData \<Rightarrow> 's option) \<Rightarrow>
    Store \<times> 's \<Rightarrow> EventHeaderData \<Rightarrow> (bool \<times> Store \<times> 's) option" where
  "confirmFilter env frame onEventConfirmed st header = (case st of (s, x) \<Rightarrow> do {
     h \<leftarrow> Hash (lib env) header;
     decidedFrame \<leftarrow> GetEventConfirmedOn s h;
     if decidedFrame \<noteq> 0 then Some (False, s, x)
     else do {
       let s = SetEventConfirmedOn s h frame;
       x \<leftarrow> onEventConfirmed x h header;
       Some (True, s, x) } })"

definition confirmEvents :: "poset_env \<Rightarrow> (hash_event \<Rightarrow> EventHeaderData option) \<Rightarrow> Frame \<Rightarrow> hash_event \<Rightarrow>
    ('s \<Rightarrow> hash_event \<Rightarrow> EventHeaderData \<Rightarrow> 's option) \<Rightarrow> Store \<Rightarrow> 's \<Rightarrow> (Store \<times> 's) option" where
  "confirmEvents env getHeader frame atropos onEventConfirmed s x =
     walkSubgraph getHeader (confirmFilter env frame onEventConfirmed) (s, x) [atropos]"

subsection \<open>Blocks\<close>

definition MaxInt32 :: EventSeq where "MaxInt32 = 0x7FFFFFFF"

text \<open>What \<open>confirmBlock\<close> accumulates over the confirmed events.\<close>

record 'a blockAcc =
  blockEvents :: "(hash_event \<times> EventHeaderData) list"
  highestLamport :: Lamport
  lowestLamport :: Lamport
  confirmedNum :: nat
  accApp :: 'a

definition seqDepth :: "BranchSeq \<Rightarrow> EventHeaderData \<Rightarrow> EventSeq" where
  "seqDepth creatorHighest e = (if Seq creatorHighest < eSeq e then MaxInt32 else Seq creatorHighest - eSeq e)"

text \<open>The callback of \<open>confirmBlock\<close>, given the creator's cell of the Atropos' merged vector.\<close>

definition onConfirmed :: "'a ConsensusCallbacks \<Rightarrow> BranchSeq \<Rightarrow> 'a blockAcc \<Rightarrow> hash_event \<Rightarrow> EventHeaderData \<Rightarrow> 'a blockAcc option" where
  "onConfirmed cb creatorHighest acc h e =
     (let acc = acc\<lparr>confirmedNum := confirmedNum acc + 1,
          highestLamport := (if highestLamport acc = 0 \<or> highestLamport acc < eLamport e then eLamport e else highestLamport acc),
          lowestLamport := (if lowestLamport acc = 0 \<or> lowestLamport acc > eLamport e then eLamport e else lowestLamport acc)\<rparr>;
        fromCheater = IsForkDetected creatorHighest;
        depth = seqDepth creatorHighest e;
        (allowed, a) = (case IsEventAllowedIntoBlock cb of None \<Rightarrow> (True, accApp acc) | Some f \<Rightarrow> f (accApp acc) e depth);
        acc = acc\<lparr>accApp := a, blockEvents := (if \<not> fromCheater \<and> allowed then blockEvents acc @ [(h, e)] else blockEvents acc)\<rparr>
      in if \<not> fromCheater \<and> eSeq e > Seq creatorHighest then None
         else Some (case OnEventConfirmed cb of None \<Rightarrow> acc | Some f \<Rightarrow> acc\<lparr>accApp := f (accApp acc) e depth\<rparr>))"

definition frameConsensusTime :: "'a Poset \<Rightarrow> Frame \<Rightarrow> Timestamp option" where
  "frameConsensusTime p frame =
     (if frame = 0 then Some (gsTime (p_PrevEpoch p))
      else map_option LastConsensusTime (GetFrameInfo (store p) (p_EpochN p) frame))"

definition p_fareTimestamps :: "EventSource \<Rightarrow> 'a Poset \<Rightarrow> Frame \<Rightarrow> hash_event \<Rightarrow> Lamport \<Rightarrow> Lamport \<Rightarrow> FrameInfo option" where
  "p_fareTimestamps input p frame atropos hi lo = do {
     lastConsensusTime \<leftarrow> frameConsensusTime p (frame - 1);
     header \<leftarrow> input (p_EpochN p) atropos;
     Some (fareTimestamps lastConsensusTime (eMedianTime header) hi lo) }"

definition confirmBlock :: "poset_env \<Rightarrow> EventSource \<Rightarrow> 'a Poset \<Rightarrow> Frame \<Rightarrow> hash_event \<Rightarrow> ((BlockData \<times> StakerID list) \<times> 'a Poset) option" where
  "confirmBlock env input p frame atropos = do {
     let atroposHighestBefore = (case fst (getHighestBeforeMerged (vecClock p) atropos) of Some v \<Rightarrow> v | None \<Rightarrow> []);
     let cheaters = map snd (filter (\<lambda>(creatorIdx, creator). IsForkDetected (HighestBeforeSeq_Get atroposHighestBefore creatorIdx))
           (enumerate 0 (SortedIDs (p_Validators p))));
     (s, acc) \<leftarrow> confirmEvents env (input (p_EpochN p)) frame atropos
       (\<lambda>acc h e. onConfirmed (callback p) (HighestBeforeSeq_Get atroposHighestBefore (GetIdx (p_Validators p) (eCreator e))) acc h e)
       (store p) \<lparr>blockEvents = [], highestLamport = 0, lowestLamport = 0, confirmedNum = 0, accApp = app p\<rparr>;
     let p = p\<lparr>store := s, app := accApp acc\<rparr>;
     let orderedBlockEvents = fareOrdering (blockEvents acc);
     frameInfo \<leftarrow> p_fareTimestamps input p frame atropos (highestLamport acc) (lowestLamport acc);
     let p = p\<lparr>store := SetFrameInfo (store p) (p_EpochN p) frame frameInfo\<rparr>;
     Some ((NewBlock (LastBlockN (checkpoint p) + 1) (LastConsensusTime frameInfo) atropos (LastAtropos (checkpoint p)) orderedBlockEvents,
            cheaters), p) }"

definition saveCheckpoint :: "'a Poset \<Rightarrow> 'a Poset" where
  "saveCheckpoint p = p\<lparr>store := SetCheckpoint (store p) (checkpoint p)\<rparr>"

definition sealEpoch :: "'a Poset \<Rightarrow> 'a Poset option" where
  "sealEpoch p = do {
     time \<leftarrow> frameConsensusTime p (LastDecidedFrame (checkpoint p));
     let prev = \<lparr>gsEpoch = p_EpochN p, gsTime = time, gsLastAtropos = LastAtropos (checkpoint p), gsAppHash = cpAppHash (checkpoint p)\<rparr>;
     let (nextValidators, a) = (case SelectValidatorsGroup (callback p) of
           None \<Rightarrow> (p_Validators p, app p) | Some f \<Rightarrow> f (app p) (p_EpochN p) (p_EpochN p + 1));
     let p = p\<lparr>app := a, epochState := \<lparr>EpochN = p_EpochN p + 1, PrevEpoch = prev, esValidators = nextValidators\<rparr>,
           checkpoint := (checkpoint p)\<lparr>LastDecidedFrame := 0\<rparr>\<rparr>;
     let p = p\<lparr>store := SetEpoch (store p) (epochState p)\<rparr>;
     let p = saveCheckpoint p;
     let p = p\<lparr>store := RecreateEpochDb (store p) (p_EpochN p)\<rparr>;
     Some (p\<lparr>vecClock := Reset (vecClock p) (p_Validators p) (tVectorIndex (store p)), election := Election_Reset (p_Validators p) firstFrame\<rparr>) }"

definition onFrameDecided :: "poset_env \<Rightarrow> EventSource \<Rightarrow> 'a Poset \<Rightarrow> Frame \<Rightarrow> hash_event \<Rightarrow> (bool \<times> 'a Poset) option" where
  "onFrameDecided env input p frame atropos = do {
     let p = p\<lparr>election := Election_Reset (p_Validators p) (frame + 1), checkpoint := (checkpoint p)\<lparr>LastDecidedFrame := frame\<rparr>\<rparr>;
     ((block, cheaters), p) \<leftarrow> confirmBlock env input p frame atropos;
     let cp = checkpoint p;
     let cp = cp\<lparr>LastBlockN := LastBlockN cp + 1\<rparr>;
     let ((cp, seal), a) = (case ApplyBlock (callback p) of
           None \<Rightarrow> ((cp, False), app p)
         | Some f \<Rightarrow> (case f (app p) block frame cheaters of ((appHash, seal), a) \<Rightarrow>
             ((cp\<lparr>cpAppHash := hash_Of env (cpAppHash cp) appHash\<rparr>, seal), a)));
     let p = saveCheckpoint (p\<lparr>app := a, checkpoint := cp\<lparr>LastAtropos := atropos\<rparr>\<rparr>);
     p \<leftarrow> (if seal then sealEpoch p else Some p);
     Some (seal, p) }"

subsection \<open>Elections\<close>

definition observeFn :: "poset_env \<Rightarrow> 'a Poset \<Rightarrow> ForklessCauseFn" where
  "observeFn env p a b = map_option fst (ForklessCause (evictFC env) (vecClock p) a b)"

definition frameRootsFn :: "poset_env \<Rightarrow> 'a Poset \<Rightarrow> GetFrameRootsFn" where
  "frameRootsFn env p f = map_option fst (Store_GetFrameRoots env (store p) f)"

definition processRoot :: "poset_env \<Rightarrow> 'a Poset \<Rightarrow> RootAndSlot \<Rightarrow> (Res option \<times> 'a Poset) option" where
  "processRoot env p r = (case ProcessRoot (observeFn env p) (frameRootsFn env p) (election p) r of
     Some (Inr (res, el)) \<Rightarrow> Some (res, p\<lparr>election := el\<rparr>)
   | _ \<Rightarrow> None)"

fun processRoots :: "poset_env \<Rightarrow> 'a Poset \<Rightarrow> RootAndSlot list \<Rightarrow> (Res option \<times> 'a Poset) option" where
  "processRoots env p [] = Some (None, p)"
| "processRoots env p (it # rest) = do {
     (res, p) \<leftarrow> processRoot env p it;
     if res \<noteq> None then Some (res, p) else processRoots env p rest }"

partial_function (option) knownRootsFrom :: "poset_env \<Rightarrow> 'a Poset \<Rightarrow> Frame \<Rightarrow> (Res option \<times> 'a Poset) option" where
  [code]: "knownRootsFrom env p f = do {
     (frameRoots, p) \<leftarrow> p_GetFrameRoots env p f;
     (res, p) \<leftarrow> processRoots env p frameRoots;
     if res \<noteq> None \<or> frameRoots = [] then Some (res, p) else knownRootsFrom env p (f + 1) }"

definition processKnownRoots :: "poset_env \<Rightarrow> 'a Poset \<Rightarrow> (Res option \<times> 'a Poset) option" where
  "processKnownRoots env p = knownRootsFrom env p (LastDecidedFrame (checkpoint p) + 1)"

partial_function (option) electionLoop :: "poset_env \<Rightarrow> EventSource \<Rightarrow> 'a Poset \<Rightarrow> 'a Poset option" where
  [code]: "electionLoop env input p = do {
     (res, p) \<leftarrow> processKnownRoots env p;
     (case res of
       None \<Rightarrow> Some p
     | Some r \<Rightarrow> do {
         (sealed, p) \<leftarrow> onFrameDecided env input p (res_Frame r) (res_Atropos r);
         if sealed then Some p else electionLoop env input p }) }"

definition handleElection :: "poset_env \<Rightarrow> EventSource \<Rightarrow> 'a Poset \<Rightarrow> EventHeaderData option \<Rightarrow> 'a Poset option" where
  "handleElection env input p root = (case root of
     None \<Rightarrow> electionLoop env input p
   | Some e \<Rightarrow>
       if \<not> eIsRoot e then Some p
       else do {
         h \<leftarrow> Hash (lib env) e;
         (res, p) \<leftarrow> processRoot env p \<lparr>rID = h, rSlot = \<lparr>sFrame = eFrame e, sValidator = eCreator e\<rparr>\<rparr>;
         (case res of
           None \<Rightarrow> Some p
         | Some r \<Rightarrow> do {
             (sealed, p) \<leftarrow> onFrameDecided env input p (res_Frame r) (res_Atropos r);
             if sealed then Some p else electionLoop env input p }) })"

definition ProcessEvent :: "poset_env \<Rightarrow> EventSource \<Rightarrow> 'a Poset \<Rightarrow> EventHeaderData \<Rightarrow> (poset_err option \<times> 'a Poset) option" where
  "ProcessEvent env input p e = (case Validate_epoch (p_Validators p) (p_EpochN p) e of
     Some err \<Rightarrow> Some (Some (EpochCheck err), p)
   | None \<Rightarrow> do {
       (err, p) \<leftarrow> checkAndSaveEvent env input p e;
       if err \<noteq> None then Some (err, p)
       else do { p \<leftarrow> handleElection env input p (Some e); Some (None, p) } })"

definition GetConsensusTime :: "'a Poset \<Rightarrow> hash_event \<Rightarrow> Timestamp option option" where
  "GetConsensusTime p h = do {
     f \<leftarrow> GetEventConfirmedOn (store p) h;
     if f = 0 then Some None
     else do {
       epoch \<leftarrow> Event_Epoch h;
       finfo \<leftarrow> GetFrameInfo (store p) epoch f;
       lamport \<leftarrow> Event_Lamport h;
       Some (Some (CalcConsensusTime finfo lamport)) } }"

text \<open>\<open>Bootstrap\<close> on an instance that has not been started (\<^const>\<open>None\<close>) or has.\<close>

definition Bootstrap :: "poset_env \<Rightarrow> EventSource \<Rightarrow> 'a ConsensusCallbacks \<Rightarrow> 'a \<Rightarrow> Store \<Rightarrow> 'a Poset option \<Rightarrow> 'a Poset option" where
  "Bootstrap env input cb a s started = (case started of
     Some p \<Rightarrow> Some p
   | None \<Rightarrow> do {
       cp \<leftarrow> GetCheckpoint s;
       es \<leftarrow> GetEpoch s;
       let s = RecreateEpochDb s (EpochN es);
       let p = \<lparr>store = s, checkpoint = cp, epochState = es, election = Election_New (esValidators es) (LastDecidedFrame cp + 1),
             vecClock = NewIndex (esValidators es) (tVectorIndex s), callback = cb, app = a\<rparr>;
       electionLoop env input p })"

end
