(* ===== verification/Confirm.thy ===== *)
theory Confirm
  imports Poset
begin

text \<open>
  What \<open>confirmEvents\<close> does to the graph below an Atropos: it confirms exactly the events that no
  earlier Atropos has confirmed, each once, in an order that depends only on the graph.
\<close>

subsection \<open>The table of confirmed events\<close>

definition confirmed :: "Store \<Rightarrow> hash_event \<Rightarrow> bool" where
  "confirmed s h \<longleftrightarrow> GetEventConfirmedOn s h \<noteq> Some 0"

definition confirm_all :: "Store \<Rightarrow> Frame \<Rightarrow> hash_event list \<Rightarrow> Store" where
  "confirm_all s frame hs = foldl (\<lambda>s h. SetEventConfirmedOn s h frame) s hs"

text \<open>Every entry is a frame's four bytes.\<close>

definition confirmed_readable :: "Store \<Rightarrow> bool" where
  "confirmed_readable s \<longleftrightarrow> (\<forall>h. GetEventConfirmedOn s h \<noteq> None)"

lemma GetEventConfirmedOn_Set: "GetEventConfirmedOn (SetEventConfirmedOn s h f) x = (if x = h then Some f else GetEventConfirmedOn s x)"
  by (simp add: GetEventConfirmedOn_def SetEventConfirmedOn_def)

lemma GetEventConfirmedOn_all: "GetEventConfirmedOn (confirm_all s f hs) x = (if x \<in> set hs then Some f else GetEventConfirmedOn s x)"
  unfolding confirm_all_def by (induction hs arbitrary: s) (auto simp: GetEventConfirmedOn_Set)

lemma confirm_all_fields [simp]:
  "tCheckpoint (confirm_all s f hs) = tCheckpoint s" "tEpochs (confirm_all s f hs) = tEpochs s" "tFrameInfos (confirm_all s f hs) = tFrameInfos s"
  "cGenesisHash (confirm_all s f hs) = cGenesisHash s" "epochDb (confirm_all s f hs) = epochDb s" "tRoots (confirm_all s f hs) = tRoots s"
  "tVectorIndex (confirm_all s f hs) = tVectorIndex s" "closedDbs (confirm_all s f hs) = closedDbs s"
  unfolding confirm_all_def by (induction hs arbitrary: s) (simp_all add: SetEventConfirmedOn_def)

lemma readable_Set: "confirmed_readable s \<Longrightarrow> confirmed_readable (SetEventConfirmedOn s h f)"
  by (simp add: confirmed_readable_def GetEventConfirmedOn_Set)

lemma confirmFilter_known:
  assumes "confirmed_readable s" "Hash (lib env) e = Some h" "confirmed s h"
  shows "confirmFilter env frame f (s, x) e = Some (False, s, x)"
proof -
  obtain y where "GetEventConfirmedOn s h = Some y" "y \<noteq> 0" using assms(1,3) by (auto simp: confirmed_def confirmed_readable_def)
  with assms(2) show ?thesis by (simp add: confirmFilter_def)
qed

lemma confirmFilter_new:
  assumes "Hash (lib env) e = Some h" "\<not> confirmed s h"
  shows "confirmFilter env frame f (s, x) e = map_option (\<lambda>x. (True, SetEventConfirmedOn s h frame, x)) (f x h e)"
  using assms by (cases "f x h e") (simp_all add: confirmFilter_def confirmed_def)

subsection \<open>The walk\<close>

text \<open>
  A finite part \<open>A\<close> of the graph \<open>U\<close>, closed under parents, that the node can read, with the events
  under their ids.
\<close>

definition readable_part :: "hash_lib \<Rightarrow> dag \<Rightarrow> hash_event set \<Rightarrow> bool" where
  "readable_part env U A \<longleftrightarrow> finite A \<and> (\<forall>x \<in> A. \<exists>e. U x = Some e \<and> Hash env e = Some x \<and> set (eParents e) \<subseteq> A)"

definition parents_of :: "dag \<Rightarrow> hash_event \<Rightarrow> hash_event set" where
  "parents_of U x = set (eParents (the (U x)))"

text \<open>Every parent of a confirmed event is confirmed or still to be visited.\<close>

definition frontier :: "dag \<Rightarrow> hash_event set \<Rightarrow> hash_event list \<Rightarrow> bool" where
  "frontier U C stack \<longleftrightarrow> (\<forall>x \<in> C. parents_of U x \<subseteq> C \<union> set stack)"

definition walk_result :: "dag \<Rightarrow> hash_event set \<Rightarrow> hash_event set \<Rightarrow> hash_event list \<Rightarrow> hash_event list \<Rightarrow> bool" where
  "walk_result U A C stack hs \<longleftrightarrow> distinct hs \<and> set hs \<inter> C = {} \<and> set hs \<subseteq> A \<and> set stack \<subseteq> C \<union> set hs \<and> frontier U (C \<union> set hs) [] \<and>
     (\<forall>x \<in> set hs. \<exists>y \<in> set stack. x \<in> past U y)"

definition readable_store :: "(hash_event \<Rightarrow> EventHeaderData option) \<Rightarrow> dag \<Rightarrow> hash_event set \<Rightarrow> hash_event set \<Rightarrow> Store \<Rightarrow> bool" where
  "readable_store getHeader U A C s \<longleftrightarrow> confirmed_readable s \<and> (\<forall>h \<in> A. getHeader h = U h) \<and> (\<forall>h \<in> A. confirmed s h \<longleftrightarrow> h \<in> C)"

lemma walk_result_skip: "walk_result U A C (butlast stack) hs \<Longrightarrow> stack \<noteq> [] \<Longrightarrow> last stack \<in> C \<Longrightarrow> walk_result U A C stack hs"
  using set_last_butlast [of stack] unfolding walk_result_def by auto

lemma walk_result_visit:
  assumes r: "walk_result U A (insert (last stack) C) (butlast stack @ eParents e) hs"
    and c: "stack \<noteq> []" "last stack \<notin> C" "last stack \<in> A" "U (last stack) = Some e"
  shows "walk_result U A C stack (last stack # hs)"
proof -
  note r = r [unfolded walk_result_def]
  have stk: "set stack = insert (last stack) (set (butlast stack))" using set_last_butlast [OF c(1)] .
  have "\<exists>y \<in> set stack. x \<in> past U y" if x: "x \<in> set hs" for x
  proof -
    obtain y where y: "y \<in> set (butlast stack @ eParents e)" "x \<in> past U y" using r x by blast
    show ?thesis
    proof (cases "y \<in> set (butlast stack)")
      case False
      then have "y \<in> past U (last stack)" using y(1) c(4) past_parent by auto
      with y(2) show ?thesis using stk past_trans by blast
    qed (use y stk in auto)
  qed
  then show ?thesis using r c stk unfolding walk_result_def by (auto simp: Un_commute)
qed

text \<open>The walk from \<open>stack\<close> calls back for \<open>hs\<close>, in this order.\<close>

definition walk_runs :: "'s itself \<Rightarrow> poset_env \<Rightarrow> dag \<Rightarrow> hash_event set \<Rightarrow> hash_event set \<Rightarrow> hash_event list \<Rightarrow> hash_event list \<Rightarrow> bool" where
  "walk_runs T env U A C stack hs \<longleftrightarrow> (\<forall>getHeader frame f s (x :: 's). frame \<noteq> 0 \<longrightarrow> readable_store getHeader U A C s \<longrightarrow>
         walkSubgraph getHeader (confirmFilter env frame f) (s, x) stack =
           map_option (\<lambda>x'. (confirm_all s frame hs, x')) (foldM (\<lambda>x h. f x h (the (U h))) x hs))"

lemma walk_order:
  assumes A: "readable_part (lib env) U A"
  shows "set stack \<subseteq> A \<Longrightarrow> C \<subseteq> A \<Longrightarrow> frontier U C stack \<Longrightarrow>
    \<exists>hs. walk_result U A C stack hs \<and> walk_runs TYPE('s) env U A C stack hs"
proof (induction "(card (A - C), length stack)" arbitrary: C stack
    rule: wf_induct_rule [OF wf_lex_prod [OF wf_less_than wf_less_than]])
  case (1 C stack)
  show ?case
  proof (cases "stack = []")
    case True
    then show ?thesis using 1(2-) by (intro exI [of _ "[]"]) (simp add: walkSubgraph.simps confirm_all_def walk_result_def walk_runs_def)
  next
    case False
    let ?c = "last stack"
    have stk: "set stack = insert ?c (set (butlast stack))" using set_last_butlast [OF False] .
    then obtain e where c: "?c \<in> A" "U ?c = Some e" "Hash (lib env) e = Some ?c" "set (eParents e) \<subseteq> A"
      using 1(2) A by (auto simp: readable_part_def)
    show ?thesis
    proof (cases "?c \<in> C")
      case True
      have "\<exists>hs. walk_result U A C (butlast stack) hs \<and> walk_runs TYPE('s) env U A C (butlast stack) hs"
      proof (rule 1(1))
        show "((card (A - C), length (butlast stack)), card (A - C), length stack) \<in> less_than <*lex*> less_than" using \<open>stack \<noteq> []\<close> by simp
        show "frontier U C (butlast stack)" using 1(4) True unfolding frontier_def stk by auto
      qed (use 1(2,3) in \<open>auto simp: stk\<close>)
      then obtain hs where hs: "walk_result U A C (butlast stack) hs" "walk_runs TYPE('s) env U A C (butlast stack) hs" by blast
      have "walk_runs TYPE('s) env U A C stack hs"
        unfolding walk_runs_def
      proof (intro allI impI)
        fix getHeader :: "hash_event \<Rightarrow> EventHeaderData option" and frame :: Frame and f s and x :: 's
        assume h: "frame \<noteq> 0" "readable_store getHeader U A C s"
        have "confirmFilter env frame f (s, x) e = Some (False, s, x)"
          using h(2) c True by (intro confirmFilter_known [of _ _ _ ?c]) (auto simp: readable_store_def)
        moreover have "getHeader ?c = Some e" using h(2) c by (simp add: readable_store_def)
        ultimately have "walkSubgraph getHeader (confirmFilter env frame f) (s, x) stack = walkSubgraph getHeader (confirmFilter env frame f) (s, x) (butlast stack)"
          using False by (simp add: walkSubgraph.simps [of _ _ _ stack])
        with hs(2) [unfolded walk_runs_def] h show "walkSubgraph getHeader (confirmFilter env frame f) (s, x) stack =
           map_option (\<lambda>x'. (confirm_all s frame hs, x')) (foldM (\<lambda>x h. f x h (the (U h))) x hs)" by simp
      qed
      with walk_result_skip [OF hs(1) False True] show ?thesis by blast
    next
      case new: False
      let ?C = "insert ?c C" and ?stack = "butlast stack @ eParents e"
      have "\<exists>hs. walk_result U A ?C ?stack hs \<and> walk_runs TYPE('s) env U A ?C ?stack hs"
      proof (rule 1(1))
        have "card (A - ?C) < card (A - C)" using A c(1) new by (intro psubset_card_mono) (auto simp: readable_part_def)
        then show "((card (A - ?C), length ?stack), card (A - C), length stack) \<in> less_than <*lex*> less_than" by simp
        show "frontier U ?C ?stack" using 1(4) c(2) unfolding frontier_def stk by (auto simp: parents_of_def)
      qed (use 1(2,3) c in \<open>auto simp: stk\<close>)
      then obtain hs where hs: "walk_result U A ?C ?stack hs" "walk_runs TYPE('s) env U A ?C ?stack hs" by blast
      have "walk_runs TYPE('s) env U A C stack (?c # hs)"
        unfolding walk_runs_def
      proof (intro allI impI)
        fix getHeader :: "hash_event \<Rightarrow> EventHeaderData option" and frame :: Frame and f s and x :: 's
        assume h: "frame \<noteq> 0" "readable_store getHeader U A C s"
        let ?s = "SetEventConfirmedOn s ?c frame"
        have s1: "readable_store getHeader U A ?C ?s"
          using h readable_Set by (auto simp: confirmed_def GetEventConfirmedOn_Set readable_store_def)
        have fl: "confirmFilter env frame f (s, x) e = map_option (\<lambda>x. (True, ?s, x)) (f x ?c e)"
          using h(2) c new by (intro confirmFilter_new) (auto simp: readable_store_def)
        have get: "getHeader ?c = Some e" using h(2) c by (simp add: readable_store_def)
        have "walkSubgraph getHeader (confirmFilter env frame f) (s, x) stack =
            (case f x ?c e of None \<Rightarrow> None | Some x \<Rightarrow> walkSubgraph getHeader (confirmFilter env frame f) (?s, x) ?stack)"
          using False get fl by (simp add: walkSubgraph.simps [of _ _ _ stack] split: option.split)
        with hs(2) [unfolded walk_runs_def] h(1) s1 c(2) show "walkSubgraph getHeader (confirmFilter env frame f) (s, x) stack =
           map_option (\<lambda>x'. (confirm_all s frame (?c # hs), x')) (foldM (\<lambda>x h. f x h (the (U h))) x (?c # hs))"
          by (cases "f x ?c e") (simp_all add: confirm_all_def)
      qed
      with walk_result_visit [OF hs(1) False new c(1,2)] show ?thesis by blast
    qed
  qed
qed

subsection \<open>Confirming the past of an Atropos\<close>

definition ids_ok :: "hash_lib \<Rightarrow> dag \<Rightarrow> bool" where
  "ids_ok env D \<longleftrightarrow> (\<forall>x e. D x = Some e \<longrightarrow> Hash env e = Some x)"

definition down_closed :: "dag \<Rightarrow> hash_event set \<Rightarrow> bool" where
  "down_closed D C \<longleftrightarrow> (\<forall>x \<in> C. past D x \<subseteq> C)"

lemma frontier_closed:
  assumes "frontier U C []" "x \<in> C" "C \<subseteq> dom U"
  shows "past U x \<subseteq> C"
proof
  fix y assume "y \<in> past U x"
  then have "(x, y) \<in> (edge U)\<^sup>*" by (simp add: past_def)
  then show "y \<in> C"
  proof induction
    case (step y z)
    then obtain e where "U y = Some e" "z \<in> set (eParents e)" by (auto simp: edge_def)
    with step.IH assms(1) show ?case by (force simp: frontier_def parents_of_def)
  qed (use assms in simp)
qed

lemma past_readable:
  assumes "valid_dag vv U" "a \<in> dom U" "ids_ok (lib env) U"
  shows "readable_part (lib env) U (past U a)"
proof -
  have "\<exists>e. U x = Some e \<and> Hash (lib env) e = Some x \<and> set (eParents e) \<subseteq> past U a" if x: "x \<in> past U a" for x
  proof -
    obtain e where e: "U x = Some e" using past_closed [OF assms(1,2)] x by blast
    have "p \<in> past U a" if "p \<in> set (eParents e)" for p using past_trans [OF x] past_parent e that by blast
    with e assms(3) show ?thesis by (auto simp: ids_ok_def)
  qed
  then show ?thesis using finite_past [OF assms(1,2)] by (simp add: readable_part_def)
qed

lemma confirm_past:
  assumes "valid_dag vv U" "a \<in> dom U" "ids_ok (lib env) U" "down_closed U C"
  shows "\<exists>hs. distinct hs \<and> set hs = past U a - C \<and> walk_runs TYPE('s) env U (past U a) (C \<inter> past U a) [a] hs"
proof -
  let ?A = "past U a" and ?C = "C \<inter> past U a"
  have "frontier U ?C [a]"
  proof -
    have "p \<in> ?C" if x: "x \<in> ?C" "p \<in> parents_of U x" for x p
    proof -
      obtain e where "U x = Some e" using past_closed [OF assms(1,2)] x(1) by blast
      then have "p \<in> past U x" using x(2) past_parent by (simp add: parents_of_def)
      then show ?thesis using x(1) assms(4) past_trans by (auto simp: down_closed_def)
    qed
    then show ?thesis unfolding frontier_def by blast
  qed
  with walk_order [OF past_readable [OF assms(1-3)], of "[a]" ?C] obtain hs where
    hs: "walk_result U ?A ?C [a] hs" "walk_runs TYPE('s) env U ?A ?C [a] hs" by auto
  note r = hs(1) [unfolded walk_result_def]
  have sub: "?C \<union> set hs \<subseteq> ?A" using r by blast
  have "a \<in> ?C \<union> set hs" using r by simp
  then have "?A \<subseteq> ?C \<union> set hs" using frontier_closed [of U "?C \<union> set hs" a] r sub past_closed [OF assms(1,2)] by blast
  with sub have "set hs = ?A - C" using r by blast
  with r hs(2) show ?thesis by blast
qed

lemma confirmEvents_walk:
  assumes "walk_runs TYPE('s) env U (past U a) C [a] hs" "frame \<noteq> 0" "readable_store getHeader U (past U a) C s"
  shows "confirmEvents env getHeader frame a f s (x :: 's) =
    map_option (\<lambda>x'. (confirm_all s frame hs, x')) (foldM (\<lambda>x h. f x h (the (U h))) x hs)"
  using assms unfolding walk_runs_def confirmEvents_def by blast

text \<open>
  C8. \<open>confirmEvents\<close> terminates and confirms exactly the events below the Atropos that were not
  confirmed before: the callback runs once for each of them, in an order in which it is the only
  thing that can fail, every one of them is recorded with the frame, and nothing else changes.
\<close>

theorem confirmEvents_exact:
  assumes "valid_dag vv U" "a \<in> dom U" "ids_ok (lib env) U" "frame \<noteq> 0"
    and "confirmed_readable s" "down_closed U {h \<in> dom U. confirmed s h}" "\<forall>h \<in> past U a. getHeader h = U h"
  shows "\<exists>hs. distinct hs \<and> set hs = {h \<in> past U a. \<not> confirmed s h} \<and>
     confirmEvents env getHeader frame a f s (x :: 's) = map_option (\<lambda>x'. (confirm_all s frame hs, x')) (foldM (\<lambda>x h. f x h (the (U h))) x hs) \<and>
     (\<forall>h. GetEventConfirmedOn (confirm_all s frame hs) h = (if h \<in> past U a \<and> \<not> confirmed s h then Some frame else GetEventConfirmedOn s h))"
proof -
  let ?C = "{h \<in> dom U. confirmed s h}"
  obtain hs where hs: "distinct hs" "set hs = past U a - ?C" "walk_runs TYPE('s) env U (past U a) (?C \<inter> past U a) [a] hs"
    using confirm_past [OF assms(1-3,6)] by blast
  have sub: "past U a \<subseteq> dom U" using past_closed [OF assms(1,2)] .
  have "readable_store getHeader U (past U a) (?C \<inter> past U a) s" using assms(5,7) sub by (auto simp: readable_store_def)
  note run = confirmEvents_walk [OF hs(3) assms(4) this]
  have set: "set hs = {h \<in> past U a. \<not> confirmed s h}" using hs(2) sub by blast
  then show ?thesis using hs(1) run by (intro exI [of _ hs]) (simp add: GetEventConfirmedOn_all)
qed

end
