(* ===== verification/Blocks.thy ===== *)
theory Blocks
  imports Confirm
begin

text \<open>
  The block of a decided frame. What \<open>confirmBlock\<close> computes with the node's own vectors is
  expressed here by the event graph below the Atropos, so that it is the same on every node.
\<close>

subsection \<open>What the Atropos observes\<close>

definition top_cell :: "Validators \<Rightarrow> dag \<Rightarrow> hash_event \<Rightarrow> Validator \<Rightarrow> BranchSeq" where
  "top_cell vv U a c = (if forked vv U (past U a) c then forkDetectedSeq else summ U (by_creator vv U (past U a) c))"

lemma at_submap:
  assumes "D \<subseteq>\<^sub>m U" "y \<in> dom D"
  shows "seq_of U y = seq_of D y" "creator_of vv U y = creator_of vv D y" "frame_of U y = frame_of D y" "U y = D y"
  using assms by (simp_all add: map_le_def seq_of_def creator_of_def frame_of_def)

lemma forked_submap: "D \<subseteq>\<^sub>m U \<Longrightarrow> A \<subseteq> dom D \<Longrightarrow> forked vv U A c = forked vv D A c"
  unfolding forked_def by (intro bex_cong refl) (auto simp: at_submap subset_iff)

lemma summ_submap: "D \<subseteq>\<^sub>m U \<Longrightarrow> A \<subseteq> dom D \<Longrightarrow> summ U (by_creator vv U A c) = summ D (by_creator vv D A c)"
proof -
  assume h: "D \<subseteq>\<^sub>m U" "A \<subseteq> dom D"
  have b: "by_creator vv U A c = by_creator vv D A c" using h by (auto simp: by_creator_def at_submap subset_iff)
  moreover have "seq_of U ` by_creator vv D A c = seq_of D ` by_creator vv D A c"
    using h by (intro image_cong refl) (auto simp: by_creator_def at_submap subset_iff)
  ultimately show ?thesis by (simp add: summ_def)
qed

lemma merged_reads:
  assumes inv: "index_inv vi D" and a: "a \<in> dom D" and le: "D \<subseteq>\<^sub>m U"
  obtains s t where "getHighestBeforeMerged vi a = (Some s, t)"
    "\<And>c. c < Validators_Len (vi_validators vi) \<Longrightarrow> HighestBeforeSeq_Get s c = top_cell (vi_validators vi) U a c"
proof -
  have v: "valid_dag (vi_validators vi) D" using index_invD(2) [OF inv] .
  have past: "past U a = past D a" "past D a \<subseteq> dom D" using past_submap [OF v le a] past_closed [OF v a] by auto
  show thesis
  proof (rule merged_cells [OF inv a])
    fix s t
    assume m: "getHighestBeforeMerged vi a = (Some s, Some t)"
      "\<And>c. c < Validators_Len (vi_validators vi) \<Longrightarrow> forked (vi_validators vi) D (past D a) c \<Longrightarrow> HighestBeforeSeq_Get s c = forkDetectedSeq"
      "\<And>c. c < Validators_Len (vi_validators vi) \<Longrightarrow> \<not> forked (vi_validators vi) D (past D a) c \<Longrightarrow>
         cell_of D (by_creator (vi_validators vi) D (past D a) c) (HighestBeforeSeq_Get s c) (HighestBeforeTime_Get t c)"
    show thesis
      by (rule that [OF m(1)]) (use m(2,3) past le in \<open>auto simp: top_cell_def cell_of_def forked_submap summ_submap\<close>)
  qed
qed

lemma top_cell_marker:
  assumes "valid_dag vv U" "a \<in> dom U"
  shows "IsForkDetected (top_cell vv U a c) \<longleftrightarrow> forked vv U (past U a) c"
proof -
  have "finite (by_creator vv U (past U a) c)" "\<forall>y \<in> by_creator vv U (past U a) c. seq_of U y \<noteq> 0"
    using finite_past [OF assms] past_nonzero [OF assms] by (auto simp: by_creator_def)
  then show ?thesis using summ_not_marker by (simp add: top_cell_def)
qed

lemma top_cell_covers:
  assumes "valid_dag vv U" "a \<in> dom U" "h \<in> past U a" "\<not> forked vv U (past U a) (creator_of vv U h)"
  shows "seq_of U h \<le> Seq (top_cell vv U a (creator_of vv U h))"
proof -
  let ?S = "by_creator vv U (past U a) (creator_of vv U h)"
  have "h \<in> ?S" "finite ?S" using assms finite_past by (auto simp: by_creator_def)
  moreover from this have "summ U ?S = \<lparr>Seq = Max (seq_of U ` ?S), MinSeq = Min (seq_of U ` ?S)\<rparr>" by (auto simp: summ_def)
  ultimately show ?thesis using assms(4) Max_ge [of "seq_of U ` ?S" "seq_of U h"] by (simp add: top_cell_def)
qed

subsection \<open>The fold over the confirmed events\<close>

definition block_acc :: "'a ConsensusCallbacks \<Rightarrow> Validators \<Rightarrow> dag \<Rightarrow> hash_event \<Rightarrow> 'a \<Rightarrow> hash_event list \<Rightarrow> 'a blockAcc option" where
  "block_acc cb vv U a ap hs = foldM (\<lambda>acc h. onConfirmed cb (top_cell vv U a (creator_of vv U h)) acc h (the (U h)))
     \<lparr>blockEvents = [], highestLamport = 0, lowestLamport = 0, confirmedNum = 0, accApp = ap\<rparr> hs"

text \<open>The answer of the application, and the application state after both callbacks.\<close>

definition allowed_by :: "'a ConsensusCallbacks \<Rightarrow> 'a \<Rightarrow> EventHeaderData \<Rightarrow> EventSeq \<Rightarrow> bool \<times> 'a" where
  "allowed_by cb ap e depth = (case IsEventAllowedIntoBlock cb of None \<Rightarrow> (True, ap) | Some f \<Rightarrow> f ap e depth)"

definition told :: "'a ConsensusCallbacks \<Rightarrow> 'a \<Rightarrow> EventHeaderData \<Rightarrow> EventSeq \<Rightarrow> 'a" where
  "told cb ap e depth = (case OnEventConfirmed cb of None \<Rightarrow> ap | Some f \<Rightarrow> f ap e depth)"

definition add_confirmed :: "'a ConsensusCallbacks \<Rightarrow> BranchSeq \<Rightarrow> 'a blockAcc \<Rightarrow> hash_event \<Rightarrow> EventHeaderData \<Rightarrow> 'a blockAcc" where
  "add_confirmed cb bs acc h e =
     \<lparr>blockEvents = (if \<not> IsForkDetected bs \<and> fst (allowed_by cb (accApp acc) e (seqDepth bs e)) then blockEvents acc @ [(h, e)] else blockEvents acc),
      highestLamport = (if highestLamport acc = 0 \<or> highestLamport acc < eLamport e then eLamport e else highestLamport acc),
      lowestLamport = (if lowestLamport acc = 0 \<or> lowestLamport acc > eLamport e then eLamport e else lowestLamport acc),
      confirmedNum = confirmedNum acc + 1,
      accApp = told cb (snd (allowed_by cb (accApp acc) e (seqDepth bs e))) e (seqDepth bs e)\<rparr>"

lemma onConfirmed_eq:
  "onConfirmed cb bs acc h e = (if \<not> IsForkDetected bs \<and> eSeq e > Seq bs then None else Some (add_confirmed cb bs acc h e))"
  by (cases acc; cases "IsEventAllowedIntoBlock cb"; cases "OnEventConfirmed cb")
    (simp_all add: onConfirmed_def add_confirmed_def allowed_by_def told_def Let_def case_prod_beta)

lemma block_acc_total:
  assumes "valid_dag vv U" "a \<in> dom U" "set hs \<subseteq> past U a"
  shows "\<exists>acc. block_acc cb vv U a ap hs = Some acc"
proof -
  have "onConfirmed cb (top_cell vv U a (creator_of vv U h)) acc h (the (U h)) =
      Some (add_confirmed cb (top_cell vv U a (creator_of vv U h)) acc h (the (U h)))" if h: "h \<in> set hs" for acc h
  proof -
    have "h \<in> past U a" using assms(3) h by blast
    then show ?thesis using top_cell_covers [OF assms(1,2), of h] top_cell_marker [OF assms(1,2)]
      by (auto simp: onConfirmed_eq seq_of_def not_less)
  qed
  then have "block_acc cb vv U a ap hs = Some (foldl (\<lambda>acc h. add_confirmed cb (top_cell vv U a (creator_of vv U h)) acc h (the (U h)))
      \<lparr>blockEvents = [], highestLamport = 0, lowestLamport = 0, confirmedNum = 0, accApp = ap\<rparr> hs)"
    unfolding block_acc_def by (intro foldM_pure) blast
  then show ?thesis by blast
qed

text \<open>The validators that the Atropos observes forking, in the order of the group.\<close>

definition cheaters_of :: "Validators \<Rightarrow> dag \<Rightarrow> hash_event \<Rightarrow> StakerID list" where
  "cheaters_of vv U a = filter (\<lambda>v. forked vv U (past U a) (GetIdx vv v)) (SortedIDs vv)"

lemma map_snd_filter_enumerate:
  "(\<And>i. i < length xs \<Longrightarrow> P i \<longleftrightarrow> Q (xs ! i)) \<Longrightarrow> map snd (filter (\<lambda>(i, x). P i) (enumerate 0 xs)) = filter Q xs"
proof -
  assume h: "\<And>i. i < length xs \<Longrightarrow> P i \<longleftrightarrow> Q (xs ! i)"
  have "filter (\<lambda>(i, x). P i) (enumerate 0 xs) = filter (Q \<circ> snd) (enumerate 0 xs)"
    by (rule filter_cong [OF refl]) (auto simp: in_set_enumerate_eq h)
  then show ?thesis by (simp add: filter_map [symmetric])
qed

lemma cheaters_eq:
  assumes "valid_group vv" "\<And>c. c < Validators_Len vv \<Longrightarrow> HighestBeforeSeq_Get s c = top_cell vv U a c" "valid_dag vv U" "a \<in> dom U"
  shows "map snd (filter (\<lambda>(i, v). IsForkDetected (HighestBeforeSeq_Get s i)) (enumerate 0 (SortedIDs vv))) = cheaters_of vv U a"
  unfolding cheaters_of_def
  by (rule map_snd_filter_enumerate) (use assms in \<open>simp add: top_cell_marker GetIdx_nth\<close>)

subsection \<open>The block\<close>

text \<open>What a node knows when it makes the block of an Atropos: a part \<open>D\<close> of the graph \<open>U\<close>, indexed.\<close>

definition block_ready :: "poset_env \<Rightarrow> EventSource \<Rightarrow> dag \<Rightarrow> 'a Poset \<Rightarrow> hash_event \<Rightarrow> bool" where
  "block_ready env input U p a \<longleftrightarrow> valid_dag (p_Validators p) U \<and> ids_ok (lib env) U \<and> vi_validators (vecClock p) = p_Validators p \<and>
     (\<exists>D. index_inv (vecClock p) D \<and> D \<subseteq>\<^sub>m U \<and> a \<in> dom D \<and> D \<subseteq>\<^sub>m input (p_EpochN p)) \<and>
     confirmed_readable (store p) \<and> down_closed U {h \<in> dom U. confirmed (store p) h}"

definition block_of :: "'a Poset \<Rightarrow> hash_event \<Rightarrow> FrameInfo \<Rightarrow> 'a blockAcc \<Rightarrow> BlockData" where
  "block_of p a fi acc = NewBlock (LastBlockN (checkpoint p) + 1) (LastConsensusTime fi) a (LastAtropos (checkpoint p)) (fareOrdering (blockEvents acc))"

text \<open>The order \<open>hs\<close> depends on the graph and on which of its events are confirmed, not on the node.\<close>

lemma confirmBlock_eq:
  fixes p :: "'a Poset"
  assumes ready: "block_ready env input U p a" and f: "frame \<noteq> 0" and t: "frameConsensusTime p (frame - 1) = Some t"
    and hs: "set hs = {h \<in> past U a. \<not> confirmed (store p) h}"
      "walk_runs TYPE('a blockAcc) env U (past U a) ({h \<in> dom U. confirmed (store p) h} \<inter> past U a) [a] hs"
  obtains acc fi where "block_acc (callback p) (p_Validators p) U a (app p) hs = Some acc"
    "fi = fareTimestamps t (eMedianTime (the (U a))) (highestLamport acc) (lowestLamport acc)"
    "confirmBlock env input p frame a = Some ((block_of p a fi acc, cheaters_of (p_Validators p) U a),
       p\<lparr>store := SetFrameInfo (confirm_all (store p) frame hs) (p_EpochN p) frame fi, app := accApp acc\<rparr>)"
proof -
  let ?vv = "p_Validators p" and ?ep = "p_EpochN p"
  note r = ready [unfolded block_ready_def]
  obtain D where D: "index_inv (vecClock p) D" "D \<subseteq>\<^sub>m U" "a \<in> dom D" "D \<subseteq>\<^sub>m input ?ep" using r by blast
  have vv: "vi_validators (vecClock p) = ?vv" "valid_group ?vv" using r sane_groupD [OF index_invD(1) [OF D(1)]] by auto
  have v: "valid_dag ?vv U" "valid_dag ?vv D" using r index_invD(2) [OF D(1)] vv by auto
  have a: "a \<in> dom U" using D(2,3) by (auto simp: map_le_def dom_def)
  have past: "past U a = past D a" "past D a \<subseteq> dom D" using past_submap [OF v(2) D(2,3)] past_closed [OF v(2) D(3)] by auto
  have reads: "input ?ep h = U h" if "h \<in> past U a" for h using that past D(2,4) by (auto simp: map_le_def subset_iff)
  obtain s ts where m: "getHighestBeforeMerged (vecClock p) a = (Some s, ts)" "\<And>c. c < Validators_Len ?vv \<Longrightarrow> HighestBeforeSeq_Get s c = top_cell ?vv U a c"
    using merged_reads [OF D(1,3,2)] vv by metis
  have "readable_store (input ?ep) U (past U a) ({h \<in> dom U. confirmed (store p) h} \<inter> past U a) (store p)"
    using r reads past_closed [OF v(1) a] by (auto simp: readable_store_def)
  note walk = confirmEvents_walk [OF hs(2) f this]
  have same: "HighestBeforeSeq_Get s (GetIdx ?vv (eCreator (the (U h)))) = top_cell ?vv U a (creator_of ?vv U h)" if "h \<in> set hs" for h
  proof -
    have "h \<in> past U a" using that unfolding hs(1) by simp
    then have "h \<in> dom U" using past_closed [OF v(1) a] by (rule subsetD [rotated])
    from creator_bound [OF vv(2) v(1) this] m(2) show ?thesis by (simp add: creator_of_def)
  qed
  let ?acc0 = "\<lparr>blockEvents = [], highestLamport = 0, lowestLamport = 0, confirmedNum = 0, accApp = app p\<rparr>"
  have fold: "foldM (\<lambda>acc h. onConfirmed (callback p) (HighestBeforeSeq_Get s (GetIdx ?vv (eCreator (the (U h))))) acc h (the (U h))) ?acc0 hs
      = block_acc (callback p) ?vv U a (app p) hs"
    unfolding block_acc_def by (rule foldM_cong) (simp_all add: same)
  have "set hs \<subseteq> past U a" unfolding hs(1) by simp
  then obtain acc where acc: "block_acc (callback p) ?vv U a (app p) hs = Some acc" using block_acc_total [OF v(1) a] by meson
  define fi where "fi = fareTimestamps t (eMedianTime (the (U a))) (highestLamport acc) (lowestLamport acc)"
  have t': "frameConsensusTime (p\<lparr>store := confirm_all (store p) frame hs, app := accApp acc\<rparr>) (frame - 1) = Some t"
    using t by (simp add: frameConsensusTime_def GetFrameInfo_def split: if_splits)
  have "p_fareTimestamps input (p\<lparr>store := confirm_all (store p) frame hs, app := accApp acc\<rparr>) frame a (highestLamport acc) (lowestLamport acc) = Some fi"
  proof -
    obtain ea where "U a = Some ea" using a by blast
    moreover from this have "input ?ep a = Some ea" using reads [OF past_self] by simp
    ultimately show ?thesis using t' by (simp add: p_fareTimestamps_def fi_def)
  qed
  then have "confirmBlock env input p frame a = Some ((block_of p a fi acc, cheaters_of ?vv U a),
       p\<lparr>store := SetFrameInfo (confirm_all (store p) frame hs) ?ep frame fi, app := accApp acc\<rparr>)"
    using cheaters_eq [OF vv(2) m(2) v(1) a]
    by (simp add: confirmBlock_def m(1) walk fold acc block_of_def)
  from that [OF acc fi_def this] show thesis .
qed

lemma confirm_order_exists:
  fixes p :: "'a Poset"
  assumes "block_ready env input U p a"
  shows "\<exists>hs. distinct hs \<and> set hs = {h \<in> past U a. \<not> confirmed (store p) h} \<and>
     walk_runs TYPE('a blockAcc) env U (past U a) ({h \<in> dom U. confirmed (store p) h} \<inter> past U a) [a] hs"
proof -
  note r = assms [unfolded block_ready_def]
  have a: "a \<in> dom U" using r by (auto simp: map_le_def dom_def)
  obtain hs where "distinct hs" "set hs = past U a - {h \<in> dom U. confirmed (store p) h}"
    "walk_runs TYPE('a blockAcc) env U (past U a) ({h \<in> dom U. confirmed (store p) h} \<inter> past U a) [a] hs"
    using confirm_past [of "p_Validators p" U a env "{h \<in> dom U. confirmed (store p) h}"] r a by blast
  moreover have "past U a \<subseteq> dom U" using past_closed a r by blast
  ultimately show ?thesis by (intro exI [of _ hs]) auto
qed

text \<open>The events of the block when the application's answer does not depend on its state.\<close>

definition in_block :: "Validators \<Rightarrow> dag \<Rightarrow> hash_event \<Rightarrow> (EventHeaderData \<Rightarrow> EventSeq \<Rightarrow> bool) \<Rightarrow> hash_event \<Rightarrow> bool" where
  "in_block vv U a ok h \<longleftrightarrow> \<not> forked vv U (past U a) (creator_of vv U h) \<and>
     ok (the (U h)) (Max (seq_of U ` by_creator vv U (past U a) (creator_of vv U h)) - seq_of U h)"

lemma in_block_cell:
  assumes "valid_dag vv U" "a \<in> dom U" "h \<in> past U a"
  shows "in_block vv U a ok h \<longleftrightarrow> (\<not> IsForkDetected (top_cell vv U a (creator_of vv U h)) \<and>
     ok (the (U h)) (seqDepth (top_cell vv U a (creator_of vv U h)) (the (U h))))"
proof (cases "forked vv U (past U a) (creator_of vv U h)")
  case False
  have "h \<in> by_creator vv U (past U a) (creator_of vv U h)" using assms(3) by (simp add: by_creator_def)
  then have "Seq (top_cell vv U a (creator_of vv U h)) = Max (seq_of U ` by_creator vv U (past U a) (creator_of vv U h))"
    using False by (auto simp: top_cell_def summ_def)
  with top_cell_covers [OF assms False] False show ?thesis
    by (auto simp: in_block_def top_cell_marker [OF assms(1,2)] seqDepth_def seq_of_def dest: leD)
qed (simp add: in_block_def top_cell_marker [OF assms(1,2)])

lemma block_acc_events:
  assumes ok: "\<forall>ap e d. fst (allowed_by cb ap e d) = ok e d" and v: "valid_dag vv U" "a \<in> dom U"
  shows "block_acc cb vv U a ap hs = Some acc \<Longrightarrow> set hs \<subseteq> past U a \<Longrightarrow>
     blockEvents acc = map (\<lambda>h. (h, the (U h))) (filter (in_block vv U a ok) hs)"
proof (induction hs arbitrary: acc rule: rev_induct)
  case (snoc h hs)
  let ?c = "top_cell vv U a (creator_of vv U h)"
  obtain acc1 where acc1: "block_acc cb vv U a ap hs = Some acc1" "onConfirmed cb ?c acc1 h (the (U h)) = Some acc"
    using snoc.prems(1) by (auto simp: block_acc_def foldM_append Option.bind_eq_Some_conv)
  then have "acc = add_confirmed cb ?c acc1 h (the (U h))" by (auto simp: onConfirmed_eq split: if_splits)
  with snoc.IH [OF acc1(1)] snoc.prems(2) ok in_block_cell [OF v, of h ok] show ?case by (simp add: add_confirmed_def)
qed (simp add: block_acc_def)

lemma fareOrdering_map:
  assumes "distinct xs"
  shows "set (fareOrdering (map (\<lambda>h. (h, g h)) xs)) = set xs" "distinct (fareOrdering (map (\<lambda>h. (h, g h)) xs))"
    "sorted_wrt (\<lambda>x y. (eLamport (g x), x) < (eLamport (g y), y)) (fareOrdering (map (\<lambda>h. (h, g h)) xs))"
proof -
  let ?ev = "map (\<lambda>h. (h, g h)) xs"
  have fst: "map fst ?ev = xs" by (simp add: comp_def)
  with assms have d: "distinct (map fst ?ev)" by simp
  note ord = fareOrdering_props [OF d, unfolded fst, THEN conjunct2]
  show s: "set (fareOrdering ?ev) = set xs" using mset_eq_setD [OF conjunct1 [OF ord]] .
  show "distinct (fareOrdering ?ev)" using mset_eq_imp_distinct_iff [OF conjunct1 [OF ord]] assms by simp
  have "map_of ?ev x = Some (g x)" if "x \<in> set (fareOrdering ?ev)" for x
    using that unfolding s by (simp add: map_of_map_restrict)
  then show "sorted_wrt (\<lambda>x y. (eLamport (g x), x) < (eLamport (g y), y)) (fareOrdering ?ev)"
    by (intro sorted_wrt_mono_rel [OF _ conjunct2 [OF ord]]) simp
qed

text \<open>
  C7. The block of a decided frame, in terms of the event graph: it holds exactly the events that
  the Atropos observes, no earlier Atropos has confirmed, whose creator the Atropos does not
  observe forking and that the application admits (given the distance to the creator's last
  observed event), each once, by Lamport time and then by id; the cheaters reported with it are
  exactly the validators the Atropos observes forking; block number, previous and own Atropos are
  chained; afterwards exactly the past of the Atropos is confirmed in addition. None of the sanity
  checks that stop the node can fire.
\<close>

theorem confirmBlock_contents:
  fixes p :: "'a Poset"
  assumes "block_ready env input U p a" "frame \<noteq> 0" "frameConsensusTime p (frame - 1) \<noteq> None"
    and "\<forall>ap e d. fst (allowed_by (callback p) ap e d) = ok e d"
  shows "\<exists>block p'. confirmBlock env input p frame a = Some ((block, cheaters_of (p_Validators p) U a), p') \<and>
     set (bEvents block) = {h \<in> past U a. \<not> confirmed (store p) h \<and> in_block (p_Validators p) U a ok h} \<and> distinct (bEvents block) \<and>
     sorted_wrt (\<lambda>x y. (eLamport (the (U x)), x) < (eLamport (the (U y)), y)) (bEvents block) \<and>
     bIndex block = LastBlockN (checkpoint p) + 1 \<and> bAtropos block = a \<and> bPrevHash block = LastAtropos (checkpoint p) \<and>
     (\<forall>h. confirmed (store p') h \<longleftrightarrow> confirmed (store p) h \<or> h \<in> past U a)"
proof -
  let ?vv = "p_Validators p"
  obtain t where t: "frameConsensusTime p (frame - 1) = Some t" using assms(3) by blast
  have v: "valid_dag ?vv U" "a \<in> dom U" using assms(1) by (auto simp: block_ready_def map_le_def dom_def)
  obtain hs where hs: "distinct hs" "set hs = {h \<in> past U a. \<not> confirmed (store p) h}"
    "walk_runs TYPE('a blockAcc) env U (past U a) ({h \<in> dom U. confirmed (store p) h} \<inter> past U a) [a] hs"
    using confirm_order_exists [OF assms(1)] by (elim exE conjE)
  obtain acc fi where acc: "block_acc (callback p) ?vv U a (app p) hs = Some acc"
    and run: "confirmBlock env input p frame a = Some ((block_of p a fi acc, cheaters_of ?vv U a),
       p\<lparr>store := SetFrameInfo (confirm_all (store p) frame hs) (p_EpochN p) frame fi, app := accApp acc\<rparr>)"
    by (rule confirmBlock_eq [OF assms(1,2) t hs(2,3)])
  let ?ev = "map (\<lambda>h. (h, the (U h))) (filter (in_block ?vv U a ok) hs)"
  have ev: "blockEvents acc = ?ev" using block_acc_events [OF assms(4) v acc] hs(2) by simp
  note ord = fareOrdering_map [of "filter (in_block ?vv U a ok) hs" "\<lambda>h. the (U h)"]
  have "bEvents (block_of p a fi acc) = fareOrdering ?ev" "bIndex (block_of p a fi acc) = LastBlockN (checkpoint p) + 1"
    "bAtropos (block_of p a fi acc) = a" "bPrevHash (block_of p a fi acc) = LastAtropos (checkpoint p)"
    by (simp_all add: block_of_def NewBlock_def ev)
  moreover have "set (filter (in_block ?vv U a ok) hs) = {h \<in> past U a. \<not> confirmed (store p) h \<and> in_block ?vv U a ok h}"
    unfolding set_filter hs(2) by simp
  moreover have "confirmed (SetFrameInfo (confirm_all (store p) frame hs) (p_EpochN p) frame fi) h \<longleftrightarrow> confirmed (store p) h \<or> h \<in> past U a" for h
  proof -
    have "confirmed (SetFrameInfo (confirm_all (store p) frame hs) (p_EpochN p) frame fi) h \<longleftrightarrow> confirmed (confirm_all (store p) frame hs) h"
      by (simp add: confirmed_def GetEventConfirmedOn_def SetFrameInfo_def)
    also have "\<dots> \<longleftrightarrow> h \<in> set hs \<or> confirmed (store p) h" using assms(2) by (simp add: confirmed_def GetEventConfirmedOn_all)
    finally show ?thesis unfolding hs(2) by blast
  qed
  ultimately show ?thesis using run ord hs(1) 
    by (intro exI [of _ "block_of p a fi acc"] exI [of _ "p\<lparr>store := SetFrameInfo (confirm_all (store p) frame hs) (p_EpochN p) frame fi, app := accApp acc\<rparr>"] conjI)
      simp_all
qed

subsection \<open>A concrete block\<close>

definition sample_env :: poset_env where
  "sample_env = \<lparr>lib = sample_lib, GenesisState_Hash = (\<lambda>_. hash_Zero), hash_Of = (\<lambda>x y. x), evictFC = (\<lambda>m. m), evictRoots = (\<lambda>c. c)\<rparr>"

definition no_callbacks :: "unit ConsensusCallbacks" where
  "no_callbacks = \<lparr>ApplyBlock = None, SelectValidatorsGroup = None, OnEventConfirmed = None, IsEventAllowedIntoBlock = None\<rparr>"

definition sample_poset :: "Index \<Rightarrow> unit Poset" where
  "sample_poset vi = \<lparr>store = NewMemStore, checkpoint = \<lparr>LastDecidedFrame = 0, LastBlockN = 0, LastAtropos = [0], cpAppHash = hash_Zero\<rparr>,
     epochState = \<lparr>EpochN = 1, PrevEpoch = \<lparr>gsEpoch = 0, gsTime = 5, gsLastAtropos = [0], gsAppHash = hash_Zero\<rparr>, esValidators = solo_group\<rparr>,
     election = Election_New solo_group 1, vecClock = vi, callback = no_callbacks, app = ()\<rparr>"

lemma sample_ids: "ids_ok (lib sample_env) sample_dag"
  by (auto simp: ids_ok_def sample_dag_def sample_env_def split: if_splits)

lemma not_confirmed_new [simp]: "\<not> confirmed NewMemStore h" "confirmed_readable NewMemStore"
  by (simp_all add: confirmed_def confirmed_readable_def GetEventConfirmedOn_def NewMemStore_def initCache_def)

lemma sample_ready:
  obtains vi where "sample_run = Some vi" "index_inv vi sample_dag" "vi_validators vi = solo_group"
    "block_ready sample_env (\<lambda>_. sample_dag) sample_dag (sample_poset vi) [2]"
proof -
  obtain vi where vi: "sample_run = Some vi" "index_inv vi sample_dag" "vi_validators vi = solo_group"
    using Adds_index [OF _ sample_build map_le_refl sample_room] by (auto simp: sample_run_def)
  have "block_ready sample_env (\<lambda>_. sample_dag) sample_dag (sample_poset vi) [2]"
    using index_invD(2) [OF vi(2)] vi sample_ids sample_known by (auto simp: block_ready_def sample_poset_def down_closed_def)
  with vi that show thesis by blast
qed

theorem confirmEvents_exact_witness:
  "\<exists>hs. set hs = past sample_dag [2] \<and>
     confirmEvents sample_env sample_dag 1 [2] (\<lambda>n h e. Some (n + 1)) NewMemStore (0 :: nat) =
       map_option (\<lambda>x'. (confirm_all NewMemStore 1 hs, x')) (foldM (\<lambda>n h. Some (n + 1)) 0 hs)"
proof -
  obtain vi where "index_inv vi sample_dag" "vi_validators vi = solo_group" by (rule sample_ready)
  then have "valid_dag solo_group sample_dag" using index_invD(2) by metis
  from confirmEvents_exact [OF this sample_known(2) sample_ids, of 1 NewMemStore sample_dag "\<lambda>n h e. Some (n + 1)" "0 :: nat"]
  show ?thesis by (auto simp: down_closed_def)
qed

theorem confirmBlock_contents_witness:
  "\<exists>vi block p'. sample_run = Some vi \<and> confirmBlock sample_env (\<lambda>_. sample_dag) (sample_poset vi) 1 [2] =
       Some ((block, cheaters_of solo_group sample_dag [2]), p') \<and> bAtropos block = [2]"
proof -
  obtain vi where vi: "sample_run = Some vi" and ready: "block_ready sample_env (\<lambda>_. sample_dag) sample_dag (sample_poset vi) [2]" by (rule sample_ready)
  have "p_Validators (sample_poset vi) = solo_group" "frameConsensusTime (sample_poset vi) (1 - 1) \<noteq> None"
    "\<forall>ap e d. fst (allowed_by (callback (sample_poset vi)) ap e d) = True"
    by (simp_all add: sample_poset_def frameConsensusTime_def allowed_by_def no_callbacks_def)
  with confirmBlock_contents [OF ready, of 1 "\<lambda>_ _. True"] vi show ?thesis by auto
qed

end
