(* ===== verification/Acceptance.thy ===== *)
theory Acceptance
  imports Blocks
begin

text \<open>
  Which events \<open>checkAndSaveEvent\<close> accepts. The conditions of the code, computed with the vector
  index, the caches and the store of roots, are those of the event graph: the rule for frames, no
  parents by validators seen to fork, the weighted median time, the hash of the previous epoch.
\<close>

subsection \<open>The node's stores and the graph\<close>

definition env_ok :: "poset_env \<Rightarrow> bool" where
  "env_ok env \<longleftrightarrow> (\<forall>m. evictFC env m \<subseteq>\<^sub>m m) \<and> (\<forall>c. evictRoots env c \<subseteq>\<^sub>m c)"

definition all_roots :: "dag \<Rightarrow> hash_event set" where
  "all_roots D = {x. \<exists>e. D x = Some e \<and> eIsRoot e}"

definition store_roots :: "Store \<Rightarrow> dag \<Rightarrow> bool" where
  "store_roots s D \<longleftrightarrow> epochDb s \<noteq> None \<and> roots_inv (fl_ok mem_ok) epoch_roots_view (tRoots s) (root_of D ` all_roots D)"

lemma roots_at_all: "roots_at D f = {x \<in> all_roots D. frame_of D x = f}"
  by (auto simp: roots_at_def all_roots_def frame_of_def)

lemma roots_at_dom: "x \<in> roots_at D f \<Longrightarrow> x \<in> dom D"
  by (auto simp: roots_at_def)

lemma store_roots_get:
  assumes "env_ok env" "store_roots s D"
  shows "\<exists>rr t. Store_GetFrameRoots env s f = Some (rr, s\<lparr>tRoots := t\<rparr>) \<and> distinct rr \<and> set rr = root_of D ` roots_at D f \<and> store_roots (s\<lparr>tRoots := t\<rparr>) D"
proof -
  have over: "roots_over epoch_roots_ops (fl_ok mem_ok) epoch_roots_view (evictRoots env)"
    using assms(1) by (intro epoch_roots_over) (simp add: env_ok_def)
  obtain rr t where "GetFrameRoots epoch_roots_ops (evictRoots env) (tRoots s) f = Some (rr, t)" "distinct rr"
    "set rr = {r \<in> root_of D ` all_roots D. sFrame (rSlot r) = f}" "roots_inv (fl_ok mem_ok) epoch_roots_view t (root_of D ` all_roots D)"
    using roots_over.GetFrameRoots_lists [OF over] assms(2) unfolding store_roots_def by blast
  moreover have "{r \<in> root_of D ` all_roots D. sFrame (rSlot r) = f} = root_of D ` roots_at D f" unfolding roots_at_all by auto
  ultimately show ?thesis using assms(2) by (auto simp: Store_GetFrameRoots_def store_roots_def)
qed

lemma root_of_grow: "h \<notin> dom D \<Longrightarrow> x \<in> dom D \<Longrightarrow> root_of (D(h \<mapsto> e)) x = root_of D x"
  by (auto simp: root_of_def frame_of_def)

lemma roots_grow: "h \<notin> dom D \<Longrightarrow> root_of (D(h \<mapsto> e)) ` all_roots D = root_of D ` all_roots D"
proof (rule image_cong [OF refl])
  fix x assume h: "h \<notin> dom D" "x \<in> all_roots D"
  then have "x \<in> dom D" by (auto simp: all_roots_def)
  with h(1) show "root_of (D(h \<mapsto> e)) x = root_of D x" by (rule root_of_grow)
qed

lemma store_roots_add:
  assumes "env_ok env" "store_roots s D" "h \<notin> dom D" "Hash (lib env) e = Some h" "length h = 32" "eIsRoot e"
  shows "\<exists>t. Store_AddRoot env s e = Some (s\<lparr>tRoots := t\<rparr>) \<and> store_roots (s\<lparr>tRoots := t\<rparr>) (D(h \<mapsto> e))"
proof -
  let ?D = "D(h \<mapsto> e)" and ?r = "\<lparr>rID = h, rSlot = \<lparr>sFrame = eFrame e, sValidator = eCreator e\<rparr>\<rparr>"
  have over: "roots_over epoch_roots_ops (fl_ok mem_ok) epoch_roots_view (evictRoots env)"
    using assms(1) by (intro epoch_roots_over) (simp add: env_ok_def)
  have r: "?r = root_of ?D h" by (simp add: root_of_def frame_of_def)
  have "root_of ?D ` all_roots D = root_of D ` all_roots D" using assms(3) by (rule roots_grow)
  moreover have "all_roots ?D = insert h (all_roots D)" using assms(3,6) by (auto simp: all_roots_def)
  ultimately have R: "root_of ?D ` all_roots ?D = insert ?r (root_of D ` all_roots D)" unfolding r by simp
  have "?r \<notin> root_of D ` all_roots D" using assms(3) by (auto simp: all_roots_def root_of_def)
  with roots_over.AddRoot_adds [OF over, of "tRoots s" "root_of D ` all_roots D" ?r] assms(2,5) obtain t where
    "AddRoot epoch_roots_ops (evictRoots env) (tRoots s) ?r = Some t" "roots_inv (fl_ok mem_ok) epoch_roots_view t (insert ?r (root_of D ` all_roots D))"
    by (auto simp: store_roots_def)
  then show ?thesis using assms(2,4) unfolding store_roots_def R by (intro exI [of _ t]) (simp add: Store_AddRoot_def)
qed

lemma store_roots_skip: "store_roots s D \<Longrightarrow> h \<notin> dom D \<Longrightarrow> \<not> eIsRoot e \<Longrightarrow> store_roots s (D(h \<mapsto> e))"
proof -
  assume h: "store_roots s D" "h \<notin> dom D" "\<not> eIsRoot e"
  then have "all_roots (D(h \<mapsto> e)) = all_roots D" by (auto simp: all_roots_def)
  moreover have "root_of (D(h \<mapsto> e)) ` all_roots D = root_of D ` all_roots D" using h(2) by (rule roots_grow)
  ultimately show ?thesis using h(1) by (simp add: store_roots_def)
qed

subsection \<open>The index with a pending event\<close>

lemma index_pending:
  assumes run: "run_inv vv G vi D D" and e: "Hash env e = Some h" "h \<notin> dom D" "G h = Some e" "valid_event vv D e"
    and get: "D \<subseteq>\<^sub>m getEvent" and room: "Validators_Len vv + card (dom D) < 2 ^ 32"
  shows "\<exists>vi'. Add env getEvent vi e = Some vi' \<and> run_inv vv G vi' (D(h \<mapsto> e)) D \<and> vi_flushed vi' = vi_flushed vi"
proof -
  note r = run [unfolded run_inv_def]
  have "vi_validators vi = vv" using r by blast
  with index_inv_Add [of vi D env e h getEvent] r e get room obtain vi' where vi': "Add env getEvent vi e = Some vi'" "index_inv vi' (D(h \<mapsto> e))"
    "vi_validators vi' = vi_validators vi" "vi_flushed vi' = vi_flushed vi" "vi_ForklessCause vi' = vi_ForklessCause vi" by auto
  have "index_inv (DropNotFlushed vi') D = index_inv (DropNotFlushed vi) D"
    by (rule index_inv_cong) (simp_all add: DropNotFlushed_def the_bi_def getBranchesInfo_def vi' split: option.split)
  moreover have "D(h \<mapsto> e) \<subseteq>\<^sub>m G" using r e(3) by (auto simp: map_le_def)
  ultimately have "run_inv vv G vi' (D(h \<mapsto> e)) D" using r vi' by (simp add: run_inv_def cache_inv_def)
  with vi'(1,4) show ?thesis by blast
qed

lemma run_inv_drop: "run_inv vv G vi D Df \<Longrightarrow> run_inv vv G (DropNotFlushed vi) Df Df"
  by (simp add: run_inv_def DropNotFlushed_def cache_inv_def)

lemma run_inv_flush: "run_inv vv G vi D Df \<Longrightarrow> run_inv vv G (Flush vi) D D"
proof -
  assume r: "run_inv vv G vi D Df"
  have "vi_validators (Flush vi) = vi_validators vi" "vi_ForklessCause (Flush vi) = vi_ForklessCause vi"
    by (simp_all add: Flush_def setBranchesInfo_def Let_def split: option.split)
  with r index_inv_Flush show ?thesis by (simp add: run_inv_def cache_inv_def)
qed

lemma ForklessCause_flushed: "ForklessCause ev vi a b = Some (r, vi') \<Longrightarrow> vi_flushed vi' = vi_flushed vi"
  by (auto simp: ForklessCause_def initBranchesInfo_def Option.bind_eq_Some_conv split: option.splits)

lemma countObserved_counts:
  assumes "env_ok env" "sane_group vv"
  shows "run_inv vv G (vecClock p) D Df \<Longrightarrow> h \<in> dom D \<Longrightarrow> rID ` set rr \<subseteq> dom D \<Longrightarrow> (\<forall>r \<in> set rr. Exists vv (sValidator (rSlot r))) \<Longrightarrow> counter_inv vv c \<Longrightarrow>
    \<exists>c' vi'. countObserved env h p c rr = Some (c', p\<lparr>vecClock := vi'\<rparr>) \<and> run_inv vv G vi' D Df \<and> vi_flushed vi' = vi_flushed (vecClock p) \<and> counter_inv vv c' \<and>
      (HasQuorum c' \<longleftrightarrow> quorate vv (counted c \<union> root_idx vv ` {r \<in> set rr. fc_spec vv D h (rID r)}))"
proof (induction rr arbitrary: p c)
  case Nil
  then show ?case using HasQuorum_iff by (intro exI [of _ c] exI [of _ "vecClock p"]) simp
next
  case (Cons r rr)
  have ev: "\<forall>m. evictFC env m \<subseteq>\<^sub>m m" using assms(1) by (simp add: env_ok_def)
  obtain vi where vi: "ForklessCause (evictFC env) (vecClock p) h (rID r) = Some (fc_spec vv D h (rID r), vi)" "run_inv vv G vi D Df"
    using ForklessCause_eq [OF Cons.prems(1) ev Cons.prems(2), of "rID r"] Cons.prems(3) by auto
  have idx: "GetIdx vv (sValidator (rSlot r)) < Validators_Len vv" using GetIdx_Exists(1) assms(2) Cons.prems(4) by (auto intro: sane_groupD)
  obtain c1 where c1: "(if fc_spec vv D h (rID r) then map_option snd (Count c (sValidator (rSlot r))) else Some c) = Some c1" "counter_inv vv c1"
    "counted c1 = counted c \<union> (if fc_spec vv D h (rID r) then {root_idx vv r} else {})"
  proof (cases "fc_spec vv D h (rID r)")
    case True
    obtain c' where "CountByIdx c (GetIdx vv (sValidator (rSlot r))) = Some (GetIdx vv (sValidator (rSlot r)) \<notin> counted c, c')"
      "counter_inv vv c'" "counted c' = insert (GetIdx vv (sValidator (rSlot r))) (counted c)" using CountByIdx_Some [OF assms(2) Cons.prems(5) idx] by blast
    moreover have "sc_validators c = vv" using Cons.prems(5) by (simp add: counter_inv_def)
    ultimately show thesis using that [of c'] True by (simp add: Count_def)
  qed (use that [of c] Cons.prems(5) in simp)
  note fl = ForklessCause_flushed [OF vi(1)]
  let ?A = "counted c \<union> root_idx vv ` {x \<in> set (r # rr). fc_spec vv D h (rID x)}"
  have A: "?A = counted c1 \<union> root_idx vv ` {x \<in> set rr. fc_spec vv D h (rID x)}" using c1(3) by auto
  have step: "p_ForklessCause env p h (rID r) = Some (fc_spec vv D h (rID r), p\<lparr>vecClock := vi\<rparr>)" using vi(1) by (simp add: p_ForklessCause_def)
  show ?case
  proof (cases "HasQuorum c1")
    case True
    then have "quorate vv (counted c1)" using HasQuorum_iff c1(2) by blast
    moreover have "counted c1 \<subseteq> ?A" unfolding A by blast
    ultimately have "quorate vv ?A" using sq.wt_mono by (meson quorate_def order_trans)
    with True c1(1,2) vi(2) fl step show ?thesis by (intro exI [of _ c1] exI [of _ vi]) simp
  next
    case False
    from Cons.IH [of "p\<lparr>vecClock := vi\<rparr>" c1] vi(2) Cons.prems c1(2) obtain c' vi' where
      "countObserved env h (p\<lparr>vecClock := vi\<rparr>) c1 rr = Some (c', p\<lparr>vecClock := vi'\<rparr>)" "run_inv vv G vi' D Df" "vi_flushed vi' = vi_flushed vi" "counter_inv vv c'"
      "HasQuorum c' \<longleftrightarrow> quorate vv (counted c1 \<union> root_idx vv ` {r \<in> set rr. fc_spec vv D h (rID r)})" by auto
    with False c1(1) fl step show ?thesis unfolding A [symmetric] by (intro exI [of _ c'] exI [of _ vi']) simp
  qed
qed

subsection \<open>The frame\<close>

text \<open>What a step of the checks may change: cached answers, in the index and in the store of roots.\<close>

definition same_but_caches :: "Validators \<Rightarrow> dag \<Rightarrow> dag \<Rightarrow> dag \<Rightarrow> 'a Poset \<Rightarrow> 'a Poset \<Rightarrow> bool" where
  "same_but_caches vv G D Df p p' \<longleftrightarrow> (\<exists>vi t. p' = p\<lparr>vecClock := vi, store := (store p)\<lparr>tRoots := t\<rparr>\<rparr> \<and> run_inv vv G vi D Df \<and>
     vi_flushed vi = vi_flushed (vecClock p) \<and> store_roots ((store p)\<lparr>tRoots := t\<rparr>) Df)"

lemma same_refl: "run_inv vv G (vecClock p) D Df \<Longrightarrow> store_roots (store p) Df \<Longrightarrow> same_but_caches vv G D Df p p"
  unfolding same_but_caches_def by (intro exI [of _ "vecClock p"] exI [of _ "tRoots (store p)"]) simp

lemma roots_at_new: "h \<notin> dom D \<Longrightarrow> eFrame e \<noteq> f \<or> \<not> eIsRoot e \<Longrightarrow> roots_at (D(h \<mapsto> e)) f = roots_at D f"
  by (auto simp: roots_at_def)

lemma quorum_check:
  assumes env: "env_ok env" "sane_group vv" and run: "run_inv vv G (vecClock p) (D(h \<mapsto> e)) D" "store_roots (store p) D" and vv: "p_Validators p = vv"
    and h: "h \<notin> dom D" "Hash (lib env) e = Some h" and f: "eFrame e \<noteq> f \<or> \<not> eIsRoot e" and v: "valid_dag vv D"
  shows "\<exists>p'. forklessCausedByQuorumOn env p e f = Some (quorate vv (seen_roots vv (D(h \<mapsto> e)) h f), p') \<and> same_but_caches vv G (D(h \<mapsto> e)) D p p'"
proof -
  let ?D = "D(h \<mapsto> e)"
  obtain rr t where rr: "Store_GetFrameRoots env (store p) f = Some (rr, (store p)\<lparr>tRoots := t\<rparr>)" "set rr = root_of D ` roots_at D f"
    "store_roots ((store p)\<lparr>tRoots := t\<rparr>) D" using store_roots_get [OF env(1) run(2)] by blast
  let ?p = "p\<lparr>store := (store p)\<lparr>tRoots := t\<rparr>\<rparr>"
  have dom: "rID ` set rr \<subseteq> dom ?D" unfolding rr(2) by (auto dest: roots_at_dom)
  have ex: "\<forall>r \<in> set rr. Exists vv (sValidator (rSlot r))" unfolding rr(2) by (auto simp: roots_at_def dest: valid_dagD(2) [OF v])
  have run': "run_inv vv G (vecClock ?p) ?D D" using run(1) by simp
  obtain c vi where c: "countObserved env h ?p (NewCounter vv) rr = Some (c, ?p\<lparr>vecClock := vi\<rparr>)" "run_inv vv G vi ?D D" "vi_flushed vi = vi_flushed (vecClock p)"
    "HasQuorum c \<longleftrightarrow> quorate vv (counted (NewCounter vv) \<union> root_idx vv ` {r \<in> set rr. fc_spec vv ?D h (rID r)})"
    using countObserved_counts [OF env run' _ dom ex counter_inv_NewCounter(1), of h] by auto
  have "root_idx vv ` {r \<in> set rr. fc_spec vv ?D h (rID r)} = seen_roots vv ?D h f"
  proof -
    let ?S = "{x \<in> roots_at D f. fc_spec vv ?D h x}"
    have "{r \<in> set rr. fc_spec vv ?D h (rID r)} = root_of D ` ?S" unfolding rr(2) by auto
    then have "root_idx vv ` {r \<in> set rr. fc_spec vv ?D h (rID r)} = creator_of vv D ` ?S" by (simp add: image_image creator_of_def)
    also have "\<dots> = creator_of vv ?D ` ?S"
    proof (rule image_cong [OF refl])
      fix x assume "x \<in> ?S"
      then have "x \<noteq> h" using roots_at_dom h(1) by blast
      then show "creator_of vv D x = creator_of vv ?D x" by (rule at_old(2) [symmetric])
    qed
    finally show ?thesis unfolding seen_roots_def roots_at_new [OF h(1) f] .
  qed
  with c(4) have "HasQuorum c \<longleftrightarrow> quorate vv (seen_roots vv ?D h f)" by simp
  then have "forklessCausedByQuorumOn env p e f = Some (quorate vv (seen_roots vv ?D h f), ?p\<lparr>vecClock := vi\<rparr>)"
    using c(1) rr(1) h(2) vv by (simp add: forklessCausedByQuorumOn_def p_GetFrameRoots_def)
  moreover have "same_but_caches vv G ?D D p (?p\<lparr>vecClock := vi\<rparr>)"
    unfolding same_but_caches_def by (intro exI [of _ vi] exI [of _ t]) (use c(2,3) rr(3) in simp)
  ultimately show ?thesis by blast
qed

lemma parentFrames_fold:
  assumes "\<forall>x \<in> set ps. input ep x = D x \<and> x \<in> dom D"
  shows "\<exists>m. foldM (parentFrames input ep e) (m0, s0) ps = Some (m, case SelfParent e of None \<Rightarrow> s0 | Some p \<Rightarrow> if p \<in> set ps then frame_of D p else s0)"
  using assms
proof (induction ps arbitrary: m0 s0)
  case (Cons x ps)
  obtain ex where "input ep x = Some ex" "D x = Some ex" using Cons.prems by auto
  moreover obtain m1 where "parentFrames input ep e (m0, s0) x = Some (m1, if IsSelfParent e x then eFrame ex else s0)"
    using calculation by (auto simp: parentFrames_def Let_def)
  moreover from Cons.IH [of m1 "if IsSelfParent e x then eFrame ex else s0"] Cons.prems obtain m where "foldM (parentFrames input ep e) (m1, if IsSelfParent e x then eFrame ex else s0) ps =
      Some (m, case SelfParent e of None \<Rightarrow> (if IsSelfParent e x then eFrame ex else s0) | Some p \<Rightarrow> if p \<in> set ps then frame_of D p else (if IsSelfParent e x then eFrame ex else s0))" by auto
  ultimately show ?case by (auto simp: IsSelfParent_def frame_of_def split: option.splits)
qed (simp split: option.split)

lemma self_frame_read:
  assumes "valid_event vv D e" "D \<subseteq>\<^sub>m input ep"
  shows "\<exists>m. foldM (parentFrames input ep e) (0, 0) (eParents e) = Some (m, self_frame D e)"
proof -
  have "\<forall>x \<in> set (eParents e). input ep x = D x \<and> x \<in> dom D" using assms by (force simp: valid_event_def map_le_def)
  from parentFrames_fold [of "eParents e" input ep D e 0 0] this show ?thesis
    by (auto simp: self_frame_def dest: SelfParent_in split: option.splits)
qed

lemma self_frame_grow: "valid_event vv D e \<Longrightarrow> h \<notin> dom D \<Longrightarrow> self_frame (D(h \<mapsto> f)) e = self_frame D e"
  by (auto simp: self_frame_def frame_of_def valid_event_def dest: SelfParent_in split: option.splits)

text \<open>The pending event meets the rule exactly when the frame and the flag it claims are those that are computed.\<close>

lemma calcFrameIdx_check:
  assumes env: "env_ok env" "sane_group vv" and run: "run_inv vv G (vecClock p) (D(h \<mapsto> e)) D" "store_roots (store p) D" and vv: "p_Validators p = vv"
    and h: "h \<notin> dom D" "Hash (lib env) e = Some h" and v: "valid_dag vv D" "valid_event vv D e" and get: "D \<subseteq>\<^sub>m input (p_EpochN p)"
  shows "\<exists>fr isr p'. calcFrameIdx env input p e True = Some ((fr, isr), p') \<and> same_but_caches vv G (D(h \<mapsto> e)) D p p' \<and>
     ((eIsRoot e = isr \<and> eFrame e = fr) \<longleftrightarrow> frame_rule vv (D(h \<mapsto> e)) h e)"
proof (cases "eParents e = []")
  case True
  then show ?thesis using same_refl [OF run] by (auto simp: calcFrameIdx_def frame_rule_def)
next
  case False
  let ?s = "self_frame D e"
  obtain m where fold: "foldM (parentFrames input (p_EpochN p) e) (0, 0) (eParents e) = Some (m, ?s)" using self_frame_read [of vv D e input "p_EpochN p"] v(2) get by blast
  have rule: "frame_rule vv (D(h \<mapsto> e)) h e \<longleftrightarrow> (if eIsRoot e then eFrame e = ?s + 1 \<and>
      (eFrame e \<le> 1 \<or> quorate vv (seen_roots vv (D(h \<mapsto> e)) h (eFrame e - 1))) else eFrame e = ?s)"
    using False by (simp add: frame_rule_def self_frame_grow [OF v(2) h(1)])
  consider "\<not> eIsRoot e \<or> eFrame e \<noteq> ?s + 1 \<or> eFrame e \<le> 1" | "eIsRoot e" "eFrame e = ?s + 1" "\<not> eFrame e \<le> 1" by blast
  then show ?thesis
  proof cases
    case 1
    then show ?thesis using same_refl [OF run] False fold unfolding rule by (auto simp: calcFrameIdx_def)
  next
    case 2
    have "eFrame e \<noteq> eFrame e - 1" by simp
    with quorum_check [OF env run vv h _ v(1)] obtain p' where
      "forklessCausedByQuorumOn env p e (eFrame e - 1) = Some (quorate vv (seen_roots vv (D(h \<mapsto> e)) h (eFrame e - 1)), p')"
      "same_but_caches vv G (D(h \<mapsto> e)) D p p'" by blast
    with 2 False fold show ?thesis unfolding rule by (simp add: calcFrameIdx_def)
  qed
qed

subsection \<open>Acceptance\<close>

text \<open>The rules an event must obey to be accepted, on the graph \<open>D\<close> of the events accepted before.\<close>

definition no_known_cheaters :: "Validators \<Rightarrow> dag \<Rightarrow> EventHeaderData \<Rightarrow> bool" where
  "no_known_cheaters vv D e \<longleftrightarrow> (\<forall>s. SelfParent e = Some s \<longrightarrow> (\<forall>x \<in> set (eParents e). \<not> forked vv D (past D s) (creator_of vv D x)))"

definition accepts :: "poset_env \<Rightarrow> 'a Poset \<Rightarrow> dag \<Rightarrow> hash_event \<Rightarrow> EventHeaderData \<Rightarrow> bool" where
  "accepts env p D h e \<longleftrightarrow> eEpoch e = p_EpochN p \<and> Exists (p_Validators p) (eCreator e) \<and>
     ePrevEpochHash e = (if eSeq e \<le> 1 then GenesisState_Hash env (p_PrevEpoch p) else hash_Zero) \<and>
     no_known_cheaters (p_Validators p) D e \<and> frame_rule (p_Validators p) (D(h \<mapsto> e)) h e \<and>
     eMedianTime e = median_of (p_Validators p) (D(h \<mapsto> e)) h (gsTime (p_PrevEpoch p))"

lemma NoCheaters_all:
  assumes "index_inv vi D" "valid_event (vi_validators vi) D e" "D \<subseteq>\<^sub>m getEvent"
  shows "\<exists>kept. NoCheaters getEvent vi (SelfParent e) (eParents e) = Some kept \<and>
     (length kept = length (eParents e) \<longleftrightarrow> no_known_cheaters (vi_validators vi) D e)"
proof (cases "SelfParent e")
  case (Some s)
  have sub: "set (eParents e) \<subseteq> dom D" "s \<in> dom D" using assms(2) SelfParent_in [OF Some] by (auto simp: valid_event_def)
  have "length (filter P xs) = length xs \<longleftrightarrow> (\<forall>x \<in> set xs. P x)" for P and xs :: "hash_event list"
    by (metis filter_id_conv filter_True length_filter_less less_irrefl)
  with NoCheaters_spec [OF assms(1) sub(2,1) assms(3)] Some show ?thesis by (simp add: no_known_cheaters_def)
qed (simp add: NoCheaters_def no_known_cheaters_def)

text \<open>
  The part of the node's state that the checks rely on: index and store of roots for the graph \<open>D\<close>,
  with the table of vectors in the store.
\<close>

definition indexed :: "poset_env \<Rightarrow> dag \<Rightarrow> 'a Poset \<Rightarrow> dag \<Rightarrow> bool" where
  "indexed env G p D \<longleftrightarrow> sane_group (p_Validators p) \<and> run_inv (p_Validators p) G (vecClock p) D D \<and> store_roots (store p) D \<and>
     tVectorIndex (store p) = vi_flushed (vecClock p)"

text \<open>What the checks leave as it was.\<close>

definition same_core :: "'a Poset \<Rightarrow> 'a Poset \<Rightarrow> bool" where
  "same_core p p' \<longleftrightarrow> (\<exists>vi t v. p' = p\<lparr>vecClock := vi, store := (store p)\<lparr>tRoots := t, tVectorIndex := v\<rparr>\<rparr>)"

lemma same_core_refl: "same_core p p"
  unfolding same_core_def by (intro exI [of _ "vecClock p"] exI [of _ "tRoots (store p)"] exI [of _ "tVectorIndex (store p)"]) simp

lemma store_roots_vectors [simp]: "store_roots (s\<lparr>tVectorIndex := v\<rparr>) D = store_roots s D"
  by (simp add: store_roots_def)

text \<open>The last part: flushing the index and storing a root.\<close>

definition saved :: "poset_env \<Rightarrow> 'a Poset \<Rightarrow> EventHeaderData \<Rightarrow> 'a Poset option" where
  "saved env p e = (let p = p_Flush p in do {
     s \<leftarrow> (if eIsRoot e then Store_AddRoot env (store p) e else Some (store p));
     Some (dropNotFlushed (p\<lparr>store := s\<rparr>)) })"

lemma saved_indexed:
  assumes "env_ok env" "sane_group (p_Validators p)" "run_inv (p_Validators p) G (vecClock p) (D(h \<mapsto> e)) D" "store_roots (store p) D"
    and "h \<notin> dom D" "Hash (lib env) e = Some h" "length h = 32"
  shows "\<exists>p'. saved env p e = Some p' \<and> same_core p p' \<and> indexed env G p' (D(h \<mapsto> e))"
proof -
  let ?s = "(store p)\<lparr>tVectorIndex := vi_flushed (Flush (vecClock p))\<rparr>"
  have s: "store_roots ?s D" using assms(4) by simp
  obtain t where t: "(if eIsRoot e then Store_AddRoot env ?s e else Some ?s) = Some (?s\<lparr>tRoots := t\<rparr>)" "store_roots (?s\<lparr>tRoots := t\<rparr>) (D(h \<mapsto> e))"
  proof (cases "eIsRoot e")
    case True
    with store_roots_add [OF assms(1) s assms(5-7)] that show thesis by auto
  next
    case False
    with store_roots_skip [OF s assms(5)] that [of "tRoots ?s"] show thesis by simp
  qed
  let ?p = "p\<lparr>vecClock := DropNotFlushed (Flush (vecClock p)), store := ?s\<lparr>tRoots := t\<rparr>\<rparr>"
  have "saved env p e = Some ?p" using t(1) by (cases "eIsRoot e") (simp_all add: saved_def p_Flush_def Let_def dropNotFlushed_def)
  moreover have "same_core p ?p" unfolding same_core_def
    by (intro exI [of _ "DropNotFlushed (Flush (vecClock p))"] exI [of _ t] exI [of _ "vi_flushed (Flush (vecClock p))"]) simp
  moreover have "indexed env G ?p (D(h \<mapsto> e))"
    using assms(2) run_inv_drop [OF run_inv_flush [OF assms(3)]] t(2) by (simp add: indexed_def DropNotFlushed_def)
  ultimately show ?thesis by blast
qed

lemma checkAndSaveEvent_checks:
  assumes env: "env_ok env" and ix: "indexed env G p D" and h: "h \<notin> dom D" "Hash (lib env) e = Some h" "length h = 32" "G h = Some e"
    and v: "valid_event (p_Validators p) D e" and get: "D \<subseteq>\<^sub>m input (p_EpochN p)" and room: "Validators_Len (p_Validators p) + card (dom D) < 2 ^ 32"
    and ep: "eEpoch e = p_EpochN p"
  shows "\<exists>err p'. checkAndSaveEvent env input p e = Some (err, p') \<and> (err = None \<longleftrightarrow> accepts env p D h e) \<and> same_core p p' \<and>
     indexed env G p' (if err = None then D(h \<mapsto> e) else D)"
proof -
  let ?vv = "p_Validators p" and ?D = "D(h \<mapsto> e)" and ?g = "gsTime (p_PrevEpoch p)"
  let ?hash = "ePrevEpochHash e = (if eSeq e \<le> 1 then GenesisState_Hash env (p_PrevEpoch p) else hash_Zero)"
  note ix = ix [unfolded indexed_def]
  have run: "run_inv ?vv G (vecClock p) D D" "store_roots (store p) D" and sane: "sane_group ?vv" and tab: "tVectorIndex (store p) = vi_flushed (vecClock p)" using ix by blast+
  have idx: "index_inv (vecClock p) D" "vi_validators (vecClock p) = ?vv" using run(1) by (simp_all add: run_inv_def)
  have vd: "valid_dag ?vv D" using index_invD(2) [OF idx(1)] idx(2) by simp
  have acc: "accepts env p D h e \<longleftrightarrow> ?hash \<and> no_known_cheaters ?vv D e \<and> frame_rule ?vv ?D h e \<and> eMedianTime e = median_of ?vv ?D h ?g"
    using ep v by (simp add: accepts_def valid_event_def)
  have keep: "same_core p p" "indexed env G p D" using ix same_core_refl unfolding indexed_def by blast+
  obtain kept where kept: "NoCheaters (input (p_EpochN p)) (vecClock p) (SelfParent e) (eParents e) = Some kept" "length kept = length (eParents e) \<longleftrightarrow> no_known_cheaters ?vv D e"
    using NoCheaters_all [OF idx(1) _ get, of e] v idx(2) by auto
  obtain vi where vi: "Add (lib env) (input (p_EpochN p)) (vecClock p) e = Some vi" "run_inv ?vv G vi ?D D" "vi_flushed vi = vi_flushed (vecClock p)"
    using index_pending [OF run(1) h(2,1,4) v get room] by blast
  have run': "run_inv ?vv G (vecClock (p\<lparr>vecClock := vi\<rparr>)) ?D D" "store_roots (store (p\<lparr>vecClock := vi\<rparr>)) D" using vi(2) run(2) by simp_all
  have get': "D \<subseteq>\<^sub>m input (p_EpochN (p\<lparr>vecClock := vi\<rparr>))" and vv': "p_Validators (p\<lparr>vecClock := vi\<rparr>) = ?vv" using get by simp_all
  obtain fr isr p1 where calc: "calcFrameIdx env input (p\<lparr>vecClock := vi\<rparr>) e True = Some ((fr, isr), p1)" "same_but_caches ?vv G ?D D (p\<lparr>vecClock := vi\<rparr>) p1"
    "(eIsRoot e = isr \<and> eFrame e = fr) \<longleftrightarrow> frame_rule ?vv ?D h e"
    using calcFrameIdx_check [where input = input, OF env sane run' vv' h(1,2) vd v get'] by blast
  then obtain vi1 t where p1: "p1 = p\<lparr>vecClock := vi1, store := (store p)\<lparr>tRoots := t\<rparr>\<rparr>" "run_inv ?vv G vi1 ?D D" "vi_flushed vi1 = vi_flushed (vecClock p)"
    "store_roots ((store p)\<lparr>tRoots := t\<rparr>) D" using vi(3) by (auto simp: same_but_caches_def)
  have med: "MedianTime (vecClock p1) h ?g = Some (median_of ?vv ?D h ?g)"
    using MedianTime_eq [of vi1 ?D h ?g] p1(1,2) by (simp add: run_inv_def)
  have drop: "same_core p (dropNotFlushed p1)" "indexed env G (dropNotFlushed p1) D"
  proof -
    show "same_core p (dropNotFlushed p1)" unfolding same_core_def dropNotFlushed_def p1(1)
      by (intro exI [of _ "DropNotFlushed vi1"] exI [of _ t] exI [of _ "tVectorIndex (store p)"]) simp
    show "indexed env G (dropNotFlushed p1) D"
      using sane run_inv_drop [OF p1(2)] p1(3,4) tab unfolding indexed_def dropNotFlushed_def p1(1) by (simp add: DropNotFlushed_def)
  qed
  consider "\<not> ?hash" | "?hash" "\<not> no_known_cheaters ?vv D e" | "?hash" "no_known_cheaters ?vv D e" "\<not> frame_rule ?vv ?D h e"
    | "?hash" "no_known_cheaters ?vv D e" "frame_rule ?vv ?D h e" "eMedianTime e \<noteq> median_of ?vv ?D h ?g" | "accepts env p D h e" using acc by blast
  then show ?thesis
  proof cases
    case 1
    then have "\<exists>err. checkAndSaveEvent env input p e = Some (Some err, p)" by (auto simp: checkAndSaveEvent_def not_le split: if_splits)
    with 1 acc keep show ?thesis by auto
  next
    case 2
    then have "\<exists>err. checkAndSaveEvent env input p e = Some (Some err, p)" using kept by (auto simp: checkAndSaveEvent_def not_le split: if_splits)
    with 2 acc keep show ?thesis by auto
  next
    case 3
    then have "\<exists>err. checkAndSaveEvent env input p e = Some (Some err, dropNotFlushed p1)"
      using kept vi(1) calc(1,3) by (auto simp: checkAndSaveEvent_def not_le split: if_splits)
    with 3 acc drop show ?thesis by auto
  next
    case 4
    then have "checkAndSaveEvent env input p e = Some (Some ErrWrongMedianTime, dropNotFlushed p1)"
      using kept vi(1) calc(1,3) med h(2) p1(1) by (auto simp: checkAndSaveEvent_def not_le split: if_splits)
    with 4 acc drop show ?thesis by auto
  next
    case 5
    obtain p' where p': "saved env p1 e = Some p'" "same_core p1 p'" "indexed env G p' ?D"
      using saved_indexed [OF env, of p1 G D h e] sane p1(2,4) h(1-3) unfolding p1(1) by auto
    have "same_core p p'" using p'(2) unfolding same_core_def p1(1) by auto
    moreover have "checkAndSaveEvent env input p e = Some (None, p')"
    proof -
      from p'(1) obtain s where s: "(if eIsRoot e then Store_AddRoot env (store (p_Flush p1)) e else Some (store (p_Flush p1))) = Some s"
        "p' = dropNotFlushed ((p_Flush p1)\<lparr>store := s\<rparr>)" unfolding saved_def Let_def Option.bind_eq_Some_conv by auto
      have "\<not> (eSeq e \<le> 1 \<and> ePrevEpochHash e \<noteq> GenesisState_Hash env (p_PrevEpoch p))" "\<not> (eSeq e > 1 \<and> ePrevEpochHash e \<noteq> hash_Zero)"
        "length kept = length (eParents e)" "eIsRoot e = isr" "eFrame e = fr" "eMedianTime e = median_of ?vv ?D h ?g"
        using 5 [unfolded acc] kept(2) calc(3) by (auto split: if_splits)
      moreover have "p_PrevEpoch p1 = p_PrevEpoch p" unfolding p1(1) by simp
      ultimately show ?thesis using kept(1) vi(1) calc(1) med h(2) s
        by (simp add: checkAndSaveEvent_def Let_def del: not_less not_le)
    qed
    ultimately show ?thesis using 5 p'(3) by auto
  qed
qed

end
