(* ===== verification/Voting.thy ===== *)
theory Voting
  imports Acceptance
begin

text \<open>
  The elections of a node over the graph it knows. The invariant below holds at every point
  between two events; under it the loops over the known roots end, every root above the frame to
  decide has voted, and the votes are a run of the elections of \<open>Frames\<close>, whose outcome is the
  same on all nodes.
\<close>

subsection \<open>Elections over a growing graph\<close>

definition few_forks :: "Validators \<Rightarrow> dag \<Rightarrow> bool" where
  "few_forks vv D \<longleftrightarrow> 3 * stake_weight vv {c. forked vv D (dom D) c} \<le> stake_total vv"

lemma world_ok_iff: "world_ok (vv, D) \<longleftrightarrow> sane_group vv \<and> valid_dag vv D \<and> frames_ok vv D \<and> few_forks vv D"
  by (simp add: world_ok_def few_forks_def)

lemma few_forks_mono:
  assumes "D \<subseteq>\<^sub>m U" "few_forks vv U"
  shows "few_forks vv D"
proof -
  have "dom D \<subseteq> dom U" using assms(1) by (auto simp: map_le_def dom_def)
  then have "{c. forked vv D (dom D) c} \<subseteq> {c. forked vv U (dom U) c}"
    using forked_submap [OF assms(1) order_refl] forked_mono by blast
  then have "stake_weight vv {c. forked vv D (dom D) c} \<le> stake_weight vv {c. forked vv U (dom U) c}" by (rule sq.wt_mono)
  with assms(2) show ?thesis unfolding few_forks_def by linarith
qed

lemma fc_spec_past:
  assumes "sane_group vv" "fc_spec vv D a b"
  shows "b \<in> past D a"
proof -
  have "seers vv D a b \<noteq> {}" using assms not_quorate_empty by (auto simp: fc_spec_def)
  then show ?thesis using past_trans by (auto simp: seers_def)
qed

lemma roots_at_submap: "D \<subseteq>\<^sub>m U \<Longrightarrow> x \<in> dom D \<Longrightarrow> x \<in> roots_at U f \<longleftrightarrow> x \<in> roots_at D f"
  by (simp add: roots_at_def map_le_def)

lemma root_of_submap: "D \<subseteq>\<^sub>m U \<Longrightarrow> x \<in> dom D \<Longrightarrow> root_of U x = root_of D x"
  by (simp add: root_of_def at_submap)

text \<open>What a root sees does not change when the graph grows.\<close>

lemma seen_submap:
  assumes "sane_group vv" "valid_dag vv D" "D \<subseteq>\<^sub>m U" "x \<in> dom D"
  shows "y \<in> roots_at U f \<and> fc_spec vv U x y \<longleftrightarrow> y \<in> roots_at D f \<and> fc_spec vv D x y"
proof -
  have p: "past U x = past D x" "past D x \<subseteq> dom D" using past_submap [OF assms(2-4)] past_closed [OF assms(2,4)] by auto
  show ?thesis
  proof (cases "y \<in> dom D")
    case True
    then show ?thesis using roots_at_submap [OF assms(3)] fc_spec_submap [OF assms(2-4)] by simp
  next
    case False
    then show ?thesis using fc_spec_past [OF assms(1), of U x y] p roots_at_dom by blast
  qed
qed

lemma frame_rule_submap:
  assumes "sane_group vv" "valid_dag vv D" "D \<subseteq>\<^sub>m U" "D x = Some e"
  shows "frame_rule vv U x e = frame_rule vv D x e"
proof -
  have x: "x \<in> dom D" using assms(4) by blast
  have "self_frame U e = self_frame D e"
  proof (cases "SelfParent e")
    case (Some s)
    then have "s \<in> dom D" using SelfParent_in valid_dagD(3) [OF assms(2,4)] by blast
    with Some at_submap [OF assms(3)] show ?thesis by (simp add: self_frame_def)
  qed (simp add: self_frame_def)
  moreover have "seen_roots vv U x f = seen_roots vv D x f" for f
  proof -
    have "{r \<in> roots_at U f. fc_spec vv U x r} = {r \<in> roots_at D f. fc_spec vv D x r}" using seen_submap [OF assms(1-3) x] by blast
    moreover have "creator_of vv U r = creator_of vv D r" if "r \<in> roots_at D f" for r using at_submap [OF assms(3) roots_at_dom [OF that]] by simp
    ultimately show ?thesis unfolding seen_roots_def by (metis (no_types, lifting) image_cong mem_Collect_eq)
  qed
  ultimately show ?thesis by (simp add: frame_rule_def)
qed

lemma frames_ok_grow:
  assumes "sane_group vv" "valid_dag vv D" "frames_ok vv D" "h \<notin> dom D" "frame_rule vv (D(h \<mapsto> e)) h e"
  shows "frames_ok vv (D(h \<mapsto> e))"
proof -
  have sub: "D \<subseteq>\<^sub>m D(h \<mapsto> e)" using assms(4) by (auto simp: map_le_def)
  have "frame_rule vv (D(h \<mapsto> e)) x f" if "(D(h \<mapsto> e)) x = Some f" for x f
  proof (cases "x = h")
    case False
    then have x: "D x = Some f" using that by simp
    then have "frame_rule vv D x f" using assms(3) by (simp add: frames_ok_def)
    with frame_rule_submap [OF assms(1,2) sub x] show ?thesis by simp
  qed (use that assms(5) in simp)
  then show ?thesis by (simp add: frames_ok_def)
qed

lemma elect_run_submap:
  assumes "sane_group vv" "valid_dag vv D" "D \<subseteq>\<^sub>m U"
  shows "elect_run vv D F P el \<Longrightarrow> elect_run vv U F P el"
proof (induction rule: elect_run.induct)
  case elect_new
  show ?case by (rule elect_run.elect_new)
next
  case (elect_root P el x f rs observe g res el')
  have x: "x \<in> dom D" using roots_at_dom [OF elect_root.hyps(2)] .
  note seen = seen_submap [OF assms x]
  have r: "root_of U x = root_of D x" "frame_of U x = frame_of D x" using root_of_submap [OF assms(3) x] at_submap [OF assms(3) x] by auto
  have same: "root_of D ` roots_at D k \<subseteq> root_of U ` roots_at U k" for k
  proof
    fix r assume "r \<in> root_of D ` roots_at D k"
    then obtain y where y: "r = root_of D y" "y \<in> roots_at D k" by blast
    then show "r \<in> root_of U ` roots_at U k" using root_of_submap [OF assms(3)] roots_at_submap [OF assms(3)] roots_at_dom by (metis imageI)
  qed
  have ids: "rID r \<in> dom D" if "r \<in> set rs" for r
  proof -
    have "r \<in> root_of D ` roots_at D (frame_of D x - 1)" using elect_root.hyps(4) that unfolding lists_roots_def Let_def by blast
    then obtain y where "r = root_of D y" "y \<in> dom D" using roots_at_dom by blast
    then show ?thesis by simp
  qed
  show ?case
  proof (rule elect_run.elect_root [OF elect_root.IH])
    show "x \<in> roots_at U f" using elect_root.hyps(2) roots_at_submap [OF assms(3) x] by simp
    show "F < f - 1 \<longrightarrow> (\<forall>y \<in> roots_at U (f - 1). fc_spec vv U x y \<longrightarrow> y \<in> P)" using elect_root.hyps(3) seen by blast
    have "root_of U y \<in> set rs" if "y \<in> roots_at U (frame_of D x - 1)" "fc_spec vv U x y" for y
    proof -
      have y: "y \<in> roots_at D (frame_of D x - 1)" "fc_spec vv D x y" using seen that by blast+
      then show ?thesis using elect_root.hyps(4) root_of_submap [OF assms(3) roots_at_dom [OF y(1)]] by (auto simp: lists_roots_def Let_def)
    qed
    then show "lists_roots vv U rs x" using elect_root.hyps(4) same unfolding lists_roots_def Let_def r(2) by blast
    show "answers observe g (fc_spec vv U) rs (root_of U x)"
      using elect_root.hyps(5) ids fc_spec_submap [OF assms(2,3) x] unfolding answers_def r by simp
    show "ProcessRoot observe g el (root_of U x) = Some (Inr (res, el'))" using elect_root.hyps(6) r by simp
  qed
qed

lemma ProcessRoot_choose:
  assumes "ProcessRoot observe g el r = Some (Inr (res, el'))"
  shows "chooseAtropos el' = Inr res"
proof (cases "chooseAtropos el")
  case (Inr c)
  then show ?thesis
  proof (cases c)
    case None
    show ?thesis
    proof (cases "sFrame (rSlot r) \<le> frameToDecide el \<or> unat (sFrame (rSlot r) - frameToDecide el) = 0")
      case False
      with assms Inr None obtain x where "(case chooseAtropos x of Inl err \<Rightarrow> Some (Inl err) | Inr r \<Rightarrow> Some (Inr (r, x))) = Some (Inr (res, el'))"
        by (auto simp: ProcessRoot_def Let_def Option.bind_eq_Some_conv try_bind_eq_Inr simp del: case_err_eq)
      then show ?thesis by (auto split: sum.splits)
    qed (use assms Inr None in \<open>auto simp: ProcessRoot_def Let_def split: if_splits\<close>)
  qed (use assms in \<open>auto simp: ProcessRoot_def\<close>)
qed (use assms in \<open>auto simp: ProcessRoot_def\<close>)

lemma decided_above:
  assumes w: "world_ok (vv, U)" and F: "F \<noteq> 0" and run: "elect_run vv U F P el" and res: "chooseAtropos el = Inr (Some r)"
  shows "res_Frame r = F" "res_Atropos r \<in> roots_at U F" "roots_at U (F + 1) \<noteq> {}" "F < F + 1"
proof -
  show "res_Frame r = F" "res_Atropos r \<in> roots_at U F" using elect_run_atropos [OF assms] by blast+
  have inv: "ew.el_inv (vv, U) (unat F) el" using elect_run_inv [OF w F run] by blast
  have "\<exists>s v. m s = Some v \<and> yes v" if "chooseAtropos_loop f m ids = Inr (Some r)" for f m ids
    using that by (induction ids) (force split: option.splits if_splits)+
  with res obtain s v where "map_of (decidedRoots el) s = Some v" "yes v" unfolding chooseAtropos_def by blast
  with inv obtain k q where "ew.good_vote (vv, U) (unat F) (Suc k) q s v" unfolding ew.el_inv_def by blast
  with \<open>yes v\<close> have "ew.candidate (vv, U) (unat F) s (observedRoot v)" by (simp add: ew.good_vote_def)
  then obtain a where "a \<in> world_roots (vv, U) (Suc (unat F))" by (auto simp: ew.candidate_def)
  then obtain x g where x: "x \<in> roots_at U g" "unat g = Suc (unat F)" by (auto simp: world_roots_def)
  then have "unat g = unat F + 1" "unat F + 1 < 2 ^ 32" using unsigned_less [of g, where 'a = nat] by simp_all
  then have "unat (F + 1) = unat g" using unat_Suc_word [of F] by simp
  then have "g = F + 1" by (simp add: word_unat_eq_iff)
  with x show "roots_at U (F + 1) \<noteq> {}" "F < F + 1" by (auto simp: word_less_nat_alt)
qed

lemma root_below:
  assumes w: "world_ok (vv, U)" and x: "x \<in> roots_at U g"
  shows "k \<noteq> 0 \<Longrightarrow> k \<le> g \<Longrightarrow> roots_at U k \<noteq> {}"
proof -
  have "roots_at U k \<noteq> {}" if "n + unat k = unat g" "k \<noteq> 0" for n k
    using that
  proof (induction n arbitrary: k)
    case 0
    then have "k = g" by (simp add: word_unat_eq_iff)
    with x show ?case by blast
  next
    case (Suc n)
    have "unat k + 1 < 2 ^ 32" using Suc.prems unsigned_less [of g, where 'a = nat] by simp
    then have k1: "unat (k + 1) = unat k + 1" using unat_Suc_word [of k] by simp
    then have "k + 1 \<noteq> 0" by (metis Suc_eq_plus1 nat.simps(3) unat_0)
    with Suc.IH [of "k + 1"] Suc.prems k1 obtain y where y: "y \<in> roots_at U (k + 1)" by auto
    then obtain e where e: "U y = Some e" "eIsRoot e" "eFrame e = k + 1" by (auto simp: roots_at_def)
    have fr: "frame_rule vv U y e" using w e(1) by (simp add: world_ok_iff frames_ok_def)
    have "\<not> k + 1 \<le> 1" using Suc.prems(2) k1 by (simp add: word_le_nat_alt unat_gt_0)
    then have "quorate vv (seen_roots vv U y k)" using fr e by (auto simp: frame_rule_def split: if_splits)
    then have "seen_roots vv U y k \<noteq> {}" using w not_quorate_empty by (auto simp: world_ok_iff)
    then show ?case by (auto simp: seen_roots_def)
  qed
  then show "k \<noteq> 0 \<Longrightarrow> k \<le> g \<Longrightarrow> roots_at U k \<noteq> {}" by (metis le_add_diff_inverse2 word_le_nat_alt)
qed

lemma no_root_zero:
  assumes "world_ok (vv, U)"
  shows "roots_at U 0 = {}"
proof (rule ccontr)
  assume "roots_at U 0 \<noteq> {}"
  then obtain x e where e: "U x = Some e" "eIsRoot e" "eFrame e = 0" by (auto simp: roots_at_def)
  have v: "valid_dag vv U" "frames_ok vv U" using assms by (simp_all add: world_ok_iff)
  have fr: "frame_rule vv U x e" using v(2) e(1) by (simp add: frames_ok_def)
  show False
  proof (cases "SelfParent e")
    case None
    then show ?thesis using fr e by (auto simp: frame_rule_def self_frame_def split: if_splits)
  next
    case (Some s)
    then have "frame_of U s < frame_of U x" using self_frame_step(2) [OF v e(1)] e(2) by blast
    then show ?thesis using e by (simp add: frame_of_def)
  qed
qed

subsection \<open>Invariant\<close>

definition graph_ok :: "poset_env \<Rightarrow> dag \<Rightarrow> 'a Poset \<Rightarrow> dag \<Rightarrow> bool" where
  "graph_ok env G p D \<longleftrightarrow> world_ok (p_Validators p, D) \<and> ids_ok (lib env) D \<and> D \<subseteq>\<^sub>m G \<and> (\<forall>x e. D x = Some e \<longrightarrow> length x = 32 \<and> eEpoch e = p_EpochN p)"

definition blocks_ok :: "dag \<Rightarrow> 'a Poset \<Rightarrow> dag \<Rightarrow> bool" where
  "blocks_ok G p D \<longleftrightarrow> confirmed_readable (store p) \<and> closedDbs (store p) = Map.empty \<and>
     (\<forall>h. confirmed (store p) h \<longrightarrow> h \<in> dom D \<or> (\<exists>e. G h = Some e \<and> eEpoch e < p_EpochN p)) \<and>
     down_closed D {h \<in> dom D. confirmed (store p) h} \<and>
     (\<forall>f. f \<noteq> 0 \<longrightarrow> f \<le> LastDecidedFrame (checkpoint p) \<longrightarrow> GetFrameInfo (store p) (p_EpochN p) f \<noteq> None)"

abbreviation frame_now :: "'a Poset \<Rightarrow> Frame" where
  "frame_now p \<equiv> LastDecidedFrame (checkpoint p) + 1"

definition voted :: "'a Poset \<Rightarrow> dag \<Rightarrow> hash_event set \<Rightarrow> bool" where
  "voted p D P \<longleftrightarrow> elect_run (p_Validators p) D (frame_now p) P (election p)"

definition base_inv :: "poset_env \<Rightarrow> dag \<Rightarrow> 'a Poset \<Rightarrow> dag \<Rightarrow> bool" where
  "base_inv env G p D \<longleftrightarrow> indexed env G p D \<and> graph_ok env G p D \<and> blocks_ok G p D \<and> frame_now p \<noteq> 0"

definition node_inv :: "poset_env \<Rightarrow> dag \<Rightarrow> 'a Poset \<Rightarrow> dag \<Rightarrow> bool" where
  "node_inv env G p D \<longleftrightarrow> base_inv env G p D \<and> (\<exists>P. voted p D P \<and> (\<forall>x f. x \<in> roots_at D f \<longrightarrow> frame_now p < f \<longrightarrow> x \<in> P))"

subsection \<open>Voting\<close>

lemma processRoot_votes:
  assumes env: "env_ok env" and inv: "base_inv env G p D" and run: "voted p D P" and x: "x \<in> roots_at D f"
    and prev: "frame_now p < f - 1 \<longrightarrow> (\<forall>y \<in> roots_at D (f - 1). fc_spec (p_Validators p) D x y \<longrightarrow> y \<in> P)"
  shows "\<exists>res el. processRoot env p (root_of D x) = Some (res, p\<lparr>election := el\<rparr>) \<and> voted (p\<lparr>election := el\<rparr>) D (insert x P) \<and> chooseAtropos el = Inr res"
proof -
  let ?vv = "p_Validators p"
  have i: "run_inv ?vv G (vecClock p) D D" "store_roots (store p) D" "world_ok (?vv, D)" "frame_now p \<noteq> 0"
    using inv by (simp_all add: base_inv_def indexed_def graph_ok_def)
  have f: "frame_of D x = f" using roots_frame [OF x] .
  obtain rs t where rs: "Store_GetFrameRoots env (store p) (f - 1) = Some (rs, (store p)\<lparr>tRoots := t\<rparr>)" "distinct rs" "set rs = root_of D ` roots_at D (f - 1)"
    using store_roots_get [OF env i(2)] by blast
  have lists: "lists_roots ?vv D rs x" using rs(2,3) by (auto simp: lists_roots_def f Let_def)
  have ev: "\<forall>m. evictFC env m \<subseteq>\<^sub>m m" using env by (simp add: env_ok_def)
  have "observeFn env p x (rID y) = Some (fc_spec ?vv D x (rID y))" if "y \<in> set rs" for y
  proof -
    have "rID y \<in> dom D" using that unfolding rs(3) by (auto dest: roots_at_dom)
    from ForklessCause_eq [OF i(1) ev roots_at_dom [OF x] this] show ?thesis by (auto simp: observeFn_def)
  qed
  then have ans: "answers (observeFn env p) (frameRootsFn env p) (fc_spec ?vv D) rs (root_of D x)"
    using rs(1) by (simp add: answers_def f frameRootsFn_def)
  obtain res el where el: "ProcessRoot (observeFn env p) (frameRootsFn env p) (election p) (root_of D x) = Some (Inr (res, el))"
    "elect_run ?vv D (frame_now p) (insert x P) el"
    using elect_run_step [OF i(3,4) run [unfolded voted_def] x prev lists ans] by blast
  with ProcessRoot_choose [OF el(1)] show ?thesis by (intro exI [of _ res] exI [of _ el]) (simp add: processRoot_def voted_def)
qed

lemma base_inv_election [simp]: "base_inv env G (p\<lparr>election := el\<rparr>) D = base_inv env G p D"
  by (simp add: base_inv_def indexed_def graph_ok_def blocks_ok_def)

lemma tRoots_irrelevant [simp]:
  "confirmed_readable (s\<lparr>tRoots := t\<rparr>) = confirmed_readable s" "confirmed (s\<lparr>tRoots := t\<rparr>) h = confirmed s h" "GetFrameInfo (s\<lparr>tRoots := t\<rparr>) ep f = GetFrameInfo s ep f"
  by (simp_all add: confirmed_readable_def confirmed_def GetEventConfirmedOn_def GetFrameInfo_def)

lemma base_inv_roots: "base_inv env G p D \<Longrightarrow> store_roots ((store p)\<lparr>tRoots := t\<rparr>) D \<Longrightarrow> base_inv env G (p\<lparr>store := (store p)\<lparr>tRoots := t\<rparr>\<rparr>) D"
  by (simp add: base_inv_def indexed_def graph_ok_def blocks_ok_def)

lemma voted_store [simp]: "voted (p\<lparr>store := s\<rparr>) D P = voted p D P"
  by (simp add: voted_def)

lemma processRoots_votes:
  assumes env: "env_ok env"
  shows "base_inv env G p D \<Longrightarrow> voted p D P \<Longrightarrow> set xs \<subseteq> roots_at D f \<Longrightarrow>
    (frame_now p < f - 1 \<longrightarrow> roots_at D (f - 1) \<subseteq> P) \<Longrightarrow>
    \<exists>res el P'. processRoots env p (map (root_of D) xs) = Some (res, p\<lparr>election := el\<rparr>) \<and> voted (p\<lparr>election := el\<rparr>) D P' \<and>
      (res = None \<longrightarrow> P' = P \<union> set xs) \<and> (res \<noteq> None \<longrightarrow> chooseAtropos el = Inr res)"
proof (induction xs arbitrary: p P)
  case Nil
  then show ?case by (intro exI [of _ None] exI [of _ "election p"] exI [of _ P]) simp
next
  case (Cons x xs)
  have x: "x \<in> roots_at D f" using Cons.prems(3) by simp
  have prev: "frame_now p < f - 1 \<longrightarrow> (\<forall>y \<in> roots_at D (f - 1). fc_spec (p_Validators p) D x y \<longrightarrow> y \<in> P)" using Cons.prems(4) by blast
  obtain res el where el: "processRoot env p (root_of D x) = Some (res, p\<lparr>election := el\<rparr>)" "voted (p\<lparr>election := el\<rparr>) D (insert x P)" "chooseAtropos el = Inr res"
    using processRoot_votes [OF env Cons.prems(1,2) x prev] by blast
  show ?case
  proof (cases res)
    case None
    have h: "base_inv env G (p\<lparr>election := el\<rparr>) D" "frame_now (p\<lparr>election := el\<rparr>) < f - 1 \<longrightarrow> roots_at D (f - 1) \<subseteq> insert x P" "set xs \<subseteq> roots_at D f"
      using Cons.prems by auto
    obtain res' el' P' where r: "processRoots env (p\<lparr>election := el\<rparr>) (map (root_of D) xs) = Some (res', p\<lparr>election := el'\<rparr>)" "voted (p\<lparr>election := el'\<rparr>) D P'"
      "res' = None \<longrightarrow> P' = insert x P \<union> set xs" "res' \<noteq> None \<longrightarrow> chooseAtropos el' = Inr res'"
      using Cons.IH [OF h(1) el(2) h(3,2)] by auto
    with None el(1) show ?thesis by (intro exI [of _ res'] exI [of _ el'] exI [of _ P']) auto
  next
    case (Some r)
    with el show ?thesis by (intro exI [of _ res] exI [of _ el] exI [of _ "insert x P"]) simp
  qed
qed

text \<open>
  The loop over the frames: it ends at the first frame without roots, and then every known root
  above the frame to decide has voted, since the frames of the roots have no gaps.
\<close>

lemma knownRootsFrom_votes:
  assumes env: "env_ok env"
  shows "base_inv env G p D \<Longrightarrow> voted p D P \<Longrightarrow> f = 0 \<or> frame_now p \<le> f \<Longrightarrow>
    (\<And>x g. x \<in> roots_at D g \<Longrightarrow> frame_now p < g \<Longrightarrow> f = 0 \<or> g < f \<Longrightarrow> x \<in> P) \<Longrightarrow>
    \<exists>res el t P'. knownRootsFrom env p f = Some (res, p\<lparr>election := el, store := (store p)\<lparr>tRoots := t\<rparr>\<rparr>) \<and>
      store_roots ((store p)\<lparr>tRoots := t\<rparr>) D \<and> voted (p\<lparr>election := el\<rparr>) D P' \<and> (res \<noteq> None \<longrightarrow> chooseAtropos el = Inr res) \<and>
      (res = None \<longrightarrow> (\<forall>x g. x \<in> roots_at D g \<longrightarrow> frame_now p < g \<longrightarrow> x \<in> P'))"
proof (induction "card {x \<in> all_roots D. f \<noteq> 0 \<and> f \<le> frame_of D x}" arbitrary: f p P rule: less_induct)
  case less
  let ?F = "frame_now p"
  have w: "world_ok (p_Validators p, D)" and sr: "store_roots (store p) D" and F: "?F \<noteq> 0" using less.prems(1) by (simp_all add: base_inv_def indexed_def graph_ok_def)
  obtain rr t where rr: "Store_GetFrameRoots env (store p) f = Some (rr, (store p)\<lparr>tRoots := t\<rparr>)" "distinct rr" "set rr = root_of D ` roots_at D f" "store_roots ((store p)\<lparr>tRoots := t\<rparr>) D"
    using store_roots_get [OF env sr] by blast
  let ?p = "p\<lparr>store := (store p)\<lparr>tRoots := t\<rparr>\<rparr>"
  have rrm: "map (root_of D) (map rID rr) = rr" using rr(3) by (auto intro!: map_idI)
  have ids: "set (map rID rr) = roots_at D f" using rr(3) by (auto simp: image_image)
  have base: "base_inv env G ?p D" using base_inv_roots [OF less.prems(1) rr(4)] .
  have prev: "frame_now ?p < f - 1 \<longrightarrow> roots_at D (f - 1) \<subseteq> P"
  proof (intro impI subsetI)
    fix x assume h: "frame_now ?p < f - 1" "x \<in> roots_at D (f - 1)"
    have "f = 0 \<or> f - 1 < f" by unat_arith
    with less.prems(4) [OF h(2)] h(1) show "x \<in> P" by auto
  qed
  obtain res el P' where pr: "processRoots env ?p rr = Some (res, ?p\<lparr>election := el\<rparr>)" "voted (?p\<lparr>election := el\<rparr>) D P'"
    "res = None \<longrightarrow> P' = P \<union> roots_at D f" "res \<noteq> None \<longrightarrow> chooseAtropos el = Inr res"
    using processRoots_votes [OF env base, of P "map rID rr" f] less.prems(2) prev unfolding rrm ids by auto
  have step: "knownRootsFrom env p f = (if res \<noteq> None \<or> rr = [] then Some (res, ?p\<lparr>election := el\<rparr>) else knownRootsFrom env (?p\<lparr>election := el\<rparr>) (f + 1))"
    using rr(1) pr(1) by (simp add: knownRootsFrom.simps [of env p f] p_GetFrameRoots_def)
  have comm: "?p\<lparr>election := el\<rparr> = p\<lparr>election := el, store := (store p)\<lparr>tRoots := t\<rparr>\<rparr>" by simp
  show ?case
  proof (cases "res \<noteq> None \<or> rr = []")
    case True
    have "x \<in> P'" if none: "res = None" and x: "x \<in> roots_at D g" "?F < g" for x g
    proof -
      have empty: "roots_at D f = {}" using True none rr(3) by simp
      have "f = 0 \<or> g < f"
      proof (rule ccontr)
        assume "\<not> (f = 0 \<or> g < f)"
        then have "roots_at D f \<noteq> {}" using root_below [OF w x(1), of f] by (simp add: not_less)
        with empty show False by blast
      qed
      with less.prems(4) [OF x] pr(3) none show ?thesis by simp
    qed
    with True step pr(2,4) rr(4) show ?thesis unfolding comm by (intro exI [of _ res] exI [of _ el] exI [of _ t] exI [of _ P']) simp
  next
    case False
    then have none: "res = None" "P' = P \<union> roots_at D f" using pr(3) by simp_all
    obtain y where y: "y \<in> roots_at D f" using False rr(3) by fastforce
    then have f0: "f \<noteq> 0" using no_root_zero [OF w] by blast
    let ?q = "?p\<lparr>election := el\<rparr>"
    have fin: "finite (all_roots D)" by (rule finite_subset [of _ "dom D"]) (use w in \<open>auto simp: all_roots_def world_ok_iff\<close>)
    have "card {x \<in> all_roots D. f + 1 \<noteq> 0 \<and> f + 1 \<le> frame_of D x} < card {x \<in> all_roots D. f \<noteq> 0 \<and> f \<le> frame_of D x}"
    proof (rule psubset_card_mono)
      have up: "f \<le> g \<and> g \<noteq> f" if "f + 1 \<noteq> 0" "f + 1 \<le> g" for g :: Frame using that by unat_arith
      have "y \<in> all_roots D" "frame_of D y = f" using y unfolding roots_at_all by simp_all
      then show "{x \<in> all_roots D. f + 1 \<noteq> 0 \<and> f + 1 \<le> frame_of D x} \<subset> {x \<in> all_roots D. f \<noteq> 0 \<and> f \<le> frame_of D x}"
        using up f0 by blast
    qed (use fin in simp)
    moreover have "f + 1 = 0 \<or> frame_now ?q \<le> f + 1" using less.prems(3) f0 by (auto intro: order_trans) unat_arith
    moreover have "x \<in> P'" if x: "x \<in> roots_at D g" "frame_now ?q < g" "f + 1 = 0 \<or> g < f + 1" for x g
    proof (cases "g = f")
      case False
      have "g < f" using x(3) False by unat_arith
      then show ?thesis using less.prems(4) [OF x(1)] x(2) none(2) by simp
    qed (use x(1) none(2) in simp)
    ultimately obtain res' el' t' Q where ih: "knownRootsFrom env ?q (f + 1) = Some (res', ?q\<lparr>election := el', store := (store ?q)\<lparr>tRoots := t'\<rparr>\<rparr>)"
      "store_roots ((store ?q)\<lparr>tRoots := t'\<rparr>) D" "voted (?q\<lparr>election := el'\<rparr>) D Q" "res' \<noteq> None \<longrightarrow> chooseAtropos el' = Inr res'"
      "res' = None \<longrightarrow> (\<forall>x g. x \<in> roots_at D g \<longrightarrow> frame_now ?q < g \<longrightarrow> x \<in> Q)"
      using less.hyps [of "f + 1" ?q P'] base pr(2) by auto
    then show ?thesis using step none(1) False by (intro exI [of _ res'] exI [of _ el'] exI [of _ t'] exI [of _ Q]) (simp add: voted_def)
  qed
qed

end
