(* ===== verification/Decided.thy ===== *)
theory Decided
  imports Voting
begin

text \<open>
  A decided frame: \<open>onFrameDecided\<close>, the sealing of an epoch, and the part of the state they change,
  which depends on the event graph and on nothing a node keeps for itself.
\<close>

subsection \<open>A decided frame\<close>

text \<open>What all nodes must agree on: checkpoint, epoch, application state, and the tables behind them.\<close>

record 'a core =
  coCheckpoint :: Checkpoint
  coEpoch :: EpochState
  coApp :: 'a
  coConfirmed :: "bytes \<rightharpoonup> bytes"
  coInfos :: "bytes \<rightharpoonup> frameInfoMarshaling"

definition core_of :: "'a Poset \<Rightarrow> 'a core" where
  "core_of p = \<lparr>coCheckpoint = checkpoint p, coEpoch = epochState p, coApp = app p, coConfirmed = tConfirmedEvent (store p), coInfos = tFrameInfos (store p)\<rparr>"

lemma core_of_eq: "core_of p = core_of q \<longleftrightarrow> checkpoint p = checkpoint q \<and> epochState p = epochState q \<and> app p = app q \<and>
    tConfirmedEvent (store p) = tConfirmedEvent (store q) \<and> tFrameInfos (store p) = tFrameInfos (store q)"
  by (auto simp: core_of_def)

lemma core_reads:
  assumes "core_of p = core_of q"
  shows "confirmed (store p) h = confirmed (store q) h" "frameConsensusTime p f = frameConsensusTime q f"
  using assms by (simp_all add: core_of_eq confirmed_def GetEventConfirmedOn_def frameConsensusTime_def GetFrameInfo_def)

text \<open>The part of \<open>onFrameDecided\<close> after the block is built.\<close>

definition finish_frame :: "poset_env \<Rightarrow> Frame \<Rightarrow> hash_event \<Rightarrow> BlockData \<Rightarrow> StakerID list \<Rightarrow> 'a Poset \<Rightarrow> (bool \<times> 'a Poset) option" where
  "finish_frame env frame atropos block cheaters p = do {
     let cp = checkpoint p;
     let cp = cp\<lparr>LastBlockN := LastBlockN cp + 1\<rparr>;
     let ((cp, seal), a) = (case ApplyBlock (callback p) of
           None \<Rightarrow> ((cp, False), app p)
         | Some f \<Rightarrow> (case f (app p) block frame cheaters of ((appHash, seal), a) \<Rightarrow>
             ((cp\<lparr>cpAppHash := hash_Of env (cpAppHash cp) appHash\<rparr>, seal), a)));
     let p = saveCheckpoint (p\<lparr>app := a, checkpoint := cp\<lparr>LastAtropos := atropos\<rparr>\<rparr>);
     p \<leftarrow> (if seal then sealEpoch p else Some p);
     Some (seal, p) }"

definition applied :: "poset_env \<Rightarrow> Frame \<Rightarrow> hash_event \<Rightarrow> BlockData \<Rightarrow> StakerID list \<Rightarrow> 'a Poset \<Rightarrow> bool \<times> 'a Poset" where
  "applied env frame atropos block cheaters p =
     (let cp = (checkpoint p)\<lparr>LastBlockN := LastBlockN (checkpoint p) + 1\<rparr> in
      case ApplyBlock (callback p) of
        None \<Rightarrow> (False, saveCheckpoint (p\<lparr>checkpoint := cp\<lparr>LastAtropos := atropos\<rparr>\<rparr>))
      | Some f \<Rightarrow> (let r = f (app p) block frame cheaters in
          (snd (fst r), saveCheckpoint (p\<lparr>app := snd r, checkpoint := cp\<lparr>cpAppHash := hash_Of env (cpAppHash cp) (fst (fst r)), LastAtropos := atropos\<rparr>\<rparr>))))"

lemma onFrameDecided_split:
  "onFrameDecided env input p frame atropos = do {
     ((block, cheaters), p) \<leftarrow> confirmBlock env input
        (p\<lparr>election := Election_Reset (p_Validators p) (frame + 1), checkpoint := (checkpoint p)\<lparr>LastDecidedFrame := frame\<rparr>\<rparr>) frame atropos;
     finish_frame env frame atropos block cheaters p }"
  unfolding onFrameDecided_def finish_frame_def Let_def ..

lemma finish_frame_eq:
  "finish_frame env frame atropos block cheaters p = (case applied env frame atropos block cheaters p of (seal, q) \<Rightarrow>
     if seal then map_option (Pair True) (sealEpoch q) else Some (False, q))"
  by (cases "ApplyBlock (callback p)"; cases "sealEpoch (snd (applied env frame atropos block cheaters p))")
    (auto simp: finish_frame_def applied_def Let_def case_prod_beta)

lemma applied_fields:
  assumes "applied env frame a block cheaters p = (seal, q)"
  shows "vecClock q = vecClock p" "election q = election p" "callback q = callback p" "epochState q = epochState p"
    "LastDecidedFrame (checkpoint q) = LastDecidedFrame (checkpoint p)" "store q = SetCheckpoint (store p) (checkpoint q)"
  using assms by (auto simp: applied_def Let_def saveCheckpoint_def split: option.splits)

lemma applied_core:
  assumes "core_of p = core_of q" "callback p = callback q"
  shows "fst (applied env f a b c p) = fst (applied env f a b c q) \<and> core_of (snd (applied env f a b c p)) = core_of (snd (applied env f a b c q))"
  using assms by (auto simp: core_of_eq applied_def Let_def saveCheckpoint_def SetCheckpoint_def split: option.splits)

lemma RecreateEpochDb_fields:
  "tConfirmedEvent (RecreateEpochDb s n) = tConfirmedEvent s" "tFrameInfos (RecreateEpochDb s n) = tFrameInfos s" "epochDb (RecreateEpochDb s n) = Some n"
  by (simp_all add: RecreateEpochDb_def Let_def case_prod_beta)

lemma RecreateEpochDb_fresh:
  assumes "closedDbs s = Map.empty"
  shows "tRoots (RecreateEpochDb s n) = \<lparr>Roots = Wrap mem_New, FrameRoots = map_option (\<lambda>_. Map.empty) (FrameRoots (tRoots s))\<rparr>"
    "tVectorIndex (RecreateEpochDb s n) = empty_tables" "closedDbs (RecreateEpochDb s n) = Map.empty"
  using assms by (simp_all add: RecreateEpochDb_def Let_def case_prod_beta)

text \<open>The validators of the next epoch and the application state after choosing them.\<close>

definition chosen :: "'a Poset \<Rightarrow> Validators \<times> 'a" where
  "chosen p = (case SelectValidatorsGroup (callback p) of None \<Rightarrow> (p_Validators p, app p) | Some f \<Rightarrow> f (app p) (p_EpochN p) (p_EpochN p + 1))"

definition sealed_epoch :: "Timestamp \<Rightarrow> 'a Poset \<Rightarrow> EpochState" where
  "sealed_epoch time p = \<lparr>EpochN = p_EpochN p + 1, PrevEpoch = \<lparr>gsEpoch = p_EpochN p, gsTime = time, gsLastAtropos = LastAtropos (checkpoint p), gsAppHash = cpAppHash (checkpoint p)\<rparr>,
     esValidators = fst (chosen p)\<rparr>"

lemma sealEpoch_eq:
  "sealEpoch p = (case frameConsensusTime p (LastDecidedFrame (checkpoint p)) of None \<Rightarrow> None | Some time \<Rightarrow>
     (let cp = (checkpoint p)\<lparr>LastDecidedFrame := 0\<rparr>; es = sealed_epoch time p; s = RecreateEpochDb (SetCheckpoint (SetEpoch (store p) es) cp) (EpochN es) in
      Some (p\<lparr>app := snd (chosen p), epochState := es, checkpoint := cp, store := s,
        vecClock := Reset (vecClock p) (esValidators es) (tVectorIndex s), election := Election_Reset (esValidators es) firstFrame\<rparr>)))"
  by (cases "frameConsensusTime p (LastDecidedFrame (checkpoint p))")
    (simp_all add: sealEpoch_def sealed_epoch_def Let_def saveCheckpoint_def chosen_def case_prod_beta)

lemma sealEpoch_core:
  assumes "core_of p = core_of q" "callback p = callback q"
  shows "rel_option (\<lambda>p q. core_of p = core_of q) (sealEpoch p) (sealEpoch q)"
proof -
  have e: "checkpoint p = checkpoint q" "epochState p = epochState q" "app p = app q" "tConfirmedEvent (store p) = tConfirmedEvent (store q)" "tFrameInfos (store p) = tFrameInfos (store q)"
    using assms(1) by (simp_all add: core_of_eq)
  have c: "chosen p = chosen q" unfolding chosen_def e assms(2) ..
  then have "sealed_epoch t p = sealed_epoch t q" for t unfolding sealed_epoch_def e by simp
  with c e core_reads(2) [OF assms(1)] show ?thesis unfolding sealEpoch_eq
    by (auto simp: core_of_eq Let_def RecreateEpochDb_fields SetCheckpoint_def SetEpoch_def setEpoch_def split: option.split)
qed

lemma finish_frame_core:
  assumes "core_of p = core_of q" "callback p = callback q"
    and "finish_frame env f a b c p = Some (s1, p')" "finish_frame env f a b c q = Some (s2, q')"
  shows "s1 = s2 \<and> core_of p' = core_of q'"
proof -
  obtain x p1 y q1 where ap: "applied env f a b c p = (x, p1)" "applied env f a b c q = (y, q1)" by (metis surj_pair)
  have same: "x = y" "core_of p1 = core_of q1" using applied_core [OF assms(1,2), of env f a b c] ap by simp_all
  have cb: "callback p1 = callback q1" using applied_fields(3) [OF ap(1)] applied_fields(3) [OF ap(2)] assms(2) by simp
  show ?thesis
  proof (cases y)
    case True
    then have "sealEpoch p1 = Some p'" "sealEpoch q1 = Some q'" "s1" "s2" using assms(3,4) ap same(1) by (auto simp: finish_frame_eq)
    with sealEpoch_core [OF same(2) cb] show ?thesis by simp
  next
    case False
    then show ?thesis using assms(3,4) ap same by (auto simp: finish_frame_eq)
  qed
qed

subsection \<open>Blocks over the graph\<close>

text \<open>The graph may be the node's own or a larger one of the same epoch.\<close>

lemma base_inv_ready:
  assumes inv: "base_inv env G p D" and U: "graph_ok env G p U" "D \<subseteq>\<^sub>m U" and get: "D \<subseteq>\<^sub>m input (p_EpochN p)" and a: "a \<in> dom D"
  shows "block_ready env input U (p\<lparr>election := el, checkpoint := cp\<rparr>) a"
proof -
  let ?C = "{h \<in> dom U. confirmed (store p) h}"
  have ix: "index_inv (vecClock p) D" "vi_validators (vecClock p) = p_Validators p" using inv by (simp_all add: base_inv_def indexed_def run_inv_def)
  have v: "valid_dag (p_Validators p) U" "valid_dag (p_Validators p) D" "ids_ok (lib env) U" "U \<subseteq>\<^sub>m G"
    using U(1) inv by (auto simp: graph_ok_def world_ok_iff base_inv_def)
  have b: "confirmed_readable (store p)" "down_closed D {h \<in> dom D. confirmed (store p) h}"
    "\<And>h. confirmed (store p) h \<Longrightarrow> h \<in> dom D \<or> (\<exists>e. G h = Some e \<and> eEpoch e < p_EpochN p)" using inv by (simp_all add: base_inv_def blocks_ok_def)
  have "h \<in> dom D" if "h \<in> ?C" for h
  proof -
    have "h \<in> dom U" using that by simp
    then obtain e where e: "U h = Some e" by blast
    then have "G h = Some e" "eEpoch e = p_EpochN p" using v(4) U(1) by (force simp: map_le_def, simp add: graph_ok_def)
    with b(3) [of h] that show ?thesis by auto
  qed
  then have C: "?C = {h \<in> dom D. confirmed (store p) h}" using U(2) by (auto simp: map_le_def dom_def)
  have "past U h \<subseteq> ?C" if "h \<in> ?C" for h
  proof -
    have h: "h \<in> {h \<in> dom D. confirmed (store p) h}" using that unfolding C .
    then have "past U h = past D h" using past_submap [OF v(2) U(2)] by blast
    with h b(2) show ?thesis unfolding C down_closed_def by blast
  qed
  then have "down_closed U ?C" by (simp add: down_closed_def)
  with ix v b(1) U(2) get a show ?thesis unfolding block_ready_def by auto
qed

lemma base_inv_time:
  assumes "base_inv env G p D"
  shows "\<exists>t. frameConsensusTime (p\<lparr>election := el, checkpoint := cp\<rparr>) (frame_now p - 1) = Some t"
  using assms by (auto simp: base_inv_def blocks_ok_def frameConsensusTime_def)

text \<open>The state when the block is built, given the order \<open>hs\<close> in which its events were confirmed.\<close>

definition confirmed_state :: "'a Poset \<Rightarrow> Frame \<Rightarrow> hash_event list \<Rightarrow> FrameInfo \<Rightarrow> 'a \<Rightarrow> 'a Poset" where
  "confirmed_state p F hs fi ap = p\<lparr>election := Election_Reset (p_Validators p) (F + 1), checkpoint := (checkpoint p)\<lparr>LastDecidedFrame := F\<rparr>,
     store := SetFrameInfo (confirm_all (store p) F hs) (p_EpochN p) F fi, app := ap\<rparr>"

lemma onFrameDecided_eq:
  fixes p :: "'a Poset"
  assumes inv: "base_inv env G p D" and U: "graph_ok env G p U" "D \<subseteq>\<^sub>m U" and get: "D \<subseteq>\<^sub>m input (p_EpochN p)" and a: "a \<in> dom D"
    and hs: "set hs = {h \<in> past U a. \<not> confirmed (store p) h}"
      "walk_runs TYPE('a blockAcc) env U (past U a) ({h \<in> dom U. confirmed (store p) h} \<inter> past U a) [a] hs"
    and t: "frameConsensusTime p (frame_now p - 1) = Some t"
  obtains acc fi where "block_acc (callback p) (p_Validators p) U a (app p) hs = Some acc"
    "fi = fareTimestamps t (eMedianTime (the (U a))) (highestLamport acc) (lowestLamport acc)"
    "onFrameDecided env input p (frame_now p) a =
       finish_frame env (frame_now p) a (block_of p a fi acc) (cheaters_of (p_Validators p) U a) (confirmed_state p (frame_now p) hs fi (accApp acc))"
proof -
  let ?F = "frame_now p"
  let ?p = "p\<lparr>election := Election_Reset (p_Validators p) (?F + 1), checkpoint := (checkpoint p)\<lparr>LastDecidedFrame := ?F\<rparr>\<rparr>"
  have ready: "block_ready env input U ?p a" using base_inv_ready [where input = input, OF inv U get a] .
  have F: "?F \<noteq> 0" using inv by (simp add: base_inv_def)
  have t': "frameConsensusTime ?p (?F - 1) = Some t" using t by (simp add: frameConsensusTime_def split: if_splits)
  have hs': "set hs = {h \<in> past U a. \<not> confirmed (store ?p) h}"
    "walk_runs TYPE('a blockAcc) env U (past U a) ({h \<in> dom U. confirmed (store ?p) h} \<inter> past U a) [a] hs" using hs by simp_all
  obtain acc fi where acc: "block_acc (callback ?p) (p_Validators ?p) U a (app ?p) hs = Some acc"
    "fi = fareTimestamps t (eMedianTime (the (U a))) (highestLamport acc) (lowestLamport acc)"
    "confirmBlock env input ?p ?F a = Some ((block_of ?p a fi acc, cheaters_of (p_Validators ?p) U a),
       ?p\<lparr>store := SetFrameInfo (confirm_all (store ?p) ?F hs) (p_EpochN ?p) ?F fi, app := accApp acc\<rparr>)"
    by (rule confirmBlock_eq [OF ready F t' hs'])
  have "block_of ?p a fi acc = block_of p a fi acc" by (simp add: block_of_def)
  with acc(3) have "onFrameDecided env input p ?F a =
      finish_frame env ?F a (block_of p a fi acc) (cheaters_of (p_Validators p) U a) (confirmed_state p ?F hs fi (accApp acc))"
    unfolding onFrameDecided_split by (simp add: confirmed_state_def)
  with acc(1,2) that show thesis by simp
qed

lemma confirmed_SetFrameInfo [simp]: "confirmed (SetFrameInfo s e f i) h = confirmed s h" "confirmed_readable (SetFrameInfo s e f i) = confirmed_readable s"
  by (simp_all add: confirmed_def confirmed_readable_def GetEventConfirmedOn_def SetFrameInfo_def)

lemma confirmed_SetCheckpoint [simp]: "confirmed (SetCheckpoint s cp) h = confirmed s h" "confirmed_readable (SetCheckpoint s cp) = confirmed_readable s"
  "GetFrameInfo (SetCheckpoint s cp) e f = GetFrameInfo s e f" "store_roots (SetCheckpoint s cp) D = store_roots s D"
  by (simp_all add: confirmed_def confirmed_readable_def GetEventConfirmedOn_def SetCheckpoint_def GetFrameInfo_def store_roots_def)

lemma GetFrameInfo_Set: "GetFrameInfo (SetFrameInfo s e f i) e' f' = (if e' = e \<and> f' = f then Some i else GetFrameInfo s e' f')"
  by (simp add: GetFrameInfo_def SetFrameInfo_def append_eq_append_conv)

lemma confirmed_all: "F \<noteq> 0 \<Longrightarrow> confirmed (confirm_all s F hs) h \<longleftrightarrow> h \<in> set hs \<or> confirmed s h"
  by (simp add: confirmed_def GetEventConfirmedOn_all)

lemma down_closed_past: "down_closed D (past D a)"
  using past_trans by (auto simp: down_closed_def)

lemma down_closed_Un: "down_closed D A \<Longrightarrow> down_closed D B \<Longrightarrow> down_closed D (A \<union> B)"
  by (auto simp: down_closed_def)

lemma confirmed_state_blocks:
  assumes inv: "base_inv env G p D" and F: "F = frame_now p" and a: "a \<in> dom D" and hs: "set hs = {h \<in> past D a. \<not> confirmed (store p) h}"
  shows "blocks_ok G (confirmed_state p F hs fi ap) D"
proof -
  let ?q = "confirmed_state p F hs fi ap"
  have b: "confirmed_readable (store p)" "closedDbs (store p) = Map.empty" "down_closed D {h \<in> dom D. confirmed (store p) h}" "valid_dag (p_Validators p) D"
    "\<And>h. confirmed (store p) h \<Longrightarrow> h \<in> dom D \<or> (\<exists>e. G h = Some e \<and> eEpoch e < p_EpochN p)" "F \<noteq> 0"
    "\<And>f. f \<noteq> 0 \<Longrightarrow> f \<le> LastDecidedFrame (checkpoint p) \<Longrightarrow> GetFrameInfo (store p) (p_EpochN p) f \<noteq> None"
    using inv F by (simp_all add: base_inv_def blocks_ok_def graph_ok_def world_ok_iff)
  have c: "confirmed (store ?q) h \<longleftrightarrow> h \<in> past D a \<or> confirmed (store p) h" for h
    unfolding confirmed_state_def using confirmed_all [OF b(6)] by (auto simp: hs)
  have past: "past D a \<subseteq> dom D" using past_closed [OF b(4) a] .
  then have C: "{h \<in> dom D. confirmed (store ?q) h} = past D a \<union> {h \<in> dom D. confirmed (store p) h}" using c by blast
  have down: "down_closed D {h \<in> dom D. confirmed (store ?q) h}" unfolding C by (rule down_closed_Un [OF down_closed_past b(3)])
  have read: "confirmed_readable (store ?q)" using b(1) by (simp add: confirmed_state_def) (simp add: confirmed_readable_def GetEventConfirmedOn_all)
  have inD: "h \<in> dom D \<or> (\<exists>e. G h = Some e \<and> eEpoch e < p_EpochN p)" if "confirmed (store ?q) h" for h using that c b(5) past by blast
  have info: "GetFrameInfo (store ?q) (p_EpochN p) f \<noteq> None" if f: "f \<noteq> 0" "f \<le> F" for f
  proof (cases "f = F")
    case False
    then have "f \<le> LastDecidedFrame (checkpoint p)" using f b(6) unfolding F by unat_arith
    with b(7) [OF f(1)] False show ?thesis by (simp add: confirmed_state_def GetFrameInfo_Set) (simp add: GetFrameInfo_def)
  qed (simp add: confirmed_state_def GetFrameInfo_Set)
  show ?thesis unfolding blocks_ok_def using read down inD info b(2) by (auto simp: confirmed_state_def SetFrameInfo_def)
qed

lemma confirmed_state_base:
  assumes inv: "base_inv env G p D" and F: "F = frame_now p" and a: "a \<in> dom D" and hs: "set hs = {h \<in> past D a. \<not> confirmed (store p) h}"
    and room: "F + 1 \<noteq> 0"
  shows "base_inv env G (confirmed_state p F hs fi ap) D"
  using confirmed_state_blocks [OF inv F a hs, of fi ap] inv F room
  by (simp add: base_inv_def indexed_def graph_ok_def confirmed_state_def SetFrameInfo_def store_roots_def)

lemma applied_base:
  assumes "base_inv env G p D" "applied env f a b c p = (seal, q)"
  shows "base_inv env G q D"
  using assms(1) applied_fields [OF assms(2)]
  by (simp add: base_inv_def indexed_def graph_ok_def blocks_ok_def) (simp add: SetCheckpoint_def)

subsection \<open>A new epoch\<close>

text \<open>The application chooses a group of validators whose stakes do not overflow.\<close>

definition callbacks_ok :: "'a ConsensusCallbacks \<Rightarrow> bool" where
  "callbacks_ok cb \<longleftrightarrow> (\<forall>f. SelectValidatorsGroup cb = Some f \<longrightarrow> (\<forall>ap old new. sane_group (fst (f ap old new))))"

lemma chosen_sane: "callbacks_ok (callback p) \<Longrightarrow> sane_group (p_Validators p) \<Longrightarrow> sane_group (fst (chosen p))"
  by (simp add: callbacks_ok_def chosen_def split: option.split)

lemma run_inv_new:
  assumes "sane_group vv"
  shows "run_inv vv G (NewIndex vv empty_tables) Map.empty Map.empty"
proof -
  have "valid_group vv" using assms by blast
  then have "DropNotFlushed (NewIndex vv empty_tables) = NewIndex vv empty_tables" "vi_validators (NewIndex vv empty_tables) = vv"
    by (simp_all add: DropNotFlushed_def NewIndex_def)
  with index_inv_NewIndex [OF assms] show ?thesis by (simp add: run_inv_def cache_inv_def NewIndex_def)
qed

lemma fresh_roots: "roots_inv (fl_ok mem_ok) epoch_roots_view \<lparr>Roots = Wrap mem_New, FrameRoots = map_option (\<lambda>_. Map.empty) c\<rparr> {}"
  using new_roots_inv by (auto simp: roots_inv_def new_roots_def)

lemma world_ok_empty: "sane_group vv \<Longrightarrow> world_ok (vv, Map.empty)"
  by (simp add: world_ok_def valid_dag_def frames_ok_def forked_def stake_weight_def)

lemma no_roots_empty [simp]: "roots_at Map.empty f = {}" "all_roots Map.empty = {}"
  by (simp_all add: roots_at_def all_roots_def)

text \<open>An engine with the tables of a new epoch, as \<open>sealEpoch\<close> and \<open>Bootstrap\<close> leave it.\<close>

lemma fresh_node:
  assumes "sane_group (p_Validators p)" "vecClock p = NewIndex (p_Validators p) empty_tables" "election p = Election_New (p_Validators p) 1"
    and "LastDecidedFrame (checkpoint p) = 0" "epochDb (store p) \<noteq> None" "tRoots (store p) = \<lparr>Roots = Wrap mem_New, FrameRoots = map_option (\<lambda>_. Map.empty) c\<rparr>"
    and "tVectorIndex (store p) = empty_tables" "closedDbs (store p) = Map.empty" "confirmed_readable (store p)"
    and "\<And>h. confirmed (store p) h \<Longrightarrow> \<exists>e. G h = Some e \<and> eEpoch e < p_EpochN p"
  shows "node_inv env G p Map.empty"
proof -
  have "indexed env G p Map.empty" using run_inv_new [OF assms(1)] fresh_roots [of c] assms(1,2,5-7) by (simp add: indexed_def store_roots_def) (simp add: NewIndex_def)
  moreover have "graph_ok env G p Map.empty" using world_ok_empty [OF assms(1)] by (simp add: graph_ok_def ids_ok_def)
  moreover have "blocks_ok G p Map.empty" using assms(4,8-10) by (simp add: blocks_ok_def down_closed_def)
  moreover have "voted p Map.empty {}" using elect_run.elect_new [of "p_Validators p" Map.empty 1] assms(3,4) by (simp add: voted_def)
  ultimately show ?thesis using assms(4) by (auto simp: node_inv_def base_inv_def)
qed

text \<open>The checkpoint and the epoch on disk are those in memory, and the open database is that of the epoch.\<close>

definition persisted :: "'a Poset \<Rightarrow> bool" where
  "persisted p \<longleftrightarrow> GetCheckpoint (store p) = Some (checkpoint p) \<and> GetEpoch (store p) = Some (epochState p) \<and> epochDb (store p) = Some (p_EpochN p)"

lemma RecreateEpochDb_persisted: "GetCheckpoint (RecreateEpochDb s n) = GetCheckpoint s" "GetEpoch (RecreateEpochDb s n) = GetEpoch s"
  by (simp_all add: RecreateEpochDb_def Let_def case_prod_beta GetCheckpoint_def GetEpoch_def getEpoch_def)

lemma sealEpoch_persisted: "sealEpoch p = Some q \<Longrightarrow> persisted q"
  by (auto simp: sealEpoch_eq Let_def persisted_def RecreateEpochDb_persisted RecreateEpochDb_fields split: option.splits)
    (simp_all add: GetCheckpoint_def GetEpoch_def getEpoch_def SetCheckpoint_def SetEpoch_def setEpoch_def)

lemma sealEpoch_fresh:
  assumes inv: "base_inv env G p D" and cb: "callbacks_ok (callback p)" and room: "p_EpochN p + 1 \<noteq> 0"
  shows "\<exists>q. sealEpoch p = Some q \<and> node_inv env G q Map.empty \<and> p_EpochN q = p_EpochN p + 1 \<and> LastDecidedFrame (checkpoint q) = 0 \<and> callback q = callback p"
proof -
  have b: "closedDbs (store p) = Map.empty" "confirmed_readable (store p)" "sane_group (p_Validators p)" "D \<subseteq>\<^sub>m G" "\<And>x e. D x = Some e \<Longrightarrow> eEpoch e = p_EpochN p"
    "\<And>h. confirmed (store p) h \<Longrightarrow> h \<in> dom D \<or> (\<exists>e. G h = Some e \<and> eEpoch e < p_EpochN p)"
    "\<And>f. f \<noteq> 0 \<Longrightarrow> f \<le> LastDecidedFrame (checkpoint p) \<Longrightarrow> GetFrameInfo (store p) (p_EpochN p) f \<noteq> None"
    using inv by (simp_all add: base_inv_def blocks_ok_def graph_ok_def indexed_def)
  have "frameConsensusTime p (LastDecidedFrame (checkpoint p)) \<noteq> None" using b(7) [of "LastDecidedFrame (checkpoint p)"] by (simp add: frameConsensusTime_def)
  then obtain time where t: "frameConsensusTime p (LastDecidedFrame (checkpoint p)) = Some time" by blast
  let ?es = "sealed_epoch time p" and ?cp = "(checkpoint p)\<lparr>LastDecidedFrame := 0\<rparr>"
  let ?s = "SetCheckpoint (SetEpoch (store p) ?es) ?cp"
  let ?q = "p\<lparr>app := snd (chosen p), epochState := ?es, checkpoint := ?cp, store := RecreateEpochDb ?s (EpochN ?es),
        vecClock := Reset (vecClock p) (esValidators ?es) (tVectorIndex (RecreateEpochDb ?s (EpochN ?es))), election := Election_Reset (esValidators ?es) firstFrame\<rparr>"
  have s: "closedDbs ?s = Map.empty" "tConfirmedEvent ?s = tConfirmedEvent (store p)" using b(1) by (simp_all add: SetCheckpoint_def SetEpoch_def setEpoch_def)
  have c: "confirmed (store ?q) h = confirmed (store p) h" "confirmed_readable (store ?q) = confirmed_readable (store p)" for h
    using s(2) by (simp_all add: confirmed_def confirmed_readable_def GetEventConfirmedOn_def RecreateEpochDb_fields)
  have ep: "p_EpochN p < p_EpochN p + 1" using room by unat_arith
  have old: "\<exists>e. G h = Some e \<and> eEpoch e < p_EpochN ?q" if "confirmed (store ?q) h" for h
  proof -
    have "h \<in> dom D \<or> (\<exists>e. G h = Some e \<and> eEpoch e < p_EpochN p)" using b(6) that c(1) by blast
    then obtain e where "G h = Some e" "eEpoch e \<le> p_EpochN p" using b(4,5) by (metis domD domI less_imp_le map_le_def order_refl)
    with ep show ?thesis by (auto simp: sealed_epoch_def)
  qed
  have "node_inv env G ?q Map.empty"
  proof (rule fresh_node [of ?q "FrameRoots (tRoots ?s)"])
    show "sane_group (p_Validators ?q)" using chosen_sane [OF cb b(3)] by (simp add: sealed_epoch_def)
    show "confirmed (store ?q) h \<Longrightarrow> \<exists>e. G h = Some e \<and> eEpoch e < p_EpochN ?q" for h by (rule old)
    show "confirmed_readable (store ?q)" using c(2) b(2) by simp
    show "vecClock ?q = NewIndex (p_Validators ?q) empty_tables" by (simp add: RecreateEpochDb_fresh [OF s(1)] Reset_def NewIndex_def)
    show "election ?q = Election_New (p_Validators ?q) 1" by (simp add: Election_New_def firstFrame_def)
    show "tRoots (store ?q) = \<lparr>Roots = Wrap mem_New, FrameRoots = map_option (\<lambda>_. Map.empty) (FrameRoots (tRoots ?s))\<rparr>"
      using RecreateEpochDb_fresh(1) [OF s(1)] by simp
  qed (simp_all add: RecreateEpochDb_fields RecreateEpochDb_fresh [OF s(1)])
  moreover have "sealEpoch p = Some ?q" using t by (simp add: sealEpoch_eq Let_def)
  ultimately show ?thesis by (intro exI [of _ ?q]) (simp add: sealed_epoch_def)
qed

subsection \<open>A frame on one node and on two\<close>

lemma onFrameDecided_keeps:
  fixes p :: "'a Poset"
  assumes inv: "base_inv env G p D" and cb: "callbacks_ok (callback p)" and get: "D \<subseteq>\<^sub>m input (p_EpochN p)" and a: "a \<in> dom D"
    and room: "frame_now p + 1 \<noteq> 0" "p_EpochN p + 1 \<noteq> 0"
  shows "\<exists>seal q. onFrameDecided env input p (frame_now p) a = Some (seal, q) \<and> callback q = callback p \<and>
     (persisted p \<longrightarrow> persisted q) \<and>
     (if seal then node_inv env G q Map.empty \<and> p_EpochN q = p_EpochN p + 1 \<and> LastDecidedFrame (checkpoint q) = 0
      else base_inv env G q D \<and> epochState q = epochState p \<and> LastDecidedFrame (checkpoint q) = frame_now p \<and> voted q D {})"
proof -
  let ?F = "frame_now p"
  have U: "graph_ok env G p D" "D \<subseteq>\<^sub>m D" using inv by (simp_all add: base_inv_def)
  obtain t where t: "frameConsensusTime p (?F - 1) = Some t" using base_inv_time [OF inv, where el = "election p" and cp = "checkpoint p"] by auto
  have ready: "block_ready env input D p a" using base_inv_ready [where input = input and el = "election p" and cp = "checkpoint p", OF inv U get a] by simp
  obtain hs where hs: "set hs = {h \<in> past D a. \<not> confirmed (store p) h}"
    "walk_runs TYPE('a blockAcc) env D (past D a) ({h \<in> dom D. confirmed (store p) h} \<inter> past D a) [a] hs"
    using confirm_order_exists [OF ready] by (elim exE conjE)
  obtain acc fi where fin: "onFrameDecided env input p ?F a =
       finish_frame env ?F a (block_of p a fi acc) (cheaters_of (p_Validators p) D a) (confirmed_state p ?F hs fi (accApp acc))"
    by (rule onFrameDecided_eq [where input = input, OF inv U get a hs t])
  let ?p = "confirmed_state p ?F hs fi (accApp acc)"
  obtain seal q where q: "applied env ?F a (block_of p a fi acc) (cheaters_of (p_Validators p) D a) ?p = (seal, q)" by fastforce
  note f = applied_fields [OF q]
  have base: "base_inv env G q D" using applied_base [OF confirmed_state_base [OF inv refl a hs(1) room(1)] q] .
  have q': "epochState q = epochState p" "callback q = callback p" "LastDecidedFrame (checkpoint q) = ?F" "election q = Election_New (p_Validators p) (?F + 1)"
    using f by (simp_all add: confirmed_state_def Election_New_def)
  show ?thesis
  proof (cases seal)
    case True
    obtain r where "sealEpoch q = Some r" "node_inv env G r Map.empty" "p_EpochN r = p_EpochN q + 1" "LastDecidedFrame (checkpoint r) = 0" "callback r = callback q"
      using sealEpoch_fresh [OF base] cb room(2) q' by auto
    with True q q' fin sealEpoch_persisted [of q r] show ?thesis by (intro exI [of _ True] exI [of _ r]) (simp add: finish_frame_eq)
  next
    case False
    have "voted q D {}" unfolding voted_def q' by (rule elect_run.elect_new)
    moreover have "persisted p \<longrightarrow> persisted q" using f(6) q'(1)
      by (simp add: persisted_def GetCheckpoint_def GetEpoch_def getEpoch_def SetCheckpoint_def confirmed_state_def SetFrameInfo_def)
    ultimately show ?thesis using False q q' fin base by (intro exI [of _ False] exI [of _ q]) (simp add: finish_frame_eq)
  qed
qed

lemma confirmed_state_core:
  assumes "core_of p = core_of q"
  shows "core_of (confirmed_state p F hs fi ap) = core_of (confirmed_state q F hs fi ap)"
proof -
  have "tConfirmedEvent (confirm_all s F hs) = foldl (\<lambda>m h. m(h \<mapsto> Idx_Bytes F)) (tConfirmedEvent s) hs" for s
    unfolding confirm_all_def by (induction hs arbitrary: s) (simp_all add: SetEventConfirmedOn_def)
  with assms show ?thesis by (simp add: core_of_eq confirmed_state_def SetFrameInfo_def)
qed

lemma onFrameDecided_agree:
  fixes p q :: "'a Poset"
  assumes p: "base_inv env G p D" "D \<subseteq>\<^sub>m U" "D \<subseteq>\<^sub>m input (p_EpochN p)" "a \<in> dom D" "onFrameDecided env input p (frame_now p) a = Some (s1, p')"
    and q: "base_inv env G q E" "E \<subseteq>\<^sub>m U" "E \<subseteq>\<^sub>m input' (p_EpochN q)" "a \<in> dom E" "onFrameDecided env input' q (frame_now q) a = Some (s2, q')"
    and U: "graph_ok env G p U" and same: "core_of p = core_of q" "callback p = callback q"
  shows "s1 = s2 \<and> core_of p' = core_of q'"
proof -
  let ?F = "frame_now p"
  note e = same(1) [unfolded core_of_eq]
  have U': "graph_ok env G q U" using U e by (simp add: graph_ok_def)
  have F: "frame_now q = ?F" using e by simp
  obtain t where t: "frameConsensusTime p (?F - 1) = Some t" using base_inv_time [OF p(1), where el = "election p" and cp = "checkpoint p"] by auto
  then have t': "frameConsensusTime q (frame_now q - 1) = Some t" using core_reads(2) [OF same(1)] F by simp
  have ready: "block_ready env input U p a" using base_inv_ready [where input = input and el = "election p" and cp = "checkpoint p", OF p(1) U p(2-4)] by simp
  obtain hs where hs: "set hs = {h \<in> past U a. \<not> confirmed (store p) h}"
    "walk_runs TYPE('a blockAcc) env U (past U a) ({h \<in> dom U. confirmed (store p) h} \<inter> past U a) [a] hs"
    using confirm_order_exists [OF ready] by (elim exE conjE)
  have hs': "set hs = {h \<in> past U a. \<not> confirmed (store q) h}"
    "walk_runs TYPE('a blockAcc) env U (past U a) ({h \<in> dom U. confirmed (store q) h} \<inter> past U a) [a] hs"
    using hs unfolding core_reads(1) [OF same(1)] .
  obtain acc fi where pp: "block_acc (callback p) (p_Validators p) U a (app p) hs = Some acc" "fi = fareTimestamps t (eMedianTime (the (U a))) (highestLamport acc) (lowestLamport acc)"
    "onFrameDecided env input p ?F a = finish_frame env ?F a (block_of p a fi acc) (cheaters_of (p_Validators p) U a) (confirmed_state p ?F hs fi (accApp acc))"
    by (rule onFrameDecided_eq [where input = input, OF p(1) U p(2-4) hs t])
  obtain acc' fi' where qq: "block_acc (callback q) (p_Validators q) U a (app q) hs = Some acc'" "fi' = fareTimestamps t (eMedianTime (the (U a))) (highestLamport acc') (lowestLamport acc')"
    "onFrameDecided env input' q (frame_now q) a = finish_frame env (frame_now q) a (block_of q a fi' acc') (cheaters_of (p_Validators q) U a) (confirmed_state q (frame_now q) hs fi' (accApp acc'))"
    by (rule onFrameDecided_eq [where input = input', OF q(1) U' q(2-4) hs' t'])
  have acc: "acc' = acc" "fi' = fi" using pp(1,2) qq(1,2) e same(2) by simp_all
  have blk: "block_of q a fi acc = block_of p a fi acc" "p_Validators q = p_Validators p" using e by (simp_all add: block_of_def)
  have "core_of (confirmed_state p ?F hs fi (accApp acc)) = core_of (confirmed_state q ?F hs fi (accApp acc))" by (rule confirmed_state_core [OF same(1)])
  from finish_frame_core [OF this _ p(5) [unfolded pp(3)] q(5) [unfolded qq(3), unfolded acc F blk]] same(2) show ?thesis by (simp add: confirmed_state_def)
qed

end
