(* ===== verification/Node.thy ===== *)
theory Node
  imports Decided
begin

text \<open>
  A node of the network. \<open>ProcessEvent\<close> keeps the invariant of \<open>Voting\<close> and returns; each frame it
  decides is a step that depends on the event graph alone, so that nodes which have decided the
  same number of frames are in the same state, whatever the order in which they got the events.
\<close>

subsection \<open>Steps of the network\<close>

text \<open>
  \<open>W\<close> gives the events of each epoch: those that obey the rules, with less than a third of the
  stake forking. A node knows a part \<open>D\<close> of them.
\<close>

definition in_world :: "poset_env \<Rightarrow> dag \<Rightarrow> (Epoch \<Rightarrow> dag) \<Rightarrow> 'a Poset \<Rightarrow> dag \<Rightarrow> bool" where
  "in_world env G W p D \<longleftrightarrow> graph_ok env G p (W (p_EpochN p)) \<and> D \<subseteq>\<^sub>m W (p_EpochN p)"

text \<open>Some node in state \<open>c\<close>, with the votes of some roots, decides the next frame and goes to \<open>c'\<close>.\<close>

definition frame_step :: "poset_env \<Rightarrow> dag \<Rightarrow> (Epoch \<Rightarrow> dag) \<Rightarrow> 'a ConsensusCallbacks \<Rightarrow> 'a core \<Rightarrow> 'a core \<Rightarrow> bool" where
  "frame_step env G W cb c c' \<longleftrightarrow> (\<exists>p D P input r seal q. core_of p = c \<and> core_of q = c' \<and> callback p = cb \<and> base_inv env G p D \<and> in_world env G W p D \<and>
     D \<subseteq>\<^sub>m input (p_EpochN p) \<and> p_EpochN p + 1 \<noteq> 0 \<and> callbacks_ok cb \<and> voted p D P \<and> chooseAtropos (election p) = Inr (Some r) \<and>
     onFrameDecided env input p (res_Frame r) (res_Atropos r) = Some (seal, q))"

lemma decided_here:
  assumes inv: "base_inv env G p D" and run: "voted p D P" and res: "chooseAtropos (election p) = Inr (Some r)"
  shows "res_Frame r = frame_now p" "res_Atropos r \<in> roots_at D (frame_now p)" "frame_now p + 1 \<noteq> 0"
proof -
  have w: "world_ok (p_Validators p, D)" "frame_now p \<noteq> 0" using inv by (simp_all add: base_inv_def graph_ok_def)
  note d = decided_above [OF w run [unfolded voted_def] res]
  show "res_Frame r = frame_now p" "res_Atropos r \<in> roots_at D (frame_now p)" using d by blast+
  show "frame_now p + 1 \<noteq> 0" using d(4) by auto
qed

lemma decide_frame:
  assumes inv: "base_inv env G p D" and cb: "callbacks_ok (callback p)" and get: "D \<subseteq>\<^sub>m input (p_EpochN p)" and room: "p_EpochN p + 1 \<noteq> 0"
    and run: "voted p D P" and res: "chooseAtropos (election p) = Inr (Some r)" and W: "in_world env G W p D"
  shows "\<exists>seal q. onFrameDecided env input p (res_Frame r) (res_Atropos r) = Some (seal, q) \<and> callback q = callback p \<and>
     (persisted p \<longrightarrow> persisted q) \<and> frame_step env G W (callback p) (core_of p) (core_of q) \<and>
     (if seal then node_inv env G q Map.empty \<and> p_EpochN q = p_EpochN p + 1
      else base_inv env G q D \<and> epochState q = epochState p \<and> LastDecidedFrame (checkpoint q) = frame_now p \<and> voted q D {})"
proof -
  note d = decided_here [OF inv run res]
  obtain seal q where q: "onFrameDecided env input p (frame_now p) (res_Atropos r) = Some (seal, q)" "callback q = callback p" "persisted p \<longrightarrow> persisted q"
    "if seal then node_inv env G q Map.empty \<and> p_EpochN q = p_EpochN p + 1 \<and> LastDecidedFrame (checkpoint q) = 0
      else base_inv env G q D \<and> epochState q = epochState p \<and> LastDecidedFrame (checkpoint q) = frame_now p \<and> voted q D {}"
    using onFrameDecided_keeps [where input = input, OF inv cb get roots_at_dom [OF d(2)] d(3) room] by (elim exE conjE)
  have "frame_step env G W (callback p) (core_of p) (core_of q)" unfolding frame_step_def
    by (intro exI [of _ p] exI [of _ D] exI [of _ P] exI [of _ input] exI [of _ r] exI [of _ seal] exI [of _ q] conjI refl)
      (use inv W get room cb run res q(1) d(1) in simp_all)
  with q d(1) show ?thesis by (intro exI [of _ seal] exI [of _ q]) (auto split: if_splits)
qed

text \<open>The step is a function, and it advances the pair of epoch and frame.\<close>

lemma frame_step_unique:
  assumes "frame_step env G W cb c c1" "frame_step env G W cb c c2"
  shows "c1 = c2"
proof -
  obtain p D P input r seal p' where p: "core_of p = c" "core_of p' = c1" "callback p = cb" "base_inv env G p D" "in_world env G W p D" "D \<subseteq>\<^sub>m input (p_EpochN p)"
    "voted p D P" "chooseAtropos (election p) = Inr (Some r)" "onFrameDecided env input p (res_Frame r) (res_Atropos r) = Some (seal, p')"
    using assms(1) unfolding frame_step_def by (elim exE conjE)
  obtain q E Q input' r' seal' q' where q: "core_of q = c" "core_of q' = c2" "callback q = cb" "base_inv env G q E" "in_world env G W q E" "E \<subseteq>\<^sub>m input' (p_EpochN q)"
    "voted q E Q" "chooseAtropos (election q) = Inr (Some r')" "onFrameDecided env input' q (res_Frame r') (res_Atropos r') = Some (seal', q')"
    using assms(2) unfolding frame_step_def by (elim exE conjE)
  have same: "core_of p = core_of q" "callback p = callback q" using p q by simp_all
  then have e: "checkpoint q = checkpoint p" "epochState q = epochState p" by (simp_all add: core_of_eq)
  let ?U = "W (p_EpochN p)"
  have U: "graph_ok env G p ?U" "D \<subseteq>\<^sub>m ?U" "E \<subseteq>\<^sub>m ?U" using p(5) q(5) e by (simp_all add: in_world_def)
  have w: "world_ok (p_Validators p, ?U)" "frame_now p \<noteq> 0" using U(1) p(4) by (simp_all add: graph_ok_def base_inv_def)
  have v: "sane_group (p_Validators p)" "valid_dag (p_Validators p) D" "valid_dag (p_Validators p) E" using p(4) q(4) e by (simp_all add: base_inv_def graph_ok_def world_ok_iff)
  have runs: "elect_run (p_Validators p) ?U (frame_now p) P (election p)" "elect_run (p_Validators p) ?U (frame_now p) Q (election q)"
    using elect_run_submap [OF v(1,2) U(2)] elect_run_submap [OF v(1,3) U(3)] p(7) q(7) e by (simp_all add: voted_def)
  have r: "r' = r" using ew.atropos_agree [OF w(1) _ _ p(8) q(8)] elect_run_inv [OF w runs(1)] elect_run_inv [OF w runs(2)] by blast
  note dp = decided_here [OF p(4,7,8)] and dq = decided_here [OF q(4,7,8)]
  have "seal = seal' \<and> core_of p' = core_of q'"
    by (rule onFrameDecided_agree [where input = input and input' = input' and a = "res_Atropos r", OF p(4) U(2) p(6) roots_at_dom [OF dp(2)] _ q(4) U(3) q(6) _ _ U(1) same])
      (use p(9) q(9) dp(1) dq(1) roots_at_dom [OF dq(2)] in \<open>simp_all add: r\<close>)
  with p(2) q(2) show ?thesis by simp
qed

definition position :: "'a core \<Rightarrow> nat \<times> nat" where
  "position c = (unat (EpochN (coEpoch c)), unat (LastDecidedFrame (coCheckpoint c)))"

lemma frame_step_forward:
  assumes "frame_step env G W cb c c'"
  shows "position c < position c'"
proof -
  obtain p D P input r seal q where p: "core_of p = c" "core_of q = c'" "callback p = cb" "base_inv env G p D" "D \<subseteq>\<^sub>m input (p_EpochN p)" "p_EpochN p + 1 \<noteq> 0" "callbacks_ok cb"
    "voted p D P" "chooseAtropos (election p) = Inr (Some r)" "onFrameDecided env input p (res_Frame r) (res_Atropos r) = Some (seal, q)"
    using assms unfolding frame_step_def by (elim exE conjE)
  note d = decided_here [OF p(4,8,9)]
  have cb: "callbacks_ok (callback p)" using p(3,7) by simp
  have F: "frame_now p \<noteq> 0" using p(4) by (simp add: base_inv_def)
  obtain seal' q' where q: "onFrameDecided env input p (frame_now p) (res_Atropos r) = Some (seal', q')" 
    "if seal' then node_inv env G q' Map.empty \<and> p_EpochN q' = p_EpochN p + 1 \<and> LastDecidedFrame (checkpoint q') = 0
      else base_inv env G q' D \<and> epochState q' = epochState p \<and> LastDecidedFrame (checkpoint q') = frame_now p \<and> voted q' D {}"
    using onFrameDecided_keeps [where input = input, OF p(4) cb p(5) roots_at_dom [OF d(2)] d(3) p(6)] by (elim exE conjE)
  have "q' = q" "seal' = seal" using q(1) p(10) d(1) by simp_all
  moreover have "unat (p_EpochN p) < unat (p_EpochN p + 1)" "unat (LastDecidedFrame (checkpoint p)) < unat (frame_now p)"
    using p(6) F by unat_arith+
  ultimately show ?thesis using q(2) p(1,2) by (auto simp: position_def core_of_def less_prod_def' split: if_splits)
qed

lemma steps_forward: "(frame_step env G W cb)\<^sup>*\<^sup>* c c' \<Longrightarrow> c = c' \<or> position c < position c'"
  by (induction rule: rtranclp_induct) (use frame_step_forward order_less_trans in blast)+

text \<open>Two states reached from the same one are on the same line.\<close>

lemma steps_line:
  assumes "(frame_step env G W cb)\<^sup>*\<^sup>* c c1" "(frame_step env G W cb)\<^sup>*\<^sup>* c c2" "position c1 = position c2"
  shows "c1 = c2"
proof -
  have "(frame_step env G W cb)\<^sup>*\<^sup>* c1 c2 \<or> (frame_step env G W cb)\<^sup>*\<^sup>* c2 c1" using assms(1)
  proof (induction rule: rtranclp_induct)
    case (step y z)
    then show ?case using frame_step_unique by (metis converse_rtranclpE rtranclp.rtrancl_into_rtrancl)
  qed (use assms(2) in simp)
  with steps_forward assms(3) show ?thesis by (metis less_irrefl)
qed

text \<open>Within an epoch its record does not change.\<close>

lemma frame_step_epoch:
  assumes "frame_step env G W cb c c'"
  shows "coEpoch c' = coEpoch c \<or> EpochN (coEpoch c) < EpochN (coEpoch c')"
proof -
  obtain p D P input r seal q where p: "core_of p = c" "core_of q = c'" "callback p = cb" "base_inv env G p D" "in_world env G W p D" "D \<subseteq>\<^sub>m input (p_EpochN p)" "p_EpochN p + 1 \<noteq> 0" "callbacks_ok cb"
    "voted p D P" "chooseAtropos (election p) = Inr (Some r)" "onFrameDecided env input p (res_Frame r) (res_Atropos r) = Some (seal, q)"
    using assms unfolding frame_step_def by (elim exE conjE)
  have cb: "callbacks_ok (callback p)" using p(3,8) by simp
  obtain seal' q' where q: "onFrameDecided env input p (res_Frame r) (res_Atropos r) = Some (seal', q')" 
    "if seal' then node_inv env G q' Map.empty \<and> p_EpochN q' = p_EpochN p + 1
      else base_inv env G q' D \<and> epochState q' = epochState p \<and> LastDecidedFrame (checkpoint q') = frame_now p \<and> voted q' D {}"
    using decide_frame [where input = input, OF p(4) cb p(6,7,9,10,5)] by (elim exE conjE)
  have "p_EpochN p < p_EpochN p + 1" using p(7) by unat_arith
  moreover have "q' = q" using q(1) p(11) by simp
  ultimately have "epochState q = epochState p \<or> p_EpochN p < p_EpochN q" using q(2) by (auto split: if_splits)
  then show ?thesis using p(1,2) by (auto simp: core_of_def)
qed

lemma steps_epoch: "(frame_step env G W cb)\<^sup>*\<^sup>* c c' \<Longrightarrow> coEpoch c' = coEpoch c \<or> EpochN (coEpoch c) < EpochN (coEpoch c')"
  by (induction rule: rtranclp_induct) (use frame_step_epoch order_less_trans in \<open>fastforce+\<close>)

subsection \<open>Elections after an event\<close>

text \<open>What a call of the engine leaves: the invariant, for the same epoch or for a new one.\<close>

definition moved :: "poset_env \<Rightarrow> dag \<Rightarrow> (Epoch \<Rightarrow> dag) \<Rightarrow> 'a Poset \<Rightarrow> dag \<Rightarrow> 'a Poset \<Rightarrow> bool" where
  "moved env G W p D q \<longleftrightarrow> callback q = callback p \<and> (persisted p \<longrightarrow> persisted q) \<and> (frame_step env G W (callback p))\<^sup>*\<^sup>* (core_of p) (core_of q) \<and>
     (if p_EpochN q = p_EpochN p then node_inv env G q D else p_EpochN q = p_EpochN p + 1 \<and> node_inv env G q Map.empty)"

lemma core_of_election [simp]: "core_of (p\<lparr>election := el\<rparr>) = core_of p" "core_of (p\<lparr>store := (store p)\<lparr>tRoots := t\<rparr>\<rparr>) = core_of p"
  by (simp_all add: core_of_def)

lemma core_of_same: "same_core p q \<Longrightarrow> core_of q = core_of p \<and> callback q = callback p \<and> election q = election p"
  by (auto simp: same_core_def core_of_def)

lemma persisted_fields [simp]: "persisted (p\<lparr>election := el\<rparr>) = persisted p" "persisted (p\<lparr>store := (store p)\<lparr>tRoots := t\<rparr>\<rparr>) = persisted p"
  by (simp_all add: persisted_def GetCheckpoint_def GetEpoch_def getEpoch_def)

lemma in_world_cong: "p_EpochN q = p_EpochN p \<Longrightarrow> p_Validators q = p_Validators p \<Longrightarrow> in_world env G W q D = in_world env G W p D"
  by (simp add: in_world_def graph_ok_def)

lemma moved_after:
  assumes "core_of p = core_of q" "callback q = callback p" "persisted q = persisted p" "moved env G W q D r"
  shows "moved env G W p D r"
proof -
  have "p_EpochN q = p_EpochN p" using assms(1) by (simp add: core_of_eq)
  with assms show ?thesis by (auto simp: moved_def split: if_splits)
qed

lemma moved_trans:
  assumes "frame_step env G W (callback p) (core_of p) (core_of q)" "callback q = callback p" "persisted p \<longrightarrow> persisted q" "p_EpochN q = p_EpochN p" "moved env G W q D r"
  shows "moved env G W p D r"
  using assms by (auto simp: moved_def intro: converse_rtranclp_into_rtranclp)

text \<open>A decided frame that does not end the epoch removes at least its Atropos from the roots still to be decided.\<close>

lemma fewer_roots:
  assumes "finite (dom D)" "a \<in> roots_at D F" "F \<noteq> 0" "F + 1 \<noteq> 0"
  shows "card {x \<in> all_roots D. F + 1 \<le> frame_of D x} < card {x \<in> all_roots D. F \<le> frame_of D x}"
proof (rule psubset_card_mono)
  have fin: "finite (all_roots D)" by (rule finite_subset [OF _ assms(1)]) (auto simp: all_roots_def)
  then show "finite {x \<in> all_roots D. F \<le> frame_of D x}" by simp
  have up: "F \<le> g \<and> g \<noteq> F" if "F + 1 \<le> g" for g :: Frame using that assms(4) by unat_arith
  have "a \<in> all_roots D" "frame_of D a = F" using assms(2) unfolding roots_at_all by simp_all
  then show "{x \<in> all_roots D. F + 1 \<le> frame_of D x} \<subset> {x \<in> all_roots D. F \<le> frame_of D x}" using up by blast
qed

lemma electionLoop_moves:
  "base_inv env G p D \<Longrightarrow> voted p D {} \<Longrightarrow> env_ok env \<Longrightarrow> callbacks_ok (callback p) \<Longrightarrow> D \<subseteq>\<^sub>m input (p_EpochN p) \<Longrightarrow> p_EpochN p + 1 \<noteq> 0 \<Longrightarrow> in_world env G W p D \<Longrightarrow>
    \<exists>q. electionLoop env input p = Some q \<and> moved env G W p D q"
proof (induction "card {x \<in> all_roots D. frame_now p \<le> frame_of D x}" arbitrary: p rule: less_induct)
  case less
  let ?F = "frame_now p"
  have F: "?F \<noteq> 0" and fin: "finite (dom D)" using less.prems(1) by (simp_all add: base_inv_def graph_ok_def world_ok_iff valid_dag_def)
  obtain res el t P where k: "knownRootsFrom env p ?F = Some (res, p\<lparr>election := el, store := (store p)\<lparr>tRoots := t\<rparr>\<rparr>)"
    "store_roots ((store p)\<lparr>tRoots := t\<rparr>) D" "voted (p\<lparr>election := el\<rparr>) D P" "res \<noteq> None \<longrightarrow> chooseAtropos el = Inr res"
    "res = None \<longrightarrow> (\<forall>x g. x \<in> roots_at D g \<longrightarrow> ?F < g \<longrightarrow> x \<in> P)"
    using knownRootsFrom_votes [OF less.prems(3,1,2), of ?F] F by force
  let ?p = "p\<lparr>election := el, store := (store p)\<lparr>tRoots := t\<rparr>\<rparr>"
  have base: "base_inv env G ?p D" using base_inv_roots [OF less.prems(1) k(2)] by (subst base_inv_election [symmetric]) simp
  have core: "core_of p = core_of ?p" "callback ?p = callback p" "persisted ?p = persisted p"
    by (simp_all add: core_of_def persisted_def GetCheckpoint_def GetEpoch_def getEpoch_def)
  have v: "voted ?p D P" using k(3) by (simp add: voted_def)
  show ?case
  proof (cases res)
    case None
    have "moved env G W ?p D ?p" using base v k(5) None by (auto simp: moved_def node_inv_def)
    then have "moved env G W p D ?p" using moved_after [OF core] by blast
    with k(1) None show ?thesis by (simp add: electionLoop.simps [of env input p] processKnownRoots_def)
  next
    case (Some r)
    have ch: "chooseAtropos (election ?p) = Inr (Some r)" using k(4) Some by simp
    have pre: "callbacks_ok (callback ?p)" "D \<subseteq>\<^sub>m input (p_EpochN ?p)" "p_EpochN ?p + 1 \<noteq> 0" "in_world env G W ?p D"
      using less.prems(4-7) in_world_cong [of ?p p] by simp_all
    obtain seal q where q: "onFrameDecided env input ?p (res_Frame r) (res_Atropos r) = Some (seal, q)" "callback q = callback ?p" "persisted ?p \<longrightarrow> persisted q"
      "frame_step env G W (callback ?p) (core_of ?p) (core_of q)"
      "if seal then node_inv env G q Map.empty \<and> p_EpochN q = p_EpochN ?p + 1
       else base_inv env G q D \<and> epochState q = epochState ?p \<and> LastDecidedFrame (checkpoint q) = frame_now ?p \<and> voted q D {}"
      using decide_frame [where input = input, OF base pre(1-3) v ch pre(4)] by (elim exE conjE)
    have step: "electionLoop env input p = (if seal then Some q else electionLoop env input q)"
      using k(1) Some q(1) by (simp add: electionLoop.simps [of env input p] processKnownRoots_def)
    show ?thesis
    proof (cases seal)
      case True
      have "p_EpochN p + 1 \<noteq> p_EpochN p" by simp
      with True q(2-5) core(2) have "moved env G W ?p D q" by (simp add: moved_def)
      then show ?thesis using step True moved_after [OF core] by auto
    next
      case False
      then have q': "base_inv env G q D" "epochState q = epochState p" "LastDecidedFrame (checkpoint q) = ?F" "voted q D {}" using q(5) by simp_all
      note d = decided_here [OF base v ch]
      have "card {x \<in> all_roots D. frame_now q \<le> frame_of D x} < card {x \<in> all_roots D. ?F \<le> frame_of D x}"
        using fewer_roots [OF fin d(2)] d(3) F q'(3) by simp
      moreover have "in_world env G W q D" using less.prems(7) in_world_cong [of q p] q'(2) by simp
      ultimately obtain r' where "electionLoop env input q = Some r'" "moved env G W q D r'"
        using less.hyps [of q] q' less.prems(3-6) q(2) by auto
      moreover from this have "moved env G W ?p D r'" using moved_trans [OF q(4,2,3)] q'(2) by simp
      ultimately show ?thesis using step False moved_after [OF core] by auto
    qed
  qed
qed

subsection \<open>An event\<close>

text \<open>What the gossip layer guarantees of an event it passes on: its parents are known and its
  fields fit them (\<open>Event_Checks\<close>), its id is new, and ids do not collide (\<open>G\<close>).\<close>

definition offered :: "poset_env \<Rightarrow> dag \<Rightarrow> 'a Poset \<Rightarrow> dag \<Rightarrow> hash_event \<Rightarrow> EventHeaderData \<Rightarrow> bool" where
  "offered env G p D h e \<longleftrightarrow> Hash (lib env) e = Some h \<and> length h = 32 \<and> h \<notin> dom D \<and> G h = Some e \<and>
     (eEpoch e = p_EpochN p \<longrightarrow> Exists (p_Validators p) (eCreator e) \<longrightarrow> valid_event (p_Validators p) D e)"

lemma base_inv_grow:
  assumes inv: "base_inv env G p D" and ix: "indexed env G q (D(h \<mapsto> e))" and same: "same_core p q" and acc: "accepts env p D h e"
    and off: "offered env G p D h e" and few: "few_forks (p_Validators p) (D(h \<mapsto> e))"
  shows "base_inv env G q (D(h \<mapsto> e))"
proof -
  let ?D = "D(h \<mapsto> e)" and ?vv = "p_Validators p"
  have q: "epochState q = epochState p" "checkpoint q = checkpoint p" "tConfirmedEvent (store q) = tConfirmedEvent (store p)" "closedDbs (store q) = closedDbs (store p)"
    "tFrameInfos (store q) = tFrameInfos (store p)" using same by (auto simp: same_core_def)
  have g: "sane_group ?vv" "valid_dag ?vv D" "frames_ok ?vv D" "ids_ok (lib env) D" "D \<subseteq>\<^sub>m G" "\<And>x f. D x = Some f \<Longrightarrow> length x = 32 \<and> eEpoch f = p_EpochN p"
    using inv by (simp_all add: base_inv_def graph_ok_def world_ok_iff)
  have o: "Hash (lib env) e = Some h" "length h = 32" "h \<notin> dom D" "G h = Some e" "valid_event ?vv D e" "eEpoch e = p_EpochN p" "frame_rule ?vv ?D h e"
    using off acc by (simp_all add: offered_def accepts_def)
  have v: "valid_dag ?vv ?D" using valid_dag_grow [OF g(2) o(3,5)] .
  have "world_ok (?vv, ?D)" using g(1) v frames_ok_grow [OF g(1-3) o(3,7)] few by (simp add: world_ok_iff)
  then have "graph_ok env G q ?D" using g(4-6) o q(1) by (auto simp: graph_ok_def ids_ok_def map_le_def)
  moreover have "blocks_ok G q ?D"
  proof -
    have b: "confirmed_readable (store p)" "closedDbs (store p) = Map.empty" "down_closed D {x \<in> dom D. confirmed (store p) x}"
      "\<And>x. confirmed (store p) x \<Longrightarrow> x \<in> dom D \<or> (\<exists>f. G x = Some f \<and> eEpoch f < p_EpochN p)"
      "\<And>f. f \<noteq> 0 \<Longrightarrow> f \<le> LastDecidedFrame (checkpoint p) \<Longrightarrow> GetFrameInfo (store p) (p_EpochN p) f \<noteq> None" using inv by (simp_all add: base_inv_def blocks_ok_def)
    have reads: "confirmed (store q) x = confirmed (store p) x" "confirmed_readable (store q) = confirmed_readable (store p)" "GetFrameInfo (store q) k f = GetFrameInfo (store p) k f" for x k f
      by (simp_all add: q(3,5) confirmed_def confirmed_readable_def GetEventConfirmedOn_def GetFrameInfo_def)
    have "\<not> confirmed (store p) h" using b(4) [of h] o(3,4,6) by auto
    then have C: "{x \<in> dom ?D. confirmed (store p) x} = {x \<in> dom D. confirmed (store p) x}" by auto
    have le: "D \<subseteq>\<^sub>m ?D" using o(3) by (auto simp: map_le_def)
    have "down_closed ?D {x \<in> dom ?D. confirmed (store p) x}" unfolding C
      using b(3) past_submap [OF g(2) le] by (auto simp: down_closed_def)
    then show ?thesis using b q(1,2,4) by (auto simp: blocks_ok_def reads)
  qed
  ultimately show ?thesis using ix inv q(2) by (simp add: base_inv_def)
qed

lemma roots_grow_at:
  assumes "h \<notin> dom D" "x \<in> roots_at (D(h \<mapsto> e)) f"
  shows "x \<noteq> h \<Longrightarrow> x \<in> roots_at D f" "x = h \<Longrightarrow> eIsRoot e \<and> eFrame e = f"
  using assms by (auto simp: roots_at_def split: if_splits)

lemma handleElection_moves:
  assumes env: "env_ok env" and cb: "callbacks_ok (callback p)" and base: "base_inv env G p (D(h \<mapsto> e))" and h: "h \<notin> dom D" "Hash (lib env) e = Some h"
    and v: "valid_dag (p_Validators p) D" "voted p D P" "\<forall>x f. x \<in> roots_at D f \<longrightarrow> frame_now p < f \<longrightarrow> x \<in> P"
    and get: "D(h \<mapsto> e) \<subseteq>\<^sub>m input (p_EpochN p)" and room: "p_EpochN p + 1 \<noteq> 0" and W: "in_world env G W p (D(h \<mapsto> e))"
  shows "\<exists>q. handleElection env input p (Some e) = Some q \<and> moved env G W p (D(h \<mapsto> e)) q"
proof -
  let ?D = "D(h \<mapsto> e)"
  have sane: "sane_group (p_Validators p)" using base by (simp add: base_inv_def indexed_def)
  have le: "D \<subseteq>\<^sub>m ?D" using h(1) by (auto simp: map_le_def)
  have vote: "voted p ?D P" using elect_run_submap [OF sane v(1) le] v(2) by (simp add: voted_def)
  note old = roots_grow_at [OF h(1)]
  show ?thesis
  proof (cases "eIsRoot e")
    case False
    have "x \<in> P" if "x \<in> roots_at ?D f" "frame_now p < f" for x f using old [OF that(1)] that(2) v(3) False by blast
    then have "moved env G W p ?D p" using base vote by (auto simp: moved_def node_inv_def)
    with False show ?thesis by (simp add: handleElection_def)
  next
    case True
    let ?f = "eFrame e"
    have x: "h \<in> roots_at ?D ?f" using True by (simp add: roots_at_def)
    have root: "root_of ?D h = \<lparr>rID = h, rSlot = \<lparr>sFrame = ?f, sValidator = eCreator e\<rparr>\<rparr>" by (simp add: root_of_def frame_of_def)
    have "?f \<noteq> ?f - 1" by simp
    then have prev: "frame_now p < ?f - 1 \<longrightarrow> (\<forall>y \<in> roots_at ?D (?f - 1). fc_spec (p_Validators p) ?D h y \<longrightarrow> y \<in> P)" using old v(3) by metis
    obtain res el where el: "processRoot env p (root_of ?D h) = Some (res, p\<lparr>election := el\<rparr>)" "voted (p\<lparr>election := el\<rparr>) ?D (insert h P)" "chooseAtropos el = Inr res"
      using processRoot_votes [OF env base vote x prev] by blast
    let ?p = "p\<lparr>election := el\<rparr>"
    have base': "base_inv env G ?p ?D" using base by simp
    have core: "core_of p = core_of ?p" "callback ?p = callback p" "persisted ?p = persisted p" by simp_all
    show ?thesis
    proof (cases res)
      case None
      have "x \<in> insert h P" if "x \<in> roots_at ?D f" "frame_now p < f" for x f using old [OF that(1)] that(2) v(3) by blast
      then have "moved env G W ?p ?D ?p" using base' el(2) by (auto simp: moved_def node_inv_def)
      then have "moved env G W p ?D ?p" by (rule moved_after [OF core])
      with None el(1) True h(2) root show ?thesis by (simp add: handleElection_def)
    next
      case (Some r)
      have pre: "callbacks_ok (callback ?p)" "?D \<subseteq>\<^sub>m input (p_EpochN ?p)" "p_EpochN ?p + 1 \<noteq> 0" "in_world env G W ?p ?D" "chooseAtropos (election ?p) = Inr (Some r)"
        using cb get room W in_world_cong [of ?p p] el(3) Some by simp_all
      obtain seal q where q: "onFrameDecided env input ?p (res_Frame r) (res_Atropos r) = Some (seal, q)" "callback q = callback ?p" "persisted ?p \<longrightarrow> persisted q"
        "frame_step env G W (callback ?p) (core_of ?p) (core_of q)"
        "if seal then node_inv env G q Map.empty \<and> p_EpochN q = p_EpochN ?p + 1
         else base_inv env G q ?D \<and> epochState q = epochState ?p \<and> LastDecidedFrame (checkpoint q) = frame_now ?p \<and> voted q ?D {}"
        using decide_frame [where input = input, OF base' pre(1-3) el(2) pre(5,4)] by (elim exE conjE)
      have step: "handleElection env input p (Some e) = (if seal then Some q else electionLoop env input q)"
        using True el(1) h(2) root Some q(1) by (simp add: handleElection_def)
      have "\<exists>r'. (if seal then Some q else electionLoop env input q) = Some r' \<and> moved env G W ?p ?D r'"
      proof (cases seal)
        case True
        with q show ?thesis by (simp add: moved_def r_into_rtranclp)
      next
        case False
        then have q': "base_inv env G q ?D" "epochState q = epochState p" "voted q ?D {}" using q(5) by simp_all
        have "in_world env G W q ?D" using W in_world_cong [of q p] q'(2) by simp
        then obtain r' where "electionLoop env input q = Some r'" "moved env G W q ?D r'"
          using electionLoop_moves [where input = input and W = W, OF q'(1,3) env] pre q(2) q'(2) by auto
        with False moved_trans [OF q(4,2,3)] q'(2) show ?thesis by auto
      qed
      with step moved_after [OF core] show ?thesis by auto
    qed
  qed
qed

text \<open>The graph a node knows after \<open>ProcessEvent\<close>.\<close>

definition graph_after :: "'a Poset \<Rightarrow> dag \<Rightarrow> hash_event \<Rightarrow> EventHeaderData \<Rightarrow> poset_err option \<Rightarrow> 'a Poset \<Rightarrow> dag" where
  "graph_after p D h e err q = (if err \<noteq> None then D else if p_EpochN q = p_EpochN p then D(h \<mapsto> e) else Map.empty)"

lemma node_inv_same:
  assumes inv: "node_inv env G p D" and same: "same_core p q" and ix: "indexed env G q D"
  shows "node_inv env G q D"
proof -
  have q: "epochState q = epochState p" "checkpoint q = checkpoint p" "election q = election p" "tConfirmedEvent (store q) = tConfirmedEvent (store p)"
    "closedDbs (store q) = closedDbs (store p)" "tFrameInfos (store q) = tFrameInfos (store p)" using same by (auto simp: same_core_def)
  have reads: "confirmed (store q) x = confirmed (store p) x" "confirmed_readable (store q) = confirmed_readable (store p)" "GetFrameInfo (store q) k f = GetFrameInfo (store p) k f" for x k f
    by (simp_all add: q confirmed_def confirmed_readable_def GetEventConfirmedOn_def GetFrameInfo_def)
  show ?thesis using inv ix by (simp add: node_inv_def base_inv_def graph_ok_def blocks_ok_def voted_def reads q)
qed

lemma persisted_same: "same_core p q \<Longrightarrow> persisted q = persisted p"
  by (auto simp: same_core_def persisted_def GetCheckpoint_def GetEpoch_def getEpoch_def)

lemma ProcessEvent_moves:
  assumes env: "env_ok env" and cb: "callbacks_ok (callback p)" and inv: "node_inv env G p D" and off: "offered env G p D h e"
    and get: "D(h \<mapsto> e) \<subseteq>\<^sub>m input (p_EpochN p)" and room: "Validators_Len (p_Validators p) + card (dom D) < 2 ^ 32" "p_EpochN p + 1 \<noteq> 0"
    and W: "accepts env p D h e \<longrightarrow> in_world env G W p (D(h \<mapsto> e))"
  shows "\<exists>err q. ProcessEvent env input p e = Some (err, q) \<and> (err = None \<longleftrightarrow> accepts env p D h e) \<and> callback q = callback p \<and>
     (persisted p \<longrightarrow> persisted q) \<and> (frame_step env G W (callback p))\<^sup>*\<^sup>* (core_of p) (core_of q) \<and> (err \<noteq> None \<longrightarrow> core_of q = core_of p) \<and>
     p_EpochN q \<in> {p_EpochN p, p_EpochN p + 1} \<and> node_inv env G q (graph_after p D h e err q)"
proof (cases "Validate_epoch (p_Validators p) (p_EpochN p) e")
  case (Some err)
  have no: "\<not> accepts env p D h e" using Some by (auto simp: Validate_epoch_def accepts_def split: if_splits)
  show ?thesis by (rule exI [of _ "Some (EpochCheck err)"], rule exI [of _ p]) (use Some no inv in \<open>simp add: ProcessEvent_def graph_after_def\<close>)
next
  case None
  then have ep: "eEpoch e = p_EpochN p" and v: "valid_event (p_Validators p) D e" using off by (auto simp: Validate_epoch_def offered_def split: if_splits)
  have base: "base_inv env G p D" "indexed env G p D" using inv by (simp_all add: node_inv_def base_inv_def)
  have h: "h \<notin> dom D" "Hash (lib env) e = Some h" "length h = 32" "G h = Some e" using off by (simp_all add: offered_def)
  have le: "D \<subseteq>\<^sub>m D(h \<mapsto> e)" using h(1) by (auto simp: map_le_def)
  have getD: "D \<subseteq>\<^sub>m input (p_EpochN p)" using map_le_trans [OF le get] .
  obtain err q where q: "checkAndSaveEvent env input p e = Some (err, q)" "err = None \<longleftrightarrow> accepts env p D h e" "same_core p q" "indexed env G q (if err = None then D(h \<mapsto> e) else D)"
    using checkAndSaveEvent_checks [where input = input, OF env base(2) h v getD room(1) ep] by (elim exE conjE)
  have e: "epochState q = epochState p" "checkpoint q = checkpoint p" using q(3) by (auto simp: same_core_def)
  note core = core_of_same [OF q(3)]
  show ?thesis
  proof (cases err)
    case (Some er)
    then have "node_inv env G q D" using node_inv_same [OF inv q(3)] q(4) by simp
    then show ?thesis by (intro exI [of _ err] exI [of _ q]) (use None q Some core persisted_same [OF q(3)] e in \<open>simp add: ProcessEvent_def graph_after_def\<close>)
  next
    case acc: None
    then have a: "accepts env p D h e" using q(2) by simp
    have W': "in_world env G W q (D(h \<mapsto> e))" using W a in_world_cong [of q p] e by simp
    have few: "few_forks (p_Validators p) (D(h \<mapsto> e))" using W a by (auto simp: in_world_def graph_ok_def world_ok_iff intro: few_forks_mono)
    have base': "base_inv env G q (D(h \<mapsto> e))" using base_inv_grow [OF base(1) _ q(3) a off few] q(4) acc by simp
    obtain P where P: "voted p D P" "\<forall>x f. x \<in> roots_at D f \<longrightarrow> frame_now p < f \<longrightarrow> x \<in> P" using inv by (auto simp: node_inv_def)
    have vd: "valid_dag (p_Validators q) D" "voted q D P" "\<forall>x f. x \<in> roots_at D f \<longrightarrow> frame_now q < f \<longrightarrow> x \<in> P"
      using base(1) P e core by (simp_all add: base_inv_def graph_ok_def world_ok_iff voted_def)
    have pre: "callbacks_ok (callback q)" "D(h \<mapsto> e) \<subseteq>\<^sub>m input (p_EpochN q)" "p_EpochN q + 1 \<noteq> 0" using cb core get room(2) e by simp_all
    obtain r where r: "handleElection env input q (Some e) = Some r" "moved env G W q (D(h \<mapsto> e)) r"
      using handleElection_moves [where input = input, OF env pre(1) base' h(1,2) vd pre(2,3) W'] by (elim exE conjE)
    have "ProcessEvent env input p e = Some (None, r)" using None q(1) acc r(1) by (simp add: ProcessEvent_def)
    moreover have "p_EpochN r \<in> {p_EpochN p, p_EpochN p + 1}" "node_inv env G r (graph_after p D h e None r)"
      using r(2) e by (auto simp: moved_def graph_after_def split: if_splits)
    ultimately show ?thesis by (intro exI [of _ None] exI [of _ r]) (use a r(2) core persisted_same [OF q(3)] in \<open>simp add: moved_def\<close>)
  qed
qed

text \<open>The graph with an accepted event is a world of its own.\<close>

lemma accepted_world:
  assumes inv: "node_inv env G p D" and off: "offered env G p D h e" and acc: "accepts env p D h e" and few: "few_forks (p_Validators p) (D(h \<mapsto> e))"
  shows "in_world env G (\<lambda>_. D(h \<mapsto> e)) p (D(h \<mapsto> e))"
proof -
  have b: "sane_group (p_Validators p)" "valid_dag (p_Validators p) D" "frames_ok (p_Validators p) D" "ids_ok (lib env) D" "D \<subseteq>\<^sub>m G"
    "\<And>x f. D x = Some f \<Longrightarrow> length x = 32 \<and> eEpoch f = p_EpochN p" using inv by (simp_all add: node_inv_def base_inv_def graph_ok_def world_ok_iff)
  have o: "Hash (lib env) e = Some h" "length h = 32" "h \<notin> dom D" "G h = Some e" "valid_event (p_Validators p) D e" "eEpoch e = p_EpochN p" "frame_rule (p_Validators p) (D(h \<mapsto> e)) h e"
    using off acc by (simp_all add: offered_def accepts_def)
  then have "world_ok (p_Validators p, D(h \<mapsto> e))" using b frames_ok_grow valid_dag_grow few by (simp add: world_ok_iff)
  with b o show ?thesis by (auto simp: in_world_def graph_ok_def ids_ok_def map_le_def)
qed

text \<open>
  C2. \<open>ProcessEvent\<close> on a node with any history: given an event whose parents are known and which
  the basic and parents checks passed, it returns (no loop runs forever, no sanity check stops the
  node); it answers with no error exactly when the event obeys the rules of the graph (epoch,
  creator, hash of the previous epoch, no parents by known cheaters, frame and root flag, weighted
  median time); a refused event changes neither the consensus state nor what the node knows; and
  an accepted one leaves a node that meets the invariant again, in the same epoch with the event
  added, or at the start of the next.
\<close>

theorem ProcessEvent_correct:
  assumes "env_ok env" "callbacks_ok (callback p)" "node_inv env G p D" "offered env G p D h e" "D(h \<mapsto> e) \<subseteq>\<^sub>m input (p_EpochN p)"
    and "Validators_Len (p_Validators p) + card (dom D) < 2 ^ 32" "p_EpochN p + 1 \<noteq> 0" "accepts env p D h e \<longrightarrow> few_forks (p_Validators p) (D(h \<mapsto> e))"
  shows "\<exists>err q. ProcessEvent env input p e = Some (err, q) \<and> (err = None \<longleftrightarrow> accepts env p D h e) \<and> (err \<noteq> None \<longrightarrow> core_of q = core_of p) \<and>
     p_EpochN q \<in> {p_EpochN p, p_EpochN p + 1} \<and> callback q = callback p \<and> node_inv env G q (graph_after p D h e err q)"
proof -
  have "accepts env p D h e \<longrightarrow> in_world env G (\<lambda>_. D(h \<mapsto> e)) p (D(h \<mapsto> e))" using accepted_world [OF assms(3,4)] assms(8) by blast
  from ProcessEvent_moves [where input = input, OF assms(1-7) this] show ?thesis
    by (elim exE conjE) (intro exI conjI, assumption+)
qed

end
