(* ===== verification/Network.thy ===== *)
theory Network
  imports Node
begin

text \<open>
  From the genesis on: the first start of a node, its restarts, and the agreement of any two nodes
  of the network.
\<close>

subsection \<open>First start\<close>

definition genesis_core :: "Store \<Rightarrow> 'a \<Rightarrow> 'a core" where
  "genesis_core s a = \<lparr>coCheckpoint = the (GetCheckpoint s), coEpoch = the (GetEpoch s), coApp = a, coConfirmed = tConfirmedEvent s, coInfos = tFrameInfos s\<rparr>"

lemma no_step_empty:
  fixes c :: "'a core"
  assumes "frame_step env G (\<lambda>_. Map.empty) cb c c'"
  shows False
proof -
  obtain p :: "'a Poset" and D P r where p: "base_inv env G p D" "in_world env G (\<lambda>_. Map.empty) p D" "voted p D P" "chooseAtropos (election p) = Inr (Some r)"
    using assms unfolding frame_step_def by blast
  have "D = Map.empty" using p(2) by (auto simp: in_world_def map_le_def fun_eq_iff)
  with decided_here(2) [OF p(1,3,4)] show False by simp
qed

lemma NewMemStore_fields:
  "closedDbs NewMemStore = Map.empty" "tConfirmedEvent NewMemStore = Map.empty" "GetGenesis NewMemStore = None" "FrameRoots (tRoots NewMemStore) = Some Map.empty"
  by (simp_all add: NewMemStore_def initCache_def GetGenesis_def getEpoch_def)

text \<open>The store after the genesis was applied to a blank one.\<close>

lemma ApplyGenesis_new:
  assumes "ApplyGenesis env ratio NewMemStore (Some g) atropos appHash = (None, s)"
  shows "s = SetCheckpoint (SetEpoch (SetGenesis NewMemStore (fst (genesisStates ratio g atropos appHash))) (fst (genesisStates ratio g atropos appHash)))
     (snd (genesisStates ratio g atropos appHash))"
  using assms by (auto simp: ApplyGenesis_def NewMemStore_fields case_prod_beta split: if_splits)

lemma genesis_fields:
  assumes "ApplyGenesis env ratio NewMemStore (Some g) atropos appHash = (None, s)"
  shows "closedDbs s = Map.empty" "tConfirmedEvent s = Map.empty" "GetCheckpoint s = Some (snd (genesisStates ratio g atropos appHash))"
    "GetEpoch s = Some (fst (genesisStates ratio g atropos appHash))"
  unfolding ApplyGenesis_new [OF assms]
  by (simp_all add: SetCheckpoint_def SetEpoch_def SetGenesis_def setEpoch_def GetCheckpoint_def GetEpoch_def getEpoch_def NewMemStore_fields key_c_def key_g_def)

lemma first_start:
  fixes a :: 'a
  assumes gen: "ApplyGenesis env ratio NewMemStore (Some g) atropos appHash = (None, s)" and sane: "sane_group (GValidators_Validators ratio (gValidators g))"
    and env: "env_ok env" and cb: "callbacks_ok cb"
  shows "\<exists>p. Bootstrap env input cb a s None = Some p \<and> node_inv env G p Map.empty \<and> core_of p = genesis_core s a \<and> callback p = cb \<and> persisted p"
proof -
  let ?es = "fst (genesisStates ratio g atropos appHash)" and ?cp = "snd (genesisStates ratio g atropos appHash)"
  note f = genesis_fields [OF gen]
  let ?s = "RecreateEpochDb s (EpochN ?es)"
  let ?p = "\<lparr>store = ?s, checkpoint = ?cp, epochState = ?es, election = Election_New (esValidators ?es) (LastDecidedFrame ?cp + 1),
             vecClock = NewIndex (esValidators ?es) (tVectorIndex ?s), callback = cb, app = a\<rparr>"
  have c: "\<not> confirmed (store ?p) h" "confirmed_readable (store ?p)" for h
    using f(2) by (simp_all add: confirmed_def confirmed_readable_def GetEventConfirmedOn_def RecreateEpochDb_fields)
  have vg: "valid_group (GValidators_Validators ratio (gValidators g))" using sane by blast
  have es: "sane_group (esValidators ?es)" "LastDecidedFrame ?cp = 0" "EpochN ?es = 1" using sane vg by (simp_all add: genesisStates_def Let_def firstEpoch_def)
  have inv: "node_inv env G ?p Map.empty"
  proof (rule fresh_node [of ?p "FrameRoots (tRoots s)"])
    show "confirmed (store ?p) h \<Longrightarrow> \<exists>e. G h = Some e \<and> eEpoch e < p_EpochN ?p" for h using c(1) by blast
    show "confirmed_readable (store ?p)" by (rule c(2))
  qed (simp_all add: es RecreateEpochDb_fields RecreateEpochDb_fresh [OF f(1)])
  have base: "base_inv env G ?p Map.empty" using inv by (simp add: node_inv_def)
  have vote: "voted ?p Map.empty {}" by (simp add: voted_def elect_run.elect_new)
  have W: "in_world env G (\<lambda>_. Map.empty) ?p Map.empty" using base by (simp add: in_world_def base_inv_def)
  obtain q where q: "electionLoop env input ?p = Some q" "moved env G (\<lambda>_. Map.empty) ?p Map.empty q"
    using electionLoop_moves [where input = input, OF base vote env _ _ _ W] cb es(3) by auto
  have core: "core_of q = core_of ?p" using q(2) no_step_empty unfolding moved_def by (metis rtranclp.cases)
  moreover have "core_of ?p = genesis_core s a" using f by (simp add: core_of_def genesis_core_def RecreateEpochDb_fields)
  moreover have "persisted ?p" using f by (simp add: persisted_def RecreateEpochDb_persisted RecreateEpochDb_fields)
  ultimately have "Bootstrap env input cb a s None = Some q" "node_inv env G q Map.empty" "core_of q = genesis_core s a" "callback q = cb" "persisted q"
    using f(3,4) q by (auto simp: Bootstrap_def Let_def moved_def split: if_splits)
  then show ?thesis by blast
qed

subsection \<open>Restart\<close>

lemma run_inv_reopen:
  assumes "run_inv vv G vi D D" "valid_group vv"
  shows "run_inv vv G (NewIndex vv (vi_flushed vi)) D D"
proof -
  let ?n = "NewIndex vv (vi_flushed vi)"
  have "vi_validators ?n = vi_validators (DropNotFlushed vi)" "the_bi ?n = the_bi (DropNotFlushed vi)" "vi_table ?n = vi_table (DropNotFlushed vi)"
    using assms by (auto simp: NewIndex_def DropNotFlushed_def the_bi_def getBranchesInfo_def run_inv_def split: option.split)
  then have "index_inv ?n D = index_inv (DropNotFlushed vi) D" by (intro index_inv_cong) simp_all
  moreover have "DropNotFlushed ?n = ?n" by (simp add: NewIndex_def DropNotFlushed_def)
  ultimately show ?thesis using assms by (simp add: run_inv_def cache_inv_def) (simp add: NewIndex_def)
qed

lemma reopened_store:
  assumes "epochDb s = Some n" "closedDbs s = Map.empty"
  shows "tRoots (RecreateEpochDb (initCache b (Store_Close s)) n) = \<lparr>Roots = Roots (tRoots s), FrameRoots = (if b then Some Map.empty else None)\<rparr>"
    "tVectorIndex (RecreateEpochDb (initCache b (Store_Close s)) n) = tVectorIndex s" "closedDbs (RecreateEpochDb (initCache b (Store_Close s)) n) = Map.empty"
    "tConfirmedEvent (RecreateEpochDb (initCache b (Store_Close s)) n) = tConfirmedEvent s" "tFrameInfos (RecreateEpochDb (initCache b (Store_Close s)) n) = tFrameInfos s"
    "GetCheckpoint (initCache b (Store_Close s)) = GetCheckpoint s" "GetEpoch (initCache b (Store_Close s)) = GetEpoch s"
  using assms by (simp_all add: RecreateEpochDb_def initCache_def Store_Close_def Let_def case_prod_beta GetCheckpoint_def GetEpoch_def getEpoch_def)

lemma restart_moves:
  assumes env: "env_ok env" and cb: "callbacks_ok (callback p)" and inv: "node_inv env G p D" "persisted p" and get: "D \<subseteq>\<^sub>m input (p_EpochN p)"
    and room: "p_EpochN p + 1 \<noteq> 0" and W: "in_world env G W p D"
  shows "\<exists>q. Bootstrap env input (callback p) (app p) (initCache b (Store_Close (store p))) None = Some q \<and> moved env G W p D q"
proof -
  let ?s = "RecreateEpochDb (initCache b (Store_Close (store p))) (p_EpochN p)" and ?vv = "p_Validators p"
  let ?p = "\<lparr>store = ?s, checkpoint = checkpoint p, epochState = epochState p, election = Election_New ?vv (frame_now p),
             vecClock = NewIndex ?vv (tVectorIndex ?s), callback = callback p, app = app p\<rparr>"
  have b: "indexed env G p D" "graph_ok env G p D" "blocks_ok G p D" "frame_now p \<noteq> 0" using inv(1) by (simp_all add: node_inv_def base_inv_def)
  have s: "epochDb (store p) = Some (p_EpochN p)" "closedDbs (store p) = Map.empty" "GetCheckpoint (store p) = Some (checkpoint p)" "GetEpoch (store p) = Some (epochState p)"
    using inv(2) b(3) by (simp_all add: persisted_def blocks_ok_def)
  note f = reopened_store [OF s(1,2), of b]
  have reads: "confirmed ?s x = confirmed (store p) x" "confirmed_readable ?s = confirmed_readable (store p)" "GetFrameInfo ?s k g = GetFrameInfo (store p) k g" for x k g
    by (simp_all add: f confirmed_def confirmed_readable_def GetEventConfirmedOn_def GetFrameInfo_def)
  have ix: "sane_group ?vv" "run_inv ?vv G (vecClock p) D D" "store_roots (store p) D" "tVectorIndex (store p) = vi_flushed (vecClock p)" using b(1) by (simp_all add: indexed_def)
  have "store_roots ?s D" using ix(3) by (auto simp: store_roots_def RecreateEpochDb_fields f roots_inv_def)
  moreover have "run_inv ?vv G (NewIndex ?vv (vi_flushed (vecClock p))) D D" using run_inv_reopen ix(1,2) by blast
  ultimately have "indexed env G ?p D" using ix(1,4) by (simp add: indexed_def f) (simp add: NewIndex_def)
  moreover have "blocks_ok G ?p D" using b(3) by (simp add: blocks_ok_def reads f)
  ultimately have base: "base_inv env G ?p D" using b(2,4) by (simp add: base_inv_def graph_ok_def)
  have vote: "voted ?p D {}" by (simp add: voted_def elect_run.elect_new)
  have W': "in_world env G W ?p D" using W in_world_cong [of ?p p] by simp
  obtain q where q: "electionLoop env input ?p = Some q" "moved env G W ?p D q"
    using electionLoop_moves [where input = input, OF base vote env _ _ _ W'] cb get room by auto
  have "core_of p = core_of ?p" "persisted ?p = persisted p"
    using f s by (simp_all add: core_of_def persisted_def RecreateEpochDb_persisted RecreateEpochDb_fields)
  then have "moved env G W p D q" using moved_after [OF _ _ _ q(2)] by simp
  moreover have "Bootstrap env input (callback p) (app p) (initCache b (Store_Close (store p))) None = Some q"
    using f(6,7) s q(1) by (simp add: Bootstrap_def Let_def)
  ultimately show ?thesis by blast
qed

subsection \<open>Runs\<close>

text \<open>
  The runs of a node: a first start from the store \<open>s0\<close>, then events in any order the gossip layer
  may offer them in, accepted or refused, and restarts. \<open>W\<close> gives for each epoch the events that
  follow the rules, of which less than a third of the stake forks; a node accepts events of \<open>W\<close>.
\<close>

inductive node_run :: "poset_env \<Rightarrow> dag \<Rightarrow> (Epoch \<Rightarrow> dag) \<Rightarrow> 'a ConsensusCallbacks \<Rightarrow> 'a \<Rightarrow> Store \<Rightarrow> 'a Poset \<Rightarrow> dag \<Rightarrow> bool" for env G W cb a0 s0 where
  start: "Bootstrap env input cb a0 s0 None = Some p \<Longrightarrow> node_run env G W cb a0 s0 p Map.empty"
| event: "node_run env G W cb a0 s0 p D \<Longrightarrow> offered env G p D h e \<Longrightarrow> D(h \<mapsto> e) \<subseteq>\<^sub>m input (p_EpochN p) \<Longrightarrow>
    Validators_Len (p_Validators p) + card (dom D) < 2 ^ 32 \<Longrightarrow> p_EpochN p + 1 \<noteq> 0 \<Longrightarrow> (accepts env p D h e \<longrightarrow> in_world env G W p (D(h \<mapsto> e))) \<Longrightarrow>
    ProcessEvent env input p e = Some (err, q) \<Longrightarrow> node_run env G W cb a0 s0 q (graph_after p D h e err q)"
| restart: "node_run env G W cb a0 s0 p D \<Longrightarrow> D \<subseteq>\<^sub>m input (p_EpochN p) \<Longrightarrow> p_EpochN p + 1 \<noteq> 0 \<Longrightarrow> in_world env G W p D \<Longrightarrow>
    Bootstrap env input (callback p) (app p) (initCache cached (Store_Close (store p))) None = Some q \<Longrightarrow>
    node_run env G W cb a0 s0 q (if p_EpochN q = p_EpochN p then D else Map.empty)"

lemma node_run_inv:
  fixes cb :: "'a ConsensusCallbacks"
  assumes env: "env_ok env" and cb: "callbacks_ok cb" and gen: "ApplyGenesis env ratio NewMemStore (Some g) atropos appHash = (None, s0)"
    and sane: "sane_group (GValidators_Validators ratio (gValidators g))"
  shows "node_run env G W cb a0 s0 p D \<Longrightarrow> node_inv env G p D \<and> persisted p \<and> callback p = cb \<and> (frame_step env G W cb)\<^sup>*\<^sup>* (genesis_core s0 a0) (core_of p)"
proof (induction rule: node_run.induct)
  case (start input p)
  with first_start [OF gen sane env cb, of input a0 G] show ?case by auto
next
  case (event p D h e input err q)
  note ih = event.IH
  have cb': "callbacks_ok (callback p)" and inv: "node_inv env G p D" using ih cb by simp_all
  obtain err' q' where q: "ProcessEvent env input p e = Some (err', q')" "callback q' = callback p" "persisted p \<longrightarrow> persisted q'"
    "(frame_step env G W (callback p))\<^sup>*\<^sup>* (core_of p) (core_of q')" "node_inv env G q' (graph_after p D h e err' q')"
    using ProcessEvent_moves [where input = input, OF env cb' inv event.hyps(2-6)] by (elim exE conjE)
  have "err' = err" "q' = q" using q(1) event.hyps(7) by simp_all
  with q ih show ?case by auto
next
  case (restart p D input cached q)
  note ih = restart.IH
  have cb': "callbacks_ok (callback p)" and inv: "node_inv env G p D" "persisted p" using ih cb by simp_all
  have "moved env G W p D q" using restart_moves [where input = input and b = cached, OF env cb' inv restart.hyps(2-4)] restart.hyps(5) by auto
  with ih show ?case by (auto simp: moved_def split: if_splits)
qed

text \<open>
  C1. Consensus. Two nodes that start from the same genesis, are fed events in whatever order and
  selection, refuse what they refuse and restart when they want, are in the same consensus state
  whenever they have decided the same frame of the same epoch: the same last block, Atropos and
  application hash, the same validators and previous-epoch record, the same application state, the
  same confirmed events with the same frames and the same consensus times.
\<close>

theorem nodes_agree:
  fixes cb :: "'a ConsensusCallbacks"
  assumes "env_ok env" "callbacks_ok cb" "ApplyGenesis env ratio NewMemStore (Some g) atropos appHash = (None, s0)"
    and "sane_group (GValidators_Validators ratio (gValidators g))"
    and "node_run env G W cb a0 s0 p D" "node_run env G W cb a0 s0 q E"
    and "p_EpochN p = p_EpochN q" "LastDecidedFrame (checkpoint p) = LastDecidedFrame (checkpoint q)"
  shows "checkpoint p = checkpoint q \<and> epochState p = epochState q \<and> app p = app q \<and>
    tConfirmedEvent (store p) = tConfirmedEvent (store q) \<and> tFrameInfos (store p) = tFrameInfos (store q)"
proof -
  have "(frame_step env G W cb)\<^sup>*\<^sup>* (genesis_core s0 a0) (core_of p)" "(frame_step env G W cb)\<^sup>*\<^sup>* (genesis_core s0 a0) (core_of q)"
    using node_run_inv [OF assms(1-4)] assms(5,6) by blast+
  then have "core_of p = core_of q" by (rule steps_line) (use assms(7,8) in \<open>simp add: position_def core_of_def\<close>)
  then show ?thesis by (simp add: core_of_eq)
qed

end
