(* ===== verification/Solo_Network.thy ===== *)
theory Solo_Network
  imports Network
begin

text \<open>
  A network of one validator: three events, each a root of the next frame, decide the first frame.
  The run is evaluated by the kernel, with a restart after it.
\<close>

definition solo_genesis :: "unit Genesis" where
  "solo_genesis = \<lparr>gTime = 5, gValidators = [\<lparr>gID = 1, gAddress = (), gStake = 1\<rparr>]\<rparr>"

definition solo_id :: "byte \<Rightarrow> hash_event" where
  "solo_id b = replicate 31 0 @ [b]"

definition solo_event :: "byte \<Rightarrow> byte list \<Rightarrow> EventSeq \<Rightarrow> Timestamp \<Rightarrow> EventHeaderData" where
  "solo_event h ps s t = empty_header\<lparr>eHash := Some (solo_id h), eEpoch := 1, eCreator := 1, eSeq := s, eParents := map solo_id ps, eLamport := s,
     eFrame := s, eIsRoot := True, eClaimedTime := t, eMedianTime := t, ePrevEpochHash := hash_Zero\<rparr>"

definition solo_dag :: dag where
  "solo_dag = [solo_id 1 \<mapsto> solo_event 1 [] 1 10, solo_id 2 \<mapsto> solo_event 2 [1] 2 20, solo_id 3 \<mapsto> solo_event 3 [2] 3 30]"

definition solo_store :: Store where
  "solo_store = snd (ApplyGenesis sample_env 1 NewMemStore (Some solo_genesis) hash_Zero hash_Zero)"

definition solo_start :: "unit Poset option" where
  "solo_start = Bootstrap sample_env (\<lambda>_. solo_dag) no_callbacks () solo_store None"

definition solo_feed :: "EventHeaderData \<Rightarrow> unit Poset \<Rightarrow> unit Poset option" where
  "solo_feed e p = do { (err, q) \<leftarrow> ProcessEvent sample_env (\<lambda>_. solo_dag) p e; if err = None then Some q else None }"

definition solo_reopen :: "unit Poset \<Rightarrow> unit Poset option" where
  "solo_reopen p = Bootstrap sample_env (\<lambda>_. solo_dag) no_callbacks () (initCache True (Store_Close (store p))) None"

definition at_frame :: "Frame \<Rightarrow> unit Poset \<Rightarrow> bool" where
  "at_frame f p \<longleftrightarrow> p_EpochN p = 1 \<and> LastDecidedFrame (checkpoint p) = f"

lemma solo_eval:
  "(case solo_start of None \<Rightarrow> False | Some p0 \<Rightarrow>
    case solo_feed (solo_event 1 [] 1 10) p0 of None \<Rightarrow> False | Some p1 \<Rightarrow> at_frame 0 p1 \<and> (
    case solo_feed (solo_event 2 [1] 2 20) p1 of None \<Rightarrow> False | Some p2 \<Rightarrow> at_frame 0 p2 \<and> (
    case solo_feed (solo_event 3 [2] 3 30) p2 of None \<Rightarrow> False | Some p3 \<Rightarrow> at_frame 1 p3 \<and> (
    case solo_reopen p3 of None \<Rightarrow> False | Some q \<Rightarrow> at_frame 1 q))))"
  by code_simp

lemma solo_genesis_group: "GValidators_Validators 1 (gValidators solo_genesis) = solo_group"
  by (simp add: solo_genesis_def solo_group_def GValidators_Validators_def EqualStakeValidators_def BalanceToStake_def)

lemma solo_genesis_applied: "ApplyGenesis sample_env 1 NewMemStore (Some solo_genesis) hash_Zero hash_Zero = (None, solo_store)"
  by (simp add: solo_store_def ApplyGenesis_def solo_genesis_def NewMemStore_fields case_prod_beta)

lemma solo_env: "env_ok sample_env" "callbacks_ok no_callbacks" "sane_group (GValidators_Validators 1 (gValidators solo_genesis))"
  by (simp_all add: env_ok_def sample_env_def callbacks_ok_def no_callbacks_def solo_genesis_group)

lemma solo_ids [simp]: "solo_id a = solo_id b \<longleftrightarrow> a = b" "length (solo_id a) = 32" "Hash env (solo_event h ps s t) = Some (solo_id h)"
  by (simp_all add: solo_id_def solo_event_def Hash_def)

lemma solo_event_fields [simp]: "eEpoch (solo_event h ps s t) = 1" "eCreator (solo_event h ps s t) = 1" "eSeq (solo_event h ps s t) = s" "eParents (solo_event h ps s t) = map solo_id ps"
  by (simp_all add: solo_event_def)

lemma solo_at: "solo_dag (solo_id 1) = Some (solo_event 1 [] 1 10)" "solo_dag (solo_id 2) = Some (solo_event 2 [1] 2 20)" "solo_dag (solo_id 3) = Some (solo_event 3 [2] 3 30)"
  "dom solo_dag = {solo_id 1, solo_id 2, solo_id 3}"
  by (auto simp: solo_dag_def)

lemma solo_few:
  assumes "D \<subseteq>\<^sub>m solo_dag"
  shows "few_forks solo_group D"
proof -
  have inj: "y = z" if "y \<in> dom solo_dag" "z \<in> dom solo_dag" "seq_of solo_dag y = seq_of solo_dag z" for y z
    using that unfolding solo_at(4) by (auto simp: seq_of_def solo_at)
  have sub: "dom D \<subseteq> dom solo_dag" using assms by (auto simp: map_le_def dom_def)
  have "y = z" if "y \<in> dom D" "z \<in> dom D" "seq_of D y = seq_of D z" for y z
    by (rule inj) (use that sub at_submap(1) [OF assms] in auto)
  then have "\<not> forked solo_group D (dom D) c" for c unfolding forked_def by blast
  then show ?thesis by (simp add: few_forks_def sq.wt_empty)
qed

lemma solo_member: "solo_dag x = Some e \<Longrightarrow> Hash (lib sample_env) e = Some x \<and> length x = 32 \<and> eEpoch e = 1"
proof -
  assume e: "solo_dag x = Some e"
  then have "x \<in> {solo_id 1, solo_id 2, solo_id 3}" using solo_at(4) by blast
  with e show ?thesis by (auto simp: solo_at)
qed


definition solo_ok :: "unit Poset \<Rightarrow> dag \<Rightarrow> bool" where
  "solo_ok p D \<longleftrightarrow> node_inv sample_env solo_dag p D \<and> persisted p \<and> callback p = no_callbacks \<and> p_EpochN p = 1 \<and> p_Validators p = solo_group \<and> D \<subseteq>\<^sub>m solo_dag"

lemma solo_first: "solo_start = Some p \<Longrightarrow> solo_ok p Map.empty"
proof -
  assume p: "solo_start = Some p"
  obtain q where "solo_start = Some q" "node_inv sample_env solo_dag q Map.empty" "core_of q = genesis_core solo_store ()" "callback q = no_callbacks" "persisted q"
    using first_start [OF solo_genesis_applied solo_env(3,1,2), of "\<lambda>_. solo_dag" "()" solo_dag] by (auto simp: solo_start_def)
  moreover from this(3) have "epochState q = fst (genesisStates 1 solo_genesis hash_Zero hash_Zero)"
    using genesis_fields(4) [OF solo_genesis_applied] by (simp add: core_of_def genesis_core_def)
  moreover have "valid_group solo_group" by (rule sane_groupD) simp
  moreover have "q = p" using p calculation(1) by (metis option.inject)
  ultimately show ?thesis by (simp add: solo_ok_def genesisStates_def Let_def solo_genesis_group firstEpoch_def)
qed

lemma solo_offered:
  assumes "solo_ok p D" "h \<notin> dom D" "solo_dag h = Some e" "valid_event solo_group D e"
  shows "offered sample_env solo_dag p D h e" "D(h \<mapsto> e) \<subseteq>\<^sub>m solo_dag" "Validators_Len (p_Validators p) + card (dom D) < 2 ^ 32" "p_EpochN p + 1 \<noteq> 0"
    "few_forks (p_Validators p) (D(h \<mapsto> e))"
proof -
  have p: "p_EpochN p = 1" "p_Validators p = solo_group" "D \<subseteq>\<^sub>m solo_dag" using assms(1) by (simp_all add: solo_ok_def)
  show "offered sample_env solo_dag p D h e" using assms(2-4) solo_member [OF assms(3)] p by (simp add: offered_def)
  show le: "D(h \<mapsto> e) \<subseteq>\<^sub>m solo_dag" using p(3) assms(3) by (auto simp: map_le_def)
  have "dom D \<subseteq> dom solo_dag" using p(3) by (auto simp: map_le_def dom_def)
  then have "card (dom D) \<le> card {solo_id 1, solo_id 2, solo_id 3}" unfolding solo_at(4) by (intro card_mono) simp_all
  then show "Validators_Len (p_Validators p) + card (dom D) < 2 ^ 32" using p(2) by simp
  show "p_EpochN p + 1 \<noteq> 0" using p(1) by simp
  show "few_forks (p_Validators p) (D(h \<mapsto> e))" using solo_few [OF le] p(2) by simp
qed

lemma solo_step:
  assumes ok: "solo_ok p D" and h: "h \<notin> dom D" "solo_dag h = Some e" "valid_event solo_group D e" and q: "solo_feed e p = Some q" "p_EpochN q = 1"
  shows "solo_ok q (D(h \<mapsto> e))" "epochState q = epochState p" "graph_after p D h e None q = D(h \<mapsto> e)" "ProcessEvent sample_env (\<lambda>_. solo_dag) p e = Some (None, q)"
proof -
  note off = solo_offered [OF ok h]
  have p: "node_inv sample_env solo_dag p D" "persisted p" "callback p = no_callbacks" "p_EpochN p = 1" using ok by (simp_all add: solo_ok_def)
  have cb: "callbacks_ok (callback p)" using p(3) solo_env(2) by simp
  have W: "accepts sample_env p D h e \<longrightarrow> in_world sample_env solo_dag (\<lambda>_. D(h \<mapsto> e)) p (D(h \<mapsto> e))" using accepted_world [OF p(1) off(1) _ off(5)] by blast
  obtain err q' where r: "ProcessEvent sample_env (\<lambda>_. solo_dag) p e = Some (err, q')" "callback q' = callback p" "persisted p \<longrightarrow> persisted q'"
    "(frame_step sample_env solo_dag (\<lambda>_. D(h \<mapsto> e)) (callback p))\<^sup>*\<^sup>* (core_of p) (core_of q')" "node_inv sample_env solo_dag q' (graph_after p D h e err q')"
    using ProcessEvent_moves [where input = "\<lambda>_. solo_dag", OF solo_env(1) cb p(1) off(1,2,3,4) W] by (elim exE conjE)
  have "err = None" "q' = q" using q(1) r(1) by (auto simp: solo_feed_def split: if_splits)
  note r = r [unfolded this]
  show "ProcessEvent sample_env (\<lambda>_. solo_dag) p e = Some (None, q)" by (rule r(1))
  show g: "graph_after p D h e None q = D(h \<mapsto> e)" using q(2) p(4) by (simp add: graph_after_def)
  show e: "epochState q = epochState p" using steps_epoch [OF r(4)] q(2) p(4) by (simp add: core_of_def)
  show "solo_ok q (D(h \<mapsto> e))" using r g e off(2) p ok by (simp add: solo_ok_def)
qed

lemma solo_valid:
  "valid_event solo_group Map.empty (solo_event 1 [] 1 10)"
  "valid_event solo_group [solo_id 1 \<mapsto> solo_event 1 [] 1 10] (solo_event 2 [1] 2 20)"
  "valid_event solo_group [solo_id 1 \<mapsto> solo_event 1 [] 1 10, solo_id 2 \<mapsto> solo_event 2 [1] 2 20] (solo_event 3 [2] 3 30)"
  by (simp_all add: valid_event_def SelfParent_def)

text \<open>The states of the run.\<close>

lemma solo_states:
  obtains p0 p1 p2 p3 q where "solo_start = Some p0" "solo_feed (solo_event 1 [] 1 10) p0 = Some p1" "solo_feed (solo_event 2 [1] 2 20) p1 = Some p2"
    "solo_feed (solo_event 3 [2] 3 30) p2 = Some p3" "solo_reopen p3 = Some q" "at_frame 0 p1" "at_frame 0 p2" "at_frame 1 p3" "at_frame 1 q"
  using solo_eval by (auto split: option.splits)

theorem ProcessEvent_correct_witness:
  "\<exists>p p'. solo_ok p [solo_id 1 \<mapsto> solo_event 1 [] 1 10, solo_id 2 \<mapsto> solo_event 2 [1] 2 20] \<and>
     ProcessEvent sample_env (\<lambda>_. solo_dag) p (solo_event 3 [2] 3 30) = Some (None, p') \<and> LastDecidedFrame (checkpoint p') = 1 \<and>
     accepts sample_env p [solo_id 1 \<mapsto> solo_event 1 [] 1 10, solo_id 2 \<mapsto> solo_event 2 [1] 2 20] (solo_id 3) (solo_event 3 [2] 3 30) \<and>
     node_inv sample_env solo_dag p' solo_dag"
proof -
  let ?D = "[solo_id 1 \<mapsto> solo_event 1 [] 1 10, solo_id 2 \<mapsto> solo_event 2 [1] 2 20]"
  obtain p0 p1 p2 p3 q where r: "solo_start = Some p0" "solo_feed (solo_event 1 [] 1 10) p0 = Some p1" "solo_feed (solo_event 2 [1] 2 20) p1 = Some p2"
    "solo_feed (solo_event 3 [2] 3 30) p2 = Some p3" "at_frame 0 p1" "at_frame 0 p2" "at_frame 1 p3" by (rule solo_states)
  have ok: "solo_ok p2 ?D"
    using solo_step(1) [OF solo_step(1) [OF solo_first [OF r(1)] _ solo_at(1) solo_valid(1) r(2)] _ solo_at(2) solo_valid(2) r(3)] r(5,6) by (simp add: at_frame_def)
  have new: "solo_id 3 \<notin> dom ?D" by simp
  note off = solo_offered [OF ok new solo_at(3) solo_valid(3)]
  have p: "node_inv sample_env solo_dag p2 ?D" "callbacks_ok (callback p2)" "p_EpochN p2 = 1" using ok solo_env(2) by (simp_all add: solo_ok_def)
  obtain err p' where q: "ProcessEvent sample_env (\<lambda>_. solo_dag) p2 (solo_event 3 [2] 3 30) = Some (err, p')" "err = None \<longleftrightarrow> accepts sample_env p2 ?D (solo_id 3) (solo_event 3 [2] 3 30)"
    "node_inv sample_env solo_dag p' (graph_after p2 ?D (solo_id 3) (solo_event 3 [2] 3 30) err p')"
    using ProcessEvent_correct [where input = "\<lambda>_. solo_dag", OF solo_env(1) p(2,1) off(1-4) impI [OF off(5)]] by (elim exE conjE)
  have e: "err = None" "p' = p3" using q(1) r(4) by (auto simp: solo_feed_def split: if_splits)
  have "node_inv sample_env solo_dag p3 solo_dag" using q(3) e r(7) p(3) by (simp add: graph_after_def at_frame_def solo_dag_def)
  with ok q e r(7) show ?thesis by (intro exI [of _ p2] exI [of _ p3]) (simp add: at_frame_def)
qed

text \<open>The node after its first block, and the same node after a restart.\<close>

lemma solo_nodes:
  obtains p q where "node_run sample_env solo_dag (\<lambda>_. solo_dag) no_callbacks () solo_store p solo_dag"
    "node_run sample_env solo_dag (\<lambda>_. solo_dag) no_callbacks () solo_store q solo_dag" "solo_reopen p = Some q" "at_frame 1 p" "at_frame 1 q"
proof -
  let ?run = "node_run sample_env solo_dag (\<lambda>_. solo_dag) no_callbacks () solo_store" and ?e1 = "solo_event 1 [] 1 10" and ?e2 = "solo_event 2 [1] 2 20" and ?e3 = "solo_event 3 [2] 3 30"
  obtain p0 p1 p2 p3 q where r: "solo_start = Some p0" "solo_feed ?e1 p0 = Some p1" "solo_feed ?e2 p1 = Some p2" "solo_feed ?e3 p2 = Some p3"
    "solo_reopen p3 = Some q" "at_frame 0 p1" "at_frame 0 p2" "at_frame 1 p3" "at_frame 1 q" by (rule solo_states)
  have at: "p_EpochN p1 = 1" "p_EpochN p2 = 1" "p_EpochN p3 = 1" "p_EpochN q = 1" using r(6-9) by (simp_all add: at_frame_def)
  have new: "solo_id 1 \<notin> dom Map.empty" "solo_id 2 \<notin> dom [solo_id 1 \<mapsto> ?e1]" "solo_id 3 \<notin> dom [solo_id 1 \<mapsto> ?e1, solo_id 2 \<mapsto> ?e2]" by simp_all
  have ok0: "solo_ok p0 Map.empty" by (rule solo_first [OF r(1)])
  note s1 = solo_step [OF ok0 new(1) solo_at(1) solo_valid(1) r(2) at(1)]
  note s2 = solo_step [OF s1(1) new(2) solo_at(2) solo_valid(2) r(3) at(2)]
  note s3 = solo_step [OF s2(1) new(3) solo_at(3) solo_valid(3) r(4) at(3)]
  have D: "[solo_id 1 \<mapsto> ?e1, solo_id 2 \<mapsto> ?e2, solo_id 3 \<mapsto> ?e3] = solo_dag" by (simp add: solo_dag_def)
  have "graph_ok sample_env solo_dag p3 solo_dag" using s3(1) unfolding D by (simp add: solo_ok_def node_inv_def base_inv_def)
  then have W: "in_world sample_env solo_dag (\<lambda>_. solo_dag) p E" if "epochState p = epochState p3" "E \<subseteq>\<^sub>m solo_dag" for p :: "unit Poset" and E
    using that by (simp add: in_world_def graph_ok_def)
  note off1 = solo_offered [OF ok0 new(1) solo_at(1) solo_valid(1)] and off2 = solo_offered [OF s1(1) new(2) solo_at(2) solo_valid(2)]
    and off3 = solo_offered [OF s2(1) new(3) solo_at(3) solo_valid(3)]
  have "?run p0 Map.empty" using r(1) unfolding solo_start_def by (rule node_run.start)
  then have "?run p1 [solo_id 1 \<mapsto> ?e1]"
    using node_run.event [where input = "\<lambda>_. solo_dag", OF _ off1(1-4) impI [OF W [OF _ off1(2)]] s1(4)] s1 s2(2) s3(2) by simp
  then have "?run p2 [solo_id 1 \<mapsto> ?e1, solo_id 2 \<mapsto> ?e2]"
    using node_run.event [where input = "\<lambda>_. solo_dag", OF _ off2(1-4) impI [OF W [OF _ off2(2)]] s2(4)] s2 s3(2) by simp
  then have run3: "?run p3 solo_dag"
    using node_run.event [where input = "\<lambda>_. solo_dag", OF _ off3(1-4) impI [OF W [OF _ off3(2)]] s3(4)] s3 unfolding D by simp
  have "Bootstrap sample_env (\<lambda>_. solo_dag) (callback p3) (app p3) (initCache True (Store_Close (store p3))) None = Some q"
    using r(5) s3(1) by (simp add: solo_reopen_def solo_ok_def)
  from node_run.restart [where input = "\<lambda>_. solo_dag", OF run3 map_le_refl _ W [OF refl map_le_refl] this] at have "?run q solo_dag" by simp
  from that [OF run3 this r(5,8,9)] show thesis .
qed

theorem nodes_agree_witness:
  "\<exists>p q. solo_reopen p = Some q \<and> LastDecidedFrame (checkpoint q) = 1 \<and> checkpoint p = checkpoint q \<and> tConfirmedEvent (store p) = tConfirmedEvent (store q)"
proof -
  obtain p q where r: "node_run sample_env solo_dag (\<lambda>_. solo_dag) no_callbacks () solo_store p solo_dag"
    "node_run sample_env solo_dag (\<lambda>_. solo_dag) no_callbacks () solo_store q solo_dag" "solo_reopen p = Some q" "at_frame 1 p" "at_frame 1 q" by (rule solo_nodes)
  then have "p_EpochN p = p_EpochN q" "LastDecidedFrame (checkpoint p) = LastDecidedFrame (checkpoint q)" by (simp_all add: at_frame_def)
  from nodes_agree [OF solo_env(1,2) solo_genesis_applied solo_env(3) r(1,2) this] r(3,5) show ?thesis
    by (intro exI [of _ p] exI [of _ q]) (simp add: at_frame_def)
qed

end
