(* ===== verification/Synced_Pool.thy ===== *)
theory Synced_Pool
  imports Flushable_Db
begin

text \<open>
  \<open>kvdb/flushable/synced_pool.go\<close>: the pool of databases that are flushed together. The disk is a
  map from the names of the databases to their contents, and a flush is the sequence of the
  operations it performs on the disk, each of which (a put, the write of a batch, the creation or
  removal of a database) is atomic. A crash, or an error of the disk that ends the flush, leaves the
  disk after a prefix of that sequence. The order in which Go ranges over a map is arbitrary, and a
  parameter for each loop. The handle of an opened database is its name.
\<close>

subsection \<open>The disk\<close>

type_synonym disk = "string \<rightharpoonup> (bytes \<rightharpoonup> bytes)"

datatype disk_op = OpenDb (op_name: string) | DropDb (op_name: string) | PutKey (op_name: string) bytes bytes | WriteBatch (op_name: string) "batchWrite list"

definition contents :: "disk \<Rightarrow> string \<Rightarrow> (bytes \<rightharpoonup> bytes)" where
  "contents d n = (case d n of None \<Rightarrow> Map.empty | Some m \<Rightarrow> m)"

fun run_op :: "disk_op \<Rightarrow> disk \<Rightarrow> disk" where
  "run_op (OpenDb n) d = d(n \<mapsto> contents d n)"
| "run_op (DropDb n) d = d(n := None)"
| "run_op (PutKey n k v) d = d(n \<mapsto> (contents d n)(k \<mapsto> v))"
| "run_op (WriteBatch n ws) d = d(n \<mapsto> apply_writes ws (contents d n))"

definition run_ops :: "disk_op list \<Rightarrow> disk \<Rightarrow> disk" where
  "run_ops ops d = fold run_op ops d"

subsection \<open>The pool\<close>

type_synonym wrapper = "string LazyFlushable"

record SyncedPool =
  wrappers :: "string \<rightharpoonup> wrapper"
  queuedDrops :: "string set"
  prevFlushTime :: int

definition dropDb :: "SyncedPool \<Rightarrow> string \<Rightarrow> SyncedPool" where
  "dropDb p name = p\<lparr>queuedDrops := insert name (queuedDrops p)\<rparr>"

definition getDb :: "SyncedPool \<Rightarrow> string \<Rightarrow> wrapper \<times> SyncedPool" where
  "getDb p name = (case wrappers p name of
     Some w \<Rightarrow> (w, p)
   | None \<Rightarrow> (NewLazy name, p\<lparr>wrappers := (wrappers p)(name \<mapsto> NewLazy name)\<rparr>))"

definition flag_key :: bytes where
  "flag_key = [0x66, 0x6C, 0x61, 0x67]" \<comment> \<open>\<open>flag\<close>\<close>

definition dirty_mark :: bytes where
  "dirty_mark = [0x64, 0x69, 0x72, 0x74, 0x79]" \<comment> \<open>\<open>dirty\<close>\<close>

definition initial_mark :: bytes where
  "initial_mark = [0x69, 0x6E, 0x69, 0x74, 0x69, 0x61, 0x6C]" \<comment> \<open>\<open>initial\<close>\<close>

text \<open>What \<open>InitUnderlyingDb\<close> does to the disk, and the database that it returns (\<^const>\<open>None\<close> for \<open>devnull\<close>).\<close>

definition open_ops :: "wrapper \<Rightarrow> disk_op list" where
  "open_ops w = (case (underlying w, producer w) of (devnull, Some n) \<Rightarrow> [OpenDb n] | _ \<Rightarrow> [])"

definition handle :: "wrapper \<Rightarrow> string option" where
  "handle w = (case underlying w of devnull \<Rightarrow> None | real n \<Rightarrow> Some n)"

fun drop_loop :: "(string \<rightharpoonup> wrapper) \<Rightarrow> string list \<Rightarrow> disk_op list \<times> (string \<rightharpoonup> wrapper)" where
  "drop_loop ws [] = ([], ws)"
| "drop_loop ws (name # names) = (let (ops, ws') = drop_loop (ws(name := None)) names in
     (case ws name of
        None \<Rightarrow> (ops, ws')
      | Some w \<Rightarrow> (case handle w of None \<Rightarrow> (ops, ws') | Some n \<Rightarrow> (DropDb n # ops, ws'))))"

definition dirty_flag :: "bytes option \<Rightarrow> bytes \<Rightarrow> bytes" where
  "dirty_flag prev fid = dirty_mark @ (case prev of None \<Rightarrow> initial_mark | Some b \<Rightarrow> b) @ fid"

fun dirty_loop :: "disk \<Rightarrow> (string \<rightharpoonup> wrapper) \<Rightarrow> bytes \<Rightarrow> string list \<Rightarrow> disk_op list \<times> (string \<rightharpoonup> wrapper)" where
  "dirty_loop d ws fid [] = ([], ws)"
| "dirty_loop d ws fid (name # names) = (case ws name of
     None \<Rightarrow> dirty_loop d ws fid names
   | Some w0 \<Rightarrow>
      (let w = initUnderlyingDb w0;
           marker = (case handle w of None \<Rightarrow> [] | Some n \<Rightarrow> [PutKey n flag_key (dirty_flag (contents (run_ops (open_ops w0) d) n flag_key) fid)]);
           ops = open_ops w0 @ marker;
           (rest, ws') = dirty_loop (run_ops ops d) (ws(name \<mapsto> w)) fid names
       in (ops @ rest, ws')))"

text \<open>The batches that \<open>flush\<close> of a wrapper writes.\<close>

fun flush_batches :: "(batchWrite list \<Rightarrow> nat) \<Rightarrow> nat \<Rightarrow> batchWrite list \<Rightarrow> tree \<Rightarrow> batchWrite list list" where
  "flush_batches bsize ideal batch [] = [batch]"
| "flush_batches bsize ideal batch (kv # t) = (let batch = batch @ [kv] in
     if bsize batch > ideal then batch # flush_batches bsize ideal [] t else flush_batches bsize ideal batch t)"

fun data_loop :: "(batchWrite list \<Rightarrow> nat) \<Rightarrow> nat \<Rightarrow> (string \<rightharpoonup> wrapper) \<Rightarrow> string list \<Rightarrow> kv_err option \<times> disk_op list \<times> (string \<rightharpoonup> wrapper)" where
  "data_loop bsize ideal ws [] = (None, [], ws)"
| "data_loop bsize ideal ws (name # names) = (case ws name of
     None \<Rightarrow> data_loop bsize ideal ws names
   | Some w0 \<Rightarrow>
      (let w = initUnderlyingDb w0 in
       case modified w of
         None \<Rightarrow> (Some errClosed, open_ops w0, ws(name \<mapsto> w))
       | Some t \<Rightarrow>
          (let ops = open_ops w0 @ (case handle w of None \<Rightarrow> [] | Some n \<Rightarrow> map (WriteBatch n) (flush_batches bsize ideal [] t));
               (err, rest, ws') = data_loop bsize ideal (ws(name \<mapsto> w\<lparr>modified := Some [], sizeEstimation := 0\<rparr>)) names
           in (err, ops @ rest, ws'))))"

fun clean_loop :: "(string \<rightharpoonup> wrapper) \<Rightarrow> bytes \<Rightarrow> string list \<Rightarrow> disk_op list \<times> (string \<rightharpoonup> wrapper)" where
  "clean_loop ws fid [] = ([], ws)"
| "clean_loop ws fid (name # names) = (case ws name of
     None \<Rightarrow> clean_loop ws fid names
   | Some w0 \<Rightarrow>
      (let w = initUnderlyingDb w0;
           ops = open_ops w0 @ (case handle w of None \<Rightarrow> [] | Some n \<Rightarrow> [PutKey n flag_key fid]);
           (rest, ws') = clean_loop (ws(name \<mapsto> w)) fid names
       in (ops @ rest, ws')))"

record orders =
  over_drops :: "string list"
  over_dirty :: "string list"
  over_data :: "string list"
  over_clean :: "string list"

definition pool_flush :: "(batchWrite list \<Rightarrow> nat) \<Rightarrow> nat \<Rightarrow> orders \<Rightarrow> int \<Rightarrow> disk \<Rightarrow> SyncedPool \<Rightarrow> bytes \<Rightarrow> kv_err option \<times> disk_op list \<times> SyncedPool" where
  "pool_flush bsize ideal ord now d p fid =
     (let (ops0, ws) = drop_loop (wrappers p) (over_drops ord);
          p = p\<lparr>queuedDrops := {}\<rparr>;
          (ops1, ws) = dirty_loop (run_ops ops0 d) ws fid (over_dirty ord);
          (err, ops2, ws) = data_loop bsize ideal ws (over_data ord)
      in case err of
           Some e \<Rightarrow> (Some e, ops0 @ ops1 @ ops2, p\<lparr>wrappers := ws\<rparr>)
         | None \<Rightarrow> (let (ops3, ws) = clean_loop ws fid (over_clean ord)
                   in (None, ops0 @ ops1 @ ops2 @ ops3, p\<lparr>wrappers := ws, prevFlushTime := now\<rparr>)))"

definition IsFlushNeeded :: "int \<Rightarrow> SyncedPool \<Rightarrow> string list \<Rightarrow> bool" where
  "IsFlushNeeded now p names \<longleftrightarrow>
     now - prevFlushTime p > 10 * 60 * 10 ^ 9 \<or>
     sum_list (map (\<lambda>n. case wrappers p n of None \<Rightarrow> 0 | Some w \<Rightarrow> sizeEstimation w) names) > 10 * 1024 * 1024"

datatype sync_err = dirty_state | not_synced

fun check_marks :: "bytes option \<Rightarrow> bytes list \<Rightarrow> sync_err option" where
  "check_marks prevID [] = None"
| "check_marks prevID (mark # marks) =
     (if prefix dirty_mark mark then Some dirty_state
      else (let prev = (case prevID of None \<Rightarrow> mark | Some b \<Rightarrow> b) in
            if mark \<noteq> prev then Some not_synced else check_marks (Some prev) marks))"

text \<open>A missing mark is nil, which \<open>bytes.Equal\<close> and \<open>bytes.HasPrefix\<close> treat as empty.\<close>

definition mark_of :: "disk \<Rightarrow> string \<Rightarrow> bytes" where
  "mark_of d n = (case contents d n flag_key of None \<Rightarrow> [] | Some b \<Rightarrow> b)"

definition checkDbsSynced :: "disk \<Rightarrow> string list \<Rightarrow> sync_err option" where
  "checkDbsSynced d names = check_marks None (map (mark_of d) names)"

text \<open>
  The names are those of the databases on the disk. The check opens them all; when it fails,
  \<open>log.Crit\<close> ends the program.
\<close>

definition NewSyncedPool :: "disk \<Rightarrow> string list \<Rightarrow> SyncedPool option" where
  "NewSyncedPool d names = (case checkDbsSynced d names of
     Some _ \<Rightarrow> None
   | None \<Rightarrow> Some \<lparr>wrappers = (\<lambda>n. if n \<in> set names then Some (initUnderlyingDb (NewLazy n)) else None), queuedDrops = {}, prevFlushTime = 0\<rparr>)"

subsection \<open>Operations on the disk\<close>

lemma run_ops_simps [simp]: "run_ops [] d = d" "run_ops (op # ops) d = run_ops ops (run_op op d)"
  "run_ops (ops @ ops') d = run_ops ops' (run_ops ops d)"
  by (simp_all add: run_ops_def)

lemma run_op_other: "op_name op \<noteq> n \<Longrightarrow> run_op op d n = d n"
  by (cases op) auto

lemma run_ops_other: "n \<notin> op_name ` set ops \<Longrightarrow> run_ops ops d n = d n"
  by (induction ops arbitrary: d) (auto simp: run_op_other)

lemma contents_cong: "d n = d' n \<Longrightarrow> contents d n = contents d' n"
  by (simp add: contents_def)

lemma contents_Some: "d n = Some m \<Longrightarrow> contents d n = m"
  by (simp add: contents_def)

lemma run_batches: "bs \<noteq> [] \<Longrightarrow> run_ops (map (WriteBatch n) bs) d n = Some (apply_writes (concat bs) (contents d n))"
proof (induction bs arbitrary: d)
  case (Cons b bs)
  then show ?case by (cases "bs = []") (simp_all add: contents_def)
qed simp

lemma concat_flush_batches: "concat (flush_batches bsize ideal b t) = b @ t"
  by (induction bsize ideal b t rule: flush_batches.induct) (auto simp: Let_def)

lemma flush_batches_nonempty: "flush_batches bsize ideal b t \<noteq> []"
  by (induction bsize ideal b t rule: flush_batches.induct) (auto simp: Let_def)

text \<open>\<open>flush\<close> of a store whose batch writes succeed writes just these batches.\<close>

lemma flush_loop_batches:
  assumes "\<And>s b. kvWrite ops s b = Some (None, wr s b)"
  shows "\<exists>s' rest. flush_loop ops ideal s b t = Some (None, s', rest) \<and> wr s' rest = foldl wr s (flush_batches (kvBatchSize ops) ideal b t)"
proof (induction t arbitrary: s b)
  case (Cons kv t)
  then show ?case by (cases kv) (simp add: assms Let_def)
qed simp

subsection \<open>Invariant\<close>

definition wrapper_ok :: "string \<Rightarrow> wrapper \<Rightarrow> bool" where
  "wrapper_ok n w \<longleftrightarrow> underlying w = real n \<and> producer w = None \<or> underlying w = devnull \<and> producer w = Some n"

definition writes_ok :: "wrapper \<Rightarrow> bool" where
  "writes_ok w \<longleftrightarrow> (case modified w of None \<Rightarrow> False | Some t \<Rightarrow> tree_ok t \<and> flag_key \<notin> fst ` set t)"

text \<open>
  Each wrapper holds the database of its name; one that is not to be dropped is not closed, and no
  client writes the key of the flag; the databases on the disk are those that have been opened.
\<close>

definition pool_inv :: "disk \<Rightarrow> SyncedPool \<Rightarrow> bool" where
  "pool_inv d p \<longleftrightarrow>
     (\<forall>n w. wrappers p n = Some w \<longrightarrow> wrapper_ok n w \<and> (n \<notin> queuedDrops p \<longrightarrow> writes_ok w)) \<and>
     (\<forall>n. d n \<noteq> None \<longrightarrow> (\<exists>w. wrappers p n = Some w \<and> underlying w = real n))"

definition ranges :: "SyncedPool \<Rightarrow> orders \<Rightarrow> bool" where
  "ranges p ord \<longleftrightarrow> set (over_drops ord) = queuedDrops p \<and>
     (\<forall>ns \<in> {over_dirty ord, over_data ord, over_clean ord}. distinct ns \<and> set ns = dom (wrappers p) - queuedDrops p)"

lemma init_wrapper:
  assumes "wrapper_ok n w"
  shows "underlying (initUnderlyingDb w) = real n" "producer (initUnderlyingDb w) = None" "modified (initUnderlyingDb w) = modified w"
    "wrapper_ok n (initUnderlyingDb w)" "handle (initUnderlyingDb w) = Some n" "open_ops w \<in> {[], [OpenDb n]}"
  using assms by (auto simp: wrapper_ok_def initUnderlyingDb_def handle_def open_ops_def)

lemma init_opened: "underlying w = real n \<Longrightarrow> initUnderlyingDb w = w" "underlying w = real n \<Longrightarrow> open_ops w = []" "underlying w = real n \<Longrightarrow> handle w = Some n"
  by (simp_all add: initUnderlyingDb_def open_ops_def handle_def)

lemma contents_open: "ops \<in> {[], [OpenDb n]} \<Longrightarrow> contents (run_ops ops d) = contents d"
  by (auto simp: contents_def fun_eq_iff)

subsection \<open>The loops of a flush\<close>

lemma drop_loop_wrappers: "snd (drop_loop ws ns) = ws |` (- set ns)"
proof (induction ns arbitrary: ws)
  case (Cons n ns)
  then show ?case by (auto simp: fun_eq_iff restrict_map_def split: prod.split option.split) (metis snd_conv fun_upd_apply)+
qed (simp add: restrict_map_def fun_eq_iff)

lemma drop_loop_ops:
  "(\<And>n w. ws n = Some w \<Longrightarrow> wrapper_ok n w) \<Longrightarrow>
   set (fst (drop_loop ws ns)) = DropDb ` {n \<in> set ns. \<exists>w. ws n = Some w \<and> underlying w = real n}"
proof (induction ns arbitrary: ws)
  case (Cons n ns)
  obtain ops ws' where r: "drop_loop (ws(n := None)) ns = (ops, ws')" by fastforce
  have ok: "wrapper_ok m w" if "(ws(n := None)) m = Some w" for m w using Cons.prems that by (simp split: if_splits)
  have "set ops = DropDb ` {m \<in> set ns. \<exists>w. (ws(n := None)) m = Some w \<and> underlying w = real m}"
    using Cons.IH [of "ws(n := None)", OF ok] r by (simp del: fun_upd_apply)
  moreover have "handle w = (if underlying w = real n then Some n else None)" if "ws n = Some w" for w
    using Cons.prems [OF that] by (auto simp: wrapper_ok_def handle_def)
  ultimately show ?case using r by (cases "ws n") (auto split: option.split if_splits)
qed simp

text \<open>After the first loop every database has a dirty flag made from its previous one.\<close>

lemma dirty_loop_result:
  assumes "distinct ns" "\<And>n. n \<in> set ns \<Longrightarrow> \<exists>w. ws n = Some w \<and> wrapper_ok n w" "dirty_loop d ws fid ns = (ops, ws')"
  shows "ws' = (\<lambda>n. if n \<in> set ns then map_option initUnderlyingDb (ws n) else ws n) \<and> op_name ` set ops \<subseteq> set ns \<and>
     (\<forall>n \<in> set ns. run_ops ops d n = Some ((contents d n)(flag_key \<mapsto> dirty_flag (contents d n flag_key) fid)))"
  using assms
proof (induction ns arbitrary: d ws ops)
  case (Cons n ns)
  obtain w0 where w0: "ws n = Some w0" "wrapper_ok n w0" using Cons.prems(2) by auto
  let ?w = "initUnderlyingDb w0"
  note iw = init_wrapper [OF w0(2)]
  let ?ops = "open_ops w0 @ [PutKey n flag_key (dirty_flag (contents d n flag_key) fid)]"
  obtain rest where rest: "dirty_loop (run_ops ?ops d) (ws(n \<mapsto> ?w)) fid ns = (rest, ws')" and ops: "ops = ?ops @ rest"
    using Cons.prems(3) w0(1) iw(5) contents_open [OF iw(6), of d] by (auto simp: Let_def split: prod.splits)
  have IH: "ws' = (\<lambda>m. if m \<in> set ns then map_option initUnderlyingDb ((ws(n \<mapsto> ?w)) m) else (ws(n \<mapsto> ?w)) m) \<and> op_name ` set rest \<subseteq> set ns \<and>
     (\<forall>m \<in> set ns. run_ops rest (run_ops ?ops d) m = Some ((contents (run_ops ?ops d) m)(flag_key \<mapsto> dirty_flag (contents (run_ops ?ops d) m flag_key) fid)))"
    by (rule Cons.IH [OF _ _ rest]) (use Cons.prems in \<open>auto split: if_splits\<close>)
  have names: "op_name ` set ?ops = {n}" using iw(6) by auto
  have other: "contents (run_ops ?ops d) m = contents d m" if "m \<noteq> n" for m
    using run_ops_other [of m ?ops d] names that by (intro contents_cong) auto
  have here: "run_ops ?ops d n = Some ((contents d n)(flag_key \<mapsto> dirty_flag (contents d n flag_key) fid))"
    using contents_open [OF iw(6), of d] by simp
  have n: "n \<notin> set ns" using Cons.prems(1) by simp
  have "run_ops rest (run_ops ?ops d) n = run_ops ?ops d n" using n IH by (intro run_ops_other) auto
  moreover have "run_ops rest (run_ops ?ops d) m = Some ((contents d m)(flag_key \<mapsto> dirty_flag (contents d m flag_key) fid))" if "m \<in> set ns" for m
  proof -
    have "m \<noteq> n" using that n by blast
    then show ?thesis using IH that other [of m] by (simp del: run_ops_simps fun_upd_apply)
  qed
  ultimately have "run_ops ops d m = Some ((contents d m)(flag_key \<mapsto> dirty_flag (contents d m flag_key) fid))" if "m \<in> set (n # ns)" for m
    unfolding ops run_ops_simps(3) [of ?ops rest] using here that by (cases "m = n") (simp_all del: run_ops_simps fun_upd_apply)
  moreover have "op_name ` set ops \<subseteq> set (n # ns)" using IH names unfolding ops by auto
  moreover have "ws' = (\<lambda>m. if m \<in> set (n # ns) then map_option initUnderlyingDb (ws m) else ws m)"
    using IH w0(1) n by (auto simp: fun_eq_iff)
  ultimately show ?case by blast
qed auto

definition data_ops :: "(batchWrite list \<Rightarrow> nat) \<Rightarrow> nat \<Rightarrow> (string \<rightharpoonup> wrapper) \<Rightarrow> string list \<Rightarrow> disk_op list" where
  "data_ops bsize ideal ws ns = concat (map (\<lambda>n. map (WriteBatch n) (flush_batches bsize ideal [] (the (modified (the (ws n)))))) ns)"

lemma data_loop_result:
  assumes "distinct ns" "\<And>n. n \<in> set ns \<Longrightarrow> \<exists>w t. ws n = Some w \<and> underlying w = real n \<and> modified w = Some t"
  shows "data_loop bsize ideal ws ns = (None, data_ops bsize ideal ws ns,
     (\<lambda>n. if n \<in> set ns then map_option (\<lambda>w. w\<lparr>modified := Some [], sizeEstimation := 0\<rparr>) (ws n) else ws n))"
  using assms
proof (induction ns arbitrary: ws)
  case (Cons n ns)
  obtain w t where w: "ws n = Some w" "underlying w = real n" "modified w = Some t" using Cons.prems(2) [of n] by auto
  let ?ws = "ws(n \<mapsto> w\<lparr>modified := Some [], sizeEstimation := 0\<rparr>)"
  have IH: "data_loop bsize ideal ?ws ns = (None, data_ops bsize ideal ?ws ns,
     (\<lambda>n. if n \<in> set ns then map_option (\<lambda>w. w\<lparr>modified := Some [], sizeEstimation := 0\<rparr>) (?ws n) else ?ws n))"
    by (rule Cons.IH) (use Cons.prems in auto)
  have "data_ops bsize ideal ?ws ns = data_ops bsize ideal ws ns"
    unfolding data_ops_def using Cons.prems(1) by (intro arg_cong [where f = concat] map_cong) auto
  with IH w Cons.prems(1) show ?case by (auto simp: init_opened data_ops_def fun_eq_iff)
qed (simp add: data_ops_def)

lemma clean_loop_result:
  "(\<And>n. n \<in> set ns \<Longrightarrow> \<exists>w. ws n = Some w \<and> underlying w = real n) \<Longrightarrow> clean_loop ws fid ns = (map (\<lambda>n. PutKey n flag_key fid) ns, ws)"
proof (induction ns)
  case (Cons n ns)
  obtain w where w: "ws n = Some w" "underlying w = real n" using Cons.prems [of n] by auto
  moreover have "ws(n \<mapsto> w) = ws" using w(1) by (simp add: fun_upd_idem)
  ultimately show ?case using Cons by (simp add: init_opened)
qed simp

lemma data_ops_names: "op_name ` set (data_ops bsize ideal ws ns) \<subseteq> set ns"
  by (auto simp: data_ops_def)

lemma run_data_ops:
  assumes "distinct ns" "n \<in> set ns"
  shows "run_ops (data_ops bsize ideal ws ns) d n = Some (apply_writes (the (modified (the (ws n)))) (contents d n))"
  using assms
proof (induction ns arbitrary: d)
  case (Cons m ns)
  let ?b = "\<lambda>m. map (WriteBatch m) (flush_batches bsize ideal [] (the (modified (the (ws m)))))"
  have split: "data_ops bsize ideal ws (m # ns) = ?b m @ data_ops bsize ideal ws ns" by (simp add: data_ops_def)
  show ?case
  proof (cases "n = m")
    case True
    then have "n \<notin> op_name ` set (data_ops bsize ideal ws ns)" using Cons.prems(1) data_ops_names [of bsize ideal ws ns] by auto
    from run_ops_other [OF this] show ?thesis
      unfolding split by (simp add: True run_batches flush_batches_nonempty concat_flush_batches)
  next
    case False
    then have "contents (run_ops (?b m) d) n = contents d n" by (intro contents_cong run_ops_other) auto
    with Cons False show ?thesis unfolding split by simp
  qed
qed simp

lemma run_clean_ops: "n \<in> set ns \<Longrightarrow> run_ops (map (\<lambda>n. PutKey n flag_key fid) ns) d n = Some ((contents d n)(flag_key \<mapsto> fid))"
proof (induction ns arbitrary: d)
  case (Cons m ns)
  show ?case
  proof (cases "n \<in> set ns")
    case True
    have "(contents (run_op (PutKey m flag_key fid) d) n)(flag_key \<mapsto> fid) = (contents d n)(flag_key \<mapsto> fid)"
      by (simp add: contents_def fun_eq_iff)
    then show ?thesis using Cons.IH [OF True, of "run_op (PutKey m flag_key fid) d"] by (simp del: fun_upd_apply)
  next
    case False
    then have "n \<notin> op_name ` set (map (\<lambda>n. PutKey n flag_key fid) ns)" by auto
    from run_ops_other [OF this] Cons.prems False show ?thesis by (simp add: fun_eq_iff)
  qed
qed simp

lemma apply_writes_other: "k \<notin> fst ` set ws \<Longrightarrow> apply_writes ws m k = m k"
proof (induction ws arbitrary: m)
  case (Cons x ws)
  then show ?case by (cases x) simp
qed simp

lemma flag_kept:
  "(\<And>op. op \<in> set ops \<Longrightarrow> \<exists>n b. op = WriteBatch n b \<and> flag_key \<notin> fst ` set b) \<Longrightarrow>
   mark_of (run_ops ops d) n = mark_of d n \<and> (d n \<noteq> None \<longrightarrow> run_ops ops d n \<noteq> None)"
proof (induction ops arbitrary: d)
  case (Cons op ops)
  obtain m b where op: "op = WriteBatch m b" "flag_key \<notin> fst ` set b" using Cons.prems [of op] by auto
  have "mark_of (run_op op d) n = mark_of d n" using apply_writes_other [OF op(2)] by (simp add: mark_of_def contents_def op(1))
  moreover have "run_op op d n \<noteq> None" if "d n \<noteq> None" using that by (simp add: op(1))
  moreover have "mark_of (run_ops ops (run_op op d)) n = mark_of (run_op op d) n \<and> (run_op op d n \<noteq> None \<longrightarrow> run_ops ops (run_op op d) n \<noteq> None)"
    by (rule Cons.IH) (use Cons.prems in auto)
  ultimately show ?case by simp
qed simp

lemma data_ops_flag:
  assumes "\<And>n. n \<in> set ns \<Longrightarrow> \<exists>w. ws n = Some w \<and> writes_ok w" "op \<in> set (data_ops bsize ideal ws ns)"
  shows "\<exists>n b. op = WriteBatch n b \<and> flag_key \<notin> fst ` set b"
proof -
  obtain n b where n: "n \<in> set ns" "op = WriteBatch n b" "b \<in> set (flush_batches bsize ideal [] (the (modified (the (ws n)))))"
    using assms(2) by (auto simp: data_ops_def)
  then have "set b \<subseteq> set (the (modified (the (ws n))))"
    using concat_flush_batches [of bsize ideal "[]" "the (modified (the (ws n)))"] by (metis append_Nil set_concat UN_upper)
  moreover obtain w t where "ws n = Some w" "modified w = Some t" "flag_key \<notin> fst ` set t"
    using assms(1) [OF n(1)] by (auto simp: writes_ok_def split: option.splits)
  ultimately have "flag_key \<notin> fst ` set b" by auto
  with n(2) show ?thesis by blast
qed

subsection \<open>The whole flush\<close>

text \<open>The four groups of operations, and the pool after the flush.\<close>

definition flush_shape :: "(batchWrite list \<Rightarrow> nat) \<Rightarrow> nat \<Rightarrow> orders \<Rightarrow> disk \<Rightarrow> SyncedPool \<Rightarrow> bytes \<Rightarrow>
    disk_op list \<Rightarrow> disk_op list \<Rightarrow> disk_op list \<Rightarrow> (string \<rightharpoonup> wrapper) \<Rightarrow> bool" where
  "flush_shape bsize ideal ord d p fid ops0 ops1 ops2 ws \<longleftrightarrow>
     ws = (\<lambda>n. map_option initUnderlyingDb ((wrappers p |` (- queuedDrops p)) n)) \<and>
     set ops0 = DropDb ` {n \<in> queuedDrops p. \<exists>w. wrappers p n = Some w \<and> underlying w = real n} \<and>
     dirty_loop (run_ops ops0 d) (wrappers p |` (- queuedDrops p)) fid (over_dirty ord) = (ops1, ws) \<and>
     ops2 = data_ops bsize ideal ws (over_data ord)"

definition clean_ops :: "bytes \<Rightarrow> orders \<Rightarrow> disk_op list" where
  "clean_ops fid ord = map (\<lambda>n. PutKey n flag_key fid) (over_clean ord)"

lemma pool_flush_shape:
  assumes "pool_inv d p" "ranges p ord"
  obtains ops0 ops1 ops2 ws where "flush_shape bsize ideal ord d p fid ops0 ops1 ops2 ws"
    "pool_flush bsize ideal ord now d p fid = (None, ops0 @ ops1 @ ops2 @ clean_ops fid ord,
       p\<lparr>wrappers := (\<lambda>n. map_option (\<lambda>w. w\<lparr>modified := Some [], sizeEstimation := 0\<rparr>) (ws n)), queuedDrops := {}, prevFlushTime := now\<rparr>)"
proof -
  let ?ws0 = "wrappers p |` (- queuedDrops p)"
  have ok: "wrapper_ok n w" if "wrappers p n = Some w" for n w using assms(1) that by (auto simp: pool_inv_def)
  have rng: "set (over_drops ord) = queuedDrops p" "distinct (over_dirty ord)" "distinct (over_data ord)"
    "set (over_dirty ord) = dom ?ws0" "set (over_data ord) = dom ?ws0" "set (over_clean ord) = dom ?ws0"
    using assms(2) by (auto simp: ranges_def restrict_map_def split: if_splits)
  obtain ops0 ws0 where d0: "drop_loop (wrappers p) (over_drops ord) = (ops0, ws0)" by fastforce
  then have ws0: "ws0 = ?ws0" and ops0: "set ops0 = DropDb ` {n \<in> queuedDrops p. \<exists>w. wrappers p n = Some w \<and> underlying w = real n}"
    using drop_loop_wrappers [of "wrappers p" "over_drops ord"] drop_loop_ops [of "wrappers p" "over_drops ord", OF ok] rng(1) by simp_all
  obtain ops1 ws1 where d1: "dirty_loop (run_ops ops0 d) ?ws0 fid (over_dirty ord) = (ops1, ws1)" by fastforce
  have w0: "\<exists>w. ?ws0 n = Some w \<and> wrapper_ok n w \<and> writes_ok w" if "n \<in> dom ?ws0" for n
    using that assms(1) ok by (auto simp: restrict_map_def pool_inv_def split: if_splits)
  define ws where "ws = (\<lambda>n. map_option initUnderlyingDb (?ws0 n))"
  have none: "?ws0 n = None" if "n \<notin> dom ?ws0" for n using that unfolding domIff by blast
  have ws1: "ws1 = ws"
  proof -
    have "ws1 = (\<lambda>n. if n \<in> dom ?ws0 then map_option initUnderlyingDb (?ws0 n) else ?ws0 n)"
      using dirty_loop_result [OF rng(2) _ d1] w0 unfolding rng(4) by blast
    then show ?thesis using none unfolding ws_def by (intro ext) (simp del: dom_restrict)
  qed
  have w: "\<exists>w t. ws n = Some w \<and> underlying w = real n \<and> modified w = Some t" if "n \<in> dom ?ws0" for n
    using w0 [OF that] by (auto simp: ws_def init_wrapper writes_ok_def split: option.splits)
  let ?ws2 = "\<lambda>n. map_option (\<lambda>w. w\<lparr>modified := Some [], sizeEstimation := 0\<rparr>) (ws n)"
  have d2: "data_loop bsize ideal ws (over_data ord) = (None, data_ops bsize ideal ws (over_data ord), ?ws2)"
  proof -
    have "(\<lambda>n. if n \<in> dom ?ws0 then map_option (\<lambda>w. w\<lparr>modified := Some [], sizeEstimation := 0\<rparr>) (ws n) else ws n) = ?ws2"
      using none by (intro ext) (simp add: ws_def del: dom_restrict)
    with data_loop_result [OF rng(3), of ws bsize ideal] w show ?thesis unfolding rng(5) by simp
  qed
  have d3: "clean_loop ?ws2 fid (over_clean ord) = (map (\<lambda>n. PutKey n flag_key fid) (over_clean ord), ?ws2)"
    by (rule clean_loop_result) (use w rng(6) in fastforce)
  have "pool_flush bsize ideal ord now d p fid = (None, ops0 @ ops1 @ data_ops bsize ideal ws (over_data ord) @ clean_ops fid ord,
       p\<lparr>wrappers := ?ws2, queuedDrops := {}, prevFlushTime := now\<rparr>)"
    using d0 d1 d2 d3 ws0 ws1 by (simp add: pool_flush_def clean_ops_def)
  moreover have "flush_shape bsize ideal ord d p fid ops0 ops1 (data_ops bsize ideal ws (over_data ord)) ws"
    unfolding flush_shape_def using ws_def ops0 d1 ws1 by blast
  ultimately show thesis by (rule that [rotated])
qed

lemma drops_run:
  assumes "prefix ops' ops" "set ops \<subseteq> DropDb ` A"
  shows "n \<notin> A \<Longrightarrow> run_ops ops' d n = d n" "run_ops ops' d n \<in> {None, d n}"
proof -
  have sub: "set ops' \<subseteq> DropDb ` A" using assms set_mono_prefix by blast
  then show "n \<notin> A \<Longrightarrow> run_ops ops' d n = d n" by (intro run_ops_other) auto
  from sub show "run_ops ops' d n \<in> {None, d n}"
  proof (induction ops' arbitrary: d)
    case (Cons op ops')
    then obtain m where op: "op = DropDb m" by auto
    have "run_ops ops' (run_op op d) n \<in> {None, run_op op d n}" using Cons by simp
    then show ?case by (auto simp: op simp del: fun_upd_apply) (auto split: if_splits)
  qed simp
qed

lemma dropped: "DropDb n \<in> set ops \<Longrightarrow> set ops \<subseteq> range DropDb \<Longrightarrow> run_ops ops d n = None"
proof (induction ops arbitrary: d)
  case (Cons op ops)
  show ?case
  proof (cases "DropDb n \<in> set ops")
    case False
    then have "op = DropDb n" using Cons.prems by auto
    moreover have "n \<notin> op_name ` set ops" using False Cons.prems(2) by auto
    ultimately show ?thesis by (simp add: run_ops_other)
  qed (use Cons in simp)
qed simp

lemma check_dirty: "prefix dirty_mark m \<Longrightarrow> m \<in> set ms \<Longrightarrow> check_marks prev ms \<noteq> None"
  by (induction prev ms rule: check_marks.induct) (auto simp: Let_def)

lemma check_dirty_db: "n \<in> set names \<Longrightarrow> prefix dirty_mark (mark_of d n) \<Longrightarrow> checkDbsSynced d names \<noteq> None"
  using check_dirty [of "mark_of d n" "map (mark_of d) names" None] by (simp add: checkDbsSynced_def)

lemma check_same: "\<not> prefix dirty_mark m \<Longrightarrow> set ms \<subseteq> {m} \<Longrightarrow> prev \<in> {None, Some m} \<Longrightarrow> check_marks prev ms = None"
  by (induction prev ms rule: check_marks.induct) (auto simp: Let_def)

lemma dirty_flag_dirty: "prefix dirty_mark (dirty_flag prev fid)"
  by (simp add: dirty_flag_def)

lemma mark_dirty: "d n = Some (m(flag_key \<mapsto> dirty_flag prev fid)) \<Longrightarrow> prefix dirty_mark (mark_of d n)"
  by (simp add: mark_of_def contents_def dirty_flag_dirty)

text \<open>Within the first loop either nothing has been written yet or a database has a dirty flag.\<close>

lemma dirty_loop_prefix:
  assumes "distinct ns" "\<And>n. n \<in> set ns \<Longrightarrow> \<exists>w. ws n = Some w \<and> wrapper_ok n w" "prefix ops' (fst (dirty_loop d ws fid ns))"
  shows "contents (run_ops ops' d) = contents d \<or> (\<exists>n. run_ops ops' d n \<noteq> None \<and> prefix dirty_mark (mark_of (run_ops ops' d) n))"
proof (cases ns)
  case Nil
  then show ?thesis using assms(3) by simp
next
  case (Cons n ns')
  obtain w0 where w0: "ws n = Some w0" "wrapper_ok n w0" using assms(2) [of n] Cons by auto
  note iw = init_wrapper [OF w0(2)]
  let ?put = "PutKey n flag_key (dirty_flag (contents d n flag_key) fid)"
  obtain rest ws' where rest: "dirty_loop (run_ops (open_ops w0 @ [?put]) d) (ws(n \<mapsto> initUnderlyingDb w0)) fid ns' = (rest, ws')"
    by fastforce
  have ops: "fst (dirty_loop d ws fid ns) = open_ops w0 @ [?put] @ rest"
    using w0(1) iw(5) contents_open [OF iw(6), of d] rest by (simp add: Cons)
  have "op_name ` set rest \<subseteq> set ns'"
  proof -
    have "\<exists>w. (ws(n \<mapsto> initUnderlyingDb w0)) m = Some w \<and> wrapper_ok m w" if "m \<in> set ns'" for m
      using assms(2) [of m] iw(4) that Cons by simp
    from dirty_loop_result [OF _ this rest] assms(1) Cons show ?thesis by simp
  qed
  then have other: "n \<notin> op_name ` set r" if "prefix r rest" for r using that assms(1) Cons set_mono_prefix by fastforce
  consider "prefix ops' (open_ops w0)" | r where "ops' = open_ops w0 @ [?put] @ r" "prefix r rest"
    using assms(3) unfolding ops prefix_append by (auto simp: prefix_Cons)
  then show ?thesis
  proof cases
    case 1
    then have "ops' \<in> {[], [OpenDb n]}" using iw(6) by (auto simp: prefix_Cons)
    then show ?thesis using contents_open by blast
  next
    case 2
    then have "run_ops ops' d n = Some ((contents d n)(flag_key \<mapsto> dirty_flag (contents d n flag_key) fid))"
      using run_ops_other [OF other [OF 2(2)]] contents_open [OF iw(6), of d] by simp
    then show ?thesis using mark_dirty [of "run_ops ops' d" n] by blast
  qed
qed

text \<open>Every crash point of a flush.\<close>

lemma crash_cases:
  assumes "prefix ops' (ops0 @ ops1 @ ops2 @ ops3)"
  obtains (drops) "prefix ops' ops0"
    | (dirty) us where "ops' = ops0 @ us" "prefix us ops1"
    | (data) us where "ops' = ops0 @ ops1 @ us" "prefix us ops2"
    | (clean) us where "ops' = ops0 @ ops1 @ ops2 @ us" "prefix us ops3"
  using assms unfolding prefix_append by auto

lemma dirty_members:
  assumes "pool_inv d p" "ranges p ord" "n \<in> set (over_dirty ord)"
  shows "\<exists>w. (wrappers p |` (- queuedDrops p)) n = Some w \<and> wrapper_ok n w"
  using assms by (auto simp: ranges_def pool_inv_def)

lemma flush_all_dirty:
  assumes inv: "pool_inv d p" and rng: "ranges p ord"
    and shape: "dirty_loop d0 (wrappers p |` (- queuedDrops p)) fid (over_dirty ord) = (ops1, ws)"
    and n: "wrappers p n \<noteq> None" "n \<notin> queuedDrops p"
  shows "run_ops ops1 d0 n = Some ((contents d0 n)(flag_key \<mapsto> dirty_flag (contents d0 n flag_key) fid))"
proof -
  have "distinct (over_dirty ord)" "n \<in> set (over_dirty ord)" using rng n by (auto simp: ranges_def)
  then show ?thesis using dirty_loop_result [OF _ dirty_members [OF inv rng] shape] by blast
qed

lemma ws_writes:
  assumes "pool_inv d p" "wrappers p n \<noteq> None" "n \<notin> queuedDrops p"
  shows "\<exists>w. map_option initUnderlyingDb ((wrappers p |` (- queuedDrops p)) n) = Some w \<and> writes_ok w \<and> modified w = modified (the (wrappers p n))"
proof -
  obtain w where w: "wrappers p n = Some w" "wrapper_ok n w" "writes_ok w" using assms by (auto simp: pool_inv_def)
  have "modified (initUnderlyingDb w) = modified w" by (rule init_wrapper(3) [OF w(2)])
  with w assms(3) show ?thesis by (simp add: writes_ok_def)
qed

lemma flush_kept:
  assumes inv: "pool_inv d p" and rng: "ranges p ord" and shape: "flush_shape bsize ideal ord d p fid ops0 ops1 ops2 ws"
    and n: "wrappers p n = Some w" "n \<notin> queuedDrops p"
  shows "run_ops (ops0 @ ops1 @ ops2 @ clean_ops fid ord) d n = Some ((overlay (the (modified w)) (contents d n))(flag_key \<mapsto> fid))"
proof -
  let ?d0 = "run_ops ops0 d" and ?m = "the (modified w)"
  note sh = shape [unfolded flush_shape_def]
  obtain w' where w': "ws n = Some w'" "writes_ok w'" "modified w' = modified w" using ws_writes [OF inv, of n] n sh by auto
  have ok: "tree_ok ?m" "flag_key \<notin> fst ` set ?m" using w'(2,3) by (auto simp: writes_ok_def split: option.splits)
  have "contents ?d0 n = contents d n" using drops_run(1) [of ops0 ops0 "queuedDrops p" n d] sh n(2) by (intro contents_cong) auto
  then have a: "contents (run_ops ops1 ?d0) n = (contents d n)(flag_key \<mapsto> dirty_flag (contents d n flag_key) fid)"
    using flush_all_dirty [OF inv rng, of "run_ops ops0 d" fid ops1 ws n] sh n by (simp add: contents_def)
  have lists: "distinct (over_data ord)" "n \<in> set (over_data ord)" "n \<in> set (over_clean ord)" using rng n by (auto simp: ranges_def)
  have "run_ops ops2 (run_ops ops1 ?d0) n = Some (apply_writes (the (modified (the (ws n)))) (contents (run_ops ops1 ?d0) n))"
    using run_data_ops [OF lists(1,2)] sh by blast
  then have "run_ops ops2 (run_ops ops1 ?d0) n = Some (overlay ?m ((contents d n)(flag_key \<mapsto> dirty_flag (contents d n flag_key) fid)))"
    unfolding a w'(1,3) overlay_writes [OF ok(1)] option.sel .
  then have "run_ops (clean_ops fid ord) (run_ops ops2 (run_ops ops1 ?d0)) n =
      Some ((overlay ?m ((contents d n)(flag_key \<mapsto> dirty_flag (contents d n flag_key) fid)))(flag_key \<mapsto> fid))"
    using run_clean_ops [OF lists(3), of fid "run_ops ops2 (run_ops ops1 ?d0)"] contents_Some unfolding clean_ops_def by simp
  moreover have "(overlay ?m (m(flag_key \<mapsto> b)))(flag_key \<mapsto> fid) = (overlay ?m m)(flag_key \<mapsto> fid)" for m b
    by (simp add: overlay_def fun_eq_iff split: option.split)
  ultimately show ?thesis by (simp del: fun_upd_apply)
qed

lemma flush_gone:
  assumes inv: "pool_inv d p" and rng: "ranges p ord" and shape: "flush_shape bsize ideal ord d p fid ops0 ops1 ops2 ws"
    and n: "wrappers p n = None \<or> n \<in> queuedDrops p"
  shows "run_ops (ops0 @ ops1 @ ops2 @ clean_ops fid ord) d n = None"
proof -
  note sh = shape [unfolded flush_shape_def]
  have dist: "distinct (over_dirty ord)" using rng by (simp add: ranges_def)
  have "op_name ` set ops1 \<subseteq> set (over_dirty ord)"
    using dirty_loop_result [OF dist dirty_members [OF inv rng], of "run_ops ops0 d" fid ops1 ws] sh by simp
  then have "n \<notin> op_name ` set (ops1 @ ops2 @ clean_ops fid ord)"
    using data_ops_names [of bsize ideal ws "over_data ord"] rng n sh by (auto simp: ranges_def clean_ops_def)
  then have "run_ops (ops0 @ ops1 @ ops2 @ clean_ops fid ord) d n = run_ops ops0 d n"
    using run_ops_other [of n "ops1 @ ops2 @ clean_ops fid ord"] by simp
  also have "\<dots> = None"
  proof (cases "d n")
    case None
    then show ?thesis using drops_run(2) [of ops0 ops0 "queuedDrops p" d n] sh by auto
  next
    case (Some m)
    then obtain w where "wrappers p n = Some w" "underlying w = real n" using inv by (auto simp: pool_inv_def)
    with n sh show ?thesis by (intro dropped) auto
  qed
  finally show ?thesis .
qed

lemma flush_result:
  assumes "pool_inv d p" "ranges p ord"
  shows "\<exists>ops p'. pool_flush bsize ideal ord now d p fid = (None, ops, p') \<and> pool_inv (run_ops ops d) p' \<and>
     (\<forall>n. run_ops ops d n = (case wrappers p n of
        None \<Rightarrow> None
      | Some w \<Rightarrow> if n \<in> queuedDrops p then None else Some ((overlay (the (modified w)) (contents d n))(flag_key \<mapsto> fid)))) \<and>
     (\<forall>n w. wrappers p' n = Some w \<longrightarrow> modified w = Some [])"
proof -
  obtain ops0 ops1 ops2 ws where shape: "flush_shape bsize ideal ord d p fid ops0 ops1 ops2 ws"
    and fl: "pool_flush bsize ideal ord now d p fid = (None, ops0 @ ops1 @ ops2 @ clean_ops fid ord,
       p\<lparr>wrappers := (\<lambda>n. map_option (\<lambda>w. w\<lparr>modified := Some [], sizeEstimation := 0\<rparr>) (ws n)), queuedDrops := {}, prevFlushTime := now\<rparr>)"
    (is "_ = (None, ?ops, ?p)") by (rule pool_flush_shape [OF assms(1,2)])
  note kept = flush_kept [OF assms(1,2) shape] and gone = flush_gone [OF assms(1,2) shape]
  have disk: "run_ops ?ops d n = (case wrappers p n of None \<Rightarrow> None
      | Some w \<Rightarrow> if n \<in> queuedDrops p then None else Some ((overlay (the (modified w)) (contents d n))(flag_key \<mapsto> fid)))" for n
    using kept gone by (simp split: option.split)
  have inv: "wrapper_ok n w \<and> (n \<notin> queuedDrops p \<longrightarrow> writes_ok w)" if "wrappers p n = Some w" for n w
    using assms(1) that by (auto simp: pool_inv_def)
  have p': "\<exists>w0. wrappers p n = Some w0 \<and> n \<notin> queuedDrops p \<and> underlying w = real n \<and> producer w = None \<and> modified w = Some []"
    if h: "wrappers ?p n = Some w" for n w
  proof -
    obtain w0 where w0: "wrappers p n = Some w0" "n \<notin> queuedDrops p" "w = (initUnderlyingDb w0)\<lparr>modified := Some [], sizeEstimation := 0\<rparr>"
      using h shape by (auto simp: flush_shape_def restrict_map_def split: if_splits)
    then show ?thesis using inv [OF w0(1)] init_wrapper(1,2) [of n w0] by simp
  qed
  have "wrapper_ok n w \<and> writes_ok w" if "wrappers ?p n = Some w" for n w
    using p' [OF that] by (auto simp: wrapper_ok_def writes_ok_def tree_ok_def)
  moreover have "\<exists>w. wrappers ?p n = Some w \<and> underlying w = real n" if "run_ops ?ops d n \<noteq> None" for n
  proof -
    have "wrappers ?p n \<noteq> None" using that disk [of n] shape by (auto simp: flush_shape_def split: option.splits if_splits)
    then show ?thesis using p' by blast
  qed
  ultimately have "pool_inv (run_ops ?ops d) ?p" unfolding pool_inv_def by blast
  moreover have "\<forall>n w. wrappers ?p n = Some w \<longrightarrow> modified w = Some []" using p' by blast
  ultimately show ?thesis using fl disk by blast
qed

subsection \<open>Properties\<close>

text \<open>
  C12. A flush of the pool whose invariant holds succeeds, whatever order the loops take: the queued
  databases are gone from the disk, every other database of the pool is there with exactly its
  unflushed writes applied and the new flush id as its flag, nothing is left unflushed, the
  invariant holds again, and the check at the next start accepts the disk.
\<close>

theorem flush_completes:
  assumes "pool_inv d p" "ranges p ord" "\<not> prefix dirty_mark fid"
  shows "\<exists>ops p'. pool_flush bsize ideal ord now d p fid = (None, ops, p') \<and> pool_inv (run_ops ops d) p' \<and>
     (\<forall>n. run_ops ops d n = (case wrappers p n of
        None \<Rightarrow> None
      | Some w \<Rightarrow> if n \<in> queuedDrops p then None else Some ((overlay (the (modified w)) (contents d n))(flag_key \<mapsto> fid)))) \<and>
     (\<forall>n w. wrappers p' n = Some w \<longrightarrow> modified w = Some []) \<and>
     (\<forall>names. set names = dom (run_ops ops d) \<longrightarrow> checkDbsSynced (run_ops ops d) names = None)"
proof -
  obtain ops p' where r: "pool_flush bsize ideal ord now d p fid = (None, ops, p')" "pool_inv (run_ops ops d) p'"
    "\<forall>n w. wrappers p' n = Some w \<longrightarrow> modified w = Some []"
    and disk: "\<forall>n. run_ops ops d n = (case wrappers p n of None \<Rightarrow> None
      | Some w \<Rightarrow> if n \<in> queuedDrops p then None else Some ((overlay (the (modified w)) (contents d n))(flag_key \<mapsto> fid)))"
    using flush_result [OF assms(1,2)] by blast
  have "mark_of (run_ops ops d) n = fid" if "run_ops ops d n \<noteq> None" for n
    using that disk [rule_format, of n] by (auto simp: mark_of_def contents_def split: option.splits if_splits)
  then have "checkDbsSynced (run_ops ops d) names = None" if "set names = dom (run_ops ops d)" for names
    unfolding checkDbsSynced_def using that assms(3) by (intro check_same [of fid]) auto
  with r disk show ?thesis by blast
qed

text \<open>
  C11. Crash safety: let the flush stop after any prefix of its disk operations, at a crash or at an
  error of the disk. If the check at the next start accepts the databases it finds, then either all
  operations were done, or no database except those queued for dropping has changed at all; a mixed
  state is always detected. The databases queued for dropping are then as before or gone.
\<close>

theorem flush_crash_safe:
  assumes "pool_inv d p" "ranges p ord" "pool_flush bsize ideal ord now d p fid = (err, ops, p')"
    and "prefix performed ops" "set names = dom (run_ops performed d)" "checkDbsSynced (run_ops performed d) names = None"
  shows "run_ops performed d = run_ops ops d \<or>
     (\<forall>n. n \<notin> queuedDrops p \<longrightarrow> contents (run_ops performed d) n = contents d n) \<and>
     (\<forall>n \<in> queuedDrops p. run_ops performed d n \<in> {None, d n})"
proof -
  obtain ops0 ops1 ops2 ws where shape: "flush_shape bsize ideal ord d p fid ops0 ops1 ops2 ws" and ops: "ops = ops0 @ ops1 @ ops2 @ clean_ops fid ord"
    using pool_flush_shape [OF assms(1,2), of bsize ideal fid now] assms(3) by (metis Pair_inject)
  note sh = shape [unfolded flush_shape_def]
  have ok: "\<not> prefix dirty_mark (mark_of (run_ops performed d) n)" if "run_ops performed d n \<noteq> None" for n
    using check_dirty_db [of n names "run_ops performed d"] that assms(5,6) by auto
  note members = dirty_members [OF assms(1,2)]
  have writes: "\<exists>w. ws n = Some w \<and> writes_ok w" if "n \<in> set (over_data ord)" for n
    using that assms(2) ws_writes [OF assms(1), of n] sh by (auto simp: ranges_def)
  let ?d1 = "run_ops ops1 (run_ops ops0 d)"
  have d1: "?d1 n \<noteq> None \<and> prefix dirty_mark (mark_of ?d1 n)" if "n \<in> set (over_clean ord)" for n
    using flush_all_dirty [OF assms(1,2), of "run_ops ops0 d" fid ops1 ws n] that assms(2) sh mark_dirty by (auto simp: ranges_def)
  have d2: "run_ops us ?d1 n \<noteq> None \<and> prefix dirty_mark (mark_of (run_ops us ?d1) n)" if "n \<in> set (over_clean ord)" "prefix us ops2" for n us
  proof -
    have "\<exists>n b. op = WriteBatch n b \<and> flag_key \<notin> fst ` set b" if "op \<in> set us" for op
    proof -
      have "op \<in> set (data_ops bsize ideal ws (over_data ord))" using that sh set_mono_prefix [OF \<open>prefix us ops2\<close>] by auto
      from data_ops_flag [OF writes this] show ?thesis .
    qed
    from flag_kept [OF this] d1 [OF that(1)] show ?thesis by simp
  qed
  have d0: "n \<notin> queuedDrops p \<Longrightarrow> run_ops us d n = d n" "run_ops us d n \<in> {None, d n}" if "prefix us ops0" for n us
    using drops_run(1) [of us ops0 "queuedDrops p" n d] drops_run(2) [of us ops0 "queuedDrops p" d n] that sh by auto
  from assms(4) [unfolded ops] show ?thesis
  proof (cases rule: crash_cases)
    case drops
    then show ?thesis using d0 by (metis contents_cong)
  next
    case (dirty us)
    have dist: "distinct (over_dirty ord)" using assms(2) by (simp add: ranges_def)
    have c: "contents (run_ops performed d) = contents (run_ops ops0 d)"
      using dirty_loop_prefix [OF dist members, of us "run_ops ops0 d" fid] dirty sh ok by auto
    have "op_name ` set us \<subseteq> set (over_dirty ord)"
      using dirty_loop_result [OF dist members, of "run_ops ops0 d" fid ops1 ws] sh set_mono_prefix [OF dirty(2)] by blast
    then have "run_ops performed d n = run_ops ops0 d n" if "n \<in> queuedDrops p" for n
      unfolding dirty(1) run_ops_simps(3) using that assms(2) by (intro run_ops_other) (auto simp: ranges_def)
    then show ?thesis using d0 [of ops0] c contents_cong [of "run_ops ops0 d"] by auto
  next
    case (data us)
    have "over_clean ord = []"
    proof (rule ccontr)
      assume "over_clean ord \<noteq> []"
      then show False using d2 [of "hd (over_clean ord)" us] data ok [of "hd (over_clean ord)"] by simp
    qed
    moreover have "set (over_data ord) = set (over_clean ord)" using assms(2) by (simp add: ranges_def)
    ultimately have "over_data ord = []" by simp
    then show ?thesis using data sh ops \<open>over_clean ord = []\<close> by (simp add: data_ops_def clean_ops_def)
  next
    case (clean us)
    show ?thesis
    proof (cases "us = clean_ops fid ord")
      case False
      then obtain z us' where z: "clean_ops fid ord = us @ z # us'" using clean(2) by (auto simp: prefix_def neq_Nil_conv)
      then have "z \<in> set (clean_ops fid ord)" by simp
      then obtain n where "z = PutKey n flag_key fid" unfolding clean_ops_def set_map by blast
      with z have n: "clean_ops fid ord = us @ PutKey n flag_key fid # us'" by simp
      have names: "map op_name (clean_ops fid ord) = over_clean ord" by (simp add: clean_ops_def comp_def)
      then have "over_clean ord = map op_name us @ n # map op_name us'" using n by (metis disk_op.sel(3) list.simps(9) map_append)
      moreover have "distinct (over_clean ord)" using assms(2) by (simp add: ranges_def)
      ultimately have "n \<notin> op_name ` set us" "n \<in> set (over_clean ord)" by auto
      then have "run_ops performed d n = run_ops ops2 ?d1 n" using run_ops_other clean(1) by simp
      then show ?thesis using d2 [OF \<open>n \<in> set (over_clean ord)\<close>, of ops2] ok [of n] by (simp add: mark_of_def contents_def)
    qed (simp add: clean ops)
  qed
qed

text \<open>
  The states that the pool and the disk reach: the start, \<open>GetDb\<close>, writes of the clients through the
  wrappers, closing and dropping a database, and flushes.
\<close>

inductive pool_reach :: "disk \<Rightarrow> SyncedPool \<Rightarrow> bool" where
  start: "set names = dom d \<Longrightarrow> NewSyncedPool d names = Some p \<Longrightarrow> pool_reach d p"
| get: "pool_reach d p \<Longrightarrow> pool_reach d (snd (getDb p n))"
| write_key: "pool_reach d p \<Longrightarrow> wrappers p n = Some w \<Longrightarrow> modified w = Some t \<Longrightarrow> k \<noteq> flag_key \<Longrightarrow>
    pool_reach d (p\<lparr>wrappers := (wrappers p)(n \<mapsto> w\<lparr>modified := Some (tree_put k v t), sizeEstimation := s\<rparr>)\<rparr>)"
| drop: "pool_reach d p \<Longrightarrow> wrappers p n = Some w \<Longrightarrow>
    pool_reach d (dropDb (p\<lparr>wrappers := (wrappers p)(n \<mapsto> w\<lparr>modified := None, sizeEstimation := 0\<rparr>)\<rparr>) n)"
| flush: "pool_reach d p \<Longrightarrow> ranges p ord \<Longrightarrow> pool_flush bsize ideal ord now d p fid = (err, ops, p') \<Longrightarrow> pool_reach (run_ops ops d) p'"


text \<open>
  Two databases, flushed together before with flag 1; the second, an old epoch, is closed and queued
  for dropping, and the first has a write that refers to the new epoch.
\<close>

definition pool_disk :: disk where
  "pool_disk = [''main'' \<mapsto> [flag_key \<mapsto> [1], [7] \<mapsto> [1]], ''epoch-1'' \<mapsto> [flag_key \<mapsto> [1], [8] \<mapsto> [9]]]"

definition pool_sample :: "string set \<Rightarrow> SyncedPool" where
  "pool_sample drops = \<lparr>wrappers = [''main'' \<mapsto> \<lparr>underlying = real ''main'', modified = Some [([7], Some [2])], sizeEstimation = 2, producer = None\<rparr>,
      ''epoch-1'' \<mapsto> \<lparr>underlying = real ''epoch-1'', modified = (if drops = {} then Some [] else None), sizeEstimation = 0, producer = None\<rparr>],
     queuedDrops = drops, prevFlushTime = 0\<rparr>"

definition order_sample :: "string list \<Rightarrow> string list \<Rightarrow> orders" where
  "order_sample drops ns = \<lparr>over_drops = drops, over_dirty = ns, over_data = rev ns, over_clean = ns\<rparr>"

lemma pool_sample_inv: "pool_inv pool_disk (pool_sample {})" "ranges (pool_sample {}) (order_sample [] [''epoch-1'', ''main''])"
  "pool_inv pool_disk (pool_sample {''epoch-1''})" "ranges (pool_sample {''epoch-1''}) (order_sample [''epoch-1''] [''main''])"
  by (auto simp: pool_inv_def ranges_def pool_disk_def pool_sample_def order_sample_def wrapper_ok_def writes_ok_def tree_ok_def flag_key_def split: if_splits)


theorem flush_completes_witness:
  "\<exists>ops p'. pool_flush mem_ValueSize 1 (order_sample [] [''epoch-1'', ''main'']) 0 pool_disk (pool_sample {}) [2] = (None, ops, p') \<and>
     contents (run_ops ops pool_disk) ''main'' [7] = Some [2]"
proof -
  have "\<not> prefix dirty_mark [2]" by code_simp
  from flush_completes [OF pool_sample_inv(1,2) this, of mem_ValueSize 1 0] obtain ops p' where
    f: "pool_flush mem_ValueSize 1 (order_sample [] [''epoch-1'', ''main'']) 0 pool_disk (pool_sample {}) [2] = (None, ops, p')" 
    "run_ops ops pool_disk ''main'' = Some ((overlay [([7], Some [2])] (contents pool_disk ''main''))(flag_key \<mapsto> [2]))"
    by (auto simp: pool_sample_def)
  then show ?thesis by (auto simp: contents_def overlay_def flag_key_def)
qed

theorem flush_crash_safe_witness:
  "\<exists>err ops p'. pool_flush mem_ValueSize 1 (order_sample [] [''epoch-1'', ''main'']) 0 pool_disk (pool_sample {}) [2] = (err, ops, p') \<and>
     (run_ops [] pool_disk = run_ops ops pool_disk \<or> contents (run_ops [] pool_disk) ''main'' = contents pool_disk ''main'')"
proof -
  obtain err ops p' where f: "pool_flush mem_ValueSize 1 (order_sample [] [''epoch-1'', ''main'']) 0 pool_disk (pool_sample {}) [2] = (err, ops, p')"
    by (metis prod_cases3)
  have "set [''main'', ''epoch-1''] = dom (run_ops [] pool_disk)" by (auto simp: pool_disk_def)
  moreover have "checkDbsSynced (run_ops [] pool_disk) [''main'', ''epoch-1''] = None" by code_simp
  ultimately show ?thesis using flush_crash_safe [OF pool_sample_inv(1,2) f, of "[]"] f by (auto simp: pool_sample_def)
qed


end
