(* ===== verification/Go_Heap.thy ===== *)
theory Go_Heap
  imports Prelude "HOL-Library.Multiset"
begin

text \<open>
  Package \<open>container/heap\<close> of the Go library, as far as the transaction lists and the priority queue
  use it: \<open>Init\<close>, \<open>Push\<close>, \<open>Pop\<close> and \<open>Remove\<close> over a slice with a comparison. Lengths and positions
  are natural numbers, since the slices are far below the range of \<open>int\<close>.
\<close>

subsection \<open>Operations\<close>

definition swap :: "nat \<Rightarrow> nat \<Rightarrow> 'a list \<Rightarrow> 'a list" where
  "swap i j xs = xs[i := xs ! j, j := xs ! i]"

lemma length_swap [simp]: "length (swap i j xs) = length xs"
  by (simp add: swap_def)

definition par :: "nat \<Rightarrow> nat" where
  "par j = (j - 1) div 2"

lemma par_less: "0 < j \<Longrightarrow> par j < j"
  by (auto simp: par_def)

function heap_up :: "('a \<Rightarrow> 'a \<Rightarrow> bool) \<Rightarrow> nat \<Rightarrow> 'a list \<Rightarrow> 'a list" where
  "heap_up lt j xs = (if j = 0 \<or> \<not> lt (xs ! j) (xs ! par j) then xs else heap_up lt (par j) (swap (par j) j xs))"
  by pat_completeness auto

termination
  by (relation "measure (\<lambda>(lt, j, xs). j)") (auto intro: par_less)

declare heap_up.simps [simp del]

text \<open>The smaller child of \<open>i\<close>; the heap takes the first \<open>n\<close> elements.\<close>

definition child :: "('a \<Rightarrow> 'a \<Rightarrow> bool) \<Rightarrow> nat \<Rightarrow> nat \<Rightarrow> 'a list \<Rightarrow> nat" where
  "child lt n i xs = (if 2 * i + 2 < n \<and> lt (xs ! (2 * i + 2)) (xs ! (2 * i + 1)) then 2 * i + 2 else 2 * i + 1)"

function heap_down :: "('a \<Rightarrow> 'a \<Rightarrow> bool) \<Rightarrow> nat \<Rightarrow> nat \<Rightarrow> 'a list \<Rightarrow> nat \<times> 'a list" where
  "heap_down lt n i xs =
     (if n \<le> 2 * i + 1 then (i, xs)
      else let j = child lt n i xs in
        if \<not> lt (xs ! j) (xs ! i) then (i, xs) else heap_down lt n j (swap i j xs))"
  by pat_completeness auto

termination
  by (relation "measure (\<lambda>(lt, n, i, xs). n - i)") (auto simp: child_def split: if_splits)

declare heap_down.simps [simp del]

lemma heap_down_stop: "n \<le> 2 * i + 1 \<or> \<not> lt (xs ! child lt n i xs) (xs ! i) \<Longrightarrow> heap_down lt n i xs = (i, xs)"
  by (subst heap_down.simps) (auto simp: Let_def)

lemma heap_down_go: "\<not> n \<le> 2 * i + 1 \<Longrightarrow> lt (xs ! child lt n i xs) (xs ! i) \<Longrightarrow>
    heap_down lt n i xs = heap_down lt n (child lt n i xs) (swap i (child lt n i xs) xs)"
  by (subst heap_down.simps) (simp add: Let_def)

definition down :: "('a \<Rightarrow> 'a \<Rightarrow> bool) \<Rightarrow> nat \<Rightarrow> nat \<Rightarrow> 'a list \<Rightarrow> 'a list" where
  "down lt n i xs = snd (heap_down lt n i xs)"

definition heap_Init :: "('a \<Rightarrow> 'a \<Rightarrow> bool) \<Rightarrow> 'a list \<Rightarrow> 'a list" where
  "heap_Init lt xs = foldl (\<lambda>xs i. down lt (length xs) i xs) xs (rev [0..<length xs div 2])"

definition heap_Push :: "('a \<Rightarrow> 'a \<Rightarrow> bool) \<Rightarrow> 'a \<Rightarrow> 'a list \<Rightarrow> 'a list" where
  "heap_Push lt x xs = heap_up lt (length xs) (xs @ [x])"

text \<open>\<open>Pop\<close> of an empty heap and \<open>Remove\<close> out of range panic.\<close>

definition heap_Pop :: "('a \<Rightarrow> 'a \<Rightarrow> bool) \<Rightarrow> 'a list \<Rightarrow> ('a \<times> 'a list) option" where
  "heap_Pop lt xs = (if xs = [] then None
     else let n = length xs - 1; ys = down lt n 0 (swap 0 n xs) in Some (last ys, butlast ys))"

definition heap_Remove :: "('a \<Rightarrow> 'a \<Rightarrow> bool) \<Rightarrow> nat \<Rightarrow> 'a list \<Rightarrow> ('a \<times> 'a list) option" where
  "heap_Remove lt i xs = (if length xs \<le> i then None
     else let n = length xs - 1;
              ys = (if n = i then xs
                    else case heap_down lt n i (swap i n xs) of (i', ys) \<Rightarrow> if i < i' then ys else heap_up lt i ys)
          in Some (last ys, butlast ys))"

subsection \<open>What a heap is\<close>

definition ok_at :: "('a \<Rightarrow> 'a \<Rightarrow> bool) \<Rightarrow> 'a list \<Rightarrow> nat \<Rightarrow> bool" where
  "ok_at lt xs c \<longleftrightarrow> \<not> lt (xs ! c) (xs ! par c)"

text \<open>The first \<open>n\<close> elements are in heap order from the parent \<open>k\<close> on.\<close>

definition heap_from :: "('a \<Rightarrow> 'a \<Rightarrow> bool) \<Rightarrow> nat \<Rightarrow> nat \<Rightarrow> 'a list \<Rightarrow> bool" where
  "heap_from lt k n xs \<longleftrightarrow> (\<forall>c. 0 < c \<longrightarrow> c < n \<longrightarrow> k \<le> par c \<longrightarrow> ok_at lt xs c)"

abbreviation is_heap :: "('a \<Rightarrow> 'a \<Rightarrow> bool) \<Rightarrow> 'a list \<Rightarrow> bool" where
  "is_heap lt xs \<equiv> heap_from lt 0 (length xs) xs"

text \<open>The same, except that the element at \<open>i\<close> may be too large for its children, or too small for its parent.\<close>

definition but_children :: "('a \<Rightarrow> 'a \<Rightarrow> bool) \<Rightarrow> nat \<Rightarrow> nat \<Rightarrow> nat \<Rightarrow> 'a list \<Rightarrow> bool" where
  "but_children lt k n i xs \<longleftrightarrow> k \<le> i \<and> (\<forall>c. 0 < c \<longrightarrow> c < n \<longrightarrow> k \<le> par c \<longrightarrow> par c \<noteq> i \<longrightarrow> ok_at lt xs c) \<and>
     (0 < i \<longrightarrow> k \<le> par i \<longrightarrow> (\<forall>c. 0 < c \<longrightarrow> c < n \<longrightarrow> par c = i \<longrightarrow> \<not> lt (xs ! c) (xs ! par i)))"

definition but_parent :: "('a \<Rightarrow> 'a \<Rightarrow> bool) \<Rightarrow> nat \<Rightarrow> nat \<Rightarrow> 'a list \<Rightarrow> bool" where
  "but_parent lt n i xs \<longleftrightarrow> (\<forall>c. 0 < c \<longrightarrow> c < n \<longrightarrow> c \<noteq> i \<longrightarrow> ok_at lt xs c) \<and>
     (0 < i \<longrightarrow> (\<forall>c. 0 < c \<longrightarrow> c < n \<longrightarrow> par c = i \<longrightarrow> \<not> lt (xs ! c) (xs ! par i)))"

lemma swap_nth: "i < length xs \<Longrightarrow> j < length xs \<Longrightarrow> k < length xs \<Longrightarrow> swap i j xs ! k = (if k = i then xs ! j else if k = j then xs ! i else xs ! k)"
  by (auto simp: swap_def nth_list_update)

lemma mset_swap [simp]: "i < length xs \<Longrightarrow> j < length xs \<Longrightarrow> mset (swap i j xs) = mset xs"
  by (simp add: swap_def mset_swap)

lemma child_bounds: "\<not> n \<le> 2 * i + 1 \<Longrightarrow> i < child lt n i xs \<and> child lt n i xs < n \<and> par (child lt n i xs) = i"
  by (auto simp: child_def par_def)

lemma children: "0 < c \<Longrightarrow> par c = i \<longleftrightarrow> c = 2 * i + 1 \<or> c = 2 * i + 2"
  by (auto simp: par_def)

text \<open>Sifting keeps the elements, the length, and what lies behind the heap.\<close>

lemma heap_up_mset: "j < length xs \<Longrightarrow> length (heap_up lt j xs) = length xs \<and> mset (heap_up lt j xs) = mset xs"
proof (induction lt j xs rule: heap_up.induct)
  case (1 lt j xs)
  have "par j < length xs" using 1(2) par_less [of j] by (cases "j = 0") (auto simp: par_def)
  with 1 show ?case by (subst (1 2) heap_up.simps) auto
qed

lemma heap_up_tail: "j < n \<Longrightarrow> n \<le> length xs \<Longrightarrow> drop n (heap_up lt j xs) = drop n xs"
proof (induction lt j xs rule: heap_up.induct)
  case (1 lt j xs)
  have p: "par j < n" using 1(2) par_less [of j] by (cases "j = 0") (auto simp: par_def)
  then have "drop n (swap (par j) j xs) = drop n xs" using 1(2) by (simp add: swap_def)
  with 1 p show ?case by (subst heap_up.simps) auto
qed

lemma heap_down_mset: "i < n \<Longrightarrow> n \<le> length xs \<Longrightarrow> heap_down lt n i xs = (i', ys) \<Longrightarrow>
    length ys = length xs \<and> mset ys = mset xs \<and> drop n ys = drop n xs \<and> i \<le> i' \<and> (i' = i \<longrightarrow> ys = xs)"
proof (induction lt n i xs arbitrary: i' ys rule: heap_down.induct)
  case (1 lt n i xs)
  show ?case
  proof (cases "n \<le> 2 * i + 1 \<or> \<not> lt (xs ! child lt n i xs) (xs ! i)")
    case True
    then show ?thesis using 1(4) heap_down_stop [of n i lt xs] True by simp
  next
    case False
    let ?j = "child lt n i xs"
    have j: "i < ?j" "?j < n" using child_bounds [of n i lt xs] False by simp_all
    have r: "heap_down lt n ?j (swap i ?j xs) = (i', ys)" using 1(4) False heap_down_go [of n i lt xs] by simp
    have "drop n (swap i ?j xs) = drop n xs" using j by (simp add: swap_def)
    with 1(1) [OF _ refl _ _ _ r] False j 1(3) show ?thesis by auto
  qed
qed

subsection \<open>Correctness\<close>

locale heap_order =
  fixes lt :: "'a \<Rightarrow> 'a \<Rightarrow> bool"
  assumes lt_asym: "lt x y \<Longrightarrow> \<not> lt y x"
    and lt_split: "lt x z \<Longrightarrow> lt x y \<or> lt y z"
begin

lemma lt_trans: "lt x y \<Longrightarrow> lt y z \<Longrightarrow> lt x z"
  using lt_split [of x y z] lt_asym [of y z] by blast

lemma heap_least:
  assumes "heap_from lt 0 n xs" "i < n"
  shows "\<not> lt (xs ! i) (xs ! 0)"
  using assms(2)
proof (induction i rule: less_induct)
  case (less i)
  show ?case
  proof (cases "i = 0")
    case False
    then have "\<not> lt (xs ! par i) (xs ! 0)" "\<not> lt (xs ! i) (xs ! par i)"
      using less par_less [of i] assms(1) by (auto simp: heap_from_def ok_at_def)
    then show ?thesis using lt_split by blast
  qed (use lt_asym in blast)
qed

lemma up_heap: "j < n \<Longrightarrow> n \<le> length xs \<Longrightarrow> but_parent lt n j xs \<Longrightarrow> heap_from lt 0 n (heap_up lt j xs)"
proof (induction j arbitrary: xs rule: less_induct)
  case (less j)
  show ?case
  proof (cases "j = 0 \<or> \<not> lt (xs ! j) (xs ! par j)")
    case True
    then have "heap_up lt j xs = xs" by (subst heap_up.simps) simp
    with True less.prems(3) show ?thesis by (auto simp: heap_from_def but_parent_def ok_at_def)
  next
    case False
    let ?p = "par j" and ?ys = "swap (par j) j xs"
    have j: "0 < j" "?p < j" and lt: "lt (xs ! j) (xs ! ?p)" using False par_less by auto
    have nth: "?ys ! k = (if k = ?p then xs ! j else if k = j then xs ! ?p else xs ! k)" if "k < n" for k
      using that less.prems(1,2) j by (intro swap_nth) auto
    have ok: "\<not> lt (xs ! c) (xs ! par c)" if "0 < c" "c < n" "c \<noteq> j" for c using less.prems(3) that by (simp add: but_parent_def ok_at_def)
    have kids: "\<not> lt (xs ! c) (xs ! ?p)" if "0 < c" "c < n" "par c = j" for c using less.prems(3) that j by (simp add: but_parent_def)
    have "but_parent lt n ?p ?ys" unfolding but_parent_def
    proof (intro conjI impI allI)
      fix c assume c: "0 < c" "c < n" "c \<noteq> ?p"
      have pc: "par c < n" using par_less [OF c(1)] c(2) by simp
      show "ok_at lt ?ys c"
      proof (cases "c = j")
        case True
        then show ?thesis using nth [OF c(2)] nth [OF pc] j lt lt_asym by (auto simp: ok_at_def)
      next
        case False
        show ?thesis
        proof (cases "par c = ?p")
          case True
          have "\<not> lt (xs ! c) (xs ! j)" using ok [OF c(1,2) False] lt True lt_trans by metis
          then show ?thesis using nth [OF c(2)] nth [OF pc] c(3) False True by (simp add: ok_at_def)
        next
          case ne: False
          then show ?thesis using nth [OF c(2)] nth [OF pc] c ok [OF c(1,2) False] kids [OF c(1,2)] False by (auto simp: ok_at_def)
        qed
      qed
    next
      fix c assume p: "0 < ?p" and c: "0 < c" "c < n" "par c = ?p"
      have pp: "par ?p < ?p" "par ?p < n" using par_less [OF p] j less.prems(1) by simp_all
      have up: "\<not> lt (xs ! ?p) (xs ! par ?p)" using ok [OF p] j less.prems(1) by auto
      show "\<not> lt (?ys ! c) (?ys ! par ?p)"
      proof (cases "c = j")
        case True
        then show ?thesis using nth [OF c(2)] nth [OF pp(2)] pp j up by simp
      next
        case False
        have "c \<noteq> ?p" using c(3) par_less [OF c(1)] by auto
        have "\<not> lt (xs ! c) (xs ! ?p)" using ok [OF c(1,2) False] c(3) by simp
        then have "\<not> lt (xs ! c) (xs ! par ?p)" using up lt_split by blast
        then show ?thesis using nth [OF c(2)] nth [OF pp(2)] pp False \<open>c \<noteq> ?p\<close> j by simp
      qed
    qed
    then have "heap_from lt 0 n (heap_up lt ?p ?ys)" using less.IH [OF j(2)] j less.prems(1,2) by simp
    moreover have "heap_up lt j xs = heap_up lt ?p ?ys" using False by (subst heap_up.simps) simp
    ultimately show ?thesis by simp
  qed
qed

lemma smaller_child:
  assumes "0 < c" "c < n" "par c = i"
  shows "\<not> lt (xs ! c) (xs ! child lt n i xs)"
proof -
  have "c = 2 * i + 1 \<or> c = 2 * i + 2" by (rule iffD1 [OF children [OF assms(1)] assms(3)])
  then show ?thesis using assms(2) lt_asym by (auto simp: child_def)
qed

lemma down_heap: "i < n \<Longrightarrow> n \<le> length xs \<Longrightarrow> but_children lt k n i xs \<Longrightarrow> heap_from lt k n (down lt n i xs)"
  unfolding down_def
proof (induction "n - i" arbitrary: i xs rule: less_induct)
  case less
  have k: "k \<le> i" and ok: "\<And>c. 0 < c \<Longrightarrow> c < n \<Longrightarrow> k \<le> par c \<Longrightarrow> par c \<noteq> i \<Longrightarrow> \<not> lt (xs ! c) (xs ! par c)"
    and kids: "\<And>c. 0 < i \<Longrightarrow> k \<le> par i \<Longrightarrow> 0 < c \<Longrightarrow> c < n \<Longrightarrow> par c = i \<Longrightarrow> \<not> lt (xs ! c) (xs ! par i)"
    using less.prems(3) by (simp_all add: but_children_def ok_at_def)
  let ?j = "child lt n i xs"
  show ?case
  proof (cases "n \<le> 2 * i + 1 \<or> \<not> lt (xs ! ?j) (xs ! i)")
    case True
    have "\<not> lt (xs ! c) (xs ! par c)" if c: "0 < c" "c < n" "k \<le> par c" for c
    proof (cases "par c = i")
      case here: True
      have "c = 2 * i + 1 \<or> c = 2 * i + 2" by (rule iffD1 [OF children [OF c(1)] here])
      then have "\<not> lt (xs ! ?j) (xs ! i)" using True c(2) by auto
      with smaller_child [OF c(1,2) here, of xs] here show ?thesis using lt_split by blast
    qed (use ok c in blast)
    then show ?thesis using heap_down_stop [of n i lt xs] True by (simp add: heap_from_def ok_at_def)
  next
    case False
    let ?ys = "swap i ?j xs"
    have j: "i < ?j" "?j < n" "par ?j = i" and lt: "lt (xs ! ?j) (xs ! i)" using child_bounds [of n i lt xs] False by simp_all
    have nth: "?ys ! c = (if c = i then xs ! ?j else if c = ?j then xs ! i else xs ! c)" if "c < n" for c
      using that less.prems(1,2) j by (intro swap_nth) auto
    have "but_children lt k n ?j ?ys" unfolding but_children_def
    proof (intro conjI impI allI)
      show "k \<le> ?j" using k j by simp
    next
      fix c assume c: "0 < c" "c < n" "k \<le> par c" "par c \<noteq> ?j"
      have pc: "par c < n" "par c \<noteq> c" using par_less [OF c(1)] c(2) by simp_all
      show "ok_at lt ?ys c"
      proof (cases "par c = i")
        case True
        show ?thesis
        proof (cases "c = ?j")
          case True
          then show ?thesis using nth [OF c(2)] nth [OF pc(1)] j lt lt_asym by (auto simp: ok_at_def)
        next
          case False
          then show ?thesis using nth [OF c(2)] nth [OF pc(1)] True pc(2) smaller_child [OF c(1,2) True, of xs] by (simp add: ok_at_def)
        qed
      next
        case False
        have "c \<noteq> ?j" using False j(3) by auto
        then show ?thesis using nth [OF c(2)] nth [OF pc(1)] False c(4) ok [OF c(1-3) False] kids [of ?j] j c by (cases "c = i") (auto simp: ok_at_def)
      qed
    next
      fix c assume c: "0 < ?j" "k \<le> par ?j" "0 < c" "c < n" "par c = ?j"
      have "c \<noteq> i" "c \<noteq> ?j" using par_less [OF c(3)] c(5) j(1) by auto
      then show "\<not> lt (?ys ! c) (?ys ! par ?j)" using nth [OF c(4)] nth [of i] less.prems(1) j ok [OF c(3,4)] c(5) k by simp
    qed
    moreover have "n - ?j < n - i" using j by simp
    ultimately have "heap_from lt k n (snd (heap_down lt n ?j ?ys))" using less.hyps j less.prems(2) by simp
    then show ?thesis using heap_down_go [of n i lt xs] False by simp
  qed
qed

lemma heap_from_take:
  assumes "heap_from lt k n xs" "take n ys = take n xs" "n \<le> length xs" "n \<le> length ys"
  shows "heap_from lt k n ys"
proof -
  have "ys ! c = xs ! c" if "c < n" for c using that assms(2) by (metis nth_take)
  moreover have "par c < n" if "0 < c" "c < n" for c using par_less [OF that(1)] that(2) by simp
  ultimately show ?thesis using assms(1) by (simp add: heap_from_def ok_at_def)
qed

lemma heap_from_butlast: "xs \<noteq> [] \<Longrightarrow> heap_from lt 0 (length xs - 1) xs \<Longrightarrow> is_heap lt (butlast xs)"
proof -
  assume h: "xs \<noteq> []" "heap_from lt 0 (length xs - 1) xs"
  have "length xs - 1 \<le> length xs" by linarith
  with heap_from_take [OF h(2), of "butlast xs"] show ?thesis by (simp add: butlast_conv_take)
qed

lemma heap_Push: 
  assumes "is_heap lt xs"
  shows "is_heap lt (heap_Push lt x xs) \<and> mset (heap_Push lt x xs) = add_mset x (mset xs)"
proof -
  have "but_parent lt (length (xs @ [x])) (length xs) (xs @ [x])" unfolding but_parent_def
  proof (intro conjI allI impI)
    fix c assume c: "0 < c" "c < length (xs @ [x])" "c \<noteq> length xs"
    then have "ok_at lt xs c" "par c < length xs" using assms par_less [of c] by (auto simp: heap_from_def)
    with c show "ok_at lt (xs @ [x]) c" by (simp add: ok_at_def nth_append)
  next
    fix c assume "0 < c" "c < length (xs @ [x])" "par c = length xs"
    then show "\<not> lt ((xs @ [x]) ! c) ((xs @ [x]) ! par (length xs))" using par_less [of c] by simp
  qed
  from up_heap [OF _ _ this] heap_up_mset [of "length xs" "xs @ [x]" lt] show ?thesis by (simp add: heap_Push_def)
qed

lemma heap_Init: "is_heap lt (heap_Init lt xs) \<and> mset (heap_Init lt xs) = mset xs"
proof -
  have "m \<le> length xs div 2 \<Longrightarrow> length ys = length xs \<Longrightarrow> mset ys = mset xs \<Longrightarrow> heap_from lt m (length xs) ys \<Longrightarrow>
      let zs = foldl (\<lambda>xs i. down lt (length xs) i xs) ys (rev [0..<m]) in length zs = length xs \<and> mset zs = mset xs \<and> heap_from lt 0 (length xs) zs" for m ys
  proof (induction m arbitrary: ys)
    case (Suc m)
    let ?n = "length xs" and ?ys = "down lt (length ys) m ys"
    have m: "m < ?n" using Suc.prems(1) by simp
    have "but_children lt m ?n m ys" unfolding but_children_def
    proof (intro conjI impI allI)
      fix c assume c: "0 < c" "c < ?n" "m \<le> par c" "par c \<noteq> m"
      then show "ok_at lt ys c" using Suc.prems(4) by (simp add: heap_from_def)
    next
      fix c assume "0 < m" "m \<le> par m"
      then show "\<not> lt (ys ! c) (ys ! par m)" using par_less [of m] by simp
    qed simp
    then have "heap_from lt m ?n ?ys" using down_heap [OF m, of ys m] Suc.prems(2) by simp
    moreover have "length ?ys = ?n" "mset ?ys = mset xs"
      using heap_down_mset [of m ?n ys lt] m Suc.prems(2,3) unfolding down_def by (metis order_refl prod.collapse)+
    ultimately show ?case using Suc.IH [of ?ys] Suc.prems(1) by simp
  qed (simp add: Let_def)
  moreover have "heap_from lt (length xs div 2) (length xs) xs" by (auto simp: heap_from_def par_def)
  ultimately show ?thesis unfolding heap_Init_def Let_def by simp
qed

lemma last_back:
  assumes "drop n ys = drop n xs" "length ys = length xs" "length xs = Suc n"
  shows "last ys = xs ! n"
  using assms by (metis Cons_nth_drop_Suc last_drop last_ConsL drop_all lessI order_refl)

lemma mset_last: "ys \<noteq> [] \<Longrightarrow> mset ys = add_mset (last ys) (mset (butlast ys))"
  by (metis add_mset_add_single append_butlast_last_id mset.simps(1) mset.simps(2) mset_append)

lemma heap_Pop:
  assumes "is_heap lt xs" "xs \<noteq> []"
  shows "\<exists>ys. heap_Pop lt xs = Some (xs ! 0, ys) \<and> is_heap lt ys \<and> mset xs = add_mset (xs ! 0) (mset ys) \<and> (\<forall>y \<in> set xs. \<not> lt y (xs ! 0))"
proof -
  let ?n = "length xs - 1" let ?zs = "swap 0 ?n xs" let ?ys = "down lt ?n 0 ?zs"
  have n: "length xs = Suc ?n" "?n < length xs" "0 < length xs" using assms(2) by (cases xs; simp)+
  have zs: "mset ?zs = mset xs" "length ?zs = length xs" using n(2,3) by simp_all
  have len: "length ?ys = length xs" "mset ?ys = mset xs" "drop ?n ?ys = drop ?n ?zs"
  proof -
    have "length ?ys = length xs \<and> mset ?ys = mset xs \<and> drop ?n ?ys = drop ?n ?zs"
    proof (cases "?n = 0")
      case True
      then have "?ys = ?zs" using heap_down_stop [of ?n 0 lt ?zs] by (simp add: down_def)
      then show ?thesis using zs by simp
    next
      case False
      then have "0 < ?n" "?n \<le> length ?zs" using n by simp_all
      from heap_down_mset [OF this, of lt "fst (heap_down lt ?n 0 ?zs)" ?ys] zs show ?thesis by (simp add: down_def)
    qed
    then show "length ?ys = length xs" "mset ?ys = mset xs" "drop ?n ?ys = drop ?n ?zs" by blast+
  qed
  have "last ?ys = ?zs ! ?n" using last_back [OF len(3)] len(1) n(1) zs(2) by simp
  also have "\<dots> = xs ! 0" using n by (subst swap_nth) auto
  finally have last: "last ?ys = xs ! 0" .
  have "heap_from lt 0 ?n ?ys"
  proof (cases "?n = 0")
    case False
    have "but_children lt 0 ?n 0 ?zs" unfolding but_children_def
    proof (intro conjI impI allI)
      fix c assume c: "0 < c" "c < ?n" "0 \<le> par c" "par c \<noteq> 0"
      then have "?zs ! c = xs ! c" "?zs ! par c = xs ! par c" using n(2,3) par_less [of c] by (auto simp: swap_nth)
      then show "ok_at lt ?zs c" using assms(1) c by (simp add: heap_from_def ok_at_def)
    qed simp_all
    with down_heap [of 0 ?n ?zs 0] False n show ?thesis by simp
  qed (simp add: heap_from_def)
  then have "is_heap lt (butlast ?ys)" using heap_from_butlast [of ?ys] len(1) n by force
  moreover have "mset xs = add_mset (xs ! 0) (mset (butlast ?ys))"
  proof -
    have "?ys \<noteq> []" using len(1) n by auto
    then have "mset ?ys = add_mset (last ?ys) (mset (butlast ?ys))" by (rule mset_last)
    then show ?thesis using len(2) last by simp
  qed
  moreover have "\<forall>y \<in> set xs. \<not> lt y (xs ! 0)" using heap_least [OF assms(1)] by (auto simp: in_set_conv_nth)
  moreover have "heap_Pop lt xs = Some (xs ! 0, butlast ?ys)" using assms(2) last by (simp add: heap_Pop_def Let_def)
  ultimately show ?thesis by blast
qed

text \<open>The state inside \<open>Remove\<close>: the last element was put at position \<open>i\<close>.\<close>

lemma replaced_heap:
  assumes heap: "is_heap lt xs" and n: "length xs = Suc n" "i < n" and zs: "zs = swap i n xs"
  shows "heap_from lt 0 n (case heap_down lt n i zs of (i', ys) \<Rightarrow> if i < i' then ys else heap_up lt i ys)"
proof -
  have nth: "zs ! c = (if c = i then xs ! n else xs ! c)" if "c < n" for c using that n unfolding zs by (subst swap_nth) auto
  have ok: "\<not> lt (xs ! c) (xs ! par c)" if "0 < c" "c < n" for c using heap that n(1) by (simp add: heap_from_def ok_at_def)
  have pn: "par c < n" if "0 < c" "c < n" for c using par_less [OF that(1)] that(2) by simp
  have rest: "ok_at lt zs c" if c: "0 < c" "c < n" "c \<noteq> i" "par c \<noteq> i" for c
    using nth [OF c(2)] nth [OF pn [OF c(1,2)]] c ok [OF c(1,2)] by (simp add: ok_at_def)
  have grand: "\<not> lt (zs ! c) (zs ! par i)" if i: "0 < i" and c: "0 < c" "c < n" "par c = i" for c
  proof -
    have ne: "c \<noteq> i" "par i \<noteq> i" using par_less [OF c(1)] c(3) par_less [OF i] by auto
    have "\<not> lt (xs ! c) (xs ! i)" "\<not> lt (xs ! i) (xs ! par i)" using ok [OF c(1,2)] c(3) ok [OF i n(2)] by simp_all
    then have "\<not> lt (xs ! c) (xs ! par i)" using lt_split by blast
    then show ?thesis using nth [OF c(2)] nth [OF pn [OF i n(2)]] ne by simp
  qed
  have len: "n \<le> length zs" using n zs by simp
  obtain i' ys where d: "heap_down lt n i zs = (i', ys)" by fastforce
  note m = heap_down_mset [OF n(2) len d]
  show ?thesis
  proof (cases "0 < i \<and> lt (zs ! i) (zs ! par i)")
    case True
    have "\<not> lt (zs ! c) (zs ! i)" if c: "0 < c" "c < n" "par c = i" for c using grand [OF _ c] True lt_trans by blast
    then have stop: "n \<le> 2 * i + 1 \<or> \<not> lt (zs ! child lt n i zs) (zs ! i)" using child_bounds [of n i lt zs] by (metis gr_zeroI not_less_zero)
    have "but_parent lt n i zs" unfolding but_parent_def
    proof (intro conjI impI allI)
      fix c assume c: "0 < c" "c < n" "c \<noteq> i"
      show "ok_at lt zs c"
      proof (cases "par c = i")
        case here: True
        have "\<not> lt (zs ! c) (zs ! i)" using grand [OF _ c(1,2) here] True lt_trans by blast
        with here show ?thesis by (simp add: ok_at_def)
      qed (use rest c in blast)
    qed (use grand in blast)
    with up_heap [OF n(2) len] show ?thesis using heap_down_stop [of n i lt zs] stop by simp
  next
    case False
    have bc: "but_children lt 0 n i zs" unfolding but_children_def
    proof (intro conjI impI allI)
      fix c assume c: "0 < c" "c < n" "0 \<le> par c" "par c \<noteq> i"
      show "ok_at lt zs c" using rest [OF c(1,2) _ c(4)] False c(1) by (cases "c = i") (simp_all add: ok_at_def)
    qed (use grand in simp_all)
    have h: "heap_from lt 0 n ys" using down_heap [OF n(2) len bc] d by (simp add: down_def)
    show ?thesis
    proof (cases "i < i'")
      case stay: False
      then have ys: "ys = zs" using m by simp
      have "but_parent lt n i zs" using h grand unfolding ys but_parent_def heap_from_def by blast
      with up_heap [OF n(2) len] d stay ys show ?thesis by simp
    qed (use d h in simp)
  qed
qed

lemma heap_Remove:
  assumes heap: "is_heap lt xs" and i: "i < length xs"
  shows "\<exists>ys. heap_Remove lt i xs = Some (xs ! i, ys) \<and> is_heap lt ys \<and> mset xs = add_mset (xs ! i) (mset ys)"
proof -
  obtain n where n: "length xs = Suc n" using i by (cases xs) simp_all
  define ys where "ys = (if n = i then xs else case heap_down lt n i (swap i n xs) of (i', ys) \<Rightarrow> if i < i' then ys else heap_up lt i ys)"
  have ys: "length ys = length xs \<and> mset ys = mset xs \<and> drop n ys = drop n (swap i n xs) \<and> heap_from lt 0 n ys"
  proof (cases "n = i")
    case True
    then show ?thesis using heap n by (auto simp: ys_def swap_def heap_from_def)
  next
    case False
    then have i': "i < n" using i n by simp
    obtain k zs where d: "heap_down lt n i (swap i n xs) = (k, zs)" by fastforce
    have len: "n \<le> length (swap i n xs)" "mset (swap i n xs) = mset xs" using n i by simp_all
    note m = heap_down_mset [OF i' len(1) d]
    have "length (heap_up lt i zs) = length xs \<and> mset (heap_up lt i zs) = mset xs" "drop n (heap_up lt i zs) = drop n zs"
      using heap_up_mset [of i zs lt] heap_up_tail [OF i', of zs lt] m i n len by auto
    moreover have "ys = (if i < k then zs else heap_up lt i zs)" using False d by (simp add: ys_def)
    moreover have "length zs = length xs" "mset zs = mset xs" "drop n zs = drop n (swap i n xs)" using m len(2) by simp_all
    ultimately show ?thesis using replaced_heap [OF heap n i' refl] d by (cases "i < k") simp_all
  qed
  then have "last ys = swap i n xs ! n" using last_back [of n ys "swap i n xs"] n by simp
  also have "\<dots> = xs ! i" using i n by (subst swap_nth) auto
  finally have last: "last ys = xs ! i" .
  have "ys \<noteq> []" using ys n by auto
  then have "is_heap lt (butlast ys)" "mset xs = add_mset (xs ! i) (mset (butlast ys))"
    using heap_from_butlast [of ys] mset_last [of ys] ys n last by simp_all
  moreover have "heap_Remove lt i xs = Some (xs ! i, butlast ys)" using i n last by (simp add: heap_Remove_def Let_def ys_def)
  ultimately show ?thesis by blast
qed

end

end
