(* ===== verification/Tx_List.thy ===== *)
theory Tx_List
  imports Go_Heap Event "HOL-Library.AList"
begin

text \<open>
  \<open>evmcore/tx_list.go\<close>: the lists of transactions of the transaction pool. \<open>txSortedMap\<close> is a map from
  nonces to transactions with a heap of the nonces and a cache of the sorted list; \<open>txList\<close> adds the
  rules for replacement and for unpayable transactions; \<open>txPricedList\<close> is a heap by gas price from
  which the cheapest remote transactions are discarded.

  A transaction is what the accessors of go-ethereum's type return (\<open>Cost\<close> is its gas price times its
  gas plus the value sent). A Go map is an association list with distinct keys; the order in which
  \<open>range\<close> visits it is the runtime's, an argument \<open>it\<close>. A nil transaction is \<^const>\<open>None\<close>.
\<close>

record Transaction =
  txNonce :: u64
  txGasPrice :: int
  txGas :: u64
  txCost :: int
  txHash :: hash

type_synonym tx_map = "(u64 \<times> Transaction) list"
type_synonym go_range = "tx_map \<Rightarrow> tx_map"

definition range_order :: "go_range \<Rightarrow> bool" where
  "range_order it \<longleftrightarrow> (\<forall>xs. mset (it xs) = mset xs)"

subsection \<open>Nonce-sorted map\<close>

record txSortedMap =
  smItems :: tx_map
  smIndex :: "u64 list"
  smCache :: "Transaction list option"

definition nonce_less :: "u64 \<Rightarrow> u64 \<Rightarrow> bool" where
  "nonce_less a b \<longleftrightarrow> a < b"

definition newTxSortedMap :: txSortedMap where
  "newTxSortedMap = \<lparr>smItems = [], smIndex = [], smCache = None\<rparr>"

definition sm_Get :: "u64 \<Rightarrow> txSortedMap \<Rightarrow> Transaction option" where
  "sm_Get nonce m = map_of (smItems m) nonce"

definition sm_Put :: "Transaction \<Rightarrow> txSortedMap \<Rightarrow> txSortedMap" where
  "sm_Put tx m = m\<lparr>smIndex := (if map_of (smItems m) (txNonce tx) = None then heap_Push nonce_less (txNonce tx) (smIndex m) else smIndex m),
     smItems := AList.update (txNonce tx) tx (smItems m), smCache := None\<rparr>"

lemma heap_Pop_length: "heap_Pop lt xs = Some (x, ys) \<Longrightarrow> length ys < length xs"
proof -
  assume p: "heap_Pop lt xs = Some (x, ys)"
  let ?n = "length xs - 1"
  have "xs \<noteq> []" using p by (auto simp: heap_Pop_def split: if_splits)
  moreover have "length (down lt ?n 0 (swap 0 ?n xs)) = length xs"
  proof (cases "?n = 0")
    case True
    then show ?thesis using heap_down_stop [of ?n 0 lt "swap 0 ?n xs"] by (simp add: down_def)
  next
    case False
    then have "0 < ?n" "?n \<le> length (swap 0 ?n xs)" by simp_all
    from heap_down_mset [OF this, of lt "fst (heap_down lt ?n 0 (swap 0 ?n xs))" "down lt ?n 0 (swap 0 ?n xs)"] show ?thesis by (simp add: down_def)
  qed
  ultimately show ?thesis using p by (auto simp: heap_Pop_def Let_def)
qed

text \<open>The loop of \<open>Forward\<close>: nonces below the threshold leave the heap and the map.\<close>

function forward_loop :: "u64 \<Rightarrow> tx_map \<Rightarrow> u64 list \<Rightarrow> Transaction option list \<Rightarrow> (Transaction option list \<times> tx_map \<times> u64 list) option" where
  "forward_loop threshold items index removed =
     (if index = [] \<or> \<not> index ! 0 < threshold then Some (removed, items, index)
      else (case heap_Pop nonce_less index of
        None \<Rightarrow> None
      | Some (nonce, index') \<Rightarrow> forward_loop threshold (AList.delete nonce items) index' (removed @ [map_of items nonce])))"
  by pat_completeness auto

termination
  by (relation "measure (\<lambda>(_, _, index, _). length index)") (auto dest: heap_Pop_length)

declare forward_loop.simps [simp del]

text \<open>Slicing the cache panics when it is shorter than what was removed.\<close>

definition sm_Forward :: "u64 \<Rightarrow> txSortedMap \<Rightarrow> (Transaction option list \<times> txSortedMap) option" where
  "sm_Forward threshold m = do {
     (removed, items, index) \<leftarrow> forward_loop threshold (smItems m) (smIndex m) [];
     cache \<leftarrow> (case smCache m of None \<Rightarrow> Some None
       | Some c \<Rightarrow> if length removed \<le> length c then Some (Some (drop (length removed) c)) else None);
     Some (removed, m\<lparr>smItems := items, smIndex := index, smCache := cache\<rparr>) }"

definition filter_step :: "(Transaction \<Rightarrow> bool) \<Rightarrow> Transaction list \<times> tx_map \<Rightarrow> u64 \<times> Transaction \<Rightarrow> Transaction list \<times> tx_map" where
  "filter_step f st e = (case (st, e) of ((removed, items), (nonce, tx)) \<Rightarrow>
     if f tx then (removed @ [tx], AList.delete nonce items) else (removed, items))"

definition sm_Filter :: "go_range \<Rightarrow> (Transaction \<Rightarrow> bool) \<Rightarrow> txSortedMap \<Rightarrow> Transaction list \<times> txSortedMap" where
  "sm_Filter it f m = (case foldl (filter_step f) ([], smItems m) (it (smItems m)) of (removed, items) \<Rightarrow>
     (removed, if removed \<noteq> []
        then m\<lparr>smItems := items, smIndex := heap_Init nonce_less (map fst (it items)), smCache := None\<rparr>
        else m\<lparr>smItems := items\<rparr>))"

fun cap_loop :: "u64 list \<Rightarrow> nat \<Rightarrow> nat \<Rightarrow> tx_map \<Rightarrow> Transaction option list \<Rightarrow> (Transaction option list \<times> tx_map) option" where
  "cap_loop index threshold 0 items drops = Some (drops, items)"
| "cap_loop index threshold (Suc k) items drops =
     (if Suc k \<le> threshold then Some (drops, items)
      else if k < length index then cap_loop index threshold k (AList.delete (index ! k) items) (drops @ [map_of items (index ! k)])
      else None)"

definition sm_Cap :: "int \<Rightarrow> txSortedMap \<Rightarrow> (Transaction option list \<times> txSortedMap) option" where
  "sm_Cap threshold m =
     (if int (length (smItems m)) \<le> threshold then Some ([], m)
      else if threshold < 0 then None
      else do {
        let t = nat threshold;
        let index = sort (smIndex m);
        (drops, items) \<leftarrow> cap_loop index t (length (smItems m)) (smItems m) [];
        index \<leftarrow> slice_sub index 0 t;
        cache \<leftarrow> (case smCache m of None \<Rightarrow> Some None
          | Some c \<Rightarrow> if length drops \<le> length c then Some (Some (take (length c - length drops) c)) else None);
        Some (drops, m\<lparr>smItems := items, smIndex := heap_Init nonce_less index, smCache := cache\<rparr>) })"

text \<open>\<open>Remove\<close> looks for the nonce in the heap; if it is not there, the heap stays.\<close>

definition sm_Remove :: "u64 \<Rightarrow> txSortedMap \<Rightarrow> (bool \<times> txSortedMap) option" where
  "sm_Remove nonce m =
     (if map_of (smItems m) nonce = None then Some (False, m)
      else do {
        let i = length (takeWhile (\<lambda>x. x \<noteq> nonce) (smIndex m));
        index \<leftarrow> (if i < length (smIndex m) then map_option snd (heap_Remove nonce_less i (smIndex m)) else Some (smIndex m));
        Some (True, m\<lparr>smIndex := index, smItems := AList.delete nonce (smItems m), smCache := None\<rparr>) })"

function ready_loop :: "u64 \<Rightarrow> tx_map \<Rightarrow> u64 list \<Rightarrow> Transaction option list \<Rightarrow> (Transaction option list \<times> tx_map \<times> u64 list) option" where
  "ready_loop n items index ready =
     (if index = [] \<or> index ! 0 \<noteq> n then Some (ready, items, index)
      else (case heap_Pop nonce_less index of
        None \<Rightarrow> None
      | Some (nonce, index') \<Rightarrow> ready_loop (n + 1) (AList.delete n items) index' (ready @ [map_of items n])))"
  by pat_completeness auto

termination
  by (relation "measure (\<lambda>(_, _, index, _). length index)") (auto dest: heap_Pop_length)

declare ready_loop.simps [simp del]

definition sm_Ready :: "u64 \<Rightarrow> txSortedMap \<Rightarrow> (Transaction option list \<times> txSortedMap) option" where
  "sm_Ready start m =
     (if smIndex m = [] \<or> smIndex m ! 0 > start then Some ([], m)
      else do {
        (ready, items, index) \<leftarrow> ready_loop (smIndex m ! 0) (smItems m) (smIndex m) [];
        Some (ready, m\<lparr>smItems := items, smIndex := index, smCache := None\<rparr>) })"

definition sm_Len :: "txSortedMap \<Rightarrow> nat" where
  "sm_Len m = length (smItems m)"

definition sm_Flatten :: "go_range \<Rightarrow> txSortedMap \<Rightarrow> Transaction list \<times> txSortedMap" where
  "sm_Flatten it m = (case smCache m of
     Some c \<Rightarrow> (c, m)
   | None \<Rightarrow> let c = sort_key txNonce (map snd (it (smItems m))) in (c, m\<lparr>smCache := Some c\<rparr>))"

subsection \<open>List of an account\<close>

record txList =
  tlStrict :: bool
  tlTxs :: txSortedMap
  tlCostcap :: int
  tlGascap :: u64

definition newTxList :: "bool \<Rightarrow> txList" where
  "newTxList strict = \<lparr>tlStrict = strict, tlTxs = newTxSortedMap, tlCostcap = 0, tlGascap = 0\<rparr>"

definition tl_Overlaps :: "Transaction \<Rightarrow> txList \<Rightarrow> bool" where
  "tl_Overlaps tx l \<longleftrightarrow> sm_Get (txNonce tx) (tlTxs l) \<noteq> None"

text \<open>\<open>big.NewInt(100 + int64(priceBump))\<close>: the sum is taken in 64 bits.\<close>

definition bump_threshold :: "Transaction \<Rightarrow> u64 \<Rightarrow> int" where
  "bump_threshold old priceBump = txGasPrice old * sint (100 + priceBump) div 100"

definition tl_Add :: "Transaction \<Rightarrow> u64 \<Rightarrow> txList \<Rightarrow> (bool \<times> Transaction option) \<times> txList" where
  "tl_Add tx priceBump l =
     (let old = sm_Get (txNonce tx) (tlTxs l);
          worse = (case old of None \<Rightarrow> False | Some o' \<Rightarrow> txGasPrice o' \<ge> txGasPrice tx \<or> bump_threshold o' priceBump > txGasPrice tx)
      in if worse then ((False, old), l)
         else ((True, old), l\<lparr>tlTxs := sm_Put tx (tlTxs l),
                tlCostcap := (if tlCostcap l < txCost tx then txCost tx else tlCostcap l),
                tlGascap := (if tlGascap l < txGas tx then txGas tx else tlGascap l)\<rparr>))"

definition tl_Forward :: "u64 \<Rightarrow> txList \<Rightarrow> (Transaction option list \<times> txList) option" where
  "tl_Forward threshold l = map_option (\<lambda>(r, m). (r, l\<lparr>tlTxs := m\<rparr>)) (sm_Forward threshold (tlTxs l))"

definition lowest_nonce :: "Transaction list \<Rightarrow> u64" where
  "lowest_nonce removed = foldl (\<lambda>lowest tx. if lowest > txNonce tx then txNonce tx else lowest) 0xFFFFFFFFFFFFFFFF removed"

definition tl_Filter :: "go_range \<Rightarrow> int \<Rightarrow> u64 \<Rightarrow> txList \<Rightarrow> (Transaction list \<times> Transaction list) \<times> txList" where
  "tl_Filter it costLimit gasLimit l =
     (if tlCostcap l \<le> costLimit \<and> tlGascap l \<le> gasLimit then (([], []), l)
      else (case sm_Filter it (\<lambda>tx. txCost tx > costLimit \<or> txGas tx > gasLimit) (tlTxs l) of (removed, m) \<Rightarrow>
        let l = l\<lparr>tlCostcap := costLimit, tlGascap := gasLimit, tlTxs := m\<rparr> in
        if tlStrict l \<and> removed \<noteq> []
        then (case sm_Filter it (\<lambda>tx. txNonce tx > lowest_nonce removed) m of (invalids, m) \<Rightarrow> ((removed, invalids), l\<lparr>tlTxs := m\<rparr>))
        else ((removed, []), l)))"

definition tl_Cap :: "int \<Rightarrow> txList \<Rightarrow> (Transaction option list \<times> txList) option" where
  "tl_Cap threshold l = map_option (\<lambda>(r, m). (r, l\<lparr>tlTxs := m\<rparr>)) (sm_Cap threshold (tlTxs l))"

definition tl_Remove :: "go_range \<Rightarrow> Transaction \<Rightarrow> txList \<Rightarrow> ((bool \<times> Transaction list) \<times> txList) option" where
  "tl_Remove it tx l = do {
     (removed, m) \<leftarrow> sm_Remove (txNonce tx) (tlTxs l);
     if \<not> removed then Some ((False, []), l)
     else if tlStrict l then (case sm_Filter it (\<lambda>t. txNonce t > txNonce tx) m of (invalids, m) \<Rightarrow> Some ((True, invalids), l\<lparr>tlTxs := m\<rparr>))
     else Some ((True, []), l\<lparr>tlTxs := m\<rparr>) }"

definition tl_Ready :: "u64 \<Rightarrow> txList \<Rightarrow> (Transaction option list \<times> txList) option" where
  "tl_Ready start l = map_option (\<lambda>(r, m). (r, l\<lparr>tlTxs := m\<rparr>)) (sm_Ready start (tlTxs l))"

definition tl_Len :: "txList \<Rightarrow> nat" where
  "tl_Len l = sm_Len (tlTxs l)"

definition tl_Empty :: "txList \<Rightarrow> bool" where
  "tl_Empty l \<longleftrightarrow> tl_Len l = 0"

definition tl_Flatten :: "go_range \<Rightarrow> txList \<Rightarrow> Transaction list \<times> txList" where
  "tl_Flatten it l = (case sm_Flatten it (tlTxs l) of (r, m) \<Rightarrow> (r, l\<lparr>tlTxs := m\<rparr>))"

subsection \<open>Price-sorted heap\<close>

text \<open>\<open>txLookup\<close>: all transactions of the pool by hash. Locality of a transaction is a predicate.\<close>

type_synonym txLookup = "(hash \<times> Transaction) list"

definition price_less :: "Transaction \<Rightarrow> Transaction \<Rightarrow> bool" where
  "price_less a b \<longleftrightarrow> txGasPrice a < txGasPrice b \<or> txGasPrice a = txGasPrice b \<and> txNonce a > txNonce b"

record txPricedList =
  plItems :: "Transaction list"
  plStales :: int

definition newTxPricedList :: txPricedList where
  "newTxPricedList = \<lparr>plItems = [], plStales = 0\<rparr>"

definition pl_Put :: "Transaction \<Rightarrow> txPricedList \<Rightarrow> txPricedList" where
  "pl_Put tx l = l\<lparr>plItems := heap_Push price_less tx (plItems l)\<rparr>"

definition pl_Removed :: "(txLookup \<Rightarrow> txLookup) \<Rightarrow> txLookup \<Rightarrow> int \<Rightarrow> txPricedList \<Rightarrow> txPricedList" where
  "pl_Removed it all cnt l =
     (let stales = plStales l + cnt in
      if stales \<le> int (length (plItems l) div 4) then l\<lparr>plStales := stales\<rparr>
      else l\<lparr>plStales := 0, plItems := heap_Init price_less (map snd (it all))\<rparr>)"

function price_loop :: "txLookup \<Rightarrow> int \<Rightarrow> (Transaction \<Rightarrow> bool) \<Rightarrow> txPricedList \<Rightarrow> Transaction list \<Rightarrow> Transaction list \<Rightarrow>
    (Transaction list \<times> Transaction list \<times> txPricedList) option" where
  "price_loop all threshold local l dropped saved =
     (if plItems l = [] then Some (dropped, saved, l)
      else (case heap_Pop price_less (plItems l) of
        None \<Rightarrow> None
      | Some (tx, items) \<Rightarrow>
          if map_of all (txHash tx) = None then price_loop all threshold local (l\<lparr>plItems := items, plStales := plStales l - 1\<rparr>) dropped saved
          else if txGasPrice tx \<ge> threshold then Some (dropped, saved @ [tx], l\<lparr>plItems := items\<rparr>)
          else if local tx then price_loop all threshold local (l\<lparr>plItems := items\<rparr>) dropped (saved @ [tx])
          else price_loop all threshold local (l\<lparr>plItems := items\<rparr>) (dropped @ [tx]) saved))"
  by pat_completeness auto

termination
  by (relation "measure (\<lambda>(_, _, _, l, _). length (plItems l))") (auto dest: heap_Pop_length)

declare price_loop.simps [simp del]

definition pl_Cap :: "txLookup \<Rightarrow> int \<Rightarrow> (Transaction \<Rightarrow> bool) \<Rightarrow> txPricedList \<Rightarrow> (Transaction list \<times> txPricedList) option" where
  "pl_Cap all threshold local l = do {
     (dropped, saved, l) \<leftarrow> price_loop all threshold local l [] [];
     Some (dropped, foldl (\<lambda>l tx. pl_Put tx l) l saved) }"

function skip_stale :: "txLookup \<Rightarrow> txPricedList \<Rightarrow> txPricedList option" where
  "skip_stale all l =
     (if plItems l = [] \<or> map_of all (txHash (plItems l ! 0)) \<noteq> None then Some l
      else (case heap_Pop price_less (plItems l) of
        None \<Rightarrow> None
      | Some (tx, items) \<Rightarrow> skip_stale all (l\<lparr>plItems := items, plStales := plStales l - 1\<rparr>)))"
  by pat_completeness auto

termination
  by (relation "measure (\<lambda>(_, l). length (plItems l))") (auto dest: heap_Pop_length)

declare skip_stale.simps [simp del]

definition pl_Underpriced :: "txLookup \<Rightarrow> Transaction \<Rightarrow> (Transaction \<Rightarrow> bool) \<Rightarrow> txPricedList \<Rightarrow> (bool \<times> txPricedList) option" where
  "pl_Underpriced all tx local l =
     (if local tx then Some (False, l)
      else do {
        l \<leftarrow> skip_stale all l;
        Some (plItems l \<noteq> [] \<and> txGasPrice (plItems l ! 0) \<ge> txGasPrice tx, l) })"

function discard_loop :: "txLookup \<Rightarrow> (Transaction \<Rightarrow> bool) \<Rightarrow> int \<Rightarrow> txPricedList \<Rightarrow> Transaction list \<Rightarrow> Transaction list \<Rightarrow>
    (Transaction list \<times> Transaction list \<times> txPricedList) option" where
  "discard_loop all local cnt l dropped saved =
     (if plItems l = [] \<or> cnt \<le> 0 then Some (dropped, saved, l)
      else (case heap_Pop price_less (plItems l) of
        None \<Rightarrow> None
      | Some (tx, items) \<Rightarrow>
          if map_of all (txHash tx) = None then discard_loop all local cnt (l\<lparr>plItems := items, plStales := plStales l - 1\<rparr>) dropped saved
          else if local tx then discard_loop all local cnt (l\<lparr>plItems := items\<rparr>) dropped (saved @ [tx])
          else discard_loop all local (cnt - 1) (l\<lparr>plItems := items\<rparr>) (dropped @ [tx]) saved))"
  by pat_completeness auto

termination
  by (relation "measure (\<lambda>(_, _, _, l, _). length (plItems l))") (auto dest: heap_Pop_length)

declare discard_loop.simps [simp del]

text \<open>Making a slice of negative capacity panics.\<close>

definition pl_Discard :: "txLookup \<Rightarrow> int \<Rightarrow> (Transaction \<Rightarrow> bool) \<Rightarrow> txPricedList \<Rightarrow> (Transaction list \<times> txPricedList) option" where
  "pl_Discard all cnt local l = (if cnt < 0 then None else do {
     (dropped, saved, l) \<leftarrow> discard_loop all local cnt l [] [];
     Some (dropped, foldl (\<lambda>l tx. pl_Put tx l) l saved) })"

end
