(* ===== verification/Tx_Sorted_Map.thy ===== *)
theory Tx_Sorted_Map
  imports Tx_List
begin

text \<open>
  The nonce-sorted map (\<open>txSortedMap\<close> of \<open>evmcore/tx_list.go\<close>) is a list of transactions sorted by nonce: the
  invariant that ties the map, the heap of nonces and the cache together, what every operation does
  to the sorted list, and the refinement.
\<close>

subsection \<open>The map is a list sorted by nonce\<close>

interpretation nonce_order: heap_order nonce_less
  by unfold_locales (auto simp: nonce_less_def)

definition items_ok :: "tx_map \<Rightarrow> bool" where
  "items_ok items \<longleftrightarrow> distinct (map fst items) \<and> (\<forall>(n, tx) \<in> set items. txNonce tx = n)"

definition indexed_by :: "tx_map \<Rightarrow> u64 list \<Rightarrow> bool" where
  "indexed_by items index \<longleftrightarrow> items_ok items \<and> is_heap nonce_less index \<and> mset index = mset (map fst items)"

definition by_nonce :: "tx_map \<Rightarrow> Transaction list" where
  "by_nonce items = sort_key txNonce (map snd items)"

definition sm_inv :: "txSortedMap \<Rightarrow> bool" where
  "sm_inv m \<longleftrightarrow> indexed_by (smItems m) (smIndex m) \<and> (\<forall>c. smCache m = Some c \<longrightarrow> c = by_nonce (smItems m))"

abbreviation contents :: "txSortedMap \<Rightarrow> Transaction list" where
  "contents m \<equiv> by_nonce (smItems m)"

lemma items_nonces: "items_ok items \<Longrightarrow> map txNonce (map snd items) = map fst items"
  by (induction items) (auto simp: items_ok_def)

lemma by_nonce_sorted:
  assumes "items_ok items"
  shows "mset (by_nonce items) = mset (map snd items)" "sorted (map txNonce (by_nonce items))" "distinct (map txNonce (by_nonce items))"
proof -
  show m: "mset (by_nonce items) = mset (map snd items)" by (simp add: by_nonce_def)
  show "sorted (map txNonce (by_nonce items))" by (simp add: by_nonce_def)
  have "mset (map txNonce (by_nonce items)) = mset (map fst items)" using m items_nonces [OF assms] by (metis mset_map)
  then show "distinct (map txNonce (by_nonce items))" using assms by (metis items_ok_def mset_eq_imp_distinct_iff)
qed

lemma by_nonce_eqI:
  assumes "items_ok items" "mset xs = mset (map snd items)" "sorted (map txNonce xs)"
  shows "by_nonce items = xs"
proof -
  have "inj_on txNonce (set (map snd items))" using assms(1) items_nonces [OF assms(1)] by (metis distinct_map items_ok_def)
  then show ?thesis unfolding by_nonce_def using assms(2,3) by (intro sort_key_inj_key_eq) simp_all
qed

lemma items_ok_filter: "items_ok items \<Longrightarrow> items_ok (filter P items)"
  by (auto simp: items_ok_def distinct_map intro: inj_on_subset)

lemma delete_filter: "AList.delete n items = filter (\<lambda>(k, v). k \<noteq> n) items"
  unfolding AList.delete_eq by (rule filter_cong) auto

lemma by_nonce_filter:
  assumes "items_ok items"
  shows "by_nonce (filter (\<lambda>(n, tx). P tx) items) = filter P (by_nonce items)"
proof (rule by_nonce_eqI [OF items_ok_filter [OF assms]])
  have "map snd (filter (\<lambda>(n, tx). P tx) items) = filter P (map snd items)" by (induction items) auto
  then show "mset (filter P (by_nonce items)) = mset (map snd (filter (\<lambda>(n, tx). P tx) items))" using by_nonce_sorted(1) [OF assms] by simp
  show "sorted (map txNonce (filter P (by_nonce items)))" using by_nonce_sorted(2) [OF assms] by (rule sorted_filter)
qed

lemma delete_keys: "mset (map fst (AList.delete n items)) = filter_mset (\<lambda>k. k \<noteq> n) (mset (map fst items))"
  unfolding delete_filter by (induction items) auto

lemma delete_as_filter: "items_ok items \<Longrightarrow> AList.delete n items = filter (\<lambda>(k, tx). txNonce tx \<noteq> n) items"
  unfolding delete_filter by (rule filter_cong) (auto simp: items_ok_def)

lemma by_nonce_delete: "items_ok items \<Longrightarrow> by_nonce (AList.delete n items) = filter (\<lambda>tx. txNonce tx \<noteq> n) (by_nonce items)"
  by (simp add: delete_as_filter by_nonce_filter)

lemma items_ok_delete: "items_ok items \<Longrightarrow> items_ok (AList.delete n items)"
  by (simp add: delete_filter items_ok_filter)

lemma by_nonce_member: "items_ok items \<Longrightarrow> tx \<in> set (by_nonce items) \<longleftrightarrow> map_of items (txNonce tx) = Some tx"
proof -
  assume ok: "items_ok items"
  have "set (by_nonce items) = snd ` set items" by (simp add: by_nonce_def)
  moreover have "tx \<in> snd ` set items \<longleftrightarrow> (txNonce tx, tx) \<in> set items" using ok by (force simp: items_ok_def)
  moreover have "distinct (map fst items)" using ok by (simp add: items_ok_def)
  ultimately show ?thesis by simp
qed

lemma indexed_delete:
  assumes "indexed_by items index" "is_heap nonce_less index'" "mset index = add_mset n (mset index')"
  shows "indexed_by (AList.delete n items) index'"
proof -
  have ok: "items_ok items" and m: "mset index = mset (map fst items)" using assms(1) by (simp_all add: indexed_by_def)
  have "distinct index" using ok m by (metis items_ok_def mset_eq_imp_distinct_iff)
  then have "n \<notin> set index'" using assms(3) by (metis distinct.simps(2) mset.simps(2) mset_eq_imp_distinct_iff)
  have "mset (map fst (AList.delete n items)) = filter_mset (\<lambda>k. k \<noteq> n) (mset (map fst items))" by (rule delete_keys)
  also have "\<dots> = filter_mset (\<lambda>k. k \<noteq> n) (add_mset n (mset index'))" using m assms(3) by simp
  also have "\<dots> = mset index'" using \<open>n \<notin> set index'\<close> by (auto simp: filter_mset_eq_conv)
  finally show ?thesis using items_ok_delete [OF ok] assms(2) by (simp add: indexed_by_def)
qed

text \<open>The heap gives the transaction with the lowest nonce.\<close>

lemma pop_lowest:
  assumes ix: "indexed_by items index" and ne: "index \<noteq> []"
  shows "\<exists>tx index'. heap_Pop nonce_less index = Some (txNonce tx, index') \<and> index ! 0 = txNonce tx \<and> map_of items (txNonce tx) = Some tx \<and>
     by_nonce items = tx # by_nonce (AList.delete (txNonce tx) items) \<and> indexed_by (AList.delete (txNonce tx) items) index'"
proof -
  have ok: "items_ok items" and m: "mset index = mset (map fst items)" and hp: "is_heap nonce_less index" using ix by (simp_all add: indexed_by_def)
  obtain index' where pop: "heap_Pop nonce_less index = Some (index ! 0, index')" "is_heap nonce_less index'" "mset index = add_mset (index ! 0) (mset index')"
    "\<forall>y \<in> set index. \<not> nonce_less y (index ! 0)" using nonce_order.heap_Pop [OF hp ne] by blast
  note srt = by_nonce_sorted [OF ok]
  have nonces: "mset (map txNonce (by_nonce items)) = mset index" using srt(1) items_nonces [OF ok] m by (metis mset_map)
  then have "by_nonce items \<noteq> []" using ne by auto
  then obtain tx rest where c: "by_nonce items = tx # rest" by (cases "by_nonce items") auto
  have "txNonce tx \<in> set index" using nonces c by (metis list.set_intros(1) list.simps(9) mset_eq_setD)
  then have "index ! 0 \<le> txNonce tx" using pop(4) by (simp add: nonce_less_def not_less)
  moreover have "index ! 0 \<in> set (map txNonce (by_nonce items))" using nonces ne by (metis mset_eq_setD nth_mem length_greater_0_conv)
  then have "txNonce tx \<le> index ! 0" using srt(2) c by auto
  ultimately have low: "index ! 0 = txNonce tx" by simp
  have "txNonce t \<noteq> txNonce tx" if "t \<in> set rest" for t using srt(3) [unfolded c] imageI [OF that, of txNonce] by auto
  then have "rest = filter (\<lambda>t. txNonce t \<noteq> txNonce tx) (by_nonce items)" unfolding c by simp
  then have "by_nonce items = tx # by_nonce (AList.delete (txNonce tx) items)" using c by_nonce_delete [OF ok] by simp
  moreover have "map_of items (txNonce tx) = Some tx" using by_nonce_member [OF ok, of tx] c by simp
  moreover have "indexed_by (AList.delete (txNonce tx) items) index'" using indexed_delete [OF ix pop(2,3)] low by simp
  ultimately show ?thesis using pop(1) low by auto
qed

lemma pop_empty: "indexed_by items index \<Longrightarrow> index = [] \<longleftrightarrow> by_nonce items = []"
proof -
  assume ix: "indexed_by items index"
  then have "length (by_nonce items) = length index" using size_mset [of index] by (simp add: indexed_by_def by_nonce_def)
  then show ?thesis by (metis length_0_conv)
qed

lemma forward_loop_spec:
  "indexed_by items index \<Longrightarrow> \<exists>items' index'. forward_loop t items index removed =
      Some (removed @ map Some (takeWhile (\<lambda>tx. txNonce tx < t) (by_nonce items)), items', index') \<and>
      indexed_by items' index' \<and> by_nonce items' = dropWhile (\<lambda>tx. txNonce tx < t) (by_nonce items)"
proof (induction "length index" arbitrary: items index removed rule: less_induct)
  case less
  show ?case
  proof (cases "index = []")
    case True
    then show ?thesis using less.prems pop_empty [OF less.prems] by (subst forward_loop.simps) auto
  next
    case False
    obtain tx index' where p: "heap_Pop nonce_less index = Some (txNonce tx, index')" "index ! 0 = txNonce tx" "map_of items (txNonce tx) = Some tx"
      "by_nonce items = tx # by_nonce (AList.delete (txNonce tx) items)" "indexed_by (AList.delete (txNonce tx) items) index'"
      using pop_lowest [OF less.prems False] by blast
    show ?thesis
    proof (cases "txNonce tx < t")
      case True
      have "length index' < length index" using heap_Pop_length [OF p(1)] .
      from less.hyps [OF this p(5), of "removed @ [Some tx]"] obtain items' ix' where
        "forward_loop t (AList.delete (txNonce tx) items) index' (removed @ [Some tx]) =
          Some ((removed @ [Some tx]) @ map Some (takeWhile (\<lambda>tx. txNonce tx < t) (by_nonce (AList.delete (txNonce tx) items))), items', ix')"
        "indexed_by items' ix'" "by_nonce items' = dropWhile (\<lambda>tx. txNonce tx < t) (by_nonce (AList.delete (txNonce tx) items))" by blast
      moreover have "forward_loop t items index removed = forward_loop t (AList.delete (txNonce tx) items) index' (removed @ [Some tx])"
        using False True p(1-3) by (subst forward_loop.simps) simp
      ultimately show ?thesis using p(4) True by (intro exI [of _ items'] exI [of _ ix']) simp
    next
      case stop: False
      then have "forward_loop t items index removed = Some (removed, items, index)" using p(2) by (subst forward_loop.simps) simp
      then show ?thesis using p(4) stop less.prems by (intro exI [of _ items] exI [of _ index]) simp
    qed
  qed
qed

text \<open>The run of consecutive nonces at the front of a list.\<close>

fun consecutive :: "u64 \<Rightarrow> Transaction list \<Rightarrow> nat" where
  "consecutive n [] = 0"
| "consecutive n (tx # txs) = (if txNonce tx = n then Suc (consecutive (n + 1) txs) else 0)"

lemma ready_loop_spec:
  "indexed_by items index \<Longrightarrow> \<exists>items' index'. ready_loop n items index ready =
      Some (ready @ map Some (take (consecutive n (by_nonce items)) (by_nonce items)), items', index') \<and>
      indexed_by items' index' \<and> by_nonce items' = drop (consecutive n (by_nonce items)) (by_nonce items)"
proof (induction "length index" arbitrary: n items index ready rule: less_induct)
  case less
  show ?case
  proof (cases "index = []")
    case True
    then show ?thesis using less.prems pop_empty [OF less.prems] by (subst ready_loop.simps) auto
  next
    case False
    obtain tx index' where p: "heap_Pop nonce_less index = Some (txNonce tx, index')" "index ! 0 = txNonce tx" "map_of items (txNonce tx) = Some tx"
      "by_nonce items = tx # by_nonce (AList.delete (txNonce tx) items)" "indexed_by (AList.delete (txNonce tx) items) index'"
      using pop_lowest [OF less.prems False] by blast
    let ?rest = "AList.delete (txNonce tx) items"
    show ?thesis
    proof (cases "txNonce tx = n")
      case True
      have "length index' < length index" using heap_Pop_length [OF p(1)] .
      from less.hyps [OF this p(5), of "n + 1" "ready @ [Some tx]"] obtain items' ix' where
        "ready_loop (n + 1) ?rest index' (ready @ [Some tx]) = Some ((ready @ [Some tx]) @ map Some (take (consecutive (n + 1) (by_nonce ?rest)) (by_nonce ?rest)), items', ix')"
        "indexed_by items' ix'" "by_nonce items' = drop (consecutive (n + 1) (by_nonce ?rest)) (by_nonce ?rest)" by blast
      moreover have "ready_loop n items index ready = ready_loop (n + 1) ?rest index' (ready @ [Some tx])"
        using False True p(1-3) by (subst ready_loop.simps) simp
      ultimately show ?thesis using p(4) True by (intro exI [of _ items'] exI [of _ ix']) simp
    next
      case stop: False
      then have "ready_loop n items index ready = Some (ready, items, index)" using p(2) by (subst ready_loop.simps) simp
      moreover have "consecutive n (by_nonce items) = 0" using p(4) stop by (metis consecutive.simps(2))
      ultimately show ?thesis using less.prems by (intro exI [of _ items] exI [of _ index]) simp
    qed
  qed
qed

lemma indexed_sorted: "indexed_by items index \<Longrightarrow> sort index = map txNonce (by_nonce items)"
proof -
  assume ix: "indexed_by items index"
  then have ok: "items_ok items" by (simp add: indexed_by_def)
  have "mset (map txNonce (by_nonce items)) = mset index" using by_nonce_sorted(1) [OF ok] items_nonces [OF ok] ix by (metis indexed_by_def mset_map)
  then show ?thesis using by_nonce_sorted(2) [OF ok] by (metis properties_for_sort)
qed

text \<open>\<open>Cap\<close> takes the transactions from the back of the sorted nonces.\<close>

lemma cap_loop_spec:
  assumes "items_ok items"
  shows "k \<le> length xs \<Longrightarrow> by_nonce items = take k xs \<Longrightarrow> t \<le> k \<Longrightarrow>
     \<exists>items'. cap_loop (map txNonce xs) t k items drops = Some (drops @ map Some (rev (drop t (take k xs))), items') \<and> items_ok items' \<and> by_nonce items' = take t xs"
  using assms
proof (induction k arbitrary: items drops)
  case (Suc k)
  show ?case
  proof (cases "Suc k \<le> t")
    case True
    then have "t = Suc k" using Suc.prems(3) by simp
    then show ?thesis using Suc.prems by (intro exI [of _ items]) simp
  next
    case False
    let ?tx = "xs ! k"
    have split: "take (Suc k) xs = take k xs @ [?tx]" using Suc.prems(1) by (simp add: take_Suc_conv_app_nth)
    have mem: "map_of items (txNonce ?tx) = Some ?tx" using by_nonce_member [OF Suc.prems(4), of ?tx] Suc.prems(2) split by simp
    have d: "distinct (map txNonce (take k xs @ [?tx]))" using by_nonce_sorted(3) [OF Suc.prems(4)] unfolding Suc.prems(2) split .
    have "txNonce t \<noteq> txNonce ?tx" if "t \<in> set (take k xs)" for t using d imageI [OF that, of txNonce] by auto
    then have del: "by_nonce (AList.delete (txNonce ?tx) items) = take k xs" using by_nonce_delete [OF Suc.prems(4)] Suc.prems(2) split by simp
    have pre: "k \<le> length xs" "t \<le> k" using Suc.prems(1) False by simp_all
    obtain items' where ih: "cap_loop (map txNonce xs) t k (AList.delete (txNonce ?tx) items) (drops @ [Some ?tx]) = Some ((drops @ [Some ?tx]) @ map Some (rev (drop t (take k xs))), items')"
      "items_ok items'" "by_nonce items' = take t xs" using Suc.IH [OF pre(1) del pre(2) items_ok_delete [OF Suc.prems(4)]] by blast
    have "cap_loop (map txNonce xs) t (Suc k) items drops = cap_loop (map txNonce xs) t k (AList.delete (txNonce ?tx) items) (drops @ [Some ?tx])"
      using False Suc.prems(1) mem by simp
    moreover have "rev (drop t (take (Suc k) xs)) = ?tx # rev (drop t (take k xs))" unfolding split using pre Suc.prems(1) by simp
    ultimately show ?thesis using ih by (intro exI [of _ items']) simp
  qed
qed simp

lemma filter_fold:
  "foldl (filter_step f) (removed, items) es = (removed @ filter f (map snd es), foldl (\<lambda>items e. if f (snd e) then AList.delete (fst e) items else items) items es)"
  by (induction es arbitrary: removed items) (auto simp: filter_step_def)

lemma filter_deletes:
  "foldl (\<lambda>items e. if f (snd e) then AList.delete (fst e) items else items) items es = filter (\<lambda>(k, v). k \<notin> fst ` {e \<in> set es. f (snd e)}) items"
proof (induction es arbitrary: items)
  case (Cons e es)
  then show ?case by (auto simp: delete_filter intro!: filter_cong)
qed (simp add: case_prod_beta)

lemma sm_Filter_spec:
  assumes "range_order it" "sm_inv m"
  shows "sm_inv (snd (sm_Filter it f m)) \<and> contents (snd (sm_Filter it f m)) = filter (\<lambda>tx. \<not> f tx) (contents m) \<and>
     mset (fst (sm_Filter it f m)) = mset (filter f (contents m))"
proof -
  let ?items = "smItems m" and ?it = "it (smItems m)"
  have ok: "items_ok ?items" and ix: "indexed_by ?items (smIndex m)" using assms(2) by (simp_all add: sm_inv_def indexed_by_def)
  have it: "mset (it xs) = mset xs" for xs using assms(1) by (simp add: range_order_def)
  have set_it: "set ?it = set ?items" using it by (metis mset_eq_setD)
  let ?left = "filter (\<lambda>(k, tx). \<not> f tx) ?items" and ?gone = "filter f (map snd ?it)"
  have "k \<notin> fst ` {e \<in> set ?it. f (snd e)} \<longleftrightarrow> \<not> f tx" if "(k, tx) \<in> set ?items" for k tx
  proof -
    have "e = (k, tx)" if "e \<in> set ?items" "fst e = k" for e
      using that \<open>(k, tx) \<in> set ?items\<close> ok by (metis eq_key_imp_eq_value items_ok_def prod.collapse)
    then have same: "f tx" if "e \<in> set ?items" "f (snd e)" "fst e = k" for e using that by (metis snd_conv)
    show ?thesis
    proof (intro iffI notI)
      assume "k \<notin> fst ` {e \<in> set ?it. f (snd e)}" "f tx"
      then show False using that unfolding set_it by (metis (mono_tags, lifting) fst_conv image_eqI mem_Collect_eq snd_conv)
    next
      assume "\<not> f tx" "k \<in> fst ` {e \<in> set ?it. f (snd e)}"
      then show False using same unfolding set_it by blast
    qed
  qed
  then have left: "filter (\<lambda>(k, v). k \<notin> fst ` {e \<in> set ?it. f (snd e)}) ?items = ?left" by (intro filter_cong) auto
  have run: "foldl (filter_step f) ([], ?items) ?it = (?gone, ?left)" by (simp add: filter_fold filter_deletes left)
  have gone: "mset ?gone = mset (filter f (contents m))" using it by_nonce_sorted(1) [OF ok] by (metis mset_filter mset_map)
  have cont: "by_nonce ?left = filter (\<lambda>tx. \<not> f tx) (contents m)" using by_nonce_filter [OF ok, of "\<lambda>tx. \<not> f tx"] by simp
  show ?thesis
  proof (cases "?gone = []")
    case True
    then have "\<forall>tx \<in> set (contents m). \<not> f tx" using gone by (metis filter_empty_conv mset_zero_iff)
    then have "by_nonce ?left = contents m" using cont by simp
    moreover have "?left = ?items" using True set_it by (auto simp: filter_empty_conv intro!: filter_True)
    ultimately show ?thesis using run True assms(2) gone cont by (simp add: sm_Filter_def)
  next
    case False
    have "mset (map fst (it ?left)) = mset (map fst ?left)" using it by simp
    then have "indexed_by ?left (heap_Init nonce_less (map fst (it ?left)))"
      using nonce_order.heap_Init [of "map fst (it ?left)"] items_ok_filter [OF ok] by (simp add: indexed_by_def)
    with run False gone cont show ?thesis by (simp add: sm_Filter_def sm_inv_def)
  qed
qed

lemma update_perm:
  assumes "items_ok items"
  shows "mset (AList.update (txNonce tx) tx items) = add_mset (txNonce tx, tx) (mset (AList.delete (txNonce tx) items))"
  using assms
proof (induction items)
  case (Cons e items)
  obtain k v where e: "e = (k, v)" by fastforce
  have ok: "items_ok items" "k \<notin> fst ` set items" using Cons.prems e by (auto simp: items_ok_def)
  show ?case
  proof (cases "k = txNonce tx")
    case True
    have "filter (\<lambda>(k', v). k' \<noteq> k) items = items" using ok(2) by (intro filter_True) force
    with True e show ?thesis by (simp add: delete_filter)
  next
    case False
    with Cons.IH [OF ok(1)] e show ?thesis by (simp add: delete_filter)
  qed
qed (simp add: delete_filter)

lemma sm_Put_spec:
  assumes "sm_inv m"
  shows "sm_inv (sm_Put tx m) \<and> contents (sm_Put tx m) = insort_key txNonce tx (filter (\<lambda>t. txNonce t \<noteq> txNonce tx) (contents m))"
proof -
  let ?n = "txNonce tx" and ?items = "smItems m" let ?new = "AList.update ?n tx ?items"
  have ok: "items_ok ?items" and ix: "is_heap nonce_less (smIndex m)" "mset (smIndex m) = mset (map fst ?items)" using assms by (simp_all add: sm_inv_def indexed_by_def)
  note perm = update_perm [OF ok, of tx]
  have "set ?new = insert (?n, tx) (set (AList.delete ?n ?items))" using perm by (metis set_mset_add_mset_insert set_mset_mset)
  then have ok': "items_ok ?new" using ok distinct_update [of ?items ?n tx] by (auto simp: items_ok_def delete_filter)
  have keys: "mset (map fst ?new) = add_mset ?n (filter_mset (\<lambda>k. k \<noteq> ?n) (mset (map fst ?items)))"
  proof -
    have "mset (map fst ?new) = add_mset ?n (mset (map fst (AList.delete ?n ?items)))" using perm by simp
    then show ?thesis unfolding delete_keys .
  qed
  have dk: "distinct (map fst ?items)" using ok by (simp add: items_ok_def)
  have ix': "indexed_by ?new (smIndex (sm_Put tx m))"
  proof (cases "map_of ?items ?n")
    case None
    then have "?n \<notin> set (map fst ?items)" by (simp add: map_of_eq_None_iff)
    then have "filter (\<lambda>k. k \<noteq> ?n) (map fst ?items) = map fst ?items" by (intro filter_True) blast
    then have "filter_mset (\<lambda>k. k \<noteq> ?n) (mset (map fst ?items)) = mset (map fst ?items)" by (metis mset_filter)
    with None keys ok' nonce_order.heap_Push [OF ix(1), of ?n] ix(2) show ?thesis by (simp add: indexed_by_def sm_Put_def)
  next
    case (Some v)
    then have mem: "?n \<in># mset (map fst ?items)" by (force dest: map_of_SomeD)
    have "count (mset (map fst ?items)) ?n = 1" using dk mem by (metis distinct_count_atmost_1 set_mset_mset)
    then have "add_mset ?n (filter_mset (\<lambda>k. k \<noteq> ?n) (mset (map fst ?items))) = mset (map fst ?items)" by (intro multiset_eqI) auto
    with Some keys ok' ix show ?thesis by (simp add: indexed_by_def sm_Put_def)
  qed
  have "by_nonce ?new = insort_key txNonce tx (filter (\<lambda>t. txNonce t \<noteq> ?n) (contents m))"
  proof (rule by_nonce_eqI [OF ok'])
    have "mset (map snd ?new) = add_mset tx (mset (map snd (AList.delete ?n ?items)))" using perm by simp
    also have "mset (map snd (AList.delete ?n ?items)) = mset (filter (\<lambda>t. txNonce t \<noteq> ?n) (contents m))"
      using by_nonce_sorted(1) [OF items_ok_delete [OF ok]] by_nonce_delete [OF ok] by metis
    finally show "mset (insort_key txNonce tx (filter (\<lambda>t. txNonce t \<noteq> ?n) (contents m))) = mset (map snd ?new)" by simp
    show "sorted (map txNonce (insort_key txNonce tx (filter (\<lambda>t. txNonce t \<noteq> ?n) (contents m))))"
      using by_nonce_sorted(2) [OF ok] by (simp add: sorted_insort_key sorted_filter)
  qed
  then show ?thesis using ix' by (simp add: sm_inv_def) (simp add: sm_Put_def)
qed

lemma split_below:
  "sorted (map txNonce xs) \<Longrightarrow> takeWhile (\<lambda>tx. txNonce tx < t) xs = filter (\<lambda>tx. txNonce tx < t) xs \<and> dropWhile (\<lambda>tx. txNonce tx < t) xs = filter (\<lambda>tx. \<not> txNonce tx < t) xs"
proof (induction xs)
  case (Cons x xs)
  show ?case
  proof (cases "txNonce x < t")
    case False
    then have "\<forall>y \<in> set xs. \<not> txNonce y < t" using Cons.prems by (auto simp: not_less intro: order_trans)
    with False show ?thesis by simp
  qed (use Cons in simp)
qed simp

lemma sm_Forward_spec:
  assumes "sm_inv m"
  shows "\<exists>m'. sm_Forward t m = Some (map Some (filter (\<lambda>tx. txNonce tx < t) (contents m)), m') \<and> sm_inv m' \<and> contents m' = filter (\<lambda>tx. \<not> txNonce tx < t) (contents m)"
proof -
  have ix: "indexed_by (smItems m) (smIndex m)" and ok: "items_ok (smItems m)" using assms by (simp_all add: sm_inv_def indexed_by_def)
  obtain items index where r: "forward_loop t (smItems m) (smIndex m) [] = Some (map Some (takeWhile (\<lambda>tx. txNonce tx < t) (contents m)), items, index)"
    "indexed_by items index" "by_nonce items = dropWhile (\<lambda>tx. txNonce tx < t) (contents m)" using forward_loop_spec [OF ix, of t "[]"] by auto
  note srt = by_nonce_sorted(2) [OF ok]
  have split: "takeWhile (\<lambda>tx. txNonce tx < t) (contents m) = filter (\<lambda>tx. txNonce tx < t) (contents m)"
    "dropWhile (\<lambda>tx. txNonce tx < t) (contents m) = filter (\<lambda>tx. \<not> txNonce tx < t) (contents m)" using split_below [OF srt] by blast+
  let ?k = "length (takeWhile (\<lambda>tx. txNonce tx < t) (contents m))"
  have "drop ?k (contents m) = by_nonce items" "?k \<le> length (contents m)" using r(3) by (simp_all add: dropWhile_eq_drop length_takeWhile_le)
  with r assms split show ?thesis by (cases "smCache m") (auto simp: sm_Forward_def sm_inv_def)
qed

lemma sm_Cap_spec:
  assumes "sm_inv m"
  shows "\<exists>m'. sm_Cap (int t) m = Some (map Some (rev (drop t (contents m))), m') \<and> sm_inv m' \<and> contents m' = take t (contents m)"
proof -
  have ix: "indexed_by (smItems m) (smIndex m)" and ok: "items_ok (smItems m)" using assms by (simp_all add: sm_inv_def indexed_by_def)
  have len: "length (contents m) = length (smItems m)" by (simp add: by_nonce_def)
  show ?thesis
  proof (cases "length (smItems m) \<le> t")
    case True
    then show ?thesis using assms len by (intro exI [of _ m]) (simp add: sm_Cap_def)
  next
    case False
    have k: "length (smItems m) \<le> length (contents m)" "contents m = take (length (smItems m)) (contents m)" "t \<le> length (smItems m)" using len False by simp_all
    obtain items where c: "cap_loop (map txNonce (contents m)) t (length (smItems m)) (smItems m) [] = Some ([] @ map Some (rev (drop t (take (length (smItems m)) (contents m)))), items)"
      "items_ok items" "by_nonce items = take t (contents m)" using cap_loop_spec [OF ok k] by blast
    have run: "cap_loop (sort (smIndex m)) t (length (smItems m)) (smItems m) [] = Some (map Some (rev (drop t (contents m))), items)"
      using c(1) k(2) indexed_sorted [OF ix] by simp
    let ?index = "take t (sort (smIndex m))"
    have "?index = map txNonce (by_nonce items)" using c(3) indexed_sorted [OF ix] by (simp add: take_map)
    then have "mset ?index = mset (map fst items)" using by_nonce_sorted(1) [OF c(2)] items_nonces [OF c(2)] by (metis mset_map)
    then have ix': "indexed_by items (heap_Init nonce_less ?index)" using nonce_order.heap_Init [of ?index] c(2) by (simp add: indexed_by_def)
    have "length (smIndex m) = length (smItems m)" using ix by (metis indexed_by_def length_map mset_eq_length)
    then have sub: "slice_sub (sort (smIndex m)) 0 t = Some ?index" using k(3) by (simp add: slice_sub_def)
    have cache: "\<And>c. smCache m = Some c \<Longrightarrow> c = contents m" using assms by (simp add: sm_inv_def)
    let ?m = "m\<lparr>smItems := items, smIndex := heap_Init nonce_less ?index, smCache := map_option (take t) (smCache m)\<rparr>"
    have "sm_Cap (int t) m = Some (map Some (rev (drop t (contents m))), ?m)"
      using False run sub cache len k(3) by (cases "smCache m") (auto simp: sm_Cap_def)
    moreover have "sm_inv ?m" using ix' cache c(3) by (auto simp: sm_inv_def)
    ultimately show ?thesis using c(3) by (intro exI [of _ ?m]) simp
  qed
qed

lemma sm_Remove_spec:
  assumes "sm_inv m"
  shows "\<exists>m'. sm_Remove n m = Some (n \<in> txNonce ` set (contents m), m') \<and> sm_inv m' \<and> contents m' = filter (\<lambda>tx. txNonce tx \<noteq> n) (contents m)"
proof -
  have ix: "indexed_by (smItems m) (smIndex m)" and ok: "items_ok (smItems m)" using assms by (simp_all add: sm_inv_def indexed_by_def)
  have mem: "map_of (smItems m) n \<noteq> None \<longleftrightarrow> n \<in> txNonce ` set (contents m)"
  proof -
    have "map_of (smItems m) n \<noteq> None \<longleftrightarrow> n \<in> set (map fst (smItems m))" by (auto simp: map_of_eq_None_iff)
    also have "set (map fst (smItems m)) = txNonce ` set (contents m)" using items_nonces [OF ok] by (metis by_nonce_def list.set_map set_sort)
    finally show ?thesis .
  qed
  show ?thesis
  proof (cases "map_of (smItems m) n")
    case None
    then have "n \<notin> txNonce ` set (contents m)" using mem by simp
    then have "filter (\<lambda>tx. txNonce tx \<noteq> n) (contents m) = contents m" by (intro filter_True) auto
    with None mem assms show ?thesis by (intro exI [of _ m]) (simp add: sm_Remove_def)
  next
    case (Some tx)
    let ?i = "length (takeWhile (\<lambda>x. x \<noteq> n) (smIndex m))"
    have "n \<in> set (map fst (smItems m))" using map_of_SomeD [OF Some] by force
    then have "n \<in> set (smIndex m)" using ix by (metis indexed_by_def mset_eq_setD)
    then have "takeWhile (\<lambda>x. x \<noteq> n) (smIndex m) \<noteq> smIndex m" by (auto simp: takeWhile_eq_all_conv)
    then have i: "?i < length (smIndex m)" by (metis length_takeWhile_le nat_less_le take_all takeWhile_eq_take order_refl)
    have n: "smIndex m ! ?i = n" using nth_length_takeWhile [OF i] by simp
    obtain index where r: "heap_Remove nonce_less ?i (smIndex m) = Some (n, index)" "is_heap nonce_less index" "mset (smIndex m) = add_mset n (mset index)"
      using nonce_order.heap_Remove [OF _ i] ix n by (auto simp: indexed_by_def)
    have "indexed_by (AList.delete n (smItems m)) index" using indexed_delete [OF ix r(2,3)] .
    then show ?thesis using Some mem r(1) i by_nonce_delete [OF ok, of n] by (auto simp: sm_Remove_def sm_inv_def)
  qed
qed

lemma sm_Ready_spec:
  assumes "sm_inv m"
  shows "let L = contents m; k = (if L = [] \<or> txNonce (hd L) > s then 0 else consecutive (txNonce (hd L)) L) in
     \<exists>m'. sm_Ready s m = Some (map Some (take k L), m') \<and> sm_inv m' \<and> contents m' = drop k L"
proof -
  have ix: "indexed_by (smItems m) (smIndex m)" using assms by (simp add: sm_inv_def)
  show ?thesis
  proof (cases "smIndex m = []")
    case True
    then show ?thesis using assms pop_empty [OF ix] by (simp add: sm_Ready_def)
  next
    case False
    have hd: "smIndex m ! 0 = txNonce (hd (contents m))" "contents m \<noteq> []" using pop_lowest [OF ix False] by auto
    obtain items index where r: "ready_loop (smIndex m ! 0) (smItems m) (smIndex m) [] = Some (map Some (take (consecutive (smIndex m ! 0) (contents m)) (contents m)), items, index)"
      "indexed_by items index" "by_nonce items = drop (consecutive (smIndex m ! 0) (contents m)) (contents m)" using ready_loop_spec [OF ix, of "smIndex m ! 0" "[]"] by auto
    show ?thesis
    proof (cases "smIndex m ! 0 > s")
      case True
      then show ?thesis using assms hd False by (simp add: sm_Ready_def Let_def)
    next
      case stop: False
      have "sm_Ready s m = Some (map Some (take (consecutive (smIndex m ! 0) (contents m)) (contents m)), m\<lparr>smItems := items, smIndex := index, smCache := None\<rparr>)"
        using False stop r(1) by (simp add: sm_Ready_def)
      with stop hd r(2,3) show ?thesis by (auto simp: Let_def sm_inv_def)
    qed
  qed
qed

lemma sm_Flatten_spec:
  assumes "range_order it" "sm_inv m"
  shows "fst (sm_Flatten it m) = contents m \<and> sm_inv (snd (sm_Flatten it m)) \<and> contents (snd (sm_Flatten it m)) = contents m"
proof -
  have ok: "items_ok (smItems m)" using assms(2) by (simp add: sm_inv_def indexed_by_def)
  have "mset (sort_key txNonce (map snd (it (smItems m)))) = mset (map snd (smItems m))" using assms(1) by (simp add: range_order_def)
  then have "sort_key txNonce (map snd (it (smItems m))) = contents m" using by_nonce_eqI [OF ok] by (metis sorted_sort_key)
  with assms(2) show ?thesis by (cases "smCache m") (auto simp: sm_Flatten_def sm_inv_def Let_def)
qed

datatype sm_op = OpPut Transaction | OpForward u64 | OpFilter "Transaction \<Rightarrow> bool" | OpCap nat | OpRemove u64 | OpReady u64 | OpFlatten | OpGet u64 | OpLen

datatype sm_res = ResDone | ResTxs "Transaction option list" | ResBag "Transaction list" | ResFound bool | ResTx "Transaction option" | ResLen nat

fun sm_exec :: "go_range \<Rightarrow> sm_op \<Rightarrow> txSortedMap \<Rightarrow> (sm_res \<times> txSortedMap) option" where
  "sm_exec it (OpPut tx) m = Some (ResDone, sm_Put tx m)"
| "sm_exec it (OpForward t) m = map_option (apfst ResTxs) (sm_Forward t m)"
| "sm_exec it (OpFilter f) m = Some (apfst ResBag (sm_Filter it f m))"
| "sm_exec it (OpCap t) m = map_option (apfst ResTxs) (sm_Cap (int t) m)"
| "sm_exec it (OpRemove n) m = map_option (apfst ResFound) (sm_Remove n m)"
| "sm_exec it (OpReady n) m = map_option (apfst ResTxs) (sm_Ready n m)"
| "sm_exec it OpFlatten m = Some (apfst (ResTxs \<circ> map Some) (sm_Flatten it m))"
| "sm_exec it (OpGet n) m = Some (ResTx (sm_Get n m), m)"
| "sm_exec it OpLen m = Some (ResLen (sm_Len m), m)"

text \<open>The same on a list of transactions sorted by nonce.\<close>

fun list_exec :: "sm_op \<Rightarrow> Transaction list \<Rightarrow> sm_res \<times> Transaction list" where
  "list_exec (OpPut tx) L = (ResDone, insort_key txNonce tx (filter (\<lambda>t. txNonce t \<noteq> txNonce tx) L))"
| "list_exec (OpForward t) L = (ResTxs (map Some (filter (\<lambda>tx. txNonce tx < t) L)), filter (\<lambda>tx. \<not> txNonce tx < t) L)"
| "list_exec (OpFilter f) L = (ResBag (filter f L), filter (\<lambda>tx. \<not> f tx) L)"
| "list_exec (OpCap t) L = (ResTxs (map Some (rev (drop t L))), take t L)"
| "list_exec (OpRemove n) L = (ResFound (n \<in> txNonce ` set L), filter (\<lambda>tx. txNonce tx \<noteq> n) L)"
| "list_exec (OpReady s) L = (let k = (if L = [] \<or> txNonce (hd L) > s then 0 else consecutive (txNonce (hd L)) L) in (ResTxs (map Some (take k L)), drop k L))"
| "list_exec OpFlatten L = (ResTxs (map Some L), L)"
| "list_exec (OpGet n) L = (ResTx (find (\<lambda>tx. txNonce tx = n) L), L)"
| "list_exec OpLen L = (ResLen (length L), L)"

text \<open>The order in which \<open>Filter\<close> returns transactions is not determined.\<close>

fun same_res :: "sm_res \<Rightarrow> sm_res \<Rightarrow> bool" where
  "same_res (ResBag xs) (ResBag ys) \<longleftrightarrow> mset xs = mset ys"
| "same_res r r' \<longleftrightarrow> r = r'"

lemma same_res_refl [simp]: "same_res r r"
  by (cases r) simp_all

lemma sm_Get_spec:
  assumes "sm_inv m"
  shows "sm_Get n m = find (\<lambda>tx. txNonce tx = n) (contents m)"
proof (cases "find (\<lambda>tx. txNonce tx = n) (contents m)")
  case None
  have ok: "items_ok (smItems m)" using assms by (simp add: sm_inv_def indexed_by_def)
  have "map_of (smItems m) n = None"
  proof (rule ccontr)
    assume "map_of (smItems m) n \<noteq> None"
    then obtain tx where tx: "map_of (smItems m) n = Some tx" by blast
    then have "txNonce tx = n" using map_of_SomeD [OF tx] ok by (auto simp: items_ok_def)
    with tx have "tx \<in> set (contents m)" using by_nonce_member [OF ok] by simp
    with None \<open>txNonce tx = n\<close> show False by (simp add: find_None_iff)
  qed
  with None show ?thesis by (simp add: sm_Get_def)
next
  case (Some tx)
  have ok: "items_ok (smItems m)" using assms by (simp add: sm_inv_def indexed_by_def)
  have "tx \<in> set (contents m)" "txNonce tx = n" using Some by (auto simp: find_Some_iff)
  with Some show ?thesis using by_nonce_member [OF ok, of tx] by (simp add: sm_Get_def)
qed

lemma sm_exec_spec:
  assumes "range_order it" "sm_inv m"
  shows "\<exists>r m'. sm_exec it op m = Some (r, m') \<and> sm_inv m' \<and> contents m' = snd (list_exec op (contents m)) \<and> same_res r (fst (list_exec op (contents m)))"
proof (cases op)
  case (OpPut tx)
  then show ?thesis using sm_Put_spec [OF assms(2), of tx] by simp
next
  case (OpForward t)
  then show ?thesis using sm_Forward_spec [OF assms(2), of t] by auto
next
  case (OpFilter f)
  obtain r m' where r: "sm_Filter it f m = (r, m')" by fastforce
  with OpFilter show ?thesis using sm_Filter_spec [OF assms, of f] by simp
next
  case (OpCap t)
  then show ?thesis using sm_Cap_spec [OF assms(2), of t] by auto
next
  case (OpRemove n)
  then show ?thesis using sm_Remove_spec [OF assms(2), of n] by auto
next
  case (OpReady s)
  then show ?thesis using sm_Ready_spec [OF assms(2), of s] by (auto simp: Let_def)
next
  case OpFlatten
  obtain r m' where r: "sm_Flatten it m = (r, m')" by fastforce
  with OpFlatten show ?thesis using sm_Flatten_spec [OF assms] by simp
next
  case (OpGet n)
  then show ?thesis using assms(2) sm_Get_spec [OF assms(2), of n] by simp
next
  case OpLen
  have "sm_Len m = length (contents m)" by (simp add: sm_Len_def by_nonce_def)
  with OpLen show ?thesis using assms(2) by simp
qed

fun sm_run :: "go_range \<Rightarrow> sm_op list \<Rightarrow> txSortedMap \<Rightarrow> (sm_res list \<times> txSortedMap) option" where
  "sm_run it [] m = Some ([], m)"
| "sm_run it (op # ops) m = do { (r, m) \<leftarrow> sm_exec it op m; (rs, m) \<leftarrow> sm_run it ops m; Some (r # rs, m) }"

fun list_run :: "sm_op list \<Rightarrow> Transaction list \<Rightarrow> sm_res list \<times> Transaction list" where
  "list_run [] L = ([], L)"
| "list_run (op # ops) L = (case list_exec op L of (r, L) \<Rightarrow> case list_run ops L of (rs, L) \<Rightarrow> (r # rs, L))"

lemma sm_run_spec:
  assumes "range_order it"
  shows "sm_inv m \<Longrightarrow> \<exists>rs m'. sm_run it ops m = Some (rs, m') \<and> sm_inv m' \<and> contents m' = snd (list_run ops (contents m)) \<and> list_all2 same_res rs (fst (list_run ops (contents m)))"
proof (induction ops arbitrary: m)
  case (Cons op ops)
  obtain r m1 where 1: "sm_exec it op m = Some (r, m1)" "sm_inv m1" "contents m1 = snd (list_exec op (contents m))" "same_res r (fst (list_exec op (contents m)))"
    using sm_exec_spec [OF assms Cons.prems] by blast
  obtain rs m2 where 2: "sm_run it ops m1 = Some (rs, m2)" "sm_inv m2" "contents m2 = snd (list_run ops (contents m1))" "list_all2 same_res rs (fst (list_run ops (contents m1)))"
    using Cons.IH [OF 1(2)] by blast
  with 1 show ?case by (auto simp: case_prod_beta)
qed simp

lemma sm_inv_new: "sm_inv newTxSortedMap" "contents newTxSortedMap = []"
  by (simp_all add: sm_inv_def newTxSortedMap_def indexed_by_def items_ok_def heap_from_def by_nonce_def)


definition sample_tx :: "u64 \<Rightarrow> int \<Rightarrow> Transaction" where
  "sample_tx n price = \<lparr>txNonce = n, txGasPrice = price, txGas = 21000, txCost = price * 21000, txHash = [of_nat (unat n), of_int price]\<rparr>"


end
