(* ===== verification/Tx_Account.thy ===== *)
theory Tx_Account
  imports Tx_Sorted_Map
begin

text \<open>
  The list of an account (\<open>txList\<close> of \<open>evmcore/tx_list.go\<close>): its invariant, kept by every operation, and
  what \<open>Filter\<close> and \<open>Remove\<close> take out of it.
\<close>

definition tl_inv :: "txList \<Rightarrow> bool" where
  "tl_inv l \<longleftrightarrow> sm_inv (tlTxs l) \<and> (\<forall>tx \<in> set (contents (tlTxs l)). txCost tx \<le> tlCostcap l \<and> txGas tx \<le> tlGascap l)"

abbreviation txs_of :: "txList \<Rightarrow> Transaction list" where
  "txs_of l \<equiv> contents (tlTxs l)"

lemma tl_inv_subset:
  assumes "tl_inv l" "sm_inv m" "set (contents m) \<subseteq> set (txs_of l)"
  shows "tl_inv (l\<lparr>tlTxs := m\<rparr>)"
  using assms by (auto simp: tl_inv_def)

lemma tl_inv_sm: "tl_inv l \<Longrightarrow> sm_inv (tlTxs l)"
  by (simp add: tl_inv_def)

lemma txs_of_sorted:
  assumes "tl_inv l"
  shows "sorted (map txNonce (txs_of l))" "distinct (map txNonce (txs_of l))"
  using assms by_nonce_sorted(2,3) by (auto simp: tl_inv_def sm_inv_def indexed_by_def)

lemma tl_Add_spec:
  assumes "tl_inv l"
  shows "tl_inv (snd (tl_Add tx b l)) \<and> tlStrict (snd (tl_Add tx b l)) = tlStrict l"
proof -
  let ?l = "l\<lparr>tlTxs := sm_Put tx (tlTxs l), tlCostcap := (if tlCostcap l < txCost tx then txCost tx else tlCostcap l),
                tlGascap := (if tlGascap l < txGas tx then txGas tx else tlGascap l)\<rparr>"
  note p = sm_Put_spec [OF tl_inv_sm [OF assms], of tx]
  have old: "txCost t \<le> tlCostcap l" "txGas t \<le> tlGascap l" if "t \<in> set (txs_of l)" for t using assms that by (auto simp: tl_inv_def)
  have "txCost t \<le> tlCostcap ?l \<and> txGas t \<le> tlGascap ?l" if "t \<in> set (txs_of ?l)" for t
  proof -
    have "t = tx \<or> t \<in> set (txs_of l)" using that p by (auto simp: set_insort_key)
    then show ?thesis using old [of t] by (auto simp: not_less)
  qed
  with p have "tl_inv ?l" by (simp add: tl_inv_def)
  with assms show ?thesis by (simp add: tl_Add_def Let_def)
qed

lemma tl_Forward_spec:
  assumes "tl_inv l"
  shows "\<exists>l'. tl_Forward t l = Some (map Some (filter (\<lambda>tx. txNonce tx < t) (txs_of l)), l') \<and> tl_inv l' \<and> tlStrict l' = tlStrict l \<and>
     txs_of l' = filter (\<lambda>tx. \<not> txNonce tx < t) (txs_of l)"
proof -
  obtain m where m: "sm_Forward t (tlTxs l) = Some (map Some (filter (\<lambda>tx. txNonce tx < t) (txs_of l)), m)" "sm_inv m"
    "contents m = filter (\<lambda>tx. \<not> txNonce tx < t) (txs_of l)" using sm_Forward_spec [OF tl_inv_sm [OF assms]] by blast
  have "tl_inv (l\<lparr>tlTxs := m\<rparr>)" by (rule tl_inv_subset [OF assms m(2)]) (simp add: m(3))
  then show ?thesis using m by (intro exI [of _ "l\<lparr>tlTxs := m\<rparr>"]) (simp add: tl_Forward_def)
qed

lemma tl_Cap_spec:
  assumes "tl_inv l"
  shows "\<exists>l'. tl_Cap (int t) l = Some (map Some (rev (drop t (txs_of l))), l') \<and> tl_inv l' \<and> tlStrict l' = tlStrict l \<and> txs_of l' = take t (txs_of l)"
proof -
  obtain m where m: "sm_Cap (int t) (tlTxs l) = Some (map Some (rev (drop t (txs_of l))), m)" "sm_inv m" "contents m = take t (txs_of l)"
    using sm_Cap_spec [OF tl_inv_sm [OF assms]] by blast
  have "tl_inv (l\<lparr>tlTxs := m\<rparr>)" by (rule tl_inv_subset [OF assms m(2)]) (simp add: m(3) set_take_subset)
  then show ?thesis using m by (intro exI [of _ "l\<lparr>tlTxs := m\<rparr>"]) (simp add: tl_Cap_def)
qed

lemma tl_Ready_spec:
  assumes "tl_inv l"
  shows "\<exists>k l'. tl_Ready s l = Some (map Some (take k (txs_of l)), l') \<and> tl_inv l' \<and> tlStrict l' = tlStrict l \<and> txs_of l' = drop k (txs_of l)"
proof -
  obtain k m where m: "sm_Ready s (tlTxs l) = Some (map Some (take k (txs_of l)), m)" "sm_inv m" "contents m = drop k (txs_of l)"
    using sm_Ready_spec [OF tl_inv_sm [OF assms], of s] by (auto simp: Let_def)
  have "tl_inv (l\<lparr>tlTxs := m\<rparr>)" by (rule tl_inv_subset [OF assms m(2)]) (simp add: m(3) set_drop_subset)
  then show ?thesis using m by (intro exI [of _ k] exI [of _ "l\<lparr>tlTxs := m\<rparr>"]) (simp add: tl_Ready_def)
qed

lemma tl_Flatten_spec:
  assumes "range_order it" "tl_inv l"
  shows "fst (tl_Flatten it l) = txs_of l \<and> tl_inv (snd (tl_Flatten it l)) \<and> tlStrict (snd (tl_Flatten it l)) = tlStrict l \<and> txs_of (snd (tl_Flatten it l)) = txs_of l"
proof -
  note f = sm_Flatten_spec [OF assms(1) tl_inv_sm [OF assms(2)]]
  have "tl_inv (l\<lparr>tlTxs := snd (sm_Flatten it (tlTxs l))\<rparr>)" by (rule tl_inv_subset [OF assms(2)]) (use f in simp_all)
  with f show ?thesis by (simp add: tl_Flatten_def case_prod_beta)
qed

lemma tl_Remove_spec:
  assumes "range_order it" "tl_inv l"
  shows "\<exists>inv l'. tl_Remove it tx l = Some ((txNonce tx \<in> txNonce ` set (txs_of l), inv), l') \<and> tl_inv l' \<and> tlStrict l' = tlStrict l \<and>
     (let found = txNonce tx \<in> txNonce ` set (txs_of l); late = (\<lambda>t. found \<and> tlStrict l \<and> txNonce t > txNonce tx) in
      mset inv = mset (filter late (txs_of l)) \<and> txs_of l' = filter (\<lambda>t. txNonce t \<noteq> txNonce tx \<and> \<not> late t) (txs_of l))"
proof -
  let ?n = "txNonce tx" and ?L = "txs_of l"
  obtain m where m: "sm_Remove ?n (tlTxs l) = Some (?n \<in> txNonce ` set ?L, m)" "sm_inv m" "contents m = filter (\<lambda>t. txNonce t \<noteq> ?n) ?L"
    using sm_Remove_spec [OF tl_inv_sm [OF assms(2)], of ?n] by blast
  show ?thesis
  proof (cases "?n \<in> txNonce ` set ?L")
    case False
    then have "filter (\<lambda>t. txNonce t \<noteq> ?n) ?L = ?L" by (intro filter_True ballI) (metis imageI)
    with False m(1) assms(2) show ?thesis by (intro exI [of _ "[]"] exI [of _ l]) (simp add: tl_Remove_def)
  next
    case found: True
    show ?thesis
    proof (cases "tlStrict l")
      case False
      have "tl_inv (l\<lparr>tlTxs := m\<rparr>)" by (rule tl_inv_subset [OF assms(2) m(2)]) (simp add: m(3))
      with False found m show ?thesis by (intro exI [of _ "[]"] exI [of _ "l\<lparr>tlTxs := m\<rparr>"]) (simp add: tl_Remove_def)
    next
      case True
      obtain inv m' where f: "sm_Filter it (\<lambda>t. txNonce t > ?n) m = (inv, m')" by fastforce
      note s = sm_Filter_spec [OF assms(1) m(2), of "\<lambda>t. txNonce t > ?n", unfolded f fst_conv snd_conv m(3) filter_filter]
      have "tl_inv (l\<lparr>tlTxs := m'\<rparr>)" by (rule tl_inv_subset [OF assms(2)]) (use s in auto)
      moreover have "filter (\<lambda>t. txNonce t \<noteq> ?n \<and> ?n < txNonce t) ?L = filter (\<lambda>t. ?n < txNonce t) ?L" by (rule filter_cong) auto
      ultimately show ?thesis using True found m(1) f s by (intro exI [of _ inv] exI [of _ "l\<lparr>tlTxs := m'\<rparr>"]) (simp add: tl_Remove_def Let_def)
    qed
  qed
qed

subsection \<open>Unpayable transactions\<close>

lemma lowest_nonce_fold:
  "foldl (\<lambda>lowest tx. if lowest > txNonce tx then txNonce tx else lowest) (a :: u64) txs = Min (insert a (txNonce ` set txs))"
proof (induction txs arbitrary: a)
  case (Cons tx txs)
  have "(if a > txNonce tx then txNonce tx else a) = min a (txNonce tx)" by (auto simp: min_def not_less)
  moreover have "Min (insert a (insert (txNonce tx) (txNonce ` set txs))) = Min (insert (min a (txNonce tx)) (txNonce ` set txs))"
    by (cases "txs = []") (simp_all add: min.assoc)
  ultimately show ?case using Cons by simp
qed simp

lemma lowest_nonce_min: "txs \<noteq> [] \<Longrightarrow> lowest_nonce txs = Min (txNonce ` set txs)"
proof -
  assume "txs \<noteq> []"
  moreover have "(0xFFFFFFFFFFFFFFFF :: u64) = - 1" by simp
  moreover have "min (- 1) x = x" for x :: u64 by (rule min_absorb2) (rule word_order.extremum)
  ultimately show ?thesis unfolding lowest_nonce_def lowest_nonce_fold by (metis Min_insert List.finite_set finite_imageI image_is_empty set_empty)
qed

lemma strict_prefix:
  assumes "sorted (map txNonce L)" "distinct (map txNonce L)" "\<exists>tx \<in> set L. P tx"
  defines "n \<equiv> Min (txNonce ` set (filter P L))"
  shows "filter (\<lambda>tx. \<not> P tx \<and> \<not> txNonce tx > n) L = takeWhile (\<lambda>tx. \<not> P tx) L \<and>
     filter (\<lambda>tx. \<not> P tx \<and> txNonce tx > n) L = filter (\<lambda>tx. \<not> P tx) (dropWhile (\<lambda>tx. \<not> P tx) L)"
proof -
  obtain b rest where d: "dropWhile (\<lambda>tx. \<not> P tx) L = b # rest" using assms(3) by (metis dropWhile_eq_Nil_conv neq_Nil_conv)
  let ?ys = "takeWhile (\<lambda>tx. \<not> P tx) L"
  have b: "P b" using d by (metis hd_dropWhile list.distinct(1) list.sel(1))
  have L: "L = ?ys @ b # rest" using d takeWhile_dropWhile_id [of "\<lambda>tx. \<not> P tx" L] by simp
  have ys: "\<not> P t" if "t \<in> set ?ys" for t using that by (rule set_takeWhileD [THEN conjunct2])
  have srt: "sorted (map txNonce (?ys @ b # rest))" "distinct (map txNonce (?ys @ b # rest))" using assms(1,2) L by metis+
  have str: "sorted_wrt (\<lambda>s t. txNonce s < txNonce t) (?ys @ b # rest)" using srt by (metis sorted_wrt_map strict_sorted_iff)
  have lo: "txNonce t < txNonce b" if "t \<in> set ?ys" for t using str that by (simp only: sorted_wrt_append) simp
  have hi: "txNonce b < txNonce t" if "t \<in> set rest" for t using str that by (simp only: sorted_wrt_append) simp
  have "filter P L = b # filter P rest" using ys b by (subst L) (simp add: filter_False)
  then have "n = txNonce b" unfolding n_def by (intro Min_eqI) (auto dest: hi intro: less_imp_le)
  note n = this
  have "filter (\<lambda>tx. \<not> P tx \<and> \<not> txNonce tx > n) ?ys = ?ys" by (intro filter_True) (auto simp: n dest: lo ys)
  moreover have "filter (\<lambda>tx. \<not> P tx \<and> \<not> txNonce tx > n) rest = []" using hi by (simp add: n filter_empty_conv)
  moreover have "filter (\<lambda>tx. \<not> P tx \<and> txNonce tx > n) ?ys = []" using lo by (fastforce simp: n filter_empty_conv)
  moreover have "filter (\<lambda>tx. \<not> P tx \<and> txNonce tx > n) rest = filter (\<lambda>tx. \<not> P tx) rest" using hi by (intro filter_cong) (simp_all add: n)
  ultimately have "filter (\<lambda>tx. \<not> P tx \<and> \<not> txNonce tx > n) (?ys @ b # rest) = ?ys"
    "filter (\<lambda>tx. \<not> P tx \<and> txNonce tx > n) (?ys @ b # rest) = filter (\<lambda>tx. \<not> P tx) (b # rest)" using b by simp_all
  then show ?thesis using L d by metis
qed

definition unpayable :: "int \<Rightarrow> u64 \<Rightarrow> Transaction \<Rightarrow> bool" where
  "unpayable c g tx \<longleftrightarrow> txCost tx > c \<or> txGas tx > g"

lemma tl_Filter_spec:
  assumes it: "range_order it" and l: "tl_inv l" and bad: "bad = unpayable c g"
  shows "\<exists>removed invalids l'. tl_Filter it c g l = ((removed, invalids), l') \<and> tl_inv l' \<and> tlStrict l' = tlStrict l \<and> mset removed = mset (filter bad (txs_of l)) \<and>
     (let ok = (\<lambda>tx. \<not> bad tx) in if tlStrict l then txs_of l' = takeWhile ok (txs_of l) \<and> mset invalids = mset (filter ok (dropWhile ok (txs_of l)))
      else txs_of l' = filter ok (txs_of l) \<and> invalids = [])"
proof (cases "tlCostcap l \<le> c \<and> tlGascap l \<le> g")
  case True
  then have "\<not> bad tx" if "tx \<in> set (txs_of l)" for tx using l that unfolding tl_inv_def bad unpayable_def by (meson not_less order.trans)
  then have "filter bad (txs_of l) = []" and "filter (\<lambda>tx. \<not> bad tx) (txs_of l) = txs_of l" and "takeWhile (\<lambda>tx. \<not> bad tx) (txs_of l) = txs_of l" and "dropWhile (\<lambda>tx. \<not> bad tx) (txs_of l) = []"
    by (simp_all add: filter_empty_conv takeWhile_eq_all_conv)
  then show ?thesis using True l by (simp only: Let_def) (simp add: tl_Filter_def)
next
  case False
  obtain removed m where f: "sm_Filter it bad (tlTxs l) = (removed, m)" by fastforce
  note s = sm_Filter_spec [OF it tl_inv_sm [OF l], of bad, unfolded f fst_conv snd_conv]
  let ?l = "l\<lparr>tlCostcap := c, tlGascap := g, tlTxs := m\<rparr>"
  have inv: "tl_inv ?l" using s by (auto simp: tl_inv_def bad unpayable_def not_less)
  have run: "tl_Filter it c g l = (if tlStrict l \<and> removed \<noteq> [] then (case sm_Filter it (\<lambda>tx. txNonce tx > lowest_nonce removed) m of (invalids, m) \<Rightarrow> ((removed, invalids), ?l\<lparr>tlTxs := m\<rparr>))
      else ((removed, []), ?l))" using f unfolding bad unpayable_def tl_Filter_def if_not_P [OF False] by (simp add: Let_def)
  have none: "removed = [] \<longleftrightarrow> (\<forall>tx \<in> set (txs_of l). \<not> bad tx)" using s by (metis filter_empty_conv mset_zero_iff)
  show ?thesis
  proof (cases "tlStrict l \<and> removed \<noteq> []")
    case True
    let ?n = "lowest_nonce removed"
    obtain invalids m' where f': "sm_Filter it (\<lambda>tx. txNonce tx > ?n) m = (invalids, m')" by fastforce
    have sm: "sm_inv m" using s by simp
    note s' = sm_Filter_spec [OF it sm, of "\<lambda>tx. txNonce tx > ?n", unfolded f' fst_conv snd_conv]
    have "set removed = set (filter bad (txs_of l))" using s by (metis mset_eq_setD)
    then have "?n = Min (txNonce ` set (filter bad (txs_of l)))" using lowest_nonce_min True by simp
    with strict_prefix [OF txs_of_sorted [OF l], of bad] none True have p: "filter (\<lambda>tx. \<not> bad tx \<and> \<not> txNonce tx > ?n) (txs_of l) = takeWhile (\<lambda>tx. \<not> bad tx) (txs_of l)"
      "filter (\<lambda>tx. \<not> bad tx \<and> txNonce tx > ?n) (txs_of l) = filter (\<lambda>tx. \<not> bad tx) (dropWhile (\<lambda>tx. \<not> bad tx) (txs_of l))" by auto
    have c: "contents m = filter (\<lambda>tx. \<not> bad tx) (txs_of l)" using s by simp
    have "tl_inv (?l\<lparr>tlTxs := m'\<rparr>)" by (rule tl_inv_subset [OF inv]) (use s' in auto)
    with True run f' s s' p show ?thesis by (intro exI [of _ removed] exI [of _ invalids] exI [of _ "?l\<lparr>tlTxs := m'\<rparr>"]) (simp add: c)
  next
    case False
    have "txs_of ?l = (if tlStrict l then takeWhile (\<lambda>tx. \<not> bad tx) (txs_of l) else filter (\<lambda>tx. \<not> bad tx) (txs_of l)) \<and>
        (tlStrict l \<longrightarrow> filter (\<lambda>tx. \<not> bad tx) (dropWhile (\<lambda>tx. \<not> bad tx) (txs_of l)) = [])"
    proof (cases "tlStrict l")
      case True
      then have "\<forall>tx \<in> set (txs_of l). \<not> bad tx" using False none by blast
      moreover from this have "takeWhile (\<lambda>tx. \<not> bad tx) (txs_of l) = txs_of l" "filter (\<lambda>tx. \<not> bad tx) (txs_of l) = txs_of l" "dropWhile (\<lambda>tx. \<not> bad tx) (txs_of l) = []"
        by (simp_all add: takeWhile_eq_all_conv)
      ultimately show ?thesis using s True by (simp only: if_True) simp
    qed (use s in simp)
    then have kept: "let ok = (\<lambda>tx. \<not> bad tx) in if tlStrict l then txs_of ?l = takeWhile ok (txs_of l) \<and> mset [] = mset (filter ok (dropWhile ok (txs_of l)))
        else txs_of ?l = filter ok (txs_of l) \<and> ([] :: Transaction list) = []" unfolding Let_def by (cases "tlStrict l") (simp_all only: if_True if_False simp_thms)
    have "tl_Filter it c g l = ((removed, []), ?l)" "tlStrict ?l = tlStrict l" using run unfolding if_not_P [OF False] by simp_all
    with kept s inv show ?thesis by blast
  qed
qed

text \<open>The lists a pool can come to hold.\<close>

inductive tl_reach :: "go_range \<Rightarrow> bool \<Rightarrow> txList \<Rightarrow> bool" for it strict where
  reach_new: "tl_reach it strict (newTxList strict)"
| reach_Add: "tl_reach it strict l \<Longrightarrow> tl_reach it strict (snd (tl_Add tx bump l))"
| reach_Forward: "tl_reach it strict l \<Longrightarrow> tl_Forward t l = Some (r, l') \<Longrightarrow> tl_reach it strict l'"
| reach_Filter: "tl_reach it strict l \<Longrightarrow> tl_reach it strict (snd (tl_Filter it c g l))"
| reach_Cap: "tl_reach it strict l \<Longrightarrow> tl_Cap (int k) l = Some (r, l') \<Longrightarrow> tl_reach it strict l'"
| reach_Remove: "tl_reach it strict l \<Longrightarrow> tl_Remove it tx l = Some (x, l') \<Longrightarrow> tl_reach it strict l'"
| reach_Ready: "tl_reach it strict l \<Longrightarrow> tl_Ready t l = Some (r, l') \<Longrightarrow> tl_reach it strict l'"
| reach_Flatten: "tl_reach it strict l \<Longrightarrow> tl_reach it strict (snd (tl_Flatten it l))"

lemma tl_reach_inv:
  assumes "tl_reach it strict l" "range_order it"
  shows "tl_inv l \<and> tlStrict l = strict"
  using assms(1)
proof (induction rule: tl_reach.induct)
  case reach_new
  then show ?case using sm_inv_new by (simp add: tl_inv_def newTxList_def)
next
  case (reach_Add l tx bump)
  then show ?case using tl_Add_spec [of l tx bump] by simp
next
  case (reach_Forward l t r l')
  then show ?case using tl_Forward_spec [of l t] by auto
next
  case (reach_Filter l c g)
  then show ?case using tl_Filter_spec [OF assms(2), of l "unpayable c g" c g] by auto
next
  case (reach_Cap l k r l')
  then show ?case using tl_Cap_spec [of l k] by auto
next
  case (reach_Remove l tx x l')
  then show ?case using tl_Remove_spec [OF assms(2), of l tx] by auto
next
  case (reach_Ready l t r l')
  then show ?case using tl_Ready_spec [of l t] by auto
next
  case (reach_Flatten l)
  then show ?case using tl_Flatten_spec [OF assms(2), of l] by simp
qed

text \<open>
  C38. \<open>Filter\<close> of an account's list is exact although it skips the search when its cached caps allow
  it: on every list the pool can hold, exactly the transactions above the cost or gas limit are
  returned as removed; a strict list keeps exactly its transactions before the first of these, and
  returns the affordable ones behind it as invalidated; another list keeps all affordable ones.
\<close>

theorem tl_Filter_exact:
  assumes "tl_reach it strict l" "range_order it"
  shows "\<exists>removed invalids l'. tl_Filter it c g l = ((removed, invalids), l') \<and> mset removed = mset (filter (unpayable c g) (txs_of l)) \<and>
     (let ok = (\<lambda>tx. \<not> unpayable c g tx) in
      if strict then txs_of l' = takeWhile ok (txs_of l) \<and> mset invalids = mset (filter ok (dropWhile ok (txs_of l)))
      else txs_of l' = filter ok (txs_of l) \<and> invalids = [])"
proof -
  have l: "tl_inv l" "tlStrict l = strict" using tl_reach_inv [OF assms] by simp_all
  obtain removed invalids l' where "tl_Filter it c g l = ((removed, invalids), l')" "mset removed = mset (filter (unpayable c g) (txs_of l))"
    "let ok = (\<lambda>tx. \<not> unpayable c g tx) in if strict then txs_of l' = takeWhile ok (txs_of l) \<and> mset invalids = mset (filter ok (dropWhile ok (txs_of l)))
      else txs_of l' = filter ok (txs_of l) \<and> invalids = []"
    using tl_Filter_spec [OF assms(2) l(1) refl, of c g] unfolding l(2) by (elim exE conjE)
  then show ?thesis by blast
qed

definition sample_list :: txList where
  "sample_list = snd (tl_Add (sample_tx 2 1) 10 (snd (tl_Add (sample_tx 1 9) 10 (snd (tl_Add (sample_tx 0 1) 10 (newTxList True))))))"

theorem tl_Filter_exact_witness:
  "tl_reach rev True sample_list \<and> map txNonce (txs_of (snd (tl_Filter rev 30000 50000 sample_list))) = [0]"
proof -
  have "tl_reach rev True sample_list" unfolding sample_list_def by (intro reach_Add reach_new)
  moreover have "range_order rev" by (simp add: range_order_def)
  ultimately have "txs_of (snd (tl_Filter rev 30000 50000 sample_list)) = takeWhile (\<lambda>tx. \<not> unpayable 30000 50000 tx) (txs_of sample_list)"
    using tl_Filter_exact [of rev True sample_list 30000 50000] by (auto simp: Let_def)
  moreover have "map txNonce (takeWhile (\<lambda>tx. \<not> unpayable 30000 50000 tx) (txs_of sample_list)) = [0]" by code_simp
  ultimately show ?thesis using \<open>tl_reach rev True sample_list\<close> by simp
qed

end
