(* ===== verification/Tx_Price.thy ===== *)
theory Tx_Price
  imports Tx_Sorted_Map
begin

text \<open>
  The heap by gas price (\<open>txPricedList\<close> of \<open>evmcore/tx_list.go\<close>). The heap may hold transactions that have
  left the pool; \<open>live\<close> are those of the pool.
\<close>

interpretation price_order: heap_order price_less
  by unfold_locales (auto simp: price_less_def)

abbreviation live :: "txLookup \<Rightarrow> Transaction \<Rightarrow> bool" where
  "live all tx \<equiv> map_of all (txHash tx) \<noteq> None"

abbreviation live_items :: "txLookup \<Rightarrow> txPricedList \<Rightarrow> Transaction multiset" where
  "live_items all l \<equiv> filter_mset (live all) (mset (plItems l))"

definition stale_count :: "txLookup \<Rightarrow> txPricedList \<Rightarrow> int" where
  "stale_count all l = int (size (filter_mset (\<lambda>tx. \<not> live all tx) (mset (plItems l))))"

definition pl_inv :: "txPricedList \<Rightarrow> bool" where
  "pl_inv l \<longleftrightarrow> is_heap price_less (plItems l)"

lemma pl_Puts:
  "pl_inv l \<Longrightarrow> pl_inv (foldl (\<lambda>l tx. pl_Put tx l) l txs) \<and> mset (plItems (foldl (\<lambda>l tx. pl_Put tx l) l txs)) = mset (plItems l) + mset txs \<and>
     plStales (foldl (\<lambda>l tx. pl_Put tx l) l txs) = plStales l"
proof (induction txs arbitrary: l)
  case (Cons tx txs)
  have "pl_inv (pl_Put tx l)" "mset (plItems (pl_Put tx l)) = add_mset tx (mset (plItems l))" "plStales (pl_Put tx l) = plStales l"
    using price_order.heap_Push [of "plItems l" tx] Cons.prems by (simp_all add: pl_inv_def pl_Put_def)
  with Cons.IH [of "pl_Put tx l"] show ?case by simp
qed simp

lemma pop_cheapest:
  assumes "pl_inv l" "plItems l \<noteq> []"
  shows "\<exists>tx items. heap_Pop price_less (plItems l) = Some (tx, items) \<and> plItems l ! 0 = tx \<and> is_heap price_less items \<and>
     mset (plItems l) = add_mset tx (mset items) \<and> (\<forall>y \<in># mset items. \<not> price_less y tx)"
proof -
  obtain ys where "heap_Pop price_less (plItems l) = Some (plItems l ! 0, ys)" "is_heap price_less ys" "mset (plItems l) = add_mset (plItems l ! 0) (mset ys)"
    "\<forall>y \<in> set (plItems l). \<not> price_less y (plItems l ! 0)" using price_order.heap_Pop [of "plItems l"] assms by (auto simp: pl_inv_def)
  moreover from this have "set ys \<subseteq> set (plItems l)" by (metis mset_subset_eq_add_right set_mset_mono set_mset_mset add_mset_add_single add.commute)
  ultimately show ?thesis by auto
qed

text \<open>A pass over the cheapest transactions: what has been dropped and saved, and what is still in the heap.\<close>

definition pass_ok :: "txLookup \<Rightarrow> (Transaction \<Rightarrow> bool) \<Rightarrow> txPricedList \<Rightarrow> Transaction list \<Rightarrow> Transaction list \<Rightarrow> txPricedList \<Rightarrow> bool" where
  "pass_ok all local l0 dropped saved l \<longleftrightarrow> pl_inv l \<and> live_items all l0 = live_items all l + mset dropped + mset saved \<and>
     (\<forall>tx \<in> set dropped. live all tx \<and> \<not> local tx) \<and> (\<forall>tx \<in> set saved. live all tx) \<and>
     plStales l0 - stale_count all l0 = plStales l - stale_count all l \<and> (\<forall>d \<in> set dropped. \<forall>y \<in># mset (plItems l). \<not> price_less y d)"

lemma pass_ok_start: "pl_inv l \<Longrightarrow> pass_ok all local l [] [] l"
  by (simp add: pass_ok_def)

lemma pass_step:
  assumes "pass_ok all local l0 dropped saved l" "plItems l \<noteq> []"
  shows "\<exists>tx items. heap_Pop price_less (plItems l) = Some (tx, items) \<and> length items < length (plItems l) \<and> tx \<in># mset (plItems l) \<and>
     (\<forall>y \<in># mset items. \<not> price_less y tx) \<and>
     (\<not> live all tx \<longrightarrow> pass_ok all local l0 dropped saved (l\<lparr>plItems := items, plStales := plStales l - 1\<rparr>)) \<and>
     (live all tx \<longrightarrow> pass_ok all local l0 dropped (saved @ [tx]) (l\<lparr>plItems := items\<rparr>)) \<and>
     (live all tx \<and> \<not> local tx \<longrightarrow> pass_ok all local l0 (dropped @ [tx]) saved (l\<lparr>plItems := items\<rparr>))"
proof -
  have "pl_inv l" using assms(1) by (simp add: pass_ok_def)
  then obtain tx items where p: "heap_Pop price_less (plItems l) = Some (tx, items)" "is_heap price_less items" "mset (plItems l) = add_mset tx (mset items)"
    "\<forall>y \<in># mset items. \<not> price_less y tx" using pop_cheapest [OF _ assms(2)] by blast
  note facts = assms(1) [unfolded pass_ok_def p(3) stale_count_def] p(2,4)
  have "\<not> live all tx \<longrightarrow> pass_ok all local l0 dropped saved (l\<lparr>plItems := items, plStales := plStales l - 1\<rparr>)"
    using facts by (auto simp: pass_ok_def pl_inv_def stale_count_def)
  moreover have "live all tx \<longrightarrow> pass_ok all local l0 dropped (saved @ [tx]) (l\<lparr>plItems := items\<rparr>)"
    using facts by (auto simp: pass_ok_def pl_inv_def stale_count_def)
  moreover have "live all tx \<and> \<not> local tx \<longrightarrow> pass_ok all local l0 (dropped @ [tx]) saved (l\<lparr>plItems := items\<rparr>)"
    using facts by (auto simp: pass_ok_def pl_inv_def stale_count_def)
  ultimately show ?thesis using p heap_Pop_length [OF p(1)] by (intro exI [of _ tx] exI [of _ items]) simp
qed

lemma discard_loop_spec:
  assumes "pass_ok all local l0 dropped saved l" "\<forall>tx \<in> set saved. local tx" "0 \<le> cnt"
  shows "\<exists>dropped' saved' l'. discard_loop all local cnt l dropped saved = Some (dropped', saved', l') \<and> pass_ok all local l0 dropped' saved' l' \<and>
     (\<forall>tx \<in> set saved'. local tx) \<and> int (length dropped') \<le> int (length dropped) + cnt \<and> (int (length dropped') < int (length dropped) + cnt \<longrightarrow> plItems l' = [])"
  using assms
proof (induction "length (plItems l)" arbitrary: cnt l dropped saved rule: less_induct)
  case less
  show ?case
  proof (cases "plItems l = [] \<or> cnt \<le> 0")
    case True
    then have "discard_loop all local cnt l dropped saved = Some (dropped, saved, l)" by (subst discard_loop.simps) simp
    with True less.prems show ?thesis by (intro exI [of _ dropped] exI [of _ saved] exI [of _ l]) auto
  next
    case False
    obtain tx items where p: "heap_Pop price_less (plItems l) = Some (tx, items)" "length items < length (plItems l)"
      and stale: "\<not> live all tx \<Longrightarrow> pass_ok all local l0 dropped saved (l\<lparr>plItems := items, plStales := plStales l - 1\<rparr>)"
      and save: "live all tx \<Longrightarrow> pass_ok all local l0 dropped (saved @ [tx]) (l\<lparr>plItems := items\<rparr>)"
      and drp: "live all tx \<Longrightarrow> \<not> local tx \<Longrightarrow> pass_ok all local l0 (dropped @ [tx]) saved (l\<lparr>plItems := items\<rparr>)"
      using pass_step [OF less.prems(1)] False by blast
    consider "\<not> live all tx" | "live all tx" "local tx" | "live all tx" "\<not> local tx" by blast
    then show ?thesis
    proof cases
      case 1
      then have "discard_loop all local cnt l dropped saved = discard_loop all local cnt (l\<lparr>plItems := items, plStales := plStales l - 1\<rparr>) dropped saved"
        using False p(1) by (subst discard_loop.simps) simp
      then show ?thesis using less.hyps [of "l\<lparr>plItems := items, plStales := plStales l - 1\<rparr>" dropped saved cnt] p(2) stale [OF 1] less.prems(2,3) by simp
    next
      case 2
      then have "discard_loop all local cnt l dropped saved = discard_loop all local cnt (l\<lparr>plItems := items\<rparr>) dropped (saved @ [tx])"
        using False p(1) by (subst discard_loop.simps) auto
      then show ?thesis using less.hyps [of "l\<lparr>plItems := items\<rparr>" dropped "saved @ [tx]" cnt] p(2) save [OF 2(1)] 2(2) less.prems(2,3) by simp
    next
      case 3
      then have "discard_loop all local cnt l dropped saved = discard_loop all local (cnt - 1) (l\<lparr>plItems := items\<rparr>) (dropped @ [tx]) saved"
        using False p(1) by (subst discard_loop.simps) auto
      then show ?thesis using less.hyps [of "l\<lparr>plItems := items\<rparr>" "dropped @ [tx]" saved "cnt - 1"] p(2) drp [OF 3] False less.prems(2,3) by simp
    qed
  qed
qed

text \<open>
  \<open>Discard\<close> takes the cheapest transactions of the pool that are not local: it returns as many as
  asked for, fewer only if there are no more, none that is local or has left the pool, and every
  remote transaction that stays is no cheaper than any that is returned. Nothing else of the pool
  leaves the heap, and the counter of stale entries follows their number.
\<close>

theorem pl_Discard_cheapest:
  assumes "pl_inv l" "0 \<le> cnt"
  shows "\<exists>dropped l'. pl_Discard all cnt local l = Some (dropped, l') \<and> pl_inv l' \<and> live_items all l = mset dropped + live_items all l' \<and>
     (\<forall>tx \<in> set dropped. live all tx \<and> \<not> local tx) \<and> int (length dropped) \<le> cnt \<and>
     (int (length dropped) < cnt \<longrightarrow> (\<forall>tx \<in># live_items all l'. local tx)) \<and>
     (\<forall>d \<in> set dropped. \<forall>tx \<in># live_items all l'. \<not> local tx \<longrightarrow> txGasPrice d \<le> txGasPrice tx) \<and>
     plStales l' - stale_count all l' = plStales l - stale_count all l"
proof -
  obtain dropped saved l1 where d: "discard_loop all local cnt l [] [] = Some (dropped, saved, l1)" "pass_ok all local l dropped saved l1"
    "\<forall>tx \<in> set saved. local tx" "int (length dropped) \<le> cnt" "int (length dropped) < cnt \<longrightarrow> plItems l1 = []"
    using discard_loop_spec [OF pass_ok_start [OF assms(1), of all local] _ assms(2)] by auto
  define l2 where "l2 = foldl (\<lambda>l tx. pl_Put tx l) l1 saved"
  have inv: "pl_inv l1" using d(2) by (simp add: pass_ok_def)
  have l2: "pl_inv l2" "mset (plItems l2) = mset (plItems l1) + mset saved" "plStales l2 = plStales l1" unfolding l2_def using pl_Puts [OF inv] by simp_all
  have sv: "\<forall>tx \<in> set saved. live all tx" using d(2) by (simp add: pass_ok_def)
  then have f: "filter_mset (live all) (mset saved) = mset saved" "filter_mset (\<lambda>tx. \<not> live all tx) (mset saved) = {#}" by (auto simp: filter_mset_eq_conv)
  have li: "live_items all l2 = live_items all l1 + mset saved" "stale_count all l2 = stale_count all l1" using l2(2) f by (simp_all add: stale_count_def)
  have "live_items all l = mset dropped + live_items all l2" using d(2) li(1) by (simp add: pass_ok_def ac_simps)
  moreover have "\<forall>tx \<in># live_items all l2. local tx" if "int (length dropped) < cnt" using that d(3,5) li(1) by auto
  moreover have "txGasPrice d \<le> txGasPrice tx" if "d \<in> set dropped" "tx \<in># live_items all l2" "\<not> local tx" for d tx
  proof -
    have "tx \<in># mset (plItems l1) + mset saved" using that(2) unfolding l2(2) [symmetric] by simp
    then have "tx \<in># mset (plItems l1)" using that(3) d(3) by auto
    with d(2) that(1) have "\<not> price_less tx d" by (auto simp: pass_ok_def)
    then show ?thesis by (auto simp: price_less_def)
  qed
  moreover have "pl_Discard all cnt local l = Some (dropped, l2)" using d(1) assms(2) by (simp add: pl_Discard_def l2_def)
  ultimately show ?thesis using d(2,4) l2 li(2) by (intro exI [of _ dropped] exI [of _ l2]) (auto simp: pass_ok_def)
qed

definition sample_prices :: txPricedList where
  "sample_prices = foldl (\<lambda>l tx. pl_Put tx l) newTxPricedList [sample_tx 1 5, sample_tx 2 3, sample_tx 3 8, sample_tx 4 1]"

definition sample_lookup :: txLookup where
  "sample_lookup = map (\<lambda>tx. (txHash tx, tx)) [sample_tx 1 5, sample_tx 2 3, sample_tx 3 8]"

theorem pl_Discard_cheapest_witness:
  "pl_inv sample_prices \<and> map_option (map txGasPrice \<circ> fst) (pl_Discard sample_lookup 1 (\<lambda>tx. txGasPrice tx = 3) sample_prices) = Some [5] \<and>
   (\<exists>dropped l'. pl_Discard sample_lookup 1 (\<lambda>tx. txGasPrice tx = 3) sample_prices = Some (dropped, l') \<and> pl_inv l')"
proof -
  have "pl_inv newTxPricedList" by (simp add: pl_inv_def newTxPricedList_def heap_from_def)
  then have "pl_inv sample_prices" unfolding sample_prices_def by (rule pl_Puts [THEN conjunct1])
  moreover have "map_option (map txGasPrice \<circ> fst) (pl_Discard sample_lookup 1 (\<lambda>tx. txGasPrice tx = 3) sample_prices) = Some [5]" by code_simp
  ultimately show ?thesis using pl_Discard_cheapest [of sample_prices 1 sample_lookup "\<lambda>tx. txGasPrice tx = 3"] by auto
qed

end
