(* ===== verification/Ordering.thy ===== *)
theory Ordering
  imports Event "HOL-Library.Monad_Syntax"
begin

text \<open>
  \<open>gossip/ordering/event_buffer.go\<close>: the buffer of events that have arrived before their parents. The
  callbacks act on a state \<open>'s\<close> of their own; the calls of \<open>Process\<close> (with its result) and \<open>Drop\<close> are
  logged. The LRU cache is a third-party package: its operations are an argument, and \<open>lru_ok\<close> is what
  its documentation says of them. The id of an event is cached in the event.
\<close>

record event =
  evEvent :: EventHeaderData
  evHash :: hash_event
  evPeer :: string

record 'c lru =
  lruAdd :: "hash_event \<Rightarrow> event \<Rightarrow> 'c \<Rightarrow> 'c"
  lruGet :: "hash_event \<Rightarrow> 'c \<Rightarrow> 'c"  \<comment> \<open>marks the key as used; the value is ignored by the caller\<close>
  lruPeek :: "hash_event \<Rightarrow> 'c \<Rightarrow> event option"
  lruKeys :: "'c \<Rightarrow> hash_event list"
  lruRemove :: "hash_event \<Rightarrow> 'c \<Rightarrow> 'c"
  lruContains :: "hash_event \<Rightarrow> 'c \<Rightarrow> bool"
  lruPurge :: "'c \<Rightarrow> 'c"

type_synonym ob_err = string

record 's Callback =
  cbProcess :: "event \<Rightarrow> 's \<Rightarrow> ob_err option \<times> 's"
  cbDrop :: "event \<Rightarrow> string \<Rightarrow> ob_err \<Rightarrow> 's \<Rightarrow> 's"
  cbGet :: "hash_event \<Rightarrow> 's \<Rightarrow> EventHeaderData option"
  cbExists :: "hash_event \<Rightarrow> 's \<Rightarrow> bool"
  cbCheck :: "(event \<Rightarrow> EventHeaderData list \<Rightarrow> ob_err option) option"

datatype ob_call = Processed event | Dropped event ob_err

record ('c, 's) EventBuffer =
  incompletes :: 'c
  outer :: 's
  calls :: "ob_call list"

definition ErrAlreadyConnectedEvent :: ob_err where
  "ErrAlreadyConnectedEvent = ''event is connected already''"

definition callDrop :: "'s Callback \<Rightarrow> event \<Rightarrow> ob_err \<Rightarrow> ('c, 's) EventBuffer \<Rightarrow> ('c, 's) EventBuffer" where
  "callDrop cb e err b = b\<lparr>outer := cbDrop cb e (evPeer e) err (outer b), calls := calls b @ [Dropped e err]\<rparr>"

text \<open>The loop over the parents stops at the first one that is not known.\<close>

fun getParents :: "'c lru \<Rightarrow> 's Callback \<Rightarrow> hash_event list \<Rightarrow> ('c, 's) EventBuffer \<Rightarrow> EventHeaderData list option \<times> ('c, 's) EventBuffer" where
  "getParents L cb [] b = (Some [], b)"
| "getParents L cb (p # ps) b =
     (let b = b\<lparr>incompletes := lruGet L p (incompletes b)\<rparr> in
      case cbGet cb p (outer b) of
        None \<Rightarrow> (None, b)
      | Some parent \<Rightarrow> (case getParents L cb ps b of (r, b) \<Rightarrow> (map_option ((#) parent) r, b)))"

text \<open>\<open>pushEvent\<close> up to the end of \<open>Process\<close>; the flag says that the event has been processed.\<close>

definition admit :: "'c lru \<Rightarrow> 's Callback \<Rightarrow> bool \<Rightarrow> event \<Rightarrow> ('c, 's) EventBuffer \<Rightarrow> bool \<times> ('c, 's) EventBuffer" where
  "admit L cb strict e b =
     (if cbExists cb (evHash e) (outer b) then (False, if strict then callDrop cb e ErrAlreadyConnectedEvent b else b)
      else case getParents L cb (eParents (evEvent e)) b of
        (None, b) \<Rightarrow> (False, b\<lparr>incompletes := lruAdd L (evHash e) e (incompletes b)\<rparr>)
      | (Some parents, b) \<Rightarrow>
          (case (case cbCheck cb of None \<Rightarrow> None | Some check \<Rightarrow> check e parents) of
             Some err \<Rightarrow> (False, callDrop cb e err b)
           | None \<Rightarrow> (case cbProcess cb e (outer b) of
               (Some err, s) \<Rightarrow> (False, callDrop cb e err (b\<lparr>outer := s\<rparr>))
             | (None, s) \<Rightarrow> (True, b\<lparr>outer := s, calls := calls b @ [Processed e]\<rparr>))))"

definition children :: "event list \<Rightarrow> hash_event \<Rightarrow> event list" where
  "children incompleteEventsList h =
     concat (map (\<lambda>child. map (\<lambda>_. child) (filter (\<lambda>parent. parent = h) (eParents (evEvent child)))) incompleteEventsList)"

text \<open>\<open>pushEvent\<close> called on each event of a list, one after the other.\<close>

partial_function (option) pushEvents :: "'c lru \<Rightarrow> 's Callback \<Rightarrow> event list \<Rightarrow> bool \<Rightarrow> event list \<Rightarrow> ('c, 's) EventBuffer \<Rightarrow> ('c, 's) EventBuffer option" where
  [code]: "pushEvents L cb incompleteEventsList strict es b =
     (case es of
        [] \<Rightarrow> Some b
      | e # rest \<Rightarrow> do {
          b \<leftarrow> (case admit L cb strict e b of (processed, b) \<Rightarrow>
              if processed then pushEvents L cb incompleteEventsList False (children incompleteEventsList (evHash e))
                (b\<lparr>incompletes := lruRemove L (evHash e) (incompletes b)\<rparr>)
              else Some b);
          pushEvents L cb incompleteEventsList strict rest b })"

definition pushEvent :: "'c lru \<Rightarrow> 's Callback \<Rightarrow> event \<Rightarrow> event list \<Rightarrow> bool \<Rightarrow> ('c, 's) EventBuffer \<Rightarrow> ('c, 's) EventBuffer option" where
  "pushEvent L cb e incompleteEventsList strict b = pushEvents L cb incompleteEventsList strict [e] b"

definition getIncompleteEventsList :: "'c lru \<Rightarrow> 'c \<Rightarrow> event list" where
  "getIncompleteEventsList L c = List.map_filter (\<lambda>childID. lruPeek L childID c) (lruKeys L c)"

definition PushEvent :: "'c lru \<Rightarrow> 's Callback \<Rightarrow> event \<Rightarrow> ('c, 's) EventBuffer \<Rightarrow> ('c, 's) EventBuffer option" where
  "PushEvent L cb e b = pushEvent L cb e (getIncompleteEventsList L (incompletes b)) True b"

definition IsBuffered :: "'c lru \<Rightarrow> hash_event \<Rightarrow> ('c, 's) EventBuffer \<Rightarrow> bool" where
  "IsBuffered L i b \<longleftrightarrow> lruContains L i (incompletes b)"

definition Clear :: "'c lru \<Rightarrow> ('c, 's) EventBuffer \<Rightarrow> ('c, 's) EventBuffer" where
  "Clear L b = b\<lparr>incompletes := lruPurge L (incompletes b)\<rparr>"

subsection \<open>What the cache and the callbacks promise\<close>

text \<open>Adding an entry may evict others; looking up does not.\<close>

definition lru_ok :: "'c lru \<Rightarrow> bool" where
  "lru_ok L \<longleftrightarrow> (\<forall>c k j e.
     lruPeek L k (lruGet L j c) = lruPeek L k c \<and>
     lruPeek L j (lruAdd L j e c) = Some e \<and>
     (k \<noteq> j \<longrightarrow> lruPeek L k (lruAdd L j e c) \<noteq> None \<longrightarrow> lruPeek L k (lruAdd L j e c) = lruPeek L k c) \<and>
     lruPeek L k (lruRemove L j c) = (if k = j then None else lruPeek L k c) \<and>
     (lruContains L k c \<longleftrightarrow> lruPeek L k c \<noteq> None) \<and>
     lruPeek L k (lruPurge L c) = None \<and>
     set (lruKeys L c) = {k. lruPeek L k c \<noteq> None})"

text \<open>
  A processed event is in the graph afterwards, and nothing else is new; or its epoch has been
  sealed, and the graph of the new epoch is empty. A refused event and a drop change nothing.
\<close>

definition callbacks_law :: "'s Callback \<Rightarrow> bool" where
  "callbacks_law cb \<longleftrightarrow> (\<forall>s e peer err h.
     (cbExists cb h s \<longleftrightarrow> cbGet cb h s \<noteq> None) \<and>
     (\<forall>s'. cbProcess cb e s = (None, s') \<longrightarrow> (\<forall>k. cbGet cb k s' = (if k = evHash e then Some (evEvent e) else cbGet cb k s)) \<or> (\<forall>k. cbGet cb k s' = None)) \<and>
     (\<forall>s'. cbProcess cb e s = (Some err, s') \<longrightarrow> (\<forall>k. cbGet cb k s' = cbGet cb k s)) \<and>
     (\<forall>k. cbGet cb k (cbDrop cb e peer err s) = cbGet cb k s))"

definition graph :: "'s Callback \<Rightarrow> ('c, 's) EventBuffer \<Rightarrow> hash_event \<rightharpoonup> EventHeaderData" where
  "graph cb b = (\<lambda>h. cbGet cb h (outer b))"

lemma graph_simps [simp]: "graph cb (b\<lparr>incompletes := c\<rparr>) = graph cb b" "graph cb (b\<lparr>calls := l\<rparr>) = graph cb b"
  "graph cb (b\<lparr>outer := s\<rparr>) = (\<lambda>h. cbGet cb h s)"
  by (simp_all add: graph_def)

text \<open>The graph has the parents of its events.\<close>

definition closed :: "(hash_event \<rightharpoonup> EventHeaderData) \<Rightarrow> bool" where
  "closed D \<longleftrightarrow> (\<forall>h e. D h = Some e \<longrightarrow> set (eParents e) \<subseteq> dom D)"

text \<open>An event that could be processed: it is new, has parents, and all of them are in the graph.\<close>

definition ready :: "(hash_event \<rightharpoonup> EventHeaderData) \<Rightarrow> event \<Rightarrow> bool" where
  "ready D e \<longleftrightarrow> evHash e \<notin> dom D \<and> eParents (evEvent e) \<noteq> [] \<and> set (eParents (evEvent e)) \<subseteq> dom D"

definition dropped :: "('c, 's) EventBuffer \<Rightarrow> event set" where
  "dropped b = {e. \<exists>err. Dropped e err \<in> set (calls b)}"

text \<open>One part of a run: the graph stays closed and grows, or has been emptied; buffered events
  come from the buffer or the given events; an event becomes ready only to be dropped.\<close>

definition progress :: "'c lru \<Rightarrow> 's Callback \<Rightarrow> event set \<Rightarrow> ('c, 's) EventBuffer \<Rightarrow> ('c, 's) EventBuffer \<Rightarrow> bool" where
  "progress L cb U b b' \<longleftrightarrow> (closed (graph cb b) \<longrightarrow> closed (graph cb b')) \<and> (graph cb b \<subseteq>\<^sub>m graph cb b' \<or> graph cb b' = Map.empty) \<and>
     (\<forall>k c. lruPeek L k (incompletes b') = Some c \<longrightarrow> lruPeek L k (incompletes b) = Some c \<or> c \<in> U \<and> k = evHash c) \<and>
     set (calls b) \<subseteq> set (calls b') \<and> dropped b \<subseteq> dropped b' \<and> (\<forall>c \<in> U. ready (graph cb b') c \<longrightarrow> ready (graph cb b) c \<or> c \<in> dropped b')"

lemma progress_refl: "progress L cb U b b"
  by (simp add: progress_def)

lemma progress_trans:
  assumes "progress L cb U a b" "progress L cb U b c" "graph cb b = Map.empty \<Longrightarrow> graph cb c = Map.empty"
  shows "progress L cb U a c"
proof -
  have "graph cb a \<subseteq>\<^sub>m graph cb c \<or> graph cb c = Map.empty"
    using assms(1,2,3) unfolding progress_def by (meson map_le_trans)
  moreover have "\<forall>k e. lruPeek L k (incompletes c) = Some e \<longrightarrow> lruPeek L k (incompletes a) = Some e \<or> e \<in> U \<and> k = evHash e"
    using assms(1,2) unfolding progress_def by blast
  ultimately show ?thesis using assms(1,2) unfolding progress_def by blast
qed

lemmas pushEvents_unfold = pushEvents.simps

lemma pushEvents_Nil [simp]: "pushEvents L cb lst strict [] b = Some b"
  by (subst pushEvents_unfold) simp

lemma pushEvents_Cons: "pushEvents L cb lst strict (e # es) b =
   do { b \<leftarrow> (case admit L cb strict e b of (processed, b) \<Rightarrow>
            if processed then pushEvents L cb lst False (children lst (evHash e)) (b\<lparr>incompletes := lruRemove L (evHash e) (incompletes b)\<rparr>) else Some b);
        pushEvents L cb lst strict es b }"
  by (subst pushEvents_unfold) simp

lemma set_children: "set (children lst h) = {c \<in> set lst. h \<in> set (eParents (evEvent c))}"
  by (auto simp: children_def)

text \<open>Looking for the parents changes only the order of use.\<close>

lemma getParents_spec:
  assumes "lru_ok L"
  shows "\<exists>c. getParents L cb ps b = (if set ps \<subseteq> dom (graph cb b) then Some (map (the \<circ> graph cb b) ps) else None, b\<lparr>incompletes := c\<rparr>) \<and> (\<forall>k. lruPeek L k c = lruPeek L k (incompletes b))"
proof (induction ps arbitrary: b)
  case Nil
  then show ?case by (intro exI [of _ "incompletes b"]) simp
next
  case (Cons p ps)
  let ?b = "b\<lparr>incompletes := lruGet L p (incompletes b)\<rparr>"
  have touch: "lruPeek L k (lruGet L p (incompletes b)) = lruPeek L k (incompletes b)" for k using assms by (simp add: lru_ok_def)
  show ?case
  proof (cases "graph cb b p")
    case None
    then show ?thesis using touch by (intro exI [of _ "lruGet L p (incompletes b)"]) (auto simp: graph_def)
  next
    case (Some parent)
    obtain c where c: "getParents L cb ps ?b = (if set ps \<subseteq> dom (graph cb b) then Some (map (the \<circ> graph cb b) ps) else None, ?b\<lparr>incompletes := c\<rparr>)"
      "\<forall>k. lruPeek L k c = lruPeek L k (incompletes ?b)" using Cons.IH [of ?b] by auto
    with Some touch show ?thesis by (intro exI [of _ c]) (auto simp: Let_def graph_def)
  qed
qed

lemma dropped_simps [simp]: "dropped (callDrop cb e err b) = insert e (dropped b)" "dropped (b\<lparr>incompletes := c\<rparr>) = dropped b" "dropped (b\<lparr>outer := s\<rparr>) = dropped b"
  "dropped (b\<lparr>calls := calls b @ [Processed e]\<rparr>) = dropped b" "dropped (b\<lparr>outer := s, calls := calls b @ [Processed e]\<rparr>) = dropped b"
  by (auto simp: dropped_def callDrop_def)

text \<open>What \<open>pushEvent\<close> does before it turns to the children.\<close>

lemma admit_spec:
  assumes L: "lru_ok L" and cb: "callbacks_law cb" and e: "e \<in> U"
  obtains (passed) b' where "admit L cb strict e b = (False, b')" "graph cb b' = graph cb b" "progress L cb U b b'"
      "ready (graph cb b') e \<longrightarrow> e \<in> dropped b'"
      "evHash e \<notin> dom (graph cb b) \<Longrightarrow> \<not> set (eParents (evEvent e)) \<subseteq> dom (graph cb b) \<Longrightarrow> lruPeek L (evHash e) (incompletes b') = Some e \<and> calls b' = calls b"
      "evHash e \<notin> dom (graph cb b) \<Longrightarrow> set (eParents (evEvent e)) \<subseteq> dom (graph cb b) \<Longrightarrow> e \<in> dropped b'"
  | (processed) b' where "admit L cb strict e b = (True, b')" "evHash e \<notin> dom (graph cb b)" "set (eParents (evEvent e)) \<subseteq> dom (graph cb b)"
      "graph cb b' = (graph cb b)(evHash e \<mapsto> evEvent e) \<or> graph cb b' = Map.empty" "\<forall>k. lruPeek L k (incompletes b') = lruPeek L k (incompletes b)" "calls b' = calls b @ [Processed e]"
proof -
  let ?D = "graph cb b" and ?ps = "eParents (evEvent e)"
  have ex: "cbExists cb h (outer b) \<longleftrightarrow> h \<in> dom ?D" and dr: "cbGet cb k (cbDrop cb e peer err s) = cbGet cb k s" for h k s peer err
    using cb by (simp_all add: callbacks_law_def graph_def domIff)
  have dropg: "graph cb (callDrop cb e err x) = graph cb x" for err and x :: "('a, 'b) EventBuffer" using dr by (simp add: callDrop_def graph_def)
  have quiet: "progress L cb U b (callDrop cb e err (b\<lparr>incompletes := c, outer := s\<rparr>))"
    if "\<forall>k. lruPeek L k c = lruPeek L k (incompletes b)" "\<forall>k. cbGet cb k s = ?D k" for err c s
  proof -
    have "graph cb (callDrop cb e err (b\<lparr>incompletes := c, outer := s\<rparr>)) = ?D" unfolding dropg using that(2) by auto
    then show ?thesis unfolding progress_def using that(1) by (auto simp: callDrop_def dropped_def)
  qed
  obtain c where gp: "getParents L cb ?ps b = (if set ?ps \<subseteq> dom ?D then Some (map (the \<circ> ?D) ?ps) else None, b\<lparr>incompletes := c\<rparr>)"
    "\<forall>k. lruPeek L k c = lruPeek L k (incompletes b)" using getParents_spec [OF L] by blast
  consider (old) "evHash e \<in> dom ?D" | (early) "evHash e \<notin> dom ?D" "\<not> set ?ps \<subseteq> dom ?D" | (full) "evHash e \<notin> dom ?D" "set ?ps \<subseteq> dom ?D" by blast
  then show ?thesis
  proof cases
    case old
    let ?b = "if strict then callDrop cb e ErrAlreadyConnectedEvent b else b"
    have "admit L cb strict e b = (False, ?b)" using old ex by (simp add: admit_def)
    moreover have "progress L cb U b ?b" using quiet [of "incompletes b" "outer b"] progress_refl [of L cb U b] by (simp add: graph_def)
    moreover have "graph cb ?b = ?D" using dropg by simp
    ultimately show ?thesis using old by (intro passed [of ?b]) (auto simp: ready_def)
  next
    case early
    let ?b = "b\<lparr>incompletes := lruAdd L (evHash e) e c\<rparr>"
    have run: "admit L cb strict e b = (False, ?b)" using early gp(1) ex by (simp add: admit_def)
    have add: "lruPeek L (evHash e) (lruAdd L (evHash e) e c) = Some e" "\<And>k x. k \<noteq> evHash e \<Longrightarrow> lruPeek L k (lruAdd L (evHash e) e c) = Some x \<Longrightarrow> lruPeek L k c = Some x"
      using L unfolding lru_ok_def by (metis option.distinct(1))+
    have "progress L cb U b ?b" unfolding progress_def
    proof (intro conjI allI impI)
      fix k x assume "lruPeek L k (incompletes ?b) = Some x"
      then show "lruPeek L k (incompletes b) = Some x \<or> x \<in> U \<and> k = evHash x" using add gp(2) e by (cases "k = evHash e") auto
    qed simp_all
    with run early add(1) show ?thesis by (intro passed [of ?b]) (auto simp: ready_def)
  next
    case full
    define chk where "chk = (case cbCheck cb of None \<Rightarrow> None | Some check \<Rightarrow> check e (map (the \<circ> ?D) ?ps))"
    obtain r s where pr: "cbProcess cb e (outer b) = (r, s)" by fastforce
    have run: "admit L cb strict e b = (case chk of Some err \<Rightarrow> (False, callDrop cb e err (b\<lparr>incompletes := c\<rparr>))
        | None \<Rightarrow> (case r of Some err \<Rightarrow> (False, callDrop cb e err (b\<lparr>incompletes := c, outer := s\<rparr>)) | None \<Rightarrow> (True, b\<lparr>incompletes := c, outer := s, calls := calls b @ [Processed e]\<rparr>)))"
      using full gp(1) ex pr by (simp add: admit_def chk_def split: option.split)
    have dropped_case: thesis if "admit L cb strict e b = (False, callDrop cb e err (b\<lparr>incompletes := c, outer := s'\<rparr>))" "\<forall>k. cbGet cb k s' = ?D k" for err s'
    proof -
      let ?b = "callDrop cb e err (b\<lparr>incompletes := c, outer := s'\<rparr>)"
      have "graph cb ?b = ?D" unfolding dropg using that(2) by auto
      moreover have "progress L cb U b ?b" using quiet [OF gp(2) that(2)] .
      ultimately show ?thesis using that(1) full by (intro passed [of ?b]) auto
    qed
    consider (check) err where "chk = Some err" | (refused) err where "chk = None" "r = Some err" | (ok) "chk = None" "r = None" by (cases chk; cases r) auto
    then show ?thesis
    proof cases
      case check
      then show ?thesis using run dropped_case [of err "outer b"] by (simp add: graph_def)
    next
      case refused
      then have "\<forall>k. cbGet cb k s = ?D k" using cb pr unfolding callbacks_law_def graph_def by blast
      with refused run show ?thesis using dropped_case [of err s] by simp
    next
      case ok
      let ?b = "b\<lparr>incompletes := c, outer := s, calls := calls b @ [Processed e]\<rparr>"
      have "(\<forall>k. cbGet cb k s = (if k = evHash e then Some (evEvent e) else ?D k)) \<or> (\<forall>k. cbGet cb k s = None)" using cb pr ok(2) unfolding callbacks_law_def graph_def by blast
      then have "graph cb ?b = ?D(evHash e \<mapsto> evEvent e) \<or> graph cb ?b = Map.empty" by (auto simp: fun_eq_iff)
      with ok run full gp(2) show ?thesis by (intro processed [of ?b]) (auto simp: dropped_def)
    qed
  qed
qed


lemma closed_empty: "closed Map.empty"
  by (simp add: closed_def)

lemma closed_grow: "closed D \<Longrightarrow> set (eParents e) \<subseteq> dom D \<Longrightarrow> closed (D(h \<mapsto> e))"
  by (fastforce simp: closed_def split: if_splits)

lemma removed_peek: "lru_ok L \<Longrightarrow> lruPeek L k (lruRemove L j c) = (if k = j then None else lruPeek L k c)"
  by (simp add: lru_ok_def)

lemma processed_progress:
  assumes L: "lru_ok L" and new: "evHash e \<notin> dom (graph cb b)" "set (eParents (evEvent e)) \<subseteq> dom (graph cb b)"
    and D: "graph cb b' = (graph cb b)(evHash e \<mapsto> evEvent e) \<or> graph cb b' = Map.empty" and peek: "\<forall>k. lruPeek L k (incompletes b') = lruPeek L k (incompletes b)"
    and log: "calls b' = calls b @ [Processed e]"
  defines "b1 \<equiv> b'\<lparr>incompletes := lruRemove L (evHash e) (incompletes b')\<rparr>"
  shows "(closed (graph cb b) \<longrightarrow> closed (graph cb b1)) \<and> (graph cb b \<subseteq>\<^sub>m graph cb b1 \<or> graph cb b1 = Map.empty) \<and>
     (\<forall>k c. lruPeek L k (incompletes b1) = Some c \<longrightarrow> lruPeek L k (incompletes b) = Some c) \<and> dropped b1 = dropped b \<and> set (calls b) \<subseteq> set (calls b1) \<and>
     (\<forall>c. ready (graph cb b1) c \<longrightarrow> ready (graph cb b) c \<or> evHash e \<in> set (eParents (evEvent c)))"
proof -
  have g: "graph cb b1 = graph cb b'" by (simp add: b1_def)
  have "closed (graph cb b) \<longrightarrow> closed (graph cb b')" using D closed_grow [OF _ new(2)] closed_empty by metis
  moreover have "graph cb b \<subseteq>\<^sub>m graph cb b' \<or> graph cb b' = Map.empty" using D new(1) by (auto simp: map_le_def domIff)
  moreover have "ready (graph cb b) c \<or> evHash e \<in> set (eParents (evEvent c))" if "ready (graph cb b') c" for c
    using D that by (auto simp: ready_def split: if_splits)
  ultimately show ?thesis unfolding g using peek log removed_peek [OF L] by (auto simp: b1_def dropped_def split: if_splits)
qed

text \<open>In an empty graph nothing can be processed but events without parents.\<close>

lemma push_empty:
  assumes L: "lru_ok L" and cb: "callbacks_law cb"
  shows "graph cb b = Map.empty \<Longrightarrow> \<forall>e \<in> set es. eParents (evEvent e) \<noteq> [] \<Longrightarrow> set es \<subseteq> U \<Longrightarrow>
    \<exists>b'. pushEvents L cb lst strict es b = Some b' \<and> progress L cb U b b' \<and> graph cb b' = Map.empty"
proof (induction es arbitrary: b)
  case Nil
  then show ?case using progress_refl by auto
next
  case (Cons e es)
  have e: "e \<in> U" and ps: "\<not> set (eParents (evEvent e)) \<subseteq> dom (graph cb b)" using Cons.prems by auto
  from L cb e show ?case
  proof (cases rule: admit_spec [where strict = strict and b = b])
    case (passed b1)
    obtain b2 where b2: "pushEvents L cb lst strict es b1 = Some b2" "progress L cb U b1 b2" "graph cb b2 = Map.empty" using Cons.IH [of b1] passed(2) Cons.prems by auto
    have "pushEvents L cb lst strict (e # es) b = Some b2" using passed(1) b2(1) by (simp add: pushEvents_Cons)
    with b2(3) progress_trans [OF passed(3) b2(2)] show ?thesis by auto
  qed (use ps in blast)
qed

definition unknown :: "'s Callback \<Rightarrow> event list \<Rightarrow> ('c, 's) EventBuffer \<Rightarrow> hash_event set" where
  "unknown cb lst b = evHash ` set lst - dom (graph cb b)"

lemma unknown_finite [simp]: "finite (unknown cb lst b)"
  by (simp add: unknown_def)

lemma push_children:
  assumes L: "lru_ok L" and cb: "callbacks_law cb"
  shows "set es \<subseteq> set lst \<Longrightarrow> \<forall>e \<in> set es. eParents (evEvent e) \<noteq> [] \<Longrightarrow>
    \<exists>b'. pushEvents L cb lst strict es b = Some b' \<and> progress L cb (set lst) b b' \<and> (graph cb b = Map.empty \<longrightarrow> graph cb b' = Map.empty) \<and> (\<forall>e \<in> set es. ready (graph cb b') e \<longrightarrow> e \<in> dropped b')"
proof (induction "card (unknown cb lst b)" arbitrary: b es strict rule: less_induct)
  case less
  note outer_hyps = less.hyps
  have main: "card (unknown cb lst b2) \<le> card (unknown cb lst b) \<Longrightarrow> set es2 \<subseteq> set lst \<Longrightarrow> \<forall>e \<in> set es2. eParents (evEvent e) \<noteq> [] \<Longrightarrow>
    \<exists>b'. pushEvents L cb lst strict es2 b2 = Some b' \<and> progress L cb (set lst) b2 b' \<and> (graph cb b2 = Map.empty \<longrightarrow> graph cb b' = Map.empty) \<and> (\<forall>e \<in> set es2. ready (graph cb b') e \<longrightarrow> e \<in> dropped b')" for b2 es2
  proof (induction es2 arbitrary: b2)
    case Nil
    then show ?case using progress_refl by auto
  next
    case (Cons e rest)
    have e: "e \<in> set lst" "eParents (evEvent e) \<noteq> []" using Cons.prems by simp_all
    have tail: "\<exists>b'. pushEvents L cb lst strict rest b1 = Some b' \<and> progress L cb (set lst) b1 b' \<and> (graph cb b1 = Map.empty \<longrightarrow> graph cb b' = Map.empty) \<and> (\<forall>e \<in> set rest. ready (graph cb b') e \<longrightarrow> e \<in> dropped b')"
      if "graph cb b2 \<subseteq>\<^sub>m graph cb b1 \<or> graph cb b1 = Map.empty" for b1
    proof (cases "graph cb b1 = Map.empty")
      case True
      have "set rest \<subseteq> set lst" "\<forall>e \<in> set rest. eParents (evEvent e) \<noteq> []" using Cons.prems by simp_all
      from push_empty [OF L cb True this(2,1), of lst strict] show ?thesis by (auto simp: ready_def)
    next
      case False
      with that have "unknown cb lst b1 \<subseteq> unknown cb lst b2" using map_le_implies_dom_le by (fastforce simp: unknown_def)
      then have "card (unknown cb lst b1) \<le> card (unknown cb lst b)" using Cons.prems(1) card_mono [OF unknown_finite] order.trans by blast
      then show ?thesis using Cons.IH [of b1] Cons.prems(2,3) by simp
    qed
    from L cb e(1) show ?case
    proof (cases rule: admit_spec [where strict = strict and b = b2])
      case (passed b1)
      obtain b' where b': "pushEvents L cb lst strict rest b1 = Some b'" "progress L cb (set lst) b1 b'" "graph cb b1 = Map.empty \<longrightarrow> graph cb b' = Map.empty" "\<forall>e \<in> set rest. ready (graph cb b') e \<longrightarrow> e \<in> dropped b'"
        using tail [of b1] passed(2) by auto
      have "pushEvents L cb lst strict (e # rest) b2 = Some b'" using passed(1) b'(1) by (simp add: pushEvents_Cons)
      moreover have "ready (graph cb b') e \<longrightarrow> e \<in> dropped b'" using passed(4) b'(2) e(1) unfolding progress_def by blast
      ultimately show ?thesis using b'(3,4) passed(2) progress_trans [OF passed(3) b'(2)] by auto
    next
      case (processed b1)
      let ?b1 = "b1\<lparr>incompletes := lruRemove L (evHash e) (incompletes b1)\<rparr>"
      note p = processed_progress [OF L processed(2-6)]
      let ?cs = "children lst (evHash e)"
      have cs: "set ?cs \<subseteq> set lst" "\<forall>e \<in> set ?cs. eParents (evEvent e) \<noteq> []" by (auto simp: set_children)
      have ne: "graph cb b2 \<noteq> Map.empty" using processed(3) e(2) by (metis dom_empty empty_iff list.set_intros(1) neq_Nil_conv subsetD)
      obtain b3 where b3: "pushEvents L cb lst False ?cs ?b1 = Some b3" "progress L cb (set lst) ?b1 b3" "graph cb ?b1 = Map.empty \<longrightarrow> graph cb b3 = Map.empty" "\<forall>e \<in> set ?cs. ready (graph cb b3) e \<longrightarrow> e \<in> dropped b3"
      proof (cases "graph cb ?b1 = Map.empty")
        case True
        show thesis using push_empty [OF L cb True cs(2,1), of lst False] that cs by (auto simp: ready_def)
      next
        case False
        then have g: "graph cb b1 = (graph cb b2)(evHash e \<mapsto> evEvent e)" using processed(4) by simp
        have "unknown cb lst ?b1 \<subset> unknown cb lst b2" using e(1) processed(2) g by (auto simp: unknown_def)
        then have "card (unknown cb lst ?b1) < card (unknown cb lst b)" using Cons.prems(1) psubset_card_mono [OF unknown_finite] order.strict_trans2 by blast
        from outer_hyps [OF this cs, of False] show thesis using that by blast
      qed
      have grow: "graph cb b2 \<subseteq>\<^sub>m graph cb b3 \<or> graph cb b3 = Map.empty" using p b3(2,3) unfolding progress_def by (meson map_le_trans)
      have mid: "progress L cb (set lst) b2 b3" unfolding progress_def
      proof (intro conjI ballI)
        show "closed (graph cb b2) \<longrightarrow> closed (graph cb b3)" using p b3(2) unfolding progress_def by blast
        show "graph cb b2 \<subseteq>\<^sub>m graph cb b3 \<or> graph cb b3 = Map.empty" by (rule grow)
        show "\<forall>k c. lruPeek L k (incompletes b3) = Some c \<longrightarrow> lruPeek L k (incompletes b2) = Some c \<or> c \<in> set lst \<and> k = evHash c" using p b3(2) unfolding progress_def by blast
        show "set (calls b2) \<subseteq> set (calls b3)" using p b3(2) unfolding progress_def by blast
        show "dropped b2 \<subseteq> dropped b3" using p b3(2) unfolding progress_def by blast
        fix c assume c: "c \<in> set lst"
        show "ready (graph cb b3) c \<longrightarrow> ready (graph cb b2) c \<or> c \<in> dropped b3"
        proof (cases "evHash e \<in> set (eParents (evEvent c))")
          case True
          then show ?thesis using b3(4) c by (simp add: set_children)
        next
          case False
          then show ?thesis using p b3(2) c unfolding progress_def by blast
        qed
      qed
      obtain b' where b': "pushEvents L cb lst strict rest b3 = Some b'" "progress L cb (set lst) b3 b'" "graph cb b3 = Map.empty \<longrightarrow> graph cb b' = Map.empty" "\<forall>e \<in> set rest. ready (graph cb b') e \<longrightarrow> e \<in> dropped b'"
        using tail [OF grow] by blast
      have run: "pushEvents L cb lst strict (e # rest) b2 = Some b'" using processed(1) b3(1) b'(1) by (simp add: pushEvents_Cons)
      have prog: "progress L cb (set lst) b2 b'" using progress_trans [OF mid b'(2)] b'(3) by blast
      have "ready (graph cb b') e \<longrightarrow> e \<in> dropped b'"
      proof
        assume r: "ready (graph cb b') e"
        have "\<not> ready (graph cb b3) e"
        proof (cases "graph cb b3 = Map.empty")
          case True
          then show ?thesis using e(2) by (auto simp: ready_def)
        next
          case False
          then have "graph cb ?b1 \<subseteq>\<^sub>m graph cb b3" "graph cb ?b1 \<noteq> Map.empty" using b3(2,3) unfolding progress_def by blast+
          then have "evHash e \<in> dom (graph cb b3)" using processed(4) by (auto simp: map_le_def dom_def)
          then show ?thesis by (simp add: ready_def)
        qed
        with r b'(2) e(1) show "e \<in> dropped b'" unfolding progress_def by blast
      qed
      with run prog ne b'(4) show ?thesis by auto
    qed
  qed
  from main [OF order.refl less.prems] show ?case .
qed


subsection \<open>The buffer as a whole\<close>

text \<open>Every buffered event is under its id; it waits for a parent, unless it is in the graph already or has been refused.\<close>

definition buffer_ok :: "'c lru \<Rightarrow> 's Callback \<Rightarrow> ('c, 's) EventBuffer \<Rightarrow> bool" where
  "buffer_ok L cb b \<longleftrightarrow> closed (graph cb b) \<and>
     (\<forall>k c. lruPeek L k (incompletes b) = Some c \<longrightarrow> k = evHash c \<and> (ready (graph cb b) c \<longrightarrow> c \<in> dropped b))"

lemma incomplete_list: "lru_ok L \<Longrightarrow> set (getIncompleteEventsList L c) = {e. \<exists>k. lruPeek L k c = Some e}"
  unfolding getIncompleteEventsList_def List.map_filter_def lru_ok_def by (auto simp: image_iff) (metis (lifting) mem_Collect_eq option.distinct(1) option.sel)

lemma PushEvent_step:
  assumes L: "lru_ok L" and cb: "callbacks_law cb" and b: "buffer_ok L cb b"
  obtains b' where "PushEvent L cb e b = Some b'" "buffer_ok L cb b'" "graph cb b \<subseteq>\<^sub>m graph cb b' \<or> graph cb b' = Map.empty" "dropped b \<subseteq> dropped b'"
    "evHash e \<notin> dom (graph cb b) \<Longrightarrow> \<not> set (eParents (evEvent e)) \<subseteq> dom (graph cb b) \<Longrightarrow> IsBuffered L (evHash e) b' \<and> calls b' = calls b"
    "evHash e \<notin> dom (graph cb b) \<Longrightarrow> set (eParents (evEvent e)) \<subseteq> dom (graph cb b) \<Longrightarrow> Processed e \<in> set (calls b') \<or> e \<in> dropped b'"
proof -
  let ?lst = "getIncompleteEventsList L (incompletes b)"
  have lst: "set ?lst = {c. \<exists>k. lruPeek L k (incompletes b) = Some c}" by (rule incomplete_list [OF L])
  let ?U = "insert e (set ?lst)"
  have keep: "buffer_ok L cb b'" if p: "progress L cb ?U b b'" "ready (graph cb b') e \<longrightarrow> e \<in> dropped b'" for b'
    unfolding buffer_ok_def
  proof (intro conjI allI impI)
    show "closed (graph cb b')" using b p(1) by (simp add: buffer_ok_def progress_def)
    fix k c assume k: "lruPeek L k (incompletes b') = Some c"
    then have c: "lruPeek L k (incompletes b) = Some c \<or> c \<in> ?U \<and> k = evHash c" using p(1) unfolding progress_def by blast
    then show "k = evHash c" using b unfolding buffer_ok_def by blast
    assume r: "ready (graph cb b') c"
    have "c \<in> ?U" using c lst by auto
    with r p(1) have "ready (graph cb b) c \<or> c \<in> dropped b'" unfolding progress_def by blast
    moreover have "ready (graph cb b) c \<Longrightarrow> c \<noteq> e \<Longrightarrow> c \<in> dropped b'" using b \<open>c \<in> ?U\<close> lst p(1) unfolding buffer_ok_def progress_def by blast
    ultimately show "c \<in> dropped b'" using p(2) r by blast
  qed
  have eU: "e \<in> ?U" by simp
  have push: "PushEvent L cb e b = pushEvents L cb ?lst True [e] b" by (simp add: PushEvent_def pushEvent_def)
  from L cb eU show ?thesis
  proof (cases rule: admit_spec [where strict = True and b = b])
    case (passed b1)
    have "PushEvent L cb e b = Some b1" unfolding push using passed(1) by (simp add: pushEvents_Cons)
    moreover have "IsBuffered L (evHash e) b1 \<and> calls b1 = calls b" if "evHash e \<notin> dom (graph cb b)" "\<not> set (eParents (evEvent e)) \<subseteq> dom (graph cb b)"
      using passed(5) [OF that] L by (simp add: IsBuffered_def lru_ok_def)
    ultimately show ?thesis using keep [OF passed(3,4)] passed(2,3,6) by (intro that [of b1]) (auto simp: progress_def)
  next
    case (processed b1)
    let ?b1 = "b1\<lparr>incompletes := lruRemove L (evHash e) (incompletes b1)\<rparr>"
    note p = processed_progress [OF L processed(2-6)]
    let ?cs = "children ?lst (evHash e)"
    have cs: "set ?cs \<subseteq> set ?lst" "\<forall>e \<in> set ?cs. eParents (evEvent e) \<noteq> []" by (auto simp: set_children)
    obtain b' where b': "pushEvents L cb ?lst False ?cs ?b1 = Some b'" "progress L cb (set ?lst) ?b1 b'" "graph cb ?b1 = Map.empty \<longrightarrow> graph cb b' = Map.empty" "\<forall>c \<in> set ?cs. ready (graph cb b') c \<longrightarrow> c \<in> dropped b'"
      using push_children [OF L cb cs] by blast
    have run: "PushEvent L cb e b = Some b'" unfolding push using processed(1) b'(1) by (simp add: pushEvents_Cons)
    have grow: "graph cb b \<subseteq>\<^sub>m graph cb b' \<or> graph cb b' = Map.empty" using p b'(2,3) unfolding progress_def by (meson map_le_trans)
    have drp: "dropped b \<subseteq> dropped b'" using p b'(2) unfolding progress_def by blast
    have "buffer_ok L cb b'" unfolding buffer_ok_def
    proof (intro conjI allI impI)
      show "closed (graph cb b')" using b p b'(2) unfolding buffer_ok_def progress_def by blast
      fix k c assume "lruPeek L k (incompletes b') = Some c"
      then have c: "lruPeek L k (incompletes b) = Some c \<or> c \<in> set ?lst \<and> k = evHash c" using p b'(2) unfolding progress_def by blast
      then have cl: "c \<in> set ?lst" using lst by auto
      show "k = evHash c" using c b unfolding buffer_ok_def by blast
      assume r: "ready (graph cb b') c"
      show "c \<in> dropped b'"
      proof (cases "evHash e \<in> set (eParents (evEvent c))")
        case True
        then show ?thesis using b'(4) cl r by (simp add: set_children)
      next
        case False
        then have "ready (graph cb b) c \<or> c \<in> dropped b'" using p b'(2) cl r unfolding progress_def by blast
        then show ?thesis using b cl lst drp unfolding buffer_ok_def by blast
      qed
    qed
    moreover have "Processed e \<in> set (calls b')" using processed(6) b'(2) by (auto simp: progress_def)
    ultimately show ?thesis using run grow drp processed(2,3) by (intro that [of b']) auto
  qed
qed

text \<open>The buffers that a node can come to: empty at first, then events are pushed, or all is forgotten.\<close>

inductive ob_reach :: "'c lru \<Rightarrow> 's Callback \<Rightarrow> ('c, 's) EventBuffer \<Rightarrow> bool" for L cb where
  ob_start: "closed (graph cb b) \<Longrightarrow> (\<And>k. lruPeek L k (incompletes b) = None) \<Longrightarrow> ob_reach L cb b"
| ob_push: "ob_reach L cb b \<Longrightarrow> PushEvent L cb e b = Some b' \<Longrightarrow> ob_reach L cb b'"
| ob_clear: "ob_reach L cb b \<Longrightarrow> ob_reach L cb (Clear L b)"

lemma ob_reach_ok:
  assumes "ob_reach L cb b" "lru_ok L" "callbacks_law cb"
  shows "buffer_ok L cb b"
  using assms(1)
proof (induction rule: ob_reach.induct)
  case (ob_start b)
  then show ?case by (simp add: buffer_ok_def)
next
  case (ob_push b e b')
  then show ?case using PushEvent_step [OF assms(2,3) ob_push.IH, of e] by force
next
  case (ob_clear b)
  then show ?case using assms(2) by (simp add: buffer_ok_def Clear_def lru_ok_def)
qed

text \<open>
  C34. Pushing an event always returns, whatever waits in the buffer, and events reach the consensus
  parents first: the graph stays closed under parents. A new event whose parents are known is
  processed or refused at once; one that lacks a parent is kept and nothing is processed. Afterwards
  no event in the buffer could be processed, except those that have been refused already: as soon as
  the last missing parent of an event arrives, the event is tried, also over several generations.
\<close>

theorem PushEvent_connects:
  assumes "lru_ok L" "callbacks_law cb" "ob_reach L cb b"
  shows "\<exists>b'. PushEvent L cb e b = Some b' \<and> closed (graph cb b') \<and> (graph cb b \<subseteq>\<^sub>m graph cb b' \<or> graph cb b' = Map.empty) \<and>
     (\<forall>k c. lruPeek L k (incompletes b') = Some c \<and> ready (graph cb b') c \<longrightarrow> c \<in> dropped b') \<and>
     (evHash e \<notin> dom (graph cb b) \<longrightarrow>
       (if set (eParents (evEvent e)) \<subseteq> dom (graph cb b) then Processed e \<in> set (calls b') \<or> e \<in> dropped b'
        else IsBuffered L (evHash e) b' \<and> calls b' = calls b))"
proof -
  have ok: "buffer_ok L cb b" using ob_reach_ok [OF assms(3,1,2)] .
  obtain b' where "PushEvent L cb e b = Some b'" "buffer_ok L cb b'" "graph cb b \<subseteq>\<^sub>m graph cb b' \<or> graph cb b' = Map.empty"
    "evHash e \<notin> dom (graph cb b) \<Longrightarrow> \<not> set (eParents (evEvent e)) \<subseteq> dom (graph cb b) \<Longrightarrow> IsBuffered L (evHash e) b' \<and> calls b' = calls b"
    "evHash e \<notin> dom (graph cb b) \<Longrightarrow> set (eParents (evEvent e)) \<subseteq> dom (graph cb b) \<Longrightarrow> Processed e \<in> set (calls b') \<or> e \<in> dropped b'"
    using PushEvent_step [OF assms(1,2) ok, of e] by metis
  then show ?thesis unfolding buffer_ok_def by auto
qed

subsection \<open>A concrete buffer\<close>

definition sample_lru :: "(hash_event \<times> event) list lru" where
  "sample_lru = \<lparr>lruAdd = (\<lambda>k e c. take 2 ((k, e) # filter (\<lambda>x. fst x \<noteq> k) c)),
     lruGet = (\<lambda>k c. filter (\<lambda>x. fst x = k) c @ filter (\<lambda>x. fst x \<noteq> k) c),
     lruPeek = (\<lambda>k c. map_of c k), lruKeys = map fst, lruRemove = (\<lambda>k c. filter (\<lambda>x. fst x \<noteq> k) c),
     lruContains = (\<lambda>k c. map_of c k \<noteq> None), lruPurge = (\<lambda>c. [])\<rparr>"

text \<open>Events of epoch 1 are accepted.\<close>

definition sample_callback :: "(hash_event \<times> EventHeaderData) list Callback" where
  "sample_callback = \<lparr>cbProcess = (\<lambda>e s. if eEpoch (evEvent e) = 1 then (None, (evHash e, evEvent e) # s) else (Some ''epoch'', s)),
     cbDrop = (\<lambda>e peer err s. s), cbGet = (\<lambda>h s. map_of s h), cbExists = (\<lambda>h s. map_of s h \<noteq> None), cbCheck = None\<rparr>"

definition sample_event :: "byte \<Rightarrow> hash_event list \<Rightarrow> event" where
  "sample_event n ps = \<lparr>evEvent = \<lparr>eVersion = 0, eEpoch = 1, eSeq = 1, eFrame = 1, eIsRoot = False, eCreator = 1, ePrevEpochHash = [], eParents = ps,
     eGasPowerLeft = GasPowerLeft 0 0, eGasPowerUsed = 0, eLamport = 1, eClaimedTime = 0, eMedianTime = 0, eTxHash = [], eExtra = [], eHash = None\<rparr>, evHash = [n], evPeer = ''peer''\<rparr>"

lemma map_of_without: "map_of (filter (\<lambda>x. fst x \<noteq> k) c) j = (if j = k then None else map_of c j)"
  by (induction c) auto

lemma map_of_take: "map_of (take n c) j = Some x \<Longrightarrow> map_of c j = Some x"
  by (induction c arbitrary: n) (auto simp: take_Cons' split: if_splits)


lemma map_of_only: "map_of (filter (\<lambda>x. fst x = k) c) j = (if j = k then map_of c j else None)"
  by (induction c) auto

lemma sample_lru_simps:
  "lruPeek sample_lru k c = map_of c k" "lruKeys sample_lru c = map fst c" "lruPurge sample_lru c = []" "lruContains sample_lru k c \<longleftrightarrow> map_of c k \<noteq> None"
  "lruGet sample_lru k c = filter (\<lambda>x. fst x = k) c @ filter (\<lambda>x. fst x \<noteq> k) c" "lruRemove sample_lru k c = filter (\<lambda>x. fst x \<noteq> k) c"
  "lruAdd sample_lru k e c = take 2 ((k, e) # filter (\<lambda>x. fst x \<noteq> k) c)"
  by (simp_all add: sample_lru_def)

lemma sample_lru_ok: "lru_ok sample_lru"
  unfolding lru_ok_def
proof (intro allI conjI impI)
  fix c :: "(hash_event \<times> event) list" and k j e
  show "lruPeek sample_lru k (lruGet sample_lru j c) = lruPeek sample_lru k c" unfolding sample_lru_simps
    by (simp add: map_add_def map_of_only map_of_without split: option.split)
  show "lruPeek sample_lru j (lruAdd sample_lru j e c) = Some e" unfolding sample_lru_simps by simp
  show "lruPeek sample_lru k (lruRemove sample_lru j c) = (if k = j then None else lruPeek sample_lru k c)" unfolding sample_lru_simps by (rule map_of_without)
  show "lruContains sample_lru k c \<longleftrightarrow> lruPeek sample_lru k c \<noteq> None" unfolding sample_lru_simps ..
  show "lruPeek sample_lru k (lruPurge sample_lru c) = None" unfolding sample_lru_simps by simp
  show "set (lruKeys sample_lru c) = {k. lruPeek sample_lru k c \<noteq> None}" unfolding sample_lru_simps by (auto simp: map_of_eq_None_iff)
  assume ne: "k \<noteq> j" and some: "lruPeek sample_lru k (lruAdd sample_lru j e c) \<noteq> None"
  obtain x where x: "map_of (take 2 ((j, e) # filter (\<lambda>x. fst x \<noteq> j) c)) k = Some x" using some unfolding sample_lru_simps by blast
  then have "map_of ((j, e) # filter (\<lambda>x. fst x \<noteq> j) c) k = Some x" by (rule map_of_take)
  then show "lruPeek sample_lru k (lruAdd sample_lru j e c) = lruPeek sample_lru k c" unfolding sample_lru_simps using x ne map_of_without [of j c k] by simp
qed

lemma sample_callbacks: "callbacks_law sample_callback"
  by (auto simp: callbacks_law_def sample_callback_def split: if_splits)

definition sample_buffer :: "((hash_event \<times> event) list, (hash_event \<times> EventHeaderData) list) EventBuffer" where
  "sample_buffer = \<lparr>incompletes = [], outer = [], calls = []\<rparr>"

text \<open>A grandchild, a child and their parent, in the wrong order.\<close>

definition sample_pushed :: "((hash_event \<times> event) list, (hash_event \<times> EventHeaderData) list) EventBuffer" where
  "sample_pushed = the (PushEvent sample_lru sample_callback (sample_event 2 [[1]]) (the (PushEvent sample_lru sample_callback (sample_event 3 [[2], [1]]) sample_buffer)))"

theorem PushEvent_connects_witness:
  "ob_reach sample_lru sample_callback sample_pushed \<and> map_option calls (PushEvent sample_lru sample_callback (sample_event 1 []) sample_pushed) =
     Some [Processed (sample_event 1 []), Processed (sample_event 2 [[1]]), Processed (sample_event 3 [[2], [1]])]"
proof -
  note law = PushEvent_connects [OF sample_lru_ok sample_callbacks]
  have "ob_reach sample_lru sample_callback sample_buffer"
    by (rule ob_start) (simp_all add: sample_buffer_def sample_lru_def sample_callback_def graph_def closed_def)
  then have "ob_reach sample_lru sample_callback sample_pushed" unfolding sample_pushed_def using law ob_push by (metis option.sel)
  moreover have "map_option calls (PushEvent sample_lru sample_callback (sample_event 1 []) sample_pushed) =
     Some [Processed (sample_event 1 []), Processed (sample_event 2 [[1]]), Processed (sample_event 3 [[2], [1]])]" by code_simp
  ultimately show ?thesis by simp
qed

end
