(* ===== verification/Topics_Db.thy ===== *)
theory Topics_Db
  imports Kv_Store Roots_Store
begin

text \<open>
  Package \<open>topicsdb\<close>: the search index of the logs of transactions. A log is stored in three tables of
  a key-value store: by topic and position, by id and position, and its other fields by id. A query
  gives alternatives for the positions; an empty list of alternatives is a wildcard. \<open>fetchSync\<close> and
  \<open>fetchAsync\<close> count the conditions a log meets. A hash is a list of 32 bytes, an address of 20; \<open>Log\<close> has the
  fields of go-ethereum's type the index keeps. The order in which Go visits a map is an argument.
\<close>

type_synonym u8 = "8 word"

record Log =
  lAddress :: bytes
  lTopics :: "hash list"
  lData :: bytes
  lBlockNumber :: u64
  lTxHash :: hash
  lBlockHash :: hash
  lIndex :: u64

datatype topics_err = ErrTooManyTopics | DbErr kv_err

subsection \<open>Keys\<close>

type_synonym ID = bytes

definition hashSize :: nat where "hashSize = 32"

definition logrecKeySize :: nat where "logrecKeySize = 8 + hashSize + 8"

definition topicKeySize :: nat where "topicKeySize = hashSize + 1 + logrecKeySize"

definition otherKeySize :: nat where "otherKeySize = logrecKeySize + 1"

definition NewID :: "u64 \<Rightarrow> hash \<Rightarrow> u64 \<Rightarrow> ID" where
  "NewID block tx logIndex = Int64ToBytes_BE block @ tx @ Int64ToBytes_BE logIndex"

definition ID_BlockNumber :: "ID \<Rightarrow> u64 option" where
  "ID_BlockNumber i = do { b \<leftarrow> slice_sub i 0 8; BytesToInt64_BE b }"

definition ID_TxHash :: "ID \<Rightarrow> hash option" where
  "ID_TxHash i = slice_sub i 8 (8 + hashSize)"

definition ID_Index :: "ID \<Rightarrow> u64 option" where
  "ID_Index i = do { b \<leftarrow> slice_sub i (8 + hashSize) (8 + hashSize + 8); BytesToInt64_BE b }"

definition posToBytes :: "u8 \<Rightarrow> bytes" where
  "posToBytes p = [p]"

definition bytesToPos :: "bytes \<Rightarrow> u8 option" where
  "bytesToPos b = slice_get b 0"

definition topicKey :: "hash \<Rightarrow> u8 \<Rightarrow> ID \<Rightarrow> bytes" where
  "topicKey topic p logrec = topic @ posToBytes p @ logrec"

definition otherKey :: "ID \<Rightarrow> u8 \<Rightarrow> bytes" where
  "otherKey logrec p = logrec @ posToBytes p"

definition extractLogrecID :: "bytes \<Rightarrow> ID option" where
  "extractLogrecID key = (if length key = topicKeySize then Some (drop (hashSize + 1) key) else None)"

definition extractTopicPos :: "bytes \<Rightarrow> u8 option" where
  "extractTopicPos key = (if length key = otherKeySize then do { b \<leftarrow> slice_sub key logrecKeySize (logrecKeySize + 1); bytesToPos b } else None)"

subsection \<open>Storing\<close>

definition MaxCount :: nat where "MaxCount = 255"

definition topic_table :: "'s kv_ops \<Rightarrow> 's kv_ops" where "topic_table ops = table_ops ops [0x74]"

definition other_table :: "'s kv_ops \<Rightarrow> 's kv_ops" where "other_table ops = table_ops ops [0x6F]"

definition logrec_table :: "'s kv_ops \<Rightarrow> 's kv_ops" where "logrec_table ops = table_ops ops [0x72]"

definition then_eff :: "'s eff \<Rightarrow> ('s \<Rightarrow> (topics_err option \<times> 's) option) \<Rightarrow> (topics_err option \<times> 's) option" where
  "then_eff m f = (case m of None \<Rightarrow> None | Some (Some err, s) \<Rightarrow> Some (Some (DbErr err), s) | Some (None, s) \<Rightarrow> f s)"

fun push_topics :: "'s kv_ops \<Rightarrow> ID \<Rightarrow> bytes \<Rightarrow> nat \<Rightarrow> hash list \<Rightarrow> 's \<Rightarrow> (topics_err option \<times> 's) option" where
  "push_topics ops i cnt p [] s = Some (None, s)"
| "push_topics ops i cnt p (topic # topics) s =
     then_eff (kvPut (topic_table ops) s (topicKey topic (of_nat p) i) (Some cnt)) (\<lambda>s.
     then_eff (kvPut (other_table ops) s (otherKey i (of_nat p)) (Some topic)) (\<lambda>s.
     push_topics ops i cnt (Suc p) topics s))"

definition log_id :: "Log \<Rightarrow> ID" where
  "log_id rec = NewID (lBlockNumber rec) (lTxHash rec) (lIndex rec)"

fun topics_Push :: "'s kv_ops \<Rightarrow> Log list \<Rightarrow> 's \<Rightarrow> (topics_err option \<times> 's) option" where
  "topics_Push ops [] s = Some (None, s)"
| "topics_Push ops (rec # recs) s =
     (if length (lTopics rec) > MaxCount then Some (Some ErrTooManyTopics, s)
      else case push_topics ops (log_id rec) (posToBytes (of_nat (length (lTopics rec)))) 0 (lTopics rec) s of
        Some (None, s) \<Rightarrow> then_eff (kvPut (logrec_table ops) s (log_id rec) (Some (lAddress rec @ lBlockHash rec @ lData rec))) (\<lambda>s. topics_Push ops recs s)
      | r \<Rightarrow> r)"

text \<open>\<open>MustPush\<close> panics on an error.\<close>

definition topics_MustPush :: "'s kv_ops \<Rightarrow> Log list \<Rightarrow> 's \<Rightarrow> 's option" where
  "topics_MustPush ops recs s = (case topics_Push ops recs s of Some (None, s) \<Rightarrow> Some s | _ \<Rightarrow> None)"

subsection \<open>A log that is being built\<close>

record logrecBuilder =
  rbLog :: Log
  rbID :: ID
  conditions :: u8
  topicsCount :: u8

definition newLogrecBuilder :: "ID \<Rightarrow> u8 \<Rightarrow> u8 \<Rightarrow> logrecBuilder option" where
  "newLogrecBuilder logrec conds topicCount = do {
     bn \<leftarrow> ID_BlockNumber logrec; tx \<leftarrow> ID_TxHash logrec; ix \<leftarrow> ID_Index logrec;
     Some \<lparr>rbLog = \<lparr>lAddress = replicate 20 0, lTopics = replicate (unat topicCount) hash_Zero, lData = [], lBlockNumber = bn, lTxHash = tx, lBlockHash = hash_Zero, lIndex = ix\<rparr>,
       rbID = logrec, conditions = conds, topicsCount = topicCount\<rparr> }"

text \<open>The flag says whether a token is sent to the channel \<open>ok\<close>, if there is one.\<close>

definition MatchedWith :: "u8 \<Rightarrow> logrecBuilder \<Rightarrow> bool \<times> logrecBuilder" where
  "MatchedWith cnt rec = (if conditions rec > cnt then (False, rec\<lparr>conditions := conditions rec - cnt\<rparr>) else (True, rec\<lparr>conditions := 0\<rparr>))"

definition IsMatched :: "logrecBuilder \<Rightarrow> bool" where
  "IsMatched rec \<longleftrightarrow> conditions rec = 0"

definition SetOtherTopic :: "u8 \<Rightarrow> hash \<Rightarrow> logrecBuilder \<Rightarrow> logrecBuilder option" where
  "SetOtherTopic p topic rec =
     (if p \<ge> topicsCount rec then None
      else do {
        old \<leftarrow> slice_get (lTopics (rbLog rec)) (unat p);
        if old \<noteq> hash_Zero then Some rec
        else do { ts \<leftarrow> slice_set (lTopics (rbLog rec)) (unat p) topic; Some (rec\<lparr>rbLog := (rbLog rec)\<lparr>lTopics := ts\<rparr>\<rparr>) } })"

definition set_others :: "(bytes \<times> bytes) list \<Rightarrow> logrecBuilder \<Rightarrow> logrecBuilder option" where
  "set_others es rec = foldM (\<lambda>rec (key, v). do { p \<leftarrow> extractTopicPos key; SetOtherTopic p (BytesToEvent v) rec }) rec es"

text \<open>\<open>common.BytesToAddress\<close> of 20 bytes is these bytes.\<close>

definition Fetch :: "'s kv_ops \<Rightarrow> 's \<Rightarrow> logrecBuilder \<Rightarrow> (topics_err + logrecBuilder) option" where
  "Fetch ops s rec = do {
     rec \<leftarrow> set_others (kvPrefix (other_table ops) s (rbID rec)) rec;
     (case kvGet (logrec_table ops) s (rbID rec) of
        Inl err \<Rightarrow> Some (Inl (DbErr err))
      | Inr v \<Rightarrow> do {
          let b = (case v of None \<Rightarrow> [] | Some b \<Rightarrow> b);
          addr \<leftarrow> slice_sub b 0 20;
          bh \<leftarrow> slice_sub b 20 (20 + hashSize);
          Some (Inr (rec\<lparr>rbLog := (rbLog rec)\<lparr>lAddress := addr, lBlockHash := BytesToEvent bh, lData := drop (20 + hashSize) b\<rparr>\<rparr>)) }) }"

subsection \<open>Searching\<close>

text \<open>The records found so far, and the ids to whose channel \<open>ok\<close> a token has been sent, in order.\<close>

type_synonym rec_map = "(ID \<times> logrecBuilder) list"
type_synonym found = "rec_map \<times> ID list"

definition match_entry :: "u8 \<Rightarrow> found \<Rightarrow> bytes \<times> bytes \<Rightarrow> found option" where
  "match_entry condCount st e = (case st of (recs, sent) \<Rightarrow> do {
     i \<leftarrow> extractLogrecID (fst e);
     topicCount \<leftarrow> bytesToPos (snd e);
     rec \<leftarrow> (case map_of recs i of None \<Rightarrow> newLogrecBuilder i condCount topicCount | Some rec \<Rightarrow> Some rec);
     (case MatchedWith 1 rec of (tok, rec) \<Rightarrow> Some (AList.update i rec recs, if tok then sent @ [i] else sent)) })"

definition match_alternative :: "'s kv_ops \<Rightarrow> 's \<Rightarrow> u8 \<Rightarrow> nat \<Rightarrow> found \<Rightarrow> hash \<Rightarrow> found option" where
  "match_alternative ops s condCount p recs alternative =
     foldM (match_entry condCount) recs (kvPrefix (topic_table ops) s (alternative @ posToBytes (of_nat p)))"

fun match_conditions :: "'s kv_ops \<Rightarrow> 's \<Rightarrow> u8 \<Rightarrow> nat \<Rightarrow> hash list list \<Rightarrow> found \<Rightarrow> u8 \<Rightarrow> (found \<times> u8) option" where
  "match_conditions ops s condCount p [] recs wildcards = Some (recs, wildcards)"
| "match_conditions ops s condCount p (cond # topics) recs wildcards =
     (if length cond < 1 then match_conditions ops s condCount (Suc p) topics recs (wildcards + 1)
      else do {
        recs \<leftarrow> foldM (match_alternative ops s condCount p) recs cond;
        match_conditions ops s condCount (Suc p) topics recs wildcards })"

fun build_matched :: "'s kv_ops \<Rightarrow> 's \<Rightarrow> u8 \<Rightarrow> rec_map \<Rightarrow> (topics_err + Log list) option" where
  "build_matched ops s wildcards [] = Some (Inr [])"
| "build_matched ops s wildcards ((i, rec) # recs) =
     (let rec = snd (MatchedWith wildcards rec) in
      if \<not> IsMatched rec then build_matched ops s wildcards recs
      else do {
        r \<leftarrow> Fetch ops s rec;
        (case r of Inl err \<Rightarrow> Some (Inl err)
         | Inr rec \<Rightarrow> map_option (map_sum id ((#) (rbLog rec))) (build_matched ops s wildcards recs)) })"

definition fetchSync :: "'s kv_ops \<Rightarrow> (rec_map \<Rightarrow> rec_map) \<Rightarrow> hash list list \<Rightarrow> 's \<Rightarrow> (topics_err + Log list) option" where
  "fetchSync ops it topics s =
     (if length topics > MaxCount then Some (Inl ErrTooManyTopics)
      else do {
        ((recs, sent), wildcards) \<leftarrow> match_conditions ops s (of_nat (length topics)) 0 topics ([], []) 0;
        build_matched ops s wildcards (it recs) })"


subsection \<open>What the tables hold\<close>

text \<open>A log with the lengths of its fields, and the index of a set of logs.\<close>

definition log_ok :: "Log \<Rightarrow> bool" where
  "log_ok l \<longleftrightarrow> length (lAddress l) = 20 \<and> length (lTxHash l) = 32 \<and> length (lBlockHash l) = 32 \<and> (\<forall>t \<in> set (lTopics l). length t = 32) \<and> length (lTopics l) \<le> MaxCount"

definition logs_ok :: "Log set \<Rightarrow> bool" where
  "logs_ok R \<longleftrightarrow> (\<forall>l \<in> R. log_ok l) \<and> inj_on log_id R"

definition has_topic :: "Log \<Rightarrow> nat \<Rightarrow> hash \<Rightarrow> bool" where
  "has_topic l p t \<longleftrightarrow> p < length (lTopics l) \<and> lTopics l ! p = t"

definition indexes :: "(bytes \<rightharpoonup> bytes) \<Rightarrow> Log set \<Rightarrow> bool" where
  "indexes m R \<longleftrightarrow>
     (\<forall>k v. m (0x74 # k) = Some v \<longleftrightarrow> (\<exists>l \<in> R. \<exists>p t. has_topic l p t \<and> k = topicKey t (of_nat p) (log_id l) \<and> v = [of_nat (length (lTopics l))])) \<and>
     (\<forall>k v. m (0x6F # k) = Some v \<longleftrightarrow> (\<exists>l \<in> R. \<exists>p. has_topic l p v \<and> k = otherKey (log_id l) (of_nat p))) \<and>
     (\<forall>k v. m (0x72 # k) = Some v \<longleftrightarrow> (\<exists>l \<in> R. k = log_id l \<and> v = lAddress l @ lBlockHash l @ lData l))"

lemma indexes_topic: "indexes m R \<Longrightarrow> m (0x74 # k) = Some v \<longleftrightarrow> (\<exists>l \<in> R. \<exists>p t. has_topic l p t \<and> k = topicKey t (of_nat p) (log_id l) \<and> v = [of_nat (length (lTopics l))])"
  by (simp only: indexes_def)

lemma indexes_other: "indexes m R \<Longrightarrow> m (0x6F # k) = Some v \<longleftrightarrow> (\<exists>l \<in> R. \<exists>p. has_topic l p v \<and> k = otherKey (log_id l) (of_nat p))"
  by (simp only: indexes_def)

lemma indexes_logrec: "indexes m R \<Longrightarrow> m (0x72 # k) = Some v \<longleftrightarrow> (\<exists>l \<in> R. k = log_id l \<and> v = lAddress l @ lBlockHash l @ lData l)"
  by (simp only: indexes_def)

lemma log_id_length: "log_ok l \<Longrightarrow> length (log_id l) = 48"
  by (simp add: log_ok_def log_id_def NewID_def)

lemma of_nat_u8: "p \<le> 255 \<Longrightarrow> unat (of_nat p :: u8) = p"
  by (simp add: unsigned_of_nat take_bit_nat_eq_self)

lemma pos_inj: "p \<le> 255 \<Longrightarrow> q \<le> 255 \<Longrightarrow> (of_nat p :: u8) = of_nat q \<longleftrightarrow> p = q"
  using of_nat_u8 by metis

lemma topicKey_eq: "length t = 32 \<Longrightarrow> length t' = 32 \<Longrightarrow> topicKey t p i = topicKey t' q j \<longleftrightarrow> t = t' \<and> p = q \<and> i = j"
  by (auto simp: topicKey_def posToBytes_def)

lemma otherKey_eq: "otherKey i p = otherKey j q \<longleftrightarrow> i = j \<and> p = q"
  by (auto simp: otherKey_def posToBytes_def)

lemma has_topic_bounds: "has_topic l p t \<Longrightarrow> log_ok l \<Longrightarrow> p \<le> 255 \<and> length t = 32"
  by (auto simp: has_topic_def log_ok_def MaxCount_def)

lemma indexes_fresh:
  assumes R: "indexes m R" "logs_ok R" "i \<notin> log_id ` R"
  shows "length t = 32 \<Longrightarrow> m (0x74 # topicKey t p i) = None" "m (0x6F # otherKey i p) = None" "m (0x72 # i) = None"
proof -
  show "m (0x74 # topicKey t p i) = None" if t: "length t = 32"
  proof (cases "m (0x74 # topicKey t p i)")
    case (Some v)
    then obtain l q u where l: "l \<in> R" "has_topic l q u" "topicKey t p i = topicKey u (of_nat q) (log_id l)" using indexes_topic [OF R(1)] by blast
    have "log_ok l" using R(2) l(1) by (simp add: logs_ok_def)
    then have "length u = 32" using has_topic_bounds l(2) by blast
    then have "i = log_id l" using l(3) t by (simp add: topicKey_eq)
    with l(1) R(3) show ?thesis by simp
  qed
  show "m (0x6F # otherKey i p) = None"
  proof (cases "m (0x6F # otherKey i p)")
    case (Some v)
    then obtain l q where l: "l \<in> R" "otherKey i p = otherKey (log_id l) (of_nat q)" using indexes_other [OF R(1)] by blast
    with R(3) show ?thesis by (simp add: otherKey_eq)
  qed
  show "m (0x72 # i) = None"
  proof (cases "m (0x72 # i)")
    case (Some v)
    then show ?thesis using indexes_logrec [OF R(1)] R(3) by blast
  qed
qed

lemma log_id_parts:
  assumes "log_ok l"
  shows "ID_BlockNumber (log_id l) = Some (lBlockNumber l)" "ID_TxHash (log_id l) = Some (lTxHash l)" "ID_Index (log_id l) = Some (lIndex l)"
  using assms by (simp_all add: log_ok_def log_id_def NewID_def ID_BlockNumber_def ID_TxHash_def ID_Index_def slice_sub_def hashSize_def codec_simps)

lemma map_add_fresh:
  assumes "\<And>v. map_of xs x = Some v \<longleftrightarrow> P v" "\<And>v. P v \<Longrightarrow> m x = None"
  shows "(m ++ map_of xs) x = Some v \<longleftrightarrow> m x = Some v \<or> P v"
proof (cases "map_of xs x")
  case (Some w)
  then have "m x = None" "P v \<longleftrightarrow> v = w" using assms [of v] assms [of w] by auto
  then show ?thesis using Some by (auto simp: map_add_def)
qed (use assms in \<open>simp add: map_add_def\<close>)

text \<open>The interface: a store that keeps the contract of \<open>Kv_Store\<close>.\<close>

locale log_index = kv_store ops ok view for ops :: "'s kv_ops" and ok view
begin

lemma table_Put:
  assumes "ok s"
  shows "\<exists>s'. kvPut (table_ops ops [b]) s k (Some v) = Some (None, s') \<and> ok s' \<and> view s' = (view s)(b # k \<mapsto> v)"
  using Put_view [OF assms, of "b # k" v] by (simp add: table_ops_def prefixed_def)

lemma table_Prefix:
  assumes "ok s"
  shows "entries (\<lambda>k. view s (b # k)) (prefix p) (kvPrefix (table_ops ops [b]) s p)"
  using entries_strip [OF Prefix_view [OF assms, of "[b] @ p"], of "[b]"] by (simp add: table_ops_def prefixed_def)

lemma table_Get: "ok s \<Longrightarrow> kvGet (table_ops ops [b]) s k = Inr (view s (b # k))"
  using Get_view [of s "b # k"] by (simp add: table_ops_def prefixed_def)

text \<open>Storing the topics of a log from position \<open>p\<close> on.\<close>

lemma push_topics_view:
  "ok s \<Longrightarrow> \<exists>s'. push_topics ops i cnt p ts s = Some (None, s') \<and> ok s' \<and>
     view s' = (view s) ++ map_of (rev (concat (map (\<lambda>(q, t). [(0x74 # topicKey t (of_nat q) i, cnt), (0x6F # otherKey i (of_nat q), t)]) (enumerate p ts))))"
proof (induction ts arbitrary: p s)
  case (Cons t ts)
  obtain s1 where 1: "kvPut (topic_table ops) s (topicKey t (of_nat p) i) (Some cnt) = Some (None, s1)" "ok s1" "view s1 = (view s)(0x74 # topicKey t (of_nat p) i \<mapsto> cnt)"
    using table_Put [OF Cons.prems, of "0x74"] by (auto simp: topic_table_def)
  obtain s2 where 2: "kvPut (other_table ops) s1 (otherKey i (of_nat p)) (Some t) = Some (None, s2)" "ok s2" "view s2 = (view s1)(0x6F # otherKey i (of_nat p) \<mapsto> t)"
    using table_Put [OF 1(2), of "0x6F"] by (auto simp: other_table_def)
  obtain s3 where 3: "push_topics ops i cnt (Suc p) ts s2 = Some (None, s3)" "ok s3"
    "view s3 = (view s2) ++ map_of (rev (concat (map (\<lambda>(q, t). [(0x74 # topicKey t (of_nat q) i, cnt), (0x6F # otherKey i (of_nat q), t)]) (enumerate (Suc p) ts))))"
    using Cons.IH [OF 2(2)] by blast
  show ?case using 1(1) 2(1) 3 by (simp add: then_eff_def 1(3) 2(3))
qed simp


lemma push_topics_adds:
  assumes s: "ok s" and l: "log_ok l" and R: "indexes (view s) R" "logs_ok R" "log_id l \<notin> log_id ` R"
  shows "\<exists>s'. push_topics ops (log_id l) cnt 0 (lTopics l) s = Some (None, s') \<and> ok s' \<and>
     (\<forall>k v. view s' (0x74 # k) = Some v \<longleftrightarrow> view s (0x74 # k) = Some v \<or> (\<exists>p t. has_topic l p t \<and> k = topicKey t (of_nat p) (log_id l) \<and> v = cnt)) \<and>
     (\<forall>k v. view s' (0x6F # k) = Some v \<longleftrightarrow> view s (0x6F # k) = Some v \<or> (\<exists>p. has_topic l p v \<and> k = otherKey (log_id l) (of_nat p))) \<and>
     (\<forall>k. view s' (0x72 # k) = view s (0x72 # k))"
proof -
  let ?i = "log_id l"
  let ?kv = "concat (map (\<lambda>(q, t). [(0x74 # topicKey t (of_nat q) ?i, cnt), (0x6F # otherKey ?i (of_nat q), t)]) (enumerate 0 (lTopics l)))"
  obtain s' where s': "push_topics ops ?i cnt 0 (lTopics l) s = Some (None, s')" "ok s'" "view s' = (view s) ++ map_of (rev ?kv)" using push_topics_view [OF s] by blast
  have en: "(q, t) \<in> set (enumerate 0 (lTopics l)) \<longleftrightarrow> has_topic l q t" for q t by (auto simp: in_set_enumerate_eq has_topic_def)
  have mem: "(x, v) \<in> set ?kv \<longleftrightarrow> (\<exists>p t. has_topic l p t \<and> (x = 0x74 # topicKey t (of_nat p) ?i \<and> v = cnt \<or> x = 0x6F # otherKey ?i (of_nat p) \<and> v = t))" for x v
    using en by (auto simp: set_concat)
  have uniq: "v = w" if v: "(x, v) \<in> set ?kv" and w: "(x, w) \<in> set ?kv" for x v w
  proof -
    obtain p t where p: "has_topic l p t" "x = 0x74 # topicKey t (of_nat p) ?i \<and> v = cnt \<or> x = 0x6F # otherKey ?i (of_nat p) \<and> v = t" using v [unfolded mem] by blast
    obtain q u where q: "has_topic l q u" "x = 0x74 # topicKey u (of_nat q) ?i \<and> w = cnt \<or> x = 0x6F # otherKey ?i (of_nat q) \<and> w = u" using w [unfolded mem] by blast
    have "p \<le> 255" "q \<le> 255" using p(1) q(1) has_topic_bounds [OF _ l] by auto
    then have "otherKey ?i (of_nat p) = otherKey ?i (of_nat q) \<Longrightarrow> t = u" using p(1) q(1) pos_inj by (simp add: otherKey_eq has_topic_def)
    with p(2) q(2) show ?thesis by (elim disjE conjE) simp_all
  qed
  have look: "map_of (rev ?kv) x = Some v \<longleftrightarrow> (x, v) \<in> set ?kv" for x v
  proof
    show "map_of (rev ?kv) x = Some v \<Longrightarrow> (x, v) \<in> set ?kv" using map_of_SomeD [of "rev ?kv" x v] by (simp only: set_rev)
    assume v: "(x, v) \<in> set ?kv"
    then have "(x, v) \<in> set (rev ?kv)" by (simp only: set_rev)
    then obtain w where w: "map_of (rev ?kv) x = Some w" using weak_map_of_SomeI by fastforce
    then have "(x, w) \<in> set ?kv" using map_of_SomeD [OF w] by (simp only: set_rev)
    with uniq [OF v this] w show "map_of (rev ?kv) x = Some v" by simp
  qed
  have fresh: "view s x = None" if xv: "(x, v) \<in> set ?kv" for x v
  proof -
    obtain p t where p: "has_topic l p t" "x = 0x74 # topicKey t (of_nat p) ?i \<or> x = 0x6F # otherKey ?i (of_nat p)" using xv [unfolded mem] by blast
    have "length t = 32" using has_topic_bounds [OF p(1) l] by simp
    then show ?thesis using p(2) indexes_fresh [OF R] by (elim disjE) simp_all
  qed
  have view': "view s' x = Some v \<longleftrightarrow> view s x = Some v \<or> (x, v) \<in> set ?kv" for x v
    unfolding s'(3) by (rule map_add_fresh [OF look fresh])
  have same: "view s' (0x72 # k) = view s (0x72 # k)" for k
  proof -
    have "(0x72 # k, v) \<notin> set ?kv" for v unfolding mem by simp
    then have "view s' (0x72 # k) = Some v \<longleftrightarrow> view s (0x72 # k) = Some v" for v using view' by simp
    then show ?thesis by (metis option.exhaust)
  qed
  have t: "view s' (0x74 # k) = Some v \<longleftrightarrow> view s (0x74 # k) = Some v \<or> (\<exists>p t. has_topic l p t \<and> k = topicKey t (of_nat p) ?i \<and> v = cnt)" for k v
    unfolding view' mem by simp
  have o: "view s' (0x6F # k) = Some v \<longleftrightarrow> view s (0x6F # k) = Some v \<or> (\<exists>p. has_topic l p v \<and> k = otherKey ?i (of_nat p))" for k v
    unfolding view' mem by auto
  show ?thesis by (intro exI [of _ s'] conjI allI s'(1,2) t o same)
qed

text \<open>A log that is pushed under a new id becomes part of the index.\<close>

lemma Push_one:
  assumes s: "ok s" and l: "log_ok l" and R: "indexes (view s) R" "logs_ok R" "log_id l \<notin> log_id ` R"
  shows "\<exists>s'. topics_Push ops (l # ls) s = topics_Push ops ls s' \<and> ok s' \<and> indexes (view s') (insert l R) \<and> logs_ok (insert l R)"
proof -
  let ?i = "log_id l" and ?cnt = "[of_nat (length (lTopics l))] :: bytes"
  obtain s1 where p: "push_topics ops ?i ?cnt 0 (lTopics l) s = Some (None, s1)" "ok s1"
    and t: "\<And>k v. view s1 (0x74 # k) = Some v \<longleftrightarrow> view s (0x74 # k) = Some v \<or> (\<exists>p t. has_topic l p t \<and> k = topicKey t (of_nat p) ?i \<and> v = ?cnt)"
    and o: "\<And>k v. view s1 (0x6F # k) = Some v \<longleftrightarrow> view s (0x6F # k) = Some v \<or> (\<exists>p. has_topic l p v \<and> k = otherKey ?i (of_nat p))"
    and r: "\<And>k. view s1 (0x72 # k) = view s (0x72 # k)" using push_topics_adds [OF assms, of ?cnt] by blast
  obtain s2 where q: "kvPut (logrec_table ops) s1 ?i (Some (lAddress l @ lBlockHash l @ lData l)) = Some (None, s2)" "ok s2"
    and v2: "view s2 = (view s1)(0x72 # ?i \<mapsto> lAddress l @ lBlockHash l @ lData l)" using table_Put [OF p(2), of "0x72"] by (auto simp: logrec_table_def)
  have run: "topics_Push ops (l # ls) s = topics_Push ops ls s2"
    using p(1) q(1) l by (simp add: log_ok_def then_eff_def posToBytes_def)
  have fresh: "view s (0x72 # ?i) = None" using indexes_fresh(3) [OF R] .
  have "indexes (view s2) (insert l R)" unfolding indexes_def
  proof (intro conjI allI)
    fix k v
    have "view s2 (0x74 # k) = view s1 (0x74 # k)" "view s2 (0x6F # k) = view s1 (0x6F # k)" unfolding v2 by simp_all
    then show "view s2 (0x74 # k) = Some v \<longleftrightarrow> (\<exists>l \<in> insert l R. \<exists>p t. has_topic l p t \<and> k = topicKey t (of_nat p) (log_id l) \<and> v = [of_nat (length (lTopics l))])"
      "view s2 (0x6F # k) = Some v \<longleftrightarrow> (\<exists>l \<in> insert l R. \<exists>p. has_topic l p v \<and> k = otherKey (log_id l) (of_nat p))"
      by (simp_all add: t o indexes_topic [OF R(1)] indexes_other [OF R(1)] disj_commute)
    show "view s2 (0x72 # k) = Some v \<longleftrightarrow> (\<exists>l \<in> insert l R. k = log_id l \<and> v = lAddress l @ lBlockHash l @ lData l)"
      using fresh R(3) unfolding v2 by (auto simp: r indexes_logrec [OF R(1)])
  qed
  moreover have "logs_ok (insert l R)" using R(2,3) l by (auto simp: logs_ok_def)
  ultimately show ?thesis using run q(2) by blast
qed

end

subsection \<open>Counting the conditions\<close>

definition blank :: "u8 \<Rightarrow> Log \<Rightarrow> nat \<Rightarrow> logrecBuilder" where
  "blank cc l h = \<lparr>rbLog = \<lparr>lAddress = replicate 20 0, lTopics = replicate (length (lTopics l)) hash_Zero, lData = [], lBlockNumber = lBlockNumber l, lTxHash = lTxHash l, lBlockHash = hash_Zero, lIndex = lIndex l\<rparr>,
     rbID = log_id l, conditions = of_nat (unat cc - h), topicsCount = of_nat (length (lTopics l))\<rparr>"

text \<open>\<open>F\<close> says how often each log has been found.\<close>

definition tallied :: "u8 \<Rightarrow> Log set \<Rightarrow> (Log \<Rightarrow> nat) \<Rightarrow> found \<Rightarrow> bool" where
  "tallied cc R F st \<longleftrightarrow> distinct (map fst (fst st)) \<and> fst ` set (fst st) \<subseteq> log_id ` R \<and> set (snd st) \<subseteq> log_id ` R \<and>
     (\<forall>l \<in> R. map_of (fst st) (log_id l) = (if F l = 0 then None else Some (blank cc l (F l)))) \<and>
     (0 < unat cc \<longrightarrow> (\<forall>l \<in> R. count_list (snd st) (log_id l) = Suc (F l) - unat cc))"

lemma newLogrecBuilder_blank: "log_ok l \<Longrightarrow> newLogrecBuilder (log_id l) cc (of_nat (length (lTopics l))) = Some (blank cc l 0)"
  using of_nat_u8 [of "length (lTopics l)"] by (simp add: newLogrecBuilder_def log_id_parts blank_def log_ok_def MaxCount_def)

lemma nat_sub_word: "k \<le> 255 \<Longrightarrow> (of_nat k :: u8) > of_nat c \<longleftrightarrow> k > c" if "c \<le> 255" for k c
  using that of_nat_u8 by (simp add: word_less_nat_alt)

lemma MatchedWith_blank:
  assumes "c \<le> 255"
  shows "MatchedWith (of_nat c) (blank cc l h) = (unat cc - h \<le> c, blank cc l (h + c))"
proof -
  have "unat cc < 2 ^ LENGTH(8)" by (rule unsigned_less)
  then have b: "unat cc - h \<le> 255" by simp
  define k where "k = unat cc - h"
  have k: "unat cc - h = k" "unat cc - (h + c) = k - c" by (simp_all add: k_def)
  have gt: "(of_nat k :: u8) > of_nat c \<longleftrightarrow> k > c" using nat_sub_word [OF assms] b k(1) by simp
  have "(of_nat k :: u8) - of_nat c = of_nat (k - c)" if "k > c" using that by (simp add: of_nat_diff)
  with gt show ?thesis unfolding MatchedWith_def blank_def k by (cases "k > c") simp_all
qed

lemma MatchedWith_one: "MatchedWith 1 (blank cc l h) = (unat cc \<le> Suc h, blank cc l (Suc h))"
  using MatchedWith_blank [of 1 cc l h] by auto

definition topic_entry :: "hash \<Rightarrow> nat \<Rightarrow> Log \<Rightarrow> bytes \<times> bytes" where
  "topic_entry t p l = (topicKey t (of_nat p) (log_id l), [of_nat (length (lTopics l))])"

lemma match_entry_counts:
  assumes R: "logs_ok R" and l: "l \<in> R" and t: "length t = 32" and c: "tallied cc R F st"
  shows "\<exists>st'. match_entry cc st (topic_entry t p l) = Some st' \<and> tallied cc R (F(l := Suc (F l))) st'"
proof -
  obtain recs sent where st: "st = (recs, sent)" by fastforce
  have ok: "log_ok l" and inj: "inj_on log_id R" using R l by (simp_all add: logs_ok_def)
  have ex: "extractLogrecID (topicKey t (of_nat p) (log_id l)) = Some (log_id l)"
    using t log_id_length [OF ok] by (simp add: extractLogrecID_def topicKey_def posToBytes_def topicKeySize_def hashSize_def logrecKeySize_def)
  have old: "(case map_of recs (log_id l) of None \<Rightarrow> newLogrecBuilder (log_id l) cc (of_nat (length (lTopics l))) | Some rec \<Rightarrow> Some rec) = Some (blank cc l (F l))"
    using c l newLogrecBuilder_blank [OF ok] by (simp add: tallied_def st)
  let ?recs = "AList.update (log_id l) (blank cc l (Suc (F l))) recs" and ?sent = "if unat cc \<le> Suc (F l) then sent @ [log_id l] else sent"
  have run: "match_entry cc st (topic_entry t p l) = Some (?recs, ?sent)"
    using ex old by (simp add: match_entry_def topic_entry_def bytesToPos_def MatchedWith_one st)
  have "tallied cc R (F(l := Suc (F l))) (?recs, ?sent)" unfolding tallied_def fst_conv snd_conv
  proof (intro conjI ballI impI)
    show "distinct (map fst ?recs)" using c by (simp add: tallied_def st distinct_update)
    have "fst ` set ?recs \<subseteq> insert (log_id l) (fst ` set recs)" by (simp add: dom_update [unfolded])
    then show "fst ` set ?recs \<subseteq> log_id ` R" using c l by (auto simp: tallied_def st)
    show "set ?sent \<subseteq> log_id ` R" using c l by (auto simp: tallied_def st)
    fix r assume r: "r \<in> R"
    have i: "log_id r = log_id l \<longleftrightarrow> r = l" using inj r l by (auto simp: inj_on_def)
    then show "map_of ?recs (log_id r) = (if (F(l := Suc (F l))) r = 0 then None else Some (blank cc r ((F(l := Suc (F l))) r)))"
      using c r by (simp add: tallied_def st update_conv')
    assume "0 < unat cc"
    then have "count_list sent (log_id r) = Suc (F r) - unat cc" using c r by (simp add: tallied_def st)
    with i show "count_list ?sent (log_id r) = Suc ((F(l := Suc (F l))) r) - unat cc" by auto
  qed
  with run show ?thesis by blast
qed

lemma match_entries_count:
  assumes R: "logs_ok R" and t: "length t = 32"
  shows "distinct ls \<Longrightarrow> set ls \<subseteq> R \<Longrightarrow> tallied cc R F recs \<Longrightarrow>
    \<exists>recs'. foldM (match_entry cc) recs (map (topic_entry t p) ls) = Some recs' \<and> tallied cc R (\<lambda>l. F l + (if l \<in> set ls then 1 else 0)) recs'"
proof (induction ls arbitrary: F recs)
  case (Cons l ls)
  obtain recs1 where 1: "match_entry cc recs (topic_entry t p l) = Some recs1" "tallied cc R (F(l := Suc (F l))) recs1"
    using match_entry_counts [OF R _ t Cons.prems(3), of l p] Cons.prems(2) by auto
  obtain recs2 where 2: "foldM (match_entry cc) recs1 (map (topic_entry t p) ls) = Some recs2" "tallied cc R (\<lambda>r. (F(l := Suc (F l))) r + (if r \<in> set ls then 1 else 0)) recs2"
    using Cons.IH [OF _ _ 1(2)] Cons.prems(1,2) by auto
  have "(\<lambda>r. (F(l := Suc (F l))) r + (if r \<in> set ls then 1 else 0)) = (\<lambda>r. F r + (if r \<in> set (l # ls) then 1 else 0))" using Cons.prems(1) by (auto simp: fun_eq_iff)
  with 1(1) 2 show ?case by auto
qed simp

lemma list_preimage: "\<forall>x \<in> set xs. \<exists>y. x = f y \<and> Q y \<Longrightarrow> \<exists>ys. xs = map f ys \<and> (\<forall>y \<in> set ys. Q y)"
proof (induction xs)
  case (Cons x xs)
  then obtain y ys where "x = f y" "Q y" "xs = map f ys" "\<forall>y \<in> set ys. Q y" by auto
  then show ?case by (intro exI [of _ "y # ys"]) simp
qed simp


context log_index
begin

text \<open>The entries of a topic at a position are those of the logs that have it.\<close>

lemma topic_entries:
  assumes s: "ok s" and R: "indexes (view s) R" "logs_ok R" and t: "length t = 32" and p: "p \<le> 255"
  shows "\<exists>ls. distinct ls \<and> set ls = {l \<in> R. has_topic l p t} \<and> kvPrefix (topic_table ops) s (t @ posToBytes (of_nat p)) = map (topic_entry t p) ls"
proof -
  let ?es = "kvPrefix (topic_table ops) s (t @ posToBytes (of_nat p))"
  have e: "entries (\<lambda>k. view s (0x74 # k)) (prefix (t @ posToBytes (of_nat p))) ?es" using table_Prefix [OF s, of "0x74"] by (simp add: topic_table_def)
  have mem: "x \<in> set ?es \<longleftrightarrow> (\<exists>l. x = topic_entry t p l \<and> l \<in> R \<and> has_topic l p t)" for x
  proof -
    obtain k v where x: "x = (k, v)" by fastforce
    have "(k, v) \<in> set ?es \<longleftrightarrow> view s (0x74 # k) = Some v \<and> prefix (t @ [of_nat p]) k" using e by (simp add: entries_def posToBytes_def)
    also have "\<dots> \<longleftrightarrow> (\<exists>l \<in> R. \<exists>q u. has_topic l q u \<and> k = topicKey u (of_nat q) (log_id l) \<and> v = [of_nat (length (lTopics l))] \<and> prefix (t @ [of_nat p]) k)"
      unfolding indexes_topic [OF R(1)] by blast
    also have "\<dots> \<longleftrightarrow> (\<exists>l \<in> R. has_topic l p t \<and> (k, v) = topic_entry t p l)"
    proof -
      have "prefix (t @ [of_nat p]) (topicKey u (of_nat q) (log_id l)) \<longleftrightarrow> u = t \<and> q = p" if "l \<in> R" "has_topic l q u" for l q u
      proof -
        have "q \<le> 255 \<and> length u = 32" using that R(2) has_topic_bounds by (auto simp: logs_ok_def)
        then show ?thesis using t p pos_inj by (auto simp: topicKey_def posToBytes_def prefix_def)
      qed
      note pre = this
      show ?thesis
      proof
        assume "\<exists>l \<in> R. \<exists>q u. has_topic l q u \<and> k = topicKey u (of_nat q) (log_id l) \<and> v = [of_nat (length (lTopics l))] \<and> prefix (t @ [of_nat p]) k"
        then show "\<exists>l \<in> R. has_topic l p t \<and> (k, v) = topic_entry t p l" using pre by (auto simp: topic_entry_def)
      next
        assume "\<exists>l \<in> R. has_topic l p t \<and> (k, v) = topic_entry t p l"
        then obtain l where l: "l \<in> R" "has_topic l p t" "k = topicKey t (of_nat p) (log_id l)" "v = [of_nat (length (lTopics l))]" by (auto simp: topic_entry_def)
        with pre [OF l(1,2)] show "\<exists>l \<in> R. \<exists>q u. has_topic l q u \<and> k = topicKey u (of_nat q) (log_id l) \<and> v = [of_nat (length (lTopics l))] \<and> prefix (t @ [of_nat p]) k" by metis
      qed
    qed
    finally show ?thesis unfolding x by blast
  qed
  then obtain ls where ls: "?es = map (topic_entry t p) ls" "\<forall>l \<in> set ls. l \<in> R \<and> has_topic l p t"
    using list_preimage [of ?es "topic_entry t p" "\<lambda>l. l \<in> R \<and> has_topic l p t"] by blast
  have "distinct ?es" using e unfolding entries_def strict_sorted_iff by (auto simp: distinct_map)
  then have "distinct ls" unfolding ls(1) by (simp add: distinct_map)
  moreover have "set ls = {l \<in> R. has_topic l p t}"
  proof (intro equalityI subsetI)
    fix l assume l: "l \<in> {l \<in> R. has_topic l p t}"
    then have "topic_entry t p l \<in> set ?es" using mem by blast
    then obtain l' where l': "l' \<in> set ls" "topic_entry t p l = topic_entry t p l'" unfolding ls(1) by auto
    then have "log_id l = log_id l'" by (simp add: topic_entry_def topicKey_def)
    then show "l \<in> set ls" using l l'(1) ls(2) R(2) by (auto simp: logs_ok_def inj_on_def)
  qed (use ls(2) in blast)
  ultimately show ?thesis using ls(1) by blast
qed

lemma alternative_counts:
  assumes s: "ok s" and R: "indexes (view s) R" "logs_ok R" and t: "length t = 32" and p: "p \<le> 255" and c: "tallied cc R F recs"
  shows "\<exists>recs'. match_alternative ops s cc p recs t = Some recs' \<and> tallied cc R (\<lambda>l. F l + (if has_topic l p t then 1 else 0)) recs'"
proof -
  obtain ls where ls: "distinct ls" "set ls = {l \<in> R. has_topic l p t}" "kvPrefix (topic_table ops) s (t @ posToBytes (of_nat p)) = map (topic_entry t p) ls"
    using topic_entries [OF s R t p] by blast
  have sub: "set ls \<subseteq> R" using ls(2) by blast
  obtain recs' where r: "foldM (match_entry cc) recs (map (topic_entry t p) ls) = Some recs'" "tallied cc R (\<lambda>l. F l + (if l \<in> set ls then 1 else 0)) recs'"
    using match_entries_count [OF R(2) t ls(1) sub c] by blast
  have "tallied cc R (\<lambda>l. F l + (if has_topic l p t then 1 else 0)) recs'" using r(2) unfolding tallied_def ls(2) by simp
  with r(1) ls(3) show ?thesis by (simp add: match_alternative_def)
qed

lemma condition_counts:
  assumes s: "ok s" and R: "indexes (view s) R" "logs_ok R" and p: "p \<le> 255"
  shows "\<forall>t \<in> set cond. length t = 32 \<Longrightarrow> tallied cc R F recs \<Longrightarrow>
    \<exists>recs'. foldM (match_alternative ops s cc p) recs cond = Some recs' \<and> tallied cc R (\<lambda>l. F l + length (filter (has_topic l p) cond)) recs'"
proof (induction cond arbitrary: F recs)
  case (Cons t cond)
  obtain r1 where 1: "match_alternative ops s cc p recs t = Some r1" "tallied cc R (\<lambda>l. F l + (if has_topic l p t then 1 else 0)) r1"
    using alternative_counts [OF s R _ p Cons.prems(2), of t] Cons.prems(1) by auto
  obtain r2 where 2: "foldM (match_alternative ops s cc p) r1 cond = Some r2" "tallied cc R (\<lambda>l. F l + (if has_topic l p t then 1 else 0) + length (filter (has_topic l p) cond)) r2"
    using Cons.IH [OF _ 1(2)] Cons.prems(1) by auto
  have "(\<lambda>l. F l + (if has_topic l p t then 1 else 0) + length (filter (has_topic l p) cond)) = (\<lambda>l. F l + length (filter (has_topic l p) (t # cond)))" by auto
  with 1(1) 2 show ?case by auto
qed simp

end

text \<open>How often a log is found, and the number of wildcards.\<close>

fun hits :: "Log \<Rightarrow> nat \<Rightarrow> hash list list \<Rightarrow> nat" where
  "hits l p [] = 0"
| "hits l p (cond # topics) = length (filter (has_topic l p) cond) + hits l (Suc p) topics"

definition wild :: "hash list list \<Rightarrow> nat" where
  "wild topics = length (filter (\<lambda>c. c = []) topics)"

context log_index
begin

lemma conditions_count:
  assumes s: "ok s" and R: "indexes (view s) R" "logs_ok R"
  shows "\<forall>c \<in> set topics. \<forall>t \<in> set c. length t = 32 \<Longrightarrow> p + length topics \<le> 256 \<Longrightarrow> tallied cc R F recs \<Longrightarrow>
    \<exists>recs'. match_conditions ops s cc p topics recs w = Some (recs', w + of_nat (wild topics)) \<and> tallied cc R (\<lambda>l. F l + hits l p topics) recs'"
proof (induction topics arbitrary: p F recs w)
  case (Cons cond topics)
  show ?case
  proof (cases "cond = []")
    case True
    then show ?thesis using Cons.IH [of "Suc p" F recs "w + 1"] Cons.prems by (simp add: wild_def add.assoc)
  next
    case False
    have p: "p \<le> 255" using Cons.prems(2) by simp
    obtain r1 where 1: "foldM (match_alternative ops s cc p) recs cond = Some r1" "tallied cc R (\<lambda>l. F l + length (filter (has_topic l p) cond)) r1"
      using condition_counts [OF s R p _ Cons.prems(3), of cond] Cons.prems(1) by auto
    obtain r2 where 2: "match_conditions ops s cc (Suc p) topics r1 w = Some (r2, w + of_nat (wild topics))" "tallied cc R (\<lambda>l. F l + length (filter (has_topic l p) cond) + hits l (Suc p) topics) r2"
      using Cons.IH [OF _ _ 1(2), of "Suc p" w] Cons.prems(1,2) by auto
    with False 1(1) show ?thesis by (auto simp: wild_def add.assoc)
  qed
qed (simp add: wild_def)

end

subsection \<open>Reading a log back\<close>

lemma SetOtherTopic_fits:
  assumes l: "log_ok l" and p: "p < length (lTopics l)" and rec: "topicsCount rec = of_nat (length (lTopics l))" "length (lTopics (rbLog rec)) = length (lTopics l)"
    "\<forall>q < length (lTopics l). lTopics (rbLog rec) ! q \<in> {hash_Zero, lTopics l ! q}"
  shows "\<exists>ts. SetOtherTopic (of_nat p) (lTopics l ! p) rec = Some (rec\<lparr>rbLog := (rbLog rec)\<lparr>lTopics := ts\<rparr>\<rparr>) \<and> ts = (lTopics (rbLog rec))[p := lTopics l ! p]"
proof -
  have n: "length (lTopics l) \<le> 255" using l by (simp add: log_ok_def MaxCount_def)
  then have le: "\<not> of_nat p \<ge> topicsCount rec" and u: "unat (of_nat p :: u8) = p" using p nat_sub_word [of p "length (lTopics l)"] of_nat_u8 [of p] by (simp_all add: rec(1) not_le)
  let ?old = "lTopics (rbLog rec) ! p"
  have "lTopics (rbLog rec) = (lTopics (rbLog rec))[p := lTopics l ! p]" if "?old \<noteq> hash_Zero" using rec(3) p that by (metis insertE list_update_id singletonD)
  then show ?thesis using le u p rec(2) by (auto simp: SetOtherTopic_def)
qed

lemma set_others_fill:
  assumes l: "log_ok l"
  shows "\<forall>(k, v) \<in> set es. \<exists>p < length (lTopics l). k = otherKey (log_id l) (of_nat p) \<and> v = lTopics l ! p \<Longrightarrow>
    topicsCount rec = of_nat (length (lTopics l)) \<Longrightarrow> length (lTopics (rbLog rec)) = length (lTopics l) \<Longrightarrow>
    \<forall>q < length (lTopics l). lTopics (rbLog rec) ! q \<in> {hash_Zero, lTopics l ! q} \<Longrightarrow>
    \<exists>ts. set_others es rec = Some (rec\<lparr>rbLog := (rbLog rec)\<lparr>lTopics := ts\<rparr>\<rparr>) \<and> length ts = length (lTopics l) \<and>
      (\<forall>q < length (lTopics l). ts ! q = (if otherKey (log_id l) (of_nat q) \<in> fst ` set es then lTopics l ! q else lTopics (rbLog rec) ! q))"
proof (induction es arbitrary: rec)
  case Nil
  then show ?case by (intro exI [of _ "lTopics (rbLog rec)"]) (simp add: set_others_def)
next
  case (Cons e es)
  obtain p where p: "p < length (lTopics l)" "e = (otherKey (log_id l) (of_nat p), lTopics l ! p)" using Cons.prems(1) by auto
  have n: "length (lTopics l) \<le> 255" "length (lTopics l ! p) = 32" using l p(1) by (auto simp: log_ok_def MaxCount_def)
  have ex: "extractTopicPos (otherKey (log_id l) (of_nat p)) = Some (of_nat p)"
    using log_id_length [OF l] by (simp add: extractTopicPos_def otherKey_def posToBytes_def otherKeySize_def logrecKeySize_def hashSize_def bytesToPos_def slice_sub_def)
  let ?ts = "(lTopics (rbLog rec))[p := lTopics l ! p]"
  let ?rec = "rec\<lparr>rbLog := (rbLog rec)\<lparr>lTopics := ?ts\<rparr>\<rparr>"
  have "SetOtherTopic (of_nat p) (lTopics l ! p) rec = Some ?rec" using SetOtherTopic_fits [OF l p(1) Cons.prems(2-4)] by blast
  then have step: "set_others (e # es) rec = set_others es ?rec" using ex n(2) p(2) by (simp add: set_others_def BytesToEvent_id)
  have "\<forall>q < length (lTopics l). lTopics (rbLog ?rec) ! q \<in> {hash_Zero, lTopics l ! q}" using Cons.prems(3,4) p(1) by (simp add: nth_list_update)
  then obtain ts where ts: "set_others es ?rec = Some (?rec\<lparr>rbLog := (rbLog ?rec)\<lparr>lTopics := ts\<rparr>\<rparr>)" "length ts = length (lTopics l)"
    "\<forall>q < length (lTopics l). ts ! q = (if otherKey (log_id l) (of_nat q) \<in> fst ` set es then lTopics l ! q else lTopics (rbLog ?rec) ! q)"
    using Cons.IH [of ?rec] Cons.prems(1-3) by auto
  have key: "otherKey (log_id l) (of_nat q) = fst e \<longleftrightarrow> q = p" if "q < length (lTopics l)" for q
    using that p n(1) pos_inj [of q p] by (simp add: otherKey_eq)
  have "ts ! q = (if otherKey (log_id l) (of_nat q) \<in> fst ` set (e # es) then lTopics l ! q else lTopics (rbLog rec) ! q)" if "q < length (lTopics l)" for q
    using ts(3) that key [OF that] Cons.prems(3) by (auto simp: nth_list_update)
  with step ts(1,2) show ?case by (intro exI [of _ ts]) simp
qed

context log_index
begin

lemma Fetch_log:
  assumes s: "ok s" and R: "indexes (view s) R" "logs_ok R" and l: "l \<in> R"
  shows "\<exists>rec. Fetch ops s (blank cc l h) = Some (Inr rec) \<and> rbLog rec = l"
proof -
  have ok: "log_ok l" and inj: "inj_on log_id R" using R(2) l by (simp_all add: logs_ok_def)
  let ?es = "kvPrefix (other_table ops) s (log_id l)" and ?rec = "blank cc l h"
  have e: "entries (\<lambda>k. view s (0x6F # k)) (prefix (log_id l)) ?es" using table_Prefix [OF s, of "0x6F"] by (simp add: other_table_def)
  have mem: "(k, v) \<in> set ?es \<longleftrightarrow> (\<exists>p < length (lTopics l). k = otherKey (log_id l) (of_nat p) \<and> v = lTopics l ! p)" for k v
  proof -
    have same: "prefix (log_id l) (otherKey (log_id r) q) \<longleftrightarrow> r = l" if "r \<in> R" for r q
    proof -
      have "length (log_id r) = length (log_id l)" using log_id_length R(2) that l by (simp add: logs_ok_def)
      then show ?thesis using inj that l by (auto simp: otherKey_def posToBytes_def prefix_def inj_on_def append_eq_append_conv)
    qed
    have "(k, v) \<in> set ?es \<longleftrightarrow> view s (0x6F # k) = Some v \<and> prefix (log_id l) k" using e by (simp add: entries_def)
    also have "\<dots> \<longleftrightarrow> (\<exists>r \<in> R. \<exists>p. has_topic r p v \<and> k = otherKey (log_id r) (of_nat p) \<and> prefix (log_id l) k)" unfolding indexes_other [OF R(1)] by blast
    also have "\<dots> \<longleftrightarrow> (\<exists>p. has_topic l p v \<and> k = otherKey (log_id l) (of_nat p))" using same l by blast
    finally show ?thesis by (auto simp: has_topic_def)
  qed
  obtain ts where ts: "set_others ?es ?rec = Some (?rec\<lparr>rbLog := (rbLog ?rec)\<lparr>lTopics := ts\<rparr>\<rparr>)" "length ts = length (lTopics l)"
    "\<forall>q < length (lTopics l). ts ! q = (if otherKey (log_id l) (of_nat q) \<in> fst ` set ?es then lTopics l ! q else lTopics (rbLog ?rec) ! q)"
    using set_others_fill [OF ok, of ?es ?rec] mem by (auto simp: blank_def)
  have "otherKey (log_id l) (of_nat q) \<in> fst ` set ?es" if "q < length (lTopics l)" for q using mem that by force
  then have "ts = lTopics l" using ts(2,3) by (intro nth_equalityI) simp_all
  moreover have "view s (0x72 # log_id l) = Some (lAddress l @ lBlockHash l @ lData l)" using indexes_logrec [OF R(1)] l by blast
  then have "kvGet (logrec_table ops) s (log_id l) = Inr (Some (lAddress l @ lBlockHash l @ lData l))" using table_Get [OF s] by (simp add: logrec_table_def)
  moreover have "rbID ?rec = log_id l" by (simp add: blank_def)
  moreover have "length (lAddress l) = 20" "length (lBlockHash l) = 32" using ok by (simp_all add: log_ok_def)
  ultimately show ?thesis using ts(1) by (simp add: Fetch_def slice_sub_def hashSize_def BytesToEvent_id) (simp add: blank_def)
qed

lemma build_matched_spec:
  assumes s: "ok s" and R: "indexes (view s) R" "logs_ok R" and w: "w \<le> 255"
  shows "\<forall>(i, rec) \<in> set recs. \<exists>l \<in> R. i = log_id l \<and> rec = blank cc l (F l) \<Longrightarrow> distinct (map fst recs) \<Longrightarrow>
    \<exists>ls. build_matched ops s (of_nat w) recs = Some (Inr ls) \<and> distinct ls \<and> set ls = {l \<in> R. log_id l \<in> fst ` set recs \<and> unat cc \<le> F l + w}"
proof (induction recs)
  case (Cons x recs)
  obtain l where l: "l \<in> R" "x = (log_id l, blank cc l (F l))" using Cons.prems(1) by auto
  obtain ls where ls: "build_matched ops s (of_nat w) recs = Some (Inr ls)" "distinct ls" "set ls = {l \<in> R. log_id l \<in> fst ` set recs \<and> unat cc \<le> F l + w}"
    using Cons.IH Cons.prems by auto
  have inj: "log_id r = log_id l \<longleftrightarrow> r = l" if "r \<in> R" for r using R(2) that l(1) by (auto simp: logs_ok_def inj_on_def)
  have new: "log_id l \<notin> fst ` set recs" using Cons.prems(2) l(2) by simp
  have m: "snd (MatchedWith (of_nat w) (blank cc l (F l))) = blank cc l (F l + w)" using MatchedWith_blank [OF w] by simp
  have d: "IsMatched (blank cc l (F l + w)) \<longleftrightarrow> unat cc \<le> F l + w"
  proof -
    have "unat cc < 2 ^ LENGTH(8)" by (rule unsigned_less)
    then have "(of_nat (unat cc - (F l + w)) :: u8) = 0 \<longleftrightarrow> unat cc - (F l + w) = 0" using pos_inj [of "unat cc - (F l + w)" 0] by simp
    then show ?thesis by (simp add: IsMatched_def blank_def)
  qed
  show ?case
  proof (cases "unat cc \<le> F l + w")
    case True
    obtain rec where "Fetch ops s (blank cc l (F l + w)) = Some (Inr rec)" "rbLog rec = l" using Fetch_log [OF s R l(1)] by blast
    then have "build_matched ops s (of_nat w) (x # recs) = Some (Inr (l # ls))" using True l(2) m d ls(1) by (simp add: Let_def)
    moreover have "l \<notin> set ls" using new ls(3) by simp
    ultimately show ?thesis using ls(2,3) True l inj by (intro exI [of _ "l # ls"]) auto
  next
    case False
    then have "build_matched ops s (of_nat w) (x # recs) = Some (Inr ls)" using l(2) m d ls(1) by (simp add: Let_def)
    then show ?thesis using ls(2,3) False l inj by (intro exI [of _ ls]) auto
  qed
qed simp

lemma query_counts:
  assumes s: "ok s" and R: "indexes (view s) R" "logs_ok R" and q: "length topics \<le> MaxCount" "\<forall>c \<in> set topics. \<forall>t \<in> set c. length t = 32"
  shows "\<exists>recs sent. match_conditions ops s (of_nat (length topics)) 0 topics ([], []) 0 = Some ((recs, sent), of_nat (wild topics)) \<and>
     tallied (of_nat (length topics)) R (\<lambda>l. hits l 0 topics) (recs, sent)"
proof -
  have "tallied (of_nat (length topics)) R (\<lambda>l. 0) ([], [])" by (auto simp: tallied_def)
  from conditions_count [OF s R q(2) _ this, of 0 0] show ?thesis using q(1) by (auto simp: MaxCount_def)
qed

lemma fetchSync_counts:
  assumes s: "ok s" and R: "indexes (view s) R" "logs_ok R" and it: "\<And>xs. mset (it xs) = mset xs"
    and q: "length topics \<le> MaxCount" "\<forall>c \<in> set topics. \<forall>t \<in> set c. length t = 32"
  shows "\<exists>ls. fetchSync ops it topics s = Some (Inr ls) \<and> distinct ls \<and> set ls = {l \<in> R. 0 < hits l 0 topics \<and> length topics \<le> hits l 0 topics + wild topics}"
proof -
  let ?cc = "of_nat (length topics) :: u8"
  have n: "length topics \<le> 255" using q(1) by (simp add: MaxCount_def)
  then have cc: "unat ?cc = length topics" by (rule of_nat_u8)
  have w: "wild topics \<le> 255" unfolding wild_def using n length_filter_le order.trans by blast
  obtain recs sent where r: "match_conditions ops s ?cc 0 topics ([], []) 0 = Some ((recs, sent), of_nat (wild topics))" "tallied ?cc R (\<lambda>l. hits l 0 topics) (recs, sent)"
    using query_counts [OF s R q] by blast
  have set_it: "set (it recs) = set recs" using it by (metis mset_eq_setD)
  have d: "distinct (map fst recs)" using r(2) by (simp add: tallied_def)
  then have dit: "distinct (map fst (it recs))" using it by (metis mset_eq_imp_distinct_iff mset_map)
  have each: "\<forall>(i, rec) \<in> set (it recs). \<exists>l \<in> R. i = log_id l \<and> rec = blank ?cc l (hits l 0 topics)"
  proof (clarsimp simp: set_it)
    fix i rec assume m: "(i, rec) \<in> set recs"
    then obtain l where l: "l \<in> R" "i = log_id l" using r(2) by (force simp: tallied_def)
    have "map_of recs i = Some rec" using m d by simp
    then show "\<exists>l \<in> R. i = log_id l \<and> rec = blank ?cc l (hits l 0 topics)" using r(2) l by (auto simp: tallied_def split: if_splits)
  qed
  have "log_id l \<in> fst ` set (it recs) \<longleftrightarrow> 0 < hits l 0 topics" if "l \<in> R" for l
    unfolding set_it using r(2) that map_of_eq_None_iff [of recs "log_id l"] by (auto simp: tallied_def split: if_splits)
  then have "{l \<in> R. log_id l \<in> fst ` set (it recs) \<and> unat ?cc \<le> hits l 0 topics + wild topics} = {l \<in> R. 0 < hits l 0 topics \<and> length topics \<le> hits l 0 topics + wild topics}"
    unfolding cc by blast
  moreover have "fetchSync ops it topics s = build_matched ops s (of_nat (wild topics)) (it recs)" using r(1) q(1) by (simp add: fetchSync_def)
  ultimately show ?thesis using build_matched_spec [OF s R w each dit] by metis
qed

end


subsection \<open>Exactness\<close>

text \<open>A log matches a query when it has one of the alternatives at every position that is not a wildcard.\<close>

definition matches :: "Log \<Rightarrow> hash list list \<Rightarrow> bool" where
  "matches l topics \<longleftrightarrow> (\<forall>p < length topics. topics ! p \<noteq> [] \<longrightarrow> p < length (lTopics l) \<and> lTopics l ! p \<in> set (topics ! p))"

lemma hits_once: "distinct c \<Longrightarrow> length (filter (has_topic l p) c) = (if p < length (lTopics l) \<and> lTopics l ! p \<in> set c then 1 else 0)"
  by (induction c) (auto simp: has_topic_def)

lemma hits_bound:
  "\<forall>c \<in> set topics. distinct c \<Longrightarrow> hits l p topics + wild topics \<le> length topics \<and>
    (length topics \<le> hits l p topics + wild topics \<longleftrightarrow> (\<forall>q < length topics. topics ! q \<noteq> [] \<longrightarrow> p + q < length (lTopics l) \<and> lTopics l ! (p + q) \<in> set (topics ! q)))"
proof (induction topics arbitrary: p)
  case (Cons c topics)
  have one: "length (filter (has_topic l p) c) = (if p < length (lTopics l) \<and> lTopics l ! p \<in> set c then 1 else 0)" using hits_once Cons.prems by simp
  have w: "wild (c # topics) = (if c = [] then 1 else 0) + wild topics" by (simp add: wild_def)
  have ih: "hits l (Suc p) topics + wild topics \<le> length topics"
    "length topics \<le> hits l (Suc p) topics + wild topics \<longleftrightarrow> (\<forall>q < length topics. topics ! q \<noteq> [] \<longrightarrow> Suc p + q < length (lTopics l) \<and> lTopics l ! (Suc p + q) \<in> set (topics ! q))"
    using Cons.IH [of "Suc p"] Cons.prems by simp_all
  have all: "(\<forall>q < length (c # topics). (c # topics) ! q \<noteq> [] \<longrightarrow> p + q < length (lTopics l) \<and> lTopics l ! (p + q) \<in> set ((c # topics) ! q)) \<longleftrightarrow>
      (c \<noteq> [] \<longrightarrow> p < length (lTopics l) \<and> lTopics l ! p \<in> set c) \<and> (\<forall>q < length topics. topics ! q \<noteq> [] \<longrightarrow> Suc p + q < length (lTopics l) \<and> lTopics l ! (Suc p + q) \<in> set (topics ! q))"
    by (auto simp: less_Suc_eq_0_disj)
  show ?case unfolding all using ih one w by (cases "c = []") (auto split: if_splits)
qed (simp add: wild_def)

lemma hits_none: "hits l p topics = 0" if "\<forall>c \<in> set topics. c = []"
  using that by (induction topics arbitrary: p) auto

lemma hits_some:
  assumes "\<forall>c \<in> set topics. distinct c" "c \<in> set topics" "c \<noteq> []" "length topics \<le> hits l p topics + wild topics"
  shows "0 < hits l p topics"
proof -
  have "wild topics < length topics" using assms(2,3) unfolding wild_def by (metis (mono_tags, lifting) length_filter_less)
  then show ?thesis using assms(4) by simp
qed

lemma found_iff:
  assumes "\<forall>c \<in> set topics. distinct c"
  shows "0 < hits l 0 topics \<and> length topics \<le> hits l 0 topics + wild topics \<longleftrightarrow> (\<exists>c \<in> set topics. c \<noteq> []) \<and> matches l topics"
proof -
  have "hits l 0 topics = 0" if "\<not> (\<exists>c \<in> set topics. c \<noteq> [])" using that by (intro hits_none) blast
  then show ?thesis using hits_bound [OF assms, of l 0] hits_some [OF assms, of _ l 0] unfolding matches_def by (cases "\<exists>c \<in> set topics. c \<noteq> []") auto
qed

context log_index
begin

lemma Push_logs:
  "ok s \<Longrightarrow> indexes (view s) R \<Longrightarrow> logs_ok R \<Longrightarrow> \<forall>l \<in> set ls. log_ok l \<Longrightarrow> distinct (map log_id ls) \<Longrightarrow> log_id ` set ls \<inter> log_id ` R = {} \<Longrightarrow>
    \<exists>s'. topics_Push ops ls s = Some (None, s') \<and> ok s' \<and> indexes (view s') (set ls \<union> R) \<and> logs_ok (set ls \<union> R)"
proof (induction ls arbitrary: s R)
  case (Cons l ls)
  obtain s1 where 1: "topics_Push ops (l # ls) s = topics_Push ops ls s1" "ok s1" "indexes (view s1) (insert l R)" "logs_ok (insert l R)"
    using Push_one [OF Cons.prems(1) _ Cons.prems(2,3), of l ls] Cons.prems(4,6) by auto
  have "log_id ` set ls \<inter> log_id ` insert l R = {}" using Cons.prems(5,6) by auto
  with Cons.IH [OF 1(2-4)] Cons.prems(4,5) 1(1) show ?case by auto
qed simp

lemma indexes_empty: "view s = Map.empty \<Longrightarrow> indexes (view s) {}"
  by (simp add: indexes_def)

end

interpretation mem_index: log_index mem_ops mem_ok mem_view
  by unfold_locales

lemma mem_New_empty: "mem_ok mem_New" "mem_view mem_New = Map.empty"
  by (simp_all add: mem_ok_def mem_view_def mem_New_def fun_eq_iff)


definition sample_log :: "u64 \<Rightarrow> hash list \<Rightarrow> Log" where
  "sample_log n ts = \<lparr>lAddress = replicate 20 1, lTopics = ts, lData = [7, 7], lBlockNumber = n, lTxHash = replicate 32 2, lBlockHash = replicate 32 3, lIndex = 0\<rparr>"

abbreviation topic_a :: hash where "topic_a \<equiv> replicate 32 10"

abbreviation topic_b :: hash where "topic_b \<equiv> replicate 32 11"


end
