(* ===== verification/Topics_Async.thy ===== *)
theory Topics_Async
  imports Topics_Db
begin

text \<open>
  \<open>topicsdb/search_async.go\<close>: the search in which every record has a goroutine that waits for a token on
  the channel \<open>ok\<close> (capacity 1), reads the record and hands it over on the unbuffered channel \<open>ready\<close>. The
  searching goroutine sends a token from every call of \<open>MatchedWith\<close> that leaves no condition open, and
  takes the record over in \<open>Build\<close>. Its program is the sequence of these sends and receives.
\<close>

datatype action = Send ID | Build ID

datatype fetcher = Waiting | Fetching | Offering | Finished

definition final_actions :: "u8 \<Rightarrow> ID \<times> logrecBuilder \<Rightarrow> action list" where
  "final_actions wildcards e = (case MatchedWith wildcards (snd e) of (tok, rec) \<Rightarrow>
     (if tok then [Send (fst e)] else []) @ (if IsMatched rec then [Build (fst e)] else []))"

definition fetchAsync_program :: "'s kv_ops \<Rightarrow> (rec_map \<Rightarrow> rec_map) \<Rightarrow> hash list list \<Rightarrow> 's \<Rightarrow> (topics_err + action list) option" where
  "fetchAsync_program ops it topics s =
     (if length topics > MaxCount then Some (Inl ErrTooManyTopics)
      else do {
        ((recs, sent), wildcards) \<leftarrow> match_conditions ops s (of_nat (length topics)) 0 topics ([], []) 0;
        Some (Inr (map Send sent @ concat (map (final_actions wildcards) (it recs)))) })"

record async =
  program :: "action list"
  tokens :: "ID \<Rightarrow> nat"  \<comment> \<open>in the channel \<open>ok\<close> of a record\<close>
  fetchers :: "ID \<Rightarrow> fetcher"

definition async_start :: "action list \<Rightarrow> async" where
  "async_start prog = \<lparr>program = prog, tokens = (\<lambda>i. 0), fetchers = (\<lambda>i. Waiting)\<rparr>"

inductive async_step :: "async \<Rightarrow> async \<Rightarrow> bool" where
  send: "program a = Send i # prog \<Longrightarrow> tokens a i < 1 \<Longrightarrow> async_step a (a\<lparr>program := prog, tokens := (tokens a)(i := Suc (tokens a i))\<rparr>)"
| receive: "0 < tokens a i \<Longrightarrow> fetchers a i = Waiting \<Longrightarrow> async_step a (a\<lparr>tokens := (tokens a)(i := tokens a i - 1), fetchers := (fetchers a)(i := Fetching)\<rparr>)"
| fetched: "fetchers a i = Fetching \<Longrightarrow> async_step a (a\<lparr>fetchers := (fetchers a)(i := Offering)\<rparr>)"
| build: "program a = Build i # prog \<Longrightarrow> fetchers a i = Offering \<Longrightarrow> async_step a (a\<lparr>program := prog, fetchers := (fetchers a)(i := Finished)\<rparr>)"

abbreviation runs_to :: "async \<Rightarrow> async \<Rightarrow> bool" where
  "runs_to \<equiv> async_step\<^sup>*\<^sup>*"

definition stuck :: "async \<Rightarrow> bool" where
  "stuck a \<longleftrightarrow> (\<forall>b. \<not> async_step a b)"

text \<open>The tokens sent to a record are in its channel or have been taken by its goroutine.\<close>

definition taken :: "async \<Rightarrow> ID \<Rightarrow> nat" where
  "taken a i = tokens a i + (if fetchers a i = Waiting then 0 else 1)"

definition async_inv :: "action list \<Rightarrow> async \<Rightarrow> bool" where
  "async_inv prog a \<longleftrightarrow> (\<exists>done. prog = done @ program a \<and> (\<forall>i. tokens a i \<le> 1 \<and> taken a i = count_list done (Send i) \<and> (fetchers a i = Finished \<longleftrightarrow> Build i \<in> set done)))"

lemma async_inv_start: "async_inv prog (async_start prog)"
  by (simp add: async_inv_def async_start_def taken_def)

lemma async_inv_step:
  assumes "async_inv prog a" "async_step a b"
  shows "async_inv prog b"
proof -
  obtain dn where d: "prog = dn @ program a" and i: "\<And>i. tokens a i \<le> 1" "\<And>i. taken a i = count_list dn (Send i)" "\<And>i. fetchers a i = Finished \<longleftrightarrow> Build i \<in> set dn"
    using assms(1) unfolding async_inv_def by blast
  from assms(2) show ?thesis
  proof (cases rule: async_step.cases)
    case (send i p)
    then show ?thesis unfolding async_inv_def using d i i(2) [of i] by (intro exI [of _ "dn @ [Send i]"]) (auto simp: taken_def)
  next
    case (receive i)
    then have "tokens a i = 1" using i(1) [of i] by simp
    with receive show ?thesis unfolding async_inv_def using d i i(2) [of i] i(3) [of i] by (intro exI [of _ dn]) (auto simp: taken_def)
  next
    case (fetched i)
    then show ?thesis unfolding async_inv_def using d i i(1) [of i] i(2) [of i] i(3) [of i] by (intro exI [of _ dn]) (auto simp: taken_def)
  next
    case (build i p)
    then show ?thesis unfolding async_inv_def using d i i(2) [of i] by (intro exI [of _ "dn @ [Build i]"]) (auto simp: taken_def)
  qed
qed

lemma async_inv_runs: "runs_to a b \<Longrightarrow> async_inv prog a \<Longrightarrow> async_inv prog b"
  by (induction rule: rtranclp_induct) (auto dest: async_inv_step)

text \<open>Every run ends: each step brings the searching goroutine or one of the others forward.\<close>

fun fetcher_rank :: "fetcher \<Rightarrow> nat" where
  "fetcher_rank Waiting = 2"
| "fetcher_rank Fetching = 1"
| "fetcher_rank Offering = 0"
| "fetcher_rank Finished = 0"


definition action_ids :: "action list \<Rightarrow> ID set" where
  "action_ids prog = {i. Send i \<in> set prog}"

definition async_rank :: "action list \<Rightarrow> async \<Rightarrow> nat" where
  "async_rank prog a = length (program a) + (\<Sum>i \<in> action_ids prog. fetcher_rank (fetchers a i))"

lemma finite_action_ids [simp]: "finite (action_ids prog)"
proof -
  have "Send ` action_ids prog \<subseteq> set prog" by (auto simp: action_ids_def)
  then show ?thesis by (metis finite_subset finite_imageD List.finite_set action.inject(1) inj_onI)
qed

lemma rank_sum:
  assumes "i \<in> action_ids prog" "fetcher_rank f < fetcher_rank (g i)"
  shows "(\<Sum>j \<in> action_ids prog. fetcher_rank ((g(i := f)) j)) < (\<Sum>j \<in> action_ids prog. fetcher_rank (g j))"
  using assms by (intro sum_strict_mono_ex1) auto

lemma async_rank_step:
  assumes "async_inv prog a" "async_step a b"
  shows "async_rank prog b < async_rank prog a"
proof -
  obtain dn where d: "prog = dn @ program a" and i: "\<And>i. taken a i = count_list dn (Send i)" using assms(1) unfolding async_inv_def by blast
  have ids: "i \<in> action_ids prog" if "0 < taken a i" for i
  proof -
    have "Send i \<in> set dn" using that i [of i] count_notin [of "Send i" dn] by (cases "Send i \<in> set dn") simp_all
    with d show ?thesis by (simp add: action_ids_def)
  qed
  from assms(2) show ?thesis
  proof (cases rule: async_step.cases)
    case (send i p)
    then show ?thesis by (simp add: async_rank_def)
  next
    case (receive i)
    then have "i \<in> action_ids prog" by (intro ids) (simp add: taken_def)
    then show ?thesis using receive rank_sum [of i prog Fetching "fetchers a"] by (simp add: async_rank_def)
  next
    case (fetched i)
    then have "i \<in> action_ids prog" by (intro ids) (simp add: taken_def)
    then show ?thesis using fetched rank_sum [of i prog Offering "fetchers a"] by (simp add: async_rank_def)
  next
    case (build i p)
    have "(\<Sum>j \<in> action_ids prog. fetcher_rank (((fetchers a)(i := Finished)) j)) \<le> (\<Sum>j \<in> action_ids prog. fetcher_rank (fetchers a j))" by (rule sum_mono) simp
    with build show ?thesis by (simp add: async_rank_def)
  qed
qed

lemma async_bounded: "async_inv prog a \<Longrightarrow> (async_step ^^ n) a b \<Longrightarrow> n \<le> async_rank prog a"
proof (induction n arbitrary: a)
  case (Suc n)
  then obtain c where c: "async_step a c" "(async_step ^^ n) c b" by (metis relpowp_Suc_D2)
  have "n \<le> async_rank prog c" using Suc.IH [OF async_inv_step [OF Suc.prems(1) c(1)] c(2)] .
  with async_rank_step [OF Suc.prems(1) c(1)] show ?case by simp
qed simp

text \<open>Every \<open>Build\<close> comes once, after a token.\<close>

definition fed :: "action list \<Rightarrow> bool" where
  "fed prog \<longleftrightarrow> (\<forall>dn i rest. prog = dn @ Build i # rest \<longrightarrow> Send i \<in> set dn \<and> Build i \<notin> set dn)"

lemma async_finishes:
  assumes inv: "async_inv prog a" and stk: "stuck a" and fed: "fed prog" and few: "\<And>i. count_list prog (Send i) \<le> 2"
  shows "program a = []"
proof (cases "program a")
  case (Cons x rest)
  obtain dn where d: "prog = dn @ x # rest" and i: "\<And>i. tokens a i \<le> 1" "\<And>i. taken a i = count_list dn (Send i)" "\<And>i. fetchers a i = Finished \<longleftrightarrow> Build i \<in> set dn"
    using inv Cons unfolding async_inv_def by metis
  have no: "\<not> async_step a b" for b using stk by (simp add: stuck_def)
  have recv: "\<not> (0 < tokens a i \<and> fetchers a i = Waiting)" for i using no receive by blast
  show ?thesis
  proof (cases x)
    case (Send i)
    then have "\<not> tokens a i < 1" using no send Cons by blast
    then have "taken a i = 2" using recv [of i] i(1) [of i] by (simp add: taken_def)
    then have "count_list prog (Send i) \<ge> 3" using i(2) d Send by simp
    with few [of i] show ?thesis by simp
  next
    case (Build i)
    have s: "Send i \<in> set dn" "Build i \<notin> set dn" using fed d Build unfolding fed_def by blast+
    have "fetchers a i \<noteq> Offering" "fetchers a i \<noteq> Fetching" "fetchers a i \<noteq> Finished" using no build Cons Build fetched i(3) s(2) by blast+
    then have "fetchers a i = Waiting" by (cases "fetchers a i") simp_all
    then have "taken a i = 0" using recv [of i] by (simp add: taken_def)
    then show ?thesis using i(2) [of i] s(1) by (simp add: count_list_0_iff)
  qed
qed

lemma async_hangs:
  assumes "async_inv prog a" "count_list prog (Send i) > 2"
  shows "program a \<noteq> []"
proof
  assume e: "program a = []"
  then have "tokens a i \<le> 1" "taken a i = count_list prog (Send i)" using assms(1) unfolding async_inv_def by auto
  with assms(2) show False by (simp add: taken_def split: if_splits)
qed

subsection \<open>The program of a search\<close>

lemma final_actions_blank:
  assumes "w \<le> 255"
  shows "final_actions (of_nat w) (i, blank cc l h) = (if unat cc \<le> h + w then [Send i, Build i] else [])"
proof -
  have "unat cc < 2 ^ LENGTH(8)" by (rule unsigned_less)
  then have "(of_nat (unat cc - (h + w)) :: u8) = 0 \<longleftrightarrow> unat cc \<le> h + w" using pos_inj [of "unat cc - (h + w)" 0] by simp
  moreover have "conditions (blank cc l (h + w)) = of_nat (unat cc - (h + w))" by (simp add: blank_def)
  ultimately have "IsMatched (blank cc l (h + w)) \<longleftrightarrow> unat cc \<le> h + w" by (simp only: IsMatched_def)
  moreover have "unat cc - h \<le> w \<longleftrightarrow> unat cc \<le> h + w" by auto
  ultimately show ?thesis using MatchedWith_blank [OF assms, of cc l h] by (simp add: final_actions_def)
qed

lemma fed_finals:
  "distinct is \<Longrightarrow> concat (map (\<lambda>i. if P i then [Send i, Build i] else []) is) = dn @ Build i # rest \<Longrightarrow> Send i \<in> set dn \<and> Build i \<notin> set dn"
proof (induction "is" arbitrary: dn)
  case (Cons j js)
  show ?case
  proof (cases "P j")
    case False
    then show ?thesis using Cons by simp
  next
    case True
    then have e: "Send j # Build j # concat (map (\<lambda>i. if P i then [Send i, Build i] else []) js) = dn @ Build i # rest" using Cons.prems(2) by simp
    then obtain dn1 where dn: "dn = Send j # dn1" "Build j # concat (map (\<lambda>i. if P i then [Send i, Build i] else []) js) = dn1 @ Build i # rest" by (cases dn) auto
    show ?thesis
    proof (cases dn1)
      case Nil
      then show ?thesis using dn by simp
    next
      case (Cons x dn2)
      then have x: "x = Build j" "concat (map (\<lambda>i. if P i then [Send i, Build i] else []) js) = dn2 @ Build i # rest" using dn(2) by simp_all
      then have "Build i \<in> set (concat (map (\<lambda>i. if P i then [Send i, Build i] else []) js))" by simp
      then have "i \<in> set js" by (auto split: if_splits)
      then have "i \<noteq> j" using Cons.prems(1) \<open>distinct (j # js)\<close> by auto
      with Cons.IH [OF _ x(2)] \<open>distinct (j # js)\<close> show ?thesis using dn(1) Cons x(1) by auto
    qed
  qed
qed simp


lemma fed_sends: "fed prog \<Longrightarrow> fed (map Send is @ prog)"
proof (induction "is")
  case (Cons j js)
  have ih: "\<And>dn i rest. map Send js @ prog = dn @ Build i # rest \<Longrightarrow> Send i \<in> set dn \<and> Build i \<notin> set dn" using Cons unfolding fed_def by blast
  show ?case unfolding fed_def
  proof (intro allI impI)
    fix dn i rest assume "map Send (j # js) @ prog = dn @ Build i # rest"
    then obtain dn' where "dn = Send j # dn'" "map Send js @ prog = dn' @ Build i # rest" by (cases dn) auto
    with ih [of dn' i rest] show "Send i \<in> set dn \<and> Build i \<notin> set dn" by simp
  qed
qed simp

context log_index
begin

lemma program_counts:
  assumes s: "ok s" and R: "indexes (view s) R" "logs_ok R" and it: "\<And>xs. mset (it xs) = mset xs"
    and q: "length topics \<le> MaxCount" "\<forall>c \<in> set topics. \<forall>t \<in> set c. length t = 32"
  shows "\<exists>prog. fetchAsync_program ops it topics s = Some (Inr prog) \<and> fed prog \<and> (\<forall>i. 0 < count_list prog (Send i) \<longrightarrow> i \<in> log_id ` R) \<and>
     (\<forall>l \<in> R. 0 < length topics \<longrightarrow> count_list prog (Send (log_id l)) = Suc (hits l 0 topics) - length topics + (if 0 < hits l 0 topics \<and> length topics \<le> hits l 0 topics + wild topics then 1 else 0)) \<and>
     (topics = [] \<longrightarrow> prog = [])"
proof -
  let ?cc = "of_nat (length topics) :: u8" and ?n = "length topics"
  have n: "?n \<le> 255" using q(1) by (simp add: MaxCount_def)
  then have cc: "unat ?cc = ?n" by (rule of_nat_u8)
  have w: "wild topics \<le> 255" unfolding wild_def using n length_filter_le order.trans by blast
  obtain recs sent where r: "match_conditions ops s ?cc 0 topics ([], []) 0 = Some ((recs, sent), of_nat (wild topics))" "tallied ?cc R (\<lambda>l. hits l 0 topics) (recs, sent)"
    using query_counts [OF s R q] by blast
  define P where "P = (\<lambda>i. \<exists>l \<in> R. log_id l = i \<and> ?n \<le> hits l 0 topics + wild topics)"
  have inj: "log_id l = log_id l' \<longleftrightarrow> l = l'" if "l \<in> R" "l' \<in> R" for l l' using R(2) that by (auto simp: logs_ok_def inj_on_def)
  have set_it: "set (it recs) = set recs" using it by (metis mset_eq_setD)
  have d: "distinct (map fst recs)" using r(2) by (simp add: tallied_def)
  then have dit: "distinct (map fst (it recs))" using it by (metis mset_eq_imp_distinct_iff mset_map)
  have fin: "final_actions (of_nat (wild topics)) e = (if P (fst e) then [Send (fst e), Build (fst e)] else [])" if e: "e \<in> set (it recs)" for e
  proof -
    obtain l where l: "l \<in> R" "fst e = log_id l" using r(2) e set_it by (force simp: tallied_def)
    have "map_of recs (fst e) = Some (snd e)" using e d set_it by simp
    then have "snd e = blank ?cc l (hits l 0 topics)" using r(2) l by (auto simp: tallied_def split: if_splits)
    then have "e = (log_id l, blank ?cc l (hits l 0 topics))" using l(2) by (metis prod.collapse)
    moreover have "P (log_id l) \<longleftrightarrow> ?n \<le> hits l 0 topics + wild topics" using inj l(1) by (auto simp: P_def)
    ultimately show ?thesis using final_actions_blank [OF w, of "log_id l" ?cc l "hits l 0 topics"] cc by simp
  qed
  let ?fin = "concat (map (\<lambda>i. if P i then [Send i, Build i] else []) (map fst (it recs)))" and ?prog = "map Send sent @ concat (map (final_actions (of_nat (wild topics))) (it recs))"
  have "map (final_actions (of_nat (wild topics))) (it recs) = map (\<lambda>i. if P i then [Send i, Build i] else []) (map fst (it recs))" using fin by (simp add: comp_def)
  then have prog: "?prog = map Send sent @ ?fin" by (simp only:)
  have run: "fetchAsync_program ops it topics s = Some (Inr ?prog)" using r(1) q(1) by (simp add: fetchAsync_program_def)
  have cs: "count_list (map Send sent) (Send i) = count_list sent i" for i by (induction sent) auto
  have cf: "count_list (concat (map (\<lambda>i. if P i then [Send i, Build i] else []) is)) (Send i) = (if i \<in> set is \<and> P i then 1 else 0)" if "distinct is" for "is" i
    using that by (induction "is") auto
  have "fed ?fin" unfolding fed_def using fed_finals [OF dit] by blast
  then have fed: "fed ?prog" unfolding prog by (rule fed_sends)
  have has: "log_id l \<in> fst ` set recs \<longleftrightarrow> 0 < hits l 0 topics" if "l \<in> R" for l
    using r(2) that map_of_eq_None_iff [of recs "log_id l"] by (auto simp: tallied_def split: if_splits)
  have cnt: "count_list ?prog (Send i) = count_list sent i + (if i \<in> fst ` set recs \<and> P i then 1 else 0)" for i unfolding prog using cs cf [OF dit, of i] set_it by simp
  have "count_list ?prog (Send (log_id l)) = Suc (hits l 0 topics) - ?n + (if 0 < hits l 0 topics \<and> ?n \<le> hits l 0 topics + wild topics then 1 else 0)" if "l \<in> R" "0 < ?n" for l
  proof -
    have "P (log_id l) \<longleftrightarrow> ?n \<le> hits l 0 topics + wild topics" using inj that(1) by (auto simp: P_def)
    moreover have "count_list sent (log_id l) = Suc (hits l 0 topics) - ?n" using r(2) that cc by (simp add: tallied_def)
    ultimately show ?thesis unfolding cnt using has [OF that(1)] by simp
  qed
  moreover have "i \<in> log_id ` R" if "0 < count_list ?prog (Send i)" for i
  proof -
    have "i \<in> set sent \<or> i \<in> fst ` set recs" using that count_notin [of i sent] unfolding cnt by (auto split: if_splits)
    then show ?thesis using r(2) by (auto simp: tallied_def)
  qed
  moreover have "?prog = []" if "topics = []"
  proof -
    have "recs = []" "sent = []" using r(1) that by simp_all
    then show ?thesis using set_it by simp
  qed
  ultimately show ?thesis using run fed by blast
qed

end

text \<open>
  C36. The concurrent search always comes to rest, and it has returned by then exactly if no stored log
  is found more often than the query has positions; otherwise the searching goroutine waits for ever
  for room in the channel of that log, while the log's goroutine waits to hand the record over. A query
  that lists no alternative twice is safe; \<open>[[A, A]]\<close> hangs as soon as a log with topic \<open>A\<close> is stored.
\<close>

theorem fetchAsync_returns_iff:
  assumes "\<forall>l \<in> set ls. log_ok l" "distinct (map log_id ls)" "length topics \<le> MaxCount" "\<forall>c \<in> set topics. \<forall>t \<in> set c. length t = 32" "\<And>xs. mset (it xs) = mset xs"
  shows "\<exists>s prog. topics_Push mem_ops ls mem_New = Some (None, s) \<and> fetchAsync_program mem_ops it topics s = Some (Inr prog) \<and>
     (\<exists>bound. \<forall>n b. (async_step ^^ n) (async_start prog) b \<longrightarrow> n \<le> bound) \<and>
     (\<forall>b. runs_to (async_start prog) b \<and> stuck b \<longrightarrow> (program b = [] \<longleftrightarrow> (\<forall>l \<in> set ls. hits l 0 topics \<le> length topics)))"
proof -
  have "logs_ok {}" by (simp add: logs_ok_def)
  then obtain s where s: "topics_Push mem_ops ls mem_New = Some (None, s)" "mem_ok s" "indexes (mem_view s) (set ls)" "logs_ok (set ls)"
    using mem_index.Push_logs [OF mem_New_empty(1) mem_index.indexes_empty [OF mem_New_empty(2)] _ assms(1,2)] by auto
  obtain prog where p: "fetchAsync_program mem_ops it topics s = Some (Inr prog)" "fed prog" "\<And>i. 0 < count_list prog (Send i) \<Longrightarrow> i \<in> log_id ` set ls"
    "\<And>l. l \<in> set ls \<Longrightarrow> 0 < length topics \<Longrightarrow> count_list prog (Send (log_id l)) = Suc (hits l 0 topics) - length topics + (if 0 < hits l 0 topics \<and> length topics \<le> hits l 0 topics + wild topics then 1 else 0)"
    "topics = [] \<Longrightarrow> prog = []"
    using mem_index.program_counts [OF s(2-4) assms(5,3,4)] by blast
  have "program b = [] \<longleftrightarrow> (\<forall>l \<in> set ls. hits l 0 topics \<le> length topics)" if b: "runs_to (async_start prog) b" "stuck b" for b
  proof -
    have inv: "async_inv prog b" using async_inv_runs [OF b(1) async_inv_start] .
    show ?thesis
    proof
      assume all: "\<forall>l \<in> set ls. hits l 0 topics \<le> length topics"
      have "count_list prog (Send i) \<le> 2" for i
      proof (cases "count_list prog (Send i) = 0 \<or> topics = []")
        case False
        then obtain l where "l \<in> set ls" "i = log_id l" using p(3) [of i] by auto
        then show ?thesis using p(4) [of l] all False by (auto split: if_splits)
      qed (use p(5) in auto)
      then show "program b = []" by (rule async_finishes [OF inv b(2) p(2)])
    next
      assume e: "program b = []"
      show "\<forall>l \<in> set ls. hits l 0 topics \<le> length topics"
      proof (rule ccontr)
        assume "\<not> ?thesis"
        then obtain l where l: "l \<in> set ls" "length topics < hits l 0 topics" by (auto simp: not_le)
        then have "topics \<noteq> []" by auto
        then have "count_list prog (Send (log_id l)) > 2" using p(4) [OF l(1)] l(2) by simp
        with async_hangs [OF inv] e show False by blast
      qed
    qed
  qed
  moreover have "\<forall>n b. (async_step ^^ n) (async_start prog) b \<longrightarrow> n \<le> async_rank prog (async_start prog)" using async_bounded [OF async_inv_start] by blast
  ultimately show ?thesis using s(1) p(1) by blast
qed

theorem fetchAsync_returns_iff_witness:
  "\<exists>s prog. topics_Push mem_ops [sample_log 1 [topic_a]] mem_New = Some (None, s) \<and> fetchAsync_program mem_ops rev [[topic_a, topic_a]] s = Some (Inr prog) \<and>
     (\<forall>b. runs_to (async_start prog) b \<and> stuck b \<longrightarrow> program b \<noteq> [])"
proof -
  have ok: "\<forall>l \<in> set [sample_log 1 [topic_a]]. log_ok l" by (simp add: log_ok_def sample_log_def MaxCount_def)
  have h: "\<not> (\<forall>l \<in> set [sample_log 1 [topic_a]]. hits l 0 [[topic_a, topic_a]] \<le> length [[topic_a, topic_a]])" by (simp add: has_topic_def sample_log_def)
  have q: "distinct (map log_id [sample_log 1 [topic_a]])" "length [[topic_a, topic_a]] \<le> MaxCount" "\<forall>c \<in> set [[topic_a, topic_a]]. \<forall>t \<in> set c. length t = 32"
    "\<And>xs :: rec_map. mset (rev xs) = mset xs" by (simp_all add: MaxCount_def)
  from fetchAsync_returns_iff [OF ok q] h show ?thesis by blast
qed

end
