(* ===== verification/Emit_Rules.thy ===== *)
theory Emit_Rules
  imports Complex_Main Event_Checks
begin

text \<open>
  The rules that decide whether and how often a validator emits: \<open>gossip/piecefunc\<close>,
  \<open>gossip/config_emitter.go\<close> and, of \<open>gossip/emitter.go\<close>, the state of the emitter, \<open>OnNewEpoch\<close>,
  \<open>OnNewEvent\<close>, \<open>isSynced\<close>, \<open>isEpochTail\<close>, \<open>maxGasPowerToUse\<close> and \<open>isAllowedToEmit\<close>.

  A \<open>time.Time\<close> is a number of nanoseconds since the Unix epoch; \<open>Sub\<close> saturates at the 64 bits of a
  \<open>time.Duration\<close>. Floating point is real arithmetic with a rounding \<open>rnd\<close> after every operation.
\<close>

subsection \<open>\<open>piecefunc\<close>\<close>

definition PercentUnit :: u64 where "PercentUnit = 1000000"

datatype Dot = Dot (dotX: u64) (dotY: u64)

definition pf_Mul :: "u64 \<Rightarrow> u64 \<Rightarrow> u64" where
  "pf_Mul a b = a * b div PercentUnit"

definition pf_Div :: "u64 \<Rightarrow> u64 \<Rightarrow> u64 option" where
  "pf_Div a b = (if b = 0 then None else Some (a * PercentUnit div b))"

fun findPiece :: "nat \<Rightarrow> u64 \<Rightarrow> nat \<Rightarrow> Dot list \<Rightarrow> int" where
  "findPiece len x i [] = int len - 2"
| "findPiece len x i (piece # rest) =
     (if i \<ge> 1 \<and> int i < int len - 1 \<and> dotX piece > x then int i - 1 else findPiece len x (Suc i) rest)"

definition dot_at :: "Dot list \<Rightarrow> int \<Rightarrow> Dot option" where
  "dot_at pieces i = (if i < 0 then None else slice_get pieces (nat i))"

definition pf_Get :: "u64 \<Rightarrow> Dot list \<Rightarrow> u64 option" where
  "pf_Get x pieces = do {
     let p0 = findPiece (length pieces) x 0 pieces;
     a \<leftarrow> dot_at pieces p0;
     b \<leftarrow> dot_at pieces (p0 + 1);
     ratio \<leftarrow> pf_Div (x - dotX a) (dotX b - dotX a);
     Some (pf_Mul (dotY a) (PercentUnit - ratio) + pf_Mul (dotY b) ratio) }"

subsection \<open>Times\<close>

type_synonym time = int
type_synonym Duration = int

definition maxDuration :: Duration where "maxDuration = 2 ^ 63 - 1"
definition minDuration :: Duration where "minDuration = - (2 ^ 63)"

definition time_Sub :: "time \<Rightarrow> time \<Rightarrow> Duration" where
  "time_Sub t u = (if t - u > maxDuration then maxDuration else if t - u < minDuration then minDuration else t - u)"

text \<open>The zero value of \<open>time.Time\<close>: the first of January of year 1.\<close>

definition time_Zero :: time where "time_Zero = - 62135596800 * time_Second"

definition Timestamp_Time :: "Timestamp \<Rightarrow> time" where
  "Timestamp_Time t = sint t"

definition time_Minute :: Duration where "time_Minute = 60 * time_Second"

subsection \<open>Configuration and state\<close>

type_synonym address = bytes

record EmitIntervals =
  ivMin :: Duration
  ivMax :: Duration
  ivConfirming :: Duration
  ivSelfFork :: Duration

record EmitterConfig =
  VersionToPublish :: bytes
  cfgValidator :: address
  cfgIntervals :: EmitIntervals
  MaxGasRateGrowthFactor :: real
  MaxTxsFromSender :: int
  EpochTailLength :: Frame
  cfgMaxParents :: int
  SmoothTpsThreshold :: u64
  NoTxsThreshold :: u64
  EmergencyThreshold :: u64

definition TxTurnNonces :: u64 where "TxTurnNonces = 8"
definition TxTurnPeriod :: Duration where "TxTurnPeriod = 4 * time_Second"

definition DefaultEmitterConfig :: "bytes \<Rightarrow> u64 \<Rightarrow> EmitterConfig" where
  "DefaultEmitterConfig version gas =
     \<lparr>VersionToPublish = version, cfgValidator = replicate 20 0,
      cfgIntervals = \<lparr>ivMin = 200000000, ivMax = 12 * time_Minute, ivConfirming = 200000000, ivSelfFork = 30 * time_Minute\<rparr>,
      MaxGasRateGrowthFactor = 3, MaxTxsFromSender = 8, EpochTailLength = 1, cfgMaxParents = 7,
      SmoothTpsThreshold = (EventGas + gas) * 500, NoTxsThreshold = EventGas * 30, EmergencyThreshold = EventGas * 5\<rparr>"

definition FakeEmitterConfig :: "bytes \<Rightarrow> u64 \<Rightarrow> EmitterConfig" where
  "FakeEmitterConfig version gas =
     (let cfg = DefaultEmitterConfig version gas; mx = 10 * time_Second
      in cfg\<lparr>cfgIntervals := (cfgIntervals cfg)\<lparr>ivMax := mx, ivSelfFork := mx * 3 div 2\<rparr>\<rparr>)"

text \<open>\<open>int63n\<close> stands for \<open>r.Int63n\<close>: its first call and its second one.\<close>

definition RandomizeEmitTime :: "(int \<Rightarrow> int) \<times> (int \<Rightarrow> int) \<Rightarrow> EmitIntervals \<Rightarrow> EmitIntervals" where
  "RandomizeEmitTime int63n config =
     (let config = (if ivMax config > 10
            then config\<lparr>ivMax := ivMax config - ivMax config div 10 + fst int63n (ivMax config div 10)\<rparr> else config)
      in if ivSelfFork config > 10
         then config\<lparr>ivSelfFork := ivSelfFork config + snd int63n (ivSelfFork config div 10)\<rparr> else config)"

record selfForkProtection =
  connectedTime :: time
  syncedTime :: time
  prevLocalEmittedID :: hash_event
  prevExternalEmittedTime :: time
  becameValidatorTime :: time

text \<open>\<open>'c\<close> is the LRU cache of the transactions' times.\<close>

record 'c Emitter =
  txTime :: 'c
  emDag :: DagConfig
  emConfig :: EmitterConfig
  myStakerID :: StakerID
  myAddress :: address
  syncStatus :: selfForkProtection
  prevEmittedTime :: time
  intervals :: EmitIntervals

definition NewEmitter :: "'c \<Rightarrow> DagConfig \<Rightarrow> EmitterConfig \<Rightarrow> 'c Emitter" where
  "NewEmitter cache net config =
     \<lparr>txTime = cache, emDag = net, emConfig = config, myStakerID = 0, myAddress = cfgValidator config,
      syncStatus = \<lparr>connectedTime = time_Zero, syncedTime = time_Zero, prevLocalEmittedID = replicate 32 0,
                    prevExternalEmittedTime = time_Zero, becameValidatorTime = time_Zero\<rparr>,
      prevEmittedTime = time_Zero, intervals = cfgIntervals config\<rparr>"

text \<open>What the emitter asks of the store, the application and the engine.\<close>

record em_world =
  GetLastEvent :: "Epoch \<Rightarrow> StakerID \<Rightarrow> hash_event option"
  GetHeads :: "Epoch \<Rightarrow> hash_event list"
  GetEventHeader :: "Epoch \<Rightarrow> hash_event \<Rightarrow> EventHeaderData option"
  AppValidators :: "Epoch \<Rightarrow> (StakerID \<times> address) list"
  HasEpochValidator :: "Epoch \<Rightarrow> StakerID \<Rightarrow> bool"
  engineEpoch :: Epoch
  engineValidators :: Validators
  PeersNum :: nat
  worldSynced :: bool

definition loadPrevEmitTime :: "em_world \<Rightarrow> 'c Emitter \<Rightarrow> time option" where
  "loadPrevEmitTime w em =
     (if myStakerID em = 0 then Some (prevEmittedTime em)
      else case GetLastEvent w (engineEpoch w) (myStakerID em) of
        None \<Rightarrow> Some (prevEmittedTime em)
      | Some prevEventID \<Rightarrow> do {
          epoch \<leftarrow> Event_Epoch prevEventID;
          Some (case GetEventHeader w epoch prevEventID of
             None \<Rightarrow> prevEmittedTime em
           | Some prevEvent \<Rightarrow> Timestamp_Time (eClaimedTime prevEvent)) })"

definition findMyStakerID :: "em_world \<Rightarrow> 'c Emitter \<Rightarrow> StakerID \<times> bool" where
  "findMyStakerID w em =
     (if myAddress em = replicate 20 0 then (0, False)
      else case List.find (\<lambda>it. snd it = myAddress em) (AppValidators w (engineEpoch w)) of
        Some it \<Rightarrow> (fst it, True)
      | None \<Rightarrow> (0, False))"

definition confirmingEmitIntervalPieces :: "Dot list" where
  "confirmingEmitIntervalPieces =
     [Dot 0 1000000, Dot 330000 1050000, Dot 660000 1200000, Dot 800000 1500000, Dot 900000 3000000, Dot 1000000 3900000]"

definition maxEmitIntervalPieces :: "Dot list" where
  "maxEmitIntervalPieces = [Dot 0 1000000, Dot 1000000 890000]"

definition stakesBefore :: "Validator \<Rightarrow> Stake list \<Rightarrow> Stake \<times> Stake" where
  "stakesBefore myIdx weights =
     foldl (\<lambda>(totalStake, totalStakeBeforeMe) (i, stake).
        (totalStake + stake, if i < myIdx then totalStakeBeforeMe + stake else totalStakeBeforeMe)) (0, 0) (enumerate 0 weights)"

definition OnNewEpoch :: "em_world \<Rightarrow> time \<Rightarrow> Validators \<Rightarrow> Epoch \<Rightarrow> 'c Emitter \<Rightarrow> 'c Emitter option" where
  "OnNewEpoch w now vals newEpoch em = do {
     let em = em\<lparr>myStakerID := fst (findMyStakerID w em)\<rparr>;
     prev \<leftarrow> loadPrevEmitTime w em;
     let em = em\<lparr>prevEmittedTime := prev\<rparr>;
     let myIdx = GetIdx vals (myStakerID em);
     let (totalStake, totalStakeBeforeMe) = stakesBefore myIdx (SortedStakes vals);
     stakeRatio \<leftarrow> (if totalStake = 0 then None else Some (totalStakeBeforeMe * PercentUnit div totalStake));
     confirmingEmitIntervalRatio \<leftarrow> pf_Get stakeRatio confirmingEmitIntervalPieces;
     let em = em\<lparr>intervals := (intervals em)\<lparr>ivConfirming :=
        sint (pf_Mul (of_int (ivConfirming (cfgIntervals (emConfig em)))) confirmingEmitIntervalRatio)\<rparr>\<rparr>;
     maxEmitIntervalRatio \<leftarrow> pf_Get stakeRatio maxEmitIntervalPieces;
     let em = em\<lparr>intervals := (intervals em)\<lparr>ivMax :=
        sint (pf_Mul (of_int (ivMax (cfgIntervals (emConfig em)))) maxEmitIntervalRatio)\<rparr>\<rparr>;
     Some (if myStakerID em \<noteq> 0 \<and> \<not> HasEpochValidator w (newEpoch - 1) (myStakerID em)
           then em\<lparr>syncStatus := (syncStatus em)\<lparr>becameValidatorTime := now\<rparr>\<rparr> else em) }"

definition em_init :: "em_world \<Rightarrow> time \<Rightarrow> 'c Emitter \<Rightarrow> 'c Emitter option" where
  "em_init w now em =
     OnNewEpoch w now (engineValidators w) (engineEpoch w) (em\<lparr>syncStatus := (syncStatus em)\<lparr>connectedTime := now\<rparr>\<rparr>)"

definition SetValidator :: "em_world \<Rightarrow> time \<Rightarrow> address \<Rightarrow> 'c Emitter \<Rightarrow> 'c Emitter option" where
  "SetValidator w now addr em = em_init w now (em\<lparr>myAddress := addr\<rparr>)"

text \<open>\<open>errlock.Permanent\<close> stops the node for good: the second component. A handler reads the clock once, \<open>now\<close>.\<close>

definition OnNewEvent :: "time \<Rightarrow> hash_event \<Rightarrow> 'a EventHeaderData_scheme \<Rightarrow> 'c Emitter \<Rightarrow> 'c Emitter \<times> bool" where
  "OnNewEvent now h e em =
     (if myStakerID em \<noteq> 0 \<and> prevLocalEmittedID (syncStatus em) \<noteq> h \<and> eCreator e = myStakerID em
      then let em = em\<lparr>syncStatus := (syncStatus em)\<lparr>prevExternalEmittedTime := now\<rparr>\<rparr>;
               passedSinceEvent = time_Sub now (Timestamp_Time (MaxTimestamp (eClaimedTime e) (eMedianTime e)));
               threshold = (if ivSelfFork (intervals em) > time_Minute then time_Minute else ivSelfFork (intervals em))
           in (em, passedSinceEvent \<le> threshold)
      else (em, False))"

datatype sync_reason = Synced | NoConnections | PeersAhead | SelfEventsMissing | JustJoined | WaitingMore | RecentlyConnected

definition isSynced :: "em_world \<Rightarrow> time \<Rightarrow> 'c Emitter \<Rightarrow> bool \<times> sync_reason \<times> Duration" where
  "isSynced w now em =
     (let protection = ivSelfFork (intervals em); st = syncStatus em;
          sinceLastExternalEvent = time_Sub now (prevExternalEmittedTime st);
          sinceBecameValidator = time_Sub now (becameValidatorTime st);
          syncedPassed = time_Sub now (syncedTime st);
          connectedPassed = time_Sub now (connectedTime st) in
      if protection = 0 then (True, Synced, 0)
      else if PeersNum w = 0 then (False, NoConnections, 0)
      else if \<not> worldSynced w then (False, PeersAhead, 0)
      else if sinceLastExternalEvent < protection then (False, SelfEventsMissing, protection - sinceLastExternalEvent)
      else if sinceBecameValidator < protection then (False, JustJoined, protection - sinceBecameValidator)
      else if syncedPassed < protection then (False, WaitingMore, protection - syncedPassed)
      else if connectedPassed < protection then (False, RecentlyConnected, protection - connectedPassed)
      else (True, Synced, 0))"

text \<open>The ticker's bookkeeping before \<open>EmitEvent\<close>, and whether it is time to call it.\<close>

definition em_tick :: "em_world \<Rightarrow> time \<Rightarrow> 'c Emitter \<Rightarrow> 'c Emitter \<times> bool" where
  "em_tick w now em =
     (let em = (if PeersNum w = 0 then em\<lparr>syncStatus := (syncStatus em)\<lparr>connectedTime := now\<rparr>\<rparr> else em);
          em = (if \<not> worldSynced w then em\<lparr>syncStatus := (syncStatus em)\<lparr>syncedTime := now\<rparr>\<rparr> else em)
      in (em, time_Sub now (prevEmittedTime em) \<ge> ivMin (intervals em)))"

subsection \<open>How much gas, and whether to emit\<close>

definition isEpochTail :: "'c Emitter \<Rightarrow> 'a EventHeaderData_scheme \<Rightarrow> bool" where
  "isEpochTail em e \<longleftrightarrow> eFrame e \<ge> MaxEpochBlocks (emDag em) - EpochTailLength (emConfig em)"

text \<open>
  \<open>rate\<close> is the metered gas rate. The conversion of a float to an unsigned integer truncates; outside
  of the range of the type its result is the platform's, \<open>conv\<close>.
\<close>

record float_env =
  rnd :: "real \<Rightarrow> real"
  convU :: "real \<Rightarrow> u64"
  convNaN :: Duration

definition float_uint64 :: "float_env \<Rightarrow> real \<Rightarrow> u64" where
  "float_uint64 F x = (if 0 \<le> x \<and> x < 2 ^ 64 then of_int \<lfloor>x\<rfloor> else convU F x)"

definition maxGasPowerToUse :: "float_env \<Rightarrow> real \<Rightarrow> 'c Emitter \<Rightarrow> 'a EventHeaderData_scheme \<Rightarrow> u64" where
  "maxGasPowerToUse F rate em e =
     (let gasLeft = GasPowerLeft_Min (eGasPowerLeft e); noTxs = NoTxsThreshold (emConfig em) in
      if isEpochTail em e then 0
      else if gasLeft \<le> noTxs then 0
      else if gasLeft < noTxs + MaxGasPowerUsed then gasLeft - noTxs
      else if gasLeft \<le> SmoothTpsThreshold (emConfig em) then
        (let passedTime = rnd F (rnd F (real_of_int (time_Sub (Timestamp_Time (eClaimedTime e)) (prevEmittedTime em))) / 1000000000);
             maxGasUsed = float_uint64 F (rnd F (rnd F (passedTime * rate) * MaxGasRateGrowthFactor (emConfig em)))
         in if maxGasUsed > MaxGasPowerUsed then MaxGasPowerUsed else maxGasUsed)
      else MaxGasPowerUsed)"

definition adjustedEmitInterval :: "float_env \<Rightarrow> EmitIntervals \<Rightarrow> u64 \<Rightarrow> u64 \<Rightarrow> Duration" where
  "adjustedEmitInterval F iv gasLeft threshold =
     (if threshold = 0 then convNaN F
      else let minT = rnd F (real_of_int (ivMin iv)); maxT = rnd F (real_of_int (ivMax iv));
               factor = rnd F (rnd F (real (unat gasLeft)) / rnd F (real (unat threshold)));
               x = rnd F (maxT - rnd F (rnd F (maxT - minT) * factor))
           in if x < 0 then - \<lfloor>- x\<rfloor> else \<lfloor>x\<rfloor>)"

definition isAllowedToEmit :: "float_env \<Rightarrow> nat \<Rightarrow> 'c Emitter \<Rightarrow> 'tx Event \<Rightarrow> EventHeaderData option \<Rightarrow> bool" where
  "isAllowedToEmit F occurred em e selfParent =
     (let passedTime = time_Sub (Timestamp_Time (eClaimedTime e)) (prevEmittedTime em);
          gasLeft = GasPowerLeft_Min (eGasPowerLeft e); config = emConfig em in
      if gasLeft \<le> NoTxsThreshold config \<and> passedTime < adjustedEmitInterval F (intervals em) gasLeft (NoTxsThreshold config) then False
      else if gasLeft \<le> EmergencyThreshold config \<and> (case selfParent of None \<Rightarrow> False | Some sp \<Rightarrow> gasLeft < GasPowerLeft_Min (eGasPowerLeft sp)) then False
      else if passedTime < ivMax (intervals em) \<and> occurred = 0 \<and> length (eTransactions e) = 0 \<and> \<not> isEpochTail em e then False
      else if passedTime < ivConfirming (intervals em) \<and> occurred \<noteq> 0 \<and> length (eTransactions e) = 0 then False
      else True)"


subsection \<open>Piecewise linear functions\<close>

definition pieces_ok :: "Dot list \<Rightarrow> bool" where
  "pieces_ok ps \<longleftrightarrow> 2 \<le> length ps \<and> sorted_wrt (<) (map dotX ps) \<and> (\<forall>d \<in> set ps. dotX d < 2 ^ 40 \<and> dotY d < 2 ^ 40)"

lemma findPiece_spec:
  assumes "length (pre @ rest) = len" "2 \<le> len" "length pre = i"
    and "\<forall>j. 1 \<le> j \<and> j < i \<and> j < len - 1 \<longrightarrow> dotX ((pre @ rest) ! j) \<le> x"
  shows "\<exists>p. findPiece len x i rest = int p \<and> p + 1 < len \<and> (1 \<le> p \<longrightarrow> dotX ((pre @ rest) ! p) \<le> x) \<and>
     (p + 2 < len \<longrightarrow> x < dotX ((pre @ rest) ! (p + 1)))"
  using assms
proof (induction rest arbitrary: pre i)
  case Nil
  then show ?case by (intro exI [of _ "len - 2"]) auto
next
  case (Cons d rest)
  show ?case
  proof (cases "i \<ge> 1 \<and> int i < int len - 1 \<and> dotX d > x")
    case True
    then obtain k where k: "i = Suc k" by (cases i) auto
    have "(pre @ d # rest) ! i = d" using Cons.prems(3) by (metis nth_append_length)
    moreover have "1 \<le> k \<longrightarrow> dotX ((pre @ d # rest) ! k) \<le> x" using Cons.prems(4) [rule_format, of k] True k by auto
    ultimately show ?thesis using True k by (intro exI [of _ k]) auto
  next
    case False
    have "(pre @ d # rest) ! i = d" using Cons.prems(3) by (metis nth_append_length)
    then have "\<forall>j. 1 \<le> j \<and> j < Suc i \<and> j < len - 1 \<longrightarrow> dotX (((pre @ [d]) @ rest) ! j) \<le> x"
      using Cons.prems(4) False by (auto simp: less_Suc_eq not_less)
    with Cons.IH [of "pre @ [d]" "Suc i"] Cons.prems(1-3) False show ?thesis by (auto simp: not_less)
  qed
qed

lemma mul_unat: "unat a * unat b < 2 ^ 64 \<Longrightarrow> unat (pf_Mul a b) = unat a * unat b div 1000000" for a b :: u64
  by (simp add: pf_Mul_def PercentUnit_def unat_div unat_mult_lem [THEN iffD1])

lemma interpolate_bounds:
  fixes a b r u :: nat
  assumes "r \<le> u" "0 < u"
  shows "min a b - 1 \<le> a * (u - r) div u + b * r div u" "a * (u - r) div u + b * r div u \<le> max a b"
proof -
  have "a * (u - r) + b * r \<le> max a b * (u - r) + max a b * r" by (intro add_mono mult_right_mono) auto
  also have "\<dots> = max a b * u" using assms(1) by (simp flip: distrib_left)
  finally have up: "a * (u - r) + b * r \<le> max a b * u" .
  have "a * (u - r) div u + b * r div u \<le> (a * (u - r) + b * r) div u" by (simp add: div_add1_eq [of "a * (u - r)"])
  also have "\<dots> \<le> max a b * u div u" by (rule div_le_mono [OF up])
  finally show "a * (u - r) div u + b * r div u \<le> max a b" using assms(2) by simp
  have "min a b * u = min a b * (u - r) + min a b * r" using assms(1) by (simp flip: distrib_left)
  also have "\<dots> \<le> a * (u - r) + b * r" by (intro add_mono mult_right_mono) auto
  finally have lo: "min a b * u \<le> a * (u - r) + b * r" .
  have "a * (u - r) < u * (a * (u - r) div u) + u" "b * r < u * (b * r div u) + u" using assms(2)
    by (metis add_less_cancel_left mod_less_divisor mult_div_mod_eq)+
  with lo have "min a b * u < u * (a * (u - r) div u + b * r div u) + 2 * u" by (simp add: distrib_left)
  then have "min a b * u < (a * (u - r) div u + b * r div u + 2) * u" by (simp add: algebra_simps)
  then have "min a b < a * (u - r) div u + b * r div u + 2" by (rule mult_less_cancel2 [THEN iffD1, THEN conjunct2])
  then show "min a b - 1 \<le> a * (u - r) div u + b * r div u" by simp
qed

lemma ratio_le:
  fixes x a b :: u64
  assumes "a \<le> x" "x \<le> b" "a < b" "b < 2 ^ 40"
  shows "\<exists>r. pf_Div (x - a) (b - a) = Some r \<and> unat r \<le> 1000000 \<and> (x = a \<longrightarrow> r = 0) \<and> (x = b \<longrightarrow> r = 1000000)"
proof -
  have b: "unat b < 2 ^ 40" using assms(4) by (simp add: word_less_nat_alt)
  have d: "unat (x - a) = unat x - unat a" "unat (b - a) = unat b - unat a" using assms(1,3) by (auto simp: unat_sub)
  have le: "unat (x - a) \<le> unat (b - a)" "0 < unat (b - a)" using assms(1-3) d by (auto simp: word_le_nat_alt word_less_nat_alt)
  have "unat (x - a) * 1000000 < 2 ^ 64" using b d(2) le(1) by simp
  then have m: "unat ((x - a) * PercentUnit) = unat (x - a) * 1000000"
    using unat_mult_lem [of "x - a" PercentUnit] by (simp add: PercentUnit_def)
  have q: "unat ((x - a) * PercentUnit div (b - a)) = unat (x - a) * 1000000 div unat (b - a)" by (simp add: unat_div m)
  have "unat (x - a) * 1000000 div unat (b - a) \<le> unat (b - a) * 1000000 div unat (b - a)" by (intro div_le_mono mult_right_mono le(1)) simp
  also have "\<dots> = 1000000" using le(2) by simp
  finally have "unat ((x - a) * PercentUnit div (b - a)) \<le> 1000000" by (simp add: q)
  moreover have "(x - a) * PercentUnit div (b - a) = 1000000" if "x = b"
    using q le(2) that by (intro word_eq_iff_unsigned [THEN iffD2]) simp
  moreover have "b - a \<noteq> 0" using le(2) by auto
  ultimately show ?thesis by (auto simp: pf_Div_def)
qed

lemma pf_Get_between:
  assumes ps: "pieces_ok ps" and x: "dotX (hd ps) \<le> x" "x \<le> dotX (last ps)"
  shows "\<exists>p y. p + 1 < length ps \<and> pf_Get x ps = Some y \<and> dotX (ps ! p) \<le> x \<and> x \<le> dotX (ps ! (p + 1)) \<and>
     min (unat (dotY (ps ! p))) (unat (dotY (ps ! (p + 1)))) - 1 \<le> unat y \<and> unat y \<le> max (unat (dotY (ps ! p))) (unat (dotY (ps ! (p + 1))))"
proof -
  have len: "2 \<le> length ps" and ne: "ps \<noteq> []" using ps by (auto simp: pieces_ok_def)
  obtain p where p: "findPiece (length ps) x 0 ps = int p" "p + 1 < length ps" "1 \<le> p \<longrightarrow> dotX (ps ! p) \<le> x" "p + 2 < length ps \<longrightarrow> x < dotX (ps ! (p + 1))"
    using findPiece_spec [of "[]" ps "length ps" 0 x] len by auto
  have lo: "dotX (ps ! p) \<le> x" using p(3) x(1) ne by (cases "p = 0") (auto simp: hd_conv_nth)
  have hi: "x \<le> dotX (ps ! (p + 1))"
  proof (cases "p + 2 < length ps")
    case False
    then have "p + 1 = length ps - 1" using p(2) by simp
    with x(2) ne show ?thesis by (simp add: last_conv_nth)
  qed (use p(4) in simp)
  have lt: "dotX (ps ! p) < dotX (ps ! (p + 1))"
    using ps p(2) unfolding pieces_ok_def by (auto simp: sorted_wrt_iff_nth_less)
  have mem: "ps ! p \<in> set ps" "ps ! (p + 1) \<in> set ps" using p(2) by auto
  obtain r where r: "pf_Div (x - dotX (ps ! p)) (dotX (ps ! (p + 1)) - dotX (ps ! p)) = Some r" "unat r \<le> 1000000"
    using ratio_le [OF lo hi lt] ps mem unfolding pieces_ok_def by blast
  have u: "unat (PercentUnit - r) = 1000000 - unat r" using r(2) by (simp add: PercentUnit_def unat_sub word_le_nat_alt)
  let ?a = "unat (dotY (ps ! p))" and ?b = "unat (dotY (ps ! (p + 1)))"
  have y: "?a < 2 ^ 40" "?b < 2 ^ 40" using ps mem unfolding pieces_ok_def by (auto simp: word_less_nat_alt)
  have "?a * unat (PercentUnit - r) \<le> 2 ^ 40 * 1000000" "?b * unat r \<le> 2 ^ 40 * 1000000"
    by (rule mult_le_mono; use y r(2) u in simp)+
  then have m: "unat (pf_Mul (dotY (ps ! p)) (PercentUnit - r)) = ?a * (1000000 - unat r) div 1000000"
      "unat (pf_Mul (dotY (ps ! (p + 1))) r) = ?b * unat r div 1000000" by (auto simp: mul_unat u)
  note i = interpolate_bounds [OF r(2), of ?a ?b]
  have "?a * (1000000 - unat r) div 1000000 + ?b * unat r div 1000000 < 2 ^ 64" using i(2) y by simp
  then have "unat (pf_Mul (dotY (ps ! p)) (PercentUnit - r) + pf_Mul (dotY (ps ! (p + 1))) r) = ?a * (1000000 - unat r) div 1000000 + ?b * unat r div 1000000"
    using unat_add_lem [of "pf_Mul (dotY (ps ! p)) (PercentUnit - r)" "pf_Mul (dotY (ps ! (p + 1))) r"] by (simp only: m) simp
  moreover have "pf_Get x ps = Some (pf_Mul (dotY (ps ! p)) (PercentUnit - r) + pf_Mul (dotY (ps ! (p + 1))) r)"
    using p(1,2) r(1) by (simp add: pf_Get_def dot_at_def nat_add_distrib)
  ultimately show ?thesis using p(2) lo hi i by (intro exI [of _ p] exI) auto
qed

subsection \<open>The emit intervals of an epoch\<close>

lemma stakesBefore_le:
  assumes "sum_list (map unat ws) < 2 ^ 64"
  shows "unat (fst (stakesBefore k ws)) = sum_list (map unat ws) \<and> unat (snd (stakesBefore k ws)) \<le> sum_list (map unat ws)"
  using assms
proof (induction ws rule: rev_induct)
  case Nil
  then show ?case by (simp add: stakesBefore_def)
next
  case (snoc x ws)
  let ?s = "sum_list (map unat ws)"
  obtain t b where tb: "stakesBefore k ws = (t, b)" by fastforce
  have sum: "?s + unat x < 2 ^ 64" using snoc.prems by simp
  then have ih: "unat t = ?s" "unat b \<le> ?s" using snoc.IH tb by simp_all
  have st: "stakesBefore k (ws @ [x]) = (t + x, if length ws < k then b + x else b)"
    using tb by (simp add: stakesBefore_def enumerate_append_eq)
  have "unat t + unat x < 2 ^ 64" "unat b + unat x < 2 ^ 64" using ih sum by linarith+
  then have "unat (t + x) = unat t + unat x" "unat (b + x) = unat b + unat x" using unat_add_lem [of t x] unat_add_lem [of b x] by simp_all
  with st ih show ?case by simp
qed

lemma pieces_at_most:
  assumes "pieces_ok ps" "dotX (hd ps) = 0" "x \<le> dotX (last ps)" "\<forall>d \<in> set ps. lo \<le> unat (dotY d) \<and> unat (dotY d) \<le> hi"
  shows "\<exists>y. pf_Get x ps = Some y \<and> lo - 1 \<le> unat y \<and> unat y \<le> hi"
proof -
  from assms(2) have "dotX (hd ps) \<le> x" by simp
  then obtain p y where y: "p + 1 < length ps" "pf_Get x ps = Some y" "min (unat (dotY (ps ! p))) (unat (dotY (ps ! (p + 1)))) - 1 \<le> unat y"
      "unat y \<le> max (unat (dotY (ps ! p))) (unat (dotY (ps ! (p + 1))))" using pf_Get_between [OF assms(1) _ assms(3)] by blast
  then have "lo \<le> unat (dotY (ps ! p)) \<and> unat (dotY (ps ! p)) \<le> hi" "lo \<le> unat (dotY (ps ! (p + 1))) \<and> unat (dotY (ps ! (p + 1))) \<le> hi"
    using assms(4) nth_mem [of p ps] nth_mem [of "p + 1" ps] by auto
  with y show ?thesis by (auto simp: min_def max_def split: if_splits)
qed

lemma sint_small: "unat x < 2 ^ 63 \<Longrightarrow> sint x = int (unat x)" for x :: u64
proof -
  assume "unat x < 2 ^ 63"
  then have "int (unat x) < int (2 ^ 63)" by (simp only: of_nat_less_iff)
  then have "signed_take_bit 63 (uint x) = uint x" by (intro signed_take_bit_int_eq_self) (auto intro: order_trans [of _ 0])
  then show ?thesis by (simp add: sint_uint)
qed

lemma scaled_interval:
  assumes "0 \<le> d" "d < 2 ^ 41" "lo \<le> unat y" "unat y \<le> 3900000"
  shows "d * int lo div 1000000 \<le> sint (pf_Mul (of_int d) y)" "sint (pf_Mul (of_int d) y) \<le> d * int (unat y) div 1000000"
proof -
  have d: "unat (of_int d :: u64) = nat d" using assms(1,2) by (simp add: unsigned_of_int take_bit_int_eq_self)
  have p: "nat d * unat y \<le> 2 ^ 41 * 3900000" by (rule mult_le_mono; use assms in simp)
  then have m: "unat (pf_Mul (of_int d) y) = nat d * unat y div 1000000" using mul_unat [of "of_int d" y] by (simp add: d)
  have "nat d * unat y div 1000000 \<le> 2 ^ 41 * 3900000 div 1000000" by (rule div_le_mono [OF p])
  then have "unat (pf_Mul (of_int d) y) < 2 ^ 63" unfolding m by simp
  then have "sint (pf_Mul (of_int d) y) = int (unat (pf_Mul (of_int d) y))" by (rule sint_small)
  also have "\<dots> = d * int (unat y) div 1000000" using assms(1) by (simp add: m zdiv_int)
  finally have s: "sint (pf_Mul (of_int d) y) = d * int (unat y) div 1000000" .
  then show "sint (pf_Mul (of_int d) y) \<le> d * int (unat y) div 1000000" by simp
  have "d * int lo \<le> d * int (unat y)" using assms(1,3) by (intro mult_left_mono) (simp_all only: of_nat_le_iff)
  then show "d * int lo div 1000000 \<le> sint (pf_Mul (of_int d) y)" unfolding s by (rule zdiv_mono1) simp
qed

text \<open>
  C32. After every change of epoch the emitter's intervals are within the limits the pieces set: the
  confirming interval between the configured one (less a millionth) and 3.9 times it, the maximal
  interval between 0.89 (less a millionth) and 1.0 of the configured one, whatever the validator's place
  in the group is; nothing overflows or divides by zero as long as the total stake times a million fits 64 bits.
\<close>

theorem OnNewEpoch_intervals:
  fixes em :: "'c Emitter"
  defines "c \<equiv> cfgIntervals (emConfig em)"
  assumes tot: "0 < sum_list (map unat (SortedStakes vals))" "sum_list (map unat (SortedStakes vals)) * 1000000 < 2 ^ 64"
    and cfg: "0 \<le> ivConfirming c" "ivConfirming c < 2 ^ 41" "0 \<le> ivMax c" "ivMax c < 2 ^ 41"
    and ids: "\<forall>ep v h. GetLastEvent w ep v = Some h \<longrightarrow> length h = 32"
  shows "\<exists>em'. OnNewEpoch w now vals ep em = Some em' \<and>
     ivConfirming c * 999999 div 1000000 \<le> ivConfirming (intervals em') \<and> ivConfirming (intervals em') \<le> ivConfirming c * 3900000 div 1000000 \<and>
     ivMax c * 889999 div 1000000 \<le> ivMax (intervals em') \<and> ivMax (intervals em') \<le> ivMax c \<and>
     ivMin (intervals em') = ivMin (intervals em) \<and> ivSelfFork (intervals em') = ivSelfFork (intervals em)"
proof -
  define em1 where "em1 = em\<lparr>myStakerID := fst (findMyStakerID w em)\<rparr>"
  have "loadPrevEmitTime w em1 \<noteq> None" using ids by (auto simp: loadPrevEmitTime_def Event_Epoch_def slice_sub_def BytesToIdx_def BytesToInt32_BE_def split: option.splits)
  then obtain prev where prev: "loadPrevEmitTime w em1 = Some prev" by auto
  obtain t b where tb: "stakesBefore (GetIdx vals (myStakerID em1)) (SortedStakes vals) = (t, b)" by fastforce
  let ?s = "sum_list (map unat (SortedStakes vals))"
  have u: "unat t = ?s" "unat b \<le> ?s" using stakesBefore_le [of "SortedStakes vals" "GetIdx vals (myStakerID em1)"] tot(2) tb by auto
  have "unat b * 1000000 < 2 ^ 64" using u(2) tot(2) by linarith
  then have "unat (b * PercentUnit) = unat b * 1000000" using unat_mult_lem [of b PercentUnit] by (simp add: PercentUnit_def)
  then have "unat (b * PercentUnit div t) = unat b * 1000000 div unat t" by (simp add: unat_div)
  also have "\<dots> \<le> unat t * 1000000 div unat t" using u by (intro div_le_mono) simp
  also have "\<dots> = 1000000" using u(1) tot(1) by simp
  finally have r: "b * PercentUnit div t \<le> 1000000" by (simp add: word_le_nat_alt)
  have p: "pieces_ok confirmingEmitIntervalPieces" "pieces_ok maxEmitIntervalPieces" by (simp_all add: pieces_ok_def confirmingEmitIntervalPieces_def maxEmitIntervalPieces_def)
  obtain y where y: "pf_Get (b * PercentUnit div t) confirmingEmitIntervalPieces = Some y" "999999 \<le> unat y" "unat y \<le> 3900000"
    using pieces_at_most [OF p(1), of _ 1000000 3900000] r by (auto simp: confirmingEmitIntervalPieces_def)
  obtain z where z: "pf_Get (b * PercentUnit div t) maxEmitIntervalPieces = Some z" "889999 \<le> unat z" "unat z \<le> 1000000"
    using pieces_at_most [OF p(2), of _ 890000 1000000] r by (auto simp: maxEmitIntervalPieces_def)
  have t: "t \<noteq> 0" using u(1) tot(1) by (metis unat_0 less_irrefl)
  have c1: "cfgIntervals (emConfig em1) = c" "intervals em1 = intervals em" by (simp_all add: em1_def c_def)
  have up: "d * int (unat k) div 1000000 \<le> d * int m div 1000000" if "0 \<le> d" "unat k \<le> m" for d m and k :: u64
    using that by (intro zdiv_mono1 mult_left_mono) (simp_all del: of_nat_unat)
  have y': "ivConfirming c * 999999 div 1000000 \<le> sint (pf_Mul (of_int (ivConfirming c)) y)" "sint (pf_Mul (of_int (ivConfirming c)) y) \<le> ivConfirming c * 3900000 div 1000000"
    using scaled_interval [OF cfg(1,2) y(2,3)] up [OF cfg(1) y(3)] by (simp_all del: of_nat_unat)
  have "unat z \<le> 3900000" using z(3) by simp
  then have z': "ivMax c * 889999 div 1000000 \<le> sint (pf_Mul (of_int (ivMax c)) z)" "sint (pf_Mul (of_int (ivMax c)) z) \<le> ivMax c"
    using scaled_interval [OF cfg(3,4) z(2)] up [OF cfg(3) z(3)] by (simp_all del: of_nat_unat)
  define em2 where "em2 = em1\<lparr>prevEmittedTime := prev, intervals := (intervals em)\<lparr>ivConfirming := sint (pf_Mul (of_int (ivConfirming c)) y),
    ivMax := sint (pf_Mul (of_int (ivMax c)) z)\<rparr>\<rparr>"
  have "OnNewEpoch w now vals ep em = Some (if myStakerID em1 \<noteq> 0 \<and> \<not> HasEpochValidator w (ep - 1) (myStakerID em1)
      then em2\<lparr>syncStatus := (syncStatus em2)\<lparr>becameValidatorTime := now\<rparr>\<rparr> else em2)"
    unfolding OnNewEpoch_def Let_def em1_def [symmetric] using prev tb t y(1) z(1) c1 by (simp add: em2_def)
  then show ?thesis using y' z' by (simp add: em2_def)
qed

definition two_validators :: Validators where
  "two_validators = Build [(1, 5), (2, 7)]"

definition quiet_world :: em_world where
  "quiet_world = \<lparr>GetLastEvent = (\<lambda>_ _. None), GetHeads = (\<lambda>_. []), GetEventHeader = (\<lambda>_ _. None),
     AppValidators = (\<lambda>_. [(1, replicate 20 1), (2, replicate 20 2)]), HasEpochValidator = (\<lambda>_ _. True),
     engineEpoch = 1, engineValidators = two_validators, PeersNum = 3, worldSynced = True\<rparr>"

definition fresh_emitter :: "unit Emitter" where
  "fresh_emitter = NewEmitter () small_config ((DefaultEmitterConfig [] 21000)\<lparr>cfgValidator := replicate 20 1\<rparr>)"

lemma two_validators_stakes: "SortedStakes two_validators = [7, 5]"
  unfolding two_validators_def by code_simp

theorem OnNewEpoch_intervals_witness:
  "\<exists>em'. OnNewEpoch quiet_world 0 two_validators 2 fresh_emitter = Some em' \<and>
     199999800 \<le> ivConfirming (intervals em') \<and> ivConfirming (intervals em') \<le> 780000000 \<and> ivMax (intervals em') \<le> 720000000000"
proof -
  let ?c = "cfgIntervals (emConfig fresh_emitter)"
  have c: "ivConfirming ?c = 200000000" "ivMax ?c = 720000000000"
    by (simp_all add: fresh_emitter_def NewEmitter_def DefaultEmitterConfig_def time_Minute_def time_Second_def)
  have "0 < sum_list (map unat (SortedStakes two_validators))" "sum_list (map unat (SortedStakes two_validators)) * 1000000 < 2 ^ 64"
    by (simp_all add: two_validators_stakes)
  then show ?thesis using OnNewEpoch_intervals [of two_validators fresh_emitter quiet_world 0 2] by (auto simp: c quiet_world_def)
qed

end
