(* ===== verification/Occured_Txs.thy ===== *)
theory Occured_Txs
  imports Event
begin

text \<open>
  \<open>gossip/occuredtxs/txs_ring_buffer.go\<close>: the transactions that are in events but not yet in blocks, with
  the number of them of every sender. The LRU cache is a third-party package; its operations return
  the entries for which the eviction callback has been called, and \<open>evicting_ok\<close> is what is documented
  of them: the callback is called exactly for the entries that leave the cache.
\<close>

type_synonym address = bytes

record 'c evicting =
  ecAdd :: "hash \<Rightarrow> address \<Rightarrow> 'c \<Rightarrow> 'c \<times> (hash \<times> address) list"
  ecRemove :: "hash \<Rightarrow> 'c \<Rightarrow> 'c \<times> (hash \<times> address) list"
  ecPurge :: "'c \<Rightarrow> 'c \<times> (hash \<times> address) list"
  ecPeek :: "hash \<Rightarrow> 'c \<Rightarrow> address option"
  ecLen :: "'c \<Rightarrow> nat"

record 'c ring =
  senders :: 'c
  rFrom :: "address \<rightharpoonup> int"

definition GetTxsNum :: "address \<Rightarrow> 'c ring \<Rightarrow> int" where
  "GetTxsNum sender r = (case rFrom r sender of None \<Rightarrow> 0 | Some n \<Rightarrow> n)"

definition decreaseSender :: "address \<Rightarrow> 'c ring \<Rightarrow> 'c ring" where
  "decreaseSender sender r =
     (let was = GetTxsNum sender r in
      if was \<le> 1 then r\<lparr>rFrom := (rFrom r)(sender := None)\<rparr> else r\<lparr>rFrom := (rFrom r)(sender \<mapsto> was - 1)\<rparr>)"

definition evicted :: "(hash \<times> address) list \<Rightarrow> 'c ring \<Rightarrow> 'c ring" where
  "evicted ev r = foldl (\<lambda>r e. decreaseSender (snd e) r) r ev"

definition ring_Add :: "'c evicting \<Rightarrow> hash \<Rightarrow> address \<Rightarrow> 'c ring \<Rightarrow> 'c ring" where
  "ring_Add E h sender r =
     (if ecPeek E h (senders r) \<noteq> None then r
      else case ecAdd E h sender (senders r) of (c, ev) \<Rightarrow>
        let r = evicted ev (r\<lparr>senders := c\<rparr>) in r\<lparr>rFrom := (rFrom r)(sender \<mapsto> GetTxsNum sender r + 1)\<rparr>)"

definition ring_Delete :: "'c evicting \<Rightarrow> hash \<Rightarrow> 'c ring \<Rightarrow> 'c ring" where
  "ring_Delete E h r = (case ecRemove E h (senders r) of (c, ev) \<Rightarrow> evicted ev (r\<lparr>senders := c\<rparr>))"

definition ring_Get :: "'c evicting \<Rightarrow> hash \<Rightarrow> 'c ring \<Rightarrow> address option" where
  "ring_Get E h r = ecPeek E h (senders r)"

definition ring_Clear :: "'c evicting \<Rightarrow> 'c ring \<Rightarrow> 'c ring" where
  "ring_Clear E r = (case ecPurge E (senders r) of (c, ev) \<Rightarrow> (evicted ev (r\<lparr>senders := c\<rparr>))\<lparr>rFrom := Map.empty\<rparr>)"

text \<open>A transaction is its hash and what the signer recovers from it, \<^const>\<open>None\<close> for an error.\<close>

type_synonym signed_tx = "hash \<times> address option"

fun CollectNotConfirmedTxs :: "'c evicting \<Rightarrow> signed_tx list \<Rightarrow> 'c ring \<Rightarrow> bool \<times> 'c ring" where
  "CollectNotConfirmedTxs E [] r = (True, r)"
| "CollectNotConfirmedTxs E (tx # txs) r = (case snd tx of
     None \<Rightarrow> (False, r)
   | Some sender \<Rightarrow> CollectNotConfirmedTxs E txs (ring_Add E (fst tx) sender r))"

definition CollectConfirmedTxs :: "'c evicting \<Rightarrow> signed_tx list \<Rightarrow> 'c ring \<Rightarrow> 'c ring" where
  "CollectConfirmedTxs E txs r = foldl (\<lambda>r tx. ring_Delete E (fst tx) r) r txs"

definition MayBeConflicted :: "'c evicting \<Rightarrow> address \<Rightarrow> hash \<Rightarrow> 'c ring \<Rightarrow> bool" where
  "MayBeConflicted E sender txHash r = (if ring_Get E txHash r \<noteq> None then True else GetTxsNum sender r \<noteq> 0)"

definition ring_Len :: "'c evicting \<Rightarrow> 'c ring \<Rightarrow> nat" where
  "ring_Len E r = ecLen E (senders r)"

subsection \<open>The counts are right\<close>

definition held :: "'c evicting \<Rightarrow> 'c \<Rightarrow> hash \<rightharpoonup> address" where
  "held E c h = ecPeek E h c"

definition leaving :: "(hash \<rightharpoonup> address) \<Rightarrow> (hash \<rightharpoonup> address) \<Rightarrow> (hash \<times> address) list \<Rightarrow> bool" where
  "leaving m m' ev \<longleftrightarrow> distinct (map fst ev) \<and> (\<forall>(h, a) \<in> set ev. m h = Some a) \<and> m' = m |` (- fst ` set ev)"

definition evicting_ok :: "'c evicting \<Rightarrow> bool" where
  "evicting_ok E \<longleftrightarrow> (\<forall>c h a. finite (dom (held E c)) \<and>
     (held E c h = None \<longrightarrow> leaving ((held E c)(h \<mapsto> a)) (held E (fst (ecAdd E h a c))) (snd (ecAdd E h a c)) \<and> h \<notin> fst ` set (snd (ecAdd E h a c))) \<and>
     leaving (held E c) (held E (fst (ecRemove E h c))) (snd (ecRemove E h c)) \<and> held E (fst (ecRemove E h c)) = (held E c)(h := None) \<and>
     held E (fst (ecPurge E c)) = Map.empty \<and> ecLen E c = card (dom (held E c)))"

definition sent_by :: "(hash \<rightharpoonup> address) \<Rightarrow> address \<Rightarrow> hash set" where
  "sent_by m a = {h. m h = Some a}"

definition ring_ok :: "'c evicting \<Rightarrow> 'c ring \<Rightarrow> bool" where
  "ring_ok E r \<longleftrightarrow> (\<forall>a. GetTxsNum a r = int (card (sent_by (held E (senders r)) a)))"

lemma sent_by_finite: "finite (dom m) \<Longrightarrow> finite (sent_by m a)"
  by (rule finite_subset [of _ "dom m"]) (auto simp: sent_by_def)

lemma decrease_num: "0 \<le> GetTxsNum a r \<Longrightarrow> GetTxsNum a (decreaseSender s r) = (if a = s then max 0 (GetTxsNum s r - 1) else GetTxsNum a r)"
  by (auto simp: GetTxsNum_def decreaseSender_def Let_def split: option.splits)

text \<open>The callbacks take every sender's count down by the entries of his that have left.\<close>

lemma evicted_counts:
  assumes "finite (dom m)" "leaving m m' ev" "\<And>a. GetTxsNum a r = int (card (sent_by m a))"
  shows "GetTxsNum a (evicted ev r) = int (card (sent_by m' a))"
  using assms
proof (induction ev arbitrary: m r)
  case Nil
  then show ?case by (simp add: evicted_def leaving_def)
next
  case (Cons e ev)
  obtain h s where e: "e = (h, s)" by fastforce
  let ?m = "m(h := None)"
  have m: "m h = Some s" and d: "h \<notin> fst ` set ev" "distinct (map fst ev)" using Cons.prems(2) e by (auto simp: leaving_def)
  have l: "leaving ?m m' ev"
  proof -
    have "\<forall>(k, a) \<in> set ev. ?m k = Some a" using Cons.prems(2) d(1) e by (force simp: leaving_def)
    moreover have "m |` (- fst ` set (e # ev)) = ?m |` (- fst ` set ev)" using d(1) e by (auto simp: fun_eq_iff restrict_map_def)
    ultimately show ?thesis using Cons.prems(2) d(2) by (simp add: leaving_def)
  qed
  have "GetTxsNum b (decreaseSender s r) = int (card (sent_by ?m b))" for b
  proof (cases "b = s")
    case True
    have "sent_by ?m s = sent_by m s - {h}" "h \<in> sent_by m s" using m by (auto simp: sent_by_def)
    moreover from this have "0 < card (sent_by m s)" using sent_by_finite [OF Cons.prems(1)] by (metis card_gt_0_iff empty_iff)
    ultimately show ?thesis using True Cons.prems(3) [of s] sent_by_finite [OF Cons.prems(1), of s] by (simp add: decrease_num of_nat_diff)
  next
    case False
    then have "sent_by ?m b = sent_by m b" using m by (auto simp: sent_by_def)
    with False Cons.prems(3) [of b] show ?thesis by (simp add: decrease_num)
  qed
  from Cons.IH [OF _ l this] have "GetTxsNum a (evicted ev (decreaseSender s r)) = int (card (sent_by m' a))"
    using Cons.prems(1) by (simp del: fun_upd_apply)
  then show ?case using e by (simp add: evicted_def)
qed

lemma senders_evicted [simp]: "senders (evicted ev r) = senders r"
proof -
  have "senders (decreaseSender s r) = senders r" for s and r :: "'a ring" by (simp add: decreaseSender_def Let_def)
  then show ?thesis unfolding evicted_def by (induction ev arbitrary: r) simp_all
qed

lemma num_senders [simp]: "GetTxsNum a (r\<lparr>senders := c\<rparr>) = GetTxsNum a r"
  by (simp add: GetTxsNum_def)

lemma ecAdd_left:
  assumes "evicting_ok E" "held E c h = None" "ecAdd E h a c = (c', ev)"
  shows "leaving ((held E c)(h \<mapsto> a)) (held E c') ev" "h \<notin> fst ` set ev"
  using assms(1) [unfolded evicting_ok_def, THEN spec [of _ c], THEN spec [of _ h], THEN spec [of _ a]] assms(2,3) by (simp_all del: fun_upd_apply)

lemma ecRemove_left:
  assumes "evicting_ok E" "ecRemove E h c = (c', ev)"
  shows "leaving (held E c) (held E c') ev" "held E c' = (held E c)(h := None)"
  using assms(1) [unfolded evicting_ok_def, THEN spec [of _ c], THEN spec [of _ h], THEN spec [of _ "[]"]] assms(2) by auto

lemma ecPurge_empty:
  assumes "evicting_ok E" "ecPurge E c = (c', ev)"
  shows "held E c' = Map.empty"
  using assms(1) [unfolded evicting_ok_def, THEN spec [of _ c], THEN spec [of _ "[]"], THEN spec [of _ "[]"]] assms(2) by simp

lemma held_finite: "evicting_ok E \<Longrightarrow> finite (dom (held E c))"
  by (simp add: evicting_ok_def)

lemma ring_Add_ok:
  assumes E: "evicting_ok E" and r: "ring_ok E r"
  shows "ring_ok E (ring_Add E h s r)"
proof (cases "held E (senders r) h")
  case None
  obtain c ev where c: "ecAdd E h s (senders r) = (c, ev)" by fastforce
  let ?m = "(held E (senders r))" let ?m1 = "?m(h \<mapsto> s)" and ?r = "r\<lparr>senders := c, rFrom := (rFrom r)(s \<mapsto> GetTxsNum s r + 1)\<rparr>"
  have l: "leaving ?m1 (held E c) ev" and nh: "h \<notin> fst ` set ev" using ecAdd_left [OF E None c] by simp_all
  have fm: "finite (dom ?m)" by (rule held_finite [OF E])
  have l0: "leaving ?m ((held E c)(h := None)) ev"
  proof -
    have "?m k = Some a" if k: "(k, a) \<in> set ev" for k a
    proof -
      have "?m1 k = Some a" using l k by (auto simp: leaving_def)
      moreover have "k \<noteq> h" using nh k by force
      ultimately show ?thesis by simp
    qed
    moreover have "(held E c)(h := None) = ?m |` (- fst ` set ev)" using l None by (auto simp: leaving_def fun_eq_iff restrict_map_def)
    ultimately show ?thesis using l by (auto simp: leaving_def)
  qed
  have cnt: "GetTxsNum a (evicted ev (r\<lparr>senders := c\<rparr>)) = int (card (sent_by ((held E c)(h := None)) a))" for a
    by (rule evicted_counts [OF fm l0]) (use r in \<open>simp add: ring_ok_def\<close>)
  have ch: "held E c h = Some s" using l nh by (simp add: leaving_def restrict_map_def)
  have fc: "finite (dom (held E c))" by (rule held_finite [OF E])
  have "int (card (sent_by (held E c) a)) = int (card (sent_by ((held E c)(h := None)) a)) + (if a = s then 1 else 0)" for a
  proof (cases "a = s")
    case True
    have "sent_by (held E c) s = insert h (sent_by ((held E c)(h := None)) s)" "h \<notin> sent_by ((held E c)(h := None)) s" using ch by (auto simp: sent_by_def)
    moreover have "finite (sent_by ((held E c)(h := None)) s)" using fc by (intro sent_by_finite) simp
    ultimately show ?thesis using True by simp
  next
    case False
    then have "sent_by (held E c) a = sent_by ((held E c)(h := None)) a" using ch by (auto simp: sent_by_def)
    with False show ?thesis by simp
  qed
  then show ?thesis using None c cnt by (simp add: held_def ring_ok_def ring_Add_def Let_def) (simp add: GetTxsNum_def)
qed (use r in \<open>simp add: held_def ring_Add_def\<close>)

lemma ring_Delete_ok:
  assumes E: "evicting_ok E" and r: "ring_ok E r"
  shows "ring_ok E (ring_Delete E h r)"
proof -
  obtain c ev where c: "ecRemove E h (senders r) = (c, ev)" by fastforce
  from r have "GetTxsNum a (r\<lparr>senders := c\<rparr>) = int (card (sent_by (held E (senders r)) a))" for a by (simp add: ring_ok_def)
  from evicted_counts [OF held_finite [OF E] ecRemove_left(1) [OF E c] this] c show ?thesis by (simp add: ring_ok_def ring_Delete_def)
qed

lemma ring_Clear_ok:
  assumes E: "evicting_ok E"
  shows "ring_ok E (ring_Clear E r)"
proof -
  obtain c ev where c: "ecPurge E (senders r) = (c, ev)" by fastforce
  then have "held E c = Map.empty" by (rule ecPurge_empty [OF E])
  then have "sent_by (held E c) a = {}" for a by (simp add: sent_by_def)
  with c show ?thesis by (simp add: ring_ok_def ring_Clear_def GetTxsNum_def)
qed


subsection \<open>A run of the buffer\<close>

text \<open>What the service does with the buffer: transactions of a connected event, transactions of a block, a new epoch.\<close>

datatype buffer_op = Included "signed_tx list" | Confirmed "signed_tx list" | Cleared

fun buffer_step :: "'c evicting \<Rightarrow> 'c ring \<Rightarrow> buffer_op \<Rightarrow> 'c ring" where
  "buffer_step E r (Included txs) = snd (CollectNotConfirmedTxs E txs r)"
| "buffer_step E r (Confirmed txs) = CollectConfirmedTxs E txs r"
| "buffer_step E r Cleared = ring_Clear E r"

definition buffer_New :: "'c \<Rightarrow> 'c ring" where
  "buffer_New c = \<lparr>senders = c, rFrom = Map.empty\<rparr>"

definition buffer_after :: "'c evicting \<Rightarrow> 'c \<Rightarrow> buffer_op list \<Rightarrow> 'c ring" where
  "buffer_after E c ops = foldl (buffer_step E) (buffer_New c) ops"

lemma CollectNotConfirmedTxs_ok: "evicting_ok E \<Longrightarrow> ring_ok E r \<Longrightarrow> ring_ok E (snd (CollectNotConfirmedTxs E txs r))"
  by (induction E txs r rule: CollectNotConfirmedTxs.induct) (auto split: option.splits intro: ring_Add_ok)

lemma CollectConfirmedTxs_ok: "evicting_ok E \<Longrightarrow> ring_ok E r \<Longrightarrow> ring_ok E (CollectConfirmedTxs E txs r)"
  unfolding CollectConfirmedTxs_def by (induction txs arbitrary: r) (auto intro: ring_Delete_ok)

lemma buffer_step_ok: "evicting_ok E \<Longrightarrow> ring_ok E r \<Longrightarrow> ring_ok E (buffer_step E r b)"
  by (cases b) (auto intro: CollectNotConfirmedTxs_ok CollectConfirmedTxs_ok ring_Clear_ok)

lemma buffer_after_ok:
  assumes E: "evicting_ok E" and c: "held E c = Map.empty"
  shows "ring_ok E (buffer_after E c ops)"
proof -
  have "ring_ok E (buffer_New c)" using c by (simp add: ring_ok_def buffer_New_def GetTxsNum_def sent_by_def)
  then show ?thesis unfolding buffer_after_def by (induction ops rule: rev_induct) (auto intro: buffer_step_ok [OF E])
qed

lemma ring_Delete_held: "evicting_ok E \<Longrightarrow> held E (senders (ring_Delete E h r)) = (held E (senders r))(h := None)"
  using ecRemove_left(2) [of E h "senders r"] by (auto simp: ring_Delete_def split: prod.split)

lemma CollectConfirmedTxs_held:
  assumes E: "evicting_ok E"
  shows "held E (senders (CollectConfirmedTxs E txs r)) = held E (senders r) |` (- fst ` set txs)"
  unfolding CollectConfirmedTxs_def
proof (induction txs arbitrary: r)
  case (Cons tx txs)
  then show ?case by (auto simp: ring_Delete_held [OF E] restrict_map_def fun_eq_iff)
qed (simp add: restrict_map_def)

text \<open>
  C31. The buffer of occurred transactions stops exactly what it should: after any sequence of connected
  events, blocks and clearings, whatever the LRU has evicted on the way, a transaction may be conflicted
  if and only if it is held itself or its sender has a held transaction; the transactions of the last
  block are not held.
\<close>

theorem MayBeConflicted_exact:
  assumes E: "evicting_ok E" and c: "held E c = Map.empty"
  shows "let r = buffer_after E c (ops @ [Confirmed txs]); now = held E (senders r) in
     (MayBeConflicted E sender h r \<longleftrightarrow> h \<in> dom now \<or> (\<exists>h'. now h' = Some sender)) \<and>
     fst ` set txs \<inter> dom now = {} \<and> ring_Len E r = card (dom now)"
proof -
  define r where "r = buffer_after E c (ops @ [Confirmed txs])"
  have "GetTxsNum sender r = int (card (sent_by (held E (senders r)) sender))"
    using buffer_after_ok [OF E c] by (simp add: r_def ring_ok_def)
  moreover have "finite (sent_by (held E (senders r)) sender)" by (intro sent_by_finite held_finite E)
  ultimately have "GetTxsNum sender r \<noteq> 0 \<longleftrightarrow> (\<exists>h'. held E (senders r) h' = Some sender)" by (auto simp: sent_by_def)
  then have "MayBeConflicted E sender h r \<longleftrightarrow> h \<in> dom (held E (senders r)) \<or> (\<exists>h'. held E (senders r) h' = Some sender)"
    by (auto simp: MayBeConflicted_def ring_Get_def held_def)
  moreover have "fst ` set txs \<inter> dom (held E (senders r)) = {}"
    by (auto simp: r_def buffer_after_def CollectConfirmedTxs_held [OF E] dom_restrict)
  moreover have "ring_Len E r = card (dom (held E (senders r)))" using E by (simp add: ring_Len_def evicting_ok_def)
  ultimately show ?thesis by (simp add: r_def Let_def)
qed

text \<open>An LRU of a fixed size as a list, the newest entry first.\<close>

definition list_lru :: "nat \<Rightarrow> (hash \<times> address) list evicting" where
  "list_lru n = \<lparr>
     ecAdd = (\<lambda>h a c. if length c < n \<or> c = [] then ((h, a) # c, [])
                       else (let k = fst (last c) in ((h, a) # filter (\<lambda>e. fst e \<noteq> k) c, [(k, the (map_of c k))]))),
     ecRemove = (\<lambda>h c. (filter (\<lambda>e. fst e \<noteq> h) c, case map_of c h of None \<Rightarrow> [] | Some a \<Rightarrow> [(h, a)])),
     ecPurge = (\<lambda>c. ([], rev c)),
     ecPeek = (\<lambda>h c. map_of c h),
     ecLen = (\<lambda>c. length (remdups (map fst c)))\<rparr>"

lemma map_of_removed: "map_of (filter (\<lambda>e. fst e \<noteq> k) c) = (map_of c)(k := None)"
  by (induction c) (auto simp: fun_eq_iff)

lemma list_lru_held [simp]: "held (list_lru n) c = map_of c"
  by (simp add: fun_eq_iff held_def list_lru_def)

lemma list_lru_add:
  assumes "map_of c h = None"
  shows "leaving ((map_of c)(h \<mapsto> a)) (map_of (fst (ecAdd (list_lru n) h a c))) (snd (ecAdd (list_lru n) h a c)) \<and>
         h \<notin> fst ` set (snd (ecAdd (list_lru n) h a c))"
proof (cases "length c < n \<or> c = []")
  case False
  then have "fst (last c) \<in> dom (map_of c)" by (simp add: dom_map_of_conv_image_fst)
  with False assms show ?thesis by (auto simp: list_lru_def leaving_def Let_def map_of_removed restrict_map_def fun_eq_iff)
qed (simp add: list_lru_def leaving_def restrict_map_def fun_eq_iff)

lemma list_lru_remove: "leaving (map_of c) (map_of (fst (ecRemove (list_lru n) h c))) (snd (ecRemove (list_lru n) h c)) \<and>
    map_of (fst (ecRemove (list_lru n) h c)) = (map_of c)(h := None)"
  by (auto simp: list_lru_def leaving_def map_of_removed restrict_map_def fun_eq_iff split: option.split)

lemma list_lru_ok: "evicting_ok (list_lru n)"
proof -
  have "length (remdups (map fst c)) = card (dom (map_of c))" for c :: "(hash \<times> address) list"
    by (simp add: dom_map_of_conv_image_fst length_remdups_card_conv)
  then have "ecLen (list_lru n) c = card (dom (map_of c))" "map_of (fst (ecPurge (list_lru n) c)) = Map.empty" for c
    by (simp_all add: list_lru_def)
  then show ?thesis unfolding evicting_ok_def list_lru_held
    by (auto simp: finite_dom_map_of list_lru_add list_lru_remove [THEN conjunct1] simp del: fun_upd_apply) (simp add: list_lru_remove)
qed

definition busy_ops :: "buffer_op list" where
  "busy_ops = [Included [([1], Some [7]), ([2], Some [8]), ([3], Some [7])]]"

text \<open>With room for two, the first of three transactions is evicted, the second confirmed: sender 7 is still held up by the third.\<close>

theorem MayBeConflicted_exact_witness:
  "evicting_ok (list_lru 2) \<and> held (list_lru 2) [] = Map.empty \<and>
   (let r = buffer_after (list_lru 2) [] (busy_ops @ [Confirmed [([2], Some [8])]]) in
    MayBeConflicted (list_lru 2) [7] [9] r \<and> \<not> MayBeConflicted (list_lru 2) [8] [2] r \<and>
    [2] \<notin> dom (held (list_lru 2) (senders r)) \<and> ring_Len (list_lru 2) r = 1)"
proof -
  let ?r = "buffer_after (list_lru 2) [] (busy_ops @ [Confirmed [([2], Some [8])]])"
  have r: "map_of (senders ?r) = [[3] \<mapsto> [7]]"
    by (simp add: buffer_after_def buffer_New_def busy_ops_def list_lru_def ring_Add_def ring_Delete_def evicted_def
        CollectConfirmedTxs_def decreaseSender_def GetTxsNum_def fun_eq_iff)
  note ex = MayBeConflicted_exact [OF list_lru_ok, of 2 "[]" busy_ops "[([2], Some [8])]", unfolded Let_def list_lru_held r, OF map_of.simps(1)]
  show ?thesis using ex [of "[7]" "[9]"] ex [of "[8]" "[2]"] r by (simp add: list_lru_ok Let_def)
qed

end
