(* ===== verification/Best_Parents.thy ===== *)
theory Best_Parents
  imports Vector_Index
begin

text \<open>
  \<open>inter/ancestor/parents.go\<close>: the parents of a new event. \<open>FindBestParents\<close> is written over the
  interface \<open>SearchStrategy\<close>; its contract is the locale \<open>search_strategy\<close>, provided by the causality
  strategy and by the random one. A set of events is a Go map: \<open>ord k s\<close> is the order in which the
  \<open>k\<close>-th range over \<open>s\<close> visits it.
\<close>

type_synonym ranges = "nat \<Rightarrow> hash_event set \<Rightarrow> hash_event list"

definition ranges_ok :: "ranges \<Rightarrow> bool" where
  "ranges_ok ord \<longleftrightarrow> (\<forall>k s. finite s \<longrightarrow> distinct (ord k s) \<and> set (ord k s) = s)"

definition Events_Set :: "hash_event list \<Rightarrow> hash_event set" where
  "Events_Set hh = foldl (\<lambda>s h. insert h s) {} hh"

definition EventsSet_Erase :: "hash_event set \<Rightarrow> hash_event \<Rightarrow> hash_event set" where
  "EventsSet_Erase s h = (if h \<in> s then s - {h} else s)"

lemma Events_Set_eq [simp]: "Events_Set hh = set hh"
proof -
  have "foldl (\<lambda>s h. insert h s) s hh = s \<union> set hh" for s by (induction hh arbitrary: s) auto
  then show ?thesis by (simp add: Events_Set_def)
qed

lemma EventsSet_Erase_eq [simp]: "EventsSet_Erase s h = s - {h}"
  by (simp add: EventsSet_Erase_def)

subsection \<open>\<open>FindBestParents\<close>\<close>

text \<open>\<open>Find\<close> may panic, the value \<^const>\<open>None\<close>. A negative capacity panics in \<open>make\<close>.\<close>

type_synonym 's finder = "hash_event list \<Rightarrow> 's \<Rightarrow> (hash_event \<times> 's) option"

function bestLoop :: "ranges \<Rightarrow> 's finder \<Rightarrow> int \<Rightarrow> hash_event list \<Rightarrow> hash_event set \<Rightarrow> 's \<Rightarrow> hash_event list option" where
  "bestLoop ord pick mx parents optionsSet st =
     (if int (length parents) < mx \<and> card optionsSet > 0
      then (case pick (ord (length parents) optionsSet) st of
          None \<Rightarrow> None
        | Some (best, st) \<Rightarrow> bestLoop ord pick mx (parents @ [best]) (EventsSet_Erase optionsSet best) st)
      else Some parents)"
  by pat_completeness auto

termination
  by (relation "measure (\<lambda>(_, _, mx, parents, _). nat (mx - int (length parents)))") auto

declare bestLoop.simps [simp del]

definition FindBestParents ::
    "ranges \<Rightarrow> (hash_event option \<Rightarrow> 's \<Rightarrow> 's) \<Rightarrow> 's finder \<Rightarrow> int \<Rightarrow> hash_event list \<Rightarrow> hash_event option \<Rightarrow> 's \<Rightarrow>
     (hash_event option \<times> hash_event list) option" where
  "FindBestParents ord init pick mx options selfParent st =
     (if mx < 0 then None
      else let optionsSet = Events_Set options;
               (parents, optionsSet) = (case selfParent of
                  Some p \<Rightarrow> ([p], EventsSet_Erase optionsSet p)
                | None \<Rightarrow> ([], optionsSet));
               st = init selfParent st
           in do {
             parents \<leftarrow> bestLoop ord pick mx parents optionsSet st;
             Some (selfParent, parents) })"

subsection \<open>The causality strategy\<close>

record CasualityStrategy =
  stVecClock :: Index
  stTemplate :: "HighestBeforeSeq option"
  stValidators :: Validators

record eventScore =
  esEvent :: hash_event
  esScore :: u32
  esVec :: "HighestBeforeSeq option"

definition NewCasualityStrategy :: "Index \<Rightarrow> Validators \<Rightarrow> CasualityStrategy" where
  "NewCasualityStrategy vecClock validators = \<lparr>stVecClock = vecClock, stTemplate = None, stValidators = validators\<rparr>"

definition GetHighestBeforeMerged :: "Index \<Rightarrow> hash_event \<Rightarrow> HighestBeforeSeq option" where
  "GetHighestBeforeMerged vi h = fst (getHighestBeforeMerged vi h)"

definition casuality_Init :: "hash_event option \<Rightarrow> CasualityStrategy \<Rightarrow> CasualityStrategy" where
  "casuality_Init selfParent st = (case selfParent of
     Some p \<Rightarrow> st\<lparr>stTemplate := GetHighestBeforeMerged (stVecClock st) p\<rparr>
   | None \<Rightarrow> st)"

definition seq_get :: "HighestBeforeSeq option \<Rightarrow> Validator \<Rightarrow> BranchSeq" where
  "seq_get v i = HighestBeforeSeq_Get (case v of None \<Rightarrow> [] | Some b \<Rightarrow> b) i"

definition scoreStep :: "HighestBeforeSeq option \<Rightarrow> HighestBeforeSeq option \<Rightarrow> Validator \<Rightarrow> u32 \<Rightarrow> u32" where
  "scoreStep template vec creatorIdx score =
     (let my = seq_get template creatorIdx; his = seq_get vec creatorIdx;
          score = (if Seq his > Seq my \<and> \<not> IsForkDetected my then score + 1 else score)
      in if IsForkDetected his \<and> \<not> IsForkDetected my then score + 1 else score)"

definition scoreOption :: "CasualityStrategy \<Rightarrow> hash_event \<Rightarrow> eventScore \<times> CasualityStrategy" where
  "scoreOption st h =
     (let vec = GetHighestBeforeMerged (stVecClock st) h;
          n = Validators_Len (stValidators st);
          st = (if stTemplate st = None then st\<lparr>stTemplate := Some (NewHighestBeforeSeq n)\<rparr> else st);
          score = foldl (\<lambda>score i. scoreStep (stTemplate st) vec i score) 0 (map of_nat [0..<n])
      in (\<lparr>esEvent = h, esScore = score, esVec = vec\<rparr>, st))"

definition scoreOptions :: "CasualityStrategy \<Rightarrow> hash_event list \<Rightarrow> eventScore list \<times> CasualityStrategy" where
  "scoreOptions st options =
     foldl (\<lambda>(scores, st) h. case scoreOption st h of (score, st) \<Rightarrow> (scores @ [score], st)) ([], st) options"

text \<open>\<open>sort.Slice\<close> is not stable: \<open>srt\<close> is what it makes of a ord.\<close>

definition sorts_scores :: "(eventScore list \<Rightarrow> eventScore list) \<Rightarrow> bool" where
  "sorts_scores srt \<longleftrightarrow> (\<forall>xs. mset (srt xs) = mset xs \<and> sorted_wrt (\<lambda>a b. \<not> esScore b < esScore a) (srt xs))"

definition casuality_Find :: "(eventScore list \<Rightarrow> eventScore list) \<Rightarrow> CasualityStrategy finder" where
  "casuality_Find srt options st =
     (case scoreOptions st options of (scores, st) \<Rightarrow> do {
        best \<leftarrow> slice_get (srt scores) 0;
        Some (esEvent best, st\<lparr>stTemplate := esVec best\<rparr>) })"

subsection \<open>The random strategy\<close>

text \<open>The state is the source of random numbers: \<open>intn n r\<close> is \<open>r.Intn(n)\<close>, which panics at 0.\<close>

definition random_Init :: "hash_event option \<Rightarrow> 'r \<Rightarrow> 'r" where
  "random_Init myLast r = r"

definition random_Find :: "(nat \<Rightarrow> 'r \<Rightarrow> nat \<times> 'r) \<Rightarrow> 'r finder" where
  "random_Find intn heads r =
     (if length heads = 0 then None
      else case intn (length heads) r of (i, r) \<Rightarrow> do { h \<leftarrow> slice_get heads i; Some (h, r) })"

definition intn_ok :: "(nat \<Rightarrow> 'r \<Rightarrow> nat \<times> 'r) \<Rightarrow> bool" where
  "intn_ok intn \<longleftrightarrow> (\<forall>n r. 0 < n \<longrightarrow> fst (intn n r) < n)"

subsection \<open>The contract of a strategy\<close>

text \<open>A strategy chooses one of the options it is given.\<close>

locale search_strategy =
  fixes pick :: "'s finder"
  assumes pick_option: "options \<noteq> [] \<Longrightarrow> \<exists>h st'. pick options st = Some (h, st') \<and> h \<in> set options"
begin

lemma bestLoop_chooses:
  assumes "ranges_ok ord" "finite optionsSet" "distinct parents" "set parents \<inter> optionsSet = {}"
  shows "\<exists>ps. bestLoop ord pick mx parents optionsSet st = Some (parents @ ps) \<and> distinct (parents @ ps) \<and> set ps \<subseteq> optionsSet \<and>
     int (length ps) = min (max 0 (mx - int (length parents))) (int (card optionsSet))"
  using assms
proof (induction "nat (mx - int (length parents))" arbitrary: parents optionsSet st rule: less_induct)
  case less
  show ?case
  proof (cases "int (length parents) < mx \<and> card optionsSet > 0")
    case False
    then show ?thesis using less.prems by (subst bestLoop.simps) auto
  next
    case True
    let ?o = "ord (length parents) optionsSet"
    have o: "set ?o = optionsSet" using less.prems(1,2) by (simp add: ranges_ok_def)
    with True have "?o \<noteq> []" by (cases "?o = []") auto
    from pick_option [OF this, of st] obtain h st' where f: "pick ?o st = Some (h, st')" "h \<in> optionsSet" unfolding o by blast
    have "\<exists>ps. bestLoop ord pick mx (parents @ [h]) (optionsSet - {h}) st' = Some ((parents @ [h]) @ ps) \<and> distinct ((parents @ [h]) @ ps) \<and>
        set ps \<subseteq> optionsSet - {h} \<and> int (length ps) = min (max 0 (mx - int (length (parents @ [h])))) (int (card (optionsSet - {h})))"
      by (rule less.hyps) (use True f(2) less.prems in auto)
    then obtain ps where ps: "bestLoop ord pick mx (parents @ [h]) (optionsSet - {h}) st' = Some ((parents @ [h]) @ ps)" "distinct ((parents @ [h]) @ ps)"
        "set ps \<subseteq> optionsSet - {h}" "int (length ps) = min (max 0 (mx - int (length (parents @ [h])))) (int (card (optionsSet - {h})))" by blast
    have "int (length (h # ps)) = min (max 0 (mx - int (length parents))) (int (card optionsSet))" using ps(4) True f(2) less.prems(2) by auto
    then show ?thesis using True f ps(1,2,3) by (subst bestLoop.simps) (auto intro!: exI [of _ "h # ps"])
  qed
qed

text \<open>The self-parent first, then other options, each once, as many as fit.\<close>

lemma FindBestParents_chooses:
  assumes "ranges_ok ord" "0 \<le> mx"
  shows "\<exists>ps. FindBestParents ord init pick mx options selfParent st = Some (selfParent, ps) \<and> distinct ps \<and>
     set ps \<subseteq> set options \<union> set_option selfParent \<and> (\<forall>p. selfParent = Some p \<longrightarrow> ps \<noteq> [] \<and> hd ps = p) \<and>
     int (length ps) = max (int (card (set_option selfParent))) (min mx (int (card (set options \<union> set_option selfParent))))"
proof (cases selfParent)
  case None
  with bestLoop_chooses [OF assms(1), of "set options" "[]" mx "init None st"] assms(2) show ?thesis
    by (auto simp: FindBestParents_def)
next
  case (Some p)
  have "int (card (set options - {p})) = int (card (insert p (set options))) - 1" by (simp add: card.insert_remove)
  with Some bestLoop_chooses [OF assms(1), of "set options - {p}" "[p]" mx "init (Some p) st"] assms(2) show ?thesis
    by (auto simp: FindBestParents_def)
qed

end

text \<open>Both strategies keep the contract.\<close>

lemma scoreOptions_events: "map esEvent (fst (scoreOptions st options)) = options"
proof -
  have "map esEvent (fst (foldl (\<lambda>(scores, st) h. case scoreOption st h of (score, st) \<Rightarrow> (scores @ [score], st)) (scores, st) options)) =
      map esEvent scores @ options" for scores st
    by (induction options arbitrary: scores st) (simp_all add: scoreOption_def Let_def)
  then show ?thesis by (simp add: scoreOptions_def)
qed

lemma casuality_Find_lowest:
  assumes srt: "sorts_scores srt" and o: "options \<noteq> []"
  shows "\<exists>best \<in> set (fst (scoreOptions st options)).
     casuality_Find srt options st = Some (esEvent best, (snd (scoreOptions st options))\<lparr>stTemplate := esVec best\<rparr>) \<and>
     esEvent best \<in> set options \<and> (\<forall>s \<in> set (fst (scoreOptions st options)). esScore best \<le> esScore s)"
proof -
  obtain scores st' where s: "scoreOptions st options = (scores, st')" by fastforce
  have m: "mset (srt scores) = mset scores" and w: "sorted_wrt (\<lambda>a b. \<not> esScore b < esScore a) (srt scores)" using srt by (auto simp: sorts_scores_def)
  have ev: "map esEvent scores = options" using scoreOptions_events [of st options] s by simp
  with o have "scores \<noteq> []" by auto
  with m obtain best rest where b: "srt scores = best # rest" by (cases "srt scores") auto
  have set: "set scores = insert best (set rest)" using m b by (metis list.simps(15) mset_eq_setD)
  moreover have "\<forall>s \<in> set rest. esScore best \<le> esScore s" using w b by (auto simp: not_less)
  moreover have "esEvent best \<in> set options" using set ev by (metis insertI1 list.set_map imageI)
  moreover have "casuality_Find srt options st = Some (esEvent best, st'\<lparr>stTemplate := esVec best\<rparr>)" using s b by (simp add: casuality_Find_def slice_get_def)
  ultimately show ?thesis using s by auto
qed

lemma casuality_search: "sorts_scores srt \<Longrightarrow> search_strategy (casuality_Find srt)"
  using casuality_Find_lowest by unfold_locales blast

lemma random_search: "intn_ok intn \<Longrightarrow> search_strategy (random_Find intn)"
proof
  fix options :: "hash_event list" and st
  assume "intn_ok intn" "options \<noteq> []"
  then have "fst (intn (length options) st) < length options" by (simp add: intn_ok_def)
  then show "\<exists>h st'. random_Find intn options st = Some (h, st') \<and> h \<in> set options" using \<open>options \<noteq> []\<close>
    by (auto simp: random_Find_def slice_get_def split: prod.split)
qed

text \<open>A stable sort is one of the sorts the strategy may meet; with it the causality strategy is an instance.\<close>

lemma stable_sorts: "sorts_scores (sort_key esScore)"
proof -
  have "sorted_wrt (\<lambda>a b. \<not> esScore b < esScore a) (sort_key esScore xs)" for xs
    using sorted_sort_key [of esScore xs] by (simp add: sorted_map not_less)
  then show ?thesis by (auto simp: sorts_scores_def intro: sorted_sort_key)
qed

interpretation casuality: search_strategy "casuality_Find (sort_key esScore)"
  by (rule casuality_search [OF stable_sorts])

interpretation first_head: search_strategy "random_Find (\<lambda>n (r :: unit). (0, r))"
  by (rule random_search) (simp add: intn_ok_def)

subsection \<open>The property\<close>

text \<open>
  Whatever order the map of options is visited in and however \<open>sort.Slice\<close> orders equal scores, the
  search for parents with the causality strategy ends with the self-parent first, followed by options
  of the others, no event twice, and with as many as there are or as the limit allows.
\<close>

theorem FindBestParents_limits:
  assumes "ranges_ok ord" "sorts_scores srt" "0 \<le> mx"
  shows "\<exists>ps. FindBestParents ord casuality_Init (casuality_Find srt) mx options selfParent st = Some (selfParent, ps) \<and> distinct ps \<and>
     set ps \<subseteq> set options \<union> set_option selfParent \<and> (\<forall>p. selfParent = Some p \<longrightarrow> ps \<noteq> [] \<and> hd ps = p) \<and>
     int (length ps) = max (int (card (set_option selfParent))) (min mx (int (card (set options \<union> set_option selfParent))))"
  by (rule search_strategy.FindBestParents_chooses [OF casuality_search [OF assms(2)] assms(1,3)])

lemma ranges_exist: "\<exists>ord. ranges_ok ord"
proof -
  have "\<forall>s. \<exists>xs. finite s \<longrightarrow> distinct xs \<and> set xs = s" using finite_distinct_list by metis
  then obtain f where "\<forall>s. finite s \<longrightarrow> distinct (f s) \<and> set (f s) = (s :: hash_event set)" by metis
  then have "ranges_ok (\<lambda>_. f)" by (simp add: ranges_ok_def)
  then show ?thesis by blast
qed

definition idle_strategy :: CasualityStrategy where
  "idle_strategy = NewCasualityStrategy (NewIndex (Build [(1, 5)]) empty_tables) (Build [(1, 5)])"

theorem FindBestParents_limits_witness:
  "\<exists>ord ps. ranges_ok ord \<and> sorts_scores (sort_key esScore) \<and>
     FindBestParents ord casuality_Init (casuality_Find (sort_key esScore)) 2 [[1], [2], [3]] (Some [1]) idle_strategy = Some (Some [1], ps) \<and>
     length ps = 2 \<and> hd ps = [1]"
proof -
  obtain ord where ord: "ranges_ok ord" using ranges_exist by blast
  from FindBestParents_limits [OF ord stable_sorts, of 2 "[[1], [2], [3]]" "Some [1]" idle_strategy] ord show ?thesis
    by (auto simp: stable_sorts card_insert_if)
qed

end
