(* ===== verification/Weighted_Shuffle.thy ===== *)
theory Weighted_Shuffle
  imports Pos Event
begin

text \<open>
  \<open>utils/weighted_shuffle.go\<close>: the weighted random permutation by which the emitters take turns. The
  weights are a complete binary tree laid out in an array; every node knows the weight left in its
  two subtrees. \<open>sha256\<close> stands for the hash function that renews the seed.
\<close>

record weightedShuffleNode =
  thisWeight :: Stake
  leftWeight :: Stake
  rightWeight :: Stake

record weightedShuffleTree =
  wsSeed :: hash
  wsSeedIndex :: nat
  wsNodes :: "weightedShuffleNode list"

definition leftIndex :: "nat \<Rightarrow> nat" where
  "leftIndex i = i * 2 + 1"

definition rightIndex :: "nat \<Rightarrow> nat" where
  "rightIndex i = i * 2 + 2"

function ws_build :: "Stake list \<Rightarrow> nat \<Rightarrow> weightedShuffleNode list \<Rightarrow> (Stake \<times> weightedShuffleNode list) option" where
  "ws_build weights i nodes =
     (if i \<ge> length weights then Some (0, nodes)
      else do {
        let thisW = weights ! i;
        (leftW, nodes) \<leftarrow> ws_build weights (leftIndex i) nodes;
        (rightW, nodes) \<leftarrow> ws_build weights (rightIndex i) nodes;
        if thisW \<le> 0 then None
        else do {
          nodes \<leftarrow> slice_set nodes i \<lparr>thisWeight = thisW, leftWeight = leftW, rightWeight = rightW\<rparr>;
          Some (thisW + leftW + rightW, nodes) } })"
  by pat_completeness auto

termination
  by (relation "measure (\<lambda>(weights, i, _). length weights - i)") (auto simp: leftIndex_def rightIndex_def)

declare ws_build.simps [simp del]

definition rand64 :: "(bytes \<Rightarrow> bytes) \<Rightarrow> hash \<Rightarrow> nat \<Rightarrow> (u64 \<times> hash \<times> nat) option" where
  "rand64 sha256 seed seedIndex = do {
     let (seed, seedIndex) = (if seedIndex = 32 then (sha256 seed, 0) else (seed, seedIndex));
     b \<leftarrow> slice_sub seed seedIndex (seedIndex + 8);
     res \<leftarrow> BytesToInt64_LE b;
     Some (res, seed, seedIndex + 8) }"

definition drawn :: "nat \<Rightarrow> (weightedShuffleNode \<Rightarrow> weightedShuffleNode) \<Rightarrow> weightedShuffleTree \<Rightarrow> weightedShuffleTree" where
  "drawn i f t = t\<lparr>wsNodes := (wsNodes t)[i := f (wsNodes t ! i)]\<rparr>"

text \<open>A remainder by zero panics.\<close>

function retrieve :: "(bytes \<Rightarrow> bytes) \<Rightarrow> Stake list \<Rightarrow> nat \<Rightarrow> weightedShuffleTree \<Rightarrow> (nat \<times> weightedShuffleTree) option" where
  "retrieve sha256 weights i t =
     (if i \<ge> length (wsNodes t) then None
      else let node = wsNodes t ! i; total = rightWeight node + leftWeight node + thisWeight node in
      (case rand64 sha256 (wsSeed t) (wsSeedIndex t) of
         None \<Rightarrow> None
       | Some (rnd, seed, seedIndex) \<Rightarrow>
           let t = t\<lparr>wsSeed := seed, wsSeedIndex := seedIndex\<rparr> in
           if total = 0 then None
           else if rnd mod total < thisWeight node then Some (i, drawn i (\<lambda>n. n\<lparr>thisWeight := 0\<rparr>) t)
           else if rnd mod total < thisWeight node + leftWeight node then do {
             (chosen, t) \<leftarrow> retrieve sha256 weights (leftIndex i) t;
             w \<leftarrow> slice_get weights chosen;
             Some (chosen, drawn i (\<lambda>n. n\<lparr>leftWeight := leftWeight n - w\<rparr>) t) }
           else do {
             (chosen, t) \<leftarrow> retrieve sha256 weights (rightIndex i) t;
             w \<leftarrow> slice_get weights chosen;
             Some (chosen, drawn i (\<lambda>n. n\<lparr>rightWeight := rightWeight n - w\<rparr>) t) }))"
  by pat_completeness auto

termination
  by (relation "measure (\<lambda>(_, _, i, t). length (wsNodes t) - i)") (auto simp: leftIndex_def rightIndex_def)

declare retrieve.simps [simp del]

fun retrieve_all :: "(bytes \<Rightarrow> bytes) \<Rightarrow> Stake list \<Rightarrow> nat \<Rightarrow> weightedShuffleTree \<Rightarrow> nat list option" where
  "retrieve_all sha256 weights 0 t = Some []"
| "retrieve_all sha256 weights (Suc k) t = do {
     (i, t) \<leftarrow> retrieve sha256 weights 0 t;
     is \<leftarrow> retrieve_all sha256 weights k t;
     Some (i # is) }"

definition WeightedPermutation :: "(bytes \<Rightarrow> bytes) \<Rightarrow> nat \<Rightarrow> Stake list \<Rightarrow> hash \<Rightarrow> nat list option" where
  "WeightedPermutation sha256 sz weights seed =
     (if length weights < sz then None
      else if length weights = 0 then Some []
      else do {
        (_, nodes) \<leftarrow> ws_build weights 0 (replicate (length weights) \<lparr>thisWeight = 0, leftWeight = 0, rightWeight = 0\<rparr>);
        retrieve_all sha256 weights sz \<lparr>wsSeed = seed, wsSeedIndex = 0, wsNodes = nodes\<rparr> })"

subsection \<open>Subtrees\<close>

definition sub :: "nat \<Rightarrow> nat \<Rightarrow> nat set" where
  "sub n i = {j. j < n \<and> (\<exists>k. Suc j div 2 ^ k = Suc i)}"

lemma finite_sub [simp]: "finite (sub n i)"
  by (rule finite_subset [of _ "{..<n}"]) (auto simp: sub_def)

lemma half_twice: "a div 2 ^ m div 2 = a div 2 ^ Suc m" for a :: nat
  by (metis div_mult2_eq mult.commute power_Suc)

lemma sub_ge: "j \<in> sub n i \<Longrightarrow> i \<le> j \<and> j < n"
proof -
  assume "j \<in> sub n i"
  then obtain k where "j < n" "Suc j div 2 ^ k = Suc i" by (auto simp: sub_def)
  then show ?thesis using div_le_dividend [of "Suc j" "2 ^ k"] by simp
qed

lemma sub_outside: "n \<le> i \<Longrightarrow> sub n i = {}"
  using sub_ge by fastforce

lemma sub_split:
  assumes "i < n"
  shows "sub n i = insert i (sub n (leftIndex i) \<union> sub n (rightIndex i))"
proof (intro equalityI subsetI)
  fix j assume "j \<in> sub n i"
  then obtain k where j: "j < n" "Suc j div 2 ^ k = Suc i" by (auto simp: sub_def)
  show "j \<in> insert i (sub n (leftIndex i) \<union> sub n (rightIndex i))"
  proof (cases k)
    case (Suc m)
    have "Suc j div 2 ^ m div 2 = Suc i" using j(2) Suc unfolding half_twice by simp
    then have "Suc j div 2 ^ m = Suc (leftIndex i) \<or> Suc j div 2 ^ m = Suc (rightIndex i)" unfolding leftIndex_def rightIndex_def by linarith
    with j(1) show ?thesis by (auto simp: sub_def)
  qed (use j in simp)
next
  fix j assume "j \<in> insert i (sub n (leftIndex i) \<union> sub n (rightIndex i))"
  moreover have "\<exists>k. Suc j div 2 ^ k = Suc i" if "Suc j div 2 ^ m = Suc (leftIndex i) \<or> Suc j div 2 ^ m = Suc (rightIndex i)" for m
  proof -
    have "Suc j div 2 ^ m div 2 = Suc i" using that by (auto simp: leftIndex_def rightIndex_def)
    then have "Suc j div 2 ^ Suc m = Suc i" unfolding half_twice .
    then show ?thesis by blast
  qed
  ultimately show "j \<in> sub n i" using assms by (auto simp: sub_def intro: exI [of _ 0])
qed

lemma sub_children_disjoint: "sub n (leftIndex i) \<inter> sub n (rightIndex i) = {}"
proof -
  have False if "Suc j div 2 ^ k = Suc (leftIndex i)" "Suc j div 2 ^ m = Suc (rightIndex i)" for j k m
  proof (cases "k \<le> m")
    case True
    then have "Suc j div 2 ^ m = Suc j div 2 ^ k div 2 ^ (m - k)" by (metis div_exp_eq le_add_diff_inverse)
    then have "Suc (rightIndex i) \<le> Suc (leftIndex i)" unfolding that by (metis div_le_dividend)
    then show False by (simp add: leftIndex_def rightIndex_def)
  next
    case False
    then have "k = Suc m + (k - Suc m)" by simp
    then have "Suc j div 2 ^ k = Suc j div 2 ^ m div 2 div 2 ^ (k - Suc m)" unfolding half_twice by (metis div_exp_eq)
    then have "Suc (leftIndex i) \<le> Suc (rightIndex i) div 2" unfolding that by (metis div_le_dividend)
    then show False by (simp add: leftIndex_def rightIndex_def)
  qed
  then show ?thesis by (fastforce simp: sub_def)
qed

lemma sub_root: "sub n 0 = {..<n}"
proof -
  have "0 < m \<Longrightarrow> \<exists>k. m div 2 ^ k = Suc 0" for m :: nat
  proof (induction m rule: less_induct)
    case (less m)
    show ?case
    proof (cases "m = 1")
      case True
      then show ?thesis by (intro exI [of _ 0]) simp
    next
      case False
      then obtain k where "m div 2 div 2 ^ k = Suc 0" using less.IH [of "m div 2"] less.prems by auto
      then show ?thesis by (intro exI [of _ "Suc k"]) (simp add: div_mult2_eq)
    qed
  qed
  then show ?thesis by (auto simp: sub_def)
qed

lemma sub_child_out: "i \<notin> sub n (leftIndex i)" "i \<notin> sub n (rightIndex i)"
  using sub_ge by (fastforce simp: leftIndex_def rightIndex_def)+


subsection \<open>Weights\<close>

definition wsum :: "Stake list \<Rightarrow> nat set \<Rightarrow> nat \<Rightarrow> nat" where
  "wsum w A i = (\<Sum>j \<in> A \<inter> sub (length w) i. unat (w ! j))"

definition own :: "Stake list \<Rightarrow> nat set \<Rightarrow> nat \<Rightarrow> nat" where
  "own w A i = (if i \<in> A then unat (w ! i) else 0)"

definition node_ok :: "Stake list \<Rightarrow> nat set \<Rightarrow> weightedShuffleNode list \<Rightarrow> nat \<Rightarrow> bool" where
  "node_ok w A nodes j \<longleftrightarrow> unat (thisWeight (nodes ! j)) = own w A j \<and>
     unat (leftWeight (nodes ! j)) = wsum w A (leftIndex j) \<and> unat (rightWeight (nodes ! j)) = wsum w A (rightIndex j)"

lemma wsum_outside: "length w \<le> i \<Longrightarrow> wsum w A i = 0"
  by (simp add: wsum_def sub_outside)

lemma wsum_split:
  assumes "i < length w"
  shows "wsum w A i = own w A i + wsum w A (leftIndex i) + wsum w A (rightIndex i)"
proof -
  let ?L = "A \<inter> sub (length w) (leftIndex i)" and ?R = "A \<inter> sub (length w) (rightIndex i)"
  have "A \<inter> sub (length w) i = (A \<inter> {i}) \<union> (?L \<union> ?R)" using sub_split [OF assms] by auto
  moreover have "(A \<inter> {i}) \<inter> (?L \<union> ?R) = {}" using sub_child_out [of i "length w"] by auto
  moreover have "?L \<inter> ?R = {}" using sub_children_disjoint by blast
  moreover have "(\<Sum>j \<in> A \<inter> {i}. unat (w ! j)) = own w A i" by (simp add: own_def)
  ultimately show ?thesis unfolding wsum_def by (simp add: sum.union_disjoint)
qed

lemma wsum_bound: "wsum w A i \<le> (\<Sum>j < length w. unat (w ! j))"
  unfolding wsum_def by (rule sum_mono2) (auto dest: sub_ge)

text \<open>Taking an index out of the remaining ones.\<close>

lemma wsum_without:
  "c \<notin> sub (length w) i \<Longrightarrow> wsum w (A - {c}) i = wsum w A i"
  "c \<in> A \<inter> sub (length w) i \<Longrightarrow> unat (w ! c) \<le> wsum w A i \<and> wsum w (A - {c}) i = wsum w A i - unat (w ! c)"
proof -
  assume "c \<notin> sub (length w) i"
  then have "(A - {c}) \<inter> sub (length w) i = A \<inter> sub (length w) i" by blast
  then show "wsum w (A - {c}) i = wsum w A i" by (simp add: wsum_def)
next
  assume c: "c \<in> A \<inter> sub (length w) i"
  have "(A - {c}) \<inter> sub (length w) i = (A \<inter> sub (length w) i) - {c}" by blast
  then show "unat (w ! c) \<le> wsum w A i \<and> wsum w (A - {c}) i = wsum w A i - unat (w ! c)"
    using c member_le_sum [of c "A \<inter> sub (length w) i" "\<lambda>j. unat (w ! j)"] sum_diff1_nat [of "\<lambda>j. unat (w ! j)" "A \<inter> sub (length w) i" c] by (simp add: wsum_def)
qed

lemma unat_add3:
  fixes a b c :: u64
  assumes "unat a + unat b + unat c < 2 ^ 64"
  shows "unat (a + b + c) = unat a + unat b + unat c" "unat (a + b) = unat a + unat b"
  using assms by (simp_all add: unat_word_ariths)

lemma sub_mono: "j \<in> sub n i \<Longrightarrow> sub n j \<subseteq> sub n i"
proof
  fix x assume j: "j \<in> sub n i" and x: "x \<in> sub n j"
  obtain k where "Suc j div 2 ^ k = Suc i" using j by (auto simp: sub_def)
  moreover obtain m where "x < n" "Suc x div 2 ^ m = Suc j" using x by (auto simp: sub_def)
  ultimately have "Suc x div 2 ^ (m + k) = Suc i" "x < n" by (metis div_exp_eq)+
  then show "x \<in> sub n i" by (auto simp: sub_def)
qed

lemma node_ok_without:
  assumes "node_ok w A nodes j" "c \<notin> sub (length w) j" "j < length w"
  shows "node_ok w (A - {c}) nodes j"
proof -
  have "c \<noteq> j" "c \<notin> sub (length w) (leftIndex j)" "c \<notin> sub (length w) (rightIndex j)" using assms(2) sub_split [OF assms(3)] by auto
  with assms(1) show ?thesis by (simp add: node_ok_def own_def wsum_without)
qed

lemma ws_build_ok:
  assumes pos: "\<forall>x \<in> set w. x \<noteq> 0" and tot: "(\<Sum>j < length w. unat (w ! j)) < 2 ^ 64"
  shows "length nodes = length w \<Longrightarrow> \<exists>x nodes'. ws_build w i nodes = Some (x, nodes') \<and> length nodes' = length w \<and> unat x = wsum w UNIV i \<and>
     (\<forall>j. j \<notin> sub (length w) i \<longrightarrow> nodes' ! j = nodes ! j) \<and> (\<forall>j \<in> sub (length w) i. node_ok w UNIV nodes' j)"
proof (induction "length w - i" arbitrary: i nodes rule: less_induct)
  case less
  show ?case
  proof (cases "length w \<le> i")
    case True
    then show ?thesis using less.prems by (subst ws_build.simps) (simp add: wsum_outside sub_outside)
  next
    case False
    then have i: "i < length w" by simp
    have lt: "length w - leftIndex i < length w - i" "length w - rightIndex i < length w - i" using i by (simp_all add: leftIndex_def rightIndex_def)
    obtain x1 n1 where 1: "ws_build w (leftIndex i) nodes = Some (x1, n1)" "length n1 = length w" "unat x1 = wsum w UNIV (leftIndex i)"
      "\<forall>j. j \<notin> sub (length w) (leftIndex i) \<longrightarrow> n1 ! j = nodes ! j" "\<forall>j \<in> sub (length w) (leftIndex i). node_ok w UNIV n1 j" using less.hyps [OF lt(1) less.prems] by blast
    obtain x2 n2 where 2: "ws_build w (rightIndex i) n1 = Some (x2, n2)" "length n2 = length w" "unat x2 = wsum w UNIV (rightIndex i)"
      "\<forall>j. j \<notin> sub (length w) (rightIndex i) \<longrightarrow> n2 ! j = n1 ! j" "\<forall>j \<in> sub (length w) (rightIndex i). node_ok w UNIV n2 j" using less.hyps [OF lt(2) 1(2)] by blast
    let ?nd = "\<lparr>thisWeight = w ! i, leftWeight = x1, rightWeight = x2\<rparr>" let ?n = "n2[i := ?nd]"
    have "w ! i \<noteq> 0" using pos i by simp
    then have run: "ws_build w i nodes = Some (w ! i + x1 + x2, ?n)" using 1(1) 2(1,2) i by (subst ws_build.simps) (simp add: Let_def)
    have sum: "unat (w ! i) + unat x1 + unat x2 = wsum w UNIV i" using wsum_split [OF i, of UNIV] 1(3) 2(3) by (simp add: own_def)
    then have "unat (w ! i + x1 + x2) = wsum w UNIV i" using unat_add3 wsum_bound [of w UNIV i] tot by simp
    moreover have "node_ok w UNIV ?n j" if "j \<in> sub (length w) i" for j
    proof (cases "j = i")
      case True
      then show ?thesis using i 1(3) 2(2,3) by (simp add: node_ok_def own_def)
    next
      case ne: False
      have "node_ok w UNIV n2 j"
      proof (cases "j \<in> sub (length w) (rightIndex i)")
        case False
        then have "j \<in> sub (length w) (leftIndex i)" using that ne sub_split [OF i] by auto
        then show ?thesis using 1(5) 2(4) False by (simp add: node_ok_def)
      qed (use 2(5) in blast)
      with ne show ?thesis by (simp add: node_ok_def)
    qed
    moreover have "?n ! j = nodes ! j" if "j \<notin> sub (length w) i" for j using that sub_split [OF i] 1(4) 2(4) by auto
    ultimately show ?thesis using run 2(2) by auto
  qed
qed


definition seed_ok :: "hash \<Rightarrow> nat \<Rightarrow> bool" where
  "seed_ok seed ix \<longleftrightarrow> length seed = 32 \<and> ix \<in> {0, 8, 16, 24, 32}"

lemma rand64_ok:
  assumes "\<forall>b. length (sha256 b) = 32" "seed_ok seed ix"
  shows "\<exists>rnd seed' ix'. rand64 sha256 seed ix = Some (rnd, seed', ix') \<and> seed_ok seed' ix'"
  using assms by (auto simp: rand64_def seed_ok_def slice_sub_def BytesToInt64_LE_def)

definition tree_ok :: "Stake list \<Rightarrow> nat set \<Rightarrow> nat \<Rightarrow> weightedShuffleTree \<Rightarrow> bool" where
  "tree_ok w A i t \<longleftrightarrow> length (wsNodes t) = length w \<and> seed_ok (wsSeed t) (wsSeedIndex t) \<and> (\<forall>j \<in> sub (length w) i. node_ok w A (wsNodes t) j)"

text \<open>What holds after an index has been drawn from the subtree at \<open>i\<close>.\<close>

definition drew :: "Stake list \<Rightarrow> nat set \<Rightarrow> nat \<Rightarrow> weightedShuffleTree \<Rightarrow> nat \<Rightarrow> weightedShuffleTree \<Rightarrow> bool" where
  "drew w A i t c t' \<longleftrightarrow> c \<in> A \<inter> sub (length w) i \<and> tree_ok w (A - {c}) i t' \<and> (\<forall>j. j \<notin> sub (length w) i \<longrightarrow> wsNodes t' ! j = wsNodes t ! j)"

lemma drew_child:
  assumes i: "i < length w" and t: "tree_ok w A i t" and d: "drew w A k t c t'" and k: "k = leftIndex i \<or> k = rightIndex i"
    and f: "f = (if k = leftIndex i then (\<lambda>n. n\<lparr>leftWeight := leftWeight n - w ! c\<rparr>) else (\<lambda>n. n\<lparr>rightWeight := rightWeight n - w ! c\<rparr>))"
  shows "drew w A i t c (drawn i f t')"
proof -
  let ?n = "length w"
  have kne: "leftIndex i \<noteq> rightIndex i" by (simp add: leftIndex_def rightIndex_def)
  have c: "c \<in> A" "c \<in> sub ?n k" and ok: "length (wsNodes t') = ?n" "seed_ok (wsSeed t') (wsSeedIndex t')" "\<forall>j \<in> sub ?n k. node_ok w (A - {c}) (wsNodes t') j"
    and out: "\<And>j. j \<notin> sub ?n k \<Longrightarrow> wsNodes t' ! j = wsNodes t ! j" using d by (auto simp: drew_def tree_ok_def)
  have kid: "sub ?n k \<subseteq> sub ?n i" "i \<notin> sub ?n k" using k sub_split [OF i] sub_child_out [of i ?n] by auto
  have cne: "c \<noteq> i" using c(2) kid(2) by blast
  have "node_ok w A (wsNodes t) i" using t sub_split [OF i] by (simp add: tree_ok_def)
  then have me: "node_ok w A (wsNodes t') i" using out [OF kid(2)] by (simp add: node_ok_def)
  have "node_ok w (A - {c}) ((wsNodes t')[i := f (wsNodes t' ! i)]) i"
  proof (cases "k = leftIndex i")
    case True
    then have "c \<notin> sub ?n (rightIndex i)" using c(2) sub_children_disjoint [of ?n i] by auto
    moreover have "unat (w ! c) \<le> unat (leftWeight (wsNodes t' ! i))" using wsum_without(2) [of c A w k] c me True by (simp add: node_ok_def)
    ultimately show ?thesis using me True cne c wsum_without(2) [of c A w k] wsum_without(1) [of c w "rightIndex i" A] ok(1) i f
      by (simp add: node_ok_def own_def unat_sub word_le_nat_alt)
  next
    case False
    then have r: "k = rightIndex i" using k by simp
    then have "c \<notin> sub ?n (leftIndex i)" using c(2) sub_children_disjoint [of ?n i] by auto
    moreover have "unat (w ! c) \<le> unat (rightWeight (wsNodes t' ! i))" using wsum_without(2) [of c A w k] c me r by (simp add: node_ok_def)
    ultimately show ?thesis using me r kne cne c wsum_without(2) [of c A w k] wsum_without(1) [of c w "leftIndex i" A] ok(1) i f
      by (simp add: node_ok_def own_def unat_sub word_le_nat_alt)
  qed
  moreover have "node_ok w (A - {c}) (wsNodes t') j" if j: "j \<in> sub ?n i" "j \<noteq> i" for j
  proof (cases "j \<in> sub ?n k")
    case False
    then have other: "j \<in> sub ?n (if k = leftIndex i then rightIndex i else leftIndex i)" using j sub_split [OF i] k by (auto split: if_splits)
    then have "sub ?n j \<subseteq> sub ?n (if k = leftIndex i then rightIndex i else leftIndex i)" by (rule sub_mono)
    then have "c \<notin> sub ?n j" using c(2) k sub_children_disjoint [of ?n i] by (auto split: if_splits)
    moreover have "node_ok w A (wsNodes t') j" using t j(1) out [OF False] by (simp add: tree_ok_def node_ok_def)
    moreover have "j < ?n" using sub_ge [OF j(1)] by simp
    ultimately show ?thesis by (intro node_ok_without)
  qed (use ok(3) in blast)
  ultimately have "node_ok w (A - {c}) ((wsNodes t')[i := f (wsNodes t' ! i)]) j" if "j \<in> sub ?n i" for j
    using that by (cases "j = i") (auto simp: node_ok_def)
  moreover have "(wsNodes t')[i := f (wsNodes t' ! i)] ! j = wsNodes t ! j" if "j \<notin> sub ?n i" for j
  proof -
    have "j \<noteq> i" "j \<notin> sub ?n k" using that kid(1) sub_split [OF i] by auto
    then show ?thesis using out by simp
  qed
  ultimately show ?thesis using c kid(1) ok(1,2) by (auto simp: drew_def tree_ok_def drawn_def)
qed

lemma retrieve_draws:
  assumes sha: "\<forall>b. length (sha256 b) = 32" and tot: "(\<Sum>j < length w. unat (w ! j)) < 2 ^ 64"
  shows "tree_ok w A i t \<Longrightarrow> 0 < wsum w A i \<Longrightarrow> \<exists>c t'. retrieve sha256 w i t = Some (c, t') \<and> drew w A i t c t'"
proof (induction "length w - i" arbitrary: i t rule: less_induct)
  case less
  let ?n = "length w" and ?node = "wsNodes t ! i"
  have i: "i < ?n" using less.prems(2) wsum_outside [of w i A] by (cases "i < ?n") simp_all
  have len: "length (wsNodes t) = ?n" using less.prems(1) by (simp add: tree_ok_def)
  have nd: "node_ok w A (wsNodes t) i" using less.prems(1) sub_split [OF i] by (simp add: tree_ok_def)
  have "seed_ok (wsSeed t) (wsSeedIndex t)" using less.prems(1) by (simp add: tree_ok_def)
  from rand64_ok [OF sha this] obtain rnd seed ix where rnd: "rand64 sha256 (wsSeed t) (wsSeedIndex t) = Some (rnd, seed, ix)" "seed_ok seed ix" by blast
  define t1 where "t1 = t\<lparr>wsSeed := seed, wsSeedIndex := ix\<rparr>"
  have t1: "tree_ok w A i t1" "wsNodes t1 = wsNodes t" using less.prems(1) rnd(2) by (simp_all add: tree_ok_def t1_def)
  define total where "total = rightWeight ?node + leftWeight ?node + thisWeight ?node"
  have sum: "unat (rightWeight ?node) + unat (leftWeight ?node) + unat (thisWeight ?node) = wsum w A i" using nd wsum_split [OF i, of A] by (simp add: node_ok_def)
  then have lt: "unat (rightWeight ?node) + unat (leftWeight ?node) + unat (thisWeight ?node) < 2 ^ 64" using wsum_bound [of w A i] tot by simp
  have ut: "unat total = wsum w A i" using unat_add3(1) [OF lt] sum by (simp add: total_def)
  then have tz: "total \<noteq> 0" using less.prems(2) by auto
  have utl: "unat (thisWeight ?node + leftWeight ?node) = unat (thisWeight ?node) + unat (leftWeight ?node)" using lt by (simp add: unat_word_ariths)
  let ?r = "rnd mod total"
  have r: "unat ?r < wsum w A i" using tz ut by (metis unat_mod mod_less_divisor less.prems(2))
  have run: "retrieve sha256 w i t = (if ?r < thisWeight ?node then Some (i, drawn i (\<lambda>n. n\<lparr>thisWeight := 0\<rparr>) t1)
      else if ?r < thisWeight ?node + leftWeight ?node then do {
        (chosen, t) \<leftarrow> retrieve sha256 w (leftIndex i) t1; x \<leftarrow> slice_get w chosen; Some (chosen, drawn i (\<lambda>n. n\<lparr>leftWeight := leftWeight n - x\<rparr>) t) }
      else do {
        (chosen, t) \<leftarrow> retrieve sha256 w (rightIndex i) t1; x \<leftarrow> slice_get w chosen; Some (chosen, drawn i (\<lambda>n. n\<lparr>rightWeight := rightWeight n - x\<rparr>) t) })"
    using i len rnd(1) tz by (subst retrieve.simps) (simp add: Let_def t1_def total_def)
  have down: "\<exists>c t'. retrieve sha256 w k t1 = Some (c, t') \<and> drew w A k t1 c t' \<and> slice_get w c = Some (w ! c)" if k: "k = leftIndex i \<or> k = rightIndex i" "0 < wsum w A k" for k
  proof -
    have "tree_ok w A k t1" using t1(1) k(1) sub_split [OF i] by (auto simp: tree_ok_def)
    moreover have "?n - k < ?n - i" using k(1) i by (auto simp: leftIndex_def rightIndex_def)
    ultimately obtain c t' where "retrieve sha256 w k t1 = Some (c, t')" "drew w A k t1 c t'" using less.hyps k(2) by blast
    moreover from this have "c < ?n" by (auto simp: drew_def dest: sub_ge)
    ultimately show ?thesis by auto
  qed
  consider (here) "?r < thisWeight ?node" | (left) "\<not> ?r < thisWeight ?node" "?r < thisWeight ?node + leftWeight ?node"
    | (right) "\<not> ?r < thisWeight ?node" "\<not> ?r < thisWeight ?node + leftWeight ?node" by blast
  then show ?case
  proof cases
    case here
    then have "thisWeight ?node \<noteq> 0" by auto
    then have iA: "i \<in> A" using nd by (auto simp: node_ok_def own_def unat_eq_0 split: if_splits)
    have ni: "i \<notin> sub ?n j" if "j \<in> sub ?n i" "j \<noteq> i" for j using that by (metis sub_ge le_antisym)
    have iok: "node_ok w (A - {i}) ((wsNodes t1)[i := (wsNodes t1 ! i)\<lparr>thisWeight := 0\<rparr>]) i"
      using nd len i sub_child_out [of i ?n] t1(2) by (simp add: node_ok_def own_def wsum_without)
    have "node_ok w (A - {i}) ((wsNodes t1)[i := (wsNodes t1 ! i)\<lparr>thisWeight := 0\<rparr>]) j" if "j \<in> sub ?n i" for j
    proof (cases "j = i")
      case False
      have "node_ok w (A - {i}) (wsNodes t1) j" using t1(1) that ni [OF that False] sub_ge [OF that] by (intro node_ok_without) (auto simp: tree_ok_def)
      with False show ?thesis by (simp add: node_ok_def)
    qed (use iok in simp)
    moreover have "j \<noteq> i" if "j \<notin> sub ?n i" for j using that sub_split [OF i] by auto
    ultimately have "drew w A i t i (drawn i (\<lambda>n. n\<lparr>thisWeight := 0\<rparr>) t1)" using iA sub_split [OF i] len t1 rnd(2) by (auto simp: drew_def tree_ok_def drawn_def)
    with run here show ?thesis by simp
  next
    case left
    then have "0 < unat (leftWeight ?node)" using utl by (simp add: word_less_nat_alt)
    then have "0 < wsum w A (leftIndex i)" using nd by (simp add: node_ok_def)
    then obtain c t' where d: "retrieve sha256 w (leftIndex i) t1 = Some (c, t')" "drew w A (leftIndex i) t1 c t'" "slice_get w c = Some (w ! c)" using down by blast
    have "drew w A i t1 c (drawn i (\<lambda>n. n\<lparr>leftWeight := leftWeight n - w ! c\<rparr>) t')" by (rule drew_child [OF i t1(1) d(2)]) simp_all
    then show ?thesis using run left d(1,3) t1(2) by (auto simp: drew_def)
  next
    case right
    then have "unat (thisWeight ?node) + unat (leftWeight ?node) \<le> unat ?r" using utl by (simp add: word_less_nat_alt not_less)
    then have "0 < unat (rightWeight ?node)" using r sum by simp
    then have "0 < wsum w A (rightIndex i)" using nd by (simp add: node_ok_def)
    then obtain c t' where d: "retrieve sha256 w (rightIndex i) t1 = Some (c, t')" "drew w A (rightIndex i) t1 c t'" "slice_get w c = Some (w ! c)" using down by blast
    have "drew w A i t1 c (drawn i (\<lambda>n. n\<lparr>rightWeight := rightWeight n - w ! c\<rparr>) t')" by (rule drew_child [OF i t1(1) d(2)]) (simp_all add: leftIndex_def rightIndex_def)
    then show ?thesis using run right d(1,3) t1(2) by (auto simp: drew_def)
  qed
qed


lemma retrieve_all_ok:
  assumes sha: "\<forall>b. length (sha256 b) = 32" and pos: "\<forall>x \<in> set w. x \<noteq> 0" and tot: "(\<Sum>j < length w. unat (w ! j)) < 2 ^ 64"
  shows "tree_ok w A 0 t \<Longrightarrow> k \<le> card (A \<inter> {..<length w}) \<Longrightarrow>
    \<exists>is. retrieve_all sha256 w k t = Some is \<and> length is = k \<and> distinct is \<and> set is \<subseteq> A \<inter> {..<length w}"
proof (induction k arbitrary: A t)
  case (Suc k)
  then have ne: "A \<inter> {..<length w} \<noteq> {}" by auto
  then obtain j where j: "j \<in> A" "j < length w" by auto
  then have "0 < unat (w ! j)" using pos by (metis nth_mem unat_gt_0)
  then have "0 < wsum w A 0" unfolding wsum_def sub_root using j by (intro sum_pos2 [of _ j]) auto
  then obtain c t' where c: "retrieve sha256 w 0 t = Some (c, t')" "drew w A 0 t c t'" using retrieve_draws [OF sha tot Suc.prems(1)] by blast
  then have cA: "c \<in> A \<inter> {..<length w}" "tree_ok w (A - {c}) 0 t'" by (auto simp: drew_def sub_root)
  have "(A - {c}) \<inter> {..<length w} = (A \<inter> {..<length w}) - {c}" by blast
  then have "k \<le> card ((A - {c}) \<inter> {..<length w})" using Suc.prems(2) cA(1) by simp
  then obtain "is" where "retrieve_all sha256 w k t' = Some is" "length is = k" "distinct is" "set is \<subseteq> (A - {c}) \<inter> {..<length w}" using Suc.IH [OF cA(2)] by blast
  with c(1) cA(1) show ?case by (intro exI [of _ "c # is"]) auto
qed simp

lemma WeightedPermutation_draws:
  assumes "\<forall>b. length (sha256 b) = 32" "length seed = 32" "\<forall>x \<in> set w. x \<noteq> 0" "sum_list (map unat w) < 2 ^ 64" "sz \<le> length w"
  shows "\<exists>is. WeightedPermutation sha256 sz w seed = Some is \<and> length is = sz \<and> distinct is \<and> set is \<subseteq> {..<length w} \<and> (sz = length w \<longrightarrow> set is = {..<length w})"
proof -
  have tot: "(\<Sum>j < length w. unat (w ! j)) < 2 ^ 64" using assms(4) by (simp add: sum_list_sum_nth atLeast0LessThan)
  have all: "set is = {..<length w}" if "distinct is" "length is = length w" "set is \<subseteq> {..<length w}" for "is" :: "nat list"
    using that by (metis card_lessThan card_subset_eq distinct_card finite_lessThan)
  show ?thesis
  proof (cases "w = []")
    case True
    then show ?thesis using assms(5) by (simp add: WeightedPermutation_def)
  next
    case False
    let ?nodes = "replicate (length w) \<lparr>thisWeight = 0, leftWeight = 0, rightWeight = 0\<rparr>"
    have "length ?nodes = length w" by simp
    from ws_build_ok [OF assms(3) tot this, of 0] obtain x nodes where b: "ws_build w 0 ?nodes = Some (x, nodes)" "length nodes = length w" "\<forall>j \<in> sub (length w) 0. node_ok w UNIV nodes j" by blast
    let ?t = "\<lparr>wsSeed = seed, wsSeedIndex = 0, wsNodes = nodes\<rparr>"
    have t: "tree_ok w UNIV 0 ?t" using b(2,3) assms(2) by (simp add: tree_ok_def seed_ok_def)
    have "sz \<le> card (UNIV \<inter> {..<length w})" using assms(5) by simp
    from retrieve_all_ok [OF assms(1,3) tot t this] obtain "is" where "retrieve_all sha256 w sz ?t = Some is" "length is = sz" "distinct is" "set is \<subseteq> {..<length w}" by auto
    with b(1) False assms(5) all show ?thesis by (auto simp: WeightedPermutation_def)
  qed
qed

text \<open>
  \<open>WeightedPermutation\<close> of positive weights whose sum fits 64 bits returns, for every seed, as many
  different indices of the weights as asked for, and all of them, in some order, when asked for all: no
  index is out of range, no remainder is taken by zero and no weight is subtracted that is not there.
\<close>

theorem WeightedPermutation_permutes:
  assumes "\<forall>b. length (sha256 b) = 32" "length seed = 32" "\<forall>x \<in> set w. x \<noteq> 0" "sum_list (map unat w) < 2 ^ 64" "sz \<le> length w"
  shows "\<exists>is. WeightedPermutation sha256 sz w seed = Some is \<and> length is = sz \<and> distinct is \<and> set is \<subseteq> {..<length w} \<and> (sz = length w \<longrightarrow> set is = {..<length w})"
  using WeightedPermutation_draws [OF assms] .

definition sample_sha :: "bytes \<Rightarrow> bytes" where
  "sample_sha b = replicate 32 (sum_list b + 77)"

theorem WeightedPermutation_permutes_witness:
  "\<exists>is. WeightedPermutation sample_sha 5 [4, 9, 1, 7, 2] (replicate 32 3) = Some is \<and> distinct is \<and> set is = {..<5}"
proof -
  have h: "\<forall>b. length (sample_sha b) = 32" "length (replicate 32 (3 :: byte)) = 32" "\<forall>x \<in> set [4, 9, 1, 7, 2 :: u64]. x \<noteq> 0" "5 \<le> length [4, 9, 1, 7, 2 :: u64]" by (simp_all add: sample_sha_def)
  have s: "sum_list (map unat [4, 9, 1, 7, 2 :: u64]) < 2 ^ 64" by simp
  from WeightedPermutation_permutes [OF h(1-3) s h(4)] show ?thesis by auto
qed

end
