(* ===== verification/Emit_Event.thy ===== *)
theory Emit_Event
  imports Emit_Rules Occured_Txs Best_Parents Weighted_Shuffle
begin

text \<open>
  \<open>gossip/emitter.go\<close>: how a validator makes an event. \<open>createEvent\<close> chooses the parents, fills the
  header, adds the transactions whose turn it is and whose gas is there, signs, and checks its own work.
\<close>

subsection \<open>Parameters\<close>

text \<open>
  The packages around the emitter: hashes, the accessors of a transaction, the LRU cache of the times,
  the buffer of occurred transactions, the account manager's signature and the engine's \<open>Prepare\<close>.
\<close>

record ('tx, 'c, 'b) emit_env =
  emLib :: hash_lib
  emKeccak :: "bytes \<Rightarrow> hash"
  emSha256 :: "bytes \<Rightarrow> bytes"
  emTx :: "'tx tx_ops"
  txHash :: "'tx \<Rightarrow> hash"
  txNonce :: "'tx \<Rightarrow> u64"
  timeGet :: "hash \<Rightarrow> 'c \<Rightarrow> time option \<times> 'c"
  timeAdd :: "hash \<Rightarrow> time \<Rightarrow> 'c \<Rightarrow> 'c"
  emCrypto :: "'tx crypto_ops"
  signData :: "address \<Rightarrow> bytes \<Rightarrow> bytes option"
  enginePrepare :: "'tx Event \<Rightarrow> 'tx Event option option"
  emFloat :: float_env
  gasRate :: real
  occurredOps :: "'b evicting"
  occurredTxs :: "'b ring"

subsection \<open>Turns\<close>

definition hash_Of :: "(bytes \<Rightarrow> hash) \<Rightarrow> bytes list \<Rightarrow> hash" where
  "hash_Of keccak data = keccak (concat data)"

text \<open>Go's integer division and remainder truncate towards zero.\<close>

definition go_quot :: "int \<Rightarrow> int \<Rightarrow> int" where
  "go_quot a b = (if a < 0 then - (- a div b) else a div b)"

definition go_rem :: "int \<Rightarrow> int \<Rightarrow> int" where
  "go_rem a b = a - b * go_quot a b"

fun memorizeTxs :: "('tx, 'c, 'b) emit_env \<Rightarrow> time \<Rightarrow> 'tx list \<Rightarrow> 'c \<Rightarrow> 'c" where
  "memorizeTxs E now [] c = c"
| "memorizeTxs E now (tx # txs) c = (case timeGet E (txHash E tx) c of
     (Some _, c) \<Rightarrow> memorizeTxs E now txs c
   | (None, c) \<Rightarrow> memorizeTxs E now txs (timeAdd E (txHash E tx) now c))"

definition memorizeTxTimes :: "('tx, 'c, 'b) emit_env \<Rightarrow> time \<Rightarrow> 'tx list \<Rightarrow> 'c Emitter \<Rightarrow> 'c Emitter" where
  "memorizeTxTimes E now txs em = (if myStakerID em = 0 then em else em\<lparr>txTime := memorizeTxs E now txs (txTime em)\<rparr>)"

definition turnHash :: "('tx, 'c, 'b) emit_env \<Rightarrow> em_world \<Rightarrow> address \<Rightarrow> u64 \<Rightarrow> hash" where
  "turnHash E w sender accountNonce =
     hash_Of (emKeccak E) [sender, Int64ToBytes_BE (accountNonce div TxTurnNonces), Idx_Bytes (engineEpoch w)]"

definition roundIndex :: "time \<Rightarrow> time \<Rightarrow> nat \<Rightarrow> int" where
  "roundIndex now t n = go_rem (go_quot (time_Sub now t) TxTurnPeriod) (int n)"

definition isMyTxTurn ::
    "('tx, 'c, 'b) emit_env \<Rightarrow> em_world \<Rightarrow> hash \<Rightarrow> address \<Rightarrow> u64 \<Rightarrow> time \<Rightarrow> StakerID list \<Rightarrow> Stake list \<Rightarrow> StakerID \<Rightarrow>
     'c Emitter \<Rightarrow> (bool \<times> 'c Emitter) option" where
  "isMyTxTurn E w h sender accountNonce now validatorsArr validatorsArrStakes me em =
     (let (found, cache) = timeGet E h (txTime em);
          (t, cache) = (case found of None \<Rightarrow> (now, timeAdd E h now cache) | Some t \<Rightarrow> (t, cache));
          em = em\<lparr>txTime := cache\<rparr> in
      if length validatorsArr = 0 then None
      else let i = roundIndex now t (length validatorsArr) in
        if i < 0 then None
        else do {
          turns \<leftarrow> WeightedPermutation (emSha256 E) (nat i + 1) validatorsArrStakes (turnHash E w sender accountNonce);
          turn \<leftarrow> slice_get turns (nat i);
          v \<leftarrow> slice_get validatorsArr turn;
          Some (v = me, em) })"

subsection \<open>Transactions\<close>

definition putTx :: "('tx, 'c, 'b) emit_env \<Rightarrow> 'tx \<Rightarrow> 'tx Event \<Rightarrow> 'tx Event" where
  "putTx E tx e = e\<lparr>eGasPowerUsed := eGasPowerUsed e + txGas (emTx E) tx,
     eGasPowerLeft := GasPowerLeft_Sub (eGasPowerLeft e) (txGas (emTx E) tx),
     eTransactions := eTransactions e @ [tx]\<rparr>"

fun addSenderTxs ::
    "('tx, 'c, 'b) emit_env \<Rightarrow> em_world \<Rightarrow> time \<Rightarrow> StakerID list \<Rightarrow> Stake list \<Rightarrow> u64 \<Rightarrow> address \<Rightarrow> 'tx list \<Rightarrow>
     'tx Event \<times> 'c Emitter \<Rightarrow> ('tx Event \<times> 'c Emitter) option" where
  "addSenderTxs E w now arr stakesArr maxGasUsed sender [] (e, em) = Some (e, em)"
| "addSenderTxs E w now arr stakesArr maxGasUsed sender (tx # txs) (e, em) =
     (if txGas (emTx E) tx \<ge> GasPowerLeft_Min (eGasPowerLeft e) \<or> eGasPowerUsed e + txGas (emTx E) tx \<ge> maxGasUsed then Some (e, em)
      else if MayBeConflicted (occurredOps E) sender (txHash E tx) (occurredTxs E) then Some (e, em)
      else case isMyTxTurn E w (txHash E tx) sender (txNonce E tx) now arr stakesArr (eCreator e) em of
        None \<Rightarrow> None
      | Some (turn, em) \<Rightarrow>
          if \<not> turn then Some (e, em)
          else addSenderTxs E w now arr stakesArr maxGasUsed sender txs (putTx E tx e, em))"

text \<open>The pool is given in the order in which the map is visited. A negative slice bound panics.\<close>

fun addPoolTxs ::
    "('tx, 'c, 'b) emit_env \<Rightarrow> em_world \<Rightarrow> time \<Rightarrow> StakerID list \<Rightarrow> Stake list \<Rightarrow> u64 \<Rightarrow> (address \<times> 'tx list) list \<Rightarrow>
     'tx Event \<times> 'c Emitter \<Rightarrow> ('tx Event \<times> 'c Emitter) option" where
  "addPoolTxs E w now arr stakesArr maxGasUsed [] s = Some s"
| "addPoolTxs E w now arr stakesArr maxGasUsed ((sender, txs) # pool) s = do {
     let limit = MaxTxsFromSender (emConfig (snd s));
     txs \<leftarrow> (if int (length txs) > limit then if limit < 0 then None else Some (take (nat limit) txs) else Some txs);
     s \<leftarrow> addSenderTxs E w now arr stakesArr maxGasUsed sender txs s;
     addPoolTxs E w now arr stakesArr maxGasUsed pool s }"

definition addTxs ::
    "('tx, 'c, 'b) emit_env \<Rightarrow> em_world \<Rightarrow> time \<Rightarrow> (address \<times> 'tx list) list \<Rightarrow> 'tx Event \<times> 'c Emitter \<Rightarrow> ('tx Event \<times> 'c Emitter) option" where
  "addTxs E w now poolTxs s =
     (if length poolTxs = 0 then Some s
      else let maxGasUsed = maxGasPowerToUse (emFloat E) (gasRate E) (snd s) (fst s);
               validatorsArr = SortedIDs (engineValidators w);
               validatorsArrStakes = map (Validators_Get (engineValidators w)) validatorsArr
           in addPoolTxs E w now validatorsArr validatorsArrStakes maxGasUsed poolTxs s)"

subsection \<open>Parents\<close>

text \<open>
  What the emitter draws by chance: the order of the options, whether the 20th event's random strategy is
  used and its numbers. \<open>vecClock\<close> is \<^const>\<open>None\<close> without an engine.
\<close>

record chance =
  optionOrder :: ranges
  scoreSort :: "eventScore list \<Rightarrow> eventScore list"
  every20th :: bool
  randIntn :: "nat \<Rightarrow> nat \<Rightarrow> nat \<times> nat"
  randSeed :: nat

definition maxParentsOf :: "'c Emitter \<Rightarrow> int" where
  "maxParentsOf em =
     (let maxParents = cfgMaxParents (emConfig em);
          maxParents = (if maxParents < MaxFreeParents (emDag em) then MaxFreeParents (emDag em) else maxParents)
      in if maxParents > MaxParents (emDag em) then MaxParents (emDag em) else maxParents)"

definition searchParents :: "chance \<Rightarrow> Index option \<Rightarrow> Validators \<Rightarrow> int \<Rightarrow> hash_event list \<Rightarrow> hash_event option \<Rightarrow> hash_event list option" where
  "searchParents C vecClock vals mx heads selfParent =
     map_option snd (case vecClock of
       Some vi \<Rightarrow> if every20th C then FindBestParents (optionOrder C) random_Init (random_Find (randIntn C)) mx heads selfParent (randSeed C)
                  else FindBestParents (optionOrder C) casuality_Init (casuality_Find (scoreSort C)) mx heads selfParent (NewCasualityStrategy vi vals)
     | None \<Rightarrow> FindBestParents (optionOrder C) random_Init (random_Find (randIntn C)) mx heads selfParent (randSeed C))"

definition findBestParents ::
    "chance \<Rightarrow> getEvent \<Rightarrow> Index option \<Rightarrow> em_world \<Rightarrow> 'c Emitter \<Rightarrow> Epoch \<Rightarrow> StakerID \<Rightarrow> (hash_event option \<times> hash_event list) option option" where
  "findBestParents C getEvent vecClock w em epoch me =
     (let selfParent = GetLastEvent w epoch me; heads = GetHeads w epoch in do {
        res \<leftarrow> (case vecClock of
            None \<Rightarrow> Some (Some heads)
          | Some vi \<Rightarrow> do {
              heads \<leftarrow> NoCheaters getEvent vi selfParent heads;
              mine \<leftarrow> (case selfParent of None \<Rightarrow> Some True | Some p \<Rightarrow> map_option (\<lambda>l. length l \<noteq> 0) (NoCheaters getEvent vi selfParent [p]));
              Some (if mine then Some heads else None) });
        case res of
          None \<Rightarrow> Some None
        | Some heads \<Rightarrow> do {
            parents \<leftarrow> searchParents C vecClock (engineValidators w) (maxParentsOf em) heads selfParent;
            Some (Some (selfParent, parents)) } })"

subsection \<open>The event\<close>

definition NewEvent :: "'tx Event" where
  "NewEvent = \<lparr>eVersion = 0, eEpoch = 0, eSeq = 0, eFrame = 0, eIsRoot = False, eCreator = 0, ePrevEpochHash = hash_Zero,
     eParents = [], eGasPowerLeft = GasPowerLeft 0 0, eGasPowerUsed = 0, eLamport = 0, eClaimedTime = 0, eMedianTime = 0,
     eTxHash = hash_Zero, eExtra = [], eHash = None, eSig = [], eTransactions = []\<rparr>"

text \<open>The headers of the parents; the inner \<^const>\<open>None\<close> is a second event of the own, the outer one a missing head.\<close>

fun parentHeaders :: "em_world \<Rightarrow> Epoch \<Rightarrow> StakerID \<Rightarrow> nat \<Rightarrow> hash_event list \<Rightarrow> EventHeaderData list option option" where
  "parentHeaders w epoch me i [] = Some (Some [])"
| "parentHeaders w epoch me i (p # ps) = (case GetEventHeader w epoch p of
     None \<Rightarrow> None
   | Some parent \<Rightarrow>
       if eCreator parent = me \<and> i \<noteq> 0 then Some None
       else map_option (map_option (\<lambda>hs. parent # hs)) (parentHeaders w epoch me (Suc i) ps))"

definition AddVersion :: "bytes \<Rightarrow> 'tx Event \<Rightarrow> 'tx Event" where
  "AddVersion version e =
     (let e = e\<lparr>eVersion := 0\<rparr> in
      if eSeq e \<le> 1 \<and> length version > 0 \<and> length ([118, 45] @ version) \<le> MaxExtraData then e\<lparr>eExtra := [118, 45] @ version\<rparr> else e)"

definition signPrefix :: bytes where
  "signPrefix = map (\<lambda>c. of_nat (of_char c)) ''Lachesis: I'm signing the Event ''"

definition DataToSign :: "hash_lib \<Rightarrow> 'a EventHeaderData_scheme \<Rightarrow> bytes option" where
  "DataToSign env e = map_option (\<lambda>h. signPrefix @ h) (calcHash env e)"

definition Event_Sign :: "hash_lib \<Rightarrow> (bytes \<Rightarrow> bytes option) \<Rightarrow> 'tx Event \<Rightarrow> 'tx Event option option" where
  "Event_Sign env signer e = do {
     e \<leftarrow> RecacheHash env e;
     data \<leftarrow> DataToSign env e;
     Some (case signer data of None \<Rightarrow> None | Some sig \<Rightarrow> Some (e\<lparr>eSig := sig\<rparr>)) }"

definition draftEvent :: "em_world \<Rightarrow> time \<Rightarrow> 'c Emitter \<Rightarrow> hash_event option \<Rightarrow> hash_event list \<Rightarrow> EventHeaderData list \<Rightarrow> 'tx Event" where
  "draftEvent w now em selfParent parents headers =
     (let maxLamport = foldl (\<lambda>m p. MaxLamport m (eLamport p)) 0 headers;
          (selfParentSeq, selfParentTime) = (case selfParent of None \<Rightarrow> (0, 0) | Some _ \<Rightarrow> (eSeq (headers ! 0), eClaimedTime (headers ! 0)));
          event = NewEvent\<lparr>eEpoch := engineEpoch w, eSeq := selfParentSeq + 1, eCreator := myStakerID em, eParents := parents,
            eLamport := maxLamport + 1, eClaimedTime := MaxTimestamp (of_int now) (selfParentTime + 1)\<rparr>
      in AddVersion (VersionToPublish (emConfig em)) event)"

text \<open>The consensus fields, the gas and the transactions.\<close>

definition fillEvent ::
    "('tx, 'c, 'b) emit_env \<Rightarrow> ValidationContext \<Rightarrow> em_world \<Rightarrow> time \<Rightarrow> (address \<times> 'tx list) list \<Rightarrow> EventHeaderData option \<Rightarrow>
     'c Emitter \<Rightarrow> 'tx Event \<Rightarrow> ('tx Event option \<times> 'c Emitter) option" where
  "fillEvent E ctx w now poolTxs selfParentHeader em event = do {
     prepared \<leftarrow> enginePrepare E event;
     case prepared of
       None \<Rightarrow> Some (None, em)
     | Some event \<Rightarrow> do {
         let event = event\<lparr>eGasPowerUsed := CalcGasPowerUsed (emTx E) event (emDag em)\<rparr>;
         gas \<leftarrow> CalcGasPower ctx event selfParentHeader;
         case gas of
           Inl err \<Rightarrow> Some (None, em)
         | Inr availableGasPower \<Rightarrow>
             if eGasPowerUsed event > GasPowerLeft_Min availableGasPower then Some (None, em)
             else do {
               (event, em) \<leftarrow> addTxs E w now poolTxs (event\<lparr>eGasPowerLeft := GasPowerLeft_Sub availableGasPower (eGasPowerUsed event)\<rparr>, em);
               if \<not> isAllowedToEmit (emFloat E) (ring_Len (occurredOps E) (occurredTxs E)) em event selfParentHeader then Some (None, em)
               else Some (Some event, em) } } }"

definition sealEvent :: "('tx, 'c, 'b) emit_env \<Rightarrow> address \<Rightarrow> 'tx Event \<Rightarrow> 'tx Event option option" where
  "sealEvent E addr event = do {
     let event = event\<lparr>eTxHash := DeriveSha (emCrypto E) (eTransactions event)\<rparr>;
     signed \<leftarrow> Event_Sign (emLib E) (signData E addr) event;
     case signed of None \<Rightarrow> Some None | Some event \<Rightarrow> map_option Some (RecacheHash (emLib E) event) }"

text \<open>The event before the emitter's own sanity check, with the headers of its parents.\<close>

definition buildEvent ::
    "('tx, 'c, 'b) emit_env \<Rightarrow> chance \<Rightarrow> getEvent \<Rightarrow> Index option \<Rightarrow> ValidationContext \<Rightarrow> em_world \<Rightarrow> time \<Rightarrow> (address \<times> 'tx list) list \<Rightarrow>
     'c Emitter \<Rightarrow> (('tx Event \<times> EventHeaderData list) option \<times> 'c Emitter) option" where
  "buildEvent E C getEvent vecClock ctx w now poolTxs em =
     (if myStakerID em = 0 then Some (None, em)
      else if \<not> fst (isSynced w now em) then Some (None, em)
      else do {
        found \<leftarrow> findBestParents C getEvent vecClock w em (engineEpoch w) (myStakerID em);
        case found of None \<Rightarrow> Some (None, em)
        | Some (selfParent, parents) \<Rightarrow> do {
            headers \<leftarrow> parentHeaders w (engineEpoch w) (myStakerID em) 0 parents;
            case headers of None \<Rightarrow> Some (None, em)
            | Some headers \<Rightarrow> do {
                let selfParentHeader = map_option (\<lambda>_. headers ! 0) selfParent;
                (filled, em) \<leftarrow> fillEvent E ctx w now poolTxs selfParentHeader em (draftEvent w now em selfParent parents headers);
                case filled of None \<Rightarrow> Some (None, em)
                | Some event \<Rightarrow> do {
                    sealed \<leftarrow> sealEvent E (myAddress em) event;
                    Some (map_option (\<lambda>e. (e, headers)) sealed, em) } } } })"

text \<open>\<open>checkers.Validate\<close>, whose \<open>Gaspowercheck\<close> has the context \<open>ctx\<close>.\<close>

definition createEvent ::
    "('tx, 'c, 'b) emit_env \<Rightarrow> chance \<Rightarrow> getEvent \<Rightarrow> Index option \<Rightarrow> gas_schedule \<Rightarrow> ValidationContext \<Rightarrow> (StakerID \<rightharpoonup> bytes) \<Rightarrow> em_world \<Rightarrow>
     time \<Rightarrow> (address \<times> 'tx list) list \<Rightarrow> 'c Emitter \<Rightarrow> ('tx Event option \<times> 'c Emitter) option" where
  "createEvent E C getEvent vecClock gs ctx addrs w now poolTxs em = do {
     (built, em) \<leftarrow> buildEvent E C getEvent vecClock ctx w now poolTxs em;
     case built of None \<Rightarrow> Some (None, em)
     | Some (event, headers) \<Rightarrow> do {
         err \<leftarrow> Validate_all (emLib E) gs (emTx E) (emCrypto E) (emDag em) (engineValidators w) (engineEpoch w) ctx addrs (engineEpoch w) event headers;
         Some (if err = None then Some event else None, em) } }"

text \<open>
  \<open>EmitEvent\<close> with the pool's pending transactions, \<^const>\<open>None\<close> for an error. \<open>onEmitted\<close> is the service's
  callback: it processes the event and calls the emitter back. \<open>doneAt\<close> is the time when it is done.
\<close>

definition EmitEvent ::
    "('tx, 'c, 'b) emit_env \<Rightarrow> chance \<Rightarrow> getEvent \<Rightarrow> Index option \<Rightarrow> gas_schedule \<Rightarrow> ValidationContext \<Rightarrow> (StakerID \<rightharpoonup> bytes) \<Rightarrow> em_world \<Rightarrow>
     time \<Rightarrow> time \<Rightarrow> (address \<times> 'tx list) list option \<Rightarrow> ('tx Event \<Rightarrow> 'c Emitter \<Rightarrow> 'c Emitter option) \<Rightarrow> 'c Emitter \<Rightarrow>
     ('tx Event option \<times> 'c Emitter) option" where
  "EmitEvent E C getEvent vecClock gs ctx addrs w now doneAt pending onEmitted em =
     (if myStakerID em = 0 then Some (None, em)
      else case pending of None \<Rightarrow> Some (None, em)
      | Some poolTxs \<Rightarrow> do {
          (created, em) \<leftarrow> createEvent E C getEvent vecClock gs ctx addrs w now poolTxs em;
          case created of None \<Rightarrow> Some (None, em)
          | Some e \<Rightarrow> do {
              h \<leftarrow> Hash (emLib E) e;
              let em = em\<lparr>syncStatus := (syncStatus em)\<lparr>prevLocalEmittedID := h\<rparr>\<rparr>;
              em \<leftarrow> onEmitted e em;
              Some (Some e, em\<lparr>prevEmittedTime := doneAt\<rparr>) } })"


subsection \<open>Turns are fair\<close>

lemma retrieve_all_take: "retrieve_all sha w k t = Some is \<Longrightarrow> j \<le> k \<Longrightarrow> retrieve_all sha w j t = Some (take j is)"
proof (induction sha w k t arbitrary: j "is" rule: retrieve_all.induct)
  case (2 sha w k t)
  then show ?case by (cases j) (auto split: bind_splits)
qed simp

lemma WeightedPermutation_take:
  assumes "WeightedPermutation sha sz w seed = Some is" "j \<le> sz"
  shows "WeightedPermutation sha j w seed = Some (take j is)"
  using assms retrieve_all_take [of sha w sz] by (auto simp: WeightedPermutation_def split: if_splits bind_splits)

lemma roundIndex_small:
  assumes "0 \<le> d" "d < TxTurnPeriod" "i < n" "n < 2 ^ 31"
  shows "roundIndex (t + int i * TxTurnPeriod + d) t n = int i"
proof -
  have P: "TxTurnPeriod = 4000000000" by (simp add: TxTurnPeriod_def time_Second_def)
  have "int i * TxTurnPeriod + d \<le> maxDuration" "0 \<le> int i * TxTurnPeriod + d" using assms unfolding P maxDuration_def by simp_all
  then have "time_Sub (t + int i * TxTurnPeriod + d) t = int i * TxTurnPeriod + d" by (simp add: time_Sub_def minDuration_def)
  moreover have "(int i * TxTurnPeriod + d) div TxTurnPeriod = int i" using assms(1,2) by (simp add: P)
  moreover have "go_rem (int i) (int n) = int i" using assms(3) by (simp add: go_rem_def go_quot_def)
  ultimately show ?thesis using \<open>0 \<le> int i * TxTurnPeriod + d\<close> by (simp add: roundIndex_def go_quot_def)
qed

lemma isMyTxTurn_eq:
  assumes "timeGet E h (txTime em) = (Some t, c)" "0 \<le> d" "d < TxTurnPeriod" "i < length arr" "length arr < 2 ^ 31"
    and "WeightedPermutation (emSha256 E) (length arr) ws (turnHash E w sender nonce) = Some is"
    and "length is = length arr" "set is \<subseteq> {..<length arr}"
  shows "isMyTxTurn E w h sender nonce (t + int i * TxTurnPeriod + d) arr ws me em = Some (arr ! (is ! i) = me, em\<lparr>txTime := c\<rparr>)"
proof -
  have "is ! i < length arr" using assms(4,7,8) by (metis lessThan_iff nth_mem subsetD)
  moreover have "WeightedPermutation (emSha256 E) (i + 1) ws (turnHash E w sender nonce) = Some (take (i + 1) is)"
    using WeightedPermutation_take [OF assms(6), of "i + 1"] assms(4) by simp
  ultimately show ?thesis using assms(1,4,7) roundIndex_small [OF assms(2-5), of t]
    by (cases arr) (simp_all add: isMyTxTurn_def)
qed

definition turn ::
    "('tx, 'c, 'b) emit_env \<Rightarrow> em_world \<Rightarrow> hash \<Rightarrow> address \<Rightarrow> u64 \<Rightarrow> StakerID list \<Rightarrow> Stake list \<Rightarrow> 'c Emitter \<Rightarrow> time \<Rightarrow> nat \<Rightarrow> StakerID \<Rightarrow> bool option" where
  "turn E w h sender nonce arr ws em start i me = map_option fst (isMyTxTurn E w h sender nonce (start + int i * TxTurnPeriod) arr ws me em)"



subsection \<open>The built event passes the checks\<close>

text \<open>What adding transactions keeps: the gas used is the gas of the event, used and left add up, nothing underflows.\<close>

definition gas_kept :: "('tx, 'c, 'b) emit_env \<Rightarrow> DagConfig \<Rightarrow> GasPowerLeft \<Rightarrow> u64 \<Rightarrow> 'tx Event \<Rightarrow> bool" where
  "gas_kept E dag available limit e \<longleftrightarrow>
     eGasPowerUsed e = CalcGasPowerUsed (emTx E) e dag \<and>
     unat (eGasPowerUsed e) + unat (Gas0 (eGasPowerLeft e)) = unat (Gas0 available) \<and>
     unat (eGasPowerUsed e) + unat (Gas1 (eGasPowerLeft e)) = unat (Gas1 available) \<and> eGasPowerUsed e \<le> limit"

text \<open>The fields that a check of the header reads, and that adding transactions and sealing leave alone.\<close>

definition core :: "'tx Event \<Rightarrow> _" where
  "core e = (eVersion e, eEpoch e, eSeq e, eCreator e, eParents e, eLamport e, eClaimedTime e, eExtra e)"

definition kept :: "('tx, 'c, 'b) emit_env \<Rightarrow> DagConfig \<Rightarrow> GasPowerLeft \<Rightarrow> u64 \<Rightarrow> 'tx Event \<times> 'c Emitter \<Rightarrow> 'tx Event \<times> 'c Emitter \<Rightarrow> bool" where
  "kept E dag available limit s s' \<longleftrightarrow> gas_kept E dag available limit (fst s') \<and> core (fst s') = core (fst s) \<and>
     eMedianTime (fst s') = eMedianTime (fst s) \<and> (\<exists>c. snd s' = (snd s)\<lparr>txTime := c\<rparr>)"

lemma kept_refl: "gas_kept E dag available limit (fst s) \<Longrightarrow> kept E dag available limit s s"
  unfolding kept_def by (auto intro: exI [of _ "txTime (snd s)"])

lemma kept_trans: "kept E dag available limit s s' \<Longrightarrow> kept E dag available limit s' s'' \<Longrightarrow> kept E dag available limit s s''"
  unfolding kept_def by auto

lemma putTx_gas:
  assumes k: "gas_kept E dag available limit e" and g: "txGas (emTx E) tx < GasPowerLeft_Min (eGasPowerLeft e)" "eGasPowerUsed e + txGas (emTx E) tx < limit"
  shows "gas_kept E dag available limit (putTx E tx e)"
proof -
  let ?g = "txGas (emTx E) tx"
  have lt: "unat ?g < unat (Gas0 (eGasPowerLeft e))" "unat ?g < unat (Gas1 (eGasPowerLeft e))" using g(1) by (simp_all add: flip: word_less_nat_alt)
  have "unat (eGasPowerUsed e) + unat (Gas0 (eGasPowerLeft e)) = unat (Gas0 available)" using k unfolding gas_kept_def by blast
  then have "unat (eGasPowerUsed e) + unat (Gas0 (eGasPowerLeft e)) < 2 ^ 64" using unsigned_less [of "Gas0 available", where 'a = nat] by simp
  then have "unat (eGasPowerUsed e) + unat ?g < 2 ^ 64" using lt(1) by simp
  then have u: "unat (eGasPowerUsed e + ?g) = unat (eGasPowerUsed e) + unat ?g" using unat_add_lem [of "eGasPowerUsed e" ?g] by simp
  have l: "unat (Gas0 (eGasPowerLeft e) - ?g) = unat (Gas0 (eGasPowerLeft e)) - unat ?g" "unat (Gas1 (eGasPowerLeft e) - ?g) = unat (Gas1 (eGasPowerLeft e)) - unat ?g"
    using lt by (auto simp: unat_sub word_le_nat_alt)
  have "CalcGasPowerUsed (emTx E) (putTx E tx e) dag = CalcGasPowerUsed (emTx E) e dag + ?g"
    by (simp add: CalcGasPowerUsed_def putTx_def Let_def algebra_simps)
  then show ?thesis using k u l lt g(2) by (auto simp: gas_kept_def putTx_def GasPowerLeft_Sub_def)
qed

lemma isMyTxTurn_config: "isMyTxTurn E w h sender nonce now arr ws me em = Some (b, em') \<Longrightarrow> \<exists>c. em' = em\<lparr>txTime := c\<rparr>"
  by (auto simp: isMyTxTurn_def Let_def split: prod.splits option.splits if_splits bind_splits)

lemma addSenderTxs_keeps:
  assumes "addSenderTxs E w now arr ws limit sender txs s = Some s'" "gas_kept E dag available cap (fst s)" "limit \<le> cap"
  shows "kept E dag available cap s s'"
  using assms
proof (induction txs arbitrary: s)
  case Nil
  then show ?case by (cases s) (simp add: kept_refl)
next
  case (Cons tx txs)
  obtain e em where s: "s = (e, em)" by fastforce
  show ?case
  proof (cases "s' = (e, em)")
    case True
    then show ?thesis using Cons.prems(2) s by (simp add: kept_refl)
  next
    case False
    with Cons.prems(1) s obtain b em1 where g: "\<not> txGas (emTx E) tx \<ge> GasPowerLeft_Min (eGasPowerLeft e)" "\<not> eGasPowerUsed e + txGas (emTx E) tx \<ge> limit"
      and t: "isMyTxTurn E w (txHash E tx) sender (txNonce E tx) now arr ws (eCreator e) em = Some (b, em1)"
      and r: "if b then addSenderTxs E w now arr ws limit sender txs (putTx E tx e, em1) = Some s' else s' = (e, em1)"
      by (auto simp del: GasPowerLeft_Min_eq split: if_splits option.splits)
    obtain c where c: "em1 = em\<lparr>txTime := c\<rparr>" using isMyTxTurn_config [OF t] by blast
    show ?thesis
    proof (cases b)
      case False
      then show ?thesis using r c s Cons.prems(2) by (auto simp: kept_def)
    next
      case True
      have "eGasPowerUsed e + txGas (emTx E) tx < cap" using g(2) Cons.prems(3) by simp
      then have "gas_kept E dag available cap (putTx E tx e)" using putTx_gas [of E dag available cap e tx] Cons.prems(2) s g(1) by (simp add: not_le)
      then have "kept E dag available cap (putTx E tx e, em1) s'" using Cons.IH [of "(putTx E tx e, em1)"] True r Cons.prems(3) by simp
      then show ?thesis using c s by (auto simp: kept_def core_def putTx_def)
    qed
  qed
qed

lemma addPoolTxs_keeps:
  assumes "addPoolTxs E w now arr ws limit pool s = Some s'" "gas_kept E dag available cap (fst s)" "limit \<le> cap"
  shows "kept E dag available cap s s'"
  using assms
proof (induction pool arbitrary: s)
  case (Cons p pool)
  obtain sender txs where p: "p = (sender, txs)" by fastforce
  with Cons.prems(1) obtain txs' s1 where s1: "addSenderTxs E w now arr ws limit sender txs' s = Some s1" "addPoolTxs E w now arr ws limit pool s1 = Some s'"
    by (auto simp: Let_def split: bind_splits)
  from addSenderTxs_keeps [OF s1(1) Cons.prems(2,3)] have k: "kept E dag available cap s s1" .
  moreover from k have "gas_kept E dag available cap (fst s1)" by (simp add: kept_def)
  ultimately show ?case using Cons.IH [OF s1(2) _ Cons.prems(3)] kept_trans by blast
qed (simp add: kept_refl)

lemma maxGasPowerToUse_le: "maxGasPowerToUse F rate em e \<le> MaxGasPowerUsed"
proof -
  have "a - b \<le> m" if "b < a" "a < b + m" for a b m :: u64
    using that by (simp add: word_le_nat_alt word_less_nat_alt unat_sub unat_word_ariths)
  then show ?thesis by (auto simp: maxGasPowerToUse_def Let_def not_le not_less)
qed

lemma addTxs_keeps:
  assumes "addTxs E w now pool s = Some s'" "gas_kept E dag available MaxGasPowerUsed (fst s)"
  shows "kept E dag available MaxGasPowerUsed s s'"
proof (cases "length pool = 0")
  case True
  then show ?thesis using assms by (simp add: addTxs_def kept_refl)
next
  case False
  then have "addPoolTxs E w now (SortedIDs (engineValidators w)) (map (Validators_Get (engineValidators w)) (SortedIDs (engineValidators w)))
      (maxGasPowerToUse (emFloat E) (gasRate E) (snd s) (fst s)) pool s = Some s'" using assms(1) by (simp add: addTxs_def Let_def)
  then show ?thesis by (rule addPoolTxs_keeps [OF _ assms(2) maxGasPowerToUse_le])
qed

text \<open>
  What the emitter relies on: \<open>Prepare\<close> sets the consensus fields only; the store returns a header under
  its id, the last own event is the emitter's, and without one no head is.
\<close>

definition prepare_ok :: "('tx, 'c, 'b) emit_env \<Rightarrow> bool" where
  "prepare_ok E \<longleftrightarrow> (\<forall>e f. enginePrepare E e = Some (Some f) \<longrightarrow>
     (\<exists>frame root median prevHash cached. f = e\<lparr>eFrame := frame, eIsRoot := root, eMedianTime := median, ePrevEpochHash := prevHash, eHash := cached\<rparr>))"

definition store_ok :: "hash_lib \<Rightarrow> em_world \<Rightarrow> StakerID \<Rightarrow> bool" where
  "store_ok lib w me \<longleftrightarrow>
     (\<forall>p h. GetEventHeader w (engineEpoch w) p = Some h \<longrightarrow> Hash lib h = Some p) \<and>
     (case GetLastEvent w (engineEpoch w) me of
        Some p \<Rightarrow> (\<exists>h. GetEventHeader w (engineEpoch w) p = Some h \<and> eCreator h = me \<and> 1 \<le> eSeq h \<and> eSeq h < 1073741823 \<and> eClaimedTime h < 2 ^ 63)
      | None \<Rightarrow> (\<forall>p \<in> set (GetHeads w (engineEpoch w)). \<forall>h. GetEventHeader w (engineEpoch w) p = Some h \<longrightarrow> eCreator h \<noteq> me))"

definition chance_ok :: "chance \<Rightarrow> bool" where
  "chance_ok C \<longleftrightarrow> ranges_ok (optionOrder C) \<and> sorts_scores (scoreSort C) \<and> intn_ok (randIntn C)"

definition dag_ok :: "DagConfig \<Rightarrow> bool" where
  "dag_ok dag \<longleftrightarrow> 0 \<le> MaxFreeParents dag \<and> 1 \<le> MaxParents dag \<and> MaxParents dag \<le> 4000"

definition good_parents :: "em_world \<Rightarrow> 'c Emitter \<Rightarrow> hash_event option \<Rightarrow> hash_event list \<Rightarrow> bool" where
  "good_parents w em selfParent parents \<longleftrightarrow> selfParent = GetLastEvent w (engineEpoch w) (myStakerID em) \<and> distinct parents \<and>
     set parents \<subseteq> set (GetHeads w (engineEpoch w)) \<union> set_option selfParent \<and> (\<forall>p. selfParent = Some p \<longrightarrow> parents \<noteq> [] \<and> hd parents = p) \<and>
     int (length parents) \<le> MaxParents (emDag em)"

lemma NoCheaters_subset:
  assumes "NoCheaters getEvent vi sp opts = Some l"
  shows "set l \<subseteq> set opts"
proof (cases sp)
  case (Some p)
  define f where "f = (\<lambda>filtered h. case getEvent h of None \<Rightarrow> None | Some header \<Rightarrow>
    if \<not> IsForkDetected (HighestBeforeSeq_Get (case GetHighestBeforeSeq vi p of Some v \<Rightarrow> v | None \<Rightarrow> []) (GetIdx (vi_validators vi) (eCreator header)))
    then Some (filtered @ [h]) else Some filtered)"
  have "foldM f a opts = Some l \<Longrightarrow> set l \<subseteq> set a \<union> set opts" for a
  proof (induction opts arbitrary: a)
    case (Cons h opts)
    then obtain a' where "f a h = Some a'" "foldM f a' opts = Some l" by (auto split: bind_splits)
    moreover from this(1) have "set a' \<subseteq> insert h (set a)" by (auto simp: f_def split: option.splits if_splits)
    ultimately show ?case using Cons.IH by fastforce
  qed simp
  moreover have "foldM f [] opts = Some l" using assms Some by (simp add: NoCheaters_def f_def Let_def)
  ultimately show ?thesis by fastforce
qed (use assms in \<open>simp add: NoCheaters_def\<close>)

lemma maxParentsOf_bounds: "dag_ok (emDag em) \<Longrightarrow> 0 \<le> maxParentsOf em \<and> maxParentsOf em \<le> MaxParents (emDag em)"
  by (auto simp: dag_ok_def maxParentsOf_def Let_def)

lemma strategy_good:
  assumes "search_strategy pick" "ranges_ok ord" "0 \<le> mx" "map_option snd (FindBestParents ord init pick mx heads selfParent st) = Some parents"
  shows "distinct parents \<and> set parents \<subseteq> set heads \<union> set_option selfParent \<and> (\<forall>p. selfParent = Some p \<longrightarrow> parents \<noteq> [] \<and> hd parents = p) \<and>
     int (length parents) \<le> max 1 mx"
proof -
  have c: "card (set_option selfParent) \<le> 1" by (cases selfParent) auto
  obtain ps where ps: "FindBestParents ord init pick mx heads selfParent st = Some (selfParent, ps)" "distinct ps"
      "set ps \<subseteq> set heads \<union> set_option selfParent" "\<forall>p. selfParent = Some p \<longrightarrow> ps \<noteq> [] \<and> hd ps = p"
      "int (length ps) = max (int (card (set_option selfParent))) (min mx (int (card (set heads \<union> set_option selfParent))))"
    using search_strategy.FindBestParents_chooses [OF assms(1-3), of init heads selfParent st] by blast
  have "int (length ps) \<le> max 1 mx" unfolding ps(5) using c by auto
  with ps(1-4) assms(4) show ?thesis by simp
qed

lemma searchParents_good:
  assumes C: "chance_ok C" and mx: "0 \<le> mx" and r: "searchParents C vc vals mx heads selfParent = Some parents"
  shows "distinct parents \<and> set parents \<subseteq> set heads \<union> set_option selfParent \<and> (\<forall>p. selfParent = Some p \<longrightarrow> parents \<noteq> [] \<and> hd parents = p) \<and>
     int (length parents) \<le> max 1 mx"
proof -
  have ok: "ranges_ok (optionOrder C)" "search_strategy (casuality_Find (scoreSort C))" "search_strategy (random_Find (randIntn C))"
    using C by (auto simp: chance_ok_def casuality_search random_search)
  show ?thesis
  proof (cases "vc = None \<or> every20th C")
    case True
    then show ?thesis using r by (intro strategy_good [OF ok(3,1) mx, of random_Init _ _ "randSeed C"]) (auto simp: searchParents_def split: option.splits)
  next
    case False
    then obtain vi where "vc = Some vi" by auto
    with False r show ?thesis by (intro strategy_good [OF ok(2,1) mx, of casuality_Init _ _ "NewCasualityStrategy vi vals"]) (auto simp: searchParents_def)
  qed
qed

lemma findBestParents_good:
  assumes "chance_ok C" "dag_ok (emDag em)" "findBestParents C getEvent vc w em (engineEpoch w) (myStakerID em) = Some (Some (selfParent, parents))"
  shows "good_parents w em selfParent parents"
proof -
  let ?sp = "GetLastEvent w (engineEpoch w) (myStakerID em)" and ?heads = "GetHeads w (engineEpoch w)"
  obtain heads where h: "set heads \<subseteq> set ?heads" "searchParents C vc (engineValidators w) (maxParentsOf em) heads ?sp = Some parents" "selfParent = ?sp"
  proof (cases vc)
    case None
    then show ?thesis using assms(3) that [of ?heads] by (simp add: findBestParents_def Let_def split: bind_splits)
  next
    case (Some vi)
    from assms(3) [unfolded findBestParents_def Let_def Some option.case] obtain heads where
        n: "NoCheaters getEvent vi ?sp ?heads = Some heads" "searchParents C vc (engineValidators w) (maxParentsOf em) heads ?sp = Some parents" "selfParent = ?sp"
      unfolding Some by (cases "NoCheaters getEvent vi ?sp ?heads") (auto split: bind_splits if_splits option.splits)
    with NoCheaters_subset that show ?thesis by blast
  qed
  from searchParents_good [OF assms(1) _ h(2)] maxParentsOf_bounds [OF assms(2)] assms(2) h(1,3) show ?thesis
    unfolding good_parents_def dag_ok_def by fastforce
qed

lemma parentHeaders_spec:
  assumes "parentHeaders w epoch me i ps = Some (Some hs)"
  shows "list_all2 (\<lambda>p h. GetEventHeader w epoch p = Some h) ps hs \<and> (\<forall>j < length hs. i + j \<noteq> 0 \<longrightarrow> eCreator (hs ! j) \<noteq> me)"
  using assms
proof (induction ps arbitrary: i hs)
  case (Cons p ps)
  then obtain parent hs' where h: "GetEventHeader w epoch p = Some parent" "\<not> (eCreator parent = me \<and> i \<noteq> 0)" "parentHeaders w epoch me (Suc i) ps = Some (Some hs')" "hs = parent # hs'"
    by (auto split: option.splits if_splits)
  with Cons.IH [OF h(3)] show ?case by (auto simp: nth_Cons' All_less_Suc2)
qed simp

lemma draft_fields:
  "eEpoch (draftEvent w now em sp ps hs) = engineEpoch w" "eCreator (draftEvent w now em sp ps hs) = myStakerID em"
  "eParents (draftEvent w now em sp ps hs) = ps" "eLamport (draftEvent w now em sp ps hs) = foldl (\<lambda>m p. MaxLamport m (eLamport p)) 0 hs + 1"
  "eSeq (draftEvent w now em sp ps hs) = (case sp of None \<Rightarrow> 1 | Some _ \<Rightarrow> eSeq (hs ! 0) + 1)"
  "sp \<noteq> None \<Longrightarrow> eClaimedTime (draftEvent w now em sp ps hs) = max (of_int now) (eClaimedTime (hs ! 0) + 1)"
  "eTransactions (draftEvent w now em sp ps hs) = []" "length (eExtra (draftEvent w now em sp ps hs)) \<le> MaxExtraData"
  by (auto simp: draftEvent_def AddVersion_def NewEvent_def Let_def MaxExtraData_def split: option.splits)

lemma parents_check_passes:
  fixes e :: "'tx Event"
  assumes S: "store_ok lib w me" and g: "good_parents w em sp ps" and me: "myStakerID em = me"
    and h: "parentHeaders w (engineEpoch w) me 0 ps = Some (Some hs)" and e: "core e = core (draftEvent w now em sp ps hs :: 'tx Event)"
  shows "Validate_parents lib e hs = Some None"
proof -
  let ?d = "draftEvent w now em sp ps hs :: 'tx Event"
  note hs = parentHeaders_spec [OF h]
  have len: "length hs = length ps" using hs by (auto dest: list_all2_lengthD)
  have nth: "GetEventHeader w (engineEpoch w) (ps ! j) = Some (hs ! j)" if "j < length ps" for j using hs that by (auto dest: list_all2_nthD)
  have f: "eEpoch e = engineEpoch w" "eCreator e = me" "eParents e = ps" "eLamport e = foldl (\<lambda>m p. MaxLamport m (eLamport p)) 0 hs + 1"
      "eSeq e = (case sp of None \<Rightarrow> 1 | Some _ \<Rightarrow> eSeq (hs ! 0) + 1)" "eClaimedTime e = eClaimedTime ?d"
    using e draft_fields(1-5) [of w now em sp ps hs] me by (auto simp: core_def)
  have d: "length (remdups ps) = length ps" using g by (simp add: good_parents_def distinct_remdups_id)
  show ?thesis
  proof (cases sp)
    case None
    then have "SelfParent e = None" using f(5) by (simp add: SelfParent_def)
    moreover have "eCreator (hs ! j) \<noteq> me" if j: "j < length ps" for j
    proof -
      have "ps ! j \<in> set (GetHeads w (engineEpoch w))" using g None j nth_mem [OF j] by (auto simp: good_parents_def)
      then show ?thesis using S g None nth [OF j] me by (auto simp: store_ok_def good_parents_def split: option.splits)
    qed
    ultimately show ?thesis using f None d len
      by (auto simp: Validate_parents_def IsSelfParent_def list_all2_conv_all_nth)
  next
    case (Some p)
    then have p: "ps \<noteq> []" "hd ps = p" "ps ! 0 = p" "distinct ps" using g by (auto simp: good_parents_def hd_conv_nth)
    have last: "GetLastEvent w (engineEpoch w) me = Some p" using g Some me by (simp add: good_parents_def)
    have h0: "GetEventHeader w (engineEpoch w) p = Some (hs ! 0)" using nth [of 0] p(1,3) by simp
    from S last h0 obtain own: "eCreator (hs ! 0) = me" "1 \<le> eSeq (hs ! 0)" "eSeq (hs ! 0) < 1073741823" "eClaimedTime (hs ! 0) < 2 ^ 63" "Hash lib (hs ! 0) = Some p"
      by (auto simp: store_ok_def)
    have "unat (eSeq (hs ! 0) + 1) = unat (eSeq (hs ! 0)) + 1" using own(3) by (simp add: word_less_nat_alt unat_word_ariths)
    then have s: "1 < eSeq (hs ! 0) + 1" using own(2) by (simp add: word_less_nat_alt word_le_nat_alt)
    then have sp: "SelfParent e = Some p" using f(3,5) Some p(1,3) by (simp add: SelfParent_def)
    have "unat (eClaimedTime (hs ! 0) + 1) = unat (eClaimedTime (hs ! 0)) + 1" using own(4) by (simp add: word_less_nat_alt unat_word_ariths)
    then have "eClaimedTime (hs ! 0) < eClaimedTime (hs ! 0) + 1" by (simp add: word_less_nat_alt)
    moreover have "eClaimedTime ?d = max (of_int now) (eClaimedTime (hs ! 0) + 1)" by (rule draft_fields(6)) (simp add: Some)
    ultimately have t: "\<not> eClaimedTime e \<le> eClaimedTime (hs ! 0)" using f(6) by (simp add: not_le less_max_iff_disj)
    have "(eCreator (hs ! j) = me) = (p = ps ! j)" if j: "j < length ps" for j
    proof (cases "j = 0")
      case False
      then have "ps ! j \<noteq> ps ! 0" using p(1,4) j by (simp add: nth_eq_iff_index_eq)
      moreover have "eCreator (hs ! j) \<noteq> me" using hs False j len by simp
      ultimately show ?thesis using p(3) by simp
    qed (use own(1) p(3) in simp)
    then have "list_all2 (\<lambda>q h. (eCreator q = eCreator e) = IsSelfParent e h) hs ps" using len f(2) sp by (simp add: list_all2_conv_all_nth IsSelfParent_def)
    moreover have "check_selfParent lib e (hs ! 0) = Some None"
      using sp t own(5) f(5) Some by (simp add: check_selfParent_def IsSelfParent_def)
    moreover have "\<not> eSeq e \<le> 1" using f(5) Some s by (simp add: not_le)
    ultimately show ?thesis unfolding Validate_parents_def Let_def using f(3,4) sp d len by simp
  qed
qed

lemma CalcGasPower_cong:
  "eEpoch e = eEpoch f \<Longrightarrow> eCreator e = eCreator f \<Longrightarrow> eMedianTime e = eMedianTime f \<Longrightarrow> SelfParent e = SelfParent f \<Longrightarrow>
    CalcGasPower ctx e sp = CalcGasPower ctx f sp"
  unfolding CalcGasPower_def calcGasPower_def prev_gas_def by (simp only:)

lemma CalcGasPower_no_parent: "SelfParent e = None \<Longrightarrow> CalcGasPower ctx e sp = CalcGasPower ctx e None"
  unfolding CalcGasPower_def calcGasPower_def prev_gas_def by (simp only: simp_thms if_False)

lemma small_event_gas:
  assumes d: "dag_ok dag" and e: "eTransactions e = []" "int (length (eParents e)) \<le> MaxParents dag" "length (eExtra e) \<le> MaxExtraData"
  shows "CalcGasPowerUsed to e dag \<le> MaxGasPowerUsed"
proof -
  let ?n = "if int (length (eParents e)) > MaxFreeParents dag then nat (int (length (eParents e)) - MaxFreeParents dag) else 0"
  have b: "?n \<le> 4000" "length (eExtra e) \<le> 128" using d e(2,3) by (auto simp: dag_ok_def MaxExtraData_def)
  have eq: "CalcGasPowerUsed to e dag = of_nat (?n * 2400 + length (eExtra e) * 150 + 28000)"
    using e(1) by (simp add: CalcGasPowerUsed_def Let_def ParentGas_def ExtraDataGas_def EventGas_def)
  have lt: "?n * 2400 + length (eExtra e) * 150 + 28000 \<le> 10028000" using b by linarith
  have "(of_nat n :: u64) \<le> MaxGasPowerUsed" if "n \<le> 10028000" for n
    using that by (simp add: word_le_nat_alt unsigned_of_nat take_bit_nat_eq_self MaxGasPowerUsed_def EventGas_def)
  then show ?thesis unfolding eq using lt by blast
qed

lemma fillEvent_keeps:
  assumes P: "prepare_ok E" and f: "fillEvent E ctx w now pool sp em d = Some (Some e, em')"
    and d: "eTransactions d = []" "int (length (eParents d)) \<le> MaxParents (emDag em)" "length (eExtra d) \<le> MaxExtraData" "dag_ok (emDag em)"
  shows "\<exists>available. CalcGasPower ctx e sp = Some (Inr available) \<and> gas_kept E (emDag em) available MaxGasPowerUsed e \<and> core e = core d \<and> (\<exists>c. em' = em\<lparr>txTime := c\<rparr>)"
proof -
  obtain p where p: "enginePrepare E d = Some (Some p)" using f by (auto simp: fillEvent_def split: bind_splits option.splits)
  define p1 where "p1 = p\<lparr>eGasPowerUsed := CalcGasPowerUsed (emTx E) p (emDag em)\<rparr>"
  from f p obtain available where a: "CalcGasPower ctx p1 sp = Some (Inr available)" "\<not> eGasPowerUsed p1 > GasPowerLeft_Min available"
    and s: "addTxs E w now pool (p1\<lparr>eGasPowerLeft := GasPowerLeft_Sub available (eGasPowerUsed p1)\<rparr>, em) = Some (e, em')"
    by (auto simp: fillEvent_def Let_def p1_def simp del: GasPowerLeft_Min_eq split: bind_splits option.splits sum.splits if_splits)
  let ?p2 = "p1\<lparr>eGasPowerLeft := GasPowerLeft_Sub available (eGasPowerUsed p1)\<rparr>"
  obtain fr rt md ph ca where "p = d\<lparr>eFrame := fr, eIsRoot := rt, eMedianTime := md, ePrevEpochHash := ph, eHash := ca\<rparr>"
    using P p unfolding prepare_ok_def by blast
  then have pd: "core p = core d" "eTransactions p = []" using d(1) by (simp_all add: core_def)
  then have "CalcGasPowerUsed (emTx E) p (emDag em) \<le> MaxGasPowerUsed" using small_event_gas [OF d(4), of p "emTx E"] d(2,3) by (simp add: core_def)
  moreover have "CalcGasPowerUsed (emTx E) ?p2 (emDag em) = CalcGasPowerUsed (emTx E) p (emDag em)" by (simp add: CalcGasPowerUsed_def p1_def)
  moreover have "eGasPowerUsed p1 \<le> Gas0 available" "eGasPowerUsed p1 \<le> Gas1 available" using a(2) by (simp_all add: not_less)
  ultimately have "gas_kept E (emDag em) available MaxGasPowerUsed ?p2"
    by (simp add: gas_kept_def GasPowerLeft_Sub_def unat_sub word_le_nat_alt p1_def)
  then have k: "kept E (emDag em) available MaxGasPowerUsed (?p2, em) (e, em')" using addTxs_keeps [OF s] by simp
  then have c: "core e = core p" "eMedianTime e = eMedianTime p" by (simp_all add: kept_def core_def p1_def)
  then have "CalcGasPower ctx e sp = CalcGasPower ctx p1 sp" by (intro CalcGasPower_cong) (simp_all add: core_def SelfParent_def p1_def)
  with a(1) k c pd show ?thesis by (auto simp: kept_def)
qed

lemma sealEvent_keeps:
  assumes "sealEvent E addr e = Some (Some f)"
  shows "\<exists>sig cached. f = e\<lparr>eTxHash := DeriveSha (emCrypto E) (eTransactions e), eSig := sig, eHash := cached\<rparr>"
proof -
  let ?e = "e\<lparr>eTxHash := DeriveSha (emCrypto E) (eTransactions e)\<rparr>"
  from assms obtain g where g: "Event_Sign (emLib E) (signData E addr) ?e = Some (Some g)" "RecacheHash (emLib E) g = Some f"
    by (auto simp: sealEvent_def Let_def split: bind_splits option.splits)
  from g(1) obtain e1 sig where "RecacheHash (emLib E) ?e = Some e1" "g = e1\<lparr>eSig := sig\<rparr>"
    by (auto simp: Event_Sign_def split: bind_splits option.splits)
  with g(2) obtain j where "f = ?e\<lparr>eSig := sig, eHash := Some j\<rparr>" by (auto simp: RecacheHash_def)
  then show ?thesis by blast
qed


subsection \<open>A validator alone\<close>

definition rich_gas :: "nat \<Rightarrow> GasConfig" where
  "rich_gas i = \<lparr>gcIdx = i, AllocPerSec = 1000000, MaxAllocPeriod = 60000000000, StartupAllocPeriod = 5000000000, MinStartupGas = 50000000\<rparr>"

definition rich_context :: ValidationContext where
  "rich_context = first_context\<lparr>vcConfigs := (rich_gas 0, rich_gas 1)\<rparr>"

definition sample_crypto :: "u64 crypto_ops" where
  "sample_crypto = \<lparr>VerifySignature = \<lambda>_ _. True, SenderOk = \<lambda>_. True, DeriveSha = \<lambda>_. replicate 32 5\<rparr>"

definition solo_env :: "(u64, (hash \<times> time) list, (hash \<times> address) list) emit_env" where
  "solo_env = \<lparr>emLib = sample_lib, emKeccak = \<lambda>_. replicate 32 0, emSha256 = sample_sha, emTx = plain_tx,
     txHash = \<lambda>g. [of_nat (unat g mod 256)], txNonce = \<lambda>_. 0, timeGet = \<lambda>h c. (map_of c h, c), timeAdd = \<lambda>h t c. (h, t) # c,
     emCrypto = sample_crypto, signData = \<lambda>_ _. Some (replicate 65 1),
     enginePrepare = \<lambda>e. Some (Some (e\<lparr>eFrame := 1, eIsRoot := True, eMedianTime := 7, ePrevEpochHash := replicate 32 2, eHash := None\<rparr>)),
     emFloat = \<lparr>rnd = \<lambda>x. x, convU = \<lambda>_. 0, convNaN = 0\<rparr>, gasRate = 0, occurredOps = list_lru 2, occurredTxs = buffer_New []\<rparr>"

definition solo_world :: em_world where
  "solo_world = quiet_world\<lparr>engineValidators := solo_group\<rparr>"

definition solo_emitter :: "(hash \<times> time) list Emitter" where
  "solo_emitter = (NewEmitter [] small_config (DefaultEmitterConfig [49] 21000))\<lparr>myStakerID := 1, syncStatus :=
     \<lparr>connectedTime = 0, syncedTime = 0, prevLocalEmittedID = [], prevExternalEmittedTime = 100000000000, becameValidatorTime = 0\<rparr>\<rparr>"

definition steady :: chance where
  "steady = \<lparr>optionOrder = \<lambda>_ s. sorted_list_of_set s, scoreSort = sort_key esScore, every20th = False, randIntn = \<lambda>n r. (0, r), randSeed = 0\<rparr>"

definition solo_event :: "u64 \<Rightarrow> u64 \<Rightarrow> u64 list \<Rightarrow> u64 Event" where
  "solo_event used rest txs = \<lparr>eVersion = 0, eEpoch = 1, eSeq = 1, eFrame = 1, eIsRoot = True, eCreator = 1, ePrevEpochHash = replicate 32 2,
     eParents = [], eGasPowerLeft = GasPowerLeft rest rest, eGasPowerUsed = used, eLamport = 1, eClaimedTime = 3600000000000, eMedianTime = 7,
     eTxHash = hash_Zero, eExtra = [118, 45, 49], eHash = None, eSig = [], eTransactions = txs\<rparr>"

lemma solo_prepared: "enginePrepare solo_env (draftEvent solo_world 3600000000000 solo_emitter None [] []) = Some (Some (solo_event 0 0 []))"
  by code_simp

lemma solo_gas: "CalcGasPowerUsed (emTx solo_env) (solo_event 0 0 []) (emDag solo_emitter) = 28450"
    "CalcGasPower rich_context (solo_event 28450 0 []) None = Some (Inr (GasPowerLeft 50000000 50000000))"
    "maxGasPowerToUse (emFloat solo_env) (gasRate solo_env) solo_emitter (solo_event 28450 49971550 []) = 10028000"
  by code_simp+

lemma solo_turns: "WeightedPermutation sample_sha 1 (map (Validators_Get (engineValidators solo_world)) [1]) (replicate 32 0) = Some [0]" "SortedIDs (engineValidators solo_world) = [1]"
  by code_simp+

lemma solo_turn: "isMyTxTurn solo_env solo_world [8] [7] 0 3600000000000 [1] (map (Validators_Get (engineValidators solo_world)) [1]) 1 solo_emitter =
   Some (True, solo_emitter\<lparr>txTime := [([8], 3600000000000)]\<rparr>)"
  using solo_turns(1) by (simp add: isMyTxTurn_def roundIndex_def go_rem_def go_quot_def time_Sub_def maxDuration_def minDuration_def turnHash_def hash_Of_def
      solo_env_def solo_emitter_def NewEmitter_def)

lemma solo_not_conflicted: "\<not> MayBeConflicted (occurredOps solo_env) [7] [8] (occurredTxs solo_env)"
  by (simp add: solo_env_def MayBeConflicted_def ring_Get_def list_lru_def buffer_New_def GetTxsNum_def)

lemma solo_added: "addTxs solo_env solo_world 3600000000000 [([7], [21000])] (solo_event 28450 49971550 [], solo_emitter) =
    Some (solo_event 49450 49950550 [21000], solo_emitter\<lparr>txTime := [([8], 3600000000000)]\<rparr>)"
proof -
  have "txGas (emTx solo_env) 21000 = 21000" "txHash solo_env 21000 = [8]" "txNonce solo_env 21000 = 0" "MaxTxsFromSender (emConfig solo_emitter) = 8"
    by (simp_all add: solo_env_def plain_tx_def solo_emitter_def NewEmitter_def DefaultEmitterConfig_def)
  then show ?thesis using solo_turn solo_gas(3) solo_turns(2) solo_not_conflicted
    by (simp add: addTxs_def solo_event_def putTx_def GasPowerLeft_Sub_def)
qed

lemma solo_allowed: "isAllowedToEmit (emFloat solo_env) (ring_Len (occurredOps solo_env) (occurredTxs solo_env)) (solo_emitter\<lparr>txTime := [([8], 3600000000000)]\<rparr>)
    (solo_event 49450 49950550 [21000]) None"
  by code_simp

lemma solo_sealed: "\<exists>e. sealEvent solo_env (replicate 20 0) (solo_event 49450 49950550 [21000]) = Some (Some e)"
proof -
  have "map_option (map_option eSeq) (sealEvent solo_env (replicate 20 0) (solo_event 49450 49950550 [21000])) = Some (Some 1)" by code_simp
  then show ?thesis by auto
qed

lemma solo_filled: "fillEvent solo_env rich_context solo_world 3600000000000 [([7], [21000])] None solo_emitter (draftEvent solo_world 3600000000000 solo_emitter None [] []) =
    Some (Some (solo_event 49450 49950550 [21000]), solo_emitter\<lparr>txTime := [([8], 3600000000000)]\<rparr>)"
proof -
  have "(solo_event 0 0 [])\<lparr>eGasPowerUsed := 28450\<rparr> = solo_event 28450 0 []" "eGasPowerUsed (solo_event 28450 0 []) = 28450"
    "(solo_event 28450 0 [])\<lparr>eGasPowerLeft := GasPowerLeft_Sub (GasPowerLeft 50000000 50000000) 28450\<rparr> = solo_event 28450 49971550 []"
    by (simp_all add: solo_event_def GasPowerLeft_Sub_def)
  then show ?thesis unfolding fillEvent_def by (simp add: solo_prepared solo_gas solo_added solo_allowed)
qed

lemma solo_built: "\<exists>e em. buildEvent solo_env steady (\<lambda>_. None) None rich_context solo_world 3600000000000 [([7], [21000])] solo_emitter = Some (Some (e, []), em)"
proof -
  have "fst (isSynced solo_world 3600000000000 solo_emitter)" by code_simp
  moreover have "findBestParents steady (\<lambda>_. None) None solo_world solo_emitter 1 1 = Some (Some (None, []))" by code_simp
  moreover have "myStakerID solo_emitter = 1" "engineEpoch solo_world = 1" "myAddress solo_emitter = replicate 20 0"
    by (simp_all add: solo_emitter_def solo_world_def quiet_world_def NewEmitter_def DefaultEmitterConfig_def)
  ultimately show ?thesis using solo_filled solo_sealed by (auto simp: buildEvent_def)
qed



end
