(* ===== verification/Emit_Run.thy ===== *)
theory Emit_Run
  imports Emit_Event Poset
begin

text \<open>
  The emitter over time: its handlers as a step relation, with the service's callback from
  \<open>gossip/service.go\<close> and \<open>gossip/consensus_callbacks.go\<close>, and the protection against double signing.
\<close>

subsection \<open>The poset as the engine\<close>

definition poset_Prepare :: "poset_env \<Rightarrow> EventSource \<Rightarrow> 'a Poset \<Rightarrow> 'tx Event \<Rightarrow> 'tx Event option option" where
  "poset_Prepare env input p e = do {
     (r, _) \<leftarrow> Prepare env input p (EventHeaderData.truncate e);
     Some (map_option (\<lambda>h. EventHeaderData.extend h (EventHeaderData.more e)) r) }"

text \<open>The poset's \<open>Prepare\<close> is what the emitter relies on.\<close>

lemma poset_Prepare_ok:
  fixes E :: "('tx, 'c, 'b) emit_env"
  assumes E: "enginePrepare E = poset_Prepare env input p"
  shows "prepare_ok E"
proof -
  have "\<exists>frame root median prevHash cached. f = e\<lparr>eFrame := frame, eIsRoot := root, eMedianTime := median, ePrevEpochHash := prevHash, eHash := cached\<rparr>"
    if f: "poset_Prepare env input p e = Some (Some f)" for e f :: "'tx Event"
  proof -
    from f obtain h where h: "f = EventHeaderData.extend h (EventHeaderData.more e)" "\<exists>p'. Prepare env input p (EventHeaderData.truncate e) = Some (Some h, p')"
      by (auto simp: poset_Prepare_def split: bind_splits option.splits)
    then obtain fr rt md ph where "h = (EventHeaderData.truncate e)\<lparr>eFrame := fr, eIsRoot := rt, eMedianTime := md, ePrevEpochHash := ph\<rparr>"
      by (auto simp: Prepare_def Let_def split: if_splits bind_splits)
    then have "f = e\<lparr>eFrame := fr, eIsRoot := rt, eMedianTime := md, ePrevEpochHash := ph, eHash := eHash e\<rparr>"
      using h(1) by (cases e) (simp add: EventHeaderData.extend_def EventHeaderData.truncate_def)
    then show ?thesis by blast
  qed
  then show ?thesis using E by (simp add: prepare_ok_def)
qed

subsection \<open>Steps\<close>

text \<open>
  What connecting an own event does to the emitter: it is told of the event and, when the event ends the
  epoch, of the new one.
\<close>

definition on_emitted :: "hash_lib \<Rightarrow> em_world \<Rightarrow> time \<Rightarrow> (Validators \<times> Epoch) option \<Rightarrow> 'tx Event \<Rightarrow> 'c Emitter \<Rightarrow> 'c Emitter option" where
  "on_emitted hl w now newEpoch e em = do {
     h \<leftarrow> Hash hl e;
     let em = fst (OnNewEvent now h e em);
     (case newEpoch of None \<Rightarrow> Some em | Some (vals, epoch) \<Rightarrow> OnNewEpoch w now vals epoch em) }"

datatype em_label = Quiet | External | Emitted

definition external :: "hash_event \<Rightarrow> 'a EventHeaderData_scheme \<Rightarrow> 'c Emitter \<Rightarrow> bool" where
  "external h e em \<longleftrightarrow> myStakerID em \<noteq> 0 \<and> prevLocalEmittedID (syncStatus em) \<noteq> h \<and> eCreator e = myStakerID em"

inductive em_step :: "('tx, 'c, 'b) emit_env \<Rightarrow> time \<Rightarrow> 'c Emitter \<Rightarrow> em_label \<Rightarrow> 'c Emitter \<Rightarrow> bool" for E where
  tick: "em_step E now em Quiet (fst (em_tick w now em))"
| times: "em_step E now em Quiet (memorizeTxTimes E now txs em)"
| epoch: "OnNewEpoch w now vals ep em = Some em' \<Longrightarrow> em_step E now em Quiet em'"
| validator: "SetValidator w now addr em = Some em' \<Longrightarrow> em_step E now em Quiet em'"
| received: "OnNewEvent now h (e :: 'tx Event) em = (em', False) \<Longrightarrow> em_step E now em (if external h e em then External else Quiet) em'"
| refrained: "EmitEvent E C getEvent vc gs ctx addrs w now doneAt pending onEm em = Some (None, em') \<Longrightarrow> em_step E now em Quiet em'"
| emitted: "EmitEvent E C getEvent vc gs ctx addrs w now doneAt pending (on_emitted (emLib E) w now ne) em = Some (Some e, em') \<Longrightarrow> em_step E now em Emitted em'"

inductive em_run :: "('tx, 'c, 'b) emit_env \<Rightarrow> 'c Emitter \<Rightarrow> (time \<times> em_label) list \<Rightarrow> 'c Emitter \<Rightarrow> bool" for E em0 where
  start: "em_run E em0 [] em0"
| step: "em_run E em0 tr em \<Longrightarrow> em_step E now em l em' \<Longrightarrow> \<forall>x \<in> set tr. fst x \<le> now \<Longrightarrow> em_run E em0 (tr @ [(now, l)]) em'"

subsection \<open>What a step keeps\<close>

text \<open>The time of the last external event only moves to the present; the protection interval does not change.\<close>

definition guards :: "time \<Rightarrow> 'c Emitter \<Rightarrow> 'c Emitter \<Rightarrow> bool" where
  "guards now em em' \<longleftrightarrow> ivSelfFork (intervals em') = ivSelfFork (intervals em) \<and>
     (prevExternalEmittedTime (syncStatus em') = prevExternalEmittedTime (syncStatus em) \<or> prevExternalEmittedTime (syncStatus em') = now)"

lemma guards_refl [simp]: "guards now em em"
  by (simp add: guards_def)

lemma guards_trans: "guards now em em' \<Longrightarrow> guards now em' em'' \<Longrightarrow> guards now em em''"
  by (auto simp: guards_def)

lemma OnNewEpoch_guards: "OnNewEpoch w now vals ep em = Some em' \<Longrightarrow> guards now em em'"
  by (auto simp: OnNewEpoch_def guards_def Let_def split: if_splits bind_splits prod.splits)

lemma OnNewEvent_guards: "guards now em (fst (OnNewEvent now h e em))"
  by (simp add: OnNewEvent_def guards_def Let_def)

text \<open>Creating an event changes nothing of the emitter but the cache of times.\<close>

definition only_times :: "'c Emitter \<Rightarrow> 'c Emitter \<Rightarrow> bool" where
  "only_times em em' \<longleftrightarrow> (\<exists>c. em' = em\<lparr>txTime := c\<rparr>)"

lemma only_times_refl [simp]: "only_times em em"
  unfolding only_times_def by (intro exI [of _ "txTime em"]) simp

lemma only_times_trans: "only_times em em' \<Longrightarrow> only_times em' em'' \<Longrightarrow> only_times em em''"
  by (auto simp: only_times_def)

lemma addSenderTxs_times: "addSenderTxs E w now arr ws limit sender txs s = Some s' \<Longrightarrow> only_times (snd s) (snd s')"
proof (induction txs arbitrary: s)
  case Nil
  then show ?case by (cases s) simp
next
  case (Cons tx txs)
  obtain e em where s: "s = (e, em)" by fastforce
  show ?case
  proof (cases "s' = (e, em)")
    case False
    with Cons.prems s obtain b em1 where t: "isMyTxTurn E w (txHash E tx) sender (txNonce E tx) now arr ws (eCreator e) em = Some (b, em1)"
      and r: "if b then addSenderTxs E w now arr ws limit sender txs (putTx E tx e, em1) = Some s' else s' = (e, em1)"
      by (auto simp del: GasPowerLeft_Min_eq split: if_splits option.splits)
    have "only_times em em1" using isMyTxTurn_config [OF t] by (simp add: only_times_def)
    then show ?thesis using r s Cons.IH [of "(putTx E tx e, em1)"] only_times_trans by (auto split: if_splits)
  qed (simp add: s)
qed

lemma addPoolTxs_times: "addPoolTxs E w now arr ws limit pool s = Some s' \<Longrightarrow> only_times (snd s) (snd s')"
proof (induction pool arbitrary: s)
  case (Cons p pool)
  obtain sender txs where p: "p = (sender, txs)" by fastforce
  with Cons.prems obtain txs' s1 where s1: "addSenderTxs E w now arr ws limit sender txs' s = Some s1" "addPoolTxs E w now arr ws limit pool s1 = Some s'"
    by (auto simp: Let_def split: bind_splits)
  then show ?case using addSenderTxs_times Cons.IH only_times_trans by blast
qed simp

lemma addTxs_times: "addTxs E w now pool s = Some s' \<Longrightarrow> only_times (snd s) (snd s')"
  unfolding addTxs_def Let_def using addPoolTxs_times [of E w now _ _ _ pool s s'] by (auto split: if_splits)

lemma fillEvent_times:
  assumes "fillEvent E ctx w now pool sp em d = Some (r, em')"
  shows "only_times em em'"
proof (cases "em' = em")
  case False
  with assms obtain s s' where "addTxs E w now pool s = Some s'" "snd s = em" "snd s' = em'"
    by (auto simp: fillEvent_def Let_def simp del: GasPowerLeft_Min_eq split: bind_splits option.splits sum.splits if_splits)
  then show ?thesis using addTxs_times by blast
qed simp

lemma buildEvent_times:
  assumes "buildEvent E C getEvent vc ctx w now pool em = Some (r, em')"
  shows "only_times em em'" "r \<noteq> None \<Longrightarrow> fst (isSynced w now em)"
proof -
  show "only_times em em'"
  proof (cases "em' = em")
    case False
    with assms obtain sp d q where "fillEvent E ctx w now pool sp em d = Some (q, em')"
      by (auto simp: buildEvent_def Let_def split: bind_splits option.splits if_splits)
    then show ?thesis by (rule fillEvent_times)
  qed simp
  show "fst (isSynced w now em)" if "r \<noteq> None" using assms that by (auto simp: buildEvent_def split: if_splits)
qed

lemma createEvent_times:
  assumes "createEvent E C getEvent vc gs ctx addrs w now pool em = Some (r, em')"
  shows "only_times em em'" "r \<noteq> None \<Longrightarrow> fst (isSynced w now em)"
proof -
  from assms obtain b em1 where b: "buildEvent E C getEvent vc ctx w now pool em = Some (b, em1)" "em' = em1" "r \<noteq> None \<Longrightarrow> b \<noteq> None"
    by (auto simp: createEvent_def split: bind_splits option.splits if_splits)
  with buildEvent_times [OF b(1)] show "only_times em em'" "r \<noteq> None \<Longrightarrow> fst (isSynced w now em)" by auto
qed

lemma only_times_guards: "only_times em em' \<Longrightarrow> guards now em em'"
  by (auto simp: only_times_def guards_def)

lemma on_emitted_guards: "on_emitted hl w now ne e em = Some em' \<Longrightarrow> guards now em em'"
  using guards_trans [OF OnNewEvent_guards OnNewEpoch_guards] OnNewEvent_guards
  by (auto simp: on_emitted_def Let_def split: bind_splits option.splits) blast

lemma EmitEvent_guards:
  assumes "EmitEvent E C getEvent vc gs ctx addrs w now doneAt pending onEm em = Some (r, em')"
    and "\<And>e em em'. r \<noteq> None \<Longrightarrow> onEm e em = Some em' \<Longrightarrow> guards now em em'"
  shows "guards now em em'" "r \<noteq> None \<Longrightarrow> fst (isSynced w now em)"
proof -
  have "guards now em em' \<and> (r \<noteq> None \<longrightarrow> fst (isSynced w now em))"
  proof (cases "em' = em \<and> r = None")
    case False
    with assms(1) obtain pool where p: "pending = Some pool" "myStakerID em \<noteq> 0" by (auto simp: EmitEvent_def split: if_splits option.splits)
    with assms(1) obtain c em1 where c: "createEvent E C getEvent vc gs ctx addrs w now pool em = Some (c, em1)" by (auto simp: EmitEvent_def split: bind_splits)
    have r: "case c of None \<Rightarrow> r = None \<and> em' = em1 | Some e \<Rightarrow> r = Some e \<and> (\<exists>h em2. onEm e (em1\<lparr>syncStatus := (syncStatus em1)\<lparr>prevLocalEmittedID := h\<rparr>\<rparr>) = Some em2 \<and> em' = em2\<lparr>prevEmittedTime := doneAt\<rparr>)"
      using assms(1) p c by (cases c) (auto simp: EmitEvent_def Let_def split: bind_splits)
    have g: "guards now em em1" using createEvent_times(1) [OF c] by (rule only_times_guards)
    show ?thesis
    proof (cases c)
      case None
      then show ?thesis using r g by simp
    next
      case (Some e)
      then obtain h em2 where o: "r = Some e" "onEm e (em1\<lparr>syncStatus := (syncStatus em1)\<lparr>prevLocalEmittedID := h\<rparr>\<rparr>) = Some em2" "em' = em2\<lparr>prevEmittedTime := doneAt\<rparr>" using r by auto
      have "guards now (em1\<lparr>syncStatus := (syncStatus em1)\<lparr>prevLocalEmittedID := h\<rparr>\<rparr>) em2" using assms(2) o(1,2) by blast
      then have "guards now em1 em'" using o(3) by (simp add: guards_def)
      then show ?thesis using guards_trans [OF g] createEvent_times(2) [OF c] Some by simp
    qed
  qed simp
  then show "guards now em em'" "r \<noteq> None \<Longrightarrow> fst (isSynced w now em)" by auto
qed

subsection \<open>No double signing\<close>

lemma em_step_guards:
  assumes "em_step E now em l em'"
  shows "guards now em em'" "l = External \<Longrightarrow> prevExternalEmittedTime (syncStatus em') = now" "l = Emitted \<Longrightarrow> \<exists>w. fst (isSynced w now em)"
proof -
  have "guards now em em' \<and> (l = External \<longrightarrow> prevExternalEmittedTime (syncStatus em') = now) \<and> (l = Emitted \<longrightarrow> (\<exists>w. fst (isSynced w now em)))"
    using assms
  proof cases
    case (tick w)
    then show ?thesis by (simp add: em_tick_def guards_def Let_def)
  next
    case (times txs)
    then show ?thesis by (simp add: memorizeTxTimes_def guards_def)
  next
    case (epoch w vals ep)
    then show ?thesis using OnNewEpoch_guards by auto
  next
    case (validator w addr)
    then have "guards now (em\<lparr>myAddress := addr, syncStatus := (syncStatus em)\<lparr>connectedTime := now\<rparr>\<rparr>) em'"
      using OnNewEpoch_guards by (fastforce simp: SetValidator_def em_init_def)
    with validator show ?thesis by (simp add: guards_def)
  next
    case (received h e)
    then show ?thesis using OnNewEvent_guards [of now em h e] by (auto simp: OnNewEvent_def external_def Let_def split: if_splits)
  next
    case (refrained C getEvent vc gs ctx addrs w doneAt pending onEm)
    then show ?thesis using EmitEvent_guards(1) [OF refrained(2)] by simp
  next
    case (emitted C getEvent vc gs ctx addrs w doneAt pending ne e)
    have "guards now a b" if "on_emitted (emLib E) w now ne x a = Some b" for x a b using that by (rule on_emitted_guards)
    then show ?thesis using EmitEvent_guards [OF emitted(2)] emitted(1) by blast
  qed
  then show "guards now em em'" "l = External \<Longrightarrow> prevExternalEmittedTime (syncStatus em') = now" "l = Emitted \<Longrightarrow> \<exists>w. fst (isSynced w now em)" by auto
qed

lemma isSynced_since:
  assumes "fst (isSynced w now em)" "ivSelfFork (intervals em) \<noteq> 0" "ivSelfFork (intervals em) \<le> maxDuration" "minDuration < ivSelfFork (intervals em)"
  shows "now - prevExternalEmittedTime (syncStatus em) \<ge> ivSelfFork (intervals em)"
  using assms by (auto simp: isSynced_def Let_def time_Sub_def split: if_splits)

text \<open>In a run every emission is the protection interval after every external event before it.\<close>

lemma em_run_protected:
  assumes "em_run E em0 tr em" "ivSelfFork (intervals em0) \<noteq> 0" "ivSelfFork (intervals em0) \<le> maxDuration" "minDuration < ivSelfFork (intervals em0)"
  shows "ivSelfFork (intervals em) = ivSelfFork (intervals em0) \<and>
     (\<forall>t. (t, External) \<in> set tr \<longrightarrow> t \<le> prevExternalEmittedTime (syncStatus em)) \<and>
     (\<forall>j < length tr. \<forall>i < j. snd (tr ! i) = External \<and> snd (tr ! j) = Emitted \<longrightarrow> fst (tr ! j) \<ge> fst (tr ! i) + ivSelfFork (intervals em0))"
  using assms(1)
proof induction
  case start
  then show ?case by simp
next
  case (step tr em now l em')
  note g = em_step_guards [OF step.hyps(2)]
  have ext: "t \<le> prevExternalEmittedTime (syncStatus em')" if t: "(t, External) \<in> set (tr @ [(now, l)])" for t
  proof (cases "(t, External) \<in> set tr")
    case True
    then have "t \<le> prevExternalEmittedTime (syncStatus em)" "t \<le> now" using step.IH step.hyps(3) by auto
    with g(1) show ?thesis by (auto simp: guards_def)
  next
    case False
    then have "t = now" "l = External" using t by auto
    with g(2) show ?thesis by simp
  qed
  have last: "now \<ge> fst (tr ! i) + ivSelfFork (intervals em0)" if i: "i < length tr" "snd (tr ! i) = External" "l = Emitted" for i
  proof -
    from g(3) [OF i(3)] obtain w where "fst (isSynced w now em)" by blast
    then have "now - prevExternalEmittedTime (syncStatus em) \<ge> ivSelfFork (intervals em0)" using isSynced_since [of w now em] step.IH assms(2-4) by simp
    moreover have "(fst (tr ! i), External) \<in> set tr" using i(1,2) nth_mem [OF i(1)] by (metis prod.collapse)
    ultimately show ?thesis using step.IH by fastforce
  qed
  have pairs: "fst ((tr @ [(now, l)]) ! j) \<ge> fst ((tr @ [(now, l)]) ! i) + ivSelfFork (intervals em0)"
    if "j < Suc (length tr)" "i < j" "snd ((tr @ [(now, l)]) ! i) = External" "snd ((tr @ [(now, l)]) ! j) = Emitted" for i j
  proof (cases "j = length tr")
    case True
    with that last [of i] show ?thesis by (simp add: nth_append)
  next
    case False
    with that step.IH show ?thesis by (simp add: nth_append)
  qed
  have "ivSelfFork (intervals em') = ivSelfFork (intervals em0)" using g(1) step.IH by (simp add: guards_def)
  with ext pairs show ?case by auto
qed

text \<open>
  C23. Protection against double signing: in every run of the emitter's handlers, with a clock that does
  not go back, the node emits no event until the configured interval has passed since it last received
  an event of its own validator that it had not made itself, however the epochs, peers, events and
  transactions in between come.
\<close>

theorem no_emission_after_external:
  assumes "em_run E em0 (before @ [(t, External)] @ between @ [(t', Emitted)]) em"
    and "0 < ivSelfFork (intervals em0)" "ivSelfFork (intervals em0) \<le> maxDuration"
  shows "t' \<ge> t + ivSelfFork (intervals em0)"
proof -
  let ?tr = "before @ [(t, External)] @ between @ [(t', Emitted)]"
  let ?j = "length before + 1 + length between"
  have "ivSelfFork (intervals em0) \<noteq> 0" "minDuration < ivSelfFork (intervals em0)" using assms(2) by (auto simp: minDuration_def)
  from em_run_protected [OF assms(1) this(1) assms(3) this(2)]
  have all: "\<forall>j < length ?tr. \<forall>i < j. snd (?tr ! i) = External \<and> snd (?tr ! j) = Emitted \<longrightarrow> fst (?tr ! j) \<ge> fst (?tr ! i) + ivSelfFork (intervals em0)" by blast
  have "?tr ! length before = (t, External)" "?tr ! ?j = (t', Emitted)" by (simp_all add: nth_append)
  then show ?thesis using all [rule_format, of ?j "length before"] by simp
qed

subsection \<open>A run\<close>

definition waiting_emitter :: "(hash \<times> time) list Emitter" where
  "waiting_emitter = solo_emitter\<lparr>syncStatus := (syncStatus solo_emitter)\<lparr>prevExternalEmittedTime := 0\<rparr>\<rparr>"

lemma solo_received: "OnNewEvent 100000000000 [9] (full_event 1 [] 1 10 28000 []) waiting_emitter = (solo_emitter, False)"
    "external [9] (full_event 1 [] 1 10 28000 []) waiting_emitter"
  by (simp_all add: OnNewEvent_def external_def waiting_emitter_def solo_emitter_def NewEmitter_def DefaultEmitterConfig_def full_event_def empty_header_def
      EventHeaderData.extend_def time_Sub_def maxDuration_def minDuration_def Timestamp_Time_def time_Minute_def time_Second_def MaxTimestamp_def)

lemma solo_checked: "map_option (map_option (\<lambda>e. Validate_all sample_lib main_schedule plain_tx sample_crypto small_config solo_group 1 rich_context [1 \<mapsto> replicate 20 0] 1 e []))
    (sealEvent solo_env (replicate 20 0) (solo_event 49450 49950550 [21000])) = Some (Some (Some None))"
  by code_simp

lemma solo_emits: "\<exists>e em. EmitEvent solo_env steady (\<lambda>_. None) None main_schedule rich_context [1 \<mapsto> replicate 20 0] solo_world 3600000000000 3600000000001
    (Some [([7], [21000])]) (on_emitted (emLib solo_env) solo_world 3600000000000 None) solo_emitter = Some (Some e, em)"
proof -
  have w: "fst (isSynced solo_world 3600000000000 solo_emitter)" "findBestParents steady (\<lambda>_. None) None solo_world solo_emitter 1 1 = Some (Some (None, []))"
    by code_simp+
  have f: "myStakerID solo_emitter = 1" "engineEpoch solo_world = 1" "myAddress solo_emitter = replicate 20 0" "emDag solo_emitter = small_config"
      "engineValidators solo_world = solo_group" "emLib solo_env = sample_lib" "emTx solo_env = plain_tx" "emCrypto solo_env = sample_crypto"
    by (simp_all add: solo_emitter_def solo_world_def quiet_world_def NewEmitter_def DefaultEmitterConfig_def solo_env_def)
  from solo_checked obtain e where e: "sealEvent solo_env (replicate 20 0) (solo_event 49450 49950550 [21000]) = Some (Some e)"
      "Validate_all sample_lib main_schedule plain_tx sample_crypto small_config solo_group 1 rich_context [1 \<mapsto> replicate 20 0] 1 e [] = Some None"
    by (auto simp: map_option_case split: option.splits)
  from e(1) obtain h where "Hash sample_lib e = Some h" by (auto simp: sealEvent_def RecacheHash_def Hash_def Let_def split: bind_splits option.splits)
  then show ?thesis using w f e solo_filled by (auto simp: EmitEvent_def createEvent_def buildEvent_def on_emitted_def)
qed

theorem no_emission_after_external_witness:
  "\<exists>em. em_run solo_env waiting_emitter ([] @ [(100000000000, External)] @ [] @ [(3600000000000, Emitted)]) em \<and>
     0 < ivSelfFork (intervals waiting_emitter) \<and> ivSelfFork (intervals waiting_emitter) \<le> maxDuration \<and>
     3600000000000 \<ge> 100000000000 + ivSelfFork (intervals waiting_emitter)"
proof -
  obtain e em where em: "EmitEvent solo_env steady (\<lambda>_. None) None main_schedule rich_context [1 \<mapsto> replicate 20 0] solo_world 3600000000000 3600000000001
    (Some [([7], [21000])]) (on_emitted (emLib solo_env) solo_world 3600000000000 None) solo_emitter = Some (Some e, em)" using solo_emits by blast
  have "em_step solo_env 100000000000 waiting_emitter External solo_emitter"
    using em_step.received [of 100000000000 "[9]" "full_event 1 [] 1 10 28000 []" waiting_emitter solo_emitter solo_env] solo_received by simp
  from em_run.step [OF em_run.start this] have "em_run solo_env waiting_emitter [(100000000000, External)] solo_emitter" by simp
  from em_run.step [OF this em_step.emitted [OF em]] have r: "em_run solo_env waiting_emitter ([] @ [(100000000000, External)] @ [] @ [(3600000000000, Emitted)]) em" by simp
  have p: "0 < ivSelfFork (intervals waiting_emitter)" "ivSelfFork (intervals waiting_emitter) \<le> maxDuration"
    by (simp_all add: waiting_emitter_def solo_emitter_def NewEmitter_def DefaultEmitterConfig_def time_Minute_def time_Second_def maxDuration_def)
  from no_emission_after_external [OF r p] r p show ?thesis by blast
qed

end
