(* ===== verification/Tmp_Dbs.thy ===== *)
theory Tmp_Dbs
  imports Prelude Byte_Codec
begin

text \<open>
  \<open>gossip/temporary\<close>: the sequence of the epochs' databases, a ring of five. \<open>'p\<close> is a database with its
  tables; \<open>maker ver\<close> opens one. The abstract view is the first version kept and the list of the open ones.
\<close>

subsection \<open>\<open>ringbuf\<close>\<close>

record 'p ringbuf =
  rbMin :: u64
  rbOffset :: int
  rbCount :: int
  rbSeq :: "'p option list"

definition slots :: int where "slots = 5"

definition empty_ring :: "'p ringbuf" where
  "empty_ring = \<lparr>rbMin = 0, rbOffset = 0, rbCount = 0, rbSeq = replicate 5 None\<rparr>"

text \<open>An index in the array; Go's remainder of a negative number is not positive, and the array access panics.\<close>

definition slot :: "'p ringbuf \<Rightarrow> int \<Rightarrow> nat option" where
  "slot r i = (if i + rbOffset r < 0 \<and> (- (i + rbOffset r)) mod slots \<noteq> 0 then None else Some (nat ((i + rbOffset r) mod slots)))"

definition rb_Get :: "u64 \<Rightarrow> 'p ringbuf \<Rightarrow> 'p option option" where
  "rb_Get num r =
     (let i = sint (num - rbMin r) in
      if num < rbMin r \<or> i \<ge> rbCount r then Some None
      else do { k \<leftarrow> slot r i; slice_get (rbSeq r) k })"

definition rb_Set :: "u64 \<Rightarrow> 'p \<Rightarrow> 'p ringbuf \<Rightarrow> 'p ringbuf option" where
  "rb_Set num val r =
     (if rbCount r \<ge> slots then None
      else let r = (if rbCount r = 0 then r\<lparr>rbMin := num\<rparr> else r); i = sint (num - rbMin r) in
        if i \<noteq> rbCount r then None
        else do {
          k \<leftarrow> slot r i;
          seq \<leftarrow> slice_set (rbSeq r) k (Some val);
          Some (r\<lparr>rbSeq := seq, rbCount := rbCount r + 1\<rparr>) })"

definition rb_Del :: "u64 \<Rightarrow> 'p ringbuf \<Rightarrow> 'p ringbuf option" where
  "rb_Del num r =
     (if num \<noteq> rbMin r then None
      else Some (r\<lparr>rbMin := rbMin r + 1, rbOffset := (rbOffset r + 1) mod slots, rbCount := rbCount r - 1\<rparr>))"

subsection \<open>\<open>Dbs\<close>\<close>

text \<open>\<open>dbSaved\<close> is the stored minimum, \<open>dbDropped\<close> the databases that have been closed and dropped.\<close>

record 'p Dbs =
  dbSeq :: "'p ringbuf"
  dbSaved :: "u64 option"
  dbDropped :: "'p list"

definition NewDbs :: "u64 option \<Rightarrow> 'p Dbs" where
  "NewDbs saved = \<lparr>dbSeq = (case saved of None \<Rightarrow> empty_ring | Some m \<Rightarrow> empty_ring\<lparr>rbMin := m\<rparr>), dbSaved = saved, dbDropped = []\<rparr>"

definition Dbs_Get :: "(u64 \<Rightarrow> 'p) \<Rightarrow> u64 \<Rightarrow> 'p Dbs \<Rightarrow> ('p option \<times> 'p Dbs) option" where
  "Dbs_Get maker ver t =
     (if ver < rbMin (dbSeq t) then Some (None, t)
      else do {
        tmp \<leftarrow> rb_Get ver (dbSeq t);
        case tmp of
          Some p \<Rightarrow> Some (Some p, t)
        | None \<Rightarrow> do {
            let p = maker ver;
            seq \<leftarrow> rb_Set ver p (dbSeq t);
            Some (Some p, t\<lparr>dbSeq := seq\<rparr>) } })"

text \<open>The loop from the minimum to \<open>ver\<close>, \<open>n\<close> versions; the largest number is no version, so that the loop ends.\<close>

fun delLoop :: "nat \<Rightarrow> u64 \<Rightarrow> 'p Dbs \<Rightarrow> 'p Dbs option" where
  "delLoop 0 i t = Some t"
| "delLoop (Suc n) i t = do {
     tmp \<leftarrow> rb_Get i (dbSeq t);
     let t = (case tmp of None \<Rightarrow> t | Some p \<Rightarrow> t\<lparr>dbDropped := dbDropped t @ [p]\<rparr>);
     seq \<leftarrow> rb_Del i (dbSeq t);
     delLoop n (i + 1) (t\<lparr>dbSeq := seq\<rparr>) }"

definition Dbs_Del :: "u64 \<Rightarrow> 'p Dbs \<Rightarrow> 'p Dbs option" where
  "Dbs_Del ver t =
     (if ver < rbMin (dbSeq t) then Some t
      else do {
        t \<leftarrow> delLoop (unat ver - unat (rbMin (dbSeq t)) + 1) (rbMin (dbSeq t)) t;
        Some (t\<lparr>dbSaved := Some (rbMin (dbSeq t))\<rparr>) })"

subsection \<open>The abstract sequence\<close>

type_synonym 'p vers = "nat \<times> 'p list"

definition get_spec :: "(u64 \<Rightarrow> 'p) \<Rightarrow> nat \<Rightarrow> 'p vers \<Rightarrow> ('p option \<times> 'p vers) option" where
  "get_spec maker ver s = (case s of (m, ps) \<Rightarrow>
     if ver < m then Some (None, s)
     else if ver < m + length ps then Some (Some (ps ! (ver - m)), s)
     else if ps = [] then Some (Some (maker (of_nat ver)), (ver, [maker (of_nat ver)]))
     else if ver = m + length ps \<and> length ps < 5 then Some (Some (maker (of_nat ver)), (m, ps @ [maker (of_nat ver)]))
     else None)"

definition del_spec :: "nat \<Rightarrow> 'p vers \<Rightarrow> 'p vers" where
  "del_spec ver s = (case s of (m, ps) \<Rightarrow> if ver < m then s else (ver + 1, drop (ver + 1 - m) ps))"

text \<open>The open versions stay below \<open>2^62\<close>: they are 32-bit epochs.\<close>

definition ring_inv :: "'p ringbuf \<Rightarrow> bool" where
  "ring_inv r \<longleftrightarrow> length (rbSeq r) = 5 \<and> 0 \<le> rbOffset r \<and> rbOffset r < 5 \<and> 0 \<le> rbCount r \<and> rbCount r \<le> 5 \<and> unat (rbMin r) < 2 ^ 62 \<and>
     (\<forall>j < nat (rbCount r). rbSeq r ! nat ((int j + rbOffset r) mod 5) \<noteq> None)"

definition vers_of :: "'p ringbuf \<Rightarrow> 'p vers" where
  "vers_of r = (unat (rbMin r), map (\<lambda>j. the (rbSeq r ! nat ((int j + rbOffset r) mod 5))) [0..<nat (rbCount r)])"

lemma diff_index:
  fixes num m :: u64
  assumes "m \<le> num" "unat num < 2 ^ 62"
  shows "sint (num - m) = int (unat num - unat m)"
proof -
  have u: "unat (num - m) = unat num - unat m" using assms(1) by (simp add: unat_sub)
  then have "int (unat (num - m)) < int (2 ^ 62)" using assms(2) by (simp only: of_nat_less_iff)
  then have "signed_take_bit 63 (uint (num - m)) = uint (num - m)" by (intro signed_take_bit_int_eq_self) (auto intro: order_trans [of _ 0])
  then have "sint (num - m) = int (unat (num - m))" by (simp add: sint_uint)
  then show ?thesis by (simp only: u)
qed

lemma slot_nonneg: "0 \<le> i \<Longrightarrow> 0 \<le> rbOffset r \<Longrightarrow> slot r i = Some (nat ((i + rbOffset r) mod 5))"
  by (simp add: slot_def slots_def)

lemma rb_Get_spec:
  assumes r: "ring_inv r" and n: "unat num < 2 ^ 62" "rbMin r \<le> num"
  shows "rb_Get num r = Some (if unat num < fst (vers_of r) + length (snd (vers_of r)) then Some (snd (vers_of r) ! (unat num - fst (vers_of r))) else None)"
proof (cases "int (unat num - unat (rbMin r)) \<ge> rbCount r")
  case True
  then have "\<not> unat num < unat (rbMin r) + nat (rbCount r)" using n(2) by (simp add: word_le_nat_alt del: of_nat_unat of_nat_diff)
  then show ?thesis using True by (simp add: rb_Get_def diff_index [OF n(2,1)] vers_of_def)
next
  case False
  let ?j = "unat num - unat (rbMin r)"
  have j: "?j < nat (rbCount r)" "unat num < unat (rbMin r) + nat (rbCount r)" using False n(2) by (simp_all add: word_le_nat_alt del: of_nat_unat of_nat_diff)
  have k: "nat ((int ?j + rbOffset r) mod 5) < 5" by (simp add: nat_less_iff)
  have "rbSeq r ! nat ((int ?j + rbOffset r) mod 5) \<noteq> None" using r j(1) unfolding ring_inv_def by blast
  moreover have "(num < rbMin r) = False" using n(2) by (simp add: not_less)
  ultimately show ?thesis using False j k r unfolding rb_Get_def
    by (simp add: diff_index [OF n(2,1)] slot_nonneg ring_inv_def vers_of_def slice_get_def leD)
qed

lemma ring_step_other:
  fixes j c f :: int
  assumes "0 \<le> j" "j < c" "c < 5"
  shows "nat ((j + f) mod 5) \<noteq> nat ((c + f) mod 5)"
proof
  assume "nat ((j + f) mod 5) = nat ((c + f) mod 5)"
  then have "(j + f) mod 5 = (c + f) mod 5" by (simp add: eq_nat_nat_iff)
  then have "(c - j) mod 5 = 0" by (metis add_diff_cancel_right diff_self mod_0 mod_diff_cong)
  with assms show False by simp
qed

lemma rb_Set_spec:
  assumes r: "ring_inv r" and n: "unat num < 2 ^ 62" and ok: "rbCount r = 0 \<or> unat num = unat (rbMin r) + nat (rbCount r) \<and> rbCount r < 5"
  shows "\<exists>r'. rb_Set num val r = Some r' \<and> ring_inv r' \<and>
    vers_of r' = (if rbCount r = 0 then (unat num, [val]) else (fst (vers_of r), snd (vers_of r) @ [val]))"
proof -
  define r1 where "r1 = (if rbCount r = 0 then r\<lparr>rbMin := num\<rparr> else r)"
  define c where "c = rbCount r"
  have r1: "ring_inv r1" "rbCount r1 = c" "c < 5" "0 \<le> c" using r n ok by (auto simp: r1_def c_def ring_inv_def)
  have m: "rbMin r1 \<le> num" "unat num - unat (rbMin r1) = nat c" using ok by (auto simp: r1_def c_def word_le_nat_alt)
  then have i: "sint (num - rbMin r1) = c" using diff_index [OF m(1) n] r1(4) by simp
  define k where "k = nat ((c + rbOffset r1) mod 5)"
  have k: "k < 5" "slot r1 c = Some k" using r1 by (auto simp: k_def nat_less_iff slot_nonneg ring_inv_def)
  let ?r' = "r1\<lparr>rbSeq := (rbSeq r1)[k := Some val], rbCount := c + 1\<rparr>"
  have s: "rb_Set num val r = Some ?r'" using r1 i k by (simp add: rb_Set_def slots_def Let_def ring_inv_def slice_set_def c_def flip: r1_def)
  have old: "(rbSeq r1)[k := Some val] ! nat ((int j + rbOffset r1) mod 5) = rbSeq r1 ! nat ((int j + rbOffset r1) mod 5)" if "j < nat c" for j
  proof -
    have "int j < c" using that r1(4) by simp
    then show ?thesis using ring_step_other [of "int j" c "rbOffset r1"] r1(3) unfolding k_def by simp
  qed
  have new: "(rbSeq r1)[k := Some val] ! nat ((c + rbOffset r1) mod 5) = Some val" using k r1(1) unfolding k_def by (simp add: ring_inv_def)
  have "ring_inv ?r'"
  proof -
    have "rbSeq ?r' ! nat ((int j + rbOffset ?r') mod 5) \<noteq> None" if "j < nat (rbCount ?r')" for j
    proof (cases "j < nat c")
      case True
      then show ?thesis using old [OF True] r1(1,2) by (simp add: ring_inv_def)
    next
      case False
      then have "int j = c" using that r1(4) by simp
      then show ?thesis using new by simp
    qed
    then show ?thesis using r1 by (simp add: ring_inv_def)
  qed
  moreover have "vers_of ?r' = (unat (rbMin r1), snd (vers_of r1) @ [val])"
  proof -
    have "[0..<nat (c + 1)] = [0..<nat c] @ [nat c]" using r1(4) by (simp add: nat_add_distrib)
    then show ?thesis using old new r1(2,4) by (auto simp: vers_of_def)
  qed
  moreover have "snd (vers_of r1) = (if c = 0 then [] else snd (vers_of r))" "unat (rbMin r1) = (if c = 0 then unat num else unat (rbMin r))"
    by (auto simp: r1_def c_def vers_of_def)
  ultimately show ?thesis using s by (auto simp: c_def vers_of_def)
qed

lemma rb_Set_panics:
  assumes r: "ring_inv r" and n: "unat num < 2 ^ 62" "rbMin r \<le> num" and bad: "rbCount r \<noteq> 0" "\<not> (unat num = unat (rbMin r) + nat (rbCount r) \<and> rbCount r < 5)"
  shows "rb_Set num val r = None"
proof (cases "rbCount r \<ge> 5")
  case False
  then have "int (unat num - unat (rbMin r)) \<noteq> rbCount r" using bad n(2) by (simp add: word_le_nat_alt del: of_nat_unat of_nat_diff)
  then show ?thesis using bad(1) by (simp add: rb_Set_def Let_def diff_index [OF n(2,1)])
qed (simp add: rb_Set_def slots_def)

subsection \<open>Refinement\<close>

lemma Dbs_Get_refines:
  assumes t: "ring_inv (dbSeq t)" and n: "unat ver < 2 ^ 62"
  shows "map_option (\<lambda>(p, t'). (p, vers_of (dbSeq t'))) (Dbs_Get maker ver t) = get_spec maker (unat ver) (vers_of (dbSeq t))"
    and "Dbs_Get maker ver t = Some (p, t') \<Longrightarrow> ring_inv (dbSeq t')"
proof -
  let ?r = "dbSeq t" let ?m = "unat (rbMin ?r)"
  obtain ps where v: "vers_of ?r = (?m, ps)" "length ps = nat (rbCount ?r)" by (simp add: vers_of_def)
  have "map_option (\<lambda>(p, t'). (p, vers_of (dbSeq t'))) (Dbs_Get maker ver t) = get_spec maker (unat ver) (vers_of ?r) \<and>
      (\<forall>p t'. Dbs_Get maker ver t = Some (p, t') \<longrightarrow> ring_inv (dbSeq t'))"
  proof (cases "rbMin ?r \<le> ver")
    case False
    then show ?thesis using t v by (auto simp: Dbs_Get_def get_spec_def word_less_nat_alt word_le_nat_alt)
  next
    case le: True
    note g = rb_Get_spec [OF t n le, unfolded v(1) fst_conv snd_conv]
    have lt: "\<not> ver < rbMin ?r" "\<not> unat ver < ?m" using le by (auto simp: word_le_nat_alt word_less_nat_alt)
    consider "unat ver < ?m + length ps" | "\<not> unat ver < ?m + length ps" "rbCount ?r = 0 \<or> unat ver = ?m + nat (rbCount ?r) \<and> rbCount ?r < 5"
      | "\<not> unat ver < ?m + length ps" "rbCount ?r \<noteq> 0" "\<not> (unat ver = ?m + nat (rbCount ?r) \<and> rbCount ?r < 5)" by blast
    then show ?thesis
    proof cases
      case 1
      then show ?thesis using t g lt v by (simp add: Dbs_Get_def get_spec_def)
    next
      case 2
      from rb_Set_spec [OF t n 2(2), of "maker ver"] obtain r' where r': "rb_Set ver (maker ver) ?r = Some r'" "ring_inv r'"
          "vers_of r' = (if rbCount ?r = 0 then (unat ver, [maker ver]) else (?m, ps @ [maker ver]))" unfolding v(1) fst_conv snd_conv by blast
      have e: "rbCount ?r = 0 \<longleftrightarrow> ps = []" using v(2) t by (auto simp: ring_inv_def)
      have "get_spec maker (unat ver) (?m, ps) = Some (Some (maker ver), vers_of r')"
      proof (cases "ps = []")
        case True
        then show ?thesis using 2(1) lt(2) r'(3) e by (simp add: get_spec_def)
      next
        case False
        then have k: "unat ver = ?m + length ps" "length ps < 5" using 2(2) e v(2) by auto
        have "maker (of_nat (?m + length ps)) = maker ver" unfolding k(1) [symmetric] by simp
        then show ?thesis using False k r'(3) e by (simp add: get_spec_def del: of_nat_add)
      qed
      moreover have "Dbs_Get maker ver t = Some (Some (maker ver), t\<lparr>dbSeq := r'\<rparr>)" using 2(1) g lt(1) r'(1) by (simp add: Dbs_Get_def)
      ultimately show ?thesis using r'(2) v(1) by simp
    next
      case 3
      then have "ps \<noteq> []" using v(2) t by (auto simp: ring_inv_def)
      moreover have "\<not> (unat ver = ?m + length ps \<and> length ps < 5)" using 3 v(2) by auto
      ultimately show ?thesis using 3 rb_Set_panics [OF t n le 3(2,3), of "maker ver"] g lt v by (simp add: Dbs_Get_def get_spec_def Let_def)
    qed
  qed
  then show "map_option (\<lambda>(p, t'). (p, vers_of (dbSeq t'))) (Dbs_Get maker ver t) = get_spec maker (unat ver) (vers_of (dbSeq t))"
    and "Dbs_Get maker ver t = Some (p, t') \<Longrightarrow> ring_inv (dbSeq t')" by blast+
qed

lemma rb_Del_spec:
  assumes r: "ring_inv r" and c: "0 < rbCount r" and m: "unat (rbMin r) + 1 < 2 ^ 62"
  shows "\<exists>r'. rb_Del (rbMin r) r = Some r' \<and> ring_inv r' \<and> vers_of r' = (unat (rbMin r) + 1, tl (snd (vers_of r))) \<and> rbMin r' = rbMin r + 1 \<and> rbCount r' = rbCount r - 1"
proof -
  let ?r' = "r\<lparr>rbMin := rbMin r + 1, rbOffset := (rbOffset r + 1) mod slots, rbCount := rbCount r - 1\<rparr>"
  have u: "unat (rbMin r + 1) = unat (rbMin r) + 1" using m by (simp add: unat_word_ariths)
  have sh: "(int j + (rbOffset r + 1) mod 5) mod 5 = (int (Suc j) + rbOffset r) mod 5" for j
    by (simp add: mod_simps algebra_simps)
  have "rbSeq r ! nat ((int (Suc j) + rbOffset r) mod 5) \<noteq> None" if "j < nat (rbCount r - 1)" for j
    using r that unfolding ring_inv_def by (metis Suc_less_eq Suc_nat_eq_nat_zadd1 c diff_add_cancel int_one_le_iff_zero_less zle_diff1_eq add.commute linorder_not_le nat_le_0 not_less_zero less_nat_zero_code le_diff_eq)
  then have "ring_inv ?r'" using r c u m by (simp add: ring_inv_def slots_def sh)
  moreover have "vers_of ?r' = (unat (rbMin r) + 1, tl (snd (vers_of r)))"
  proof -
    have "[0..<nat (rbCount r)] = 0 # map Suc [0..<nat (rbCount r - 1)]"
      using c by (simp add: map_Suc_upt upt_conv_Cons nat_diff_distrib)
    then show ?thesis by (simp add: vers_of_def u slots_def sh)
  qed
  ultimately show ?thesis by (simp add: rb_Del_def)
qed

lemma delLoop_spec:
  assumes "ring_inv (dbSeq t)" "n \<le> nat (rbCount (dbSeq t))" "unat (rbMin (dbSeq t)) + n < 2 ^ 62"
  shows "\<exists>t'. delLoop n (rbMin (dbSeq t)) t = Some t' \<and> ring_inv (dbSeq t') \<and>
     vers_of (dbSeq t') = (unat (rbMin (dbSeq t)) + n, drop n (snd (vers_of (dbSeq t)))) \<and> dbDropped t' = dbDropped t @ take n (snd (vers_of (dbSeq t)))"
  using assms
proof (induction n arbitrary: t)
  case 0
  then show ?case by (simp add: vers_of_def)
next
  case (Suc n)
  let ?r = "dbSeq t"
  obtain p ps where v: "vers_of ?r = (unat (rbMin ?r), p # ps)" "length (p # ps) = nat (rbCount ?r)"
  proof -
    have "fst (vers_of ?r) = unat (rbMin ?r)" "length (snd (vers_of ?r)) = nat (rbCount ?r)" by (simp_all add: vers_of_def)
    then show ?thesis using Suc.prems(2) that by (cases "vers_of ?r"; cases "snd (vers_of ?r)") auto
  qed
  have m: "unat (rbMin ?r) < 2 ^ 62" using Suc.prems(3) by simp
  have g: "rb_Get (rbMin ?r) ?r = Some (Some p)" using rb_Get_spec [OF Suc.prems(1) m order_refl] v by simp
  have c: "0 < rbCount ?r" "unat (rbMin ?r) + 1 < 2 ^ 62" using Suc.prems(2,3) by simp_all
  obtain r' where r': "rb_Del (rbMin ?r) ?r = Some r'" "ring_inv r'" "vers_of r' = (unat (rbMin ?r) + 1, ps)" "rbMin r' = rbMin ?r + 1" "rbCount r' = rbCount ?r - 1"
    using rb_Del_spec [OF Suc.prems(1) c] v by auto
  let ?t = "t\<lparr>dbDropped := dbDropped t @ [p], dbSeq := r'\<rparr>"
  have u: "unat (rbMin r') = unat (rbMin ?r) + 1" using r'(3) by (simp add: vers_of_def)
  have "ring_inv (dbSeq ?t)" "n \<le> nat (rbCount (dbSeq ?t))" "unat (rbMin (dbSeq ?t)) + n < 2 ^ 62" using r' Suc.prems(2,3) u by simp_all
  from Suc.IH [OF this] obtain t' where t': "delLoop n (rbMin r') ?t = Some t'" "ring_inv (dbSeq t')" "vers_of (dbSeq t') = (unat (rbMin r') + n, drop n ps)"
      "dbDropped t' = dbDropped t @ [p] @ take n ps" using r'(3) by auto
  then show ?case using g r' v u by simp
qed

lemma Dbs_Del_refines:
  assumes t: "ring_inv (dbSeq t)" and n: "unat ver + 1 < 2 ^ 62" and o: "unat ver < unat (rbMin (dbSeq t)) + nat (rbCount (dbSeq t))"
  shows "\<exists>t'. Dbs_Del ver t = Some t' \<and> ring_inv (dbSeq t') \<and> vers_of (dbSeq t') = del_spec (unat ver) (vers_of (dbSeq t)) \<and>
     dbDropped t' = dbDropped t @ take (unat ver + 1 - fst (vers_of (dbSeq t))) (snd (vers_of (dbSeq t)))"
proof (cases "ver < rbMin (dbSeq t)")
  case True
  then show ?thesis using t by (auto simp: Dbs_Del_def del_spec_def vers_of_def word_less_nat_alt)
next
  case False
  let ?m = "unat (rbMin (dbSeq t))" let ?n = "unat ver - ?m + 1"
  have le: "?m \<le> unat ver" using False by (simp add: not_less word_le_nat_alt)
  have "?n \<le> nat (rbCount (dbSeq t))" "?m + ?n < 2 ^ 62" using le o n by simp_all
  from delLoop_spec [OF t this] obtain t' where t': "delLoop ?n (rbMin (dbSeq t)) t = Some t'" "ring_inv (dbSeq t')"
      "vers_of (dbSeq t') = (?m + ?n, drop ?n (snd (vers_of (dbSeq t))))" "dbDropped t' = dbDropped t @ take ?n (snd (vers_of (dbSeq t)))" by blast
  have f: "fst (vers_of (dbSeq t)) = ?m" by (simp add: vers_of_def)
  have e: "unat ver + 1 - ?m = ?n" "?m + ?n = unat ver + 1" using le by simp_all
  have "vers_of (dbSeq t') = del_spec (unat ver) (vers_of (dbSeq t))"
  proof -
    obtain ps where ps: "vers_of (dbSeq t) = (?m, ps)" using f by (cases "vers_of (dbSeq t)") simp
    have "(unat ver < ?m) = False" using le by simp
    then show ?thesis using t'(3) e by (simp only: ps del_spec_def prod.case snd_conv if_False)
  qed
  then show ?thesis using False t'(1,2,4) f e by (simp add: Dbs_Del_def)
qed

text \<open>A run of the sequence: versions are got, and deleted once they are open.\<close>

datatype dbs_op = OpGet u64 | OpDel u64

fun dbs_op_ok :: "dbs_op \<Rightarrow> 'p vers \<Rightarrow> bool" where
  "dbs_op_ok (OpGet ver) s \<longleftrightarrow> unat ver < 2 ^ 61"
| "dbs_op_ok (OpDel ver) s \<longleftrightarrow> unat ver < 2 ^ 61 \<and> unat ver < fst s + length (snd s)"

fun dbs_step :: "(u64 \<Rightarrow> 'p) \<Rightarrow> dbs_op \<Rightarrow> 'p Dbs \<Rightarrow> ('p option \<times> 'p Dbs) option" where
  "dbs_step maker (OpGet ver) t = Dbs_Get maker ver t"
| "dbs_step maker (OpDel ver) t = map_option (\<lambda>t. (None, t)) (Dbs_Del ver t)"

fun vers_step :: "(u64 \<Rightarrow> 'p) \<Rightarrow> dbs_op \<Rightarrow> 'p vers \<Rightarrow> ('p option \<times> 'p vers) option" where
  "vers_step maker (OpGet ver) s = get_spec maker (unat ver) s"
| "vers_step maker (OpDel ver) s = Some (None, del_spec (unat ver) s)"

fun dbs_run :: "(u64 \<Rightarrow> 'p) \<Rightarrow> dbs_op list \<Rightarrow> 'p Dbs \<Rightarrow> ('p option list \<times> 'p Dbs) option" where
  "dbs_run maker [] t = Some ([], t)"
| "dbs_run maker (x # xs) t = do { (p, t) \<leftarrow> dbs_step maker x t; (ps, t) \<leftarrow> dbs_run maker xs t; Some (p # ps, t) }"

fun vers_run :: "(u64 \<Rightarrow> 'p) \<Rightarrow> dbs_op list \<Rightarrow> 'p vers \<Rightarrow> ('p option list \<times> 'p vers) option" where
  "vers_run maker [] s = Some ([], s)"
| "vers_run maker (x # xs) s = (if \<not> dbs_op_ok x s then None else do { (p, s) \<leftarrow> vers_step maker x s; (ps, s) \<leftarrow> vers_run maker xs s; Some (p # ps, s) })"

lemma dbs_step_refines:
  assumes t: "ring_inv (dbSeq t)" and ok: "dbs_op_ok x (vers_of (dbSeq t))" and s: "vers_step maker x (vers_of (dbSeq t)) = Some (p, s)"
  shows "\<exists>t'. dbs_step maker x t = Some (p, t') \<and> vers_of (dbSeq t') = s \<and> ring_inv (dbSeq t')"
proof (cases x)
  case (OpGet ver)
  then have n: "unat ver < 2 ^ 62" using ok by simp
  from Dbs_Get_refines(1) [OF t n, of maker] s OpGet obtain t' where "Dbs_Get maker ver t = Some (p, t')" "vers_of (dbSeq t') = s" by auto
  with Dbs_Get_refines(2) [OF t n] OpGet show ?thesis by auto
next
  case (OpDel ver)
  then have "unat ver + 1 < 2 ^ 62" "unat ver < unat (rbMin (dbSeq t)) + nat (rbCount (dbSeq t))" using ok by (simp_all add: vers_of_def)
  from Dbs_Del_refines [OF t this] s OpDel show ?thesis by auto
qed

text \<open>
  C33. The sequence of the epochs' databases is what it should be: whenever a sequence of gets and of
  deletions of open versions makes sense for a list of at most five consecutive versions, the ring
  buffer returns the same databases, panics nowhere, and ends with the same versions open.
\<close>

theorem Dbs_refines:
  fixes maker :: "u64 \<Rightarrow> 'p"
  assumes "vers_run maker ops (case saved of None \<Rightarrow> 0 | Some m \<Rightarrow> unat m, []) = Some (ps, s)" and "\<forall>m. saved = Some m \<longrightarrow> unat m < 2 ^ 62"
  shows "\<exists>t. dbs_run maker ops (NewDbs saved) = Some (ps, t) \<and> vers_of (dbSeq t) = s"
proof -
  have run: "\<exists>t'. dbs_run maker ops t = Some (ps, t') \<and> vers_of (dbSeq t') = s" if "ring_inv (dbSeq t)" "vers_run maker ops (vers_of (dbSeq t)) = Some (ps, s)" for t
    using that
  proof (induction ops arbitrary: t ps)
    case (Cons x ops)
    from Cons.prems(2) obtain p s1 qs where s1: "dbs_op_ok x (vers_of (dbSeq t))" "vers_step maker x (vers_of (dbSeq t)) = Some (p, s1)" "vers_run maker ops s1 = Some (qs, s)" "ps = p # qs"
      by (auto split: if_splits bind_splits)
    from dbs_step_refines [OF Cons.prems(1) s1(1,2)] obtain t1 where t1: "dbs_step maker x t = Some (p, t1)" "vers_of (dbSeq t1) = s1" "ring_inv (dbSeq t1)" by blast
    from Cons.IH [OF t1(3)] s1(3) t1(2) obtain t' where "dbs_run maker ops t1 = Some (qs, t')" "vers_of (dbSeq t') = s" by blast
    with t1(1) s1(4) show ?case by auto
  qed simp
  have "ring_inv (dbSeq (NewDbs saved :: 'p Dbs))" "vers_of (dbSeq (NewDbs saved :: 'p Dbs)) = (case saved of None \<Rightarrow> 0 | Some m \<Rightarrow> unat m, [])"
    using assms(2) by (auto simp: NewDbs_def empty_ring_def ring_inv_def vers_of_def split: option.split)
  with run [of "NewDbs saved"] assms(1) show ?thesis by (simp only:)
qed

theorem Dbs_refines_witness:
  "\<exists>t. dbs_run (\<lambda>v. unat v) [OpGet 4, OpGet 5, OpDel 4, OpGet 5, OpGet 4] (NewDbs (Some 4)) = Some ([Some 4, Some 5, None, Some 5, None], t) \<and>
     vers_of (dbSeq t) = (5, [5])"
proof -
  have "vers_run (\<lambda>v. unat v) [OpGet 4, OpGet 5, OpDel 4, OpGet 5, OpGet 4] (case Some (4 :: u64) of None \<Rightarrow> 0 | Some m \<Rightarrow> unat m, []) =
      Some ([Some 4, Some 5, None, Some 5, None], (5, [5]))" by (simp add: get_spec_def del_spec_def)
  then show ?thesis by (rule Dbs_refines) simp
qed

text \<open>A deletion of a version that is not open leaves a negative count: every later get of a version above the minimum panics.\<close>

theorem Del_unopened_breaks:
  "\<exists>t. Dbs_Del 4 (NewDbs (Some 4) :: 'p Dbs) = Some t \<and> rbCount (dbSeq t) = - 1 \<and> Dbs_Get maker 5 t = None"
  by (simp add: Dbs_Del_def NewDbs_def empty_ring_def rb_Get_def rb_Del_def Dbs_Get_def rb_Set_def slots_def Let_def)

end
