(* ===== verification/Gossip_Store.thy ===== *)
theory Gossip_Store
  imports Occured_Txs Event_Checks Tmp_Dbs
begin

text \<open>
  The gossip store (\<open>gossip/store*.go\<close>). Values are kept in tables of a key-value database, most of them
  behind an LRU cache that every write goes through; a key made of fixed-length parts is the tuple of
  them. The tables of an epoch live in the epoch's own database, of which the store keeps a few at a time
  (\<^theory_text>\<open>Tmp_Dbs\<close>).
\<close>

subsection \<open>A table behind a cache\<close>

record ('k, 'v) ctable =
  ctTab :: "'k \<rightharpoonup> 'v"
  ctLru :: "'k \<rightharpoonup> 'v"

text \<open>\<open>evict\<close> is what an LRU keeps after an addition.\<close>

definition ct_get :: "(('k \<rightharpoonup> 'v) \<Rightarrow> ('k \<rightharpoonup> 'v)) \<Rightarrow> 'k \<Rightarrow> ('k, 'v) ctable \<Rightarrow> 'v option \<times> ('k, 'v) ctable" where
  "ct_get evict k t = (case ctLru t k of
     Some v \<Rightarrow> (Some v, t)
   | None \<Rightarrow> (case ctTab t k of
       None \<Rightarrow> (None, t)
     | Some v \<Rightarrow> (Some v, t\<lparr>ctLru := evict ((ctLru t)(k \<mapsto> v))\<rparr>)))"

definition ct_set :: "(('k \<rightharpoonup> 'v) \<Rightarrow> ('k \<rightharpoonup> 'v)) \<Rightarrow> 'k \<Rightarrow> 'v \<Rightarrow> ('k, 'v) ctable \<Rightarrow> ('k, 'v) ctable" where
  "ct_set evict k v t = t\<lparr>ctTab := (ctTab t)(k \<mapsto> v), ctLru := evict ((ctLru t)(k \<mapsto> v))\<rparr>"

definition ct_del :: "'k \<Rightarrow> ('k, 'v) ctable \<Rightarrow> ('k, 'v) ctable" where
  "ct_del k t = t\<lparr>ctTab := (ctTab t)(k := None), ctLru := (ctLru t)(k := None)\<rparr>"

definition evicts :: "(('k \<rightharpoonup> 'v) \<Rightarrow> ('k \<rightharpoonup> 'v)) \<Rightarrow> bool" where
  "evicts evict \<longleftrightarrow> (\<forall>m. evict m \<subseteq>\<^sub>m m)"

definition coherent :: "('k, 'v) ctable \<Rightarrow> bool" where
  "coherent t \<longleftrightarrow> ctLru t \<subseteq>\<^sub>m ctTab t"

text \<open>The contract of a map, which a coherent cached table keeps.\<close>

locale map_table =
  fixes look :: "'k \<Rightarrow> 't \<Rightarrow> 'v option \<times> 't" and store :: "'k \<Rightarrow> 'v \<Rightarrow> 't \<Rightarrow> 't" and erase :: "'k \<Rightarrow> 't \<Rightarrow> 't"
    and good :: "'t \<Rightarrow> bool" and content :: "'t \<Rightarrow> 'k \<rightharpoonup> 'v"
  assumes look: "good t \<Longrightarrow> fst (look k t) = content t k \<and> good (snd (look k t)) \<and> content (snd (look k t)) = content t"
    and store: "good t \<Longrightarrow> good (store k v t) \<and> content (store k v t) = (content t)(k \<mapsto> v)"
    and erase: "good t \<Longrightarrow> good (erase k t) \<and> content (erase k t) = (content t)(k := None)"
begin

lemma look_store: "good t \<Longrightarrow> fst (look k' (store k v t)) = (if k' = k then Some v else fst (look k' t))"
  by (simp add: look store)

lemma store_erase: "good t \<Longrightarrow> fst (look k t) = None \<Longrightarrow> content (erase k (store k v t)) = content t"
  by (auto simp: look store erase fun_eq_iff)

end

lemma cached_map_table:
  assumes E: "evicts evict"
  shows "map_table (ct_get evict) (ct_set evict) ct_del coherent ctTab"
proof
  have sub: "evict m \<subseteq>\<^sub>m m" for m using E by (simp add: evicts_def)
  fix t :: "('a, 'b) ctable" and k and v
  assume c: "coherent t"
  show "fst (ct_get evict k t) = ctTab t k \<and> coherent (snd (ct_get evict k t)) \<and> ctTab (snd (ct_get evict k t)) = ctTab t"
  proof (cases "ctLru t k")
    case None
    show ?thesis
    proof (cases "ctTab t k")
      case (Some x)
      have "(ctLru t)(k \<mapsto> x) \<subseteq>\<^sub>m (ctTab t)(k \<mapsto> x)" using c unfolding coherent_def by (rule map_le_upd)
      moreover have "(ctTab t)(k \<mapsto> x) = ctTab t" using Some by auto
      ultimately have "evict ((ctLru t)(k \<mapsto> x)) \<subseteq>\<^sub>m ctTab t" using map_le_trans [OF sub] by simp
      then show ?thesis using None Some c by (simp add: ct_get_def coherent_def)
    qed (use None c in \<open>simp add: ct_get_def\<close>)
  next
    case (Some x)
    then have "ctTab t k = Some x" using c by (auto simp: coherent_def map_le_def dom_def)
    with Some c show ?thesis by (simp add: ct_get_def)
  qed
  have "evict ((ctLru t)(k \<mapsto> v)) \<subseteq>\<^sub>m (ctTab t)(k \<mapsto> v)" by (rule map_le_trans [OF sub map_le_upd]) (use c in \<open>simp add: coherent_def\<close>)
  then show "coherent (ct_set evict k v t) \<and> ctTab (ct_set evict k v t) = (ctTab t)(k \<mapsto> v)" by (simp add: ct_set_def coherent_def)
  show "coherent (ct_del k t) \<and> ctTab (ct_del k t) = (ctTab t)(k := None)" using c by (auto simp: ct_del_def coherent_def map_le_def)
qed

interpretation uncached: map_table "ct_get (\<lambda>m. m)" "ct_set (\<lambda>m. m)" ct_del coherent ctTab
  by (rule cached_map_table) (simp add: evicts_def)

subsection \<open>State\<close>

text \<open>The tables of an epoch: headers, last events of the validators, and heads.\<close>

record epochStore =
  esHeaders :: "hash_event \<rightharpoonup> EventHeaderData"
  esTips :: "StakerID \<rightharpoonup> hash_event"
  esHeads :: "hash_event set"

definition newEpochStore :: epochStore where
  "newEpochStore = \<lparr>esHeaders = Map.empty, esTips = Map.empty, esHeads = {}\<rparr>"

record PackInfo =
  piIndex :: u32
  piSize :: u32
  NumOfEvents :: u32
  piHeads :: "hash_event list"

record 'tx gossip =
  gEvents :: "(hash_event, 'tx Event) ctable"
  gEpochs :: "epochStore vers"
  gHeadersLru :: "hash_event \<rightharpoonup> EventHeaderData"
  gPackInfos :: "(Epoch \<times> u32, PackInfo) ctable"
  gPacks :: "(Epoch \<times> u32 \<times> hash_event) set"
  gPacksNum :: "Epoch \<rightharpoonup> u32"
  gLastHeaders :: "Epoch \<times> StakerID \<rightharpoonup> EventHeaderData"
  gRefunds :: "Epoch \<times> StakerID \<rightharpoonup> u64"

record 'tx caches =
  evEvents :: "(hash_event \<rightharpoonup> 'tx Event) \<Rightarrow> (hash_event \<rightharpoonup> 'tx Event)"
  evHeaders :: "(hash_event \<rightharpoonup> EventHeaderData) \<Rightarrow> (hash_event \<rightharpoonup> EventHeaderData)"
  evPacks :: "(Epoch \<times> u32 \<rightharpoonup> PackInfo) \<Rightarrow> (Epoch \<times> u32 \<rightharpoonup> PackInfo)"

subsection \<open>Epoch tables\<close>

text \<open>
  \<open>getEpochStore\<close> opens the database of the epoch when it is the next one; an epoch already deleted has
  none, the inner \<^const>\<open>None\<close>; a gap in the sequence panics. \<open>on_epoch\<close> runs an update on the tables.
\<close>

definition getEpochStore :: "Epoch \<Rightarrow> 'tx gossip \<Rightarrow> (epochStore option \<times> 'tx gossip) option" where
  "getEpochStore epoch s = do {
     (es, v) \<leftarrow> get_spec (\<lambda>_. newEpochStore) (unat epoch) (gEpochs s);
     Some (es, s\<lparr>gEpochs := v\<rparr>) }"

definition on_epoch :: "Epoch \<Rightarrow> (epochStore \<Rightarrow> epochStore) \<Rightarrow> 'tx gossip \<Rightarrow> 'tx gossip option" where
  "on_epoch epoch f s = do {
     (es, s) \<leftarrow> getEpochStore epoch s;
     Some (case es of None \<Rightarrow> s
       | Some es \<Rightarrow> s\<lparr>gEpochs := (fst (gEpochs s), (snd (gEpochs s))[unat epoch - fst (gEpochs s) := f es])\<rparr>) }"

definition delEpochStore :: "Epoch \<Rightarrow> 'tx gossip \<Rightarrow> 'tx gossip" where
  "delEpochStore epoch s = s\<lparr>gEpochs := del_spec (unat epoch) (gEpochs s), gHeadersLru := Map.empty\<rparr>"

definition SetLastEvent :: "Epoch \<Rightarrow> StakerID \<Rightarrow> hash_event \<Rightarrow> 'tx gossip \<Rightarrow> 'tx gossip option" where
  "SetLastEvent epoch frm h s = on_epoch epoch (\<lambda>es. es\<lparr>esTips := (esTips es)(frm \<mapsto> h)\<rparr>) s"

definition GetLastEvent_store :: "Epoch \<Rightarrow> StakerID \<Rightarrow> 'tx gossip \<Rightarrow> (hash_event option \<times> 'tx gossip) option" where
  "GetLastEvent_store epoch frm s = do {
     (es, s) \<leftarrow> getEpochStore epoch s;
     Some (case es of None \<Rightarrow> None | Some es \<Rightarrow> esTips es frm, s) }"

definition SetEventHeader :: "'tx caches \<Rightarrow> Epoch \<Rightarrow> hash_event \<Rightarrow> EventHeaderData \<Rightarrow> 'tx gossip \<Rightarrow> 'tx gossip option" where
  "SetEventHeader C epoch h e s = do {
     (es, s) \<leftarrow> getEpochStore epoch s;
     case es of None \<Rightarrow> Some s
     | Some _ \<Rightarrow> do {
         s \<leftarrow> on_epoch epoch (\<lambda>es. es\<lparr>esHeaders := (esHeaders es)(h \<mapsto> e)\<rparr>) s;
         Some (s\<lparr>gHeadersLru := evHeaders C ((gHeadersLru s)(h \<mapsto> e))\<rparr>) } }"

definition GetEventHeader_store :: "'tx caches \<Rightarrow> Epoch \<Rightarrow> hash_event \<Rightarrow> 'tx gossip \<Rightarrow> (EventHeaderData option \<times> 'tx gossip) option" where
  "GetEventHeader_store C epoch h s = (case gHeadersLru s h of
     Some w \<Rightarrow> Some (Some w, s)
   | None \<Rightarrow> do {
       (es, s) \<leftarrow> getEpochStore epoch s;
       Some (case es of None \<Rightarrow> (None, s)
         | Some es \<Rightarrow> (case esHeaders es h of None \<Rightarrow> (None, s)
             | Some w \<Rightarrow> (Some w, s\<lparr>gHeadersLru := evHeaders C ((gHeadersLru s)(h \<mapsto> w))\<rparr>))) })"

definition HasEventHeader :: "hash_event \<Rightarrow> 'tx gossip \<Rightarrow> (bool \<times> 'tx gossip) option" where
  "HasEventHeader h s = do {
     epoch \<leftarrow> Event_Epoch h;
     (es, s) \<leftarrow> getEpochStore epoch s;
     Some (case es of None \<Rightarrow> False | Some es \<Rightarrow> esHeaders es h \<noteq> None, s) }"

definition DelEventHeader :: "Epoch \<Rightarrow> hash_event \<Rightarrow> 'tx gossip \<Rightarrow> 'tx gossip option" where
  "DelEventHeader epoch h s = do {
     (es, s) \<leftarrow> getEpochStore epoch s;
     case es of None \<Rightarrow> Some s
     | Some _ \<Rightarrow> do {
         s \<leftarrow> on_epoch epoch (\<lambda>es. es\<lparr>esHeaders := (esHeaders es)(h := None)\<rparr>) s;
         Some (s\<lparr>gHeadersLru := (gHeadersLru s)(h := None)\<rparr>) } }"

definition DelHead :: "Epoch \<Rightarrow> hash_event \<Rightarrow> 'tx gossip \<Rightarrow> 'tx gossip option" where
  "DelHead epoch h s = on_epoch epoch (\<lambda>es. es\<lparr>esHeads := esHeads es - {h}\<rparr>) s"

definition AddHead :: "Epoch \<Rightarrow> hash_event \<Rightarrow> 'tx gossip \<Rightarrow> 'tx gossip option" where
  "AddHead epoch h s = on_epoch epoch (\<lambda>es. es\<lparr>esHeads := insert h (esHeads es)\<rparr>) s"

definition IsHead :: "Epoch \<Rightarrow> hash_event \<Rightarrow> 'tx gossip \<Rightarrow> (bool \<times> 'tx gossip) option" where
  "IsHead epoch h s = do {
     (es, s) \<leftarrow> getEpochStore epoch s;
     Some (case es of None \<Rightarrow> False | Some es \<Rightarrow> h \<in> esHeads es, s) }"

text \<open>The iterator visits the keys in order.\<close>

definition GetHeads_store :: "Epoch \<Rightarrow> 'tx gossip \<Rightarrow> (hash_event list \<times> 'tx gossip) option" where
  "GetHeads_store epoch s = do {
     (es, s) \<leftarrow> getEpochStore epoch s;
     Some (case es of None \<Rightarrow> [] | Some es \<Rightarrow> sorted_list_of_set (esHeads es), s) }"

subsection \<open>Events\<close>

definition SetEvent :: "'tx caches \<Rightarrow> hash_event \<Rightarrow> 'tx Event \<Rightarrow> 'tx gossip \<Rightarrow> 'tx gossip option" where
  "SetEvent C h e s = SetEventHeader C (eEpoch e) h (EventHeaderData.truncate e) (s\<lparr>gEvents := ct_set (evEvents C) h e (gEvents s)\<rparr>)"

definition DeleteEvent :: "Epoch \<Rightarrow> hash_event \<Rightarrow> 'tx gossip \<Rightarrow> 'tx gossip option" where
  "DeleteEvent epoch h s = DelEventHeader epoch h (s\<lparr>gEvents := ct_del h (gEvents s)\<rparr>)"

definition GetEvent :: "'tx caches \<Rightarrow> hash_event \<Rightarrow> 'tx gossip \<Rightarrow> 'tx Event option \<times> 'tx gossip" where
  "GetEvent C h s = (case ct_get (evEvents C) h (gEvents s) of (e, t) \<Rightarrow> (e, s\<lparr>gEvents := t\<rparr>))"

definition HasEvent :: "hash_event \<Rightarrow> 'tx gossip \<Rightarrow> bool" where
  "HasEvent h s \<longleftrightarrow> ctTab (gEvents s) h \<noteq> None"

subsection \<open>Packs\<close>

definition GetPackInfoOrDefault :: "'tx caches \<Rightarrow> Epoch \<Rightarrow> u32 \<Rightarrow> 'tx gossip \<Rightarrow> PackInfo \<times> 'tx gossip" where
  "GetPackInfoOrDefault C epoch i s = (case ct_get (evPacks C) (epoch, i) (gPackInfos s) of (w, t) \<Rightarrow>
     (case w of None \<Rightarrow> \<lparr>piIndex = i, piSize = 0, NumOfEvents = 0, piHeads = []\<rparr> | Some p \<Rightarrow> p, s\<lparr>gPackInfos := t\<rparr>))"

definition SetPackInfo :: "'tx caches \<Rightarrow> Epoch \<Rightarrow> u32 \<Rightarrow> PackInfo \<Rightarrow> 'tx gossip \<Rightarrow> 'tx gossip" where
  "SetPackInfo C epoch i v s = s\<lparr>gPackInfos := ct_set (evPacks C) (epoch, i) v (gPackInfos s)\<rparr>"

definition AddToPack :: "Epoch \<Rightarrow> u32 \<Rightarrow> hash_event \<Rightarrow> 'tx gossip \<Rightarrow> 'tx gossip" where
  "AddToPack epoch i h s = s\<lparr>gPacks := insert (epoch, i, h) (gPacks s)\<rparr>"

definition GetPack :: "Epoch \<Rightarrow> u32 \<Rightarrow> 'tx gossip \<Rightarrow> hash_event list option" where
  "GetPack epoch i s =
     (let res = sorted_list_of_set {h. (epoch, i, h) \<in> gPacks s} in if length res = 0 then None else Some res)"

definition GetPacksNumOrDefault :: "Epoch \<Rightarrow> 'tx gossip \<Rightarrow> u32" where
  "GetPacksNumOrDefault epoch s = (case gPacksNum s epoch of None \<Rightarrow> 1 | Some n \<Rightarrow> n)"

definition SetPacksNum :: "Epoch \<Rightarrow> u32 \<Rightarrow> 'tx gossip \<Rightarrow> 'tx gossip" where
  "SetPacksNum epoch n s = s\<lparr>gPacksNum := (gPacksNum s)(epoch \<mapsto> n)\<rparr>"

subsection \<open>Last headers and gas refunds\<close>

definition DelLastHeader :: "Epoch \<Rightarrow> StakerID \<Rightarrow> 'tx gossip \<Rightarrow> 'tx gossip" where
  "DelLastHeader epoch c s = s\<lparr>gLastHeaders := (gLastHeaders s)((epoch, c) := None)\<rparr>"

definition DelLastHeaders :: "Epoch \<Rightarrow> 'tx gossip \<Rightarrow> 'tx gossip" where
  "DelLastHeaders epoch s = s\<lparr>gLastHeaders := (\<lambda>k. if fst k = epoch then None else gLastHeaders s k)\<rparr>"

definition AddLastHeader :: "Epoch \<Rightarrow> EventHeaderData \<Rightarrow> 'tx gossip \<Rightarrow> 'tx gossip" where
  "AddLastHeader epoch header s = s\<lparr>gLastHeaders := (gLastHeaders s)((epoch, eCreator header) \<mapsto> header)\<rparr>"

definition GetLastHeaders :: "Epoch \<Rightarrow> 'tx gossip \<Rightarrow> StakerID \<rightharpoonup> EventHeaderData" where
  "GetLastHeaders epoch s = (\<lambda>c. gLastHeaders s (epoch, c))"

definition GetGasPowerRefund :: "Epoch \<Rightarrow> StakerID \<Rightarrow> 'tx gossip \<Rightarrow> u64" where
  "GetGasPowerRefund epoch c s = (case gRefunds s (epoch, c) of None \<Rightarrow> 0 | Some g \<Rightarrow> g)"

definition GetGasPowerRefunds :: "Epoch \<Rightarrow> 'tx gossip \<Rightarrow> StakerID \<rightharpoonup> u64" where
  "GetGasPowerRefunds epoch s = (\<lambda>c. gRefunds s (epoch, c))"

definition IncGasPowerRefund :: "Epoch \<Rightarrow> StakerID \<Rightarrow> u64 \<Rightarrow> 'tx gossip \<Rightarrow> 'tx gossip" where
  "IncGasPowerRefund epoch c diff s =
     (if diff = 0 then s else s\<lparr>gRefunds := (gRefunds s)((epoch, c) \<mapsto> GetGasPowerRefund epoch c s + diff)\<rparr>)"

definition DelGasPowerRefunds :: "Epoch \<Rightarrow> 'tx gossip \<Rightarrow> 'tx gossip" where
  "DelGasPowerRefunds epoch s = s\<lparr>gRefunds := (\<lambda>k. if fst k = epoch then None else gRefunds s k)\<rparr>"

end
