(* ===== verification/Gossip_Events.thy ===== *)
theory Gossip_Events
  imports Gossip_Store Emit_Rules
begin

text \<open>
  \<open>processEvent\<close> of \<open>gossip/consensus_callbacks.go\<close> and \<open>gossip/pack.go\<close>: what the service does around the
  consensus engine when an event is connected. The engine, which calls the service back for blocks and
  epochs, is a parameter.
\<close>

subsection \<open>The service\<close>

record ('tx, 'c, 'b) service =
  svStore :: "'tx gossip"
  svOccurred :: "'b ring"
  svEmitter :: "'c Emitter"
  svEpoch :: Epoch \<comment> \<open>the engine's\<close>

record ('tx, 'c, 'b) service_env =
  svCaches :: "'tx caches"
  svEngine :: "'tx Event \<Rightarrow> ('tx, 'c, 'b) service \<Rightarrow> (bool \<times> ('tx, 'c, 'b) service) option" \<comment> \<open>whether it failed\<close>
  svSize :: "'tx Event \<Rightarrow> nat" \<comment> \<open>of the RLP encoding\<close>
  svSigned :: "'tx \<Rightarrow> signed_tx"
  svRing :: "'b evicting"
  svWorld :: "('tx, 'c, 'b) service \<Rightarrow> em_world"
  svValidators :: "('tx, 'c, 'b) service \<Rightarrow> Validators"

definition maxPackSize :: u32 where "maxPackSize = 2 * 1024 * 1024"
definition maxPackEventsNum :: u32 where "maxPackEventsNum = 250"

definition packsOnNewEvent :: "'tx caches \<Rightarrow> Epoch \<Rightarrow> nat \<Rightarrow> hash_event \<Rightarrow> Epoch \<Rightarrow> 'tx gossip \<Rightarrow> 'tx gossip option" where
  "packsOnNewEvent C engineEp sz h epoch s = do {
     let packIdx = GetPacksNumOrDefault epoch s;
     let (packInfo, s) = GetPackInfoOrDefault C engineEp packIdx s;
     let s = AddToPack epoch packIdx h s;
     let packInfo = packInfo\<lparr>piIndex := packIdx, NumOfEvents := NumOfEvents packInfo + 1, piSize := piSize packInfo + of_nat sz\<rparr>;
     (packInfo, s) \<leftarrow> (if NumOfEvents packInfo \<ge> maxPackEventsNum \<or> piSize packInfo \<ge> maxPackSize
       then do {
         (heads, s) \<leftarrow> GetHeads_store epoch s;
         Some (packInfo\<lparr>piHeads := heads\<rparr>, SetPacksNum epoch (packIdx + 1) s) }
       else Some (packInfo, s));
     Some (SetPackInfo C epoch packIdx packInfo s) }"

definition packsOnNewEpoch :: "'tx caches \<Rightarrow> Epoch \<Rightarrow> Epoch \<Rightarrow> 'tx gossip \<Rightarrow> 'tx gossip option" where
  "packsOnNewEpoch C engineEp oldEpoch s = do {
     let packIdx = GetPacksNumOrDefault oldEpoch s;
     let (packInfo, s) = GetPackInfoOrDefault C engineEp packIdx s;
     (heads, s) \<leftarrow> GetHeads_store oldEpoch s;
     let s = SetPackInfo C oldEpoch packIdx (packInfo\<lparr>piHeads := heads\<rparr>) s;
     Some (SetPacksNum oldEpoch (packIdx + 1) s) }"

definition indexHeads :: "Epoch \<Rightarrow> hash_event \<Rightarrow> hash_event list \<Rightarrow> 'tx gossip \<Rightarrow> 'tx gossip option" where
  "indexHeads epoch h parents s = do {
     s \<leftarrow> foldM (\<lambda>s p. DelHead epoch p s) s parents;
     AddHead epoch h s }"

datatype process_err = ErrAlreadyConnected | ErrEngine

text \<open>What follows the engine's success: the indexes, the pack and the emitter.\<close>

definition indexEvent :: "('tx, 'c, 'b) service_env \<Rightarrow> time \<Rightarrow> hash_event \<Rightarrow> 'tx Event \<Rightarrow> ('tx, 'c, 'b) service \<Rightarrow> ('tx, 'c, 'b) service option" where
  "indexEvent E now h e sv = do {
     let occurred = snd (CollectNotConfirmedTxs (svRing E) (map (svSigned E) (eTransactions e)) (svOccurred sv));
     s \<leftarrow> SetLastEvent (eEpoch e) (eCreator e) h (svStore sv);
     s \<leftarrow> indexHeads (eEpoch e) h (eParents e) s;
     s \<leftarrow> packsOnNewEvent (svCaches E) (svEpoch sv) (svSize E e) h (eEpoch e) s;
     let (em, stop) = OnNewEvent now h e (svEmitter sv);
     (if stop then None else Some (sv\<lparr>svStore := s, svOccurred := occurred, svEmitter := em\<rparr>)) }"

text \<open>
  The change of epoch, after the engine has ended the old one. The event checkers get the keys and the gas
  power data of the new epoch, which are arguments of the checks in \<^theory_text>\<open>Event_Checks\<close> and not part of
  this state.
\<close>

definition enterEpoch :: "('tx, 'c, 'b) service_env \<Rightarrow> time \<Rightarrow> Epoch \<Rightarrow> ('tx, 'c, 'b) service \<Rightarrow> ('tx, 'c, 'b) service option" where
  "enterEpoch E now oldEpoch sv = do {
     s \<leftarrow> packsOnNewEpoch (svCaches E) (svEpoch sv) oldEpoch (svStore sv);
     (_, s) \<leftarrow> getEpochStore (svEpoch sv) (delEpochStore oldEpoch s);
     let sv = sv\<lparr>svStore := s, svOccurred := ring_Clear (svRing E) (svOccurred sv)\<rparr>;
     em \<leftarrow> OnNewEpoch (svWorld E sv) now (svValidators E sv) (svEpoch sv) (svEmitter sv);
     Some (sv\<lparr>svEmitter := em\<rparr>) }"

text \<open>
  The indexes kept for the API (arrival times, decisive events) are off in the default configuration and
  left out; the commit at the end flushes the pool of databases (\<^theory_text>\<open>Synced_Pool\<close>).
\<close>

definition processEvent ::
    "('tx, 'c, 'b) service_env \<Rightarrow> time \<Rightarrow> hash_event \<Rightarrow> 'tx Event \<Rightarrow> ('tx, 'c, 'b) service \<Rightarrow> (process_err option \<times> ('tx, 'c, 'b) service) option" where
  "processEvent E now h e sv = do {
     (has, s) \<leftarrow> HasEventHeader h (svStore sv);
     if has then Some (Some ErrAlreadyConnected, sv\<lparr>svStore := s\<rparr>)
     else do {
       s \<leftarrow> SetEvent (svCaches E) h e s;
       (failed, sv) \<leftarrow> svEngine E e (sv\<lparr>svStore := s\<rparr>);
       if failed then do {
         s \<leftarrow> DeleteEvent (eEpoch e) h (svStore sv);
         Some (Some ErrEngine, sv\<lparr>svStore := s\<rparr>) }
       else do {
         sv \<leftarrow> indexEvent E now h e sv;
         sv \<leftarrow> (if svEpoch sv = eEpoch e then Some sv else enterEpoch E now (eEpoch e) sv);
         Some (None, sv) } } }"

subsection \<open>The tables of an open epoch\<close>

definition opened :: "Epoch \<Rightarrow> 'tx gossip \<Rightarrow> bool" where
  "opened ep s \<longleftrightarrow> fst (gEpochs s) \<le> unat ep \<and> unat ep < fst (gEpochs s) + length (snd (gEpochs s))"

definition es_of :: "Epoch \<Rightarrow> 'tx gossip \<Rightarrow> epochStore" where
  "es_of ep s = snd (gEpochs s) ! (unat ep - fst (gEpochs s))"

definition put_es :: "Epoch \<Rightarrow> epochStore \<Rightarrow> 'tx gossip \<Rightarrow> 'tx gossip" where
  "put_es ep es s = s\<lparr>gEpochs := (fst (gEpochs s), (snd (gEpochs s))[unat ep - fst (gEpochs s) := es])\<rparr>"

lemma getEpochStore_open: "opened ep s \<Longrightarrow> getEpochStore ep s = Some (Some (es_of ep s), s)"
  by (cases "gEpochs s") (auto simp: opened_def getEpochStore_def get_spec_def es_of_def)

lemma on_epoch_open: "opened ep s \<Longrightarrow> on_epoch ep f s = Some (put_es ep (f (es_of ep s)) s)"
  by (simp add: on_epoch_def getEpochStore_open put_es_def)

lemma put_es_simps [simp]:
  "opened ep (put_es ep es s) = opened ep s" "opened ep s \<Longrightarrow> es_of ep (put_es ep es s) = es"
  "put_es ep es (put_es ep es' s) = put_es ep es s" "gEvents (put_es ep es s) = gEvents s"
  "gPackInfos (put_es ep es s) = gPackInfos s" "gPacks (put_es ep es s) = gPacks s" "gPacksNum (put_es ep es s) = gPacksNum s"
  "gHeadersLru (put_es ep es s) = gHeadersLru s"
  by (auto simp: opened_def es_of_def put_es_def)

lemma put_es_same: "opened ep s \<Longrightarrow> put_es ep (es_of ep s) s = s"
  by (cases s) (auto simp: put_es_def es_of_def opened_def)

lemma open_updates [simp]:
  "opened ep (s\<lparr>gEvents := a\<rparr>) = opened ep s" "opened ep (s\<lparr>gHeadersLru := b\<rparr>) = opened ep s" "opened ep (s\<lparr>gPackInfos := c\<rparr>) = opened ep s"
  "opened ep (s\<lparr>gPacks := d\<rparr>) = opened ep s" "opened ep (s\<lparr>gPacksNum := x\<rparr>) = opened ep s"
  "es_of ep (s\<lparr>gEvents := a\<rparr>) = es_of ep s" "es_of ep (s\<lparr>gHeadersLru := b\<rparr>) = es_of ep s" "es_of ep (s\<lparr>gPackInfos := c\<rparr>) = es_of ep s"
  "es_of ep (s\<lparr>gPacks := d\<rparr>) = es_of ep s" "es_of ep (s\<lparr>gPacksNum := x\<rparr>) = es_of ep s"
  by (simp_all add: opened_def es_of_def)

lemma indexHeads_open:
  assumes "opened ep s"
  shows "indexHeads ep h parents s = Some (put_es ep ((es_of ep s)\<lparr>esHeads := insert h (esHeads (es_of ep s) - set parents)\<rparr>) s)"
proof -
  have "foldM (\<lambda>s p. DelHead ep p s) s parents = Some (put_es ep ((es_of ep s)\<lparr>esHeads := esHeads (es_of ep s) - set parents\<rparr>) s)"
    using assms
  proof (induction parents arbitrary: s)
    case Nil
    then show ?case by (simp add: put_es_same)
  next
    case (Cons p ps)
    have "esHeads (es_of ep s) - {p} - set ps = esHeads (es_of ep s) - insert p (set ps)" by auto
    with Cons show ?case by (simp add: DelHead_def on_epoch_open)
  qed
  with assms show ?thesis by (simp add: indexHeads_def AddHead_def on_epoch_open)
qed

definition pack_of :: "Epoch \<Rightarrow> u32 \<Rightarrow> 'tx gossip \<Rightarrow> hash_event set" where
  "pack_of ep i s = {h. (ep, i, h) \<in> gPacks s}"

definition info_of :: "Epoch \<Rightarrow> u32 \<Rightarrow> 'tx gossip \<Rightarrow> PackInfo" where
  "info_of ep i s = (case ctTab (gPackInfos s) (ep, i) of None \<Rightarrow> \<lparr>piIndex = i, piSize = 0, NumOfEvents = 0, piHeads = []\<rparr> | Some p \<Rightarrow> p)"

lemma GetPackInfoOrDefault_spec:
  assumes "evicts (evPacks C)" "coherent (gPackInfos s)"
  obtains t where "GetPackInfoOrDefault C ep i s = (info_of ep i s, s\<lparr>gPackInfos := t\<rparr>)" "coherent t" "ctTab t = ctTab (gPackInfos s)"
proof -
  note look = map_table.look [OF cached_map_table [OF assms(1)] assms(2), of "(ep, i)"]
  obtain w t where w: "ct_get (evPacks C) (ep, i) (gPackInfos s) = (w, t)" by fastforce
  with look have "w = ctTab (gPackInfos s) (ep, i)" "coherent t" "ctTab t = ctTab (gPackInfos s)" by auto
  with w that show ?thesis by (simp add: GetPackInfoOrDefault_def info_of_def)
qed

subsection \<open>What an epoch's tables hold\<close>

definition packs_inv :: "Epoch \<Rightarrow> hash_event set \<Rightarrow> 'tx gossip \<Rightarrow> bool" where
  "packs_inv ep H s \<longleftrightarrow> coherent (gPackInfos s) \<and> finite H \<and>
     (\<forall>h. h \<in> H \<longleftrightarrow> (\<exists>i. h \<in> pack_of ep i s)) \<and> (\<forall>h i j. h \<in> pack_of ep i s \<longrightarrow> h \<in> pack_of ep j s \<longrightarrow> i = j) \<and>
     (\<forall>i. unat (NumOfEvents (info_of ep i s)) = card (pack_of ep i s) \<and> card (pack_of ep i s) \<le> 250) \<and>
     (\<forall>i > GetPacksNumOrDefault ep s. pack_of ep i s = {}) \<and> card (pack_of ep (GetPacksNumOrDefault ep s) s) < 250 \<and>
     unat (GetPacksNumOrDefault ep s) \<le> card H + 1"

definition heads_inv :: "epochStore \<Rightarrow> bool" where
  "heads_inv es \<longleftrightarrow> (\<forall>h hdr. esHeaders es h = Some hdr \<longrightarrow> set (eParents hdr) \<subseteq> dom (esHeaders es)) \<and>
     esHeads es = {h \<in> dom (esHeaders es). \<forall>h' hdr. esHeaders es h' = Some hdr \<longrightarrow> h \<notin> set (eParents hdr)}"

lemma heads_inv_insert:
  assumes "heads_inv es" "h \<notin> dom (esHeaders es)" "set (eParents hdr) \<subseteq> dom (esHeaders es)"
  shows "heads_inv (es\<lparr>esHeaders := (esHeaders es)(h \<mapsto> hdr), esTips := t, esHeads := insert h (esHeads es - set (eParents hdr))\<rparr>)"
proof -
  have p: "set (eParents x) \<subseteq> dom (esHeaders es)" if "esHeaders es k = Some x" for k x using assms(1) that by (auto simp: heads_inv_def)
  have "insert h (esHeads es - set (eParents hdr)) =
      {k \<in> insert h (dom (esHeaders es)). \<forall>h' x. ((esHeaders es)(h \<mapsto> hdr)) h' = Some x \<longrightarrow> k \<notin> set (eParents x)}" (is "?l = ?r")
  proof (intro set_eqI iffI)
    fix k assume k: "k \<in> ?l"
    show "k \<in> ?r"
    proof (cases "k = h")
      case True
      have "h \<notin> set (eParents x)" if "((esHeaders es)(h \<mapsto> hdr)) h' = Some x" for h' x using that assms(2,3) p [of h' x] by (cases "h' = h") auto
      with True show ?thesis by auto
    next
      case False
      with k assms(1) show ?thesis by (auto simp: heads_inv_def)
    qed
  next
    fix k assume k: "k \<in> ?r"
    have all: "k \<notin> set (eParents x)" if "((esHeaders es)(h \<mapsto> hdr)) h' = Some x" for h' x using k that by blast
    have "k \<notin> set (eParents hdr)" by (rule all [of h]) simp
    moreover have "\<forall>h' x. esHeaders es h' = Some x \<longrightarrow> k \<notin> set (eParents x)"
    proof (intro allI impI)
      fix h' x assume x: "esHeaders es h' = Some x"
      with assms(2) have "h' \<noteq> h" by auto
      with x show "k \<notin> set (eParents x)" by (intro all [of h']) simp
    qed
    ultimately show "k \<in> ?l" using k assms(1) by (auto simp: heads_inv_def)
  qed
  moreover have "set (eParents x) \<subseteq> insert h (dom (esHeaders es))" if "((esHeaders es)(h \<mapsto> hdr)) k = Some x" for k x
    using that assms(3) p [of k x] by (cases "k = h") auto
  ultimately show ?thesis unfolding heads_inv_def by simp
qed

lemma SetPackInfo_spec:
  assumes "evicts (evPacks C)" "coherent (gPackInfos s)"
  shows "coherent (gPackInfos (SetPackInfo C ep i v s))" "ctTab (gPackInfos (SetPackInfo C ep i v s)) = (ctTab (gPackInfos s))((ep, i) \<mapsto> v)"
  using map_table.store [OF cached_map_table [OF assms(1)] assms(2), of "(ep, i)" v] by (simp_all add: SetPackInfo_def)

lemma packsOnNewEvent_inv:
  assumes C: "evicts (evPacks C)" and o: "opened ep s" and inv: "packs_inv ep H s" and h: "h \<notin> H" and few: "card H < 2 ^ 31"
    and r: "packsOnNewEvent C ep sz h ep s = Some s'"
  shows "packs_inv ep (insert h H) s'" "gEpochs s' = gEpochs s"
proof -
  let ?n = "GetPacksNumOrDefault ep s"
  have coh: "coherent (gPackInfos s)" and cnt: "unat (NumOfEvents (info_of ep ?n s)) = card (pack_of ep ?n s)" "card (pack_of ep ?n s) < 250"
    and nH: "unat ?n \<le> card H + 1" and fin: "finite H" using inv by (auto simp: packs_inv_def)
  obtain t where t: "GetPackInfoOrDefault C ep ?n s = (info_of ep ?n s, s\<lparr>gPackInfos := t\<rparr>)" "coherent t" "ctTab t = ctTab (gPackInfos s)"
    using GetPackInfoOrDefault_spec [OF C coh] by blast
  define info where "info = (info_of ep ?n s)\<lparr>piIndex := ?n, NumOfEvents := NumOfEvents (info_of ep ?n s) + 1, piSize := piSize (info_of ep ?n s) + of_nat sz\<rparr>"
  define s1 where "s1 = AddToPack ep ?n h (s\<lparr>gPackInfos := t\<rparr>)"
  have o1: "opened ep s1" using o by (simp add: s1_def AddToPack_def)
  let ?full = "NumOfEvents info \<ge> maxPackEventsNum \<or> piSize info \<ge> maxPackSize"
  have eq: "packsOnNewEvent C ep sz h ep s = do {
      (packInfo, s) \<leftarrow> (if ?full then do { (heads, s) \<leftarrow> GetHeads_store ep s1; Some (info\<lparr>piHeads := heads\<rparr>, SetPacksNum ep (?n + 1) s) } else Some (info, s1));
      Some (SetPackInfo C ep ?n packInfo s) }"
    unfolding packsOnNewEvent_def Let_def t(1) by (simp add: info_def s1_def)
  obtain hs full where s': "s' = SetPackInfo C ep ?n (info\<lparr>piHeads := hs\<rparr>) (if full then SetPacksNum ep (?n + 1) s1 else s1)"
      and full: "\<not> full \<Longrightarrow> NumOfEvents info < maxPackEventsNum"
  proof (cases ?full)
    case True
    then have "s' = SetPackInfo C ep ?n (info\<lparr>piHeads := sorted_list_of_set (esHeads (es_of ep s1))\<rparr>) (SetPacksNum ep (?n + 1) s1)"
      using r [unfolded eq] o1 by (simp add: GetHeads_store_def getEpochStore_open)
    then show ?thesis using that [of _ True] by simp
  next
    case False
    then have "s' = SetPackInfo C ep ?n (info\<lparr>piHeads := piHeads info\<rparr>) s1" using r [unfolded eq] by simp
    then show ?thesis using that [of "piHeads info" False] False by (simp add: not_le)
  qed
  show "gEpochs s' = gEpochs s" by (simp add: s' s1_def SetPackInfo_def SetPacksNum_def AddToPack_def)
  have c1: "coherent (gPackInfos (if full then SetPacksNum ep (?n + 1) s1 else s1))" using t(2) by (simp add: s1_def SetPacksNum_def AddToPack_def)
  have tab: "coherent (gPackInfos s')" "ctTab (gPackInfos s') = (ctTab (gPackInfos s))((ep, ?n) \<mapsto> info\<lparr>piHeads := hs\<rparr>)"
    using SetPackInfo_spec [OF C c1, of ep ?n "info\<lparr>piHeads := hs\<rparr>"] t(3) unfolding s' by (simp_all add: s1_def SetPacksNum_def AddToPack_def)
  have pk: "pack_of ep i s' = (if i = ?n then insert h (pack_of ep i s) else pack_of ep i s)" for i
    by (auto simp: s' s1_def pack_of_def SetPackInfo_def SetPacksNum_def AddToPack_def)
  have nn: "GetPacksNumOrDefault ep s' = (if full then ?n + 1 else ?n)"
    by (simp add: s' s1_def SetPackInfo_def SetPacksNum_def AddToPack_def GetPacksNumOrDefault_def)
  have "finite (pack_of ep ?n s)" using inv fin by (intro finite_subset [OF _ fin]) (auto simp: packs_inv_def)
  moreover have hn: "h \<notin> pack_of ep i s" for i using inv h by (auto simp: packs_inv_def)
  ultimately have card: "card (insert h (pack_of ep ?n s)) = card (pack_of ep ?n s) + 1" by simp
  have num: "unat (NumOfEvents info) = card (pack_of ep ?n s) + 1" using cnt by (simp add: info_def unat_word_ariths)
  have "unat ?n + 1 < 2 ^ 32" using nH few by simp
  then have n1: "unat (?n + 1) = unat ?n + 1" by (simp add: unat_word_ariths)
  have info': "info_of ep i s' = (if i = ?n then info\<lparr>piHeads := hs\<rparr> else info_of ep i s)" for i by (simp add: info_of_def tab(2))
  have later: "pack_of ep i s' = {}" if "i > GetPacksNumOrDefault ep s'" for i
  proof -
    have "?n \<le> GetPacksNumOrDefault ep s'" using nn n1 by (simp add: word_le_nat_alt)
    then have "i > ?n" using that by simp
    then show ?thesis using pk [of i] inv by (auto simp: packs_inv_def)
  qed
  have last: "card (pack_of ep (GetPacksNumOrDefault ep s') s') < 250"
  proof (cases full)
    case True
    have "?n < ?n + 1" using n1 by (simp add: word_less_nat_alt)
    then have "pack_of ep (?n + 1) s' = {}" using pk [of "?n + 1"] inv by (auto simp: packs_inv_def)
    then show ?thesis using True nn by simp
  next
    case False
    then have "unat (NumOfEvents info) < 250" using full by (simp add: maxPackEventsNum_def word_less_nat_alt)
    then show ?thesis using False nn pk [of ?n] card num by simp
  qed
  have counts: "unat (NumOfEvents (info_of ep i s')) = card (pack_of ep i s') \<and> card (pack_of ep i s') \<le> 250" for i
    using info' [of i] pk [of i] num card cnt(2) inv by (auto simp: packs_inv_def)
  have "unat (GetPacksNumOrDefault ep s') \<le> card (insert h H) + 1" using nn n1 nH h fin by simp
  moreover have "k \<in> insert h H \<longleftrightarrow> (\<exists>i. k \<in> pack_of ep i s')" for k
  proof -
    have "(\<exists>i. k \<in> pack_of ep i s') \<longleftrightarrow> k = h \<or> (\<exists>i. k \<in> pack_of ep i s)" unfolding pk by (metis insert_iff)
    then show ?thesis using inv by (simp add: packs_inv_def)
  qed
  moreover have "i = j" if "k \<in> pack_of ep i s'" "k \<in> pack_of ep j s'" for k i j
    using that pk [of i] pk [of j] hn inv by (auto simp: packs_inv_def split: if_splits)
  ultimately show "packs_inv ep (insert h H) s'" unfolding packs_inv_def using tab(1) fin counts later last by blast
qed

subsection \<open>Connecting an event\<close>

definition epoch_inv :: "Epoch \<Rightarrow> 'tx gossip \<Rightarrow> bool" where
  "epoch_inv ep s \<longleftrightarrow> opened ep s \<and> heads_inv (es_of ep s) \<and> packs_inv ep (dom (esHeaders (es_of ep s))) s"

text \<open>The engine's callbacks (blocks, confirmed events) do not touch the tables of the epoch.\<close>

definition engine_keeps :: "('tx, 'c, 'b) service_env \<Rightarrow> bool" where
  "engine_keeps E \<longleftrightarrow> (\<forall>e sv failed sv'. svEngine E e sv = Some (failed, sv') \<longrightarrow>
     gEpochs (svStore sv') = gEpochs (svStore sv) \<and> gPackInfos (svStore sv') = gPackInfos (svStore sv) \<and>
     gPacks (svStore sv') = gPacks (svStore sv) \<and> gPacksNum (svStore sv') = gPacksNum (svStore sv) \<and> gEvents (svStore sv') = gEvents (svStore sv))"

lemma SetEvent_open:
  assumes "opened (eEpoch e) s"
  shows "\<exists>l. SetEvent C h e s = Some ((put_es (eEpoch e) ((es_of (eEpoch e) s)\<lparr>esHeaders := (esHeaders (es_of (eEpoch e) s))(h \<mapsto> EventHeaderData.truncate e)\<rparr>)
     (s\<lparr>gEvents := ct_set (evEvents C) h e (gEvents s)\<rparr>))\<lparr>gHeadersLru := l\<rparr>)"
  using assms by (simp add: SetEvent_def SetEventHeader_def getEpochStore_open on_epoch_open) blast

lemma packs_inv_cong:
  "gPackInfos s' = gPackInfos s \<Longrightarrow> gPacks s' = gPacks s \<Longrightarrow> gPacksNum s' = gPacksNum s \<Longrightarrow> packs_inv ep H s' = packs_inv ep H s"
  by (simp add: packs_inv_def pack_of_def info_of_def GetPacksNumOrDefault_def)

lemma es_cong: "gEpochs s' = gEpochs s \<Longrightarrow> opened ep s' = opened ep s \<and> es_of ep s' = es_of ep s"
  by (simp add: opened_def es_of_def)

lemma processEvent_ok:
  fixes E :: "('tx, 'c, 'b) service_env"
  assumes E: "engine_keeps E" and o: "opened (eEpoch e) (svStore sv)" and h: "Event_Epoch h = Some (eEpoch e)" and r: "processEvent E now h e sv = Some (None, sv')"
  obtains sv2 sv3 :: "('tx, 'c, 'b) service" where "h \<notin> dom (esHeaders (es_of (eEpoch e) (svStore sv)))" "opened (eEpoch e) (svStore sv2)"
    "es_of (eEpoch e) (svStore sv2) = (es_of (eEpoch e) (svStore sv))\<lparr>esHeaders := (esHeaders (es_of (eEpoch e) (svStore sv)))(h \<mapsto> EventHeaderData.truncate e)\<rparr>"
    "gPackInfos (svStore sv2) = gPackInfos (svStore sv)" "gPacks (svStore sv2) = gPacks (svStore sv)" "gPacksNum (svStore sv2) = gPacksNum (svStore sv)"
    "indexEvent E now h e sv2 = Some sv3" "if svEpoch sv3 = eEpoch e then sv' = sv3 else enterEpoch E now (eEpoch e) sv3 = Some sv'"
    "svEpoch sv3 = svEpoch sv2" "svEpoch sv' = svEpoch sv2"
proof -
  let ?ep = "eEpoch e" let ?s = "svStore sv" let ?es = "es_of ?ep ?s" let ?hd = "EventHeaderData.truncate e"
  have has: "HasEventHeader h ?s = Some (esHeaders ?es h \<noteq> None, ?s)" using h o by (simp add: HasEventHeader_def getEpochStore_open)
  with r have new: "h \<notin> dom (esHeaders ?es)" by (auto simp: processEvent_def split: if_splits)
  obtain l where set: "SetEvent (svCaches E) h e ?s = Some ((put_es ?ep (?es\<lparr>esHeaders := (esHeaders ?es)(h \<mapsto> ?hd)\<rparr>) (?s\<lparr>gEvents := ct_set (evEvents (svCaches E)) h e (gEvents ?s)\<rparr>))\<lparr>gHeadersLru := l\<rparr>)"
    (is "_ = Some ?s1") using SetEvent_open [OF o] by blast
  from r has new set obtain sv2 where eng: "svEngine E e (sv\<lparr>svStore := ?s1\<rparr>) = Some (False, sv2)" by (auto simp: processEvent_def split: bind_splits if_splits)
  let ?s2 = "svStore sv2"
  have k: "gEpochs ?s2 = gEpochs ?s1" "gPackInfos ?s2 = gPackInfos ?s1" "gPacks ?s2 = gPacks ?s1" "gPacksNum ?s2 = gPacksNum ?s1"
    using E eng unfolding engine_keeps_def by fastforce+
  have o2: "opened ?ep ?s2" "es_of ?ep ?s2 = ?es\<lparr>esHeaders := (esHeaders ?es)(h \<mapsto> ?hd)\<rparr>" using es_cong [OF k(1), of ?ep] o by simp_all
  from r has new set eng obtain sv3 where i: "indexEvent E now h e sv2 = Some sv3" "if svEpoch sv3 = ?ep then sv' = sv3 else enterEpoch E now ?ep sv3 = Some sv'"
    by (auto simp: processEvent_def split: bind_splits if_splits)
  have "svEpoch sv3 = svEpoch sv2" using i(1) by (auto simp: indexEvent_def Let_def split: bind_splits if_splits prod.splits)
  moreover have "svEpoch sv' = svEpoch sv3" using i(2) by (auto simp: enterEpoch_def Let_def split: bind_splits if_splits prod.splits)
  ultimately show ?thesis using new o2 k i by (intro that [of sv2 sv3]) simp_all
qed

text \<open>An event of the epoch that does not end it.\<close>

lemma processEvent_keeps:
  assumes E: "engine_keeps E" "evicts (evPacks (svCaches E))" and inv: "epoch_inv (eEpoch e) (svStore sv)" and h: "Event_Epoch h = Some (eEpoch e)"
    and par: "set (eParents e) \<subseteq> dom (esHeaders (es_of (eEpoch e) (svStore sv)))" and few: "card (dom (esHeaders (es_of (eEpoch e) (svStore sv)))) < 2 ^ 31"
    and r: "processEvent E now h e sv = Some (None, sv')" and same: "svEpoch sv' = eEpoch e"
  shows "epoch_inv (eEpoch e) (svStore sv') \<and> esHeaders (es_of (eEpoch e) (svStore sv')) = (esHeaders (es_of (eEpoch e) (svStore sv)))(h \<mapsto> EventHeaderData.truncate e)"
proof -
  let ?ep = "eEpoch e" let ?s = "svStore sv" let ?es = "es_of ?ep ?s" let ?hd = "EventHeaderData.truncate e"
  have o: "opened ?ep ?s" using inv by (simp add: epoch_inv_def)
  obtain sv2 sv3 where new: "h \<notin> dom (esHeaders ?es)" and o2: "opened ?ep (svStore sv2)" "es_of ?ep (svStore sv2) = ?es\<lparr>esHeaders := (esHeaders ?es)(h \<mapsto> ?hd)\<rparr>"
    and k: "gPackInfos (svStore sv2) = gPackInfos ?s" "gPacks (svStore sv2) = gPacks ?s" "gPacksNum (svStore sv2) = gPacksNum ?s"
    and i: "indexEvent E now h e sv2 = Some sv3" "if svEpoch sv3 = ?ep then sv' = sv3 else enterEpoch E now ?ep sv3 = Some sv'"
    and e: "svEpoch sv3 = svEpoch sv2" "svEpoch sv' = svEpoch sv2" by (rule processEvent_ok [OF E(1) o h r]) blast
  let ?s2 = "svStore sv2"
  have ep: "svEpoch sv2 = ?ep" "sv' = sv3" using same e i(2) by simp_all
  define es3 where "es3 = ?es\<lparr>esHeaders := (esHeaders ?es)(h \<mapsto> ?hd), esTips := (esTips ?es)(eCreator e \<mapsto> h), esHeads := insert h (esHeads ?es - set (eParents e))\<rparr>"
  have "packsOnNewEvent (svCaches E) ?ep (svSize E e) h ?ep (put_es ?ep es3 ?s2) = Some (svStore sv')"
    using i(1) o2 ep by (auto simp: indexEvent_def SetLastEvent_def on_epoch_open indexHeads_open es3_def Let_def split: bind_splits if_splits prod.splits)
  moreover have "packs_inv ?ep (dom (esHeaders ?es)) (put_es ?ep es3 ?s2)"
    using inv packs_inv_cong [of "put_es ?ep es3 ?s2" ?s] k by (simp add: epoch_inv_def)
  ultimately have p: "packs_inv ?ep (insert h (dom (esHeaders ?es))) (svStore sv')" "gEpochs (svStore sv') = gEpochs (put_es ?ep es3 ?s2)"
    using packsOnNewEvent_inv [OF E(2) _ _ new few] o2(1) by (metis put_es_simps(1))+
  have f: "opened ?ep (svStore sv')" "es_of ?ep (svStore sv') = es3" using es_cong [OF p(2), of ?ep] o2(1) by simp_all
  have "eParents ?hd = eParents e" by (simp add: EventHeaderData.truncate_def)
  then have "heads_inv es3" using heads_inv_insert [OF _ new, of ?hd "(esTips ?es)(eCreator e \<mapsto> h)"] inv par by (simp add: es3_def epoch_inv_def)
  moreover have "esHeaders es3 = (esHeaders ?es)(h \<mapsto> ?hd)" by (simp add: es3_def)
  ultimately show ?thesis using f p(1) by (simp add: epoch_inv_def)
qed

subsection \<open>Runs within an epoch\<close>

definition fresh_epoch :: "Epoch \<Rightarrow> 'tx gossip \<Rightarrow> bool" where
  "fresh_epoch ep s \<longleftrightarrow> opened ep s \<and> es_of ep s = newEpochStore \<and> coherent (gPackInfos s) \<and>
     (\<forall>i. pack_of ep i s = {} \<and> ctTab (gPackInfos s) (ep, i) = None) \<and> gPacksNum s ep = None"

text \<open>Events connected one after the other, parents first, none of which ends the epoch.\<close>

inductive connected :: "('tx, 'c, 'b) service_env \<Rightarrow> Epoch \<Rightarrow> ('tx, 'c, 'b) service \<Rightarrow> (hash_event \<times> 'tx Event) list \<Rightarrow> ('tx, 'c, 'b) service \<Rightarrow> bool"
  for E ep sv0 where
  start: "connected E ep sv0 [] sv0"
| step: "connected E ep sv0 es sv \<Longrightarrow> processEvent E now h e sv = Some (None, sv') \<Longrightarrow> svEpoch sv' = ep \<Longrightarrow> eEpoch e = ep \<Longrightarrow>
    Event_Epoch h = Some ep \<Longrightarrow> set (eParents e) \<subseteq> fst ` set es \<Longrightarrow> connected E ep sv0 (es @ [(h, e)]) sv'"

lemma fresh_epoch_inv: "fresh_epoch ep s \<Longrightarrow> epoch_inv ep s"
  by (auto simp: fresh_epoch_def epoch_inv_def heads_inv_def packs_inv_def newEpochStore_def info_of_def GetPacksNumOrDefault_def)

lemma connected_inv:
  assumes "connected E ep sv0 es sv" "engine_keeps E" "evicts (evPacks (svCaches E))" "fresh_epoch ep (svStore sv0)" "length es < 2 ^ 31"
  shows "epoch_inv ep (svStore sv) \<and> dom (esHeaders (es_of ep (svStore sv))) = fst ` set es \<and>
     (\<forall>(h, e) \<in> set es. esHeaders (es_of ep (svStore sv)) h = Some (EventHeaderData.truncate e))"
  using assms(1,5)
proof induction
  case start
  then show ?case using fresh_epoch_inv assms(4) by (auto simp: fresh_epoch_def newEpochStore_def)
next
  case (step es sv now h e sv')
  then have ih: "epoch_inv ep (svStore sv)" "dom (esHeaders (es_of ep (svStore sv))) = fst ` set es"
      "\<forall>(h, e) \<in> set es. esHeaders (es_of ep (svStore sv)) h = Some (EventHeaderData.truncate e)" by simp_all
  have "card (fst ` set es) < 2 ^ 31" using step.prems card_image_le [of "set es" fst] card_length [of es] by simp
  then have k: "epoch_inv ep (svStore sv')" "esHeaders (es_of ep (svStore sv')) = (esHeaders (es_of ep (svStore sv)))(h \<mapsto> EventHeaderData.truncate e)"
    using processEvent_keeps [OF assms(2,3) _ _ _ _ step.hyps(2)] step.hyps ih(1,2) by simp_all
  have "h \<notin> fst ` set es"
  proof -
    have "opened ep (svStore sv)" using ih(1) by (simp add: epoch_inv_def)
    then have "HasEventHeader h (svStore sv) = Some (esHeaders (es_of ep (svStore sv)) h \<noteq> None, svStore sv)"
      using step.hyps(5) by (simp add: HasEventHeader_def getEpochStore_open)
    then show ?thesis using step.hyps(2) ih(2) by (auto simp: processEvent_def split: if_splits)
  qed
  moreover have "esHeaders (es_of ep (svStore sv)) a = Some (EventHeaderData.truncate b)" if "(a, b) \<in> set es" for a b using ih(3) that by auto
  ultimately show ?case using k ih(2) by (auto simp: image_iff)
qed


subsection \<open>The end of an epoch\<close>

lemma lone_pack:
  assumes C: "evicts (evPacks C)" and coh: "coherent (gPackInfos s)" and r: "packsOnNewEvent C q sz h ep s = Some s'"
    and none: "ctTab (gPackInfos s) (q, GetPacksNumOrDefault ep s) = None" and small: "sz < 2 * 1024 * 1024"
  shows "h \<in> pack_of ep (GetPacksNumOrDefault ep s) s'" "GetPacksNumOrDefault ep s' = GetPacksNumOrDefault ep s" "coherent (gPackInfos s')"
    "q \<noteq> ep \<Longrightarrow> ctTab (gPackInfos s') (q, i) = ctTab (gPackInfos s) (q, i)"
proof -
  let ?n = "GetPacksNumOrDefault ep s"
  obtain t where t: "GetPackInfoOrDefault C q ?n s = (info_of q ?n s, s\<lparr>gPackInfos := t\<rparr>)" "coherent t" "ctTab t = ctTab (gPackInfos s)"
    using GetPackInfoOrDefault_spec [OF C coh] by blast
  have i: "info_of q ?n s = \<lparr>piIndex = ?n, piSize = 0, NumOfEvents = 0, piHeads = []\<rparr>" using none by (simp add: info_of_def)
  have "\<not> maxPackSize \<le> (of_nat sz :: u32)" unfolding not_le using small by (simp add: maxPackSize_def word_less_nat_alt unsigned_of_nat take_bit_nat_eq_self)
  moreover have n1: "\<not> maxPackEventsNum \<le> (1 :: u32)" by (simp add: maxPackEventsNum_def word_le_nat_alt)
  ultimately have s': "s' = SetPackInfo C ep ?n \<lparr>piIndex = ?n, piSize = of_nat sz, NumOfEvents = 1, piHeads = []\<rparr> (AddToPack ep ?n h (s\<lparr>gPackInfos := t\<rparr>))"
    using r n1 unfolding packsOnNewEvent_def Let_def t(1) i by simp
  then show "h \<in> pack_of ep ?n s'" "GetPacksNumOrDefault ep s' = ?n"
    by (simp_all add: pack_of_def SetPackInfo_def AddToPack_def GetPacksNumOrDefault_def)
  have "coherent (gPackInfos (AddToPack ep ?n h (s\<lparr>gPackInfos := t\<rparr>)))" using t(2) by (simp add: AddToPack_def)
  from SetPackInfo_spec [OF C this] show "coherent (gPackInfos s')" "q \<noteq> ep \<Longrightarrow> ctTab (gPackInfos s') (q, i) = ctTab (gPackInfos s) (q, i)"
    using t(3) unfolding s' by (simp_all add: AddToPack_def)
qed

lemma pinned_empty:
  assumes C: "evicts (evPacks C)" and coh: "coherent (gPackInfos s)" and r: "packsOnNewEpoch C q ep s = Some s'"
    and none: "ctTab (gPackInfos s) (q, GetPacksNumOrDefault ep s) = None"
  shows "gPacks s' = gPacks s" "\<exists>hs. ctTab (gPackInfos s') (ep, GetPacksNumOrDefault ep s) = Some \<lparr>piIndex = GetPacksNumOrDefault ep s, piSize = 0, NumOfEvents = 0, piHeads = hs\<rparr>"
proof -
  let ?n = "GetPacksNumOrDefault ep s"
  obtain t where t: "GetPackInfoOrDefault C q ?n s = (info_of q ?n s, s\<lparr>gPackInfos := t\<rparr>)" "coherent t" "ctTab t = ctTab (gPackInfos s)"
    using GetPackInfoOrDefault_spec [OF C coh] by blast
  have i: "info_of q ?n s = \<lparr>piIndex = ?n, piSize = 0, NumOfEvents = 0, piHeads = []\<rparr>" using none by (simp add: info_of_def)
  obtain hs s1 where s1: "GetHeads_store ep (s\<lparr>gPackInfos := t\<rparr>) = Some (hs, s1)"
      "s' = SetPacksNum ep (?n + 1) (SetPackInfo C ep ?n \<lparr>piIndex = ?n, piSize = 0, NumOfEvents = 0, piHeads = hs\<rparr> s1)"
    using r unfolding packsOnNewEpoch_def Let_def t(1) i by (auto split: bind_splits)
  from s1(1) have g: "gPacks s1 = gPacks s" "gPackInfos s1 = t" by (auto simp: GetHeads_store_def getEpochStore_def split: bind_splits)
  show "gPacks s' = gPacks s" using s1(2) g by (simp add: SetPacksNum_def SetPackInfo_def)
  have "coherent (gPackInfos s1)" using t(2) g by simp
  from SetPackInfo_spec(2) [OF C this] s1(2) show "\<exists>hs. ctTab (gPackInfos s') (ep, ?n) = Some \<lparr>piIndex = ?n, piSize = 0, NumOfEvents = 0, piHeads = hs\<rparr>"
    by (simp add: SetPacksNum_def)
qed

text \<open>
  The info of the last pack is read under the engine's epoch, which is already the new one when an event
  has ended the old: the pack of the event that ends the epoch is stored with no events.
\<close>

theorem sealed_pack_info_lost:
  assumes E: "engine_keeps E" "evicts (evPacks (svCaches E))" and inv: "epoch_inv (eEpoch e) (svStore sv)" and h: "Event_Epoch h = Some (eEpoch e)"
    and small: "svSize E e < 2 * 1024 * 1024"
    and r: "processEvent E now h e sv = Some (None, sv')" and sealed: "svEpoch sv' \<noteq> eEpoch e"
    and none: "\<forall>i. ctTab (gPackInfos (svStore sv)) (svEpoch sv', i) = None"
  shows "let n = GetPacksNumOrDefault (eEpoch e) (svStore sv) in
     h \<in> pack_of (eEpoch e) n (svStore sv') \<and> NumOfEvents (info_of (eEpoch e) n (svStore sv')) = 0 \<and> piSize (info_of (eEpoch e) n (svStore sv')) = 0"
proof -
  let ?ep = "eEpoch e" let ?s = "svStore sv" let ?n = "GetPacksNumOrDefault ?ep ?s" let ?q = "svEpoch sv'"
  have o: "opened ?ep ?s" and coh: "coherent (gPackInfos ?s)" using inv by (simp_all add: epoch_inv_def packs_inv_def)
  obtain sv2 sv3 where o2: "opened ?ep (svStore sv2)" and k: "gPackInfos (svStore sv2) = gPackInfos ?s" "gPacks (svStore sv2) = gPacks ?s" "gPacksNum (svStore sv2) = gPacksNum ?s"
    and i: "indexEvent E now h e sv2 = Some sv3" "if svEpoch sv3 = ?ep then sv' = sv3 else enterEpoch E now ?ep sv3 = Some sv'"
    and e: "svEpoch sv3 = svEpoch sv2" "svEpoch sv' = svEpoch sv2" by (rule processEvent_ok [OF E(1) o h r]) blast
  obtain s2 where s2: "packsOnNewEvent (svCaches E) ?q (svSize E e) h ?ep s2 = Some (svStore sv3)" "gPackInfos s2 = gPackInfos ?s" "gPacks s2 = gPacks ?s" "gPacksNum s2 = gPacksNum ?s"
    using i(1) o2 k e by (auto simp: indexEvent_def SetLastEvent_def on_epoch_open indexHeads_open Let_def split: bind_splits if_splits prod.splits)
  have n: "GetPacksNumOrDefault ?ep s2 = ?n" using s2(4) by (simp add: GetPacksNumOrDefault_def)
  from lone_pack [OF E(2) _ s2(1) _ small] coh s2 none n have p: "h \<in> pack_of ?ep ?n (svStore sv3)" "GetPacksNumOrDefault ?ep (svStore sv3) = ?n"
      "coherent (gPackInfos (svStore sv3))" "ctTab (gPackInfos (svStore sv3)) (?q, ?n) = None" using sealed by auto
  have "enterEpoch E now ?ep sv3 = Some sv'" using i(2) e sealed by auto
  then obtain s4 where s4: "packsOnNewEpoch (svCaches E) ?q ?ep (svStore sv3) = Some s4" "gPacks (svStore sv') = gPacks s4" "gPackInfos (svStore sv') = gPackInfos s4"
    using e by (auto simp: enterEpoch_def getEpochStore_def delEpochStore_def Let_def split: bind_splits prod.splits)
  from pinned_empty [OF E(2) p(3) s4(1)] p s4(2,3) show ?thesis by (auto simp: pack_of_def info_of_def Let_def)
qed

subsection \<open>Witnesses\<close>

text \<open>A service with an engine that accepts every event without making a block.\<close>

definition quiet_caches :: "'tx caches" where
  "quiet_caches = \<lparr>evEvents = (\<lambda>m. m), evHeaders = (\<lambda>m. m), evPacks = (\<lambda>m. m)\<rparr>"

definition quiet_ring :: "unit evicting" where
  "quiet_ring = \<lparr>ecAdd = (\<lambda>_ _ c. (c, [])), ecRemove = (\<lambda>_ c. (c, [])), ecPurge = (\<lambda>c. (c, [])), ecPeek = (\<lambda>_ _. None), ecLen = (\<lambda>_. 0)\<rparr>"

definition quiet_env :: "(u64, unit, unit) service_env" where
  "quiet_env = \<lparr>svCaches = quiet_caches, svEngine = (\<lambda>e sv. Some (False, sv)), svSize = (\<lambda>_. 500), svSigned = (\<lambda>_. ([], None)),
     svRing = quiet_ring,
     svWorld = (\<lambda>_. \<lparr>GetLastEvent = \<lambda>_ _. None, GetHeads = \<lambda>_. [], GetEventHeader = \<lambda>_ _. None, AppValidators = \<lambda>_. [],
       HasEpochValidator = \<lambda>_ _. False, engineEpoch = 1, engineValidators = EqualStakeValidators [1] 1, PeersNum = 0, worldSynced = False\<rparr>),
     svValidators = (\<lambda>_. EqualStakeValidators [1] 1)\<rparr>"

definition quiet_service :: "(u64, unit, unit) service" where
  "quiet_service = \<lparr>svStore = \<lparr>gEvents = \<lparr>ctTab = Map.empty, ctLru = Map.empty\<rparr>, gEpochs = (1, [newEpochStore]), gHeadersLru = Map.empty,
     gPackInfos = \<lparr>ctTab = Map.empty, ctLru = Map.empty\<rparr>, gPacks = {}, gPacksNum = Map.empty, gLastHeaders = Map.empty, gRefunds = Map.empty\<rparr>,
     svOccurred = \<lparr>senders = (), rFrom = Map.empty\<rparr>, svEmitter = NewEmitter () small_config (DefaultEmitterConfig [49] 21000), svEpoch = 1\<rparr>"

definition event_id :: "byte \<Rightarrow> hash_event" where
  "event_id b = [0, 0, 0, 1] @ replicate 27 0 @ [b]"

lemma event_id_Epoch: "Event_Epoch (event_id b) = Some 1"
proof -
  have "BytesToInt32_BE [0, 0, 0, 1] = Some 1" by code_simp
  then show ?thesis by (simp add: Event_Epoch_def event_id_def slice_sub_def BytesToIdx_def)
qed

lemma packsOnNewEvent_returns:
  assumes "opened ep s"
  shows "\<exists>s'. packsOnNewEvent C q sz h ep s = Some s' \<and> gEpochs s' = gEpochs s"
proof -
  obtain p t where p: "GetPackInfoOrDefault C q (GetPacksNumOrDefault ep s) s = (p, s\<lparr>gPackInfos := t\<rparr>)"
    by (cases "ct_get (evPacks C) (q, GetPacksNumOrDefault ep s) (gPackInfos s)") (auto simp: GetPackInfoOrDefault_def)
  have "opened ep (AddToPack ep i h (s\<lparr>gPackInfos := t\<rparr>))" for i using assms by (simp add: AddToPack_def)
  from getEpochStore_open [OF this] show ?thesis
    by (simp add: packsOnNewEvent_def p Let_def GetHeads_store_def SetPackInfo_def SetPacksNum_def AddToPack_def)
qed

lemma quiet_connects:
  assumes "opened 1 (svStore sv)" "esHeaders (es_of 1 (svStore sv)) (event_id b) = None" "svEpoch sv = 1" "myStakerID (svEmitter sv) = 0"
    "eEpoch e = 1"
  shows "\<exists>sv'. processEvent quiet_env now (event_id b) e sv = Some (None, sv') \<and> svEpoch sv' = 1 \<and> myStakerID (svEmitter sv') = 0 \<and>
    opened 1 (svStore sv') \<and> esHeaders (es_of 1 (svStore sv')) = (esHeaders (es_of 1 (svStore sv)))(event_id b \<mapsto> EventHeaderData.truncate e)"
proof -
  let ?es = "(es_of 1 (svStore sv))\<lparr>esHeaders := (esHeaders (es_of 1 (svStore sv)))(event_id b \<mapsto> EventHeaderData.truncate e)\<rparr>"
  obtain s where s: "SetEvent quiet_caches (event_id b) e (svStore sv) = Some s" "opened 1 s" "es_of 1 s = ?es"
    using SetEvent_open [of e "svStore sv" quiet_caches "event_id b"] assms by fastforce
  let ?es3 = "?es\<lparr>esTips := (esTips ?es)(eCreator e \<mapsto> event_id b), esHeads := insert (event_id b) (esHeads ?es - set (eParents e))\<rparr>"
  obtain s' where s': "packsOnNewEvent quiet_caches 1 500 (event_id b) 1 (put_es 1 ?es3 s) = Some s'" "gEpochs s' = gEpochs (put_es 1 ?es3 s)"
    using packsOnNewEvent_returns [of 1 "put_es 1 ?es3 s" quiet_caches 1 500 "event_id b"] s(2) by (auto simp del: epochStore.simps)
  have o: "opened 1 s'" "es_of 1 s' = ?es3" using es_cong [OF s'(2), of 1] s(2) by simp_all
  have i: "indexEvent quiet_env now (event_id b) e (sv\<lparr>svStore := s\<rparr>) =
      Some (sv\<lparr>svStore := s', svOccurred := snd (CollectNotConfirmedTxs quiet_ring (map (\<lambda>_. ([], None)) (eTransactions e)) (svOccurred sv))\<rparr>)"
    using s(2,3) s'(1) assms(3,4,5) by (simp add: indexEvent_def SetLastEvent_def on_epoch_open indexHeads_open OnNewEvent_def quiet_env_def)
  have "processEvent quiet_env now (event_id b) e sv =
      Some (None, sv\<lparr>svStore := s', svOccurred := snd (CollectNotConfirmedTxs quiet_ring (map (\<lambda>_. ([], None)) (eTransactions e)) (svOccurred sv))\<rparr>)"
    using assms i s(1) by (simp add: processEvent_def HasEventHeader_def event_id_Epoch getEpochStore_open quiet_env_def)
  then show ?thesis using assms(3,4) o by simp
qed

lemma quiet_keeps: "engine_keeps quiet_env" "evicts (evPacks (svCaches quiet_env))"
  by (simp_all add: engine_keeps_def quiet_env_def quiet_caches_def evicts_def)

definition quiet_event :: "hash_event list \<Rightarrow> u64 Event" where
  "quiet_event ps = full_event 1 ps 1 10 28000 []"

lemma quiet_run:
  "\<exists>sv. connected quiet_env 1 quiet_service [(event_id 1, quiet_event []), (event_id 2, quiet_event [event_id 1])] sv"
proof -
  have e: "eEpoch (quiet_event ps) = 1" "eParents (quiet_event ps) = ps" for ps by (simp_all add: quiet_event_def full_event_def EventHeaderData.extend_def)
  have ne: "event_id 2 \<noteq> event_id 1" by (simp add: event_id_def)
  have o: "opened 1 (svStore quiet_service)" "esHeaders (es_of 1 (svStore quiet_service)) = Map.empty" "svEpoch quiet_service = 1" "myStakerID (svEmitter quiet_service) = 0"
    by (simp_all add: opened_def es_of_def quiet_service_def newEpochStore_def NewEmitter_def)
  obtain sv1 where 1: "processEvent quiet_env 0 (event_id 1) (quiet_event []) quiet_service = Some (None, sv1)" "svEpoch sv1 = 1" "myStakerID (svEmitter sv1) = 0"
      "opened 1 (svStore sv1)" "esHeaders (es_of 1 (svStore sv1)) = [event_id 1 \<mapsto> EventHeaderData.truncate (quiet_event [])]"
    using quiet_connects [of quiet_service 1 "quiet_event []" 0] o e by auto
  obtain sv2 where 2: "processEvent quiet_env 0 (event_id 2) (quiet_event [event_id 1]) sv1 = Some (None, sv2)" "svEpoch sv2 = 1"
    using quiet_connects [of sv1 2 "quiet_event [event_id 1]" 0] 1 e ne by auto
  have "connected quiet_env 1 quiet_service [(event_id 1, quiet_event [])] sv1"
    using connected.step [OF connected.start 1(1,2) e(1) event_id_Epoch] e(2) by simp
  from connected.step [OF this 2 e(1) event_id_Epoch] show ?thesis using e(2) by auto
qed


end
