(* ===== verification/State_Transition.thy ===== *)
theory State_Transition
  imports Emit_Rules
begin

text \<open>
  Execution of the transactions of a block: \<open>evmcore/gaspool.go\<close>, \<open>evmcore/state_transition.go\<close>,
  \<open>evmcore/state_processor.go\<close> and \<open>filterSkippedTxs\<close> of \<open>app/app.go\<close>. The state database and the
  interpreter are go-ethereum's: a state is an opaque value with the operations of \<open>statedb\<close>, the
  interpreter a pair of functions on states. A panic is \<^const>\<open>None\<close>.
\<close>

subsection \<open>Messages, states and the interpreter\<close>

record message =
  mFrom :: address
  mTo :: "address option"
  mGasPrice :: int
  mGas :: u64
  mValue :: int
  mNonce :: u64
  mCheckNonce :: bool
  mData :: bytes

record ('s, 'l) statedb =
  GetBalance :: "'s \<Rightarrow> address \<Rightarrow> int"
  SubBalance :: "address \<Rightarrow> int \<Rightarrow> 's \<Rightarrow> 's"
  AddBalance :: "address \<Rightarrow> int \<Rightarrow> 's \<Rightarrow> 's"
  GetNonce :: "'s \<Rightarrow> address \<Rightarrow> u64"
  SetNonce :: "address \<Rightarrow> u64 \<Rightarrow> 's \<Rightarrow> 's"
  GetRefund :: "'s \<Rightarrow> u64"
  dbPrepare :: "hash \<Rightarrow> hash \<Rightarrow> nat \<Rightarrow> 's \<Rightarrow> 's"
  Finalise :: "'s \<Rightarrow> 's"
  IntermediateRoot :: "'s \<Rightarrow> hash \<times> 's"
  GetLogs :: "'s \<Rightarrow> hash \<Rightarrow> 'l list"
  dbBlockHash :: "'s \<Rightarrow> hash"
  dbTxIndex :: "'s \<Rightarrow> nat"

datatype evm_err =
    ErrNonceTooHigh | ErrNonceTooLow | ErrInsufficientFunds | ErrInsufficientBalanceForGas | ErrGasLimitReached
  | VmOutOfGas | VmInsufficientBalance | VmOther | ErrInvalidSender

text \<open>Gas left, error and state after running a message with some gas.\<close>

type_synonym 's interpreter = "message \<Rightarrow> u64 \<Rightarrow> 's \<Rightarrow> u64 \<times> evm_err option \<times> 's"

record ('s, 'l, 'tx) evm_env =
  db :: "('s, 'l) statedb"
  evmCreate :: "'s interpreter"
  evmCall :: "'s interpreter"
  gasSchedule :: gas_schedule
  IsHomestead :: bool
  IsByzantium :: bool
  AsMessage :: "'tx \<Rightarrow> message option"
  txHashOf :: "'tx \<Rightarrow> hash"
  txCost :: "'tx \<Rightarrow> int"
  CreateAddress :: "address \<Rightarrow> u64 \<Rightarrow> address"

subsection \<open>The gas pool\<close>

definition AddGas :: "u64 \<Rightarrow> u64 \<Rightarrow> u64 option" where
  "AddGas amount gp = (if gp > - 1 - amount then None else Some (gp + amount))"

definition SubGas :: "u64 \<Rightarrow> u64 \<Rightarrow> evm_err + u64" where
  "SubGas amount gp = (if gp < amount then Inl ErrGasLimitReached else Inr (gp - amount))"

subsection \<open>One message\<close>

record 's StateTransition =
  stGp :: u64
  stMsg :: message
  stGas :: u64
  stInitialGas :: u64
  stState :: 's

definition NewStateTransition :: "message \<Rightarrow> u64 \<Rightarrow> 's \<Rightarrow> 's StateTransition" where
  "NewStateTransition msg gp s = \<lparr>stGp = gp, stMsg = msg, stGas = 0, stInitialGas = 0, stState = s\<rparr>"

definition useGas :: "u64 \<Rightarrow> 's StateTransition \<Rightarrow> evm_err + 's StateTransition" where
  "useGas amount st = (if stGas st < amount then Inl VmOutOfGas else Inr (st\<lparr>stGas := stGas st - amount\<rparr>))"

definition gasUsed :: "'s StateTransition \<Rightarrow> u64" where
  "gasUsed st = stInitialGas st - stGas st"

definition buyGas :: "('s, 'l) statedb \<Rightarrow> 's StateTransition \<Rightarrow> evm_err + 's StateTransition" where
  "buyGas d st = (let msg = stMsg st; mgval = uint (mGas msg) * mGasPrice msg in
     if GetBalance d (stState st) (mFrom msg) < mgval then Inl ErrInsufficientBalanceForGas
     else case SubGas (mGas msg) (stGp st) of
       Inl e \<Rightarrow> Inl e
     | Inr gp \<Rightarrow> Inr (st\<lparr>stGp := gp, stGas := stGas st + mGas msg, stInitialGas := mGas msg, stState := SubBalance d (mFrom msg) mgval (stState st)\<rparr>))"

definition preCheck :: "('s, 'l) statedb \<Rightarrow> 's StateTransition \<Rightarrow> evm_err + 's StateTransition" where
  "preCheck d st = (let msg = stMsg st; nonce = GetNonce d (stState st) (mFrom msg) in
     if mCheckNonce msg \<and> nonce < mNonce msg then Inl ErrNonceTooHigh
     else if mCheckNonce msg \<and> nonce > mNonce msg then Inl ErrNonceTooLow
     else buyGas d st)"

definition refundGas :: "('s, 'l) statedb \<Rightarrow> 's StateTransition \<Rightarrow> 's StateTransition option" where
  "refundGas d st = (let refund = gasUsed st div 2; refund = (if refund > GetRefund d (stState st) then GetRefund d (stState st) else refund);
       st = st\<lparr>stGas := stGas st + refund\<rparr>; remaining = uint (stGas st) * mGasPrice (stMsg st);
       st = st\<lparr>stState := AddBalance d (mFrom (stMsg st)) remaining (stState st)\<rparr> in
     do { gp \<leftarrow> AddGas (stGas st) (stGp st); Some (st\<lparr>stGp := gp\<rparr>) })"

text \<open>The interpreter's run, with the nonce of a call set before it.\<close>

definition runMessage :: "('s, 'l, 'tx) evm_env \<Rightarrow> 's StateTransition \<Rightarrow> u64 \<times> evm_err option \<times> 's" where
  "runMessage E st = (let msg = stMsg st; s = stState st in
     if mTo msg = None then evmCreate E msg (stGas st) s
     else evmCall E msg (stGas st) (SetNonce (db E) (mFrom msg) (GetNonce (db E) s (mFrom msg) + 1) s))"

text \<open>
  \<open>TransitionDb\<close>: gas used, fee and whether the run failed, or an error; the state is what it is then,
  also after an error.
\<close>

definition TransitionDb :: "('s, 'l, 'tx) evm_env \<Rightarrow> 's StateTransition \<Rightarrow> ((evm_err + u64 \<times> int \<times> bool) \<times> 's StateTransition) option" where
  "TransitionDb E st = (case preCheck (db E) st of
     Inl e \<Rightarrow> Some (Inl e, st)
   | Inr st \<Rightarrow> (case IntrinsicGas (gasSchedule E) (mData (stMsg st)) (mTo (stMsg st) = None) (IsHomestead E) of
       Inl _ \<Rightarrow> Some (Inl VmOutOfGas, st)
     | Inr gas \<Rightarrow> (case useGas gas st of
         Inl e \<Rightarrow> Some (Inl e, st)
       | Inr st \<Rightarrow> (case runMessage E st of (gasLeft, vmerr, s) \<Rightarrow>
           let st = st\<lparr>stGas := gasLeft, stState := s\<rparr> in
           case useGas (stGas st div 10) st of
             Inl e \<Rightarrow> Some (Inl e, st)
           | Inr st \<Rightarrow>
               if vmerr = Some VmInsufficientBalance then Some (Inl VmInsufficientBalance, st)
               else do {
                 st \<leftarrow> refundGas (db E) st;
                 Some (Inr (gasUsed st, uint (gasUsed st) * mGasPrice (stMsg st), vmerr \<noteq> None), st) }))))"

subsection \<open>One transaction\<close>

record 'l receipt =
  rRoot :: "hash option"
  rFailed :: bool
  rCumulativeGasUsed :: u64
  rTxHash :: hash
  rGasUsed :: u64
  rContractAddress :: "address option"
  rLogs :: "'l list"
  rBlockHash :: hash
  rBlockNumber :: Block
  rTransactionIndex :: nat

definition TransactionPreCheck :: "('s, 'l, 'tx) evm_env \<Rightarrow> 's \<Rightarrow> message \<Rightarrow> 'tx \<Rightarrow> evm_err option" where
  "TransactionPreCheck E s msg tx = (let nonce = GetNonce (db E) s (mFrom msg) in
     if nonce < mNonce msg then Some ErrNonceTooHigh
     else if nonce > mNonce msg then Some ErrNonceTooLow
     else if GetBalance (db E) s (mFrom msg) < txCost E tx then Some ErrInsufficientFunds
     else None)"

text \<open>The pool, the state and the gas used so far go in and out.\<close>

record 's chain_state =
  csGp :: u64
  csState :: 's
  csUsed :: u64

definition settle :: "('s, 'l, 'tx) evm_env \<Rightarrow> 's \<Rightarrow> hash option \<times> 's" where
  "settle E s = (if IsByzantium E then (None, Finalise (db E) s)
     else case IntermediateRoot (db E) s of (r, s) \<Rightarrow> (Some r, s))"

definition makeReceipt :: "('s, 'l, 'tx) evm_env \<Rightarrow> Block \<Rightarrow> 'tx \<Rightarrow> message \<Rightarrow> hash option \<Rightarrow> bool \<Rightarrow> u64 \<Rightarrow> u64 \<Rightarrow> 's \<Rightarrow> 'l receipt" where
  "makeReceipt E number tx msg stateRoot failed used gas s =
     \<lparr>rRoot = stateRoot, rFailed = failed, rCumulativeGasUsed = used, rTxHash = txHashOf E tx, rGasUsed = gas,
      rContractAddress = (if mTo msg = None then Some (CreateAddress E (mFrom msg) (mNonce msg)) else None),
      rLogs = GetLogs (db E) s (txHashOf E tx), rBlockHash = dbBlockHash (db E) s, rBlockNumber = number, rTransactionIndex = dbTxIndex (db E) s\<rparr>"

text \<open>An error with \<open>skip\<close>, or a receipt with the fee.\<close>

type_synonym 'l applied = "bool \<times> evm_err + 'l receipt \<times> int"

definition ApplyTransaction :: "('s, 'l, 'tx) evm_env \<Rightarrow> Block \<Rightarrow> bool \<Rightarrow> 'tx \<Rightarrow> 's chain_state \<Rightarrow> ('l applied \<times> 's chain_state) option" where
  "ApplyTransaction E number strict tx c = (case AsMessage E tx of
     None \<Rightarrow> Some (Inl (False, ErrInvalidSender), c)
   | Some msg \<Rightarrow> (case (if strict then None else TransactionPreCheck E (csState c) msg tx) of
       Some e \<Rightarrow> Some (Inl (True, e), c)
     | None \<Rightarrow> do {
         (res, st) \<leftarrow> TransitionDb E (NewStateTransition msg (csGp c) (csState c));
         let c = c\<lparr>csGp := stGp st, csState := stState st\<rparr>;
         Some (case res of
           Inl e \<Rightarrow> (Inl (False, e), c)
         | Inr (gas, fee, failed) \<Rightarrow> (case settle E (csState c) of (stateRoot, s) \<Rightarrow>
             let used = csUsed c + gas in
             (Inr (makeReceipt E number tx msg stateRoot failed used gas s, fee), c\<lparr>csState := s, csUsed := used\<rparr>))) }))"

subsection \<open>The transactions of a block\<close>

record ('s, 'l) processed =
  prReceipts :: "'l receipt list"
  prLogs :: "'l list"
  prFee :: int
  prSkipped :: "nat list"
  prChain :: "'s chain_state"

text \<open>
  In strict mode an error is not looked at: the nil receipt is dereferenced, which panics.
\<close>

definition processTx :: "('s, 'l, 'tx) evm_env \<Rightarrow> Block \<Rightarrow> hash \<Rightarrow> bool \<Rightarrow> nat \<times> 'tx \<Rightarrow> ('s, 'l) processed \<Rightarrow> ('s, 'l) processed option" where
  "processTx E number blockHash strict itx p = (case itx of (i, tx) \<Rightarrow> do {
     let c = (prChain p)\<lparr>csState := dbPrepare (db E) (txHashOf E tx) blockHash i (csState (prChain p))\<rparr>;
     (res, c) \<leftarrow> ApplyTransaction E number strict tx c;
     case res of
       Inl _ \<Rightarrow> if strict then None else Some (p\<lparr>prSkipped := prSkipped p @ [i], prChain := c\<rparr>)
     | Inr (r, fee) \<Rightarrow> Some (p\<lparr>prReceipts := prReceipts p @ [r], prLogs := prLogs p @ rLogs r, prFee := prFee p + fee, prChain := c\<rparr>) })"

definition Process :: "('s, 'l, 'tx) evm_env \<Rightarrow> Block \<Rightarrow> hash \<Rightarrow> u64 \<Rightarrow> bool \<Rightarrow> 'tx list \<Rightarrow> 's \<Rightarrow> ('s, 'l) processed option" where
  "Process E number blockHash gasLimit strict txs s = do {
     gp \<leftarrow> AddGas gasLimit 0;
     foldM (\<lambda>p itx. processTx E number blockHash strict itx p)
       \<lparr>prReceipts = [], prLogs = [], prFee = 0, prSkipped = [], prChain = \<lparr>csGp = gp, csState = s, csUsed = 0\<rparr>\<rparr> (enumerate 0 txs) }"

text \<open>\<open>filterSkippedTxs\<close>: the loop over the transactions with the next entry of \<open>SkippedTxs\<close>.\<close>

fun filterLoop :: "nat \<Rightarrow> nat list \<Rightarrow> 'tx list \<Rightarrow> 'tx list" where
  "filterLoop i skipped [] = []"
| "filterLoop i skipped (tx # txs) = (case skipped of
     [] \<Rightarrow> tx # filterLoop (i + 1) skipped txs
   | k # ks \<Rightarrow> if k = i then filterLoop (i + 1) ks txs else tx # filterLoop (i + 1) skipped txs)"

definition filterSkippedTxs :: "nat list \<Rightarrow> 'tx list \<Rightarrow> 'tx list" where
  "filterSkippedTxs skipped txs = filterLoop 0 skipped txs"

subsection \<open>Gas\<close>

text \<open>The interpreter returns no more gas than it was given.\<close>

definition interpreter_ok :: "('s, 'l, 'tx) evm_env \<Rightarrow> bool" where
  "interpreter_ok E \<longleftrightarrow> (\<forall>m g s. fst (evmCreate E m g s) \<le> g \<and> fst (evmCall E m g s) \<le> g)"

lemma runMessage_gas: "interpreter_ok E \<Longrightarrow> fst (runMessage E st) \<le> stGas st"
  by (simp add: interpreter_ok_def runMessage_def Let_def)

lemma uint64_less: "unat (x :: u64) < 18446744073709551616"
  using unsigned_less [of x] by simp

lemma AddGas_fits:
  assumes "unat gp + unat a < 18446744073709551616"
  shows "AddGas a gp = Some (gp + a)"
proof -
  have "unat (- 1 - a) = unat (- 1 :: u64) - unat a" by (rule unat_sub) simp
  moreover have "unat (- 1 :: u64) = 18446744073709551615" by (simp add: unsigned_minus_1_eq_mask mask_eq_exp_minus_1)
  ultimately have "\<not> gp > - 1 - a" using assms by (simp add: not_less word_le_nat_alt)
  then show ?thesis by (simp add: AddGas_def)
qed

lemma refundGas_ok:
  assumes "stGas st \<le> stInitialGas st" "stInitialGas st \<le> G" "stGp st = G - stInitialGas st"
  shows "\<exists>g. refundGas d st = Some (st\<lparr>stGas := g, stState := AddBalance d (mFrom (stMsg st)) (uint g * mGasPrice (stMsg st)) (stState st),
      stGp := G - (stInitialGas st - g)\<rparr>) \<and> g \<le> stInitialGas st"
proof -
  define r where "r = (if gasUsed st div 2 > GetRefund d (stState st) then GetRefund d (stState st) else gasUsed st div 2)"
  define g where "g = stGas st + r"
  have u: "unat (gasUsed st) = unat (stInitialGas st) - unat (stGas st)" using assms(1) by (simp add: gasUsed_def unat_sub)
  have "unat r \<le> unat (gasUsed st) div 2" by (auto simp: r_def unat_div not_less word_less_nat_alt)
  then have r: "unat (stGas st) + unat r \<le> unat (stInitialGas st)" using u assms(1) by (simp add: word_le_nat_alt)
  then have "unat (stGas st) + unat r < 2 ^ LENGTH(64)" using uint64_less [of "stInitialGas st"] by simp
  then have g: "unat g = unat (stGas st) + unat r" by (simp add: g_def unat_word_ariths)
  have le: "g \<le> stInitialGas st" using r g by (simp add: word_le_nat_alt)
  have "unat (G - stInitialGas st) + unat g \<le> unat G" using le assms(2) by (simp add: unat_sub word_le_nat_alt)
  then have "AddGas g (stGp st) = Some (G - (stInitialGas st - g))" using uint64_less [of G] AddGas_fits [of "stGp st" g] by (simp add: assms(3))
  then show ?thesis using le by (intro exI [of _ g]) (simp add: refundGas_def Let_def flip: r_def g_def)
qed

lemma preCheck_Inr:
  assumes "preCheck d (NewStateTransition msg gp s) = Inr st"
  shows "mGas msg \<le> gp" "st = \<lparr>stGp = gp - mGas msg, stMsg = msg, stGas = mGas msg, stInitialGas = mGas msg,
    stState = SubBalance d (mFrom msg) (uint (mGas msg) * mGasPrice msg) s\<rparr>"
  using assms by (auto simp: preCheck_def buyGas_def NewStateTransition_def SubGas_def Let_def split: if_splits)

lemma useGas_tenth: "\<exists>st'. useGas (stGas st div 10) st = Inr st' \<and> st' = st\<lparr>stGas := stGas st - stGas st div 10\<rparr> \<and> stGas st' \<le> stGas st"
proof -
  have "stGas st div 10 \<le> stGas st" by (simp add: word_le_nat_alt unat_div)
  then show ?thesis by (auto simp: useGas_def not_le intro: word_sub_le)
qed

subsection \<open>One message: returns, gas, money\<close>

text \<open>
  Money: \<open>money\<close> is the sum of all balances. The interpreter moves money and may destroy some (a
  contract that destroys itself in its own favour) but makes none.
\<close>

definition money_ok :: "('s, 'l, 'tx) evm_env \<Rightarrow> ('s \<Rightarrow> int) \<Rightarrow> bool" where
  "money_ok E money \<longleftrightarrow>
     (\<forall>a x s. money (SubBalance (db E) a x s) = money s - x) \<and> (\<forall>a x s. money (AddBalance (db E) a x s) = money s + x) \<and>
     (\<forall>a n s. money (SetNonce (db E) a n s) = money s) \<and> (\<forall>h b i s. money (dbPrepare (db E) h b i s) = money s) \<and>
     (\<forall>s. money (Finalise (db E) s) \<le> money s) \<and> (\<forall>s. money (snd (IntermediateRoot (db E) s)) \<le> money s) \<and>
     (\<forall>m g s. money (snd (snd (evmCreate E m g s))) \<le> money s \<and> money (snd (snd (evmCall E m g s))) \<le> money s)"

lemma runMessage_money: "money_ok E money \<Longrightarrow> money (snd (snd (runMessage E st))) \<le> money (stState st)"
  by (simp add: money_ok_def runMessage_def Let_def) metis

definition transition_ok :: "message \<Rightarrow> u64 \<Rightarrow> ('s \<Rightarrow> int) \<Rightarrow> 's \<Rightarrow> (evm_err + u64 \<times> int \<times> bool) \<Rightarrow> 's StateTransition \<Rightarrow> bool" where
  "transition_ok msg gp money s res st \<longleftrightarrow> (case res of
     Inl e \<Rightarrow> stGp st \<le> gp \<and> money (stState st) \<le> money s
   | Inr (gas, fee, failed) \<Rightarrow> gas \<le> mGas msg \<and> fee = uint gas * mGasPrice msg \<and> gas \<le> gp \<and> stGp st = gp - gas \<and> money (stState st) + fee \<le> money s)"

lemma TransitionDb_ok:
  assumes I: "interpreter_ok E" and M: "money_ok E money" and price: "0 \<le> mGasPrice msg"
  shows "\<exists>res st. TransitionDb E (NewStateTransition msg gp s) = Some (res, st) \<and> transition_ok msg gp money s res st"
proof (cases "preCheck (db E) (NewStateTransition msg gp s)")
  case (Inl e)
  then show ?thesis by (simp add: TransitionDb_def transition_ok_def NewStateTransition_def)
next
  case (Inr st1)
  note pre = preCheck_Inr [OF Inr]
  let ?cost = "uint (mGas msg) * mGasPrice msg"
  have t1: "money (stState st1) = money s - ?cost" "0 \<le> ?cost" using M pre(2) price by (simp_all add: money_ok_def)
  have gp1: "stGp st1 \<le> gp" using pre by (simp add: word_sub_le)
  show ?thesis
  proof (cases "IntrinsicGas (gasSchedule E) (mData msg) (mTo msg = None) (IsHomestead E)")
    case (Inl _)
    then show ?thesis using Inr pre t1 gp1 by (simp add: TransitionDb_def transition_ok_def)
  next
    case gas: (Inr gas)
    show ?thesis
    proof (cases "stGas st1 < gas")
      case True
      then show ?thesis using Inr gas pre t1 gp1 by (simp add: TransitionDb_def transition_ok_def useGas_def)
    next
      case False
      define st2 where "st2 = st1\<lparr>stGas := stGas st1 - gas\<rparr>"
      have st1: "stMsg st1 = msg" "useGas gas st1 = Inr st2" using pre(2) False by (simp_all add: useGas_def st2_def)
      obtain g v s3 where run: "runMessage E st2 = (g, v, s3)" by (cases "runMessage E st2") auto
      have "g \<le> stGas st2" using runMessage_gas [OF I, of st2] run by simp
      then have g: "g \<le> mGas msg" using False pre(2) by (simp add: st2_def not_less) (meson order_trans word_sub_le)
      have s3: "money s3 \<le> money s - ?cost" using runMessage_money [OF M, of st2] run t1 by (simp add: st2_def)
      define st3 where "st3 = st2\<lparr>stGas := g, stState := s3\<rparr>"
      have g3: "stGas st3 = g" by (simp add: st3_def)
      obtain st4 where st4: "useGas (stGas st3 div 10) st3 = Inr st4" "st4 = st3\<lparr>stGas := stGas st3 - stGas st3 div 10\<rparr>" "stGas st4 \<le> stGas st3"
        using useGas_tenth by blast
      have f: "stGp st4 = gp - mGas msg" "stMsg st4 = msg" "stInitialGas st4 = mGas msg" "stState st4 = s3" "stGas st4 \<le> mGas msg"
        using st4(2,3) pre(2) g by (simp_all add: st3_def st2_def)
      have T: "TransitionDb E (NewStateTransition msg gp s) = (if v = Some VmInsufficientBalance then Some (Inl VmInsufficientBalance, st4)
          else do { st \<leftarrow> refundGas (db E) st4; Some (Inr (gasUsed st, uint (gasUsed st) * mGasPrice (stMsg st), v \<noteq> None), st) })"
        using st4(1) by (simp add: TransitionDb_def Inr gas st1 run Let_def g3 flip: st3_def)
      show ?thesis
      proof (cases "v = Some VmInsufficientBalance")
        case True
        then show ?thesis using T f s3 t1(2) gp1 pre by (simp add: transition_ok_def)
      next
        case ok: False
        have "stGas st4 \<le> stInitialGas st4" "stInitialGas st4 \<le> gp" "stGp st4 = gp - stInitialGas st4" using f pre(1) by simp_all
        from refundGas_ok [OF this, of "db E"] obtain g5 where r: "g5 \<le> mGas msg"
          "refundGas (db E) st4 = Some (st4\<lparr>stGas := g5, stState := AddBalance (db E) (mFrom msg) (uint g5 * mGasPrice msg) s3, stGp := gp - (mGas msg - g5)\<rparr>)"
          using f by auto
        have used: "mGas msg - g5 \<le> mGas msg" "uint (mGas msg - g5) = uint (mGas msg) - uint g5" using r(1) by (simp_all add: word_sub_le uint_sub_lem word_le_def)
        have "money (AddBalance (db E) (mFrom msg) (uint g5 * mGasPrice msg) s3) + uint (mGas msg - g5) * mGasPrice msg \<le> money s"
          using M s3 by (simp add: money_ok_def used(2) left_diff_distrib)
        then show ?thesis using T ok r used(1) pre(1) f by (simp add: transition_ok_def gasUsed_def)
      qed
    qed
  qed
qed

text \<open>
  What is relied on for a message of a checked transaction: the intrinsic gas is covered, prices and
  values are not negative, and the cost is gas times price plus value.
\<close>

definition covered :: "('s, 'l, 'tx) evm_env \<Rightarrow> 'tx \<Rightarrow> bool" where
  "covered E tx \<longleftrightarrow> (\<forall>msg. AsMessage E tx = Some msg \<longrightarrow> 0 \<le> mGasPrice msg \<and> 0 \<le> mValue msg \<and> mCheckNonce msg \<and>
     txCost E tx = uint (mGas msg) * mGasPrice msg + mValue msg \<and>
     (\<exists>g. IntrinsicGas (gasSchedule E) (mData msg) (mTo msg = None) (IsHomestead E) = Inr g \<and> g \<le> mGas msg))"

text \<open>The basic checks of an event cover its transactions.\<close>

lemma checked_covered:
  assumes "validateTx (gasSchedule E) ops tx = None" "IsHomestead E" "txCost E tx = uint (txGas ops tx) * txGasPrice ops tx + txValue ops tx"
    and "\<And>msg. AsMessage E tx = Some msg \<Longrightarrow> mGas msg = txGas ops tx \<and> mGasPrice msg = txGasPrice ops tx \<and> mValue msg = txValue ops tx \<and>
      mData msg = txData ops tx \<and> (mTo msg = None \<longleftrightarrow> txCreates ops tx) \<and> mCheckNonce msg"
  shows "covered E tx"
  using assms by (auto simp: covered_def validateTx_def not_less split: if_splits sum.splits)

text \<open>The interpreter refuses a transfer only to a sender who cannot pay it.\<close>

definition transfer_ok :: "('s, 'l, 'tx) evm_env \<Rightarrow> bool" where
  "transfer_ok E \<longleftrightarrow>
     (\<forall>a x s. GetBalance (db E) (SubBalance (db E) a x s) a = GetBalance (db E) s a - x) \<and>
     (\<forall>a b n s. GetBalance (db E) (SetNonce (db E) a n s) b = GetBalance (db E) s b) \<and>
     (\<forall>m g s. fst (snd (evmCreate E m g s)) = Some VmInsufficientBalance \<longrightarrow> GetBalance (db E) s (mFrom m) < mValue m) \<and>
     (\<forall>m g s. fst (snd (evmCall E m g s)) = Some VmInsufficientBalance \<longrightarrow> GetBalance (db E) s (mFrom m) < mValue m)"

lemma runMessage_transfer:
  "transfer_ok E \<Longrightarrow> fst (snd (runMessage E st)) = Some VmInsufficientBalance \<Longrightarrow> GetBalance (db E) (stState st) (mFrom (stMsg st)) < mValue (stMsg st)"
  by (auto simp: transfer_ok_def runMessage_def Let_def split: if_splits) metis

lemma TransitionDb_free:
  assumes T: "transfer_ok E" and "interpreter_ok E" and c: "covered E tx" "AsMessage E tx = Some msg" and pre: "TransactionPreCheck E s msg tx = None"
    and r: "TransitionDb E (NewStateTransition msg gp s) = Some (Inl e, st)"
  shows "st = NewStateTransition msg gp s"
proof (cases "preCheck (db E) (NewStateTransition msg gp s)")
  case (Inl e')
  then show ?thesis using r by (simp add: TransitionDb_def)
next
  case (Inr st1)
  note st1 = preCheck_Inr(2) [OF Inr]
  obtain g where g: "IntrinsicGas (gasSchedule E) (mData msg) (mTo msg = None) (IsHomestead E) = Inr g" "g \<le> mGas msg" using c by (auto simp: covered_def)
  define st2 where "st2 = st1\<lparr>stGas := stGas st1 - g\<rparr>"
  have u: "stMsg st1 = msg" "useGas g st1 = Inr st2" using g(2) st1 by (simp_all add: useGas_def st2_def)
  obtain k v s3 where run: "runMessage E st2 = (k, v, s3)" by (cases "runMessage E st2") auto
  have "mValue msg \<le> GetBalance (db E) (stState st2) (mFrom msg)"
    using T pre c st1 by (auto simp: transfer_ok_def TransactionPreCheck_def covered_def st2_def Let_def split: if_splits)
  then have v: "v \<noteq> Some VmInsufficientBalance" using runMessage_transfer [OF T, of st2] run u(1) by (auto simp: st2_def)
  obtain st4 where "useGas (k div 10) (st2\<lparr>stGas := k, stState := s3\<rparr>) = Inr st4" using useGas_tenth [of "st2\<lparr>stGas := k, stState := s3\<rparr>"] by auto
  then show ?thesis using r g(1) u run v by (auto simp: TransitionDb_def Inr Let_def split: bind_splits)
qed

lemma ApplyTransaction_free:
  assumes "transfer_ok E" "interpreter_ok E" "covered E tx" "ApplyTransaction E number False tx c = Some (Inl e, c')"
  shows "c' = c"
proof (cases "AsMessage E tx")
  case (Some msg)
  show ?thesis
  proof (cases "TransactionPreCheck E (csState c) msg tx")
    case None
    from assms(4) Some None obtain e' st where t: "TransitionDb E (NewStateTransition msg (csGp c) (csState c)) = Some (Inl e', st)"
      "c' = c\<lparr>csGp := stGp st, csState := stState st\<rparr>"
      by (auto simp: ApplyTransaction_def Let_def split: bind_splits sum.splits prod.splits)
    from TransitionDb_free [OF assms(1-3) Some None t(1)] t(2) show ?thesis by (simp add: NewStateTransition_def)
  qed (use assms(4) Some in \<open>simp add: ApplyTransaction_def\<close>)
qed (use assms(4) in \<open>simp add: ApplyTransaction_def\<close>)

text \<open>
  C26. A skipped transaction costs nothing: applying a transaction of a checked event that ends in an
  error leaves the state, the gas pool and the gas used exactly as they were.
\<close>

theorem skipped_transaction_free:
  assumes "transfer_ok E" "interpreter_ok E" "covered E tx" "ApplyTransaction E number False tx c = Some (Inl e, c')"
  shows "c' = c"
  using ApplyTransaction_free [OF assms] .

definition executed :: "('s, 'l, 'tx) evm_env \<Rightarrow> 'tx \<Rightarrow> 'l receipt \<Rightarrow> bool" where
  "executed E tx r \<longleftrightarrow> (\<exists>msg. AsMessage E tx = Some msg \<and> rTxHash r = txHashOf E tx \<and> rGasUsed r \<le> mGas msg)"

definition feeOf :: "('s, 'l, 'tx) evm_env \<Rightarrow> 'tx \<Rightarrow> 'l receipt \<Rightarrow> int" where
  "feeOf E tx r = (case AsMessage E tx of None \<Rightarrow> 0 | Some msg \<Rightarrow> uint (rGasUsed r) * mGasPrice msg)"

lemma settle_money: "money_ok E money \<Longrightarrow> money (snd (settle E s)) \<le> money s"
  by (auto simp: money_ok_def settle_def split: prod.split) (metis snd_conv)

lemma ApplyTransaction_ok:
  assumes I: "interpreter_ok E" and M: "money_ok E money" and c: "covered E tx"
  shows "\<exists>res c'. ApplyTransaction E number strict tx c = Some (res, c') \<and> (case res of Inl _ \<Rightarrow> True | Inr (r, fee) \<Rightarrow>
     executed E tx r \<and> fee = feeOf E tx r \<and> rGasUsed r \<le> csGp c \<and> csGp c' = csGp c - rGasUsed r \<and> csUsed c' = csUsed c + rGasUsed r \<and>
     money (csState c') + fee \<le> money (csState c))"
proof (cases "AsMessage E tx")
  case (Some msg)
  have "0 \<le> mGasPrice msg" using c Some by (simp add: covered_def)
  from TransitionDb_ok [OF I M this, of "csGp c" "csState c"] obtain res st where
    t: "TransitionDb E (NewStateTransition msg (csGp c) (csState c)) = Some (res, st)" "transition_ok msg (csGp c) money (csState c) res st" by blast
  show ?thesis
  proof (cases "if strict then None else TransactionPreCheck E (csState c) msg tx")
    case None
    note settle_money [OF M, of "stState st"]
    then show ?thesis using Some None t
      by (cases res) (auto simp: ApplyTransaction_def transition_ok_def executed_def feeOf_def makeReceipt_def Let_def split: prod.splits)
  qed (use Some in \<open>simp add: ApplyTransaction_def\<close>)
qed (simp add: ApplyTransaction_def)

subsection \<open>The block\<close>

lemma filterLoop_snoc:
  assumes "sorted_wrt (<) ks" "\<forall>k \<in> set ks. i \<le> k \<and> k < i + length txs"
  shows "filterLoop i ks (txs @ [tx]) = filterLoop i ks txs @ [tx]" "filterLoop i (ks @ [i + length txs]) (txs @ [tx]) = filterLoop i ks txs"
proof -
  have "filterLoop i ks (txs @ [tx]) = filterLoop i ks txs @ [tx] \<and> filterLoop i (ks @ [i + length txs]) (txs @ [tx]) = filterLoop i ks txs" using assms
  proof (induction txs arbitrary: i ks)
    case (Cons a txs)
    have shift: "i + length (a # txs) = i + 1 + length txs" by simp
    show ?case
    proof (cases ks)
      case Nil
      then show ?thesis using Cons.IH [of "[]" "i + 1"] by simp
    next
      case (Cons k ks')
      show ?thesis
      proof (cases "k = i")
        case True
        have "sorted_wrt (<) ks'" "\<forall>k \<in> set ks'. i + 1 \<le> k \<and> k < i + 1 + length txs" using Cons.prems Cons True by fastforce+
        from Cons.IH [OF this] show ?thesis using Cons True by simp
      next
        case False
        have "sorted_wrt (<) ks" "\<forall>k \<in> set ks. i + 1 \<le> k \<and> k < i + 1 + length txs" using Cons.prems Cons False by force+
        from Cons.IH [OF this] show ?thesis using Cons False by simp
      qed
    qed
  next
    case Nil
    then have "ks = []" by (cases ks) auto
    then show ?case by simp
  qed
  then show "filterLoop i ks (txs @ [tx]) = filterLoop i ks txs @ [tx]" "filterLoop i (ks @ [i + length txs]) (txs @ [tx]) = filterLoop i ks txs" by simp_all
qed

definition block_ok :: "('s, 'l, 'tx) evm_env \<Rightarrow> ('s \<Rightarrow> int) \<Rightarrow> u64 \<Rightarrow> 's \<Rightarrow> 'tx list \<Rightarrow> ('s, 'l) processed \<Rightarrow> bool" where
  "block_ok E money gasLimit s txs p \<longleftrightarrow>
     (let kept = filterSkippedTxs (prSkipped p) txs; rs = prReceipts p; used = sum_list (map (unat \<circ> rGasUsed) rs) in
      sorted_wrt (<) (prSkipped p) \<and> (\<forall>k \<in> set (prSkipped p). k < length txs) \<and> list_all2 (executed E) kept rs \<and>
      unat (csUsed (prChain p)) = used \<and> unat (csGp (prChain p)) + used = unat gasLimit \<and>
      prFee p = sum_list (map2 (feeOf E) kept rs) \<and> money (csState (prChain p)) + prFee p \<le> money s)"

lemma processTx_ok:
  assumes T: "transfer_ok E" and I: "interpreter_ok E" and M: "money_ok E money" and c: "covered E tx" and b: "block_ok E money gasLimit s txs p"
  shows "\<exists>p'. processTx E number bh False (length txs, tx) p = Some p' \<and> block_ok E money gasLimit s (txs @ [tx]) p'"
proof -
  let ?c = "(prChain p)\<lparr>csState := dbPrepare (db E) (txHashOf E tx) bh (length txs) (csState (prChain p))\<rparr>"
  have m: "money (csState ?c) = money (csState (prChain p))" using M by (simp add: money_ok_def)
  have sk: "sorted_wrt (<) (prSkipped p)" "\<forall>k \<in> set (prSkipped p). 0 \<le> k \<and> k < 0 + length txs" using b by (simp_all add: block_ok_def Let_def)
  note snoc = filterLoop_snoc [OF sk, of tx]
  obtain res c' where a: "ApplyTransaction E number False tx ?c = Some (res, c')" "case res of Inl _ \<Rightarrow> True | Inr (r, fee) \<Rightarrow>
     executed E tx r \<and> fee = feeOf E tx r \<and> rGasUsed r \<le> csGp ?c \<and> csGp c' = csGp ?c - rGasUsed r \<and> csUsed c' = csUsed ?c + rGasUsed r \<and>
     money (csState c') + fee \<le> money (csState ?c)" using ApplyTransaction_ok [OF I M c] by blast
  show ?thesis
  proof (cases res)
    case (Inl e)
    then have "c' = ?c" using ApplyTransaction_free [OF T I c] a(1) by blast
    then show ?thesis using b a(1) Inl m snoc(2)
      by (auto simp: processTx_def block_ok_def filterSkippedTxs_def sorted_wrt_append Let_def)
  next
    case (Inr rf)
    obtain r fee where rf: "rf = (r, fee)" by fastforce
    have g: "executed E tx r" "fee = feeOf E tx r" "rGasUsed r \<le> csGp (prChain p)" "csGp c' = csGp (prChain p) - rGasUsed r" "csUsed c' = csUsed (prChain p) + rGasUsed r"
       "money (csState c') + fee \<le> money (csState (prChain p))" using a(2) Inr rf m by simp_all
    have "unat (csUsed (prChain p)) + unat (csGp (prChain p)) = unat gasLimit" using b by (simp add: block_ok_def Let_def)
    then have "unat (csUsed (prChain p)) + unat (rGasUsed r) < 18446744073709551616" using g(3) uint64_less [of gasLimit] by (simp add: word_le_nat_alt)
    then have u: "unat (csUsed c') = unat (csUsed (prChain p)) + unat (rGasUsed r)" "unat (csGp c') = unat (csGp (prChain p)) - unat (rGasUsed r)"
      using g(3,4,5) by (simp_all add: unat_word_ariths unat_sub)
    let ?p = "p\<lparr>prReceipts := prReceipts p @ [r], prLogs := prLogs p @ rLogs r, prFee := prFee p + fee, prChain := c'\<rparr>"
    have p: "processTx E number bh False (length txs, tx) p = Some ?p" using a(1) Inr rf by (simp add: processTx_def)
    have len: "length (filterLoop 0 (prSkipped p) txs) = length (prReceipts p)" using b by (auto simp: block_ok_def filterSkippedTxs_def Let_def dest: list_all2_lengthD)
    have "block_ok E money gasLimit s (txs @ [tx]) ?p"
      using b g u snoc(1) len by (auto simp: block_ok_def filterSkippedTxs_def Let_def word_le_nat_alt list_all2_appendI intro: less_SucI)
    with p show ?thesis by blast
  qed
qed

lemma Process_ok:
  assumes "transfer_ok E" "interpreter_ok E" "money_ok E money" "\<forall>tx \<in> set txs. covered E tx"
  shows "\<exists>p. Process E number bh gasLimit False txs s = Some p \<and>
     (let kept = filterSkippedTxs (prSkipped p) txs; rs = prReceipts p; used = sum_list (map (unat \<circ> rGasUsed) rs) in
      list_all2 (executed E) kept rs \<and> unat (csUsed (prChain p)) = used \<and> used \<le> unat gasLimit \<and>
      prFee p = sum_list (map2 (feeOf E) kept rs) \<and> money (csState (prChain p)) + prFee p \<le> money s)"
proof -
  let ?p0 = "\<lparr>prReceipts = [], prLogs = [], prFee = 0, prSkipped = [], prChain = \<lparr>csGp = gasLimit, csState = s, csUsed = 0\<rparr>\<rparr>"
  let ?f = "\<lambda>p itx. processTx E number bh False itx p"
  have "\<exists>p. foldM ?f ?p0 (enumerate 0 txs) = Some p \<and> block_ok E money gasLimit s txs p" using assms(4)
  proof (induction txs rule: rev_induct)
    case (snoc tx txs)
    then obtain p where p: "foldM ?f ?p0 (enumerate 0 txs) = Some p" "block_ok E money gasLimit s txs p" by auto
    have "covered E tx" using snoc.prems by simp
    from processTx_ok [OF assms(1-3) this p(2)] p(1) show ?case by (simp add: foldM_append enumerate_append_eq)
  qed (simp add: block_ok_def filterSkippedTxs_def)
  then obtain p where "foldM ?f ?p0 (enumerate 0 txs) = Some p" "block_ok E money gasLimit s txs p" by blast
  moreover have "AddGas gasLimit 0 = Some gasLimit" using AddGas_fits [of 0 gasLimit] uint64_less [of gasLimit] by simp
  ultimately show ?thesis by (auto simp: Process_def block_ok_def Let_def)
qed

lemma Process_receipts:
  assumes "transfer_ok E" "interpreter_ok E" "money_ok E money" "\<forall>tx \<in> set txs. covered E tx"
  shows "\<exists>p. Process E number bh gasLimit False txs s = Some p \<and> list_all2 (executed E) (filterSkippedTxs (prSkipped p) txs) (prReceipts p) \<and>
     prFee p = sum_list (map2 (feeOf E) (filterSkippedTxs (prSkipped p) txs) (prReceipts p))"
  using Process_ok [OF assms] unfolding Let_def by blast


subsection \<open>Witnesses\<close>

text \<open>A ledger of one sender with a nonce and of the money of all others; a call transfers the value.\<close>

type_synonym ledger = "int \<times> int \<times> u64"

fun ledger_add :: "address \<Rightarrow> int \<Rightarrow> ledger \<Rightarrow> ledger" where
  "ledger_add a x (b, c, n) = (if a = [1] then (b + x, c, n) else (b, c + x, n))"

fun ledger_balance :: "ledger \<Rightarrow> address \<Rightarrow> int" where
  "ledger_balance (b, c, n) a = (if a = [1] then b else c)"

definition ledger_db :: "(ledger, unit) statedb" where
  "ledger_db = \<lparr>GetBalance = ledger_balance, SubBalance = \<lambda>a x. ledger_add a (- x), AddBalance = ledger_add, GetNonce = \<lambda>(b, c, n) a. n,
     SetNonce = \<lambda>a n (b, c, _). (b, c, n), GetRefund = \<lambda>_. 0, dbPrepare = \<lambda>_ _ _ s. s, Finalise = \<lambda>s. s, IntermediateRoot = \<lambda>s. ([], s),
     GetLogs = \<lambda>_ _. [], dbBlockHash = \<lambda>_. [], dbTxIndex = \<lambda>_. 0\<rparr>"

definition ledger_call :: "ledger interpreter" where
  "ledger_call m g s = (if ledger_balance s (mFrom m) < mValue m then (g, Some VmInsufficientBalance, s)
     else (g, None, ledger_add [2] (mValue m) (ledger_add (mFrom m) (- mValue m) s)))"

definition ledger_env :: "(ledger, unit, u64) evm_env" where
  "ledger_env = \<lparr>db = ledger_db, evmCreate = ledger_call, evmCall = ledger_call, gasSchedule = main_schedule, IsHomestead = True, IsByzantium = True,
     AsMessage = \<lambda>n. Some \<lparr>mFrom = [1], mTo = Some [2], mGasPrice = 2, mGas = 30000, mValue = 5, mNonce = n, mCheckNonce = True, mData = []\<rparr>,
     txHashOf = \<lambda>n. [ucast n], txCost = \<lambda>_. 60005, CreateAddress = \<lambda>_ _. []\<rparr>"

fun ledger_money :: "ledger \<Rightarrow> int" where
  "ledger_money (b, c, n) = b + c"

lemma ledger_add_laws [simp]: "ledger_balance (ledger_add a x s) a = ledger_balance s a + x" "ledger_money (ledger_add a x s) = ledger_money s + x"
  by (cases s; simp)+

lemma ledger_ok: "transfer_ok ledger_env" "interpreter_ok ledger_env" "money_ok ledger_env ledger_money" "covered ledger_env tx"
proof -
  show "transfer_ok ledger_env" by (auto simp: transfer_ok_def ledger_env_def ledger_db_def ledger_call_def)
  show "interpreter_ok ledger_env" by (simp add: interpreter_ok_def ledger_env_def ledger_call_def)
  show "money_ok ledger_env ledger_money" by (auto simp: money_ok_def ledger_env_def ledger_db_def ledger_call_def)
  show "covered ledger_env tx" by (simp add: covered_def ledger_env_def IntrinsicGas_def main_schedule_def word_le_nat_alt)
qed

theorem skipped_transaction_free_witness:
  "ApplyTransaction ledger_env 1 False 5 \<lparr>csGp = 40000, csState = (100000, 0, 0), csUsed = 0\<rparr> =
     Some (Inl (True, ErrNonceTooHigh), \<lparr>csGp = 40000, csState = (100000, 0, 0), csUsed = 0\<rparr>)"
proof -
  let ?c = "\<lparr>csGp = 40000, csState = (100000, 0, 0), csUsed = 0\<rparr> :: ledger chain_state"
  obtain c' where a: "ApplyTransaction ledger_env 1 False 5 ?c = Some (Inl (True, ErrNonceTooHigh), c')"
    by (auto simp: ApplyTransaction_def ledger_env_def TransactionPreCheck_def ledger_db_def word_less_nat_alt)
  from skipped_transaction_free [OF ledger_ok(1,2,4) a] a show ?thesis by simp
qed


end
