(* ===== verification/App_Scores.thy ===== *)
theory App_Scores
  imports Gossip_Store
begin

text \<open>
  The scores of the validators in the application (\<open>app/scores.go\<close>, \<open>app/store_scores.go\<close>,
  \<open>app/store_block.go\<close>, \<open>app/block_info.go\<close>). A validator's validation score is the time of the blocks it
  took part in; blocks it missed are made up for when it comes back soon enough.
\<close>

subsection \<open>State\<close>

record BlocksMissed =
  bmNum :: Block
  bmPeriod :: Timestamp

record scores =
  scBlocks :: "(Block, Timestamp) ctable" \<comment> \<open>\<open>BlockInfo\<close> by index\<close>
  scMissed :: "StakerID \<rightharpoonup> BlocksMissed"
  scMissedLru :: "StakerID \<rightharpoonup> BlocksMissed"
  scDirtyValidation :: "StakerID \<rightharpoonup> int"
  scActiveValidation :: "StakerID \<rightharpoonup> int"
  scDirtyOrigination :: "StakerID \<rightharpoonup> int"
  scActiveOrigination :: "StakerID \<rightharpoonup> int"

text \<open>The caches' evictions, the latency of the configuration and the stakers.\<close>

record score_env =
  evBlocks :: "(Block \<rightharpoonup> Timestamp) \<Rightarrow> (Block \<rightharpoonup> Timestamp)"
  evMissed :: "(StakerID \<rightharpoonup> BlocksMissed) \<Rightarrow> (StakerID \<rightharpoonup> BlocksMissed)"
  BlockMissedLatency :: Block
  ActiveStakers :: "StakerID list"
  EpochValidator :: "StakerID \<Rightarrow> bool"

definition noneMissed :: BlocksMissed where
  "noneMissed = \<lparr>bmNum = 0, bmPeriod = 0\<rparr>"

subsection \<open>The store\<close>

definition sc_SetBlock :: "score_env \<Rightarrow> Block \<Rightarrow> Timestamp \<Rightarrow> scores \<Rightarrow> scores" where
  "sc_SetBlock E n t s = s\<lparr>scBlocks := ct_set (evBlocks E) n t (scBlocks s)\<rparr>"

text \<open>A block that is not stored is a nil pointer, which is dereferenced.\<close>

definition blockTime :: "score_env \<Rightarrow> Block \<Rightarrow> scores \<Rightarrow> (Timestamp \<times> scores) option" where
  "blockTime E n s = (case ct_get (evBlocks E) n (scBlocks s) of (t, c) \<Rightarrow> map_option (\<lambda>t. (t, s\<lparr>scBlocks := c\<rparr>)) t)"

definition GetBlocksMissed :: "score_env \<Rightarrow> StakerID \<Rightarrow> scores \<Rightarrow> BlocksMissed \<times> scores" where
  "GetBlocksMissed E v s = (case scMissedLru s v of
     Some m \<Rightarrow> (m, s)
   | None \<Rightarrow> (case scMissed s v of
       None \<Rightarrow> (noneMissed, s)
     | Some m \<Rightarrow> (m, s\<lparr>scMissedLru := evMissed E ((scMissedLru s)(v \<mapsto> m))\<rparr>)))"

definition IncBlocksMissed :: "score_env \<Rightarrow> StakerID \<Rightarrow> Timestamp \<Rightarrow> scores \<Rightarrow> scores" where
  "IncBlocksMissed E v periodDiff s = (case GetBlocksMissed E v s of (missed, s) \<Rightarrow>
     let missed = missed\<lparr>bmNum := bmNum missed + 1, bmPeriod := bmPeriod missed + periodDiff\<rparr> in
     s\<lparr>scMissed := (scMissed s)(v \<mapsto> missed), scMissedLru := evMissed E ((scMissedLru s)(v \<mapsto> missed))\<rparr>)"

definition ResetBlocksMissed :: "score_env \<Rightarrow> StakerID \<Rightarrow> scores \<Rightarrow> scores" where
  "ResetBlocksMissed E v s = s\<lparr>scMissed := (scMissed s)(v := None), scMissedLru := evMissed E ((scMissedLru s)(v \<mapsto> noneMissed))\<rparr>"

definition getScore :: "(StakerID \<rightharpoonup> int) \<Rightarrow> StakerID \<Rightarrow> int" where
  "getScore t v = (case t v of None \<Rightarrow> 0 | Some x \<Rightarrow> x)"

definition addScore :: "StakerID \<Rightarrow> int \<Rightarrow> (StakerID \<rightharpoonup> int) \<Rightarrow> (StakerID \<rightharpoonup> int)" where
  "addScore v diff t = t(v \<mapsto> getScore t v + diff)"

definition AddDirtyValidationScore :: "StakerID \<Rightarrow> int \<Rightarrow> scores \<Rightarrow> scores" where
  "AddDirtyValidationScore v x s = s\<lparr>scDirtyValidation := addScore v x (scDirtyValidation s)\<rparr>"

definition AddDirtyOriginationScore :: "StakerID \<Rightarrow> int \<Rightarrow> scores \<Rightarrow> scores" where
  "AddDirtyOriginationScore v x s = s\<lparr>scDirtyOrigination := addScore v x (scDirtyOrigination s)\<rparr>"

text \<open>Deletion of all active scores and the move of the dirty ones to their place.\<close>

definition sealValidationScores :: "scores \<Rightarrow> scores" where
  "sealValidationScores s = s\<lparr>scActiveValidation := scDirtyValidation s, scDirtyValidation := Map.empty\<rparr>"

definition sealOriginationScores :: "scores \<Rightarrow> scores" where
  "sealOriginationScores s = s\<lparr>scActiveOrigination := scDirtyOrigination s, scDirtyOrigination := Map.empty\<rparr>"

subsection \<open>Validation scores\<close>

text \<open>The loop over the previous blocks, from \<open>i\<close> to \<open>missedNum\<close>.\<close>

function scorePrevious :: "score_env \<Rightarrow> StakerID \<Rightarrow> Block \<Rightarrow> Block \<Rightarrow> Block \<Rightarrow> scores \<Rightarrow> scores option" where
  "scorePrevious E v index missedNum i s =
     (if i \<le> missedNum \<and> i < index then do {
        (curBlockTime, s) \<leftarrow> blockTime E (index - i) s;
        (prevBlockTime, s) \<leftarrow> blockTime E (index - i - 1) s;
        scorePrevious E v index missedNum (i + 1) (AddDirtyValidationScore v (uint (curBlockTime - prevBlockTime)) s) }
      else Some s)"
  by pat_completeness auto
termination
proof (relation "measure (\<lambda>(E, v, index, missedNum, i, s). unat index - unat i)", simp)
  fix index i missedNum :: Block
  assume "i \<le> missedNum \<and> i < index"
  then have "unat (i + 1) = unat i + 1" "unat i < unat index" using unat_Suc_word [of i] unsigned_less [of index, where 'a = nat] by (simp_all add: word_less_nat_alt)
  then show "((E, v, index, missedNum, i + 1, s'), (E, v, index, missedNum, i, s)) \<in> measure (\<lambda>(E, v, index, missedNum, i, s). unat index - unat i)" for E v s s'
    by simp
qed

declare scorePrevious.simps [simp del]

definition scoreStaker :: "score_env \<Rightarrow> Block \<Rightarrow> Timestamp \<Rightarrow> (StakerID \<Rightarrow> bool) \<Rightarrow> scores \<Rightarrow> StakerID \<Rightarrow> scores option" where
  "scoreStaker E index blockTimeDiff participated s v =
     (if \<not> EpochValidator E v then Some s
      else if \<not> participated v then Some (IncBlocksMissed E v blockTimeDiff s)
      else do {
        let (missed, s) = GetBlocksMissed E v s;
        let missedNum = (if bmNum missed > BlockMissedLatency E then BlockMissedLatency E else bmNum missed);
        s \<leftarrow> scorePrevious E v index missedNum 1 (AddDirtyValidationScore v (uint blockTimeDiff) s);
        Some (ResetBlocksMissed E v s) })"

definition updateValidationScores :: "score_env \<Rightarrow> Block \<Rightarrow> Timestamp \<Rightarrow> (StakerID \<Rightarrow> bool) \<Rightarrow> bool \<Rightarrow> scores \<Rightarrow> scores option" where
  "updateValidationScores E index t participated seal s = do {
     (prev, s) \<leftarrow> blockTime E (index - 1) s;
     s \<leftarrow> foldM (scoreStaker E index (t - prev) participated) s (ActiveStakers E);
     Some (if seal then sealValidationScores s else s) }"

text \<open>A block of an epoch that goes on: \<open>BeginBlock\<close> stores it, \<open>EndBlock\<close> scores it.\<close>

definition scoreBlock :: "score_env \<Rightarrow> Block \<Rightarrow> Timestamp \<Rightarrow> (StakerID \<Rightarrow> bool) \<Rightarrow> scores \<Rightarrow> scores option" where
  "scoreBlock E index t participated s = updateValidationScores E index t participated False (sc_SetBlock E index t s)"

fun scoreBlocks :: "score_env \<Rightarrow> Block \<Rightarrow> (Timestamp \<times> (StakerID \<Rightarrow> bool)) list \<Rightarrow> scores \<Rightarrow> scores option" where
  "scoreBlocks E b [] s = Some s"
| "scoreBlocks E b (x # xs) s = do { s \<leftarrow> scoreBlock E (b + 1) (fst x) (snd x) s; scoreBlocks E (b + 1) xs s }"

subsection \<open>Reading through the caches\<close>

definition missedOf :: "scores \<Rightarrow> StakerID \<Rightarrow> BlocksMissed" where
  "missedOf s v = (case scMissed s v of None \<Rightarrow> noneMissed | Some m \<Rightarrow> m)"

definition score_inv :: "scores \<Rightarrow> bool" where
  "score_inv s \<longleftrightarrow> coherent (scBlocks s) \<and> (\<forall>v m. scMissedLru s v = Some m \<longrightarrow> m = missedOf s v)"

definition evictions_ok :: "score_env \<Rightarrow> bool" where
  "evictions_ok E \<longleftrightarrow> evicts (evBlocks E) \<and> (\<forall>m. evMissed E m \<subseteq>\<^sub>m m)"

text \<open>The part of the state that the scores of a validator depend on.\<close>

definition same_for :: "StakerID \<Rightarrow> scores \<Rightarrow> scores \<Rightarrow> bool" where
  "same_for v s s' \<longleftrightarrow> score_inv s' \<and> ctTab (scBlocks s') = ctTab (scBlocks s) \<and> missedOf s' v = missedOf s v \<and>
     getScore (scDirtyValidation s') v = getScore (scDirtyValidation s) v"

lemma evMissed_Some: "evictions_ok E \<Longrightarrow> evMissed E m v = Some x \<Longrightarrow> m v = Some x"
  unfolding evictions_ok_def map_le_def by (metis domI)

lemma blockTime_spec:
  assumes "evictions_ok E" "score_inv s" "ctTab (scBlocks s) n = Some t"
  shows "\<exists>c. blockTime E n s = Some (t, s\<lparr>scBlocks := c\<rparr>) \<and> coherent c \<and> ctTab c = ctTab (scBlocks s)"
proof -
  have e: "evicts (evBlocks E)" and c: "coherent (scBlocks s)" using assms by (simp_all add: evictions_ok_def score_inv_def)
  note look = map_table.look [OF cached_map_table [OF e] c, of n]
  obtain w c' where "ct_get (evBlocks E) n (scBlocks s) = (w, c')" by fastforce
  with look assms(3) show ?thesis by (auto simp: blockTime_def intro!: exI [of _ c'])
qed

lemma GetBlocksMissed_spec:
  assumes "evictions_ok E" "score_inv s"
  shows "\<exists>l. GetBlocksMissed E v s = (missedOf s v, s\<lparr>scMissedLru := l\<rparr>) \<and> score_inv (s\<lparr>scMissedLru := l\<rparr>)"
proof (cases "scMissedLru s v")
  case None
  show ?thesis
  proof (cases "scMissed s v")
    case (Some m)
    have "score_inv (s\<lparr>scMissedLru := evMissed E ((scMissedLru s)(v \<mapsto> m))\<rparr>)"
      using assms Some by (auto simp: score_inv_def missedOf_def dest!: evMissed_Some [OF assms(1)] split: if_splits)
    then show ?thesis using None Some by (auto simp: GetBlocksMissed_def missedOf_def)
  qed (use None assms in \<open>auto simp: GetBlocksMissed_def missedOf_def intro!: exI [of _ "scMissedLru s"]\<close>)
next
  case (Some m)
  then have "m = missedOf s v" using assms(2) by (simp add: score_inv_def)
  then show ?thesis using Some assms(2) by (auto simp: GetBlocksMissed_def intro!: exI [of _ "scMissedLru s"])
qed

lemma missedOf_lru [simp]: "missedOf (s\<lparr>scMissedLru := l\<rparr>) = missedOf s" "missedOf (s\<lparr>scBlocks := c\<rparr>) = missedOf s" "missedOf (s\<lparr>scDirtyValidation := d\<rparr>) = missedOf s"
  by (simp_all add: missedOf_def fun_eq_iff)

lemma score_inv_blocks [simp]: "coherent c \<Longrightarrow> score_inv s \<Longrightarrow> score_inv (s\<lparr>scBlocks := c\<rparr>)" "score_inv (s\<lparr>scDirtyValidation := d\<rparr>) = score_inv s"
  by (simp_all add: score_inv_def)

lemma IncBlocksMissed_spec:
  assumes "evictions_ok E" "score_inv s"
  shows "score_inv (IncBlocksMissed E v d s)" "bmNum (missedOf (IncBlocksMissed E v d s) v) = bmNum (missedOf s v) + 1"
    "u \<noteq> v \<Longrightarrow> missedOf (IncBlocksMissed E v d s) u = missedOf s u" "scBlocks (IncBlocksMissed E v d s) = scBlocks s"
    "scDirtyValidation (IncBlocksMissed E v d s) = scDirtyValidation s"
proof -
  obtain l where l: "GetBlocksMissed E v s = (missedOf s v, s\<lparr>scMissedLru := l\<rparr>)" "score_inv (s\<lparr>scMissedLru := l\<rparr>)" using GetBlocksMissed_spec [OF assms] by blast
  let ?m = "(missedOf s v)\<lparr>bmNum := bmNum (missedOf s v) + 1, bmPeriod := bmPeriod (missedOf s v) + d\<rparr>"
  have i: "IncBlocksMissed E v d s = s\<lparr>scMissed := (scMissed s)(v \<mapsto> ?m), scMissedLru := evMissed E (l(v \<mapsto> ?m))\<rparr>" by (simp add: IncBlocksMissed_def l(1) Let_def)
  show "score_inv (IncBlocksMissed E v d s)" unfolding i using l(2)
    by (auto simp: score_inv_def missedOf_def dest!: evMissed_Some [OF assms(1)] split: if_splits)
  show "bmNum (missedOf (IncBlocksMissed E v d s) v) = bmNum (missedOf s v) + 1" "u \<noteq> v \<Longrightarrow> missedOf (IncBlocksMissed E v d s) u = missedOf s u"
    "scBlocks (IncBlocksMissed E v d s) = scBlocks s" "scDirtyValidation (IncBlocksMissed E v d s) = scDirtyValidation s" unfolding i by (simp_all add: missedOf_def)
qed

lemma ResetBlocksMissed_spec:
  assumes "evictions_ok E" "score_inv s"
  shows "score_inv (ResetBlocksMissed E v s)" "missedOf (ResetBlocksMissed E v s) v = noneMissed"
    "u \<noteq> v \<Longrightarrow> missedOf (ResetBlocksMissed E v s) u = missedOf s u" "scBlocks (ResetBlocksMissed E v s) = scBlocks s"
    "scDirtyValidation (ResetBlocksMissed E v s) = scDirtyValidation s"
proof -
  show "score_inv (ResetBlocksMissed E v s)" unfolding ResetBlocksMissed_def using assms(2)
    by (auto simp: score_inv_def missedOf_def dest!: evMissed_Some [OF assms(1)] split: if_splits)
qed (simp_all add: ResetBlocksMissed_def missedOf_def)

lemma getScore_add: "getScore (addScore v x t) u = (if u = v then getScore t v + x else getScore t u)"
  by (simp add: getScore_def addScore_def)

subsection \<open>One block\<close>

lemma scorePrevious_spec:
  assumes E: "evictions_ok E" and inv: "score_inv s" and less: "missedNum < index"
    and times: "\<forall>j \<in> {unat i..unat missedNum}. ctTab (scBlocks s) (index - of_nat j) = Some (T j) \<and> ctTab (scBlocks s) (index - of_nat j - 1) = Some (T (Suc j))"
  shows "\<exists>s'. scorePrevious E v index missedNum i s = Some s' \<and> score_inv s' \<and> ctTab (scBlocks s') = ctTab (scBlocks s) \<and> missedOf s' = missedOf s \<and>
    getScore (scDirtyValidation s') = (getScore (scDirtyValidation s))(v := getScore (scDirtyValidation s) v + (\<Sum>j = unat i..unat missedNum. uint (T j - T (Suc j))))"
  using inv times
proof (induction "Suc (unat missedNum) - unat i" arbitrary: i s)
  case 0
  then have "\<not> i \<le> missedNum" by (simp add: word_le_nat_alt)
  then show ?case using 0 by (simp add: scorePrevious.simps [of E v index] word_le_nat_alt)
next
  case (Suc n)
  then have le: "i \<le> missedNum" by (simp add: word_le_nat_alt)
  with less have lt: "i < index" by simp
  have s1: "unat (i + 1) = Suc (unat i)" using unat_Suc_word [of i] lt unsigned_less [of index, where 'a = nat] by (simp add: word_less_nat_alt)
  have i: "of_nat (unat i) = i" "unat i \<in> {unat i..unat missedNum}" using le by (simp_all add: word_le_nat_alt)
  have T: "ctTab (scBlocks s) (index - i) = Some (T (unat i))" "ctTab (scBlocks s) (index - i - 1) = Some (T (Suc (unat i)))"
    using bspec [OF Suc.prems(2) i(2)] i(1) by simp_all
  obtain c where c: "blockTime E (index - i) s = Some (T (unat i), s\<lparr>scBlocks := c\<rparr>)" "coherent c" "ctTab c = ctTab (scBlocks s)"
    using blockTime_spec [OF E Suc.prems(1) T(1)] by blast
  have inv1: "score_inv (s\<lparr>scBlocks := c\<rparr>)" using c(2) Suc.prems(1) by simp
  have "ctTab (scBlocks (s\<lparr>scBlocks := c\<rparr>)) (index - i - 1) = Some (T (Suc (unat i)))" using c(3) T(2) by simp
  from blockTime_spec [OF E inv1 this] obtain c' where c': "blockTime E (index - i - 1) (s\<lparr>scBlocks := c\<rparr>) = Some (T (Suc (unat i)), s\<lparr>scBlocks := c'\<rparr>)"
    "coherent c'" "ctTab c' = ctTab (scBlocks s)" using c(3) by auto
  let ?s = "AddDirtyValidationScore v (uint (T (unat i) - T (Suc (unat i)))) (s\<lparr>scBlocks := c'\<rparr>)"
  have f: "score_inv ?s" "ctTab (scBlocks ?s) = ctTab (scBlocks s)" "missedOf ?s = missedOf s"
    "getScore (scDirtyValidation ?s) = (getScore (scDirtyValidation s))(v := getScore (scDirtyValidation s) v + uint (T (unat i) - T (Suc (unat i))))"
    using c' Suc.prems(1) by (simp_all add: AddDirtyValidationScore_def fun_eq_iff getScore_add)
  have n: "n = Suc (unat missedNum) - unat (i + 1)" using Suc(2) s1 by simp
  have tt: "\<forall>j \<in> {unat (i + 1)..unat missedNum}. ctTab (scBlocks ?s) (index - of_nat j) = Some (T j) \<and> ctTab (scBlocks ?s) (index - of_nat j - 1) = Some (T (Suc j))"
    using Suc.prems(2) s1 by (simp add: f(2))
  from Suc.hyps(1) [OF n f(1) tt] obtain s' where s': "scorePrevious E v index missedNum (i + 1) ?s = Some s'" "score_inv s'" "ctTab (scBlocks s') = ctTab (scBlocks s)" "missedOf s' = missedOf s"
    "getScore (scDirtyValidation s') = (getScore (scDirtyValidation ?s))(v := getScore (scDirtyValidation ?s) v + (\<Sum>j = unat (i + 1)..unat missedNum. uint (T j - T (Suc j))))"
    unfolding f(2,3) by blast
  have "(\<Sum>j = unat i..unat missedNum. uint (T j - T (Suc j))) = uint (T (unat i) - T (Suc (unat i))) + (\<Sum>j = unat (i + 1)..unat missedNum. uint (T j - T (Suc j)))"
    using le s1 by (simp add: sum.atLeast_Suc_atMost word_le_nat_alt)
  then have "getScore (scDirtyValidation s') = (getScore (scDirtyValidation s))(v := getScore (scDirtyValidation s) v + (\<Sum>j = unat i..unat missedNum. uint (T j - T (Suc j))))"
    using s'(5) f(4) by (simp add: fun_eq_iff)
  moreover have "scorePrevious E v index missedNum i s = Some s'" using le lt c(1) c'(1) s'(1) by (simp add: scorePrevious.simps [of E v index missedNum i])
  ultimately show ?case using s'(2-4) by blast
qed

text \<open>
  What a block with index \<open>index\<close> does to a staker, given the times \<open>U j\<close> of the blocks \<open>index - j\<close> before it.
\<close>

definition gain :: "score_env \<Rightarrow> Timestamp \<Rightarrow> (nat \<Rightarrow> Timestamp) \<Rightarrow> Block \<Rightarrow> int" where
  "gain E d U missed = uint d + (\<Sum>j = 1..min (unat missed) (unat (BlockMissedLatency E)). uint (U j - U (Suc j)))"

definition staker_step :: "score_env \<Rightarrow> Timestamp \<Rightarrow> (StakerID \<Rightarrow> bool) \<Rightarrow> (nat \<Rightarrow> Timestamp) \<Rightarrow> scores \<Rightarrow> scores \<Rightarrow> StakerID \<Rightarrow> bool" where
  "staker_step E d took U s s' w \<longleftrightarrow>
     bmNum (missedOf s' w) = (if took w then 0 else bmNum (missedOf s w) + 1) \<and>
     getScore (scDirtyValidation s') w = getScore (scDirtyValidation s) w + (if took w then gain E d U (bmNum (missedOf s w)) else 0)"

definition staker_same :: "scores \<Rightarrow> scores \<Rightarrow> StakerID \<Rightarrow> bool" where
  "staker_same s s' w \<longleftrightarrow> missedOf s' w = missedOf s w \<and> getScore (scDirtyValidation s') w = getScore (scDirtyValidation s) w"

lemma scoreStaker_spec:
  assumes E: "evictions_ok E" and inv: "score_inv s" and k: "unat (bmNum (missedOf s u)) \<le> k" "k < unat index"
    and times: "\<forall>j \<in> {1..Suc k}. ctTab (scBlocks s) (index - of_nat j) = Some (U j)"
  shows "\<exists>s'. scoreStaker E index d took s u = Some s' \<and> score_inv s' \<and> ctTab (scBlocks s') = ctTab (scBlocks s) \<and>
    (\<forall>w. w \<noteq> u \<longrightarrow> staker_same s s' w) \<and> (if EpochValidator E u then staker_step E d took U s s' u else staker_same s s' u)"
proof -
  consider (none) "\<not> EpochValidator E u" | (miss) "EpochValidator E u" "\<not> took u" | (present) "EpochValidator E u" "took u" by blast
  then show ?thesis
  proof cases
    case none
    then show ?thesis using inv by (simp add: scoreStaker_def staker_same_def)
  next
    case miss
    then show ?thesis using IncBlocksMissed_spec [OF E inv] by (simp add: scoreStaker_def staker_same_def staker_step_def)
  next
    case present
    obtain l where l: "GetBlocksMissed E u s = (missedOf s u, s\<lparr>scMissedLru := l\<rparr>)" "score_inv (s\<lparr>scMissedLru := l\<rparr>)" using GetBlocksMissed_spec [OF E inv] by blast
    define m where "m = (if bmNum (missedOf s u) > BlockMissedLatency E then BlockMissedLatency E else bmNum (missedOf s u))"
    have m: "unat m = min (unat (bmNum (missedOf s u))) (unat (BlockMissedLatency E))" by (auto simp: m_def word_less_nat_alt)
    then have mk: "unat m \<le> k" "m < index" using k by (simp_all add: word_less_nat_alt)
    let ?s = "AddDirtyValidationScore u (uint d) (s\<lparr>scMissedLru := l\<rparr>)"
    have f: "score_inv ?s" "ctTab (scBlocks ?s) = ctTab (scBlocks s)" "missedOf ?s = missedOf s"
      "getScore (scDirtyValidation ?s) = (getScore (scDirtyValidation s))(u := getScore (scDirtyValidation s) u + uint d)"
      using l(2) by (simp_all add: AddDirtyValidationScore_def fun_eq_iff getScore_add)
    have "\<forall>j \<in> {unat (1 :: Block)..unat m}. ctTab (scBlocks ?s) (index - of_nat j) = Some (U j) \<and> ctTab (scBlocks ?s) (index - of_nat j - 1) = Some (U (Suc j))"
    proof
      fix j assume "j \<in> {unat (1 :: Block)..unat m}"
      then have "j \<in> {1..Suc k}" "Suc j \<in> {1..Suc k}" using mk(1) by auto
      with times have "ctTab (scBlocks s) (index - of_nat j) = Some (U j)" "ctTab (scBlocks s) (index - of_nat (Suc j)) = Some (U (Suc j))" by blast+
      then show "ctTab (scBlocks ?s) (index - of_nat j) = Some (U j) \<and> ctTab (scBlocks ?s) (index - of_nat j - 1) = Some (U (Suc j))"
        by (simp add: f(2) algebra_simps)
    qed
    from scorePrevious_spec [OF E f(1) mk(2) this, of u] obtain s' where s': "scorePrevious E u index m 1 ?s = Some s'" "score_inv s'" "ctTab (scBlocks s') = ctTab (scBlocks s)"
      "missedOf s' = missedOf s" "getScore (scDirtyValidation s') = (getScore (scDirtyValidation ?s))(u := getScore (scDirtyValidation ?s) u + (\<Sum>j = 1..unat m. uint (U j - U (Suc j))))"
      unfolding f(2,3) by auto
    have "scoreStaker E index d took s u = Some (ResetBlocksMissed E u s')" using present l(1) s'(1) by (simp add: scoreStaker_def m_def [symmetric])
    then show ?thesis using present s' f(4) ResetBlocksMissed_spec [OF E s'(2), where v = u]
      by (simp add: staker_same_def staker_step_def gain_def m noneMissed_def)
  qed
qed

lemma scoreStakers_spec:
  assumes E: "evictions_ok E" and "distinct us" and inv: "score_inv s" and k: "\<forall>u. unat (bmNum (missedOf s u)) \<le> k" "k < unat index"
    and times: "\<forall>j \<in> {1..Suc k}. ctTab (scBlocks s) (index - of_nat j) = Some (U j)"
  shows "\<exists>s'. foldM (scoreStaker E index d took) s us = Some s' \<and> score_inv s' \<and> ctTab (scBlocks s') = ctTab (scBlocks s) \<and>
    (\<forall>w. if w \<in> set us \<and> EpochValidator E w then staker_step E d took U s s' w else staker_same s s' w)"
  using assms(2)
proof (induction us rule: rev_induct)
  case Nil
  then show ?case using inv by (simp add: staker_same_def)
next
  case (snoc u us)
  then obtain s1 where s1: "foldM (scoreStaker E index d took) s us = Some s1" "score_inv s1" "ctTab (scBlocks s1) = ctTab (scBlocks s)"
    "\<forall>w. if w \<in> set us \<and> EpochValidator E w then staker_step E d took U s s1 w else staker_same s s1 w" by auto
  have u: "staker_same s s1 u" using s1(4) snoc.prems by (metis distinct_append not_distinct_conv_prefix)
  then have "unat (bmNum (missedOf s1 u)) \<le> k" using k(1) by (simp add: staker_same_def)
  from scoreStaker_spec [OF E s1(2) this k(2), of U d took] times s1(3) obtain s2 where s2: "scoreStaker E index d took s1 u = Some s2" "score_inv s2"
    "ctTab (scBlocks s2) = ctTab (scBlocks s)" "\<forall>w. w \<noteq> u \<longrightarrow> staker_same s1 s2 w" "if EpochValidator E u then staker_step E d took U s1 s2 u else staker_same s1 s2 u"
    by auto
  have "if w \<in> set (us @ [u]) \<and> EpochValidator E w then staker_step E d took U s s2 w else staker_same s s2 w" for w
  proof (cases "w = u")
    case True
    then show ?thesis using s2(5) u by (auto simp: staker_same_def staker_step_def split: if_splits)
  next
    case False
    then have "staker_same s1 s2 w" using s2(4) by simp
    then show ?thesis using spec [OF s1(4), of w] False by (auto simp: staker_same_def staker_step_def)
  qed
  then show ?case using s1(1) s2(1-3) by (simp add: foldM_append)
qed

subsection \<open>A run of blocks\<close>

text \<open>
  Blocks are counted from one; \<open>P j\<close> says that the validator took part in block \<open>j\<close>. A block is credited if
  the validator took part in it, or missed it and came back within the latency.
\<close>

definition credited :: "nat \<Rightarrow> (nat \<Rightarrow> bool) \<Rightarrow> nat \<Rightarrow> nat \<Rightarrow> bool" where
  "credited L P n j \<longleftrightarrow> (\<exists>p \<in> {j..n}. P p \<and> (\<forall>q \<in> {j..<p}. \<not> P q) \<and> p - j \<le> L)"

fun trailing :: "(nat \<Rightarrow> bool) \<Rightarrow> nat \<Rightarrow> nat" where
  "trailing P 0 = 0"
| "trailing P (Suc n) = (if P (Suc n) then 0 else Suc (trailing P n))"

lemma trailing_facts: "trailing P n \<le> n" "q \<in> {n - trailing P n<..n} \<Longrightarrow> \<not> P q" "trailing P n < n \<Longrightarrow> P (n - trailing P n)"
proof -
  show "trailing P n \<le> n" by (induction n) auto
  show "q \<in> {n - trailing P n<..n} \<Longrightarrow> \<not> P q" by (induction n) (auto split: if_splits simp: le_Suc_eq)
  show "trailing P n < n \<Longrightarrow> P (n - trailing P n)" by (induction n) auto
qed

lemma credited_absent: "\<not> P (Suc n) \<Longrightarrow> {j \<in> {1..Suc n}. credited L P (Suc n) j} = {j \<in> {1..n}. credited L P n j}"
  by (auto simp: credited_def le_Suc_eq)

lemma credited_present:
  assumes P: "P (Suc n)"
  shows "{j \<in> {1..Suc n}. credited L P (Suc n) j} = {j \<in> {1..n}. credited L P n j} \<union> {Suc n - min (trailing P n) L..Suc n}" (is "?A = ?B \<union> ?C")
    "{j \<in> {1..n}. credited L P n j} \<inter> {Suc n - min (trailing P n) L..Suc n} = {}"
proof -
  note f = trailing_facts [where P = P and n = n]
  have old: "credited L P (Suc n) j" if "credited L P n j" for j using that by (auto simp: credited_def)
  have new: "credited L P (Suc n) j" if "j \<in> ?C" for j
    unfolding credited_def using that P f(1,2) by (intro bexI [of _ "Suc n"]) auto
  have "j \<in> ?B \<union> ?C" if j: "j \<in> ?A" for j
  proof -
    obtain p where p: "p \<in> {j..Suc n}" "P p" "\<forall>q \<in> {j..<p}. \<not> P q" "p - j \<le> L" using j by (auto simp: credited_def)
    show ?thesis
    proof (cases "p = Suc n")
      case True
      have "n - trailing P n < j"
      proof (rule ccontr)
        assume "\<not> n - trailing P n < j"
        then have "n - trailing P n \<in> {j..<p}" "trailing P n < n" using True j by auto
        with f(3) p(3) show False by blast
      qed
      then show ?thesis using p(1,4) True f(1) by auto
    next
      case False
      then show ?thesis using p j by (auto simp: credited_def)
    qed
  qed
  then have "?A \<subseteq> ?B \<union> ?C" by blast
  moreover have "?B \<union> ?C \<subseteq> ?A" using old new f(1) by auto
  ultimately show "?A = ?B \<union> ?C" by (rule equalityI)
  have "\<not> credited L P n j" if "j \<in> ?C" for j using that f(1,2) by (auto simp: credited_def)
  then show "?B \<inter> ?C = {}" by auto
qed

text \<open>The state after the blocks \<open>bs\<close>, the first of which has index \<open>b + 1\<close>; \<open>t\<close> is the time of block \<open>b\<close>.\<close>

definition timeAt :: "Timestamp \<Rightarrow> (Timestamp \<times> (StakerID \<Rightarrow> bool)) list \<Rightarrow> nat \<Rightarrow> Timestamp" where
  "timeAt t bs j = (t # map fst bs) ! j"

definition tookPart :: "(Timestamp \<times> (StakerID \<Rightarrow> bool)) list \<Rightarrow> StakerID \<Rightarrow> nat \<Rightarrow> bool" where
  "tookPart bs v j \<longleftrightarrow> 1 \<le> j \<and> j \<le> length bs \<and> snd (bs ! (j - 1)) v"

definition validator_ok :: "score_env \<Rightarrow> Timestamp \<Rightarrow> (StakerID \<rightharpoonup> int) \<Rightarrow> (Timestamp \<times> (StakerID \<Rightarrow> bool)) list \<Rightarrow> scores \<Rightarrow> StakerID \<Rightarrow> bool" where
  "validator_ok E t d0 bs s v \<longleftrightarrow> unat (bmNum (missedOf s v)) = trailing (tookPart bs v) (length bs) \<and>
     getScore (scDirtyValidation s) v = getScore d0 v +
       (\<Sum>j \<in> {j \<in> {1..length bs}. credited (unat (BlockMissedLatency E)) (tookPart bs v) (length bs) j}. uint (timeAt t bs j - timeAt t bs (j - 1)))"

definition run_ok :: "score_env \<Rightarrow> Block \<Rightarrow> Timestamp \<Rightarrow> (StakerID \<rightharpoonup> int) \<Rightarrow> (Timestamp \<times> (StakerID \<Rightarrow> bool)) list \<Rightarrow> scores \<Rightarrow> bool" where
  "run_ok E b t d0 bs s \<longleftrightarrow> score_inv s \<and>
     (\<forall>j \<le> length bs. ctTab (scBlocks s) (b + of_nat j) = Some (timeAt t bs j)) \<and>
     (\<forall>u. unat (bmNum (missedOf s u)) \<le> length bs) \<and>
     (\<forall>v \<in> set (ActiveStakers E). EpochValidator E v \<longrightarrow> validator_ok E t d0 bs s v)"

lemma timeAt_snoc: "j \<le> length bs \<Longrightarrow> timeAt t (bs @ [x]) j = timeAt t bs j" "timeAt t (bs @ [x]) (Suc (length bs)) = fst x"
  by (cases j) (auto simp: timeAt_def nth_append nth_Cons')

lemma tookPart_snoc: "j \<le> length bs \<Longrightarrow> tookPart (bs @ [x]) v j = tookPart bs v j" "tookPart (bs @ [x]) v (Suc (length bs)) = snd x v"
  by (auto simp: tookPart_def nth_append)

lemma trailing_cong: "(\<And>j. 1 \<le> j \<Longrightarrow> j \<le> n \<Longrightarrow> P j = Q j) \<Longrightarrow> trailing P n = trailing Q n"
  by (induction n) auto

lemma credited_cong: "(\<And>q. q \<le> n \<Longrightarrow> P q = Q q) \<Longrightarrow> credited L P n j = credited L Q n j"
  unfolding credited_def by (intro bex_cong conj_cong ball_cong) auto

text \<open>The times before a new block, counted back from it.\<close>

lemma gain_sum:
  assumes "m \<le> n" "m = unat w"
  shows "gain E (T (Suc n) - T n) (\<lambda>j. T (Suc n - j)) w = (\<Sum>j = Suc n - min m (unat (BlockMissedLatency E))..Suc n. uint (T j - T (j - 1)))"
proof -
  let ?k = "min m (unat (BlockMissedLatency E))"
  have "(\<Sum>j = 1..?k. uint (T (Suc n - j) - T (Suc n - Suc j))) = (\<Sum>j = Suc n - ?k..n. uint (T j - T (j - 1)))"
    by (rule sum.reindex_bij_witness [of _ "\<lambda>j. Suc n - j" "\<lambda>j. Suc n - j"]) (use assms(1) in \<open>auto simp: Suc_diff_le\<close>)
  moreover have "{Suc n - ?k..Suc n} = insert (Suc n) {Suc n - ?k..n}" using assms(1) by auto
  ultimately show ?thesis using assms(2) by (simp add: gain_def)
qed

lemma validator_step:
  assumes old: "validator_ok E t d0 bs s v" and small: "Suc (length bs) < 2 ^ 64"
    and step: "staker_step E (fst x - timeAt t bs (length bs)) (snd x) (\<lambda>j. timeAt t (bs @ [x]) (Suc (length bs) - j)) s s' v"
  shows "validator_ok E t d0 (bs @ [x]) s' v"
proof -
  define n where "n = length bs" define P where "P = tookPart (bs @ [x]) v" define T where "T = timeAt t (bs @ [x])" define L where "L = unat (BlockMissedLatency E)"
  have P: "tookPart bs v j = P j" if "j \<le> n" for j using that by (simp add: P_def n_def tookPart_snoc)
  have Pn: "P (Suc n) = snd x v" by (simp add: P_def n_def tookPart_snoc)
  have T: "timeAt t bs j = T j" if "j \<le> n" for j using that by (simp add: T_def n_def timeAt_snoc)
  have Tn: "fst x = T (Suc n)" by (simp add: T_def n_def timeAt_snoc)
  have tr: "trailing (tookPart bs v) n = trailing P n" by (rule trailing_cong) (use P in simp)
  have cr: "credited L (tookPart bs v) n = credited L P n" by (rule ext, rule credited_cong) (use P in simp)
  let ?d = "\<lambda>j. uint (T j - T (j - 1))"
  have miss: "unat (bmNum (missedOf s v)) = trailing P n" using old tr by (simp add: validator_ok_def n_def)
  have "(\<Sum>j \<in> {j \<in> {1..n}. credited L P n j}. uint (timeAt t bs j - timeAt t bs (j - 1))) = (\<Sum>j \<in> {j \<in> {1..n}. credited L P n j}. ?d j)"
    by (rule sum.cong) (use T in auto)
  then have score: "getScore (scDirtyValidation s) v = getScore d0 v + (\<Sum>j \<in> {j \<in> {1..n}. credited L P n j}. ?d j)"
    using old cr by (simp add: validator_ok_def n_def L_def)
  have le: "trailing P n \<le> n" by (rule trailing_facts)
  have "unat (bmNum (missedOf s' v)) = trailing P (Suc n) \<and> getScore (scDirtyValidation s') v = getScore d0 v + (\<Sum>j \<in> {j \<in> {1..Suc n}. credited L P (Suc n) j}. ?d j)"
  proof (cases "P (Suc n)")
    case True
    have "(\<Sum>j \<in> {j \<in> {1..Suc n}. credited L P (Suc n) j}. ?d j) = (\<Sum>j \<in> {j \<in> {1..n}. credited L P n j}. ?d j) + (\<Sum>j = Suc n - min (trailing P n) L..Suc n. ?d j)"
      unfolding credited_present(1) [of P, OF True] by (rule sum.union_disjoint) (use credited_present(2) [of P, OF True] in auto)
    moreover have "gain E (T (Suc n) - T n) (\<lambda>j. T (Suc n - j)) (bmNum (missedOf s v)) = (\<Sum>j = Suc n - min (trailing P n) L..Suc n. ?d j)"
      using gain_sum [OF le miss [symmetric], of E T] by (simp add: L_def)
    ultimately show ?thesis using step True Pn score T [of n] Tn by (simp add: staker_step_def n_def [symmetric] T_def [symmetric])
  next
    case False
    have "unat (bmNum (missedOf s v) + 1) = Suc (trailing P n)" using unat_Suc_word [of "bmNum (missedOf s v)"] miss le small by (simp add: n_def)
    then show ?thesis using step False Pn score credited_absent [of P n L] by (simp add: staker_step_def)
  qed
  then show ?thesis by (simp add: validator_ok_def n_def P_def T_def L_def)
qed

lemma scoreBlock_ok:
  assumes E: "evictions_ok E" "distinct (ActiveStakers E)" and small: "unat b + Suc (length bs) < 2 ^ 64" and r: "run_ok E b t d0 bs s"
  shows "\<exists>s'. scoreBlock E (b + of_nat (Suc (length bs))) (fst x) (snd x) s = Some s' \<and> run_ok E b t d0 (bs @ [x]) s'"
proof -
  define n where "n = length bs" define index where "index = b + of_nat (Suc n)" define T where "T = timeAt t (bs @ [x])"
  let ?s = "sc_SetBlock E index (fst x) s"
  have inv: "score_inv s" and tab: "\<forall>j \<le> n. ctTab (scBlocks s) (b + of_nat j) = Some (timeAt t bs j)" and miss: "\<forall>u. unat (bmNum (missedOf s u)) \<le> n"
    using r by (simp_all add: run_ok_def n_def)
  have u: "unat index = unat b + Suc n" using small by (simp add: index_def n_def unat_word_ariths unat_of_nat)
  have ev: "evicts (evBlocks E)" using E(1) by (simp add: evictions_ok_def)
  have coh: "coherent (scBlocks s)" using inv by (simp add: score_inv_def)
  have set: "coherent (scBlocks ?s) \<and> ctTab (scBlocks ?s) = (ctTab (scBlocks s))(index \<mapsto> fst x)"
    using map_table.store [OF cached_map_table [OF ev] coh, of index "fst x"] by (simp add: sc_SetBlock_def)
  have inv1: "score_inv ?s" using set inv by (simp add: sc_SetBlock_def)
  have m1: "missedOf ?s = missedOf s" "scDirtyValidation ?s = scDirtyValidation s" by (simp_all add: sc_SetBlock_def)
  have ne: "b + of_nat j \<noteq> index" if "j \<le> n" for j
  proof -
    have "unat (b + of_nat j) = unat b + j" using small that by (simp add: n_def unat_word_ariths unat_of_nat)
    then show ?thesis using u that by auto
  qed
  have at: "ctTab (scBlocks ?s) (b + of_nat j) = Some (T j)" if "j \<le> Suc n" for j
  proof (cases "j = Suc n")
    case True
    then show ?thesis using set by (simp add: T_def n_def timeAt_snoc index_def)
  next
    case False
    then show ?thesis using that set tab ne [of j] by (simp add: T_def timeAt_snoc n_def)
  qed
  have bef: "index - of_nat j = b + of_nat (Suc n - j)" if "j \<le> Suc n" for j using that by (simp add: index_def of_nat_diff)
  have U: "\<forall>j \<in> {1..Suc n}. ctTab (scBlocks ?s) (index - of_nat j) = Some (T (Suc n - j))"
  proof
    fix j assume "j \<in> {1..Suc n}"
    then have "j \<le> Suc n" by simp
    from bef [OF this] at [of "Suc n - j"] show "ctTab (scBlocks ?s) (index - of_nat j) = Some (T (Suc n - j))" by (simp only:)
  qed
  obtain c where c: "blockTime E (index - 1) ?s = Some (T n, ?s\<lparr>scBlocks := c\<rparr>)" "coherent c" "ctTab c = ctTab (scBlocks ?s)"
    using blockTime_spec [OF E(1) inv1, of "index - 1" "T n"] bspec [OF U, of 1] by auto
  let ?s2 = "?s\<lparr>scBlocks := c\<rparr>"
  have inv2: "score_inv ?s2" using c(2) inv1 by simp
  have m2: "missedOf ?s2 = missedOf s" "scDirtyValidation ?s2 = scDirtyValidation s" using m1 by simp_all
  have few: "\<forall>u. unat (bmNum (missedOf ?s2 u)) \<le> n" "n < unat index" using miss m2 u by simp_all
  have u2: "\<forall>j \<in> {1..Suc n}. ctTab (scBlocks ?s2) (index - of_nat j) = Some (T (Suc n - j))" using U c(3) by simp
  note stakers = scoreStakers_spec [OF E inv2 few u2, of "fst x - T n" "snd x"]
  obtain s' where s': "foldM (scoreStaker E index (fst x - T n) (snd x)) ?s2 (ActiveStakers E) = Some s'" "score_inv s'" "ctTab (scBlocks s') = ctTab (scBlocks ?s)"
    "\<forall>w. if w \<in> set (ActiveStakers E) \<and> EpochValidator E w then staker_step E (fst x - T n) (snd x) (\<lambda>j. T (Suc n - j)) ?s2 s' w else staker_same ?s2 s' w"
    using stakers c(3) by auto
  have new: "validator_ok E t d0 (bs @ [x]) s' v" if "v \<in> set (ActiveStakers E)" "EpochValidator E v" for v
  proof (rule validator_step)
    show "validator_ok E t d0 bs ?s2 v" using r that m2 by (simp add: run_ok_def validator_ok_def)
    show "staker_step E (fst x - timeAt t bs (length bs)) (snd x) (\<lambda>j. timeAt t (bs @ [x]) (Suc (length bs) - j)) ?s2 s' v"
      using spec [OF s'(4), of v] that by (simp add: T_def n_def timeAt_snoc)
  qed (use small in simp)
  have bound: "unat (bmNum (missedOf s' u)) \<le> Suc n" for u
  proof (cases "u \<in> set (ActiveStakers E) \<and> EpochValidator E u")
    case True
    then have "unat (bmNum (missedOf s' u)) = trailing (tookPart (bs @ [x]) u) (Suc n)" using new by (simp add: validator_ok_def n_def)
    then show ?thesis using trailing_facts(1) by simp
  next
    case False
    then show ?thesis using spec [OF s'(4), of u] few(1) by (auto simp: staker_same_def intro: le_SucI)
  qed
  have "run_ok E b t d0 (bs @ [x]) s'" using s'(2,3) at bound new by (simp add: run_ok_def T_def n_def)
  moreover have "scoreBlock E index (fst x) (snd x) s = Some s'" using c(1) s'(1) by (simp add: scoreBlock_def updateValidationScores_def)
  ultimately show ?thesis by (auto simp: index_def n_def)
qed

lemma scoreBlocks_snoc:
  "scoreBlocks E b (bs @ [x]) s = do { s \<leftarrow> scoreBlocks E b bs s; scoreBlock E (b + of_nat (Suc (length bs))) (fst x) (snd x) s }"
proof (induction bs arbitrary: b s)
  case Nil
  show ?case by (cases "scoreBlock E (b + 1) (fst x) (snd x) s") simp_all
next
  case (Cons a bs)
  show ?case by (cases "scoreBlock E (b + 1) (fst a) (snd a) s") (simp_all add: Cons.IH algebra_simps)
qed

text \<open>
  C28. Validation scores: over any sequence of blocks of an epoch, whatever the caches evict, scoring
  returns, and the score of an active validator grows by exactly the time of the blocks it took part in
  and of those it missed less than \<open>BlockMissedLatency\<close> blocks before it came back, each counted once.
\<close>

theorem validation_score_exact:
  assumes "evictions_ok E" "distinct (ActiveStakers E)" "score_inv s" "\<forall>u. scMissed s u = None"
    and "ctTab (scBlocks s) b = Some t" "unat b + length bs < 2 ^ 64" "v \<in> set (ActiveStakers E)" "EpochValidator E v"
  shows "\<exists>s'. scoreBlocks E b bs s = Some s' \<and>
     getScore (scDirtyValidation s') v = getScore (scDirtyValidation s) v +
       (\<Sum>j \<in> {j \<in> {1..length bs}. credited (unat (BlockMissedLatency E)) (tookPart bs v) (length bs) j}. uint (timeAt t bs j - timeAt t bs (j - 1)))"
proof -
  have "\<exists>s'. scoreBlocks E b bs s = Some s' \<and> run_ok E b t (scDirtyValidation s) bs s'" using assms(6)
  proof (induction bs rule: rev_induct)
    case Nil
    then show ?case using assms(3-5) by (simp add: run_ok_def validator_ok_def missedOf_def noneMissed_def timeAt_def)
  next
    case (snoc x bs)
    then obtain s1 where "scoreBlocks E b bs s = Some s1" "run_ok E b t (scDirtyValidation s) bs s1" by auto
    moreover have "unat b + Suc (length bs) < 2 ^ 64" using snoc.prems by simp
    ultimately show ?case using scoreBlock_ok [OF assms(1,2)] by (simp add: scoreBlocks_snoc)
  qed
  then show ?thesis using assms(7,8) by (auto simp: run_ok_def validator_ok_def)
qed

subsection \<open>Witness\<close>

definition two_scored :: score_env where
  "two_scored = \<lparr>evBlocks = \<lambda>m. m, evMissed = \<lambda>m. m, BlockMissedLatency = 1, ActiveStakers = [1, 2], EpochValidator = \<lambda>_. True\<rparr>"

definition first_scores :: scores where
  "first_scores = \<lparr>scBlocks = \<lparr>ctTab = [0 \<mapsto> 100], ctLru = Map.empty\<rparr>, scMissed = Map.empty, scMissedLru = Map.empty, scDirtyValidation = Map.empty,
     scActiveValidation = Map.empty, scDirtyOrigination = Map.empty, scActiveOrigination = Map.empty\<rparr>"

text \<open>The first validator misses the second and the third block of four and is credited the third.\<close>

definition four_blocks :: "(Timestamp \<times> (StakerID \<Rightarrow> bool)) list" where
  "four_blocks = [(110, \<lambda>_. True), (130, \<lambda>v. v = 2), (170, \<lambda>v. v = 2), (250, \<lambda>_. True)]"

theorem validation_score_exact_witness:
  "\<exists>s'. scoreBlocks two_scored 0 four_blocks first_scores = Some s' \<and> getScore (scDirtyValidation s') 1 = 130"
proof -
  have h: "evictions_ok two_scored" "distinct (ActiveStakers two_scored)" "score_inv first_scores" "\<forall>u. scMissed first_scores u = None"
    "ctTab (scBlocks first_scores) 0 = Some 100" "unat (0 :: Block) + length four_blocks < 2 ^ 64" "1 \<in> set (ActiveStakers two_scored)" "EpochValidator two_scored 1"
    by (simp_all add: evictions_ok_def evicts_def two_scored_def score_inv_def coherent_def first_scores_def four_blocks_def)
  have P: "tookPart four_blocks 1 = (\<lambda>j. j = 1 \<or> j = 4)" by (auto simp: fun_eq_iff tookPart_def four_blocks_def nth_Cons' eval_nat_numeral)
  have len: "length four_blocks = 4" by (simp add: four_blocks_def)
  have "credited 1 (\<lambda>j. j = 1 \<or> j = 4) 4 j \<longleftrightarrow> j = 0 \<or> j = 1 \<or> j = 3 \<or> j = 4" for j :: nat by (auto simp: credited_def)
  then have "{j \<in> {1..length four_blocks}. credited (unat (BlockMissedLatency two_scored)) (tookPart four_blocks 1) (length four_blocks) j} = {1, 3, 4}"
    unfolding P len by (auto simp: two_scored_def)
  moreover have "(\<Sum>j \<in> {1, 3, 4 :: nat}. uint (timeAt 100 four_blocks j - timeAt 100 four_blocks (j - 1))) = 130" by (simp add: timeAt_def four_blocks_def)
  ultimately show ?thesis using validation_score_exact [OF h] by (simp add: first_scores_def getScore_def)
qed

end
