(* ===== verification/Block_Apply.thy ===== *)
theory Block_Apply
  imports Gossip_Events State_Transition App_Scores Poset
begin

text \<open>
  What the service does with a block (\<open>gossip/consensus_callbacks.go\<close>, \<open>gossip/gas_refunds.go\<close>,
  \<open>gossip/sfc_index.go\<close>, \<open>app/app.go\<close>, \<open>app/scores.go\<close>): the events that do not fit are spilled, the
  transactions of the others are executed, and the gas not used and the fees are credited to the
  validators that originated them.
\<close>

subsection \<open>Callbacks of the consensus\<close>

definition isEventAllowedIntoBlock :: "hash_lib \<Rightarrow> DagConfig \<Rightarrow> EventHeaderData \<Rightarrow> EventSeq \<Rightarrow> bool" where
  "isEventAllowedIntoBlock hl dag header depth =
     (if NoTransactions hl header then False
      else if depth > MaxValidatorEventsInBlock dag then False
      else True)"

text \<open>The confirmed event: its transactions leave the buffer, the last header and the participation are noted.\<close>

definition onEventConfirmed ::
    "hash_lib \<Rightarrow> ('tx, 'c, 'b) service_env \<Rightarrow> hash_event \<Rightarrow> EventHeaderData \<Rightarrow> EventSeq \<Rightarrow>
     ('tx, 'c, 'b) service \<times> (StakerID \<Rightarrow> bool) \<Rightarrow> (('tx, 'c, 'b) service \<times> (StakerID \<Rightarrow> bool)) option" where
  "onEventConfirmed hl E h header depth svp = (case svp of (sv, participated) \<Rightarrow> do {
     sv \<leftarrow> (if NoTransactions hl header then Some sv
       else case GetEvent (svCaches E) h (svStore sv) of
         (None, _) \<Rightarrow> None
       | (Some e, s) \<Rightarrow> Some (sv\<lparr>svStore := s, svOccurred := CollectConfirmedTxs (svRing E) (map (svSigned E) (eTransactions e)) (svOccurred sv)\<rparr>));
     let sv = (if depth = 0 then sv\<lparr>svStore := AddLastHeader (eEpoch header) header (svStore sv)\<rparr> else sv);
     Some (sv, participated(eCreator header := True)) })"

definition onEpochSealed :: "Epoch \<Rightarrow> StakerID list \<Rightarrow> 'tx gossip \<Rightarrow> 'tx gossip" where
  "onEpochSealed epoch cheaters s = DelLastHeaders (epoch - 1) (foldl (\<lambda>s c. DelLastHeader epoch c s) s cheaters)"

subsection \<open>Spilling\<close>

text \<open>The loop from the last event down to \<open>i\<close>; \<open>full\<close> are the events behind it.\<close>

fun spillLoop :: "'tx caches \<Rightarrow> u64 \<Rightarrow> hash_event list \<Rightarrow> nat \<Rightarrow> u64 \<Rightarrow> 'tx Event list \<Rightarrow> 'tx gossip \<Rightarrow> (nat \<times> 'tx Event list \<times> 'tx gossip) option" where
  "spillLoop C limit evs i gasPowerUsedSum full s = (case GetEvent C (evs ! i) s of
     (None, _) \<Rightarrow> None
   | (Some e, s) \<Rightarrow>
       let gasPowerUsedSum = gasPowerUsedSum + eGasPowerUsed e in
       if gasPowerUsedSum > limit then Some (i + 1, full, s)
       else case i of 0 \<Rightarrow> Some (0, e # full, s) | Suc j \<Rightarrow> spillLoop C limit evs j gasPowerUsedSum (e # full) s)"

definition spillBlockEvents :: "'tx caches \<Rightarrow> u64 \<Rightarrow> BlockData \<Rightarrow> 'tx gossip \<Rightarrow> (BlockData \<times> 'tx Event list \<times> 'tx gossip) option" where
  "spillBlockEvents C limit block s =
     (if bEvents block = [] then Some (block, [], s)
      else do {
        (k, full, s) \<leftarrow> spillLoop C limit (bEvents block) (length (bEvents block) - 1) 0 [] s;
        Some (block\<lparr>bEvents := drop k (bEvents block)\<rparr>, full, s) })"

text \<open>
  \<open>assembleEvmBlock\<close>: the transactions, and the events. The loop ranges over the events as they were and
  appends each of them again.
\<close>

definition assembleEvmBlock :: "'tx caches \<Rightarrow> u64 \<Rightarrow> BlockData \<Rightarrow> 'tx gossip \<Rightarrow> (BlockData \<times> 'tx list \<times> 'tx Event list \<times> 'tx gossip) option" where
  "assembleEvmBlock C limit block s =
     (if length (bSkippedTxs block) \<noteq> 0 then None
      else do {
        (block, blockEvents, s) \<leftarrow> spillBlockEvents C limit block s;
        let (txs, blockEvents) = foldl (\<lambda>(txs, evs) e. (txs @ eTransactions e, evs @ [e])) ([], blockEvents) blockEvents;
        Some (block, txs, blockEvents, s) })"

subsection \<open>Positions of the transactions\<close>

record TxPosition =
  tpBlock :: Block
  tpEvent :: hash_event
  tpCreator :: StakerID
  tpEventOffset :: u32
  tpBlockOffset :: u32

definition noPosition :: TxPosition where
  "noPosition = \<lparr>tpBlock = 0, tpEvent = hash_Zero, tpCreator = 0, tpEventOffset = 0, tpBlockOffset = 0\<rparr>"

definition positionOf :: "(hash \<rightharpoonup> TxPosition) \<Rightarrow> hash \<Rightarrow> TxPosition" where
  "positionOf m h = (case m h of None \<Rightarrow> noPosition | Some p \<Rightarrow> p)"

definition notePosition :: "('tx \<Rightarrow> hash) \<Rightarrow> hash_event \<Rightarrow> StakerID \<Rightarrow> (hash \<rightharpoonup> TxPosition) \<Rightarrow> nat \<times> 'tx \<Rightarrow> (hash \<rightharpoonup> TxPosition)" where
  "notePosition H h creator m itx = (case itx of (i, tx) \<Rightarrow>
     if m (H tx) \<noteq> None then m
     else m(H tx \<mapsto> \<lparr>tpBlock = 0, tpEvent = h, tpCreator = creator, tpEventOffset = of_nat i, tpBlockOffset = 0\<rparr>))"

definition notePositions :: "('tx \<Rightarrow> hash) \<Rightarrow> ('tx Event \<Rightarrow> hash_event) \<Rightarrow> 'tx Event list \<Rightarrow> (hash \<rightharpoonup> TxPosition)" where
  "notePositions H hashOf evs =
     foldl (\<lambda>m e. foldl (notePosition H (hashOf e) (eCreator e)) m (enumerate 0 (eTransactions e))) Map.empty evs"

definition setBlockPositions :: "('tx \<Rightarrow> hash) \<Rightarrow> Block \<Rightarrow> 'tx list \<Rightarrow> (hash \<rightharpoonup> TxPosition) \<Rightarrow> (hash \<rightharpoonup> TxPosition)" where
  "setBlockPositions H number txs m =
     foldl (\<lambda>m (i, tx). m(H tx \<mapsto> (positionOf m (H tx))\<lparr>tpBlock := number, tpBlockOffset := of_nat i\<rparr>)) m (enumerate 0 txs)"

subsection \<open>Refunds and scores\<close>

definition minGasPowerRefund :: u64 where "minGasPowerRefund = 800"

text \<open>The transactions and \<open>receipts[i]\<close> in step; a transaction without a receipt is an index out of range.\<close>

fun refundLoop :: "'tx tx_ops \<Rightarrow> Epoch \<Rightarrow> (hash \<rightharpoonup> TxPosition) \<Rightarrow> 'tx list \<Rightarrow> 'l receipt list \<Rightarrow> 'tx gossip \<Rightarrow> 'tx gossip option" where
  "refundLoop ops epoch m [] rs s = Some s"
| "refundLoop ops epoch m (tx # txs) [] s = None"
| "refundLoop ops epoch m (tx # txs) (r # rs) s =
     (let txEventPos = positionOf m (rTxHash r) in
      if txGas ops tx < rGasUsed r then None
      else let notUsedGas = txGas ops tx - rGasUsed r;
               s = (if notUsedGas \<ge> minGasPowerRefund then IncGasPowerRefund epoch (tpCreator txEventPos) notUsedGas s else s)
           in refundLoop ops epoch m txs rs s)"

definition incGasPowerRefund :: "'tx tx_ops \<Rightarrow> Epoch \<Rightarrow> 'tx list \<Rightarrow> 'l receipt list \<Rightarrow> (hash \<rightharpoonup> TxPosition) \<Rightarrow> bool \<Rightarrow> 'tx gossip \<Rightarrow> 'tx gossip option" where
  "incGasPowerRefund ops epoch txs rs m seal s = do {
     s \<leftarrow> refundLoop ops epoch m txs rs s;
     Some (if seal then DelGasPowerRefunds (epoch - 1) s else s) }"

fun originationLoop :: "'tx tx_ops \<Rightarrow> (hash \<rightharpoonup> TxPosition) \<Rightarrow> 'tx list \<Rightarrow> 'l receipt list \<Rightarrow> scores \<Rightarrow> scores option" where
  "originationLoop ops m [] rs s = Some s"
| "originationLoop ops m (tx # txs) [] s = None"
| "originationLoop ops m (tx # txs) (r # rs) s =
     originationLoop ops m txs rs (AddDirtyOriginationScore (tpCreator (positionOf m (rTxHash r))) (uint (rGasUsed r) * txGasPrice ops tx) s)"

definition updateOriginationScores :: "'tx tx_ops \<Rightarrow> 'tx list \<Rightarrow> 'l receipt list \<Rightarrow> (hash \<rightharpoonup> TxPosition) \<Rightarrow> bool \<Rightarrow> scores \<Rightarrow> scores option" where
  "updateOriginationScores ops txs rs m seal s = do {
     s \<leftarrow> originationLoop ops m txs rs s;
     Some (if seal then sealOriginationScores s else s) }"

subsection \<open>Epochs\<close>

record EpochStats =
  esStart :: Timestamp
  esEnd :: Timestamp
  esTotalFee :: int

definition pendingEpoch :: Epoch where "pendingEpoch = - 1 - 2"

definition updateEpochStats ::
    "Epoch \<Rightarrow> Timestamp \<Rightarrow> int \<Rightarrow> bool \<Rightarrow> (Epoch \<rightharpoonup> EpochStats) \<Rightarrow> (EpochStats \<times> (Epoch \<rightharpoonup> EpochStats)) option" where
  "updateEpochStats epoch t0 blockFee seal tab = do {
     stats \<leftarrow> tab pendingEpoch;
     let stats = stats\<lparr>esTotalFee := esTotalFee stats + blockFee\<rparr>;
     Some (if seal
       then let stats = stats\<lparr>esEnd := t0\<rparr> in
         (stats, tab(epoch \<mapsto> stats, pendingEpoch \<mapsto> \<lparr>esStart = t0, esEnd = 0, esTotalFee = 0\<rparr>))
       else (stats, tab(pendingEpoch \<mapsto> stats))) }"

definition shouldSealEpoch :: "DagConfig \<Rightarrow> Timestamp \<Rightarrow> Block \<times> Timestamp \<Rightarrow> Block \<Rightarrow> Timestamp \<Rightarrow> StakerID list \<Rightarrow> bool" where
  "shouldSealEpoch dag maxEpochDuration lastVoting index t cheaters =
     (let seal = index - fst lastVoting \<ge> ucast (MaxEpochBlocks dag);
          seal = (seal \<or> t - snd lastVoting \<ge> maxEpochDuration)
      in seal \<or> length cheaters > 0)"

definition legacyShouldSealEpoch :: "DagConfig \<Rightarrow> Timestamp \<Rightarrow> Timestamp \<Rightarrow> Timestamp \<Rightarrow> Frame \<Rightarrow> StakerID list \<Rightarrow> bool" where
  "legacyShouldSealEpoch dag maxEpochDuration epochStart t decidedFrame cheaters =
     (let seal = decidedFrame \<ge> MaxEpochBlocks dag;
          seal = (seal \<or> t - epochStart \<ge> maxEpochDuration)
      in seal \<or> length cheaters > 0)"

subsection \<open>What is spilled\<close>

lemma GetEvent_stored:
  assumes "evicts (evEvents C)" "coherent (gEvents s)"
  shows "\<exists>t. GetEvent C h s = (ctTab (gEvents s) h, s\<lparr>gEvents := t\<rparr>) \<and> coherent t \<and> ctTab t = ctTab (gEvents s)"
proof -
  note look = map_table.look [OF cached_map_table [OF assms(1)] assms(2), of h]
  obtain w t where "ct_get (evEvents C) h (gEvents s) = (w, t)" by fastforce
  with look show ?thesis by (auto simp: GetEvent_def)
qed

definition gasOf :: "'tx gossip \<Rightarrow> hash_event list \<Rightarrow> nat" where
  "gasOf s evs = sum_list (map (\<lambda>h. case ctTab (gEvents s) h of None \<Rightarrow> 0 | Some e \<Rightarrow> unat (eGasPowerUsed e)) evs)"

definition spill_ok :: "u64 \<Rightarrow> hash_event list \<Rightarrow> 'tx gossip \<Rightarrow> nat \<Rightarrow> 'tx Event list \<Rightarrow> 'tx gossip \<Rightarrow> bool" where
  "spill_ok limit evs s k full s' \<longleftrightarrow> k \<le> length evs \<and> map (ctTab (gEvents s)) (drop k evs) = map Some full \<and> gasOf s (drop k evs) \<le> unat limit \<and>
     (0 < k \<longrightarrow> unat limit < gasOf s (drop (k - 1) evs)) \<and> ctTab (gEvents s') = ctTab (gEvents s)"

lemma gasOf_cong: "ctTab (gEvents s) = ctTab (gEvents s') \<Longrightarrow> gasOf s evs = gasOf s' evs"
  by (simp add: gasOf_def)

declare spillLoop.simps [simp del]

text \<open>The events behind position \<open>i\<close> have been kept so far.\<close>

definition spilling :: "u64 \<Rightarrow> hash_event list \<Rightarrow> 'tx gossip \<Rightarrow> nat \<Rightarrow> u64 \<Rightarrow> 'tx Event list \<Rightarrow> bool" where
  "spilling limit evs s k gas full \<longleftrightarrow> coherent (gEvents s) \<and> k \<le> length evs \<and>
     map (ctTab (gEvents s)) (drop k evs) = map Some full \<and> unat gas = gasOf s (drop k evs) \<and> gas \<le> limit"

definition spillable :: "u64 \<Rightarrow> hash_event list \<Rightarrow> 'tx gossip \<Rightarrow> bool" where
  "spillable limit evs s \<longleftrightarrow> (\<forall>h \<in> set evs. \<exists>e. ctTab (gEvents s) h = Some e \<and> unat limit + unat (eGasPowerUsed e) < 2 ^ 64)"

lemma spill_step:
  assumes C: "evicts (evEvents C)" and i: "i < length evs" and st: "spillable limit evs s" and sp: "spilling limit evs s (Suc i) gas full"
  obtains e t where "GetEvent C (evs ! i) s = (Some e, s\<lparr>gEvents := t\<rparr>)" "ctTab t = ctTab (gEvents s)" "spillable limit evs (s\<lparr>gEvents := t\<rparr>)"
    "gas + eGasPowerUsed e > limit \<Longrightarrow> spill_ok limit evs s (Suc i) full (s\<lparr>gEvents := t\<rparr>)"
    "\<not> gas + eGasPowerUsed e > limit \<Longrightarrow> spilling limit evs (s\<lparr>gEvents := t\<rparr>) i (gas + eGasPowerUsed e) (e # full)"
proof -
  have c: "coherent (gEvents s)" and m: "map (ctTab (gEvents s)) (drop (Suc i) evs) = map Some full" and g: "unat gas = gasOf s (drop (Suc i) evs)" "gas \<le> limit"
    using sp by (simp_all add: spilling_def)
  obtain e where e: "ctTab (gEvents s) (evs ! i) = Some e" "unat limit + unat (eGasPowerUsed e) < 2 ^ 64" using st nth_mem [OF i] unfolding spillable_def by blast
  obtain t where t: "GetEvent C (evs ! i) s = (Some e, s\<lparr>gEvents := t\<rparr>)" "coherent t" "ctTab t = ctTab (gEvents s)" using GetEvent_stored [OF C c, of "evs ! i"] e(1) by auto
  have d: "drop i evs = evs ! i # drop (Suc i) evs" using i by (simp add: Cons_nth_drop_Suc)
  have "unat gas + unat (eGasPowerUsed e) < 2 ^ 64" using e(2) g(2) by (simp add: word_le_nat_alt)
  then have "unat (gas + eGasPowerUsed e) = unat gas + unat (eGasPowerUsed e)" by (simp add: unat_word_ariths)
  then have u: "unat (gas + eGasPowerUsed e) = gasOf s (drop i evs)" using g(1) d e(1) by (simp add: gasOf_def)
  have k: "gasOf (s\<lparr>gEvents := t\<rparr>) = gasOf s" using t(3) by (simp add: gasOf_def fun_eq_iff)
  show ?thesis
  proof (rule that [OF t(1,3)])
    show "spillable limit evs (s\<lparr>gEvents := t\<rparr>)" using st t(3) by (simp add: spillable_def)
    show "spill_ok limit evs s (Suc i) full (s\<lparr>gEvents := t\<rparr>)" if "gas + eGasPowerUsed e > limit"
      using that u m g i t(3) by (simp add: spill_ok_def word_less_nat_alt word_le_nat_alt)
    show "spilling limit evs (s\<lparr>gEvents := t\<rparr>) i (gas + eGasPowerUsed e) (e # full)" if "\<not> gas + eGasPowerUsed e > limit"
      using that u d e(1) m t(2,3) i k by (simp add: spilling_def not_less)
  qed
qed

lemma spillLoop_ok:
  assumes C: "evicts (evEvents C)"
  shows "i < length evs \<Longrightarrow> spillable limit evs s \<Longrightarrow> spilling limit evs s (Suc i) gas full \<Longrightarrow>
     \<exists>k full' s'. spillLoop C limit evs i gas full s = Some (k, full', s') \<and> spill_ok limit evs s k full' s'"
proof (induction i arbitrary: gas full s)
  case 0
  from spill_step [OF C 0] obtain e t where e: "GetEvent C (evs ! 0) s = (Some e, s\<lparr>gEvents := t\<rparr>)" "ctTab t = ctTab (gEvents s)"
    "gas + eGasPowerUsed e > limit \<Longrightarrow> spill_ok limit evs s (Suc 0) full (s\<lparr>gEvents := t\<rparr>)"
    "\<not> gas + eGasPowerUsed e > limit \<Longrightarrow> spilling limit evs (s\<lparr>gEvents := t\<rparr>) 0 (gas + eGasPowerUsed e) (e # full)" by blast
  have "spill_ok limit evs s 0 (e # full) (s\<lparr>gEvents := t\<rparr>)" if "spilling limit evs (s\<lparr>gEvents := t\<rparr>) 0 (gas + eGasPowerUsed e) (e # full)"
    using that e(2) gasOf_cong [of "s\<lparr>gEvents := t\<rparr>" s] by (auto simp: spilling_def spill_ok_def word_le_nat_alt)
  then show ?case using e by (simp add: spillLoop.simps [of _ _ _ 0] Let_def)
next
  case (Suc j)
  from spill_step [OF C Suc.prems] obtain e t where e: "GetEvent C (evs ! Suc j) s = (Some e, s\<lparr>gEvents := t\<rparr>)" "ctTab t = ctTab (gEvents s)" "spillable limit evs (s\<lparr>gEvents := t\<rparr>)"
    "gas + eGasPowerUsed e > limit \<Longrightarrow> spill_ok limit evs s (Suc (Suc j)) full (s\<lparr>gEvents := t\<rparr>)"
    "\<not> gas + eGasPowerUsed e > limit \<Longrightarrow> spilling limit evs (s\<lparr>gEvents := t\<rparr>) (Suc j) (gas + eGasPowerUsed e) (e # full)" by blast
  show ?case
  proof (cases "gas + eGasPowerUsed e > limit")
    case True
    then show ?thesis using e by (simp add: spillLoop.simps [of _ _ _ "Suc j"])
  next
    case False
    from Suc.IH [OF _ e(3) e(5) [OF False]] Suc.prems(1) obtain k full' s' where
      r: "spillLoop C limit evs j (gas + eGasPowerUsed e) (e # full) (s\<lparr>gEvents := t\<rparr>) = Some (k, full', s')" "spill_ok limit evs (s\<lparr>gEvents := t\<rparr>) k full' s'" by auto
    have "spill_ok limit evs s k full' s'" using r(2) e(2) gasOf_cong [of "s\<lparr>gEvents := t\<rparr>" s] by (simp add: spill_ok_def)
    then show ?thesis using e(1) False r(1) by (simp add: spillLoop.simps [of _ _ _ "Suc j"])
  qed
qed


subsection \<open>Who is credited\<close>

lemma assembled: "foldl (\<lambda>(txs, evs) e. (txs @ eTransactions e, evs @ [e])) (txs0, evs0) es = (txs0 @ concat (map eTransactions es), evs0 @ es)"
  by (induction es arbitrary: txs0 evs0) auto

lemma assembleEvmBlock_eq:
  "assembleEvmBlock C limit block s = (if bSkippedTxs block \<noteq> [] then None
     else do { (block, es, s) \<leftarrow> spillBlockEvents C limit block s; Some (block, concat (map eTransactions es), es @ es, s) })"
  by (simp add: assembleEvmBlock_def assembled)

text \<open>The creator of the first event of the block with a transaction of that hash.\<close>

definition firstCreator :: "('tx \<Rightarrow> hash) \<Rightarrow> 'tx Event list \<Rightarrow> hash \<Rightarrow> StakerID" where
  "firstCreator H es h = (case find (\<lambda>e. h \<in> H ` set (eTransactions e)) es of None \<Rightarrow> 0 | Some e \<Rightarrow> eCreator e)"

lemma find_append: "find P (xs @ ys) = (case find P xs of None \<Rightarrow> find P ys | Some x \<Rightarrow> Some x)"
  by (induction xs) auto

lemma notes_keep: "m k = Some p \<Longrightarrow> foldl (notePosition H hh c) m (enumerate n txs) k = Some p"
proof (induction txs arbitrary: m n)
  case (Cons tx txs)
  have "notePosition H hh c m (n, tx) k = Some p" using Cons.prems by (auto simp: notePosition_def)
  with Cons.IH [of "notePosition H hh c m (n, tx)" "Suc n"] show ?case by simp
qed simp

lemma notes_event:
  fixes H :: "'tx \<Rightarrow> hash"
  shows "foldl (notePosition H hh c) m (enumerate n txs) k = None \<longleftrightarrow> m k = None \<and> k \<notin> H ` set txs"
    "m k = None \<Longrightarrow> k \<in> H ` set txs \<Longrightarrow> \<exists>p. foldl (notePosition H hh c) m (enumerate n txs) k = Some p \<and> tpCreator p = c"
proof -
  show "foldl (notePosition H hh c) m (enumerate n txs) k = None \<longleftrightarrow> m k = None \<and> k \<notin> H ` set txs"
    by (induction txs arbitrary: m n) (auto simp: notePosition_def)
  show "m k = None \<Longrightarrow> k \<in> H ` set txs \<Longrightarrow> \<exists>p. foldl (notePosition H hh c) m (enumerate n txs) k = Some p \<and> tpCreator p = c"
  proof (induction txs arbitrary: m n)
    case (Cons tx txs)
    show ?case
    proof (cases "H tx = k")
      case True
      let ?p = "\<lparr>tpBlock = 0, tpEvent = hh, tpCreator = c, tpEventOffset = of_nat n, tpBlockOffset = 0\<rparr>"
      have "notePosition H hh c m (n, tx) = m(k \<mapsto> ?p)" using True Cons.prems(1) by (simp add: notePosition_def)
      then show ?thesis using notes_keep [of "m(k \<mapsto> ?p)" k ?p H hh c "Suc n" txs] by simp
    next
      case False
      have "notePosition H hh c m (n, tx) k = None" using False Cons.prems(1) by (auto simp: notePosition_def)
      with Cons.IH [of "notePosition H hh c m (n, tx)" "Suc n"] show ?thesis using False Cons.prems(2) by auto
    qed
  qed simp
qed

lemma notePositions_spec:
  shows "notePositions H hashOf es k = None \<longleftrightarrow> (\<forall>e \<in> set es. k \<notin> H ` set (eTransactions e))"
    "tpCreator (positionOf (notePositions H hashOf es) k) = firstCreator H es k"
proof -
  have "(notePositions H hashOf es k = None \<longleftrightarrow> (\<forall>e \<in> set es. k \<notin> H ` set (eTransactions e))) \<and>
      tpCreator (positionOf (notePositions H hashOf es) k) = firstCreator H es k"
  proof (induction es rule: rev_induct)
    case (snoc e es)
    let ?m = "notePositions H hashOf es"
    have m: "notePositions H hashOf (es @ [e]) = foldl (notePosition H (hashOf e) (eCreator e)) ?m (enumerate 0 (eTransactions e))" by (simp add: notePositions_def)
    show ?case
    proof (cases "?m k")
      case None
      then have f: "find (\<lambda>e. k \<in> H ` set (eTransactions e)) es = None" using snoc by (simp add: find_None_iff)
      then have "firstCreator H (es @ [e]) k = (if k \<in> H ` set (eTransactions e) then eCreator e else 0)"
        by (simp add: firstCreator_def find_append)
      then show ?thesis using None snoc notes_event [where m = ?m and k = k and n = 0 and txs = "eTransactions e" and H = H and hh = "hashOf e" and c = "eCreator e"] m
        by (cases "k \<in> H ` set (eTransactions e)") (auto simp: positionOf_def noPosition_def)
    next
      case (Some p)
      then have "find (\<lambda>e. k \<in> H ` set (eTransactions e)) es \<noteq> None" using snoc by (auto simp: find_None_iff)
      then have "firstCreator H (es @ [e]) k = firstCreator H es k" by (auto simp: firstCreator_def find_append split: option.split)
      then show ?thesis using Some snoc notes_keep [of ?m k p H "hashOf e" "eCreator e" 0 "eTransactions e"] m by (auto simp: positionOf_def)
    qed
  qed (simp add: notePositions_def firstCreator_def positionOf_def noPosition_def)
  then show "notePositions H hashOf es k = None \<longleftrightarrow> (\<forall>e \<in> set es. k \<notin> H ` set (eTransactions e))"
    "tpCreator (positionOf (notePositions H hashOf es) k) = firstCreator H es k" by blast+
qed

text \<open>The second copies of the events change nothing.\<close>

lemma firstCreator_twice: "firstCreator H (es @ es) = firstCreator H es"
  by (auto simp: firstCreator_def fun_eq_iff find_append split: option.split)

lemma setBlockPositions_creator: "tpCreator (positionOf (setBlockPositions H number txs m) k) = tpCreator (positionOf m k)"
proof -
  have "tpCreator (positionOf (foldl (\<lambda>m (i, tx). m(H tx \<mapsto> (positionOf m (H tx))\<lparr>tpBlock := number, tpBlockOffset := of_nat i\<rparr>)) m (enumerate n txs)) k) = tpCreator (positionOf m k)" for n
    by (induction txs arbitrary: m n) (auto simp: positionOf_def)
  then show ?thesis by (simp add: setBlockPositions_def)
qed

subsection \<open>What is credited\<close>

lemma GetGasPowerRefund_Inc: "GetGasPowerRefund epoch v (IncGasPowerRefund epoch c diff s) = GetGasPowerRefund epoch v s + (if c = v then diff else 0)"
  by (simp add: GetGasPowerRefund_def IncGasPowerRefund_def)

lemma refundLoop_exact:
  assumes "list_all2 (\<lambda>tx r. rGasUsed r \<le> txGas ops tx) txs rs"
  shows "\<exists>s'. refundLoop ops epoch m txs rs s = Some s' \<and> (\<forall>v. GetGasPowerRefund epoch v s' = GetGasPowerRefund epoch v s +
     sum_list (map (\<lambda>(tx, r). txGas ops tx - rGasUsed r)
       (filter (\<lambda>(tx, r). minGasPowerRefund \<le> txGas ops tx - rGasUsed r \<and> tpCreator (positionOf m (rTxHash r)) = v) (zip txs rs))))"
  using assms
proof (induction arbitrary: s rule: list_all2_induct)
  case (Cons tx txs r rs)
  let ?s = "if minGasPowerRefund \<le> txGas ops tx - rGasUsed r then IncGasPowerRefund epoch (tpCreator (positionOf m (rTxHash r))) (txGas ops tx - rGasUsed r) s else s"
  have "\<not> txGas ops tx < rGasUsed r" using Cons.hyps(1) by simp
  then have "refundLoop ops epoch m (tx # txs) (r # rs) s = refundLoop ops epoch m txs rs ?s" by (simp add: Let_def)
  with Cons.IH [of ?s] show ?case by (auto simp: GetGasPowerRefund_Inc add_ac)
qed simp

lemma originationLoop_exact:
  assumes "length txs = length rs"
  shows "\<exists>s'. originationLoop ops m txs rs s = Some s' \<and> (\<forall>v. getScore (scDirtyOrigination s') v = getScore (scDirtyOrigination s) v +
     sum_list (map (\<lambda>(tx, r). uint (rGasUsed r) * txGasPrice ops tx) (filter (\<lambda>(tx, r). tpCreator (positionOf m (rTxHash r)) = v) (zip txs rs))))"
  using assms
proof (induction txs rs arbitrary: s rule: list_induct2)
  case (Cons tx txs r rs)
  with Cons.IH [of "AddDirtyOriginationScore (tpCreator (positionOf m (rTxHash r))) (uint (rGasUsed r) * txGasPrice ops tx) s"]
  show ?case by (auto simp: AddDirtyOriginationScore_def getScore_add)
qed simp

text \<open>The accessors of a transaction agree with its message.\<close>

definition messages_ok :: "('s, 'l, 'tx) evm_env \<Rightarrow> 'tx tx_ops \<Rightarrow> bool" where
  "messages_ok E ops \<longleftrightarrow> (\<forall>tx msg. AsMessage E tx = Some msg \<longrightarrow> mGas msg = txGas ops tx \<and> mGasPrice msg = txGasPrice ops tx)"


subsection \<open>Witnesses\<close>

definition two_events :: "u64 Event list" where
  "two_events = [(full_event 1 [] 1 10 28000 [0])\<lparr>eCreator := 3\<rparr>, (full_event 1 [] 1 10 28000 [0, 1])\<lparr>eCreator := 4\<rparr>]"

definition two_stored :: "u64 gossip" where
  "two_stored = (svStore quiet_service)\<lparr>gEvents := \<lparr>ctTab = [event_id 1 \<mapsto> two_events ! 0, event_id 2 \<mapsto> two_events ! 1], ctLru = Map.empty\<rparr>\<rparr>"

definition two_block :: BlockData where
  "two_block = NewBlock 1 100 (event_id 2) (event_id 0) [event_id 1, event_id 2]"

lemma event_id_eq: "event_id a = event_id b \<longleftrightarrow> a = b"
  by (simp add: event_id_def)


definition ledger_ops :: "u64 tx_ops" where
  "ledger_ops = \<lparr>txValue = \<lambda>_. 5, txGasPrice = \<lambda>_. 2, txGas = \<lambda>_. 30000, txData = \<lambda>_. [], txCreates = \<lambda>_. False\<rparr>"


end
